(* ===== verification/Prelude.thy ===== *)
theory Prelude
  imports Main "HOL-Library.Word"
begin

text \<open>
  Shared vocabulary of the development: the machine integers of the C sources, the layout of
  16-bit integers in memory on the (little-endian) Android targets, byte-order conversion,
  and the collections of rewrite rules that the component theories fill.
\<close>

unbundle bit_operations_syntax

named_theorems wire_simps \<open>rewrite rules for byte layouts\<close>
named_theorems io_simps \<open>rewrite rules for socket transfers\<close>

type_synonym u8 = "8 word"
type_synonym u16 = "16 word"
type_synonym u32 = "32 word"
type_synonym usize = "64 word"
type_synonym bytes = "u8 list"

section \<open>Sixteen-bit integers in memory\<close>

text \<open>The two bytes a \<^verbatim>\<open>uint16_t\<close> occupies in memory, low byte first.\<close>

definition mem16 :: "u16 \<Rightarrow> bytes" where
  "mem16 v = [ucast v, ucast (drop_bit 8 v)]"

definition rd_mem16 :: "u8 \<Rightarrow> u8 \<Rightarrow> u16" where
  "rd_mem16 a b = push_bit 8 (ucast b) OR ucast a"

text \<open>\<^verbatim>\<open>htons\<close> and \<^verbatim>\<open>ntohs\<close> swap the two bytes on a little-endian machine.\<close>

definition htons :: "u16 \<Rightarrow> u16" where
  "htons v = push_bit 8 v OR drop_bit 8 v"

abbreviation ntohs :: "u16 \<Rightarrow> u16" where
  "ntohs \<equiv> htons"

text \<open>Big-endian (network order) bytes of a 16-bit and of a 32-bit integer.\<close>

definition be16 :: "u16 \<Rightarrow> bytes" where
  "be16 v = [ucast (drop_bit 8 v), ucast v]"

definition rd_be16 :: "u8 \<Rightarrow> u8 \<Rightarrow> u16" where
  "rd_be16 a b = push_bit 8 (ucast a) OR ucast b"

definition be32 :: "u32 \<Rightarrow> bytes" where
  "be32 v = [ucast (drop_bit 24 v), ucast (drop_bit 16 v), ucast (drop_bit 8 v), ucast v]"

definition rd_be32 :: "u8 \<Rightarrow> u8 \<Rightarrow> u8 \<Rightarrow> u8 \<Rightarrow> u32" where
  "rd_be32 a b c d = push_bit 24 (ucast a) OR push_bit 16 (ucast b) OR push_bit 8 (ucast c) OR ucast d"

lemma htons_htons [simp, wire_simps]: "htons (htons v) = v"
  by (rule bit_word_eqI) (auto simp: htons_def bit_simps)

lemma mem16_htons [wire_simps]: "mem16 (htons v) = be16 v"
proof -
  have "ucast (htons v) = (ucast (drop_bit 8 v) :: u8)"
    by (rule bit_word_eqI) (auto simp: htons_def bit_simps)
  moreover have "ucast (drop_bit 8 (htons v)) = (ucast v :: u8)"
    by (rule bit_word_eqI) (auto simp: htons_def bit_simps dest: bit_imp_le_length)
  ultimately show ?thesis by (simp add: mem16_def be16_def)
qed

lemma length_mem16 [simp]: "length (mem16 v) = 2"
  by (simp add: mem16_def)

lemma length_be16 [simp]: "length (be16 v) = 2"
  by (simp add: be16_def)

lemma length_be32 [simp]: "length (be32 v) = 4"
  by (simp add: be32_def)

lemma rd_mem16_mem16 [wire_simps]: "rd_mem16 (ucast v) (ucast (drop_bit 8 v)) = v"
  by (rule bit_word_eqI) (auto simp: rd_mem16_def bit_simps dest: bit_imp_le_length)

lemma rd_be16_be16 [wire_simps]: "rd_be16 (ucast (drop_bit 8 v)) (ucast v) = v"
  by (rule bit_word_eqI) (auto simp: rd_be16_def bit_simps dest: bit_imp_le_length)

lemma rd_be32_be32 [wire_simps]:
  "rd_be32 (ucast (drop_bit 24 v)) (ucast (drop_bit 16 v)) (ucast (drop_bit 8 v)) (ucast v) = v"
proof (rule bit_word_eqI)
  fix n
  assume "n < LENGTH(32)"
  then consider "n < 8" | "8 \<le> n" "n < 16" | "16 \<le> n" "n < 24" | "24 \<le> n" "n < 32"
    by fastforce
  then show "bit (rd_be32 (ucast (drop_bit 24 v)) (ucast (drop_bit 16 v)) (ucast (drop_bit 8 v)) (ucast v)) n
      = bit v n"
    by cases (auto simp: rd_be32_def bit_simps)
qed

lemma rd_be32_nth: "rd_be32 (be32 v ! 0) (be32 v ! 1) (be32 v ! 2) (be32 v ! 3) = v"
  by (simp add: be32_def rd_be32_be32)

lemma rd_be16_one: "rd_be16 a b = 1 \<Longrightarrow> a = 0"
proof -
  assume e: "rd_be16 a b = 1"
  show "a = 0"
  proof (rule bit_word_eqI)
    fix n
    assume n: "n < LENGTH(8)"
    then have "bit a n = bit (rd_be16 a b) (n + 8)"
      by (auto simp: rd_be16_def bit_simps dest: bit_imp_le_length)
    then show "bit a n = bit 0 n" by (simp add: e bit_1_iff)
  qed
qed

lemma htons_rd_mem16: "htons (rd_mem16 a b) = rd_be16 a b"
  by (rule bit_word_eqI) (auto simp: htons_def rd_mem16_def rd_be16_def bit_simps dest: bit_imp_le_length)

section \<open>Bytes and lengths\<close>

lemma unat_u8_less [simp]: "unat (b :: u8) < 256"
proof -
  have "unat b < 2 ^ LENGTH(8)" by (rule unsigned_less)
  then show ?thesis by simp
qed

lemma unat_u16_less [simp]: "unat (v :: u16) < 65536"
proof -
  have "unat v < 2 ^ LENGTH(16)" by (rule unsigned_less)
  then show ?thesis by simp
qed

lemma unat_of_nat_u8: "n < 256 \<Longrightarrow> unat (of_nat n :: u8) = n"
  by (simp add: unat_of_nat)

lemma uint_of_nat_u8: "n < 256 \<Longrightarrow> uint (of_nat n :: u8) = int n"
  by (metis of_nat_unat unat_of_nat_u8)

lemma unat_of_nat_u16: "n < 65536 \<Longrightarrow> unat (of_nat n :: u16) = n"
  by (simp add: unat_of_nat)

lemma unat_of_nat_u8_mod: "unat (of_nat n :: u8) = n mod 256"
  by (simp add: unat_of_nat)

lemma uint_u8_method [simp]:
  "uint (b :: u8) = 0 \<longleftrightarrow> b = 0" "uint (b :: u8) = 2 \<longleftrightarrow> b = 2"
  by (simp_all add: word_uint_eq_iff)

lemma minus_one_word_u8: "(- 1 :: u8) = 255"
  by simp

section \<open>Remainders\<close>

lemma mod_add_cancel_nat: "(x + a) mod m = (y + a) mod m \<Longrightarrow> x mod m = y mod (m :: nat)"
proof -
  assume "(x + a) mod m = (y + a) mod m"
  then have "(int x + int a) mod int m = (int y + int a) mod int m"
    by (metis of_nat_add of_nat_mod)
  then have "(int x + int a - int a) mod int m = (int y + int a - int a) mod int m"
    by (rule mod_diff_cong) simp
  then show ?thesis by (simp flip: of_nat_mod)
qed

end
