(* ===== verification/Sock_IO.thy ===== *)
theory Sock_IO
  imports Prelude
begin

text \<open>
  Blocking-style transfers on non-blocking stream sockets:
  \<^verbatim>\<open>hev_task_io_socket_recv\<close>, \<^verbatim>\<open>_send\<close>, \<^verbatim>\<open>_recvmsg\<close>, \<^verbatim>\<open>_sendmsg\<close> of
  \<^verbatim>\<open>hev/third-part/hev-task-system/src/lib/io/socket/hev-task-io-socket.c\<close>, and the yielder
  \<^verbatim>\<open>hev_socks5_task_io_yielder\<close> of \<^verbatim>\<open>hev/src/core/src/hev-socks5-misc.c\<close>.

  The kernel and the peer are the environment: a connection carries the list of outcomes that
  successive \<^verbatim>\<open>recv\<close> calls will see (data in any segmentation, would-block, end of stream,
  error) and the list of outcomes of \<^verbatim>\<open>send\<close> calls.  An exhausted receive list is the end of
  the stream, an exhausted send list accepts everything.  \<open>RAgain r\<close> and \<open>TAgain r\<close> carry
  the milliseconds the timer has left when the sleeping task is woken, which is what
  \<^verbatim>\<open>hev_task_timer_wait\<close> returns.  The return codes are C integers; \<open>errno_again\<close> says
  whether \<^verbatim>\<open>errno\<close> is \<^verbatim>\<open>EAGAIN\<close>.
\<close>

section \<open>The environment of a stream socket\<close>

datatype rx_event = RData bytes | RAgain int | REof | RError

datatype tx_event = TAccept nat | TAgain int | TError

record conn =
  rx :: "rx_event list"
  tx :: "tx_event list"
  sent :: bytes
  errno_again :: bool

datatype sys_out = Data bytes | Again int | Closed | Fail

fun sys_recv1 :: "nat \<Rightarrow> rx_event list \<Rightarrow> sys_out \<times> rx_event list" where
  "sys_recv1 n [] = (Closed, [])"
| "sys_recv1 n (RData bs # es) =
     (if bs = [] then sys_recv1 n es
      else (Data (take n bs), if length bs \<le> n then es else RData (drop n bs) # es))"
| "sys_recv1 n (RAgain r # es) = (Again r, es)"
| "sys_recv1 n (REof # es) = (Closed, REof # es)"
| "sys_recv1 n (RError # es) = (Fail, es)"

definition sys_recv :: "nat \<Rightarrow> rx_event list \<Rightarrow> sys_out \<times> rx_event list" where
  "sys_recv n es = (if n = 0 then (Data [], es) else sys_recv1 n es)"

datatype send_out = Accepted nat | SAgain int | SFail

fun sys_send :: "nat \<Rightarrow> tx_event list \<Rightarrow> send_out \<times> tx_event list" where
  "sys_send n [] = (Accepted n, [])"
| "sys_send n (TAccept k # es) = (Accepted (min k n), es)"
| "sys_send n (TAgain r # es) = (SAgain r, es)"
| "sys_send n (TError # es) = (SFail, es)"

section \<open>Yielders\<close>

text \<open>\<^verbatim>\<open>hev_task_sleep\<close>: \<open>r\<close> is what the timer reports when the task runs again.\<close>

definition hev_task_sleep :: "int \<Rightarrow> int \<Rightarrow> int" where
  "hev_task_sleep ms r = (if ms = 0 then 0 else r)"

datatype yield_type = HEV_TASK_YIELD | HEV_TASK_WAITIO

definition hev_socks5_task_io_yielder :: "int \<Rightarrow> yield_type \<Rightarrow> int \<Rightarrow> int" where
  "hev_socks5_task_io_yielder timeout type r =
     (if type = HEV_TASK_YIELD then 0
      else if timeout < 0 then 0
      else if hev_task_sleep timeout r \<le> 0 then -1 else 0)"

section \<open>Receiving\<close>

fun rx_weight :: "rx_event list \<Rightarrow> nat" where
  "rx_weight [] = 0"
| "rx_weight (RData bs # es) = Suc (length bs + rx_weight es)"
| "rx_weight (_ # es) = Suc (rx_weight es)"

lemma sys_recv1_weight:
  "sys_recv1 n es = (out, es') \<Longrightarrow> rx_weight es' \<le> rx_weight es
     \<and> (case out of Again r \<Rightarrow> rx_weight es' < rx_weight es
        | Data bs \<Rightarrow> 0 < n \<longrightarrow> rx_weight es' < rx_weight es
        | _ \<Rightarrow> True)"
  by (induction n es arbitrary: out es' rule: sys_recv1.induct) (auto split: if_splits sys_out.splits)

lemma sys_recv_weight:
  assumes "sys_recv n es = (out, es')"
  shows "out = Again r \<Longrightarrow> rx_weight es' < rx_weight es"
    and "out = Data bs \<Longrightarrow> bs \<noteq> [] \<Longrightarrow> rx_weight es' < rx_weight es"
  using assms sys_recv1_weight [of n es out es']
  by (auto simp: sys_recv_def split: if_splits)

text \<open>
  The retry loop of \<^verbatim>\<open>hev_task_io_socket_recv\<close>: \<open>wa\<close> is \<^verbatim>\<open>MSG_WAITALL\<close>, \<open>dw\<close> is
  \<^verbatim>\<open>MSG_DONTWAIT\<close>, \<open>acc\<close> the bytes already at \<^verbatim>\<open>buf\<close> (\<^verbatim>\<open>size\<close> of them).
\<close>

definition size_or :: "bytes \<Rightarrow> int \<Rightarrow> int" where
  "size_or acc s = (if acc \<noteq> [] then int (length acc) else s)"

function recv_loop ::
    "bool \<Rightarrow> bool \<Rightarrow> (int \<Rightarrow> int) \<Rightarrow> nat \<Rightarrow> bytes \<Rightarrow> conn \<Rightarrow> int \<times> bytes \<times> conn" where
  "recv_loop wa dw yl len acc c =
     (case sys_recv (len - length acc) (rx c) of
        (Again r, es) \<Rightarrow>
          let c1 = c\<lparr>rx := es, errno_again := True\<rparr> in
          if \<not> dw then (if yl r \<noteq> 0 then (size_or acc (-2), acc, c1) else recv_loop wa dw yl len acc c1)
          else if \<not> wa then (-1, acc, c1) else (size_or acc (-1), acc, c1)
      | (Closed, es) \<Rightarrow>
          let c1 = c\<lparr>rx := es\<rparr> in
          if \<not> wa then (0, acc, c1) else (size_or acc 0, acc, c1)
      | (Fail, es) \<Rightarrow>
          let c1 = c\<lparr>rx := es, errno_again := False\<rparr> in
          if \<not> wa then (-1, acc, c1) else (size_or acc (-1), acc, c1)
      | (Data bs, es) \<Rightarrow>
          let c1 = c\<lparr>rx := es\<rparr> in
          if \<not> wa then (int (length bs), acc @ bs, c1)
          else if bs = [] then (size_or acc 0, acc, c1)
          else if length (acc @ bs) < len then recv_loop wa dw yl len (acc @ bs) c1
          else (int (length (acc @ bs)), acc @ bs, c1))"
  by pat_completeness auto
termination
  by (relation "measure (\<lambda>(wa, dw, yl, len, acc, c). rx_weight (rx c))")
    (auto dest: sys_recv_weight [OF sym])

definition hev_task_io_socket_recv ::
    "nat \<Rightarrow> bool \<Rightarrow> bool \<Rightarrow> (int \<Rightarrow> int) \<Rightarrow> conn \<Rightarrow> int \<times> bytes \<times> conn" where
  "hev_task_io_socket_recv len wa dw yl c = recv_loop wa dw yl len [] c"

text \<open>
  \<^verbatim>\<open>hev_task_io_socket_recvmsg\<close> keeps the lengths of the vectors still to fill; the received
  bytes go to them in order.
\<close>

fun advance_lens :: "nat \<Rightarrow> nat list \<Rightarrow> nat list" where
  "advance_lens s [] = []"
| "advance_lens s (v # vs) = (if s < v then (v - s) # vs else advance_lens (s - v) vs)"

function recvmsg_loop ::
    "bool \<Rightarrow> bool \<Rightarrow> (int \<Rightarrow> int) \<Rightarrow> nat \<Rightarrow> nat list \<Rightarrow> bytes \<Rightarrow> conn \<Rightarrow> int \<times> bytes \<times> conn" where
  "recvmsg_loop wa dw yl len vs acc c =
     (case sys_recv (sum_list vs) (rx c) of
        (Again r, es) \<Rightarrow>
          let c1 = c\<lparr>rx := es, errno_again := True\<rparr> in
          if \<not> dw then (if yl r \<noteq> 0 then (size_or acc (-2), acc, c1) else recvmsg_loop wa dw yl len vs acc c1)
          else if \<not> wa then (-1, acc, c1) else (size_or acc (-1), acc, c1)
      | (Closed, es) \<Rightarrow>
          let c1 = c\<lparr>rx := es\<rparr> in
          if \<not> wa then (0, acc, c1) else (size_or acc 0, acc, c1)
      | (Fail, es) \<Rightarrow>
          let c1 = c\<lparr>rx := es, errno_again := False\<rparr> in
          if \<not> wa then (-1, acc, c1) else (size_or acc (-1), acc, c1)
      | (Data bs, es) \<Rightarrow>
          let c1 = c\<lparr>rx := es\<rparr> in
          if \<not> wa then (int (length bs), acc @ bs, c1)
          else if bs = [] then (size_or acc 0, acc, c1)
          else if length (acc @ bs) < len
          then recvmsg_loop wa dw yl len (advance_lens (length bs) vs) (acc @ bs) c1
          else (int (length (acc @ bs)), acc @ bs, c1))"
  by pat_completeness auto
termination
  by (relation "measure (\<lambda>(wa, dw, yl, len, vs, acc, c). rx_weight (rx c))")
    (auto dest: sys_recv_weight [OF sym])

definition hev_task_io_socket_recvmsg ::
    "nat list \<Rightarrow> bool \<Rightarrow> bool \<Rightarrow> (int \<Rightarrow> int) \<Rightarrow> conn \<Rightarrow> int \<times> bytes \<times> conn" where
  "hev_task_io_socket_recvmsg vs wa dw yl c = recvmsg_loop wa dw yl (sum_list vs) vs [] c"

section \<open>Sending\<close>

lemma sys_send_used:
  "sys_send n es = (SAgain r, es') \<Longrightarrow> length es' < length es"
  "sys_send n es = (Accepted k, es') \<Longrightarrow> k < n \<Longrightarrow> length es' < length es"
  "sys_send n es = (Accepted k, es') \<Longrightarrow> k \<le> n \<and> length es' \<le> length es"
  by (cases "(n, es)" rule: sys_send.cases; auto)+

text \<open>
  The retry loop of \<^verbatim>\<open>hev_task_io_socket_send\<close> with \<^verbatim>\<open>MSG_WAITALL\<close> and without
  \<^verbatim>\<open>MSG_DONTWAIT\<close>, as every caller uses it: \<open>size\<close> bytes of \<open>buf\<close> are out.
\<close>

function send_loop :: "(int \<Rightarrow> int) \<Rightarrow> bytes \<Rightarrow> nat \<Rightarrow> conn \<Rightarrow> int \<times> conn" where
  "send_loop yl buf sz c =
     (case sys_send (length buf - sz) (tx c) of
        (SAgain r, es) \<Rightarrow>
          let c1 = c\<lparr>tx := es, errno_again := True\<rparr> in
          if yl r \<noteq> 0 then (if sz \<noteq> 0 then int sz else -2, c1) else send_loop yl buf sz c1
      | (SFail, es) \<Rightarrow>
          (if sz \<noteq> 0 then int sz else -1, c\<lparr>tx := es, errno_again := False\<rparr>)
      | (Accepted k, es) \<Rightarrow>
          let c1 = c\<lparr>tx := es, sent := sent c @ take k (drop sz buf)\<rparr> in
          if k = 0 then (if sz \<noteq> 0 then int sz else 0, c1)
          else if sz + k < length buf then send_loop yl buf (sz + k) c1
          else (int (sz + k), c1))"
  by pat_completeness auto
termination
  by (relation "measure (\<lambda>(yl, buf, sz, c). length (tx c))")
    (auto dest: sys_send_used [OF sym])

definition hev_task_io_socket_send :: "bytes \<Rightarrow> (int \<Rightarrow> int) \<Rightarrow> conn \<Rightarrow> int \<times> conn" where
  "hev_task_io_socket_send buf yl c = send_loop yl buf 0 c"

fun advance_iov :: "nat \<Rightarrow> bytes list \<Rightarrow> bytes list" where
  "advance_iov s [] = []"
| "advance_iov s (v # vs) = (if s < length v then drop s v # vs else advance_iov (s - length v) vs)"

lemma concat_advance_iov: "concat (advance_iov s vs) = drop s (concat vs)"
  by (induction s vs rule: advance_iov.induct) auto

function sendmsg_loop :: "(int \<Rightarrow> int) \<Rightarrow> nat \<Rightarrow> bytes list \<Rightarrow> nat \<Rightarrow> conn \<Rightarrow> int \<times> conn" where
  "sendmsg_loop yl len vs sz c =
     (case sys_send (length (concat vs)) (tx c) of
        (SAgain r, es) \<Rightarrow>
          let c1 = c\<lparr>tx := es, errno_again := True\<rparr> in
          if yl r \<noteq> 0 then (if sz \<noteq> 0 then int sz else -2, c1) else sendmsg_loop yl len vs sz c1
      | (SFail, es) \<Rightarrow>
          (if sz \<noteq> 0 then int sz else -1, c\<lparr>tx := es, errno_again := False\<rparr>)
      | (Accepted k, es) \<Rightarrow>
          let c1 = c\<lparr>tx := es, sent := sent c @ take k (concat vs)\<rparr> in
          if k = 0 then (if sz \<noteq> 0 then int sz else 0, c1)
          else if sz + k < len then sendmsg_loop yl len (advance_iov k vs) (sz + k) c1
          else (int (sz + k), c1))"
  by pat_completeness auto

termination
  by (relation "measures [\<lambda>(yl, len, vs, sz, c). length (tx c), \<lambda>(yl, len, vs, sz, c). length (concat vs)]")
    (auto dest!: sys_send_used(1) [OF sym] sys_send_used(3) [OF sym] simp: concat_advance_iov)

definition hev_task_io_socket_sendmsg :: "bytes list \<Rightarrow> (int \<Rightarrow> int) \<Rightarrow> conn \<Rightarrow> int \<times> conn" where
  "hev_task_io_socket_sendmsg vs yl c = sendmsg_loop yl (length (concat vs)) vs 0 c"

declare recv_loop.simps [simp del] recvmsg_loop.simps [simp del]
  send_loop.simps [simp del] sendmsg_loop.simps [simp del]

section \<open>Gathering and scattering do not change what is transferred\<close>

lemma sum_advance_lens: "sum_list (advance_lens s vs) = sum_list vs - s"
  by (induction s vs rule: advance_lens.induct) auto

lemma recvmsg_loop_eq:
  "sum_list vs = len - length acc \<Longrightarrow> recvmsg_loop wa dw yl len vs acc c = recv_loop wa dw yl len acc c"
proof (induction wa dw yl len vs acc c rule: recvmsg_loop.induct)
  case (1 wa dw yl len vs acc c)
  show ?case
    using "1.IH" "1.prems"
    by (subst recvmsg_loop.simps, subst recv_loop.simps)
      (auto simp: sum_advance_lens Let_def split: sys_out.splits prod.splits)
qed

lemma recvmsg_recv:
  "hev_task_io_socket_recvmsg vs wa dw yl c = hev_task_io_socket_recv (sum_list vs) wa dw yl c"
  by (simp add: hev_task_io_socket_recvmsg_def hev_task_io_socket_recv_def recvmsg_loop_eq)

lemma sendmsg_loop_eq:
  "concat vs = drop sz buf \<Longrightarrow> len = length buf \<Longrightarrow> sendmsg_loop yl len vs sz c = send_loop yl buf sz c"
proof (induction yl len vs sz c rule: sendmsg_loop.induct)
  case (1 yl len vs sz c)
  have l: "length (concat vs) = length buf - sz" using "1.prems" by simp
  show ?case
    using "1.IH" "1.prems" l
    by (subst sendmsg_loop.simps, subst send_loop.simps)
      (auto simp: concat_advance_iov Let_def ac_simps split: send_out.splits prod.splits)
qed

lemma sendmsg_send:
  "hev_task_io_socket_sendmsg vs yl c = hev_task_io_socket_send (concat vs) yl c"
  by (simp add: hev_task_io_socket_sendmsg_def hev_task_io_socket_send_def sendmsg_loop_eq)

section \<open>Receiving does not depend on segmentation\<close>

text \<open>
  The bytes a patient reader gets from a list of outcomes before the stream ends, fails, or
  the yielder gives up.
\<close>

fun flow :: "(int \<Rightarrow> int) \<Rightarrow> rx_event list \<Rightarrow> bytes" where
  "flow yl [] = []"
| "flow yl (RData bs # es) = bs @ flow yl es"
| "flow yl (RAgain r # es) = (if yl r = 0 then flow yl es else [])"
| "flow yl (REof # es) = []"
| "flow yl (RError # es) = []"

lemma sys_recv1_flow:
  "sys_recv1 n es = (out, es') \<Longrightarrow> 0 < n \<Longrightarrow>
     (case out of Data bs \<Rightarrow> bs \<noteq> [] \<and> length bs \<le> n \<and> flow yl es = bs @ flow yl es'
      | Again r \<Rightarrow> flow yl es = (if yl r = 0 then flow yl es' else [])
      | Closed \<Rightarrow> flow yl es = [] | Fail \<Rightarrow> flow yl es = [])"
  by (induction n es arbitrary: out es' rule: sys_recv1.induct) (auto split: if_splits sys_out.splits)

lemma sys_recv_flow:
  assumes "sys_recv n es = (out, es')" "0 < n"
  shows "out = Data bs \<Longrightarrow> bs \<noteq> [] \<and> length bs \<le> n \<and> flow yl es = bs @ flow yl es'"
    and "out = Again r \<Longrightarrow> flow yl es = (if yl r = 0 then flow yl es' else [])"
    and "out = Closed \<Longrightarrow> flow yl es = []"
    and "out = Fail \<Longrightarrow> flow yl es = []"
  using assms sys_recv1_flow [of n es out es' yl] by (auto simp: sys_recv_def)

definition received :: "(int \<Rightarrow> int) \<Rightarrow> nat \<Rightarrow> bytes \<Rightarrow> conn \<Rightarrow> int \<times> bytes \<times> conn \<Rightarrow> bool" where
  "received yl len acc c out \<longleftrightarrow> (case out of (res, buf, c') \<Rightarrow>
     tx c' = tx c \<and> sent c' = sent c \<and> buf = acc @ take (len - length acc) (flow yl (rx c)) \<and>
     (if len \<le> length acc + length (flow yl (rx c))
      then res = int len \<and> flow yl (rx c') = drop (len - length acc) (flow yl (rx c))
      else \<exists>s\<in>{0, -1, -2}. res = size_or buf s))"

lemma recv_loop_received:
  "length acc < len \<Longrightarrow> received yl len acc c (recv_loop True False yl len acc c)"
proof (induction True False yl len acc c rule: recv_loop.induct)
  case (1 yl len acc c)
  obtain out es where o: "sys_recv (len - length acc) (rx c) = (out, es)" by fastforce
  have n: "0 < len - length acc" using "1.prems" by simp
  note fl = sys_recv_flow [OF o n]
  show ?case
  proof (cases out)
    case (Again r)
    show ?thesis
    proof (cases "yl r = 0")
      case True
      then have "received yl len acc (c\<lparr>rx := es, errno_again := True\<rparr>)
          (recv_loop True False yl len acc (c\<lparr>rx := es, errno_again := True\<rparr>))"
        using "1.hyps"(2) [OF o [symmetric]] Again "1.prems" by simp
      then show ?thesis
        using True Again o fl(2) [of r yl]
        by (subst recv_loop.simps) (auto simp: received_def split: prod.splits)
    next
      case False
      then show ?thesis
        using Again o fl(2) [of r yl] "1.prems" by (subst recv_loop.simps) (simp add: received_def Let_def)
    qed
  next
    case (Data bs)
    then have bs: "bs \<noteq> []" "length bs \<le> len - length acc" "flow yl (rx c) = bs @ flow yl es"
      using fl(1) [of bs yl] by auto
    show ?thesis
    proof (cases "length (acc @ bs) < len")
      case True
      then have "received yl len (acc @ bs) (c\<lparr>rx := es\<rparr>)
          (recv_loop True False yl len (acc @ bs) (c\<lparr>rx := es\<rparr>))"
        using "1.hyps"(1) [OF o [symmetric]] Data bs by simp
      then show ?thesis
        using True Data o bs by (subst recv_loop.simps) (auto simp: received_def Let_def ac_simps)
    next
      case False
      then show ?thesis
        using Data o bs "1.prems" by (subst recv_loop.simps) (auto simp: received_def Let_def)
    qed
  next
    case Closed
    then show ?thesis
      using o fl(3) [of yl] "1.prems" by (subst recv_loop.simps) (simp add: received_def Let_def)
  next
    case Fail
    then show ?thesis
      using o fl(4) [of yl] "1.prems" by (subst recv_loop.simps) (simp add: received_def Let_def)
  qed
qed

text \<open>
  An exact read of \<open>n\<close> bytes: enough bytes are delivered whole, fewer are reported by a
  return code that differs from \<open>n\<close>.
\<close>

lemma recv_enough:
  assumes "0 < n" "n \<le> length (flow yl (rx c))"
  obtains c' where "hev_task_io_socket_recv n True False yl c = (int n, take n (flow yl (rx c)), c')"
    "flow yl (rx c') = drop n (flow yl (rx c))" "tx c' = tx c" "sent c' = sent c"
  using recv_loop_received [of "[]" n yl c] assms
  by (cases "recv_loop True False yl n [] c") (auto simp: received_def hev_task_io_socket_recv_def)

lemma recv_short:
  assumes "length (flow yl (rx c)) < n"
  shows "fst (hev_task_io_socket_recv n True False yl c) \<noteq> int n"
    and "sent (snd (snd (hev_task_io_socket_recv n True False yl c))) = sent c"
  using recv_loop_received [of "[]" n yl c] assms
  by (cases "recv_loop True False yl n [] c";
      auto simp: received_def hev_task_io_socket_recv_def size_or_def split: if_splits)+

lemma recv_cases:
  assumes "0 < n"
  obtains c' where "n \<le> length (flow yl (rx c))"
      "hev_task_io_socket_recv n True False yl c = (int n, take n (flow yl (rx c)), c')"
      "flow yl (rx c') = drop n (flow yl (rx c))" "tx c' = tx c" "sent c' = sent c"
  | res buf c' where "length (flow yl (rx c)) < n"
      "hev_task_io_socket_recv n True False yl c = (res, buf, c')" "res \<noteq> int n"
      "tx c' = tx c" "sent c' = sent c"
proof (cases "n \<le> length (flow yl (rx c))")
  case True
  with assms recv_enough [of n yl c] that(1) show ?thesis by metis
next
  case False
  obtain res buf c' where e: "hev_task_io_socket_recv n True False yl c = (res, buf, c')"
    by (metis prod_cases3)
  have "received yl n [] c (res, buf, c')"
    using recv_loop_received [of "[]" n yl c] assms e by (simp add: hev_task_io_socket_recv_def)
  with e False recv_short(1) [of yl c n] that(2) show ?thesis by (auto simp: received_def)
qed

section \<open>Reading what is there\<close>

text \<open>No wait recorded in the environment makes the yielder give up.\<close>

definition patient :: "(int \<Rightarrow> int) \<Rightarrow> rx_event list \<Rightarrow> bool" where
  "patient yl es \<longleftrightarrow> (\<forall>r. RAgain r \<in> set es \<longrightarrow> yl r = 0)"

lemma sys_recv1_again: "sys_recv1 n es = (out, es') \<Longrightarrow> patient yl es \<Longrightarrow> patient yl es'"
  by (induction n es arbitrary: out es' rule: sys_recv1.induct) (auto simp: patient_def split: if_splits)

lemma sys_recv_patient: "sys_recv n es = (out, es') \<Longrightarrow> patient yl es \<Longrightarrow> patient yl es'"
  by (auto simp: sys_recv_def sys_recv1_again split: if_splits)

lemma sys_recv_again_patient: "sys_recv n es = (Again r, es') \<Longrightarrow> patient yl es \<Longrightarrow> yl r = 0"
proof -
  have "sys_recv1 n es = (Again r, es') \<Longrightarrow> patient yl es \<Longrightarrow> yl r = 0"
    by (induction n es rule: sys_recv1.induct) (auto simp: patient_def split: if_splits)
  then show "sys_recv n es = (Again r, es') \<Longrightarrow> patient yl es \<Longrightarrow> yl r = 0"
    by (auto simp: sys_recv_def split: if_splits)
qed

lemma recv_loop_patient:
  "recv_loop wa dw yl len acc c = (res, b, c') \<Longrightarrow> patient yl (rx c) \<Longrightarrow> patient yl (rx c')"
proof (induction wa dw yl len acc c arbitrary: res b c' rule: recv_loop.induct)
  case (1 wa dw yl len acc c)
  obtain out es where o: "sys_recv (len - length acc) (rx c) = (out, es)" by fastforce
  have p: "patient yl es" using sys_recv_patient [OF o "1.prems"(2)] .
  show ?case
    using "1.prems"(1) [unfolded recv_loop.simps [of wa dw yl len acc c] o] "1.IH" [OF o [symmetric]] p
    by (auto simp: Let_def split: sys_out.splits if_splits)
qed

text \<open>
  A read without \<^verbatim>\<open>MSG_WAITALL\<close> on a stream that still has bytes: it takes some of them, or,
  with \<^verbatim>\<open>MSG_DONTWAIT\<close>, finds none yet and leaves the stream as it is.
\<close>

lemma recv_some:
  assumes "flow yl (rx c) \<noteq> []" "0 < len" "patient yl (rx c)"
  shows "(\<exists>k c'. 0 < k \<and> k \<le> len \<and> k \<le> length (flow yl (rx c))
       \<and> recv_loop False dw yl len [] c = (int k, take k (flow yl (rx c)), c')
       \<and> flow yl (rx c') = drop k (flow yl (rx c)) \<and> tx c' = tx c \<and> sent c' = sent c)
     \<or> (dw \<and> (\<exists>c'. recv_loop False dw yl len [] c = (-1, [], c') \<and> errno_again c'
       \<and> flow yl (rx c') = flow yl (rx c) \<and> tx c' = tx c \<and> sent c' = sent c))"
  using assms
proof (induction False dw yl len "[] :: bytes" c rule: recv_loop.induct)
  case (1 dw yl len c)
  obtain out es where o: "sys_recv len (rx c) = (out, es)" by fastforce
  note fl = sys_recv_flow [OF o "1.prems"(2), where yl = yl]
  show ?case
  proof (cases out)
    case (Again r)
    let ?c = "c\<lparr>rx := es, errno_again := True\<rparr>"
    have y: "yl r = 0" using sys_recv_again_patient [of len "rx c" r es yl] o Again "1.prems"(3) by simp
    show ?thesis
    proof (cases dw)
      case True
      with Again o y fl(2) [of r] show ?thesis by (subst (1 2) recv_loop.simps) simp
    next
      case False
      have "flow yl (rx ?c) \<noteq> []" using fl(2) [of r] Again y "1.prems"(1) by simp
      moreover have "recv_loop False dw yl len [] c = recv_loop False dw yl len [] ?c"
        using False Again o y by (subst recv_loop.simps) simp
      ultimately show ?thesis
        using "1.hyps"(2) [of out es r ?c] o Again False y "1.prems"(2) fl(2) [of r]
          sys_recv_patient [OF o "1.prems"(3)] by simp
    qed
  next
    case (Data bs)
    with fl(1) [of bs] have "bs \<noteq> []" "length bs \<le> len" "flow yl (rx c) = bs @ flow yl es" by simp_all
    with Data o show ?thesis
      by (subst (1 2) recv_loop.simps) (auto intro!: exI [of _ "length bs"])
  next
    case Closed
    with fl(3) "1.prems"(1) show ?thesis by simp
  next
    case Fail
    with fl(4) "1.prems"(1) show ?thesis by simp
  qed
qed

section \<open>Sending\<close>

text \<open>A peer that takes everything in the end: no error, no give-up, progress each time.\<close>

fun tx_ok :: "(int \<Rightarrow> int) \<Rightarrow> tx_event list \<Rightarrow> bool" where
  "tx_ok yl [] = True"
| "tx_ok yl (TAccept k # es) = (0 < k \<and> tx_ok yl es)"
| "tx_ok yl (TAgain r # es) = (yl r = 0 \<and> tx_ok yl es)"
| "tx_ok yl (TError # es) = False"

definition delivered :: "bytes \<Rightarrow> nat \<Rightarrow> conn \<Rightarrow> int \<times> conn \<Rightarrow> bool" where
  "delivered buf sz c out \<longleftrightarrow> (case out of (res, c') \<Rightarrow>
     rx c' = rx c \<and> (\<exists>m. sz \<le> m \<and> m \<le> length buf \<and> sent c' = sent c @ take (m - sz) (drop sz buf)
       \<and> (if m = 0 then res \<in> {0, -1, -2} else res = int m)))"

lemma send_loop_delivered:
  "sz \<le> length buf \<Longrightarrow> delivered buf sz c (send_loop yl buf sz c)"
proof (induction yl buf sz c rule: send_loop.induct)
  case (1 yl buf sz c)
  obtain out es where o: "sys_send (length buf - sz) (tx c) = (out, es)" by fastforce
  show ?case
  proof (cases out)
    case (SAgain r)
    with "1.IH"(2) [OF o [symmetric]] "1.prems" o show ?thesis
      by (subst send_loop.simps) (auto simp: delivered_def Let_def split: prod.splits)
  next
    case SFail
    with o "1.prems" show ?thesis
      by (subst send_loop.simps) (auto simp: delivered_def)
  next
    case (Accepted k)
    then have k: "k \<le> length buf - sz" using sys_send_used(3) [of "length buf - sz" "tx c" k es] o by simp
    show ?thesis
    proof (cases "k = 0 \<or> \<not> sz + k < length buf")
      case True
      with Accepted o k "1.prems" show ?thesis
        by (subst send_loop.simps) (auto simp: delivered_def Let_def intro!: exI [of _ "sz + k"])
    next
      case False
      let ?c = "c\<lparr>tx := es, sent := sent c @ take k (drop sz buf)\<rparr>"
      obtain res c' where e: "send_loop yl buf (sz + k) ?c = (res, c')" by fastforce
      have "delivered buf (sz + k) ?c (res, c')"
        using "1.IH"(1) [OF o [symmetric] Accepted refl] False e by simp
      then obtain m where m: "sz + k \<le> m" "m \<le> length buf" "rx c' = rx c"
        "sent c' = sent c @ take k (drop sz buf) @ take (m - (sz + k)) (drop (sz + k) buf)"
        "if m = 0 then res \<in> {0, -1, -2} else res = int m"
        by (auto simp: delivered_def)
      have "take k (drop sz buf) @ take (m - (sz + k)) (drop (sz + k) buf) = take (m - sz) (drop sz buf)"
        using take_add [of k "m - (sz + k)" "drop sz buf"] m(1) by (simp add: add.commute)
      with m e Accepted False o show ?thesis
        by (subst send_loop.simps) (auto simp: delivered_def Let_def intro!: exI [of _ m])
    qed
  qed
qed

lemma tx_ok_sys_send:
  assumes "sys_send n es = (out, es')" "tx_ok yl es"
  shows "tx_ok yl es'" and "out = SAgain r \<Longrightarrow> yl r = 0" and "out \<noteq> SFail"
    and "out = Accepted k \<Longrightarrow> 0 < n \<Longrightarrow> 0 < k"
  using assms by (cases "(n, es)" rule: sys_send.cases; auto)+

lemma send_loop_all:
  assumes "sz < length buf" "tx_ok yl (tx c)" "send_loop yl buf sz c = (res, c')"
  shows "res = int (length buf) \<and> sent c' = sent c @ drop sz buf \<and> tx_ok yl (tx c') \<and> rx c' = rx c"
  using assms
proof (induction yl buf sz c arbitrary: res c' rule: send_loop.induct)
  case (1 yl buf sz c)
  obtain out es where o: "sys_send (length buf - sz) (tx c) = (out, es)" by fastforce
  note t = tx_ok_sys_send [OF o "1.prems"(2)]
  show ?case
  proof (cases out)
    case (SAgain r)
    with "1.prems"(3) o t have "send_loop yl buf sz (c\<lparr>tx := es, errno_again := True\<rparr>) = (res, c')"
      by (subst (asm) send_loop.simps) simp
    with "1.IH"(2) [OF o [symmetric]] SAgain t "1.prems"(1) show ?thesis by simp
  next
    case SFail
    with t show ?thesis by simp
  next
    case (Accepted k)
    then have k: "k \<le> length buf - sz" "0 < k"
      using sys_send_used(3) [of "length buf - sz" "tx c" k es] o t(4) [of k] "1.prems"(1) by auto
    let ?c = "c\<lparr>tx := es, sent := sent c @ take k (drop sz buf)\<rparr>"
    show ?thesis
    proof (cases "sz + k < length buf")
      case True
      with "1.prems"(3) o k Accepted have e: "send_loop yl buf (sz + k) ?c = (res, c')"
        by (subst (asm) send_loop.simps) simp
      have "take k (drop sz buf) @ drop (sz + k) buf = drop sz buf"
        by (metis append_take_drop_id drop_drop add.commute)
      with "1.IH"(1) [OF o [symmetric] Accepted refl _ True True _ e] k t show ?thesis by simp
    next
      case False
      with "1.prems"(3) o k Accepted have "res = int (sz + k)" "c' = ?c"
        by (subst (asm) send_loop.simps, simp add: Let_def)+
      with False k t show ?thesis by simp
    qed
  qed
qed

lemma send_all:
  assumes "buf \<noteq> []" "tx_ok yl (tx c)"
  obtains c' where "hev_task_io_socket_send buf yl c = (int (length buf), c')"
    "sent c' = sent c @ buf" "tx_ok yl (tx c')" "rx c' = rx c"
proof -
  obtain res c' where e: "send_loop yl buf 0 c = (res, c')" by fastforce
  with send_loop_all [of 0 buf yl c res c'] assms that [of c'] show ?thesis
    by (simp add: hev_task_io_socket_send_def)
qed

lemma send_prefix:
  assumes "hev_task_io_socket_send buf yl c = (res, c')"
  shows "rx c' = rx c" and "\<exists>m\<le>length buf. sent c' = sent c @ take m buf \<and> (0 < res \<longrightarrow> res = int m)"
  using send_loop_delivered [of 0 buf c yl] assms
  by (auto simp: delivered_def hev_task_io_socket_send_def split: if_splits)

section \<open>Time-outs\<close>

text \<open>A time-out of zero makes the next wait fail, whatever the timer says.\<close>

lemma yielder_zero [simp]: "hev_socks5_task_io_yielder 0 HEV_TASK_WAITIO r = -1"
  by (simp add: hev_socks5_task_io_yielder_def hev_task_sleep_def)

lemma yielder_forever [simp]: "t < 0 \<Longrightarrow> hev_socks5_task_io_yielder t HEV_TASK_WAITIO r = 0"
  by (simp add: hev_socks5_task_io_yielder_def)

section \<open>Properties of the socket transfers\<close>

text \<open>
  An exact read does not depend on how the stream is cut into segments or on waits in between: if
  the connection delivers at least \<open>n\<close> bytes before it ends or times out, the call returns
  \<open>n\<close> and exactly the first \<open>n\<close> of them and leaves the rest; otherwise its result
  differs from \<open>n\<close>.
\<close>

theorem recv_ignores_segmentation:
  assumes "0 < n"
  shows "if n \<le> length (flow yl (rx c))
    then \<exists>c'. hev_task_io_socket_recv n True False yl c = (int n, take n (flow yl (rx c)), c')
           \<and> flow yl (rx c') = drop n (flow yl (rx c))
    else fst (hev_task_io_socket_recv n True False yl c) \<noteq> int n"
  using recv_enough [OF assms, of yl c] recv_short(1) [of yl c n] by (auto simp: not_le)

theorem recv_ignores_segmentation_witness:
  "\<exists>c'. hev_task_io_socket_recv 3 True False (\<lambda>r. if r > 0 then 0 else -1)
      \<lparr>rx = [RData [5], RAgain 7, RData [], RData [1, 0, 9], RError], tx = [], sent = [], errno_again = False\<rparr>
      = (3, [5, 1, 0], c')"
  using recv_ignores_segmentation [of 3 "\<lambda>r. if r > 0 then 0 else -1"
      "\<lparr>rx = [RData [5], RAgain 7, RData [], RData [1, 0, 9], RError], tx = [], sent = [], errno_again = False\<rparr>"]
  by (auto simp: numeral_eq_Suc)

text \<open>
  The vectored calls are the plain ones on the concatenation: \<^verbatim>\<open>recvmsg\<close> into buffers of the given
  lengths reads what \<^verbatim>\<open>recv\<close> of their total length reads, and \<^verbatim>\<open>sendmsg\<close> sends what
  \<^verbatim>\<open>send\<close> of the joined vectors sends, for every behaviour of the connection.
\<close>

theorem vectored_equals_plain:
  "hev_task_io_socket_recvmsg lens waitall nowait yl c = hev_task_io_socket_recv (sum_list lens) waitall nowait yl c
   \<and> hev_task_io_socket_sendmsg vs yl c = hev_task_io_socket_send (concat vs) yl c"
  by (simp add: recvmsg_recv sendmsg_send)

text \<open>
  What a send puts on the wire is always a prefix of the buffer, as long as its positive result
  says, and nothing is sent twice; when the peer keeps taking bytes, it is the whole buffer.
\<close>

theorem send_is_prefix:
  assumes "hev_task_io_socket_send buf yl c = (res, c')"
  shows "(\<exists>m\<le>length buf. sent c' = sent c @ take m buf \<and> (0 < res \<longrightarrow> res = int m))
    \<and> (buf \<noteq> [] \<and> tx_ok yl (tx c) \<longrightarrow> res = int (length buf) \<and> sent c' = sent c @ buf)"
proof -
  have "res = int (length buf) \<and> sent c' = sent c @ buf" if b: "buf \<noteq> []" and t: "tx_ok yl (tx c)"
  proof -
    obtain c1 where "hev_task_io_socket_send buf yl c = (int (length buf), c1)" "sent c1 = sent c @ buf"
      by (rule send_all [OF b t])
    with assms show ?thesis by simp
  qed
  with send_prefix(2) [OF assms] show ?thesis by blast
qed

theorem send_is_prefix_witness:
  "sent (snd (hev_task_io_socket_send [1, 2, 3] (\<lambda>r. 0)
      \<lparr>rx = [], tx = [TAccept 1, TAgain 0, TAccept 5], sent = [9], errno_again = False\<rparr>)) = [9, 1, 2, 3]"
  using send_is_prefix [OF prod.collapse [symmetric], of "[1, 2, 3]" "\<lambda>r. 0"
      "\<lparr>rx = [], tx = [TAccept 1, TAgain 0, TAccept 5], sent = [9], errno_again = False\<rparr>"] by simp

end
