(* ===== verification/Socks5_Addr.thy ===== *)
theory Socks5_Addr
  imports Sock_IO
begin

text \<open>
  The protocol constants and address layout of \<^verbatim>\<open>hev/src/core/src/hev-socks5-proto.h\<close>, the
  base object of \<^verbatim>\<open>hev-socks5.c\<close>, and the address conversions of \<^verbatim>\<open>hev-socks5-misc.c\<close>.

  A \<^verbatim>\<open>HevSocks5Addr\<close> is a packed union; it is modelled by the bytes it occupies, so that the
  union's overlays and the wire format are the same thing.  Reading a byte that is not there
  gives \<open>None\<close>.  Name resolution (\<^verbatim>\<open>inet_pton\<close>, \<^verbatim>\<open>getaddrinfo\<close>) is not part of the
  sources and is a parameter, \<open>resolver\<close>; \<open>resolver_ok\<close> is what its documentation says
  about the size of its results.  The type \<open>dest\<close> with its encoding \<open>enc_dest\<close> is the
  specification of a SOCKS5 address.
\<close>

section \<open>Constants and the base object\<close>

definition HEV_SOCKS5_VERSION_5 :: u8 where [simp]: "HEV_SOCKS5_VERSION_5 = 5"
definition HEV_SOCKS5_AUTH_METHOD_NONE :: u8 where [simp]: "HEV_SOCKS5_AUTH_METHOD_NONE = 0"
definition HEV_SOCKS5_AUTH_METHOD_USER :: u8 where [simp]: "HEV_SOCKS5_AUTH_METHOD_USER = 2"
definition HEV_SOCKS5_AUTH_METHOD_DENY :: u8 where [simp]: "HEV_SOCKS5_AUTH_METHOD_DENY = 255"
definition HEV_SOCKS5_AUTH_VERSION_1 :: u8 where [simp]: "HEV_SOCKS5_AUTH_VERSION_1 = 1"
definition HEV_SOCKS5_REQ_CMD_CONNECT :: u8 where [simp]: "HEV_SOCKS5_REQ_CMD_CONNECT = 1"
definition HEV_SOCKS5_REQ_CMD_UDP_ASC :: u8 where [simp]: "HEV_SOCKS5_REQ_CMD_UDP_ASC = 3"
definition HEV_SOCKS5_REQ_CMD_FWD_UDP :: u8 where [simp]: "HEV_SOCKS5_REQ_CMD_FWD_UDP = 5"
definition HEV_SOCKS5_RES_REP_SUCC :: u8 where [simp]: "HEV_SOCKS5_RES_REP_SUCC = 0"
definition HEV_SOCKS5_RES_REP_FAIL :: u8 where [simp]: "HEV_SOCKS5_RES_REP_FAIL = 1"
definition HEV_SOCKS5_RES_REP_HOST :: u8 where [simp]: "HEV_SOCKS5_RES_REP_HOST = 4"
definition HEV_SOCKS5_RES_REP_IMPL :: u8 where [simp]: "HEV_SOCKS5_RES_REP_IMPL = 7"
definition HEV_SOCKS5_RES_REP_ADDR :: u8 where [simp]: "HEV_SOCKS5_RES_REP_ADDR = 8"
definition HEV_SOCKS5_ADDR_TYPE_IPV4 :: u8 where [simp]: "HEV_SOCKS5_ADDR_TYPE_IPV4 = 1"
definition HEV_SOCKS5_ADDR_TYPE_IPV6 :: u8 where [simp]: "HEV_SOCKS5_ADDR_TYPE_IPV6 = 4"
definition HEV_SOCKS5_ADDR_TYPE_NAME :: u8 where [simp]: "HEV_SOCKS5_ADDR_TYPE_NAME = 3"

datatype socks5_type = TYPE_NONE | TYPE_TCP | TYPE_UDP_IN_TCP | TYPE_UDP_IN_UDP

datatype addr_family = FAMILY_IPV4 | FAMILY_IPV6 | FAMILY_UNSPEC

record hev_socks5 =
  sk_fd :: int
  sk_timeout :: int
  sk_type :: socks5_type
  sk_udp_associated :: bool
  sk_addr_family :: addr_family

definition hev_socks5_construct :: "socks5_type \<Rightarrow> hev_socks5" where
  "hev_socks5_construct type =
     \<lparr>sk_fd = -1, sk_timeout = -1, sk_type = type, sk_udp_associated = False,
      sk_addr_family = FAMILY_UNSPEC\<rparr>"

definition hev_socks5_get_timeout :: "'a hev_socks5_scheme \<Rightarrow> int" where
  "hev_socks5_get_timeout s = sk_timeout s"

definition hev_socks5_set_timeout :: "int \<Rightarrow> 'a hev_socks5_scheme \<Rightarrow> 'a hev_socks5_scheme" where
  "hev_socks5_set_timeout t s = (if sk_timeout s \<noteq> 0 then s\<lparr>sk_timeout := t\<rparr> else s)"

definition hev_socks5_get_addr_family :: "'a hev_socks5_scheme \<Rightarrow> addr_family" where
  "hev_socks5_get_addr_family s = sk_addr_family s"

definition hev_socks5_set_addr_family :: "addr_family \<Rightarrow> 'a hev_socks5_scheme \<Rightarrow> 'a hev_socks5_scheme" where
  "hev_socks5_set_addr_family f s = s\<lparr>sk_addr_family := f\<rparr>"

text \<open>The yielder of a socket object during a wait.\<close>

definition sk_yield :: "'a hev_socks5_scheme \<Rightarrow> int \<Rightarrow> int" where
  "sk_yield s r = hev_socks5_task_io_yielder (sk_timeout s) HEV_TASK_WAITIO r"

lemma sk_yield_fun: "sk_yield s = hev_socks5_task_io_yielder (sk_timeout s) HEV_TASK_WAITIO"
  by (simp add: sk_yield_def fun_eq_iff)

section \<open>Socket addresses and resolution\<close>

record sockaddr6 =
  sin6_family :: int
  sin6_port :: u16
  sin6_addr :: bytes

definition AF_INET6 :: int where "AF_INET6 = 10"

definition sockaddr6_zero :: sockaddr6 where
  "sockaddr6_zero = \<lparr>sin6_family = 0, sin6_port = 0, sin6_addr = replicate 16 0\<rparr>"

datatype gai = GaiV4 bytes | GaiV6 bytes | GaiOther

record resolver =
  inet_pton4 :: "bytes \<Rightarrow> bytes option"
  inet_pton6 :: "bytes \<Rightarrow> bytes option"
  getaddrinfo :: "bytes \<Rightarrow> addr_family \<Rightarrow> gai option"

definition resolver_ok :: "resolver \<Rightarrow> bool" where
  "resolver_ok R \<longleftrightarrow> (\<forall>n a. inet_pton4 R n = Some a \<longrightarrow> length a = 4)
     \<and> (\<forall>n a. inet_pton6 R n = Some a \<longrightarrow> length a = 16)
     \<and> (\<forall>n f a. getaddrinfo R n f = Some (GaiV4 a) \<longrightarrow> length a = 4)
     \<and> (\<forall>n f a. getaddrinfo R n f = Some (GaiV6 a) \<longrightarrow> length a = 16)"

text \<open>A C string in a buffer ends at the first zero byte.\<close>

definition cstr :: "bytes \<Rightarrow> bytes" where
  "cstr bs = takeWhile (\<lambda>b. b \<noteq> 0) bs"

definition hev_socks5_addr_len :: "bytes \<Rightarrow> int option" where
  "hev_socks5_addr_len a =
     (case a of [] \<Rightarrow> None
      | t # d \<Rightarrow>
          if t = HEV_SOCKS5_ADDR_TYPE_IPV4 then Some 7
          else if t = HEV_SOCKS5_ADDR_TYPE_IPV6 then Some 19
          else if t = HEV_SOCKS5_ADDR_TYPE_NAME
          then (case d of [] \<Rightarrow> None | n # _ \<Rightarrow> Some (4 + int (unat n)))
          else Some (-1))"

text \<open>
  \<^verbatim>\<open>strncpy\<close> with bound 256 leaves the array unterminated when the name has 256 bytes or
  more; \<^verbatim>\<open>strlen\<close> then runs into uninitialised memory, so there is no result.
\<close>

definition hev_socks5_addr_from_name :: "bytes \<Rightarrow> u16 \<Rightarrow> (bytes \<times> int) option" where
  "hev_socks5_addr_from_name name port =
     (if length name < 256
      then let dlen = (of_nat (length name) :: u8) in
        Some (HEV_SOCKS5_ADDR_TYPE_NAME # dlen # take (unat dlen) name @ mem16 port, 4 + int (unat dlen))
      else None)"

definition hev_socks5_addr_from_ipv4 :: "bytes \<Rightarrow> u16 \<Rightarrow> bytes \<times> int" where
  "hev_socks5_addr_from_ipv4 ipv4 port = (HEV_SOCKS5_ADDR_TYPE_IPV4 # take 4 ipv4 @ mem16 port, 7)"

definition hev_socks5_addr_from_ipv6 :: "bytes \<Rightarrow> u16 \<Rightarrow> bytes \<times> int" where
  "hev_socks5_addr_from_ipv6 ipv6 port = (HEV_SOCKS5_ADDR_TYPE_IPV6 # take 16 ipv6 @ mem16 port, 19)"

definition v4mapped :: "bytes \<Rightarrow> bool" where
  "v4mapped a \<longleftrightarrow> take 12 a = replicate 10 0 @ [255, 255]"

definition hev_socks5_addr_from_sockaddr6 :: "sockaddr6 \<Rightarrow> bytes \<times> int" where
  "hev_socks5_addr_from_sockaddr6 sa =
     (if v4mapped (sin6_addr sa)
      then (HEV_SOCKS5_ADDR_TYPE_IPV4 # take 4 (drop 12 (sin6_addr sa)) @ mem16 (sin6_port sa), 7)
      else (HEV_SOCKS5_ADDR_TYPE_IPV6 # take 16 (sin6_addr sa) @ mem16 (sin6_port sa), 19))"

definition v4map :: "bytes \<Rightarrow> bytes" where
  "v4map a = replicate 10 0 @ [255, 255] @ a"

text \<open>The raw port field behind \<open>n\<close> address bytes.\<close>

definition port_at :: "bytes \<Rightarrow> nat \<Rightarrow> u16 option" where
  "port_at a i = (if Suc i < length a then Some (rd_mem16 (a ! i) (a ! Suc i)) else None)"

definition hev_socks5_ipv4_into_sockaddr6 :: "bytes \<Rightarrow> sockaddr6 \<Rightarrow> sockaddr6 option" where
  "hev_socks5_ipv4_into_sockaddr6 a sa =
     (case port_at a 5 of None \<Rightarrow> None
      | Some p \<Rightarrow> Some (sa\<lparr>sin6_family := AF_INET6, sin6_port := p, sin6_addr := v4map (take 4 (drop 1 a))\<rparr>))"

definition hev_socks5_ipv6_into_sockaddr6 :: "bytes \<Rightarrow> sockaddr6 \<Rightarrow> sockaddr6 option" where
  "hev_socks5_ipv6_into_sockaddr6 a sa =
     (case port_at a 17 of None \<Rightarrow> None
      | Some p \<Rightarrow> Some (sa\<lparr>sin6_family := AF_INET6, sin6_port := p, sin6_addr := take 16 (drop 1 a)\<rparr>))"

definition hev_socks5_name_resolve_ipv4 :: "resolver \<Rightarrow> bytes \<Rightarrow> sockaddr6 \<Rightarrow> int \<times> sockaddr6" where
  "hev_socks5_name_resolve_ipv4 R name sa =
     (let sa1 = sa\<lparr>sin6_addr := replicate 10 0 @ drop 10 (sin6_addr sa)\<rparr> in
      case inet_pton4 R name of
        None \<Rightarrow> (-1, sa1)
      | Some a \<Rightarrow> (0, sa1\<lparr>sin6_addr := v4map a\<rparr>))"

definition hev_socks5_name_resolve_ipv6 :: "resolver \<Rightarrow> bytes \<Rightarrow> sockaddr6 \<Rightarrow> int \<times> sockaddr6" where
  "hev_socks5_name_resolve_ipv6 R name sa =
     (case inet_pton6 R name of None \<Rightarrow> (-1, sa) | Some a \<Rightarrow> (0, sa\<lparr>sin6_addr := a\<rparr>))"

definition hev_socks5_name_resolve_name ::
    "resolver \<Rightarrow> bytes \<Rightarrow> sockaddr6 \<Rightarrow> addr_family \<Rightarrow> int \<times> sockaddr6 \<times> addr_family" where
  "hev_socks5_name_resolve_name R name sa family =
     (case getaddrinfo R name family of
        None \<Rightarrow> (-1, sa, family)
      | Some (GaiV4 a) \<Rightarrow> (0, sa\<lparr>sin6_addr := v4map a\<rparr>, FAMILY_IPV4)
      | Some (GaiV6 a) \<Rightarrow> (0, sa\<lparr>sin6_addr := a\<rparr>, FAMILY_IPV6)
      | Some GaiOther \<Rightarrow> (-1, sa, family))"

definition hev_socks5_name_into_sockaddr6 ::
    "resolver \<Rightarrow> bytes \<Rightarrow> u16 \<Rightarrow> sockaddr6 \<Rightarrow> addr_family \<Rightarrow> int \<times> sockaddr6 \<times> addr_family" where
  "hev_socks5_name_into_sockaddr6 R name port sa family =
     (let sa1 = sa\<lparr>sin6_family := AF_INET6, sin6_port := htons port\<rparr>;
          (r4, sa2) = hev_socks5_name_resolve_ipv4 R name sa1 in
      if r4 = 0 then (0, sa2, FAMILY_IPV4)
      else let (r6, sa3) = hev_socks5_name_resolve_ipv6 R name sa2 in
        if r6 = 0 then (0, sa3, FAMILY_IPV6)
        else hev_socks5_name_resolve_name R name sa3 family)"

definition hev_socks5_addr_into_sockaddr6 ::
    "resolver \<Rightarrow> bytes \<Rightarrow> sockaddr6 \<Rightarrow> addr_family \<Rightarrow> (int \<times> sockaddr6 \<times> addr_family) option" where
  "hev_socks5_addr_into_sockaddr6 R a sa family =
     (case a of [] \<Rightarrow> None
      | t # d \<Rightarrow>
          if t = HEV_SOCKS5_ADDR_TYPE_IPV4
          then map_option (\<lambda>sa'. (0, sa', FAMILY_IPV4)) (hev_socks5_ipv4_into_sockaddr6 a sa)
          else if t = HEV_SOCKS5_ADDR_TYPE_IPV6
          then map_option (\<lambda>sa'. (0, sa', FAMILY_IPV6)) (hev_socks5_ipv6_into_sockaddr6 a sa)
          else if t = HEV_SOCKS5_ADDR_TYPE_NAME
          then (case d of [] \<Rightarrow> None
                | n # nm \<Rightarrow>
                    (case port_at nm (unat n) of None \<Rightarrow> None
                     | Some port \<Rightarrow>
                         Some (hev_socks5_name_into_sockaddr6 R (cstr (take (unat n) nm)) (ntohs port) sa family)))
          else Some (-1, sa, family))"

section \<open>Specification of a destination\<close>

datatype dest = Dst4 bytes u16 | Dst6 bytes u16 | DstName bytes u16

fun enc_dest :: "dest \<Rightarrow> bytes" where
  "enc_dest (Dst4 ip p) = HEV_SOCKS5_ADDR_TYPE_IPV4 # ip @ be16 p"
| "enc_dest (Dst6 ip p) = HEV_SOCKS5_ADDR_TYPE_IPV6 # ip @ be16 p"
| "enc_dest (DstName nm p) = HEV_SOCKS5_ADDR_TYPE_NAME # of_nat (length nm) # nm @ be16 p"

fun dest_wf :: "dest \<Rightarrow> bool" where
  "dest_wf (Dst4 ip p) = (length ip = 4)"
| "dest_wf (Dst6 ip p) = (length ip = 16)"
| "dest_wf (DstName nm p) = (length nm < 256 \<and> 0 \<notin> set nm)"

text \<open>The socket address and family a destination stands for, when it resolves.\<close>

fun dest_sockaddr :: "resolver \<Rightarrow> dest \<Rightarrow> addr_family \<Rightarrow> (sockaddr6 \<times> addr_family) option" where
  "dest_sockaddr R (Dst4 ip p) f =
     Some (\<lparr>sin6_family = AF_INET6, sin6_port = htons p, sin6_addr = v4map ip\<rparr>, FAMILY_IPV4)"
| "dest_sockaddr R (Dst6 ip p) f =
     Some (\<lparr>sin6_family = AF_INET6, sin6_port = htons p, sin6_addr = ip\<rparr>, FAMILY_IPV6)"
| "dest_sockaddr R (DstName nm p) f =
     (let mk = (\<lambda>a. \<lparr>sin6_family = AF_INET6, sin6_port = htons p, sin6_addr = a\<rparr>) in
      case inet_pton4 R nm of
        Some a \<Rightarrow> Some (mk (v4map a), FAMILY_IPV4)
      | None \<Rightarrow>
          (case inet_pton6 R nm of
             Some a \<Rightarrow> Some (mk a, FAMILY_IPV6)
           | None \<Rightarrow>
               (case getaddrinfo R nm f of
                  Some (GaiV4 a) \<Rightarrow> Some (mk (v4map a), FAMILY_IPV4)
                | Some (GaiV6 a) \<Rightarrow> Some (mk a, FAMILY_IPV6)
                | _ \<Rightarrow> None)))"

section \<open>The conversions implement the specification\<close>

lemma port_at_be16 [wire_simps]:
  "length a = i \<Longrightarrow> port_at (a @ be16 p @ b) i = Some (htons p)"
proof -
  have "rd_mem16 (ucast (drop_bit 8 p)) (ucast p) = htons p"
    by (metis htons_htons htons_rd_mem16 rd_be16_be16)
  then show "length a = i \<Longrightarrow> ?thesis" by (simp add: port_at_def be16_def nth_append)
qed

lemma port_at_tail [wire_simps]:
  "port_at (t # a) (Suc i) = port_at a i"
  by (simp add: port_at_def)

lemma addr_len_enc:
  assumes "dest_wf d"
  shows "hev_socks5_addr_len (enc_dest d @ junk) = Some (int (length (enc_dest d)))"
  using assms by (cases d) (auto simp: hev_socks5_addr_len_def unat_of_nat_u8)

lemma from_ipv4_enc:
  "length ip = 4 \<Longrightarrow> hev_socks5_addr_from_ipv4 ip (htons p) = (enc_dest (Dst4 ip p), int (length (enc_dest (Dst4 ip p))))"
  by (simp add: hev_socks5_addr_from_ipv4_def mem16_htons)

lemma from_ipv6_enc:
  "length ip = 16 \<Longrightarrow> hev_socks5_addr_from_ipv6 ip (htons p) = (enc_dest (Dst6 ip p), int (length (enc_dest (Dst6 ip p))))"
  by (simp add: hev_socks5_addr_from_ipv6_def mem16_htons)

lemma from_name_enc:
  "length nm < 256 \<Longrightarrow>
     hev_socks5_addr_from_name nm (htons p) = Some (enc_dest (DstName nm p), int (length (enc_dest (DstName nm p))))"
  by (simp add: hev_socks5_addr_from_name_def mem16_htons unat_of_nat_u8 uint_of_nat_u8 Let_def)

lemma cstr_no_nul [simp]: "0 \<notin> set nm \<Longrightarrow> cstr nm = nm"
  unfolding cstr_def by (rule takeWhile_eq_all_conv [THEN iffD2]) auto

lemma v4mapped_v4map [simp]: "v4mapped (v4map ip)"
  by (simp add: v4mapped_def v4map_def)

lemma length_v4map [simp]: "length (v4map ip) = 12 + length ip"
  by (simp add: v4map_def)

lemma into_sockaddr6_enc:
  assumes "dest_wf d"
  shows "\<exists>sa'. hev_socks5_addr_into_sockaddr6 R (enc_dest d @ junk) sa f =
     Some (case dest_sockaddr R d f of Some (a, f') \<Rightarrow> (0, a, f') | None \<Rightarrow> (-1, sa', f))"
proof (cases d)
  case (Dst4 ip p)
  then have "port_at (enc_dest d @ junk) 5 = Some (htons p)"
    using assms port_at_be16 [of "1 # ip" 5 p junk] by simp
  with Dst4 assms show ?thesis
    by (simp add: hev_socks5_addr_into_sockaddr6_def hev_socks5_ipv4_into_sockaddr6_def)
next
  case (Dst6 ip p)
  then have "port_at (enc_dest d @ junk) 17 = Some (htons p)"
    using assms port_at_be16 [of "4 # ip" 17 p junk] by simp
  with Dst6 assms show ?thesis
    by (simp add: hev_socks5_addr_into_sockaddr6_def hev_socks5_ipv6_into_sockaddr6_def)
next
  case (DstName nm p)
  then have "hev_socks5_addr_into_sockaddr6 R (enc_dest d @ junk) sa f
      = Some (hev_socks5_name_into_sockaddr6 R nm p sa f)"
    using assms by (simp add: hev_socks5_addr_into_sockaddr6_def unat_of_nat_u8 port_at_be16)
  moreover have "\<exists>sa'. hev_socks5_name_into_sockaddr6 R nm p sa f
      = (case dest_sockaddr R d f of Some (a, f') \<Rightarrow> (0, a, f') | None \<Rightarrow> (-1, sa', f))"
    unfolding DstName hev_socks5_name_into_sockaddr6_def hev_socks5_name_resolve_ipv4_def
      hev_socks5_name_resolve_ipv6_def hev_socks5_name_resolve_name_def
    by (auto simp: Let_def split: option.splits gai.splits)
  ultimately show ?thesis by simp
qed

text \<open>The destination a socket address denotes: a v4-mapped address denotes an IPv4 one.\<close>

definition sockaddr_dest :: "sockaddr6 \<Rightarrow> dest" where
  "sockaddr_dest sa =
     (if v4mapped (sin6_addr sa) then Dst4 (drop 12 (sin6_addr sa)) (htons (sin6_port sa))
      else Dst6 (sin6_addr sa) (htons (sin6_port sa)))"

lemma from_sockaddr6_enc:
  assumes "length (sin6_addr sa) = 16"
  shows "hev_socks5_addr_from_sockaddr6 sa
     = (enc_dest (sockaddr_dest sa), int (length (enc_dest (sockaddr_dest sa))))"
    and "dest_wf (sockaddr_dest sa)"
  using assms mem16_htons [of "htons (sin6_port sa)"]
  by (auto simp: hev_socks5_addr_from_sockaddr6_def sockaddr_dest_def)

lemma dest_sockaddr_sockaddr_dest:
  assumes "length (sin6_addr sa) = 16" "sin6_family sa = AF_INET6"
  shows "\<exists>f'. dest_sockaddr R (sockaddr_dest sa) f = Some (sa, f')"
proof -
  have "v4mapped (sin6_addr sa) \<Longrightarrow> v4map (drop 12 (sin6_addr sa)) = sin6_addr sa"
    using append_take_drop_id [of 12 "sin6_addr sa"] by (simp add: v4mapped_def v4map_def)
  with assms show ?thesis by (simp add: sockaddr_dest_def)
qed

lemma dest_sockaddr_len:
  assumes "resolver_ok R" "dest_wf d" "dest_sockaddr R d f = Some (sa, f')"
  shows "length (sin6_addr sa) = 16 \<and> sin6_family sa = AF_INET6"
  using assms
  by (cases d) (auto simp: resolver_ok_def Let_def split: option.splits gai.splits)

lemma enc_dest_nonempty: "enc_dest d \<noteq> []"
  by (cases d) simp_all

lemma enc_dest_shape:
  assumes "dest_wf d"
  obtains t x as where "enc_dest d = t # x # as"
    "t = 1 \<and> length as = 5 \<or> t = 4 \<and> length as = 17 \<or> t = 3 \<and> length as = 2 + unat x"
proof (cases d)
  case (Dst4 ip p)
  with assms obtain x as where "ip = x # as" "length as = 3" by (cases ip) auto
  with Dst4 that [of 1 x "as @ be16 p"] show ?thesis by simp
next
  case (Dst6 ip p)
  with assms obtain x as where "ip = x # as" "length as = 15" by (cases ip) auto
  with Dst6 that [of 4 x "as @ be16 p"] show ?thesis by simp
next
  case (DstName nm p)
  with assms that [of 3 "of_nat (length nm)" "nm @ be16 p"] show ?thesis by (simp add: unat_of_nat_u8)
qed

section \<open>Properties of the addresses\<close>

text \<open>A resolver that knows no name, for the examples.\<close>

definition no_resolver :: resolver where
  "no_resolver = \<lparr>inet_pton4 = \<lambda>_. None, inet_pton6 = \<lambda>_. None, getaddrinfo = \<lambda>_ _. None\<rparr>"

text \<open>
  A destination written in wire format is read back: its length is found from its first bytes,
  and, with arbitrary memory behind it, it resolves to the socket address of the destination
  (or fails exactly when the resolver has none).
\<close>

theorem address_decodes:
  assumes "dest_wf d"
  shows "hev_socks5_addr_len (enc_dest d @ junk) = Some (int (length (enc_dest d)))
    \<and> (\<exists>sa'. hev_socks5_addr_into_sockaddr6 R (enc_dest d @ junk) sa f =
         Some (case dest_sockaddr R d f of Some (a, f') \<Rightarrow> (0, a, f') | None \<Rightarrow> (-1, sa', f)))"
  using addr_len_enc [OF assms] into_sockaddr6_enc [OF assms] by blast

theorem address_decodes_witness:
  "hev_socks5_addr_len (enc_dest (DstName [97, 46, 98] 443) @ [7]) = Some 7"
  using address_decodes [of "DstName [97, 46, 98] 443" "[7]" no_resolver sockaddr6_zero FAMILY_UNSPEC] by simp

text \<open>
  Socket addresses survive the wire: an IPv6 socket address written by
  \<^verbatim>\<open>hev_socks5_addr_from_sockaddr6\<close> (a v4-mapped one as an IPv4 address) and read back by
  \<^verbatim>\<open>hev_socks5_addr_into_sockaddr6\<close> is the same socket address.
\<close>

theorem sockaddr_round_trip:
  assumes "length (sin6_addr sa) = 16" "sin6_family sa = AF_INET6"
  shows "\<exists>f'. hev_socks5_addr_into_sockaddr6 R (fst (hev_socks5_addr_from_sockaddr6 sa) @ junk) sa0 f = Some (0, sa, f')"
proof -
  note e = from_sockaddr6_enc [OF assms(1)]
  obtain f' where f': "dest_sockaddr R (sockaddr_dest sa) f = Some (sa, f')"
    using dest_sockaddr_sockaddr_dest [OF assms] by blast
  show ?thesis using into_sockaddr6_enc [OF e(2), of R junk sa0 f] f' e(1) by auto
qed

theorem sockaddr_round_trip_witness:
  "\<exists>f'. hev_socks5_addr_into_sockaddr6 no_resolver
      (fst (hev_socks5_addr_from_sockaddr6 \<lparr>sin6_family = AF_INET6, sin6_port = 80, sin6_addr = v4map [10, 0, 0, 1]\<rparr>) @ [])
      sockaddr6_zero FAMILY_UNSPEC
      = Some (0, \<lparr>sin6_family = AF_INET6, sin6_port = 80, sin6_addr = v4map [10, 0, 0, 1]\<rparr>, f')"
  by (rule sockaddr_round_trip) simp_all

end
