(* ===== verification/Socks5_Net.thy ===== *)
theory Socks5_Net
  imports Socks5_Addr
begin

text \<open>
  What the client and the server side share: the time-out settings and the socket constructor of
  \<^verbatim>\<open>hev/src/core/src/hev-socks5-misc.c\<close>, the destructor and default binder of
  \<^verbatim>\<open>hev-socks5.c\<close>, and transfers on the object's own descriptor.

  The kernel's socket calls are a parameter, the record \<open>net\<close>.  \<open>fresh_fds\<close> states that
  \<^verbatim>\<open>socket\<close> never returns a descriptor that is open.  The list \<open>sk_open\<close> holds the
  descriptors that are open on behalf of the object.
\<close>

record timeouts =
  connect_timeout :: int
  tcp_timeout :: int
  udp_timeout :: int

definition default_timeouts :: timeouts where
  "default_timeouts = \<lparr>connect_timeout = 10000, tcp_timeout = 300000, udp_timeout = 60000\<rparr>"

definition hev_socks5_set_connect_timeout :: "int \<Rightarrow> timeouts \<Rightarrow> timeouts" where
  "hev_socks5_set_connect_timeout t g = g\<lparr>connect_timeout := t\<rparr>"

definition hev_socks5_set_tcp_timeout :: "int \<Rightarrow> timeouts \<Rightarrow> timeouts" where
  "hev_socks5_set_tcp_timeout t g = g\<lparr>tcp_timeout := t\<rparr>"

definition hev_socks5_set_udp_timeout :: "int \<Rightarrow> timeouts \<Rightarrow> timeouts" where
  "hev_socks5_set_udp_timeout t g = g\<lparr>udp_timeout := t\<rparr>"

datatype sock_kind = SOCK_STREAM | SOCK_DGRAM

record net =
  nsocket :: "int list \<Rightarrow> sock_kind \<Rightarrow> int"
  nv6only :: "int \<Rightarrow> int"
  nreuse :: "int \<Rightarrow> int"
  nbinder :: "int \<Rightarrow> sockaddr6 \<Rightarrow> int"
  nconnect :: "int \<Rightarrow> sockaddr6 \<Rightarrow> int"
  nbind :: "int \<Rightarrow> sockaddr6 \<Rightarrow> int"
  ngetsockname :: "int \<Rightarrow> sockaddr6 option"

definition fresh_fds :: "net \<Rightarrow> bool" where
  "fresh_fds N \<longleftrightarrow> (\<forall>os k. 0 \<le> nsocket N os k \<longrightarrow> nsocket N os k \<notin> set os)"

definition hev_socks5_bind :: "int \<Rightarrow> sockaddr6 \<Rightarrow> int" where
  "hev_socks5_bind sock dest = 0"

record peer = hev_socks5 +
  sk_conn :: conn
  sk_open :: "int list"

definition fd_close :: "int \<Rightarrow> 'a peer_scheme \<Rightarrow> 'a peer_scheme" where
  "fd_close fd s = s\<lparr>sk_open := removeAll fd (sk_open s)\<rparr>"

definition hev_socks5_socket :: "net \<Rightarrow> sock_kind \<Rightarrow> 'a peer_scheme \<Rightarrow> int \<times> 'a peer_scheme" where
  "hev_socks5_socket N type s =
     (let fd = nsocket N (sk_open s) type in
      if fd < 0 then (-1, s)
      else let s1 = s\<lparr>sk_open := fd # sk_open s\<rparr> in
        if nv6only N fd < 0 then (-1, fd_close fd s1) else (fd, s1))"

definition hev_socks5_destruct :: "'a peer_scheme \<Rightarrow> 'a peer_scheme" where
  "hev_socks5_destruct s = (if sk_fd s \<ge> 0 then fd_close (sk_fd s) s else s)"

section \<open>Transfers on the object's descriptor\<close>

definition sk_send :: "bytes \<Rightarrow> 'a peer_scheme \<Rightarrow> int \<times> 'a peer_scheme" where
  "sk_send buf s =
     (case hev_task_io_socket_send buf (sk_yield s) (sk_conn s) of
        (r, c) \<Rightarrow> (r, s\<lparr>sk_conn := c\<rparr>))"

definition sk_sendmsg :: "bytes list \<Rightarrow> 'a peer_scheme \<Rightarrow> int \<times> 'a peer_scheme" where
  "sk_sendmsg vs s =
     (case hev_task_io_socket_sendmsg vs (sk_yield s) (sk_conn s) of
        (r, c) \<Rightarrow> (r, s\<lparr>sk_conn := c\<rparr>))"

definition sk_recv :: "nat \<Rightarrow> 'a peer_scheme \<Rightarrow> int \<times> bytes \<times> 'a peer_scheme" where
  "sk_recv n s =
     (case hev_task_io_socket_recv n True False (sk_yield s) (sk_conn s) of
        (r, buf, c) \<Rightarrow> (r, buf, s\<lparr>sk_conn := c\<rparr>))"

text \<open>
  The pattern \<^verbatim>\<open>if (res < 0) return -1;\<close> after a call; \<open>None\<close> is a null dereference in the
  callee.
\<close>

definition on_ok :: "(int \<times> 's) option \<Rightarrow> (int \<Rightarrow> 's \<Rightarrow> (int \<times> 's) option) \<Rightarrow> (int \<times> 's) option" where
  "on_ok out k =
     (case out of None \<Rightarrow> None
      | Some (res, s) \<Rightarrow> if res < 0 then Some (-1, s) else k res s)"

lemma on_ok_simps [simp]:
  "on_ok None k = None"
  "on_ok (Some (res, s)) k = (if res < 0 then Some (-1, s) else k res s)"
  by (simp_all add: on_ok_def)

section \<open>A view of the stream\<close>

text \<open>
  The bytes still to come from the peer, the bytes already sent, and whether the peer takes
  everything that is sent from now on.
\<close>

definition inflow :: "'a peer_scheme \<Rightarrow> bytes" where
  "inflow s = flow (sk_yield s) (rx (sk_conn s))"

definition outs :: "'a peer_scheme \<Rightarrow> bytes" where
  "outs s = sent (sk_conn s)"

definition clear_out :: "'a peer_scheme \<Rightarrow> bool" where
  "clear_out s \<longleftrightarrow> tx_ok (sk_yield s) (tx (sk_conn s))"

text \<open>Only the connection differs.\<close>

definition only_conn :: "'a peer_scheme \<Rightarrow> 'a peer_scheme \<Rightarrow> bool" where
  "only_conn s s' \<longleftrightarrow> s' = s\<lparr>sk_conn := sk_conn s'\<rparr>"

text \<open>\<open>io i bs s s'\<close>: \<open>s'\<close> is \<open>s\<close> after \<open>i\<close> bytes were read and \<open>bs\<close> sent.\<close>

definition io :: "nat \<Rightarrow> bytes \<Rightarrow> 'a peer_scheme \<Rightarrow> 'a peer_scheme \<Rightarrow> bool" where
  "io i bs s s' \<longleftrightarrow> only_conn s s' \<and> i \<le> length (inflow s) \<and> inflow s' = drop i (inflow s)
     \<and> outs s' = outs s @ bs \<and> (clear_out s \<longrightarrow> clear_out s')"

text \<open>\<open>quiet s s'\<close>: \<open>s'\<close> is \<open>s\<close> after reads that may have failed; nothing was sent.\<close>

definition quiet :: "'a peer_scheme \<Rightarrow> 'a peer_scheme \<Rightarrow> bool" where
  "quiet s s' \<longleftrightarrow> only_conn s s' \<and> outs s' = outs s \<and> (clear_out s \<longrightarrow> clear_out s')"

lemma sk_yield_conn [simp]: "sk_yield (s\<lparr>sk_conn := c\<rparr>) = sk_yield s"
  by (simp add: sk_yield_def fun_eq_iff)

lemma only_conn_upd [simp]: "only_conn s (s\<lparr>sk_conn := c\<rparr>)"
  by (simp add: only_conn_def)

lemma only_conn_trans: "only_conn s s' \<Longrightarrow> only_conn s' s'' \<Longrightarrow> only_conn s s''"
proof -
  assume "only_conn s s'" "only_conn s' s''"
  then have "s'' = s\<lparr>sk_conn := sk_conn s'\<rparr>\<lparr>sk_conn := sk_conn s''\<rparr>" by (simp only: only_conn_def)
  then show ?thesis by (simp add: only_conn_def)
qed

lemma only_conn_fields:
  assumes "only_conn s s'"
  shows "sk_fd s' = sk_fd s" "sk_timeout s' = sk_timeout s" "sk_type s' = sk_type s"
    "sk_udp_associated s' = sk_udp_associated s" "sk_addr_family s' = sk_addr_family s"
    "sk_open s' = sk_open s" "peer.more s' = peer.more s" "sk_yield s' = sk_yield s"
proof -
  have e: "s' = s\<lparr>sk_conn := sk_conn s'\<rparr>" using assms by (simp add: only_conn_def)
  show "sk_fd s' = sk_fd s" "sk_timeout s' = sk_timeout s" "sk_type s' = sk_type s"
    "sk_udp_associated s' = sk_udp_associated s" "sk_addr_family s' = sk_addr_family s"
    "sk_open s' = sk_open s" "peer.more s' = peer.more s" "sk_yield s' = sk_yield s"
    by (subst e, simp)+
qed

lemma io_trans: "io i as s s' \<Longrightarrow> io j bs s' s'' \<Longrightarrow> io (i + j) (as @ bs) s s''"
  by (auto simp: io_def add.commute intro: only_conn_trans)

lemma io_quiet: "io i [] s s' \<Longrightarrow> quiet s s'"
  by (auto simp: io_def quiet_def)

lemma quiet_trans: "quiet s s' \<Longrightarrow> quiet s' s'' \<Longrightarrow> quiet s s''"
  by (auto simp: quiet_def intro: only_conn_trans)

lemma sk_sendmsg_send: "sk_sendmsg vs s = sk_send (concat vs) s"
  by (simp add: sk_sendmsg_def sk_send_def sendmsg_send)

lemma sk_send_all:
  assumes "clear_out s" "buf \<noteq> []"
  obtains s' where "sk_send buf s = (int (length buf), s')" "io 0 buf s s'"
proof -
  obtain c' where c: "hev_task_io_socket_send buf (sk_yield s) (sk_conn s) = (int (length buf), c')"
    "sent c' = sent (sk_conn s) @ buf" "tx_ok (sk_yield s) (tx c')" "rx c' = rx (sk_conn s)"
    using send_all [of buf "sk_yield s" "sk_conn s"] assms by (metis clear_out_def)
  then have "io 0 buf s (s\<lparr>sk_conn := c'\<rparr>)"
    by (simp add: io_def inflow_def outs_def clear_out_def)
  with c that show ?thesis by (simp add: sk_send_def)
qed

lemma sk_recv_cases:
  assumes "0 < n"
  obtains s' where "n \<le> length (inflow s)" "sk_recv n s = (int n, take n (inflow s), s')" "io n [] s s'"
  | res buf s' where "length (inflow s) < n" "sk_recv n s = (res, buf, s')" "res \<noteq> int n" "quiet s s'"
proof (cases rule: recv_cases [OF assms, of "sk_yield s" "sk_conn s"])
  case (1 c')
  then have "io n [] s (s\<lparr>sk_conn := c'\<rparr>)"
    by (simp add: io_def inflow_def outs_def clear_out_def)
  with 1 that(1) show ?thesis by (simp add: sk_recv_def inflow_def)
next
  case (2 res buf c')
  then have "quiet s (s\<lparr>sk_conn := c'\<rparr>)"
    by (simp add: quiet_def outs_def clear_out_def)
  with 2 that(2) show ?thesis by (simp add: sk_recv_def inflow_def)
qed

lemma sk_recv_zero: "sk_recv 0 s = (0, [], s)"
proof -
  have "recv_loop True False yl 0 [] c = (0, [], c)" for yl c
    by (subst recv_loop.simps) (simp add: sys_recv_def size_or_def)
  then show ?thesis by (simp add: sk_recv_def hev_task_io_socket_recv_def)
qed

lemma io_refl [simp]: "io 0 [] s s" "quiet s s"
  by (simp_all add: io_def quiet_def only_conn_def)

text \<open>An exact read of any length, none included.\<close>

lemma sk_recv_any:
  obtains s' where "n \<le> length (inflow s)" "sk_recv n s = (int n, take n (inflow s), s')" "io n [] s s'"
  | res buf s' where "length (inflow s) < n" "sk_recv n s = (res, buf, s')" "res \<noteq> int n" "quiet s s'"
proof (cases "n = 0")
  case True
  with that(1) show ?thesis by (simp add: sk_recv_zero)
next
  case False
  then have "0 < n" by simp
  then show ?thesis by (cases rule: sk_recv_cases [of n s]) (use that in blast)+
qed

text \<open>A read followed by code that decides on its outcome.\<close>

lemma recv_bind:
  assumes "\<And>s'. n \<le> length (inflow s) \<Longrightarrow> io n [] s s' \<Longrightarrow> Q (f (int n) (take n (inflow s)) s')"
    and "\<And>res buf s'. length (inflow s) < n \<Longrightarrow> res \<noteq> int n \<Longrightarrow> quiet s s' \<Longrightarrow> Q (f res buf s')"
  shows "Q (case sk_recv n s of (res, buf, s') \<Rightarrow> f res buf s')"
  by (cases rule: sk_recv_any [of n s]) (simp_all add: assms)

definition read_spec :: "'a peer_scheme \<Rightarrow> nat option \<Rightarrow> int \<Rightarrow> int \<times> 'a peer_scheme \<Rightarrow> bool" where
  "read_spec s part good out \<longleftrightarrow>
     (case out of (res, s') \<Rightarrow>
        quiet s s' \<and> (case part of None \<Rightarrow> res = -1 | Some i \<Rightarrow> res = good \<and> io i [] s s'))"

lemma read_spec_simps [simp]:
  "read_spec s None good (res, s') \<longleftrightarrow> res = -1 \<and> quiet s s'"
  "read_spec s (Some i) good (res, s') \<longleftrightarrow> res = good \<and> io i [] s s'"
  by (auto simp: read_spec_def io_quiet)

lemma read_spec_after:
  assumes "io i [] s s1" "read_spec s1 part good out"
  shows "read_spec s (map_option ((+) i) part) good out"
  using assms io_trans [OF assms(1), of _ "[]"] quiet_trans [OF io_quiet [OF assms(1)]]
  by (cases part; cases out) auto

lemma two_cases:
  obtains "length xs < 2" "xs = [] \<or> (\<exists>x. xs = [x])" | x y r where "xs = x # y # r" "2 \<le> length xs"
  by (cases xs rule: remdups_adj.cases) auto

text \<open>Positive time-outs give up under the same circumstances.\<close>

definition timeouts_pos :: "timeouts \<Rightarrow> bool" where
  "timeouts_pos G \<longleftrightarrow> 0 < connect_timeout G \<and> 0 < tcp_timeout G \<and> 0 < udp_timeout G"

lemma sk_yield_pos: "0 < sk_timeout s \<Longrightarrow> 0 < sk_timeout s' \<Longrightarrow> sk_yield s = sk_yield s'"
  by (simp add: sk_yield_fun hev_socks5_task_io_yielder_def hev_task_sleep_def fun_eq_iff)

lemma view_cong:
  assumes "sk_conn s = sk_conn s'" "0 < sk_timeout s" "0 < sk_timeout s'"
  shows "inflow s = inflow s'" "outs s = outs s'" "clear_out s = clear_out s'"
  using assms sk_yield_pos [OF assms(2,3)] by (simp_all add: inflow_def outs_def clear_out_def)

section \<open>Descriptors\<close>

lemma close_last [simp]: "fd \<notin> set (sk_open s) \<Longrightarrow> fd_close fd (s\<lparr>sk_open := fd # sk_open s\<rparr>) = s"
  by (simp add: fd_close_def)

lemma socket_cases:
  assumes "fresh_fds N"
  obtains "hev_socks5_socket N k s = (-1, s)"
  | fd where "hev_socks5_socket N k s = (fd, s\<lparr>sk_open := fd # sk_open s\<rparr>)" "0 \<le> fd" "fd \<notin> set (sk_open s)"
proof -
  let ?fd = "nsocket N (sk_open s) k"
  have f: "\<not> ?fd < 0 \<Longrightarrow> ?fd \<notin> set (sk_open s)" using assms by (simp add: fresh_fds_def)
  then have e: "hev_socks5_socket N k s =
      (if ?fd < 0 \<or> nv6only N ?fd < 0 then (-1, s) else (?fd, s\<lparr>sk_open := ?fd # sk_open s\<rparr>))"
    by (simp add: hev_socks5_socket_def Let_def)
  show ?thesis
  proof (cases "?fd < 0 \<or> nv6only N ?fd < 0")
    case True
    with e that(1) show ?thesis by simp
  next
    case False
    with e f that(2) [of ?fd] show ?thesis by simp
  qed
qed

section \<open>A network for the examples\<close>

text \<open>Every call succeeds; \<open>r\<close> is what \<^verbatim>\<open>connect\<close> returns.\<close>

definition ex_net :: "int \<Rightarrow> net" where
  "ex_net r = \<lparr>nsocket = \<lambda>os k. 1 + foldr max os 0, nv6only = \<lambda>_. 0, nreuse = \<lambda>_. 0, nbinder = \<lambda>_ _. 0,
     nconnect = \<lambda>_ _. r, nbind = \<lambda>_ _. 0, ngetsockname = \<lambda>_. None\<rparr>"

lemma foldr_max_ge: "x \<in> set xs \<Longrightarrow> x \<le> foldr max xs (a :: int)"
  by (induction xs) auto

lemma ex_net_ok: "fresh_fds (ex_net r)"
  unfolding fresh_fds_def
proof (intro allI impI notI)
  fix os k
  assume "nsocket (ex_net r) os k \<in> set os"
  with foldr_max_ge [of "1 + foldr max os 0" os 0] show False by (simp add: ex_net_def)
qed

end
