(* ===== verification/Socks5_Client.thy ===== *)
theory Socks5_Client
  imports Socks5_Net
begin

text \<open>
  The client side of the protocol: \<^verbatim>\<open>hev/src/core/src/hev-socks5-client.c\<close> with its two
  subclasses \<^verbatim>\<open>hev-socks5-client-tcp.c\<close> and \<^verbatim>\<open>hev-socks5-client-udp.c\<close>.  The class of the
  object, which selects the virtual methods, is the field \<open>c_class\<close>.  An operation gives
  \<open>None\<close> where the code would follow a null pointer.  User name and password are the contents
  of C strings.
\<close>

section \<open>State and virtual methods\<close>

datatype client_class = ClientTCP | ClientUDP

record client = peer +
  c_class :: client_class
  auth_user :: "bytes option"
  auth_pass :: "bytes option"
  c_addr :: "bytes option"
  c_udp_fd :: int

definition hev_socks5_client_construct :: "socks5_type \<Rightarrow> client_class \<Rightarrow> conn \<Rightarrow> client" where
  "hev_socks5_client_construct type cls c =
     hev_socks5.extend (hev_socks5_construct type)
       \<lparr>sk_conn = c, sk_open = [], c_class = cls, auth_user = None, auth_pass = None, c_addr = None, c_udp_fd = 0\<rparr>"

definition hev_socks5_client_set_auth :: "bytes option \<Rightarrow> bytes option \<Rightarrow> client \<Rightarrow> client" where
  "hev_socks5_client_set_auth user pass s = s\<lparr>auth_user := user, auth_pass := pass\<rparr>"

definition hev_socks5_client_tcp_construct :: "bytes \<Rightarrow> conn \<Rightarrow> (int \<times> client) option" where
  "hev_socks5_client_tcp_construct addr c =
     (let s = hev_socks5_client_construct TYPE_TCP ClientTCP c in
      case hev_socks5_addr_len addr of
        None \<Rightarrow> None
      | Some n \<Rightarrow>
          if n < 0 then Some (-1, s)
          else if nat n \<le> length addr then Some (0, s\<lparr>c_addr := Some (take (nat n) addr)\<rparr>)
          else None)"

definition hev_socks5_client_tcp_new_name :: "bytes \<Rightarrow> u16 \<Rightarrow> conn \<Rightarrow> client option" where
  "hev_socks5_client_tcp_new_name name port c =
     (case hev_socks5_addr_from_name name port of
        None \<Rightarrow> None
      | Some (addr, _) \<Rightarrow>
          (case hev_socks5_client_tcp_construct addr c of
             Some (res, s) \<Rightarrow> if res < 0 then None else Some s
           | None \<Rightarrow> None))"

definition hev_socks5_client_tcp_new_ipv4 :: "bytes \<Rightarrow> u16 \<Rightarrow> conn \<Rightarrow> client option" where
  "hev_socks5_client_tcp_new_ipv4 ipv4 port c =
     (case hev_socks5_client_tcp_construct (fst (hev_socks5_addr_from_ipv4 ipv4 port)) c of
        Some (res, s) \<Rightarrow> if res < 0 then None else Some s
      | None \<Rightarrow> None)"

definition hev_socks5_client_tcp_new_ipv6 :: "bytes \<Rightarrow> u16 \<Rightarrow> conn \<Rightarrow> client option" where
  "hev_socks5_client_tcp_new_ipv6 ipv6 port c =
     (case hev_socks5_client_tcp_construct (fst (hev_socks5_addr_from_ipv6 ipv6 port)) c of
        Some (res, s) \<Rightarrow> if res < 0 then None else Some s
      | None \<Rightarrow> None)"

definition hev_socks5_client_tcp_get_upstream_addr :: "client \<Rightarrow> bytes option \<times> client" where
  "hev_socks5_client_tcp_get_upstream_addr s = (c_addr s, s\<lparr>c_addr := None\<rparr>)"

definition hev_socks5_client_tcp_set_upstream_addr :: "bytes \<Rightarrow> client \<Rightarrow> (int \<times> client) option" where
  "hev_socks5_client_tcp_set_upstream_addr addr s = Some (0, s)"

definition hev_socks5_client_udp_construct :: "socks5_type \<Rightarrow> conn \<Rightarrow> client" where
  "hev_socks5_client_udp_construct type c = (hev_socks5_client_construct type ClientUDP c)\<lparr>c_udp_fd := -1\<rparr>"

definition hev_socks5_client_udp_get_upstream_addr :: "client \<Rightarrow> bytes option \<times> client" where
  "hev_socks5_client_udp_get_upstream_addr s =
     (case hev_socks5_get_addr_family s of
        FAMILY_IPV4 \<Rightarrow> (Some (HEV_SOCKS5_ADDR_TYPE_IPV4 # replicate 6 0), s)
      | FAMILY_IPV6 \<Rightarrow> (Some (HEV_SOCKS5_ADDR_TYPE_IPV6 # replicate 18 0), s)
      | FAMILY_UNSPEC \<Rightarrow> (None, s))"

definition hev_socks5_client_udp_set_upstream_addr ::
    "resolver \<Rightarrow> net \<Rightarrow> bytes \<Rightarrow> client \<Rightarrow> (int \<times> client) option" where
  "hev_socks5_client_udp_set_upstream_addr R N addr s =
     (if sk_type s \<noteq> TYPE_UDP_IN_UDP then Some (0, s)
      else case hev_socks5_addr_into_sockaddr6 R addr sockaddr6_zero (hev_socks5_get_addr_family s) of
        None \<Rightarrow> None
      | Some (res, saddr, fam) \<Rightarrow>
          if res < 0 then Some (-1, s)
          else case hev_socks5_socket N SOCK_DGRAM s of (fd, s1) \<Rightarrow>
            if fd < 0 then Some (-1, s1)
            else if nbinder N fd saddr < 0 then Some (-1, fd_close fd s1)
            else if nconnect N fd saddr < 0 then Some (-1, fd_close fd s1)
            else Some (0, s1\<lparr>sk_udp_associated := True, c_udp_fd := fd\<rparr>))"

definition hev_socks5_client_udp_get_fd :: "client \<Rightarrow> int" where
  "hev_socks5_client_udp_get_fd s =
     (case sk_type s of TYPE_UDP_IN_TCP \<Rightarrow> sk_fd s | TYPE_UDP_IN_UDP \<Rightarrow> c_udp_fd s | _ \<Rightarrow> -1)"

definition hev_socks5_client_udp_destruct :: "client \<Rightarrow> client" where
  "hev_socks5_client_udp_destruct s =
     hev_socks5_destruct (if c_udp_fd s \<ge> 0 then fd_close (c_udp_fd s) s else s)"

definition get_upstream_addr :: "client \<Rightarrow> bytes option \<times> client" where
  "get_upstream_addr s =
     (case c_class s of ClientTCP \<Rightarrow> hev_socks5_client_tcp_get_upstream_addr s
      | ClientUDP \<Rightarrow> hev_socks5_client_udp_get_upstream_addr s)"

definition set_upstream_addr :: "resolver \<Rightarrow> net \<Rightarrow> bytes \<Rightarrow> client \<Rightarrow> (int \<times> client) option" where
  "set_upstream_addr R N addr s =
     (case c_class s of ClientTCP \<Rightarrow> hev_socks5_client_tcp_set_upstream_addr addr s
      | ClientUDP \<Rightarrow> hev_socks5_client_udp_set_upstream_addr R N addr s)"

section \<open>Messages\<close>

definition hev_socks5_client_write_auth_methods :: "client \<Rightarrow> (int \<times> client) option" where
  "hev_socks5_client_write_auth_methods s =
     (let m = (if auth_user s = None \<or> auth_pass s = None then HEV_SOCKS5_AUTH_METHOD_NONE
               else HEV_SOCKS5_AUTH_METHOD_USER) in
      case sk_send [HEV_SOCKS5_VERSION_5, 1, m] s of
        (res, s1) \<Rightarrow> if res \<le> 0 then Some (-1, s1) else Some (0, s1))"

definition hev_socks5_client_write_auth_creds :: "client \<Rightarrow> (int \<times> client) option" where
  "hev_socks5_client_write_auth_creds s =
     (case (auth_user s, auth_pass s) of
        (Some user, Some pass) \<Rightarrow>
          let ub1 = (of_nat (length user) :: u8); ub2 = (of_nat (length pass) :: u8) in
          (case sk_sendmsg [[HEV_SOCKS5_AUTH_VERSION_1, ub1], take (unat ub1) user, [ub2], take (unat ub2) pass] s of
             (res, s1) \<Rightarrow> if res \<le> 0 then Some (-1, s1) else Some (0, s1))
      | _ \<Rightarrow> Some (0, s))"

definition req_cmd :: "socks5_type \<Rightarrow> u8 option" where
  "req_cmd type =
     (case type of TYPE_TCP \<Rightarrow> Some HEV_SOCKS5_REQ_CMD_CONNECT
      | TYPE_UDP_IN_TCP \<Rightarrow> Some HEV_SOCKS5_REQ_CMD_FWD_UDP
      | TYPE_UDP_IN_UDP \<Rightarrow> Some HEV_SOCKS5_REQ_CMD_UDP_ASC
      | TYPE_NONE \<Rightarrow> None)"

definition hev_socks5_client_write_request :: "client \<Rightarrow> (int \<times> client) option" where
  "hev_socks5_client_write_request s =
     (case req_cmd (sk_type s) of
        None \<Rightarrow> Some (-1, s)
      | Some cmd \<Rightarrow>
          (case get_upstream_addr s of
             (None, s1) \<Rightarrow> None
           | (Some addr, s1) \<Rightarrow>
               (case hev_socks5_addr_len addr of
                  None \<Rightarrow> None
                | Some addrlen \<Rightarrow>
                    if addrlen < 0 then Some (-1, s1)
                    else case sk_sendmsg [[HEV_SOCKS5_VERSION_5, cmd, 0], take (nat addrlen) addr] s1 of
                      (ret, s2) \<Rightarrow> if ret \<le> 0 then Some (-1, s2) else Some (0, s2))))"

definition hev_socks5_client_read_auth_method :: "client \<Rightarrow> (int \<times> client) option" where
  "hev_socks5_client_read_auth_method s =
     (case sk_recv 2 s of (res, auth, s1) \<Rightarrow>
        if res \<noteq> 2 then Some (-1, s1)
        else if auth ! 0 \<noteq> HEV_SOCKS5_VERSION_5 then Some (-1, s1)
        else Some (uint (auth ! 1), s1))"

definition hev_socks5_client_read_auth_creds :: "client \<Rightarrow> (int \<times> client) option" where
  "hev_socks5_client_read_auth_creds s =
     (case sk_recv 2 s of (ret, res, s1) \<Rightarrow>
        if ret \<noteq> 2 then Some (-1, s1)
        else if res ! 0 \<noteq> HEV_SOCKS5_AUTH_VERSION_1 then Some (-1, s1)
        else if res ! 1 \<noteq> HEV_SOCKS5_RES_REP_SUCC then Some (-1, s1)
        else Some (0, s1))"

text \<open>The part of \<^verbatim>\<open>read_response\<close> behind the address type.\<close>

definition read_response_addr :: "resolver \<Rightarrow> net \<Rightarrow> u8 \<Rightarrow> nat \<Rightarrow> client \<Rightarrow> (int \<times> client) option" where
  "read_response_addr R N atype addrlen s =
     (case sk_recv addrlen s of (ret, addr, s2) \<Rightarrow>
        if ret \<noteq> int addrlen then Some (-1, s2)
        else case set_upstream_addr R N (atype # addr) s2 of
          None \<Rightarrow> None
        | Some (ret, s3) \<Rightarrow> if ret < 0 then Some (-1, s3) else Some (0, s3))"

definition hev_socks5_client_read_response :: "resolver \<Rightarrow> net \<Rightarrow> client \<Rightarrow> (int \<times> client) option" where
  "hev_socks5_client_read_response R N s =
     (case sk_recv 4 s of (ret, res, s1) \<Rightarrow>
        if ret \<noteq> 4 then Some (-1, s1)
        else if res ! 0 \<noteq> HEV_SOCKS5_VERSION_5 then Some (-1, s1)
        else if res ! 1 \<noteq> HEV_SOCKS5_RES_REP_SUCC then Some (-1, s1)
        else if res ! 3 \<noteq> HEV_SOCKS5_ADDR_TYPE_IPV4 \<and> res ! 3 \<noteq> HEV_SOCKS5_ADDR_TYPE_IPV6 then Some (-1, s1)
        else read_response_addr R N (res ! 3) (if res ! 3 = HEV_SOCKS5_ADDR_TYPE_IPV4 then 6 else 18) s1)"

section \<open>Connecting and shaking hands\<close>

definition hev_socks5_client_connect ::
    "timeouts \<Rightarrow> resolver \<Rightarrow> net \<Rightarrow> bytes \<Rightarrow> u16 \<Rightarrow> client \<Rightarrow> int \<times> client" where
  "hev_socks5_client_connect G R N addr port s0 =
     (let s = hev_socks5_set_timeout (connect_timeout G) s0 in
      case hev_socks5_name_into_sockaddr6 R addr port sockaddr6_zero (hev_socks5_get_addr_family s) of
        (res, saddr, fam) \<Rightarrow>
          if res < 0 then (-1, s)
          else case hev_socks5_socket N SOCK_STREAM s of (fd, s1) \<Rightarrow>
            if fd < 0 then (-1, s1)
            else if nbinder N fd saddr < 0 then (-1, fd_close fd s1)
            else if nconnect N fd saddr < 0 then (-1, fd_close fd s1)
            else (0, hev_socks5_set_addr_family fam (s1\<lparr>sk_fd := fd\<rparr>)))"

definition hev_socks5_client_handshake_standard :: "resolver \<Rightarrow> net \<Rightarrow> client \<Rightarrow> (int \<times> client) option" where
  "hev_socks5_client_handshake_standard R N s =
     on_ok (hev_socks5_client_write_auth_methods s) (\<lambda>_ s1.
     on_ok (hev_socks5_client_read_auth_method s1) (\<lambda>res s2.
     on_ok (if res = uint HEV_SOCKS5_AUTH_METHOD_USER
            then on_ok (hev_socks5_client_write_auth_creds s2) (\<lambda>_ s3. hev_socks5_client_read_auth_creds s3)
            else if res \<noteq> uint HEV_SOCKS5_AUTH_METHOD_NONE then Some (-1, s2) else Some (0, s2)) (\<lambda>_ s4.
     on_ok (hev_socks5_client_write_request s4) (\<lambda>_ s5.
     on_ok (hev_socks5_client_read_response R N s5) (\<lambda>_ s6. Some (0, s6))))))"

definition hev_socks5_client_handshake_pipeline :: "resolver \<Rightarrow> net \<Rightarrow> client \<Rightarrow> (int \<times> client) option" where
  "hev_socks5_client_handshake_pipeline R N s =
     on_ok (hev_socks5_client_write_auth_methods s) (\<lambda>_ s1.
     on_ok (hev_socks5_client_write_auth_creds s1) (\<lambda>_ s2.
     on_ok (hev_socks5_client_write_request s2) (\<lambda>_ s3.
     on_ok (hev_socks5_client_read_auth_method s3) (\<lambda>res s4.
     on_ok (if res = uint HEV_SOCKS5_AUTH_METHOD_USER then hev_socks5_client_read_auth_creds s4
            else if res \<noteq> uint HEV_SOCKS5_AUTH_METHOD_NONE then Some (-1, s4) else Some (0, s4)) (\<lambda>_ s5.
     on_ok (hev_socks5_client_read_response R N s5) (\<lambda>_ s6. Some (0, s6)))))))"

definition hev_socks5_client_handshake ::
    "timeouts \<Rightarrow> resolver \<Rightarrow> net \<Rightarrow> bool \<Rightarrow> client \<Rightarrow> (int \<times> client) option" where
  "hev_socks5_client_handshake G R N pipeline s0 =
     (let s = hev_socks5_set_timeout (tcp_timeout G) s0 in
      case (if pipeline then hev_socks5_client_handshake_pipeline R N s
            else hev_socks5_client_handshake_standard R N s) of
        None \<Rightarrow> None
      | Some (res, s1) \<Rightarrow>
          Some (res, if sk_type s1 = TYPE_UDP_IN_TCP \<or> sk_type s1 = TYPE_UDP_IN_UDP
                     then hev_socks5_set_timeout (udp_timeout G) s1 else s1))"

section \<open>What a client sends and what it accepts\<close>

definition offer :: "client \<Rightarrow> bytes" where
  "offer s = [5, 1, if auth_user s = None \<or> auth_pass s = None then 0 else 2]"

definition creds :: "client \<Rightarrow> bytes" where
  "creds s =
     (case (auth_user s, auth_pass s) of
        (Some user, Some pass) \<Rightarrow> 1 # of_nat (length user) # user @ of_nat (length pass) # pass
      | _ \<Rightarrow> [])"

definition creds_fit :: "client \<Rightarrow> bool" where
  "creds_fit s \<longleftrightarrow> (\<forall>u\<in>set_option (auth_user s). length u < 256) \<and> (\<forall>p\<in>set_option (auth_pass s). length p < 256)"

text \<open>
  The length of an acceptable answer to the negotiation, and of an acceptable answer to the
  request, at the head of a byte stream.
\<close>

definition auth_part :: "bytes \<Rightarrow> nat option" where
  "auth_part inp =
     (case inp of
        v # m # r \<Rightarrow>
          if v \<noteq> 5 then None
          else if m = 0 then Some 2
          else if m = 2 then
            (case r of a # b # _ \<Rightarrow> if a = 1 \<and> b = 0 then Some 4 else None | _ \<Rightarrow> None)
          else None
      | _ \<Rightarrow> None)"

definition reply_part :: "bytes \<Rightarrow> nat option" where
  "reply_part inp =
     (case inp of
        v # rep # rsv # t # r \<Rightarrow>
          if v = 5 \<and> rep = 0 \<and> t = 1 \<and> 6 \<le> length r then Some 10
          else if v = 5 \<and> rep = 0 \<and> t = 4 \<and> 18 \<le> length r then Some 22
          else None
      | _ \<Rightarrow> None)"

definition plain_client :: "client \<Rightarrow> bool" where
  "plain_client s \<longleftrightarrow> c_class s = ClientTCP \<or> sk_type s \<noteq> TYPE_UDP_IN_UDP"

lemma client_only_conn:
  assumes "only_conn s s'"
  shows "c_class s' = c_class s" "auth_user s' = auth_user s" "auth_pass s' = auth_pass s"
    "c_addr s' = c_addr s" "c_udp_fd s' = c_udp_fd s" "offer s' = offer s" "creds s' = creds s"
    "creds_fit s' = creds_fit s" "plain_client s' = plain_client s" "fst (get_upstream_addr s') = fst (get_upstream_addr s)"
proof -
  have e: "s' = s\<lparr>sk_conn := sk_conn s'\<rparr>" using assms by (simp add: only_conn_def)
  show "c_class s' = c_class s" "auth_user s' = auth_user s" "auth_pass s' = auth_pass s"
    "c_addr s' = c_addr s" "c_udp_fd s' = c_udp_fd s" "offer s' = offer s" "creds s' = creds s"
    "creds_fit s' = creds_fit s" "plain_client s' = plain_client s" "fst (get_upstream_addr s') = fst (get_upstream_addr s)"
    by (subst e, simp add: offer_def creds_def creds_fit_def plain_client_def get_upstream_addr_def
        hev_socks5_client_tcp_get_upstream_addr_def hev_socks5_client_udp_get_upstream_addr_def
        hev_socks5_get_addr_family_def split: client_class.splits addr_family.splits)+
qed

lemmas client_io = only_conn_fields client_only_conn

lemma io_only: "io i bs s s' \<Longrightarrow> only_conn s s'" "quiet s s' \<Longrightarrow> only_conn s s'"
  by (simp_all add: io_def quiet_def)

lemma write_auth_methods_ok:
  assumes "clear_out s"
  obtains s' where "hev_socks5_client_write_auth_methods s = Some (0, s')" "io 0 (offer s) s s'"
proof -
  obtain s' where "sk_send (offer s) s = (int (length (offer s)), s')" "io 0 (offer s) s s'"
    using sk_send_all [OF assms, of "offer s"] by (auto simp: offer_def)
  with that show ?thesis
    by (simp add: hev_socks5_client_write_auth_methods_def offer_def split: if_splits)
qed

lemma write_auth_creds_ok:
  assumes "clear_out s" "creds_fit s"
  obtains s' where "hev_socks5_client_write_auth_creds s = Some (0, s')" "io 0 (creds s) s s'"
proof (cases "creds s = []")
  case True
  then have "hev_socks5_client_write_auth_creds s = Some (0, s)"
    by (auto simp: creds_def hev_socks5_client_write_auth_creds_def split: option.splits)
  with True that show ?thesis by (simp add: io_def only_conn_def)
next
  case False
  then obtain u p where up: "auth_user s = Some u" "auth_pass s = Some p"
    by (auto simp: creds_def split: option.splits)
  then have "sk_sendmsg [[1, of_nat (length u)], u, [of_nat (length p)], p] s = sk_send (creds s) s"
    by (simp add: sk_sendmsg_send creds_def)
  moreover obtain s' where "sk_send (creds s) s = (int (length (creds s)), s')" "io 0 (creds s) s s'"
    using sk_send_all [OF assms(1) False] by blast
  ultimately show ?thesis
    using that up False assms(2)
    by (simp add: hev_socks5_client_write_auth_creds_def creds_fit_def unat_of_nat_u8 Let_def)
qed

lemma read_auth_method_spec:
  obtains s' where "hev_socks5_client_read_auth_method s =
      Some (case inflow s of v # m # _ \<Rightarrow> if v = 5 then uint m else -1 | _ \<Rightarrow> -1, s')"
    "quiet s s'" "2 \<le> length (inflow s) \<Longrightarrow> io 2 [] s s'"
proof (cases rule: sk_recv_cases [of 2 s, simplified])
  case (1 s')
  then obtain v m r where "inflow s = v # m # r"
    by (cases "inflow s" rule: remdups_adj.cases) auto
  with 1 that [of s'] io_quiet [OF 1(3)] show ?thesis
    by (cases "v = 5"; simp add: hev_socks5_client_read_auth_method_def)
next
  case (2 res buf s')
  then show ?thesis
    using that [of s']
    by (cases "inflow s" rule: remdups_adj.cases) (simp_all add: hev_socks5_client_read_auth_method_def)
qed

lemma read_auth_creds_spec:
  obtains s' where "hev_socks5_client_read_auth_creds s =
      Some (case inflow s of a # b # _ \<Rightarrow> if a = 1 \<and> b = 0 then 0 else -1 | _ \<Rightarrow> -1, s')"
    "quiet s s'" "2 \<le> length (inflow s) \<Longrightarrow> io 2 [] s s'"
proof (cases rule: sk_recv_cases [of 2 s, simplified])
  case (1 s')
  then obtain v m r where "inflow s = v # m # r"
    by (cases "inflow s" rule: remdups_adj.cases) auto
  with 1 that [of s'] io_quiet [OF 1(3)] show ?thesis
    by (cases "v = 1"; cases "m = 0"; simp add: hev_socks5_client_read_auth_creds_def)
next
  case (2 res buf s')
  then show ?thesis
    using that [of s']
    by (cases "inflow s" rule: remdups_adj.cases) (simp_all add: hev_socks5_client_read_auth_creds_def)
qed

lemma sk_yield_c_addr [simp]: "sk_yield (s\<lparr>c_addr := a\<rparr>) = sk_yield s"
  by (simp add: sk_yield_def fun_eq_iff)

lemma inflow_c_addr [simp]:
  "inflow (s\<lparr>c_addr := a\<rparr>) = inflow s" "outs (s\<lparr>c_addr := a\<rparr>) = outs s"
  "clear_out (s\<lparr>c_addr := a\<rparr>) = clear_out s"
  "plain_client (s\<lparr>c_addr := a\<rparr>) = plain_client s"
  by (simp_all add: inflow_def outs_def clear_out_def plain_client_def)

definition without_addr :: "client \<Rightarrow> client" where
  "without_addr s = (if c_class s = ClientTCP then s\<lparr>c_addr := None\<rparr> else s)"

lemma without_addr_simps [simp]:
  "inflow (without_addr s) = inflow s" "outs (without_addr s) = outs s"
  "clear_out (without_addr s) = clear_out s" "plain_client (without_addr s) = plain_client s"
  by (simp_all add: without_addr_def)

lemma upstream_without: "snd (get_upstream_addr s) = without_addr s"
  by (simp add: get_upstream_addr_def without_addr_def hev_socks5_client_tcp_get_upstream_addr_def
      hev_socks5_client_udp_get_upstream_addr_def split: client_class.splits addr_family.splits)

lemma write_request_ok:
  assumes "clear_out s" "req_cmd (sk_type s) = Some cmd" "fst (get_upstream_addr s) = Some (enc_dest d)" "dest_wf d"
  obtains s' where "hev_socks5_client_write_request s = Some (0, s')"
    "io 0 ([5, cmd, 0] @ enc_dest d) (without_addr s) s'"
proof -
  have g: "get_upstream_addr s = (Some (enc_dest d), without_addr s)"
    using assms(3) upstream_without [of s] by (metis prod.collapse)
  obtain s' where "sk_send ([5, cmd, 0] @ enc_dest d) (without_addr s) = (3 + int (length (enc_dest d)), s')"
    "io 0 ([5, cmd, 0] @ enc_dest d) (without_addr s) s'"
    using sk_send_all [of "without_addr s" "[5, cmd, 0] @ enc_dest d"] assms(1) by auto
  with g that assms(2,4) addr_len_enc [of d "[]"] show ?thesis
    by (simp add: hev_socks5_client_write_request_def sk_sendmsg_send)
qed

lemma set_upstream_plain: "plain_client s \<Longrightarrow> set_upstream_addr R N a s = Some (0, s)"
  by (auto simp: plain_client_def set_upstream_addr_def hev_socks5_client_tcp_set_upstream_addr_def
      hev_socks5_client_udp_set_upstream_addr_def split: client_class.splits)

lemma read_response_tail:
  assumes "plain_client s" "0 < n"
  obtains s' where "read_response_addr R N t n s
      = Some (if n \<le> length (inflow s) then 0 else -1, s')"
    "quiet s s'" "n \<le> length (inflow s) \<Longrightarrow> io n [] s s'"
proof (cases rule: sk_recv_cases [OF assms(2), of s])
  case (1 s')
  then have "plain_client s'" using assms(1) by (metis client_io(17) io_only(1))
  with 1 that [of s'] show ?thesis by (simp add: read_response_addr_def set_upstream_plain io_quiet)
next
  case (2 res buf s')
  with that [of s'] show ?thesis by (simp add: read_response_addr_def)
qed

lemma read_response_spec:
  assumes "plain_client s"
  obtains s' where "hev_socks5_client_read_response R N s = Some (if reply_part (inflow s) = None then -1 else 0, s')"
    "quiet s s'" "\<And>j. reply_part (inflow s) = Some j \<Longrightarrow> io j [] s s'"
proof (cases rule: sk_recv_cases [of 4 s, simplified])
  case (1 s1)
  then obtain v rep rsv t r where i: "inflow s = v # rep # rsv # t # r"
    by (auto simp: numeral_eq_Suc Suc_le_length_iff)
  have p1: "plain_client s1" "inflow s1 = r"
    using 1(3) assms i by (metis client_io(17) io_only(1), simp add: io_def)
  show ?thesis
  proof (cases "v = 5 \<and> rep = 0 \<and> (t = 1 \<or> t = 4)")
    case True
    define n :: nat where "n = (if t = 1 then 6 else 18)"
    have n0: "0 < n" by (simp add: n_def)
    obtain s' where s': "read_response_addr R N t n s1 = Some (if n \<le> length r then 0 else -1, s')"
      "quiet s1 s'" "n \<le> length r \<Longrightarrow> io n [] s1 s'"
      using read_response_tail [OF p1(1) n0, of R N t] unfolding p1(2) by blast
    have rp: "reply_part (inflow s) = (if n \<le> length r then Some (4 + n) else None)"
      using True by (auto simp: reply_part_def i n_def)
    have "hev_socks5_client_read_response R N s = Some (if n \<le> length r then 0 else -1, s')"
      using 1(2) True s'(1) by (auto simp: hev_socks5_client_read_response_def i n_def)
    then show ?thesis
      using that [of s'] rp s'(2,3) quiet_trans [OF io_quiet [OF 1(3)]] io_trans [OF 1(3)]
      by (auto split: if_splits)
  next
    case False
    then have "reply_part (inflow s) = None" by (auto simp: reply_part_def i)
    moreover have "hev_socks5_client_read_response R N s = Some (-1, s1)"
      using 1(2) False by (auto simp: hev_socks5_client_read_response_def i)
    ultimately show ?thesis using that [of s1] io_quiet [OF 1(3)] by simp
  qed
next
  case (2 res buf s')
  then have "reply_part (inflow s) = None"
    by (auto simp: reply_part_def split: list.splits)
  with 2 that [of s'] show ?thesis by (simp add: hev_socks5_client_read_response_def)
qed

section \<open>The handshakes\<close>

text \<open>
  The outcome of a handshake as a function of the peer's bytes: its return code, the bytes it
  consumes on success, and what it has sent by then.
\<close>

definition accepted :: "bytes \<Rightarrow> nat option" where
  "accepted inp =
     (case auth_part inp of None \<Rightarrow> None
      | Some i \<Rightarrow> map_option (\<lambda>j. i + j) (reply_part (drop i inp)))"

definition shake_result :: "bytes \<Rightarrow> bytes \<Rightarrow> client \<Rightarrow> (int \<times> client) option \<Rightarrow> bool" where
  "shake_result inp msgs s out \<longleftrightarrow>
     (case out of None \<Rightarrow> False
      | Some (res, s') \<Rightarrow>
          (case accepted inp of None \<Rightarrow> res = -1
           | Some n \<Rightarrow> res = 0 \<and> io n msgs (without_addr s) s'))"

lemma auth_part_cases:
  assumes "auth_part inp = Some i"
  obtains r where "inp = 5 # 0 # r" "i = 2" | r where "inp = 5 # 2 # 1 # 0 # r" "i = 4"
  using assms by (auto simp: auth_part_def split: list.splits if_splits)

lemma without_addr_io: "io i bs s s' \<Longrightarrow> io i bs (without_addr s) (without_addr s')"
proof -
  assume a: "io i bs s s'"
  then have e: "s' = s\<lparr>sk_conn := sk_conn s'\<rparr>" by (simp add: io_def only_conn_def)
  have "only_conn (without_addr s) (without_addr s')"
    unfolding only_conn_def by (subst e, subst (2) e) (simp add: without_addr_def)
  with a show ?thesis by (simp add: io_def)
qed

definition requestable :: "client \<Rightarrow> u8 \<Rightarrow> dest \<Rightarrow> bool" where
  "requestable s cmd d \<longleftrightarrow> clear_out s \<and> creds_fit s \<and> plain_client s \<and> req_cmd (sk_type s) = Some cmd
     \<and> fst (get_upstream_addr s) = Some (enc_dest d) \<and> dest_wf d"

lemma requestable_io:
  "requestable s cmd d \<Longrightarrow> only_conn s s' \<Longrightarrow> (clear_out s \<longrightarrow> clear_out s') \<Longrightarrow> requestable s' cmd d"
  by (simp add: requestable_def client_io)

lemma requestable_steps:
  "requestable s cmd d \<Longrightarrow> io i bs s s' \<Longrightarrow> requestable s' cmd d"
  "requestable s cmd d \<Longrightarrow> quiet s s' \<Longrightarrow> requestable s' cmd d"
  by (auto elim!: requestable_io simp: io_def quiet_def)

lemma without_addr_only: "only_conn (without_addr s) s' \<Longrightarrow> plain_client s' = plain_client s"
  by (metis client_io(17) without_addr_simps(4))

lemma request_tail:
  assumes "requestable s cmd d"
  obtains s' where "on_ok (hev_socks5_client_write_request s) (\<lambda>_ s5.
      on_ok (hev_socks5_client_read_response R N s5) (\<lambda>_ s6. Some (0, s6)))
      = Some (if reply_part (inflow s) = None then -1 else 0, s')"
    "\<And>j. reply_part (inflow s) = Some j \<Longrightarrow> io j ([5, cmd, 0] @ enc_dest d) (without_addr s) s'"
proof -
  obtain s5 where s5: "hev_socks5_client_write_request s = Some (0, s5)"
    "io 0 ([5, cmd, 0] @ enc_dest d) (without_addr s) s5"
    using assms write_request_ok [of s cmd d] unfolding requestable_def by blast
  have i: "inflow s5 = inflow s" "plain_client s5"
    using s5(2) assms without_addr_only [of s s5] by (simp_all add: io_def requestable_def)
  obtain s6 where s6: "hev_socks5_client_read_response R N s5 = Some (if reply_part (inflow s) = None then -1 else 0, s6)"
    "\<And>j. reply_part (inflow s) = Some j \<Longrightarrow> io j [] s5 s6"
    using read_response_spec [OF i(2), of R N] unfolding i(1) by blast
  show ?thesis
  proof (rule that [of s6])
    show "on_ok (hev_socks5_client_write_request s) (\<lambda>_ s5.
        on_ok (hev_socks5_client_read_response R N s5) (\<lambda>_ s6. Some (0, s6)))
        = Some (if reply_part (inflow s) = None then -1 else 0, s6)"
      using s5(1) s6(1) by simp
    show "io j ([5, cmd, 0] @ enc_dest d) (without_addr s) s6" if "reply_part (inflow s) = Some j" for j
      using io_trans [OF s5(2) s6(2) [OF that]] by simp
  qed
qed

text \<open>The negotiation of the standard handshake.\<close>

definition negotiate :: "client \<Rightarrow> (int \<times> client) option" where
  "negotiate s =
     on_ok (hev_socks5_client_read_auth_method s) (\<lambda>res s2.
     if res = uint HEV_SOCKS5_AUTH_METHOD_USER
     then on_ok (hev_socks5_client_write_auth_creds s2) (\<lambda>_ s3. hev_socks5_client_read_auth_creds s3)
     else if res \<noteq> uint HEV_SOCKS5_AUTH_METHOD_NONE then Some (-1, s2) else Some (0, s2))"

lemma negotiate_spec:
  assumes "requestable s cmd d"
  obtains s' where "negotiate s = Some (if auth_part (inflow s) = None then -1 else 0, s')"
    "auth_part (inflow s) = Some 2 \<Longrightarrow> io 2 [] s s'"
    "auth_part (inflow s) = Some 4 \<Longrightarrow> io 4 (creds s) s s'"
proof -
  obtain s2 where s2: "hev_socks5_client_read_auth_method s =
      Some (case inflow s of v # m # _ \<Rightarrow> if v = 5 then uint m else -1 | _ \<Rightarrow> -1, s2)"
    "quiet s s2" "2 \<le> length (inflow s) \<Longrightarrow> io 2 [] s s2"
    using read_auth_method_spec [of s] by blast
  show ?thesis
  proof (cases "\<exists>r. inflow s = 5 # 2 # r")
    case True
    then obtain r where r: "inflow s = 5 # 2 # r" by blast
    then have io2: "io 2 [] s s2" using s2(3) by simp
    then have "clear_out s2" "creds_fit s2"
      using requestable_steps(1) [OF assms] by (auto simp: requestable_def)
    then obtain s3 where s3: "hev_socks5_client_write_auth_creds s2 = Some (0, s3)" "io 0 (creds s2) s2 s3"
      by (rule write_auth_creds_ok)
    have i3: "inflow s3 = r" and c: "creds s2 = creds s"
      using io2 s3(2) r by (simp add: io_def) (metis client_io(15) io2 io_only(1))
    obtain s4 where s4: "hev_socks5_client_read_auth_creds s3 =
        Some (case r of a # b # _ \<Rightarrow> if a = 1 \<and> b = 0 then 0 else -1 | _ \<Rightarrow> -1, s4)"
      "2 \<le> length r \<Longrightarrow> io 2 [] s3 s4"
      using read_auth_creds_spec [of s3] unfolding i3 by blast
    have n: "negotiate s = Some (if auth_part (inflow s) = None then -1 else 0, s4)"
      using s2(1) s3(1) s4(1)
      by (auto simp: negotiate_def r auth_part_def split: list.splits)
    have "io 4 (creds s) s s4" if "auth_part (inflow s) = Some 4"
      using that io_trans [OF io_trans [OF io2 s3(2)] s4(2)] r
      by (auto simp: auth_part_def c split: list.splits if_splits)
    with n that [of s4] show ?thesis by (auto simp: r auth_part_def split: list.splits if_splits)
  next
    case False
    have n: "negotiate s = Some (if auth_part (inflow s) = None then -1 else 0, s2)"
      using s2(1) False by (auto simp: negotiate_def auth_part_def split: list.splits)
    have a: "i = 2 \<and> io 2 [] s s2" if ap: "auth_part (inflow s) = Some i" for i
    proof (cases rule: auth_part_cases [OF ap])
      case (1 r)
      with s2(3) show ?thesis by simp
    next
      case (2 r)
      with False show ?thesis by simp
    qed
    have "auth_part (inflow s) \<noteq> Some 4" using a [of 4] by auto
    with n a [of 2] that [of s2] show ?thesis by blast
  qed
qed

lemma standard_negotiate:
  "hev_socks5_client_handshake_standard R N s =
     on_ok (hev_socks5_client_write_auth_methods s) (\<lambda>_ s1. on_ok (negotiate s1) (\<lambda>_ s4.
       on_ok (hev_socks5_client_write_request s4) (\<lambda>_ s5.
       on_ok (hev_socks5_client_read_response R N s5) (\<lambda>_ s6. Some (0, s6)))))"
  unfolding hev_socks5_client_handshake_standard_def negotiate_def
  by (auto simp: on_ok_def split: option.splits intro!: option.case_cong prod.case_cong if_cong)

lemma standard_result:
  assumes "requestable s cmd d"
  shows "shake_result (inflow s)
     (offer s @ (if auth_part (inflow s) = Some 4 then creds s else []) @ [5, cmd, 0] @ enc_dest d) s
     (hev_socks5_client_handshake_standard R N s)"
proof -
  obtain s1 where s1: "hev_socks5_client_write_auth_methods s = Some (0, s1)" "io 0 (offer s) s s1"
    using write_auth_methods_ok assms unfolding requestable_def by blast
  have i1: "inflow s1 = inflow s" "creds s1 = creds s"
    using s1(2) client_io(15) [OF io_only(1) [OF s1(2)]] by (simp_all add: io_def)
  have r1: "requestable s1 cmd d" using requestable_steps(1) [OF assms s1(2)] .
  obtain s4 where s4: "negotiate s1 = Some (if auth_part (inflow s) = None then -1 else 0, s4)"
    "auth_part (inflow s) = Some 2 \<Longrightarrow> io 2 [] s1 s4"
    "auth_part (inflow s) = Some 4 \<Longrightarrow> io 4 (creds s) s1 s4"
    using negotiate_spec [OF r1] unfolding i1 by blast
  show ?thesis
  proof (cases "auth_part (inflow s)")
    case None
    with s1(1) s4(1) show ?thesis by (simp add: shake_result_def accepted_def standard_negotiate)
  next
    case (Some i)
    define cr where "cr = (if i = 4 then creds s else [])"
    have io14: "io i cr s1 s4"
      using Some by (rule auth_part_cases) (use Some s4(2,3) in \<open>simp_all add: cr_def\<close>)
    then have io4: "io i (offer s @ cr) s s4" using io_trans [OF s1(2)] by fastforce
    obtain s6 where s6: "on_ok (hev_socks5_client_write_request s4) (\<lambda>_ s5.
        on_ok (hev_socks5_client_read_response R N s5) (\<lambda>_ s6. Some (0, s6)))
        = Some (if reply_part (inflow s4) = None then -1 else 0, s6)"
      "\<And>j. reply_part (inflow s4) = Some j \<Longrightarrow> io j ([5, cmd, 0] @ enc_dest d) (without_addr s4) s6"
      by (rule request_tail [OF requestable_steps(1) [OF assms io4], of R N]) blast
    have "inflow s4 = drop i (inflow s)" using io4 by (simp add: io_def)
    then show ?thesis
      using s1(1) s4(1) s6(1) Some io_trans [OF without_addr_io [OF io4] s6(2)]
      by (auto simp: shake_result_def accepted_def standard_negotiate cr_def split: option.splits)
  qed
qed

text \<open>The pipelined handshake sends everything first and only then reads.\<close>

definition negotiate_read :: "client \<Rightarrow> (int \<times> client) option" where
  "negotiate_read s =
     on_ok (hev_socks5_client_read_auth_method s) (\<lambda>res s4.
     if res = uint HEV_SOCKS5_AUTH_METHOD_USER then hev_socks5_client_read_auth_creds s4
     else if res \<noteq> uint HEV_SOCKS5_AUTH_METHOD_NONE then Some (-1, s4) else Some (0, s4))"

lemma negotiate_read_spec:
  obtains s' where "negotiate_read s = Some (if auth_part (inflow s) = None then -1 else 0, s')"
    "\<And>i. auth_part (inflow s) = Some i \<Longrightarrow> io i [] s s'"
proof -
  obtain s2 where s2: "hev_socks5_client_read_auth_method s =
      Some (case inflow s of v # m # _ \<Rightarrow> if v = 5 then uint m else -1 | _ \<Rightarrow> -1, s2)"
    "2 \<le> length (inflow s) \<Longrightarrow> io 2 [] s s2"
    using read_auth_method_spec [of s] by blast
  show ?thesis
  proof (cases "\<exists>r. inflow s = 5 # 2 # r")
    case True
    then obtain r where r: "inflow s = 5 # 2 # r" by blast
    then have io2: "io 2 [] s s2" using s2(2) by simp
    then have i2: "inflow s2 = r" using r by (simp add: io_def)
    obtain s4 where s4: "hev_socks5_client_read_auth_creds s2 =
        Some (case r of a # b # _ \<Rightarrow> if a = 1 \<and> b = 0 then 0 else -1 | _ \<Rightarrow> -1, s4)"
      "2 \<le> length r \<Longrightarrow> io 2 [] s2 s4"
      using read_auth_creds_spec [of s2] unfolding i2 by blast
    have "negotiate_read s = Some (if auth_part (inflow s) = None then -1 else 0, s4)"
      using s2(1) s4(1) by (auto simp: negotiate_read_def r auth_part_def split: list.splits)
    moreover have "io i [] s s4" if "auth_part (inflow s) = Some i" for i
      using that io_trans [OF io2 s4(2)] r by (auto simp: auth_part_def split: list.splits if_splits)
    ultimately show ?thesis using that [of s4] by blast
  next
    case False
    have "negotiate_read s = Some (if auth_part (inflow s) = None then -1 else 0, s2)"
      using s2(1) False by (auto simp: negotiate_read_def auth_part_def split: list.splits)
    moreover have "io i [] s s2" if ap: "auth_part (inflow s) = Some i" for i
    proof (cases rule: auth_part_cases [OF ap])
      case (1 r)
      with s2(2) show ?thesis by simp
    next
      case (2 r)
      with False show ?thesis by simp
    qed
    ultimately show ?thesis using that [of s2] by blast
  qed
qed

lemma pipeline_negotiate:
  "hev_socks5_client_handshake_pipeline R N s =
     on_ok (hev_socks5_client_write_auth_methods s) (\<lambda>_ s1.
     on_ok (hev_socks5_client_write_auth_creds s1) (\<lambda>_ s2.
     on_ok (hev_socks5_client_write_request s2) (\<lambda>_ s3. on_ok (negotiate_read s3) (\<lambda>_ s5.
     on_ok (hev_socks5_client_read_response R N s5) (\<lambda>_ s6. Some (0, s6))))))"
  unfolding hev_socks5_client_handshake_pipeline_def negotiate_read_def
  by (auto simp: on_ok_def split: option.splits intro!: option.case_cong prod.case_cong if_cong)

lemma pipeline_result:
  assumes "requestable s cmd d"
  shows "shake_result (inflow s) (offer s @ creds s @ [5, cmd, 0] @ enc_dest d) s
     (hev_socks5_client_handshake_pipeline R N s)"
proof -
  obtain s1 where s1: "hev_socks5_client_write_auth_methods s = Some (0, s1)" "io 0 (offer s) s s1"
    using write_auth_methods_ok assms unfolding requestable_def by blast
  have c1: "creds s1 = creds s" using client_io(15) [OF io_only(1) [OF s1(2)]] .
  have r1: "requestable s1 cmd d" using requestable_steps(1) [OF assms s1(2)] .
  obtain s2 where s2: "hev_socks5_client_write_auth_creds s1 = Some (0, s2)" "io 0 (creds s) s1 s2"
    using write_auth_creds_ok [of s1] r1 unfolding requestable_def c1 by blast
  have io2: "io 0 (offer s @ creds s) s s2" using io_trans [OF s1(2) s2(2)] by simp
  have r2: "requestable s2 cmd d" using requestable_steps(1) [OF assms io2] .
  obtain s3 where s3: "hev_socks5_client_write_request s2 = Some (0, s3)"
    "io 0 ([5, cmd, 0] @ enc_dest d) (without_addr s2) s3"
    using r2 write_request_ok [of s2 cmd d] unfolding requestable_def by blast
  have io3: "io 0 (offer s @ creds s @ [5, cmd, 0] @ enc_dest d) (without_addr s) s3"
    using io_trans [OF without_addr_io [OF io2] s3(2)] by simp
  then have i3: "inflow s3 = inflow s" "plain_client s3"
    using assms without_addr_only [of s s3] by (simp_all add: io_def requestable_def)
  obtain s5 where s5: "negotiate_read s3 = Some (if auth_part (inflow s) = None then -1 else 0, s5)"
    "\<And>i. auth_part (inflow s) = Some i \<Longrightarrow> io i [] s3 s5"
    using negotiate_read_spec [of s3] unfolding i3 by blast
  show ?thesis
  proof (cases "auth_part (inflow s)")
    case None
    with s1(1) s2(1) s3(1) s5(1) show ?thesis
      by (simp add: shake_result_def accepted_def pipeline_negotiate)
  next
    case (Some i)
    have io5: "io i (offer s @ creds s @ [5, cmd, 0] @ enc_dest d) (without_addr s) s5"
      using io_trans [OF io3 s5(2) [OF Some]] by simp
    then have i5: "inflow s5 = drop i (inflow s)" "plain_client s5"
      using assms without_addr_only [of s s5] by (simp_all add: io_def requestable_def)
    obtain s6 where "hev_socks5_client_read_response R N s5
        = Some (if reply_part (drop i (inflow s)) = None then -1 else 0, s6)"
      "\<And>j. reply_part (drop i (inflow s)) = Some j \<Longrightarrow> io j [] s5 s6"
      using read_response_spec [OF i5(2), of R N] unfolding i5(1) by blast
    then show ?thesis
      using s1(1) s2(1) s3(1) s5(1) Some io_trans [OF io5, of _ "[]"]
      by (fastforce simp: shake_result_def accepted_def pipeline_negotiate split: option.splits)
  qed
qed

section \<open>Descriptors and address family\<close>

lemma name_into_family:
  assumes "hev_socks5_name_into_sockaddr6 R name port sa f = (res, sa', f')"
  shows "res = 0 \<and> f' \<noteq> FAMILY_UNSPEC \<or> res = -1"
  using assms unfolding hev_socks5_name_into_sockaddr6_def hev_socks5_name_resolve_ipv4_def
    hev_socks5_name_resolve_ipv6_def hev_socks5_name_resolve_name_def
  by (auto simp: Let_def split: option.splits gai.splits)

lemma connect_outcome:
  assumes "fresh_fds N" "hev_socks5_client_connect G R N addr port s = (res, s')"
  shows "res = 0 \<and> 0 \<le> sk_fd s' \<and> sk_fd s' \<notin> set (sk_open s) \<and> sk_open s' = sk_fd s' # sk_open s
       \<and> sk_addr_family s' \<noteq> FAMILY_UNSPEC
     \<or> res = -1 \<and> sk_fd s' = sk_fd s \<and> sk_open s' = sk_open s"
proof -
  let ?s = "hev_socks5_set_timeout (connect_timeout G) s"
  have t: "sk_open ?s = sk_open s" "sk_fd ?s = sk_fd s" by (simp_all add: hev_socks5_set_timeout_def)
  obtain r sa f where n: "hev_socks5_name_into_sockaddr6 R addr port sockaddr6_zero
      (hev_socks5_get_addr_family ?s) = (r, sa, f)" by (metis prod_cases3)
  show ?thesis
    using assms(2) n name_into_family [OF n] t
    by (cases rule: socket_cases [OF assms(1), of SOCK_STREAM ?s])
      (auto simp: hev_socks5_client_connect_def Let_def hev_socks5_set_addr_family_def fd_close_def split: if_splits)
qed

lemma udp_upstream_known:
  "sk_addr_family s \<noteq> FAMILY_UNSPEC \<Longrightarrow>
     fst (hev_socks5_client_udp_get_upstream_addr s)
        = Some (enc_dest (if sk_addr_family s = FAMILY_IPV4 then Dst4 (replicate 4 0) 0 else Dst6 (replicate 16 0) 0))"
  by (cases "sk_addr_family s")
    (simp_all add: hev_socks5_client_udp_get_upstream_addr_def hev_socks5_get_addr_family_def be16_def numeral_eq_Suc)

section \<open>Properties of the client\<close>

text \<open>Data for the examples: a client for one destination, given what its peer will send.\<close>

definition ex_client :: "rx_event list \<Rightarrow> client" where
  "ex_client es = (hev_socks5_client_construct TYPE_TCP ClientTCP \<lparr>rx = es, tx = [], sent = [], errno_again = False\<rparr>)
     \<lparr>c_addr := Some (enc_dest (Dst4 [10, 0, 0, 1] 80))\<rparr>"

lemma ex_client_requestable: "requestable (ex_client es) 1 (Dst4 [10, 0, 0, 1] 80)"
  by (simp add: requestable_def ex_client_def hev_socks5_client_construct_def hev_socks5_construct_def hev_socks5.defs
      clear_out_def creds_fit_def plain_client_def req_cmd_def get_upstream_addr_def
      hev_socks5_client_tcp_get_upstream_addr_def)

lemma ex_client_simps:
  "inflow (ex_client [RData inp]) = inp" "outs (ex_client es) = []" "offer (ex_client es) = [5, 1, 0]"
  "creds (ex_client es) = []"
  by (simp_all add: ex_client_def hev_socks5_client_construct_def hev_socks5_construct_def hev_socks5.defs
      inflow_def outs_def offer_def creds_def)

text \<open>
  C8: The standard handshake of a client does what RFC 1928 and RFC 1929 ask.  As a function of the
  bytes the server sends, in any segmentation: it succeeds exactly on an acceptable method choice,
  acceptance of the credentials where they were asked for, and a success reply; then it has sent
  the method offer, the credentials if asked for, and the request, and has consumed the server's
  messages and not a byte more.  On everything else it returns an error.
\<close>

theorem client_standard_handshake:
  assumes "requestable s cmd d"
  shows "shake_result (inflow s)
     (offer s @ (if auth_part (inflow s) = Some 4 then creds s else []) @ [5, cmd, 0] @ enc_dest d) s
     (hev_socks5_client_handshake_standard R N s)"
  using assms by (rule standard_result)

theorem client_standard_handshake_witness:
  "shake_result [5, 0, 5, 0, 0, 1, 0, 0, 0, 0, 0, 0, 42] ([5, 1, 0] @ [5, 1, 0] @ enc_dest (Dst4 [10, 0, 0, 1] 80))
     (ex_client [RData [5, 0, 5, 0, 0, 1, 0, 0, 0, 0, 0, 0, 42]])
     (hev_socks5_client_handshake_standard no_resolver (ex_net 0) (ex_client [RData [5, 0, 5, 0, 0, 1, 0, 0, 0, 0, 0, 0, 42]]))
   \<and> accepted [5, 0, 5, 0, 0, 1, 0, 0, 0, 0, 0, 0, 42] = Some 12"
  using client_standard_handshake [OF ex_client_requestable, of "[RData [5, 0, 5, 0, 0, 1, 0, 0, 0, 0, 0, 0, 42]]" no_resolver "ex_net 0"]
  by (simp add: ex_client_simps accepted_def auth_part_def reply_part_def del: enc_dest.simps)

text \<open>
  C9: Pipelining does not change the outcome.  The pipelined handshake, which sends everything before
  it reads anything, accepts exactly the server streams that the standard one accepts, and leaves
  the same bytes unread.
\<close>

theorem client_pipeline_equivalent:
  assumes "requestable s cmd d"
  shows "\<exists>res s1 s2. hev_socks5_client_handshake_standard R N s = Some (res, s1)
    \<and> hev_socks5_client_handshake_pipeline R N s = Some (res, s2) \<and> (res = 0 \<longrightarrow> inflow s1 = inflow s2)"
  using standard_result [OF assms, of R N] pipeline_result [OF assms, of R N]
  unfolding shake_result_def by (fastforce simp: io_def split: option.splits)

theorem client_pipeline_equivalent_witness:
  "\<exists>res s1 s2. hev_socks5_client_handshake_standard no_resolver (ex_net 0) (ex_client [RData [5], RData [0, 5, 1, 0, 1]]) = Some (res, s1)
    \<and> hev_socks5_client_handshake_pipeline no_resolver (ex_net 0) (ex_client [RData [5], RData [0, 5, 1, 0, 1]]) = Some (res, s2)"
  using client_pipeline_equivalent [OF ex_client_requestable, of no_resolver "ex_net 0" "[RData [5], RData [0, 5, 1, 0, 1]]"] by blast

text \<open>
  Connecting never leaks a descriptor: on success the object owns exactly one new descriptor and
  knows its address family; on every failure (name resolution, socket, bind, connect) what it had
  opened is closed again.
\<close>

theorem client_connect_descriptors:
  assumes "fresh_fds N" "hev_socks5_client_connect G R N addr port s = (res, s')"
  shows "res = 0 \<and> 0 \<le> sk_fd s' \<and> sk_fd s' \<notin> set (sk_open s) \<and> sk_open s' = sk_fd s' # sk_open s
      \<and> sk_addr_family s' \<noteq> FAMILY_UNSPEC
    \<or> res = -1 \<and> sk_fd s' = sk_fd s \<and> sk_open s' = sk_open s"
  using assms by (rule connect_outcome)

theorem client_connect_descriptors_witness:
  "\<exists>s'. hev_socks5_client_connect default_timeouts (no_resolver\<lparr>inet_pton4 := \<lambda>_. Some [127, 0, 0, 1]\<rparr>) (ex_net (-1)) [97] 1080
      ((ex_client [])\<lparr>sk_open := [3]\<rparr>) = (-1, s') \<and> sk_open s' = [3]"
proof -
  let ?out = "hev_socks5_client_connect default_timeouts (no_resolver\<lparr>inet_pton4 := \<lambda>_. Some [127, 0, 0, 1]\<rparr>) (ex_net (-1)) [97] 1080
      ((ex_client [])\<lparr>sk_open := [3]\<rparr>)"
  have "fst ?out = -1"
    by (simp add: hev_socks5_client_connect_def hev_socks5_name_into_sockaddr6_def hev_socks5_name_resolve_ipv4_def
        no_resolver_def hev_socks5_socket_def ex_net_def Let_def)
  then obtain s' where s': "?out = (-1, s')" by (cases ?out) simp
  from client_connect_descriptors [OF ex_net_ok this] have "sk_open s' = [3]" by simp
  with s' show ?thesis by blast
qed

end
