(* ===== verification/RB_Tree.thy ===== *)
theory RB_Tree
  imports Prelude "HOL-Library.Multiset"
begin

text \<open>
  The red-black tree of \<^verbatim>\<open>hev/src/core/src/hev-rbtree.c\<close>.  A tree is a value whose
  elements are the node pointers; a position in it, which the C code reaches through parent
  pointers, is a path of frames from the position up to the root together with the subtree
  below it.  Every rebalancing step of the source is one branch of \<open>insert_color\<close> or
  \<open>erase_color\<close>, with the colours and links it assigns.  Where the C code would follow a
  null pointer the model returns \<open>None\<close>.
\<close>

section \<open>Trees and positions\<close>

datatype color = Red | Black

datatype 'a rbt = Null | Nd color "'a rbt" 'a "'a rbt"

text \<open>
  \<open>InL c x r\<close> is a parent of colour \<open>c\<close> whose left child is the position below,
  \<open>InR c l x\<close> one whose right child is.
\<close>

datatype 'a frame = InL color 'a "'a rbt" | InR color "'a rbt" 'a

fun fill :: "'a frame \<Rightarrow> 'a rbt \<Rightarrow> 'a rbt" where
  "fill (InL c x r) t = Nd c t x r"
| "fill (InR c l x) t = Nd c l x t"

fun plug :: "'a frame list \<Rightarrow> 'a rbt \<Rightarrow> 'a rbt" where
  "plug [] t = t"
| "plug (f # fs) t = plug fs (fill f t)"

fun fcolor :: "'a frame \<Rightarrow> color" where
  "fcolor (InL c x r) = c"
| "fcolor (InR c l x) = c"

fun set_fcolor :: "color \<Rightarrow> 'a frame \<Rightarrow> 'a frame" where
  "set_fcolor c' (InL c x r) = InL c' x r"
| "set_fcolor c' (InR c l x) = InR c' l x"

text \<open>\<^verbatim>\<open>if (t) set_parent_color (t, _, BLACK)\<close> and assignment of a colour.\<close>

fun recolor :: "color \<Rightarrow> 'a rbt \<Rightarrow> 'a rbt" where
  "recolor c Null = Null"
| "recolor c (Nd _ l x r) = Nd c l x r"

text \<open>\<^verbatim>\<open>t && is_red (t)\<close>, and \<^verbatim>\<open>!t || is_black (t)\<close>.\<close>

fun red :: "'a rbt \<Rightarrow> bool" where
  "red Null = False"
| "red (Nd c l x r) = (c = Red)"

abbreviation black_or_null :: "'a rbt \<Rightarrow> bool" where
  "black_or_null t \<equiv> \<not> red t"

fun inorder :: "'a rbt \<Rightarrow> 'a list" where
  "inorder Null = []"
| "inorder (Nd c l x r) = inorder l @ x # inorder r"

text \<open>The position of a node, which in C is the node pointer itself.\<close>

fun locate :: "'a \<Rightarrow> 'a rbt \<Rightarrow> 'a frame list \<Rightarrow> ('a frame list \<times> 'a rbt) option" where
  "locate y Null fs = None"
| "locate y (Nd c l x r) fs =
     (if x = y then Some (fs, Nd c l x r)
      else case locate y l (InL c x r # fs) of
             Some p \<Rightarrow> Some p
           | None \<Rightarrow> locate y r (InR c l x # fs))"

section \<open>The operations\<close>

text \<open>\<^verbatim>\<open>hev_rbtree_node_link\<close> puts a new red node with null children at an empty position.\<close>

definition hev_rbtree_node_link :: "'a \<Rightarrow> 'a rbt" where
  "hev_rbtree_node_link x = Nd Red Null x Null"

text \<open>The loop of \<^verbatim>\<open>hev_rbtree_insert_color\<close>: the position of the red node, and the node.\<close>

fun insert_color :: "'a frame list \<Rightarrow> 'a rbt \<Rightarrow> 'a rbt option" where
  "insert_color [] n = Some (recolor Black n)"
| "insert_color [f] n = (if fcolor f = Black then Some (plug [f] n) else None)"
| "insert_color (f # InL gc gx u # gs) n =
     (if fcolor f = Black then Some (plug (f # InL gc gx u # gs) n)
      else if red u
      then insert_color gs (Nd Red (fill (set_fcolor Black f) n) gx (recolor Black u))
      else case f of
        InR pc pl px \<Rightarrow>
          (case n of Null \<Rightarrow> None
           | Nd nc nl nx nr \<Rightarrow>
               Some (plug gs (Nd gc (Nd Red pl px (recolor Black nl)) nx
                                    (Nd Red (recolor Black nr) gx u))))
      | InL pc px pr \<Rightarrow>
          Some (plug gs (Nd gc n px (Nd Red (recolor Black pr) gx u))))"
| "insert_color (f # InR gc u gx # gs) n =
     (if fcolor f = Black then Some (plug (f # InR gc u gx # gs) n)
      else if red u
      then insert_color gs (Nd Red (recolor Black u) gx (fill (set_fcolor Black f) n))
      else case f of
        InL pc px pr \<Rightarrow>
          (case n of Null \<Rightarrow> None
           | Nd nc nl nx nr \<Rightarrow>
               Some (plug gs (Nd gc (Nd Red u gx (recolor Black nl)) nx
                                    (Nd Red (recolor Black nr) px pr))))
      | InR pc pl px \<Rightarrow>
          Some (plug gs (Nd gc (Nd Red u gx (recolor Black pl)) px n)))"

definition hev_rbtree_insert_color :: "'a frame list \<Rightarrow> 'a \<Rightarrow> 'a rbt option" where
  "hev_rbtree_insert_color fs x = insert_color fs (hev_rbtree_node_link x)"

text \<open>
  Cases 2, 3 and 4 of \<^verbatim>\<open>_hev_rbtree_erase_color\<close> at a parent of colour \<open>pc\<close> whose left
  (right) child is the deficient node and whose other child is the black sibling \<open>s\<close>.
  The result is the subtree at the parent's place and whether the loop continues there.
\<close>

fun fix_left :: "color \<Rightarrow> 'a \<Rightarrow> 'a rbt \<Rightarrow> 'a rbt \<Rightarrow> ('a rbt \<times> bool) option" where
  "fix_left pc px n Null = None"
| "fix_left pc px n (Nd sc sl sx sr) =
     (if black_or_null sr then
        (if black_or_null sl then
           Some (Nd Black n px (Nd Red sl sx sr), pc = Black)
         else case sl of Null \<Rightarrow> None
           | Nd slc sll slx slr \<Rightarrow>
               Some (Nd pc (Nd Black n px sll) slx (Nd Black (recolor Black slr) sx sr), False))
      else Some (Nd pc (Nd Black n px sl) sx (recolor Black sr), False))"

fun fix_right :: "color \<Rightarrow> 'a \<Rightarrow> 'a rbt \<Rightarrow> 'a rbt \<Rightarrow> ('a rbt \<times> bool) option" where
  "fix_right pc px n Null = None"
| "fix_right pc px n (Nd sc sl sx sr) =
     (if black_or_null sl then
        (if black_or_null sr then
           Some (Nd Black (Nd Red sl sx sr) px n, pc = Black)
         else case sr of Null \<Rightarrow> None
           | Nd src srl srx srr \<Rightarrow>
               Some (Nd pc (Nd Black sl sx (recolor Black srl)) srx (Nd Black srr px n), False))
      else Some (Nd pc (recolor Black sl) sx (Nd Black sr px n), False))"

fun erase_color :: "'a frame list \<Rightarrow> 'a rbt \<Rightarrow> 'a rbt option" where
  "erase_color [] n = Some n"
| "erase_color (InL pc px s # fs) n =
     (case s of Null \<Rightarrow> None
      | Nd sc sl sx sr \<Rightarrow>
          if sc = Red then
            (case fix_left Red px n (recolor Black sl) of None \<Rightarrow> None
             | Some (t, _) \<Rightarrow> Some (plug fs (Nd pc t sx sr)))
          else
            (case fix_left pc px n s of None \<Rightarrow> None
             | Some (t, again) \<Rightarrow> if again then erase_color fs t else Some (plug fs t)))"
| "erase_color (InR pc s px # fs) n =
     (case s of Null \<Rightarrow> None
      | Nd sc sl sx sr \<Rightarrow>
          if sc = Red then
            (case fix_right Red px n (recolor Black sr) of None \<Rightarrow> None
             | Some (t, _) \<Rightarrow> Some (plug fs (Nd pc sl sx t)))
          else
            (case fix_right pc px n s of None \<Rightarrow> None
             | Some (t, again) \<Rightarrow> if again then erase_color fs t else Some (plug fs t)))"

text \<open>The leftmost node of a right subtree (the successor), with the path down to it.\<close>

fun leftmost :: "'a frame list \<Rightarrow> color \<Rightarrow> 'a rbt \<Rightarrow> 'a \<Rightarrow> 'a rbt \<Rightarrow> 'a frame list \<times> color \<times> 'a \<times> 'a rbt" where
  "leftmost fs c Null x r = (fs, c, x, r)"
| "leftmost fs c (Nd c' l' x' r') x r = leftmost (InL c x r # fs) c' l' x' r'"

text \<open>
  \<^verbatim>\<open>_hev_rbtree_erase\<close>: the position above the removed place, the subtree put there, and
  whether \<^verbatim>\<open>rebalance\<close> is set (it is null when there is no parent).
\<close>

fun unlink :: "'a frame list \<Rightarrow> 'a rbt \<Rightarrow> ('a frame list \<times> 'a rbt \<times> bool) option" where
  "unlink fs Null = None"
| "unlink fs (Nd c Null x r) =
     (if r \<noteq> Null then Some (fs, recolor c r, False) else Some (fs, Null, c = Black))"
| "unlink fs (Nd c l x Null) = Some (fs, recolor c l, False)"
| "unlink fs (Nd c l x (Nd rc rl rx rr)) =
     (case leftmost [] rc rl rx rr of (ps, sc, sx, child2) \<Rightarrow>
        let fs' = ps @ InR c l sx # fs in
        if child2 \<noteq> Null then Some (fs', recolor Black child2, False)
        else Some (fs', Null, sc = Black))"

definition hev_rbtree_erase :: "'a rbt \<Rightarrow> 'a \<Rightarrow> 'a rbt option" where
  "hev_rbtree_erase t x =
     (case locate x t [] of None \<Rightarrow> None
      | Some (fs, n) \<Rightarrow>
          (case unlink fs n of None \<Rightarrow> None
           | Some (fs', n', rebalance) \<Rightarrow>
               if rebalance then erase_color fs' n' else Some (plug fs' n')))"

definition hev_rbtree_replace :: "'a rbt \<Rightarrow> 'a \<Rightarrow> 'a \<Rightarrow> 'a rbt option" where
  "hev_rbtree_replace t victim new =
     (case locate victim t [] of
        Some (fs, Nd c l x r) \<Rightarrow> Some (plug fs (Nd c l new r))
      | _ \<Rightarrow> None)"

fun hev_rbtree_first :: "'a rbt \<Rightarrow> 'a option" where
  "hev_rbtree_first Null = None"
| "hev_rbtree_first (Nd c Null x r) = Some x"
| "hev_rbtree_first (Nd c l x r) = hev_rbtree_first l"

fun hev_rbtree_last :: "'a rbt \<Rightarrow> 'a option" where
  "hev_rbtree_last Null = None"
| "hev_rbtree_last (Nd c l x Null) = Some x"
| "hev_rbtree_last (Nd c l x r) = hev_rbtree_last r"

text \<open>Walking up until the position is a left (right) child.\<close>

fun up_next :: "'a frame list \<Rightarrow> 'a option" where
  "up_next [] = None"
| "up_next (InL c x r # fs) = Some x"
| "up_next (InR c l x # fs) = up_next fs"

fun up_prev :: "'a frame list \<Rightarrow> 'a option" where
  "up_prev [] = None"
| "up_prev (InR c l x # fs) = Some x"
| "up_prev (InL c x r # fs) = up_prev fs"

definition hev_rbtree_node_next :: "'a rbt \<Rightarrow> 'a \<Rightarrow> 'a option" where
  "hev_rbtree_node_next t x =
     (case locate x t [] of
        Some (fs, Nd c l y r) \<Rightarrow> if r \<noteq> Null then hev_rbtree_first r else up_next fs
      | _ \<Rightarrow> None)"

definition hev_rbtree_node_prev :: "'a rbt \<Rightarrow> 'a \<Rightarrow> 'a option" where
  "hev_rbtree_node_prev t x =
     (case locate x t [] of
        Some (fs, Nd c l y r) \<Rightarrow> if l \<noteq> Null then hev_rbtree_last l else up_prev fs
      | _ \<Rightarrow> None)"

text \<open>
  The descent that every client writes out before it links or returns a node: go left while
  the comparison of the node with the key is negative, right while it is positive.
\<close>

fun descend :: "('a \<Rightarrow> int) \<Rightarrow> 'a frame list \<Rightarrow> 'a rbt \<Rightarrow> 'a option \<times> 'a frame list" where
  "descend cmp fs Null = (None, fs)"
| "descend cmp fs (Nd c l x r) =
     (if cmp x < 0 then descend cmp (InL c x r # fs) l
      else if cmp x > 0 then descend cmp (InR c l x # fs) r
      else (Some x, fs))"

section \<open>The sequence of nodes\<close>

fun before :: "'a frame list \<Rightarrow> 'a list" where
  "before [] = []"
| "before (InL c x r # fs) = before fs"
| "before (InR c l x # fs) = before fs @ inorder l @ [x]"

fun behind :: "'a frame list \<Rightarrow> 'a list" where
  "behind [] = []"
| "behind (InL c x r # fs) = x # inorder r @ behind fs"
| "behind (InR c l x # fs) = behind fs"

lemma inorder_plug [simp]: "inorder (plug fs t) = before fs @ inorder t @ behind fs"
proof (induction fs arbitrary: t)
  case (Cons f fs)
  then show ?case by (cases f) simp_all
qed simp

lemma inorder_recolor [simp]: "inorder (recolor c t) = inorder t"
  by (cases t) simp_all

lemma inorder_fill_set_fcolor [simp]: "inorder (fill (set_fcolor c f) t) = inorder (fill f t)"
  by (cases f) simp_all

lemma before_behind_append [simp]:
  "before (ps @ fs) = before fs @ before ps" "behind (ps @ fs) = behind ps @ behind fs"
  by (induction ps rule: before.induct) simp_all

lemma plug_append: "plug (ps @ fs) t = plug fs (plug ps t)"
  by (induction ps arbitrary: t) simp_all

lemma inorder_insert_color:
  "insert_color fs n = Some t \<Longrightarrow> inorder t = inorder (plug fs n)"
  by (induction fs n arbitrary: t rule: insert_color.induct)
    (auto split: if_splits rbt.splits frame.splits)

lemma inorder_fix_left: "fix_left pc px n s = Some (t, b) \<Longrightarrow> inorder t = inorder n @ px # inorder s"
  by (cases s) (auto split: if_splits rbt.splits)

lemma inorder_fix_right: "fix_right pc px n s = Some (t, b) \<Longrightarrow> inorder t = inorder s @ px # inorder n"
  by (cases s) (auto split: if_splits rbt.splits)

lemma inorder_erase_color:
  "erase_color fs n = Some t \<Longrightarrow> inorder t = inorder (plug fs n)"
proof (induction fs n arbitrary: t rule: erase_color.induct)
  case (2 pc px s fs n)
  then show ?case
    by (auto split: if_splits rbt.splits option.splits prod.splits dest!: inorder_fix_left)
next
  case (3 pc s px fs n)
  then show ?case
    by (auto split: if_splits rbt.splits option.splits prod.splits dest!: inorder_fix_right)
qed simp

lemma leftmost_inorder:
  "leftmost fs c l x r = (ps, sc, sx, sr) \<Longrightarrow>
     before ps = before fs \<and> inorder l @ x # inorder r @ behind fs = sx # inorder sr @ behind ps"
  by (induction fs c l x r rule: leftmost.induct) auto

lemma inorder_unlink:
  assumes "unlink fs (Nd c l x r) = Some (fs', n', b)"
  shows "before fs' @ inorder n' @ behind fs' = before fs @ inorder l @ inorder r @ behind fs"
  using assms
  by (cases "(fs, Nd c l x r)" rule: unlink.cases)
    (auto split: if_splits prod.splits simp: Let_def dest!: leftmost_inorder)

lemma locate_Some:
  "locate y t fs = Some (fs', n) \<Longrightarrow> plug fs' n = plug fs t \<and> (\<exists>c l r. n = Nd c l y r)"
  by (induction y t fs rule: locate.induct) (auto split: if_splits option.splits)

lemma locate_ex: "y \<in> set (inorder t) \<Longrightarrow> \<exists>p. locate y t fs = Some p"
  by (induction y t fs rule: locate.induct) (auto split: option.splits)

lemma locate_obtain:
  assumes "y \<in> set (inorder t)"
  obtains fs c l r where "locate y t [] = Some (fs, Nd c l y r)" "plug fs (Nd c l y r) = t"
  using locate_ex [OF assms, of "[]"] locate_Some [of y t "[]"] by fastforce

section \<open>Balance\<close>

fun bal :: "'a rbt \<Rightarrow> nat \<Rightarrow> bool" where
  "bal Null h = (h = 0)"
| "bal (Nd c l x r) h =
     (if c = Black then (case h of 0 \<Rightarrow> False | Suc k \<Rightarrow> bal l k \<and> bal r k) else bal l h \<and> bal r h)"

fun nrr :: "'a rbt \<Rightarrow> bool" where
  "nrr Null = True"
| "nrr (Nd c l x r) = (nrr l \<and> nrr r \<and> (c = Red \<longrightarrow> \<not> red l \<and> \<not> red r))"

text \<open>The red-black conditions: equal black heights, no red node with a red child, black root.\<close>

definition rb :: "'a rbt \<Rightarrow> bool" where
  "rb t \<longleftrightarrow> nrr t \<and> \<not> red t \<and> (\<exists>h. bal t h)"

fun balp :: "'a frame list \<Rightarrow> nat \<Rightarrow> bool" where
  "balp [] h = True"
| "balp (InL c x r # fs) h = (bal r h \<and> balp fs (if c = Black then Suc h else h))"
| "balp (InR c l x # fs) h = (bal l h \<and> balp fs (if c = Black then Suc h else h))"

fun nrrp :: "'a frame list \<Rightarrow> color \<Rightarrow> bool" where
  "nrrp [] c = (c = Black)"
| "nrrp (InL d x r # fs) c = (nrr r \<and> (d = Red \<longrightarrow> c = Black \<and> \<not> red r) \<and> nrrp fs d)"
| "nrrp (InR d l x # fs) c = (nrr l \<and> (d = Red \<longrightarrow> c = Black \<and> \<not> red l) \<and> nrrp fs d)"

definition root_color :: "'a rbt \<Rightarrow> color" where
  "root_color t = (if red t then Red else Black)"

lemma root_color_simps [simp]:
  "root_color Null = Black" "root_color (Nd c l x r) = c"
  "root_color t = Red \<longleftrightarrow> red t" "root_color t = Black \<longleftrightarrow> \<not> red t"
  by (cases c; simp_all add: root_color_def)+

lemma nrrp_Black: "nrrp fs c \<Longrightarrow> nrrp fs Black"
  by (cases "(fs, c)" rule: nrrp.cases) auto

lemma ex_case_nat:
  "(\<exists>h. (case h of 0 \<Rightarrow> False | Suc k \<Rightarrow> P k) \<and> Q h) \<longleftrightarrow> (\<exists>k. P k \<and> Q (Suc k))"
proof
  assume "\<exists>k. P k \<and> Q (Suc k)"
  then obtain k where "(case Suc k of 0 \<Rightarrow> False | Suc k \<Rightarrow> P k) \<and> Q (Suc k)" by auto
  then show "\<exists>h. (case h of 0 \<Rightarrow> False | Suc k \<Rightarrow> P k) \<and> Q h" by blast
next
  assume "\<exists>h. (case h of 0 \<Rightarrow> False | Suc k \<Rightarrow> P k) \<and> Q h"
  then obtain h where "case h of 0 \<Rightarrow> False | Suc k \<Rightarrow> P k" "Q h" by blast
  then show "\<exists>k. P k \<and> Q (Suc k)" by (cases h) auto
qed

lemma rb_plug:
  "rb (plug fs t) \<longleftrightarrow> nrr t \<and> nrrp fs (root_color t) \<and> (\<exists>h. bal t h \<and> balp fs h)"
proof (induction fs arbitrary: t)
  case Nil
  show ?case by (auto simp: rb_def)
next
  case (Cons f fs)
  have eq: "(\<exists>h. bal (fill f t) h \<and> balp fs h) \<longleftrightarrow> (\<exists>h. bal t h \<and> balp (f # fs) h)"
  proof (cases f)
    case (InL c x r)
    then show ?thesis by (cases c) (auto simp: ex_case_nat)
  next
    case (InR c l x)
    then show ?thesis by (cases c) (auto simp: ex_case_nat)
  qed
  show ?case
    by (simp only: plug.simps Cons.IH eq) (cases f; auto)
qed

lemma not_color [simp]: "c \<noteq> Black \<longleftrightarrow> c = Red" "c \<noteq> Red \<longleftrightarrow> c = Black"
  by (cases c; simp)+

lemma recolor_black [simp]: "\<not> red t \<Longrightarrow> recolor Black t = t"
  by (cases t) auto

lemma nrr_recolor [simp]: "nrr t \<Longrightarrow> nrr (recolor Black t)"
  by (cases t) auto

lemma red_recolor [simp]: "\<not> red (recolor Black t)"
  by (cases t) auto

lemma bal_recolor_red: "red u \<Longrightarrow> bal u h \<Longrightarrow> bal (recolor Black u) (Suc h)"
  by (cases u) auto

lemma red_obtain:
  assumes "red t" "nrr t"
  obtains l x r where "t = Nd Red l x r" "\<not> red l" "\<not> red r" "nrr l" "nrr r"
  using assms by (cases t) auto

lemma rb_plugI:
  "nrr t \<Longrightarrow> nrrp fs (root_color t) \<Longrightarrow> bal t h \<Longrightarrow> balp fs h \<Longrightarrow> rb (plug fs t)"
  unfolding rb_plug by blast

lemma insert_step_InL:
  assumes pre: "bal n h" "balp (f # InL gc gx u # gs) h" "nrr n" "red n" "nrrp (f # InL gc gx u # gs) Black"
    and IH: "\<And>n h. bal n h \<Longrightarrow> balp gs h \<Longrightarrow> nrr n \<Longrightarrow> red n \<Longrightarrow> nrrp gs Black
      \<Longrightarrow> \<exists>t. insert_color gs n = Some t \<and> rb t"
  shows "\<exists>t. insert_color (f # InL gc gx u # gs) n = Some t \<and> rb t"
proof (cases "fcolor f = Black")
  case True
  then have "rb (plug (f # InL gc gx u # gs) n)"
    using pre by (intro rb_plugI [of _ _ h]) (cases f; auto)+
  with True show ?thesis by simp
next
  case False
  then have g: "gc = Black" using pre by (cases f) auto
  obtain nl nx nr where n: "n = Nd Red nl nx nr" "\<not> red nl" "\<not> red nr" "nrr nl" "nrr nr"
    using pre by (elim red_obtain)
  consider "red u" | pc px pr where "\<not> red u" "f = InL pc px pr" | pc pl px where "\<not> red u" "f = InR pc pl px"
    by (cases f) auto
  then show ?thesis
  proof cases
    case 1
    let ?n = "Nd Red (fill (set_fcolor Black f) n) gx (recolor Black u)"
    have "bal ?n (Suc h)" "balp gs (Suc h)" "nrr ?n" "nrrp gs Black"
      using pre 1 False g by (cases f; auto simp: bal_recolor_red)+
    with IH 1 False show ?thesis by simp
  next
    case (2 pc px pr)
    then have "rb (plug gs (Nd gc n px (Nd Red pr gx u)))"
      using pre False g n by (intro rb_plugI [of _ _ "Suc h"]) auto
    with 2 False pre show ?thesis by simp
  next
    case (3 pc pl px)
    then have "rb (plug gs (Nd gc (Nd Red pl px nl) nx (Nd Red nr gx u)))"
      using pre False g n by (intro rb_plugI [of _ _ "Suc h"]) auto
    with 3 False n show ?thesis by simp
  qed
qed

lemma insert_step_InR:
  assumes pre: "bal n h" "balp (f # InR gc u gx # gs) h" "nrr n" "red n" "nrrp (f # InR gc u gx # gs) Black"
    and IH: "\<And>n h. bal n h \<Longrightarrow> balp gs h \<Longrightarrow> nrr n \<Longrightarrow> red n \<Longrightarrow> nrrp gs Black
      \<Longrightarrow> \<exists>t. insert_color gs n = Some t \<and> rb t"
  shows "\<exists>t. insert_color (f # InR gc u gx # gs) n = Some t \<and> rb t"
proof (cases "fcolor f = Black")
  case True
  then have "rb (plug (f # InR gc u gx # gs) n)"
    using pre by (intro rb_plugI [of _ _ h]) (cases f; auto)+
  with True show ?thesis by simp
next
  case False
  then have g: "gc = Black" using pre by (cases f) auto
  obtain nl nx nr where n: "n = Nd Red nl nx nr" "\<not> red nl" "\<not> red nr" "nrr nl" "nrr nr"
    using pre by (elim red_obtain)
  consider "red u" | pc px pr where "\<not> red u" "f = InL pc px pr" | pc pl px where "\<not> red u" "f = InR pc pl px"
    by (cases f) auto
  then show ?thesis
  proof cases
    case 1
    let ?n = "Nd Red (recolor Black u) gx (fill (set_fcolor Black f) n)"
    have "bal ?n (Suc h)" "balp gs (Suc h)" "nrr ?n" "nrrp gs Black"
      using pre 1 False g by (cases f; auto simp: bal_recolor_red)+
    with IH 1 False show ?thesis by simp
  next
    case (2 pc px pr)
    then have "rb (plug gs (Nd gc (Nd Red u gx nl) nx (Nd Red nr px pr)))"
      using pre False g n by (intro rb_plugI [of _ _ "Suc h"]) auto
    with 2 False n show ?thesis by simp
  next
    case (3 pc pl px)
    then have "rb (plug gs (Nd gc (Nd Red u gx pl) px n))"
      using pre False g n by (intro rb_plugI [of _ _ "Suc h"]) auto
    with 3 False pre show ?thesis by simp
  qed
qed

lemma insert_color_rb:
  assumes "bal n h" "balp fs h" "nrr n" "red n" "nrrp fs Black"
  shows "\<exists>t. insert_color fs n = Some t \<and> rb t"
  using assms
proof (induction "length fs" arbitrary: fs n h rule: less_induct)
  case less
  consider "fs = []" | f where "fs = [f]" | f gc gx u gs where "fs = f # InL gc gx u # gs"
    | f gc u gx gs where "fs = f # InR gc u gx # gs"
    by (metis frame.exhaust list.exhaust)
  then show ?case
  proof cases
    case 1
    have "bal (recolor Black n) (Suc h)" using less by (simp add: bal_recolor_red)
    with 1 less show ?thesis by (auto simp: rb_def)
  next
    case (2 f)
    then have f: "fcolor f = Black" using less by (cases f) auto
    then have "rb (plug [f] n)"
      using less 2 by (intro rb_plugI [of _ _ h]) (cases f; auto)+
    with f 2 show ?thesis by simp
  next
    case (3 f gc gx u gs)
    then show ?thesis using less.prems less.hyps [of gs]
      by (simp only:) (rule insert_step_InL, auto)
  next
    case (4 f gc u gx gs)
    then show ?thesis using less.prems less.hyps [of gs]
      by (simp only:) (rule insert_step_InR, auto)
  qed
qed

section \<open>Erasure keeps the balance\<close>

definition fixed :: "color \<Rightarrow> nat \<Rightarrow> ('a rbt \<times> bool) option \<Rightarrow> bool" where
  "fixed pc h res \<longleftrightarrow> (case res of None \<Rightarrow> False | Some (t, again) \<Rightarrow> nrr t \<and>
     (if again then pc = Black \<and> \<not> red t \<and> bal t (Suc h)
      else (red t \<longrightarrow> pc = Red) \<and> bal t (if pc = Black then Suc (Suc h) else Suc h)))"

lemma fix_left_fixed:
  assumes "bal n h" "bal s (Suc h)" "\<not> red s" "nrr n" "nrr s" "\<not> red n"
  shows "fixed pc h (fix_left pc px n s)"
proof -
  obtain sl sx sr where s: "s = Nd Black sl sx sr" "bal sl h" "bal sr h" "nrr sl" "nrr sr"
    using assms by (cases s) auto
  consider "red sr" | "\<not> red sr" "\<not> red sl" | "\<not> red sr" "red sl" by blast
  then show ?thesis
  proof cases
    case 1
    with s assms show ?thesis by (cases pc) (simp_all add: fixed_def bal_recolor_red)
  next
    case 2
    with s assms show ?thesis by (cases pc) (simp_all add: fixed_def)
  next
    case 3
    obtain l x r where "sl = Nd Red l x r" "\<not> red l" "\<not> red r" "nrr l" "nrr r"
      using 3(2) s by (elim red_obtain)
    with 3 s assms show ?thesis by (cases pc) (simp_all add: fixed_def)
  qed
qed

lemma fix_right_fixed:
  assumes "bal n h" "bal s (Suc h)" "\<not> red s" "nrr n" "nrr s" "\<not> red n"
  shows "fixed pc h (fix_right pc px n s)"
proof -
  obtain sl sx sr where s: "s = Nd Black sl sx sr" "bal sl h" "bal sr h" "nrr sl" "nrr sr"
    using assms by (cases s) auto
  consider "red sl" | "\<not> red sl" "\<not> red sr" | "\<not> red sl" "red sr" by blast
  then show ?thesis
  proof cases
    case 1
    with s assms show ?thesis by (cases pc) (simp_all add: fixed_def bal_recolor_red)
  next
    case 2
    with s assms show ?thesis by (cases pc) (simp_all add: fixed_def)
  next
    case 3
    obtain l x r where "sr = Nd Red l x r" "\<not> red l" "\<not> red r" "nrr l" "nrr r"
      using 3(2) s by (elim red_obtain)
    with 3 s assms show ?thesis by (cases pc) (simp_all add: fixed_def)
  qed
qed

lemma erase_step_InL:
  assumes pre: "bal n h" "balp (InL pc px s # fs) (Suc h)" "nrr n" "\<not> red n" "nrrp (InL pc px s # fs) Black"
    and IH: "\<And>n h. bal n h \<Longrightarrow> balp fs (Suc h) \<Longrightarrow> nrr n \<Longrightarrow> \<not> red n \<Longrightarrow> nrrp fs Black
      \<Longrightarrow> \<exists>t. erase_color fs n = Some t \<and> rb t"
  shows "\<exists>t. erase_color (InL pc px s # fs) n = Some t \<and> rb t"
proof -
  obtain sc sl sx sr where s: "s = Nd sc sl sx sr" using pre by (cases s) auto
  show ?thesis
  proof (cases sc)
    case Red
    then have "pc = Black" "\<not> red sl" "nrr sl" "bal sl (Suc h)" "nrr sr" "bal sr (Suc h)" "balp fs (Suc (Suc h))"
      using pre s by auto
    moreover from this have "fixed Red h (fix_left Red px n sl)"
      using pre by (intro fix_left_fixed) auto
    ultimately show ?thesis
      using Red s pre
      by (auto simp: fixed_def intro!: rb_plugI [where h = "Suc (Suc h)"] split: option.splits if_splits)
  next
    case Black
    then have "fixed pc h (fix_left pc px n s)"
      using pre s by (intro fix_left_fixed) auto
    then obtain t again where t: "fix_left pc px n s = Some (t, again)" "nrr t"
      "again \<longrightarrow> pc = Black \<and> \<not> red t \<and> bal t (Suc h)"
      "\<not> again \<longrightarrow> (red t \<longrightarrow> pc = Red) \<and> bal t (if pc = Black then Suc (Suc h) else Suc h)"
      by (auto simp: fixed_def split: if_splits option.splits)
    have "nrrp fs (root_color t)" if "\<not> again"
      using t that pre nrrp_Black [of fs pc] by (cases "red t") (auto simp: root_color_def)
    then have "\<not> again \<Longrightarrow> rb (plug fs t)"
      using t pre by (intro rb_plugI [of _ _ "if pc = Black then Suc (Suc h) else Suc h"]) auto
    with t s Black pre IH [of t "Suc h"] show ?thesis by (cases again) auto
  qed
qed

lemma erase_step_InR:
  assumes pre: "bal n h" "balp (InR pc s px # fs) (Suc h)" "nrr n" "\<not> red n" "nrrp (InR pc s px # fs) Black"
    and IH: "\<And>n h. bal n h \<Longrightarrow> balp fs (Suc h) \<Longrightarrow> nrr n \<Longrightarrow> \<not> red n \<Longrightarrow> nrrp fs Black
      \<Longrightarrow> \<exists>t. erase_color fs n = Some t \<and> rb t"
  shows "\<exists>t. erase_color (InR pc s px # fs) n = Some t \<and> rb t"
proof -
  obtain sc sl sx sr where s: "s = Nd sc sl sx sr" using pre by (cases s) auto
  show ?thesis
  proof (cases sc)
    case Red
    then have "pc = Black" "\<not> red sr" "nrr sl" "bal sl (Suc h)" "nrr sr" "bal sr (Suc h)" "balp fs (Suc (Suc h))"
      using pre s by auto
    moreover from this have "fixed Red h (fix_right Red px n sr)"
      using pre by (intro fix_right_fixed) auto
    ultimately show ?thesis
      using Red s pre
      by (auto simp: fixed_def intro!: rb_plugI [where h = "Suc (Suc h)"] split: option.splits if_splits)
  next
    case Black
    then have "fixed pc h (fix_right pc px n s)"
      using pre s by (intro fix_right_fixed) auto
    then obtain t again where t: "fix_right pc px n s = Some (t, again)" "nrr t"
      "again \<longrightarrow> pc = Black \<and> \<not> red t \<and> bal t (Suc h)"
      "\<not> again \<longrightarrow> (red t \<longrightarrow> pc = Red) \<and> bal t (if pc = Black then Suc (Suc h) else Suc h)"
      by (auto simp: fixed_def split: if_splits option.splits)
    have "nrrp fs (root_color t)" if "\<not> again"
      using t that pre nrrp_Black [of fs pc] by (cases "red t") (auto simp: root_color_def)
    then have "\<not> again \<Longrightarrow> rb (plug fs t)"
      using t pre by (intro rb_plugI [of _ _ "if pc = Black then Suc (Suc h) else Suc h"]) auto
    with t s Black pre IH [of t "Suc h"] show ?thesis by (cases again) auto
  qed
qed

lemma erase_color_rb:
  assumes "bal n h" "balp fs (Suc h)" "nrr n" "\<not> red n" "nrrp fs Black"
  shows "\<exists>t. erase_color fs n = Some t \<and> rb t"
  using assms
proof (induction fs arbitrary: n h)
  case Nil
  then show ?case by (auto simp: rb_def)
next
  case (Cons f fs)
  show ?case
  proof (cases f)
    case InL
    then show ?thesis using Cons.prems Cons.IH by (simp only:) (rule erase_step_InL)
  next
    case InR
    then show ?thesis using Cons.prems Cons.IH by (simp only:) (rule erase_step_InR)
  qed
qed

lemma no_left_child:
  assumes "rb (plug fs (Nd c Null x r))"
  shows "if r \<noteq> Null then c = Black \<and> red r \<and> rb (plug fs (recolor Black r))
         else if c = Black then balp fs (Suc 0) \<and> nrrp fs Black else rb (plug fs Null)"
proof (cases "r = Null")
  case True
  with assms show ?thesis
    using nrrp_Black [of fs c] by (cases c) (auto simp: rb_plug ex_case_nat)
next
  case False
  then obtain rc rl rx rr where r: "r = Nd rc rl rx rr" by (cases r) auto
  from assms obtain h where h: "nrr (Nd c Null x r)" "nrrp fs c" "bal (Nd c Null x r) h" "balp fs h"
    by (auto simp: rb_plug)
  have c: "c = Black"
    using h r by (cases c; cases rc) auto
  then have "h = Suc 0" "rc = Red" using h r by (cases rc; auto split: nat.splits)+
  then have "rb (plug fs (recolor Black r))"
    using h r c by (intro rb_plugI [of _ _ "Suc 0"]) auto
  with r c \<open>rc = Red\<close> show ?thesis by simp
qed

lemma leftmost_plug:
  "leftmost fs c l x r = (ps, sc, sx, sr) \<Longrightarrow> plug ps (Nd sc Null sx sr) = plug fs (Nd c l x r)"
  by (induction fs c l x r rule: leftmost.induct) auto

lemma nrrp_elem: "nrrp (ps @ InR c l x # fs) d \<longleftrightarrow> nrrp (ps @ InR c l y # fs) d"
  by (induction ps d rule: nrrp.induct) auto

lemma balp_elem: "balp (ps @ InR c l x # fs) h \<longleftrightarrow> balp (ps @ InR c l y # fs) h"
  by (induction ps h rule: balp.induct) auto

text \<open>What the two halves of an erasure agree on.\<close>

definition unlinked :: "('a frame list \<times> 'a rbt \<times> bool) option \<Rightarrow> bool" where
  "unlinked res \<longleftrightarrow> (case res of None \<Rightarrow> False | Some (fs, n, rebalance) \<Rightarrow>
     if rebalance then n = Null \<and> balp fs (Suc 0) \<and> nrrp fs Black else rb (plug fs n))"

lemma unlink_two_children:
  assumes "rb (plug fs (Nd c l x (Nd rc rl rx rr)))" "l \<noteq> Null"
  shows "unlinked (unlink fs (Nd c l x (Nd rc rl rx rr)))"
proof -
  obtain ps sc sx sr where lm: "leftmost [] rc rl rx rr = (ps, sc, sx, sr)"
    by (metis prod_cases4)
  let ?fs = "ps @ InR c l sx # fs"
  have "plug (ps @ InR c l x # fs) (Nd sc Null sx sr) = plug fs (Nd c l x (Nd rc rl rx rr))"
    using leftmost_plug [OF lm] by (simp add: plug_append)
  then have "rb (plug (ps @ InR c l x # fs) (Nd sc Null sx sr))"
    using assms by simp
  then have "rb (plug ?fs (Nd sc Null sx sr))"
    unfolding rb_plug using nrrp_elem [of ps c l x fs] balp_elem [of ps c l x fs] by blast
  from no_left_child [OF this] show ?thesis
    using lm assms(2) by (cases l) (auto simp: unlinked_def Let_def split: if_splits)
qed

lemma unlink_one_child:
  assumes "rb (plug fs (Nd c l x Null))" "l \<noteq> Null"
  shows "rb (plug fs (recolor c l))"
proof -
  obtain lc ll lx lr where l: "l = Nd lc ll lx lr" using assms by (cases l) auto
  from assms obtain h where h: "nrr (Nd c l x Null)" "nrrp fs c" "bal (Nd c l x Null) h" "balp fs h"
    by (auto simp: rb_plug)
  have c: "c = Black" using h l by (cases c; cases lc) auto
  then have "h = Suc 0" "lc = Red" using h l by (cases lc; auto split: nat.splits)+
  then show ?thesis using h l c by (intro rb_plugI [of _ _ "Suc 0"]) auto
qed

lemma unlink_unlinked:
  assumes "rb (plug fs (Nd c l x r))"
  shows "unlinked (unlink fs (Nd c l x r))"
proof (cases "l = Null")
  case True
  with no_left_child [of fs c x r] assms show ?thesis
    by (auto simp: unlinked_def split: if_splits)
next
  case False
  show ?thesis
  proof (cases r)
    case Null
    with unlink_one_child [of fs c l x] False assms show ?thesis
      by (cases l) (auto simp: unlinked_def)
  next
    case Nd
    with unlink_two_children False assms show ?thesis by simp
  qed
qed

lemma erase_rb:
  assumes "rb t" "x \<in> set (inorder t)"
  shows "\<exists>t'. hev_rbtree_erase t x = Some t' \<and> rb t'"
proof -
  obtain fs c l r where loc: "locate x t [] = Some (fs, Nd c l x r)" "plug fs (Nd c l x r) = t"
    using locate_obtain [OF assms(2)] by blast
  then have "unlinked (unlink fs (Nd c l x r))"
    using unlink_unlinked [of fs c l x r] assms by simp
  then show ?thesis
    using loc erase_color_rb [of Null 0]
    by (auto simp: unlinked_def hev_rbtree_erase_def split: option.splits if_splits)
qed

lemma erase_inorder:
  assumes "hev_rbtree_erase t x = Some t'" "distinct (inorder t)"
  shows "inorder t' = remove1 x (inorder t)"
proof -
  obtain fs n where loc: "locate x t [] = Some (fs, n)"
    using assms by (auto simp: hev_rbtree_erase_def split: option.splits)
  then obtain c l r where n: "n = Nd c l x r" "plug fs (Nd c l x r) = t"
    using locate_Some by fastforce
  obtain fs' n' b where u: "unlink fs (Nd c l x r) = Some (fs', n', b)"
    "(if b then erase_color fs' n' else Some (plug fs' n')) = Some t'"
    using assms loc n by (auto simp: hev_rbtree_erase_def split: option.splits)
  have "inorder t' = inorder (plug fs' n')"
    using u(2) inorder_erase_color by (auto split: if_splits)
  also have "\<dots> = before fs @ inorder l @ inorder r @ behind fs"
    using inorder_unlink [OF u(1)] by simp
  also have "\<dots> = remove1 x (inorder t)"
    using assms(2) unfolding n(2) [symmetric] by (simp add: remove1_append)
  finally show ?thesis .
qed

lemma insert_color_link:
  assumes "rb (plug fs Null)"
  shows "\<exists>t. hev_rbtree_insert_color fs x = Some t \<and> rb t \<and> inorder t = before fs @ x # behind fs"
proof -
  obtain h where "nrrp fs Black" "balp fs 0" using assms by (auto simp: rb_plug)
  then obtain t where "hev_rbtree_insert_color fs x = Some t" "rb t"
    using insert_color_rb [of "hev_rbtree_node_link x" 0 fs]
    by (auto simp: hev_rbtree_insert_color_def hev_rbtree_node_link_def)
  then show ?thesis
    using inorder_insert_color [of fs "hev_rbtree_node_link x" t]
    by (auto simp: hev_rbtree_insert_color_def hev_rbtree_node_link_def)
qed

section \<open>Navigation\<close>

definition head_opt :: "'a list \<Rightarrow> 'a option" where
  "head_opt xs = (case xs of [] \<Rightarrow> None | x # _ \<Rightarrow> Some x)"

definition last_opt :: "'a list \<Rightarrow> 'a option" where
  "last_opt xs = (if xs = [] then None else Some (last xs))"

lemma head_opt_simps [simp]:
  "head_opt [] = None" "head_opt (x # xs) = Some x"
  "head_opt (xs @ ys) = (if xs = [] then head_opt ys else head_opt xs)"
  by (simp_all add: head_opt_def split: list.splits)

lemma last_opt_simps [simp]:
  "last_opt [] = None" "last_opt (xs @ ys) = (if ys = [] then last_opt xs else last_opt ys)"
  "last_opt (x # xs) = (if xs = [] then Some x else last_opt xs)"
  by (simp_all add: last_opt_def)

lemma inorder_Nil [simp]: "inorder t = [] \<longleftrightarrow> t = Null" "[] = inorder t \<longleftrightarrow> t = Null"
  by (cases t; simp)+

lemma first_inorder: "hev_rbtree_first t = head_opt (inorder t)"
  by (induction t rule: hev_rbtree_first.induct) simp_all

lemma last_inorder: "hev_rbtree_last t = last_opt (inorder t)"
  by (induction t rule: hev_rbtree_last.induct) simp_all

lemma up_next_behind: "up_next fs = head_opt (behind fs)"
  by (induction fs rule: up_next.induct) simp_all

lemma up_prev_before: "up_prev fs = last_opt (before fs)"
  by (induction fs rule: up_prev.induct) simp_all

lemma node_next_inorder:
  assumes "inorder t = as @ x # bs" "distinct (inorder t)"
  shows "hev_rbtree_node_next t x = head_opt bs" and "hev_rbtree_node_prev t x = last_opt as"
proof -
  have "x \<in> set (inorder t)" using assms by simp
  then obtain fs c l r where loc: "locate x t [] = Some (fs, Nd c l x r)" "plug fs (Nd c l x r) = t"
    by (rule locate_obtain)
  have e: "as @ x # bs = (before fs @ inorder l) @ x # (inorder r @ behind fs)"
    using assms(1) unfolding loc(2) [symmetric] by simp
  have "x \<notin> set as" "x \<notin> set bs" using assms by simp_all
  then have "as = before fs @ inorder l" "bs = inorder r @ behind fs"
    using e append_Cons_eq_iff [of x as bs "before fs @ inorder l" "inorder r @ behind fs"] by simp_all
  then show "hev_rbtree_node_next t x = head_opt bs" "hev_rbtree_node_prev t x = last_opt as"
    using loc(1)
    by (simp_all add: hev_rbtree_node_next_def first_inorder up_next_behind
        hev_rbtree_node_prev_def last_inorder up_prev_before)
qed

lemma replace_inorder:
  assumes "x \<in> set (inorder t)" "distinct (inorder t)"
  shows "\<exists>t'. hev_rbtree_replace t x y = Some t' \<and> (rb t \<longrightarrow> rb t')
     \<and> inorder t' = map (\<lambda>z. if z = x then y else z) (inorder t)"
proof -
  obtain fs c l r where loc: "locate x t [] = Some (fs, Nd c l x r)" "plug fs (Nd c l x r) = t"
    using assms(1) by (rule locate_obtain)
  have d: "distinct (inorder (plug fs (Nd c l x r)))" using assms(2) loc(2) by simp
  have "rb (plug fs (Nd c l x r)) \<longleftrightarrow> rb (plug fs (Nd c l y r))" by (simp add: rb_plug)
  moreover have "inorder (plug fs (Nd c l y r))
      = map (\<lambda>z. if z = x then y else z) (inorder (plug fs (Nd c l x r)))"
    using d by (auto intro!: map_idI [symmetric])
  ultimately show ?thesis using loc by (auto simp: hev_rbtree_replace_def)
qed

section \<open>Height\<close>

fun height :: "'a rbt \<Rightarrow> nat" where
  "height Null = 0"
| "height (Nd c l x r) = Suc (max (height l) (height r))"

lemma bal_size: "bal t h \<Longrightarrow> 2 ^ h \<le> Suc (length (inorder t))"
proof (induction t arbitrary: h)
  case (Nd c l x r)
  show ?case
  proof (cases c)
    case Red
    with Nd.prems have "2 ^ h \<le> Suc (length (inorder l))" using Nd.IH(1) by simp
    then show ?thesis by simp
  next
    case Black
    with Nd.prems obtain k where k: "h = Suc k" "bal l k" "bal r k" by (auto split: nat.splits)
    then have "2 ^ k \<le> Suc (length (inorder l))" "2 ^ k \<le> Suc (length (inorder r))"
      using Nd.IH by simp_all
    then show ?thesis using k by simp
  qed
qed simp

lemma bal_height: "bal t h \<Longrightarrow> nrr t \<Longrightarrow> height t \<le> 2 * h + (if red t then 1 else 0)"
proof (induction t arbitrary: h)
  case (Nd c l x r)
  show ?case
  proof (cases c)
    case Red
    with Nd.prems Nd.IH(1) [of h] Nd.IH(2) [of h] show ?thesis by simp
  next
    case Black
    with Nd.prems obtain k where k: "h = Suc k" "bal l k" "bal r k" by (auto split: nat.splits)
    then have "height l \<le> 2 * k + 1" "height r \<le> 2 * k + 1"
      using Nd.IH Nd.prems by (fastforce split: if_splits)+
    then show ?thesis using k Black by simp
  qed
qed simp

lemma rb_height: "rb t \<Longrightarrow> 2 ^ ((height t + 1) div 2) \<le> Suc (length (inorder t))"
proof -
  assume "rb t"
  then obtain h where "bal t h" "nrr t" "\<not> red t" by (auto simp: rb_def)
  then have "(height t + 1) div 2 \<le> h" "2 ^ h \<le> Suc (length (inorder t))"
    using bal_height [of t h] bal_size [of t h] by simp_all
  moreover from this have "2 ^ ((height t + 1) div 2) \<le> (2 :: nat) ^ h"
    by (intro power_increasing) simp_all
  ultimately show ?thesis by (rule_tac order_trans)
qed

section \<open>Searching by key\<close>

text \<open>A descent only depends on the comparison at the nodes of the tree.\<close>

lemma descend_cong:
  "(\<And>x. x \<in> set (inorder t) \<Longrightarrow> f x = g x) \<Longrightarrow> descend f fs t = descend g fs t"
  by (induction f fs t rule: descend.induct) auto

text \<open>
  The contract between the tree and its clients: a three-way comparison of keys.  Nodes whose
  key compares greater lie to the left, as the clients' descents have it.
\<close>

locale search_order =
  fixes cmp :: "'k \<Rightarrow> 'k \<Rightarrow> int"
  assumes cmp_zero: "cmp a b = 0 \<longleftrightarrow> a = b"
    and cmp_swap: "cmp a b < 0 \<longleftrightarrow> 0 < cmp b a"
    and cmp_trans: "0 < cmp a b \<Longrightarrow> 0 < cmp b c \<Longrightarrow> 0 < cmp a c"
begin

abbreviation ordered :: "('a \<Rightarrow> 'k) \<Rightarrow> 'a list \<Rightarrow> bool" where
  "ordered key \<equiv> sorted_wrt (\<lambda>x y. 0 < cmp (key x) (key y))"

lemma ordered_append:
  "ordered key (xs @ y # ys) \<longleftrightarrow> ordered key xs \<and> ordered key ys
     \<and> (\<forall>x\<in>set xs. 0 < cmp (key x) (key y)) \<and> (\<forall>z\<in>set ys. 0 < cmp (key y) (key z))"
  by (auto simp: sorted_wrt_append intro: cmp_trans)

lemma cmp_cases:
  obtains "cmp a b = 0" "a = b" | "0 < cmp a b" "cmp b a < 0" | "cmp a b < 0" "0 < cmp b a"
  using cmp_zero [of a b] cmp_swap [of a b] cmp_swap [of b a] by linarith

lemma ordered_distinct: "ordered key xs \<Longrightarrow> distinct (map key xs)"
proof (induction xs)
  case (Cons x xs)
  then have "key x \<noteq> key y" if "y \<in> set xs" for y
    using that cmp_zero [of "key x" "key y"] by fastforce
  with Cons show ?case by auto
qed simp

lemma ordered_remove1: "ordered key xs \<Longrightarrow> ordered key (remove1 x xs)"
  by (induction xs) (auto dest: set_remove1_subset [THEN subsetD])

lemma descend_found:
  "descend (\<lambda>x. cmp (key x) k) fs t = (Some x, p) \<Longrightarrow> x \<in> set (inorder t) \<and> key x = k"
  by (induction "\<lambda>x. cmp (key x) k" fs t rule: descend.induct)
    (auto split: if_splits simp: cmp_zero [symmetric] dest: antisym_conv1)

text \<open>A failed descent ends at the empty position where the key belongs.\<close>

lemma descend_missing:
  assumes "descend (\<lambda>x. cmp (key x) k) fs t = (None, p)" "ordered key (inorder t)"
    and "\<forall>x\<in>set (before fs). 0 < cmp (key x) k" "\<forall>x\<in>set (behind fs). 0 < cmp k (key x)"
  shows "plug p Null = plug fs t \<and> (\<forall>x\<in>set (before p). 0 < cmp (key x) k)
     \<and> (\<forall>x\<in>set (behind p). 0 < cmp k (key x))"
  using assms
proof (induction "\<lambda>x. cmp (key x) k" fs t rule: descend.induct)
  case (2 fs c l x r)
  have o: "ordered key (inorder l)" "ordered key (inorder r)"
    "\<forall>y\<in>set (inorder l). 0 < cmp (key y) (key x)" "\<forall>z\<in>set (inorder r). 0 < cmp (key x) (key z)"
    using "2.prems"(2) by (simp_all add: ordered_append)
  show ?case
  proof (cases rule: cmp_cases [of "key x" k])
    case 1
    with "2.prems"(1) show ?thesis by simp
  next
    case 2
    then have "\<forall>y\<in>set (inorder l). 0 < cmp (key y) k" using o(3) cmp_trans by blast
    then have "\<forall>y\<in>set (before (InR c l x # fs)). 0 < cmp (key y) k"
      using 2 "2.prems"(3) by auto
    then show ?thesis using "2.hyps"(2) "2.prems" o(2) 2 by simp
  next
    case 3
    then have "\<forall>z\<in>set (inorder r). 0 < cmp k (key z)" using o(4) cmp_trans by blast
    then have "\<forall>z\<in>set (behind (InL c x r # fs)). 0 < cmp k (key z)"
      using 3 "2.prems"(4) by auto
    then show ?thesis using "2.hyps"(1) "2.prems" o(1) 3 by simp
  qed
qed simp

lemma missing_key:
  assumes "\<forall>x\<in>set xs. 0 < cmp (key x) k" "\<forall>x\<in>set ys. 0 < cmp k (key x)" "x \<in> set (xs @ ys)"
  shows "key x \<noteq> k"
  using assms cmp_zero [of k k] by fastforce

lemma descend_iff:
  assumes "ordered key (inorder t)"
  shows "(\<exists>x\<in>set (inorder t). key x = k) \<longleftrightarrow> fst (descend (\<lambda>x. cmp (key x) k) [] t) \<noteq> None"
proof (cases "descend (\<lambda>x. cmp (key x) k) [] t")
  case (Pair res p)
  show ?thesis
  proof (cases res)
    case None
    with Pair descend_missing [of key k "[]" t p] assms
    have m: "plug p Null = t" "\<forall>x\<in>set (before p). 0 < cmp (key x) k" "\<forall>x\<in>set (behind p). 0 < cmp k (key x)"
      by simp_all
    have "inorder t = before p @ behind p" unfolding m(1) [symmetric] by simp
    with m missing_key [of "before p" key k "behind p"] None Pair show ?thesis by auto
  next
    case (Some x)
    with Pair descend_found [of key k "[]" t x p] show ?thesis by auto
  qed
qed

text \<open>Linking a fresh node at that position and rebalancing keeps the tree a search tree.\<close>

lemma insert_missing:
  assumes "rb t" "ordered key (inorder t)" "descend (\<lambda>x. cmp (key x) (key y)) [] t = (None, p)"
  shows "\<exists>t'. hev_rbtree_insert_color p y = Some t' \<and> rb t' \<and> ordered key (inorder t')
     \<and> set (inorder t') = insert y (set (inorder t)) \<and> mset (inorder t') = add_mset y (mset (inorder t))"
proof -
  have m: "plug p Null = t" "\<forall>x\<in>set (before p). 0 < cmp (key x) (key y)"
    "\<forall>x\<in>set (behind p). 0 < cmp (key y) (key x)"
    using descend_missing [OF assms(3,2)] by simp_all
  have i: "inorder t = before p @ behind p" unfolding m(1) [symmetric] by simp
  obtain t' where t': "hev_rbtree_insert_color p y = Some t'" "rb t'" "inorder t' = before p @ y # behind p"
    using insert_color_link [of p y] assms(1) m(1) by auto
  have "ordered key (inorder t')"
    using assms(2) m unfolding t'(3) i by (simp add: ordered_append sorted_wrt_append)
  with t' i show ?thesis by auto
qed

lemma erase_present:
  assumes "rb t" "ordered key (inorder t)" "x \<in> set (inorder t)"
  shows "\<exists>t'. hev_rbtree_erase t x = Some t' \<and> rb t' \<and> ordered key (inorder t')
     \<and> set (inorder t') = set (inorder t) - {x} \<and> mset (inorder t') = mset (inorder t) - {#x#}"
proof -
  obtain t' where t': "hev_rbtree_erase t x = Some t'" "rb t'"
    using erase_rb [OF assms(1,3)] by blast
  have d: "distinct (inorder t)"
    using ordered_distinct [OF assms(2)] by (simp add: distinct_map)
  have i: "inorder t' = remove1 x (inorder t)" using erase_inorder [OF t'(1) d] .
  have "ordered key (remove1 x (inorder t))"
    using assms(2) by (rule ordered_remove1)
  with t' i d show ?thesis by auto
qed

end

section \<open>Properties of the tree operations\<close>

text \<open>
  C39: Linking a new node below a null position and rebalancing never follows a null pointer, gives a
  red-black tree again, and puts the node exactly where the position was in key order.
\<close>

theorem rbtree_insert_correct:
  assumes "rb (plug fs Null)"
  shows "\<exists>t. hev_rbtree_insert_color fs x = Some t \<and> rb t \<and> inorder t = before fs @ x # behind fs"
  using assms by (rule insert_color_link)

theorem rbtree_insert_correct_witness:
  "\<exists>t. hev_rbtree_insert_color [InR Red Null 2, InR Black (Nd Red Null 0 Null) (1 :: nat)] 3 = Some t
     \<and> rb t \<and> inorder t = [0, 1, 2, 3]"
proof -
  have "rb (plug [InR Red Null 2, InR Black (Nd Red Null 0 Null) (1 :: nat)] Null)"
    unfolding rb_def by (intro conjI exI [of _ 1]) simp_all
  from rbtree_insert_correct [OF this, of 3] show ?thesis by simp
qed

text \<open>
  C40: Erasing a node of a red-black tree never follows a null pointer, gives a red-black tree again,
  and takes exactly that node out of the order.
\<close>

theorem rbtree_erase_correct:
  assumes "rb t" "distinct (inorder t)" "x \<in> set (inorder t)"
  shows "\<exists>t'. hev_rbtree_erase t x = Some t' \<and> rb t' \<and> inorder t' = remove1 x (inorder t)"
  using erase_rb [OF assms(1,3)] erase_inorder [OF _ assms(2)] by blast

theorem rbtree_erase_correct_witness:
  "\<exists>t'. hev_rbtree_erase (Nd Black (Nd Black Null 0 Null) (1 :: nat) (Nd Black Null 2 Null)) 1 = Some t'
     \<and> rb t' \<and> inorder t' = [0, 2]"
proof -
  let ?t = "Nd Black (Nd Black Null 0 Null) (1 :: nat) (Nd Black Null 2 Null)"
  have "rb ?t" unfolding rb_def by (intro conjI exI [of _ 2]) (simp_all add: numeral_2_eq_2)
  from rbtree_erase_correct [OF this, of 1] show ?thesis by simp
qed

text \<open>
  A red-black tree with \<open>n\<close> nodes is at most about \<open>2 log n\<close> high, so that every descent and
  every rebalancing loop, which climbs towards the root, ends after that many steps.
\<close>

theorem rbtree_height_bound:
  assumes "rb t"
  shows "2 ^ ((height t + 1) div 2) \<le> Suc (length (inorder t))"
  using assms by (rule rb_height)

theorem rbtree_height_bound_witness:
  "2 ^ ((height (Nd Black (Nd Red Null 0 Null) (1 :: nat) Null) + 1) div 2) \<le> Suc (length [0, 1 :: nat])"
proof -
  have "rb (Nd Black (Nd Red Null 0 Null) (1 :: nat) Null)"
    unfolding rb_def by (intro conjI exI [of _ 1]) simp_all
  from rbtree_height_bound [OF this] show ?thesis by simp
qed

text \<open>
  Stepping through a tree with distinct nodes by \<^verbatim>\<open>next\<close> and \<^verbatim>\<open>prev\<close> follows the key order in both
  directions, and \<^verbatim>\<open>first\<close> and \<^verbatim>\<open>last\<close> are its ends.
\<close>

theorem rbtree_iteration:
  assumes "inorder t = as @ x # bs" "distinct (inorder t)"
  shows "hev_rbtree_node_next t x = head_opt bs \<and> hev_rbtree_node_prev t x = last_opt as
    \<and> hev_rbtree_first t = head_opt (as @ [x]) \<and> hev_rbtree_last t = last_opt (x # bs)"
  using node_next_inorder [OF assms] assms(1) by (simp add: first_inorder last_inorder)

theorem rbtree_iteration_witness:
  "hev_rbtree_node_next (Nd Black (Nd Red Null 0 Null) (1 :: nat) (Nd Red Null 2 Null)) 0 = Some 1"
  using rbtree_iteration [of "Nd Black (Nd Red Null 0 Null) (1 :: nat) (Nd Red Null 2 Null)" "[]" 0 "[1, 2]"]
  by simp

end
