(* ===== verification/Byte_Order.thy ===== *)
theory Byte_Order
  imports Prelude RB_Tree
begin

text \<open>
  The C library's byte comparisons that order the keys of the red-black trees: \<^verbatim>\<open>memcmp\<close> on two
  buffers of one length and \<^verbatim>\<open>strcmp\<close> on the contents of two C strings.  Only the sign of their
  results is specified by the C standard, so the model returns a sign.  Both are an
  instance of the tree's \<open>search_order\<close> contract; \<^verbatim>\<open>memcmp\<close> compares two lists of one length only,
  and on other lists, which the code never compares, a proper prefix is the smaller one.
\<close>

fun memcmp :: "bytes \<Rightarrow> bytes \<Rightarrow> int" where
  "memcmp (a # as) (b # bs) = (if a = b then memcmp as bs else if a < b then -1 else 1)"
| "memcmp [] [] = 0"
| "memcmp [] (b # bs) = -1"
| "memcmp (a # as) [] = 1"

fun strcmp :: "bytes \<Rightarrow> bytes \<Rightarrow> int" where
  "strcmp [] [] = 0"
| "strcmp [] (b # bs) = -1"
| "strcmp (a # as) [] = 1"
| "strcmp (a # as) (b # bs) = (if a = b then strcmp as bs else if a < b then -1 else 1)"

lemma memcmp_strcmp: "memcmp as bs = strcmp as bs"
  by (induction as bs rule: strcmp.induct) auto

lemma strcmp_zero: "strcmp as bs = 0 \<longleftrightarrow> as = bs"
  by (induction as bs rule: strcmp.induct) auto

lemma strcmp_swap: "strcmp as bs < 0 \<longleftrightarrow> 0 < strcmp bs as"
  by (induction as bs rule: strcmp.induct) auto

lemma strcmp_trans: "0 < strcmp as bs \<Longrightarrow> 0 < strcmp bs cs \<Longrightarrow> 0 < strcmp as cs"
proof (induction as bs arbitrary: cs rule: strcmp.induct)
  case (3 a as)
  then show ?case by (cases cs) simp_all
next
  case (4 a as b bs)
  then show ?case by (cases cs) (auto split: if_splits)
qed auto

interpretation str: search_order strcmp
  by unfold_locales (rule strcmp_zero strcmp_swap strcmp_trans; assumption?)+

end
