(* ===== verification/Socks5_Auth.thy ===== *)
theory Socks5_Auth
  imports Byte_Order
begin

text \<open>
  Users and the authenticator: \<^verbatim>\<open>hev/src/core/src/hev-socks5-user.c\<close> and
  \<^verbatim>\<open>hev-socks5-authenticator.c\<close>.  The authenticator is the intrusive red-black tree of its
  users; \<open>released\<close> records, in order, the users whose reference it has dropped.  An
  operation gives \<open>None\<close> where the tree code would follow a null pointer.
\<close>

section \<open>Users\<close>

record user =
  uname :: bytes
  upass :: bytes

definition hev_socks5_user_construct :: "bytes \<Rightarrow> nat \<Rightarrow> bytes \<Rightarrow> nat \<Rightarrow> user" where
  "hev_socks5_user_construct name name_len pass pass_len =
     \<lparr>uname = take name_len name, upass = take pass_len pass\<rparr>"

definition hev_socks5_user_checker :: "user \<Rightarrow> bytes \<Rightarrow> nat \<Rightarrow> int" where
  "hev_socks5_user_checker self pass pass_len =
     (if length (upass self) \<noteq> pass_len then -1
      else if memcmp (upass self) (take pass_len pass) \<noteq> 0 then -1 else 0)"

section \<open>The authenticator\<close>

record authenticator =
  atree :: "user rbt"
  released :: "user list"

definition hev_socks5_authenticator_construct :: authenticator where
  "hev_socks5_authenticator_construct = \<lparr>atree = Null, released = []\<rparr>"

text \<open>The comparison written out in each of the descents: first the length, then the bytes.\<close>

definition user_cmp :: "bytes \<Rightarrow> bytes \<Rightarrow> int" where
  "user_cmp this_name name =
     (if length this_name < length name then -1
      else if length this_name > length name then 1
      else memcmp this_name name)"

definition hev_socks5_authenticator_add :: "authenticator \<Rightarrow> user \<Rightarrow> (int \<times> authenticator) option" where
  "hev_socks5_authenticator_add self user =
     (case descend (\<lambda>this. user_cmp (uname this) (uname user)) [] (atree self) of
        (Some this, _) \<Rightarrow> Some (-1, self)
      | (None, parent) \<Rightarrow>
          map_option (\<lambda>t. (0, self\<lparr>atree := t\<rparr>)) (hev_rbtree_insert_color parent user))"

definition hev_socks5_authenticator_del :: "authenticator \<Rightarrow> bytes \<Rightarrow> nat \<Rightarrow> (int \<times> authenticator) option" where
  "hev_socks5_authenticator_del self name name_len =
     (case descend (\<lambda>this. user_cmp (uname this) (take name_len name)) [] (atree self) of
        (Some this, _) \<Rightarrow>
          map_option (\<lambda>t. (0, self\<lparr>atree := t, released := released self @ [this]\<rparr>))
            (hev_rbtree_erase (atree self) this)
      | (None, _) \<Rightarrow> Some (-1, self))"

definition hev_socks5_authenticator_get :: "authenticator \<Rightarrow> bytes \<Rightarrow> nat \<Rightarrow> user option" where
  "hev_socks5_authenticator_get self name name_len =
     fst (descend (\<lambda>this. user_cmp (uname this) (take name_len name)) [] (atree self))"

text \<open>The loop of \<^verbatim>\<open>hev_socks5_authenticator_clear\<close>, given one turn per node and one more.\<close>

fun clear_loop :: "nat \<Rightarrow> authenticator \<Rightarrow> authenticator option" where
  "clear_loop 0 self = None"
| "clear_loop (Suc n) self =
     (case hev_rbtree_first (atree self) of
        None \<Rightarrow> Some self
      | Some t \<Rightarrow>
          (case hev_rbtree_erase (atree self) t of
             None \<Rightarrow> None
           | Some tr \<Rightarrow> clear_loop n (self\<lparr>atree := tr, released := released self @ [t]\<rparr>)))"

definition hev_socks5_authenticator_clear :: "authenticator \<Rightarrow> authenticator option" where
  "hev_socks5_authenticator_clear self = clear_loop (Suc (length (inorder (atree self)))) self"

section \<open>The order of the users\<close>

lemma user_cmp_zero: "user_cmp a b = 0 \<longleftrightarrow> a = b"
  by (auto simp: user_cmp_def memcmp_strcmp strcmp_zero)

lemma user_cmp_swap: "user_cmp a b < 0 \<longleftrightarrow> 0 < user_cmp b a"
  by (auto simp: user_cmp_def memcmp_strcmp strcmp_swap)

lemma user_cmp_trans: "0 < user_cmp a b \<Longrightarrow> 0 < user_cmp b c \<Longrightarrow> 0 < user_cmp a c"
  by (auto simp: user_cmp_def memcmp_strcmp split: if_splits intro: strcmp_trans)

interpretation us: search_order user_cmp
  by unfold_locales (rule user_cmp_zero user_cmp_swap user_cmp_trans; assumption?)+

definition auth_ok :: "authenticator \<Rightarrow> bool" where
  "auth_ok self \<longleftrightarrow> rb (atree self) \<and> us.ordered uname (inorder (atree self))"

definition users :: "authenticator \<Rightarrow> user set" where
  "users self = set (inorder (atree self))"

text \<open>The map from names to passwords that an authenticator stands for.\<close>

definition passwords :: "authenticator \<Rightarrow> bytes \<Rightarrow> bytes option" where
  "passwords self = map_of (map (\<lambda>u. (uname u, upass u)) (inorder (atree self)))"

lemma checker_zero: "pass_len \<le> length pass \<Longrightarrow>
    hev_socks5_user_checker u pass pass_len = 0 \<longleftrightarrow> upass u = take pass_len pass"
  by (auto simp: hev_socks5_user_checker_def memcmp_strcmp strcmp_zero)

lemma auth_ok_construct: "auth_ok hev_socks5_authenticator_construct"
  by (simp add: auth_ok_def hev_socks5_authenticator_construct_def rb_def)

lemma auth_distinct: "auth_ok self \<Longrightarrow> distinct (map uname (inorder (atree self)))"
  by (auto simp: auth_ok_def intro: us.ordered_distinct)

lemma passwords_Some:
  assumes "auth_ok self"
  shows "passwords self n = Some p \<longleftrightarrow> \<lparr>uname = n, upass = p\<rparr> \<in> users self"
proof -
  have d: "distinct (map fst (map (\<lambda>u. (uname u, upass u)) (inorder (atree self))))"
    using auth_distinct [OF assms] by (simp add: comp_def)
  have "(n, p) = (uname u, upass u) \<longleftrightarrow> u = \<lparr>uname = n, upass = p\<rparr>" for u :: user by auto
  then show ?thesis
    unfolding passwords_def users_def map_of_eq_Some_iff [OF d] by (auto simp: image_iff)
qed

lemma passwords_user: "auth_ok self \<Longrightarrow> u \<in> users self \<Longrightarrow> passwords self (uname u) = Some (upass u)"
proof -
  have "\<lparr>uname = uname u, upass = upass u\<rparr> = u" by simp
  then show "auth_ok self \<Longrightarrow> u \<in> users self \<Longrightarrow> ?thesis" by (metis passwords_Some)
qed

lemma passwords_None: "auth_ok self \<Longrightarrow> passwords self n = None \<longleftrightarrow> n \<notin> uname ` users self"
  by (simp add: passwords_def users_def map_of_eq_None_iff image_image)

lemma get_passwords:
  assumes "auth_ok self"
  shows "hev_socks5_authenticator_get self name n =
     map_option (\<lambda>p. \<lparr>uname = take n name, upass = p\<rparr>) (passwords self (take n name))"
proof (cases "descend (\<lambda>this. user_cmp (uname this) (take n name)) [] (atree self)")
  case (Pair res p)
  have ord: "us.ordered uname (inorder (atree self))" using assms by (simp add: auth_ok_def)
  show ?thesis
  proof (cases res)
    case None
    then have "take n name \<notin> uname ` users self"
      using us.descend_iff [OF ord, of "take n name"] Pair by (auto simp: users_def)
    with None Pair assms show ?thesis by (simp add: hev_socks5_authenticator_get_def passwords_None)
  next
    case (Some x)
    then have x: "x \<in> users self" "uname x = take n name"
      using us.descend_found [of uname "take n name" "[]" "atree self" x p] Pair by (simp_all add: users_def)
    then have "passwords self (take n name) = Some (upass x)"
      using passwords_user [OF assms x(1)] by simp
    moreover have "x = \<lparr>uname = take n name, upass = upass x\<rparr>" using x(2) by simp
    ultimately show ?thesis using Some Pair by (simp add: hev_socks5_authenticator_get_def)
  qed
qed

lemma passwords_cong:
  assumes "auth_ok a" "\<And>n p. m n = Some p \<longleftrightarrow> \<lparr>uname = n, upass = p\<rparr> \<in> users a"
  shows "passwords a = m"
proof
  fix n
  show "passwords a n = m n"
    using assms(2) [of n] passwords_Some [OF assms(1), of n] by (metis not_None_eq)
qed

lemma add_passwords:
  assumes "auth_ok self"
  shows "\<exists>self'. hev_socks5_authenticator_add self u
       = Some (if passwords self (uname u) = None then (0, self') else (-1, self))
     \<and> (passwords self (uname u) = None \<longrightarrow> auth_ok self' \<and> released self' = released self
       \<and> passwords self' = (passwords self)(uname u \<mapsto> upass u))"
proof (cases "descend (\<lambda>this. user_cmp (uname this) (uname u)) [] (atree self)")
  case (Pair res p)
  then have res: "res = None \<longleftrightarrow> passwords self (uname u) = None"
    using get_passwords [OF assms, of "uname u" "length (uname u)"]
    by (simp add: hev_socks5_authenticator_get_def)
  show ?thesis
  proof (cases res)
    case None
    with Pair us.insert_missing [of "atree self" uname u p] assms obtain t where
      t: "hev_rbtree_insert_color p u = Some t" "rb t" "us.ordered uname (inorder t)"
        "set (inorder t) = insert u (set (inorder (atree self)))"
      by (auto simp: auth_ok_def)
    have ok: "auth_ok (self\<lparr>atree := t\<rparr>)" using t by (simp add: auth_ok_def)
    have "passwords (self\<lparr>atree := t\<rparr>) = (passwords self)(uname u \<mapsto> upass u)"
    proof (rule passwords_cong [OF ok])
      fix n p
      have "u = \<lparr>uname = n, upass = p\<rparr> \<longleftrightarrow> uname u = n \<and> upass u = p" by auto
      moreover have "\<lparr>uname = uname u, upass = p\<rparr> \<notin> users self"
        using None res passwords_Some [OF assms, of "uname u" p] by simp
      ultimately show "((passwords self)(uname u \<mapsto> upass u)) n = Some p
          \<longleftrightarrow> \<lparr>uname = n, upass = p\<rparr> \<in> users (self\<lparr>atree := t\<rparr>)"
        using t(4) passwords_Some [OF assms, of n p] by (auto simp: users_def)
    qed
    with None res ok Pair t(1) show ?thesis by (auto simp: hev_socks5_authenticator_add_def)
  next
    case (Some x)
    with res have "passwords self (uname u) \<noteq> None" by simp
    with Some Pair show ?thesis by (auto simp: hev_socks5_authenticator_add_def)
  qed
qed

lemma del_passwords:
  assumes "auth_ok self"
  shows "\<exists>self'. hev_socks5_authenticator_del self name n
       = Some (case passwords self (take n name) of Some p \<Rightarrow> (0, self') | None \<Rightarrow> (-1, self))
     \<and> (\<forall>p. passwords self (take n name) = Some p \<longrightarrow> auth_ok self'
       \<and> released self' = released self @ [\<lparr>uname = take n name, upass = p\<rparr>]
       \<and> passwords self' = (passwords self)(take n name := None))"
proof (cases "descend (\<lambda>this. user_cmp (uname this) (take n name)) [] (atree self)")
  case (Pair res q)
  then have res: "res = map_option (\<lambda>p. \<lparr>uname = take n name, upass = p\<rparr>) (passwords self (take n name))"
    using get_passwords [OF assms, of name n] by (simp add: hev_socks5_authenticator_get_def)
  show ?thesis
  proof (cases "passwords self (take n name)")
    case None
    with res Pair show ?thesis by (simp add: hev_socks5_authenticator_del_def)
  next
    case (Some p)
    let ?u = "\<lparr>uname = take n name, upass = p\<rparr>"
    have u: "?u \<in> set (inorder (atree self))" using Some passwords_Some [OF assms] by (simp add: users_def)
    with us.erase_present [of "atree self" uname ?u] assms obtain t where
      t: "hev_rbtree_erase (atree self) ?u = Some t" "rb t" "us.ordered uname (inorder t)"
        "set (inorder t) = set (inorder (atree self)) - {?u}"
      by (auto simp: auth_ok_def)
    let ?s = "self\<lparr>atree := t, released := released self @ [?u]\<rparr>"
    have ok: "auth_ok ?s" using t by (simp add: auth_ok_def)
    have "passwords ?s = (passwords self)(take n name := None)"
    proof (rule passwords_cong [OF ok])
      fix m q
      have "\<lparr>uname = take n name, upass = q\<rparr> \<in> users self \<longleftrightarrow> q = p"
        using Some passwords_Some [OF assms, of "take n name" q] by auto
      then show "((passwords self)(take n name := None)) m = Some q
          \<longleftrightarrow> \<lparr>uname = m, upass = q\<rparr> \<in> users ?s"
        using t(4) passwords_Some [OF assms, of m q] by (auto simp: users_def)
    qed
    with Some ok res Pair t(1) show ?thesis by (auto simp: hev_socks5_authenticator_del_def)
  qed
qed

text \<open>Clearing ends, drops every reference once and leaves the tree empty.\<close>

lemma clear_loop_all:
  "auth_ok self \<Longrightarrow> length (inorder (atree self)) < n \<Longrightarrow>
     clear_loop n self = Some \<lparr>atree = Null, released = released self @ inorder (atree self)\<rparr>"
proof (induction n self rule: clear_loop.induct)
  case (2 n self)
  show ?case
  proof (cases "inorder (atree self)")
    case Nil
    then show ?thesis by (simp add: first_inorder)
  next
    case (Cons x xs)
    have d: "distinct (inorder (atree self))"
      using auth_distinct [OF "2.prems"(1)] by (simp add: distinct_map)
    obtain t where t: "hev_rbtree_erase (atree self) x = Some t" "rb t" "us.ordered uname (inorder t)"
      using us.erase_present [of "atree self" uname x] "2.prems"(1) Cons by (auto simp: auth_ok_def)
    have "inorder t = xs" using erase_inorder [OF t(1) d] Cons by simp
    moreover have "hev_rbtree_first (atree self) = Some x" using Cons by (simp add: first_inorder)
    ultimately show ?thesis using "2.IH" [of x t] "2.prems"(2) t Cons by (simp add: auth_ok_def)
  qed
qed simp

section \<open>Properties of the authenticator\<close>

text \<open>The maintenance commands, and their effect on the map from names to passwords.\<close>

datatype auth_cmd = AddUser bytes bytes | DelUser bytes

fun auth_do :: "auth_cmd \<Rightarrow> authenticator \<Rightarrow> (int \<times> authenticator) option" where
  "auth_do (AddUser n p) self = hev_socks5_authenticator_add self (hev_socks5_user_construct n (length n) p (length p))"
| "auth_do (DelUser n) self = hev_socks5_authenticator_del self n (length n)"

fun map_do :: "auth_cmd \<Rightarrow> (bytes \<Rightarrow> bytes option) \<Rightarrow> int \<times> (bytes \<Rightarrow> bytes option)" where
  "map_do (AddUser n p) m = (if m n = None then (0, m(n \<mapsto> p)) else (-1, m))"
| "map_do (DelUser n) m = (if m n = None then (-1, m) else (0, m(n := None)))"

fun auth_run :: "auth_cmd list \<Rightarrow> authenticator \<Rightarrow> (int list \<times> authenticator) option" where
  "auth_run [] self = Some ([], self)"
| "auth_run (c # cs) self =
     (case auth_do c self of
        None \<Rightarrow> None
      | Some (r, self') \<Rightarrow> map_option (\<lambda>(rs, self''). (r # rs, self'')) (auth_run cs self'))"

fun map_run :: "auth_cmd list \<Rightarrow> (bytes \<Rightarrow> bytes option) \<Rightarrow> int list \<times> (bytes \<Rightarrow> bytes option)" where
  "map_run [] m = ([], m)"
| "map_run (c # cs) m = (case map_do c m of (r, m') \<Rightarrow> case map_run cs m' of (rs, m'') \<Rightarrow> (r # rs, m''))"

lemma auth_do_map:
  assumes "auth_ok self"
  shows "\<exists>self'. auth_do c self = Some (fst (map_do c (passwords self)), self') \<and> auth_ok self'
     \<and> passwords self' = snd (map_do c (passwords self))"
proof (cases c)
  case (AddUser n p)
  with assms add_passwords [OF assms, of "\<lparr>uname = n, upass = p\<rparr>"] show ?thesis
    by (auto simp: hev_socks5_user_construct_def)
next
  case (DelUser n)
  with assms del_passwords [OF assms, of n "length n"] show ?thesis by (cases "passwords self n") auto
qed

lemma auth_run_map:
  "auth_ok self \<Longrightarrow> \<exists>self'. auth_run cs self = Some (fst (map_run cs (passwords self)), self') \<and> auth_ok self'
     \<and> passwords self' = snd (map_run cs (passwords self))"
proof (induction cs arbitrary: self)
  case (Cons c cs)
  obtain s1 where s1: "auth_do c self = Some (fst (map_do c (passwords self)), s1)" "auth_ok s1"
    "passwords s1 = snd (map_do c (passwords self))"
    using auth_do_map [OF Cons.prems] by blast
  with Cons.IH [OF s1(2)] show ?case by (auto split: prod.splits)
qed simp

text \<open>
  The authenticator is a map from user names to passwords.  Over any sequence of additions and
  deletions from the empty one, the return codes are those of the map (a name cannot be added
  twice, a missing one cannot be deleted), no null pointer is followed, and a later look-up
  finds exactly the password that the map has.
\<close>

theorem authenticator_refines_map:
  "\<exists>self. auth_run cs hev_socks5_authenticator_construct = Some (fst (map_run cs Map.empty), self)
    \<and> hev_socks5_authenticator_get self name n =
        map_option (\<lambda>p. \<lparr>uname = take n name, upass = p\<rparr>) (snd (map_run cs Map.empty) (take n name))"
proof -
  have e: "passwords hev_socks5_authenticator_construct = Map.empty"
    by (simp add: passwords_def hev_socks5_authenticator_construct_def)
  from auth_run_map [OF auth_ok_construct, of cs] show ?thesis
    unfolding e using get_passwords by metis
qed

text \<open>
  Clearing an authenticator ends after one turn per user, leaves it empty, and drops the reference
  to every user exactly once.
\<close>

theorem authenticator_clear_complete:
  assumes "auth_ok self"
  shows "\<exists>self'. hev_socks5_authenticator_clear self = Some self' \<and> atree self' = Null
    \<and> released self' = released self @ inorder (atree self) \<and> distinct (inorder (atree self))"
  using clear_loop_all [OF assms lessI] auth_distinct [OF assms]
  by (auto simp: hev_socks5_authenticator_clear_def distinct_map)

theorem authenticator_clear_complete_witness:
  "\<exists>self'. hev_socks5_authenticator_clear \<lparr>atree = Nd Black Null \<lparr>uname = [97], upass = [98]\<rparr> Null, released = []\<rparr> = Some self'
     \<and> released self' = [\<lparr>uname = [97], upass = [98]\<rparr>]"
proof -
  let ?a = "\<lparr>atree = Nd Black Null \<lparr>uname = [97], upass = [98]\<rparr> Null, released = []\<rparr>"
  have "auth_ok ?a" unfolding auth_ok_def rb_def by (intro conjI exI [of _ 1]) simp_all
  from authenticator_clear_complete [OF this] show ?thesis by auto
qed

end
