(* ===== verification/Socks5_Server.thy ===== *)
theory Socks5_Server
  imports Socks5_Net Socks5_Auth
begin

text \<open>
  The server side of the protocol: \<^verbatim>\<open>hev/src/core/src/hev-socks5-server.c\<close>.  The union of
  \<^verbatim>\<open>obj\<close>, \<^verbatim>\<open>user\<close> and \<^verbatim>\<open>auth\<close> is one optional object, \<open>s_obj\<close>; \<open>s_refs\<close> lists
  the references the server holds.  An operation gives \<open>None\<close> where the code would follow a null
  pointer or take a user for an authenticator.
\<close>

section \<open>State\<close>

datatype obj = OAuth authenticator | OUser user

record server = peer +
  s_fd0 :: int
  s_fd1 :: int
  s_obj :: "obj option"
  s_refs :: "obj list"

definition hev_socks5_server_construct :: "int \<Rightarrow> conn \<Rightarrow> int list \<Rightarrow> server" where
  "hev_socks5_server_construct fd c fds =
     hev_socks5.extend ((hev_socks5_construct TYPE_NONE)\<lparr>sk_fd := fd\<rparr>)
       \<lparr>sk_conn = c, sk_open = fds, s_fd0 = -1, s_fd1 = -1, s_obj = None, s_refs = []\<rparr>"

definition hev_socks5_server_set_auth :: "authenticator \<Rightarrow> server \<Rightarrow> server" where
  "hev_socks5_server_set_auth auth s =
     (let s1 = (case s_obj s of Some ob \<Rightarrow> s\<lparr>s_refs := remove1 ob (s_refs s)\<rparr> | None \<Rightarrow> s) in
      s1\<lparr>s_refs := OAuth auth # s_refs s1, s_obj := Some (OAuth auth)\<rparr>)"

definition hev_socks5_server_destruct :: "server \<Rightarrow> server" where
  "hev_socks5_server_destruct s =
     (let s1 = (if s_fd0 s \<ge> 0 then fd_close (s_fd0 s) s else s);
          s2 = (if s_fd1 s1 \<ge> 0 then fd_close (s_fd1 s1) s1 else s1);
          s3 = (case s_obj s2 of Some ob \<Rightarrow> s2\<lparr>s_refs := remove1 ob (s_refs s2)\<rparr> | None \<Rightarrow> s2) in
      hev_socks5_destruct s3)"

definition hev_socks5_server_get_fd :: "server \<Rightarrow> int" where
  "hev_socks5_server_get_fd s =
     (case sk_type s of TYPE_UDP_IN_TCP \<Rightarrow> sk_fd s | TYPE_UDP_IN_UDP \<Rightarrow> s_fd1 s | _ \<Rightarrow> -1)"

section \<open>Negotiation\<close>

text \<open>The choice among the offered methods, and the read of the list that precedes it.\<close>

definition server_choose :: "bytes \<Rightarrow> server \<Rightarrow> int \<times> server" where
  "server_choose methods s =
     (let method = (if s_obj s \<noteq> None then HEV_SOCKS5_AUTH_METHOD_USER else HEV_SOCKS5_AUTH_METHOD_NONE) in
      if method \<in> set methods then (uint method, s) else (-1, s))"

definition server_read_methods :: "u8 \<Rightarrow> server \<Rightarrow> int \<times> server" where
  "server_read_methods method_len s =
     (case sk_recv (unat method_len) s of (res, methods, s1) \<Rightarrow>
        if res \<noteq> uint method_len then (-1, s1) else server_choose methods s1)"

definition hev_socks5_server_read_auth_method :: "server \<Rightarrow> int \<times> server" where
  "hev_socks5_server_read_auth_method s =
     (case sk_recv 2 s of (res, auth, s1) \<Rightarrow>
        if res \<noteq> 2 then (-1, s1)
        else if auth ! 0 \<noteq> HEV_SOCKS5_VERSION_5 then (-1, s1)
        else server_read_methods (auth ! 1) s1)"

definition hev_socks5_server_write_auth_method :: "int \<Rightarrow> server \<Rightarrow> int \<times> server" where
  "hev_socks5_server_write_auth_method auth_method s =
     (case sk_send [HEV_SOCKS5_VERSION_5, word_of_int auth_method] s of
        (res, s1) \<Rightarrow> if res \<le> 0 then (-1, s1) else (0, s1))"

text \<open>
  Three stages of \<^verbatim>\<open>read_auth_user\<close>: the check of a name and password, the read of the
  password, the read of the name together with the password's length.
\<close>

definition server_check_user :: "bytes \<Rightarrow> nat \<Rightarrow> bytes \<Rightarrow> nat \<Rightarrow> server \<Rightarrow> (int \<times> server) option" where
  "server_check_user name nlen pass plen s =
     (case s_obj s of
        Some (OAuth auth) \<Rightarrow>
          (case hev_socks5_authenticator_get auth name nlen of
             None \<Rightarrow> Some (-1, s)
           | Some user \<Rightarrow>
               if hev_socks5_user_checker user pass plen < 0 then Some (-1, s)
               else Some (0, s\<lparr>s_refs := remove1 (OAuth auth) (OUser user # s_refs s),
                              s_obj := Some (OUser user)\<rparr>))
      | _ \<Rightarrow> None)"

definition server_read_pass :: "bytes \<Rightarrow> nat \<Rightarrow> nat \<Rightarrow> server \<Rightarrow> (int \<times> server) option" where
  "server_read_pass name nlen plen s =
     (case sk_recv plen s of (res, pass, s1) \<Rightarrow>
        if res \<noteq> int plen then Some (-1, s1) else server_check_user name nlen pass plen s1)"

definition server_read_name :: "nat \<Rightarrow> server \<Rightarrow> (int \<times> server) option" where
  "server_read_name nlen s =
     (case sk_recv (nlen + 1) s of (res, name, s1) \<Rightarrow>
        if res \<noteq> int (nlen + 1) then Some (-1, s1)
        else if name ! nlen = 0 then Some (-1, s1)
        else server_read_pass name nlen (unat (name ! nlen)) s1)"

definition hev_socks5_server_read_auth_user :: "server \<Rightarrow> (int \<times> server) option" where
  "hev_socks5_server_read_auth_user s =
     (case sk_recv 2 s of (res, head, s1) \<Rightarrow>
        if res \<noteq> 2 then Some (-1, s1)
        else if head ! 0 \<noteq> 1 then Some (-1, s1)
        else if head ! 1 = 0 then Some (-1, s1)
        else server_read_name (unat (head ! 1)) s1)"

definition hev_socks5_server_write_auth_user :: "int \<Rightarrow> server \<Rightarrow> int \<times> server" where
  "hev_socks5_server_write_auth_user auth_res s =
     (case sk_send [1, word_of_int auth_res] s of
        (res, s1) \<Rightarrow> if res \<le> 0 then (-1, s1) else (0, s1))"

definition hev_socks5_server_auth :: "server \<Rightarrow> (int \<times> server) option" where
  "hev_socks5_server_auth s =
     (case hev_socks5_server_read_auth_method s of (method, s1) \<Rightarrow>
      case hev_socks5_server_write_auth_method method s1 of (res, s2) \<Rightarrow>
        if res < 0 then Some (-1, s2)
        else if method = uint HEV_SOCKS5_AUTH_METHOD_NONE then Some (0, s2)
        else if method = uint HEV_SOCKS5_AUTH_METHOD_USER
        then case hev_socks5_server_read_auth_user s2 of
            None \<Rightarrow> None
          | Some (res, s3) \<Rightarrow>
              (case hev_socks5_server_write_auth_user res s3 of (res', s4) \<Rightarrow>
                 if res OR res' < 0 then Some (-1, s4) else Some (0, s4))
        else Some (-1, s2))"

section \<open>Requests\<close>

text \<open>
  \<^verbatim>\<open>read_request\<close> returns its code, the command and the reply code it writes through its
  pointers (the command only where it is set), the socket address and the state.
\<close>

record request =
  rq_cmd :: "u8 option"
  rq_rep :: u8
  rq_addr :: sockaddr6

definition request_init :: request where
  "request_init = \<lparr>rq_cmd = None, rq_rep = HEV_SOCKS5_RES_REP_SUCC, rq_addr = sockaddr6_zero\<rparr>"

definition server_read_addr ::
    "resolver \<Rightarrow> bytes \<Rightarrow> nat \<Rightarrow> server \<Rightarrow> request \<Rightarrow> (int \<times> request \<times> server) option" where
  "server_read_addr R req addrlen s q =
     (case sk_recv addrlen s of (res, rest, s1) \<Rightarrow>
        if res \<noteq> int addrlen then Some (0, q\<lparr>rq_rep := HEV_SOCKS5_RES_REP_ADDR\<rparr>, s1)
        else case hev_socks5_addr_into_sockaddr6 R (req ! 3 # req ! 4 # rest) (rq_addr q)
                    (hev_socks5_get_addr_family s1) of
            None \<Rightarrow> None
          | Some (res, addr, fam) \<Rightarrow>
              if res < 0 then Some (0, q\<lparr>rq_rep := HEV_SOCKS5_RES_REP_ADDR, rq_addr := addr\<rparr>, s1)
              else Some (0, q\<lparr>rq_cmd := Some (req ! 1), rq_addr := addr\<rparr>,
                         hev_socks5_set_addr_family fam s1))"

definition hev_socks5_server_read_request ::
    "resolver \<Rightarrow> server \<Rightarrow> request \<Rightarrow> (int \<times> request \<times> server) option" where
  "hev_socks5_server_read_request R s q =
     (case sk_recv 5 s of (res, req, s1) \<Rightarrow>
        if res \<noteq> 5 then Some (-1, q, s1)
        else if req ! 0 \<noteq> HEV_SOCKS5_VERSION_5
        then Some (0, q\<lparr>rq_rep := HEV_SOCKS5_RES_REP_FAIL\<rparr>, s1)
        else if req ! 3 = HEV_SOCKS5_ADDR_TYPE_IPV4 then server_read_addr R req 5 s1 q
        else if req ! 3 = HEV_SOCKS5_ADDR_TYPE_IPV6 then server_read_addr R req 17 s1 q
        else if req ! 3 = HEV_SOCKS5_ADDR_TYPE_NAME then server_read_addr R req (2 + unat (req ! 4)) s1 q
        else Some (0, q\<lparr>rq_rep := HEV_SOCKS5_RES_REP_ADDR\<rparr>, s1))"

definition hev_socks5_server_write_response :: "u8 \<Rightarrow> sockaddr6 \<Rightarrow> server \<Rightarrow> int \<times> server" where
  "hev_socks5_server_write_response rep addr s =
     (case hev_socks5_addr_from_sockaddr6 addr of (a, len) \<Rightarrow>
      case sk_send (take (nat (3 + len)) ([HEV_SOCKS5_VERSION_5, rep, 0] @ a)) s of
        (res, s1) \<Rightarrow> if res \<le> 0 then (-1, s1) else (0, s1))"

definition hev_socks5_server_connect ::
    "timeouts \<Rightarrow> net \<Rightarrow> sockaddr6 \<Rightarrow> server \<Rightarrow> int \<times> server" where
  "hev_socks5_server_connect G N addr s =
     (case hev_socks5_socket N SOCK_STREAM s of (fd, s1) \<Rightarrow>
        if fd < 0 then (-1, s1)
        else if nbinder N fd addr < 0 then (-1, fd_close fd s1)
        else let s2 = hev_socks5_set_timeout (connect_timeout G) s1 in
          if nconnect N fd addr < 0 then (-1, fd_close fd s2)
          else (0, (hev_socks5_set_timeout (tcp_timeout G) s2)\<lparr>s_fd0 := fd\<rparr>))"

definition hev_socks5_server_udp_bind :: "net \<Rightarrow> int \<Rightarrow> sockaddr6 \<Rightarrow> server \<Rightarrow> int \<times> sockaddr6" where
  "hev_socks5_server_udp_bind N sock src s =
     (case ngetsockname N (sk_fd s) of
        None \<Rightarrow> (-1, src)
      | Some a \<Rightarrow>
          let a1 = a\<lparr>sin6_port := 0\<rparr> in
          if nbind N sock a1 < 0 then (-1, a1)
          else case ngetsockname N sock of None \<Rightarrow> (-1, a1) | Some b \<Rightarrow> (0, b))"

text \<open>\<open>None\<close> for the null address of a forwarding request.\<close>

definition hev_socks5_server_bind ::
    "net \<Rightarrow> sockaddr6 option \<Rightarrow> server \<Rightarrow> int \<times> sockaddr6 option \<times> server" where
  "hev_socks5_server_bind N addr s =
     (case hev_socks5_socket N SOCK_DGRAM s of (fd, s1) \<Rightarrow>
        if fd < 0 then (-1, addr, s1)
        else let s2 = s1\<lparr>s_fd0 := fd\<rparr> in
          case addr of
            None \<Rightarrow> (0, None, s2)
          | Some a \<Rightarrow>
              (case hev_socks5_socket N SOCK_DGRAM s2 of (fd1, s3) \<Rightarrow>
                 if fd1 < 0 then (-1, Some a, s3)
                 else if nreuse N fd1 < 0 then (-1, Some a, fd_close fd1 s3)
                 else case hev_socks5_server_udp_bind N fd1 a s3 of (res, a') \<Rightarrow>
                   if res < 0 then (-1, Some a', fd_close fd1 s3)
                   else (0, Some a', s3\<lparr>s_fd1 := fd1\<rparr>)))"

text \<open>The \<^verbatim>\<open>switch\<close> of the handshake on the command of an acceptable request.\<close>

definition server_command :: "timeouts \<Rightarrow> net \<Rightarrow> u8 \<Rightarrow> request \<Rightarrow> server \<Rightarrow> request \<times> server" where
  "server_command G N cmd q s =
     (if cmd = HEV_SOCKS5_REQ_CMD_CONNECT
      then (case hev_socks5_server_connect G N (rq_addr q) s of (res, s1) \<Rightarrow>
              (if res < 0 then q\<lparr>rq_rep := HEV_SOCKS5_RES_REP_HOST\<rparr> else q, s1\<lparr>sk_type := TYPE_TCP\<rparr>))
      else if cmd = HEV_SOCKS5_REQ_CMD_UDP_ASC
      then (case hev_socks5_server_bind N (Some (rq_addr q)) s of (res, a, s1) \<Rightarrow>
              let q1 = (case a of Some b \<Rightarrow> q\<lparr>rq_addr := b\<rparr> | None \<Rightarrow> q) in
              (if res < 0 then q1\<lparr>rq_rep := HEV_SOCKS5_RES_REP_FAIL\<rparr> else q1,
               s1\<lparr>sk_type := TYPE_UDP_IN_UDP\<rparr>))
      else if cmd = HEV_SOCKS5_REQ_CMD_FWD_UDP
      then (case hev_socks5_server_bind N None s of (res, a, s1) \<Rightarrow>
              (if res < 0 then q\<lparr>rq_rep := HEV_SOCKS5_RES_REP_FAIL\<rparr> else q,
               s1\<lparr>sk_type := TYPE_UDP_IN_TCP\<rparr>))
      else (q\<lparr>rq_rep := HEV_SOCKS5_RES_REP_IMPL\<rparr>, s))"

definition hev_socks5_server_handshake ::
    "timeouts \<Rightarrow> resolver \<Rightarrow> net \<Rightarrow> server \<Rightarrow> (int \<times> server) option" where
  "hev_socks5_server_handshake G R N s0 =
     (let s = hev_socks5_set_timeout (tcp_timeout G) s0 in
      on_ok (hev_socks5_server_auth s) (\<lambda>_ s1.
      case hev_socks5_server_read_request R s1 request_init of
        None \<Rightarrow> None
      | Some (res, q, s2) \<Rightarrow>
          if res < 0 then Some (-1, s2)
          else case (if rq_rep q = HEV_SOCKS5_RES_REP_SUCC
                     then (case rq_cmd q of None \<Rightarrow> None | Some cmd \<Rightarrow> Some (server_command G N cmd q s2))
                     else Some (q, s2)) of
              None \<Rightarrow> None
            | Some (q1, s3) \<Rightarrow>
                (case hev_socks5_server_write_response (rq_rep q1) (rq_addr q1) s3 of (res, s4) \<Rightarrow>
                   if res < 0 \<or> rq_rep q1 \<noteq> HEV_SOCKS5_RES_REP_SUCC then Some (-1, s4) else Some (0, s4))))"

text \<open>
  The service phase is the splice of the session's two descriptors, given here by the two
  splicers as parameters (\<^verbatim>\<open>hev_socks5_tcp_splice\<close>, \<^verbatim>\<open>hev_socks5_udp_splice\<close>).
\<close>

definition hev_socks5_server_service ::
    "timeouts \<Rightarrow> (int \<Rightarrow> server \<Rightarrow> server) \<Rightarrow> (int \<Rightarrow> server \<Rightarrow> server) \<Rightarrow> server \<Rightarrow> (int \<times> server) option" where
  "hev_socks5_server_service G tcp_splice udp_splice s =
     (case sk_type s of
        TYPE_TCP \<Rightarrow> Some (0, tcp_splice (s_fd0 s) s)
      | TYPE_NONE \<Rightarrow> Some (-1, s)
      | _ \<Rightarrow> let s1 = hev_socks5_set_timeout (udp_timeout G) s in Some (0, udp_splice (s_fd0 s1) s1))"

definition hev_socks5_server_run ::
    "timeouts \<Rightarrow> resolver \<Rightarrow> net \<Rightarrow> (int \<Rightarrow> server \<Rightarrow> server) \<Rightarrow> (int \<Rightarrow> server \<Rightarrow> server) \<Rightarrow> server
       \<Rightarrow> (int \<times> server) option" where
  "hev_socks5_server_run G R N tcp_splice udp_splice s =
     on_ok (hev_socks5_server_handshake G R N s) (\<lambda>_ s1.
     on_ok (hev_socks5_server_service G tcp_splice udp_splice s1) (\<lambda>_ s2. Some (0, s2)))"

section \<open>Authentication as a function of the peer's bytes\<close>

text \<open>
  The length of acceptable credentials at the head of the stream, for a map from names to
  passwords, and the outcome of the whole negotiation: the bytes answered and, on success, the
  bytes consumed.  \<open>None\<close> for the map means a server without authenticator.
\<close>

definition creds_part :: "(bytes \<Rightarrow> bytes option) \<Rightarrow> bytes \<Rightarrow> nat option" where
  "creds_part pw inp =
     (case inp of
        v # nl # r \<Rightarrow>
          if v = 1 \<and> nl \<noteq> 0 \<and> unat nl < length r \<and> r ! unat nl \<noteq> 0
            \<and> unat (r ! unat nl) \<le> length (drop (unat nl + 1) r)
            \<and> pw (take (unat nl) r) = Some (take (unat (r ! unat nl)) (drop (unat nl + 1) r))
          then Some (2 + (unat nl + 1 + unat (r ! unat nl))) else None
      | _ \<Rightarrow> None)"

definition method_part :: "u8 \<Rightarrow> bytes \<Rightarrow> nat option" where
  "method_part m inp =
     (case inp of
        v # n # r \<Rightarrow> if v = 5 \<and> unat n \<le> length r \<and> m \<in> set (take (unat n) r) then Some (2 + unat n) else None
      | _ \<Rightarrow> None)"

definition srv_auth :: "(bytes \<Rightarrow> bytes option) option \<Rightarrow> bytes \<Rightarrow> bytes \<times> nat option" where
  "srv_auth pw inp =
     (case pw of
        None \<Rightarrow>
          (case method_part 0 inp of None \<Rightarrow> ([5, 255], None) | Some i \<Rightarrow> ([5, 0], Some i))
      | Some m \<Rightarrow>
          (case method_part 2 inp of None \<Rightarrow> ([5, 255], None)
           | Some i \<Rightarrow>
               (case creds_part m (drop i inp) of
                  None \<Rightarrow> ([5, 2, 1, 255], None)
                | Some j \<Rightarrow> ([5, 2, 1, 0], Some (i + j)))))"

lemma server_only_conn:
  assumes "only_conn s s'"
  shows "s_obj s' = s_obj s" "s_refs s' = s_refs s" "s_fd0 s' = s_fd0 s" "s_fd1 s' = s_fd1 s"
proof -
  have e: "s' = s\<lparr>sk_conn := sk_conn s'\<rparr>" using assms by (simp add: only_conn_def)
  show "s_obj s' = s_obj s" "s_refs s' = s_refs s" "s_fd0 s' = s_fd0 s" "s_fd1 s' = s_fd1 s"
    by (subst e, simp)+
qed

lemma s_only: "io i bs s s' \<Longrightarrow> only_conn s s'" "quiet s s' \<Longrightarrow> only_conn s s'"
  by (simp_all add: io_def quiet_def)

definition srv_method :: "server \<Rightarrow> u8" where
  "srv_method s = (if s_obj s = None then 0 else 2)"

lemma read_methods_spec:
  "read_spec s (if unat n \<le> length (inflow s) \<and> srv_method s \<in> set (take (unat n) (inflow s)) then Some (unat n) else None)
     (uint (srv_method s)) (server_read_methods n s)"
  unfolding server_read_methods_def
proof (rule recv_bind)
  fix s'
  assume "unat n \<le> length (inflow s)" "io (unat n) [] s s'"
  then show "read_spec s (if unat n \<le> length (inflow s) \<and> srv_method s \<in> set (take (unat n) (inflow s)) then Some (unat n) else None)
      (uint (srv_method s))
      (if int (unat n) \<noteq> uint n then (-1, s') else server_choose (take (unat n) (inflow s)) s')"
    using server_only_conn(1) [of s s'] by (simp add: server_choose_def srv_method_def io_quiet s_only)
qed auto

lemma read_method_spec:
  "read_spec s (method_part (srv_method s) (inflow s)) (uint (srv_method s)) (hev_socks5_server_read_auth_method s)"
  unfolding hev_socks5_server_read_auth_method_def
proof (rule recv_bind)
  fix s1
  assume l: "2 \<le> length (inflow s)" and io1: "io 2 [] s s1"
  obtain v n r where i: "inflow s = v # n # r" using l by (cases rule: two_cases [of "inflow s"]) auto
  have s1: "inflow s1 = r" "srv_method s1 = srv_method s"
    using io1 i server_only_conn(1) [OF s_only(1) [OF io1]] by (simp_all add: io_def srv_method_def)
  show "read_spec s (method_part (srv_method s) (inflow s)) (uint (srv_method s))
      (if int 2 \<noteq> 2 then (-1, s1)
       else if take 2 (inflow s) ! 0 \<noteq> HEV_SOCKS5_VERSION_5 then (-1, s1)
       else server_read_methods (take 2 (inflow s) ! 1) s1)"
    using read_spec_after [OF io1 read_methods_spec [of s1 n]] io_quiet [OF io1]
    by (auto simp: i s1 method_part_def)
next
  fix res buf s1
  assume "length (inflow s) < 2" "res \<noteq> int 2" "quiet s s1"
  then show "read_spec s (method_part (srv_method s) (inflow s)) (uint (srv_method s))
      (if res \<noteq> 2 then (-1, s1) else if buf ! 0 \<noteq> HEV_SOCKS5_VERSION_5 then (-1, s1)
       else server_read_methods (buf ! 1) s1)"
    by (cases rule: two_cases [of "inflow s"]) (auto simp: method_part_def)
qed

text \<open>After a successful check the reference to the authenticator is exchanged for one to the user.\<close>

definition with_user :: "authenticator \<Rightarrow> user \<Rightarrow> server \<Rightarrow> server" where
  "with_user a u s = s\<lparr>s_refs := remove1 (OAuth a) (OUser u # s_refs s), s_obj := Some (OUser u)\<rparr>"

definition user_spec :: "authenticator \<Rightarrow> server \<Rightarrow> nat option \<Rightarrow> (int \<times> server) option \<Rightarrow> bool" where
  "user_spec a s part out \<longleftrightarrow>
     (case out of None \<Rightarrow> False
      | Some (res, s') \<Rightarrow>
          (case part of None \<Rightarrow> res = -1 \<and> quiet s s'
           | Some i \<Rightarrow> res = 0 \<and> (\<exists>s'' u. u \<in> users a \<and> io i [] s s'' \<and> s' = with_user a u s'')))"

lemma user_spec_simps [simp]:
  "user_spec a s None (Some (res, s')) \<longleftrightarrow> res = -1 \<and> quiet s s'"
  by (simp add: user_spec_def)

lemma user_spec_after:
  assumes "io i [] s s1" "user_spec a s1 part out"
  shows "user_spec a s (map_option ((+) i) part) out"
  using assms(2) io_trans [OF assms(1), of _ "[]"] quiet_trans [OF io_quiet [OF assms(1)]]
  by (fastforce simp: user_spec_def split: option.splits)

lemma check_user_spec:
  assumes "s_obj s = Some (OAuth a)" "auth_ok a" "length pass = plen"
  shows "user_spec a s (if passwords a (take nlen name) = Some pass then Some 0 else None)
     (server_check_user name nlen pass plen s)"
proof (cases "passwords a (take nlen name)")
  case None
  with assms show ?thesis by (simp add: server_check_user_def get_passwords)
next
  case (Some p)
  let ?u = "\<lparr>uname = take nlen name, upass = p\<rparr>"
  have "hev_socks5_authenticator_get a name nlen = Some ?u" using Some assms(2) by (simp add: get_passwords)
  moreover have "?u \<in> users a" using Some passwords_Some [OF assms(2)] by simp
  moreover have "hev_socks5_user_checker ?u pass plen < 0 \<longleftrightarrow> p \<noteq> pass"
    using checker_zero [of plen pass ?u] assms(3) by (auto simp: hev_socks5_user_checker_def)
  ultimately show ?thesis
    using Some assms by (auto simp: server_check_user_def user_spec_def with_user_def intro!: exI [of _ s])
qed

lemma read_pass_spec:
  assumes "s_obj s = Some (OAuth a)" "auth_ok a"
  shows "user_spec a s (if plen \<le> length (inflow s) \<and> passwords a (take nlen name) = Some (take plen (inflow s))
      then Some plen else None) (server_read_pass name nlen plen s)"
  unfolding server_read_pass_def
proof (rule recv_bind)
  fix s1
  assume l: "plen \<le> length (inflow s)" and io1: "io plen [] s s1"
  have "s_obj s1 = Some (OAuth a)" using assms(1) server_only_conn(1) [OF s_only(1) [OF io1]] by simp
  then show "user_spec a s (if plen \<le> length (inflow s) \<and> passwords a (take nlen name) = Some (take plen (inflow s))
      then Some plen else None)
     (if int plen \<noteq> int plen then Some (-1, s1) else server_check_user name nlen (take plen (inflow s)) plen s1)"
    using user_spec_after [OF io1 check_user_spec [of s1 a "take plen (inflow s)" plen nlen name]] l assms(2)
    by (simp split: if_splits)
qed auto

text \<open>The name with its trailing length byte, then the password.\<close>

definition name_part :: "(bytes \<Rightarrow> bytes option) \<Rightarrow> nat \<Rightarrow> bytes \<Rightarrow> nat option" where
  "name_part pw nlen r =
     (if nlen < length r \<and> r ! nlen \<noteq> 0 \<and> unat (r ! nlen) \<le> length (drop (nlen + 1) r)
       \<and> pw (take nlen r) = Some (take (unat (r ! nlen)) (drop (nlen + 1) r))
      then Some (nlen + 1 + unat (r ! nlen)) else None)"

lemma read_name_spec:
  assumes "s_obj s = Some (OAuth a)" "auth_ok a"
  shows "user_spec a s (name_part (passwords a) nlen (inflow s)) (server_read_name nlen s)"
  unfolding server_read_name_def
proof (rule recv_bind)
  fix s1
  assume l: "nlen + 1 \<le> length (inflow s)" and io1: "io (nlen + 1) [] s s1"
  have o: "s_obj s1 = Some (OAuth a)" using assms(1) server_only_conn(1) [OF s_only(1) [OF io1]] by simp
  have i: "inflow s1 = drop (nlen + 1) (inflow s)" "take (nlen + 1) (inflow s) ! nlen = inflow s ! nlen"
    "take nlen (take (nlen + 1) (inflow s)) = take nlen (inflow s)"
    using io1 by (simp_all add: io_def min_def)
  show "user_spec a s (name_part (passwords a) nlen (inflow s))
     (if int (nlen + 1) \<noteq> int (nlen + 1) then Some (-1, s1)
      else if take (nlen + 1) (inflow s) ! nlen = 0 then Some (-1, s1)
      else server_read_pass (take (nlen + 1) (inflow s)) nlen (unat (take (nlen + 1) (inflow s) ! nlen)) s1)"
    using user_spec_after [OF io1 read_pass_spec [OF o assms(2), of "unat (inflow s ! nlen)" nlen "take (nlen + 1) (inflow s)"]]
      io_quiet [OF io1] l
    unfolding i by (auto simp: name_part_def)
qed (auto simp: name_part_def)

lemma creds_name_part:
  "creds_part pw (v # nl # r) = (if v = 1 \<and> nl \<noteq> 0 then map_option ((+) 2) (name_part pw (unat nl) r) else None)"
  by (auto simp: creds_part_def name_part_def)

lemma read_user_spec:
  assumes "s_obj s = Some (OAuth a)" "auth_ok a"
  shows "user_spec a s (creds_part (passwords a) (inflow s)) (hev_socks5_server_read_auth_user s)"
  unfolding hev_socks5_server_read_auth_user_def
proof (rule recv_bind)
  fix s1
  assume l: "2 \<le> length (inflow s)" and io1: "io 2 [] s s1"
  obtain v n r where i: "inflow s = v # n # r" using l by (cases rule: two_cases [of "inflow s"]) auto
  have o: "s_obj s1 = Some (OAuth a)" using assms(1) server_only_conn(1) [OF s_only(1) [OF io1]] by simp
  have i1: "inflow s1 = r" using io1 i by (simp add: io_def)
  show "user_spec a s (creds_part (passwords a) (inflow s))
     (if int 2 \<noteq> 2 then Some (-1, s1) else if take 2 (inflow s) ! 0 \<noteq> 1 then Some (-1, s1)
      else if take 2 (inflow s) ! 1 = 0 then Some (-1, s1)
      else server_read_name (unat (take 2 (inflow s) ! 1)) s1)"
    using user_spec_after [OF io1 read_name_spec [OF o assms(2), of "unat n"]] io_quiet [OF io1]
    unfolding i i1 by (simp add: creds_name_part)
next
  fix res buf s1
  assume "length (inflow s) < 2" "res \<noteq> int 2" "quiet s s1"
  then show "user_spec a s (creds_part (passwords a) (inflow s))
     (if res \<noteq> 2 then Some (-1, s1) else if buf ! 0 \<noteq> 1 then Some (-1, s1)
      else if buf ! 1 = 0 then Some (-1, s1) else server_read_name (unat (buf ! 1)) s1)"
    by (cases rule: two_cases [of "inflow s"]) (auto simp: creds_part_def)
qed

section \<open>The negotiation as a whole\<close>

definition auth_map :: "server \<Rightarrow> (bytes \<Rightarrow> bytes option) option" where
  "auth_map s = (case s_obj s of Some (OAuth a) \<Rightarrow> Some (passwords a) | _ \<Rightarrow> None)"

definition obj_ok :: "server \<Rightarrow> bool" where
  "obj_ok s \<longleftrightarrow> (case s_obj s of None \<Rightarrow> True | Some (OAuth a) \<Rightarrow> auth_ok a | Some (OUser u) \<Rightarrow> False)"

definition auth_spec :: "server \<Rightarrow> bytes \<times> nat option \<Rightarrow> (int \<times> server) option \<Rightarrow> bool" where
  "auth_spec s ans out \<longleftrightarrow>
     (case out of None \<Rightarrow> False
      | Some (res, s') \<Rightarrow>
          outs s' = outs s @ fst ans \<and>
          (case snd ans of
             None \<Rightarrow> res = -1 \<and> only_conn s s'
           | Some i \<Rightarrow> res = 0 \<and> (\<exists>s''. io i (fst ans) s s'' \<and>
               (case s_obj s of Some (OAuth a) \<Rightarrow> \<exists>u\<in>users a. s' = with_user a u s'' | _ \<Rightarrow> s' = s''))))"

lemma with_user_simps [simp]:
  "inflow (with_user a u s) = inflow s" "outs (with_user a u s) = outs s"
  "clear_out (with_user a u s) = clear_out s"
  "sk_conn (with_user a u s) = sk_conn s" "sk_yield (with_user a u s) = sk_yield s"
  by (simp_all add: with_user_def inflow_def outs_def clear_out_def sk_yield_fun)

lemma sk_send_with_user:
  "sk_send buf (with_user a u s) = (case sk_send buf s of (r, s') \<Rightarrow> (r, with_user a u s'))"
  by (simp add: sk_send_def with_user_def sk_yield_fun split: prod.splits)

lemma write_method_ok:
  assumes "clear_out s"
  obtains s' where "hev_socks5_server_write_auth_method m s = (0, s')" "io 0 [5, word_of_int m] s s'"
proof -
  obtain s' where "sk_send [5, word_of_int m] s = (2, s')" "io 0 [5, word_of_int m] s s'"
    using sk_send_all [OF assms, of "[5, word_of_int m]"] by auto
  then show ?thesis by (intro that [of s']) (simp_all add: hev_socks5_server_write_auth_method_def)
qed

lemma write_user_ok:
  assumes "clear_out s"
  obtains s' where "hev_socks5_server_write_auth_user m s = (0, s')"
    "hev_socks5_server_write_auth_user m (with_user a u s) = (0, with_user a u s')"
    "io 0 [1, word_of_int m] s s'"
proof -
  obtain s' where "sk_send [1, word_of_int m] s = (2, s')" "io 0 [1, word_of_int m] s s'"
    using sk_send_all [OF assms, of "[1, word_of_int m]"] by auto
  then show ?thesis
    by (intro that [of s']) (simp_all add: hev_socks5_server_write_auth_user_def sk_send_with_user)
qed

text \<open>The part of \<^verbatim>\<open>hev_socks5_server_auth\<close> for the user method.\<close>

lemma auth_user_tail:
  assumes "s_obj s = Some (OAuth a)" "auth_ok a" "clear_out s"
  shows "auth_spec s (case creds_part (passwords a) (inflow s) of None \<Rightarrow> ([1, 255], None) | Some j \<Rightarrow> ([1, 0], Some j))
     (case hev_socks5_server_read_auth_user s of None \<Rightarrow> None
      | Some (res, s3) \<Rightarrow>
          (case hev_socks5_server_write_auth_user res s3 of (res', s4) \<Rightarrow>
             if res OR res' < 0 then Some (-1, s4) else Some (0, s4)))"
proof -
  obtain res s3 where r: "hev_socks5_server_read_auth_user s = Some (res, s3)"
    and u: "user_spec a s (creds_part (passwords a) (inflow s)) (Some (res, s3))"
    using read_user_spec [OF assms(1,2)]
    by (cases "hev_socks5_server_read_auth_user s") (auto simp: user_spec_def)
  show ?thesis
  proof (cases "creds_part (passwords a) (inflow s)")
    case None
    with u have q: "res = -1" "quiet s s3" by simp_all
    then have "clear_out s3" using assms(3) by (simp add: quiet_def)
    then obtain s4 where s4: "hev_socks5_server_write_auth_user (-1) s3 = (0, s4)" "io 0 [1, 255] s3 s4"
      using write_user_ok [of s3 "-1"] by (metis word_of_int_neg_1 minus_one_word_u8)
    have "only_conn s s4" using q(2) s4(2) by (auto simp: quiet_def io_def intro: only_conn_trans)
    then show ?thesis
      using None r q s4 by (simp add: auth_spec_def quiet_def io_def)
  next
    case (Some j)
    with u obtain s'' v where v: "res = 0" "v \<in> users a" "io j [] s s''" "s3 = with_user a v s''"
      by (auto simp: user_spec_def)
    then have "clear_out s''" using assms(3) by (simp add: io_def)
    then obtain s4 where s4: "hev_socks5_server_write_auth_user 0 (with_user a v s'') = (0, with_user a v s4)"
      "io 0 [1, 0] s'' s4"
      using write_user_ok [of s'' 0 a v] by (metis word_of_int_0)
    have "io j [1, 0] s s4" using io_trans [OF v(3) s4(2)] by simp
    with Some r v s4 assms(1) show ?thesis by (auto simp: auth_spec_def io_def)
  qed
qed

lemma auth_spec_after:
  assumes "io i bs s s1" "auth_spec s1 (cs, part) out"
  shows "auth_spec s (bs @ cs, map_option ((+) i) part) out"
proof -
  obtain res s' where o: "out = Some (res, s')" using assms(2) by (cases out) (auto simp: auth_spec_def)
  have s1: "s_obj s1 = s_obj s" "s_refs s1 = s_refs s" "outs s1 = outs s @ bs"
    using assms(1) server_only_conn [OF s_only(1) [OF assms(1)]] by (simp_all add: io_def)
  show ?thesis
  proof (cases part)
    case None
    with assms o s1 show ?thesis by (auto simp: auth_spec_def io_def intro: only_conn_trans)
  next
    case (Some j)
    with assms(2) o s1 obtain s'' where "io j cs s1 s''" "res = 0" "outs s' = outs s @ bs @ cs"
      "case s_obj s of Some (OAuth a) \<Rightarrow> \<exists>u\<in>users a. s' = with_user a u s'' | _ \<Rightarrow> s' = s''"
      by (simp add: auth_spec_def) blast
    with Some o io_trans [OF assms(1), of j cs s''] show ?thesis by (auto simp: auth_spec_def)
  qed
qed

lemma server_auth_spec:
  assumes "clear_out s" "obj_ok s"
  shows "auth_spec s (srv_auth (auth_map s) (inflow s)) (hev_socks5_server_auth s)"
proof -
  let ?m = "srv_method s"
  obtain res s1 where r: "hev_socks5_server_read_auth_method s = (res, s1)" by fastforce
  have rs: "read_spec s (method_part ?m (inflow s)) (uint ?m) (res, s1)"
    using read_method_spec [of s] r by simp
  then have q: "quiet s s1" by (simp add: read_spec_def)
  then have "clear_out s1" using assms(1) by (simp add: quiet_def)
  then obtain s2 where s2: "hev_socks5_server_write_auth_method res s1 = (0, s2)" "io 0 [5, word_of_int res] s1 s2"
    by (rule write_method_ok)
  have s12: "only_conn s s2" using q s2(2) by (auto simp: quiet_def io_def intro: only_conn_trans)
  show ?thesis
  proof (cases "method_part ?m (inflow s)")
    case None
    with rs have "res = -1" by simp
    with None r s2 q s12 assms(2) show ?thesis
      by (auto simp: hev_socks5_server_auth_def auth_spec_def srv_auth_def auth_map_def srv_method_def obj_ok_def
          quiet_def io_def split: option.splits obj.splits)
  next
    case (Some i)
    with rs have m: "res = uint ?m" "io i [] s s1" by simp_all
    have io2: "io i [5, ?m] s s2" using io_trans [OF m(2) s2(2)] m(1) by simp
    have s2': "s_obj s2 = s_obj s" "inflow s2 = drop i (inflow s)" "clear_out s2"
      using server_only_conn(1) [OF s12] io2 assms(1) by (simp_all add: io_def)
    show ?thesis
    proof (cases "s_obj s")
      case None
      with Some r s2(1) m io2 show ?thesis
        by (simp add: hev_socks5_server_auth_def auth_spec_def srv_auth_def auth_map_def srv_method_def io_def)
    next
      case (Some ob)
      then obtain a where a: "s_obj s = Some (OAuth a)" "auth_ok a"
        using assms(2) by (cases ob) (auto simp: obj_ok_def)
      have t: "srv_auth (auth_map s) (inflow s) =
          (case creds_part (passwords a) (drop i (inflow s)) of None \<Rightarrow> ([5, 2, 1, 255], None)
           | Some j \<Rightarrow> ([5, 2, 1, 0], Some (i + j)))"
        using a \<open>method_part ?m (inflow s) = Some i\<close> by (simp add: srv_auth_def auth_map_def srv_method_def)
      have "hev_socks5_server_auth s = (case hev_socks5_server_read_auth_user s2 of None \<Rightarrow> None
          | Some (res, s3) \<Rightarrow> (case hev_socks5_server_write_auth_user res s3 of (res', s4) \<Rightarrow>
              if res OR res' < 0 then Some (-1, s4) else Some (0, s4)))"
        using r s2(1) m a by (simp add: hev_socks5_server_auth_def srv_method_def)
      moreover have "?m = 2" using a by (simp add: srv_method_def)
      ultimately show ?thesis
        using auth_spec_after [OF io2] auth_user_tail [of s2 a] a s2' unfolding t
        by (fastforce split: option.splits)
    qed
  qed
qed

section \<open>Requests and replies\<close>

lemma write_response_ok:
  assumes "clear_out s" "length (sin6_addr a) = 16"
  obtains s' where "hev_socks5_server_write_response rep a s = (0, s')"
    "io 0 ([5, rep, 0] @ enc_dest (sockaddr_dest a)) s s'"
proof -
  obtain s' where "sk_send ([5, rep, 0] @ enc_dest (sockaddr_dest a)) s
      = (3 + int (length (enc_dest (sockaddr_dest a))), s')"
    "io 0 ([5, rep, 0] @ enc_dest (sockaddr_dest a)) s s'"
    using sk_send_all [OF assms(1), of "[5, rep, 0] @ enc_dest (sockaddr_dest a)"] by auto
  with that [of s'] from_sockaddr6_enc(1) [OF assms(2)] show ?thesis
    by (simp add: hev_socks5_server_write_response_def nat_add_distrib)
qed

lemma read_addr_enc:
  assumes "req ! 3 # req ! 4 # take n (inflow s) = enc_dest d" "n \<le> length (inflow s)" "dest_wf d"
    "dest_sockaddr R d (sk_addr_family s) = Some (sa, fam)"
  obtains s' where "server_read_addr R req n s q
      = Some (0, q\<lparr>rq_cmd := Some (req ! 1), rq_addr := sa\<rparr>, hev_socks5_set_addr_family fam s')" "io n [] s s'"
proof (cases rule: sk_recv_any [of n s])
  case (1 s')
  have f: "sk_addr_family s' = sk_addr_family s" using only_conn_fields(5) [OF s_only(1) [OF 1(3)]] .
  have "hev_socks5_addr_into_sockaddr6 R (enc_dest d) (rq_addr q) (sk_addr_family s) = Some (0, sa, fam)"
    using into_sockaddr6_enc [OF assms(3), of R "[]" "rq_addr q" "sk_addr_family s"] assms(4) by auto
  with 1 assms(1) f that [of s'] show ?thesis
    by (simp add: server_read_addr_def hev_socks5_get_addr_family_def)
next
  case 2
  with assms(2) show ?thesis by simp
qed

lemma read_request_enc:
  assumes "inflow s = [5, cmd, rsv] @ enc_dest d @ rest" "dest_wf d"
    "dest_sockaddr R d (sk_addr_family s) = Some (sa, fam)"
  obtains s' where "hev_socks5_server_read_request R s q
      = Some (0, q\<lparr>rq_cmd := Some cmd, rq_addr := sa\<rparr>, hev_socks5_set_addr_family fam s')"
    "io (3 + length (enc_dest d)) [] s s'"
proof -
  obtain t x as where e: "enc_dest d = t # x # as"
    "t = 1 \<and> length as = 5 \<or> t = 4 \<and> length as = 17 \<or> t = 3 \<and> length as = 2 + unat x"
    by (rule enc_dest_shape [OF assms(2)])
  obtain s1 where s1: "sk_recv 5 s = (5, [5, cmd, rsv, t, x], s1)" "io 5 [] s s1"
    by (cases rule: sk_recv_any [of 5 s]) (use assms(1) e in auto)
  then have i1: "inflow s1 = as @ rest" "sk_addr_family s1 = sk_addr_family s"
    using assms(1) e(1) only_conn_fields(5) [OF s_only(1) [OF s1(2)]] by (simp_all add: io_def)
  obtain s2 where s2: "server_read_addr R [5, cmd, rsv, t, x] (length as) s1 q
      = Some (0, q\<lparr>rq_cmd := Some cmd, rq_addr := sa\<rparr>, hev_socks5_set_addr_family fam s2)"
    "io (length as) [] s1 s2"
    using read_addr_enc [of "[5, cmd, rsv, t, x]" "length as" s1 d R sa fam q] assms(2,3) i1 e(1) by auto
  have "io (3 + length (enc_dest d)) [] s s2" using io_trans [OF s1(2) s2(2)] e(1) by simp
  moreover have "hev_socks5_server_read_request R s q
      = Some (0, q\<lparr>rq_cmd := Some cmd, rq_addr := sa\<rparr>, hev_socks5_set_addr_family fam s2)"
    using s1(1) s2(1) e(2) by (auto simp: hev_socks5_server_read_request_def)
  ultimately show ?thesis using that by blast
qed

section \<open>The handshake for a connect request\<close>

definition connectable :: "net \<Rightarrow> int list \<Rightarrow> sockaddr6 \<Rightarrow> bool" where
  "connectable N fds sa \<longleftrightarrow> (let fd = nsocket N fds SOCK_STREAM in
     0 \<le> fd \<and> 0 \<le> nv6only N fd \<and> 0 \<le> nbinder N fd sa \<and> 0 \<le> nconnect N fd sa)"

lemma server_connect_spec:
  assumes "timeouts_pos G" "0 < sk_timeout s" "fresh_fds N"
  obtains s' where "hev_socks5_server_connect G N sa s = (if connectable N (sk_open s) sa then 0 else -1, s')"
    "sk_conn s' = sk_conn s" "0 < sk_timeout s'"
    "sk_open s' = (if connectable N (sk_open s) sa then s_fd0 s' # sk_open s else sk_open s)"
    "connectable N (sk_open s) sa \<Longrightarrow> s_fd0 s' = nsocket N (sk_open s) SOCK_STREAM"
proof -
  let ?fd = "nsocket N (sk_open s) SOCK_STREAM"
  have f: "\<not> ?fd < 0 \<Longrightarrow> ?fd \<notin> set (sk_open s)" using assms(3) by (simp add: fresh_fds_def)
  note [simp] = hev_socks5_server_connect_def hev_socks5_socket_def connectable_def Let_def fd_close_def
    hev_socks5_set_timeout_def timeouts_pos_def
  show ?thesis
  proof (cases "connectable N (sk_open s) sa")
    case True
    let ?s = "s\<lparr>sk_open := ?fd # sk_open s, sk_timeout := tcp_timeout G, s_fd0 := ?fd\<rparr>"
    have "hev_socks5_server_connect G N sa s = (0, ?s)" using True assms(1,2) by auto
    with True that [of ?s] assms(1) show ?thesis by simp
  next
    case False
    then have "hev_socks5_server_connect G N sa s = (-1, s)
        \<or> hev_socks5_server_connect G N sa s = (-1, s\<lparr>sk_timeout := connect_timeout G\<rparr>)"
      using assms f by auto
    with False that [of s] that [of "s\<lparr>sk_timeout := connect_timeout G\<rparr>"] assms(1,2) show ?thesis
      by (auto simp del: connectable_def hev_socks5_server_connect_def)
  qed
qed

lemma auth_spec_ok:
  assumes "auth_spec s (ans, Some i) out" "clear_out s"
  obtains s' where "out = Some (0, s')" "outs s' = outs s @ ans" "inflow s' = drop i (inflow s)" "clear_out s'"
    "sk_timeout s' = sk_timeout s" "sk_open s' = sk_open s" "sk_addr_family s' = sk_addr_family s"
    "sk_fd s' = sk_fd s"
proof -
  obtain s' s'' where o: "out = Some (0, s')" "outs s' = outs s @ ans" "io i ans s s''"
    "case s_obj s of Some (OAuth a) \<Rightarrow> \<exists>u\<in>users a. s' = with_user a u s'' | _ \<Rightarrow> s' = s''"
    using assms(1) by (cases out) (auto simp: auth_spec_def)
  then have "s' = s'' \<or> (\<exists>a u. s' = with_user a u s'')" by (auto split: option.splits obj.splits)
  moreover have "sk_timeout (with_user a u s'') = sk_timeout s''" "sk_open (with_user a u s'') = sk_open s''"
    "sk_addr_family (with_user a u s'') = sk_addr_family s''" "sk_fd (with_user a u s'') = sk_fd s''" for a u
    by (simp_all add: with_user_def)
  ultimately show ?thesis
    using o(1,2,3) assms(2) only_conn_fields [OF s_only(1) [OF o(3)]] by (intro that [of s']) (auto simp: io_def)
qed

lemma handshake_connect:
  fixes s s0 :: server
  assumes s0: "s0 = hev_socks5_set_timeout (tcp_timeout G) s"
    and G: "timeouts_pos G" "sk_timeout s \<noteq> 0" and N: "fresh_fds N" and R: "resolver_ok R"
    and s: "clear_out s0" "obj_ok s" and auth: "srv_auth (auth_map s) (inflow s0) = (ans, Some i)"
    and req: "drop i (inflow s0) = [5, 1, rsv] @ enc_dest d @ rest" "dest_wf d"
    and res: "dest_sockaddr R d (sk_addr_family s) = Some (sa, fam)"
    and ok: "ok = connectable N (sk_open s) sa"
  shows "\<exists>s'. hev_socks5_server_handshake G R N s = Some (if ok then 0 else -1, s')
     \<and> outs s' = outs s @ ans @ [5, if ok then 0 else 4, 0] @ enc_dest (sockaddr_dest sa)
     \<and> sk_type s' = TYPE_TCP \<and> sk_open s' = (if ok then s_fd0 s' # sk_open s else sk_open s)
     \<and> (ok \<longrightarrow> s_fd0 s' = nsocket N (sk_open s) SOCK_STREAM)"
proof -
  have t0: "sk_timeout s0 = tcp_timeout G" "s_obj s0 = s_obj s" "sk_open s0 = sk_open s"
    "sk_addr_family s0 = sk_addr_family s" "outs s0 = outs s"
    using G(2) by (simp_all add: s0 hev_socks5_set_timeout_def outs_def)
  have "auth_spec s0 (ans, Some i) (hev_socks5_server_auth s0)"
    using server_auth_spec [of s0] s auth t0(2) by (simp add: obj_ok_def auth_map_def)
  then obtain s1 where s1: "hev_socks5_server_auth s0 = Some (0, s1)" "outs s1 = outs s @ ans"
    "inflow s1 = drop i (inflow s0)" "clear_out s1" "sk_timeout s1 = tcp_timeout G" "sk_open s1 = sk_open s"
    "sk_addr_family s1 = sk_addr_family s"
    using auth_spec_ok [OF _ s(1)] t0 by metis
  let ?q = "request_init\<lparr>rq_cmd := Some 1, rq_addr := sa\<rparr>"
  obtain s2 where s2: "hev_socks5_server_read_request R s1 request_init
      = Some (0, ?q, hev_socks5_set_addr_family fam s2)" "io (3 + length (enc_dest d)) [] s1 s2"
    using read_request_enc [of s1 1 rsv d rest R sa fam request_init] s1 req res by metis
  let ?s2 = "hev_socks5_set_addr_family fam s2"
  have t2: "0 < sk_timeout ?s2" "sk_open ?s2 = sk_open s" "outs ?s2 = outs s1" "clear_out ?s2"
    using only_conn_fields [OF s_only(1) [OF s2(2)]] s1 s2(2) G(1)
    by (simp_all add: hev_socks5_set_addr_family_def timeouts_pos_def io_def outs_def clear_out_def sk_yield_fun)
  obtain s3 where s3: "hev_socks5_server_connect G N sa ?s2 = (if ok then 0 else -1, s3)"
    "sk_conn s3 = sk_conn ?s2" "0 < sk_timeout s3"
    "sk_open s3 = (if ok then s_fd0 s3 # sk_open s else sk_open s)"
    "ok \<Longrightarrow> s_fd0 s3 = nsocket N (sk_open s) SOCK_STREAM"
    using server_connect_spec [OF G(1) t2(1) N, of sa] unfolding t2(2) ok by metis
  let ?s3 = "s3\<lparr>sk_type := TYPE_TCP\<rparr>"
  have v3: "outs ?s3 = outs s @ ans" "clear_out ?s3"
    using view_cong [of ?s3 ?s2] s3(2,3) t2 s1(2) by simp_all
  obtain s4 where s4: "hev_socks5_server_write_response (if ok then 0 else 4) sa ?s3 = (0, s4)"
    "io 0 ([5, if ok then 0 else 4, 0] @ enc_dest (sockaddr_dest sa)) ?s3 s4"
    using write_response_ok [OF v3(2), of sa "if ok then 0 else 4"] dest_sockaddr_len [OF R req(2) res] by metis
  have "hev_socks5_server_handshake G R N s = Some (if ok then 0 else -1, s4)"
    using s1(1) s2(1) s3(1) s4(1)
    by (auto simp: hev_socks5_server_handshake_def s0 Let_def server_command_def request_init_def)
  moreover have "outs s4 = outs s @ ans @ [5, if ok then 0 else 4, 0] @ enc_dest (sockaddr_dest sa)"
    using s4(2) v3(1) by (simp add: io_def)
  ultimately show ?thesis
    using s3(4,5) only_conn_fields(3,6) [OF s_only(1) [OF s4(2)]] server_only_conn(3) [OF s_only(1) [OF s4(2)]]
    by auto
qed

lemma handshake_denied:
  assumes "s0 = hev_socks5_set_timeout (tcp_timeout G) s" "clear_out s0" "obj_ok s"
    and "srv_auth (auth_map s) (inflow s0) = (ans, None)"
  shows "\<exists>s'. hev_socks5_server_handshake G R N s = Some (-1, s') \<and> outs s' = outs s @ ans \<and> only_conn s0 s'"
proof -
  have "auth_spec s0 (ans, None) (hev_socks5_server_auth s0)"
    using server_auth_spec [of s0] assms
    by (simp add: obj_ok_def auth_map_def hev_socks5_set_timeout_def split: if_splits)
  then obtain s' where "hev_socks5_server_auth s0 = Some (-1, s')" "outs s' = outs s0 @ ans" "only_conn s0 s'"
    by (cases "hev_socks5_server_auth s0") (auto simp: auth_spec_def)
  moreover have "outs s0 = outs s" by (simp add: assms(1) outs_def hev_socks5_set_timeout_def)
  ultimately show ?thesis using assms(1) by (simp add: hev_socks5_server_handshake_def Let_def)
qed

section \<open>Properties of the server\<close>

text \<open>Data for the examples: a server with one user.\<close>

definition ex_authenticator :: authenticator where
  "ex_authenticator = \<lparr>atree = Nd Black Null \<lparr>uname = [97], upass = [98]\<rparr> Null, released = []\<rparr>"

definition ex_server :: "bytes \<Rightarrow> server" where
  "ex_server inp = hev_socks5_server_set_auth ex_authenticator
     (hev_socks5_server_construct 3 \<lparr>rx = [RData inp], tx = [], sent = [], errno_again = False\<rparr> [3])"

lemma ex_auth_ok: "auth_ok ex_authenticator"
  unfolding auth_ok_def rb_def by (intro conjI exI [of _ 1]) (simp_all add: ex_authenticator_def)

lemma ex_server_simps:
  "obj_ok (ex_server inp)" "auth_map (ex_server inp) = Some (map_of [([97], [98])])"
  "inflow (hev_socks5_set_timeout t (ex_server inp)) = inp" "clear_out (hev_socks5_set_timeout t (ex_server inp))"
  "outs (ex_server inp) = []" "sk_open (ex_server inp) = [3]" "sk_timeout (ex_server inp) = -1"
  "sk_addr_family (ex_server inp) = FAMILY_UNSPEC"
  using ex_auth_ok
  by (simp_all add: ex_server_def hev_socks5_server_set_auth_def hev_socks5_server_construct_def obj_ok_def auth_map_def
      inflow_def clear_out_def outs_def hev_socks5_set_timeout_def hev_socks5_construct_def hev_socks5.defs Let_def
      passwords_def) (simp add: ex_authenticator_def)

text \<open>
  C10: A client that does not authenticate gets nothing.  When no acceptable method is offered, or the
  credentials are not those of a user, the handshake answers with the refusal that the protocol
  prescribes, returns an error, and has changed nothing but the connection: no request was read
  as one, no socket was opened, no user object taken.
\<close>

theorem server_denies_unauthenticated:
  assumes "clear_out (hev_socks5_set_timeout (tcp_timeout G) s)" "obj_ok s"
    and "srv_auth (auth_map s) (inflow (hev_socks5_set_timeout (tcp_timeout G) s)) = (ans, None)"
  shows "\<exists>s'. hev_socks5_server_handshake G R N s = Some (-1, s') \<and> outs s' = outs s @ ans
    \<and> only_conn (hev_socks5_set_timeout (tcp_timeout G) s) s'"
  using handshake_denied [OF refl assms] .

theorem server_denies_unauthenticated_witness:
  "\<exists>s'. hev_socks5_server_handshake default_timeouts no_resolver (ex_net 0) (ex_server [5, 1, 2, 1, 1, 97, 1, 99]) = Some (-1, s')
     \<and> outs s' = [5, 2, 1, 255]"
proof -
  have "srv_auth (Some (map_of [([97], [98])])) [5, 1, 2, 1, 1, 97, 1, 99] = ([5, 2, 1, 255], None)"
    by (simp add: srv_auth_def method_part_def creds_part_def)
  with server_denies_unauthenticated [of default_timeouts "ex_server [5, 1, 2, 1, 1, 97, 1, 99]" "[5, 2, 1, 255]" no_resolver "ex_net 0"]
  show ?thesis by (auto simp: ex_server_simps)
qed

text \<open>
  An authenticated connect request is carried out.  For any destination that resolves, in any
  segmentation of the client's bytes, the server opens exactly one socket, connected to the
  resolved address, and reports success with that address; or, when the kernel refuses, it
  reports "host unreachable", returns an error and has closed whatever it opened.
\<close>

theorem server_connect_handshake:
  assumes "timeouts_pos G" "sk_timeout s \<noteq> 0" "fresh_fds N" "resolver_ok R"
    and "clear_out (hev_socks5_set_timeout (tcp_timeout G) s)" "obj_ok s"
    and "srv_auth (auth_map s) (inflow (hev_socks5_set_timeout (tcp_timeout G) s)) = (ans, Some i)"
    and "drop i (inflow (hev_socks5_set_timeout (tcp_timeout G) s)) = [5, 1, rsv] @ enc_dest d @ rest" "dest_wf d"
    and "dest_sockaddr R d (sk_addr_family s) = Some (sa, fam)"
    and "ok = connectable N (sk_open s) sa"
  shows "\<exists>s'. hev_socks5_server_handshake G R N s = Some (if ok then 0 else -1, s')
    \<and> outs s' = outs s @ ans @ [5, if ok then 0 else 4, 0] @ enc_dest (sockaddr_dest sa)
    \<and> sk_type s' = TYPE_TCP \<and> sk_open s' = (if ok then s_fd0 s' # sk_open s else sk_open s)
    \<and> (ok \<longrightarrow> s_fd0 s' = nsocket N (sk_open s) SOCK_STREAM)"
  using handshake_connect [OF refl assms] .

theorem server_connect_handshake_witness:
  "\<exists>s'. hev_socks5_server_handshake default_timeouts no_resolver (ex_net 0)
      (ex_server ([5, 1, 2, 1, 1, 97, 1, 98] @ [5, 1, 0] @ enc_dest (Dst4 [10, 0, 0, 1] 80))) = Some (0, s')
     \<and> sk_open s' = [4, 3]"
proof -
  let ?s = "ex_server ([5, 1, 2, 1, 1, 97, 1, 98] @ [5, 1, 0] @ enc_dest (Dst4 [10, 0, 0, 1] 80))"
  let ?sa = "\<lparr>sin6_family = AF_INET6, sin6_port = htons 80, sin6_addr = v4map [10, 0, 0, 1]\<rparr>"
  have a: "srv_auth (Some (map_of [([97], [98])])) ([5, 1, 2, 1, 1, 97, 1, 98] @ [5, 1, 0] @ enc_dest (Dst4 [10, 0, 0, 1] 80))
      = ([5, 2, 1, 0], Some 8)"
    by (simp add: srv_auth_def method_part_def creds_part_def)
  have c: "connectable (ex_net 0) [3] ?sa" by (simp add: connectable_def ex_net_def)
  have t: "timeouts_pos default_timeouts" by (simp add: timeouts_pos_def default_timeouts_def)
  have r: "resolver_ok no_resolver" by (simp add: resolver_ok_def no_resolver_def)
  have n: "nsocket (ex_net 0) [3] SOCK_STREAM = 4" by (simp add: ex_net_def)
  show ?thesis
    using server_connect_handshake [OF t _ ex_net_ok [of 0] r, of ?s "[5, 2, 1, 0]" 8 0 "Dst4 [10, 0, 0, 1] 80" "[]" ?sa FAMILY_IPV4 True]
      a c n by (auto simp: ex_server_simps)
qed

end
