(* ===== verification/Ring_Buffer.thy ===== *)
theory Ring_Buffer
  imports Prelude
begin

text \<open>
  The ring buffer of \<^verbatim>\<open>hev/src/misc/hev-ring-buffer.c\<close>, which a TCP session uses between
  the proxy socket and the TCP stack.  Its bytes are in three regions: bytes handed to the
  stack and not yet acknowledged (in flight), bytes readable next, and free space.  The
  fields are \<^verbatim>\<open>size_t\<close>, kept as 64-bit words with wrap-around arithmetic; \<open>ring_ok\<close>
  is the invariant under which no operation wraps.  The locale \<open>stream_window\<close> is the
  contract towards the session.
\<close>

section \<open>The data and the operations\<close>

record ring =
  rp :: usize
  wp :: usize
  rda_size :: usize
  use_size :: usize
  max_size :: usize
  rdata :: bytes

text \<open>An \<^verbatim>\<open>iovec\<close> into the buffer: offset and length.\<close>

type_synonym iov = "usize \<times> usize"

definition hev_ring_buffer_alloca :: "bytes \<Rightarrow> usize \<Rightarrow> ring" where
  "hev_ring_buffer_alloca mem s =
     \<lparr>rp = 0, wp = 0, rda_size = 0, use_size = 0, max_size = s, rdata = mem\<rparr>"

definition hev_ring_buffer_get_max_size :: "ring \<Rightarrow> usize" where
  "hev_ring_buffer_get_max_size r = max_size r"

definition hev_ring_buffer_get_use_size :: "ring \<Rightarrow> usize" where
  "hev_ring_buffer_get_use_size r = use_size r"

definition hev_ring_buffer_reading :: "ring \<Rightarrow> iov list" where
  "hev_ring_buffer_reading r =
     (if rda_size r = 0 then []
      else let upper_size = max_size r - rp r in
        if rda_size r \<le> upper_size then [(rp r, rda_size r)]
        else [(rp r, upper_size), (0, rda_size r - upper_size)])"

definition hev_ring_buffer_read_finish :: "ring \<Rightarrow> usize \<Rightarrow> ring" where
  "hev_ring_buffer_read_finish r n =
     r\<lparr>rp := (rp r + n) mod max_size r, rda_size := rda_size r - n\<rparr>"

definition hev_ring_buffer_read_release :: "ring \<Rightarrow> usize \<Rightarrow> ring" where
  "hev_ring_buffer_read_release r n =
     (let r1 = r\<lparr>use_size := use_size r - n\<rparr>
      in if use_size r1 = 0 then r1\<lparr>rp := 0, wp := 0\<rparr> else r1)"

definition hev_ring_buffer_writing :: "ring \<Rightarrow> iov list" where
  "hev_ring_buffer_writing r =
     (if use_size r = max_size r then []
      else let upper_size = max_size r - wp r; spc_size = max_size r - use_size r in
        if spc_size \<le> upper_size then [(wp r, spc_size)]
        else [(wp r, upper_size), (0, spc_size - upper_size)])"

definition hev_ring_buffer_write_finish :: "ring \<Rightarrow> usize \<Rightarrow> ring" where
  "hev_ring_buffer_write_finish r n =
     r\<lparr>wp := (wp r + n) mod max_size r, use_size := use_size r + n,
       rda_size := rda_size r + n\<rparr>"

section \<open>Transfers through an iovec\<close>

definition store_at :: "bytes \<Rightarrow> nat \<Rightarrow> bytes \<Rightarrow> bytes" where
  "store_at d off xs = take off d @ xs @ drop (off + length xs) d"

text \<open>\<^verbatim>\<open>readv\<close> fills the vectors in order; \<^verbatim>\<open>writev\<close> drains them in order.\<close>

fun iov_store :: "bytes \<Rightarrow> iov list \<Rightarrow> bytes \<Rightarrow> bytes" where
  "iov_store d [] bs = d"
| "iov_store d ((b, l) # iv) bs =
     iov_store (store_at d (unat b) (take (unat l) bs)) iv (drop (unat l) bs)"

fun iov_load :: "bytes \<Rightarrow> iov list \<Rightarrow> bytes" where
  "iov_load d [] = []"
| "iov_load d ((b, l) # iv) = take (unat l) (drop (unat b) d) @ iov_load d iv"

definition iov_total :: "iov list \<Rightarrow> nat" where
  "iov_total iv = sum_list (map (\<lambda>(b, l). unat l) iv)"

fun iov_idx :: "iov list \<Rightarrow> nat list" where
  "iov_idx [] = []"
| "iov_idx ((b, l) # iv) = [unat b ..< unat b + unat l] @ iov_idx iv"

text \<open>A \<^verbatim>\<open>readv\<close> of the bytes \<open>bs\<close> into the free space, then \<^verbatim>\<open>write_finish\<close>.\<close>

definition ring_put :: "ring \<Rightarrow> bytes \<Rightarrow> ring" where
  "ring_put r bs = hev_ring_buffer_write_finish
     (r\<lparr>rdata := iov_store (rdata r) (hev_ring_buffer_writing r) bs\<rparr>) (of_nat (length bs))"

section \<open>Invariant and abstraction\<close>

definition ring_ok :: "ring \<Rightarrow> bool" where
  "ring_ok r \<longleftrightarrow> length (rdata r) = unat (max_size r) \<and> 0 < unat (max_size r)
     \<and> unat (max_size r) < 2 ^ 63 \<and> unat (rp r) < unat (max_size r)
     \<and> unat (wp r) = (unat (rp r) + unat (rda_size r)) mod unat (max_size r)
     \<and> unat (rda_size r) \<le> unat (use_size r) \<and> unat (use_size r) \<le> unat (max_size r)"

definition ring_base :: "ring \<Rightarrow> nat" where
  "ring_base r = unat (rp r) + unat (max_size r) - (unat (use_size r) - unat (rda_size r))"

definition ring_content :: "ring \<Rightarrow> bytes" where
  "ring_content r =
     map (\<lambda>k. rdata r ! ((ring_base r + k) mod unat (max_size r))) [0..<unat (use_size r)]"

definition ring_inflight :: "ring \<Rightarrow> bytes" where
  "ring_inflight r = take (unat (use_size r) - unat (rda_size r)) (ring_content r)"

definition ring_readable :: "ring \<Rightarrow> bytes" where
  "ring_readable r = drop (unat (use_size r) - unat (rda_size r)) (ring_content r)"

definition ring_free :: "ring \<Rightarrow> nat" where
  "ring_free r = unat (max_size r) - unat (use_size r)"

lemma length_ring_content [simp]: "length (ring_content r) = unat (use_size r)"
  by (simp add: ring_content_def)

lemma ring_split: "ring_inflight r @ ring_readable r = ring_content r"
  by (simp add: ring_inflight_def ring_readable_def)

section \<open>Positions on a circle\<close>

lemma circ_upt:
  assumes "p < m" "n \<le> m"
  shows "map (\<lambda>i. (p + i) mod m) [0..<n] = (if n \<le> m - p then [p..<p + n] else [p..<m] @ [0..<n - (m - p)])"
proof (rule nth_equalityI)
  show "length (map (\<lambda>i. (p + i) mod m) [0..<n])
      = length (if n \<le> m - p then [p..<p + n] else [p..<m] @ [0..<n - (m - p)])"
    using assms by auto
  fix i
  assume "i < length (map (\<lambda>i. (p + i) mod m) [0..<n])"
  then have i: "i < n" by simp
  show "map (\<lambda>i. (p + i) mod m) [0..<n] ! i
      = (if n \<le> m - p then [p..<p + n] else [p..<m] @ [0..<n - (m - p)]) ! i"
  proof (cases "p + i < m")
    case True
    with i assms show ?thesis by (auto simp: nth_append)
  next
    case False
    then have "(p + i) mod m = p + i - m" using i assms by (simp add: mod_if)
    with False i assms show ?thesis by (auto simp: nth_append)
  qed
qed

lemma circ_inj:
  assumes "(a + i) mod m = (a + j) mod m" "i < m" "j < m" "0 < (m::nat)"
  shows "i = j"
proof (rule ccontr)
  assume "i \<noteq> j"
  then consider "i < j" | "j < i" by linarith
  then show False
  proof cases
    case 1
    then have "m dvd j - i"
      using mod_eq_dvd_iff_nat [of "a + i" "a + j" m] assms(1) by simp
    with 1 assms show False using dvd_imp_le [of m "j - i"] by simp
  next
    case 2
    then have "m dvd i - j"
      using mod_eq_dvd_iff_nat [of "a + j" "a + i" m] assms(1) by simp
    with 2 assms show False using dvd_imp_le [of m "i - j"] by simp
  qed
qed

section \<open>Transfers as updates at positions\<close>

definition upds :: "'a list \<Rightarrow> nat list \<Rightarrow> 'a list \<Rightarrow> 'a list" where
  "upds d is bs = fold (\<lambda>(i, b) d. d[i := b]) (zip is bs) d"

lemma upds_simps [simp]:
  "upds d [] bs = d" "upds d is [] = d" "upds d (i # is) (b # bs) = upds (d[i := b]) is bs"
  by (simp_all add: upds_def)

lemma length_upds [simp]: "length (upds d is bs) = length d"
proof (induction "is" arbitrary: d bs)
  case (Cons i "is")
  then show ?case by (cases bs) auto
qed simp

lemma upds_append: "upds d (is @ is') bs = upds (upds d is (take (length is) bs)) is' (drop (length is) bs)"
  by (simp add: upds_def zip_append1)

lemma nth_upds_notin: "k \<notin> set (take (length bs) is) \<Longrightarrow> upds d is bs ! k = d ! k"
proof (induction "is" arbitrary: d bs)
  case (Cons i "is")
  then show ?case by (cases bs) auto
qed simp

lemma nth_upds_in:
  assumes "distinct is" "\<forall>i\<in>set is. i < length d" "j < length bs" "j < length is"
  shows "upds d is bs ! (is ! j) = bs ! j"
  using assms
proof (induction "is" arbitrary: d bs j)
  case (Cons i "is")
  then obtain b bs' where bs: "bs = b # bs'" by (cases bs) auto
  show ?case
  proof (cases j)
    case 0
    have "i \<notin> set (take (length bs') is)" using Cons.prems(1) by (auto dest: in_set_takeD)
    with 0 bs Cons.prems show ?thesis by (simp add: nth_upds_notin)
  next
    case (Suc j')
    with bs Cons show ?thesis by simp
  qed
qed simp

lemma nth_store_at:
  assumes "off + length xs \<le> length d" "k < length d"
  shows "store_at d off xs ! k = (if off \<le> k \<and> k < off + length xs then xs ! (k - off) else d ! k)"
  using assms by (auto simp: store_at_def nth_append min_def)

lemma length_store_at [simp]: "off + length xs \<le> length d \<Longrightarrow> length (store_at d off xs) = length d"
  by (simp add: store_at_def)

lemma store_at_upds:
  assumes "length xs \<le> n" "off + n \<le> length d"
  shows "store_at d off xs = upds d [off..<off + n] xs"
proof (rule nth_equalityI)
  show "length (store_at d off xs) = length (upds d [off..<off + n] xs)"
    using assms by simp
  fix k
  assume "k < length (store_at d off xs)"
  then have k: "k < length d" using assms by simp
  show "store_at d off xs ! k = upds d [off..<off + n] xs ! k"
  proof (cases "off \<le> k \<and> k < off + length xs")
    case True
    then have "[off..<off + n] ! (k - off) = k" using assms by simp
    moreover have "upds d [off..<off + n] xs ! ([off..<off + n] ! (k - off)) = xs ! (k - off)"
      using True assms by (intro nth_upds_in) auto
    ultimately show ?thesis using True k assms by (simp add: nth_store_at)
  next
    case False
    then have "k \<notin> set (take (length xs) [off..<off + n])"
      using assms by (auto simp: take_upt)
    with False k assms show ?thesis by (auto simp: nth_store_at nth_upds_notin)
  qed
qed

definition iov_within :: "nat \<Rightarrow> iov list \<Rightarrow> bool" where
  "iov_within n iv \<longleftrightarrow> (\<forall>(b, l) \<in> set iv. unat b + unat l \<le> n)"

lemma iov_load_idx: "iov_within (length d) iv \<Longrightarrow> iov_load d iv = map ((!) d) (iov_idx iv)"
proof (induction d iv rule: iov_load.induct)
  case (2 d b l iv)
  then have "take (unat l) (drop (unat b) d) = map ((!) d) [unat b..<unat b + unat l]"
    by (intro nth_equalityI) (auto simp: iov_within_def)
  with 2 show ?case by (simp add: iov_within_def)
qed simp

lemma iov_store_idx: "iov_within (length d) iv \<Longrightarrow> iov_store d iv bs = upds d (iov_idx iv) bs"
proof (induction d iv bs rule: iov_store.induct)
  case (2 d b l iv bs)
  then have "store_at d (unat b) (take (unat l) bs) = upds d [unat b..<unat b + unat l] (take (unat l) bs)"
    by (intro store_at_upds) (auto simp: iov_within_def)
  with 2 show ?case by (simp add: iov_within_def upds_append)
qed simp

lemma length_iov_idx: "length (iov_idx iv) = iov_total iv"
  by (induction iv rule: iov_idx.induct) (simp_all add: iov_total_def)

section \<open>The regions of the buffer\<close>

lemma ring_okD:
  assumes "ring_ok r"
  shows "length (rdata r) = unat (max_size r)" "0 < unat (max_size r)" "unat (max_size r) < 2 ^ 63"
    "unat (rp r) < unat (max_size r)" "unat (wp r) < unat (max_size r)"
    "unat (wp r) = (unat (rp r) + unat (rda_size r)) mod unat (max_size r)"
    "unat (rda_size r) \<le> unat (use_size r)" "unat (use_size r) \<le> unat (max_size r)"
  using assms by (auto simp: ring_ok_def)

lemma unat_diff: "unat b \<le> unat a \<Longrightarrow> unat (a - b) = unat a - unat (b :: 'a::len word)"
  by (simp add: unat_sub word_le_nat_alt)

lemma unat_sum_small: "unat a + unat b < 2 ^ 64 \<Longrightarrow> unat (a + b) = unat a + unat (b :: usize)"
  using unat_add_lem [of a b] by simp

lemma reading_idx:
  assumes "ring_ok r"
  shows "iov_idx (hev_ring_buffer_reading r)
       = map (\<lambda>i. (unat (rp r) + i) mod unat (max_size r)) [0..<unat (rda_size r)]"
    and "iov_within (length (rdata r)) (hev_ring_buffer_reading r)"
proof -
  note ok = ring_okD [OF assms]
  have up: "unat (max_size r - rp r) = unat (max_size r) - unat (rp r)"
    using ok by (simp add: unat_diff)
  have rest: "rda_size r > max_size r - rp r \<Longrightarrow>
      unat (rda_size r - (max_size r - rp r)) = unat (rda_size r) - (unat (max_size r) - unat (rp r))"
    using up by (simp add: unat_diff word_less_nat_alt)
  have c: "map (\<lambda>i. (unat (rp r) + i) mod unat (max_size r)) [0..<unat (rda_size r)]
      = (if unat (rda_size r) \<le> unat (max_size r) - unat (rp r) then [unat (rp r)..<unat (rp r) + unat (rda_size r)]
         else [unat (rp r)..<unat (max_size r)] @ [0..<unat (rda_size r) - (unat (max_size r) - unat (rp r))])"
    using ok by (intro circ_upt) auto
  show "iov_idx (hev_ring_buffer_reading r)
      = map (\<lambda>i. (unat (rp r) + i) mod unat (max_size r)) [0..<unat (rda_size r)]"
    unfolding c using up rest ok
    by (auto simp: hev_ring_buffer_reading_def Let_def word_le_nat_alt unat_eq_0 word_less_nat_alt not_le)
  show "iov_within (length (rdata r)) (hev_ring_buffer_reading r)"
    using up rest ok
    by (auto simp: hev_ring_buffer_reading_def iov_within_def Let_def word_le_nat_alt word_less_nat_alt not_le)
qed

lemma writing_idx:
  assumes "ring_ok r"
  shows "iov_idx (hev_ring_buffer_writing r)
       = map (\<lambda>i. (unat (wp r) + i) mod unat (max_size r)) [0..<ring_free r]"
    and "iov_within (length (rdata r)) (hev_ring_buffer_writing r)"
proof -
  note ok = ring_okD [OF assms]
  have up: "unat (max_size r - wp r) = unat (max_size r) - unat (wp r)"
    using ok by (simp add: unat_diff)
  have spc: "unat (max_size r - use_size r) = ring_free r"
    using ok by (simp add: unat_diff ring_free_def)
  have rest: "\<not> max_size r - use_size r \<le> max_size r - wp r \<Longrightarrow>
      unat (max_size r - use_size r - (max_size r - wp r)) = ring_free r - (unat (max_size r) - unat (wp r))"
  proof -
    assume "\<not> max_size r - use_size r \<le> max_size r - wp r"
    then have "unat (max_size r - wp r) \<le> unat (max_size r - use_size r)"
      by (simp add: word_le_nat_alt)
    from unat_diff [OF this] show ?thesis unfolding up spc .
  qed
  have full: "use_size r = max_size r \<longleftrightarrow> ring_free r = 0"
    using ok by (auto simp: ring_free_def word_unat_eq_iff)
  have c: "map (\<lambda>i. (unat (wp r) + i) mod unat (max_size r)) [0..<ring_free r]
      = (if ring_free r \<le> unat (max_size r) - unat (wp r) then [unat (wp r)..<unat (wp r) + ring_free r]
         else [unat (wp r)..<unat (max_size r)] @ [0..<ring_free r - (unat (max_size r) - unat (wp r))])"
    using ok by (intro circ_upt) (auto simp: ring_free_def)
  show "iov_idx (hev_ring_buffer_writing r)
      = map (\<lambda>i. (unat (wp r) + i) mod unat (max_size r)) [0..<ring_free r]"
    unfolding c using up spc rest full ok
    by (auto simp: hev_ring_buffer_writing_def Let_def word_le_nat_alt)
  show "iov_within (length (rdata r)) (hev_ring_buffer_writing r)"
    using up spc rest full ok(1-5,7,8)
    by (auto simp: hev_ring_buffer_writing_def iov_within_def Let_def word_le_nat_alt ring_free_def)
qed

lemma base_rp:
  assumes "ring_ok r"
  shows "(ring_base r + (unat (use_size r) - unat (rda_size r) + i)) mod unat (max_size r)
       = (unat (rp r) + i) mod unat (max_size r)"
proof -
  note ok = ring_okD [OF assms]
  have "ring_base r + (unat (use_size r) - unat (rda_size r) + i) = unat (rp r) + i + unat (max_size r)"
    using ok by (simp add: ring_base_def)
  then show ?thesis by (simp only: mod_add_self2)
qed

lemma base_wp:
  assumes "ring_ok r"
  shows "(ring_base r + (unat (use_size r) + i)) mod unat (max_size r)
       = (unat (wp r) + i) mod unat (max_size r)"
proof -
  note ok = ring_okD [OF assms]
  have "(ring_base r + (unat (use_size r) + i)) mod unat (max_size r)
      = (unat (rp r) + (unat (rda_size r) + i)) mod unat (max_size r)"
    using base_rp [OF assms, of "unat (rda_size r) + i"] ok by (simp add: add.assoc)
  also have "\<dots> = (unat (wp r) + i) mod unat (max_size r)"
    using ok(6) by (simp add: add.assoc [symmetric] mod_add_left_eq)
  finally show ?thesis .
qed

lemma readable_alt:
  assumes "ring_ok r"
  shows "ring_readable r
       = map (\<lambda>i. rdata r ! ((unat (rp r) + i) mod unat (max_size r))) [0..<unat (rda_size r)]"
proof (rule nth_equalityI)
  note ok = ring_okD [OF assms]
  show "length (ring_readable r)
      = length (map (\<lambda>i. rdata r ! ((unat (rp r) + i) mod unat (max_size r))) [0..<unat (rda_size r)])"
    using ok by (simp add: ring_readable_def)
  fix i
  assume "i < length (ring_readable r)"
  then have "i < unat (rda_size r)" using ok by (simp add: ring_readable_def)
  then show "ring_readable r ! i
      = map (\<lambda>i. rdata r ! ((unat (rp r) + i) mod unat (max_size r))) [0..<unat (rda_size r)] ! i"
    using ok base_rp [OF assms, of i]
    by (simp add: ring_readable_def ring_content_def)
qed

lemma reading_load: "ring_ok r \<Longrightarrow> iov_load (rdata r) (hev_ring_buffer_reading r) = ring_readable r"
  by (simp add: iov_load_idx reading_idx readable_alt)

lemma reading_total: "ring_ok r \<Longrightarrow> iov_total (hev_ring_buffer_reading r) = length (ring_readable r)"
  by (simp flip: length_iov_idx add: reading_idx readable_alt)

lemma writing_total: "ring_ok r \<Longrightarrow> iov_total (hev_ring_buffer_writing r) = ring_free r"
  by (simp flip: length_iov_idx add: writing_idx)

section \<open>What the operations do to the regions\<close>

lemma ring_ok_alloca:
  assumes "length mem = unat s" "0 < unat s" "unat s < 2 ^ 63"
  shows "ring_ok (hev_ring_buffer_alloca mem s)"
  using assms by (simp add: ring_ok_def hev_ring_buffer_alloca_def)

lemma ring_content_alloca [simp]:
  "ring_inflight (hev_ring_buffer_alloca mem s) = []" "ring_readable (hev_ring_buffer_alloca mem s) = []"
  by (simp_all add: ring_inflight_def ring_readable_def ring_content_def hev_ring_buffer_alloca_def)

lemma inflight_length:
  assumes "ring_ok r"
  shows "length (ring_inflight r) = unat (use_size r) - unat (rda_size r)"
  using ring_okD(7) [OF assms] by (simp add: ring_inflight_def)

lemma readable_length:
  assumes "ring_ok r"
  shows "length (ring_readable r) = unat (rda_size r)"
  using ring_okD(7) [OF assms] by (simp add: ring_readable_def)

lemma read_finish_regions:
  assumes ok: "ring_ok r" and n: "unat n \<le> length (ring_readable r)"
  defines "r' \<equiv> hev_ring_buffer_read_finish r n"
  shows "ring_ok r'"
    and "ring_inflight r' = ring_inflight r @ take (unat n) (ring_readable r)"
    and "ring_readable r' = drop (unat n) (ring_readable r)"
proof -
  note okd = ring_okD [OF ok]
  have n': "unat n \<le> unat (rda_size r)" using n by (simp add: readable_length [OF ok])
  have f: "unat (rda_size r') = unat (rda_size r) - unat n"
    "unat (rp r') = (unat (rp r) + unat n) mod unat (max_size r)"
    "use_size r' = use_size r" "max_size r' = max_size r" "rdata r' = rdata r" "wp r' = wp r"
    using n' okd(1-5,7,8)
    by (simp_all add: r'_def hev_ring_buffer_read_finish_def unat_diff unat_mod unat_sum_small)
  have "((unat (rp r) + unat n) mod unat (max_size r) + (unat (rda_size r) - unat n)) mod unat (max_size r)
      = (unat (rp r) + unat (rda_size r)) mod unat (max_size r)"
    using n' by (subst mod_add_left_eq) simp
  then show ok': "ring_ok r'"
    using okd n' f by (simp add: ring_ok_def)
  have "ring_base r' mod unat (max_size r) = ring_base r mod unat (max_size r)"
  proof -
    let ?M = "unat (max_size r)" and ?a = "unat (use_size r) - unat (rda_size r)"
    have "(ring_base r' + (?a + unat n)) mod ?M = unat (rp r')"
      using base_rp [OF ok', of 0] f n' okd(1-5,7,8) by simp
    moreover have "(ring_base r + (?a + unat n)) mod ?M = unat (rp r')"
      using base_rp [OF ok, of "unat n"] f by simp
    ultimately have "(?a + unat n + ring_base r') mod ?M = (?a + unat n + ring_base r) mod ?M"
      by (simp add: ac_simps)
    then show ?thesis
      by (metis add.commute mod_add_cancel_nat)
  qed
  then have c: "ring_content r' = ring_content r"
    by (simp add: ring_content_def f) (metis mod_add_left_eq)
  show "ring_inflight r' = ring_inflight r @ take (unat n) (ring_readable r)"
    using n' okd(7) by (simp add: ring_inflight_def ring_readable_def c f take_add [symmetric])
  show "ring_readable r' = drop (unat n) (ring_readable r)"
    using n' okd(7) by (simp add: ring_readable_def c f add.commute)
qed

lemma read_release_regions:
  assumes ok: "ring_ok r" and n: "unat n \<le> length (ring_inflight r)"
  defines "r' \<equiv> hev_ring_buffer_read_release r n"
  shows "ring_ok r'"
    and "ring_inflight r' = drop (unat n) (ring_inflight r)"
    and "ring_readable r' = ring_readable r"
proof -
  note okd = ring_okD [OF ok]
  have n': "unat n \<le> unat (use_size r) - unat (rda_size r)" using n by (simp add: inflight_length [OF ok])
  have u: "unat (use_size r - n) = unat (use_size r) - unat n"
    using n' by (simp add: unat_diff)
  have "ring_ok r' \<and> ring_inflight r' = drop (unat n) (ring_inflight r) \<and> ring_readable r' = ring_readable r"
  proof (cases "use_size r - n = 0")
    case True
    then have z: "unat (use_size r) = unat n" "unat (rda_size r) = 0"
      using u n' okd(7) by auto
    then have rz: "rda_size r = 0" by (simp add: unat_eq_0)
    have "use_size r = n" using True by simp
    then show ?thesis
      using z rz okd(1-5,7,8) True
      by (simp add: r'_def hev_ring_buffer_read_release_def Let_def ring_ok_def ring_inflight_def
          ring_readable_def ring_content_def)
  next
    case False
    then have f: "rda_size r' = rda_size r" "rp r' = rp r" "unat (use_size r') = unat (use_size r) - unat n"
      "max_size r' = max_size r" "rdata r' = rdata r" "wp r' = wp r"
      using u by (simp_all add: r'_def hev_ring_buffer_read_release_def Let_def)
    have ok': "ring_ok r'" using okd n' f by (auto simp: ring_ok_def)
    have b: "ring_base r' = ring_base r + unat n"
      using okd(7,8) n' by (simp add: ring_base_def f)
    have c: "ring_content r' = drop (unat n) (ring_content r)"
      using n' by (intro nth_equalityI) (auto simp: ring_content_def f b ac_simps)
    have e: "unat (use_size r) - (unat n + unat (rda_size r)) + unat n = unat (use_size r) - unat (rda_size r)"
      using n' by simp
    then have "ring_inflight r' = drop (unat n) (ring_inflight r)"
      by (simp add: ring_inflight_def c f take_drop)
    moreover have "ring_readable r' = ring_readable r"
      using e by (simp add: ring_readable_def c f)
    ultimately show ?thesis using ok' by simp
  qed
  then show "ring_ok r'" "ring_inflight r' = drop (unat n) (ring_inflight r)"
    "ring_readable r' = ring_readable r" by simp_all
qed

lemma put_content:
  assumes ok: "ring_ok r" and n: "length bs \<le> ring_free r"
  shows "ring_ok (ring_put r bs)" and "ring_content (ring_put r bs) = ring_content r @ bs"
    and "unat (use_size (ring_put r bs)) = unat (use_size r) + length bs"
    and "unat (rda_size (ring_put r bs)) = unat (rda_size r) + length bs"
proof -
  note okd = ring_okD [OF ok]
  let ?M = "unat (max_size r)" and ?r = "ring_put r bs"
  let ?wi = "map (\<lambda>i. (unat (wp r) + i) mod ?M) [0..<ring_free r]"
  have small: "length bs \<le> ?M" and fit: "unat (use_size r) + length bs \<le> ?M"
    using n okd(8) by (auto simp: ring_free_def)
  then have lw: "unat (of_nat (length bs) :: usize) = length bs"
    using okd(3) by (simp add: unat_of_nat)
  have d: "rdata ?r = upds (rdata r) ?wi bs"
    using iov_store_idx [OF writing_idx(2) [OF ok], of bs] writing_idx(1) [OF ok]
    by (simp add: ring_put_def hev_ring_buffer_write_finish_def)
  have f: "rp ?r = rp r" "max_size ?r = max_size r"
    "unat (use_size ?r) = unat (use_size r) + length bs"
    "unat (rda_size ?r) = unat (rda_size r) + length bs"
    "unat (wp ?r) = (unat (wp r) + length bs) mod ?M"
    using lw fit okd(3,5,7)
    by (simp_all add: ring_put_def hev_ring_buffer_write_finish_def unat_sum_small unat_mod)
  have "(unat (wp r) + length bs) mod ?M = (unat (rp r) + (unat (rda_size r) + length bs)) mod ?M"
    using okd(6) by (simp add: mod_add_left_eq add.assoc [symmetric])
  then show "ring_ok ?r" using okd f fit d by (simp add: ring_ok_def)
  show "unat (use_size ?r) = unat (use_size r) + length bs" "unat (rda_size ?r) = unat (rda_size r) + length bs"
    using f by simp_all
  have b: "ring_base ?r = ring_base r" by (simp add: ring_base_def f)
  have pos: "?wi ! j = (ring_base r + (unat (use_size r) + j)) mod ?M" if "j < ring_free r" for j
    using that base_wp [OF ok, of j] by simp
  have dist: "distinct ?wi"
    unfolding distinct_map
  proof (intro conjI inj_onI)
    fix x y
    assume "x \<in> set [0..<ring_free r]" "y \<in> set [0..<ring_free r]"
      and "(unat (wp r) + x) mod ?M = (unat (wp r) + y) mod ?M"
    then show "x = y"
      using okd(2) by (intro circ_inj [of "unat (wp r)" x ?M y]) (auto simp: ring_free_def)
  qed simp
  show "ring_content ?r = ring_content r @ bs"
  proof (rule nth_equalityI)
    show "length (ring_content ?r) = length (ring_content r @ bs)" by (simp add: f)
    fix k
    assume "k < length (ring_content ?r)"
    then have k: "k < unat (use_size r) + length bs" by (simp add: f)
    have lhs: "ring_content ?r ! k = upds (rdata r) ?wi bs ! ((ring_base r + k) mod ?M)"
      using k by (simp add: ring_content_def f b d)
    show "ring_content ?r ! k = (ring_content r @ bs) ! k"
    proof (cases "k < unat (use_size r)")
      case True
      have "(ring_base r + k) mod ?M \<noteq> ?wi ! j" if "j < length bs" for j
      proof
        assume "(ring_base r + k) mod ?M = ?wi ! j"
        then have "(ring_base r + k) mod ?M = (ring_base r + (unat (use_size r) + j)) mod ?M"
          using pos [of j] that n by simp
        then have "k = unat (use_size r) + j"
          using that True fit okd(2) by (intro circ_inj [of "ring_base r" k ?M]) auto
        with True show False by simp
      qed
      then have "(ring_base r + k) mod ?M \<notin> set (take (length bs) ?wi)"
        using n by (fastforce simp: in_set_conv_nth)
      with True lhs show ?thesis by (simp add: nth_upds_notin nth_append ring_content_def)
    next
      case False
      then have j: "k - unat (use_size r) < length bs" using k by simp
      then have "?wi ! (k - unat (use_size r)) = (ring_base r + k) mod ?M"
        using pos [of "k - unat (use_size r)"] n False by simp
      moreover have "upds (rdata r) ?wi bs ! (?wi ! (k - unat (use_size r))) = bs ! (k - unat (use_size r))"
        using j n dist okd(1,2) by (intro nth_upds_in) auto
      ultimately show ?thesis using lhs False by (simp add: nth_append)
    qed
  qed
qed

lemma put_regions:
  assumes "ring_ok r" "length bs \<le> ring_free r"
  shows "ring_inflight (ring_put r bs) = ring_inflight r"
    and "ring_readable (ring_put r bs) = ring_readable r @ bs"
    and "ring_free (ring_put r bs) = ring_free r - length bs"
proof -
  note p = put_content [OF assms] and ok = ring_okD [OF assms(1)]
  show "ring_inflight (ring_put r bs) = ring_inflight r"
    using ok(7) by (simp add: ring_inflight_def p)
  show "ring_readable (ring_put r bs) = ring_readable r @ bs"
    using ok(7) by (simp add: ring_readable_def p)
  have "max_size (ring_put r bs) = max_size r"
    by (simp add: ring_put_def hev_ring_buffer_write_finish_def)
  then show "ring_free (ring_put r bs) = ring_free r - length bs"
    by (simp add: ring_free_def p)
qed

section \<open>The contract of the buffer\<close>

text \<open>
  A window of a byte stream: bytes enter at the far end, move from readable to in flight when
  they are handed on, and leave from the near end when they are acknowledged.
\<close>

locale stream_window =
  fixes ok :: "'r \<Rightarrow> bool"
    and inflight :: "'r \<Rightarrow> 'b list"
    and readable :: "'r \<Rightarrow> 'b list"
    and room :: "'r \<Rightarrow> nat"
    and put :: "'r \<Rightarrow> 'b list \<Rightarrow> 'r"
    and hand_on :: "'r \<Rightarrow> nat \<Rightarrow> 'r"
    and release :: "'r \<Rightarrow> nat \<Rightarrow> 'r"
  assumes put_ok: "ok r \<Longrightarrow> length bs \<le> room r \<Longrightarrow>
      ok (put r bs) \<and> inflight (put r bs) = inflight r \<and> readable (put r bs) = readable r @ bs"
    and hand_on_ok: "ok r \<Longrightarrow> n \<le> length (readable r) \<Longrightarrow>
      ok (hand_on r n) \<and> inflight (hand_on r n) = inflight r @ take n (readable r)
        \<and> readable (hand_on r n) = drop n (readable r)"
    and release_ok: "ok r \<Longrightarrow> n \<le> length (inflight r) \<Longrightarrow>
      ok (release r n) \<and> inflight (release r n) = drop n (inflight r)
        \<and> readable (release r n) = readable r"
begin

text \<open>The bytes in the window, in stream order, only change at the two ends.\<close>

lemma put_window:
  assumes "ok r" "length bs \<le> room r"
  shows "inflight (put r bs) @ readable (put r bs) = (inflight r @ readable r) @ bs"
  using put_ok [OF assms] by simp

lemma hand_on_window:
  assumes "ok r" "n \<le> length (readable r)"
  shows "inflight (hand_on r n) @ readable (hand_on r n) = inflight r @ readable r"
  using hand_on_ok [OF assms] by simp

lemma hand_on_all:
  assumes "ok r"
  shows "ok (hand_on r (length (readable r)))"
    and "inflight (hand_on r (length (readable r))) = inflight r @ readable r"
    and "readable (hand_on r (length (readable r))) = []"
  using hand_on_ok [OF assms, of "length (readable r)"] by simp_all

lemma release_window:
  assumes "ok r" "n \<le> length (inflight r)"
  shows "take n (inflight r) @ inflight (release r n) @ readable (release r n) = inflight r @ readable r"
  using release_ok [OF assms] by (simp flip: append_assoc)

end

lemma ring_size_bound:
  assumes "ring_ok r" "n \<le> unat (use_size r)"
  shows "unat (of_nat n :: usize) = n"
  using ring_okD(3,8) [OF assms(1)] assms(2) by (simp add: unat_of_nat)

interpretation rw: stream_window ring_ok ring_inflight ring_readable ring_free ring_put
  "\<lambda>r n. hev_ring_buffer_read_finish r (of_nat n)" "\<lambda>r n. hev_ring_buffer_read_release r (of_nat n)"
proof unfold_locales
  show "ring_ok (ring_put r bs) \<and> ring_inflight (ring_put r bs) = ring_inflight r
      \<and> ring_readable (ring_put r bs) = ring_readable r @ bs"
    if "ring_ok r" "length bs \<le> ring_free r" for r bs
    using put_content(1) [OF that] put_regions [OF that] by simp
next
  fix r n
  assume *: "ring_ok r" "n \<le> length (ring_readable r)"
  then have "unat (of_nat n :: usize) = n"
    using ring_okD(7) [OF *(1)] by (intro ring_size_bound [of r]) (auto simp: readable_length)
  then show "ring_ok (hev_ring_buffer_read_finish r (of_nat n))
      \<and> ring_inflight (hev_ring_buffer_read_finish r (of_nat n)) = ring_inflight r @ take n (ring_readable r)
      \<and> ring_readable (hev_ring_buffer_read_finish r (of_nat n)) = drop n (ring_readable r)"
    using read_finish_regions [OF *(1), of "of_nat n"] * by simp
next
  fix r n
  assume *: "ring_ok r" "n \<le> length (ring_inflight r)"
  then have "unat (of_nat n :: usize) = n"
    by (intro ring_size_bound [of r]) (auto simp: inflight_length)
  then show "ring_ok (hev_ring_buffer_read_release r (of_nat n))
      \<and> ring_inflight (hev_ring_buffer_read_release r (of_nat n)) = drop n (ring_inflight r)
      \<and> ring_readable (hev_ring_buffer_read_release r (of_nat n)) = ring_readable r"
    using read_release_regions [OF *(1), of "of_nat n"] * by simp
qed

section \<open>Runs of the buffer\<close>

text \<open>
  What its users do to the buffer, and the same on the pair of regions that it stands for.
\<close>

datatype ring_op = OpPut bytes | OpHandOn nat | OpRelease nat

fun ring_do :: "ring_op \<Rightarrow> ring \<Rightarrow> ring" where
  "ring_do (OpPut bs) r = ring_put r bs"
| "ring_do (OpHandOn n) r = hev_ring_buffer_read_finish r (of_nat n)"
| "ring_do (OpRelease n) r = hev_ring_buffer_read_release r (of_nat n)"

fun window_do :: "ring_op \<Rightarrow> bytes \<times> bytes \<Rightarrow> bytes \<times> bytes" where
  "window_do (OpPut bs) (fl, rd) = (fl, rd @ bs)"
| "window_do (OpHandOn n) (fl, rd) = (fl @ take n rd, drop n rd)"
| "window_do (OpRelease n) (fl, rd) = (drop n fl, rd)"

fun op_fits :: "nat \<Rightarrow> ring_op \<Rightarrow> bytes \<times> bytes \<Rightarrow> bool" where
  "op_fits cap (OpPut bs) (fl, rd) = (length fl + length rd + length bs \<le> cap)"
| "op_fits cap (OpHandOn n) (fl, rd) = (n \<le> length rd)"
| "op_fits cap (OpRelease n) (fl, rd) = (n \<le> length fl)"

fun ops_fit :: "nat \<Rightarrow> ring_op list \<Rightarrow> bytes \<times> bytes \<Rightarrow> bool" where
  "ops_fit cap [] w = True"
| "ops_fit cap (p # ps) w = (op_fits cap p w \<and> ops_fit cap ps (window_do p w))"

definition ring_window :: "ring \<Rightarrow> bytes \<times> bytes" where
  "ring_window r = (ring_inflight r, ring_readable r)"

lemma ring_free_window:
  "ring_ok r \<Longrightarrow> ring_free r = unat (max_size r) - (length (ring_inflight r) + length (ring_readable r))"
  using ring_okD(7) [of r] by (simp add: ring_free_def inflight_length readable_length)

lemma ring_do_step:
  assumes "ring_ok r" "op_fits (unat (max_size r)) p (ring_window r)"
  shows "ring_ok (ring_do p r) \<and> ring_window (ring_do p r) = window_do p (ring_window r)
     \<and> max_size (ring_do p r) = max_size r"
proof (cases p)
  case (OpPut bs)
  with assms ring_free_window [OF assms(1)] have "length bs \<le> ring_free r" by (simp add: ring_window_def)
  from rw.put_ok [OF assms(1) this] OpPut show ?thesis
    by (simp add: ring_window_def) (simp add: ring_put_def hev_ring_buffer_write_finish_def)
next
  case (OpHandOn n)
  with assms rw.hand_on_ok [of r n] show ?thesis
    by (simp add: ring_window_def) (simp add: hev_ring_buffer_read_finish_def)
next
  case (OpRelease n)
  with assms rw.release_ok [of r n] show ?thesis
    by (simp add: ring_window_def) (simp add: hev_ring_buffer_read_release_def Let_def)
qed

lemma ring_do_run:
  "ring_ok r \<Longrightarrow> ops_fit (unat (max_size r)) ps (ring_window r) \<Longrightarrow>
     ring_ok (fold ring_do ps r) \<and> ring_window (fold ring_do ps r) = fold window_do ps (ring_window r)"
proof (induction ps arbitrary: r)
  case (Cons p ps)
  with ring_do_step [of r p] Cons.IH [of "ring_do p r"] show ?case by simp
qed simp

text \<open>
  C4: The ring buffer is a window of a byte stream.  Over any sequence of filling, handing on and
  releasing that fits, it keeps its invariant, never wraps its 64-bit counters, and holds
  exactly the bytes that the window of the stream holds, in flight and readable, in order.
\<close>

theorem ring_refines_window:
  assumes "length mem = unat n" "0 < unat n" "unat n < 2 ^ 63" "ops_fit (unat n) ps ([], [])"
  shows "ring_ok (fold ring_do ps (hev_ring_buffer_alloca mem n))
    \<and> ring_window (fold ring_do ps (hev_ring_buffer_alloca mem n)) = fold window_do ps ([], [])"
proof -
  have "ring_window (hev_ring_buffer_alloca mem n) = ([], [])" by (simp add: ring_window_def)
  moreover have "max_size (hev_ring_buffer_alloca mem n) = n" by (simp add: hev_ring_buffer_alloca_def)
  ultimately show ?thesis
    using ring_do_run [OF ring_ok_alloca [OF assms(1-3)], of ps] assms(4) by simp
qed

theorem ring_refines_window_witness:
  "ring_window (fold ring_do [OpPut [1, 2, 3], OpHandOn 2, OpRelease 1, OpPut [4, 5], OpHandOn 2]
      (hev_ring_buffer_alloca [0, 0, 0, 0] 4)) = ([2, 3, 4], [5])"
  using ring_refines_window [of "[0, 0, 0, 0]" 4
      "[OpPut [1, 2, 3], OpHandOn 2, OpRelease 1, OpPut [4, 5], OpHandOn 2]"] by simp

lemma positions_disjoint:
  assumes "ring_ok r"
  shows "set (iov_idx (hev_ring_buffer_reading r)) \<inter> set (iov_idx (hev_ring_buffer_writing r)) = {}"
proof -
  note ok = ring_okD [OF assms]
  have "False" if "i < unat (rda_size r)" "j < ring_free r"
    and "(unat (rp r) + i) mod unat (max_size r) = (unat (wp r) + j) mod unat (max_size r)" for i j
  proof -
    have "(unat (rp r) + i) mod unat (max_size r) = (unat (rp r) + (unat (rda_size r) + j)) mod unat (max_size r)"
      using that(3) ok(6) by (simp add: mod_add_left_eq add.assoc)
    then have "i = unat (rda_size r) + j"
      using that(1,2) ok(2,7,8) by (intro circ_inj [of "unat (rp r)" i "unat (max_size r)"]) (auto simp: ring_free_def)
    with that(1) show False by simp
  qed
  then show ?thesis by (auto simp: reading_idx [OF assms] writing_idx [OF assms])
qed

text \<open>
  The vectors that the buffer hands out for reading and for writing stay inside its memory, cover
  exactly the readable bytes and the free space, and never overlap: a \<^verbatim>\<open>readv\<close> cannot touch
  bytes that are still to be sent.
\<close>

theorem ring_vectors_bounds:
  assumes "ring_ok r"
  shows "iov_within (length (rdata r)) (hev_ring_buffer_reading r)
    \<and> iov_within (length (rdata r)) (hev_ring_buffer_writing r)
    \<and> iov_load (rdata r) (hev_ring_buffer_reading r) = ring_readable r
    \<and> iov_total (hev_ring_buffer_writing r) = ring_free r
    \<and> set (iov_idx (hev_ring_buffer_reading r)) \<inter> set (iov_idx (hev_ring_buffer_writing r)) = {}"
  using reading_idx(2) writing_idx(2) reading_load writing_total positions_disjoint assms by blast

theorem ring_vectors_bounds_witness:
  "iov_total (hev_ring_buffer_writing (hev_ring_buffer_alloca [7, 8, 9] 3)) = 3"
proof -
  have "ring_ok (hev_ring_buffer_alloca [7, 8, 9] 3)" by (rule ring_ok_alloca) simp_all
  from ring_vectors_bounds [OF this] show ?thesis
    by (simp add: ring_free_def hev_ring_buffer_alloca_def)
qed

end
