(* ===== verification/Session_Tcp.thy ===== *)
theory Session_Tcp
  imports Ring_Buffer Socks5_Addr
begin

text \<open>
  A TCP session of the tunnel: \<^verbatim>\<open>hev/src/hev-socks5-session-tcp.c\<close>, between a connection of the
  IP stack and the socket of the proxy connection.  Towards the proxy the bytes wait in a chain of
  packet buffers, towards the stack in the ring buffer.  The stack sends from the ring without
  copying, so a byte must stay in place until it is acknowledged.

  What the kernel and the stack answer to a call is an argument of the operation that makes the
  call.  The fields \<open>t_got\<close>, \<open>t_out\<close>, \<open>t_read\<close>, \<open>t_lwip\<close> and \<open>t_acked\<close> record
  the bytes that crossed each border.
\<close>

section \<open>State\<close>

record tcp_session =
  t_timeout :: int
  t_queue :: "bytes list"
  t_pcb :: bool
  t_pcb_eof :: bool
  t_ring :: ring
  t_shut_wr :: bool
  t_pcb_shut :: bool
  t_wakeups :: nat
  t_updates :: nat
  t_got :: bytes
  t_out :: bytes
  t_recved :: nat
  t_read :: bytes
  t_lwip :: bytes
  t_acked :: nat
  t_err :: bool
  t_aborted :: bool

text \<open>
  \<^verbatim>\<open>pbuf_free_header\<close> of the stack cuts bytes off the chain's head; its size argument has 16
  bits.
\<close>

fun pbuf_cut :: "bytes list \<Rightarrow> nat \<Rightarrow> bytes list" where
  "pbuf_cut [] n = []"
| "pbuf_cut (p # ps) n =
     (if n = 0 then p # ps
      else if n \<ge> length p then pbuf_cut ps (n - length p)
      else drop n p # ps)"

definition pbuf_free_header :: "bytes list \<Rightarrow> u16 \<Rightarrow> bytes list" where
  "pbuf_free_header q sz = pbuf_cut q (unat sz)"

datatype writev_out = WBytes nat | WAgain | WFail

datatype readv_out = RvBytes bytes | RvAgain | RvFail

section \<open>Splicing\<close>

definition tcp_splice_f :: "writev_out \<Rightarrow> tcp_session \<Rightarrow> int \<times> tcp_session" where
  "tcp_splice_f w s =
     (if t_queue s \<noteq> [] then
        (let data = concat (take 64 (t_queue s)) in
         case w of
           WAgain \<Rightarrow> (0, s)
         | WFail \<Rightarrow> (-1, s)
         | WBytes k \<Rightarrow>
             let n = min k (length data) in
             if n = 0 then (-1, s)
             else (1, s\<lparr>t_queue := pbuf_free_header (t_queue s) (of_nat n), t_out := t_out s @ take n data,
                        t_recved := (if t_pcb s then t_recved s + unat (of_nat n :: u16) else t_recved s)\<rparr>))
      else if t_pcb_eof s then (-1, s\<lparr>t_shut_wr := True\<rparr>)
      else (0, s))"

text \<open>The first half of \<^verbatim>\<open>tcp_splice_b\<close>: from the socket into the ring.\<close>

definition splice_b_fill :: "readv_out \<Rightarrow> tcp_session \<Rightarrow> int \<times> tcp_session" where
  "splice_b_fill rv s =
     (let iov = hev_ring_buffer_writing (t_ring s) in
      if iov = [] then (0, s)
      else case rv of
          RvAgain \<Rightarrow> (0, s)
        | RvFail \<Rightarrow> (-1, s)
        | RvBytes bs \<Rightarrow>
            let bs' = take (iov_total iov) bs in
            if bs' = [] then (-1, s)
            else (1, s\<lparr>t_ring := ring_put (t_ring s) bs', t_read := t_read s @ bs'\<rparr>))"

text \<open>
  The loop of \<^verbatim>\<open>tcp_write\<close> calls; a failed call does not end it.  The stack takes the length
  as a 16-bit integer.
\<close>

definition tcp_write_load :: "bytes \<Rightarrow> iov \<Rightarrow> bytes" where
  "tcp_write_load d v = take (unat (ucast (snd v) :: u16)) (drop (unat (fst v)) d)"

fun tcp_writes :: "bytes \<Rightarrow> iov list \<Rightarrow> bool list \<Rightarrow> bytes \<Rightarrow> bool \<times> bytes" where
  "tcp_writes d [] oks out = (False, out)"
| "tcp_writes d (v # iv) oks out =
     (let ok = (case oks of [] \<Rightarrow> True | b # _ \<Rightarrow> b) in
      case tcp_writes d iv (tl oks) (if ok then out @ tcp_write_load d v else out) of
        (err, out') \<Rightarrow> (\<not> ok \<or> err, out'))"

text \<open>The second half: from the ring to the stack.\<close>

definition splice_b_drain :: "bool list \<Rightarrow> bool \<Rightarrow> int \<Rightarrow> tcp_session \<Rightarrow> int \<times> tcp_session" where
  "splice_b_drain oks out_ok res s =
     (if \<not> t_pcb s then (-1, s)
      else let iov = hev_ring_buffer_reading (t_ring s) in
        if iov \<noteq> [] then
          (case tcp_writes (rdata (t_ring s)) iov oks (t_lwip s) of (err, lw) \<Rightarrow>
             let s1 = s\<lparr>t_ring := hev_ring_buffer_read_finish (t_ring s) (of_nat (iov_total iov)),
                        t_lwip := lw, t_err := (t_err s \<or> err)\<rparr> in
             (if err \<or> \<not> out_ok then -1 else 1, s1))
        else (res, if res < 0 then s\<lparr>t_pcb_shut := True\<rparr> else s))"

definition tcp_splice_b :: "readv_out \<Rightarrow> bool list \<Rightarrow> bool \<Rightarrow> tcp_session \<Rightarrow> int \<times> tcp_session" where
  "tcp_splice_b rv oks out_ok s =
     (case splice_b_fill rv s of (res, s1) \<Rightarrow> splice_b_drain oks out_ok res s1)"

section \<open>Callbacks of the stack\<close>

definition hev_socks5_session_terminate :: "tcp_session \<Rightarrow> tcp_session" where
  "hev_socks5_session_terminate s = s\<lparr>t_timeout := 0, t_wakeups := Suc (t_wakeups s)\<rparr>"

definition tcp_recv_handler :: "bytes list option \<Rightarrow> tcp_session \<Rightarrow> tcp_session" where
  "tcp_recv_handler p s =
     (let s1 = (case p of
                  Some ps \<Rightarrow> s\<lparr>t_queue := t_queue s @ ps, t_got := t_got s @ concat ps\<rparr>
                | None \<Rightarrow> s\<lparr>t_pcb_eof := True\<rparr>) in
      s1\<lparr>t_wakeups := Suc (t_wakeups s1)\<rparr>)"

definition tcp_sent_handler :: "u16 \<Rightarrow> tcp_session \<Rightarrow> tcp_session" where
  "tcp_sent_handler len s =
     s\<lparr>t_ring := hev_ring_buffer_read_release (t_ring s) (of_nat (unat len)),
       t_acked := t_acked s + unat len, t_wakeups := Suc (t_wakeups s)\<rparr>"

definition tcp_err_handler :: "tcp_session \<Rightarrow> tcp_session" where
  "tcp_err_handler s = hev_socks5_session_terminate (s\<lparr>t_pcb := False\<rparr>)"

datatype lwip_event = EvRecv "bytes list option" | EvSent u16 | EvErr

fun lwip_event_apply :: "lwip_event \<Rightarrow> tcp_session \<Rightarrow> tcp_session" where
  "lwip_event_apply (EvRecv p) s = tcp_recv_handler p s"
| "lwip_event_apply (EvSent n) s = tcp_sent_handler n s"
| "lwip_event_apply EvErr s = tcp_err_handler s"

text \<open>
  The stack calls back only for a live connection, acknowledges only bytes that it was given,
  delivers no more than its receive window (\<^verbatim>\<open>TCP_WND\<close>, below 65536 in
  \<^verbatim>\<open>lwipopts.h\<close>) beyond what the session has consumed, no empty buffers, and nothing behind the end of the
  stream.
\<close>

fun lwip_event_ok :: "lwip_event \<Rightarrow> tcp_session \<Rightarrow> bool" where
  "lwip_event_ok (EvSent n) s = (t_pcb s \<and> unat n \<le> length (ring_inflight (t_ring s)))"
| "lwip_event_ok (EvRecv (Some ps)) s =
     (t_pcb s \<and> \<not> t_pcb_eof s \<and> [] \<notin> set ps \<and> length (concat (t_queue s)) + length (concat ps) < 65536)"
| "lwip_event_ok (EvRecv None) s = (t_pcb s \<and> \<not> t_pcb_eof s)"
| "lwip_event_ok EvErr s = t_pcb s"

section \<open>The splice loop\<close>

text \<open>
  One turn: the answers to the calls of the two halves, the callbacks that run while the task
  yields, and what the timer reports when it is resumed.
\<close>

record turn_env =
  te_writev :: writev_out
  te_readv :: readv_out
  te_writes :: "bool list"
  te_output :: bool
  te_events :: "lwip_event list"
  te_timer :: int

text \<open>
  \<^verbatim>\<open>task_io_yielder\<close>; \<open>t_updates\<close> counts its calls of
  \<^verbatim>\<open>hev_socks5_tunnel_update_session\<close>.
\<close>

definition yield_events :: "yield_type \<Rightarrow> turn_env \<Rightarrow> tcp_session \<Rightarrow> int \<times> tcp_session" where
  "yield_events type e s =
     (let t = t_timeout s in
      (hev_socks5_task_io_yielder t type (te_timer e),
       (fold lwip_event_apply (te_events e) s)\<lparr>t_updates := Suc (t_updates s)\<rparr>))"

text \<open>The configured buffer size is cut to \<^verbatim>\<open>TCP_SND_BUF\<close>, eight segments of 8191 bytes.\<close>

definition TCP_SND_BUF :: int where
  "TCP_SND_BUF = 8 * 8191"

definition config_tcp_buffer_size :: "int \<Rightarrow> int" where
  "config_tcp_buffer_size n = (if n > TCP_SND_BUF then TCP_SND_BUF else n)"

text \<open>
  The main loop, then the loop that waits for the ring to be acknowledged.  A list of turns that
  ends leaves the task waiting: \<open>(False, s)\<close>.
\<close>

fun splice_wait :: "turn_env list \<Rightarrow> tcp_session \<Rightarrow> bool \<times> tcp_session" where
  "splice_wait es s =
     (if \<not> t_pcb s \<or> hev_ring_buffer_get_use_size (t_ring s) = 0 then (True, s)
      else case es of
          [] \<Rightarrow> (False, s)
        | e # es' \<Rightarrow>
            (case yield_events HEV_TASK_WAITIO e s of (y, s1) \<Rightarrow>
               if y < 0 then (True, s1) else splice_wait es' s1))"

fun splice_loop :: "turn_env list \<Rightarrow> int \<Rightarrow> int \<Rightarrow> tcp_session \<Rightarrow> bool \<times> tcp_session" where
  "splice_loop [] res_f res_b s = (False, s)"
| "splice_loop (e # es) res_f res_b s =
     (case (if res_f \<ge> 0 then tcp_splice_f (te_writev e) s else (res_f, s)) of (f, s1) \<Rightarrow>
      case (if res_b \<ge> 0 then tcp_splice_b (te_readv e) (te_writes e) (te_output e) s1 else (res_b, s1)) of (b, s2) \<Rightarrow>
        if \<not> (f > 0 \<or> b > 0) \<and> f AND b \<noteq> 0 then splice_wait es s2
        else let type = (if f > 0 \<or> b > 0 then HEV_TASK_YIELD else HEV_TASK_WAITIO) in
          case yield_events type e s2 of (y, s3) \<Rightarrow>
            if y < 0 then splice_wait es s3 else splice_loop es f b s3)"

definition hev_socks5_session_tcp_splice ::
    "bytes \<Rightarrow> int \<Rightarrow> turn_env list \<Rightarrow> tcp_session \<Rightarrow> bool \<times> tcp_session" where
  "hev_socks5_session_tcp_splice mem tcp_buffer_size es s =
     (if \<not> t_pcb s then (True, s)
      else splice_loop es 1 1 (s\<lparr>t_ring := hev_ring_buffer_alloca mem (word_of_int tcp_buffer_size)\<rparr>))"

declare splice_wait.simps [simp del]

text \<open>A session that is freed aborts a connection that is still there and frees the queue.\<close>

definition hev_socks5_session_tcp_destruct :: "tcp_session \<Rightarrow> tcp_session" where
  "hev_socks5_session_tcp_destruct s = s\<lparr>t_aborted := t_pcb s, t_queue := []\<rparr>"

section \<open>Steps and their invariant\<close>

inductive tcp_step :: "tcp_session \<Rightarrow> tcp_session \<Rightarrow> bool" where
  step_f: "tcp_splice_f w s = (res, s') \<Longrightarrow> tcp_step s s'"
| step_b: "tcp_splice_b rv oks out_ok s = (res, s') \<Longrightarrow> tcp_step s s'"
| step_event: "lwip_event_ok ev s \<Longrightarrow> tcp_step s (lwip_event_apply ev s)"
| step_update: "tcp_step s (s\<lparr>t_updates := n\<rparr>)"

inductive_cases tcp_stepE: "tcp_step s s'"

text \<open>
  What crossed the borders: towards the proxy, everything the stack delivered is written out or
  queued, in order; towards the stack, as long as no \<^verbatim>\<open>tcp_write\<close> has failed, everything read
  from the proxy is handed over or still readable in the ring, and the unacknowledged bytes are
  in the ring.
\<close>

definition tcp_inv :: "tcp_session \<Rightarrow> bool" where
  "tcp_inv s \<longleftrightarrow> t_got s = t_out s @ concat (t_queue s) \<and> length (concat (t_queue s)) < 65536
     \<and> t_recved s \<le> length (t_out s) \<and> ring_ok (t_ring s) \<and> unat (max_size (t_ring s)) < 65536
     \<and> (\<not> t_err s \<longrightarrow> t_read s = t_lwip s @ ring_readable (t_ring s)
          \<and> t_acked s \<le> length (t_lwip s) \<and> ring_inflight (t_ring s) = drop (t_acked s) (t_lwip s))"

lemma concat_pbuf_cut: "concat (pbuf_cut ps n) = drop n (concat ps)"
  by (induction ps n rule: pbuf_cut.induct) auto

lemma take_concat_take: "n \<le> length (concat (take k ps)) \<Longrightarrow> take n (concat (take k ps)) = take n (concat ps)"
proof -
  have "concat ps = concat (take k ps) @ concat (drop k ps)"
    by (metis append_take_drop_id concat_append)
  then show "n \<le> length (concat (take k ps)) \<Longrightarrow> ?thesis" by simp
qed

lemma length_concat_take: "length (concat (take k ps)) \<le> length (concat ps)"
proof -
  have "concat ps = concat (take k ps) @ concat (drop k ps)"
    by (metis append_take_drop_id concat_append)
  then show ?thesis by simp
qed

lemma splice_f_inv:
  assumes "tcp_inv s" "tcp_splice_f w s = (res, s')"
  shows "tcp_inv s'"
proof (cases "t_queue s \<noteq> [] \<and> (\<exists>k. w = WBytes k \<and> 0 < min k (length (concat (take 64 (t_queue s)))))")
  case True
  then obtain k where k: "w = WBytes k" "0 < min k (length (concat (take 64 (t_queue s))))" by blast
  let ?n = "min k (length (concat (take 64 (t_queue s))))"
  have n: "?n \<le> length (concat (t_queue s))" "?n < 65536"
    using length_concat_take [of 64 "t_queue s"] assms(1) by (auto simp: tcp_inv_def)
  have "take ?n (concat (t_queue s)) @ drop ?n (concat (t_queue s)) = concat (t_queue s)" by simp
  moreover have "s' = s\<lparr>t_queue := pbuf_free_header (t_queue s) (of_nat ?n), t_out := t_out s @ take ?n (concat (t_queue s)),
      t_recved := (if t_pcb s then t_recved s + ?n else t_recved s)\<rparr>"
    using assms(2) k True take_concat_take [of ?n 64 "t_queue s"] n(2)
    by (auto simp: tcp_splice_f_def Let_def unat_of_nat_u16)
  ultimately show ?thesis
    using assms(1) n by (auto simp: tcp_inv_def pbuf_free_header_def concat_pbuf_cut unat_of_nat_u16)
next
  case False
  then have "s' = s \<or> s' = s\<lparr>t_shut_wr := True\<rparr>"
    using assms(2) by (auto simp: tcp_splice_f_def Let_def split: if_splits writev_out.splits)
  with assms(1) show ?thesis by (auto simp: tcp_inv_def)
qed

lemma event_inv:
  assumes "tcp_inv s" "lwip_event_ok ev s"
  shows "tcp_inv (lwip_event_apply ev s)"
proof (cases ev)
  case (EvSent n)
  then have n: "unat n \<le> length (ring_inflight (t_ring s))" using assms(2) by simp
  have ok: "ring_ok (t_ring s)" using assms(1) by (simp add: tcp_inv_def)
  have l: "t_acked s + unat n \<le> length (t_lwip s)" if "\<not> t_err s"
    using assms(1) n that by (auto simp: tcp_inv_def)
  have "max_size (hev_ring_buffer_read_release (t_ring s) m) = max_size (t_ring s)" for m
    by (simp add: hev_ring_buffer_read_release_def Let_def)
  then show ?thesis
    using EvSent assms(1) rw.release_ok [OF ok n] l
    by (auto simp: tcp_inv_def tcp_sent_handler_def add.commute)
next
  case (EvRecv p)
  with assms show ?thesis by (cases p) (auto simp: tcp_inv_def tcp_recv_handler_def Let_def)
next
  case EvErr
  with assms show ?thesis by (simp add: tcp_inv_def tcp_err_handler_def hev_socks5_session_terminate_def)
qed

lemma fill_cases:
  assumes "ring_ok (t_ring s)" "splice_b_fill rv s = (res, s')"
  shows "s' = s \<or> (\<exists>bs. length bs \<le> ring_free (t_ring s)
      \<and> s' = s\<lparr>t_ring := ring_put (t_ring s) bs, t_read := t_read s @ bs\<rparr>)"
proof (cases rv)
  case (RvBytes bs)
  let ?bs = "take (iov_total (hev_ring_buffer_writing (t_ring s))) bs"
  have "s' = s \<or> s' = s\<lparr>t_ring := ring_put (t_ring s) ?bs, t_read := t_read s @ ?bs\<rparr>"
    using assms(2) RvBytes by (auto simp: splice_b_fill_def Let_def split: if_splits)
  moreover have "length ?bs \<le> ring_free (t_ring s)" using writing_total [OF assms(1)] by simp
  ultimately show ?thesis by blast
qed (use assms(2) in \<open>auto simp: splice_b_fill_def Let_def split: if_splits\<close>)

lemma fill_inv:
  assumes "tcp_inv s" "splice_b_fill rv s = (res, s')"
  shows "tcp_inv s'"
proof -
  have ok: "ring_ok (t_ring s)" using assms(1) by (simp add: tcp_inv_def)
  from fill_cases [OF ok assms(2)] show ?thesis
  proof (elim disjE exE conjE)
    fix bs
    assume l: "length bs \<le> ring_free (t_ring s)"
      and s': "s' = s\<lparr>t_ring := ring_put (t_ring s) bs, t_read := t_read s @ bs\<rparr>"
    have "max_size (ring_put (t_ring s) bs) = max_size (t_ring s)"
      by (simp add: ring_put_def hev_ring_buffer_write_finish_def)
    then show ?thesis using assms(1) rw.put_ok [OF ok l] s' by (simp add: tcp_inv_def)
  qed (use assms(1) in simp)
qed

lemma tcp_writes_ok:
  assumes "tcp_writes d iv oks out = (False, out')" "iov_total iv < 65536"
  shows "out' = out @ iov_load d iv"
  using assms
proof (induction d iv oks out arbitrary: out' rule: tcp_writes.induct)
  case (2 d v iv oks out)
  obtain b l where v: "v = (b, l)" by fastforce
  have "unat (ucast l :: u16) = unat l"
    using 2(3) by (simp add: v iov_total_def unsigned_ucast_eq unsigned_take_bit_eq take_bit_nat_eq_self)
  then have "tcp_write_load d v = take (unat l) (drop (unat b) d)" by (simp add: v tcp_write_load_def)
  with 2 show ?case
    by (auto simp: v iov_total_def Let_def split: prod.splits if_splits)
qed simp

lemma drain_inv:
  assumes "tcp_inv s" "splice_b_drain oks out_ok res s = (res', s')"
  shows "tcp_inv s'"
proof (cases "t_pcb s \<and> hev_ring_buffer_reading (t_ring s) \<noteq> []")
  case True
  let ?iov = "hev_ring_buffer_reading (t_ring s)"
  have ok: "ring_ok (t_ring s)" using assms(1) by (simp add: tcp_inv_def)
  obtain err lw where w: "tcp_writes (rdata (t_ring s)) ?iov oks (t_lwip s) = (err, lw)" by fastforce
  then have s': "s' = s\<lparr>t_ring := hev_ring_buffer_read_finish (t_ring s) (of_nat (length (ring_readable (t_ring s)))),
      t_lwip := lw, t_err := (t_err s \<or> err)\<rparr>"
    using assms(2) True reading_total [OF ok] by (auto simp: splice_b_drain_def Let_def)
  have "length (ring_readable (t_ring s)) < 65536"
    using assms(1) ring_okD(7,8) [OF ok] readable_length [OF ok] by (simp add: tcp_inv_def)
  then have lw: "lw = t_lwip s @ ring_readable (t_ring s)" if "\<not> err"
    using tcp_writes_ok [of "rdata (t_ring s)" ?iov oks "t_lwip s" lw] w that
    by (simp add: reading_load [OF ok] reading_total [OF ok])
  have "max_size (t_ring s') = max_size (t_ring s)" by (simp add: s' hev_ring_buffer_read_finish_def)
  then show ?thesis using s' assms(1) rw.hand_on_all [OF ok] lw
    by (cases "t_err s \<or> err") (simp_all add: tcp_inv_def)
next
  case False
  then have "s' = s \<or> s' = s\<lparr>t_pcb_shut := True\<rparr>"
    using assms(2) by (auto simp: splice_b_drain_def Let_def split: if_splits)
  with assms(1) show ?thesis by (auto simp: tcp_inv_def)
qed

lemma tcp_step_inv: "tcp_step s s' \<Longrightarrow> tcp_inv s \<Longrightarrow> tcp_inv s'"
proof (induction rule: tcp_step.induct)
  case (step_f w s res s')
  then show ?case by (blast intro: splice_f_inv)
next
  case (step_b rv oks out_ok s res s')
  then show ?case by (auto simp: tcp_splice_b_def split: prod.splits intro: fill_inv drain_inv)
next
  case (step_event ev s)
  then show ?case by (blast intro: event_inv)
qed (simp add: tcp_inv_def)

lemma tcp_reach_inv: "tcp_step\<^sup>*\<^sup>* s s' \<Longrightarrow> tcp_inv s \<Longrightarrow> tcp_inv s'"
  by (induction rule: rtranclp_induct) (auto intro: tcp_step_inv)

text \<open>The callbacks of a turn respect the stack's contract, each in the state it finds.\<close>

fun events_ok :: "lwip_event list \<Rightarrow> tcp_session \<Rightarrow> bool" where
  "events_ok [] s = True"
| "events_ok (e # es) s = (lwip_event_ok e s \<and> events_ok es (lwip_event_apply e s))"

lemma events_reach: "events_ok es s \<Longrightarrow> tcp_step\<^sup>*\<^sup>* s (fold lwip_event_apply es s)"
  by (induction es s rule: events_ok.induct)
    (auto intro: converse_rtranclp_into_rtranclp step_event)

text \<open>
  Every state that the splicer reaches is reached by steps, when the callbacks of each turn
  respect the contract in the state in which the task yields.  The conditions follow the loops: nothing is
  asked of a turn that is not taken, and nothing of its callbacks in a state in which they do not run.
\<close>

definition after_yield :: "turn_env \<Rightarrow> tcp_session \<Rightarrow> tcp_session" where
  "after_yield e s = snd (yield_events HEV_TASK_WAITIO e s)"

fun wait_ok :: "turn_env list \<Rightarrow> tcp_session \<Rightarrow> bool" where
  "wait_ok es s =
     (if \<not> t_pcb s \<or> hev_ring_buffer_get_use_size (t_ring s) = 0 then True
      else case es of
          [] \<Rightarrow> True
        | e # es' \<Rightarrow>
            events_ok (te_events e) s
            \<and> (case yield_events HEV_TASK_WAITIO e s of (y, s1) \<Rightarrow> if y < 0 then True else wait_ok es' s1))"

fun loop_ok :: "turn_env list \<Rightarrow> int \<Rightarrow> int \<Rightarrow> tcp_session \<Rightarrow> bool" where
  "loop_ok [] res_f res_b s = True"
| "loop_ok (e # es) res_f res_b s =
     (case (if res_f \<ge> 0 then tcp_splice_f (te_writev e) s else (res_f, s)) of (f, s1) \<Rightarrow>
      case (if res_b \<ge> 0 then tcp_splice_b (te_readv e) (te_writes e) (te_output e) s1 else (res_b, s1)) of (b, s2) \<Rightarrow>
        if \<not> (f > 0 \<or> b > 0) \<and> f AND b \<noteq> 0 then wait_ok es s2
        else let type = (if f > 0 \<or> b > 0 then HEV_TASK_YIELD else HEV_TASK_WAITIO) in
          events_ok (te_events e) s2
          \<and> (case yield_events type e s2 of (y, s3) \<Rightarrow> if y < 0 then wait_ok es s3 else loop_ok es f b s3))"

declare wait_ok.simps [simp del]

lemma yield_reach: "events_ok (te_events e) s \<Longrightarrow> tcp_step\<^sup>*\<^sup>* s (after_yield e s)"
  by (auto simp: after_yield_def yield_events_def Let_def
      intro: rtranclp_trans [OF events_reach r_into_rtranclp] step_update)

lemma splice_wait_reach: "splice_wait es s = (d, s') \<Longrightarrow> wait_ok es s \<Longrightarrow> tcp_step\<^sup>*\<^sup>* s s'"
proof (induction es arbitrary: s)
  case Nil
  then show ?case by (subst (asm) splice_wait.simps) (auto split: if_splits)
next
  case (Cons e es)
  show ?case
  proof (cases "\<not> t_pcb s \<or> hev_ring_buffer_get_use_size (t_ring s) = 0")
    case True
    then show ?thesis using Cons.prems(1) by (subst (asm) splice_wait.simps) auto
  next
    case False
    obtain y where y: "yield_events HEV_TASK_WAITIO e s = (y, after_yield e s)" by (simp add: after_yield_def yield_events_def Let_def)
    have ok: "events_ok (te_events e) s" "\<not> y < 0 \<Longrightarrow> wait_ok es (after_yield e s)"
      using Cons.prems(2) False y by (subst (asm) wait_ok.simps; simp)+
    have r: "tcp_step\<^sup>*\<^sup>* s (after_yield e s)" by (rule yield_reach [OF ok(1)])
    have "y < 0 \<and> s' = after_yield e s \<or> \<not> y < 0 \<and> splice_wait es (after_yield e s) = (d, s')"
      using Cons.prems(1) False y by (subst (asm) splice_wait.simps) (auto split: if_splits)
    with r Cons.IH [OF _ ok(2)] show ?thesis by (auto intro: rtranclp_trans)
  qed
qed

lemma half_turns_reach:
  assumes "(if res_f \<ge> 0 then tcp_splice_f w s else (res_f, s)) = (f, s1)"
    and "(if res_b \<ge> 0 then tcp_splice_b rv oks ok s1 else (res_b, s1)) = (b, s2)"
  shows "tcp_step\<^sup>*\<^sup>* s s2"
proof -
  have "tcp_step\<^sup>*\<^sup>* s s1" using assms(1) by (auto intro: r_into_rtranclp step_f split: if_splits)
  moreover have "tcp_step\<^sup>*\<^sup>* s1 s2" using assms(2) by (auto intro: r_into_rtranclp step_b split: if_splits)
  ultimately show ?thesis by (rule rtranclp_trans)
qed

text \<open>One turn of the main loop, from the results of its halves.\<close>

definition turn_yield :: "turn_env \<Rightarrow> int \<Rightarrow> int \<Rightarrow> tcp_session \<Rightarrow> int" where
  "turn_yield e f b s = fst (yield_events (if f > 0 \<or> b > 0 then HEV_TASK_YIELD else HEV_TASK_WAITIO) e s)"

lemma splice_turn:
  assumes "(if res_f \<ge> 0 then tcp_splice_f (te_writev e) s else (res_f, s)) = (f, s1)"
    and "(if res_b \<ge> 0 then tcp_splice_b (te_readv e) (te_writes e) (te_output e) s1 else (res_b, s1)) = (b, s2)"
  shows "splice_loop (e # es) res_f res_b s =
      (if \<not> (f > 0 \<or> b > 0) \<and> f AND b \<noteq> 0 then splice_wait es s2
       else if turn_yield e f b s2 < 0 then splice_wait es (after_yield e s2)
       else splice_loop es f b (after_yield e s2))"
    and "loop_ok (e # es) res_f res_b s =
      (if \<not> (f > 0 \<or> b > 0) \<and> f AND b \<noteq> 0 then wait_ok es s2
       else events_ok (te_events e) s2 \<and>
         (if turn_yield e f b s2 < 0 then wait_ok es (after_yield e s2)
          else loop_ok es f b (after_yield e s2)))"
proof -
  have y: "yield_events type e s2 = (fst (yield_events type e s2), after_yield e s2)" for type
    by (simp add: after_yield_def yield_events_def Let_def)
  show "splice_loop (e # es) res_f res_b s =
      (if \<not> (f > 0 \<or> b > 0) \<and> f AND b \<noteq> 0 then splice_wait es s2
       else if turn_yield e f b s2 < 0 then splice_wait es (after_yield e s2)
       else splice_loop es f b (after_yield e s2))"
    unfolding splice_loop.simps assms prod.case turn_yield_def Let_def by (subst y) simp
  show "loop_ok (e # es) res_f res_b s =
      (if \<not> (f > 0 \<or> b > 0) \<and> f AND b \<noteq> 0 then wait_ok es s2
       else events_ok (te_events e) s2 \<and>
         (if turn_yield e f b s2 < 0 then wait_ok es (after_yield e s2)
          else loop_ok es f b (after_yield e s2)))"
    unfolding loop_ok.simps assms prod.case turn_yield_def Let_def by (subst y) simp
qed

lemma splice_loop_reach:
  "splice_loop es res_f res_b s = (d, s') \<Longrightarrow> loop_ok es res_f res_b s \<Longrightarrow> tcp_step\<^sup>*\<^sup>* s s'"
proof (induction es arbitrary: res_f res_b s)
  case (Cons e es)
  obtain f s1 where f: "(if res_f \<ge> 0 then tcp_splice_f (te_writev e) s else (res_f, s)) = (f, s1)" by fastforce
  obtain b s2 where b: "(if res_b \<ge> 0 then tcp_splice_b (te_readv e) (te_writes e) (te_output e) s1
      else (res_b, s1)) = (b, s2)" by fastforce
  let ?s3 = "after_yield e s2"
  have s2: "tcp_step\<^sup>*\<^sup>* s s2" by (rule half_turns_reach [OF f b])
  consider "splice_wait es s2 = (d, s')" "wait_ok es s2"
    | "events_ok (te_events e) s2" "splice_wait es ?s3 = (d, s')" "wait_ok es ?s3"
    | "events_ok (te_events e) s2" "splice_loop es f b ?s3 = (d, s')" "loop_ok es f b ?s3"
    using Cons.prems unfolding splice_turn [OF f b] by (auto split: if_splits)
  then show ?case
  proof cases
    case 1
    then show ?thesis using s2 splice_wait_reach by (blast intro: rtranclp_trans)
  next
    case 2
    have "tcp_step\<^sup>*\<^sup>* s2 s'" using yield_reach [OF 2(1)] splice_wait_reach [OF 2(2,3)] by (rule rtranclp_trans)
    then show ?thesis using s2 by (rule rtranclp_trans [rotated])
  next
    case 3
    have "tcp_step\<^sup>*\<^sup>* s2 s'" using yield_reach [OF 3(1)] Cons.IH [OF 3(2,3)] by (rule rtranclp_trans)
    then show ?thesis using s2 by (rule rtranclp_trans [rotated])
  qed
qed simp

lemma tcp_inv_start:
  assumes "0 < n" "n \<le> TCP_SND_BUF" "length mem = nat n"
    and "t_got s = t_out s @ concat (t_queue s)" "length (concat (t_queue s)) < 65536"
    and "t_recved s \<le> length (t_out s)" "t_read s = []" "t_lwip s = []" "t_acked s = 0"
  shows "tcp_inv (s\<lparr>t_ring := hev_ring_buffer_alloca mem (word_of_int n)\<rparr>)"
proof -
  have n: "unat (word_of_int n :: usize) = nat n"
    using assms(1,2) by (simp add: TCP_SND_BUF_def unat_eq_nat_uint uint_word_of_int)
  have "ring_ok (hev_ring_buffer_alloca mem (word_of_int n))"
    using assms(1-3) n by (intro ring_ok_alloca) (auto simp: TCP_SND_BUF_def)
  then show ?thesis
    using assms n by (simp add: tcp_inv_def ring_readable_def ring_inflight_def ring_content_def
        hev_ring_buffer_alloca_def TCP_SND_BUF_def)
qed

section \<open>The end of the splicer\<close>

text \<open>A session with a live connection has not been told to end.\<close>

definition undisturbed :: "tcp_session \<Rightarrow> bool" where
  "undisturbed s \<longleftrightarrow> (t_pcb s \<longrightarrow> t_timeout s \<noteq> 0)"

lemma events_undisturbed: "undisturbed s \<Longrightarrow> undisturbed (fold lwip_event_apply es s)"
proof (induction es arbitrary: s)
  case (Cons e es)
  have "undisturbed (lwip_event_apply e s)"
    using Cons.prems by (cases e) (auto simp: undisturbed_def tcp_recv_handler_def tcp_sent_handler_def
        tcp_err_handler_def hev_socks5_session_terminate_def Let_def split: option.splits)
  with Cons.IH show ?case by simp
qed simp

lemma yield_undisturbed: "undisturbed s \<Longrightarrow> undisturbed (snd (yield_events type e s))"
  using events_undisturbed [of s "te_events e"] by (simp add: yield_events_def undisturbed_def Let_def)

lemma half_turns_undisturbed:
  assumes "(if res_f \<ge> 0 then tcp_splice_f w s else (res_f, s)) = (f, s1)"
    and "(if res_b \<ge> 0 then tcp_splice_b rv oks ok s1 else (res_b, s1)) = (b, s2)" "undisturbed s"
  shows "undisturbed s2"
proof -
  have "t_pcb s1 = t_pcb s \<and> t_timeout s1 = t_timeout s"
    using assms(1) by (auto simp: tcp_splice_f_def Let_def split: if_splits writev_out.splits)
  moreover have "t_pcb s2 = t_pcb s1 \<and> t_timeout s2 = t_timeout s1"
    using assms(2) by (auto simp: tcp_splice_b_def splice_b_fill_def splice_b_drain_def Let_def
        split: if_splits prod.splits readv_out.splits)
  ultimately show ?thesis using assms(3) by (simp add: undisturbed_def)
qed

lemma splice_wait_done:
  "splice_wait es s = (True, s') \<Longrightarrow> undisturbed s \<Longrightarrow> \<forall>e\<in>set es. 0 < te_timer e \<Longrightarrow> t_pcb s' \<Longrightarrow>
     use_size (t_ring s') = 0"
proof (induction es arbitrary: s)
  case Nil
  then show ?case by (subst (asm) splice_wait.simps) (auto simp: hev_ring_buffer_get_use_size_def split: if_splits)
next
  case (Cons e es)
  obtain y s1 where y: "yield_events HEV_TASK_WAITIO e s = (y, s1)" by fastforce
  show ?case
  proof (cases "\<not> t_pcb s \<or> use_size (t_ring s) = 0")
    case True
    with Cons.prems(1) have "s' = s" by (subst (asm) splice_wait.simps) (auto simp: hev_ring_buffer_get_use_size_def)
    with True Cons.prems(4) show ?thesis by simp
  next
    case False
    have "\<not> y < 0"
      using y False Cons.prems(2,3)
      by (auto simp: yield_events_def undisturbed_def hev_socks5_task_io_yielder_def hev_task_sleep_def Let_def
          split: if_splits)
    then have "splice_wait es s1 = (True, s')"
      using Cons.prems(1) False y by (subst (asm) splice_wait.simps) (simp add: hev_ring_buffer_get_use_size_def)
    moreover have "undisturbed s1" using yield_undisturbed [OF Cons.prems(2), of HEV_TASK_WAITIO e] y by simp
    ultimately show ?thesis using Cons.IH [of s1] Cons.prems(3,4) by simp
  qed
qed

lemma splice_loop_done:
  "splice_loop es res_f res_b s = (True, s') \<Longrightarrow> undisturbed s \<Longrightarrow> \<forall>e\<in>set es. 0 < te_timer e \<Longrightarrow> t_pcb s' \<Longrightarrow>
     use_size (t_ring s') = 0"
proof (induction es arbitrary: res_f res_b s)
  case (Cons e es)
  obtain f s1 where f: "(if res_f \<ge> 0 then tcp_splice_f (te_writev e) s else (res_f, s)) = (f, s1)" by fastforce
  obtain b s2 where b: "(if res_b \<ge> 0 then tcp_splice_b (te_readv e) (te_writes e) (te_output e) s1
      else (res_b, s1)) = (b, s2)" by fastforce
  let ?s3 = "after_yield e s2"
  have u2: "undisturbed s2" by (rule half_turns_undisturbed [OF f b Cons.prems(2)])
  have u3: "undisturbed ?s3" unfolding after_yield_def by (rule yield_undisturbed [OF u2])
  have "splice_wait es s2 = (True, s') \<or> splice_wait es ?s3 = (True, s') \<or> splice_loop es f b ?s3 = (True, s')"
    using Cons.prems(1) f b by (auto simp: yield_events_def after_yield_def Let_def split: if_splits)
  then show ?case
    using splice_wait_done [OF _ u2] splice_wait_done [OF _ u3] Cons.IH [OF _ u3] Cons.prems(3,4) by auto
qed simp

text \<open>
  Towards the proxy: when the first half has ended without a failed write, the stack has ended its
  stream, everything it delivered was written and the socket is shut down for writing.
\<close>

definition out_inv :: "int \<Rightarrow> tcp_session \<Rightarrow> bool" where
  "out_inv f s \<longleftrightarrow> [] \<notin> set (t_queue s) \<and> (f < 0 \<longrightarrow> t_shut_wr s \<and> t_pcb_eof s \<and> t_queue s = [])"

definition write_fine :: "turn_env \<Rightarrow> bool" where
  "write_fine e \<longleftrightarrow> te_writev e \<noteq> WFail \<and> te_writev e \<noteq> WBytes 0"

lemma pbuf_cut_nonempty: "[] \<notin> set ps \<Longrightarrow> [] \<notin> set (pbuf_cut ps n)"
  by (induction ps n rule: pbuf_cut.induct) auto

lemma splice_f_out:
  assumes "tcp_splice_f w s = (f, s')" "[] \<notin> set (t_queue s)" "w \<noteq> WFail" "w \<noteq> WBytes 0"
  shows "out_inv f s'"
proof (cases "t_queue s")
  case Nil
  then show ?thesis using assms by (auto simp: tcp_splice_f_def out_inv_def split: if_splits)
next
  case (Cons p ps)
  then have n: "concat (take 64 (t_queue s)) \<noteq> []" using assms(2) by auto
  show ?thesis
  proof (cases w)
    case (WBytes k)
    define m where "m = min k (length (concat (take 64 (t_queue s))))"
    have "m \<noteq> 0" using n assms(4) WBytes unfolding m_def by (simp add: min_def del: concat_eq_Nil_conv)
    then have "f = 1 \<and> t_queue s' = pbuf_free_header (t_queue s) (of_nat m)"
      using assms(1) Cons unfolding tcp_splice_f_def Let_def WBytes writev_out.case m_def [symmetric] by auto
    then show ?thesis using assms(2) by (simp add: out_inv_def pbuf_free_header_def pbuf_cut_nonempty)
  qed (use assms Cons in \<open>auto simp: tcp_splice_f_def out_inv_def Let_def\<close>)
qed

lemma splice_b_out:
  assumes "tcp_splice_b rv oks ok s = (b, s')"
  shows "out_inv f s' = out_inv f s"
proof -
  have "t_queue s' = t_queue s \<and> t_shut_wr s' = t_shut_wr s \<and> t_pcb_eof s' = t_pcb_eof s"
    using assms by (auto simp: tcp_splice_b_def splice_b_fill_def splice_b_drain_def Let_def
        split: if_splits prod.splits readv_out.splits)
  then show ?thesis by (simp add: out_inv_def)
qed

lemma events_out: "events_ok es s \<Longrightarrow> out_inv f s \<Longrightarrow> out_inv f (fold lwip_event_apply es s)"
proof (induction es s rule: events_ok.induct)
  case (2 e es s)
  have "out_inv f (lwip_event_apply e s)"
  proof (cases e)
    case (EvRecv p)
    then show ?thesis using 2(2,3) by (cases p) (auto simp: out_inv_def tcp_recv_handler_def Let_def)
  qed (use 2(3) in \<open>auto simp: out_inv_def tcp_sent_handler_def tcp_err_handler_def hev_socks5_session_terminate_def\<close>)
  then show ?case using 2 by simp
qed simp

lemma yield_out: "events_ok (te_events e) s \<Longrightarrow> out_inv f s \<Longrightarrow> out_inv f (after_yield e s)"
  using events_out [of "te_events e" s f] by (simp add: after_yield_def yield_events_def Let_def out_inv_def)

lemma wait_out: "splice_wait es s = (d, s') \<Longrightarrow> wait_ok es s \<Longrightarrow> out_inv f s \<Longrightarrow> out_inv f s'"
proof (induction es arbitrary: s)
  case Nil
  then show ?case by (subst (asm) splice_wait.simps) (auto split: if_splits)
next
  case (Cons e es)
  show ?case
  proof (cases "\<not> t_pcb s \<or> hev_ring_buffer_get_use_size (t_ring s) = 0")
    case True
    then show ?thesis using Cons.prems by (subst (asm) splice_wait.simps) auto
  next
    case False
    obtain y where y: "yield_events HEV_TASK_WAITIO e s = (y, after_yield e s)" by (simp add: after_yield_def yield_events_def Let_def)
    have ok: "events_ok (te_events e) s" "\<not> y < 0 \<Longrightarrow> wait_ok es (after_yield e s)"
      using Cons.prems(2) False y by (subst (asm) wait_ok.simps; simp)+
    have o: "out_inv f (after_yield e s)" by (rule yield_out [OF ok(1) Cons.prems(3)])
    have "y < 0 \<and> s' = after_yield e s \<or> \<not> y < 0 \<and> splice_wait es (after_yield e s) = (d, s')"
      using Cons.prems(1) False y by (subst (asm) splice_wait.simps) (auto split: if_splits)
    then show ?thesis using Cons.IH [OF _ ok(2) o] o by blast
  qed
qed

text \<open>A yield fails only for a session whose connection is gone.\<close>

lemma turn_yield_fails: "turn_yield e f b s < 0 \<Longrightarrow> undisturbed s \<Longrightarrow> 0 < te_timer e \<Longrightarrow> \<not> t_pcb s"
  by (auto simp: turn_yield_def yield_events_def undisturbed_def hev_socks5_task_io_yielder_def hev_task_sleep_def Let_def split: if_splits)

lemma events_no_pcb: "\<not> t_pcb s \<Longrightarrow> \<not> t_pcb (fold lwip_event_apply es s)"
proof (induction es arbitrary: s)
  case (Cons e es)
  have "\<not> t_pcb (lwip_event_apply e s)"
    using Cons.prems by (cases e) (auto simp: tcp_recv_handler_def tcp_sent_handler_def tcp_err_handler_def
        hev_socks5_session_terminate_def Let_def split: option.splits)
  with Cons.IH show ?case by simp
qed simp

lemma splice_wait_no_pcb: "\<not> t_pcb s \<Longrightarrow> splice_wait es s = (True, s)"
  by (subst splice_wait.simps) simp

lemma splice_loop_out:
  "splice_loop es res_f res_b s = (True, s') \<Longrightarrow> loop_ok es res_f res_b s \<Longrightarrow> out_inv res_f s \<Longrightarrow> undisturbed s \<Longrightarrow>
     \<forall>e\<in>set es. 0 < te_timer e \<and> write_fine e \<Longrightarrow> t_pcb s' \<Longrightarrow> out_inv (-1) s'"
proof (induction es arbitrary: res_f res_b s)
  case (Cons e es)
  obtain f s1 where f: "(if res_f \<ge> 0 then tcp_splice_f (te_writev e) s else (res_f, s)) = (f, s1)" by fastforce
  obtain b s2 where b: "(if res_b \<ge> 0 then tcp_splice_b (te_readv e) (te_writes e) (te_output e) s1
      else (res_b, s1)) = (b, s2)" by fastforce
  let ?s3 = "after_yield e s2"
  note turn = Cons.prems(1,2) [unfolded splice_turn [OF f b]]
  have e: "0 < te_timer e" "te_writev e \<noteq> WFail" "te_writev e \<noteq> WBytes 0" using Cons.prems(5) by (auto simp: write_fine_def)
  have "out_inv f s1"
    using f splice_f_out [OF _ _ e(2,3)] Cons.prems(3) by (auto simp: out_inv_def split: if_splits)
  then have o2: "out_inv f s2" using b splice_b_out [of _ _ _ s1 b s2 f] by (auto split: if_splits)
  have u2: "undisturbed s2" by (rule half_turns_undisturbed [OF f b Cons.prems(4)])
  have u3: "undisturbed ?s3" unfolding after_yield_def by (rule yield_undisturbed [OF u2])
  show ?case
  proof (cases "\<not> (f > 0 \<or> b > 0) \<and> f AND b \<noteq> 0")
    case True
    then have "f \<noteq> 0" by auto
    then have "f < 0" using True by linarith
    then show ?thesis using wait_out [OF _ _ o2, of es True s'] turn True by (simp add: out_inv_def)
  next
    case False
    show ?thesis
    proof (cases "turn_yield e f b s2 < 0")
      case True
      then have "\<not> t_pcb ?s3" using turn_yield_fails [OF True u2 e(1)] events_no_pcb [of s2 "te_events e"]
        by (simp add: after_yield_def yield_events_def Let_def)
      then show ?thesis using turn(1) True False Cons.prems(6) by (auto simp: splice_wait_no_pcb)
    next
      case y: False
      have k: "events_ok (te_events e) s2" "loop_ok es f b ?s3" "splice_loop es f b ?s3 = (True, s')"
        using turn y unfolding if_not_P [OF False] if_not_P [OF y] by simp_all
      show ?thesis by (rule Cons.IH [OF k(3,2) yield_out [OF k(1) o2] u3]) (use Cons.prems(5,6) in auto)
    qed
  qed
qed simp

section \<open>Properties of a session\<close>

text \<open>A session as it enters the splicer: only the stack may have delivered something.\<close>

definition tcp_fresh :: "tcp_session \<Rightarrow> bool" where
  "tcp_fresh s \<longleftrightarrow> t_pcb s \<and> t_got s = concat (t_queue s) \<and> length (concat (t_queue s)) < 65536
     \<and> t_out s = [] \<and> t_recved s = 0 \<and> t_read s = [] \<and> t_lwip s = [] \<and> t_acked s = 0 \<and> \<not> t_err s"

abbreviation with_ring :: "bytes \<Rightarrow> int \<Rightarrow> tcp_session \<Rightarrow> tcp_session" where
  "with_ring mem n s \<equiv> s\<lparr>t_ring := hev_ring_buffer_alloca mem (word_of_int n)\<rparr>"

lemma splice_inv:
  assumes "tcp_fresh s" "0 < n" "n \<le> TCP_SND_BUF" "length mem = nat n" "loop_ok es 1 1 (with_ring mem n s)"
    and "hev_socks5_session_tcp_splice mem n es s = (fin, s')"
  shows "tcp_inv s'"
proof -
  have "tcp_inv (with_ring mem n s)" using assms(1-4) by (intro tcp_inv_start) (auto simp: tcp_fresh_def)
  moreover have "splice_loop es 1 1 (with_ring mem n s) = (fin, s')"
    using assms(1,6) by (simp add: hev_socks5_session_tcp_splice_def tcp_fresh_def)
  ultimately show ?thesis using splice_loop_reach [OF _ assms(5)] tcp_reach_inv by blast
qed

lemma TCP_SND_BUF_bounds: "0 < n \<Longrightarrow> 0 < config_tcp_buffer_size n \<and> config_tcp_buffer_size n \<le> TCP_SND_BUF"
  by (simp add: config_tcp_buffer_size_def TCP_SND_BUF_def)

text \<open>
  C1: A TCP session is a pair of byte streams.  However the socket cuts the data, whatever the
  stack delivers and acknowledges meanwhile and whenever the splicer is looked at, the bytes
  written to the proxy and those queued are exactly what the stack delivered, in order, and the
  receive window is opened by no more than was written; as long as no write to the stack has
  failed, the bytes handed to the stack and those in the ring are exactly what the proxy sent,
  in order, and the unacknowledged ones are still in place in the ring.
\<close>

theorem tcp_session_streams:
  assumes "tcp_fresh s" "0 < sz" "n = config_tcp_buffer_size sz" "length mem = nat n"
    and "loop_ok es 1 1 (with_ring mem n s)" "hev_socks5_session_tcp_splice mem n es s = (fin, s')"
  shows "t_got s' = t_out s' @ concat (t_queue s') \<and> t_recved s' \<le> length (t_out s')
     \<and> (\<not> t_err s' \<longrightarrow> t_read s' = t_lwip s' @ ring_readable (t_ring s')
          \<and> ring_inflight (t_ring s') = drop (t_acked s') (t_lwip s'))"
proof -
  have "tcp_inv s'" using TCP_SND_BUF_bounds [OF assms(2)] assms by (intro splice_inv [of s n]) simp_all
  then show ?thesis by (auto simp: tcp_inv_def)
qed

definition ex_tcp :: tcp_session where
  "ex_tcp = \<lparr>t_timeout = -1, t_queue = [], t_pcb = True, t_pcb_eof = False,
     t_ring = hev_ring_buffer_alloca [] 0, t_shut_wr = False, t_pcb_shut = False, t_wakeups = 0, t_updates = 0,
     t_got = [], t_out = [], t_recved = 0, t_read = [], t_lwip = [], t_acked = 0, t_err = False, t_aborted = False\<rparr>"

lemmas splice_evals = ex_tcp_def tcp_splice_f_def tcp_splice_b_def splice_b_fill_def splice_b_drain_def Let_def
  hev_ring_buffer_alloca_def hev_ring_buffer_writing_def hev_ring_buffer_reading_def hev_ring_buffer_write_finish_def
  hev_ring_buffer_read_finish_def hev_ring_buffer_read_release_def ring_put_def iov_total_def after_yield_def
  yield_events_def tcp_recv_handler_def tcp_sent_handler_def pbuf_free_header_def ring_inflight_def ring_readable_def
  ring_content_def ring_base_def tcp_write_load_def hev_socks5_task_io_yielder_def splice_wait.simps wait_ok.simps
  hev_ring_buffer_get_use_size_def

theorem tcp_session_streams_witness:
  "\<exists>fin s'. hev_socks5_session_tcp_splice [0, 0, 0] 3
      [\<lparr>te_writev = WAgain, te_readv = RvBytes [7, 8], te_writes = [], te_output = True,
        te_events = [EvRecv (Some [[1, 2], [3]])], te_timer = 1\<rparr>,
       \<lparr>te_writev = WBytes 2, te_readv = RvBytes [9], te_writes = [], te_output = True,
        te_events = [EvSent 2], te_timer = 1\<rparr>,
       \<lparr>te_writev = WBytes 1, te_readv = RvAgain, te_writes = [], te_output = True,
        te_events = [EvSent 1], te_timer = 1\<rparr>] ex_tcp = (fin, s')
     \<and> t_acked s' = 3 \<and> t_got s' = t_out s' @ concat (t_queue s')"
proof -
  let ?es = "[\<lparr>te_writev = WAgain, te_readv = RvBytes [7, 8], te_writes = [], te_output = True,
        te_events = [EvRecv (Some [[1, 2], [3]])], te_timer = 1\<rparr>,
       \<lparr>te_writev = WBytes 2, te_readv = RvBytes [9], te_writes = [], te_output = True,
        te_events = [EvSent 2], te_timer = 1\<rparr>,
       \<lparr>te_writev = WBytes 1, te_readv = RvAgain, te_writes = [], te_output = True,
        te_events = [EvSent 1], te_timer = 1\<rparr>]"
  let ?r = "hev_socks5_session_tcp_splice [0, 0, 0] 3 ?es ex_tcp"
  have "loop_ok ?es 1 1 (with_ring [0, 0, 0] 3 ex_tcp)" by (simp add: splice_evals)
  moreover have "tcp_fresh ex_tcp" by (simp add: tcp_fresh_def ex_tcp_def)
  moreover have "3 = config_tcp_buffer_size 3" by (simp add: config_tcp_buffer_size_def TCP_SND_BUF_def)
  moreover have "t_acked (snd ?r) = 3" by (simp add: splice_evals hev_socks5_session_tcp_splice_def)
  ultimately show ?thesis using tcp_session_streams [of ex_tcp 3 3 "[0, 0, 0]" ?es "fst ?r" "snd ?r"]
    by (intro exI [of _ "fst ?r"] exI [of _ "snd ?r"]) simp
qed

text \<open>
  C38: A session that ends by itself has delivered everything, in both directions.  When the splicer
  returns while the connection to the stack is alive, no timer has expired and no write has failed, then
  all bytes that the proxy sent were handed to the stack and acknowledged, and the stack has ended its
  stream, all bytes that it delivered were written to the proxy and the socket was shut down for writing.
\<close>

theorem tcp_session_delivers_before_end:
  assumes "tcp_fresh s" "0 < sz" "n = config_tcp_buffer_size sz" "length mem = nat n" "[] \<notin> set (t_queue s)"
    and "loop_ok es 1 1 (with_ring mem n s)" "hev_socks5_session_tcp_splice mem n es s = (True, s')"
    and "t_timeout s \<noteq> 0" "\<forall>e\<in>set es. 0 < te_timer e \<and> write_fine e" "t_pcb s'" "\<not> t_err s'"
  shows "t_lwip s' = t_read s' \<and> t_acked s' = length (t_read s') \<and> t_pcb_eof s' \<and> t_out s' = t_got s' \<and> t_shut_wr s'"
proof -
  have inv: "tcp_inv s'" using TCP_SND_BUF_bounds [OF assms(2)] assms by (intro splice_inv [of s n]) simp_all
  have l: "splice_loop es 1 1 (with_ring mem n s) = (True, s')"
    using assms(1,7) by (simp add: hev_socks5_session_tcp_splice_def tcp_fresh_def)
  have u: "undisturbed (with_ring mem n s)" using assms(8) by (simp add: undisturbed_def)
  have "use_size (t_ring s') = 0" using splice_loop_done [OF l u] assms(9,10) by blast
  then have "ring_content (t_ring s') = []" by (simp add: ring_content_def)
  then have r: "ring_readable (t_ring s') = []" "ring_inflight (t_ring s') = []"
    by (simp_all add: ring_readable_def ring_inflight_def)
  have "out_inv 1 (with_ring mem n s)" using assms(5) by (simp add: out_inv_def)
  then have "out_inv (-1) s'" by (rule splice_loop_out [OF l assms(6) _ u assms(9,10)])
  with r inv assms(11) show ?thesis by (auto simp: tcp_inv_def out_inv_def)
qed

theorem tcp_session_delivers_before_end_witness:
  "let r = hev_socks5_session_tcp_splice [0, 0, 0] 3
      [\<lparr>te_writev = WAgain, te_readv = RvBytes [7], te_writes = [], te_output = True,
        te_events = [EvRecv (Some [[1, 2]]), EvSent 1, EvRecv None], te_timer = 1\<rparr>,
       \<lparr>te_writev = WBytes 9, te_readv = RvBytes [8], te_writes = [], te_output = True, te_events = [EvSent 1], te_timer = 1\<rparr>,
       \<lparr>te_writev = WAgain, te_readv = RvFail, te_writes = [], te_output = True, te_events = [], te_timer = 1\<rparr>] ex_tcp in
   fst r \<and> t_read (snd r) = [7, 8] \<and> t_lwip (snd r) = t_read (snd r) \<and> t_acked (snd r) = 2 \<and> t_out (snd r) = [1, 2] \<and> t_shut_wr (snd r)"
proof -
  let ?es = "[\<lparr>te_writev = WAgain, te_readv = RvBytes [7], te_writes = [], te_output = True,
        te_events = [EvRecv (Some [[1, 2]]), EvSent 1, EvRecv None], te_timer = 1\<rparr>,
       \<lparr>te_writev = WBytes 9, te_readv = RvBytes [8], te_writes = [], te_output = True, te_events = [EvSent 1], te_timer = 1\<rparr>,
       \<lparr>te_writev = WAgain, te_readv = RvFail, te_writes = [], te_output = True, te_events = [], te_timer = 1\<rparr>]"
  let ?r = "hev_socks5_session_tcp_splice [0, 0, 0] 3 ?es ex_tcp"
  have r: "fst ?r \<and> t_pcb (snd ?r) \<and> \<not> t_err (snd ?r) \<and> t_read (snd ?r) = [7, 8] \<and> t_got (snd ?r) = [1, 2]"
    by (simp add: splice_evals hev_socks5_session_tcp_splice_def)
  have "loop_ok ?es 1 1 (with_ring [0, 0, 0] 3 ex_tcp)" by (simp add: splice_evals)
  moreover have "tcp_fresh ex_tcp" by (simp add: tcp_fresh_def ex_tcp_def)
  moreover have "3 = config_tcp_buffer_size 3" by (simp add: config_tcp_buffer_size_def TCP_SND_BUF_def)
  moreover have "?r = (True, snd ?r)" using r by (metis (full_types) prod.collapse)
  moreover have "t_timeout ex_tcp \<noteq> 0" "[] \<notin> set (t_queue ex_tcp)" by (simp_all add: ex_tcp_def)
  ultimately have "t_lwip (snd ?r) = t_read (snd ?r) \<and> t_acked (snd ?r) = length (t_read (snd ?r)) \<and> t_pcb_eof (snd ?r)
      \<and> t_out (snd ?r) = t_got (snd ?r) \<and> t_shut_wr (snd ?r)"
    using r by (intro tcp_session_delivers_before_end [of ex_tcp 3 3 "[0, 0, 0]" ?es]) (auto simp: write_fine_def)
  with r show ?thesis by (simp add: Let_def)
qed

text \<open>
  When the readable bytes wrap around the end of the ring, they are handed to the stack in two
  writes, and a failure of the first does not stop the second: the stack gets the later bytes
  without the earlier ones, a gap in the stream, although all of them leave the ring.
\<close>

theorem tcp_write_failure_leaves_gap:
  assumes "tcp_inv s" "t_pcb s" "hev_ring_buffer_reading (t_ring s) = [v, w]"
    and "splice_b_drain [False, True] True res s = (res', s')"
  shows "\<exists>lost kept. lost \<noteq> [] \<and> kept \<noteq> [] \<and> ring_readable (t_ring s) = lost @ kept
     \<and> t_lwip s' = t_lwip s @ kept \<and> ring_readable (t_ring s') = [] \<and> res' = -1"
proof -
  let ?r = "t_ring s" and ?part = "\<lambda>v. take (unat (snd v)) (drop (unat (fst v)) (rdata (t_ring s)))"
  have ok: "ring_ok ?r" and m: "unat (max_size ?r) < 65536" using assms(1) by (auto simp: tcp_inv_def)
  have vw: "v = (rp ?r, max_size ?r - rp ?r)" "w = (0, rda_size ?r - (max_size ?r - rp ?r))"
    "max_size ?r - rp ?r < rda_size ?r"
    using assms(3) by (auto simp: hev_ring_buffer_reading_def Let_def split: if_splits)
  have u: "unat (max_size ?r - rp ?r) = unat (max_size ?r) - unat (rp ?r)"
    "unat (rda_size ?r - (max_size ?r - rp ?r)) = unat (rda_size ?r) - unat (max_size ?r - rp ?r)"
    using vw(3) ring_okD [OF ok] by (simp_all add: unat_diff word_less_nat_alt)
  have len: "0 < unat (snd v)" "0 < unat (snd w)" "unat (snd w) < 65536" "unat (rp ?r) < length (rdata ?r)"
    using u vw ring_okD [OF ok] m by (auto simp: word_less_nat_alt)
  have load: "ring_readable ?r = ?part v @ ?part w"
    using reading_load [OF ok] assms(3) by (simp add: vw)
  have "unat (ucast (snd w) :: u16) = unat (snd w)"
    using len(3) by (simp add: unsigned_ucast_eq unsigned_take_bit_eq take_bit_nat_eq_self)
  then have "tcp_writes (rdata ?r) [v, w] [False, True] (t_lwip s) = (True, t_lwip s @ ?part w)"
    by (simp add: tcp_write_load_def)
  then have "s' = s\<lparr>t_ring := hev_ring_buffer_read_finish ?r (of_nat (length (ring_readable ?r))),
      t_lwip := t_lwip s @ ?part w, t_err := True\<rparr>" "res' = -1"
    using assms(2,3,4) reading_total [OF ok] by (simp_all add: splice_b_drain_def Let_def)
  then show ?thesis
    using load len rw.hand_on_all [OF ok] vw by (intro exI [of _ "?part v"] exI [of _ "?part w"]) auto
qed

theorem tcp_write_failure_leaves_gap_witness:
  "let r = fold ring_do [OpPut [1, 2, 3], OpHandOn 2, OpRelease 2, OpPut [4, 5]] (hev_ring_buffer_alloca [0, 0, 0, 0] 4);
       s = ex_tcp\<lparr>t_ring := r, t_read := [1, 2, 3, 4, 5], t_lwip := [1, 2], t_acked := 2\<rparr>;
       s' = snd (splice_b_drain [False, True] True 1 s) in
   ring_readable r = [3, 4, 5] \<and> t_lwip s' = [1, 2, 5]"
proof -
  let ?r = "fold ring_do [OpPut [1, 2, 3], OpHandOn 2, OpRelease 2, OpPut [4, 5]] (hev_ring_buffer_alloca [0, 0, 0, 0] 4)"
  let ?s = "ex_tcp\<lparr>t_ring := ?r, t_read := [1, 2, 3, 4, 5], t_lwip := [1, 2], t_acked := 2\<rparr>"
  have r: "tcp_inv ?s" "t_pcb ?s" "hev_ring_buffer_reading ?r = [(2, 2), (0, 1)]" "ring_readable ?r = [3, 4, 5]"
    "length (t_lwip (snd (splice_b_drain [False, True] True 1 ?s))) = 3"
    by (simp_all add: splice_evals tcp_inv_def ring_ok_def store_at_def word_le_nat_alt upt_rec [of _ 3])
  have "\<exists>lost kept. lost \<noteq> [] \<and> kept \<noteq> [] \<and> ring_readable ?r = lost @ kept
     \<and> t_lwip (snd (splice_b_drain [False, True] True 1 ?s)) = [1, 2] @ kept"
    using tcp_write_failure_leaves_gap [of ?s "(2, 2)" "(0, 1)" 1] r(1-3)
    by (cases "splice_b_drain [False, True] True 1 ?s") auto
  with r(4,5) show ?thesis by (auto simp: Let_def append_eq_Cons_conv Cons_eq_append_conv length_Suc_conv)
qed

end
