(* ===== verification/Socks5_Udp.thy ===== *)
theory Socks5_Udp
  imports Socks5_Net
begin

text \<open>
  UDP over SOCKS5: \<^verbatim>\<open>hev/src/core/src/hev-socks5-udp.c\<close>, with the batch transfers
  \<^verbatim>\<open>hev_task_io_socket_sendmmsg\<close> and \<^verbatim>\<open>hev_task_io_socket_recvmmsg\<close> of the task system.

  Datagrams travel either framed on the object's stream (\<open>TYPE_UDP_IN_TCP\<close>) or in datagrams of
  their own (\<open>TYPE_UDP_IN_UDP\<close>).  A received message is a view of its receive buffer: the
  address pointer gives the bytes from the address to the end of the buffer, so that reads past
  the address's declared length see what memory holds there.  \<^verbatim>\<open>errno\<close> is process-wide; the
  flag of \<open>sk_conn\<close> holds it for the datagram sockets as well.
\<close>

section \<open>Datagram sockets\<close>

datatype dg_event = DGram bytes sockaddr6 | DAgain | DError

record dsock =
  drx :: "dg_event list"
  dtx :: "tx_event list"
  dsent :: "(bytes \<times> sockaddr6 option) list"

fun leading_dgrams :: "nat \<Rightarrow> dg_event list \<Rightarrow> (bytes \<times> sockaddr6) list \<times> dg_event list" where
  "leading_dgrams 0 es = ([], es)"
| "leading_dgrams (Suc n) (DGram b a # es) = (case leading_dgrams n es of (ds, es') \<Rightarrow> ((b, a) # ds, es'))"
| "leading_dgrams (Suc n) es = ([], es)"

record udp = peer +
  ua :: dsock
  ub :: dsock

definition set_errno :: "bool \<Rightarrow> udp \<Rightarrow> udp" where
  "set_errno again s = s\<lparr>sk_conn := (sk_conn s)\<lparr>errno_again := again\<rparr>\<rparr>"

definition errno_is_again :: "udp \<Rightarrow> bool" where
  "errno_is_again s = errno_again (sk_conn s)"

text \<open>
  \<^verbatim>\<open>hev_task_io_socket_recvmmsg\<close> with \<^verbatim>\<open>MSG_DONTWAIT\<close> and without \<^verbatim>\<open>MSG_WAITALL\<close>, as it
  is always called: one call of \<^verbatim>\<open>recvmmsg\<close>.
\<close>

definition hev_task_io_socket_recvmmsg ::
    "nat \<Rightarrow> dsock \<Rightarrow> udp \<Rightarrow> int \<times> (bytes \<times> sockaddr6) list \<times> dsock \<times> udp" where
  "hev_task_io_socket_recvmmsg n d s =
     (case leading_dgrams n (drx d) of (ds, es) \<Rightarrow>
        if ds \<noteq> [] then (int (length ds), ds, d\<lparr>drx := es\<rparr>, s)
        else if n = 0 then (0, [], d, s)
        else case es of
            [] \<Rightarrow> (-1, [], d, set_errno True s)
          | DError # es' \<Rightarrow> (-1, [], d\<lparr>drx := es'\<rparr>, set_errno False s)
          | _ # es' \<Rightarrow> (-1, [], d\<lparr>drx := es'\<rparr>, set_errno True s))"

section \<open>The yielder\<close>

text \<open>
  While a UDP association is in use its control connection is probed: \<open>r\<close> is what the timer
  reports when the task runs again.
\<close>

definition probe_closed :: "udp \<Rightarrow> bool \<times> udp" where
  "probe_closed s =
     (case sys_recv 1 (rx (sk_conn s)) of (out, es) \<Rightarrow>
        let s1 = s\<lparr>sk_conn := (sk_conn s)\<lparr>rx := es\<rparr>\<rparr> in
        case out of
          Closed \<Rightarrow> (True, s1)
        | Fail \<Rightarrow> (True, set_errno False s1)
        | Again _ \<Rightarrow> (False, set_errno True s1)
        | Data _ \<Rightarrow> (False, s1))"

definition udp_io_yielder :: "yield_type \<Rightarrow> int \<Rightarrow> udp \<Rightarrow> int \<times> udp" where
  "udp_io_yielder type r s =
     (if sk_type s = TYPE_UDP_IN_UDP
      then (case probe_closed s of (closed, s1) \<Rightarrow>
              if closed then (-1, hev_socks5_set_timeout 0 s1)
              else (hev_socks5_task_io_yielder (sk_timeout s1) type r, s1))
      else (hev_socks5_task_io_yielder (sk_timeout s) type r, s))"

text \<open>
  The retry loop of \<^verbatim>\<open>hev_task_io_socket_sendmmsg\<close> with \<^verbatim>\<open>MSG_WAITALL\<close>: \<open>c\<close> messages are
  out.
\<close>

function sendmmsg_loop ::
    "(bytes \<times> sockaddr6 option) list \<Rightarrow> nat \<Rightarrow> dsock \<Rightarrow> udp \<Rightarrow> int \<times> dsock \<times> udp" where
  "sendmmsg_loop ms c d s =
     (case sys_send (length ms - c) (dtx d) of
        (SAgain r, es) \<Rightarrow>
          (case udp_io_yielder HEV_TASK_WAITIO r (set_errno True s) of (res, s1) \<Rightarrow>
             if res \<noteq> 0 then (if c \<noteq> 0 then int c else -2, d\<lparr>dtx := es\<rparr>, s1)
             else sendmmsg_loop ms c (d\<lparr>dtx := es\<rparr>) s1)
      | (SFail, es) \<Rightarrow> (if c \<noteq> 0 then int c else -1, d\<lparr>dtx := es\<rparr>, set_errno False s)
      | (Accepted k, es) \<Rightarrow>
          let d1 = d\<lparr>dtx := es, dsent := dsent d @ take k (drop c ms)\<rparr> in
          if k = 0 then (if c \<noteq> 0 then int c else 0, d1, s)
          else if c + k < length ms then sendmmsg_loop ms (c + k) d1 s
          else (int (c + k), d1, s))"
  by pat_completeness auto
termination
  by (relation "measure (\<lambda>(ms, c, d, s). length (dtx d))")
    (auto dest: sys_send_used [OF sym])

declare sendmmsg_loop.simps [simp del]

definition hev_task_io_socket_sendmmsg ::
    "(bytes \<times> sockaddr6 option) list \<Rightarrow> dsock \<Rightarrow> udp \<Rightarrow> int \<times> dsock \<times> udp" where
  "hev_task_io_socket_sendmmsg ms d s = sendmmsg_loop ms 0 d s"

section \<open>Sending\<close>

text \<open>A message to send: the bytes at its address pointer and its payload.\<close>

type_synonym out_msg = "bytes \<times> bytes"

text \<open>
  The header, address and payload vectors of one message; \<open>None\<close> where the address has no
  valid type.
\<close>

definition udp_iov_tcp :: "out_msg \<Rightarrow> bytes list option" where
  "udp_iov_tcp m =
     (case hev_socks5_addr_len (fst m) of
        None \<Rightarrow> None
      | Some addrlen \<Rightarrow>
          if addrlen \<le> 0 then None
          else Some [mem16 (htons (of_nat (length (snd m)))) @ [word_of_int (3 + addrlen)],
                     take (nat addrlen) (fst m), snd m])"

fun udp_iovs_tcp :: "out_msg list \<Rightarrow> bytes list option" where
  "udp_iovs_tcp [] = Some []"
| "udp_iovs_tcp (m # ms) =
     (case udp_iov_tcp m of None \<Rightarrow> None
      | Some vs \<Rightarrow> (case udp_iovs_tcp ms of None \<Rightarrow> None | Some ws \<Rightarrow> Some (vs @ ws)))"

definition hev_socks5_udp_sendmmsg_tcp :: "out_msg list \<Rightarrow> udp \<Rightarrow> int \<times> udp" where
  "hev_socks5_udp_sendmmsg_tcp ms s =
     (case udp_iovs_tcp ms of
        None \<Rightarrow> (-1, s)
      | Some vs \<Rightarrow>
          (case sk_sendmsg vs s of (res, s1) \<Rightarrow>
             if res \<le> 0 then (-1, s1) else (int (length ms), s1)))"

definition udp_dgram :: "out_msg \<Rightarrow> bytes option" where
  "udp_dgram m =
     (case hev_socks5_addr_len (fst m) of
        None \<Rightarrow> None
      | Some addrlen \<Rightarrow>
          if addrlen \<le> 0 then None else Some ([0, 0, 0] @ take (nat addrlen) (fst m) @ snd m))"

fun udp_dgrams :: "out_msg list \<Rightarrow> bytes list option" where
  "udp_dgrams [] = Some []"
| "udp_dgrams (m # ms) =
     (case udp_dgram m of None \<Rightarrow> None
      | Some b \<Rightarrow> (case udp_dgrams ms of None \<Rightarrow> None | Some bs \<Rightarrow> Some (b # bs)))"

definition hev_socks5_udp_sendmmsg_udp :: "out_msg list \<Rightarrow> udp \<Rightarrow> int \<times> udp" where
  "hev_socks5_udp_sendmmsg_udp ms s =
     (case udp_dgrams ms of
        None \<Rightarrow> (-1, s)
      | Some bs \<Rightarrow>
          (case hev_task_io_socket_sendmmsg (map (\<lambda>b. (b, None)) bs) (ua s) s of
             (res, d, s1) \<Rightarrow> (res, s1\<lparr>ua := d\<rparr>)))"

definition hev_socks5_udp_sendmmsg :: "out_msg list \<Rightarrow> udp \<Rightarrow> int \<times> udp" where
  "hev_socks5_udp_sendmmsg ms s =
     (case sk_type s of
        TYPE_UDP_IN_TCP \<Rightarrow> hev_socks5_udp_sendmmsg_tcp ms s
      | TYPE_UDP_IN_UDP \<Rightarrow> hev_socks5_udp_sendmmsg_udp ms s
      | _ \<Rightarrow> (-1, s))"

section \<open>Receiving\<close>

text \<open>
  A received message: the memory at its address pointer (\<open>None\<close> for a null pointer) and its
  payload.
\<close>

record in_msg =
  im_addr :: "bytes option"
  im_data :: bytes

text \<open>The five bytes of a frame header, read as they arrive.\<close>

definition read_head :: "bool \<Rightarrow> udp \<Rightarrow> int \<times> bytes \<times> udp" where
  "read_head nonblock s =
     (case hev_task_io_socket_recv 5 False nonblock (sk_yield s) (sk_conn s) of
        (res, b, c) \<Rightarrow>
          if 0 < res \<and> res < 5
          then (case hev_task_io_socket_recv (nat (5 - res)) True False (sk_yield s) c of
                  (res', b', c') \<Rightarrow> (res + res', b @ b', s\<lparr>sk_conn := c'\<rparr>))
          else (res, b, s\<lparr>sk_conn := c\<rparr>))"

text \<open>
  One turn of the loop of \<^verbatim>\<open>recvmmsg_tcp\<close> on a buffer with contents \<open>mem\<close>: a message, the
  \<^verbatim>\<open>break\<close> and return at the header, or a return behind it.
\<close>

datatype turn = Msg in_msg | HeadStop int | Return int

definition recv_frame :: "bool \<Rightarrow> bytes \<Rightarrow> udp \<Rightarrow> turn \<times> udp" where
  "recv_frame nonblock mem s =
     (case read_head nonblock s of (res, h, s1) \<Rightarrow>
        if res \<noteq> 5 then (HeadStop res, s1)
        else let hdrlen = unat (h ! 2); datlen = unat (ntohs (rd_mem16 (h ! 0) (h ! 1))) in
          if hdrlen < 5 then (Return (-1), s1)
          else let addrlen = hdrlen - 3 in
            if datlen > unat ((of_nat (length mem) :: usize) - of_nat addrlen) then (Return (-1), s1)
            else case hev_task_io_socket_recvmsg [addrlen - 2, datlen] True False (sk_yield s1) (sk_conn s1) of
              (res, b, c) \<Rightarrow>
                let s2 = s1\<lparr>sk_conn := c\<rparr> in
                if res \<noteq> int (addrlen - 2 + datlen) then (Return res, s2)
                else let mem' = [h ! 3, h ! 4] @ b @ drop (addrlen + datlen) mem in
                  (Msg \<lparr>im_addr = Some mem', im_data = take datlen (drop addrlen mem')\<rparr>, s2))"

fun recvmmsg_tcp_loop :: "bool \<Rightarrow> bytes list \<Rightarrow> in_msg list \<Rightarrow> udp \<Rightarrow> int \<times> in_msg list \<times> udp" where
  "recvmmsg_tcp_loop nonblock [] acc s = (int (length acc), acc, s)"
| "recvmmsg_tcp_loop nonblock (mem # mems) acc s =
     (case recv_frame nonblock mem s of
        (Msg m, s1) \<Rightarrow> recvmmsg_tcp_loop nonblock mems (acc @ [m]) s1
      | (HeadStop res, s1) \<Rightarrow> (if acc \<noteq> [] then int (length acc) else res, acc, s1)
      | (Return res, s1) \<Rightarrow> (res, acc, s1))"

definition hev_socks5_udp_recvmmsg_tcp :: "bytes list \<Rightarrow> bool \<Rightarrow> udp \<Rightarrow> int \<times> in_msg list \<times> udp" where
  "hev_socks5_udp_recvmmsg_tcp mems nonblock s = recvmmsg_tcp_loop nonblock mems [] s"

text \<open>A datagram of \<open>len\<close> bytes in a buffer with contents \<open>mem\<close> (the datagram first).\<close>

definition decode_dgram :: "bytes \<Rightarrow> nat \<Rightarrow> in_msg option" where
  "decode_dgram mem len =
     (if len < 4 then Some \<lparr>im_addr = None, im_data = []\<rparr>
      else case hev_socks5_addr_len (drop 3 mem) of
          None \<Rightarrow> None
        | Some addrlen \<Rightarrow>
            if addrlen \<le> 0 then None
            else if 3 + addrlen > int len then None
            else Some \<lparr>im_addr = Some (drop 3 mem),
                      im_data = take (len - nat (3 + addrlen)) (drop (nat (3 + addrlen)) mem)\<rparr>)"

fun decode_dgrams :: "(bytes \<times> nat) list \<Rightarrow> in_msg list option" where
  "decode_dgrams [] = Some []"
| "decode_dgrams ((mem, len) # ds) =
     (case decode_dgram mem len of None \<Rightarrow> None
      | Some m \<Rightarrow> (case decode_dgrams ds of None \<Rightarrow> None | Some ms \<Rightarrow> Some (m # ms)))"

text \<open>A datagram overwrites the head of its buffer and is cut to its size.\<close>

definition fill_buffer :: "bytes \<Rightarrow> bytes \<Rightarrow> bytes \<times> nat" where
  "fill_buffer mem b = (take (length mem) b @ drop (length b) mem, min (length mem) (length b))"

definition hev_socks5_udp_recvmmsg_udp :: "(sockaddr6 \<Rightarrow> int) \<Rightarrow> bytes list \<Rightarrow> udp \<Rightarrow> int \<times> in_msg list \<times> udp" where
  "hev_socks5_udp_recvmmsg_udp connect mems s =
     (case hev_task_io_socket_recvmmsg (length mems) (ua s) s of
        (res, ds, d, s1) \<Rightarrow>
          let s2 = s1\<lparr>ua := d\<rparr> in
          if res \<le> 0 then (res, [], s2)
          else if \<not> sk_udp_associated s2 \<and> connect (snd (hd ds)) < 0 then (-1, [], s2)
          else let s3 = s2\<lparr>sk_udp_associated := True\<rparr> in
            case decode_dgrams (map2 (\<lambda>mem (b, _). fill_buffer mem b) mems ds) of
              None \<Rightarrow> (-1, [], s3)
            | Some ms \<Rightarrow> (res, ms, s3))"

definition hev_socks5_udp_recvmmsg ::
    "(sockaddr6 \<Rightarrow> int) \<Rightarrow> bytes list \<Rightarrow> bool \<Rightarrow> udp \<Rightarrow> int \<times> in_msg list \<times> udp" where
  "hev_socks5_udp_recvmmsg connect mems nonblock s =
     (case sk_type s of
        TYPE_UDP_IN_TCP \<Rightarrow> hev_socks5_udp_recvmmsg_tcp mems nonblock s
      | TYPE_UDP_IN_UDP \<Rightarrow> hev_socks5_udp_recvmmsg_udp connect mems s
      | _ \<Rightarrow> (-1, [], s))"

section \<open>Forwarding\<close>

definition UDP_BUF_SIZE :: nat where "UDP_BUF_SIZE = 1500"

text \<open>
  The destinations of received messages: \<open>None\<close> when an address is read outside its buffer,
  \<open>Some None\<close> for the \<^verbatim>\<open>return -1\<close> of an invalid message.
\<close>

fun msgs_dests :: "resolver \<Rightarrow> addr_family \<Rightarrow> in_msg list \<Rightarrow> (bytes \<times> sockaddr6) list option option" where
  "msgs_dests R f [] = Some (Some [])"
| "msgs_dests R f (m # ms) =
     (case im_addr m of
        None \<Rightarrow> Some None
      | Some a \<Rightarrow>
          if im_data m = [] then Some None
          else case hev_socks5_addr_into_sockaddr6 R a sockaddr6_zero f of
              None \<Rightarrow> None
            | Some (ret, sa, _) \<Rightarrow>
                if ret < 0 then Some None
                else case msgs_dests R f ms of
                    None \<Rightarrow> None
                  | Some None \<Rightarrow> Some None
                  | Some (Some ds) \<Rightarrow> Some (Some ((im_data m, sa) # ds)))"

definition fwd_result :: "int \<Rightarrow> udp \<Rightarrow> int" where
  "fwd_result res s = (if res \<le> 0 then (if res = -1 \<and> errno_is_again s then 0 else -1) else 1)"

text \<open>
  \<open>None\<close>: the return value of \<^verbatim>\<open>recvmmsg\<close> exceeds the messages it has filled in, and the
  code reads uninitialised ones.
\<close>

definition hev_socks5_udp_fwd_f ::
    "resolver \<Rightarrow> net \<Rightarrow> bytes list \<Rightarrow> bool \<Rightarrow> udp \<Rightarrow> (int \<times> bool \<times> udp) option" where
  "hev_socks5_udp_fwd_f R N mems bound s =
     (case hev_socks5_udp_recvmmsg (nconnect N (sk_fd s)) mems True s of
        (res, ms, s1) \<Rightarrow>
          if res > 0 then
            (if nat res > length ms then None
             else case msgs_dests R (hev_socks5_get_addr_family s1) (take (nat res) ms) of
                 None \<Rightarrow> None
               | Some None \<Rightarrow> Some (-1, bound, s1)
               | Some (Some ds) \<Rightarrow>
                   if \<not> bound \<and> nbinder N (sk_fd s) (snd (hd ds)) < 0 then Some (-1, bound, s1)
                   else (case hev_task_io_socket_sendmmsg (map (\<lambda>(b, a). (b, Some a)) ds) (ub s1) s1 of
                           (res', d, s2) \<Rightarrow>
                             let s3 = s2\<lparr>ub := d\<rparr> in Some (fwd_result res' s3, True, s3)))
          else Some (fwd_result res s1, bound, s1))"

definition hev_socks5_udp_fwd_b :: "nat \<Rightarrow> udp \<Rightarrow> int \<times> udp" where
  "hev_socks5_udp_fwd_b num s =
     (case hev_task_io_socket_recvmmsg num (ub s) s of
        (res, ds, d, s1) \<Rightarrow>
          let s2 = s1\<lparr>ub := d\<rparr> in
          if res > 0
          then (case hev_socks5_udp_sendmmsg
                       (map (\<lambda>(b, sa). (fst (hev_socks5_addr_from_sockaddr6 sa), take UDP_BUF_SIZE b)) ds) s2 of
                  (res', s3) \<Rightarrow> (fwd_result res' s3, s3))
          else (fwd_result res s2, s2))"

text \<open>
  The loop of \<^verbatim>\<open>hev_socks5_udp_splicer\<close>.  Each element of the list is one resumption of the
  task: what the timer reports and what the receive buffers hold.  \<open>Running\<close> is a task that
  has not been resumed yet.
\<close>

datatype loop_out = Finished udp | Running udp | Undefined

fun udp_splice_loop ::
    "resolver \<Rightarrow> net \<Rightarrow> nat \<Rightarrow> bytes list \<Rightarrow> (int \<times> bytes list) list \<Rightarrow> int \<Rightarrow> int \<Rightarrow> bool \<Rightarrow> udp \<Rightarrow> loop_out" where
  "udp_splice_loop R N num mems wakes res_f res_b bound s =
     (case (if res_f \<ge> 0 then hev_socks5_udp_fwd_f R N mems bound s else Some (res_f, bound, s)) of
        None \<Rightarrow> Undefined
      | Some (res_f', bound', s1) \<Rightarrow>
          (case (if res_b \<ge> 0 then hev_socks5_udp_fwd_b num s1 else (res_b, s1)) of
             (res_b', s2) \<Rightarrow>
               if \<not> (res_f' > 0 \<or> res_b' > 0) \<and> res_f' AND res_b' \<noteq> 0 then Finished s2
               else let type = (if res_f' > 0 \<or> res_b' > 0 then HEV_TASK_YIELD else HEV_TASK_WAITIO) in
                 case wakes of
                   [] \<Rightarrow> Running s2
                 | (r, mems') # wakes' \<Rightarrow>
                     (case udp_io_yielder type r s2 of (y, s3) \<Rightarrow>
                        if y \<noteq> 0 then Finished s3
                        else udp_splice_loop R N num mems' wakes' res_f' res_b' bound' s3)))"

declare udp_splice_loop.simps [simp del]

definition hev_socks5_udp_splicer ::
    "resolver \<Rightarrow> net \<Rightarrow> nat \<Rightarrow> bytes list \<Rightarrow> (int \<times> bytes list) list \<Rightarrow> udp \<Rightarrow> loop_out" where
  "hev_socks5_udp_splicer R N num mems wakes s = udp_splice_loop R N num mems wakes 1 1 False s"

section \<open>Frames\<close>

text \<open>The frame of a message on the stream, and the datagram of a message.\<close>

definition frame :: "dest \<times> bytes \<Rightarrow> bytes" where
  "frame m = be16 (of_nat (length (snd m))) @ [of_nat (3 + length (enc_dest (fst m)))] @ enc_dest (fst m) @ snd m"

definition frame_fits :: "dest \<times> bytes \<Rightarrow> bool" where
  "frame_fits m \<longleftrightarrow> dest_wf (fst m) \<and> length (enc_dest (fst m)) \<le> 252
     \<and> length (enc_dest (fst m)) + length (snd m) \<le> UDP_BUF_SIZE"

lemma udp_iov_tcp_enc:
  assumes "dest_wf d"
  shows "\<exists>vs. udp_iov_tcp (enc_dest d, data) = Some vs \<and> concat vs = frame (d, data)"
proof -
  have "hev_socks5_addr_len (enc_dest d) = Some (int (length (enc_dest d)))"
    using addr_len_enc [OF assms, of "[]"] by simp
  moreover have "0 < length (enc_dest d)" by (cases d) auto
  moreover have "word_of_int (3 + int (length (enc_dest d))) = (of_nat (3 + length (enc_dest d)) :: u8)"
    by simp
  ultimately show ?thesis by (simp add: udp_iov_tcp_def frame_def mem16_htons)
qed

lemma udp_iovs_tcp_enc:
  assumes "\<forall>m\<in>set ms. dest_wf (fst m)"
  shows "\<exists>vs. udp_iovs_tcp (map (\<lambda>(d, data). (enc_dest d, data)) ms) = Some vs \<and> concat vs = concat (map frame ms)"
  using assms
proof (induction ms)
  case (Cons m ms)
  obtain d data where m: "m = (d, data)" by fastforce
  with Cons udp_iov_tcp_enc [of d data] show ?case by auto
qed simp

lemma sendmmsg_tcp_frames:
  assumes "\<forall>m\<in>set ms. dest_wf (fst m)" "ms \<noteq> []" "clear_out s"
  obtains s' where "hev_socks5_udp_sendmmsg_tcp (map (\<lambda>(d, data). (enc_dest d, data)) ms) s = (int (length ms), s')"
    "io 0 (concat (map frame ms)) s s'"
proof -
  obtain vs where vs: "udp_iovs_tcp (map (\<lambda>(d, data). (enc_dest d, data)) ms) = Some vs"
    "concat vs = concat (map frame ms)"
    using udp_iovs_tcp_enc [OF assms(1)] by blast
  have ne: "concat (map frame ms) \<noteq> []" using assms(2) by (cases ms) (auto simp: frame_def)
  then obtain s' where "sk_send (concat (map frame ms)) s = (int (length (concat (map frame ms))), s')"
    "io 0 (concat (map frame ms)) s s'"
    using sk_send_all [OF assms(3)] by blast
  with vs ne that show ?thesis by (simp add: hev_socks5_udp_sendmmsg_tcp_def sk_sendmsg_send)
qed

section \<open>Receiving frames\<close>

definition steady :: "udp \<Rightarrow> bool" where
  "steady s \<longleftrightarrow> patient (sk_yield s) (rx (sk_conn s))"

lemma read_head_spec:
  assumes "5 \<le> length (inflow s)" "steady s"
  obtains s' where "read_head nonblock s = (5, take 5 (inflow s), s')" "io 5 [] s s'" "steady s'"
  | s' where "nonblock" "read_head nonblock s = (-1, [], s')" "io 0 [] s s'" "steady s'" "errno_is_again s'"
proof -
  let ?yl = "sk_yield s" and ?c = "sk_conn s"
  let ?f = "flow ?yl (rx ?c)"
  have f: "?f = inflow s" by (simp add: inflow_def)
  have "?f \<noteq> []" "patient ?yl (rx ?c)" using assms f by (auto simp: steady_def)
  from recv_some [OF this(1) _ this(2), of 5 nonblock] consider
    (some) k c1 where "0 < k" "k \<le> 5" "recv_loop False nonblock ?yl 5 [] ?c = (int k, take k ?f, c1)"
      "flow ?yl (rx c1) = drop k ?f" "tx c1 = tx ?c" "sent c1 = sent ?c"
  | (none) c1 where "nonblock" "recv_loop False nonblock ?yl 5 [] ?c = (-1, [], c1)" "errno_again c1"
      "flow ?yl (rx c1) = ?f" "tx c1 = tx ?c" "sent c1 = sent ?c"
    by auto
  then show ?thesis
  proof cases
    case none
    have "patient ?yl (rx c1)" using recv_loop_patient [OF none(2)] assms(2) by (simp add: steady_def)
    with none show ?thesis
      by (intro that(2) [of "s\<lparr>sk_conn := c1\<rparr>"])
        (simp_all add: read_head_def hev_task_io_socket_recv_def io_def inflow_def outs_def clear_out_def
          steady_def errno_is_again_def)
  next
    case some
    have p1: "patient ?yl (rx c1)" using recv_loop_patient [OF some(3)] assms(2) by (simp add: steady_def)
    show ?thesis
    proof (cases "k = 5")
      case True
      with some p1 assms(1) show ?thesis
        by (intro that(1) [of "s\<lparr>sk_conn := c1\<rparr>"])
          (simp_all add: read_head_def hev_task_io_socket_recv_def io_def inflow_def outs_def clear_out_def steady_def)
    next
      case False
      with some have k: "0 < 5 - k" "5 - k \<le> length (flow ?yl (rx c1))" using assms(1) f by auto
      obtain c2 where c2: "hev_task_io_socket_recv (5 - k) True False ?yl c1
          = (int (5 - k), take (5 - k) (flow ?yl (rx c1)), c2)" "flow ?yl (rx c2) = drop (5 - k) (flow ?yl (rx c1))"
        "tx c2 = tx c1" "sent c2 = sent c1"
        using recv_enough [OF k] by metis
      have "patient ?yl (rx c2)"
        using recv_loop_patient [OF c2(1) [unfolded hev_task_io_socket_recv_def] p1] .
      moreover have "take k ?f @ take (5 - k) (drop k ?f) = take 5 ?f"
        using some(2) by (metis le_add_diff_inverse take_add)
      moreover have "nat (5 - int k) = 5 - k" "int k + int (5 - k) = 5" using some(2) by auto
      moreover have "hev_task_io_socket_recv 5 False nonblock ?yl ?c = (int k, take k ?f, c1)"
        using some(3) by (simp add: hev_task_io_socket_recv_def)
      ultimately show ?thesis
        using some c2 False assms(1)
        by (intro that(1) [of "s\<lparr>sk_conn := c2\<rparr>"]) (simp_all add: read_head_def io_def inflow_def outs_def clear_out_def steady_def)
    qed
  qed
qed

lemma steady_recv:
  assumes "steady s" "0 < n" "n \<le> length (inflow s)"
  obtains c where "hev_task_io_socket_recv n True False (sk_yield s) (sk_conn s) = (int n, take n (inflow s), c)"
    "io n [] s (s\<lparr>sk_conn := c\<rparr>)" "steady (s\<lparr>sk_conn := c\<rparr>)"
proof -
  let ?yl = "sk_yield s" and ?c = "sk_conn s"
  obtain c where c: "hev_task_io_socket_recv n True False ?yl ?c = (int n, take n (inflow s), c)"
    "flow ?yl (rx c) = drop n (inflow s)" "tx c = tx ?c" "sent c = sent ?c"
    using recv_enough [OF assms(2), of ?yl ?c] assms(3) by (auto simp: inflow_def)
  moreover have "patient ?yl (rx c)"
    using recv_loop_patient [OF c(1) [unfolded hev_task_io_socket_recv_def]] assms(1) by (simp add: steady_def)
  ultimately show ?thesis
    using assms(3) by (intro that [of c]) (simp_all add: io_def inflow_def outs_def clear_out_def steady_def)
qed

text \<open>A received message carries a sent one: its payload, and its address at the address pointer.\<close>

definition carries :: "in_msg \<Rightarrow> dest \<times> bytes \<Rightarrow> bool" where
  "carries m p \<longleftrightarrow> im_data m = snd p \<and>
     (case im_addr m of None \<Rightarrow> False | Some a \<Rightarrow> take (length (enc_dest (fst p))) a = enc_dest (fst p))"

lemma frame_head:
  assumes "frame_fits (d, data)"
  obtains t x as where "enc_dest d = t # x # as"
    "frame (d, data) = [ucast (drop_bit 8 (of_nat (length data) :: u16)), ucast (of_nat (length data) :: u16),
       of_nat (5 + length as), t, x] @ as @ data"
    "2 \<le> length as" "length as \<le> 250" "length as + length data + 2 \<le> 1500"
proof -
  obtain t x as where e: "enc_dest d = t # x # as"
    "t = 1 \<and> length as = 5 \<or> t = 4 \<and> length as = 17 \<or> t = 3 \<and> length as = 2 + unat x"
    using enc_dest_shape [of d] assms unfolding frame_fits_def fst_conv by blast
  have "of_nat (3 + length (enc_dest d)) = (of_nat (5 + length as) :: u8)" using e(1) by simp
  then show ?thesis
    using assms e by (intro that [of t x as]) (auto simp: frame_fits_def frame_def be16_def UDP_BUF_SIZE_def)
qed

lemma recv_frame_spec:
  assumes "inflow s = frame (d, data) @ rest" "frame_fits (d, data)" "length mem = UDP_BUF_SIZE" "steady s"
  obtains m s' where "recv_frame nonblock mem s = (Msg m, s')" "carries m (d, data)"
    "io (length (frame (d, data))) [] s s'" "steady s'"
  | s' where "nonblock" "recv_frame nonblock mem s = (HeadStop (-1), s')" "io 0 [] s s'" "steady s'" "errno_is_again s'"
proof -
  obtain t x as where f: "enc_dest d = t # x # as"
    "frame (d, data) = [ucast (drop_bit 8 (of_nat (length data) :: u16)), ucast (of_nat (length data) :: u16),
       of_nat (5 + length as), t, x] @ as @ data"
    "2 \<le> length as" "length as \<le> 250" "length as + length data + 2 \<le> 1500"
    by (rule frame_head [OF assms(2)])
  have l: "5 \<le> length (inflow s)" using assms(1) f(2) by simp
  show ?thesis
  proof (cases rule: read_head_spec [OF l assms(4), of nonblock])
    case (2 s1)
    with that(2) [of s1] show ?thesis by (simp add: recv_frame_def)
  next
    case (1 s1)
    have i1: "inflow s1 = as @ data @ rest" using 1(2) assms(1) f(2) by (simp add: io_def)
    let ?n = "length as + length data"
    have n: "0 < ?n" "?n \<le> length (inflow s1)" "take ?n (inflow s1) = as @ data" using i1 f(3) by auto
    obtain c where c: "hev_task_io_socket_recv ?n True False (sk_yield s1) (sk_conn s1) = (int ?n, as @ data, c)"
      "io ?n [] s1 (s1\<lparr>sk_conn := c\<rparr>)" "steady (s1\<lparr>sk_conn := c\<rparr>)"
      using steady_recv [OF 1(3) n(1,2)] unfolding n(3) by blast
    have h: "unat (of_nat (5 + length as) :: u8) = 5 + length as"
      "unat (htons (rd_mem16 (ucast (drop_bit 8 (of_nat (length data) :: u16))) (ucast (of_nat (length data) :: u16))))
        = length data"
      using f(4,5) by (simp_all add: unat_of_nat_u8 htons_rd_mem16 rd_be16_be16 unat_of_nat_u16 del: of_nat_add)
    have u: "unat ((1500 :: usize) - of_nat (2 + length as)) = 1500 - (2 + length as)"
    proof -
      have "unat (of_nat n :: usize) = n" if "n \<le> 1500" for n using that by (simp add: unat_of_nat)
      from this [of "2 + length as"] f(4) show ?thesis
        by (subst unat_sub) (simp_all add: word_le_nat_alt del: of_nat_add)
    qed
    let ?m = "\<lparr>im_addr = Some ([t, x] @ (as @ data) @ drop (2 + length as + length data) mem), im_data = data\<rparr>"
    have "recv_frame nonblock mem s = (Msg ?m, s1\<lparr>sk_conn := c\<rparr>)"
      using 1(1) assms(1,3) f h u c(1)
      by (simp add: recv_frame_def recvmsg_recv UDP_BUF_SIZE_def Let_def del: of_nat_add)
    moreover have "io (length (frame (d, data))) [] s (s1\<lparr>sk_conn := c\<rparr>)"
      using io_trans [OF 1(2) c(2)] f(2) by (simp add: numeral_eq_Suc)
    moreover have "carries ?m (d, data)" using f(1) by (simp add: carries_def)
    ultimately show ?thesis using c(3) that(1) by blast
  qed
qed

lemma recvmmsg_tcp_loop_spec:
  assumes "inflow s = concat (map frame ms) @ rest" "\<forall>p\<in>set ms. frame_fits p"
    "\<forall>mem\<in>set mems. length mem = UDP_BUF_SIZE" "length mems \<le> length ms" "steady s"
  shows "\<exists>k out s'. k \<le> length mems \<and> (\<not> nonblock \<longrightarrow> k = length mems) \<and> list_all2 carries out (take k ms)
     \<and> recvmmsg_tcp_loop nonblock mems acc s
         = (if acc = [] \<and> k = 0 \<and> mems \<noteq> [] then -1 else int (length acc + k), acc @ out, s')
     \<and> io (length (concat (map frame (take k ms)))) [] s s' \<and> (k < length mems \<longrightarrow> errno_is_again s')"
  using assms
proof (induction nonblock mems acc s arbitrary: ms rule: recvmmsg_tcp_loop.induct)
  case (1 nonblock acc s)
  show ?case by (rule exI [of _ 0]) simp
next
  case (2 nonblock mem mems acc s)
  obtain d data ms' where ms: "ms = (d, data) # ms'" using "2.prems"(4) by (cases ms) auto
  have i: "inflow s = frame (d, data) @ concat (map frame ms') @ rest" using "2.prems"(1) ms by simp
  have ff: "frame_fits (d, data)" "length mem = UDP_BUF_SIZE" using "2.prems"(2,3) ms by simp_all
  show ?case
  proof (cases rule: recv_frame_spec [OF i ff "2.prems"(5), of nonblock])
    case (1 m s1)
    have "inflow s1 = concat (map frame ms') @ rest" using 1(3) i by (simp add: io_def)
    then obtain k out s' where k: "k \<le> length mems" "\<not> nonblock \<longrightarrow> k = length mems"
      "list_all2 carries out (take k ms')"
      "recvmmsg_tcp_loop nonblock mems (acc @ [m]) s1 = (int (Suc (length acc + k)), acc @ m # out, s')"
      "io (length (concat (map frame (take k ms')))) [] s1 s'" "k < length mems \<longrightarrow> errno_is_again s'"
      using "2.IH" [OF 1(1) [symmetric] refl, of ms'] "2.prems" ms 1(4) by auto
    have "recvmmsg_tcp_loop nonblock (mem # mems) acc s = (int (Suc (length acc + k)), acc @ m # out, s')"
      using 1(1) k(4) by simp
    with k 1(2) io_trans [OF 1(3) k(5)] ms show ?thesis
      by (intro exI [of _ "Suc k"] exI [of _ "m # out"] exI [of _ s']) (simp del: recvmmsg_tcp_loop.simps)
  next
    case (2 s1)
    then show ?thesis by (intro exI [of _ 0] exI [of _ "[]"] exI [of _ s1]) simp
  qed
qed

text \<open>A datagram made by the sender is taken apart again by the receiver.\<close>

lemma decode_udp_dgram:
  assumes "dest_wf d" "udp_dgram (enc_dest d, data) = Some b" "length b \<le> length mem"
  shows "\<exists>m. decode_dgram (fst (fill_buffer mem b)) (snd (fill_buffer mem b)) = Some m \<and> carries m (d, data)"
proof -
  have b: "b = [0, 0, 0] @ enc_dest d @ data"
    using assms(2) addr_len_enc [OF assms(1), of "[]"] by (auto simp: udp_dgram_def split: if_splits)
  have l: "4 \<le> length (enc_dest d)" by (cases d) (use assms(1) in auto)
  have f: "fill_buffer mem b = ([0, 0, 0] @ enc_dest d @ data @ drop (length b) mem, 3 + length (enc_dest d) + length data)"
    using assms(3) by (simp add: fill_buffer_def b)
  have e: "nat (3 + int (length (enc_dest d))) = Suc (Suc (Suc (length (enc_dest d))))" by simp
  have "decode_dgram (fst (fill_buffer mem b)) (snd (fill_buffer mem b))
      = Some \<lparr>im_addr = Some (enc_dest d @ data @ drop (length b) mem), im_data = data\<rparr>"
    unfolding f using l addr_len_enc [OF assms(1), of "data @ drop (length b) mem"]
    by (simp add: decode_dgram_def e del: nat_add_distrib) auto
  then show ?thesis by (simp add: carries_def)
qed

section \<open>Properties of the UDP transport\<close>

text \<open>Data for the examples: an object whose stream will deliver the given events.\<close>

definition ex_udp :: "rx_event list \<Rightarrow> udp" where
  "ex_udp es = hev_socks5.extend ((hev_socks5_construct TYPE_UDP_IN_TCP)\<lparr>sk_timeout := 1000\<rparr>)
     \<lparr>sk_conn = \<lparr>rx = es, tx = [], sent = [], errno_again = False\<rparr>, sk_open = [],
      ua = \<lparr>drx = [], dtx = [], dsent = []\<rparr>, ub = \<lparr>drx = [], dtx = [], dsent = []\<rparr>\<rparr>"

lemma ex_udp_simps:
  "sk_yield (ex_udp es) = hev_socks5_task_io_yielder 1000 HEV_TASK_WAITIO" "rx (sk_conn (ex_udp es)) = es"
  "sk_type (ex_udp es) = TYPE_UDP_IN_TCP" "clear_out (ex_udp es)" "outs (ex_udp es) = []"
  "sk_timeout (ex_udp es) = 1000"
  by (simp_all add: ex_udp_def hev_socks5_construct_def hev_socks5.defs sk_yield_fun clear_out_def outs_def)

text \<open>
  C32: Datagrams framed on a stream arrive as they were sent.  Whatever frames the sender wrote for
  messages that fit a receive buffer, a blocking receiver gets, in any segmentation, as many of
  them as it has buffers, in order, each with its destination and payload, and consumes exactly
  their frames.
\<close>

theorem udp_frames_round_trip:
  assumes "\<forall>m\<in>set ms. frame_fits m" "ms \<noteq> []" "clear_out s"
    and "inflow r = concat (map frame ms) @ rest" "steady r"
    and "\<forall>mem\<in>set mems. length mem = UDP_BUF_SIZE" "length mems = length ms"
  shows "\<exists>s' out r'. hev_socks5_udp_sendmmsg_tcp (map (\<lambda>(d, data). (enc_dest d, data)) ms) s = (int (length ms), s')
      \<and> outs s' = outs s @ concat (map frame ms)
      \<and> hev_socks5_udp_recvmmsg_tcp mems False r = (int (length ms), out, r')
      \<and> list_all2 carries out ms \<and> inflow r' = rest"
proof -
  have "\<forall>m\<in>set ms. dest_wf (fst m)" using assms(1) by (simp add: frame_fits_def)
  then obtain s' where s': "hev_socks5_udp_sendmmsg_tcp (map (\<lambda>(d, data). (enc_dest d, data)) ms) s = (int (length ms), s')"
    "io 0 (concat (map frame ms)) s s'"
    using sendmmsg_tcp_frames [OF _ assms(2,3)] by blast
  have "mems \<noteq> []" using assms(2,7) by auto
  then obtain out r' where "recvmmsg_tcp_loop False mems [] r = (int (length ms), out, r')" "list_all2 carries out ms"
    "io (length (concat (map frame ms))) [] r r'"
    using recvmmsg_tcp_loop_spec [OF assms(4,1,6) _ assms(5), of False "[]"] assms(7) assms(2) by auto
  with s' assms(4) show ?thesis by (auto simp: hev_socks5_udp_recvmmsg_tcp_def io_def)
qed

theorem udp_frames_round_trip_witness:
  "\<exists>out r'. hev_socks5_udp_recvmmsg_tcp [replicate 1500 0] False
      (ex_udp [RData [0], RAgain 5, RData [2, 10, 1, 10, 0, 0, 1, 0, 80, 7, 8, 99]]) = (1, out, r')
     \<and> list_all2 carries out [(Dst4 [10, 0, 0, 1] 80, [7, 8])]"
proof -
  let ?es = "[RData [0], RAgain 5, RData [2, 10, 1, 10, 0, 0, 1, 0, 80, 7, 8, 99]]"
  have f: "frame_fits (Dst4 [10, 0, 0, 1] 80, [7, 8])" by (simp add: frame_fits_def UDP_BUF_SIZE_def)
  have i: "inflow (ex_udp ?es) = concat (map frame [(Dst4 [10, 0, 0, 1] 80, [7, 8])]) @ [99]"
    by (simp add: inflow_def ex_udp_simps hev_socks5_task_io_yielder_def hev_task_sleep_def frame_def be16_def)
  have p: "steady (ex_udp ?es)"
    by (simp add: steady_def patient_def ex_udp_simps hev_socks5_task_io_yielder_def hev_task_sleep_def)
  show ?thesis
    using udp_frames_round_trip [of "[(Dst4 [10, 0, 0, 1] 80, [7, 8])]" "ex_udp []" "ex_udp ?es" "[99]" "[replicate 1500 0]"]
      f i p by (auto simp: ex_udp_simps UDP_BUF_SIZE_def)
qed

text \<open>
  A datagram of its own survives the trip too: what the sender builds for a well-formed
  destination and any payload, the receiver takes apart into that destination and payload, when
  it fits the receive buffer.
\<close>

theorem udp_dgram_round_trip:
  assumes "dest_wf d" "3 + length (enc_dest d) + length data \<le> length mem"
  shows "\<exists>b m. udp_dgram (enc_dest d, data) = Some b
    \<and> decode_dgram (fst (fill_buffer mem b)) (snd (fill_buffer mem b)) = Some m \<and> carries m (d, data)"
proof -
  have "udp_dgram (enc_dest d, data) = Some ([0, 0, 0] @ enc_dest d @ data)"
    using addr_len_enc [OF assms(1), of "[]"] enc_dest_nonempty [of d] by (auto simp: udp_dgram_def)
  with decode_udp_dgram [OF assms(1) this] assms(2) show ?thesis by simp
qed

theorem udp_dgram_round_trip_witness:
  "\<exists>b m. udp_dgram (enc_dest (DstName [97] 53), [1, 2]) = Some b
    \<and> decode_dgram (fst (fill_buffer (replicate 20 0) b)) (snd (fill_buffer (replicate 20 0) b)) = Some m
    \<and> carries m (DstName [97] 53, [1, 2])"
  by (rule udp_dgram_round_trip) simp_all

text \<open>
  The header length of a frame is one byte.  It is right exactly for addresses of at most 252
  bytes; for a host name of 249 bytes or more it wraps around, although such names are valid
  destinations.
\<close>

theorem udp_header_length_wraps:
  assumes "dest_wf d"
  shows "\<exists>h a. udp_iov_tcp (enc_dest d, data) = Some [h, a, data] \<and> length h = 3
    \<and> (unat (h ! 2) = 3 + length (enc_dest d) \<longleftrightarrow> length (enc_dest d) \<le> 252)"
proof -
  let ?n = "3 + length (enc_dest d)"
  have "hev_socks5_addr_len (enc_dest d) = Some (int (length (enc_dest d)))" "0 < length (enc_dest d)"
    using addr_len_enc [OF assms, of "[]"] by (simp, cases d) auto
  then have "udp_iov_tcp (enc_dest d, data)
      = Some [mem16 (htons (of_nat (length data))) @ [word_of_int (3 + int (length (enc_dest d)))], enc_dest d, data]"
    by (simp add: udp_iov_tcp_def)
  moreover have "word_of_int (3 + int (length (enc_dest d))) = (of_nat ?n :: u8)" by simp
  moreover have "unat (of_nat ?n :: u8) = ?n \<longleftrightarrow> length (enc_dest d) \<le> 252"
    by (auto simp: unat_of_nat simp del: of_nat_add intro: mod_less dest: sym [THEN mod_eq_self_iff_div_eq_0 [THEN iffD1]])
  moreover have "length (mem16 v @ [x]) = 3" "(mem16 v @ [x]) ! 2 = x" for v x by (simp_all add: mem16_def)
  ultimately show ?thesis by (simp del: of_nat_add)
qed

theorem udp_header_length_wraps_witness:
  "\<exists>h a. udp_iov_tcp (enc_dest (DstName (replicate 249 97) 53), []) = Some [h, a, []] \<and> unat (h ! 2) \<noteq> 256"
  using udp_header_length_wraps [of "DstName (replicate 249 97) 53" "[]"] by auto

text \<open>
  A time-out inside a frame header loses data.  When one byte of a header has arrived and the wait
  for the rest times out, the call returns -1 with \<^verbatim>\<open>errno\<close> set to \<^verbatim>\<open>EAGAIN\<close>, which the
  forwarder takes for "nothing there yet"; but the byte has been consumed, so that the stream is
  out of step from then on.
\<close>

theorem udp_header_timeout_loses_byte:
  assumes "0 < sk_timeout s" "rx (sk_conn s) = RData [b] # RAgain 0 # es" "sk_type s = TYPE_UDP_IN_TCP"
  shows "\<exists>s'. hev_socks5_udp_recvmmsg connect (mem # mems) True s = (-1, [], s') \<and> rx (sk_conn s') = es
    \<and> fwd_result (-1) s' = 0"
proof -
  have y: "sk_yield s 0 = -1"
    using assms(1) by (simp add: sk_yield_def hev_socks5_task_io_yielder_def hev_task_sleep_def)
  let ?c = "(sk_conn s)\<lparr>rx := RAgain 0 # es\<rparr>" and ?c' = "(sk_conn s)\<lparr>rx := es, errno_again := True\<rparr>"
  have "hev_task_io_socket_recv 5 False True (sk_yield s) (sk_conn s) = (1, [b], ?c)"
    unfolding hev_task_io_socket_recv_def using assms(2) by (subst recv_loop.simps) (simp add: sys_recv_def)
  moreover have "hev_task_io_socket_recv 4 True False (sk_yield s) ?c = (-2, [], ?c')"
    unfolding hev_task_io_socket_recv_def using y by (subst recv_loop.simps) (simp add: sys_recv_def size_or_def)
  ultimately have "read_head True s = (-1, [b], s\<lparr>sk_conn := ?c'\<rparr>)" by (simp add: read_head_def)
  with assms(3) show ?thesis
    by (simp add: hev_socks5_udp_recvmmsg_def hev_socks5_udp_recvmmsg_tcp_def recv_frame_def fwd_result_def errno_is_again_def)
qed

theorem udp_header_timeout_loses_byte_witness:
  "\<exists>s'. hev_socks5_udp_recvmmsg (\<lambda>_. 0) [replicate 1500 0] True (ex_udp [RData [0], RAgain 0, RData [2, 10]]) = (-1, [], s')
     \<and> rx (sk_conn s') = [RData [2, 10]]"
  using udp_header_timeout_loses_byte [of "ex_udp [RData [0], RAgain 0, RData [2, 10]]" 0 "[RData [2, 10]]" "\<lambda>_. 0" "replicate 1500 0" "[]"]
  by (auto simp: ex_udp_simps)

text \<open>
  A frame cut off by the end of the stream makes the receiver report a number of bytes as a
  number of messages: with one byte of the body present it returns 1 while no message was filled
  in, and the forwarder reads an uninitialised one.
\<close>

theorem udp_truncated_frame_undefined:
  "fst (hev_socks5_udp_recvmmsg connect [replicate 1500 0] True (ex_udp [RData [0, 4, 10, 1, 10, 0], REof])) = 1
   \<and> fst (snd (hev_socks5_udp_recvmmsg connect [replicate 1500 0] True (ex_udp [RData [0, 4, 10, 1, 10, 0], REof]))) = []
   \<and> hev_socks5_udp_fwd_f R N [replicate 1500 0] bound (ex_udp [RData [0, 4, 10, 1, 10, 0], REof]) = None"
proof -
  let ?s = "ex_udp [RData [0, 4, 10, 1, 10, 0], REof]"
  let ?c = "(sk_conn ?s)\<lparr>rx := [RData [0], REof]\<rparr>" and ?c' = "(sk_conn ?s)\<lparr>rx := [REof]\<rparr>"
  have "hev_task_io_socket_recv 5 False True (sk_yield ?s) (sk_conn ?s) = (5, [0, 4, 10, 1, 10], ?c)"
    unfolding hev_task_io_socket_recv_def by (subst recv_loop.simps) (simp add: sys_recv_def ex_udp_simps)
  then have h: "read_head True ?s = (5, [0, 4, 10, 1, 10], ?s\<lparr>sk_conn := ?c\<rparr>)" by (simp add: read_head_def)
  have "hev_task_io_socket_recv 9 True False yl ?c = (1, [0], ?c')" for yl
    unfolding hev_task_io_socket_recv_def
    by (subst recv_loop.simps, simp add: sys_recv_def, subst recv_loop.simps, simp add: sys_recv_def size_or_def)
  then have "hev_task_io_socket_recvmsg [5, 4] True False yl ?c = (1, [0], ?c')" for yl by (simp add: recvmsg_recv)
  moreover have "unat (rd_be16 0 4) = 4" by (simp add: rd_be16_def)
  ultimately have f: "recv_frame True (replicate 1500 0) ?s = (Return 1, ?s\<lparr>sk_conn := ?c'\<rparr>)"
    using h by (simp add: recv_frame_def htons_rd_mem16 Let_def)
  then have r: "hev_socks5_udp_recvmmsg connect [replicate 1500 0] True ?s = (1, [], ?s\<lparr>sk_conn := ?c'\<rparr>)" for connect
    by (simp add: hev_socks5_udp_recvmmsg_def hev_socks5_udp_recvmmsg_tcp_def ex_udp_simps)
  then show ?thesis by (simp add: hev_socks5_udp_fwd_f_def)
qed

end
