(* ===== verification/Hev_List.thy ===== *)
theory Hev_List
  imports Prelude
begin

text \<open>
  The intrusive doubly linked list of \<^verbatim>\<open>hev/src/misc/hev-list.c\<close> and
  \<^verbatim>\<open>hev-list.h\<close>.  A list header holds the pointers \<^verbatim>\<open>head\<close> and \<^verbatim>\<open>tail\<close>; the
  nodes live in a store from pointers to \<^verbatim>\<open>next\<close>/\<^verbatim>\<open>prev\<close> pairs.  The null pointer is
  \<open>None\<close>.  The predicate \<open>dll\<close> relates a header and store to the sequence of nodes it
  links, and the locale \<open>node_list\<close> is the contract that the clients (the session set of
  the tunnel, the frame queue of a UDP session, the recency list of the DNS map) rely on.
\<close>

section \<open>The data and the operations\<close>

record 'p lnode =
  nxt :: "'p option"
  prv :: "'p option"

record 'p llist =
  lhead :: "'p option"
  ltail :: "'p option"
  lmem :: "'p \<Rightarrow> 'p lnode"

definition hev_list_node_prev :: "'p llist \<Rightarrow> 'p \<Rightarrow> 'p option" where
  "hev_list_node_prev s n = prv (lmem s n)"

definition hev_list_node_next :: "'p llist \<Rightarrow> 'p \<Rightarrow> 'p option" where
  "hev_list_node_next s n = nxt (lmem s n)"

definition hev_list_first :: "'p llist \<Rightarrow> 'p option" where
  "hev_list_first s = lhead s"

definition hev_list_last :: "'p llist \<Rightarrow> 'p option" where
  "hev_list_last s = ltail s"

definition set_nxt :: "'p \<Rightarrow> 'p option \<Rightarrow> 'p llist \<Rightarrow> 'p llist" where
  "set_nxt n v s = s\<lparr>lmem := (lmem s)(n := (lmem s n)\<lparr>nxt := v\<rparr>)\<rparr>"

definition set_prv :: "'p \<Rightarrow> 'p option \<Rightarrow> 'p llist \<Rightarrow> 'p llist" where
  "set_prv n v s = s\<lparr>lmem := (lmem s)(n := (lmem s n)\<lparr>prv := v\<rparr>)\<rparr>"

definition hev_list_add_tail :: "'p llist \<Rightarrow> 'p \<Rightarrow> 'p llist" where
  "hev_list_add_tail s n =
     (let s1 = set_nxt n None (set_prv n (ltail s) s);
          s2 = (case ltail s1 of Some t \<Rightarrow> set_nxt t (Some n) s1 | None \<Rightarrow> s1\<lparr>lhead := Some n\<rparr>)
      in s2\<lparr>ltail := Some n\<rparr>)"

definition hev_list_del :: "'p llist \<Rightarrow> 'p \<Rightarrow> 'p llist" where
  "hev_list_del s n =
     (let s1 = (case prv (lmem s n) of
                  Some p \<Rightarrow> set_nxt p (nxt (lmem s n)) s
                | None \<Rightarrow> s\<lparr>lhead := nxt (lmem s n)\<rparr>)
      in (case nxt (lmem s1 n) of
            Some q \<Rightarrow> set_prv q (prv (lmem s1 n)) s1
          | None \<Rightarrow> s1\<lparr>ltail := prv (lmem s1 n)\<rparr>))"

text \<open>
  The loop \<^verbatim>\<open>for (n = first; n; n = next (n))\<close> that the clients write out.  A damaged
  list may be cyclic, so the walk carries fuel; \<open>None\<close> means the fuel ran out.
\<close>

fun hev_list_walk :: "nat \<Rightarrow> 'p llist \<Rightarrow> 'p option \<Rightarrow> 'p list option" where
  "hev_list_walk fuel s None = Some []"
| "hev_list_walk 0 s (Some n) = None"
| "hev_list_walk (Suc fuel) s (Some n) =
     map_option ((#) n) (hev_list_walk fuel s (hev_list_node_next s n))"

definition hev_list_empty :: "('p \<Rightarrow> 'p lnode) \<Rightarrow> 'p llist" where
  "hev_list_empty m = \<lparr>lhead = None, ltail = None, lmem = m\<rparr>"

section \<open>What a list holds\<close>

definition first_or :: "'p list \<Rightarrow> 'p option \<Rightarrow> 'p option" where
  "first_or xs q = (case xs of [] \<Rightarrow> q | x # _ \<Rightarrow> Some x)"

definition last_or :: "'p option \<Rightarrow> 'p list \<Rightarrow> 'p option" where
  "last_or p xs = (if xs = [] then p else Some (last xs))"

fun dseg :: "('p \<Rightarrow> 'p lnode) \<Rightarrow> 'p option \<Rightarrow> 'p list \<Rightarrow> 'p option \<Rightarrow> bool" where
  "dseg m p [] q = True"
| "dseg m p (x # xs) q = (prv (m x) = p \<and> nxt (m x) = first_or xs q \<and> dseg m (Some x) xs q)"

definition dll :: "'p llist \<Rightarrow> 'p list \<Rightarrow> bool" where
  "dll s xs \<longleftrightarrow> distinct xs \<and> lhead s = first_or xs None \<and> ltail s = last_or None xs
     \<and> dseg (lmem s) None xs None"

lemma first_or_simps [simp]: "first_or [] q = q" "first_or (x # xs) q = Some x"
  by (simp_all add: first_or_def)

lemma last_or_simps [simp]: "last_or p [] = p" "last_or p (x # xs) = last_or (Some x) xs"
  by (simp_all add: last_or_def)

lemma first_or_append [simp]: "first_or (xs @ ys) q = first_or xs (first_or ys q)"
  by (cases xs) simp_all

lemma last_or_append [simp]: "last_or p (xs @ ys) = last_or (last_or p xs) ys"
  by (induction xs arbitrary: p) simp_all

lemma last_or_snoc: "last_or p (xs @ [x]) = Some x"
  by simp

lemma dseg_append [simp]:
  "dseg m p (xs @ ys) q \<longleftrightarrow> dseg m p xs (first_or ys q) \<and> dseg m (last_or p xs) ys q"
  by (induction xs arbitrary: p) auto

lemma dseg_cong: "(\<And>x. x \<in> set xs \<Longrightarrow> m' x = m x) \<Longrightarrow> dseg m' p xs q = dseg m p xs q"
  by (induction xs arbitrary: p) auto

lemma dseg_upd_other [simp]: "x \<notin> set xs \<Longrightarrow> dseg (m(x := v)) p xs q = dseg m p xs q"
  by (rule dseg_cong) auto

lemma dll_empty [simp]: "dll (hev_list_empty m) []"
  by (simp add: dll_def hev_list_empty_def)

section \<open>The operations keep the links\<close>

lemma last_or_cases:
  obtains "xs = []" "last_or p xs = p" | ys y where "xs = ys @ [y]" "last_or p xs = Some y"
  by (cases xs rule: rev_cases) auto

lemma first_or_cases:
  obtains "xs = []" "first_or xs p = p" | y ys where "xs = y # ys" "first_or xs p = Some y"
  by (cases xs) auto

lemma dll_add_tail:
  assumes "dll s xs" "n \<notin> set xs"
  shows "dll (hev_list_add_tail s n) (xs @ [n])"
proof (cases xs rule: rev_cases)
  case Nil
  with assms show ?thesis
    by (simp add: dll_def hev_list_add_tail_def set_nxt_def set_prv_def Let_def)
next
  case (snoc ys y)
  with assms show ?thesis
    by (auto simp: dll_def hev_list_add_tail_def set_nxt_def set_prv_def Let_def)
qed

lemma dll_del_split:
  assumes d: "dll s (as @ n # bs)"
  shows "dll (hev_list_del s n) (as @ bs)"
proof -
  have dist: "distinct (as @ n # bs)" and sg: "dseg (lmem s) None (as @ n # bs) None"
    and hd: "lhead s = first_or (as @ n # bs) None" and tl: "ltail s = last_or None (as @ n # bs)"
    using d by (simp_all add: dll_def)
  show ?thesis
  proof (cases as rule: rev_cases)
    case as: Nil
    show ?thesis
      using dist sg hd tl as
      by (cases bs) (auto simp: dll_def hev_list_del_def set_nxt_def set_prv_def Let_def)
  next
    case as: (snoc as' a)
    show ?thesis
      using dist sg hd tl as
      by (cases bs) (auto simp: dll_def hev_list_del_def set_nxt_def set_prv_def Let_def)
  qed
qed

lemma dll_del:
  assumes "dll s xs" "n \<in> set xs"
  shows "dll (hev_list_del s n) (remove1 n xs)"
proof -
  obtain as bs where xs: "xs = as @ n # bs" "n \<notin> set as"
    using split_list_first [OF assms(2)] by blast
  then have "remove1 n xs = as @ bs" by (simp add: remove1_append)
  with dll_del_split [of s as n bs] assms(1) xs show ?thesis by simp
qed

lemma dll_next:
  assumes "dll s (as @ n # bs)"
  shows "hev_list_node_next s n = first_or bs None"
  using assms by (simp add: dll_def hev_list_node_next_def)

lemma dll_first: "dll s xs \<Longrightarrow> hev_list_first s = first_or xs None"
  by (simp add: dll_def hev_list_first_def)

lemma dll_walk_from:
  assumes "dll s (as @ bs)" "length bs \<le> fuel"
  shows "hev_list_walk fuel s (first_or bs None) = Some bs"
  using assms
proof (induction bs arbitrary: as fuel)
  case Nil
  then show ?case by simp
next
  case (Cons b bs)
  then obtain f where f: "fuel = Suc f" "length bs \<le> f"
    by (cases fuel) auto
  have "hev_list_node_next s b = first_or bs None"
    using Cons.prems(1) by (rule dll_next)
  moreover have "hev_list_walk f s (first_or bs None) = Some bs"
    using Cons.IH [of "as @ [b]" f] Cons.prems(1) f by simp
  ultimately show ?case using f by simp
qed

section \<open>The contract of the list\<close>

locale node_list =
  fixes add_tail :: "'s \<Rightarrow> 'p \<Rightarrow> 's"
    and del :: "'s \<Rightarrow> 'p \<Rightarrow> 's"
    and first :: "'s \<Rightarrow> 'p option"
    and walk :: "nat \<Rightarrow> 's \<Rightarrow> 'p option \<Rightarrow> 'p list option"
    and holds :: "'s \<Rightarrow> 'p list \<Rightarrow> bool"
  assumes holds_distinct: "holds s xs \<Longrightarrow> distinct xs"
    and holds_add_tail: "holds s xs \<Longrightarrow> n \<notin> set xs \<Longrightarrow> holds (add_tail s n) (xs @ [n])"
    and holds_del: "holds s xs \<Longrightarrow> n \<in> set xs \<Longrightarrow> holds (del s n) (remove1 n xs)"
    and holds_first: "holds s xs \<Longrightarrow> first s = (case xs of [] \<Rightarrow> None | x # _ \<Rightarrow> Some x)"
    and holds_walk: "holds s xs \<Longrightarrow> length xs \<le> fuel \<Longrightarrow> walk fuel s (first s) = Some xs"
begin

text \<open>Moving a node to the end, as every client does to record a use.\<close>

lemma holds_touch:
  assumes "holds s xs" "n \<in> set xs"
  shows "holds (add_tail (del s n) n) (remove1 n xs @ [n])"
proof -
  have "holds (del s n) (remove1 n xs)" using assms by (rule holds_del)
  moreover have "n \<notin> set (remove1 n xs)"
    using holds_distinct [OF assms(1)] by simp
  ultimately show ?thesis by (rule holds_add_tail)
qed

lemma first_in:
  assumes "holds s xs" "first s = Some n"
  shows "n \<in> set xs"
  using assms holds_first [OF assms(1)] by (auto split: list.splits)

lemma touch_set:
  assumes "holds s xs" "n \<in> set xs"
  shows "set (remove1 n xs @ [n]) = set xs" and "length (remove1 n xs @ [n]) = length xs"
proof -
  show "set (remove1 n xs @ [n]) = set xs"
    using assms holds_distinct [OF assms(1)] by auto
  have "0 < length xs" using assms(2) by (cases xs) auto
  then show "length (remove1 n xs @ [n]) = length xs"
    using assms by (simp add: length_remove1)
qed

lemma pop_front:
  assumes "holds s (x # xs)"
  shows "first s = Some x" and "holds (del s x) xs"
  using holds_first [OF assms] holds_del [OF assms, of x] by simp_all

end

interpretation hl: node_list hev_list_add_tail hev_list_del hev_list_first hev_list_walk dll
proof unfold_locales
  show "dll s xs \<Longrightarrow> distinct xs" for s :: "'a llist" and xs
    by (simp add: dll_def)
  show "dll s xs \<Longrightarrow> n \<notin> set xs \<Longrightarrow> dll (hev_list_add_tail s n) (xs @ [n])" for s :: "'a llist" and xs n
    by (rule dll_add_tail)
  show "dll s xs \<Longrightarrow> n \<in> set xs \<Longrightarrow> dll (hev_list_del s n) (remove1 n xs)" for s :: "'a llist" and xs n
    by (rule dll_del)
  show "dll s xs \<Longrightarrow> hev_list_first s = (case xs of [] \<Rightarrow> None | x # _ \<Rightarrow> Some x)" for s :: "'a llist" and xs
    by (simp add: dll_first first_or_def)
  show "dll s xs \<Longrightarrow> length xs \<le> fuel \<Longrightarrow> hev_list_walk fuel s (hev_list_first s) = Some xs"
    for s :: "'a llist" and xs fuel
    using dll_walk_from [of s "[]" xs fuel] by (simp add: dll_first)
qed

section \<open>Runs of the list\<close>

datatype 'p list_op = AddTail 'p | Del 'p

fun list_do :: "'p list_op \<Rightarrow> 'p llist \<Rightarrow> 'p llist" where
  "list_do (AddTail n) s = hev_list_add_tail s n"
| "list_do (Del n) s = hev_list_del s n"

fun seq_do :: "'p list_op \<Rightarrow> 'p list \<Rightarrow> 'p list" where
  "seq_do (AddTail n) xs = xs @ [n]"
| "seq_do (Del n) xs = remove1 n xs"

fun list_ops_ok :: "'p list_op list \<Rightarrow> 'p list \<Rightarrow> bool" where
  "list_ops_ok [] xs = True"
| "list_ops_ok (AddTail n # ps) xs = (n \<notin> set xs \<and> list_ops_ok ps (xs @ [n]))"
| "list_ops_ok (Del n # ps) xs = (n \<in> set xs \<and> list_ops_ok ps (remove1 n xs))"

lemma list_do_run: "list_ops_ok ps xs \<Longrightarrow> dll s xs \<Longrightarrow> dll (fold list_do ps s) (fold seq_do ps xs)"
  by (induction ps xs arbitrary: s rule: list_ops_ok.induct)
    (auto intro: hl.holds_add_tail hl.holds_del)

text \<open>
  The doubly linked list is a sequence.  After any additions of new nodes and removals of linked
  ones, walking it from its head ends, and visits exactly the nodes that the sequence of
  operations leaves, in that order; as many steps as there are nodes are enough.
\<close>

theorem list_refines_sequence:
  assumes "list_ops_ok ps []" "length (fold seq_do ps []) \<le> fuel"
  shows "let s = fold list_do ps (hev_list_empty m) in
     hev_list_walk fuel s (hev_list_first s) = Some (fold seq_do ps [])"
  using hl.holds_walk [OF list_do_run [OF assms(1) dll_empty] assms(2)] by (simp add: Let_def)

theorem list_refines_sequence_witness:
  "let s = fold list_do [AddTail 1, AddTail 2, AddTail 3, Del 2, AddTail 2, Del (1 :: nat)]
     (hev_list_empty (\<lambda>_. \<lparr>nxt = None, prv = None\<rparr>)) in
   hev_list_walk 5 s (hev_list_first s) = Some [3, 2]"
  using list_refines_sequence [of "[AddTail 1, AddTail 2, AddTail 3, Del 2, AddTail 2, Del (1 :: nat)]" 5
      "\<lambda>_. \<lparr>nxt = None, prv = None\<rparr>"] by simp

end
