(* ===== verification/Mapped_Dns.thy ===== *)
theory Mapped_Dns
  imports Byte_Order Hev_List
begin

text \<open>
  The mapped DNS of \<^verbatim>\<open>hev/src/hev-mapped-dns.c\<close>: names of A queries are given addresses of a
  private network, and a later connection to such an address is translated back to its name.

  A node is known by its address, a number that is never reused; its members \<^verbatim>\<open>name\<close> and
  \<^verbatim>\<open>idx\<close> are maps.  Nodes are linked in a red-black tree by name and in a list by recency of
  use, and the array \<^verbatim>\<open>records\<close> leads from an index to its node.  \<open>d_freed\<close> lists the nodes
  that were freed.  An operation gives \<open>None\<close> where the code would follow a null pointer, use a
  freed node or leave the array.  Allocation does not fail in this model.
\<close>

section \<open>State and operations\<close>

record dns =
  d_use :: int
  d_max :: int
  d_net :: u32
  d_mask :: u32
  d_tree :: "nat rbt"
  d_list :: "nat llist"
  d_recs :: "nat \<Rightarrow> nat option"
  d_name :: "nat \<Rightarrow> bytes"
  d_idx :: "nat \<Rightarrow> int"
  d_next :: nat
  d_freed :: "nat list"

definition hev_mapped_dns_construct :: "u32 \<Rightarrow> u32 \<Rightarrow> int \<Rightarrow> dns option" where
  "hev_mapped_dns_construct net msk cap =
     (if cap > sint (NOT msk) then None
      else Some \<lparr>d_use = 0, d_max = cap, d_net = net, d_mask = msk, d_tree = Null,
                d_list = hev_list_empty (\<lambda>_. \<lparr>nxt = None, prv = None\<rparr>), d_recs = (\<lambda>_. None),
                d_name = (\<lambda>_. []), d_idx = (\<lambda>_. 0), d_next = 0, d_freed = []\<rparr>)"

definition hev_mapped_dns_node_alloc :: "bytes \<Rightarrow> dns \<Rightarrow> nat \<times> dns" where
  "hev_mapped_dns_node_alloc name d =
     (d_next d, d\<lparr>d_next := Suc (d_next d), d_name := (d_name d)(d_next d := name),
                  d_idx := (d_idx d)(d_next d := 0)\<rparr>)"

definition hev_mapped_dns_node_free :: "nat \<Rightarrow> dns \<Rightarrow> dns" where
  "hev_mapped_dns_node_free n d = d\<lparr>d_freed := n # d_freed d\<rparr>"

definition dns_touch :: "nat \<Rightarrow> dns \<Rightarrow> dns" where
  "dns_touch a d = d\<lparr>d_list := hev_list_add_tail (hev_list_del (d_list d) a) a\<rparr>"

text \<open>The last statements of \<^verbatim>\<open>find\<close>: the node is recorded under its index.\<close>

definition dns_record :: "nat \<Rightarrow> int \<Rightarrow> dns \<Rightarrow> (int \<times> dns) option" where
  "dns_record node idx d =
     (if 0 \<le> idx \<and> idx < d_max d \<and> node \<notin> set (d_freed d)
      then Some (idx, d\<lparr>d_recs := (d_recs d)(nat idx := Some node), d_idx := (d_idx d)(node := idx)\<rparr>)
      else None)"

text \<open>The eviction of the least recently used node, which gives its index.\<close>

definition dns_evict :: "dns \<Rightarrow> (int \<times> dns) option" where
  "dns_evict d =
     (case hev_list_first (d_list d) of
        None \<Rightarrow> None
      | Some nf \<Rightarrow>
          (case hev_rbtree_erase (d_tree d) nf of
             None \<Rightarrow> None
           | Some t \<Rightarrow>
               Some (d_idx d nf,
                     hev_mapped_dns_node_free nf (d\<lparr>d_tree := t, d_list := hev_list_del (d_list d) nf\<rparr>))))"

definition hev_mapped_dns_find :: "dns \<Rightarrow> bytes \<Rightarrow> (int \<times> dns) option" where
  "hev_mapped_dns_find d name =
     (case descend (\<lambda>a. strcmp (d_name d a) name) [] (d_tree d) of
        (Some node, _) \<Rightarrow> Some (d_idx d node, dns_touch node d)
      | (None, parent) \<Rightarrow>
          (case hev_mapped_dns_node_alloc name d of (node, d1) \<Rightarrow>
             (case hev_rbtree_insert_color parent node of
                None \<Rightarrow> None
              | Some t \<Rightarrow>
                  let d2 = d1\<lparr>d_tree := t, d_list := hev_list_add_tail (d_list d1) node\<rparr> in
                  if d_use d2 < d_max d2
                  then dns_record node (d_use d) (d2\<lparr>d_use := d_use d2 + 1\<rparr>)
                  else case dns_evict d2 of
                      None \<Rightarrow> None
                    | Some (idx, d3) \<Rightarrow> dns_record node idx d3)))"

definition hev_mapped_dns_lookup :: "dns \<Rightarrow> u32 \<Rightarrow> (bytes option \<times> dns) option" where
  "hev_mapped_dns_lookup d ip =
     (let idx = sint (ip AND NOT (d_mask d)) in
      if idx \<ge> d_max d then Some (None, d)
      else if idx < 0 then None
      else case d_recs d (nat idx) of
          None \<Rightarrow> Some (None, d)
        | Some node \<Rightarrow>
            if node \<in> set (d_freed d) then None
            else Some (Some (d_name d node), dns_touch node d))"

text \<open>The destructor walks the list and frees each node; it visits at most \<open>d_next\<close> of them.\<close>

definition hev_mapped_dns_destruct :: "dns \<Rightarrow> dns option" where
  "hev_mapped_dns_destruct d =
     map_option (\<lambda>ns. fold hev_mapped_dns_node_free ns d)
       (hev_list_walk (d_next d) (d_list d) (hev_list_first (d_list d)))"

section \<open>Specification\<close>

text \<open>
  The cache as a list of names with their indices, least recently used first.
\<close>

type_synonym cache = "(bytes \<times> int) list"

definition spec_touch :: "bytes \<Rightarrow> int \<Rightarrow> cache \<Rightarrow> cache" where
  "spec_touch name i L = remove1 (name, i) L @ [(name, i)]"

definition spec_find :: "int \<Rightarrow> bytes \<Rightarrow> cache \<Rightarrow> int \<times> cache" where
  "spec_find cap name L =
     (case map_of L name of
        Some i \<Rightarrow> (i, spec_touch name i L)
      | None \<Rightarrow>
          if int (length L) < cap then (int (length L), L @ [(name, int (length L))])
          else (snd (hd L), tl L @ [(name, snd (hd L))]))"

definition spec_lookup :: "int \<Rightarrow> cache \<Rightarrow> bytes option \<times> cache" where
  "spec_lookup i L =
     (case map_of (map (\<lambda>(n, i). (i, n)) L) i of
        Some name \<Rightarrow> (Some name, spec_touch name i L)
      | None \<Rightarrow> (None, L))"

text \<open>
  The nodes \<open>as\<close> are the ones in the tree and in the list; the array and the nodes' indices
  are inverse to each other; live nodes are not freed, and no node is freed twice.
\<close>

definition dns_linked :: "dns \<Rightarrow> nat list \<Rightarrow> bool" where
  "dns_linked d as \<longleftrightarrow>
     rb (d_tree d) \<and> str.ordered (d_name d) (inorder (d_tree d)) \<and> dll (d_list d) as
     \<and> set as = set (inorder (d_tree d)) \<and> int (length as) = d_use d \<and> d_use d \<le> d_max d"

definition dns_indexed :: "dns \<Rightarrow> nat set \<Rightarrow> bool" where
  "dns_indexed d A \<longleftrightarrow>
     (\<forall>a\<in>A. 0 \<le> d_idx d a \<and> d_idx d a < d_use d \<and> d_recs d (nat (d_idx d a)) = Some a)
     \<and> (\<forall>i a. d_recs d i = Some a \<longrightarrow> a \<in> A \<and> d_idx d a = int i)"

definition dns_live :: "dns \<Rightarrow> nat set \<Rightarrow> bool" where
  "dns_live d A \<longleftrightarrow> (\<forall>a\<in>A. a < d_next d \<and> a \<notin> set (d_freed d))
     \<and> (\<forall>a\<in>set (d_freed d). a < d_next d) \<and> distinct (d_freed d)"

definition dns_repr :: "dns \<Rightarrow> nat list \<Rightarrow> bool" where
  "dns_repr d as \<longleftrightarrow> dns_linked d as \<and> dns_indexed d (set as) \<and> dns_live d (set as)"

definition dns_abs :: "dns \<Rightarrow> nat list \<Rightarrow> cache" where
  "dns_abs d as = map (\<lambda>a. (d_name d a, d_idx d a)) as"

section \<open>The operations implement the specification\<close>

lemma repr_distinct:
  assumes "dns_repr d as"
  shows "distinct as" "distinct (map (d_name d) as)" "inj_on (d_idx d) (set as)"
proof -
  have l: "dns_linked d as" "dns_indexed d (set as)" using assms by (simp_all add: dns_repr_def)
  then show "distinct as" by (simp add: dns_linked_def dll_def)
  have "distinct (map (d_name d) (inorder (d_tree d)))"
    using l str.ordered_distinct by (auto simp: dns_linked_def)
  then show "distinct (map (d_name d) as)"
    using l \<open>distinct as\<close> by (simp add: dns_linked_def distinct_map)
  show "inj_on (d_idx d) (set as)"
  proof (rule inj_onI)
    fix a b
    assume "a \<in> set as" "b \<in> set as" "d_idx d a = d_idx d b"
    then have "Some a = Some b" using l(2) unfolding dns_indexed_def by (metis (no_types))
    then show "a = b" by simp
  qed
qed

lemma map_of_abs:
  assumes "dns_repr d as" "a \<in> set as"
  shows "map_of (dns_abs d as) (d_name d a) = Some (d_idx d a)"
proof -
  have "distinct (map fst (dns_abs d as))"
    using repr_distinct(2) [OF assms(1)] by (simp add: dns_abs_def comp_def)
  with assms(2) show ?thesis by (auto simp: dns_abs_def intro!: map_of_is_SomeI)
qed

lemma map_of_abs_idx:
  assumes "dns_repr d as" "a \<in> set as"
  shows "map_of (map (\<lambda>(n, i). (i, n)) (dns_abs d as)) (d_idx d a) = Some (d_name d a)"
proof -
  have "distinct (map fst (map (\<lambda>(n, i). (i, n)) (dns_abs d as)))"
    using repr_distinct(1,3) [OF assms(1)] by (simp add: dns_abs_def comp_def distinct_map)
  with assms(2) show ?thesis by (auto simp: dns_abs_def intro!: map_of_is_SomeI)
qed

lemma abs_remove1:
  assumes "dns_repr d as" "a \<in> set as"
  shows "dns_abs d (remove1 a as) = remove1 (d_name d a, d_idx d a) (dns_abs d as)"
proof -
  have "inj_on (\<lambda>a. (d_name d a, d_idx d a)) (set as)"
    using repr_distinct(3) [OF assms(1)] by (auto simp: inj_on_def)
  then show ?thesis
    unfolding dns_abs_def using assms(2)
    by (induction as) (auto simp: inj_on_def)
qed

lemma touch_simps [simp]:
  "dns_indexed (dns_touch a d) A = dns_indexed d A" "dns_live (dns_touch a d) A = dns_live d A"
  by (simp_all add: dns_indexed_def dns_live_def dns_touch_def)

lemma touch_repr:
  assumes "dns_repr d as" "a \<in> set as"
  shows "dns_repr (dns_touch a d) (remove1 a as @ [a])"
    and "dns_abs (dns_touch a d) (remove1 a as @ [a]) = spec_touch (d_name d a) (d_idx d a) (dns_abs d as)"
proof -
  have l: "dll (d_list d) as" using assms(1) by (simp add: dns_repr_def dns_linked_def)
  have "dll (hev_list_add_tail (hev_list_del (d_list d) a) a) (remove1 a as @ [a])"
    using l assms(2) by (rule hl.holds_touch)
  moreover have "set (remove1 a as @ [a]) = set as" "length (remove1 a as @ [a]) = length as"
    using hl.touch_set [OF l assms(2)] by blast+
  ultimately show "dns_repr (dns_touch a d) (remove1 a as @ [a])"
    using assms(1) unfolding dns_repr_def dns_linked_def touch_simps
    by (auto simp del: set_append length_append simp: dns_touch_def)
  show "dns_abs (dns_touch a d) (remove1 a as @ [a]) = spec_touch (d_name d a) (d_idx d a) (dns_abs d as)"
    using abs_remove1 [OF assms] by (simp add: dns_abs_def dns_touch_def spec_touch_def)
qed

lemma lookup_refines:
  assumes "dns_repr d as" "0 \<le> sint (ip AND NOT (d_mask d))"
  obtains d' as' where "hev_mapped_dns_lookup d ip
      = Some (fst (spec_lookup (sint (ip AND NOT (d_mask d))) (dns_abs d as)), d')"
    "dns_repr d' as'" "dns_abs d' as' = snd (spec_lookup (sint (ip AND NOT (d_mask d))) (dns_abs d as))"
    "d_net d' = d_net d" "d_mask d' = d_mask d" "d_max d' = d_max d"
proof -
  let ?i = "sint (ip AND NOT (d_mask d))"
  show ?thesis
  proof (cases "\<exists>a\<in>set as. d_idx d a = ?i")
    case True
    then obtain a where a: "a \<in> set as" "d_idx d a = ?i" by blast
    have r: "dns_linked d as" "dns_indexed d (set as)" "dns_live d (set as)"
      using assms(1) by (simp_all add: dns_repr_def)
    have "d_recs d (nat (d_idx d a)) = Some a" "d_idx d a < d_use d" "a \<notin> set (d_freed d)" "d_use d \<le> d_max d"
      using r a(1) by (auto simp: dns_indexed_def dns_live_def dns_linked_def)
    then have "?i < d_max d" "d_recs d (nat ?i) = Some a" "a \<notin> set (d_freed d)" using a(2) by simp_all
    then have "hev_mapped_dns_lookup d ip = Some (Some (d_name d a), dns_touch a d)"
      using assms(2) by (simp add: hev_mapped_dns_lookup_def Let_def)
    moreover have "spec_lookup ?i (dns_abs d as) = (Some (d_name d a), spec_touch (d_name d a) ?i (dns_abs d as))"
      using map_of_abs_idx [OF assms(1) a(1)] a(2) by (simp add: spec_lookup_def)
    ultimately show ?thesis
      using that [of "dns_touch a d" "remove1 a as @ [a]"] touch_repr [OF assms(1) a(1)] a(2)
      by (simp add: dns_touch_def)
  next
    case False
    have "map_of (map (\<lambda>(n, i). (i, n)) (dns_abs d as)) ?i = None"
      using False by (auto simp: map_of_eq_None_iff dns_abs_def)
    then have sp: "spec_lookup ?i (dns_abs d as) = (None, dns_abs d as)" by (simp add: spec_lookup_def)
    have "d_recs d (nat ?i) = None"
    proof (rule ccontr)
      assume "d_recs d (nat ?i) \<noteq> None"
      then obtain a where "d_recs d (nat ?i) = Some a" by blast
      then have "a \<in> set as" "d_idx d a = ?i" using assms by (auto simp: dns_repr_def dns_indexed_def)
      with False show False by blast
    qed
    then have "hev_mapped_dns_lookup d ip = Some (None, d)"
      using assms(2) by (simp add: hev_mapped_dns_lookup_def Let_def)
    with sp that [of d as] assms(1) show ?thesis by simp
  qed
qed


lemma record_repr:
  assumes "dns_linked d as" "dns_live d (set as)" "n \<in> set as"
    and ix: "dns_indexed (d\<lparr>d_recs := (d_recs d)(nat i := None)\<rparr>) (set as - {n})"
    and "0 \<le> i" "i < d_use d" "\<And>a. a \<in> set as - {n} \<Longrightarrow> d_idx d a \<noteq> i"
  shows "\<exists>d'. dns_record n i d = Some (i, d') \<and> dns_repr d' as
     \<and> dns_abs d' as = map (\<lambda>a. if a = n then (d_name d n, i) else (d_name d a, d_idx d a)) as
     \<and> d_net d' = d_net d \<and> d_mask d' = d_mask d \<and> d_max d' = d_max d"
proof -
  let ?d = "d\<lparr>d_recs := (d_recs d)(nat i := Some n), d_idx := (d_idx d)(n := i)\<rparr>"
  have "d_use d \<le> d_max d" using assms(1) by (simp add: dns_linked_def)
  then have "dns_record n i d = Some (i, ?d)"
    using assms by (auto simp: dns_record_def dns_live_def)
  moreover have "dns_indexed ?d (set as)"
  proof -
    have "nat (d_idx d a) \<noteq> nat i" if "a \<in> set as - {n}" for a
    proof -
      have "0 \<le> d_idx d a" using that ix by (simp add: dns_indexed_def)
      with assms(5) assms(7) [OF that] show ?thesis by (simp add: nat_eq_iff)
    qed
    then show ?thesis
      using assms(3,5,6) ix by (auto simp: dns_indexed_def split: if_splits)
  qed
  moreover have "dns_linked ?d as" "dns_live ?d (set as)"
    using assms(1,2) by (simp_all add: dns_linked_def dns_live_def)
  ultimately show ?thesis by (auto simp: dns_repr_def dns_abs_def)
qed

text \<open>A new node, linked but not yet counted: the tree and the list have it.\<close>

lemma insert_new:
  assumes "dns_repr d as" "descend (\<lambda>a. strcmp (d_name d a) name) [] (d_tree d) = (None, p)"
  obtains t where "hev_rbtree_insert_color p (d_next d) = Some t" "rb t"
    "str.ordered ((d_name d)(d_next d := name)) (inorder t)" "set (inorder t) = insert (d_next d) (set as)"
    "dll (hev_list_add_tail (d_list d) (d_next d)) (as @ [d_next d])" "d_next d \<notin> set as"
proof -
  let ?n = "d_next d" and ?nm = "(d_name d)(d_next d := name)"
  have r: "dns_linked d as" "dns_live d (set as)" using assms(1) by (simp_all add: dns_repr_def)
  then have n: "?n \<notin> set as" "?n \<notin> set (inorder (d_tree d))" by (auto simp: dns_live_def dns_linked_def)
  have "descend (\<lambda>a. strcmp (?nm a) (?nm ?n)) [] (d_tree d) = descend (\<lambda>a. strcmp (d_name d a) name) [] (d_tree d)"
    by (rule descend_cong) (use n(2) in auto)
  then have "descend (\<lambda>a. strcmp (?nm a) (?nm ?n)) [] (d_tree d) = (None, p)" using assms(2) by simp
  moreover have "str.ordered ?nm (inorder (d_tree d))"
    using r(1) n(2) by (auto simp: dns_linked_def elim: sorted_wrt_mono_rel [rotated])
  moreover have "rb (d_tree d)" using r(1) by (simp add: dns_linked_def)
  ultimately obtain t where "hev_rbtree_insert_color p ?n = Some t" "rb t" "str.ordered ?nm (inorder t)"
    "set (inorder t) = insert ?n (set (inorder (d_tree d)))"
    using str.insert_missing [of "d_tree d" ?nm ?n p] by auto
  moreover have "dll (hev_list_add_tail (d_list d) ?n) (as @ [?n])"
    by (rule hl.holds_add_tail) (use r(1) n(1) in \<open>simp_all add: dns_linked_def\<close>)
  ultimately show ?thesis using that n(1) r(1) by (simp add: dns_linked_def)
qed


text \<open>The state between the insertion of a new node and the choice of its index.\<close>

definition with_new :: "bytes \<Rightarrow> nat rbt \<Rightarrow> dns \<Rightarrow> dns" where
  "with_new name t d = d\<lparr>d_next := Suc (d_next d), d_name := (d_name d)(d_next d := name),
     d_idx := (d_idx d)(d_next d := 0), d_tree := t, d_list := hev_list_add_tail (d_list d) (d_next d)\<rparr>"

lemma find_new:
  assumes "descend (\<lambda>a. strcmp (d_name d a) name) [] (d_tree d) = (None, p)"
    "hev_rbtree_insert_color p (d_next d) = Some t"
  shows "hev_mapped_dns_find d name =
     (let d2 = with_new name t d in
      if d_use d < d_max d then dns_record (d_next d) (d_use d) (d2\<lparr>d_use := d_use d + 1\<rparr>)
      else case dns_evict d2 of None \<Rightarrow> None | Some (idx, d3) \<Rightarrow> dns_record (d_next d) idx d3)"
  using assms
  by (simp add: hev_mapped_dns_find_def hev_mapped_dns_node_alloc_def with_new_def Let_def)

lemma evict_first:
  assumes "dll (d_list d) (x # xs)" "rb (d_tree d)" "str.ordered (d_name d) (inorder (d_tree d))"
    "x \<in> set (inorder (d_tree d))"
  obtains t where "dns_evict d = Some (d_idx d x, hev_mapped_dns_node_free x
      (d\<lparr>d_tree := t, d_list := hev_list_del (d_list d) x\<rparr>))"
    "rb t" "str.ordered (d_name d) (inorder t)" "set (inorder t) = set (inorder (d_tree d)) - {x}"
    "dll (hev_list_del (d_list d) x) xs"
proof -
  obtain t where "hev_rbtree_erase (d_tree d) x = Some t" "rb t" "str.ordered (d_name d) (inorder t)"
    "set (inorder t) = set (inorder (d_tree d)) - {x}"
    using str.erase_present [OF assms(2-4)] by blast
  with hl.pop_front [OF assms(1)] that show ?thesis by (simp add: dns_evict_def)
qed

lemma indexed_except:
  assumes "\<And>a. a \<in> A \<Longrightarrow> 0 \<le> d_idx d a \<and> d_idx d a < d_use d \<and> d_recs d (nat (d_idx d a)) = Some a \<and> nat (d_idx d a) \<noteq> k"
    and "\<And>j a. d_recs d j = Some a \<Longrightarrow> j \<noteq> k \<Longrightarrow> a \<in> A \<and> d_idx d a = int j"
  shows "dns_indexed (d\<lparr>d_recs := (d_recs d)(k := None)\<rparr>) A"
  using assms by (simp add: dns_indexed_def)

lemma find_room:
  assumes "dns_repr d as" "descend (\<lambda>a. strcmp (d_name d a) name) [] (d_tree d) = (None, p)" "d_use d < d_max d"
  shows "\<exists>d'. hev_mapped_dns_find d name = Some (d_use d, d') \<and> dns_repr d' (as @ [d_next d])
     \<and> dns_abs d' (as @ [d_next d]) = dns_abs d as @ [(name, d_use d)]
     \<and> d_net d' = d_net d \<and> d_mask d' = d_mask d \<and> d_max d' = d_max d"
proof -
  obtain t where t: "hev_rbtree_insert_color p (d_next d) = Some t" "rb t"
    "str.ordered ((d_name d)(d_next d := name)) (inorder t)" "set (inorder t) = insert (d_next d) (set as)"
    "dll (hev_list_add_tail (d_list d) (d_next d)) (as @ [d_next d])" "d_next d \<notin> set as"
    by (rule insert_new [OF assms(1,2)])
  let ?d = "(with_new name t d)\<lparr>d_use := d_use d + 1\<rparr>" and ?n = "d_next d"
  have r: "dns_linked d as" "dns_indexed d (set as)" "dns_live d (set as)" using assms(1) by (simp_all add: dns_repr_def)
  have use: "0 \<le> d_use d" using r(1) by (simp add: dns_linked_def flip: of_nat_0_le_iff)
  have 1: "dns_linked ?d (as @ [?n])" using t r(1) assms(3) by (simp add: dns_linked_def with_new_def)
  have 2: "dns_live ?d (set (as @ [?n]))" using r(3) by (auto simp: dns_live_def with_new_def less_Suc_eq)
  have none: "d_recs d (nat (d_use d)) = None"
  proof (rule ccontr)
    assume "d_recs d (nat (d_use d)) \<noteq> None"
    then obtain a where "d_recs d (nat (d_use d)) = Some a" by blast
    then have a: "a \<in> set as" "d_idx d a = int (nat (d_use d))" using r(2) by (simp_all add: dns_indexed_def)
    have "d_idx d a < d_use d" using r(2) a(1) unfolding dns_indexed_def by blast
    with a(2) use show False by simp
  qed
  have s: "set (as @ [?n]) - {?n} = set as" using t(6) by auto
  have i: "d_recs d (nat (d_idx d a)) = Some a \<and> 0 \<le> d_idx d a \<and> d_idx d a < d_use d \<and> a \<noteq> ?n" if "a \<in> set as" for a
    using r(2) that t(6) unfolding dns_indexed_def by blast
  have j: "a \<in> set as \<and> d_idx d a = int j \<and> a \<noteq> ?n" if "d_recs d j = Some a" for j a
    using r(2) that t(6) unfolding dns_indexed_def by blast
  have 3: "dns_indexed (?d\<lparr>d_recs := (d_recs ?d)(nat (d_use d) := None)\<rparr>) (set (as @ [?n]) - {?n})"
    unfolding s
  proof (rule indexed_except)
    show "0 \<le> d_idx ?d a \<and> d_idx ?d a < d_use ?d \<and> d_recs ?d (nat (d_idx ?d a)) = Some a
        \<and> nat (d_idx ?d a) \<noteq> nat (d_use d)" if "a \<in> set as" for a
      using i [OF that] none by (auto simp: with_new_def)
    show "a \<in> set as \<and> d_idx ?d a = int k" if "d_recs ?d k = Some a" for k a
      using j [of k a] that by (simp add: with_new_def)
  qed
  have 4: "d_idx ?d a \<noteq> d_use d" if "a \<in> set (as @ [?n]) - {?n}" for a
    using that i [of a] unfolding s by (simp add: with_new_def)
  have "map (\<lambda>a. if a = ?n then (d_name ?d ?n, d_use d) else (d_name ?d a, d_idx ?d a)) (as @ [?n])
      = dns_abs d as @ [(name, d_use d)]"
    using t(6) by (auto simp: dns_abs_def with_new_def)
  then show ?thesis
    using record_repr [OF 1 2 _ 3 use _ 4] find_new [OF assms(2) t(1)] assms(3) by (simp add: with_new_def)
qed


lemma find_full:
  assumes "dns_repr d (x # xs)" "descend (\<lambda>a. strcmp (d_name d a) name) [] (d_tree d) = (None, p)"
    "\<not> d_use d < d_max d"
  shows "\<exists>d'. hev_mapped_dns_find d name = Some (d_idx d x, d') \<and> dns_repr d' (xs @ [d_next d])
     \<and> dns_abs d' (xs @ [d_next d]) = dns_abs d xs @ [(name, d_idx d x)]
     \<and> d_net d' = d_net d \<and> d_mask d' = d_mask d \<and> d_max d' = d_max d"
proof -
  let ?n = "d_next d"
  obtain t where t: "hev_rbtree_insert_color p ?n = Some t" "rb t"
    "str.ordered ((d_name d)(?n := name)) (inorder t)" "set (inorder t) = insert ?n (set (x # xs))"
    "dll (hev_list_add_tail (d_list d) ?n) (x # xs @ [?n])" "?n \<notin> set (x # xs)"
    using insert_new [OF assms(1,2)] by (metis append_Cons)
  let ?d = "with_new name t d"
  obtain t' where t': "dns_evict ?d = Some (d_idx d x, hev_mapped_dns_node_free x
      (?d\<lparr>d_tree := t', d_list := hev_list_del (d_list ?d) x\<rparr>))"
    "rb t'" "str.ordered (d_name ?d) (inorder t')" "set (inorder t') = set (inorder t) - {x}"
    "dll (hev_list_del (d_list ?d) x) (xs @ [?n])"
    using evict_first [of ?d x "xs @ [?n]"] t by (auto simp: with_new_def)
  let ?e = "hev_mapped_dns_node_free x (?d\<lparr>d_tree := t', d_list := hev_list_del (d_list ?d) x\<rparr>)"
  have r: "dns_linked d (x # xs)" "dns_indexed d (set (x # xs))" "dns_live d (set (x # xs))"
    using assms(1) by (simp_all add: dns_repr_def)
  have ds: "x \<notin> set xs" using repr_distinct(1) [OF assms(1)] by simp
  have ix: "0 \<le> d_idx d x" "d_idx d x < d_use d" "\<And>a. a \<in> set xs \<Longrightarrow> d_idx d a \<noteq> d_idx d x"
    using r(2) repr_distinct(3) [OF assms(1)] ds by (auto simp: dns_indexed_def inj_on_def)
  have s: "set (xs @ [?n]) - {?n} = set xs" using t(6) by auto
  have 1: "dns_linked ?e (xs @ [?n])"
    using t' t(4,6) r(1) ds by (auto simp: dns_linked_def hev_mapped_dns_node_free_def with_new_def)
  have 2: "dns_live ?e (set (xs @ [?n]))"
    using r(3) ds t(6) by (auto simp: dns_live_def hev_mapped_dns_node_free_def with_new_def less_Suc_eq)
  have 3: "dns_indexed (?e\<lparr>d_recs := (d_recs ?e)(nat (d_idx d x) := None)\<rparr>) (set (xs @ [?n]) - {?n})"
  proof -
    have "d_recs d (nat (d_idx d a)) = Some a \<and> 0 \<le> d_idx d a \<and> d_idx d a < d_use d
        \<and> nat (d_idx d a) \<noteq> nat (d_idx d x) \<and> a \<noteq> ?n" if "a \<in> set xs" for a
      using r(2) that ix(1) ix(3) [of a] t(6) by (auto simp: dns_indexed_def nat_eq_iff)
    moreover have "a \<in> set xs \<and> d_idx d a = int j \<and> a \<noteq> ?n" if "d_recs d j = Some a" "j \<noteq> nat (d_idx d x)" for j a
      using r(2) that t(6) unfolding dns_indexed_def by (metis nat_int set_ConsD)
    ultimately show ?thesis
      unfolding s dns_indexed_def by (simp add: hev_mapped_dns_node_free_def with_new_def)
  qed
  have 4: "\<And>a. a \<in> set (xs @ [?n]) - {?n} \<Longrightarrow> d_idx ?e a \<noteq> d_idx d x"
    unfolding s using ix(3) t(6) by (auto simp: hev_mapped_dns_node_free_def with_new_def)
  have "map (\<lambda>a. if a = ?n then (d_name ?e ?n, d_idx d x) else (d_name ?e a, d_idx ?e a)) (xs @ [?n])
      = dns_abs d xs @ [(name, d_idx d x)]"
    using t(6) by (auto simp: dns_abs_def hev_mapped_dns_node_free_def with_new_def)
  then show ?thesis
    using record_repr [OF 1 2 _ 3 ix(1) _ 4] find_new [OF assms(2) t(1)] assms(3) t'(1) ix(2)
    by (simp add: hev_mapped_dns_node_free_def with_new_def)
qed

lemma find_refines:
  assumes "dns_repr d as" "0 < d_max d"
  obtains d' as' where "hev_mapped_dns_find d name = Some (fst (spec_find (d_max d) name (dns_abs d as)), d')"
    "dns_repr d' as'" "dns_abs d' as' = snd (spec_find (d_max d) name (dns_abs d as))"
    "d_net d' = d_net d" "d_mask d' = d_mask d" "d_max d' = d_max d"
proof -
  have r: "dns_linked d as" using assms(1) by (simp add: dns_repr_def)
  then have ord: "str.ordered (d_name d) (inorder (d_tree d))" and l: "set (inorder (d_tree d)) = set as"
    and len: "int (length as) = d_use d" "d_use d \<le> d_max d" by (simp_all add: dns_linked_def)
  have len': "int (length (dns_abs d as)) = d_use d" using len by (simp add: dns_abs_def)
  obtain res p where de: "descend (\<lambda>a. strcmp (d_name d a) name) [] (d_tree d) = (res, p)" by fastforce
  show ?thesis
  proof (cases res)
    case (Some a)
    then have a: "a \<in> set as" "d_name d a = name" using str.descend_found [of "d_name d" name] de l by auto
    have "hev_mapped_dns_find d name = Some (d_idx d a, dns_touch a d)"
      using de Some by (simp add: hev_mapped_dns_find_def)
    moreover have "spec_find (d_max d) name (dns_abs d as) = (d_idx d a, spec_touch name (d_idx d a) (dns_abs d as))"
      using map_of_abs [OF assms(1) a(1)] a(2) by (simp add: spec_find_def)
    ultimately show ?thesis
      using that [of "dns_touch a d" "remove1 a as @ [a]"] touch_repr [OF assms(1) a(1)] a(2) by (simp add: dns_touch_def)
  next
    case None
    then have "name \<notin> d_name d ` set as" using str.descend_iff [OF ord, of name] de l by auto
    then have m: "map_of (dns_abs d as) name = None" by (auto simp: map_of_eq_None_iff dns_abs_def)
    show ?thesis
    proof (cases "d_use d < d_max d")
      case True
      with find_room [OF assms(1) de [unfolded None] True] m len' that show ?thesis
        by (auto simp: spec_find_def)
    next
      case False
      then obtain x xs where as: "as = x # xs" using len assms(2) by (cases as) auto
      have "snd (hd (dns_abs d as)) = d_idx d x" "tl (dns_abs d as) = dns_abs d xs" by (simp_all add: dns_abs_def as)
      with find_full [OF assms(1) [unfolded as] de [unfolded None] False] m len' False that show ?thesis
        by (auto simp: spec_find_def)
    qed
  qed
qed

section \<open>Life cycle and round trip\<close>

lemma construct_repr:
  assumes "hev_mapped_dns_construct net msk cap = Some d" "0 \<le> cap"
  shows "dns_repr d []" "dns_abs d [] = []" "d_max d = cap" "d_net d = net" "d_mask d = msk"
    "cap \<le> sint (NOT msk)"
  using assms by (auto simp: hev_mapped_dns_construct_def dns_repr_def dns_linked_def dns_indexed_def dns_live_def
      dns_abs_def rb_def split: if_splits)

text \<open>A name that was just looked up is the last one of the list, under the index returned.\<close>

lemma find_last:
  assumes "dns_repr d as" "0 < d_max d" "hev_mapped_dns_find d name = Some (i, d')"
  obtains as' a where "dns_repr d' (as' @ [a])" "d_name d' a = name" "d_idx d' a = i" "0 \<le> i" "i < d_max d'"
    "d_net d' = d_net d" "d_mask d' = d_mask d" "d_max d' = d_max d"
proof -
  obtain d1 as1 where f: "hev_mapped_dns_find d name = Some (fst (spec_find (d_max d) name (dns_abs d as)), d1)"
    "dns_repr d1 as1" "dns_abs d1 as1 = snd (spec_find (d_max d) name (dns_abs d as))"
    "d_net d1 = d_net d" "d_mask d1 = d_mask d" "d_max d1 = d_max d"
    by (rule find_refines [OF assms(1,2)])
  have e: "d1 = d'" "i = fst (spec_find (d_max d) name (dns_abs d as))" using f(1) assms(3) by auto
  have "\<exists>L. snd (spec_find (d_max d) name (dns_abs d as)) = L @ [(name, i)]"
    unfolding e(2) by (auto simp: spec_find_def spec_touch_def split: option.splits)
  then obtain L where L: "dns_abs d' as1 = L @ [(name, i)]" using f(3) e(1) by auto
  then obtain as' a where as1: "as1 = as' @ [a]" by (cases as1 rule: rev_cases) (auto simp: dns_abs_def)
  with L have a: "d_name d' a = name" "d_idx d' a = i" by (simp_all add: dns_abs_def)
  have "dns_repr d' (as' @ [a])" using f(2) e(1) as1 by simp
  moreover from this have "0 \<le> i" "i < d_max d'"
    using a by (auto simp: dns_repr_def dns_indexed_def dns_linked_def)
  ultimately show ?thesis using a f(4-6) e(1) by (intro that [of as' a]) auto
qed

lemma find_then_lookup:
  assumes "dns_repr d as" "0 < d_max d" "hev_mapped_dns_find d name = Some (i, d')"
    and "sint (ip AND NOT (d_mask d)) = i"
  shows "\<exists>d''. hev_mapped_dns_lookup d' ip = Some (Some name, d'') \<and> (\<exists>as. dns_repr d'' as)
     \<and> d_net d'' = d_net d \<and> d_mask d'' = d_mask d \<and> d_max d'' = d_max d"
proof -
  obtain as' a where f: "dns_repr d' (as' @ [a])" "d_name d' a = name" "d_idx d' a = i" "0 \<le> i" "i < d_max d'"
    "d_net d' = d_net d" "d_mask d' = d_mask d" "d_max d' = d_max d"
    by (rule find_last [OF assms(1-3)])
  have s: "sint (ip AND NOT (d_mask d')) = i" using assms(4) f(7) by simp
  have "0 \<le> sint (ip AND NOT (d_mask d'))" using s f(4) by simp
  then obtain d2 as2 where l: "hev_mapped_dns_lookup d' ip = Some (fst (spec_lookup i (dns_abs d' (as' @ [a]))), d2)"
    "dns_repr d2 as2" "d_net d2 = d_net d'" "d_mask d2 = d_mask d'" "d_max d2 = d_max d'"
    using lookup_refines [OF f(1), of ip] unfolding s by metis
  have "fst (spec_lookup i (dns_abs d' (as' @ [a]))) = Some name"
    using map_of_abs_idx [OF f(1), of a] f(2,3) by (simp add: spec_lookup_def)
  with l f(6-8) show ?thesis by auto
qed

text \<open>The destructor frees every node that is still live, each once.\<close>

lemma fold_node_free: "d_freed (fold hev_mapped_dns_node_free ns d) = rev ns @ d_freed d"
  by (induction ns arbitrary: d) (auto simp: hev_mapped_dns_node_free_def)

lemma destruct_frees_all:
  assumes "dns_repr d as"
  shows "\<exists>d'. hev_mapped_dns_destruct d = Some d' \<and> d_freed d' = rev as @ d_freed d \<and> distinct (d_freed d')"
proof -
  have r: "dll (d_list d) as" "dns_live d (set as)" using assms unfolding dns_repr_def dns_linked_def by blast+
  have "distinct as" using repr_distinct(1) [OF assms] .
  moreover have "set as \<subseteq> {..<d_next d}" using r(2) by (auto simp: dns_live_def)
  ultimately have "length as \<le> d_next d"
    by (metis card_lessThan card_mono distinct_card finite_lessThan)
  then have "hev_mapped_dns_destruct d = Some (fold hev_mapped_dns_node_free as d)"
    using hl.holds_walk [OF r(1)] by (simp add: hev_mapped_dns_destruct_def)
  with r(2) \<open>distinct as\<close> show ?thesis by (auto simp: fold_node_free dns_live_def)
qed

section \<open>Properties of the map\<close>

text \<open>The two operations of the map, on the implementation and on the list of its names.\<close>

datatype dns_cmd = DnsFind bytes | DnsLookup u32

datatype dns_ans = AnsIndex int | AnsName "bytes option"

fun dns_do :: "dns_cmd \<Rightarrow> dns \<Rightarrow> (dns_ans \<times> dns) option" where
  "dns_do (DnsFind name) d = map_option (\<lambda>(i, d'). (AnsIndex i, d')) (hev_mapped_dns_find d name)"
| "dns_do (DnsLookup ip) d = map_option (\<lambda>(n, d'). (AnsName n, d')) (hev_mapped_dns_lookup d ip)"

fun cache_do :: "int \<Rightarrow> u32 \<Rightarrow> dns_cmd \<Rightarrow> cache \<Rightarrow> dns_ans \<times> cache" where
  "cache_do cap msk (DnsFind name) L = (case spec_find cap name L of (i, L') \<Rightarrow> (AnsIndex i, L'))"
| "cache_do cap msk (DnsLookup ip) L = (case spec_lookup (sint (ip AND NOT msk)) L of (n, L') \<Rightarrow> (AnsName n, L'))"

fun dns_run :: "dns_cmd list \<Rightarrow> dns \<Rightarrow> (dns_ans list \<times> dns) option" where
  "dns_run [] d = Some ([], d)"
| "dns_run (c # cs) d =
     (case dns_do c d of
        None \<Rightarrow> None
      | Some (a, d') \<Rightarrow> map_option (\<lambda>(as, d''). (a # as, d'')) (dns_run cs d'))"

fun cache_run :: "int \<Rightarrow> u32 \<Rightarrow> dns_cmd list \<Rightarrow> cache \<Rightarrow> dns_ans list \<times> cache" where
  "cache_run cap msk [] L = ([], L)"
| "cache_run cap msk (c # cs) L =
     (case cache_do cap msk c L of (a, L') \<Rightarrow> case cache_run cap msk cs L' of (as, L'') \<Rightarrow> (a # as, L''))"

lemma host_part_nonneg:
  assumes "0 \<le> sint (NOT (m :: u32))"
  shows "0 \<le> sint (ip AND NOT m)"
proof -
  have "\<not> bit (NOT m) 31" using assms bit_last_iff [of "NOT m"] by simp
  then have "\<not> bit (ip AND NOT m) 31" by (simp add: bit_and_iff)
  then show ?thesis using bit_last_iff [of "ip AND NOT m"] by simp
qed

lemma dns_do_refines:
  assumes "dns_repr d as" "0 < d_max d" "0 \<le> sint (NOT (d_mask d))"
  obtains d' as' where "dns_do c d = Some (fst (cache_do (d_max d) (d_mask d) c (dns_abs d as)), d')" "dns_repr d' as'"
    "dns_abs d' as' = snd (cache_do (d_max d) (d_mask d) c (dns_abs d as))" "d_max d' = d_max d" "d_mask d' = d_mask d"
proof (cases c)
  case (DnsFind name)
  obtain d1 as1 where f: "hev_mapped_dns_find d name = Some (fst (spec_find (d_max d) name (dns_abs d as)), d1)"
    "dns_repr d1 as1" "dns_abs d1 as1 = snd (spec_find (d_max d) name (dns_abs d as))"
    "d_net d1 = d_net d" "d_mask d1 = d_mask d" "d_max d1 = d_max d"
    by (rule find_refines [OF assms(1,2)])
  show ?thesis by (rule that [of d1 as1]) (simp_all add: DnsFind f split: prod.split)
next
  case (DnsLookup ip)
  obtain d1 as1 where f: "hev_mapped_dns_lookup d ip
      = Some (fst (spec_lookup (sint (ip AND NOT (d_mask d))) (dns_abs d as)), d1)"
    "dns_repr d1 as1" "dns_abs d1 as1 = snd (spec_lookup (sint (ip AND NOT (d_mask d))) (dns_abs d as))"
    "d_net d1 = d_net d" "d_mask d1 = d_mask d" "d_max d1 = d_max d"
    by (rule lookup_refines [OF assms(1) host_part_nonneg [OF assms(3), of ip]])
  show ?thesis by (rule that [of d1 as1]) (simp_all add: DnsLookup f split: prod.split)
qed

lemma dns_run_refines:
  "dns_repr d as \<Longrightarrow> 0 < d_max d \<Longrightarrow> 0 \<le> sint (NOT (d_mask d)) \<Longrightarrow>
    \<exists>d' as'. dns_run cs d = Some (fst (cache_run (d_max d) (d_mask d) cs (dns_abs d as)), d') \<and> dns_repr d' as'
      \<and> dns_abs d' as' = snd (cache_run (d_max d) (d_mask d) cs (dns_abs d as))"
proof (induction cs arbitrary: d as)
  case (Cons c cs)
  obtain d1 as1 where s: "dns_do c d = Some (fst (cache_do (d_max d) (d_mask d) c (dns_abs d as)), d1)" "dns_repr d1 as1"
    "dns_abs d1 as1 = snd (cache_do (d_max d) (d_mask d) c (dns_abs d as))" "d_max d1 = d_max d" "d_mask d1 = d_mask d"
    by (rule dns_do_refines [OF Cons.prems])
  have "\<exists>d' as'. dns_run cs d1 = Some (fst (cache_run (d_max d) (d_mask d) cs (dns_abs d1 as1)), d') \<and> dns_repr d' as'
      \<and> dns_abs d' as' = snd (cache_run (d_max d) (d_mask d) cs (dns_abs d1 as1))"
    using Cons.IH [OF s(2)] Cons.prems(2,3) s(4,5) by simp
  with s(1,3) show ?case by (auto split: prod.splits)
qed auto

text \<open>
  C5: The mapped DNS is a least-recently-used cache from names to indices.  Over any sequence of
  queries and address look-ups from the empty map, the tree, the list and the array answer
  exactly as the abstract list of names does: a known name keeps its index, a new one gets the
  next free index or, when all are in use, that of the name unused for longest, and an index
  leads back to its name.  No null pointer, freed node or index outside the array is used.
\<close>

theorem mapped_dns_refines_lru:
  assumes "hev_mapped_dns_construct net msk cap = Some d" "0 < cap"
  shows "\<exists>d' as'. dns_run cs d = Some (fst (cache_run cap msk cs []), d') \<and> dns_repr d' as'
    \<and> dns_abs d' as' = snd (cache_run cap msk cs [])"
proof -
  note c = construct_repr [OF assms(1)]
  have "0 \<le> cap" "0 \<le> sint (NOT msk)" using assms(2) c(6) by simp_all
  then show ?thesis using dns_run_refines [OF c(1), of cs] c(2-5) assms(2) by simp
qed

theorem mapped_dns_refines_lru_witness:
  "\<exists>d d'. hev_mapped_dns_construct 0xC6120000 0xFFFF0000 2 = Some d
     \<and> dns_run [DnsFind [97], DnsFind [98], DnsFind [97], DnsFind [99], DnsLookup 0xC6120001, DnsLookup 0xC6120000] d
       = Some ([AnsIndex 0, AnsIndex 1, AnsIndex 0, AnsIndex 1, AnsName (Some [99]), AnsName (Some [97])], d')"
proof -
  have "sint (NOT (0xFFFF0000 :: u32)) = 65535" "sint (1 :: u32) = 1" "sint (0 :: u32) = 0"
    by simp_all
  moreover have "(0xC6120001 :: u32) AND NOT 0xFFFF0000 = 1" "(0xC6120000 :: u32) AND NOT 0xFFFF0000 = 0" by simp_all
  moreover obtain d where d: "hev_mapped_dns_construct 0xC6120000 0xFFFF0000 2 = Some d"
    by (simp add: hev_mapped_dns_construct_def)
  ultimately show ?thesis
    using mapped_dns_refines_lru [OF d, of "[DnsFind [97], DnsFind [98], DnsFind [97], DnsFind [99],
        DnsLookup 0xC6120001, DnsLookup 0xC6120000]"] by (auto simp: spec_find_def spec_lookup_def spec_touch_def)
qed

text \<open>
  An address given out for a name leads back to it, but so does every other address with the same
  host part: the look-up does not compare the network part, so that a connection to an unrelated
  address outside the mapped network is translated as well.
\<close>

theorem mapped_dns_lookup_any_network:
  assumes "dns_repr d as" "0 < d_max d" "hev_mapped_dns_find d name = Some (i, d')"
    and "sint (ip AND NOT (d_mask d)) = i"
  shows "\<exists>d''. hev_mapped_dns_lookup d' ip = Some (Some name, d'')"
  using find_then_lookup [OF assms] by blast

theorem mapped_dns_lookup_any_network_witness:
  "\<exists>d i d' d''. hev_mapped_dns_construct 0xC6120000 0xFFFF0000 100 = Some d \<and> hev_mapped_dns_find d [97] = Some (i, d')
     \<and> hev_mapped_dns_lookup d' 0x08080000 = Some (Some [97], d'')"
proof -
  obtain d where d: "hev_mapped_dns_construct 0xC6120000 0xFFFF0000 100 = Some d"
    by (simp add: hev_mapped_dns_construct_def)
  note c = construct_repr [OF d]
  obtain d' where f: "hev_mapped_dns_find d [97] = Some (0, d')"
    using find_refines [OF c(1), of "[97]"] c(2,3) by (auto simp: spec_find_def)
  have "sint (0x08080000 AND NOT (d_mask d)) = 0" using c(5) by simp
  with mapped_dns_lookup_any_network [OF c(1) _ f] c(3) d f show ?thesis by auto
qed

text \<open>
  When the map is destroyed, every node that is still in it is freed, and no node is freed twice
  in the whole life of the map.
\<close>

theorem mapped_dns_destruct_frees_once:
  assumes "dns_repr d as"
  shows "\<exists>d'. hev_mapped_dns_destruct d = Some d' \<and> d_freed d' = rev as @ d_freed d \<and> distinct (d_freed d')"
  using assms by (rule destruct_frees_all)

theorem mapped_dns_destruct_frees_once_witness:
  "\<exists>d d'. hev_mapped_dns_construct 0 0xFFFF0000 1 = Some d \<and> hev_mapped_dns_destruct d = Some d' \<and> d_freed d' = []"
proof -
  obtain d where d: "hev_mapped_dns_construct 0 0xFFFF0000 1 = Some d" by (simp add: hev_mapped_dns_construct_def)
  from mapped_dns_destruct_frees_once [OF construct_repr(1) [OF d]] d show ?thesis
    by (auto simp: hev_mapped_dns_construct_def)
qed

end
