(* ===== verification/Dns_Handle.thy ===== *)
theory Dns_Handle
  imports Mapped_Dns Socks5_Addr
begin

text \<open>
  The query handler \<^verbatim>\<open>hev_mapped_dns_handle\<close> of \<^verbatim>\<open>hev/src/hev-mapped-dns.c\<close>, which answers
  the A queries in a DNS message from the map, and the address translations of
  \<^verbatim>\<open>hev/src/misc/hev-utils.c\<close> between the tunnel's IP stack and SOCKS5, which use the map in the
  other direction.

  Request and response buffers are byte lists of the sizes given to the handler.  \<open>Fault\<close> is an
  access outside a buffer or array, or a fault of the map itself; \<open>ReturnErr\<close> is
  \<^verbatim>\<open>return -1\<close> with the map as it is by then.
\<close>

section \<open>The handler\<close>

datatype 'a c_out = Done 'a | ReturnErr dns | Fault

definition read_u16 :: "bytes \<Rightarrow> nat \<Rightarrow> u16 option" where
  "read_u16 p i = (if i + 1 < length p then Some (rd_be16 (p ! i) (p ! (i + 1))) else None)"

definition write_u16 :: "u16 \<Rightarrow> bytes" where
  "write_u16 v = [ucast (drop_bit 8 v), ucast v]"

definition write_u32 :: "u32 \<Rightarrow> bytes" where
  "write_u32 v = [ucast (drop_bit 24 v), ucast (drop_bit 16 v), ucast (drop_bit 8 v), ucast v]"

text \<open>Bytes written into a buffer at an offset.\<close>

definition put_at :: "bytes \<Rightarrow> nat \<Rightarrow> bytes \<Rightarrow> bytes option" where
  "put_at sb off bs =
     (if off + length bs \<le> length sb then Some (take off sb @ bs @ drop (off + length bs) sb) else None)"

text \<open>The C string that starts at an offset, if the buffer terminates it.\<close>

definition cstr_at :: "bytes \<Rightarrow> nat \<Rightarrow> bytes option" where
  "cstr_at qb i = (if 0 \<in> set (drop i qb) then Some (cstr (drop i qb)) else None)"

text \<open>The loop over the labels of a name, which turns their length bytes into dots.\<close>

function walk_name :: "dns \<Rightarrow> bytes \<Rightarrow> nat \<Rightarrow> (bytes \<times> nat) c_out" where
  "walk_name d qb off =
     (if off \<ge> length qb then Fault
      else if qb ! off = 0 then Done (qb, off)
      else let off' = off + 1 + unat (qb ! off) in
        if off' \<ge> length qb then ReturnErr d else walk_name d (qb[off := 46]) off')"
  by pat_completeness auto
termination
  by (relation "measure (\<lambda>(d, qb, off). length qb - off)") auto

declare walk_name.simps [simp del]

text \<open>
  One question: the map, the request buffer and the offset behind it, and the address and name
  offset of an answer, if there is one.  \<open>ipn\<close> answers are collected already.
\<close>

definition dns_question :: "dns \<Rightarrow> bytes \<Rightarrow> nat \<Rightarrow> nat \<Rightarrow> (dns \<times> bytes \<times> nat \<times> (u32 \<times> nat) option) c_out" where
  "dns_question d qb off ipn =
     (if ipn \<ge> 32 then Fault
      else if off \<ge> length qb then ReturnErr d
      else case walk_name d qb off of
          Fault \<Rightarrow> Fault
        | ReturnErr d' \<Rightarrow> ReturnErr d'
        | Done (qb1, off1) \<Rightarrow>
            let off2 = off1 + 1 in
            if off2 + 3 \<ge> length qb1 then ReturnErr d
            else case (read_u16 qb1 off2, read_u16 qb1 (off2 + 2)) of
                (Some qtype, Some qclass) \<Rightarrow>
                  if qtype = 1 \<and> qclass = 1
                  then (case cstr_at qb1 (off + 1) of
                          None \<Rightarrow> Fault
                        | Some name \<Rightarrow>
                            (case hev_mapped_dns_find d name of
                               None \<Rightarrow> Fault
                             | Some (idx, d') \<Rightarrow>
                                 Done (d', qb1, off2 + 4,
                                       if idx \<ge> 0 then Some (d_net d' OR word_of_int idx, off) else None)))
                  else Done (d, qb1, off2 + 4, None)
              | _ \<Rightarrow> Fault)"

fun dns_questions :: "nat \<Rightarrow> dns \<Rightarrow> bytes \<Rightarrow> nat \<Rightarrow> (u32 \<times> nat) list \<Rightarrow> (dns \<times> nat \<times> (u32 \<times> nat) list) c_out" where
  "dns_questions 0 d qb off acc = Done (d, off, acc)"
| "dns_questions (Suc n) d qb off acc =
     (case dns_question d qb off (length acc) of
        Fault \<Rightarrow> Fault
      | ReturnErr d' \<Rightarrow> ReturnErr d'
      | Done (d', qb', off', ans) \<Rightarrow>
          dns_questions n d' qb' off' (case ans of Some a \<Rightarrow> acc @ [a] | None \<Rightarrow> acc))"

definition answer :: "u32 \<Rightarrow> nat \<Rightarrow> bytes" where
  "answer ip ipo = write_u16 (0xc000 OR of_nat ipo) @ write_u16 1 @ write_u16 1 @ write_u32 1 @ write_u16 4 @ write_u32 ip"

fun write_answers :: "dns \<Rightarrow> bytes \<Rightarrow> nat \<Rightarrow> (u32 \<times> nat) list \<Rightarrow> (bytes \<times> nat) c_out" where
  "write_answers d sb off [] = Done (sb, off)"
| "write_answers d sb off ((ip, ipo) # as) =
     (if off + 15 \<ge> length sb then ReturnErr d
      else case put_at sb off (answer ip ipo) of
          None \<Rightarrow> Fault
        | Some sb' \<Rightarrow> write_answers d sb' (off + 16) as)"

text \<open>
  The header of the response: the flags get the response bit and recursion-available for
  recursion-desired, the record counts are those of the answer.
\<close>

definition reply_flags :: "u16 \<Rightarrow> u16" where
  "reply_flags fl = fl OR 0x8000 OR drop_bit 1 (fl AND 0x100)"

definition reply_header :: "bytes \<Rightarrow> nat \<Rightarrow> bytes" where
  "reply_header sb ipn =
     take 2 sb @ mem16 (htons (reply_flags (ntohs (rd_mem16 (sb ! 2) (sb ! 3))))) @ take 2 (drop 4 sb)
     @ mem16 (htons (of_nat ipn)) @ mem16 0 @ mem16 0 @ drop 12 sb"

definition hev_mapped_dns_handle :: "dns \<Rightarrow> bytes \<Rightarrow> bytes \<Rightarrow> (int \<times> bytes \<times> dns) c_out" where
  "hev_mapped_dns_handle d req res =
     (if length res < length req then ReturnErr d
      else if length req < 12 then ReturnErr d
      else let sb = req @ drop (length req) res;
               qd = ntohs (rd_mem16 (req ! 4) (req ! 5));
               qb = take 4 req @ mem16 qd @ drop 6 req in
        if unat qd > 32 then ReturnErr d
        else case dns_questions (unat qd) d qb 12 [] of
            Fault \<Rightarrow> Fault
          | ReturnErr d' \<Rightarrow> ReturnErr d'
          | Done (d', off, ans) \<Rightarrow>
              (case write_answers d' sb off ans of
                 Fault \<Rightarrow> Fault
               | ReturnErr d'' \<Rightarrow> ReturnErr d''
               | Done (sb', off') \<Rightarrow> Done (int off', reply_header sb' (length ans), d')))"

section \<open>Address translation\<close>

datatype ip_addr = IpV4 bytes | IpV6 bytes

text \<open>
  The address of a connection seen by the IP stack: a mapped IPv4 address becomes its name.
  \<open>None\<close> for a fault of the map or a name too long for an address.
\<close>

definition hev_socks5_addr_from_lwip :: "dns option \<Rightarrow> ip_addr \<Rightarrow> u16 \<Rightarrow> (bytes \<times> dns option) option" where
  "hev_socks5_addr_from_lwip dnso ip port =
     (case ip of
        IpV6 a \<Rightarrow> Some (fst (hev_socks5_addr_from_ipv6 a (htons port)), dnso)
      | IpV4 a \<Rightarrow>
          (case dnso of
             None \<Rightarrow> Some (fst (hev_socks5_addr_from_ipv4 a (htons port)), None)
           | Some d \<Rightarrow>
               (case hev_mapped_dns_lookup d (rd_be32 (a ! 0) (a ! 1) (a ! 2) (a ! 3)) of
                  None \<Rightarrow> None
                | Some (None, d') \<Rightarrow> Some (fst (hev_socks5_addr_from_ipv4 a (htons port)), Some d')
                | Some (Some name, d') \<Rightarrow>
                    map_option (\<lambda>(addr, _). (addr, Some d')) (hev_socks5_addr_from_name name (htons port)))))"

definition hev_socks5_addr_into_lwip :: "bytes \<Rightarrow> (ip_addr \<times> u16) option option" where
  "hev_socks5_addr_into_lwip addr =
     (case addr of [] \<Rightarrow> None
      | t # d \<Rightarrow>
          if t = HEV_SOCKS5_ADDR_TYPE_IPV4
          then map_option (\<lambda>p. Some (IpV4 (take 4 d), ntohs p)) (port_at addr 5)
          else if t = HEV_SOCKS5_ADDR_TYPE_IPV6
          then map_option (\<lambda>p. Some (IpV6 (take 16 d), ntohs p)) (port_at addr 17)
          else Some None)"

section \<open>The handler stays inside its buffers\<close>

definition dns_valid :: "dns \<Rightarrow> bool" where
  "dns_valid d \<longleftrightarrow> (\<exists>as. dns_repr d as) \<and> 0 < d_max d"

lemma find_valid:
  assumes "dns_valid d"
  obtains i d' where "hev_mapped_dns_find d name = Some (i, d')" "dns_valid d'"
proof -
  obtain as where "dns_repr d as" "0 < d_max d" using assms by (auto simp: dns_valid_def)
  then show ?thesis by (rule find_refines [of d as name]) (use that in \<open>auto simp: dns_valid_def \<open>0 < d_max d\<close>\<close>)
qed

lemma walk_name_spec:
  "off < length qb \<Longrightarrow>
     (case walk_name d qb off of Fault \<Rightarrow> False | ReturnErr d' \<Rightarrow> d' = d
      | Done (qb', off') \<Rightarrow> length qb' = length qb \<and> off \<le> off' \<and> off' < length qb \<and> qb' ! off' = 0)"
proof (induction d qb off rule: walk_name.induct)
  case (1 d qb off)
  show ?case
  proof (cases "qb ! off = 0 \<or> off + 1 + unat (qb ! off) \<ge> length qb")
    case True
    with "1.prems" show ?thesis by (subst walk_name.simps) auto
  next
    case False
    let ?o = "off + 1 + unat (qb ! off)"
    have "walk_name d qb off = walk_name d (qb[off := 46]) ?o"
      using False "1.prems" by (subst walk_name.simps) (simp add: Let_def)
    moreover have "case walk_name d (qb[off := 46]) ?o of Fault \<Rightarrow> False | ReturnErr d' \<Rightarrow> d' = d
      | Done (qb', off') \<Rightarrow> length qb' = length qb \<and> ?o \<le> off' \<and> off' < length qb \<and> qb' ! off' = 0"
      using "1.IH" [OF _ _ refl] False "1.prems" by (auto split: c_out.splits)
    ultimately show ?thesis by (auto split: c_out.splits)
  qed
qed

lemma question_spec:
  assumes "dns_valid d" "ipn < 32"
  shows "case dns_question d qb off ipn of Fault \<Rightarrow> False | ReturnErr d' \<Rightarrow> d' = d
     | Done (d', qb', off', ans) \<Rightarrow> dns_valid d' \<and> length qb' = length qb \<and> off \<le> off' \<and> off' \<le> length qb"
proof (cases "off < length qb")
  case False
  with assms show ?thesis by (simp add: dns_question_def)
next
  case True
  note w = walk_name_spec [OF True, of d]
  show ?thesis
  proof (cases "walk_name d qb off")
    case Fault
    with w show ?thesis by simp
  next
    case (ReturnErr d')
    with w True assms show ?thesis by (simp add: dns_question_def)
  next
    case (Done p)
    obtain qb1 off1 where p: "p = (qb1, off1)" by fastforce
    with w Done have q: "length qb1 = length qb" "off \<le> off1" "off1 < length qb" "qb1 ! off1 = 0" by simp_all
    obtain i d' where f: "hev_mapped_dns_find d (cstr (drop (off + 1) qb1)) = Some (i, d')" "dns_valid d'"
      using find_valid [OF assms(1)] by metis
    have z: "0 \<in> set (drop (off + 1) qb1)" if "read_u16 qb1 (off1 + 1) = Some 1" "off1 + 1 + 3 < length qb1"
    proof (cases "off = off1")
      case True
      have "rd_be16 (qb1 ! (off1 + 1)) (qb1 ! (off1 + 2)) = 1" using that by (auto simp: read_u16_def)
      then have "qb1 ! (off1 + 1) = 0" by (rule rd_be16_one)
      then show ?thesis using that(2) True in_set_conv_nth [of 0 "drop (off + 1) qb1"] by (force intro: exI [of _ 0])
    next
      case False
      then have "drop (off + 1) qb1 ! (off1 - (off + 1)) = 0" "off1 - (off + 1) < length (drop (off + 1) qb1)"
        using q by auto
      then show ?thesis by (metis nth_mem)
    qed
    show ?thesis
      using True assms Done p q f z
      by (auto simp: dns_question_def Let_def cstr_at_def read_u16_def split: if_splits)
  qed
qed

lemma questions_spec:
  assumes "dns_valid d" "length acc + n \<le> 32"
  shows "case dns_questions n d qb off acc of Fault \<Rightarrow> False | ReturnErr d' \<Rightarrow> dns_valid d'
     | Done (d', off', ans) \<Rightarrow> dns_valid d' \<and> off \<le> off' \<and> (off' \<le> length qb \<or> off' = off) \<and> length ans \<le> length acc + n"
  using assms
proof (induction n d qb off acc rule: dns_questions.induct)
  case (2 n d qb off acc)
  note q = question_spec [of d "length acc" qb off]
  show ?case
  proof (cases "dns_question d qb off (length acc)")
    case Fault
    with q "2.prems" show ?thesis by simp
  next
    case (ReturnErr d')
    with q "2.prems" show ?thesis by simp
  next
    case (Done x)
    obtain d' qb' off' ans where x: "x = (d', qb', off', ans)" by (metis prod_cases4)
    let ?acc = "case ans of Some a \<Rightarrow> acc @ [a] | None \<Rightarrow> acc"
    have s: "dns_valid d'" "length qb' = length qb" "off \<le> off'" "off' \<le> length qb" using q "2.prems" Done x by simp_all
    have l: "length ?acc \<le> Suc (length acc)" by (simp split: option.splits)
    then have "length ?acc + n \<le> 32" using "2.prems"(2) by simp
    from "2.IH" [OF Done x [symmetric] refl refl s(1) this] s l Done x show ?thesis
      by (auto split: c_out.splits)
  qed
qed simp

lemma length_answer [simp]: "length (answer ip ipo) = 16"
  by (simp add: answer_def write_u16_def write_u32_def)

lemma write_answers_spec:
  "case write_answers d sb off as of Fault \<Rightarrow> False | ReturnErr d' \<Rightarrow> d' = d
     | Done (sb', off') \<Rightarrow> length sb' = length sb \<and> off' = off + 16 * length as \<and> (off \<le> length sb \<longrightarrow> off' \<le> length sb)"
proof (induction d sb off as rule: write_answers.induct)
  case (2 d sb off ip ipo as)
  show ?case
  proof (cases "off + 15 \<ge> length sb")
    case False
    let ?sb = "take off sb @ answer ip ipo @ drop (off + 16) sb"
    have p: "put_at sb off (answer ip ipo) = Some ?sb" using False by (simp add: put_at_def)
    have "length ?sb = length sb" using False by simp
    with "2.IH" [OF False p] p False show ?thesis by (auto split: c_out.splits)
  qed simp
qed simp

text \<open>
  Whatever the request holds, the handler touches only its buffers, keeps the map valid, and
  returns a length that fits the response buffer.
\<close>

lemma handle_safe:
  assumes "dns_valid d"
  shows "case hev_mapped_dns_handle d req res of Fault \<Rightarrow> False | ReturnErr d' \<Rightarrow> dns_valid d'
     | Done (n, sb, d') \<Rightarrow> dns_valid d' \<and> length sb = length res \<and> 12 \<le> n \<and> n \<le> int (length res)"
proof (cases "length res < length req \<or> length req < 12")
  case True
  with assms show ?thesis by (auto simp: hev_mapped_dns_handle_def)
next
  case False
  let ?qd = "ntohs (rd_mem16 (req ! 4) (req ! 5))"
  let ?rb = "take 4 req @ mem16 ?qd @ drop 6 req" and ?sb = "req @ drop (length req) res"
  have l: "length ?rb = length req" "length ?sb = length res" using False by auto
  show ?thesis
  proof (cases "unat ?qd > 32")
    case True
    with False assms show ?thesis by (simp add: hev_mapped_dns_handle_def Let_def)
  next
    case qd: False
    have q: "case dns_questions (unat ?qd) d ?rb 12 [] of Fault \<Rightarrow> False | ReturnErr d' \<Rightarrow> dns_valid d'
      | Done (d', off', ans) \<Rightarrow> dns_valid d' \<and> 12 \<le> off' \<and> off' \<le> length req \<and> length ans \<le> 32"
      using questions_spec [OF assms, where acc = "[]" and n = "unat ?qd" and qb = ?rb and off = 12] qd False unfolding l
      by (auto split: c_out.splits)
    show ?thesis
    proof (cases "dns_questions (unat ?qd) d ?rb 12 []")
      case (Done x)
      obtain d' off ans where x: "x = (d', off, ans)" by (metis prod_cases3)
      note w = write_answers_spec [where d = d' and sb = ?sb and off = off and as = ans]
      have h: "length (reply_header sb' k) = length sb'" if "length sb' = length res" for sb' k
        using that False by (auto simp: reply_header_def)
      show ?thesis
        using q w False qd Done x l h
        by (auto simp: hev_mapped_dns_handle_def Let_def split: c_out.splits)
    qed (use q False qd in \<open>simp_all add: hev_mapped_dns_handle_def Let_def\<close>)
  qed
qed

section \<open>The answer to an A query\<close>

definition enc_labels :: "bytes list \<Rightarrow> bytes" where
  "enc_labels ls = concat (map (\<lambda>l. of_nat (length l) # l) ls)"

definition dotted :: "bytes list \<Rightarrow> bytes" where
  "dotted ls = concat (map (\<lambda>l. 46 # l) ls)"

definition labels_ok :: "bytes list \<Rightarrow> bool" where
  "labels_ok ls \<longleftrightarrow> ls \<noteq> [] \<and> (\<forall>l\<in>set ls. l \<noteq> [] \<and> length l < 256 \<and> 0 \<notin> set l)"

lemma length_dotted: "length (dotted ls) = length (enc_labels ls)"
  by (induction ls) (simp_all add: dotted_def enc_labels_def)

lemma walk_name_labels:
  assumes "\<forall>l\<in>set ls. l \<noteq> [] \<and> length l < 256"
  shows "walk_name d (pre @ enc_labels ls @ 0 # rest) (length pre)
     = Done (pre @ dotted ls @ 0 # rest, length pre + length (enc_labels ls))"
  using assms
proof (induction ls arbitrary: pre)
  case Nil
  show ?case by (subst walk_name.simps) (simp add: enc_labels_def dotted_def)
next
  case (Cons l ls)
  let ?qb = "pre @ enc_labels (l # ls) @ 0 # rest" and ?pre = "pre @ 46 # l"
  have u: "unat (of_nat (length l) :: u8) = length l" using Cons.prems by (simp add: unat_of_nat_u8)
  then have nz: "of_nat (length l) \<noteq> (0 :: u8)" using Cons.prems by (metis length_0_conv list.set_intros(1) unat_0)
  have "?qb ! length pre = of_nat (length l)" by (simp add: enc_labels_def nth_append)
  moreover have "?qb[length pre := 46] = ?pre @ enc_labels ls @ 0 # rest"
    by (simp add: enc_labels_def list_update_append)
  ultimately have "walk_name d ?qb (length pre) = walk_name d (?pre @ enc_labels ls @ 0 # rest) (length ?pre)"
    using nz u by (subst walk_name.simps) (simp add: Let_def enc_labels_def)
  also have "\<dots> = Done (?pre @ dotted ls @ 0 # rest, length ?pre + length (enc_labels ls))"
    using Cons by (intro Cons.IH) simp
  finally show ?case by (simp add: enc_labels_def dotted_def)
qed

definition host_name :: "bytes list \<Rightarrow> bytes" where
  "host_name ls = tl (dotted ls)"

lemma host_name_no_nul: "labels_ok ls \<Longrightarrow> 0 \<notin> set (host_name ls)"
  by (cases ls) (auto simp: labels_ok_def host_name_def dotted_def)

lemma question_a:
  assumes "labels_ok ls" "dns_repr d as" "0 < d_max d" "ipn < 32"
    and "hev_mapped_dns_find d (host_name ls) = Some (i, d')" "0 \<le> i"
  shows "\<exists>qb'. dns_question d (pre @ enc_labels ls @ [0, 0, 1, 0, 1] @ rest) (length pre) ipn
     = Done (d', qb', length pre + length (enc_labels ls) + 5, Some (d_net d' OR word_of_int i, length pre))"
proof -
  let ?qb = "pre @ enc_labels ls @ [0, 0, 1, 0, 1] @ rest" and ?q1 = "pre @ dotted ls @ [0, 0, 1, 0, 1] @ rest"
  let ?o = "length pre + length (enc_labels ls)"
  have w: "walk_name d ?qb (length pre) = Done (?q1, ?o)"
    using walk_name_labels [of ls d pre "[0, 1, 0, 1] @ rest"] assms(1) by (simp add: labels_ok_def)
  have q1: "?q1 = (pre @ dotted ls) @ [0, 0, 1, 0, 1] @ rest" by simp
  have r: "read_u16 ?q1 (Suc ?o) = Some 1" "read_u16 ?q1 (Suc (Suc (Suc ?o))) = Some 1"
    unfolding q1 read_u16_def by (simp_all add: nth_append length_dotted rd_be16_def)
  have "dotted ls = 46 # host_name ls" using assms(1) by (cases ls) (auto simp: labels_ok_def host_name_def dotted_def)
  then have c: "cstr_at ?q1 (Suc (length pre)) = Some (host_name ls)"
    using host_name_no_nul [OF assms(1)] by (auto simp: cstr_at_def cstr_def takeWhile_append)
  show ?thesis
    using w r c assms(4-6) by (simp add: dns_question_def Let_def length_dotted)
qed

lemma handle_a:
  assumes "labels_ok ls" "dns_repr d as" "0 < d_max d"
    and req: "req = [i0, i1, f0, f1, 0, 1] @ cnt @ enc_labels ls @ [0, 0, 1, 0, 1] @ extra" "length cnt = 6"
    and room: "length req \<le> length res" "33 + length (enc_labels ls) \<le> length res"
    and f: "hev_mapped_dns_find d (host_name ls) = Some (i, d')" "0 \<le> i"
  shows "\<exists>sb. hev_mapped_dns_handle d req res = Done (int (33 + length (enc_labels ls)), sb, d')
     \<and> take (33 + length (enc_labels ls)) sb =
         [i0, i1] @ be16 (reply_flags (rd_be16 f0 f1)) @ [0, 1, 0, 1, 0, 0, 0, 0]
         @ enc_labels ls @ [0, 0, 1, 0, 1] @ answer (d_net d' OR word_of_int i) 12"
proof -
  let ?L = "length (enc_labels ls)" and ?ip = "d_net d' OR word_of_int i"
  let ?pre = "[i0, i1, f0, f1, 1, 0] @ cnt" and ?q = "enc_labels ls @ [0, 0, 1, 0, 1]"
  have one: "htons (rd_mem16 0 1) = 1" "mem16 1 = [1, 0]" and zero: "mem16 0 = [0, 0]"
    by (simp_all add: htons_rd_mem16 rd_be16_def mem16_def)
  have "\<exists>qb'. dns_question d (?pre @ ?q @ extra) 12 0 = Done (d', qb', 17 + ?L, Some (?ip, 12))"
    using question_a [OF assms(1-3) _ f, of 0 ?pre extra] req(2) by (simp add: ac_simps)
  then have qs: "dns_questions 1 d (?pre @ ?q @ extra) 12 [] = Done (d', 17 + ?L, [(?ip, 12)])"
    by (auto simp: One_nat_def)
  let ?sb = "req @ drop (length req) res"
  let ?sb1 = "[i0, i1, f0, f1, 0, 1] @ cnt @ ?q @ answer ?ip 12 @ drop (33 + ?L) ?sb"
  have "?sb = ([i0, i1, f0, f1, 0, 1] @ cnt @ ?q) @ extra @ drop (length req) res"
    "length ([i0, i1, f0, f1, 0, 1] @ cnt @ ?q) = 17 + ?L" using req by simp_all
  then have "take (17 + ?L) ?sb = [i0, i1, f0, f1, 0, 1] @ cnt @ ?q" by (metis append_eq_conv_conj)
  then have wa: "write_answers d' ?sb (17 + ?L) [(?ip, 12)] = Done (?sb1, 33 + ?L)"
    using room by (simp add: put_at_def)
  have "hev_mapped_dns_handle d req res = Done (int (33 + ?L), reply_header ?sb1 1, d')"
  proof -
    have "htons (rd_mem16 (req ! 4) (req ! 5)) = 1" "take 4 req @ mem16 1 @ drop 6 req = ?pre @ ?q @ extra"
      "\<not> length req < 12" using req one by simp_all
    with qs wa room(1) show ?thesis by (simp add: hev_mapped_dns_handle_def Let_def)
  qed
  moreover have "take (33 + ?L) (reply_header ?sb1 1) = [i0, i1] @ be16 (reply_flags (rd_be16 f0 f1))
      @ [0, 1, 0, 1, 0, 0, 0, 0] @ ?q @ answer ?ip 12" (is "_ = ?X")
  proof -
    have "reply_header ?sb1 1 = ?X @ drop (33 + ?L) ?sb"
      using req(2) zero by (simp add: reply_header_def mem16_htons htons_rd_mem16 be16_def)
    moreover have "length ?X = 33 + ?L" by simp
    ultimately show ?thesis by (metis append_eq_conv_conj)
  qed
  ultimately show ?thesis by (intro exI [of _ "reply_header ?sb1 1"]) simp
qed

section \<open>Addresses of the mapped network\<close>

lemma net_index:
  fixes net :: u32
  assumes "k < 32" "net AND mask k = 0" "0 \<le> i" "i < 2 ^ k"
  shows "sint ((net OR word_of_int i) AND NOT (NOT (mask k))) = i"
proof -
  have i: "i < 2 ^ 31" using assms(1,4) power_increasing [of k 31 "2 :: int"] by simp
  have m: "word_of_int i AND mask k = (word_of_int i :: u32)"
  proof -
    have "uint (word_of_int i :: u32) = i" using assms(3) i by (simp add: uint_word_of_int)
    then have "take_bit k (word_of_int i :: u32) = word_of_int i"
      using assms(3,4) by (simp add: word_uint_eq_iff unsigned_take_bit_eq take_bit_int_eq_self)
    then show ?thesis by (simp add: take_bit_eq_mask)
  qed
  have "(net OR word_of_int i) AND NOT (NOT (mask k)) = word_of_int i"
    using assms(2) m by (simp add: bit.conj_disj_distrib2)
  moreover have "sint (word_of_int i :: u32) = i"
    using assms(3) i by (simp add: sint_uint uint_word_of_int signed_take_bit_int_eq_self)
  ultimately show ?thesis by simp
qed

section \<open>Properties of the handler\<close>

text \<open>A series of requests, each with its response buffer, and the responses to them.\<close>

fun dns_serve :: "(bytes \<times> bytes) list \<Rightarrow> dns \<Rightarrow> (bytes option list \<times> dns) option" where
  "dns_serve [] d = Some ([], d)"
| "dns_serve ((req, res) # rs) d =
     (case hev_mapped_dns_handle d req res of
        Fault \<Rightarrow> None
      | ReturnErr d' \<Rightarrow> map_option (\<lambda>(os, d''). (None # os, d'')) (dns_serve rs d')
      | Done (n, sb, d') \<Rightarrow> map_option (\<lambda>(os, d''). (Some (take (nat n) sb) # os, d'')) (dns_serve rs d'))"

definition response_fits :: "bytes \<times> bytes \<Rightarrow> bytes option \<Rightarrow> bool" where
  "response_fits rq out = (case out of None \<Rightarrow> True | Some r \<Rightarrow> 12 \<le> length r \<and> length r \<le> length (snd rq))"

lemma serve_valid:
  "dns_valid d \<Longrightarrow> \<exists>os d'. dns_serve rs d = Some (os, d') \<and> dns_valid d' \<and> list_all2 response_fits rs os"
proof (induction rs arbitrary: d)
  case (Cons rq rs)
  obtain req res where rq: "rq = (req, res)" by fastforce
  note h = handle_safe [OF Cons.prems, where req = req and res = res]
  show ?case
  proof (cases "hev_mapped_dns_handle d req res")
    case (Done x)
    then obtain n sb d1 where x: "x = (n, sb, d1)" by (metis prod_cases3)
    with h Done have s: "dns_valid d1" "length sb = length res" "12 \<le> n" "n \<le> int (length res)" by simp_all
    from Cons.IH [OF s(1)] Done x s(2-4) rq show ?thesis by (auto simp: response_fits_def)
  next
    case (ReturnErr d1)
    with h have "dns_valid d1" by simp
    from Cons.IH [OF this] ReturnErr rq show ?thesis by (auto simp: response_fits_def)
  qed (use h in simp)
qed simp

text \<open>
  C6: Whatever bytes arrive on the DNS port, the query handler reads and writes only inside the
  request and the response buffer, follows no invalid pointer of the map and leaves the map
  valid, over any series of requests from a new map on; every response is at least a header long
  and fits its buffer.
\<close>

theorem dns_handler_memory_safe:
  assumes "hev_mapped_dns_construct net msk cap = Some d" "0 < cap"
  shows "\<exists>os d'. dns_serve rs d = Some (os, d') \<and> dns_valid d' \<and> list_all2 response_fits rs os"
proof -
  have "dns_valid d" using construct_repr(1,3) [OF assms(1)] assms(2) by (auto simp: dns_valid_def)
  then show ?thesis by (rule serve_valid)
qed

theorem dns_handler_memory_safe_witness:
  "\<exists>d os d'. hev_mapped_dns_construct 0xC6120000 0xFFFF0000 4 = Some d
     \<and> dns_serve [([0, 1, 1, 0, 0, 9, 0, 0, 0, 0, 0, 0, 255, 1], replicate 20 0)] d = Some (os, d') \<and> length os = 1"
proof -
  obtain d where d: "hev_mapped_dns_construct 0xC6120000 0xFFFF0000 4 = Some d"
    by (simp add: hev_mapped_dns_construct_def)
  show ?thesis
    using dns_handler_memory_safe [OF d, of "[([0, 1, 1, 0, 0, 9, 0, 0, 0, 0, 0, 0, 255, 1], replicate 20 0)]"] d
    by (auto simp: list_all2_Cons1)
qed

lemma and_flag_8: "(fl :: u16) AND 0x100 = (if bit fl 8 then 0x100 else 0)"
proof -
  have e: "(0x100 :: u16) = 2 ^ 8" by simp
  show ?thesis unfolding e by (rule bit_word_eqI) (auto simp only: bit_and_iff bit_exp_iff split: if_splits, simp_all)
qed

lemma reply_flags_eq: "reply_flags fl = fl OR 0x8000 OR (if bit fl 8 then 0x80 else 0)"
  by (simp add: reply_flags_def and_flag_8 drop_bit_eq_div)

lemma answer_eq: "answer ip 12 = [0xc0, 12, 0, 1, 0, 1, 0, 0, 0, 1, 0, 4] @ be32 ip"
  by (simp add: answer_def write_u16_def write_u32_def be32_def)

text \<open>
  C7: A query with one question of type A and class IN is answered with one record: the response
  repeats the identifier and the question, carries the response flag and
  recursion-available for recursion-desired, and gives the address of the
  mapped network under the index of the name, which is the dotted form of the labels.
\<close>

theorem dns_answers_a_query:
  assumes "labels_ok ls" "dns_repr d as" "0 < d_max d"
    and req: "req = [i0, i1, f0, f1, 0, 1] @ cnt @ enc_labels ls @ [0, 0, 1, 0, 1] @ extra" "length cnt = 6"
    and room: "length req \<le> length res" "33 + length (enc_labels ls) \<le> length res"
  shows "\<exists>i d' sb. hev_mapped_dns_find d (host_name ls) = Some (i, d') \<and> 0 \<le> i \<and> i < d_max d
     \<and> hev_mapped_dns_handle d req res = Done (int (33 + length (enc_labels ls)), sb, d')
     \<and> take (33 + length (enc_labels ls)) sb =
         [i0, i1] @ be16 (rd_be16 f0 f1 OR 0x8000 OR (if bit (rd_be16 f0 f1) 8 then 0x80 else 0)) @ [0, 1, 0, 1, 0, 0, 0, 0]
         @ enc_labels ls @ [0, 0, 1, 0, 1]
         @ [0xc0, 12, 0, 1, 0, 1, 0, 0, 0, 1, 0, 4] @ be32 (d_net d OR word_of_int i)"
proof -
  obtain i d' where f: "hev_mapped_dns_find d (host_name ls) = Some (i, d')"
    using find_valid [of d "host_name ls"] assms(2,3) unfolding dns_valid_def by blast
  then obtain as' a where g: "0 \<le> i" "i < d_max d'" "d_net d' = d_net d" "d_max d' = d_max d"
    using find_last [OF assms(2,3) f] by metis
  show ?thesis using handle_a [OF assms(1-3) req room f g(1), unfolded reply_flags_eq answer_eq] f g by auto
qed

theorem dns_answers_a_query_witness:
  "\<exists>d d' sb. hev_mapped_dns_construct 0xC6120000 0xFFFF0000 4 = Some d
     \<and> hev_mapped_dns_handle d ([7, 8, 1, 0, 0, 1, 0, 0, 0, 0, 0, 0] @ [1, 97, 2, 105, 111] @ [0, 0, 1, 0, 1]) (replicate 64 0)
       = Done (38, sb, d')
     \<and> take 38 sb = [7, 8, 0x81, 0x80, 0, 1, 0, 1, 0, 0, 0, 0, 1, 97, 2, 105, 111, 0, 0, 1, 0, 1]
         @ [0xc0, 12, 0, 1, 0, 1, 0, 0, 0, 1, 0, 4, 198, 18, 0, 0]"
proof -
  obtain d where d: "hev_mapped_dns_construct 0xC6120000 0xFFFF0000 4 = Some d"
    by (simp add: hev_mapped_dns_construct_def)
  note c = construct_repr [OF d]
  let ?ls = "[[97], [105, 111]] :: bytes list"
  have e: "enc_labels ?ls = [1, 97, 2, 105, 111]" "labels_ok ?ls" "host_name ?ls = [97, 46, 105, 111]"
    by (simp_all add: enc_labels_def labels_ok_def host_name_def dotted_def)
  have i: "i = 0" if "hev_mapped_dns_find d [97, 46, 105, 111] = Some (i, d')" for i d'
    using find_refines [OF c(1), of "[97, 46, 105, 111]"] c(2,3) that by (auto simp: spec_find_def)
  show ?thesis
    using dns_answers_a_query [OF e(2) c(1), of _ 7 8 1 0 "[0, 0, 0, 0, 0, 0]" "[]" "replicate 64 0"] c(3,4) d i
    by (fastforce simp: e be32_def rd_be16_def be16_def)
qed

end
