(* ===== verification/Session_Udp.thy ===== *)
theory Session_Udp
  imports Socks5_Udp Dns_Handle
begin

text \<open>
  A UDP session of the tunnel: \<^verbatim>\<open>hev/src/hev-socks5-session-udp.c\<close>.  Datagrams of the IP stack
  wait in a queue of frames, a linked list whose nodes carry the destination and the packet
  buffer; datagrams of the proxy go to the stack as they are received.

  A packet buffer is the chain of its pieces.  The pointer of a new frame, or \<open>None\<close> for a
  failed allocation, is an argument of the callback.  An operation gives \<open>None\<close> where the code
  would follow an invalid pointer or read a message that was never filled in.
\<close>

section \<open>State\<close>

definition UDP_POOL_SIZE :: int where "UDP_POOL_SIZE = 512"

record udp_frame =
  fr_addr :: bytes
  fr_data :: "bytes list"

record udp_session =
  us_udp :: udp
  us_list :: "nat llist"
  us_store :: "nat \<Rightarrow> udp_frame option"
  us_frames :: int
  us_addr :: bytes
  us_port :: u16
  us_pcb :: bool
  us_fd :: int
  us_freed :: "bytes list list"
  us_wakeups :: nat
  us_updates :: nat
  us_given :: "(bytes \<times> ip_addr \<times> u16) list"

definition hev_socks5_session_udp_construct :: "bool \<Rightarrow> conn \<Rightarrow> dsock \<Rightarrow> udp_session" where
  "hev_socks5_session_udp_construct udp_in_udp c d =
     (let type = (if udp_in_udp then TYPE_UDP_IN_UDP else TYPE_UDP_IN_TCP) in
      \<lparr>us_udp = hev_socks5.extend (hev_socks5_construct type) \<lparr>sk_conn = c, sk_open = [], ua = d, ub = d\<rparr>,
       us_list = hev_list_empty (\<lambda>_. \<lparr>nxt = None, prv = None\<rparr>), us_store = Map.empty, us_frames = 0,
       us_addr = [0, 0, 0, 0], us_port = 0, us_pcb = True, us_fd = -1, us_freed = [], us_wakeups = 0,
       us_updates = 0, us_given = []\<rparr>)"

text \<open>The payload of a frame: \<^verbatim>\<open>buf->payload\<close>, \<^verbatim>\<open>buf->len\<close>, the first piece of the chain.\<close>

definition frame_payload :: "udp_frame \<Rightarrow> bytes" where
  "frame_payload f = (case fr_data f of [] \<Rightarrow> [] | b # _ \<Rightarrow> b)"

section \<open>The callback of the stack\<close>

definition us_terminate :: "udp_session \<Rightarrow> udp_session" where
  "us_terminate s = s\<lparr>us_udp := hev_socks5_set_timeout 0 (us_udp s), us_wakeups := Suc (us_wakeups s)\<rparr>"

definition udp_recv_handler ::
    "nat option \<Rightarrow> bytes list option \<Rightarrow> ip_addr \<Rightarrow> u16 \<Rightarrow> dns option \<Rightarrow> udp_session \<Rightarrow> (dns option \<times> udp_session) option" where
  "udp_recv_handler alloc pb ip port dns s =
     (case pb of
        None \<Rightarrow> Some (dns, us_terminate s)
      | Some p \<Rightarrow>
          if us_frames s > UDP_POOL_SIZE then Some (dns, s\<lparr>us_freed := us_freed s @ [p]\<rparr>)
          else case alloc of
              None \<Rightarrow> Some (dns, s\<lparr>us_freed := us_freed s @ [p]\<rparr>)
            | Some n \<Rightarrow>
                (case hev_socks5_addr_from_lwip dns ip port of
                   None \<Rightarrow> None
                 | Some (addr, dns') \<Rightarrow>
                     let s1 = (case ip of
                                 IpV4 a \<Rightarrow> if hd addr = HEV_SOCKS5_ADDR_TYPE_NAME then s\<lparr>us_addr := a, us_port := port\<rparr> else s
                               | IpV6 _ \<Rightarrow> s) in
                     Some (dns', s1\<lparr>us_store := (us_store s1)(n \<mapsto> \<lparr>fr_addr = addr, fr_data = p\<rparr>),
                            us_frames := us_frames s1 + 1, us_list := hev_list_add_tail (us_list s1) n,
                            us_wakeups := Suc (us_wakeups s1)\<rparr>)))"

record us_event =
  ev_alloc :: "nat option"
  ev_pbuf :: "bytes list option"
  ev_ip :: ip_addr
  ev_port :: u16

fun us_events :: "us_event list \<Rightarrow> dns option \<Rightarrow> udp_session \<Rightarrow> (dns option \<times> udp_session) option" where
  "us_events [] dns s = Some (dns, s)"
| "us_events (e # es) dns s =
     (case udp_recv_handler (ev_alloc e) (ev_pbuf e) (ev_ip e) (ev_port e) dns s of
        None \<Rightarrow> None
      | Some (dns', s') \<Rightarrow> us_events es dns' s')"

section \<open>Towards the proxy\<close>

fun collect_frames :: "nat \<Rightarrow> udp_session \<Rightarrow> nat option \<Rightarrow> out_msg list option" where
  "collect_frames 0 s node = Some []"
| "collect_frames (Suc k) s None = None"
| "collect_frames (Suc k) s (Some p) =
     (case us_store s p of
        None \<Rightarrow> None
      | Some f \<Rightarrow> map_option ((#) (fr_addr f, frame_payload f))
                    (collect_frames k s (hev_list_node_next (us_list s) p)))"

fun drop_frames :: "nat \<Rightarrow> udp_session \<Rightarrow> udp_session option" where
  "drop_frames 0 s = Some s"
| "drop_frames (Suc k) s =
     (case hev_list_first (us_list s) of
        None \<Rightarrow> None
      | Some p \<Rightarrow>
          (case us_store s p of
             None \<Rightarrow> None
           | Some f \<Rightarrow> drop_frames k (s\<lparr>us_list := hev_list_del (us_list s) p,
                         us_store := (us_store s)(p := None), us_freed := us_freed s @ [fr_data f],
                         us_frames := us_frames s - 1\<rparr>)))"

text \<open>
  Sending may suspend the task; \<open>evs\<close> are the callbacks that run meanwhile.  They find the
  batch still queued.
\<close>

definition hev_socks5_session_udp_fwd_f ::
    "nat \<Rightarrow> us_event list \<Rightarrow> dns option \<Rightarrow> udp_session \<Rightarrow> (int \<times> dns option \<times> udp_session) option" where
  "hev_socks5_session_udp_fwd_f num evs dns s =
     (if us_frames s \<le> 0 then Some (0, dns, s)
      else let res = min (us_frames s) (int num) in
        case collect_frames (nat res) s (hev_list_first (us_list s)) of
          None \<Rightarrow> None
        | Some ms \<Rightarrow>
            (case hev_socks5_udp_sendmmsg ms (us_udp s) of (res, u) \<Rightarrow>
               (case us_events evs dns (s\<lparr>us_udp := u\<rparr>) of
                  None \<Rightarrow> None
                | Some (dns', s1) \<Rightarrow>
                    if res \<le> 0 then Some (-1, dns', s1)
                    else map_option (\<lambda>s2. (1, dns', s2)) (drop_frames (nat res) s1))))"

section \<open>Towards the stack\<close>

text \<open>
  The loop over the received messages; the list answers, for each message that gets that far,
  whether \<^verbatim>\<open>pbuf_alloc_reference\<close> and \<^verbatim>\<open>udp_sendfrom\<close> succeed.
\<close>

fun give_msgs :: "udp_session \<Rightarrow> in_msg list \<Rightarrow> (bool \<times> bool) list \<Rightarrow> (int \<times> udp_session) option" where
  "give_msgs s [] oks = Some (1, s)"
| "give_msgs s (m # ms) oks =
     (if im_addr m = None \<or> im_data m = [] then give_msgs s ms oks
      else let saved = us_addr s \<noteq> [0, 0, 0, 0] \<and> us_port s \<noteq> 0;
               target = (if saved then Some (Some (IpV4 (us_addr s), us_port s))
                         else hev_socks5_addr_into_lwip (the (im_addr m)));
               ok = (case oks of [] \<Rightarrow> (True, True) | b # _ \<Rightarrow> b) in
        case target of
          None \<Rightarrow> None
        | Some None \<Rightarrow> Some (-1, s)
        | Some (Some (ip, port)) \<Rightarrow>
            if \<not> fst ok \<or> \<not> snd ok then Some (-1, s)
            else give_msgs (s\<lparr>us_given := us_given s @ [(im_data m, ip, port)]\<rparr>) ms (tl oks))"

definition hev_socks5_session_udp_fwd_b ::
    "net \<Rightarrow> bytes list \<Rightarrow> (bool \<times> bool) list \<Rightarrow> udp_session \<Rightarrow> (int \<times> udp_session) option" where
  "hev_socks5_session_udp_fwd_b N mems oks s =
     (case hev_socks5_udp_recvmmsg (nconnect N (sk_fd (us_udp s))) mems True (us_udp s) of
        (res, ms, u) \<Rightarrow>
          let s1 = s\<lparr>us_udp := u\<rparr> in
          if res \<le> 0 then Some (if res = -1 \<and> errno_is_again u then 0 else -1, s1)
          else if nat res > length ms then None
          else give_msgs s1 (take (nat res) ms) oks)"

section \<open>The splice loop\<close>

record us_env =
  ue_sending :: "us_event list"
  ue_mems :: "bytes list"
  ue_oks :: "(bool \<times> bool) list"
  ue_events :: "us_event list"
  ue_timer :: int

text \<open>
  \<^verbatim>\<open>task_io_yielder\<close>: the probe of the control connection, the wait during which callbacks run,
  and the update of the session's place in the tunnel's set.
\<close>

definition us_yielder :: "yield_type \<Rightarrow> us_env \<Rightarrow> dns option \<Rightarrow> udp_session \<Rightarrow> (int \<times> dns option \<times> udp_session) option" where
  "us_yielder type e dns s =
     (case (if sk_type (us_udp s) = TYPE_UDP_IN_UDP then probe_closed (us_udp s) else (False, us_udp s)) of
        (closed, u) \<Rightarrow>
          if closed then Some (-1, dns, s\<lparr>us_udp := hev_socks5_set_timeout 0 u\<rparr>)
          else map_option (\<lambda>(dns', s'). (hev_socks5_task_io_yielder (sk_timeout u) type (ue_timer e), dns',
                                         s'\<lparr>us_updates := Suc (us_updates s')\<rparr>))
                 (us_events (ue_events e) dns (s\<lparr>us_udp := u\<rparr>)))"

datatype us_out = UsDone "dns option" udp_session | UsWaits "dns option" udp_session | UsFault

fun us_splice_loop ::
    "net \<Rightarrow> nat \<Rightarrow> us_env list \<Rightarrow> int \<Rightarrow> int \<Rightarrow> dns option \<Rightarrow> udp_session \<Rightarrow> us_out" where
  "us_splice_loop N num [] res_f res_b dns s = UsWaits dns s"
| "us_splice_loop N num (e # es) res_f res_b dns s =
     (case (if res_f \<ge> 0 then hev_socks5_session_udp_fwd_f num (ue_sending e) dns s else Some (res_f, dns, s)) of
        None \<Rightarrow> UsFault
      | Some (f, dns1, s1) \<Rightarrow>
          (case (if res_b \<ge> 0 then hev_socks5_session_udp_fwd_b N (ue_mems e) (ue_oks e) s1 else Some (res_b, s1)) of
             None \<Rightarrow> UsFault
           | Some (b, s2) \<Rightarrow>
               if \<not> (f > 0 \<or> b > 0) \<and> f AND b \<noteq> 0 then UsDone dns1 s2
               else (case us_yielder (if f > 0 \<or> b > 0 then HEV_TASK_YIELD else HEV_TASK_WAITIO) e dns1 s2 of
                       None \<Rightarrow> UsFault
                     | Some (y, dns', s3) \<Rightarrow>
                         if y \<noteq> 0 then UsDone dns' s3 else us_splice_loop N num es f b dns' s3)))"

definition hev_socks5_session_udp_splice :: "net \<Rightarrow> nat \<Rightarrow> us_env list \<Rightarrow> dns option \<Rightarrow> udp_session \<Rightarrow> us_out" where
  "hev_socks5_session_udp_splice N num es dns s = us_splice_loop N num es 1 1 dns s"

section \<open>The upstream address and the end of a session\<close>

definition hev_socks5_addr_get_port :: "bytes \<Rightarrow> u16 option" where
  "hev_socks5_addr_get_port addr =
     (case addr of [] \<Rightarrow> None
      | t # d \<Rightarrow>
          if t = HEV_SOCKS5_ADDR_TYPE_IPV4 then port_at addr 5
          else if t = HEV_SOCKS5_ADDR_TYPE_IPV6 then port_at addr 17
          else if t = HEV_SOCKS5_ADDR_TYPE_NAME
          then (case d of [] \<Rightarrow> None | n # _ \<Rightarrow> port_at addr (2 + unat n))
          else Some 0)"

text \<open>The address that \<^verbatim>\<open>set_upstream_addr\<close> passes on to the class it overrides.\<close>

definition session_upstream_addr :: "bool \<Rightarrow> bytes \<Rightarrow> bytes \<Rightarrow> bytes option" where
  "session_upstream_addr udp_in_udp udp_addr addr =
     (if udp_in_udp \<and> udp_addr \<noteq> []
      then (case hev_socks5_addr_get_port addr of
              None \<Rightarrow> None
            | Some port \<Rightarrow> map_option fst (hev_socks5_addr_from_name udp_addr port))
      else Some addr)"

text \<open>
  \<^verbatim>\<open>destruct\<close> reads each node's successor before it frees the node; the walk stands for the
  loop.
\<close>

definition hev_socks5_session_udp_destruct :: "nat \<Rightarrow> udp_session \<Rightarrow> udp_session option" where
  "hev_socks5_session_udp_destruct fuel s =
     (case hev_list_walk fuel (us_list s) (hev_list_first (us_list s)) of
        None \<Rightarrow> None
      | Some ps \<Rightarrow>
          (case those (map (us_store s) ps) of
             None \<Rightarrow> None
           | Some fs \<Rightarrow>
               Some (s\<lparr>us_store := fold (\<lambda>p m. m(p := None)) ps (us_store s),
                       us_freed := us_freed s @ map fr_data fs,
                       us_pcb := False,
                       us_udp := hev_socks5_destruct (if us_fd s \<ge> 0 then fd_close (us_fd s) (us_udp s)
                                                      else us_udp s)\<rparr>)))"

section \<open>The queue of frames\<close>

text \<open>The session holds the frames \<open>qs\<close>, in the order of arrival.\<close>

definition us_linked :: "udp_session \<Rightarrow> nat list \<Rightarrow> udp_frame list \<Rightarrow> bool" where
  "us_linked s ps qs \<longleftrightarrow> dll (us_list s) ps \<and> map (us_store s) ps = map Some qs"

definition us_holds :: "udp_session \<Rightarrow> udp_frame list \<Rightarrow> bool" where
  "us_holds s qs \<longleftrightarrow> (\<exists>ps. us_linked s ps qs) \<and> us_frames s = int (length qs)
     \<and> us_frames s \<le> UDP_POOL_SIZE + 1"

lemma construct_holds: "us_holds (hev_socks5_session_udp_construct b c d) []"
  unfolding us_holds_def us_linked_def
  by (intro conjI exI [of _ "[]"]) (simp_all add: hev_socks5_session_udp_construct_def Let_def UDP_POOL_SIZE_def)

text \<open>An allocation is fresh: the pointer is of no live frame.\<close>

definition event_fresh :: "us_event \<Rightarrow> udp_session \<Rightarrow> bool" where
  "event_fresh e s \<longleftrightarrow> (case ev_alloc e of None \<Rightarrow> True | Some n \<Rightarrow> us_store s n = None)"

text \<open>What a callback adds to the queue.\<close>

definition event_adds :: "us_event \<Rightarrow> dns option \<Rightarrow> udp_session \<Rightarrow> udp_frame list" where
  "event_adds e dns s =
     (case (ev_pbuf e, ev_alloc e, hev_socks5_addr_from_lwip dns (ev_ip e) (ev_port e)) of
        (Some p, Some _, Some (addr, _)) \<Rightarrow>
          if us_frames s > UDP_POOL_SIZE then [] else [\<lparr>fr_addr = addr, fr_data = p\<rparr>]
      | _ \<Rightarrow> [])"

lemma linked_add:
  assumes "us_linked s ps qs" "us_store s n = None"
  shows "us_linked (s\<lparr>us_store := (us_store s)(n \<mapsto> f), us_list := hev_list_add_tail (us_list s) n\<rparr>) (ps @ [n]) (qs @ [f])"
proof -
  have n: "n \<notin> set ps"
  proof
    assume "n \<in> set ps"
    then have "us_store s n \<in> set (map Some qs)" using assms(1) by (metis image_eqI list.set_map us_linked_def)
    with assms(2) show False by auto
  qed
  then have "map ((us_store s)(n \<mapsto> f)) ps = map (us_store s) ps" by (intro map_cong) auto
  with assms(1) n hl.holds_add_tail [of "us_list s" ps n] show ?thesis by (simp add: us_linked_def)
qed

lemma recv_handler_holds:
  assumes "us_holds s qs" "event_fresh e s"
    and "udp_recv_handler (ev_alloc e) (ev_pbuf e) (ev_ip e) (ev_port e) dns s = Some (dns', s')"
  shows "us_holds s' (qs @ event_adds e dns s)"
proof (cases "event_adds e dns s")
  case Nil
  have "us_list s' = us_list s" "us_store s' = us_store s" "us_frames s' = us_frames s"
    using assms(3) Nil
    by (auto simp: udp_recv_handler_def us_terminate_def event_adds_def Let_def split: option.splits if_splits prod.splits)
  with assms(1) Nil show ?thesis by (simp add: us_holds_def us_linked_def)
next
  case (Cons f fs)
  then obtain n where n: "ev_alloc e = Some n" "\<not> us_frames s > UDP_POOL_SIZE" "fs = []"
    by (auto simp: event_adds_def split: option.splits if_splits)
  have s': "us_list s' = hev_list_add_tail (us_list s) n" "us_store s' = (us_store s)(n \<mapsto> f)"
    "us_frames s' = us_frames s + 1"
    using assms(3) Cons n
    by (auto simp: udp_recv_handler_def event_adds_def Let_def split: option.splits if_splits ip_addr.splits)
  obtain ps where ps: "us_linked s ps qs" using assms(1) by (auto simp: us_holds_def)
  have "us_linked s' (ps @ [n]) (qs @ [f])"
    using linked_add [OF ps, of n f] assms(2) n s' by (simp add: event_fresh_def us_linked_def)
  with assms(1) Cons n s' show ?thesis by (auto simp: us_holds_def)
qed

fun events_fresh :: "us_event list \<Rightarrow> dns option \<Rightarrow> udp_session \<Rightarrow> bool" where
  "events_fresh [] dns s = True"
| "events_fresh (e # es) dns s =
     (event_fresh e s \<and>
      (case udp_recv_handler (ev_alloc e) (ev_pbuf e) (ev_ip e) (ev_port e) dns s of
         None \<Rightarrow> True
       | Some (dns', s') \<Rightarrow> events_fresh es dns' s'))"

fun events_add :: "us_event list \<Rightarrow> dns option \<Rightarrow> udp_session \<Rightarrow> udp_frame list" where
  "events_add [] dns s = []"
| "events_add (e # es) dns s =
     event_adds e dns s @
      (case udp_recv_handler (ev_alloc e) (ev_pbuf e) (ev_ip e) (ev_port e) dns s of
         None \<Rightarrow> []
       | Some (dns', s') \<Rightarrow> events_add es dns' s')"

section \<open>Forwarding a batch\<close>

definition frame_msg :: "udp_frame \<Rightarrow> out_msg" where
  "frame_msg f = (fr_addr f, frame_payload f)"

lemma collect_linked:
  assumes "dll (us_list s) (as @ ps)" "map (us_store s) ps = map Some qs" "k \<le> length qs"
  shows "collect_frames k s (first_or ps None) = Some (map frame_msg (take k qs))"
  using assms
proof (induction k arbitrary: as ps qs)
  case (Suc k)
  obtain p ps' f qs' where c: "ps = p # ps'" "qs = f # qs'" "us_store s p = Some f" "map (us_store s) ps' = map Some qs'"
    using Suc.prems(2,3) by (cases ps; cases qs) auto
  have "hev_list_node_next (us_list s) p = first_or ps' None"
    using Suc.prems(1) c(1) by (intro dll_next [of _ as]) simp
  with Suc.IH [of "as @ [p]" ps' qs'] Suc.prems c show ?case by (simp add: frame_msg_def)
qed simp

lemma collect_holds:
  assumes "us_holds s qs" "k \<le> length qs"
  shows "collect_frames k s (hev_list_first (us_list s)) = Some (map frame_msg (take k qs))"
proof -
  obtain ps where "dll (us_list s) ps" "map (us_store s) ps = map Some qs"
    using assms(1) by (auto simp: us_holds_def us_linked_def)
  with collect_linked [of s "[]" ps qs k] assms(2) show ?thesis by (simp add: dll_first)
qed

lemma drop_one:
  assumes "us_holds s (f # qs)"
  obtains p where "hev_list_first (us_list s) = Some p" "us_store s p = Some f"
    "us_holds (s\<lparr>us_list := hev_list_del (us_list s) p, us_store := (us_store s)(p := None),
                 us_freed := fr, us_frames := us_frames s - 1\<rparr>) qs"
proof -
  obtain p ps where l: "dll (us_list s) (p # ps)" "us_store s p = Some f" "map (us_store s) ps = map Some qs"
    using assms by (auto simp: us_holds_def us_linked_def)
  have "p \<notin> set ps" using hl.holds_distinct [OF l(1)] by simp
  then have "map ((us_store s)(p := None)) ps = map Some qs" using l(3) by (metis fun_upd_apply map_cong)
  with l hl.pop_front [OF l(1)] assms show ?thesis
    by (intro that [of p]) (auto simp: us_holds_def us_linked_def)
qed

lemma drop_frames_holds:
  "us_holds s qs \<Longrightarrow> k \<le> length qs \<Longrightarrow>
    \<exists>s'. drop_frames k s = Some s' \<and> us_holds s' (drop k qs) \<and> us_udp s' = us_udp s
      \<and> us_freed s' = us_freed s @ map fr_data (take k qs)"
proof (induction k arbitrary: s qs)
  case (Suc k)
  then obtain f qs' where q: "qs = f # qs'" by (cases qs) auto
  obtain p where p: "hev_list_first (us_list s) = Some p" "us_store s p = Some f"
    "us_holds (s\<lparr>us_list := hev_list_del (us_list s) p, us_store := (us_store s)(p := None),
       us_freed := us_freed s @ [fr_data f], us_frames := us_frames s - 1\<rparr>) qs'"
    using drop_one Suc.prems(1) unfolding q by blast
  from Suc.IH [OF p(3)] Suc.prems(2) p(1,2) q show ?case by simp
qed simp

lemma sys_send_le: "sys_send n es = (Accepted k, es') \<Longrightarrow> k \<le> n"
  by (cases "(n, es)" rule: sys_send.cases) (auto split: if_splits)

lemma sendmmsg_loop_le:
  "c \<le> length ms \<Longrightarrow> sendmmsg_loop ms c d s = (res, d', s') \<Longrightarrow> res \<le> int (length ms)"
proof (induction ms c d s rule: sendmmsg_loop.induct)
  case (1 ms c d s)
  obtain out es where o: "sys_send (length ms - c) (dtx d) = (out, es)" by fastforce
  note step = "1.prems"(2) [unfolded sendmmsg_loop.simps [of ms c d s] o]
  show ?case
  proof (cases out)
    case (Accepted k)
    have k: "c + k \<le> length ms" using sys_send_le [of "length ms - c" "dtx d" k es] o Accepted "1.prems"(1) by simp
    show ?thesis
      using step k Accepted "1.IH"(1) [OF o [symmetric] Accepted refl] "1.prems"(1)
      by (auto simp: Let_def split: if_splits)
  next
    case (SAgain r)
    obtain y s1 where y: "udp_io_yielder HEV_TASK_WAITIO r (set_errno True s) = (y, s1)" by fastforce
    show ?thesis
      using step SAgain y "1.prems"(1) "1.IH"(2) [OF o [symmetric] SAgain y [symmetric]]
      by (auto split: if_splits)
  next
    case SFail
    with step "1.prems"(1) show ?thesis by (auto split: if_splits)
  qed
qed

lemma udp_dgrams_length: "udp_dgrams ms = Some bs \<Longrightarrow> length bs = length ms"
  by (induction ms arbitrary: bs) (auto split: option.splits)

lemma sendmmsg_le:
  assumes "hev_socks5_udp_sendmmsg ms u = (res, u')"
  shows "res \<le> int (length ms)"
proof (cases "sk_type u")
  case TYPE_UDP_IN_UDP
  show ?thesis
  proof (cases "udp_dgrams ms")
    case None
    with TYPE_UDP_IN_UDP assms show ?thesis by (simp add: hev_socks5_udp_sendmmsg_def hev_socks5_udp_sendmmsg_udp_def)
  next
    case (Some bs)
    with TYPE_UDP_IN_UDP assms obtain d s where
      "sendmmsg_loop (map (\<lambda>b. (b, None)) bs) 0 (ua u) u = (res, d, s)"
      by (auto simp: hev_socks5_udp_sendmmsg_def hev_socks5_udp_sendmmsg_udp_def
          hev_task_io_socket_sendmmsg_def split: prod.splits)
    from sendmmsg_loop_le [OF _ this] udp_dgrams_length [OF Some] show ?thesis by simp
  qed
qed (use assms in \<open>auto simp: hev_socks5_udp_sendmmsg_def hev_socks5_udp_sendmmsg_tcp_def
      split: option.splits prod.splits if_splits\<close>)

section \<open>Delivery to the stack\<close>

text \<open>Where a datagram from a destination is delivered as coming from.\<close>

fun dest_ip :: "dest \<Rightarrow> (ip_addr \<times> u16) option" where
  "dest_ip (Dst4 ip p) = Some (IpV4 ip, p)"
| "dest_ip (Dst6 ip p) = Some (IpV6 ip, p)"
| "dest_ip (DstName nm p) = None"

lemma into_lwip_enc:
  assumes "dest_wf d" "take (length (enc_dest d)) a = enc_dest d"
  shows "hev_socks5_addr_into_lwip a = Some (dest_ip d)"
proof -
  obtain junk where a: "a = enc_dest d @ junk" using assms(2) by (metis append_take_drop_id)
  show ?thesis
  proof (cases d)
    case (Dst4 ip p)
    then have "port_at a 5 = Some (htons p)" using assms(1) a port_at_be16 [of "1 # ip" 5 p junk] by simp
    with Dst4 assms(1) a show ?thesis by (simp add: hev_socks5_addr_into_lwip_def)
  next
    case (Dst6 ip p)
    then have "port_at a 17 = Some (htons p)" using assms(1) a port_at_be16 [of "4 # ip" 17 p junk] by simp
    with Dst6 assms(1) a show ?thesis by (simp add: hev_socks5_addr_into_lwip_def)
  next
    case (DstName nm p)
    with a show ?thesis by (simp add: hev_socks5_addr_into_lwip_def)
  qed
qed

text \<open>
  A session that has forwarded to a mapped name answers under the mapped address; the others
  answer under the address that the proxy reports.
\<close>

definition answers_as :: "udp_session \<Rightarrow> dest \<Rightarrow> (ip_addr \<times> u16) option" where
  "answers_as s d =
     (if us_addr s \<noteq> [0, 0, 0, 0] \<and> us_port s \<noteq> 0 then Some (IpV4 (us_addr s), us_port s) else dest_ip d)"

lemma give_msgs_all:
  assumes "list_all2 carries ms ps" "\<forall>p\<in>set ps. dest_wf (fst p) \<and> snd p \<noteq> [] \<and> answers_as s (fst p) \<noteq> None"
    "\<forall>b\<in>set oks. b = (True, True)"
  shows "give_msgs s ms oks = Some (1, s\<lparr>us_given := us_given s
           @ map (\<lambda>(d, data). (data, the (answers_as s d))) ps\<rparr>)"
  using assms
proof (induction ms arbitrary: s ps oks)
  case (Cons m ms)
  obtain d data ps' where ps: "ps = (d, data) # ps'" "carries m (d, data)" "list_all2 carries ms ps'"
    using Cons.prems(1) by (auto simp: list_all2_Cons1)
  obtain a where a: "im_addr m = Some a" "take (length (enc_dest d)) a = enc_dest d" "im_data m = data"
    using ps(2) by (auto simp: carries_def split: option.splits)
  obtain ip port where ip: "answers_as s d = Some (ip, port)" "dest_wf d" "data \<noteq> []"
    using Cons.prems(2) ps(1) by auto
  have ok: "(case oks of [] \<Rightarrow> (True, True) | b # _ \<Rightarrow> b) = (True, True)"
    using Cons.prems(3) by (cases oks) auto
  let ?s = "s\<lparr>us_given := us_given s @ [(data, ip, port)]\<rparr>"
  have as: "answers_as ?s = answers_as s" by (simp add: answers_as_def fun_eq_iff)
  have "\<forall>b\<in>set (tl oks). b = (True, True)" using Cons.prems(3) by (cases oks) auto
  then have "give_msgs ?s ms (tl oks) = Some (1, ?s\<lparr>us_given := us_given ?s
      @ map (\<lambda>(d, data). (data, the (answers_as ?s d))) ps'\<rparr>)"
    using Cons.IH [OF ps(3), of ?s "tl oks"] Cons.prems(2) ps(1) unfolding as by simp
  then show ?case
    using a ip into_lwip_enc [OF ip(2) a(2)] ps(1) ok
    by (auto simp: answers_as_def Let_def split: if_splits)
qed simp

section \<open>The end of a session\<close>

lemma those_map_Some: "map f ps = map Some qs \<Longrightarrow> those (map f ps) = Some qs"
  by (induction qs arbitrary: ps) auto

lemma fold_clear: "fold (\<lambda>p m. m(p := None)) ps m = (\<lambda>x. if x \<in> set ps then None else m x)"
  by (induction ps arbitrary: m) (auto simp: fun_eq_iff)

lemma destruct_frees:
  assumes "us_holds s qs" "length qs \<le> fuel"
  shows "\<exists>s'. hev_socks5_session_udp_destruct fuel s = Some s' \<and> us_freed s' = us_freed s @ map fr_data qs
      \<and> \<not> us_pcb s' \<and> (\<forall>ps. us_linked s ps qs \<longrightarrow> (\<forall>p\<in>set ps. us_store s' p = None))"
proof -
  obtain ps where ps: "us_linked s ps qs" using assms(1) by (auto simp: us_holds_def)
  then have l: "length ps = length qs" by (metis length_map us_linked_def)
  have w: "hev_list_walk fuel (us_list s) (hev_list_first (us_list s)) = Some ps"
    using ps l assms(2) by (intro hl.holds_walk) (auto simp: us_linked_def)
  have u: "ps' = ps" if "us_linked s ps' qs" for ps'
  proof -
    have "length ps' = length qs" using that by (metis length_map us_linked_def)
    then have "hev_list_walk fuel (us_list s) (hev_list_first (us_list s)) = Some ps'"
      using that assms(2) by (intro hl.holds_walk) (auto simp: us_linked_def)
    with w show ?thesis by simp
  qed
  have "those (map (us_store s) ps) = Some qs" using ps by (simp add: us_linked_def those_map_Some)
  with w u show ?thesis by (auto simp: hev_socks5_session_udp_destruct_def fold_clear)
qed

text \<open>With an address configured for the UDP relay, only the port of the reply is used.\<close>

lemma get_port_enc:
  assumes "dest_wf d"
  shows "hev_socks5_addr_get_port (enc_dest d @ junk)
     = Some (htons (case d of Dst4 _ p \<Rightarrow> p | Dst6 _ p \<Rightarrow> p | DstName _ p \<Rightarrow> p))"
proof (cases d)
  case (Dst4 ip p)
  with assms port_at_be16 [of "1 # ip" 5 p junk] show ?thesis by (simp add: hev_socks5_addr_get_port_def)
next
  case (Dst6 ip p)
  with assms port_at_be16 [of "4 # ip" 17 p junk] show ?thesis by (simp add: hev_socks5_addr_get_port_def)
next
  case (DstName nm p)
  with assms port_at_be16 [of "3 # of_nat (length nm) # nm" "2 + length nm" p junk] show ?thesis
    by (simp add: hev_socks5_addr_get_port_def unat_of_nat_u8)
qed

section \<open>No callback faults\<close>

text \<open>
  The addresses that the stack reports are whole; the mapped DNS, if there is one, is intact, and
  its names fit an address.
\<close>

definition event_wf :: "us_event \<Rightarrow> bool" where
  "event_wf e \<longleftrightarrow> (case ev_ip e of IpV4 a \<Rightarrow> length a = 4 | IpV6 a \<Rightarrow> length a = 16)"

definition dns_serves :: "dns option \<Rightarrow> bool" where
  "dns_serves dns \<longleftrightarrow> (case dns of None \<Rightarrow> True
     | Some d \<Rightarrow> (\<exists>as. dns_repr d as \<and> (\<forall>a\<in>set as. length (d_name d a) < 256 \<and> 0 \<notin> set (d_name d a)))
         \<and> 0 \<le> sint (NOT (d_mask d)))"

definition encoded :: "bytes \<Rightarrow> bool" where
  "encoded a \<longleftrightarrow> (\<exists>d. dest_wf d \<and> a = enc_dest d)"

lemma lookup_serves:
  assumes "dns_serves (Some d)"
  obtains d' where "hev_mapped_dns_lookup d ip = Some (None, d')" "dns_serves (Some d')"
  | nm d' where "hev_mapped_dns_lookup d ip = Some (Some nm, d')" "dns_serves (Some d')" "length nm < 256" "0 \<notin> set nm"
proof -
  obtain as where r: "dns_repr d as" "\<forall>a\<in>set as. length (d_name d a) < 256 \<and> 0 \<notin> set (d_name d a)"
    and m: "0 \<le> sint (NOT (d_mask d))" using assms by (auto simp: dns_serves_def)
  let ?i = "sint (ip AND NOT (d_mask d))"
  note nn = host_part_nonneg [OF m, of ip]
  show ?thesis
  proof (cases "?i \<ge> d_max d \<or> d_recs d (nat ?i) = None")
    case True
    with nn have "hev_mapped_dns_lookup d ip = Some (None, d)" by (auto simp: hev_mapped_dns_lookup_def Let_def)
    with that(1) assms show ?thesis by blast
  next
    case False
    then obtain n where n: "d_recs d (nat ?i) = Some n" by blast
    then have a: "n \<in> set as" "n \<notin> set (d_freed d)"
      using r(1) by (auto simp: dns_repr_def dns_indexed_def dns_live_def)
    have "hev_mapped_dns_lookup d ip = Some (Some (d_name d n), dns_touch n d)"
      using n False nn a(2) by (simp add: hev_mapped_dns_lookup_def Let_def)
    moreover have "dns_serves (Some (dns_touch n d))"
    proof -
      have "set (remove1 n as @ [n]) = set as" using a(1) repr_distinct(1) [OF r(1)] by auto
      then have "\<forall>a\<in>set (remove1 n as @ [n]). length (d_name (dns_touch n d) a) < 256 \<and> 0 \<notin> set (d_name (dns_touch n d) a)"
        using r(2) by (simp add: dns_touch_def)
      moreover have "0 \<le> sint (NOT (d_mask (dns_touch n d)))" using m by (simp add: dns_touch_def)
      ultimately show ?thesis using touch_repr(1) [OF r(1) a(1)] unfolding dns_serves_def option.case by blast
    qed
    ultimately show ?thesis using that(2) r(2) a(1) by blast
  qed
qed

lemma from_lwip_serves:
  assumes "dns_serves dns" "event_wf e"
  obtains addr dns' where "hev_socks5_addr_from_lwip dns (ev_ip e) port = Some (addr, dns')" "encoded addr" "dns_serves dns'"
proof (cases "ev_ip e")
  case (IpV6 a)
  with assms from_ipv6_enc [of a port] show ?thesis
    by (intro that [of "enc_dest (Dst6 a port)" dns])
      (auto simp: hev_socks5_addr_from_lwip_def event_wf_def encoded_def intro!: exI [of _ "Dst6 a port"])
next
  case (IpV4 a)
  with assms(2) have a: "length a = 4" by (simp add: event_wf_def)
  have e4: "fst (hev_socks5_addr_from_ipv4 a (htons port)) = enc_dest (Dst4 a port)" "encoded (enc_dest (Dst4 a port))"
    using from_ipv4_enc [OF a, of port] a by (auto simp: encoded_def intro!: exI [of _ "Dst4 a port"])
  show ?thesis
  proof (cases dns)
    case None
    with IpV4 e4 assms(1) that show ?thesis by (simp add: hev_socks5_addr_from_lwip_def)
  next
    case (Some d)
    let ?ip = "rd_be32 (a ! 0) (a ! 1) (a ! 2) (a ! 3)"
    from assms(1) Some have "dns_serves (Some d)" by simp
    then show ?thesis
    proof (cases rule: lookup_serves [of d ?ip])
      case (1 d')
      with IpV4 Some e4 that [of "enc_dest (Dst4 a port)" "Some d'"] show ?thesis
        by (simp add: hev_socks5_addr_from_lwip_def)
    next
      case (2 nm d')
      have "encoded (enc_dest (DstName nm port))"
        using 2(3,4) by (auto simp: encoded_def intro!: exI [of _ "DstName nm port"])
      with IpV4 Some 2 from_name_enc [OF 2(3), of port] that [of "enc_dest (DstName nm port)" "Some d'"] show ?thesis
        by (simp add: hev_socks5_addr_from_lwip_def)
    qed
  qed
qed

text \<open>A session in order: the queue \<open>qs\<close> is linked, and its frames carry valid addresses.\<close>

definition us_good :: "udp_session \<Rightarrow> udp_frame list \<Rightarrow> bool" where
  "us_good s qs \<longleftrightarrow> us_holds s qs \<and> (\<forall>f\<in>set qs. encoded (fr_addr f))"

text \<open>The descriptors are as before; the timer too, unless the callback ends the session.\<close>

definition same_socks :: "bool \<Rightarrow> udp \<Rightarrow> udp \<Rightarrow> bool" where
  "same_socks ends u u' \<longleftrightarrow> sk_conn u' = sk_conn u \<and> ua u' = ua u \<and> sk_type u' = sk_type u
     \<and> (\<not> ends \<longrightarrow> sk_timeout u' = sk_timeout u)"

lemma recv_handler_total:
  assumes "us_good s qs" "event_fresh e s" "event_wf e" "dns_serves dns"
  obtains dns' s' where
    "udp_recv_handler (ev_alloc e) (ev_pbuf e) (ev_ip e) (ev_port e) dns s = Some (dns', s')"
    "us_good s' (qs @ event_adds e dns s)" "dns_serves dns'" "same_socks (ev_pbuf e = None) (us_udp s) (us_udp s')"
proof -
  obtain addr dns1 where a: "hev_socks5_addr_from_lwip dns (ev_ip e) (ev_port e) = Some (addr, dns1)"
    "encoded addr" "dns_serves dns1" by (rule from_lwip_serves [OF assms(4,3)])
  obtain dns' s' where r: "udp_recv_handler (ev_alloc e) (ev_pbuf e) (ev_ip e) (ev_port e) dns s = Some (dns', s')"
    using a(1) by (fastforce simp: udp_recv_handler_def Let_def split: option.split if_split)
  moreover have "us_holds s' (qs @ event_adds e dns s)" using recv_handler_holds [OF _ assms(2) r] assms(1) by (simp add: us_good_def)
  moreover have "\<forall>f\<in>set (event_adds e dns s). encoded (fr_addr f)"
    using a(1,2) by (auto simp: event_adds_def split: option.splits)
  moreover have "dns_serves dns'"
    using r a assms(4) by (auto simp: udp_recv_handler_def Let_def split: option.splits if_splits)
  moreover have "same_socks (ev_pbuf e = None) (us_udp s) (us_udp s')"
    using r a(1) by (auto simp: udp_recv_handler_def same_socks_def us_terminate_def hev_socks5_set_timeout_def Let_def
        split: option.splits if_splits ip_addr.splits)
  ultimately show ?thesis using that assms(1) by (auto simp: us_good_def)
qed

lemma same_socks_trans:
  "same_socks a u v \<Longrightarrow> same_socks b v w \<Longrightarrow> same_socks (a \<or> b) u w"
  by (auto simp: same_socks_def)

lemma events_total:
  "us_good s qs \<Longrightarrow> events_fresh es dns s \<Longrightarrow> \<forall>e\<in>set es. event_wf e \<Longrightarrow> dns_serves dns \<Longrightarrow>
    \<exists>dns' s'. us_events es dns s = Some (dns', s') \<and> us_good s' (qs @ events_add es dns s) \<and> dns_serves dns'
      \<and> same_socks (\<exists>e\<in>set es. ev_pbuf e = None) (us_udp s) (us_udp s')"
proof (induction es arbitrary: s qs dns)
  case Nil
  then show ?case by (simp add: same_socks_def)
next
  case (Cons e es)
  obtain dns1 s1 where h: "udp_recv_handler (ev_alloc e) (ev_pbuf e) (ev_ip e) (ev_port e) dns s = Some (dns1, s1)"
    "us_good s1 (qs @ event_adds e dns s)" "dns_serves dns1" "same_socks (ev_pbuf e = None) (us_udp s) (us_udp s1)"
    using recv_handler_total [OF Cons.prems(1) _ _ Cons.prems(4)] Cons.prems(2,3)
    by (metis events_fresh.simps(2) list.set_intros(1))
  have "events_fresh es dns1 s1" "\<forall>e\<in>set es. event_wf e" using Cons.prems(2,3) h(1) by simp_all
  from Cons.IH [OF h(2) this h(3)] obtain dns' s' where i: "us_events es dns1 s1 = Some (dns', s')"
    "us_good s' ((qs @ event_adds e dns s) @ events_add es dns1 s1)" "dns_serves dns'"
    "same_socks (\<exists>e\<in>set es. ev_pbuf e = None) (us_udp s1) (us_udp s')" by blast
  with h(1) same_socks_trans [OF h(4) i(4)] show ?case by simp
qed

section \<open>What a batch puts on the wire\<close>

text \<open>The frame of a message on the stream and its datagram, from the address it carries.\<close>

definition msg_frame :: "out_msg \<Rightarrow> bytes" where
  "msg_frame m = be16 (of_nat (length (snd m))) @ [of_nat (3 + length (fst m))] @ fst m @ snd m"

definition msg_dgram :: "out_msg \<Rightarrow> bytes" where
  "msg_dgram m = [0, 0, 0] @ fst m @ snd m"

lemma enc_dest_pos: "0 < length (enc_dest d)"
  by (cases d) auto

lemma encoded_len: "encoded a \<Longrightarrow> hev_socks5_addr_len a = Some (int (length a)) \<and> 0 < length a"
  using addr_len_enc [of _ "[]"] unfolding encoded_def by (metis append_Nil2 enc_dest_pos)

lemma iovs_frames:
  "\<forall>m\<in>set ms. encoded (fst m) \<Longrightarrow> \<exists>vs. udp_iovs_tcp ms = Some vs \<and> concat vs = concat (map msg_frame ms)"
proof (induction ms)
  case (Cons m ms)
  obtain vs where "udp_iovs_tcp ms = Some vs" "concat vs = concat (map msg_frame ms)" using Cons by auto
  with encoded_len [of "fst m"] Cons.prems show ?case
    by (auto simp: udp_iov_tcp_def msg_frame_def [of m] mem16_htons)
qed simp

lemma dgrams_msgs: "\<forall>m\<in>set ms. encoded (fst m) \<Longrightarrow> udp_dgrams ms = Some (map msg_dgram ms)"
proof (induction ms)
  case (Cons m ms)
  with encoded_len [of "fst m"] show ?case by (simp add: udp_dgram_def msg_dgram_def)
qed simp

lemma send_nothing:
  assumes "hev_task_io_socket_send buf yl c = (res, c')" "res \<le> 0"
  shows "sent c' = sent c"
  using send_loop_delivered [of 0 buf c yl] assms
  by (auto simp: delivered_def hev_task_io_socket_send_def split: if_splits)

lemma sendmmsg_stream:
  assumes "sk_type u = TYPE_UDP_IN_TCP" "\<forall>m\<in>set ms. encoded (fst m)" "hev_socks5_udp_sendmmsg ms u = (res, u')"
  shows "only_conn u u'" "res \<le> 0 \<or> res = int (length ms)"
    "\<exists>n. outs u' = outs u @ take n (concat (map msg_frame (take (nat res) ms)))"
    "ms \<noteq> [] \<Longrightarrow> clear_out u \<Longrightarrow> clear_out u' \<and> res = int (length ms) \<and> outs u' = outs u @ concat (map msg_frame ms)"
proof -
  obtain vs where vs: "udp_iovs_tcp ms = Some vs" "concat vs = concat (map msg_frame ms)"
    using iovs_frames [OF assms(2)] by blast
  obtain r c where r: "hev_task_io_socket_send (concat vs) (sk_yield u) (sk_conn u) = (r, c)" by fastforce
  have rs: "res = (if r \<le> 0 then -1 else int (length ms))" "u' = u\<lparr>sk_conn := c\<rparr>"
    using assms(1,3) vs(1) r
    by (auto simp: hev_socks5_udp_sendmmsg_def hev_socks5_udp_sendmmsg_tcp_def sk_sendmsg_send sk_send_def split: if_splits)
  then show "only_conn u u'" "res \<le> 0 \<or> res = int (length ms)" by auto
  show "\<exists>n. outs u' = outs u @ take n (concat (map msg_frame (take (nat res) ms)))"
  proof (cases "r \<le> 0")
    case True
    with send_nothing [OF r] rs show ?thesis by (simp add: outs_def)
  next
    case False
    with send_prefix(2) [OF r] rs vs(2) show ?thesis by (auto simp: outs_def)
  qed
  assume ms: "ms \<noteq> []" and c: "clear_out u"
  have "concat vs \<noteq> []" using ms vs(2) by (cases ms) (auto simp: msg_frame_def)
  from sk_send_all [OF c this] obtain u1 where "sk_send (concat vs) u = (int (length (concat vs)), u1)" "io 0 (concat vs) u u1" .
  with r rs \<open>concat vs \<noteq> []\<close> c vs(2)
  show "clear_out u' \<and> res = int (length ms) \<and> outs u' = outs u @ concat (map msg_frame ms)"
    by (auto simp: sk_send_def io_def)
qed

lemma yielder_keeps:
  "udp_io_yielder type r s = (y, s') \<Longrightarrow> outs s' = outs s \<and> ua s' = ua s \<and> sk_type s' = sk_type s"
  by (auto simp: udp_io_yielder_def probe_closed_def hev_socks5_set_timeout_def set_errno_def outs_def Let_def
      split: if_splits prod.splits sys_out.splits)

lemma sendmmsg_loop_sends:
  "c \<le> length ms \<Longrightarrow> sendmmsg_loop ms c d s = (res, d', s') \<Longrightarrow>
    \<exists>m. c \<le> m \<and> m \<le> length ms \<and> (if m = 0 then res \<le> 0 else res = int m)
      \<and> dsent d' = dsent d @ take (m - c) (drop c ms) \<and> outs s' = outs s \<and> ua s' = ua s \<and> sk_type s' = sk_type s"
proof (induction ms c d s rule: sendmmsg_loop.induct)
  case (1 ms c d s)
  obtain out es where o: "sys_send (length ms - c) (dtx d) = (out, es)" by fastforce
  note step = "1.prems"(2) [unfolded sendmmsg_loop.simps [of ms c d s] o]
  show ?case
  proof (cases out)
    case (Accepted k)
    have k: "c + k \<le> length ms" using sys_send_le [of "length ms - c" "dtx d" k es] o Accepted "1.prems"(1) by simp
    let ?d = "d\<lparr>dtx := es, dsent := dsent d @ take k (drop c ms)\<rparr>"
    show ?thesis
    proof (cases "k = 0 \<or> \<not> c + k < length ms")
      case True
      with step k Accepted show ?thesis
        by (intro exI [of _ "c + k"]) (auto simp: Let_def split: if_splits)
    next
      case False
      with step Accepted have "sendmmsg_loop ms (c + k) ?d s = (res, d', s')" by (simp add: Let_def)
      with "1.IH"(1) [OF o [symmetric] Accepted refl] False k obtain m where m: "c + k \<le> m" "m \<le> length ms"
        "if m = 0 then res \<le> 0 else res = int m" "outs s' = outs s" "ua s' = ua s" "sk_type s' = sk_type s"
        "dsent d' = dsent ?d @ take (m - (c + k)) (drop (c + k) ms)" by fastforce
      have "take k (drop c ms) @ take (m - (c + k)) (drop (c + k) ms) = take (m - c) (drop c ms)"
        using take_add [of k "m - (c + k)" "drop c ms"] m(1) by (simp add: add.commute)
      with m show ?thesis by (intro exI [of _ m]) simp
    qed
  next
    case (SAgain r)
    obtain y s1 where y: "udp_io_yielder HEV_TASK_WAITIO r (set_errno True s) = (y, s1)" by fastforce
    note k = yielder_keeps [OF y]
    have se: "outs (set_errno True s) = outs s" "ua (set_errno True s) = ua s" "sk_type (set_errno True s) = sk_type s"
      by (simp_all add: set_errno_def outs_def)
    show ?thesis
    proof (cases "y = 0")
      case True
      with step SAgain y have "sendmmsg_loop ms c (d\<lparr>dtx := es\<rparr>) s1 = (res, d', s')" by simp
      with "1.IH"(2) [OF o [symmetric] SAgain y [symmetric]] True "1.prems"(1) k se show ?thesis by simp
    next
      case False
      with step SAgain y k se "1.prems"(1) show ?thesis by (intro exI [of _ c]) (auto split: if_splits)
    qed
  next
    case SFail
    with step "1.prems"(1) show ?thesis
      by (intro exI [of _ c]) (auto simp: set_errno_def outs_def split: if_splits)
  qed
qed

lemma sendmmsg_dgrams:
  assumes "sk_type u = TYPE_UDP_IN_UDP" "\<forall>m\<in>set ms. encoded (fst m)" "hev_socks5_udp_sendmmsg ms u = (res, u')"
  shows "dsent (ua u') = dsent (ua u) @ map (\<lambda>m. (msg_dgram m, None)) (take (nat res) ms)" "sk_type u' = sk_type u"
proof -
  let ?vs = "map (\<lambda>b. (b, None)) (map msg_dgram ms)"
  obtain d s where l: "sendmmsg_loop ?vs 0 (ua u) u = (res, d, s)" "u' = s\<lparr>ua := d\<rparr>"
    using assms(1,3) dgrams_msgs [OF assms(2)]
    by (auto simp: hev_socks5_udp_sendmmsg_def hev_socks5_udp_sendmmsg_udp_def hev_task_io_socket_sendmmsg_def
        split: prod.splits)
  from sendmmsg_loop_sends [OF _ l(1)] obtain m where m: "if m = 0 then res \<le> 0 else res = int m"
    "dsent d = dsent (ua u) @ take m ?vs" "sk_type s = sk_type u" by auto
  have "m = nat res" using m(1) by (auto split: if_splits)
  with m l(2) show "dsent (ua u') = dsent (ua u) @ map (\<lambda>m. (msg_dgram m, None)) (take (nat res) ms)" "sk_type u' = sk_type u"
    by (simp_all add: take_map comp_def)
qed

text \<open>
  What a session has written for the batches \<open>outs\<close>.  Datagrams go out whole, one for each
  message.  On the stream each batch is written in full, unless the write was cut by a time-out,
  an error or the end of the connection; \<open>clear\<close> says that none was.
\<close>

definition us_written :: "bool \<Rightarrow> udp \<Rightarrow> udp \<Rightarrow> out_msg list list \<Rightarrow> bool" where
  "us_written clear u u' bs \<longleftrightarrow> sk_type u' = sk_type u \<and>
     (case sk_type u of
        TYPE_UDP_IN_UDP \<Rightarrow> dsent (ua u') = dsent (ua u) @ map (\<lambda>m. (msg_dgram m, None)) (concat bs)
      | TYPE_UDP_IN_TCP \<Rightarrow>
          (\<exists>ws. list_all2 (\<lambda>w b. \<exists>n. w = take n (concat (map msg_frame b))) ws bs \<and> outs u' = outs u @ concat ws)
          \<and> (clear \<longrightarrow> clear_out u' \<and> outs u' = outs u @ concat (map msg_frame (concat bs)))
      | _ \<Rightarrow> True)"

lemma written_trans:
  assumes "us_written c1 u v as" "us_written c2 v w bs"
    and "clear \<Longrightarrow> c1" "clear \<Longrightarrow> c2"
  shows "us_written clear u w (as @ bs)"
proof -
  have t: "sk_type v = sk_type u" "sk_type w = sk_type u" using assms(1,2) by (auto simp: us_written_def)
  show ?thesis
  proof (cases "sk_type u")
    case TYPE_UDP_IN_TCP
    obtain ws vs where
      w: "list_all2 (\<lambda>w b. \<exists>n. w = take n (concat (map msg_frame b))) ws as" "outs v = outs u @ concat ws"
      "list_all2 (\<lambda>w b. \<exists>n. w = take n (concat (map msg_frame b))) vs bs" "outs w = outs v @ concat vs"
      using assms(1,2) TYPE_UDP_IN_TCP t by (auto simp: us_written_def)
    then have "list_all2 (\<lambda>w b. \<exists>n. w = take n (concat (map msg_frame b))) (ws @ vs) (as @ bs)" "outs w = outs u @ concat (ws @ vs)"
      by (auto intro: list_all2_appendI)
    moreover have "clear_out w \<and> outs w = outs u @ concat (map msg_frame (concat (as @ bs)))" if clear
      using assms(1,2) assms(3,4) [OF that] TYPE_UDP_IN_TCP t by (simp add: us_written_def)
    ultimately show ?thesis using TYPE_UDP_IN_TCP t unfolding us_written_def by auto
  qed (use assms t in \<open>auto simp: us_written_def\<close>)
qed

section \<open>Properties of a session\<close>

text \<open>
  What happens to the queue: a callback of the stack, or a call of the forwarding half with the
  callbacks that run while it is suspended.  An operation tells which frames it accepted and
  which batch of messages the sending call reported as sent.
\<close>

datatype us_op = UsCallback us_event | UsForward nat "us_event list"

definition batch_sent :: "nat \<Rightarrow> udp_session \<Rightarrow> out_msg list \<times> udp" where
  "batch_sent num s =
     (case collect_frames (nat (min (us_frames s) (int num))) s (hev_list_first (us_list s)) of
        None \<Rightarrow> ([], us_udp s)
      | Some ms \<Rightarrow> (case hev_socks5_udp_sendmmsg ms (us_udp s) of (res, u) \<Rightarrow> (take (nat res) ms, u)))"

fun us_do :: "us_op \<Rightarrow> dns option \<Rightarrow> udp_session \<Rightarrow>
    (udp_frame list \<times> out_msg list list \<times> dns option \<times> udp_session) option" where
  "us_do (UsCallback e) dns s =
     map_option (\<lambda>(dns', s'). (event_adds e dns s, [], dns', s'))
       (udp_recv_handler (ev_alloc e) (ev_pbuf e) (ev_ip e) (ev_port e) dns s)"
| "us_do (UsForward num evs) dns s =
     (case batch_sent num s of (out, u) \<Rightarrow>
        map_option (\<lambda>(res, dns', s').
            if us_frames s \<le> 0 then ([], [], dns', s')
            else (events_add evs dns (s\<lparr>us_udp := u\<rparr>), [out], dns', s'))
          (hev_socks5_session_udp_fwd_f num evs dns s))"

fun us_op_fresh :: "us_op \<Rightarrow> dns option \<Rightarrow> udp_session \<Rightarrow> bool" where
  "us_op_fresh (UsCallback e) dns s = event_fresh e s"
| "us_op_fresh (UsForward num evs) dns s =
     (us_frames s > 0 \<longrightarrow> events_fresh evs dns (s\<lparr>us_udp := snd (batch_sent num s)\<rparr>))"

fun us_op_wf :: "us_op \<Rightarrow> bool" where
  "us_op_wf (UsCallback e) = event_wf e"
| "us_op_wf (UsForward num evs) = (0 < num \<and> (\<forall>e\<in>set evs. event_wf e))"

fun us_op_ends :: "us_op \<Rightarrow> bool" where
  "us_op_ends (UsCallback e) = (ev_pbuf e = None)"
| "us_op_ends (UsForward num evs) = (\<exists>e\<in>set evs. ev_pbuf e = None)"

text \<open>The frames accepted and the batches reported; \<open>None\<close> as soon as an operation faults.\<close>

fun us_run :: "us_op list \<Rightarrow> dns option \<Rightarrow> udp_session \<Rightarrow>
    (udp_frame list \<times> out_msg list list \<times> dns option \<times> udp_session) option" where
  "us_run [] dns s = Some ([], [], dns, s)"
| "us_run (p # ps) dns s =
     (case us_do p dns s of
        None \<Rightarrow> None
      | Some (acc, out, dns', s') \<Rightarrow>
          map_option (\<lambda>(acc', out', r). (acc @ acc', out @ out', r)) (us_run ps dns' s'))"

fun us_run_fresh :: "us_op list \<Rightarrow> dns option \<Rightarrow> udp_session \<Rightarrow> bool" where
  "us_run_fresh [] dns s = True"
| "us_run_fresh (p # ps) dns s =
     (us_op_fresh p dns s \<and>
      (case us_do p dns s of None \<Rightarrow> True | Some (_, _, dns', s') \<Rightarrow> us_run_fresh ps dns' s'))"

text \<open>The outcome of operations from a session with the queue \<open>qs\<close>.\<close>

definition us_outcome :: "bool \<Rightarrow> udp_frame list \<Rightarrow> udp_session \<Rightarrow>
    (udp_frame list \<times> out_msg list list \<times> dns option \<times> udp_session) option \<Rightarrow> bool" where
  "us_outcome clear qs s r \<longleftrightarrow> (case r of None \<Rightarrow> False
     | Some (acc, bs, dns', s') \<Rightarrow> dns_serves dns' \<and> us_written clear (us_udp s) (us_udp s') bs
         \<and> (\<exists>qs'. us_good s' qs' \<and> map frame_msg (qs @ acc) = concat bs @ map frame_msg qs'))"

lemma sendmmsg_written:
  assumes "\<forall>m\<in>set ms. encoded (fst m)" "ms \<noteq> []" "hev_socks5_udp_sendmmsg ms u = (res, u')"
    and "clear \<Longrightarrow> sk_type u = TYPE_UDP_IN_TCP \<Longrightarrow> clear_out u"
  shows "us_written clear u u' [take (nat res) ms]"
proof (cases "sk_type u")
  case TYPE_UDP_IN_TCP
  note w = sendmmsg_stream [OF TYPE_UDP_IN_TCP assms(1,3)]
  have t: "sk_type u' = TYPE_UDP_IN_TCP" using only_conn_fields(3) [OF w(1)] TYPE_UDP_IN_TCP by simp
  obtain n where "outs u' = outs u @ take n (concat (map msg_frame (take (nat res) ms)))" using w(3) by blast
  then have "\<exists>ws. list_all2 (\<lambda>w b. \<exists>n. w = take n (concat (map msg_frame b))) ws [take (nat res) ms] \<and> outs u' = outs u @ concat ws"
    by (intro exI [of _ "[take n (concat (map msg_frame (take (nat res) ms)))]"]) auto
  moreover have "clear_out u' \<and> outs u' = outs u @ concat (map msg_frame (concat [take (nat res) ms]))" if clear
    using w(4) [OF assms(2)] assms(4) [OF that TYPE_UDP_IN_TCP] by simp
  ultimately show ?thesis using TYPE_UDP_IN_TCP t by (simp add: us_written_def)
next
  case TYPE_UDP_IN_UDP
  with sendmmsg_dgrams [OF TYPE_UDP_IN_UDP assms(1,3)] show ?thesis by (simp add: us_written_def)
qed (use assms(3) in \<open>auto simp: us_written_def hev_socks5_udp_sendmmsg_def\<close>)

lemma us_do_forward:
  assumes "us_good s qs" "qs \<noteq> []" "us_op_fresh (UsForward num evs) dns s" "us_op_wf (UsForward num evs)" "dns_serves dns"
    and "clear \<Longrightarrow> sk_type (us_udp s) = TYPE_UDP_IN_TCP \<Longrightarrow> clear_out (us_udp s)"
    and "clear \<Longrightarrow> \<not> us_op_ends (UsForward num evs)"
  shows "us_outcome clear qs s (us_do (UsForward num evs) dns s)"
proof -
  have h: "us_holds s qs" "\<forall>f\<in>set qs. encoded (fr_addr f)" using assms(1) by (simp_all add: us_good_def)
  then have fr: "us_frames s = int (length qs)" by (simp add: us_holds_def)
  then have pos: "\<not> us_frames s \<le> 0" using assms(2) by simp
  let ?ms = "map frame_msg (take num qs)"
  have mn: "nat (min (int (length qs)) (int num)) = min (length qs) num" by linarith
  have "take (min (length qs) num) qs = take num qs" by (simp add: min_def)
  with mn have c: "collect_frames (nat (min (us_frames s) (int num))) s (hev_list_first (us_list s)) = Some ?ms"
    using collect_holds [OF h(1), of "min (length qs) num"] fr by simp
  obtain res u where sm: "hev_socks5_udp_sendmmsg ?ms (us_udp s) = (res, u)" by fastforce
  have b: "batch_sent num s = (take (nat res) ?ms, u)" by (simp add: batch_sent_def c sm)
  have e: "\<forall>m\<in>set ?ms. encoded (fst m)" "?ms \<noteq> []"
    using h(2) assms(2,4) set_take_subset [of num qs] by (auto simp: frame_msg_def)
  have w1: "us_written clear (us_udp s) u [take (nat res) ?ms]" by (rule sendmmsg_written [OF e sm assms(6)])
  let ?s = "s\<lparr>us_udp := u\<rparr>"
  have g: "us_good ?s qs" using assms(1) by (simp add: us_good_def us_holds_def us_linked_def)
  have "events_fresh evs dns ?s" "\<forall>e\<in>set evs. event_wf e" using assms(3,4) pos b by simp_all
  from events_total [OF g this assms(5)] obtain dns' s1 where ev: "us_events evs dns ?s = Some (dns', s1)"
    "us_good s1 (qs @ events_add evs dns ?s)" "dns_serves dns'" "same_socks (\<exists>e\<in>set evs. ev_pbuf e = None) u (us_udp s1)"
    by auto
  have r: "nat res \<le> length (take num qs)" using sendmmsg_le [OF sm] unfolding length_map by linarith
  then have r': "nat res \<le> length (qs @ events_add evs dns ?s)" by simp
  have "us_holds s1 (qs @ events_add evs dns ?s)" using ev(2) by (simp add: us_good_def)
  from drop_frames_holds [OF this r'] obtain s2 where dr: "drop_frames (nat res) s1 = Some s2"
    "us_holds s2 (drop (nat res) (qs @ events_add evs dns ?s))" "us_udp s2 = us_udp s1" by blast
  have "hev_socks5_session_udp_fwd_f num evs dns s = Some (if res \<le> 0 then (-1, dns', s1) else (1, dns', s2))"
    using pos c sm ev(1) dr(1) by (simp add: hev_socks5_session_udp_fwd_f_def Let_def)
  moreover have "res \<le> 0 \<Longrightarrow> s2 = s1" using dr(1) by simp
  ultimately have d: "us_do (UsForward num evs) dns s = Some (events_add evs dns ?s, [take (nat res) ?ms], dns', s2)"
    using pos b by simp
  have "us_written clear u (us_udp s2) []"
    using ev(4) dr(3) w1 assms(6,7) unfolding us_written_def
    by (auto simp: same_socks_def outs_def clear_out_def sk_yield_fun split: socks5_type.splits)
  from written_trans [OF w1 this] have w: "us_written clear (us_udp s) (us_udp s2) [take (nat res) ?ms]" by simp
  have "us_good s2 (drop (nat res) (qs @ events_add evs dns ?s))"
    using dr(2) ev(2) set_drop_subset [of "nat res" "qs @ events_add evs dns ?s"] by (auto simp: us_good_def)
  moreover have "take (nat res) ?ms = map frame_msg (take (nat res) (qs @ events_add evs dns ?s))"
    using r by (simp add: take_map min_absorb1)
  then have "map frame_msg (qs @ events_add evs dns ?s)
      = concat [take (nat res) ?ms] @ map frame_msg (drop (nat res) (qs @ events_add evs dns ?s))"
    by (metis append_take_drop_id concat.simps append_Nil2 map_append)
  ultimately show ?thesis unfolding us_outcome_def d using w ev(3) by auto
qed

lemma us_do_total:
  assumes "us_good s qs" "us_op_fresh p dns s" "us_op_wf p" "dns_serves dns"
    and "clear \<Longrightarrow> sk_type (us_udp s) = TYPE_UDP_IN_TCP \<Longrightarrow> clear_out (us_udp s)"
    and "clear \<Longrightarrow> \<not> us_op_ends p"
  shows "us_outcome clear qs s (us_do p dns s)"
proof (cases p)
  case (UsCallback e)
  then have "event_fresh e s" "event_wf e" using assms(2,3) by simp_all
  from recv_handler_total [OF assms(1) this assms(4)] obtain dns' s' where r:
    "udp_recv_handler (ev_alloc e) (ev_pbuf e) (ev_ip e) (ev_port e) dns s = Some (dns', s')"
    "us_good s' (qs @ event_adds e dns s)" "dns_serves dns'" "same_socks (ev_pbuf e = None) (us_udp s) (us_udp s')" .
  have "us_written clear (us_udp s) (us_udp s') []"
    using r(4) assms(5,6) UsCallback unfolding us_written_def
    by (auto simp: same_socks_def outs_def clear_out_def sk_yield_fun split: socks5_type.splits)
  with r UsCallback show ?thesis by (auto simp: us_outcome_def)
next
  case (UsForward num evs)
  show ?thesis
  proof (cases "qs = []")
    case True
    with assms(1) have "us_frames s \<le> 0" by (simp add: us_good_def us_holds_def)
    then have "us_do p dns s = Some ([], [], dns, s)"
      using UsForward by (auto simp: hev_socks5_session_udp_fwd_f_def split: prod.splits)
    moreover have "us_written clear (us_udp s) (us_udp s) []"
      using assms(5) by (auto simp: us_written_def split: socks5_type.split)
    ultimately show ?thesis using assms(1,4) True unfolding us_outcome_def by auto
  next
    case False
    with assms UsForward show ?thesis by (metis us_do_forward)
  qed
qed

lemma us_run_total:
  "us_good s qs \<Longrightarrow> us_run_fresh ps dns s \<Longrightarrow> \<forall>p\<in>set ps. us_op_wf p \<Longrightarrow> dns_serves dns \<Longrightarrow>
   (clear \<Longrightarrow> sk_type (us_udp s) = TYPE_UDP_IN_TCP \<Longrightarrow> clear_out (us_udp s)) \<Longrightarrow>
   (clear \<Longrightarrow> \<forall>p\<in>set ps. \<not> us_op_ends p) \<Longrightarrow> us_outcome clear qs s (us_run ps dns s)"
proof (induction ps arbitrary: s qs dns)
  case Nil
  then have "us_written clear (us_udp s) (us_udp s) []" by (auto simp: us_written_def split: socks5_type.split)
  with Nil show ?case by (auto simp: us_outcome_def)
next
  case (Cons p ps)
  have "us_op_fresh p dns s" "us_op_wf p" "clear \<Longrightarrow> \<not> us_op_ends p" using Cons.prems(2,3,6) by simp_all
  then have "us_outcome clear qs s (us_do p dns s)"
    using us_do_total [OF Cons.prems(1) _ _ Cons.prems(4,5), of p] by blast
  then obtain acc bs dns1 s1 qs1 where d: "us_do p dns s = Some (acc, bs, dns1, s1)" "dns_serves dns1"
    "us_written clear (us_udp s) (us_udp s1) bs" "us_good s1 qs1" "map frame_msg (qs @ acc) = concat bs @ map frame_msg qs1"
    by (auto simp: us_outcome_def split: option.splits)
  have "us_run_fresh ps dns1 s1" "\<forall>p\<in>set ps. us_op_wf p" using Cons.prems(2,3) d(1) by simp_all
  moreover have "clear_out (us_udp s1)" if clear "sk_type (us_udp s1) = TYPE_UDP_IN_TCP"
  proof -
    have "sk_type (us_udp s) = TYPE_UDP_IN_TCP" using d(3) that(2) by (simp add: us_written_def)
    with d(3) that(1) show ?thesis by (simp add: us_written_def)
  qed
  moreover have "\<forall>p\<in>set ps. \<not> us_op_ends p" if clear using Cons.prems(6) that by simp
  ultimately have "us_outcome clear qs1 s1 (us_run ps dns1 s1)" using Cons.IH [OF d(4) _ _ d(2)] by blast
  then obtain acc2 bs2 dns2 s2 qs2 where r: "us_run ps dns1 s1 = Some (acc2, bs2, dns2, s2)" "dns_serves dns2"
    "us_written clear (us_udp s1) (us_udp s2) bs2" "us_good s2 qs2" "map frame_msg (qs1 @ acc2) = concat bs2 @ map frame_msg qs2"
    by (auto simp: us_outcome_def split: option.splits)
  have "map frame_msg (qs @ acc @ acc2) = concat (bs @ bs2) @ map frame_msg qs2"
    using d(5) r(5) by (metis append_assoc concat_append map_append)
  with d(1) r(1,2,4) written_trans [OF d(3) r(3)] show ?case by (auto simp: us_outcome_def)
qed

text \<open>
  C33: The queue of a UDP session is first in, first out and loses nothing, and what is taken from
  it is what goes out.  Take a session in order, for instance a new one, with the frames \<open>qs\<close> queued,
  and any interleaving of callbacks and forwarding, including callbacks while a batch is
  being sent.  No operation follows a freed or invalid frame.  The datagrams queued before or
  accepted from the stack are those of the batches reported as sent, followed by those still
  queued, in the order of arrival, and the queue never holds more than 513 frames.  What was
  written belongs to these batches: in datagram mode exactly one datagram for each message; in
  stream mode the frames of each batch, in order, a batch being cut short only when the
  connection fails or times out in its middle.  As long as it does not, and the stack does not end
  the session, the stream has carried exactly the frames of all the messages.
\<close>

theorem udp_session_queue_fifo:
  assumes "us_good s qs" "dns_serves dns" "us_run_fresh ps dns s" "\<forall>p\<in>set ps. us_op_wf p"
  shows "\<exists>acc bs dns' s' qs'. us_run ps dns s = Some (acc, bs, dns', s') \<and> us_good s' qs' \<and> length qs' \<le> 513
     \<and> map frame_msg (qs @ acc) = concat bs @ map frame_msg qs'
     \<and> us_written (clear_out (us_udp s) \<and> (\<forall>p\<in>set ps. \<not> us_op_ends p)) (us_udp s) (us_udp s') bs"
proof -
  have "us_outcome (clear_out (us_udp s) \<and> (\<forall>p\<in>set ps. \<not> us_op_ends p)) qs s (us_run ps dns s)"
    by (rule us_run_total [OF assms(1,3,4,2)]) simp_all
  then show ?thesis
    by (fastforce simp: us_outcome_def us_good_def us_holds_def UDP_POOL_SIZE_def split: option.splits)
qed

text \<open>Data for the examples: a connection that takes everything, and a datagram for port 53.\<close>

definition ex_us :: udp_session where
  "ex_us = hev_socks5_session_udp_construct False \<lparr>rx = [], tx = [], sent = [], errno_again = False\<rparr>
     \<lparr>drx = [], dtx = [], dsent = []\<rparr>"

definition ex_dgram :: "nat \<Rightarrow> bytes \<Rightarrow> us_event" where
  "ex_dgram n b = \<lparr>ev_alloc = Some n, ev_pbuf = Some [b], ev_ip = IpV4 [8, 8, 8, 8], ev_port = 53\<rparr>"

lemma construct_good: "us_good (hev_socks5_session_udp_construct b c d) []"
  by (simp add: us_good_def construct_holds)

theorem udp_session_queue_fifo_witness:
  "\<exists>acc bs dns' s' qs'. us_run [UsCallback (ex_dgram 1 [7]), UsCallback (ex_dgram 2 [8]), UsForward 1 [ex_dgram 3 [9]],
        UsForward 1 []] None ex_us = Some (acc, bs, dns', s') \<and> map frame_payload acc = [[7], [8], [9]]
      \<and> map frame_msg acc = concat bs @ map frame_msg qs' \<and> concat (map (map snd) bs) = [[7], [8]]
      \<and> outs (us_udp s') = concat (map msg_frame (concat bs))"
proof -
  let ?ps = "[UsCallback (ex_dgram 1 [7]), UsCallback (ex_dgram 2 [8]), UsForward 1 [ex_dgram 3 [9]], UsForward 1 []]"
  have f: "us_run_fresh ?ps None ex_us" by code_simp
  have v: "map_option (\<lambda>r. (map frame_payload (fst r), concat (map (map snd) (fst (snd r))))) (us_run ?ps None ex_us)
      = Some ([[7], [8], [9]], [[7], [8]])" by code_simp
  have g: "us_good ex_us []" unfolding ex_us_def by (rule construct_good)
  have c: "clear_out (us_udp ex_us)" "sk_type (us_udp ex_us) = TYPE_UDP_IN_TCP" "outs (us_udp ex_us) = []" by code_simp+
  have w: "\<forall>p\<in>set ?ps. us_op_wf p" "\<forall>p\<in>set ?ps. \<not> us_op_ends p" by (simp_all add: event_wf_def ex_dgram_def)
  obtain acc bs dns' s' qs' where r: "us_run ?ps None ex_us = Some (acc, bs, dns', s')"
    "map frame_msg ([] @ acc) = concat bs @ map frame_msg qs'"
    "us_written (clear_out (us_udp ex_us) \<and> (\<forall>p\<in>set ?ps. \<not> us_op_ends p)) (us_udp ex_us) (us_udp s') bs"
    using udp_session_queue_fifo [OF g _ f w(1)] by (auto simp: dns_serves_def)
  have "outs (us_udp s') = concat (map msg_frame (concat bs))" using r(3) c w(2) by (simp add: us_written_def)
  with r(1,2) v show ?thesis by (intro exI conjI) auto
qed

text \<open>
  A batch whose write is cut short by a time-out counts as sent: the frame is dropped although
  only its first bytes are on the stream, the session goes on, and the proxy takes the next frame
  for the rest of the one that was cut.
\<close>

definition ex_slow :: udp_session where
  "ex_slow = ex_us\<lparr>us_udp := (us_udp ex_us)\<lparr>sk_timeout := 60000,
     sk_conn := \<lparr>rx = [], tx = [TAccept 4, TAgain 0], sent = [], errno_again = False\<rparr>\<rparr>\<rparr>"

theorem cut_batch_counts_as_sent:
  "map_option (\<lambda>(acc, bs, _, s). (bs = map (\<lambda>f. [frame_msg f]) acc, us_frames s,
       outs (us_udp s) = take 4 (msg_frame (frame_msg (acc ! 0))) @ msg_frame (frame_msg (acc ! 1)), length (msg_frame (frame_msg (acc ! 0)))))
     (us_run [UsCallback (ex_dgram 1 [7]), UsForward 1 [], UsCallback (ex_dgram 2 [8]), UsForward 1 []] None ex_slow)
   = Some (True, 0, True, 11)"
  by code_simp

text \<open>
  Datagrams that the proxy sends over the stream reach the IP stack unchanged: one call of the
  receiving half gives the stack some number of the datagrams that wait in the stream, from the
  front, each once, as coming from the mapped address of the session or else from the address
  that the proxy reports, and leaves the others in the stream.
\<close>

theorem udp_session_delivers:
  assumes "sk_type (us_udp s) = TYPE_UDP_IN_TCP" "inflow (us_udp s) = concat (map frame ms) @ rest" "steady (us_udp s)"
    and "\<forall>m\<in>set ms. frame_fits m \<and> snd m \<noteq> [] \<and> answers_as s (fst m) \<noteq> None"
    and "\<forall>mem\<in>set mems. length mem = UDP_BUF_SIZE" "length mems \<le> length ms" "mems \<noteq> []"
    and "\<forall>b\<in>set oks. b = (True, True)"
  shows "\<exists>k s'. k \<le> length mems \<and> hev_socks5_session_udp_fwd_b N mems oks s = Some (if k = 0 then 0 else 1, s')
     \<and> us_given s' = us_given s @ map (\<lambda>(d, data). (data, the (answers_as s d))) (take k ms)
     \<and> inflow (us_udp s') = concat (map frame (drop k ms)) @ rest"
proof -
  have ff: "\<forall>m\<in>set ms. frame_fits m" using assms(4) by blast
  obtain k out u where k: "k \<le> length mems" "list_all2 carries out (take k ms)"
    "recvmmsg_tcp_loop True mems [] (us_udp s)
      = (if [] = ([] :: in_msg list) \<and> k = 0 \<and> mems \<noteq> [] then -1 else int (length ([] :: in_msg list) + k), [] @ out, u)"
    "io (length (concat (map frame (take k ms)))) [] (us_udp s) u" "k < length mems \<longrightarrow> errno_is_again u"
    using recvmmsg_tcp_loop_spec [OF assms(2) ff assms(5,6,3), of True "[]"] by blast
  have "concat (map frame ms) = concat (map frame (take k ms)) @ concat (map frame (drop k ms))"
    by (metis append_take_drop_id concat_append map_append)
  then have i: "inflow u = concat (map frame (drop k ms)) @ rest" using k(4) assms(2) by (simp add: io_def)
  have lo: "length out = k" using k(1,2) assms(6) by (auto dest: list_all2_lengthD)
  have rcv: "hev_socks5_udp_recvmmsg c mems True (us_udp s) = (if k = 0 then -1 else int k, out, u)" for c
    using assms(1,7) k(3) by (simp add: hev_socks5_udp_recvmmsg_def hev_socks5_udp_recvmmsg_tcp_def)
  have as: "answers_as (s\<lparr>us_udp := u\<rparr>) = answers_as s" by (simp add: answers_as_def fun_eq_iff)
  show ?thesis
  proof (cases "k = 0")
    case True
    with rcv k(5) assms(7) i show ?thesis
      by (intro exI [of _ 0] exI [of _ "s\<lparr>us_udp := u\<rparr>"]) (simp add: hev_socks5_session_udp_fwd_b_def)
  next
    case False
    have "\<forall>p\<in>set (take k ms). dest_wf (fst p) \<and> snd p \<noteq> [] \<and> answers_as (s\<lparr>us_udp := u\<rparr>) (fst p) \<noteq> None"
      using assms(4) set_take_subset [of k ms] unfolding as by (auto simp: frame_fits_def)
    from give_msgs_all [OF k(2) this assms(8)] False rcv lo i k(1) show ?thesis
      unfolding as by (intro exI [of _ k]) (simp add: hev_socks5_session_udp_fwd_b_def Let_def)
  qed
qed

theorem udp_session_delivers_witness:
  "\<exists>k s'. hev_socks5_session_udp_fwd_b (ex_net 0) [replicate 1500 0] []
      (ex_us\<lparr>us_udp := ex_udp [RData [0, 2, 10, 1, 10, 0, 0, 1, 0, 80, 7, 8]]\<rparr>) = Some (k, s')
     \<and> us_given s' \<in> {[], [([7, 8], IpV4 [10, 0, 0, 1], 80)]}"
proof -
  let ?es = "[RData [0, 2, 10, 1, 10, 0, 0, 1, 0, 80, 7, 8]]" and ?ms = "[(Dst4 [10, 0, 0, 1] 80, [7, 8])]"
  let ?s = "ex_us\<lparr>us_udp := ex_udp ?es\<rparr>"
  have e: "us_addr ?s = [0, 0, 0, 0]" "us_given ?s = []"
    by (simp_all add: ex_us_def hev_socks5_session_udp_construct_def Let_def)
  have i: "inflow (us_udp ?s) = concat (map frame ?ms) @ []" "steady (us_udp ?s)"
    by (simp_all add: inflow_def steady_def patient_def ex_udp_simps frame_def be16_def)
  have f: "\<forall>m\<in>set ?ms. frame_fits m \<and> snd m \<noteq> [] \<and> answers_as ?s (fst m) \<noteq> None"
    by (simp add: frame_fits_def UDP_BUF_SIZE_def answers_as_def e)
  obtain k s' where r: "k \<le> 1" "hev_socks5_session_udp_fwd_b (ex_net 0) [replicate 1500 0] [] ?s = Some (if k = 0 then 0 else 1, s')"
    "us_given s' = us_given ?s @ map (\<lambda>(d, data). (data, the (answers_as ?s d))) (take k ?ms)"
    using udp_session_delivers [OF _ i f, of "[replicate 1500 0]" "[]" "ex_net 0"] by (auto simp: ex_udp_simps UDP_BUF_SIZE_def)
  have "k = 0 \<or> k = 1" using r(1) by linarith
  then have "us_given s' \<in> {[], [([7, 8], IpV4 [10, 0, 0, 1], 80)]}" using r(3) e by (auto simp: answers_as_def)
  with r(2) show ?thesis by blast
qed

end
