(* ===== verification/Tunnel.thy ===== *)
theory Tunnel
  imports Dns_Handle Socks5_Client
begin

text \<open>
  The tunnel: \<^verbatim>\<open>hev/src/hev-socks5-tunnel.c\<close> with \<^verbatim>\<open>hev/src/hev-socks5-session.c\<close> and the
  constructor of TCP sessions.  The file's static variables are the record \<open>tunnel\<close>.  Sessions
  are known by the address of their list node; \<open>tn_sess\<close> holds the session objects that exist.

  What a call to the operating system, the allocator or the IP stack returns is an argument.
  Pointers that are only compared with null are booleans, task pointers are reference counts.
\<close>

section \<open>State\<close>

datatype session_kind = KTcp client | KUdp

record session =
  se_kind :: session_kind
  se_timeout :: int
  se_wakeups :: nat

record tunnel =
  tn_run :: bool
  tun_fd :: int
  tun_fd_local :: bool
  session_count :: int
  event_fds :: "int \<times> int"
  stat_tx_packets :: usize
  stat_rx_packets :: usize
  stat_tx_bytes :: usize
  stat_rx_bytes :: usize
  tn_netif :: bool
  tn_tcp :: bool
  tn_udp :: bool
  task_event :: nat
  task_lwip_io :: nat
  task_lwip_timer :: nat
  session_set :: "nat llist"
  tn_dns :: "dns option"
  tn_sess :: "nat \<Rightarrow> session option"
  tn_tasks :: "nat list"
  timer_wakeups :: nat
  tn_closed :: "int list"
  tn_aborts :: nat

section \<open>Sessions\<close>

definition session_terminate :: "nat \<Rightarrow> tunnel \<Rightarrow> tunnel" where
  "session_terminate n t =
     t\<lparr>tn_sess := (tn_sess t)(n := map_option (\<lambda>s. s\<lparr>se_timeout := 0, se_wakeups := Suc (se_wakeups s)\<rparr>) (tn_sess t n))\<rparr>"

definition hev_socks5_tunnel_insert_session :: "int \<Rightarrow> nat \<Rightarrow> tunnel \<Rightarrow> tunnel option" where
  "hev_socks5_tunnel_insert_session max_session_count node t =
     (let t1 = t\<lparr>session_set := hev_list_add_tail (session_set t) node, session_count := session_count t + 1\<rparr> in
      if max_session_count = 0 \<or> session_count t1 < max_session_count then Some t1
      else map_option (\<lambda>n. session_terminate n t1) (hev_list_first (session_set t1)))"

definition hev_socks5_tunnel_delete_session :: "nat \<Rightarrow> tunnel \<Rightarrow> tunnel" where
  "hev_socks5_tunnel_delete_session node t =
     t\<lparr>session_set := hev_list_del (session_set t) node, session_count := session_count t - 1\<rparr>"

definition hev_socks5_tunnel_update_session :: "int \<Rightarrow> nat \<Rightarrow> tunnel \<Rightarrow> tunnel" where
  "hev_socks5_tunnel_update_session max_session_count node t =
     (if max_session_count = 0 then t
      else t\<lparr>session_set := hev_list_add_tail (hev_list_del (session_set t) node) node\<rparr>)"

text \<open>
  \<^verbatim>\<open>hev_socks5_session_run\<close> up to the splicer: connect to the configured server, set the
  credentials, shake hands.  \<open>Some (True, s)\<close> starts the splicer.
\<close>

record srv_config =
  srv_addr :: bytes
  srv_port :: u16
  srv_user :: "bytes option"
  srv_pass :: "bytes option"
  srv_pipeline :: bool
  srv_mark :: u32

definition hev_socks5_session_run ::
    "timeouts \<Rightarrow> resolver \<Rightarrow> net \<Rightarrow> srv_config \<Rightarrow> client \<Rightarrow> (bool \<times> client) option" where
  "hev_socks5_session_run G R N cfg s =
     (case hev_socks5_client_connect G R N (srv_addr cfg) (srv_port cfg) s of
        (res, s1) \<Rightarrow>
          if res < 0 then Some (False, s1)
          else let s2 = (if srv_user cfg \<noteq> None \<and> srv_pass cfg \<noteq> None
                         then hev_socks5_client_set_auth (srv_user cfg) (srv_pass cfg) s1 else s1) in
            map_option (\<lambda>(res, s3). (\<not> res < 0, s3)) (hev_socks5_client_handshake G R N (srv_pipeline cfg) s2))"

definition hev_socks5_session_bind :: "srv_config \<Rightarrow> (int \<Rightarrow> u32 \<Rightarrow> int) \<Rightarrow> int \<Rightarrow> int" where
  "hev_socks5_session_bind cfg set_sock_mark fd =
     (if srv_mark cfg \<noteq> 0 \<and> set_sock_mark fd (srv_mark cfg) < 0 then -1 else 0)"

text \<open>The end of \<^verbatim>\<open>hev_socks5_session_task_entry\<close>: the session leaves the set and is freed.\<close>

definition session_task_end :: "nat \<Rightarrow> tunnel \<Rightarrow> tunnel" where
  "session_task_end node t =
     (let t1 = hev_socks5_tunnel_delete_session node t in
      t1\<lparr>tn_sess := (tn_sess t1)(node := None), tn_tasks := remove1 node (tn_tasks t1)\<rparr>)"

definition hev_socks5_session_tcp_construct ::
    "dns option \<Rightarrow> ip_addr \<Rightarrow> u16 \<Rightarrow> conn \<Rightarrow> (int \<times> client \<times> dns option) option" where
  "hev_socks5_session_tcp_construct dns ip port c =
     (case hev_socks5_addr_from_lwip dns ip port of
        None \<Rightarrow> None
      | Some (addr, dns') \<Rightarrow>
          (case hev_socks5_client_tcp_construct addr c of
             None \<Rightarrow> None
           | Some (res, s) \<Rightarrow> Some (if res < 0 then -1 else 0, s, dns')))"

section \<open>Callbacks of the stack\<close>

definition ERR_OK :: int where "ERR_OK = 0"
definition ERR_MEM :: int where "ERR_MEM = -1"
definition ERR_WOULDBLOCK :: int where "ERR_WOULDBLOCK = -7"
definition ERR_IF :: int where "ERR_IF = -12"
definition ERR_RST :: int where "ERR_RST = -14"

text \<open>
  The tail that the two handlers of new sessions share: the session's task is set, the session
  enters the set, the task starts and the timer task is woken.
\<close>

definition start_session :: "int \<Rightarrow> nat \<Rightarrow> session \<Rightarrow> tunnel \<Rightarrow> tunnel option" where
  "start_session max_session_count node se t =
     (case hev_socks5_tunnel_insert_session max_session_count node (t\<lparr>tn_sess := (tn_sess t)(node \<mapsto> se)\<rparr>) of
        None \<Rightarrow> None
      | Some t1 \<Rightarrow> Some (t1\<lparr>tn_tasks := tn_tasks t1 @ [node], timer_wakeups := Suc (timer_wakeups t1)\<rparr>))"

text \<open>
  \<open>alloc\<close> is the address of the new session or a failed allocation, \<open>task\<close> whether
  \<^verbatim>\<open>hev_task_new\<close> succeeds; \<open>c\<close> is the connection the session will have.  A session that
  gets no task is freed, and its destructor aborts the stack's connection: \<open>tn_aborts\<close> counts
  these calls of \<^verbatim>\<open>tcp_abort\<close>.
\<close>

definition tcp_accept_handler ::
    "int \<Rightarrow> int \<Rightarrow> nat option \<Rightarrow> bool \<Rightarrow> ip_addr \<Rightarrow> u16 \<Rightarrow> conn \<Rightarrow> tunnel \<Rightarrow> (int \<times> tunnel) option" where
  "tcp_accept_handler max_session_count err alloc task ip port c t =
     (if err \<noteq> ERR_OK then Some (err, t)
      else if \<not> tn_run t then Some (ERR_RST, t)
      else case alloc of
          None \<Rightarrow> Some (ERR_MEM, t)
        | Some node \<Rightarrow>
            (case hev_socks5_session_tcp_construct (tn_dns t) ip port c of
               None \<Rightarrow> None
             | Some (res, s, dns') \<Rightarrow>
                 let t1 = t\<lparr>tn_dns := dns'\<rparr> in
                 if res < 0 then Some (ERR_MEM, t1)
                 else if \<not> task then Some (ERR_MEM, t1\<lparr>tn_aborts := Suc (tn_aborts t1)\<rparr>)
                 else map_option (Pair ERR_OK)
                        (start_session max_session_count node
                           \<lparr>se_kind = KTcp s, se_timeout = sk_timeout s, se_wakeups = 0\<rparr> t1)))"

text \<open>The reply that \<^verbatim>\<open>dns_recv_handler\<close> sends; the connection block is removed in every case.\<close>

definition DNS_BUF_SIZE :: nat where "DNS_BUF_SIZE = 1500"

definition dns_recv_handler :: "bytes option \<Rightarrow> bytes \<Rightarrow> tunnel \<Rightarrow> (bytes option \<times> tunnel) option" where
  "dns_recv_handler buf p t =
     (case buf of
        None \<Rightarrow> Some (None, t)
      | Some b \<Rightarrow>
          (case tn_dns t of
             None \<Rightarrow> None
           | Some d \<Rightarrow>
               (case hev_mapped_dns_handle d p b of
                  Fault \<Rightarrow> None
                | ReturnErr d' \<Rightarrow> Some (None, t\<lparr>tn_dns := Some d'\<rparr>)
                | Done (res, sb, d') \<Rightarrow>
                    Some (if res < 0 then None else Some (take (nat res) sb), t\<lparr>tn_dns := Some d'\<rparr>))))"

datatype udp_outcome = UdpRemoved | UdpToDns | UdpTaskFailed | UdpStarted

definition tunnel_udp_recv_handler ::
    "int \<Rightarrow> bytes \<Rightarrow> u16 \<Rightarrow> nat option \<Rightarrow> bool \<Rightarrow> ip_addr \<Rightarrow> u16 \<Rightarrow> tunnel \<Rightarrow> (udp_outcome \<times> tunnel) option" where
  "tunnel_udp_recv_handler max_session_count faddr fport alloc task addr port t =
     (if \<not> tn_run t then Some (UdpRemoved, t)
      else if tn_dns t \<noteq> None \<and> fport = port \<and> addr = IpV4 faddr then Some (UdpToDns, t)
      else case alloc of
          None \<Rightarrow> Some (UdpRemoved, t)
        | Some node \<Rightarrow>
            if \<not> task then Some (UdpTaskFailed, t)
            else map_option (Pair UdpStarted)
                   (start_session max_session_count node \<lparr>se_kind = KUdp, se_timeout = -1, se_wakeups = 0\<rparr> t))"

text \<open>\<open>s\<close> is what \<^verbatim>\<open>hev_tunnel_write\<close> returns, \<open>again\<close> whether \<^verbatim>\<open>errno\<close> is \<^verbatim>\<open>EAGAIN\<close> then.\<close>

definition netif_output_handler :: "int \<Rightarrow> bool \<Rightarrow> tunnel \<Rightarrow> int \<times> tunnel" where
  "netif_output_handler s again t =
     (if s \<le> 0 then (if again then ERR_WOULDBLOCK else ERR_IF, t)
      else (ERR_OK, t\<lparr>stat_rx_packets := stat_rx_packets t + 1, stat_rx_bytes := stat_rx_bytes t + word_of_int s\<rparr>))"

section \<open>Tasks\<close>

text \<open>
  The event task after its read returns: it ends the run and terminates every session of the
  set.  The walk stands for the loop over the list.
\<close>

definition event_task_body :: "nat \<Rightarrow> tunnel \<Rightarrow> tunnel option" where
  "event_task_body fuel t =
     map_option (\<lambda>ns. fold session_terminate ns (t\<lparr>tn_run := False\<rparr>))
       (hev_list_walk fuel (session_set t) (hev_list_first (session_set t)))"

text \<open>
  The input task: each element is a packet of that many bytes, or a read that gave none, and
  what the stack's callbacks do to the tunnel meanwhile.
\<close>

fun lwip_io_loop :: "(nat option \<times> (tunnel \<Rightarrow> tunnel)) list \<Rightarrow> tunnel \<Rightarrow> tunnel" where
  "lwip_io_loop [] t = t"
| "lwip_io_loop ((buf, input) # es) t =
     (if \<not> tn_run t then t
      else case buf of
          None \<Rightarrow> lwip_io_loop es (input t)
        | Some n \<Rightarrow> lwip_io_loop es (input (t\<lparr>stat_tx_packets := stat_tx_packets t + 1,
                                             stat_tx_bytes := stat_tx_bytes t + of_nat n\<rparr>)))"

text \<open>
  One turn of the timer task: the timers that run, and how the task waits after it; \<open>True\<close> is
  the sleep of one interval, \<open>False\<close> the wait for a wake-up.
\<close>

datatype lwip_timer = TCP_TMR | IP_REASS_TMR | ND6_TMR | IP6_REASS_TMR

definition lwip_timer_turn :: "u32 \<Rightarrow> tunnel \<Rightarrow> lwip_timer list \<times> bool" where
  "lwip_timer_turn i t =
     (TCP_TMR # (if i AND 3 = 0 then [IP_REASS_TMR, ND6_TMR, IP6_REASS_TMR] else []),
      hev_list_first (session_set t) \<noteq> None)"

definition hev_socks5_tunnel_stats :: "tunnel \<Rightarrow> usize \<times> usize \<times> usize \<times> usize" where
  "hev_socks5_tunnel_stats t = (stat_tx_packets t, stat_tx_bytes t, stat_rx_packets t, stat_rx_bytes t)"

section \<open>Start-up and shut-down\<close>

text \<open>
  What the system answers during start-up: results of calls as integers, pointers as booleans;
  \<open>None\<close> where the configuration has no such address.
\<close>

record init_env =
  e_nonblock :: int
  e_open :: int
  e_mtu :: int
  e_ipv4 :: "int option"
  e_ipv6 :: "int option"
  e_state :: int
  e_netif :: bool
  e_tcp_new :: bool
  e_listen :: bool
  e_udp_new :: bool
  e_pair :: int
  e_fds :: "int \<times> int"
  e_ev_nonblock :: int
  e_task_event :: bool
  e_task_io :: bool
  e_task_timer :: bool
  e_network :: u32
  e_netmask :: u32
  e_cache_size :: int

definition tunnel_init :: "init_env \<Rightarrow> int \<Rightarrow> tunnel \<Rightarrow> int \<times> tunnel" where
  "tunnel_init e extern_tun_fd t =
     (if extern_tun_fd \<ge> 0
      then (if e_nonblock e < 0 then (-1, t) else (0, t\<lparr>tun_fd := extern_tun_fd\<rparr>))
      else let t1 = t\<lparr>tun_fd_local := True, tun_fd := e_open e\<rparr> in
        (if tun_fd t1 < 0 \<or> e_mtu e < 0 then (-1, t1)
         else if (case e_ipv4 e of Some r \<Rightarrow> r < 0 | None \<Rightarrow> False) then (-1, t1)
         else if (case e_ipv6 e of Some r \<Rightarrow> r < 0 | None \<Rightarrow> False) then (-1, t1)
         else if e_state e < 0 then (-1, t1)
         else (0, t1)))"

definition tunnel_fini :: "tunnel \<Rightarrow> tunnel" where
  "tunnel_fini t =
     (if \<not> tun_fd_local t then t
      else if tun_fd t \<ge> 0
      then t\<lparr>tn_closed := tn_closed t @ [tun_fd t], tun_fd_local := False, tun_fd := -1\<rparr>
      else t)"

definition gateway_init :: "init_env \<Rightarrow> tunnel \<Rightarrow> int \<times> tunnel" where
  "gateway_init e t =
     (let t1 = t\<lparr>tn_netif := e_netif e\<rparr> in
      if \<not> tn_netif t1 then (-1, t1)
      else if \<not> e_tcp_new e then (-1, t1\<lparr>tn_tcp := False\<rparr>)
      else let t2 = t1\<lparr>tn_tcp := e_listen e, tn_udp := e_udp_new e\<rparr> in
        if \<not> tn_udp t2 then (-1, t2) else (0, t2))"

definition gateway_fini :: "tunnel \<Rightarrow> tunnel" where
  "gateway_fini t = t\<lparr>tn_udp := False, tn_tcp := False, tn_netif := False\<rparr>"

definition event_task_init :: "init_env \<Rightarrow> tunnel \<Rightarrow> int \<times> tunnel" where
  "event_task_init e t =
     (if e_pair e < 0 then (-1, t)
      else let t1 = t\<lparr>event_fds := e_fds e\<rparr> in
        if e_ev_nonblock e < 0 then (-1, t1)
        else if \<not> e_task_event e then (-1, t1\<lparr>task_event := 0\<rparr>)
        else (0, t1\<lparr>task_event := 1\<rparr>))"

definition fd_fini :: "int \<Rightarrow> tunnel \<Rightarrow> tunnel" where
  "fd_fini fd t = (if fd \<ge> 0 then t\<lparr>tn_closed := tn_closed t @ [fd]\<rparr> else t)"

text \<open>\<^verbatim>\<open>hev_task_unref\<close> drops the tunnel's reference; the pointer becomes null.\<close>

definition event_task_fini :: "tunnel \<Rightarrow> tunnel" where
  "event_task_fini t =
     (let t1 = fd_fini (fst (event_fds t)) (t\<lparr>task_event := 0\<rparr>);
          t2 = fd_fini (snd (event_fds t)) t1 in
      t2\<lparr>event_fds := (if fst (event_fds t) \<ge> 0 then -1 else fst (event_fds t),
                        if snd (event_fds t) \<ge> 0 then -1 else snd (event_fds t))\<rparr>)"

definition lwip_io_task_init :: "init_env \<Rightarrow> tunnel \<Rightarrow> int \<times> tunnel" where
  "lwip_io_task_init e t = (if e_task_io e then (0, t\<lparr>task_lwip_io := 1\<rparr>) else (-1, t\<lparr>task_lwip_io := 0\<rparr>))"

definition lwip_io_task_fini :: "tunnel \<Rightarrow> tunnel" where
  "lwip_io_task_fini t = t\<lparr>task_lwip_io := 0\<rparr>"

definition lwip_timer_task_init :: "init_env \<Rightarrow> tunnel \<Rightarrow> int \<times> tunnel" where
  "lwip_timer_task_init e t =
     (if e_task_timer e then (0, t\<lparr>task_lwip_timer := 1\<rparr>) else (-1, t\<lparr>task_lwip_timer := 0\<rparr>))"

definition lwip_timer_task_fini :: "tunnel \<Rightarrow> tunnel" where
  "lwip_timer_task_fini t = t\<lparr>task_lwip_timer := 0\<rparr>"

definition mapped_dns_init :: "init_env \<Rightarrow> tunnel \<Rightarrow> int \<times> tunnel" where
  "mapped_dns_init e t =
     (if e_cache_size e = 0 then (0, t)
      else case hev_mapped_dns_construct (e_network e) (e_netmask e) (e_cache_size e) of
          None \<Rightarrow> (-1, t)
        | Some d \<Rightarrow> (0, t\<lparr>tn_dns := Some d\<rparr>))"

definition mapped_dns_fini :: "tunnel \<Rightarrow> tunnel" where
  "mapped_dns_fini t = t\<lparr>tn_dns := None\<rparr>"

text \<open>\<^verbatim>\<open>hev_socks5_tunnel_fini\<close> behind its wait for a running \<^verbatim>\<open>stop\<close>.\<close>

definition hev_socks5_tunnel_fini :: "tunnel \<Rightarrow> tunnel" where
  "hev_socks5_tunnel_fini t =
     (let t1 = tunnel_fini (gateway_fini (event_task_fini (lwip_io_task_fini (lwip_timer_task_fini (mapped_dns_fini t))))) in
      t1\<lparr>stat_tx_packets := 0, stat_rx_packets := 0, stat_tx_bytes := 0, stat_rx_bytes := 0\<rparr>)"

text \<open>The chain of start-up calls, each of which may jump to the clean-up.\<close>

definition init_then :: "(tunnel \<Rightarrow> int \<times> tunnel) \<Rightarrow> (tunnel \<Rightarrow> int \<times> tunnel) \<Rightarrow> tunnel \<Rightarrow> int \<times> tunnel" where
  "init_then f g t = (case f t of (res, t1) \<Rightarrow> if res < 0 then (-1, hev_socks5_tunnel_fini t1) else g t1)"

definition hev_socks5_tunnel_init :: "init_env \<Rightarrow> int \<Rightarrow> tunnel \<Rightarrow> int \<times> tunnel" where
  "hev_socks5_tunnel_init e fd =
     init_then (tunnel_init e fd) (init_then (gateway_init e) (init_then (event_task_init e)
       (init_then (lwip_io_task_init e) (init_then (lwip_timer_task_init e) (init_then (mapped_dns_init e) (Pair 0))))))"

section \<open>The set of sessions\<close>

text \<open>The tunnel has the sessions \<open>xs\<close>, the one whose last activity is oldest first.\<close>

definition tun_ok :: "tunnel \<Rightarrow> nat list \<Rightarrow> bool" where
  "tun_ok t xs \<longleftrightarrow> dll (session_set t) xs \<and> session_count t = int (length xs)
     \<and> (\<forall>n. tn_sess t n \<noteq> None \<longleftrightarrow> n \<in> set xs)"

text \<open>A session that was told to end: its timeout is zero.\<close>

definition ending :: "tunnel \<Rightarrow> nat \<Rightarrow> bool" where
  "ending t n \<longleftrightarrow> (case tn_sess t n of Some s \<Rightarrow> se_timeout s = 0 | None \<Rightarrow> False)"

lemma ending_terminate: "ending (session_terminate n t) m \<longleftrightarrow> ending t m \<or> (m = n \<and> tn_sess t n \<noteq> None)"
  by (auto simp: ending_def session_terminate_def split: option.splits)

lemma terminate_simps [simp]:
  "session_set (session_terminate n t) = session_set t" "session_count (session_terminate n t) = session_count t"
  "tn_run (session_terminate n t) = tn_run t" "tn_dns (session_terminate n t) = tn_dns t"
  "(tn_sess (session_terminate n t) m = None) = (tn_sess t m = None)"
  by (simp_all add: session_terminate_def)

lemma tun_ok_terminate: "tun_ok (session_terminate n t) xs = tun_ok t xs"
  by (simp add: tun_ok_def)

lemma start_session_ok:
  assumes "tun_ok t xs" "tn_sess t n = None" "se_timeout se \<noteq> 0"
  obtains t' where "start_session m n se t = Some t'" "tun_ok t' (xs @ [n])"
    "tn_tasks t' = tn_tasks t @ [n]" "tn_run t' = tn_run t" "tn_dns t' = tn_dns t"
    "\<And>k. ending t' k \<longleftrightarrow> ending t k \<or> (m \<noteq> 0 \<and> int (length xs) + 1 \<ge> m \<and> k = hd (xs @ [n]))"
    "\<exists>w. tn_sess t' n = Some (if m \<noteq> 0 \<and> int (length xs) + 1 \<ge> m \<and> xs = [] then se\<lparr>se_timeout := 0, se_wakeups := w\<rparr> else se)"
proof -
  let ?t1 = "t\<lparr>tn_sess := (tn_sess t)(n \<mapsto> se), session_set := hev_list_add_tail (session_set t) n,
    session_count := session_count t + 1\<rparr>"
  have d: "dll (session_set t) xs" "n \<notin> set xs" using assms(1,2) unfolding tun_ok_def by blast+
  note l = hl.holds_add_tail [OF d]
  have ok1: "tun_ok ?t1 (xs @ [n])" using assms(1) l by (auto simp: tun_ok_def)
  have f: "hev_list_first (hev_list_add_tail (session_set t) n) = Some (hd (xs @ [n]))"
    using hl.holds_first [OF l] by (cases xs) auto
  have e1: "ending ?t1 k \<longleftrightarrow> ending t k" for k using assms(2,3) by (auto simp: ending_def split: option.splits)
  have c: "session_count t = int (length xs)" using assms(1) by (simp add: tun_ok_def)
  show ?thesis
  proof (cases "m \<noteq> 0 \<and> int (length xs) + 1 \<ge> m")
    case False
    let ?t' = "?t1\<lparr>tn_tasks := tn_tasks t @ [n], timer_wakeups := Suc (timer_wakeups t)\<rparr>"
    show ?thesis
    proof (rule that [of ?t'])
      show "start_session m n se t = Some ?t'"
        using False c by (auto simp: start_session_def hev_socks5_tunnel_insert_session_def Let_def)
      show "tun_ok ?t' (xs @ [n])" using ok1 by (simp add: tun_ok_def)
      have "ending ?t' k \<longleftrightarrow> ending ?t1 k" for k by (simp add: ending_def)
      then show "ending ?t' k \<longleftrightarrow> ending t k \<or> (m \<noteq> 0 \<and> int (length xs) + 1 \<ge> m \<and> k = hd (xs @ [n]))" for k
        using False e1 by blast
    qed (use False in auto)
  next
    case True
    let ?t2 = "session_terminate (hd (xs @ [n])) ?t1"
    have live: "tn_sess ?t1 (hd (xs @ [n])) \<noteq> None" using ok1 by (cases xs) (auto simp: tun_ok_def)
    let ?t' = "?t2\<lparr>tn_tasks := tn_tasks t @ [n], timer_wakeups := Suc (timer_wakeups t)\<rparr>"
    show ?thesis
    proof (rule that [of ?t'])
      show "start_session m n se t = Some ?t'"
        using True c f
        by (auto simp: start_session_def hev_socks5_tunnel_insert_session_def session_terminate_def Let_def)
      show "tun_ok ?t' (xs @ [n])" using ok1 by (simp add: tun_ok_def)
      have "ending ?t' k \<longleftrightarrow> ending ?t2 k" for k by (simp add: ending_def)
      then show "ending ?t' k \<longleftrightarrow> ending t k \<or> (m \<noteq> 0 \<and> int (length xs) + 1 \<ge> m \<and> k = hd (xs @ [n]))" for k
        using True e1 live ending_terminate [of "hd (xs @ [n])" ?t1] by blast
      show "\<exists>w. tn_sess ?t' n = Some (if m \<noteq> 0 \<and> int (length xs) + 1 \<ge> m \<and> xs = []
          then se\<lparr>se_timeout := 0, se_wakeups := w\<rparr> else se)"
        using d(2) True by (cases xs) (auto simp: session_terminate_def)
    qed simp_all
  qed
qed

lemma delete_ok:
  assumes "tun_ok t xs" "n \<in> set xs"
  shows "tun_ok (session_task_end n t) (remove1 n xs)"
proof -
  have d: "dll (session_set t) xs" using assms(1) by (simp add: tun_ok_def)
  have "0 < length xs" using assms(2) by (cases xs) auto
  then have "int (length (remove1 n xs)) = int (length xs) - 1" using assms(2) by (simp add: length_remove1 of_nat_diff Suc_leI)
  then show ?thesis
    using assms hl.holds_del [OF d assms(2)] hl.holds_distinct [OF d]
    by (auto simp: tun_ok_def session_task_end_def hev_socks5_tunnel_delete_session_def Let_def simp del: length_remove1)
qed

lemma update_ok:
  assumes "tun_ok t xs" "n \<in> set xs"
  shows "tun_ok (hev_socks5_tunnel_update_session m n t) (if m = 0 then xs else remove1 n xs @ [n])"
proof -
  have d: "dll (session_set t) xs" using assms(1) by (simp add: tun_ok_def)
  show ?thesis
    using assms(1) hl.holds_touch [OF d assms(2)] hl.touch_set [OF d assms(2)]
    unfolding tun_ok_def hev_socks5_tunnel_update_session_def by (simp del: set_append length_append)
qed

lemma ending_fold: "ending (fold session_terminate ns t) m \<longleftrightarrow> ending t m \<or> (m \<in> set ns \<and> tn_sess t m \<noteq> None)"
  by (induction ns arbitrary: t) (auto simp: ending_terminate simp del: not_None_eq)

lemma tun_ok_fold: "tun_ok (fold session_terminate ns t) xs = tun_ok t xs"
  by (induction ns arbitrary: t) (auto simp: tun_ok_terminate)

lemma run_fold: "tn_run (fold session_terminate ns t) = tn_run t"
  by (induction ns arbitrary: t) auto

lemma event_task_ends_all:
  assumes "tun_ok t xs" "length xs \<le> fuel"
  obtains t' where "event_task_body fuel t = Some t'" "\<not> tn_run t'" "tun_ok t' xs" "\<And>n. n \<in> set xs \<Longrightarrow> ending t' n"
proof -
  have d: "dll (session_set t) xs" using assms(1) by (simp add: tun_ok_def)
  let ?t = "fold session_terminate xs (t\<lparr>tn_run := False\<rparr>)"
  have "event_task_body fuel t = Some ?t"
    using hl.holds_walk [OF d assms(2)] by (simp add: event_task_body_def)
  moreover have "tun_ok ?t xs" using assms(1) by (simp add: tun_ok_fold) (simp add: tun_ok_def)
  moreover have "n \<in> set xs \<Longrightarrow> ending ?t n" for n using assms(1) by (simp add: ending_fold tun_ok_def)
  ultimately show ?thesis by (intro that) (simp_all add: run_fold)
qed

section \<open>Start-up and shut-down release what they took\<close>

definition down :: "tunnel \<Rightarrow> bool" where
  "down t \<longleftrightarrow> \<not> tn_netif t \<and> \<not> tn_tcp t \<and> \<not> tn_udp t \<and> task_event t = 0 \<and> task_lwip_io t = 0
     \<and> task_lwip_timer t = 0 \<and> event_fds t = (-1, -1) \<and> tn_dns t = None"

text \<open>The descriptors that \<^verbatim>\<open>fini\<close> closes: the event pair and a device the tunnel opened itself.\<close>

definition owned :: "tunnel \<Rightarrow> int list" where
  "owned t = filter (\<lambda>f. f \<ge> 0) [fst (event_fds t), snd (event_fds t)]
     @ (if tun_fd_local t \<and> tun_fd t \<ge> 0 then [tun_fd t] else [])"

definition fds_ok :: "tunnel \<Rightarrow> bool" where
  "fds_ok t \<longleftrightarrow> fst (event_fds t) \<ge> -1 \<and> snd (event_fds t) \<ge> -1"

lemmas fini_defs = hev_socks5_tunnel_fini_def tunnel_fini_def gateway_fini_def event_task_fini_def fd_fini_def
  lwip_io_task_fini_def lwip_timer_task_fini_def mapped_dns_fini_def

lemma fini_down: "fds_ok t \<Longrightarrow> down (hev_socks5_tunnel_fini t)"
  by (cases "event_fds t") (auto simp: fini_defs down_def fds_ok_def Let_def)

lemma fini_closed: "tn_closed (hev_socks5_tunnel_fini t) = tn_closed t @ owned t"
  by (auto simp: fini_defs owned_def Let_def)

lemma fini_local:
  "tun_fd_local (hev_socks5_tunnel_fini t) \<longleftrightarrow> tun_fd_local t \<and> tun_fd t < 0"
  "tun_fd (hev_socks5_tunnel_fini t) = (if tun_fd_local t \<and> tun_fd t \<ge> 0 then -1 else tun_fd t)"
  by (auto simp: fini_defs Let_def)

text \<open>The stages keep what concerns the device and close nothing.\<close>

definition stage_keeps :: "(tunnel \<Rightarrow> int \<times> tunnel) \<Rightarrow> bool" where
  "stage_keeps f \<longleftrightarrow> (\<forall>t. tn_closed (snd (f t)) = tn_closed t \<and> tun_fd (snd (f t)) = tun_fd t
     \<and> tun_fd_local (snd (f t)) = tun_fd_local t)"

lemma stages_keep:
  "stage_keeps (gateway_init e)" "stage_keeps (event_task_init e)" "stage_keeps (lwip_io_task_init e)"
  "stage_keeps (lwip_timer_task_init e)" "stage_keeps (mapped_dns_init e)" "stage_keeps (Pair 0)"
  by (auto simp: stage_keeps_def gateway_init_def event_task_init_def lwip_io_task_init_def
      lwip_timer_task_init_def mapped_dns_init_def Let_def split: option.splits)

text \<open>
  Whether start-up gets as far as a pair of event descriptors: the device is ready, the interface
  and its listeners are there, and the system gives out the pair.
\<close>

definition device_ready :: "init_env \<Rightarrow> int \<Rightarrow> bool" where
  "device_ready e fd \<longleftrightarrow> (if fd \<ge> 0 then e_nonblock e \<ge> 0
     else e_open e \<ge> 0 \<and> e_mtu e \<ge> 0 \<and> e_ipv4 e \<notin> Some ` {..<0} \<and> e_ipv6 e \<notin> Some ` {..<0} \<and> e_state e \<ge> 0)"

definition pair_opened :: "init_env \<Rightarrow> int \<Rightarrow> bool" where
  "pair_opened e fd \<longleftrightarrow> device_ready e fd \<and> e_netif e \<and> e_tcp_new e \<and> e_udp_new e \<and> e_pair e \<ge> 0"

lemma tunnel_init_ready: "fst (tunnel_init e fd t) < 0 \<longleftrightarrow> \<not> device_ready e fd"
  by (auto simp: tunnel_init_def device_ready_def Let_def split: option.splits)

lemma gateway_init_fds: "event_fds (snd (gateway_init e t)) = event_fds t"
  "fst (gateway_init e t) < 0 \<longleftrightarrow> \<not> (e_netif e \<and> e_tcp_new e \<and> e_udp_new e)"
  by (auto simp: gateway_init_def Let_def)

lemma event_init_fds: "event_fds (snd (event_task_init e t)) = (if e_pair e \<ge> 0 then e_fds e else event_fds t)"
  "e_pair e < 0 \<Longrightarrow> fst (event_task_init e t) < 0"
  by (auto simp: event_task_init_def Let_def)

lemma later_fds:
  "event_fds (snd (lwip_io_task_init e t)) = event_fds t" "event_fds (snd (lwip_timer_task_init e t)) = event_fds t"
  "event_fds (snd (mapped_dns_init e t)) = event_fds t"
  by (auto simp: lwip_io_task_init_def lwip_timer_task_init_def mapped_dns_init_def Let_def split: option.splits)

text \<open>
  A failed chain: the state before the clean-up, from which the clean-up starts; \<open>F\<close> are the
  event descriptors it finds.
\<close>

definition failed_at :: "int \<times> int \<Rightarrow> tunnel \<Rightarrow> tunnel \<Rightarrow> bool" where
  "failed_at F t0 t' \<longleftrightarrow> (\<exists>t1. t' = hev_socks5_tunnel_fini t1 \<and> tn_closed t1 = tn_closed t0 \<and> tun_fd t1 = tun_fd t0
     \<and> tun_fd_local t1 = tun_fd_local t0 \<and> event_fds t1 = F)"

definition chain_ok :: "(int \<times> int \<Rightarrow> int \<times> int) \<Rightarrow> (tunnel \<Rightarrow> int \<times> tunnel) \<Rightarrow> bool" where
  "chain_ok F g \<longleftrightarrow> (\<forall>t res t'. g t = (res, t') \<longrightarrow> res < 0 \<longrightarrow> failed_at (F (event_fds t)) t t')"

lemma init_then_chain:
  assumes "stage_keeps f" "chain_ok G g"
    and "\<And>t. fst (f t) < 0 \<Longrightarrow> event_fds (snd (f t)) = F (event_fds t)"
    and "\<And>t. 0 \<le> fst (f t) \<Longrightarrow> G (event_fds (snd (f t))) = F (event_fds t)"
  shows "chain_ok F (init_then f g)"
  unfolding chain_ok_def
proof (intro allI impI)
  fix t res t'
  assume r: "init_then f g t = (res, t')" "res < 0"
  obtain res1 t1 where f: "f t = (res1, t1)" by fastforce
  have k: "tn_closed t1 = tn_closed t" "tun_fd t1 = tun_fd t" "tun_fd_local t1 = tun_fd_local t"
    using assms(1) f unfolding stage_keeps_def by (metis snd_conv)+
  show "failed_at (F (event_fds t)) t t'"
  proof (cases "res1 < 0")
    case True
    with r f k assms(3) [of t] show ?thesis by (auto simp: init_then_def failed_at_def)
  next
    case False
    then have "failed_at (G (event_fds t1)) t1 t'" using r f assms(2) by (auto simp: init_then_def chain_ok_def)
    with k f False assms(4) [of t] show ?thesis by (auto simp: failed_at_def)
  qed
qed

lemma init_failed:
  assumes "hev_socks5_tunnel_init e fd t = (res, t')" "res < 0"
  shows "failed_at (if pair_opened e fd then e_fds e else event_fds (snd (tunnel_init e fd t))) (snd (tunnel_init e fd t)) t'"
proof -
  let ?h = "init_then (lwip_io_task_init e) (init_then (lwip_timer_task_init e) (init_then (mapped_dns_init e) (Pair 0)))"
  let ?F = "\<lambda>F. if e_pair e \<ge> 0 then e_fds e else F"
  let ?G = "\<lambda>F. if e_netif e \<and> e_tcp_new e \<and> e_udp_new e \<and> e_pair e \<ge> 0 then e_fds e else F"
  have "chain_ok (\<lambda>F. F) (Pair 0)" by (simp add: chain_ok_def)
  then have "chain_ok (\<lambda>F. F) ?h" by (intro init_then_chain [where G = "\<lambda>F. F"] stages_keep) (simp_all add: later_fds)
  then have "chain_ok ?F (init_then (event_task_init e) ?h)"
    by (rule init_then_chain [OF stages_keep(2)]) (simp_all add: event_init_fds)
  then have c: "chain_ok ?G (init_then (gateway_init e) (init_then (event_task_init e) ?h))"
    by (rule init_then_chain [OF stages_keep(1)]) (auto simp: gateway_init_fds not_less [symmetric])
  obtain res1 t1 where t1: "tunnel_init e fd t = (res1, t1)" by fastforce
  show ?thesis
  proof (cases "res1 < 0")
    case True
    with assms t1 have "t' = hev_socks5_tunnel_fini t1" by (simp add: hev_socks5_tunnel_init_def init_then_def)
    moreover have "\<not> pair_opened e fd" using tunnel_init_ready [of e fd t] t1 True by (simp add: pair_opened_def)
    ultimately show ?thesis using t1 by (auto simp: failed_at_def)
  next
    case False
    then have "device_ready e fd" using tunnel_init_ready [of e fd t] t1 by simp
    then have "?G (event_fds t1) = (if pair_opened e fd then e_fds e else event_fds t1)" by (simp add: pair_opened_def)
    moreover have "failed_at (?G (event_fds t1)) t1 t'"
      using assms t1 c False by (auto simp: hev_socks5_tunnel_init_def init_then_def [of "tunnel_init e fd"] chain_ok_def)
    ultimately show ?thesis unfolding t1 snd_conv by metis
  qed
qed

lemma tunnel_init_state:
  "tn_closed (snd (tunnel_init e fd t)) = tn_closed t" "event_fds (snd (tunnel_init e fd t)) = event_fds t"
  "tun_fd_local (snd (tunnel_init e fd t)) \<longleftrightarrow> tun_fd_local t \<or> fd < 0"
  "fd < 0 \<Longrightarrow> tun_fd (snd (tunnel_init e fd t)) = e_open e"
  "fd \<ge> 0 \<Longrightarrow> tun_fd (snd (tunnel_init e fd t)) = (if e_nonblock e < 0 then tun_fd t else fd)"
  by (auto simp: tunnel_init_def Let_def)

lemma init_failed_releases:
  assumes "down t" "\<not> tun_fd_local t" "0 \<le> fst (e_fds e)" "0 \<le> snd (e_fds e)"
    and "hev_socks5_tunnel_init e fd t = (res, t')" "res < 0"
  shows "down t'"
    and "tn_closed t' = tn_closed t @ (if pair_opened e fd then [fst (e_fds e), snd (e_fds e)] else [])
           @ (if fd < 0 \<and> e_open e \<ge> 0 then [e_open e] else [])"
    and "tun_fd_local t' \<longleftrightarrow> fd < 0 \<and> e_open e < 0"
proof -
  obtain t1 where t1: "t' = hev_socks5_tunnel_fini t1" "tn_closed t1 = tn_closed t"
    "tun_fd t1 = tun_fd (snd (tunnel_init e fd t))" "tun_fd_local t1 \<longleftrightarrow> fd < 0"
    "event_fds t1 = (if pair_opened e fd then e_fds e else (-1, -1))"
    using init_failed [OF assms(5,6)] assms(1,2) tunnel_init_state(1-3) [of e fd t] by (auto simp: failed_at_def down_def)
  show "down t'" unfolding t1(1) using t1(5) assms(3,4) by (intro fini_down) (auto simp: fds_ok_def)
  have "(if tun_fd_local t1 \<and> tun_fd t1 \<ge> 0 then [tun_fd t1] else [])
      = (if fd < 0 \<and> e_open e \<ge> 0 then [e_open e] else [])"
    using t1(3,4) tunnel_init_state(4) [of fd e t] by auto
  then show "tn_closed t' = tn_closed t @ (if pair_opened e fd then [fst (e_fds e), snd (e_fds e)] else [])
           @ (if fd < 0 \<and> e_open e \<ge> 0 then [e_open e] else [])"
    unfolding t1(1) fini_closed t1(2) owned_def using t1(5) assms(3,4) by simp
  show "tun_fd_local t' \<longleftrightarrow> fd < 0 \<and> e_open e < 0"
    unfolding t1(1) fini_local using t1(3,4) tunnel_init_state(4) [of fd e t] by auto
qed

section \<open>From a name to a connection\<close>

text \<open>A map whose addresses are the \<open>k\<close> low bits under the network.\<close>

definition map_layout :: "nat \<Rightarrow> dns \<Rightarrow> bool" where
  "map_layout k d \<longleftrightarrow> k < 32 \<and> d_mask d = NOT (mask k) \<and> d_net d AND mask k = 0 \<and> d_max d \<le> 2 ^ k"

lemma accept_mapped:
  assumes "dns_repr d as" "0 < d_max d" "map_layout k d" "hev_mapped_dns_find d name = Some (i, d')"
    and "length name < 256"
  shows "\<exists>s d''. hev_socks5_session_tcp_construct (Some d') (IpV4 (be32 (d_net d' OR word_of_int i))) port c
      = Some (0, s, Some d'') \<and> c_addr s = Some (enc_dest (DstName name port)) \<and> sk_timeout s = -1"
proof -
  obtain as' a where f: "dns_repr d' (as' @ [a])" "0 \<le> i" "i < d_max d'" "d_net d' = d_net d" "d_max d' = d_max d"
    by (rule find_last [OF assms(1,2,4)])
  let ?ip = "d_net d' OR word_of_int i"
  have "sint (?ip AND NOT (d_mask d)) = i"
    using assms(3) f(2-5) net_index [of k "d_net d" i] by (auto simp: map_layout_def)
  then obtain d'' where l: "hev_mapped_dns_lookup d' ?ip = Some (Some name, d'')"
    using find_then_lookup [OF assms(1,2,4)] by blast
  have b: "rd_be32 (be32 ?ip ! 0) (be32 ?ip ! 1) (be32 ?ip ! 2) (be32 ?ip ! 3) = ?ip"
    by (rule rd_be32_nth)
  have "hev_socks5_addr_len (enc_dest (DstName name port)) = Some (int (length (enc_dest (DstName name port))))"
    using assms(5) by (simp add: hev_socks5_addr_len_def unat_of_nat_u8)
  then show ?thesis
    using l from_name_enc [OF assms(5), of port]
    by (simp add: hev_socks5_session_tcp_construct_def hev_socks5_addr_from_lwip_def b [unfolded One_nat_def]
        hev_socks5_client_tcp_construct_def hev_socks5_client_construct_def hev_socks5_construct_def hev_socks5.defs Let_def
        del: enc_dest.simps)
qed

section \<open>Properties of the tunnel\<close>

text \<open>
  The life of sessions: one starts, shows activity, or ends; and the same on the list of
  sessions, oldest activity first, with the set of those told to end.
\<close>

datatype tun_op = SessStart nat session | SessTouch nat | SessEnd nat

fun tun_do :: "int \<Rightarrow> tun_op \<Rightarrow> tunnel \<Rightarrow> tunnel option" where
  "tun_do m (SessStart n se) t = start_session m n se t"
| "tun_do m (SessTouch n) t = Some (hev_socks5_tunnel_update_session m n t)"
| "tun_do m (SessEnd n) t = Some (session_task_end n t)"

fun tun_run :: "int \<Rightarrow> tun_op list \<Rightarrow> tunnel \<Rightarrow> tunnel option" where
  "tun_run m [] t = Some t"
| "tun_run m (p # ps) t = Option.bind (tun_do m p t) (tun_run m ps)"

fun sess_do :: "int \<Rightarrow> tun_op \<Rightarrow> nat list \<times> nat set \<Rightarrow> nat list \<times> nat set" where
  "sess_do m (SessStart n se) (xs, E) =
     (xs @ [n], if m \<noteq> 0 \<and> int (length xs) + 1 \<ge> m then insert (hd (xs @ [n])) E else E)"
| "sess_do m (SessTouch n) (xs, E) = (if m = 0 then xs else remove1 n xs @ [n], E)"
| "sess_do m (SessEnd n) (xs, E) = (remove1 n xs, E - {n})"

fun sess_op_ok :: "tun_op \<Rightarrow> nat list \<Rightarrow> bool" where
  "sess_op_ok (SessStart n se) xs = (n \<notin> set xs \<and> se_timeout se \<noteq> 0)"
| "sess_op_ok (SessTouch n) xs = (n \<in> set xs)"
| "sess_op_ok (SessEnd n) xs = (n \<in> set xs)"

fun sess_ops_ok :: "int \<Rightarrow> tun_op list \<Rightarrow> nat list \<times> nat set \<Rightarrow> bool" where
  "sess_ops_ok m [] x = True"
| "sess_ops_ok m (p # ps) x = (sess_op_ok p (fst x) \<and> sess_ops_ok m ps (sess_do m p x))"

definition sessions_are :: "tunnel \<Rightarrow> nat list \<times> nat set \<Rightarrow> bool" where
  "sessions_are t x \<longleftrightarrow> tun_ok t (fst x) \<and> {n. ending t n} = snd x"

lemma tun_do_refines:
  assumes "sessions_are t (xs, E)" "sess_op_ok p xs"
  shows "\<exists>t'. tun_do m p t = Some t' \<and> sessions_are t' (sess_do m p (xs, E))"
proof (cases p)
  case (SessStart n se)
  have t: "tun_ok t xs" "{k. ending t k} = E" using assms(1) by (simp_all add: sessions_are_def)
  have "tn_sess t n = None" "se_timeout se \<noteq> 0"
    using t(1) assms(2) SessStart unfolding tun_ok_def by auto
  then obtain t' where t': "start_session m n se t = Some t'" "tun_ok t' (xs @ [n])"
    "\<And>k. ending t' k \<longleftrightarrow> ending t k \<or> (m \<noteq> 0 \<and> int (length xs) + 1 \<ge> m \<and> k = hd (xs @ [n]))"
    using start_session_ok [OF t(1)] by metis
  then show ?thesis using t(2) SessStart by (auto simp: sessions_are_def simp del: hd_append2)
next
  case (SessTouch n)
  have "ending (hev_socks5_tunnel_update_session m n t) k \<longleftrightarrow> ending t k" for k
    by (simp add: ending_def hev_socks5_tunnel_update_session_def)
  with assms update_ok [of t xs n m] SessTouch show ?thesis by (auto simp: sessions_are_def)
next
  case (SessEnd n)
  have "ending (session_task_end n t) k \<longleftrightarrow> ending t k \<and> k \<noteq> n" for k
    by (simp add: ending_def session_task_end_def hev_socks5_tunnel_delete_session_def Let_def)
  with assms delete_ok [of t xs n] SessEnd show ?thesis by (auto simp: sessions_are_def)
qed

text \<open>
  C36: The tunnel keeps its sessions by last activity.  Over any sequence of sessions that start, show
  activity and end, the linked set holds exactly the live sessions, least recently active first,
  and their count; and when a start finds the limit reached, the least recently active session is
  told to end, and no other.  Without a limit (a limit of 0, the default) no session is told to end
  and activity is not recorded: the set then stays in the order in which its sessions started.
\<close>

theorem tunnel_sessions_lru:
  assumes "sess_ops_ok m ps x" "sessions_are t x"
  shows "\<exists>t'. tun_run m ps t = Some t' \<and> sessions_are t' (fold (sess_do m) ps x)"
  using assms
proof (induction ps arbitrary: t x)
  case (Cons p ps)
  obtain t1 where "tun_do m p t = Some t1" "sessions_are t1 (sess_do m p x)"
    using tun_do_refines [of t "fst x" "snd x" p m] Cons.prems by auto
  with Cons.IH [of "sess_do m p x" t1] Cons.prems(1) show ?case by simp
qed simp

text \<open>A tunnel before it is started; the values that the file's static variables have.\<close>

definition tunnel_static :: tunnel where
  "tunnel_static = \<lparr>tn_run = False, tun_fd = -1, tun_fd_local = False, session_count = 0, event_fds = (-1, -1),
     stat_tx_packets = 0, stat_rx_packets = 0, stat_tx_bytes = 0, stat_rx_bytes = 0, tn_netif = False, tn_tcp = False,
     tn_udp = False, task_event = 0, task_lwip_io = 0, task_lwip_timer = 0,
     session_set = hev_list_empty (\<lambda>_. \<lparr>nxt = None, prv = None\<rparr>), tn_dns = None, tn_sess = Map.empty, tn_tasks = [],
     timer_wakeups = 0, tn_closed = [], tn_aborts = 0\<rparr>"

lemma static_ok: "tun_ok tunnel_static []" "\<not> ending tunnel_static n" "down tunnel_static" "\<not> tun_fd_local tunnel_static"
  by (simp_all add: tun_ok_def ending_def down_def tunnel_static_def)

definition ex_session :: session where
  "ex_session = \<lparr>se_kind = KUdp, se_timeout = -1, se_wakeups = 0\<rparr>"

theorem tunnel_sessions_lru_witness:
  "\<exists>t'. tun_run 3 [SessStart 1 ex_session, SessStart 2 ex_session, SessTouch 1, SessStart 3 ex_session, SessEnd 2] tunnel_static
     = Some t' \<and> tun_ok t' [1, 3] \<and> {n. ending t' n} = {}"
  using tunnel_sessions_lru [of 3 "[SessStart 1 ex_session, SessStart 2 ex_session, SessTouch 1, SessStart 3 ex_session,
      SessEnd 2]" "([], {})" tunnel_static] static_ok
  by (simp add: sessions_are_def ex_session_def)

text \<open>
  When the stop event arrives, the event task ends the run and tells every session of the set to
  end; from then on the tunnel accepts no session, neither for a connection nor for a datagram.
\<close>

theorem event_task_stops_all:
  assumes "tun_ok t xs" "length xs \<le> fuel"
  shows "\<exists>t'. event_task_body fuel t = Some t' \<and> tun_ok t' xs \<and> (\<forall>n\<in>set xs. ending t' n)
     \<and> tcp_accept_handler m ERR_OK alloc task ip port c t' = Some (ERR_RST, t')
     \<and> tunnel_udp_recv_handler m fa fp alloc task ip port t' = Some (UdpRemoved, t')"
proof -
  obtain t' where "event_task_body fuel t = Some t'" "\<not> tn_run t'" "tun_ok t' xs" "\<And>n. n \<in> set xs \<Longrightarrow> ending t' n"
    by (rule event_task_ends_all [OF assms]) blast
  then show ?thesis by (intro exI [of _ t']) (simp add: tcp_accept_handler_def tunnel_udp_recv_handler_def)
qed

theorem event_task_stops_all_witness:
  "\<exists>t t'. tun_run 0 [SessStart 1 ex_session, SessStart 2 ex_session] (tunnel_static\<lparr>tn_run := True\<rparr>) = Some t
     \<and> event_task_body 2 t = Some t' \<and> ending t' 1 \<and> ending t' 2"
proof -
  have "sessions_are (tunnel_static\<lparr>tn_run := True\<rparr>) ([], {})"
    using static_ok(1,2) by (simp add: sessions_are_def tun_ok_def ending_def)
  then obtain t1 where 1: "start_session 0 1 ex_session (tunnel_static\<lparr>tn_run := True\<rparr>) = Some t1" "sessions_are t1 ([1], {})"
    using tun_do_refines [of _ "[]" "{}" "SessStart 1 ex_session" 0] by (auto simp: ex_session_def)
  then obtain t where 2: "start_session 0 2 ex_session t1 = Some t" "sessions_are t ([1, 2], {})"
    using tun_do_refines [of t1 "[1]" "{}" "SessStart 2 ex_session" 0] by (auto simp: ex_session_def)
  then have "tun_ok t [1, 2]" by (simp add: sessions_are_def)
  from event_task_stops_all [OF this, of 2] 1(1) 2(1) show ?thesis by fastforce
qed

text \<open>
  C37: A start-up that fails at any stage gives back what it took: the interface, the listeners, the
  tasks and the map are gone again, and exactly the descriptors that were opened are closed, each
  once: the pair of event descriptors if start-up got as far as the pair, and the device if the
  tunnel opened it itself; a device that was passed in stays open.
\<close>

theorem init_failure_releases:
  assumes "down t" "\<not> tun_fd_local t" "0 \<le> fst (e_fds e)" "0 \<le> snd (e_fds e)"
    and "hev_socks5_tunnel_init e fd t = (res, t')" "res < 0"
  shows "down t' \<and> tn_closed t' = tn_closed t @ (if pair_opened e fd then [fst (e_fds e), snd (e_fds e)] else [])
           @ (if fd < 0 \<and> e_open e \<ge> 0 then [e_open e] else [])"
  using init_failed_releases(1,2) [OF assms] by blast

definition ex_init :: init_env where
  "ex_init = \<lparr>e_nonblock = 0, e_open = 7, e_mtu = 0, e_ipv4 = None, e_ipv6 = None, e_state = 0, e_netif = True,
     e_tcp_new = True, e_listen = True, e_udp_new = True, e_pair = 0, e_fds = (8, 9), e_ev_nonblock = 0,
     e_task_event = True, e_task_io = True, e_task_timer = False, e_network = 0, e_netmask = 0, e_cache_size = 0\<rparr>"

lemmas init_evals = hev_socks5_tunnel_init_def init_then_def tunnel_init_def gateway_init_def event_task_init_def
  lwip_io_task_init_def lwip_timer_task_init_def mapped_dns_init_def Let_def ex_init_def

theorem init_failure_releases_witness:
  "let r = hev_socks5_tunnel_init ex_init (-1) tunnel_static in fst r < 0 \<and> down (snd r) \<and> tn_closed (snd r) = [8, 9, 7]"
proof -
  obtain res t' where r: "hev_socks5_tunnel_init ex_init (-1) tunnel_static = (res, t')" by fastforce
  then have "res < 0" by (auto simp: init_evals)
  moreover have "tn_closed tunnel_static = []" by (simp add: tunnel_static_def)
  ultimately show ?thesis
    using init_failure_releases [OF static_ok(3,4) _ _ r] r by (auto simp: ex_init_def pair_opened_def device_ready_def)
qed

text \<open>A start-up that succeeds keeps the device of its first stage.\<close>

definition chain_device :: "(tunnel \<Rightarrow> int \<times> tunnel) \<Rightarrow> bool" where
  "chain_device g \<longleftrightarrow> (\<forall>t t'. g t = (0, t') \<longrightarrow> tun_fd t' = tun_fd t \<and> tun_fd_local t' = tun_fd_local t)"

lemma init_then_device:
  assumes "stage_keeps f" "chain_device g"
  shows "chain_device (init_then f g)"
  unfolding chain_device_def
proof (intro allI impI)
  fix t t' assume "init_then f g t = (0, t')"
  then have "g (snd (f t)) = (0, t')" by (auto simp: init_then_def split: prod.splits if_splits)
  with assms(2) have "tun_fd t' = tun_fd (snd (f t)) \<and> tun_fd_local t' = tun_fd_local (snd (f t))"
    unfolding chain_device_def by blast
  with assms(1) show "tun_fd t' = tun_fd t \<and> tun_fd_local t' = tun_fd_local t" by (simp add: stage_keeps_def)
qed

lemma init_succeeded:
  assumes "hev_socks5_tunnel_init e fd t = (0, t')"
  shows "\<not> fst (tunnel_init e fd t) < 0" "tun_fd t' = tun_fd (snd (tunnel_init e fd t))"
    "tun_fd_local t' = tun_fd_local (snd (tunnel_init e fd t))"
proof -
  let ?g = "init_then (gateway_init e) (init_then (event_task_init e) (init_then (lwip_io_task_init e)
      (init_then (lwip_timer_task_init e) (init_then (mapped_dns_init e) (Pair 0)))))"
  have "chain_device (Pair 0)" by (simp add: chain_device_def)
  then have c: "chain_device ?g" by (intro init_then_device stages_keep)
  have g: "?g (snd (tunnel_init e fd t)) = (0, t')" and n: "\<not> fst (tunnel_init e fd t) < 0"
    using assms by (auto simp: hev_socks5_tunnel_init_def init_then_def [of "tunnel_init e fd"] split: prod.splits if_splits)
  show "\<not> fst (tunnel_init e fd t) < 0" by fact
  show "tun_fd t' = tun_fd (snd (tunnel_init e fd t))" "tun_fd_local t' = tun_fd_local (snd (tunnel_init e fd t))"
    using c g unfolding chain_device_def by blast+
qed

text \<open>
  A device that cannot be opened leaves a trace: the flag that the tunnel owns its device stays
  set, and a later run on a descriptor that the caller passed in closes that descriptor at its
  end, although it belongs to the caller.
\<close>

theorem failed_open_later_closes_foreign:
  assumes "hev_socks5_tunnel_init e1 (-1) t = (res1, t1)" "e_open e1 < 0"
    and "hev_socks5_tunnel_init e2 fd t1 = (0, t2)" "0 \<le> fd"
  shows "fd \<in> set (tn_closed (hev_socks5_tunnel_fini t2))"
proof -
  have "tun_fd_local t1" using assms(1,2) by (auto simp: hev_socks5_tunnel_init_def init_then_def tunnel_init_def
        fini_local Let_def)
  moreover have "tun_fd_local t2 = tun_fd_local t1 \<and> tun_fd t2 = fd"
    using init_succeeded [OF assms(3)] tunnel_init_state(3,5) [where e = e2 and fd = fd and t = t1] assms(4) by (auto simp: tunnel_init_def)
  ultimately have "tun_fd_local t2 \<and> tun_fd t2 = fd" by simp
  with assms(4) show ?thesis by (simp add: fini_closed owned_def)
qed

theorem failed_open_later_closes_foreign_witness:
  "\<exists>t1 t2. hev_socks5_tunnel_init (ex_init\<lparr>e_open := -1\<rparr>) (-1) tunnel_static = (-1, t1)
     \<and> hev_socks5_tunnel_init (ex_init\<lparr>e_task_timer := True\<rparr>) 5 t1 = (0, t2)
     \<and> 5 \<in> set (tn_closed (hev_socks5_tunnel_fini t2))"
proof -
  obtain t1 where 1: "hev_socks5_tunnel_init (ex_init\<lparr>e_open := -1\<rparr>) (-1) tunnel_static = (-1, t1)"
    by (simp add: init_evals)
  obtain t2 where 2: "hev_socks5_tunnel_init (ex_init\<lparr>e_task_timer := True\<rparr>) 5 t1 = (0, t2)"
    by (simp add: init_evals)
  from failed_open_later_closes_foreign [OF 1 _ 2] 1 2 show ?thesis by simp
qed

end
