(* ===== verification/Tunnel_Sync.thy ===== *)
theory Tunnel_Sync
  imports Sock_IO
begin

text \<open>
  Stopping a tunnel from another thread: the word \<^verbatim>\<open>tsync\<close> of \<^verbatim>\<open>hev/src/hev-socks5-tunnel.c\<close>
  and the event descriptors, between any number of threads in \<^verbatim>\<open>hev_socks5_tunnel_stop\<close> and the
  main thread, which goes through \<^verbatim>\<open>init\<close>, \<^verbatim>\<open>run\<close> and \<^verbatim>\<open>fini\<close>
  (\<^verbatim>\<open>hev_socks5_tunnel_main_inner\<close> of \<^verbatim>\<open>hev/src/hev-main.c\<close>); and, while it runs, the
  tasks of the tunnel: the event task, the two tasks of the IP stack and the session tasks.

  Each atomic operation, each write to or read from the event descriptors and each change of
  \<^verbatim>\<open>run\<close> is one step; the steps of the threads interleave in any order.  The tasks share
  the main thread and switch only where one of them waits or yields: the event task in its read of
  the event and in \<^verbatim>\<open>hev_task_join\<close>, so that the other tasks take turns there, and
  after its end, until the task system has none left.  \<open>s_asked\<close> records that a call of
  \<^verbatim>\<open>stop\<close> had its effect since the tunnel was last taken down.
\<close>

section \<open>State\<close>

definition SYNC_SEND :: u32 where "SYNC_SEND = 2 ^ 0"
definition SYNC_SENT :: u32 where "SYNC_SENT = 2 ^ 1"
definition SYNC_WAIT :: u32 where "SYNC_WAIT = 2 ^ 2"
definition SYNC_STOP :: u32 where "SYNC_STOP = 2 ^ 3"

datatype stop_pc = StopIdle | StopEnter | StopSend | StopWrite | StopFlag | StopClear

datatype main_pc = MainDown | MainInit | MainUp | MainRun | MainRead | MainTerm | MainJoinIo | MainWaitIo
  | MainJoinTimer | MainWaitTimer | MainSystem | MainFini | MainClose

text \<open>
  The tasks.  A waiting task is \<^verbatim>\<open>HEV_TASK_WAITING\<close> until something wakes it; then it has a
  turn.  The task that reads the device has not begun, or waits in the yielder of the read, woken
  or not.  A session has its time-out, whether it is ready for a turn, and how many turns it will
  still find data to transfer.
\<close>

datatype io_pc = IoStopped | IoNew | IoWait bool

datatype timer_pc = TimerStopped | TimerReady | TimerWait

datatype sess_pc = SessNone | SessLive int bool nat

record sync =
  tsync :: u32
  s_run :: bool
  s_open :: bool
  s_pipe :: nat
  s_main :: main_pc
  s_pc :: "nat \<Rightarrow> stop_pc"
  s_asked :: bool
  s_io :: io_pc
  s_timer :: timer_pc
  s_sess :: "sess_pc list"

definition atomic_fetch_or :: "u32 \<Rightarrow> sync \<Rightarrow> u32 \<times> sync" where
  "atomic_fetch_or v s = (tsync s, s\<lparr>tsync := tsync s OR v\<rparr>)"

definition atomic_fetch_and :: "u32 \<Rightarrow> sync \<Rightarrow> u32 \<times> sync" where
  "atomic_fetch_and v s = (tsync s, s\<lparr>tsync := tsync s AND v\<rparr>)"

section \<open>The tasks of the IP stack and of the sessions\<close>

text \<open>
  The loop of \<^verbatim>\<open>lwip_io_task_entry\<close>: \<open>n\<close> reads of the device give a packet or an error before
  one finds nothing and waits.  After a wait the yielder asks \<^verbatim>\<open>run\<close> again: the read goes on,
  or it fails and the loop finds \<^verbatim>\<open>run\<close> cleared.
\<close>

fun io_loop :: "bool \<Rightarrow> nat \<Rightarrow> io_pc" where
  "io_loop run n =
     (if \<not> run then IoStopped else case n of 0 \<Rightarrow> IoWait False | Suc k \<Rightarrow> io_loop run k)"

declare io_loop.simps [simp del]

definition io_resume :: "bool \<Rightarrow> nat \<Rightarrow> io_pc" where
  "io_resume run n =
     (if run then (case n of 0 \<Rightarrow> IoWait False | Suc k \<Rightarrow> io_loop run k) else io_loop run n)"

fun io_turn :: "bool \<Rightarrow> nat \<Rightarrow> io_pc \<Rightarrow> io_pc option" where
  "io_turn run n IoNew = Some (io_loop run n)"
| "io_turn run n (IoWait True) = Some (io_resume run n)"
| "io_turn run n _ = None"

fun io_wake :: "io_pc \<Rightarrow> io_pc" where
  "io_wake (IoWait w) = IoWait True"
| "io_wake p = p"

text \<open>\<^verbatim>\<open>lwip_timer_task_entry\<close>, from one test of \<^verbatim>\<open>run\<close> to the next.\<close>

fun timer_turn :: "bool \<Rightarrow> timer_pc \<Rightarrow> timer_pc option" where
  "timer_turn run TimerReady = Some (if run then TimerWait else TimerStopped)"
| "timer_turn run _ = None"

fun timer_wake :: "timer_pc \<Rightarrow> timer_pc" where
  "timer_wake TimerWait = TimerReady"
| "timer_wake p = p"

text \<open>
  Packets of the device may open sessions: \<^verbatim>\<open>tcp_accept_handler\<close> and
  \<^verbatim>\<open>udp_recv_handler\<close> refuse them when \<^verbatim>\<open>run\<close> is cleared.  Each new session has a task of
  its own; the list holds the tasks that were ever started.
\<close>

definition start_sessions :: "bool \<Rightarrow> (int \<times> nat) list \<Rightarrow> sess_pc list \<Rightarrow> sess_pc list" where
  "start_sessions run new ps = (if \<not> run then ps else ps @ map (\<lambda>(t, k). SessLive t True k) new)"

text \<open>
  A turn of a session ends where it yields: after a transfer with \<^verbatim>\<open>HEV_TASK_YIELD\<close>, or with
  \<^verbatim>\<open>HEV_TASK_WAITIO\<close>, where it sleeps unless its time-out is zero.  When it wakes with \<open>r\<close> left
  on the timer, \<^verbatim>\<open>hev_socks5_task_io_yielder\<close> says whether it goes on.
\<close>

fun sess_turn :: "sess_pc \<Rightarrow> sess_pc option" where
  "sess_turn (SessLive t True k) =
     (let type = (if 0 < k then HEV_TASK_YIELD else HEV_TASK_WAITIO) in
      if type = HEV_TASK_WAITIO \<and> t \<noteq> 0 then Some (SessLive t False 0)
      else Some (if hev_socks5_task_io_yielder t type 0 \<noteq> 0 then SessNone else SessLive t True (k - 1)))"
| "sess_turn _ = None"

fun sess_wake :: "int \<Rightarrow> nat \<Rightarrow> sess_pc \<Rightarrow> sess_pc option" where
  "sess_wake r k (SessLive t False _) =
     Some (if hev_socks5_task_io_yielder t HEV_TASK_WAITIO r \<noteq> 0 then SessNone else SessLive t True k)"
| "sess_wake r k _ = None"

text \<open>\<^verbatim>\<open>hev_socks5_session_terminate\<close>: the time-out becomes zero and the task is woken.\<close>

fun sess_terminate :: "sess_pc \<Rightarrow> sess_pc" where
  "sess_terminate SessNone = SessNone"
| "sess_terminate (SessLive t ready k) = SessLive 0 True k"

definition sess_upd :: "nat \<Rightarrow> (sess_pc \<Rightarrow> sess_pc option) \<Rightarrow> sync \<Rightarrow> sync option" where
  "sess_upd i f s =
     (if i < length (s_sess s) then map_option (\<lambda>p. s\<lparr>s_sess := (s_sess s)[i := p]\<rparr>) (f (s_sess s ! i)) else None)"

text \<open>
  What the tasks do next: something wakes a task, or a ready task has its turn; a session may also
  end of its own, or be ended by a callback of the stack or by a newer session.
\<close>

datatype task_ev =
    IoWake | IoTurn nat "(int \<times> nat) list" | TimerWake | TimerTurn
  | SessTurn nat | SessWake nat int nat | SessStop nat | SessTerm nat

fun task_next :: "task_ev \<Rightarrow> sync \<Rightarrow> sync option" where
  "task_next IoWake s = (if s_io s = IoWait False then Some (s\<lparr>s_io := io_wake (s_io s)\<rparr>) else None)"
| "task_next (IoTurn n new) s =
     map_option (\<lambda>p. s\<lparr>s_io := p, s_sess := start_sessions (s_run s) new (s_sess s),
                      s_timer := (if s_run s \<and> new \<noteq> [] then timer_wake (s_timer s) else s_timer s)\<rparr>)
       (io_turn (s_run s) n (s_io s))"
| "task_next TimerWake s = (if s_timer s = TimerWait then Some (s\<lparr>s_timer := timer_wake (s_timer s)\<rparr>) else None)"
| "task_next TimerTurn s = map_option (\<lambda>p. s\<lparr>s_timer := p\<rparr>) (timer_turn (s_run s) (s_timer s))"
| "task_next (SessTurn i) s = sess_upd i sess_turn s"
| "task_next (SessWake i r k) s = sess_upd i (sess_wake r k) s"
| "task_next (SessStop i) s = sess_upd i (\<lambda>p. if p = SessNone then None else Some SessNone) s"
| "task_next (SessTerm i) s =
     sess_upd i (\<lambda>p. case p of SessNone \<Rightarrow> None
                     | SessLive t ready k \<Rightarrow> if t = 0 then None else Some (sess_terminate p)) s"

text \<open>\<^verbatim>\<open>ctx->total_task_count == 0\<close>, once the event task has ended.\<close>

definition tasks_gone :: "sync \<Rightarrow> bool" where
  "tasks_gone s \<longleftrightarrow> s_io s = IoStopped \<and> s_timer s = TimerStopped \<and> list_all (\<lambda>p. p = SessNone) (s_sess s)"

section \<open>The threads\<close>

text \<open>\<^verbatim>\<open>hev_socks5_tunnel_stop\<close>, from one atomic operation to the next.\<close>

fun stop_next :: "stop_pc \<Rightarrow> sync \<Rightarrow> stop_pc \<times> sync" where
  "stop_next StopIdle s = (StopEnter, s)"
| "stop_next StopEnter s =
     (case atomic_fetch_or SYNC_WAIT s of (res, s') \<Rightarrow>
        (if res AND SYNC_WAIT \<noteq> 0 then StopEnter
         else if res AND SYNC_SEND \<noteq> 0 then StopSend else StopFlag, s'))"
| "stop_next StopSend s =
     (case atomic_fetch_or SYNC_SENT s of (res, s') \<Rightarrow>
        (if res AND SYNC_SENT = 0 then StopWrite else StopClear, s'\<lparr>s_asked := True\<rparr>))"
| "stop_next StopWrite s = (StopClear, s\<lparr>s_pipe := Suc (s_pipe s)\<rparr>)"
| "stop_next StopFlag s = (StopClear, (snd (atomic_fetch_or SYNC_STOP s))\<lparr>s_asked := True\<rparr>)"
| "stop_next StopClear s = (StopIdle, snd (atomic_fetch_and (NOT SYNC_WAIT) s))"

definition stop_step :: "nat \<Rightarrow> sync \<Rightarrow> sync" where
  "stop_step t s = (case stop_next (s_pc s t) s of (p, s') \<Rightarrow> s'\<lparr>s_pc := (s_pc s')(t := p)\<rparr>)"

text \<open>
  The main thread: the end of \<^verbatim>\<open>init\<close>; the start of \<^verbatim>\<open>run\<close>, which returns at once
  if a stop came before it; the event task's read, which gives \<open>None\<close> while it waits, its
  acknowledgement, and the end of all sessions; \<^verbatim>\<open>hev_task_join\<close>, which wakes the task it
  joins and gives \<open>None\<close> until that task has stopped; the return of
  \<^verbatim>\<open>hev_task_system_run\<close>, when no task is left; the retry loop of \<^verbatim>\<open>fini\<close> and the closing
  behind it.
\<close>

definition sync_init_done :: "sync \<Rightarrow> sync" where
  "sync_init_done s = (snd (atomic_fetch_or SYNC_SEND s))\<lparr>s_main := MainUp\<rparr>"

definition sync_run :: "sync \<Rightarrow> sync" where
  "sync_run s =
     (case atomic_fetch_and (NOT SYNC_STOP) s of (res, s') \<Rightarrow>
        if res AND SYNC_STOP \<noteq> 0 then s'\<lparr>s_main := MainFini\<rparr>
        else s'\<lparr>s_main := MainRun, s_run := True, s_io := IoNew, s_timer := TimerReady\<rparr>)"

definition sync_event_read :: "sync \<Rightarrow> sync option" where
  "sync_event_read s =
     (if s_pipe s = 0 then None
      else Some (s\<lparr>s_main := MainRead, s_pipe := s_pipe s - min 4 (s_pipe s), s_run := False\<rparr>))"

definition sync_event_ack :: "sync \<Rightarrow> sync" where
  "sync_event_ack s = (snd (atomic_fetch_and (NOT SYNC_SENT) s))\<lparr>s_main := MainTerm\<rparr>"

definition sync_event_term :: "sync \<Rightarrow> sync" where
  "sync_event_term s = s\<lparr>s_main := MainJoinIo, s_sess := map sess_terminate (s_sess s)\<rparr>"

definition sync_join_io :: "sync \<Rightarrow> sync" where
  "sync_join_io s =
     (if s_io s = IoStopped then s\<lparr>s_main := MainJoinTimer\<rparr> else s\<lparr>s_main := MainWaitIo, s_io := io_wake (s_io s)\<rparr>)"

definition sync_join_timer :: "sync \<Rightarrow> sync" where
  "sync_join_timer s =
     (if s_timer s = TimerStopped then s\<lparr>s_main := MainSystem\<rparr>
      else s\<lparr>s_main := MainWaitTimer, s_timer := timer_wake (s_timer s)\<rparr>)"

definition sync_fini_try :: "sync \<Rightarrow> sync" where
  "sync_fini_try s =
     (case atomic_fetch_and (NOT (SYNC_SEND OR SYNC_SENT)) s of (res, s') \<Rightarrow>
        if res AND SYNC_WAIT \<noteq> 0 then s' else s'\<lparr>s_main := MainClose\<rparr>)"

definition sync_fini_close :: "sync \<Rightarrow> sync" where
  "sync_fini_close s = s\<lparr>s_main := MainDown, s_open := False, s_pipe := 0, s_asked := False\<rparr>"

text \<open>
  Their order in \<^verbatim>\<open>hev_socks5_tunnel_main_inner\<close>; \<open>ok\<close> is whether a stage of \<^verbatim>\<open>init\<close>
  succeeds, before and after the event descriptors are opened.
\<close>

fun main_next :: "bool \<Rightarrow> main_pc \<Rightarrow> sync \<Rightarrow> sync option" where
  "main_next ok MainDown s =
     Some (if ok then s\<lparr>s_main := MainInit, s_open := True, s_pipe := 0\<rparr> else s\<lparr>s_main := MainFini\<rparr>)"
| "main_next ok MainInit s = Some (if ok then sync_init_done s else s\<lparr>s_main := MainFini\<rparr>)"
| "main_next ok MainUp s = Some (sync_run s)"
| "main_next ok MainRun s = sync_event_read s"
| "main_next ok MainRead s = Some (sync_event_ack s)"
| "main_next ok MainTerm s = Some (sync_event_term s)"
| "main_next ok MainJoinIo s = Some (sync_join_io s)"
| "main_next ok MainWaitIo s = (if s_io s = IoStopped then Some (s\<lparr>s_main := MainJoinIo\<rparr>) else None)"
| "main_next ok MainJoinTimer s = Some (sync_join_timer s)"
| "main_next ok MainWaitTimer s = (if s_timer s = TimerStopped then Some (s\<lparr>s_main := MainJoinTimer\<rparr>) else None)"
| "main_next ok MainSystem s = (if tasks_gone s then Some (s\<lparr>s_main := MainFini\<rparr>) else None)"
| "main_next ok MainFini s = Some (sync_fini_try s)"
| "main_next ok MainClose s = Some (sync_fini_close s)"

definition sync_init :: sync where
  "sync_init = \<lparr>tsync = 0, s_run = False, s_open = False, s_pipe = 0, s_main = MainDown, s_pc = (\<lambda>_. StopIdle), s_asked = False,
     s_io = IoStopped, s_timer = TimerStopped, s_sess = []\<rparr>"

text \<open>Where the main thread lets the tasks run.\<close>

definition tasks_run :: "main_pc \<Rightarrow> bool" where
  "tasks_run m \<longleftrightarrow> m \<in> {MainRun, MainWaitIo, MainWaitTimer, MainSystem}"

inductive task_step :: "sync \<Rightarrow> sync \<Rightarrow> bool" where
  "tasks_run (s_main s) \<Longrightarrow> task_next e s = Some s' \<Longrightarrow> task_step s s'"

inductive sync_step :: "sync \<Rightarrow> sync \<Rightarrow> bool" where
  step_stop: "sync_step s (stop_step t s)"
| step_main: "main_next ok (s_main s) s = Some s' \<Longrightarrow> sync_step s s'"
| step_task: "task_step s s' \<Longrightarrow> sync_step s s'"

inductive_cases sync_stepE: "sync_step s s'"

abbreviation sync_reach :: "sync \<Rightarrow> bool" where
  "sync_reach s \<equiv> sync_step\<^sup>*\<^sup>* sync_init s"

section \<open>Flags\<close>

lemma flag_tests [simp]:
  "(w AND SYNC_SEND = 0) = (\<not> bit w 0)" "(w AND SYNC_SENT = 0) = (\<not> bit w 1)"
  "(w AND SYNC_WAIT = 0) = (\<not> bit w 2)" "(w AND SYNC_STOP = 0) = (\<not> bit w 3)"
  unfolding SYNC_SEND_def SYNC_SENT_def SYNC_WAIT_def SYNC_STOP_def by (rule and_exp_eq_0_iff_not_bit)+

lemma flag_bits [simp]:
  "bit SYNC_SEND n = (n = 0)" "bit SYNC_SENT n = (n = 1)" "bit SYNC_WAIT n = (n = 2)" "bit SYNC_STOP n = (n = 3)"
  unfolding SYNC_SEND_def SYNC_SENT_def SYNC_WAIT_def SYNC_STOP_def bit_exp_iff by auto

lemma flags_nonzero [simp]: "SYNC_SEND \<noteq> 0" "SYNC_SENT \<noteq> 0" "SYNC_WAIT \<noteq> 0" "SYNC_STOP \<noteq> 0"
  by (simp_all add: SYNC_SEND_def SYNC_SENT_def SYNC_WAIT_def SYNC_STOP_def)

lemmas atomics = sync_init_done_def sync_run_def sync_event_read_def sync_event_ack_def sync_event_term_def
  sync_join_io_def sync_join_timer_def sync_fini_try_def
  sync_fini_close_def atomic_fetch_or_def atomic_fetch_and_def bit_or_iff bit_and_iff bit_not_iff

section \<open>The invariant\<close>

text \<open>
  Between setting \<^verbatim>\<open>SYNC_WAIT\<close> and clearing it; at most one thread is there, and the flag
  tells whether one is.
\<close>

definition holding :: "stop_pc \<Rightarrow> bool" where
  "holding p \<longleftrightarrow> p \<in> {StopSend, StopWrite, StopFlag, StopClear}"

definition main_up :: "main_pc \<Rightarrow> bool" where
  "main_up m \<longleftrightarrow> m \<notin> {MainDown, MainInit, MainClose}"

definition sync_lock :: "sync \<Rightarrow> bool" where
  "sync_lock s \<longleftrightarrow> (\<exists>h. (\<forall>t. holding (s_pc s t) \<longleftrightarrow> h = Some t) \<and> (bit (tsync s) 2 \<longleftrightarrow> h \<noteq> None))"

definition sync_fds :: "sync \<Rightarrow> bool" where
  "sync_fds s \<longleftrightarrow> (bit (tsync s) 0 \<longrightarrow> main_up (s_main s) \<and> s_open s)
     \<and> (\<forall>t. s_pc s t \<in> {StopSend, StopWrite} \<longrightarrow> main_up (s_main s) \<and> s_open s)
     \<and> (s_main s \<notin> {MainDown, MainFini, MainClose} \<longrightarrow> s_open s)
     \<and> (s_run s \<longleftrightarrow> s_main s = MainRun)"

definition sync_sent :: "sync \<Rightarrow> bool" where
  "sync_sent s \<longleftrightarrow> (bit (tsync s) 1 \<longrightarrow> main_up (s_main s))
     \<and> (s_main s \<in> {MainUp, MainRun} \<and> bit (tsync s) 1 \<longrightarrow> 0 < s_pipe s \<or> (\<exists>t. s_pc s t = StopWrite))"

definition sync_inv :: "sync \<Rightarrow> bool" where
  "sync_inv s \<longleftrightarrow> sync_lock s \<and> sync_fds s \<and> sync_sent s"

lemma holding_simps [simp]:
  "\<not> holding StopIdle" "\<not> holding StopEnter" "holding StopSend" "holding StopWrite" "holding StopFlag" "holding StopClear"
  by (simp_all add: holding_def)

lemma stop_lock:
  assumes "sync_lock s"
  shows "sync_lock (stop_step t s)"
proof -
  obtain h where h: "\<And>u. holding (s_pc s u) \<longleftrightarrow> h = Some u" "bit (tsync s) 2 \<longleftrightarrow> h \<noteq> None"
    using assms unfolding sync_lock_def by blast
  let ?h = "if s_pc s t = StopClear then None else if s_pc s t = StopEnter \<and> h = None then Some t else h"
  have "(\<forall>u. holding (s_pc (stop_step t s) u) \<longleftrightarrow> ?h = Some u) \<and> (bit (tsync (stop_step t s)) 2 \<longleftrightarrow> ?h \<noteq> None)"
    using h(1) [of t] by (cases "s_pc s t") (auto simp: stop_step_def atomics h)
  then show ?thesis unfolding sync_lock_def by blast
qed

lemma lock_unique: "sync_lock s \<Longrightarrow> holding (s_pc s t) \<Longrightarrow> holding (s_pc s u) \<Longrightarrow> t = u"
  by (auto simp: sync_lock_def)

lemma main_pc_same: "main_next ok m s = Some s' \<Longrightarrow> s_pc s' = s_pc s \<and> (bit (tsync s') 2 = bit (tsync s) 2)"
  by (cases m) (auto simp: atomics split: if_splits)

lemma main_lock: "sync_lock s \<Longrightarrow> main_next ok m s = Some s' \<Longrightarrow> sync_lock s'"
  using main_pc_same [of ok m s s'] by (simp add: sync_lock_def)

lemma stop_fds:
  assumes "sync_fds s"
  shows "sync_fds (stop_step t s)"
  using assms unfolding sync_fds_def stop_step_def
  by (cases "s_pc s t") (auto simp: atomics split: if_splits)

lemma no_holder: "sync_lock s \<Longrightarrow> \<not> bit (tsync s) 2 \<Longrightarrow> s_pc s t \<notin> {StopSend, StopWrite}"
  by (auto simp: sync_lock_def) (metis holding_simps(3,4) option.distinct(1))+

lemma main_fds:
  assumes "sync_lock s" "sync_fds s" "main_next ok (s_main s) s = Some s'"
  shows "sync_fds s'"
proof (cases "s_main s")
  case MainFini
  then show ?thesis
    using assms no_holder [OF assms(1)] by (auto simp: sync_fds_def atomics main_up_def split: if_splits)
qed (use assms(2,3) in \<open>auto simp: sync_fds_def atomics main_up_def split: if_splits\<close>)

lemma stop_sent:
  assumes "sync_fds s" "sync_sent s"
  shows "sync_sent (stop_step t s)"
proof -
  have u: "s_pc s t \<in> {StopSend, StopWrite} \<Longrightarrow> main_up (s_main s)" using assms(1) unfolding sync_fds_def by blast
  have w: "(\<exists>u. ((s_pc s)(t := p)) u = StopWrite) \<longleftrightarrow> p = StopWrite \<or> (\<exists>u. s_pc s u = StopWrite)"
    if "s_pc s t \<noteq> StopWrite" for p
    using that by (metis fun_upd_apply)
  show ?thesis
    using assms(2) u unfolding sync_sent_def stop_step_def
    by (cases "s_pc s t") (auto simp: atomics w simp del: fun_upd_apply split: if_splits)
qed

lemma main_sent:
  assumes "sync_sent s" "main_next ok (s_main s) s = Some s'"
  shows "sync_sent s'"
  using assms by (cases "s_main s") (auto simp: sync_sent_def atomics main_up_def split: if_splits)

lemma task_same:
  assumes "task_step s s'"
  shows "tsync s' = tsync s" "s_run s' = s_run s" "s_open s' = s_open s" "s_pipe s' = s_pipe s" "s_main s' = s_main s"
    "s_pc s' = s_pc s"
proof -
  obtain e where "task_next e s = Some s'" using assms by (auto elim: task_step.cases)
  then show "tsync s' = tsync s" "s_run s' = s_run s" "s_open s' = s_open s" "s_pipe s' = s_pipe s" "s_main s' = s_main s"
    "s_pc s' = s_pc s"
    by (cases e; auto simp: sess_upd_def split: if_splits)+
qed

lemma task_inv: "task_step s s' \<Longrightarrow> sync_inv s \<Longrightarrow> sync_inv s'"
  using task_same [of s s'] by (simp add: sync_inv_def sync_lock_def sync_fds_def sync_sent_def)

lemma sync_step_inv: "sync_step s s' \<Longrightarrow> sync_inv s \<Longrightarrow> sync_inv s'"
  by (erule sync_stepE)
    (auto simp: sync_inv_def intro: stop_lock stop_fds stop_sent main_lock main_fds main_sent dest: task_inv [unfolded sync_inv_def])

lemma sync_reach_inv:
  assumes "sync_reach s"
  shows "sync_inv s"
  using assms
proof (induction rule: rtranclp_induct)
  case base
  show ?case by (simp add: sync_inv_def sync_lock_def sync_fds_def sync_sent_def sync_init_def)
qed (rule sync_step_inv)

section \<open>Properties of the protocol\<close>

text \<open>
  C34: Stopping from other threads is safe.  In every state that any interleaving of any number of
  threads in \<^verbatim>\<open>stop\<close> with start-ups and shut-downs reaches, at most one thread is inside the
  protected part of \<^verbatim>\<open>stop\<close>, and a thread that is about to write the event finds the event
  descriptors open: shutting down never closes them under it.
\<close>

theorem stop_protocol_safe:
  assumes "sync_reach s"
  shows "(holding (s_pc s t) \<and> holding (s_pc s u) \<longrightarrow> t = u) \<and> (s_pc s t = StopWrite \<longrightarrow> s_open s)"
  using sync_reach_inv [OF assms] lock_unique [of s t u] unfolding sync_inv_def sync_fds_def by blast

text \<open>A run of chosen steps, for the examples: \<open>None\<close> is the main thread.\<close>

fun sync_play :: "nat option list \<Rightarrow> sync \<Rightarrow> sync" where
  "sync_play [] s = s"
| "sync_play (Some t # ts) s = sync_play ts (stop_step t s)"
| "sync_play (None # ts) s = sync_play ts (case main_next True (s_main s) s of Some s' \<Rightarrow> s' | None \<Rightarrow> s)"

lemma play_reach: "sync_reach s \<Longrightarrow> sync_reach (sync_play ts s)"
proof (induction ts s rule: sync_play.induct)
  case (3 ts s)
  show ?case
  proof (cases "main_next True (s_main s) s")
    case (Some s')
    with 3 rtranclp.rtrancl_into_rtrancl [OF 3(2) step_main [OF Some]] show ?thesis by simp
  qed (use 3 in simp)
qed (auto intro: rtranclp.rtrancl_into_rtrancl step_stop)

lemmas play_evals = stop_step_def atomics sync_init_def

theorem stop_protocol_safe_witness:
  "let s = sync_play [None, None, Some 1, Some 2, Some 1, Some 2, Some 1] sync_init in
     s_pc s 1 = StopWrite \<and> s_pc s 2 = StopEnter \<and> s_open s"
proof -
  let ?s = "sync_play [None, None, Some 1, Some 2, Some 1, Some 2, Some 1] sync_init"
  have "s_pc ?s 1 = StopWrite \<and> s_pc ?s 2 = StopEnter" by (simp add: play_evals)
  moreover have "sync_reach ?s" by (rule play_reach) (rule rtranclp.rtrancl_refl)
  ultimately show ?thesis unfolding Let_def using stop_protocol_safe [of ?s 1 1] by blast
qed

lemma idle_unlocked: "sync_reach s \<Longrightarrow> \<forall>t. s_pc s t = StopIdle \<Longrightarrow> \<not> bit (tsync s) 2"
  using sync_reach_inv [of s] by (auto simp: sync_inv_def sync_lock_def)

section \<open>The end of a run\<close>

text \<open>
  The steps of the tunnel's own thread, and what they lead to in the end, whichever of the
  possible steps are taken: \<open>P\<close> holds already, or there is a next step and every next step
  leads to it.
\<close>

inductive own_step :: "sync \<Rightarrow> sync \<Rightarrow> bool" where
  own_main: "main_next ok (s_main s) s = Some s' \<Longrightarrow> own_step s s'"
| own_task: "task_step s s' \<Longrightarrow> own_step s s'"

inductive inevitable :: "(sync \<Rightarrow> bool) \<Rightarrow> sync \<Rightarrow> bool" for P where
  here: "P s \<Longrightarrow> inevitable P s"
| ahead: "own_step s s1 \<Longrightarrow> (\<And>s'. own_step s s' \<Longrightarrow> inevitable P s') \<Longrightarrow> inevitable P s"

text \<open>
  After the event: \<^verbatim>\<open>run\<close> is cleared, no thread is in \<^verbatim>\<open>stop\<close>, and every session has been
  ended; a task that has been joined stays stopped.
\<close>

fun sess_ends :: "sess_pc \<Rightarrow> bool" where
  "sess_ends SessNone = True"
| "sess_ends (SessLive t ready k) = (t = 0 \<and> ready)"

definition after_io :: "main_pc \<Rightarrow> bool" where
  "after_io m \<longleftrightarrow> m \<in> {MainJoinTimer, MainWaitTimer, MainSystem, MainFini, MainClose}"

definition winding_down :: "sync \<Rightarrow> bool" where
  "winding_down s \<longleftrightarrow> \<not> s_run s \<and> \<not> bit (tsync s) 2 \<and> list_all sess_ends (s_sess s)
     \<and> s_main s \<in> {MainJoinIo, MainWaitIo, MainJoinTimer, MainWaitTimer, MainSystem, MainFini, MainClose}
     \<and> (after_io (s_main s) \<longrightarrow> s_io s = IoStopped)
     \<and> (s_main s \<in> {MainSystem, MainFini, MainClose} \<longrightarrow> s_timer s = TimerStopped)
     \<and> (s_main s \<in> {MainFini, MainClose} \<longrightarrow> tasks_gone s)"

definition tunnel_down :: "sync \<Rightarrow> bool" where
  "tunnel_down s \<longleftrightarrow> s_main s = MainDown \<and> \<not> s_run s \<and> \<not> s_open s \<and> tasks_gone s"

text \<open>How far a state is from the end.\<close>

definition main_rank :: "sync \<Rightarrow> nat" where
  "main_rank s =
     (case s_main s of
        MainJoinIo \<Rightarrow> if s_io s = IoStopped then 7 else 9
      | MainWaitIo \<Rightarrow> 8
      | MainJoinTimer \<Rightarrow> if s_timer s = TimerStopped then 4 else 6
      | MainWaitTimer \<Rightarrow> 5
      | MainSystem \<Rightarrow> 3
      | MainFini \<Rightarrow> 2
      | MainClose \<Rightarrow> 1
      | _ \<Rightarrow> 0)"

fun io_rank :: "io_pc \<Rightarrow> nat" where
  "io_rank IoStopped = 0"
| "io_rank IoNew = 1"
| "io_rank (IoWait w) = (if w then 1 else 2)"

fun timer_rank :: "timer_pc \<Rightarrow> nat" where
  "timer_rank TimerStopped = 0"
| "timer_rank TimerReady = 1"
| "timer_rank TimerWait = 2"

fun sess_rank :: "sess_pc \<Rightarrow> nat" where
  "sess_rank SessNone = 0"
| "sess_rank (SessLive t ready k) = Suc k"

definition distance :: "sync \<Rightarrow> nat" where
  "distance s = main_rank s + io_rank (s_io s) + timer_rank (s_timer s) + sum_list (map sess_rank (s_sess s))"

lemma io_loop_stops [simp]: "io_loop False n = IoStopped" "io_resume False n = IoStopped"
  by (simp_all add: io_loop.simps io_resume_def)

lemma io_turn_stops: "io_turn False n p = Some q \<Longrightarrow> q = IoStopped \<and> 0 < io_rank p"
  by (cases "(False, n, p)" rule: io_turn.cases) auto

lemma sum_list_less:
  "i < length ps \<Longrightarrow> f p < f (ps ! i) \<Longrightarrow> sum_list (map f (ps[i := p])) < (sum_list (map f ps) :: nat)"
  by (induction ps arbitrary: i) (auto split: nat.split simp: less_Suc_eq_0_disj)

text \<open>A turn of a session that was ended, and no other event happens to it.\<close>

lemma sess_turn_ends:
  "sess_ends p \<Longrightarrow> sess_turn p = Some q \<Longrightarrow> sess_ends q \<and> sess_rank q < sess_rank p"
  by (cases "p" rule: sess_turn.cases)
    (auto simp: Let_def hev_socks5_task_io_yielder_def hev_task_sleep_def split: if_splits)

lemma sess_wake_ends: "sess_ends p \<Longrightarrow> sess_wake r k p = None"
  by (cases p rule: sess_ends.cases) auto

lemma sess_upd_winds:
  assumes "sess_upd i f s = Some s'" "winding_down s" "s_main s \<notin> {MainFini, MainClose}"
    and "\<And>p q. sess_ends p \<Longrightarrow> f p = Some q \<Longrightarrow> sess_ends q \<and> sess_rank q < sess_rank p"
  shows "winding_down s' \<and> distance s' < distance s"
proof -
  obtain q where q: "i < length (s_sess s)" "f (s_sess s ! i) = Some q" "s' = s\<lparr>s_sess := (s_sess s)[i := q]\<rparr>"
    using assms(1) by (auto simp: sess_upd_def split: if_splits)
  have e: "list_all sess_ends (s_sess s)" using assms(2) by (simp add: winding_down_def)
  then have "sess_ends (s_sess s ! i)" using q(1) by (simp add: list_all_length)
  from assms(4) [OF this q(2)] have r: "sess_ends q" "sess_rank q < sess_rank (s_sess s ! i)" by simp_all
  have "list_all sess_ends ((s_sess s)[i := q])" using e r(1) q(1) by (simp add: list_all_length nth_list_update)
  moreover have "sum_list (map sess_rank ((s_sess s)[i := q])) < sum_list (map sess_rank (s_sess s))"
    by (rule sum_list_less [OF q(1) r(2)])
  ultimately show ?thesis
    using assms(2,3) q(3) by (auto simp: winding_down_def distance_def main_rank_def split: main_pc.split)
qed

lemma io_winds:
  assumes "winding_down s" "s_main s \<in> {MainWaitIo, MainWaitTimer, MainSystem}" "io_rank p < io_rank (s_io s)"
  shows "winding_down (s\<lparr>s_io := p\<rparr>) \<and> distance (s\<lparr>s_io := p\<rparr>) < distance s"
  using assms
  by (cases "s_main s") (simp_all add: winding_down_def distance_def main_rank_def after_io_def)

lemma timer_winds:
  assumes "winding_down s" "s_main s \<in> {MainWaitIo, MainWaitTimer, MainSystem}" "timer_rank p < timer_rank (s_timer s)"
  shows "winding_down (s\<lparr>s_timer := p\<rparr>) \<and> distance (s\<lparr>s_timer := p\<rparr>) < distance s"
  using assms
  by (cases "s_main s") (simp_all add: winding_down_def distance_def main_rank_def after_io_def)

lemma task_winds:
  assumes "winding_down s" "task_step s s'"
  shows "winding_down s' \<and> distance s' < distance s"
proof -
  obtain e where e: "tasks_run (s_main s)" "task_next e s = Some s'" using assms(2) by (auto elim: task_step.cases)
  have m: "s_main s \<in> {MainWaitIo, MainWaitTimer, MainSystem}" "s_main s \<notin> {MainFini, MainClose}" and r: "\<not> s_run s"
    using e(1) assms(1) by (cases "s_main s"; simp add: tasks_run_def winding_down_def)+
  show ?thesis
  proof (cases e)
    case IoWake
    with e(2) io_winds [OF assms(1) m(1), of "IoWait True"] show ?thesis by (simp split: if_splits)
  next
    case (IoTurn n new)
    with e(2) have "task_next (IoTurn n new) s = Some s'" by simp
    with r obtain p where p: "io_turn False n (s_io s) = Some p" "s' = s\<lparr>s_io := p\<rparr>"
      by (cases "io_turn False n (s_io s)") (simp_all add: start_sessions_def)
    from io_turn_stops [OF p(1)] have "p = IoStopped" "0 < io_rank (s_io s)" by simp_all
    with p(2) io_winds [OF assms(1) m(1), of p] show ?thesis by simp
  next
    case TimerWake
    with e(2) timer_winds [OF assms(1) m(1), of TimerReady] show ?thesis by (simp split: if_splits)
  next
    case TimerTurn
    with e(2) r timer_winds [OF assms(1) m(1), of TimerStopped] show ?thesis by (cases "s_timer s") auto
  next
    case (SessTurn i)
    with e(2) have "sess_upd i sess_turn s = Some s'" by simp
    then show ?thesis by (rule sess_upd_winds [OF _ assms(1) m(2)]) (rule sess_turn_ends)
  next
    case (SessWake i r k)
    with e(2) have "sess_upd i (sess_wake r k) s = Some s'" by simp
    then show ?thesis by (rule sess_upd_winds [OF _ assms(1) m(2)]) (simp add: sess_wake_ends)
  next
    case (SessStop i)
    with e(2) have "sess_upd i (\<lambda>p. if p = SessNone then None else Some SessNone) s = Some s'" by simp
    then show ?thesis
      by (rule sess_upd_winds [OF _ assms(1) m(2)]) (auto split: if_splits elim: sess_ends.elims)
  next
    case (SessTerm i)
    with e(2) have "sess_upd i (\<lambda>p. case p of SessNone \<Rightarrow> None
        | SessLive t ready k \<Rightarrow> if t = 0 then None else Some (sess_terminate p)) s = Some s'" by simp
    then show ?thesis
      by (rule sess_upd_winds [OF _ assms(1) m(2)]) (auto split: sess_pc.splits if_splits)
  qed
qed

lemma main_winds:
  assumes "winding_down s" "main_next ok (s_main s) s = Some s'"
  shows "(winding_down s' \<and> distance s' < distance s) \<or> tunnel_down s'"
proof (cases "s_main s")
  case MainJoinIo
  with assms show ?thesis
    by (cases "s_io s") (auto simp: winding_down_def distance_def main_rank_def after_io_def sync_join_io_def)
next
  case MainWaitIo
  with assms show ?thesis
    by (cases "s_io s") (auto simp: winding_down_def distance_def main_rank_def after_io_def)
next
  case MainJoinTimer
  with assms show ?thesis
    by (cases "s_timer s") (auto simp: winding_down_def distance_def main_rank_def after_io_def sync_join_timer_def)
next
  case MainWaitTimer
  with assms show ?thesis
    by (cases "s_timer s") (auto simp: winding_down_def distance_def main_rank_def after_io_def)
next
  case MainSystem
  with assms show ?thesis
    by (cases "tasks_gone s") (auto simp: winding_down_def distance_def main_rank_def after_io_def tasks_gone_def)
next
  case MainFini
  with assms show ?thesis
    by (auto simp: winding_down_def distance_def main_rank_def after_io_def tasks_gone_def atomics)
next
  case MainClose
  with assms show ?thesis
    by (auto simp: winding_down_def tunnel_down_def tasks_gone_def atomics)
qed (use assms in \<open>simp_all add: winding_down_def\<close>)

lemma some_live:
  assumes "\<not> list_all (\<lambda>p. p = SessNone) ps"
  obtains i where "i < length ps" "ps ! i \<noteq> SessNone"
  using assms by (auto simp: list_all_length)

lemma winding_goes_on:
  assumes "winding_down s"
  shows "\<exists>s'. own_step s s'"
proof (cases "main_next True (s_main s) s")
  case (Some s')
  then show ?thesis by (auto intro: own_main)
next
  case None
  have "\<exists>e. task_next e s \<noteq> None \<and> tasks_run (s_main s)"
  proof -
    consider "s_main s = MainWaitIo" "s_io s \<noteq> IoStopped" | "s_main s = MainWaitTimer" "s_timer s \<noteq> TimerStopped"
      | "s_main s = MainSystem" "\<not> list_all (\<lambda>p. p = SessNone) (s_sess s)"
      using None assms by (cases "s_main s") (auto simp: winding_down_def tasks_gone_def after_io_def split: if_splits)
    then show ?thesis
    proof cases
      case 1
      then consider "s_io s = IoNew" | "s_io s = IoWait True" | "s_io s = IoWait False" by (cases "s_io s") auto
      then show ?thesis
        using 1 by cases (auto simp: tasks_run_def intro: exI [of _ "IoTurn 0 []"] exI [of _ IoWake])
    next
      case 2
      then consider "s_timer s = TimerReady" | "s_timer s = TimerWait" by (cases "s_timer s") auto
      then show ?thesis
        using 2 by cases (auto simp: tasks_run_def intro: exI [of _ TimerTurn] exI [of _ TimerWake])
    next
      case 3
      then obtain i where "i < length (s_sess s)" "s_sess s ! i \<noteq> SessNone" by (rule_tac some_live)
      with 3(1) show ?thesis by (intro exI [of _ "SessStop i"]) (simp add: sess_upd_def tasks_run_def)
    qed
  qed
  then show ?thesis by (auto intro: own_task task_step.intros)
qed

lemma winding_down_ends: "winding_down s \<Longrightarrow> inevitable tunnel_down s"
proof (induction "distance s" arbitrary: s rule: less_induct)
  case less
  obtain s1 where s1: "own_step s s1" using winding_goes_on [OF less.prems] by blast
  show ?case
  proof (rule ahead [OF s1])
    fix s'
    assume "own_step s s'"
    then show "inevitable tunnel_down s'"
    proof cases
      case (own_main ok)
      with main_winds [OF less.prems own_main] less.hyps show ?thesis by (auto intro: here)
    next
      case own_task
      with task_winds [OF less.prems own_task] less.hyps show ?thesis by blast
    qed
  qed
qed

text \<open>Between the event and the wait for the first task no other task runs.\<close>

lemma only_next:
  assumes "\<not> tasks_run (s_main s)" "\<And>ok. main_next ok (s_main s) s = Some s1" "inevitable P s1"
  shows "inevitable P s"
proof (rule ahead)
  show "own_step s s1" using assms(2) by (auto intro: own_main)
  fix s'
  assume "own_step s s'"
  then show "inevitable P s'"
  proof cases
    case (own_main ok)
    with assms(2) [of ok] assms(3) show ?thesis by simp
  next
    case own_task
    with assms(1) show ?thesis by (auto elim: task_step.cases)
  qed
qed

lemma terminated_ends: "list_all sess_ends (map sess_terminate ps)"
proof -
  have "sess_ends (sess_terminate p)" for p by (cases p) auto
  then show ?thesis by (simp add: list_all_iff)
qed

lemma tasks_same: "task_step\<^sup>*\<^sup>* s s' \<Longrightarrow>
    tsync s' = tsync s \<and> s_run s' = s_run s \<and> s_pipe s' = s_pipe s \<and> s_main s' = s_main s \<and> s_pc s' = s_pc s"
  by (induction rule: rtranclp_induct) (auto dest: task_same)

text \<open>
  C35: A stop that finds the tunnel up ends it.  Take a running tunnel to which a stop has sent its
  event, the stopping threads having returned, and let its tasks go on for as long as they like:
  the read of the event stays possible.  Once it has happened, the run ends, whichever tasks are
  scheduled and in whichever order: every possible sequence of steps of the tunnel's thread is
  finite or goes on from a state in which \<^verbatim>\<open>run\<close> is cleared, the tasks of the IP stack and all
  session tasks have ended, the descriptors are closed and the tunnel is down.  The wait for the
  tasks is part of it: they end because they test \<^verbatim>\<open>run\<close> and because the sessions' time-outs are
  set to zero.  A session may still transfer what it finds ready, any finite number of times.
\<close>

theorem stop_ends_run:
  assumes "sync_reach s" "s_main s = MainRun" "tsync s AND SYNC_SENT \<noteq> 0" "\<forall>t. s_pc s t = StopIdle" "task_step\<^sup>*\<^sup>* s s1"
  shows "\<exists>s2. (\<forall>ok. main_next ok (s_main s1) s1 = Some s2) \<and> inevitable tunnel_down s2"
proof -
  have "0 < s_pipe s"
    using sync_reach_inv [OF assms(1)] assms(2-4) by (auto simp: sync_inv_def sync_sent_def)
  then have s1: "s_main s1 = MainRun" "0 < s_pipe s1" "\<not> bit (tsync s1) 2"
    using tasks_same [OF assms(5)] assms(2) idle_unlocked [OF assms(1,4)] by simp_all
  let ?s2 = "s1\<lparr>s_main := MainRead, s_pipe := s_pipe s1 - min 4 (s_pipe s1), s_run := False\<rparr>"
  let ?s3 = "sync_event_ack ?s2" and ?s4 = "sync_event_term (sync_event_ack ?s2)"
  have "winding_down ?s4"
    using s1(3) terminated_ends by (simp add: winding_down_def after_io_def atomics)
  then have "inevitable tunnel_down ?s4" by (rule winding_down_ends)
  then have "inevitable tunnel_down ?s3"
    by (rule only_next [rotated 2]) (simp_all add: tasks_run_def sync_event_ack_def)
  then have "inevitable tunnel_down ?s2"
    by (rule only_next [rotated 2]) (simp_all add: tasks_run_def)
  moreover have "\<forall>ok. main_next ok (s_main s1) s1 = Some ?s2" using s1(1,2) by (simp add: sync_event_read_def)
  ultimately show ?thesis by blast
qed

text \<open>The tasks in action: a session is started and gets a turn, and the others wait.\<close>

fun task_play :: "task_ev list \<Rightarrow> sync \<Rightarrow> sync" where
  "task_play [] s = s"
| "task_play (e # es) s = task_play es (case task_next e s of Some s' \<Rightarrow> s' | None \<Rightarrow> s)"

lemma task_play_steps: "tasks_run (s_main s) \<Longrightarrow> task_step\<^sup>*\<^sup>* s (task_play es s)"
proof (induction es arbitrary: s)
  case (Cons e es)
  show ?case
  proof (cases "task_next e s")
    case (Some s')
    have t: "task_step s s'" using Cons.prems Some by (rule task_step.intros)
    then have "task_step\<^sup>*\<^sup>* s' (task_play es s')" using Cons.IH Cons.prems task_same(5) [OF t] by simp
    with t Some show ?thesis by (simp add: converse_rtranclp_into_rtranclp)
  qed (use Cons in simp)
qed simp

theorem stop_ends_run_witness:
  "let s = sync_play ([None, None, None] @ replicate 5 (Some 1)) sync_init;
       s1 = task_play [IoTurn 2 [(10000, 3)], SessTurn 0, TimerTurn] s in
     s_main s1 = MainRun \<and> s_sess s1 = [SessLive 10000 True 2] \<and> s_io s1 = IoWait False
     \<and> (\<exists>s2. main_next True (s_main s1) s1 = Some s2 \<and> inevitable tunnel_down s2)"
proof -
  let ?s = "sync_play ([None, None, None] @ replicate 5 (Some 1)) sync_init"
  let ?s1 = "task_play [IoTurn 2 [(10000, 3)], SessTurn 0, TimerTurn] ?s"
  have r: "sync_reach ?s" by (rule play_reach) (rule rtranclp.rtrancl_refl)
  have e: "s_main ?s = MainRun \<and> tsync ?s AND SYNC_SENT \<noteq> 0 \<and> (\<forall>t. s_pc ?s t = StopIdle)"
    by (simp add: play_evals numeral_eq_Suc)
  have v: "s_main ?s1 = MainRun \<and> s_sess ?s1 = [SessLive 10000 True 2] \<and> s_io ?s1 = IoWait False" by code_simp
  have "task_step\<^sup>*\<^sup>* ?s ?s1" by (rule task_play_steps) (use e in \<open>simp add: tasks_run_def\<close>)
  with stop_ends_run [OF r, of ?s1] e v show ?thesis unfolding Let_def by blast
qed

text \<open>
  A stop can get lost.  A thread that enters \<^verbatim>\<open>stop\<close> just before start-up is complete decides
  to leave the stop flag; if start-up completes and the main thread looks for the flag before the
  thread has set it, the tunnel runs on with no event sent: the thread has returned from
  \<^verbatim>\<open>stop\<close>, and nothing will end the run.
\<close>

theorem stop_can_get_lost:
  "\<exists>s. sync_reach s \<and> s_asked s \<and> s_main s = MainRun \<and> (\<forall>t. s_pc s t = StopIdle)
     \<and> (\<forall>ok. main_next ok (s_main s) s = None)"
proof -
  let ?s = "sync_play [None, Some 1, Some 1, None, None, Some 1, Some 1] sync_init"
  have r: "sync_reach ?s" by (rule play_reach) (rule rtranclp.rtrancl_refl)
  have e: "s_asked ?s \<and> s_main ?s = MainRun \<and> (\<forall>t. s_pc ?s t = StopIdle) \<and> s_pipe ?s = 0"
    by (simp add: play_evals)
  then have "\<forall>ok. main_next ok (s_main ?s) ?s = None" by (simp add: sync_event_read_def del: sync_play.simps)
  with r e show ?thesis by blast
qed

text \<open>
  A stop of a tunnel that is already down is carried out on the next one: the flag that it leaves
  makes the next run return at once, without having run at all.
\<close>

theorem stale_stop_ends_next_run:
  assumes "sync_reach s" "s_main s = MainDown" "tsync s AND SYNC_STOP \<noteq> 0" "\<forall>t. s_pc s t = StopIdle" "k \<le> 5"
  shows "\<not> s_run (sync_play (replicate k None) s) \<and> s_main (sync_play (replicate 5 None) s) = MainDown"
proof -
  have "\<not> s_run s" using sync_reach_inv [OF assms(1)] assms(2) by (simp add: sync_inv_def sync_fds_def)
  moreover have "k \<in> {0, 1, 2, 3, 4, 5}" using assms(5) by auto
  ultimately show ?thesis
    using assms(2,3) idle_unlocked [OF assms(1,4)] by (auto simp: numeral_eq_Suc atomics)
qed

theorem stale_stop_ends_next_run_witness:
  "let s = sync_play (replicate 4 (Some 1)) sync_init in \<not> s_run (sync_play (replicate 3 None) s)
     \<and> s_main (sync_play (replicate 5 None) s) = MainDown"
proof -
  let ?s = "sync_play (replicate 4 (Some 1)) sync_init"
  have r: "sync_reach ?s" by (rule play_reach) (rule rtranclp.rtrancl_refl)
  have e: "s_main ?s = MainDown \<and> tsync ?s AND SYNC_STOP \<noteq> 0 \<and> (\<forall>t. s_pc ?s t = StopIdle)"
    by (simp add: play_evals numeral_eq_Suc)
  show ?thesis using stale_stop_ends_next_run [OF r, of 3] e unfolding Let_def by force
qed

end
