(* ===== verification/C_Memory.thy ===== *)
theory C_Memory
  imports Prelude
begin

text \<open>
  Heap buffers of the badvpn engine: a buffer is the list of its bytes, and every read and write of
  a range is an operation that fails with \<^const>\<open>None\<close> when the range leaves the buffer, so that a
  definition built from them is memory safe exactly where it returns a value.  Also the layout of a
  C \<^verbatim>\<open>int\<close> in memory and the conversion of a \<^verbatim>\<open>size_t\<close> expression to \<^verbatim>\<open>int\<close>.
\<close>

named_theorems mem_simps \<open>rewrite rules for reads of written buffers\<close>

section \<open>Ranges of a buffer\<close>

definition in_range :: "bytes \<Rightarrow> int \<Rightarrow> int \<Rightarrow> bool" where
  "in_range m off n \<longleftrightarrow> 0 \<le> off \<and> 0 \<le> n \<and> off + n \<le> int (length m)"

definition load :: "bytes \<Rightarrow> int \<Rightarrow> int \<Rightarrow> bytes option" where
  "load m off n = (if in_range m off n then Some (take (nat n) (drop (nat off) m)) else None)"

definition store :: "bytes \<Rightarrow> int \<Rightarrow> bytes \<Rightarrow> bytes option" where
  "store m off xs = (if in_range m off (int (length xs))
     then Some (take (nat off) m @ xs @ drop (nat off + length xs) m) else None)"

text \<open>Two buffers of one length that agree on the bytes of a range.\<close>

definition agree :: "bytes \<Rightarrow> bytes \<Rightarrow> int \<Rightarrow> int \<Rightarrow> bool" where
  "agree m m' lo hi \<longleftrightarrow> length m = length m' \<and> (\<forall>i < length m. lo \<le> int i \<and> int i < hi \<longrightarrow> m ! i = m' ! i)"

lemma length_load: "load m off n = Some xs \<Longrightarrow> int (length xs) = n"
  by (auto simp: load_def in_range_def split: if_splits)

lemma length_store: "store m off xs = Some m' \<Longrightarrow> length m' = length m"
  by (auto simp: store_def in_range_def split: if_splits)

lemma load_in_range: "in_range m off n \<Longrightarrow> \<exists>xs. load m off n = Some xs"
  by (simp add: load_def)

lemma store_in_range: "in_range m off (int (length xs)) \<Longrightarrow> \<exists>m'. store m off xs = Some m'"
  by (simp add: store_def)

lemma store_nth_in:
  assumes "store m off xs = Some m'" "off \<le> int i" "int i < off + int (length xs)"
  shows "m' ! i = xs ! (i - nat off)"
  using assms by (auto simp: store_def in_range_def nth_append min_def split: if_splits)

lemma store_nth_out:
  assumes "store m off xs = Some m'" "int i < off \<or> off + int (length xs) \<le> int i" "i < length m"
  shows "m' ! i = m ! i"
proof (cases "int i < off")
  case True
  with assms(1) show ?thesis by (auto simp: store_def in_range_def nth_append split: if_splits)
next
  case False
  with assms have "nat off + length xs \<le> i" by (auto simp: store_def in_range_def split: if_splits)
  with assms(1,3) show ?thesis
    by (auto simp: store_def in_range_def nth_append min_def split: if_splits)
qed

lemma load_nth:
  "load m off n = Some xs \<longleftrightarrow>
     in_range m off n \<and> int (length xs) = n \<and> (\<forall>i < length xs. m ! (nat off + i) = xs ! i)"
  by (auto simp: load_def in_range_def list_eq_iff_nth_eq split: if_splits)

lemma load_store_same [mem_simps]:
  assumes "store m off xs = Some m'"
  shows "load m' off (int (length xs)) = Some xs"
  using assms by (auto simp: load_nth store_def in_range_def nth_append min_def split: if_splits)

lemma load_append:
  "load m a n = Some xs \<Longrightarrow> load m (a + n) k = Some ys \<Longrightarrow> load m a (n + k) = Some (xs @ ys)"
  by (auto simp: load_def in_range_def nat_add_distrib take_add split: if_splits) (simp add: add.commute)

lemma agree_refl [simp]: "agree m m lo hi"
  by (simp add: agree_def)

lemma agree_mono: "agree m m' lo hi \<Longrightarrow> lo \<le> lo' \<Longrightarrow> hi' \<le> hi \<Longrightarrow> agree m m' lo' hi'"
  by (auto simp: agree_def)

lemma agree_trans: "agree m m' lo hi \<Longrightarrow> agree m' m'' lo hi \<Longrightarrow> agree m m'' lo hi"
  by (auto simp: agree_def)

lemma agree_store:
  assumes "store m off xs = Some m'" "hi \<le> off \<or> off + int (length xs) \<le> lo"
  shows "agree m m' lo hi"
  using assms length_store [OF assms(1)] store_nth_out [OF assms(1)] by (auto simp: agree_def)

lemma load_agree:
  assumes "agree m m' lo hi" "lo \<le> off" "off + n \<le> hi"
  shows "load m' off n = load m off n"
proof -
  have "take (nat n) (drop (nat off) m') = take (nat n) (drop (nat off) m)" if "in_range m off n"
    using assms that by (intro nth_equalityI) (auto simp: agree_def in_range_def)
  then show ?thesis using assms by (auto simp: load_def in_range_def agree_def)
qed

lemma load_store_other [mem_simps]:
  "store m off xs = Some m' \<Longrightarrow> p + n \<le> off \<or> off + int (length xs) \<le> p \<Longrightarrow> load m' p n = load m p n"
  by (rule load_agree [OF agree_store]) auto

section \<open>Integers\<close>

text \<open>The conversion of an out-of-range value to \<^verbatim>\<open>int\<close> wraps around on the targets.\<close>

definition c_int :: "int \<Rightarrow> int" where
  "c_int x = sint (word_of_int x :: u32)"

definition INT_MAX :: int where
  "INT_MAX = 2147483647"

lemma c_int_id: "- INT_MAX \<le> x \<Longrightarrow> x \<le> INT_MAX \<Longrightarrow> c_int x = x"
  by (simp add: c_int_def INT_MAX_def sint_sbintrunc' signed_take_bit_int_eq_self)

text \<open>An \<^verbatim>\<open>int\<close> in memory, low byte first.\<close>

definition mem_int :: "int \<Rightarrow> bytes" where
  "mem_int v = rev (be32 (word_of_int v))"

definition rd_int :: "bytes \<Rightarrow> int" where
  "rd_int bs = sint (rd_be32 (bs ! 3) (bs ! 2) (bs ! 1) (bs ! 0))"

lemma length_mem_int [simp]: "length (mem_int v) = 4"
  by (simp add: mem_int_def)

lemma rd_int_mem_int: "0 \<le> v \<Longrightarrow> v \<le> INT_MAX \<Longrightarrow> rd_int (mem_int v) = v"
proof -
  assume v: "0 \<le> v" "v \<le> INT_MAX"
  have "rd_int (mem_int v) = c_int v"
    by (simp add: rd_int_def mem_int_def be32_def rd_be32_be32 c_int_def)
  with v show ?thesis by (simp add: c_int_id INT_MAX_def)
qed

section \<open>Allocation\<close>

text \<open>The C library's \<^verbatim>\<open>malloc\<close> is a parameter: a fresh buffer of the size asked for, or failure.\<close>

type_synonym allocator = "int \<Rightarrow> bytes option"

definition malloc_ok :: "allocator \<Rightarrow> bool" where
  "malloc_ok malloc \<longleftrightarrow> (\<forall>n m. malloc n = Some m \<longrightarrow> int (length m) = n)"

definition SIZE_MAX :: int where
  "SIZE_MAX = 18446744073709551615"

definition BAlloc :: "allocator \<Rightarrow> int \<Rightarrow> bytes option" where
  "BAlloc malloc n = (if n = 0 then malloc 1 else malloc n)"

definition BAllocArray :: "allocator \<Rightarrow> int \<Rightarrow> int \<Rightarrow> bytes option" where
  "BAllocArray malloc count n =
     (if count = 0 \<or> n = 0 then malloc 1
      else if count > SIZE_MAX div n then None
      else BAlloc malloc (count * n))"

lemma BAllocArray_length:
  "malloc_ok malloc \<Longrightarrow> BAllocArray malloc count n = Some m \<Longrightarrow> 0 < count \<Longrightarrow> 0 < n \<Longrightarrow>
   int (length m) = count * n"
  by (auto simp: BAllocArray_def BAlloc_def malloc_ok_def split: if_splits)

definition zero_malloc :: allocator where
  "zero_malloc n = (if 0 \<le> n then Some (replicate (nat n) 0) else None)"

lemma zero_malloc_ok: "malloc_ok zero_malloc"
  by (simp add: malloc_ok_def zero_malloc_def)

section \<open>Sizes with an overflow flag\<close>

record bsize =
  is_overflow :: bool
  bvalue :: int

definition bsize_fromsize :: "int \<Rightarrow> bsize" where
  "bsize_fromsize v = \<lparr>is_overflow = False, bvalue = v\<rparr>"

definition bsize_fromint :: "int \<Rightarrow> bsize" where
  "bsize_fromint v = \<lparr>is_overflow = (v < 0 \<or> v > SIZE_MAX), bvalue = v mod (SIZE_MAX + 1)\<rparr>"

definition bsize_toint :: "bsize \<Rightarrow> int option" where
  "bsize_toint s = (if is_overflow s \<or> bvalue s > INT_MAX then None else Some (bvalue s))"

definition bsize_add :: "bsize \<Rightarrow> bsize \<Rightarrow> bsize" where
  "bsize_add s1 s2 =
     \<lparr>is_overflow = (is_overflow s1 \<or> is_overflow s2 \<or> bvalue s2 > SIZE_MAX - bvalue s1),
      bvalue = (bvalue s1 + bvalue s2) mod (SIZE_MAX + 1)\<rparr>"

definition bsize_max :: "bsize \<Rightarrow> bsize \<Rightarrow> bsize" where
  "bsize_max s1 s2 =
     \<lparr>is_overflow = (is_overflow s1 \<or> is_overflow s2),
      bvalue = (if bvalue s1 > bvalue s2 then bvalue s1 else bvalue s2)\<rparr>"

definition bsize_mul :: "bsize \<Rightarrow> bsize \<Rightarrow> bsize" where
  "bsize_mul s1 s2 =
     \<lparr>is_overflow = (is_overflow s1 \<or> is_overflow s2 \<or> bvalue s1 \<noteq> 0 \<and> bvalue s2 > SIZE_MAX div bvalue s1),
      bvalue = bvalue s1 * bvalue s2 mod (SIZE_MAX + 1)\<rparr>"

lemmas bsize_defs = bsize_fromsize_def bsize_add_def bsize_max_def bsize_mul_def

text \<open>Consecutive writes through an advancing pointer.\<close>

fun put_seq :: "bytes \<Rightarrow> int \<Rightarrow> bytes list \<Rightarrow> bytes option" where
  "put_seq m p [] = Some m"
| "put_seq m p (x # xs) = (case store m p x of None \<Rightarrow> None | Some m' \<Rightarrow> put_seq m' (p + int (length x)) xs)"

lemma put_seq_store:
  assumes "0 \<le> p" "p + int (length (concat xs)) \<le> int (length m)"
  obtains m' where "put_seq m p xs = Some m'" "length m' = length m" "agree m m' 0 p"
    "load m' p (int (length (concat xs))) = Some (concat xs)"
  using assms
proof (induction xs arbitrary: m p thesis)
  case Nil
  then show ?case by (simp add: load_def in_range_def)
next
  case (Cons x xs)
  obtain m1 where m1: "store m p x = Some m1"
    using Cons.prems(2,3) store_in_range [of m p x] by (auto simp: in_range_def)
  have l1: "length m1 = length m" by (rule length_store [OF m1])
  let ?q = "p + int (length x)"
  obtain m2 where m2: "put_seq m1 ?q xs = Some m2" "length m2 = length m1" "agree m1 m2 0 ?q"
    "load m2 ?q (int (length (concat xs))) = Some (concat xs)"
    by (rule Cons.IH [where p = ?q and m = m1]) (use Cons.prems(2,3) l1 in auto)
  have "load m2 p (int (length x)) = Some x"
    using load_agree [OF m2(3), of p "int (length x)"] load_store_same [OF m1] Cons.prems(2) by simp
  from load_append [OF this m2(4)]
  have "load m2 p (int (length (concat (x # xs)))) = Some (concat (x # xs))" by simp
  moreover have "agree m m2 0 p"
    using agree_trans [OF agree_store [OF m1, of p 0] agree_mono [OF m2(3)]] by simp
  ultimately show ?case using Cons.prems(1) [of m2] m1 m2(1,2) l1 by simp
qed

text \<open>Adjacent writes are one write, in either order.\<close>

lemma store_parts: "length B = length xs \<Longrightarrow> store (A @ B @ C) (int (length A)) xs = Some (A @ xs @ C)"
  by (simp add: store_def in_range_def)

lemma in_rangeE:
  assumes "in_range m off (int n)"
  obtains A B C where "m = A @ B @ C" "off = int (length A)" "length B = n"
proof
  show "m = take (nat off) m @ take n (drop (nat off) m) @ drop (nat off + n) m"
    by (metis append_assoc append_take_drop_id take_add)
qed (use assms in \<open>auto simp: in_range_def\<close>)

lemma store_behind_then_before:
  assumes "store m off (xs @ ys) = Some m'"
  obtains m1 where "store m (off + int (length xs)) ys = Some m1" "store m1 off xs = Some m'"
proof -
  have "in_range m off (int (length (xs @ ys)))" using assms by (auto simp: store_def split: if_splits)
  then obtain A B C where p: "m = A @ B @ C" "off = int (length A)" "length B = length (xs @ ys)" by (rule in_rangeE)
  obtain B1 B2 where b: "B = B1 @ B2" "length B1 = length xs" "length B2 = length ys"
    using p(3) by (metis append_take_drop_id length_append length_drop length_take min.absorb2 le_add1 diff_add_inverse)
  have "store m (off + int (length xs)) ys = Some ((A @ B1) @ ys @ C)"
    using store_parts [of B2 ys "A @ B1" C] p b by simp
  moreover have "store ((A @ B1) @ ys @ C) off xs = Some m'"
    using store_parts [of B1 xs A "ys @ C"] store_parts [of B "xs @ ys" A C] p b assms by simp
  ultimately show thesis by (rule that)
qed

lemma put_seq_is_store:
  assumes "in_range m p (int (length (concat xs)))"
  shows "put_seq m p xs = store m p (concat xs)"
  using assms
proof (induction xs arbitrary: m p)
  case Nil
  then show ?case by (simp add: store_def in_range_def)
next
  case (Cons x xs)
  then have "in_range m p (int (length (x @ concat xs)))" by simp
  then obtain A B C where m: "m = A @ B @ C" "p = int (length A)" "length B = length (x @ concat xs)" by (rule in_rangeE)
  obtain B1 B2 where b: "B = B1 @ B2" "length B1 = length x" "length B2 = length (concat xs)"
    using m(3) by (metis append_take_drop_id length_append length_drop length_take min.absorb2 le_add1 diff_add_inverse)
  have s: "store m p x = Some (A @ x @ B2 @ C)" using store_parts [of B1 x A "B2 @ C"] m b by simp
  have "put_seq (A @ x @ B2 @ C) (p + int (length x)) xs = store (A @ x @ B2 @ C) (p + int (length x)) (concat xs)"
    by (rule Cons.IH) (use m b in \<open>simp add: in_range_def\<close>)
  also have "\<dots> = Some (A @ x @ concat xs @ C)" using store_parts [of B2 "concat xs" "A @ x" C] m b by simp
  finally show ?case using s store_parts [of B "x @ concat xs" A C] m by simp
qed

end
