(* ===== verification/Chunk_Buffer.thy ===== *)
theory Chunk_Buffer
  imports C_Memory
begin

text \<open>
  The circular packet buffer of \<^verbatim>\<open>badvpn/structure/ChunkBuffer2.h\<close> and the buffering element
  \<^verbatim>\<open>badvpn/flow/PacketBuffer.c\<close> on top of it.  Packets lie in the buffer as a block that holds their
  length, followed by the blocks of their bytes; no packet is split at the end of the buffer.
  Instead the wrap point moves to the end of the last packet behind which a packet of the full MTU
  would no longer fit.  Pointers into the buffer are byte offsets.
\<close>

section \<open>The code: ChunkBuffer2\<close>

definition bdivide_up :: "int \<Rightarrow> int \<Rightarrow> int" where
  "bdivide_up a b = (let r = a mod b in if r > 0 then a div b + 1 else a div b)"

text \<open>A block is one C \<^verbatim>\<open>int\<close>, four bytes.\<close>

record chunk_buffer2 =
  cb_buffer :: bytes
  cb_size :: int
  cb_wrap :: int
  cb_start :: int
  cb_used :: int
  cb_mtu :: int
  cb_input_dest :: "int option"
  cb_input_avail :: int
  cb_output_dest :: "int option"
  cb_output_avail :: int

definition block_len :: "bytes \<Rightarrow> int \<Rightarrow> int option" where
  "block_len m i = map_option rd_int (load m (4 * i) 4)"

definition set_block_len :: "bytes \<Rightarrow> int \<Rightarrow> int \<Rightarrow> bytes option" where
  "set_block_len m i v = store m (4 * i) (mem_int v)"

definition ChunkBuffer2_end :: "chunk_buffer2 \<Rightarrow> int" where
  "ChunkBuffer2_end b =
     (if cb_used b \<ge> cb_wrap b - cb_start b then cb_used b - (cb_wrap b - cb_start b)
      else cb_start b + cb_used b)"

definition ChunkBuffer2_assert_buffer :: "chunk_buffer2 \<Rightarrow> bool" where
  "ChunkBuffer2_assert_buffer b \<longleftrightarrow>
     cb_size b > 0 \<and> cb_wrap b > 0 \<and> cb_wrap b \<le> cb_size b \<and> cb_start b \<ge> 0 \<and> cb_start b < cb_wrap b
     \<and> cb_used b \<ge> 0 \<and> cb_used b \<le> cb_wrap b
     \<and> (cb_wrap b = cb_size b \<or> cb_used b \<ge> cb_wrap b - cb_start b) \<and> cb_mtu b \<ge> 0"

definition ChunkBuffer2_free :: "chunk_buffer2 \<Rightarrow> int" where
  "ChunkBuffer2_free b =
     (if cb_used b \<ge> cb_wrap b - cb_start b then cb_start b - ChunkBuffer2_end b
      else cb_size b - ChunkBuffer2_end b)"

definition ChunkBuffer2_assert_io :: "chunk_buffer2 \<Rightarrow> bool" where
  "ChunkBuffer2_assert_io b \<longleftrightarrow>
     (let e = ChunkBuffer2_end b; free = ChunkBuffer2_free b in
        if cb_size b - e - 1 < cb_mtu b then cb_input_dest b = None \<and> cb_input_avail b = -1
        else if free > 0 then cb_input_dest b = Some (4 * (e + 1)) \<and> cb_input_avail b = c_int ((free - 1) * 4)
        else cb_input_dest b = None \<and> cb_input_avail b = -1)
     \<and> (if cb_used b > 0 then
          (case block_len (cb_buffer b) (cb_start b) of None \<Rightarrow> False
           | Some datalen \<Rightarrow> datalen \<ge> 0
               \<and> bdivide_up datalen 4 \<le> cb_used b - 1
               \<and> bdivide_up datalen 4 \<le> cb_wrap b - cb_start b - 1
               \<and> cb_output_dest b = Some (4 * (cb_start b + 1)) \<and> cb_output_avail b = datalen)
        else cb_output_dest b = None \<and> cb_output_avail b = -1)"

definition ChunkBuffer2_update_input :: "chunk_buffer2 \<Rightarrow> chunk_buffer2" where
  "ChunkBuffer2_update_input b =
     (let e = ChunkBuffer2_end b in
        if cb_size b - e - 1 < cb_mtu b then b\<lparr>cb_input_dest := None, cb_input_avail := -1\<rparr>
        else let free = ChunkBuffer2_free b in
          if free > 0 then b\<lparr>cb_input_dest := Some (4 * (e + 1)), cb_input_avail := c_int ((free - 1) * 4)\<rparr>
          else b\<lparr>cb_input_dest := None, cb_input_avail := -1\<rparr>)"

definition ChunkBuffer2_update_output :: "chunk_buffer2 \<Rightarrow> chunk_buffer2 option" where
  "ChunkBuffer2_update_output b =
     (if cb_used b > 0 then
        (case block_len (cb_buffer b) (cb_start b) of None \<Rightarrow> None
         | Some datalen \<Rightarrow> Some (b\<lparr>cb_output_dest := Some (4 * (cb_start b + 1)), cb_output_avail := datalen\<rparr>))
      else Some (b\<lparr>cb_output_dest := None, cb_output_avail := -1\<rparr>))"

definition ChunkBuffer2_calc_blocks :: "int \<Rightarrow> int \<Rightarrow> int" where
  "ChunkBuffer2_calc_blocks chunk_len num =
     (let chunk_data_blocks = bdivide_up chunk_len 4 in
        if chunk_data_blocks > INT_MAX - 1 then -1
        else let chunk_blocks = 1 + chunk_data_blocks in
          if num > INT_MAX - 1 then -1
          else let num_chunks = num + 1 in
            if chunk_blocks > INT_MAX div num_chunks then -1
            else chunk_blocks * num_chunks)"

text \<open>The caller passes the memory of \<open>blocks\<close> blocks.\<close>

definition ChunkBuffer2_Init :: "bytes \<Rightarrow> int \<Rightarrow> int \<Rightarrow> chunk_buffer2 option" where
  "ChunkBuffer2_Init buffer blocks mtu =
     (let b = \<lparr>cb_buffer = buffer, cb_size = blocks, cb_wrap = blocks, cb_start = 0, cb_used = 0,
               cb_mtu = bdivide_up mtu 4, cb_input_dest = None, cb_input_avail = -1,
               cb_output_dest = None, cb_output_avail = -1\<rparr>
      in ChunkBuffer2_update_output (ChunkBuffer2_update_input b))"

definition cb_append :: "chunk_buffer2 \<Rightarrow> int \<Rightarrow> int \<Rightarrow> chunk_buffer2" where
  "cb_append b e blocklen =
     (let b1 = b\<lparr>cb_used := cb_used b + (1 + blocklen)\<rparr> in
        if cb_used b1 \<le> cb_wrap b1 - cb_start b1 \<and> cb_mtu b1 > cb_size b1 - (e + 1 + blocklen) - 1
        then b1\<lparr>cb_wrap := e + 1 + blocklen\<rparr> else b1)"

definition ChunkBuffer2_SubmitPacket :: "chunk_buffer2 \<Rightarrow> int \<Rightarrow> chunk_buffer2 option" where
  "ChunkBuffer2_SubmitPacket b len =
     (let e = ChunkBuffer2_end b; blocklen = bdivide_up len 4 in
      case set_block_len (cb_buffer b) e len of
        None \<Rightarrow> None
      | Some m \<Rightarrow>
          (let b1 = ChunkBuffer2_update_input (cb_append (b\<lparr>cb_buffer := m\<rparr>) e blocklen)
           in if cb_used b1 = 1 + blocklen then ChunkBuffer2_update_output b1 else Some b1))"

definition cb_advance :: "chunk_buffer2 \<Rightarrow> int \<Rightarrow> chunk_buffer2" where
  "cb_advance b n =
     (let b1 = b\<lparr>cb_start := cb_start b + (1 + n), cb_used := cb_used b - (1 + n)\<rparr> in
        if cb_start b1 = cb_wrap b1 then b1\<lparr>cb_start := 0, cb_wrap := cb_size b1\<rparr> else b1)"

definition ChunkBuffer2_ConsumePacket :: "chunk_buffer2 \<Rightarrow> chunk_buffer2 option" where
  "ChunkBuffer2_ConsumePacket b =
     (case block_len (cb_buffer b) (cb_start b) of
        None \<Rightarrow> None
      | Some datalen \<Rightarrow>
          (let blocklen = bdivide_up datalen 4;
               data_wrapped = (cb_used b \<ge> cb_wrap b - cb_start b);
               b1 = cb_advance b blocklen;
               b2 = (if data_wrapped then ChunkBuffer2_update_input b1 else b1)
           in ChunkBuffer2_update_output b2))"

section \<open>The code: PacketBuffer\<close>

text \<open>
  The element receives packets straight into the chunk buffer and sends them from it.  An
  outstanding receive is the address given to the producer, an outstanding send the address and
  the length given to the consumer.
\<close>

record packet_buffer =
  pb_buf :: chunk_buffer2
  pb_input_mtu :: int
  pb_recv :: "int option"
  pb_send :: "(int \<times> int) option"

definition PacketBuffer_Init :: "allocator \<Rightarrow> int \<Rightarrow> int \<Rightarrow> packet_buffer option" where
  "PacketBuffer_Init malloc input_mtu num_packets =
     (let num_blocks = ChunkBuffer2_calc_blocks input_mtu num_packets in
      if num_blocks < 0 then None
      else case BAllocArray malloc num_blocks 4 of
        None \<Rightarrow> None
      | Some buf_data \<Rightarrow>
          (case ChunkBuffer2_Init buf_data num_blocks input_mtu of
             None \<Rightarrow> None
           | Some b \<Rightarrow> Some \<lparr>pb_buf = b, pb_input_mtu = input_mtu, pb_recv = cb_input_dest b, pb_send = None\<rparr>))"

definition pb_schedule_recv :: "packet_buffer \<Rightarrow> packet_buffer" where
  "pb_schedule_recv pb = pb\<lparr>pb_recv := cb_input_dest (pb_buf pb)\<rparr>"

definition pb_schedule_send :: "packet_buffer \<Rightarrow> packet_buffer" where
  "pb_schedule_send pb =
     pb\<lparr>pb_send := map_option (\<lambda>d. (d, cb_output_avail (pb_buf pb))) (cb_output_dest (pb_buf pb))\<rparr>"

definition PacketBuffer_input_handler_done :: "packet_buffer \<Rightarrow> int \<Rightarrow> packet_buffer option" where
  "PacketBuffer_input_handler_done pb in_len =
     (let was_empty = (cb_output_avail (pb_buf pb) < 0) in
      case ChunkBuffer2_SubmitPacket (pb_buf pb) in_len of
        None \<Rightarrow> None
      | Some b \<Rightarrow>
          (let pb1 = pb\<lparr>pb_buf := b\<rparr>;
               pb2 = (if cb_input_avail b \<ge> pb_input_mtu pb then pb_schedule_recv pb1 else pb1)
           in Some (if was_empty then pb_schedule_send pb2 else pb2)))"

definition PacketBuffer_output_handler_done :: "packet_buffer \<Rightarrow> packet_buffer option" where
  "PacketBuffer_output_handler_done pb =
     (let was_full = (cb_input_avail (pb_buf pb) < pb_input_mtu pb) in
      case ChunkBuffer2_ConsumePacket (pb_buf pb) of
        None \<Rightarrow> None
      | Some b \<Rightarrow>
          (let pb1 = pb\<lparr>pb_buf := b\<rparr>;
               pb2 = (if was_full \<and> cb_input_avail b \<ge> pb_input_mtu pb then pb_schedule_recv pb1 else pb1)
           in Some (if cb_output_avail b \<ge> 0 then pb_schedule_send pb2 else pb2)))"

text \<open>
  The two sides of the element.  The producer that finishes a receive has written the packet at
  the address it was given; the consumer that finishes a send has read the packet from the address
  and the length it was given.
\<close>

definition pb_produce :: "packet_buffer \<Rightarrow> bytes \<Rightarrow> (packet_buffer \<times> bool) option" where
  "pb_produce pb pkt =
     (case pb_recv pb of
        None \<Rightarrow> Some (pb, False)
      | Some d \<Rightarrow>
          (case store (cb_buffer (pb_buf pb)) d pkt of
             None \<Rightarrow> None
           | Some m \<Rightarrow>
               map_option (\<lambda>pb'. (pb', True))
                 (PacketBuffer_input_handler_done
                    (pb\<lparr>pb_recv := None, pb_buf := (pb_buf pb)\<lparr>cb_buffer := m\<rparr>\<rparr>) (int (length pkt)))))"

definition pb_consume :: "packet_buffer \<Rightarrow> (packet_buffer \<times> bytes option) option" where
  "pb_consume pb =
     (case pb_send pb of
        None \<Rightarrow> Some (pb, None)
      | Some (d, n) \<Rightarrow>
          (case load (cb_buffer (pb_buf pb)) d n of
             None \<Rightarrow> None
           | Some pkt \<Rightarrow>
               map_option (\<lambda>pb'. (pb', Some pkt)) (PacketBuffer_output_handler_done (pb\<lparr>pb_send := None\<rparr>))))"

section \<open>Blocks\<close>

definition blocks :: "bytes \<Rightarrow> int" where
  "blocks x = bdivide_up (int (length x)) 4"

lemma bdivide_up_le: "bdivide_up n 4 \<le> k \<longleftrightarrow> n \<le> 4 * k"
  unfolding bdivide_up_def Let_def by (simp split: if_split) presburger

lemma bdivide_up_nonneg [simp]: "0 \<le> n \<Longrightarrow> 0 \<le> bdivide_up n 4"
  by (auto simp: bdivide_up_def Let_def)

lemma bdivide_up_cover: "n \<le> 4 * bdivide_up n 4"
  using bdivide_up_le by blast

lemma blocks_nonneg [simp]: "0 \<le> blocks x"
  by (simp add: blocks_def)

lemma blocks_cover: "int (length x) \<le> 4 * blocks x"
  unfolding blocks_def by (rule bdivide_up_cover)

lemma blocks_le: "blocks x \<le> k \<longleftrightarrow> int (length x) \<le> 4 * k"
  unfolding blocks_def by (rule bdivide_up_le)

text \<open>
  A run of packets laid out from block \<open>p\<close> up to block \<open>e\<close>, every one of them starting at most at
  block \<open>lim\<close>.
\<close>

primrec laid :: "bytes \<Rightarrow> int \<Rightarrow> int \<Rightarrow> bytes list \<Rightarrow> int \<Rightarrow> bool" where
  "laid m lim p [] e \<longleftrightarrow> p = e"
| "laid m lim p (x # xs) e \<longleftrightarrow>
     p \<le> lim \<and> block_len m p = Some (int (length x)) \<and> load m (4 * (p + 1)) (int (length x)) = Some x
     \<and> laid m lim (p + 1 + blocks x) xs e"

lemma laid_le: "laid m lim p xs e \<Longrightarrow> p + int (length xs) \<le> e"
proof (induction xs arbitrary: p)
  case (Cons x xs)
  then have "p + 1 + blocks x + int (length xs) \<le> e" by simp
  then show ?case using blocks_nonneg [of x] unfolding length_Cons of_nat_Suc by linarith
qed simp

lemma laid_append: "laid m lim p xs q \<Longrightarrow> laid m lim q ys e \<Longrightarrow> laid m lim p (xs @ ys) e"
  by (induction xs arbitrary: p) auto

lemma block_len_agree: "agree m m' lo hi \<Longrightarrow> lo \<le> 4 * p \<Longrightarrow> 4 * p + 4 \<le> hi \<Longrightarrow> block_len m' p = block_len m p"
  by (simp add: block_len_def load_agree)

lemma laid_agree:
  "laid m lim p xs e \<Longrightarrow> agree m m' lo hi \<Longrightarrow> lo \<le> 4 * p \<Longrightarrow> 4 * e \<le> hi \<Longrightarrow> laid m' lim p xs e"
proof (induction xs arbitrary: p)
  case (Cons x xs)
  then have t: "laid m lim (p + 1 + blocks x) xs e" by simp
  have le: "p + 1 + blocks x \<le> e" using laid_le [OF t] by simp
  have nn: "0 \<le> blocks x" and cv: "int (length x) \<le> 4 * blocks x" by (simp_all add: blocks_cover)
  have "block_len m' p = block_len m p"
    by (rule block_len_agree [OF Cons.prems(2)]) (use Cons.prems(3,4) le nn in linarith)+
  moreover have "load m' (4 * (p + 1)) (int (length x)) = load m (4 * (p + 1)) (int (length x))"
    by (rule load_agree [OF Cons.prems(2)]) (use Cons.prems(3,4) le cv in \<open>simp_all add: algebra_simps\<close>)
  moreover have "laid m' lim (p + 1 + blocks x) xs e"
    using Cons.IH [OF t] Cons.prems nn by auto
  ultimately show ?case using Cons.prems by simp
qed simp

lemma laid_blocks: "laid m lim p xs e \<Longrightarrow> e - p = (\<Sum>x\<leftarrow>xs. 1 + blocks x)"
  by (induction xs arbitrary: p) force+

section \<open>The packets a chunk buffer holds\<close>

text \<open>
  The last block at which a packet may start, the shape of the fields, and the two runs of packets
  the buffer holds: the ones before the wrap point and, once the data is wrapped, the ones from
  block 0 on.
\<close>

definition cb_lim :: "chunk_buffer2 \<Rightarrow> int" where
  "cb_lim b = cb_size b - 1 - cb_mtu b"

definition cb_wrapped :: "chunk_buffer2 \<Rightarrow> bool" where
  "cb_wrapped b \<longleftrightarrow> cb_used b \<ge> cb_wrap b - cb_start b"

definition cb_shape :: "chunk_buffer2 \<Rightarrow> bool" where
  "cb_shape b \<longleftrightarrow> 0 \<le> cb_mtu b \<and> 0 \<le> cb_lim b \<and> 4 * cb_size b = int (length (cb_buffer b))
     \<and> 4 * cb_size b \<le> INT_MAX \<and> 0 \<le> cb_start b \<and> cb_start b < cb_wrap b \<and> cb_wrap b \<le> cb_size b
     \<and> 0 \<le> cb_used b \<and> cb_lim b < cb_wrap b"

definition cb_holds :: "chunk_buffer2 \<Rightarrow> bytes list \<Rightarrow> bytes list \<Rightarrow> bool" where
  "cb_holds b A B \<longleftrightarrow>
     (if cb_wrapped b then
        A \<noteq> [] \<and> laid (cb_buffer b) (cb_lim b) (cb_start b) A (cb_wrap b)
        \<and> laid (cb_buffer b) (cb_lim b) 0 B (ChunkBuffer2_end b) \<and> ChunkBuffer2_end b \<le> cb_start b
      else cb_wrap b = cb_size b \<and> B = []
        \<and> laid (cb_buffer b) (cb_lim b) (cb_start b) A (ChunkBuffer2_end b) \<and> ChunkBuffer2_end b \<le> cb_lim b)"

definition cb_in_ok :: "chunk_buffer2 \<Rightarrow> bool" where
  "cb_in_ok b \<longleftrightarrow> cb_input_dest b = cb_input_dest (ChunkBuffer2_update_input b)
     \<and> cb_input_avail b = cb_input_avail (ChunkBuffer2_update_input b)"

definition cb_out_ok :: "chunk_buffer2 \<Rightarrow> bool" where
  "cb_out_ok b \<longleftrightarrow>
     (if cb_used b > 0 then block_len (cb_buffer b) (cb_start b) = Some (cb_output_avail b)
        \<and> cb_output_dest b = Some (4 * (cb_start b + 1))
      else cb_output_dest b = None \<and> cb_output_avail b = -1)"

definition cb_repr :: "chunk_buffer2 \<Rightarrow> bytes list \<Rightarrow> bool" where
  "cb_repr b q \<longleftrightarrow> cb_shape b \<and> cb_in_ok b \<and> cb_out_ok b \<and> (\<exists>A B. q = A @ B \<and> cb_holds b A B)"

lemma update_input_fields [simp]:
  "cb_buffer (ChunkBuffer2_update_input b) = cb_buffer b"
  "cb_size (ChunkBuffer2_update_input b) = cb_size b"
  "cb_wrap (ChunkBuffer2_update_input b) = cb_wrap b"
  "cb_start (ChunkBuffer2_update_input b) = cb_start b"
  "cb_used (ChunkBuffer2_update_input b) = cb_used b"
  "cb_mtu (ChunkBuffer2_update_input b) = cb_mtu b"
  "cb_output_dest (ChunkBuffer2_update_input b) = cb_output_dest b"
  "cb_output_avail (ChunkBuffer2_update_input b) = cb_output_avail b"
  by (simp_all add: ChunkBuffer2_update_input_def Let_def)

lemma end_update_input [simp]: "ChunkBuffer2_end (ChunkBuffer2_update_input b) = ChunkBuffer2_end b"
  by (simp add: ChunkBuffer2_end_def)

lemma update_input_views [simp]:
  "cb_lim (ChunkBuffer2_update_input b) = cb_lim b"
  "cb_wrapped (ChunkBuffer2_update_input b) = cb_wrapped b"
  "cb_shape (ChunkBuffer2_update_input b) = cb_shape b"
  "cb_holds (ChunkBuffer2_update_input b) A B = cb_holds b A B"
  "cb_out_ok (ChunkBuffer2_update_input b) = cb_out_ok b"
  by (simp_all add: cb_lim_def cb_wrapped_def cb_shape_def cb_holds_def cb_out_ok_def)

lemma update_input_ok [simp]: "cb_in_ok (ChunkBuffer2_update_input b)"
  by (simp add: cb_in_ok_def ChunkBuffer2_update_input_def ChunkBuffer2_end_def ChunkBuffer2_free_def Let_def)

lemma update_output_Some:
  assumes "ChunkBuffer2_update_output b = Some b'"
  obtains d n where "b' = b\<lparr>cb_output_dest := d, cb_output_avail := n\<rparr>" "cb_out_ok b'"
  using assms by (auto simp: ChunkBuffer2_update_output_def cb_out_ok_def split: if_splits option.splits)

lemma output_fields_views [simp]:
  "cb_lim (b\<lparr>cb_output_dest := d, cb_output_avail := n\<rparr>) = cb_lim b"
  "cb_wrapped (b\<lparr>cb_output_dest := d, cb_output_avail := n\<rparr>) = cb_wrapped b"
  "cb_shape (b\<lparr>cb_output_dest := d, cb_output_avail := n\<rparr>) = cb_shape b"
  "ChunkBuffer2_end (b\<lparr>cb_output_dest := d, cb_output_avail := n\<rparr>) = ChunkBuffer2_end b"
  "cb_holds (b\<lparr>cb_output_dest := d, cb_output_avail := n\<rparr>) A B = cb_holds b A B"
  by (simp_all add: cb_lim_def cb_wrapped_def cb_shape_def cb_holds_def ChunkBuffer2_end_def)

lemma in_ok_output_fields [simp]:
  "cb_in_ok (b\<lparr>cb_output_dest := d, cb_output_avail := n\<rparr>) = cb_in_ok b"
  by (simp add: cb_in_ok_def ChunkBuffer2_update_input_def ChunkBuffer2_free_def Let_def)

text \<open>The room behind the last packet, as the input fields report it.\<close>

lemma end_wrapped:
  "cb_wrapped b \<Longrightarrow> ChunkBuffer2_end b = cb_used b - (cb_wrap b - cb_start b)"
  "\<not> cb_wrapped b \<Longrightarrow> ChunkBuffer2_end b = cb_start b + cb_used b"
  by (simp_all add: ChunkBuffer2_end_def cb_wrapped_def)

lemma free_wrapped:
  "cb_wrapped b \<Longrightarrow> ChunkBuffer2_free b = cb_start b - ChunkBuffer2_end b"
  "\<not> cb_wrapped b \<Longrightarrow> ChunkBuffer2_free b = cb_size b - ChunkBuffer2_end b"
  by (simp_all add: ChunkBuffer2_free_def cb_wrapped_def)

lemma end_nonneg: "cb_shape b \<Longrightarrow> 0 \<le> ChunkBuffer2_end b"
  by (auto simp: ChunkBuffer2_end_def cb_shape_def)

lemma end_le_lim:
  assumes "cb_shape b" "cb_holds b A B"
  shows "ChunkBuffer2_end b \<le> cb_lim b"
proof (cases "cb_wrapped b")
  case True
  with assms(2) obtain a A' where "A = a # A'" "laid (cb_buffer b) (cb_lim b) (cb_start b) A (cb_wrap b)"
    "ChunkBuffer2_end b \<le> cb_start b" by (cases A) (auto simp: cb_holds_def)
  then show ?thesis by simp
next
  case False
  with assms(2) show ?thesis by (simp add: cb_holds_def)
qed

lemma input_fields:
  assumes s: "cb_shape b" and h: "cb_holds b A B" and i: "cb_in_ok b"
  shows "cb_input_dest b = (if ChunkBuffer2_free b > 0 then Some (4 * (ChunkBuffer2_end b + 1)) else None)"
    and "cb_input_avail b = (if ChunkBuffer2_free b > 0 then (ChunkBuffer2_free b - 1) * 4 else -1)"
proof -
  have l: "\<not> cb_size b - ChunkBuffer2_end b - 1 < cb_mtu b"
    using end_le_lim [OF s h] by (simp add: cb_lim_def)
  have "ChunkBuffer2_free b \<le> cb_size b"
    using s end_nonneg [OF s] by (auto simp: ChunkBuffer2_free_def cb_shape_def)
  then have "ChunkBuffer2_free b > 0 \<Longrightarrow> c_int ((ChunkBuffer2_free b - 1) * 4) = (ChunkBuffer2_free b - 1) * 4"
    using s by (intro c_int_id) (auto simp: cb_shape_def INT_MAX_def)
  then show "cb_input_dest b = (if ChunkBuffer2_free b > 0 then Some (4 * (ChunkBuffer2_end b + 1)) else None)"
    "cb_input_avail b = (if ChunkBuffer2_free b > 0 then (ChunkBuffer2_free b - 1) * 4 else -1)"
    using l i by (simp_all add: cb_in_ok_def ChunkBuffer2_update_input_def Let_def)
qed

section \<open>Submitting a packet\<close>

lemma placed:
  assumes st: "store m (4 * (e + 1)) x = Some m1" and sl: "set_block_len m1 e (int (length x)) = Some m2"
    and lim: "e \<le> lim" and len: "int (length x) \<le> INT_MAX"
  shows "laid m2 lim e [x] (e + 1 + blocks x)"
proof -
  from sl have s2: "store m1 (4 * e) (mem_int (int (length x))) = Some m2" by (simp add: set_block_len_def)
  have "load m2 (4 * e) 4 = Some (mem_int (int (length x)))"
    using load_store_same [OF s2] by simp
  then have "block_len m2 e = Some (int (length x))"
    using len by (simp add: block_len_def rd_int_mem_int)
  moreover have "load m2 (4 * (e + 1)) (int (length x)) = Some x"
    using load_store_same [OF st] load_store_other [OF s2] by simp
  ultimately show ?thesis using lim by simp
qed

lemma placed_agree:
  assumes st: "store m (4 * (e + 1)) x = Some m1" and sl: "set_block_len m1 e (int (length x)) = Some m2"
    and out: "hi \<le> 4 * e \<or> 4 * (e + 1 + blocks x) \<le> lo"
  shows "agree m m2 lo hi"
proof -
  have "agree m m1 lo hi"
    using out blocks_cover [of x] by (intro agree_store [OF st]) auto
  moreover have "agree m1 m2 lo hi"
    using out blocks_nonneg [of x] by (intro agree_store [OF sl [unfolded set_block_len_def]]) (auto simp del: blocks_nonneg)
  ultimately show ?thesis by (rule agree_trans)
qed

lemma append_unwrapped:
  assumes s: "cb_shape b" and h: "cb_holds b A B" and w: "\<not> cb_wrapped b" and n: "0 \<le> n"
    and m: "length m = length (cb_buffer b)" "agree (cb_buffer b) m 0 (4 * ChunkBuffer2_end b)"
      "laid m (cb_lim b) (ChunkBuffer2_end b) [x] (ChunkBuffer2_end b + 1 + n)"
    and fit: "ChunkBuffer2_end b + 1 + n \<le> cb_size b"
  defines "b' \<equiv> cb_append (b\<lparr>cb_buffer := m\<rparr>) (ChunkBuffer2_end b) n"
  shows "cb_shape b' \<and> cb_holds b' (A @ [x]) []"
proof -
  have e: "ChunkBuffer2_end b = cb_start b + cb_used b" using w by (rule end_wrapped)
  have sz: "cb_wrap b = cb_size b" "laid (cb_buffer b) (cb_lim b) (cb_start b) A (ChunkBuffer2_end b)"
    using h w by (simp_all add: cb_holds_def)
  have l: "laid m (cb_lim b) (cb_start b) (A @ [x]) (ChunkBuffer2_end b + 1 + n)"
    by (rule laid_append [OF laid_agree [OF sz(2) m(2)] m(3)]) (use s in \<open>auto simp: cb_shape_def\<close>)
  show ?thesis
  proof (cases "cb_lim b < ChunkBuffer2_end b + 1 + n")
    case True
    then have b': "b' = b\<lparr>cb_buffer := m, cb_used := cb_used b + (1 + n), cb_wrap := ChunkBuffer2_end b + 1 + n\<rparr>"
      using fit e sz(1) by (simp add: b'_def cb_append_def Let_def cb_lim_def)
    have w': "cb_wrapped b'" by (simp add: b' e cb_wrapped_def)
    have e': "ChunkBuffer2_end b' = 0" using end_wrapped(1) [OF w'] by (simp add: b' e)
    show ?thesis using True s fit l m(1) n e e' w'
      by (simp add: cb_holds_def) (simp add: b' cb_shape_def cb_lim_def)
  next
    case False
    then have b': "b' = b\<lparr>cb_buffer := m, cb_used := cb_used b + (1 + n)\<rparr>"
      by (simp add: b'_def cb_append_def Let_def cb_lim_def)
    have w': "\<not> cb_wrapped b'" using False s sz(1) e by (simp add: b' cb_wrapped_def cb_lim_def cb_shape_def)
    have "ChunkBuffer2_end b' = ChunkBuffer2_end b + 1 + n" using end_wrapped(2) [OF w'] by (simp add: b' e)
    then show ?thesis using False s l m(1) n w' sz(1) by (simp add: cb_holds_def) (simp add: b' cb_shape_def cb_lim_def)
  qed
qed

lemma append_wrapped:
  assumes s: "cb_shape b" and h: "cb_holds b A B" and w: "cb_wrapped b" and n: "0 \<le> n"
    and m: "length m = length (cb_buffer b)" "agree (cb_buffer b) m 0 (4 * ChunkBuffer2_end b)"
      "agree (cb_buffer b) m (4 * (ChunkBuffer2_end b + 1 + n)) (4 * cb_size b)"
      "laid m (cb_lim b) (ChunkBuffer2_end b) [x] (ChunkBuffer2_end b + 1 + n)"
    and fit: "ChunkBuffer2_end b + 1 + n \<le> cb_start b"
  defines "b' \<equiv> cb_append (b\<lparr>cb_buffer := m\<rparr>) (ChunkBuffer2_end b) n"
  shows "cb_shape b' \<and> cb_holds b' A (B @ [x])"
proof -
  have e: "ChunkBuffer2_end b = cb_used b - (cb_wrap b - cb_start b)" using w by (rule end_wrapped)
  have hs: "A \<noteq> []" "laid (cb_buffer b) (cb_lim b) (cb_start b) A (cb_wrap b)"
    "laid (cb_buffer b) (cb_lim b) 0 B (ChunkBuffer2_end b)"
    using h w by (simp_all add: cb_holds_def)
  have b': "b' = b\<lparr>cb_buffer := m, cb_used := cb_used b + (1 + n)\<rparr>"
    using w n by (simp add: b'_def cb_append_def Let_def cb_wrapped_def)
  have w': "cb_wrapped b'" using w n by (simp add: b' cb_wrapped_def)
  have e': "ChunkBuffer2_end b' = ChunkBuffer2_end b + 1 + n" using end_wrapped(1) [OF w'] by (simp add: b' e)
  have "laid m (cb_lim b) 0 (B @ [x]) (ChunkBuffer2_end b + 1 + n)"
    by (rule laid_append [OF laid_agree [OF hs(3) m(2)] m(4)]) auto
  moreover have "laid m (cb_lim b) (cb_start b) A (cb_wrap b)"
    by (rule laid_agree [OF hs(2) m(3)]) (use fit s in \<open>auto simp: cb_shape_def\<close>)
  ultimately show ?thesis using s m(1) n hs(1) w' e' fit
    by (simp add: cb_holds_def) (simp add: b' cb_shape_def cb_lim_def)
qed

lemma cb_append_fields [simp]:
  "cb_buffer (cb_append b e n) = cb_buffer b" "cb_size (cb_append b e n) = cb_size b"
  "cb_start (cb_append b e n) = cb_start b" "cb_mtu (cb_append b e n) = cb_mtu b"
  "cb_used (cb_append b e n) = cb_used b + (1 + n)"
  "cb_output_dest (cb_append b e n) = cb_output_dest b" "cb_output_avail (cb_append b e n) = cb_output_avail b"
  by (simp_all add: cb_append_def Let_def)

lemma end_buffer [simp]: "ChunkBuffer2_end (b\<lparr>cb_buffer := m\<rparr>) = ChunkBuffer2_end b"
  by (simp add: ChunkBuffer2_end_def)

lemma holds_head:
  assumes "cb_shape b" "cb_holds b A B" "cb_used b > 0"
  obtains a A' where "A = a # A'" "block_len (cb_buffer b) (cb_start b) = Some (int (length a))"
    "load (cb_buffer b) (4 * (cb_start b + 1)) (int (length a)) = Some a"
proof -
  have "A \<noteq> []"
    using assms end_wrapped(2) [of b] by (auto simp: cb_holds_def split: if_splits)
  then obtain a A' where "A = a # A'" by (cases A) auto
  then show thesis using that [of a A'] assms(2) by (auto simp: cb_holds_def split: if_splits)
qed

lemma holds_empty:
  assumes "cb_shape b" "cb_holds b A B" "cb_used b = 0"
  shows "A = [] \<and> B = []"
proof -
  have w: "\<not> cb_wrapped b" using assms(1,3) by (simp add: cb_wrapped_def cb_shape_def)
  then have "laid (cb_buffer b) (cb_lim b) (cb_start b) A (cb_start b)" "B = []"
    using assms(2,3) end_wrapped(2) [OF w] by (simp_all add: cb_holds_def)
  then show ?thesis using laid_le by fastforce
qed

text \<open>The memory after the producer wrote a packet that fits and its length was recorded.\<close>

lemma submit_memory:
  assumes s: "cb_shape b" and h: "cb_holds b A B" and i: "cb_in_ok b"
    and d: "cb_input_dest b = Some d" and len: "int (length x) \<le> cb_input_avail b"
  obtains m1 m2 where "store (cb_buffer b) d x = Some m1"
    "set_block_len m1 (ChunkBuffer2_end b) (int (length x)) = Some m2"
    "d = 4 * (ChunkBuffer2_end b + 1)" "blocks x \<le> ChunkBuffer2_free b - 1" "length m2 = length (cb_buffer b)"
    "int (length x) \<le> INT_MAX"
proof -
  let ?e = "ChunkBuffer2_end b" and ?f = "ChunkBuffer2_free b"
  have f: "0 < ?f" and d': "d = 4 * (?e + 1)" and l: "int (length x) \<le> (?f - 1) * 4"
    using d len input_fields [OF s h i] by (auto split: if_splits)
  have e0: "0 \<le> ?e" by (rule end_nonneg [OF s])
  have fs: "?e + ?f \<le> cb_size b" using s by (auto simp: ChunkBuffer2_free_def cb_shape_def)
  have sz: "4 * cb_size b = int (length (cb_buffer b))" using s by (simp add: cb_shape_def)
  have "in_range (cb_buffer b) d (int (length x))"
    using e0 fs sz l f unfolding in_range_def d' by auto
  then obtain m1 where m1: "store (cb_buffer b) d x = Some m1" using store_in_range by blast
  have lm: "length m1 = length (cb_buffer b)" by (rule length_store [OF m1])
  have "in_range m1 (4 * ?e) (int (length (mem_int (int (length x)))))"
    using e0 fs sz f unfolding in_range_def lm by auto
  then obtain m2 where m2: "store m1 (4 * ?e) (mem_int (int (length x))) = Some m2" using store_in_range by blast
  have "int (length x) \<le> INT_MAX" using l fs e0 s by (auto simp: cb_shape_def)
  moreover have "blocks x \<le> ?f - 1" unfolding blocks_le using l by linarith
  ultimately show thesis
    using that [of m1 m2] m1 m2 d' lm length_store [OF m2] by (simp add: set_block_len_def)
qed

lemma submit_layout:
  assumes s: "cb_shape b" and h: "cb_holds b A B"
    and m1: "store (cb_buffer b) (4 * (ChunkBuffer2_end b + 1)) x = Some m1"
    and m2: "set_block_len m1 (ChunkBuffer2_end b) (int (length x)) = Some m2"
    and fit: "blocks x \<le> ChunkBuffer2_free b - 1" and len: "length m2 = length (cb_buffer b)" "int (length x) \<le> INT_MAX"
  defines "b' \<equiv> cb_append (b\<lparr>cb_buffer := m2\<rparr>) (ChunkBuffer2_end b) (blocks x)"
  shows "cb_shape b' \<and> (\<exists>A' B'. (A @ B) @ [x] = A' @ B' \<and> cb_holds b' A' B')"
proof -
  let ?e = "ChunkBuffer2_end b"
  note pl = placed [OF m1 m2 end_le_lim [OF s h] len(2)]
  note lo = placed_agree [OF m1 m2, where lo = 0 and hi = "4 * ?e"]
  note hi = placed_agree [OF m1 m2, where lo = "4 * (?e + 1 + blocks x)" and hi = "4 * cb_size b"]
  show ?thesis
  proof (cases "cb_wrapped b")
    case True
    have f: "?e + 1 + blocks x \<le> cb_start b" using fit free_wrapped(1) [OF True] by simp
    have "cb_shape b' \<and> cb_holds b' A (B @ [x])"
      unfolding b'_def using lo hi by (intro append_wrapped [OF s h True _ len(1) _ _ pl f]) simp_all
    then show ?thesis by auto
  next
    case False
    have f: "?e + 1 + blocks x \<le> cb_size b" using fit free_wrapped(2) [OF False] by simp
    have "cb_shape b' \<and> cb_holds b' (A @ [x]) []"
      unfolding b'_def using lo by (intro append_unwrapped [OF s h False _ len(1) _ pl f]) simp_all
    moreover have "B = []" using h False by (simp add: cb_holds_def)
    ultimately show ?thesis by auto
  qed
qed

lemma submit_head:
  assumes s: "cb_shape b" and h: "cb_holds b A B" and u: "cb_used b > 0"
    and m1: "store (cb_buffer b) (4 * (ChunkBuffer2_end b + 1)) x = Some m1"
    and m2: "set_block_len m1 (ChunkBuffer2_end b) (int (length x)) = Some m2"
    and fit: "blocks x \<le> ChunkBuffer2_free b - 1"
  shows "block_len m2 (cb_start b) = block_len (cb_buffer b) (cb_start b)"
proof -
  let ?e = "ChunkBuffer2_end b"
  have "4 * cb_start b + 4 \<le> 4 * ?e \<or> 4 * (?e + 1 + blocks x) \<le> 4 * cb_start b"
    using fit free_wrapped(1) [of b] end_wrapped(2) [of b] u by (cases "cb_wrapped b") auto
  from placed_agree [OF m1 m2 this] show ?thesis by (rule block_len_agree) simp_all
qed

lemma submit_packet:
  assumes r: "cb_repr b q" and d: "cb_input_dest b = Some d" and len: "int (length x) \<le> cb_input_avail b"
  obtains m b' where "store (cb_buffer b) d x = Some m"
    "ChunkBuffer2_SubmitPacket (b\<lparr>cb_buffer := m\<rparr>) (int (length x)) = Some b'"
    "cb_repr b' (q @ [x])" "cb_size b' = cb_size b" "cb_mtu b' = cb_mtu b" "cb_start b' = cb_start b"
proof -
  from r obtain A B where s: "cb_shape b" and i: "cb_in_ok b" and o: "cb_out_ok b" and q: "q = A @ B"
    and h: "cb_holds b A B" by (auto simp: cb_repr_def)
  obtain m1 m2 where m: "store (cb_buffer b) d x = Some m1"
    "set_block_len m1 (ChunkBuffer2_end b) (int (length x)) = Some m2"
    "d = 4 * (ChunkBuffer2_end b + 1)" "blocks x \<le> ChunkBuffer2_free b - 1" "length m2 = length (cb_buffer b)"
    "int (length x) \<le> INT_MAX" by (rule submit_memory [OF s h i d len])
  define b1 where "b1 = cb_append (b\<lparr>cb_buffer := m2\<rparr>) (ChunkBuffer2_end b) (blocks x)"
  obtain A' B' where s1: "cb_shape b1" and q1: "q @ [x] = A' @ B'" and h1: "cb_holds b1 A' B'"
    using submit_layout [OF s h m(1) [unfolded m(3)] m(2,4-6)] by (auto simp: b1_def q)
  have u0: "0 \<le> cb_used b" using s by (simp add: cb_shape_def)
  have sub: "ChunkBuffer2_SubmitPacket (b\<lparr>cb_buffer := m1\<rparr>) (int (length x))
      = (if cb_used b = 0 then ChunkBuffer2_update_output (ChunkBuffer2_update_input b1)
         else Some (ChunkBuffer2_update_input b1))"
    using m(2) by (simp add: ChunkBuffer2_SubmitPacket_def Let_def b1_def blocks_def)
  have u1: "cb_used b1 > 0" using u0 blocks_nonneg [of x] by (simp add: b1_def del: blocks_nonneg)
  show thesis
  proof (cases "cb_used b = 0")
    case True
    obtain a A'' where "A' = a # A''" "block_len (cb_buffer b1) (cb_start b1) = Some (int (length a))"
      "load (cb_buffer b1) (4 * (cb_start b1 + 1)) (int (length a)) = Some a" by (rule holds_head [OF s1 h1 u1])
    then obtain b' where b': "ChunkBuffer2_update_output (ChunkBuffer2_update_input b1) = Some b'"
      using u1 by (simp add: ChunkBuffer2_update_output_def)
    from b' obtain dd n where "b' = (ChunkBuffer2_update_input b1)\<lparr>cb_output_dest := dd, cb_output_avail := n\<rparr>" "cb_out_ok b'"
      by (rule update_output_Some)
    then show thesis using that [OF m(1), of b'] sub True b' s1 h1 q1
      by (simp add: cb_repr_def) (auto simp: b1_def)
  next
    case False
    have "block_len m2 (cb_start b) = block_len (cb_buffer b) (cb_start b)"
      using False u0 submit_head [OF s h _ m(1) [unfolded m(3)] m(2,4)] by simp
    then have "cb_out_ok b1" using o False u0 u1 by (simp add: cb_out_ok_def) (simp add: b1_def)
    then show thesis using that [OF m(1), of "ChunkBuffer2_update_input b1"] sub False s1 h1 q1
      by (simp add: cb_repr_def) (auto simp: b1_def)
  qed
qed

section \<open>Consuming a packet\<close>

lemma cb_advance_fields [simp]:
  "cb_buffer (cb_advance b n) = cb_buffer b" "cb_size (cb_advance b n) = cb_size b"
  "cb_mtu (cb_advance b n) = cb_mtu b" "cb_lim (cb_advance b n) = cb_lim b"
  "cb_input_dest (cb_advance b n) = cb_input_dest b" "cb_input_avail (cb_advance b n) = cb_input_avail b"
  by (simp_all add: cb_advance_def cb_lim_def Let_def)

lemma advance_unwrapped:
  assumes s: "cb_shape b" and h: "cb_holds b (a # A) B" and w: "\<not> cb_wrapped b"
  defines "b' \<equiv> cb_advance b (blocks a)"
  shows "cb_shape b' \<and> cb_holds b' A [] \<and> B = [] \<and> \<not> cb_wrapped b'
    \<and> ChunkBuffer2_end b' = ChunkBuffer2_end b"
proof -
  have e: "ChunkBuffer2_end b = cb_start b + cb_used b" using w by (rule end_wrapped)
  have hs: "cb_wrap b = cb_size b" "B = []" "cb_start b + cb_used b \<le> cb_lim b"
    "laid (cb_buffer b) (cb_lim b) (cb_start b + 1 + blocks a) A (cb_start b + cb_used b)"
    using h w e by (simp_all add: cb_holds_def)
  have le: "cb_start b + 1 + blocks a \<le> cb_start b + cb_used b" using laid_le [OF hs(4)] by simp
  then have lt: "cb_start b + 1 + blocks a < cb_size b"
    using hs(3) s by (simp add: cb_lim_def cb_shape_def)
  then have b': "b' = b\<lparr>cb_start := cb_start b + (1 + blocks a), cb_used := cb_used b - (1 + blocks a)\<rparr>"
    using hs(1) by (simp add: b'_def cb_advance_def Let_def)
  have w': "\<not> cb_wrapped b'" using w by (simp add: b' cb_wrapped_def)
  have e': "ChunkBuffer2_end b' = cb_start b + cb_used b" using end_wrapped(2) [OF w'] by (simp add: b')
  have "0 \<le> cb_start b + 1 + blocks a" using s blocks_nonneg [of a] by (simp add: cb_shape_def del: blocks_nonneg)
  then have "cb_shape b'" using s lt le hs(1) by (simp add: b' cb_shape_def cb_lim_def)
  moreover have "cb_holds b' A []" using hs w' e' by (simp add: cb_holds_def) (simp add: b' cb_lim_def add.assoc)
  ultimately show ?thesis using hs(2) w' e e' by simp
qed

lemma advance_wrapped:
  assumes s: "cb_shape b" and h: "cb_holds b (a # A) B" and w: "cb_wrapped b"
  defines "b' \<equiv> cb_advance b (blocks a)"
  shows "cb_shape b' \<and> (\<exists>A' B'. A @ B = A' @ B' \<and> cb_holds b' A' B')
    \<and> ChunkBuffer2_end b' = ChunkBuffer2_end b \<and> (cb_start b < cb_start b' \<or> \<not> cb_wrapped b')"
proof -
  have e: "ChunkBuffer2_end b = cb_used b - (cb_wrap b - cb_start b)" using w by (rule end_wrapped)
  have hs: "cb_start b \<le> cb_lim b" "laid (cb_buffer b) (cb_lim b) (cb_start b + 1 + blocks a) A (cb_wrap b)"
    "laid (cb_buffer b) (cb_lim b) 0 B (ChunkBuffer2_end b)" "ChunkBuffer2_end b \<le> cb_start b"
    using h w by (simp_all add: cb_holds_def)
  have le: "cb_start b + 1 + blocks a \<le> cb_wrap b" using laid_le [OF hs(2)] by simp
  have e0: "0 \<le> ChunkBuffer2_end b" by (rule end_nonneg [OF s])
  show ?thesis
  proof (cases "cb_start b + 1 + blocks a = cb_wrap b")
    case True
    then have b': "b' = b\<lparr>cb_start := 0, cb_used := ChunkBuffer2_end b, cb_wrap := cb_size b\<rparr>"
      by (simp add: b'_def cb_advance_def Let_def e)
    have "A = []" using laid_le [OF hs(2)] True by simp
    have w': "\<not> cb_wrapped b'" using hs(1,4) s by (simp add: b' cb_wrapped_def cb_lim_def cb_shape_def)
    have e': "ChunkBuffer2_end b' = ChunkBuffer2_end b" using end_wrapped(2) [OF w'] by (simp add: b')
    have "cb_shape b'" using s e0 by (simp add: b' cb_shape_def cb_lim_def)
    moreover have "cb_holds b' B []" using hs w' e' by (simp add: cb_holds_def) (simp add: b' cb_lim_def)
    ultimately show ?thesis using \<open>A = []\<close> e' w' by auto
  next
    case False
    then have b': "b' = b\<lparr>cb_start := cb_start b + (1 + blocks a), cb_used := cb_used b - (1 + blocks a)\<rparr>"
      by (simp add: b'_def cb_advance_def Let_def add.assoc)
    have w': "cb_wrapped b'" using w by (simp add: b' cb_wrapped_def)
    have e': "ChunkBuffer2_end b' = ChunkBuffer2_end b" using end_wrapped(1) [OF w'] e by (simp add: b')
    have A: "A \<noteq> []" using hs(2) False by auto
    have lt: "cb_start b + 1 + blocks a < cb_wrap b" using le False by simp
    have "0 \<le> cb_start b + 1 + blocks a" using s blocks_nonneg [of a] by (simp add: cb_shape_def del: blocks_nonneg)
    moreover have "0 \<le> cb_used b - (1 + blocks a)" using e0 e lt by simp
    ultimately have "cb_shape b'" using s lt by (simp add: b' cb_shape_def cb_lim_def)
    moreover have "ChunkBuffer2_end b \<le> cb_start b + (1 + blocks a)"
      using hs(4) blocks_nonneg [of a] by (simp del: blocks_nonneg)
    then have "cb_holds b' A B" using hs w' e' A by (simp add: cb_holds_def) (simp add: b' cb_lim_def add.assoc)
    moreover have "cb_start b < cb_start b'" using blocks_nonneg [of a] by (simp add: b' del: blocks_nonneg)
    ultimately show ?thesis using e' by auto
  qed
qed

lemma in_ok_unwrapped:
  assumes "cb_in_ok b" "\<not> cb_wrapped b" "\<not> cb_wrapped b'" "ChunkBuffer2_end b' = ChunkBuffer2_end b"
    "cb_size b' = cb_size b" "cb_mtu b' = cb_mtu b" "cb_input_dest b' = cb_input_dest b"
    "cb_input_avail b' = cb_input_avail b"
  shows "cb_in_ok b'"
  using assms by (simp add: cb_in_ok_def ChunkBuffer2_update_input_def Let_def free_wrapped)

lemma consume_packet:
  assumes r: "cb_repr b (x # q)"
  obtains d b' where "cb_output_dest b = Some d" "cb_output_avail b = int (length x)"
    "load (cb_buffer b) d (int (length x)) = Some x"
    "ChunkBuffer2_ConsumePacket b = Some b'" "cb_repr b' q" "cb_size b' = cb_size b" "cb_mtu b' = cb_mtu b"
    "ChunkBuffer2_end b' = ChunkBuffer2_end b" "cb_wrapped b \<and> cb_start b < cb_start b' \<or> \<not> cb_wrapped b'"
proof -
  from r obtain A0 B where s: "cb_shape b" and i: "cb_in_ok b" and o: "cb_out_ok b" and q: "x # q = A0 @ B"
    and h0: "cb_holds b A0 B" by (auto simp: cb_repr_def)
  have u: "cb_used b > 0" using s holds_empty [OF s h0] q by (cases "cb_used b = 0") (auto simp: cb_shape_def)
  obtain A where A0: "A0 = x # A" and bl: "block_len (cb_buffer b) (cb_start b) = Some (int (length x))"
    and ld: "load (cb_buffer b) (4 * (cb_start b + 1)) (int (length x)) = Some x"
    by (rule holds_head [OF s h0 u]) (use q in auto)
  have h: "cb_holds b (x # A) B" and q': "q = A @ B" using h0 q A0 by auto
  define b1 where "b1 = cb_advance b (blocks x)"
  define b2 where "b2 = (if cb_wrapped b then ChunkBuffer2_update_input b1 else b1)"
  have con: "ChunkBuffer2_ConsumePacket b = ChunkBuffer2_update_output b2"
    by (simp add: ChunkBuffer2_ConsumePacket_def bl Let_def b1_def b2_def blocks_def cb_wrapped_def)
  have "cb_shape b2 \<and> cb_in_ok b2 \<and> (\<exists>A' B'. q = A' @ B' \<and> cb_holds b2 A' B') 
    \<and> ChunkBuffer2_end b2 = ChunkBuffer2_end b \<and> (cb_wrapped b \<and> cb_start b < cb_start b2 \<or> \<not> cb_wrapped b2)"
  proof (cases "cb_wrapped b")
    case True
    then show ?thesis using advance_wrapped [OF s h True] by (simp add: b2_def b1_def q')
  next
    case False
    note a = advance_unwrapped [OF s h False, folded b1_def]
    have "cb_in_ok b1" by (rule in_ok_unwrapped [OF i False]) (use a in \<open>simp_all add: b1_def\<close>)
    then show ?thesis using a False by (auto simp: b2_def q')
  qed
  then obtain A' B' where s2: "cb_shape b2" and i2: "cb_in_ok b2" and q2: "q = A' @ B'" and h2: "cb_holds b2 A' B'"
    and e2: "ChunkBuffer2_end b2 = ChunkBuffer2_end b" and st: "cb_wrapped b \<and> cb_start b < cb_start b2 \<or> \<not> cb_wrapped b2" by auto
  have "\<exists>b'. ChunkBuffer2_update_output b2 = Some b'"
  proof (cases "cb_used b2 > 0")
    case True
    then show ?thesis by (rule holds_head [OF s2 h2]) (simp add: ChunkBuffer2_update_output_def)
  qed (simp add: ChunkBuffer2_update_output_def)
  then obtain b' where b': "ChunkBuffer2_update_output b2 = Some b'" ..
  from b' obtain dd n where e: "b' = b2\<lparr>cb_output_dest := dd, cb_output_avail := n\<rparr>" and oo: "cb_out_ok b'"
    by (rule update_output_Some)
  have "cb_repr b' q" unfolding cb_repr_def using s2 i2 q2 h2 oo e by auto
  moreover have "cb_size b' = cb_size b" "cb_mtu b' = cb_mtu b" by (simp_all add: e b2_def b1_def)
  moreover have "ChunkBuffer2_end b' = ChunkBuffer2_end b" "cb_wrapped b \<and> cb_start b < cb_start b' \<or> \<not> cb_wrapped b'"
    using e2 st by (simp_all add: e)
  ultimately show thesis using that [OF _ _ ld, of b'] o u bl con b' by (simp add: cb_out_ok_def)
qed

section \<open>Capacity\<close>

lemma repr_empty: "cb_repr b q \<Longrightarrow> cb_used b = 0 \<longleftrightarrow> q = []"
proof
  assume r: "cb_repr b q" and q: "q = []"
  then obtain A B where "cb_shape b" "A = []" "cb_holds b A B" by (auto simp: cb_repr_def)
  then show "cb_used b = 0" using holds_head [of b A B] by (force simp: cb_shape_def)
qed (auto simp: cb_repr_def dest: holds_empty)

lemma blocks_sum: "(\<forall>x\<in>set xs. blocks x \<le> k) \<Longrightarrow> (\<Sum>x\<leftarrow>xs. 1 + blocks x) \<le> int (length xs) * (1 + k)"
  by (induction xs) (auto simp: algebra_simps)

text \<open>
  A buffer dimensioned for \<open>n\<close> packets of the MTU has room for a packet of the full MTU as long as it
  holds fewer than \<open>n\<close> packets, wherever in the buffer they lie.
\<close>

lemma repr_room:
  assumes r: "cb_repr b q" and k: "\<forall>x\<in>set q. blocks x \<le> cb_mtu b"
    and sz: "cb_size b = (1 + cb_mtu b) * (n + 1)" and n: "int (length q) < n"
  shows "cb_input_dest b \<noteq> None" and "4 * cb_mtu b \<le> cb_input_avail b"
proof -
  from r obtain A B where s: "cb_shape b" and i: "cb_in_ok b" and q: "q = A @ B" and h: "cb_holds b A B"
    by (auto simp: cb_repr_def)
  let ?e = "ChunkBuffer2_end b"
  have m0: "0 \<le> cb_mtu b" using s by (simp add: cb_shape_def)
  have "1 + cb_mtu b \<le> ChunkBuffer2_free b"
  proof (cases "cb_wrapped b")
    case True
    have "cb_wrap b - cb_start b + ?e = (\<Sum>x\<leftarrow>q. 1 + blocks x)"
      using h True by (auto simp: cb_holds_def q dest!: laid_blocks)
    also have "\<dots> \<le> int (length q) * (1 + cb_mtu b)" by (rule blocks_sum [OF k])
    also have "\<dots> \<le> (n - 1) * (1 + cb_mtu b)" using n m0 by (intro mult_right_mono) auto
    finally have "cb_wrap b - cb_start b + ?e \<le> (n - 1) * (1 + cb_mtu b)" .
    moreover have "cb_size b = (n - 1) * (1 + cb_mtu b) + 2 * (1 + cb_mtu b)" by (simp add: sz algebra_simps)
    moreover have "cb_lim b < cb_wrap b" using s by (simp add: cb_shape_def)
    ultimately show ?thesis using free_wrapped(1) [OF True] m0 by (simp add: cb_lim_def)
  next
    case False
    then show ?thesis using free_wrapped(2) [OF False] end_le_lim [OF s h] by (simp add: cb_lim_def)
  qed
  then show "cb_input_dest b \<noteq> None" "4 * cb_mtu b \<le> cb_input_avail b"
    using m0 input_fields [OF s h i] by simp_all
qed

lemma init_repr:
  assumes len: "int (length m) = 4 * nb" and sm: "4 * nb \<le> INT_MAX" and mtu: "0 \<le> mtu"
    and fit: "bdivide_up mtu 4 + 1 \<le> nb"
  obtains b where "ChunkBuffer2_Init m nb mtu = Some b" "cb_repr b []" "cb_size b = nb"
    "cb_mtu b = bdivide_up mtu 4"
proof -
  define b0 where "b0 = \<lparr>cb_buffer = m, cb_size = nb, cb_wrap = nb, cb_start = 0, cb_used = 0,
    cb_mtu = bdivide_up mtu 4, cb_input_dest = None, cb_input_avail = -1, cb_output_dest = None, cb_output_avail = -1\<rparr>"
  have m0: "0 \<le> bdivide_up mtu 4" using mtu by simp
  have w: "\<not> cb_wrapped b0" using fit m0 by (simp add: b0_def cb_wrapped_def)
  have e: "ChunkBuffer2_end b0 = 0" using end_wrapped(2) [OF w] by (simp add: b0_def)
  have "cb_shape b0" using len sm fit m0 by (simp add: b0_def cb_shape_def cb_lim_def)
  moreover have "cb_holds b0 [] []" using w e fit by (simp add: cb_holds_def) (simp add: b0_def cb_lim_def)
  moreover have "cb_out_ok b0" by (simp add: cb_out_ok_def b0_def)
  ultimately have "cb_repr (ChunkBuffer2_update_input b0) []" by (simp add: cb_repr_def)
  moreover have "ChunkBuffer2_Init m nb mtu = Some (ChunkBuffer2_update_input b0)"
    by (simp add: ChunkBuffer2_Init_def ChunkBuffer2_update_output_def Let_def flip: b0_def)
      (simp add: b0_def ChunkBuffer2_update_input_def Let_def)
  ultimately show thesis using that by (simp add: b0_def)
qed

lemma calc_blocks:
  assumes "0 \<le> mtu" "0 < n" "0 \<le> ChunkBuffer2_calc_blocks mtu n"
  shows "ChunkBuffer2_calc_blocks mtu n = (1 + bdivide_up mtu 4) * (n + 1)"
    and "ChunkBuffer2_calc_blocks mtu n \<le> INT_MAX"
proof -
  have le: "\<not> 1 + bdivide_up mtu 4 > INT_MAX div (n + 1)"
    using assms by (auto simp: ChunkBuffer2_calc_blocks_def Let_def split: if_splits)
  then show eq: "ChunkBuffer2_calc_blocks mtu n = (1 + bdivide_up mtu 4) * (n + 1)"
    using assms by (auto simp: ChunkBuffer2_calc_blocks_def Let_def split: if_splits)
  have "(1 + bdivide_up mtu 4) * (n + 1) \<le> INT_MAX div (n + 1) * (n + 1)"
    using le assms(2) by (intro mult_right_mono) auto
  also have "\<dots> \<le> INT_MAX" using assms(2) by (simp add: minus_mod_eq_div_mult [symmetric] INT_MAX_def)
  finally show "ChunkBuffer2_calc_blocks mtu n \<le> INT_MAX" by (simp add: eq)
qed

lemma repr_head:
  assumes "cb_repr b (x # q)"
  shows "cb_output_dest b = Some (4 * (cb_start b + 1))" "cb_output_avail b = int (length x)"
proof -
  obtain b' d where "cb_output_dest b = Some d" "cb_output_avail b = int (length x)" by (rule consume_packet [OF assms])
  then show "cb_output_dest b = Some (4 * (cb_start b + 1))" "cb_output_avail b = int (length x)"
    using assms by (auto simp: cb_repr_def cb_out_ok_def split: if_splits)
qed

lemma repr_nil: "cb_repr b [] \<Longrightarrow> cb_output_dest b = None \<and> cb_output_avail b = -1"
proof -
  assume r: "cb_repr b []"
  have "cb_used b = 0" using repr_empty [OF r] by simp
  with r show ?thesis by (simp add: cb_repr_def cb_out_ok_def)
qed

lemma repr_asserts:
  assumes r: "cb_repr b q"
  shows "ChunkBuffer2_assert_buffer b" and "ChunkBuffer2_assert_io b"
proof -
  from r obtain A B where s: "cb_shape b" and i: "cb_in_ok b" and o: "cb_out_ok b" and h: "cb_holds b A B"
    by (auto simp: cb_repr_def)
  have u: "cb_used b \<le> cb_wrap b"
    using s h end_wrapped [of b] by (cases "cb_wrapped b") (auto simp: cb_holds_def cb_shape_def cb_wrapped_def)
  then show "ChunkBuffer2_assert_buffer b"
    using s h by (auto simp: ChunkBuffer2_assert_buffer_def cb_shape_def cb_holds_def cb_wrapped_def split: if_splits)
  have bd: "bdivide_up (int (length a)) 4 \<le> cb_used b - 1 \<and> bdivide_up (int (length a)) 4 \<le> cb_wrap b - cb_start b - 1"
    if "cb_used b > 0" "A = a # A'" for a A'
  proof -
    let ?to = "if cb_wrapped b then cb_wrap b else ChunkBuffer2_end b"
    have "laid (cb_buffer b) (cb_lim b) (cb_start b + 1 + blocks a) A' ?to"
      using h that(2) by (auto simp: cb_holds_def split: if_splits)
    from laid_le [OF this] show ?thesis
      using s end_wrapped(2) [of b] unfolding blocks_def
      by (cases "cb_wrapped b") (auto simp: cb_wrapped_def cb_shape_def)
  qed
  have "\<exists>n. block_len (cb_buffer b) (cb_start b) = Some n \<and> 0 \<le> n
      \<and> bdivide_up n 4 \<le> cb_used b - 1 \<and> bdivide_up n 4 \<le> cb_wrap b - cb_start b - 1" if u: "cb_used b > 0"
    by (rule holds_head [OF s h u]) (use bd [OF u] in auto)
  with o show "ChunkBuffer2_assert_io b"
    using i unfolding ChunkBuffer2_assert_io_def
    by (cases "cb_used b > 0") (auto simp: cb_in_ok_def ChunkBuffer2_update_input_def cb_out_ok_def Let_def)
qed

section \<open>The contract of a bounded packet queue\<close>

text \<open>
  What happens at a queue between a producer and a consumer: a packet is taken or, only when the
  queue holds at least its capacity, refused; a packet is given, always the oldest one, in the form
  \<open>wire\<close> that it has on the way out, or none is there.
\<close>

datatype fifo_op = FOffer bytes | FTake

datatype fifo_event = Took bytes | Refused | Gave bytes | Nothing

fun fifo_ok :: "(bytes \<Rightarrow> bytes) \<Rightarrow> int \<Rightarrow> bytes list \<Rightarrow> fifo_event list \<Rightarrow> bool" where
  "fifo_ok wire n q [] \<longleftrightarrow> True"
| "fifo_ok wire n q (Took x # es) \<longleftrightarrow> fifo_ok wire n (q @ [x]) es"
| "fifo_ok wire n q (Refused # es) \<longleftrightarrow> n \<le> int (length q) \<and> fifo_ok wire n q es"
| "fifo_ok wire n q (Gave x # es) \<longleftrightarrow> (case q of [] \<Rightarrow> False | y # q' \<Rightarrow> x = wire y \<and> fifo_ok wire n q' es)"
| "fifo_ok wire n q (Nothing # es) \<longleftrightarrow> q = [] \<and> fifo_ok wire n q es"

fun fifo_answers :: "fifo_op \<Rightarrow> fifo_event \<Rightarrow> bool" where
  "fifo_answers (FOffer x) (Took y) \<longleftrightarrow> x = y"
| "fifo_answers (FOffer x) Refused \<longleftrightarrow> True"
| "fifo_answers FTake (Gave x) \<longleftrightarrow> True"
| "fifo_answers FTake Nothing \<longleftrightarrow> True"
| "fifo_answers _ _ \<longleftrightarrow> False"

fun fifo_op_fits :: "int \<Rightarrow> fifo_op \<Rightarrow> bool" where
  "fifo_op_fits mtu (FOffer x) \<longleftrightarrow> int (length x) \<le> mtu"
| "fifo_op_fits mtu FTake \<longleftrightarrow> True"

text \<open>Running a sequence of operations on an implementation; \<^const>\<open>None\<close> is a memory fault.\<close>

fun fifo_run :: "('s \<Rightarrow> bytes \<Rightarrow> ('s \<times> bool) option) \<Rightarrow> ('s \<Rightarrow> ('s \<times> bytes option) option) \<Rightarrow>
    's \<Rightarrow> fifo_op list \<Rightarrow> ('s \<times> fifo_event list) option" where
  "fifo_run offer get s [] = Some (s, [])"
| "fifo_run offer get s (FOffer x # ops) =
     (case offer s x of None \<Rightarrow> None
      | Some (s', ok) \<Rightarrow> map_option (apsnd ((#) (if ok then Took x else Refused))) (fifo_run offer get s' ops))"
| "fifo_run offer get s (FTake # ops) =
     (case get s of None \<Rightarrow> None
      | Some (s', r) \<Rightarrow> map_option (apsnd ((#) (case r of None \<Rightarrow> Nothing | Some x \<Rightarrow> Gave x))) (fifo_run offer get s' ops))"

locale packet_fifo =
  fixes holds :: "'s \<Rightarrow> bytes list \<Rightarrow> bool" and wire :: "bytes \<Rightarrow> bytes" and mtu :: int and cap :: int
    and offer :: "'s \<Rightarrow> bytes \<Rightarrow> ('s \<times> bool) option" and get :: "'s \<Rightarrow> ('s \<times> bytes option) option"
  assumes offer_ok: "holds s q \<Longrightarrow> int (length x) \<le> mtu \<Longrightarrow>
      \<exists>s' ok. offer s x = Some (s', ok) \<and> holds s' (if ok then q @ [x] else q) \<and> (ok \<or> cap \<le> int (length q))"
    and get_nil: "holds s [] \<Longrightarrow> \<exists>s'. get s = Some (s', None) \<and> holds s' []"
    and get_ok: "holds s (x # q) \<Longrightarrow> \<exists>s'. get s = Some (s', Some (wire x)) \<and> holds s' q"
begin

lemma run_ok:
  assumes "holds s q" "\<forall>op\<in>set ops. fifo_op_fits mtu op"
  shows "\<exists>s' evs. fifo_run offer get s ops = Some (s', evs) \<and> list_all2 fifo_answers ops evs \<and> fifo_ok wire cap q evs
    \<and> (\<exists>q'. holds s' q')"
  using assms
proof (induction ops arbitrary: s q)
  case Nil
  then show ?case by auto
next
  case (Cons op ops)
  show ?case
  proof (cases op)
    case (FOffer x)
    then obtain s' ok where o: "offer s x = Some (s', ok)" "holds s' (if ok then q @ [x] else q)"
      "ok \<or> cap \<le> int (length q)" using offer_ok Cons.prems by fastforce
    obtain s'' evs where "fifo_run offer get s' ops = Some (s'', evs)" "list_all2 fifo_answers ops evs"
      "fifo_ok wire cap (if ok then q @ [x] else q) evs" "\<exists>q'. holds s'' q'" using Cons.IH [OF o(2)] Cons.prems by auto
    then show ?thesis using FOffer o by (cases ok) simp_all
  next
    case FTake
    show ?thesis
    proof (cases q)
      case Nil
      then obtain s' where o: "get s = Some (s', None)" "holds s' []" using get_nil Cons.prems by blast
      then show ?thesis using Cons.IH [OF o(2)] Cons.prems FTake Nil by auto
    next
      case (Cons x q')
      then obtain s' where o: "get s = Some (s', Some (wire x))" "holds s' q'" using get_ok Cons.prems(1) by blast
      then show ?thesis using Cons.IH [OF o(2)] Cons.prems FTake Cons by auto
    qed
  qed
qed

end

section \<open>PacketBuffer is a bounded packet queue\<close>

definition pb_holds :: "int \<Rightarrow> int \<Rightarrow> packet_buffer \<Rightarrow> bytes list \<Rightarrow> bool" where
  "pb_holds mtu n pb q \<longleftrightarrow>
     (let b = pb_buf pb in
        cb_repr b q \<and> pb_input_mtu pb = mtu \<and> 0 \<le> mtu \<and> cb_mtu b = bdivide_up mtu 4
        \<and> cb_size b = (1 + cb_mtu b) * (n + 1) \<and> (\<forall>x\<in>set q. int (length x) \<le> mtu)
        \<and> pb_recv pb = (if mtu \<le> cb_input_avail b then cb_input_dest b else None)
        \<and> pb_send pb = map_option (\<lambda>d. (d, cb_output_avail b)) (cb_output_dest b))"

lemma repr_input:
  assumes "cb_repr b q"
  shows "cb_input_dest b = (if ChunkBuffer2_free b > 0 then Some (4 * (ChunkBuffer2_end b + 1)) else None)"
    and "cb_input_avail b = (if ChunkBuffer2_free b > 0 then (ChunkBuffer2_free b - 1) * 4 else -1)"
  using assms input_fields [of b] by (auto simp: cb_repr_def)

lemma consume_keeps_input:
  assumes "cb_repr b q" "cb_repr b' q'" "cb_size b' = cb_size b" "ChunkBuffer2_end b' = ChunkBuffer2_end b"
    "cb_wrapped b \<and> cb_start b < cb_start b' \<or> \<not> cb_wrapped b'" "cb_input_dest b \<noteq> None"
  shows "cb_input_dest b' = cb_input_dest b" "cb_input_avail b \<le> cb_input_avail b'"
proof -
  have f: "ChunkBuffer2_free b > 0" using assms(6) repr_input(1) [OF assms(1)] by (auto split: if_splits)
  have "cb_start b \<le> cb_size b" using assms(1) by (simp add: cb_repr_def cb_shape_def)
  then have le: "ChunkBuffer2_free b \<le> ChunkBuffer2_free b'"
    using assms(3-5) free_wrapped [of b] free_wrapped [of b']
    by (cases "cb_wrapped b"; cases "cb_wrapped b'") auto
  with f assms(4) show "cb_input_dest b' = cb_input_dest b" "cb_input_avail b \<le> cb_input_avail b'"
    by (simp_all add: repr_input [OF assms(1)] repr_input [OF assms(2)])
qed

lemma pb_produce_ok:
  assumes p: "pb_holds mtu n pb q" and x: "int (length x) \<le> mtu"
  shows "\<exists>pb' ok. pb_produce pb x = Some (pb', ok) \<and> pb_holds mtu n pb' (if ok then q @ [x] else q)
    \<and> (ok \<or> n \<le> int (length q))"
proof (cases "pb_recv pb")
  case None
  have r: "cb_repr (pb_buf pb) q" and k: "\<forall>x\<in>set q. blocks x \<le> cb_mtu (pb_buf pb)"
    and sz: "cb_size (pb_buf pb) = (1 + cb_mtu (pb_buf pb)) * (n + 1)"
    using p bdivide_up_cover [of mtu] by (auto simp: pb_holds_def Let_def blocks_le)
  have "n \<le> int (length q)"
  proof (rule ccontr)
    assume "\<not> n \<le> int (length q)"
    then have "cb_input_dest (pb_buf pb) \<noteq> None" "4 * cb_mtu (pb_buf pb) \<le> cb_input_avail (pb_buf pb)"
      using repr_room [OF r k sz] by simp_all
    then show False using None p bdivide_up_cover [of mtu] by (auto simp: pb_holds_def Let_def split: if_splits)
  qed
  then show ?thesis using None p by (auto simp: pb_produce_def)
next
  case (Some d)
  have r: "cb_repr (pb_buf pb) q" and d: "cb_input_dest (pb_buf pb) = Some d"
    and a: "int (length x) \<le> cb_input_avail (pb_buf pb)"
    using p Some x by (auto simp: pb_holds_def Let_def split: if_splits)
  obtain m b' where m: "store (cb_buffer (pb_buf pb)) d x = Some m"
    "ChunkBuffer2_SubmitPacket ((pb_buf pb)\<lparr>cb_buffer := m\<rparr>) (int (length x)) = Some b'"
    "cb_repr b' (q @ [x])" "cb_size b' = cb_size (pb_buf pb)" "cb_mtu b' = cb_mtu (pb_buf pb)"
    "cb_start b' = cb_start (pb_buf pb)" by (rule submit_packet [OF r d a])
  define pb' where "pb' = pb\<lparr>pb_buf := b', pb_recv := (if mtu \<le> cb_input_avail b' then cb_input_dest b' else None),
    pb_send := map_option (\<lambda>d. (d, cb_output_avail b')) (cb_output_dest b')\<rparr>"
  have im: "pb_input_mtu pb = mtu" and sd: "pb_send pb = map_option (\<lambda>d. (d, cb_output_avail (pb_buf pb))) (cb_output_dest (pb_buf pb))"
    using p by (simp_all add: pb_holds_def Let_def)
  have "pb_produce pb x = Some (pb', True)"
  proof (cases q)
    case Nil
    then have "cb_output_avail (pb_buf pb) = -1" using repr_nil [of "pb_buf pb"] r by simp
    then show ?thesis
      by (simp add: pb_produce_def PacketBuffer_input_handler_done_def Some m(1,2) im Let_def
          pb_schedule_recv_def pb_schedule_send_def pb'_def)
  next
    case (Cons y q')
    then have "\<not> cb_output_avail (pb_buf pb) < 0" and "pb_send pb = pb_send pb'"
      using r m(3,6) repr_head [of "pb_buf pb" y q'] repr_head [of b' y "q' @ [x]"] by (auto simp: sd pb'_def)
    moreover from this(2) have "pb' = pb\<lparr>pb_buf := b', pb_recv := (if mtu \<le> cb_input_avail b' then cb_input_dest b' else None)\<rparr>"
      by (cases pb) (simp add: pb'_def)
    ultimately show ?thesis
      by (simp add: pb_produce_def PacketBuffer_input_handler_done_def Some m(1,2) im Let_def pb_schedule_recv_def)
  qed
  moreover have "pb_holds mtu n pb' (q @ [x])" using p m x by (auto simp: pb_holds_def pb'_def Let_def)
  ultimately show ?thesis by auto
qed

lemma pb_consume_ok:
  assumes p: "pb_holds mtu n pb (x # q)"
  shows "\<exists>pb'. pb_consume pb = Some (pb', Some x) \<and> pb_holds mtu n pb' q"
proof -
  let ?b = "pb_buf pb"
  have r: "cb_repr ?b (x # q)" using p by (simp add: pb_holds_def Let_def)
  obtain d b' where c: "cb_output_dest ?b = Some d" "cb_output_avail ?b = int (length x)"
    "load (cb_buffer ?b) d (int (length x)) = Some x" "ChunkBuffer2_ConsumePacket ?b = Some b'" "cb_repr b' q"
    "cb_size b' = cb_size ?b" "cb_mtu b' = cb_mtu ?b" "ChunkBuffer2_end b' = ChunkBuffer2_end ?b"
    "cb_wrapped ?b \<and> cb_start ?b < cb_start b' \<or> \<not> cb_wrapped b'" by (rule consume_packet [OF r])
  define pb' where "pb' = pb\<lparr>pb_buf := b', pb_recv := (if mtu \<le> cb_input_avail b' then cb_input_dest b' else None),
    pb_send := map_option (\<lambda>d. (d, cb_output_avail b')) (cb_output_dest b')\<rparr>"
  have "cb_input_dest ?b \<noteq> None" if "mtu \<le> cb_input_avail ?b"
    using that p repr_input [OF r] by (auto simp: pb_holds_def Let_def split: if_splits)
  then have keep: "cb_input_dest b' = cb_input_dest ?b \<and> mtu \<le> cb_input_avail b'" if "mtu \<le> cb_input_avail ?b"
    using that consume_keeps_input [OF r c(5,6,8,9)] by force
  have out: "cb_output_avail b' < 0 \<longleftrightarrow> cb_output_dest b' = None"
    using c(5) repr_nil [of b'] repr_head [of b'] by (cases q) auto
  have "PacketBuffer_output_handler_done (pb\<lparr>pb_send := None\<rparr>) = Some pb'"
    using p c(4) keep out
    by (cases "mtu \<le> cb_input_avail ?b"; cases "cb_output_avail b' < 0")
      (auto simp: PacketBuffer_output_handler_done_def pb_holds_def Let_def pb_schedule_recv_def pb_schedule_send_def pb'_def)
  then have "pb_consume pb = Some (pb', Some x)" using p c by (simp add: pb_consume_def pb_holds_def Let_def)
  moreover have "pb_holds mtu n pb' q" using p c by (auto simp: pb_holds_def pb'_def Let_def)
  ultimately show ?thesis by auto
qed

lemma pb_consume_nil: "pb_holds mtu n pb [] \<Longrightarrow> pb_consume pb = Some (pb, None)"
  using repr_nil [of "pb_buf pb"] by (simp add: pb_holds_def Let_def pb_consume_def)

interpretation pbq: packet_fifo "pb_holds mtu n" id mtu n pb_produce pb_consume for mtu n
  by unfold_locales (simp_all add: pb_produce_ok pb_consume_ok pb_consume_nil)

lemma PacketBuffer_Init_holds:
  assumes "malloc_ok malloc" "0 \<le> mtu" "0 < n" "4 * ChunkBuffer2_calc_blocks mtu n \<le> INT_MAX"
    "PacketBuffer_Init malloc mtu n = Some pb"
  shows "pb_holds mtu n pb []"
proof -
  let ?nb = "ChunkBuffer2_calc_blocks mtu n"
  from assms(5) obtain m b where m: "0 \<le> ?nb" "BAllocArray malloc ?nb 4 = Some m"
    "ChunkBuffer2_Init m ?nb mtu = Some b"
    and pb: "pb = \<lparr>pb_buf = b, pb_input_mtu = mtu, pb_recv = cb_input_dest b, pb_send = None\<rparr>"
    by (auto simp: PacketBuffer_Init_def Let_def split: if_splits option.splits)
  have nb: "?nb = (1 + bdivide_up mtu 4) * (n + 1)" by (rule calc_blocks [OF assms(2,3) m(1)])
  have d0: "0 \<le> bdivide_up mtu 4" using assms(2) by simp
  have "(1 + bdivide_up mtu 4) * 1 \<le> (1 + bdivide_up mtu 4) * (n + 1)"
    using assms(3) d0 by (intro mult_left_mono) auto
  then have fit: "bdivide_up mtu 4 + 1 \<le> ?nb" by (simp add: nb)
  have "int (length m) = 4 * ?nb" using BAllocArray_length [OF assms(1) m(2)] fit d0 by simp
  then obtain b1 where "ChunkBuffer2_Init m ?nb mtu = Some b1" "cb_repr b1 []" "cb_size b1 = ?nb" "cb_mtu b1 = bdivide_up mtu 4"
    by (rule init_repr [OF _ assms(4,2) fit])
  with m(3) have b: "cb_repr b []" "cb_size b = ?nb" "cb_mtu b = bdivide_up mtu 4" by simp_all
  have "mtu \<le> cb_input_avail b"
    using repr_room(2) [OF b(1), of n] b nb assms(3) bdivide_up_cover [of mtu] by simp
  then show ?thesis using b nb assms(2) repr_nil [OF b(1)] by (simp add: pb_holds_def pb)
qed

text \<open>
  C12: A packet buffer initialised for \<open>n\<close> packets of an MTU, run with any sequence of packets offered
  by the producer (each at most the MTU) and sends finished by the consumer, never touches memory
  outside its buffer, hands out exactly the packets it took, unchanged and in order, and leaves the
  producer waiting only while it holds at least \<open>n\<close> packets; the assertions that debug builds check
  on the buffer's fields hold at the end of the run.
\<close>

theorem packet_buffer_is_bounded_fifo:
  assumes "malloc_ok malloc" "0 \<le> mtu" "0 < n" "4 * ChunkBuffer2_calc_blocks mtu n \<le> INT_MAX"
    and "PacketBuffer_Init malloc mtu n = Some pb" and "\<forall>op\<in>set ops. fifo_op_fits mtu op"
  shows "\<exists>pb' evs. fifo_run pb_produce pb_consume pb ops = Some (pb', evs)
    \<and> list_all2 fifo_answers ops evs \<and> fifo_ok id n [] evs
    \<and> ChunkBuffer2_assert_buffer (pb_buf pb') \<and> ChunkBuffer2_assert_io (pb_buf pb')"
proof -
  obtain pb' evs q where "fifo_run pb_produce pb_consume pb ops = Some (pb', evs)"
    "list_all2 fifo_answers ops evs" "fifo_ok id n [] evs" "pb_holds mtu n pb' q"
    using pbq.run_ok [OF PacketBuffer_Init_holds [OF assms(1-5)] assms(6)] by auto
  then show ?thesis using repr_asserts [of "pb_buf pb'" q] by (auto simp: pb_holds_def Let_def)
qed

theorem packet_buffer_is_bounded_fifo_witness:
  "\<exists>pb. PacketBuffer_Init zero_malloc 5 2 = Some pb \<and>
     (\<exists>pb' evs. fifo_run pb_produce pb_consume pb [FOffer [1, 2, 3], FOffer [], FOffer [4, 5, 6, 7, 8], FTake, FTake] = Some (pb', evs)
      \<and> list_all2 fifo_answers [FOffer [1, 2, 3], FOffer [], FOffer [4, 5, 6, 7, 8], FTake, FTake] evs \<and> fifo_ok id 2 [] evs
      \<and> ChunkBuffer2_assert_buffer (pb_buf pb') \<and> ChunkBuffer2_assert_io (pb_buf pb'))"
proof -
  have "4 * ChunkBuffer2_calc_blocks 5 2 \<le> INT_MAX"
    by (simp add: ChunkBuffer2_calc_blocks_def bdivide_up_def INT_MAX_def)
  moreover obtain pb where "PacketBuffer_Init zero_malloc 5 2 = Some pb"
    by (simp add: PacketBuffer_Init_def ChunkBuffer2_calc_blocks_def bdivide_up_def INT_MAX_def BAllocArray_def SIZE_MAX_def
        BAlloc_def zero_malloc_def ChunkBuffer2_Init_def ChunkBuffer2_update_output_def)
  ultimately show ?thesis
    using packet_buffer_is_bounded_fifo [OF zero_malloc_ok, of 5 2 pb
        "[FOffer [1, 2, 3], FOffer [], FOffer [4, 5, 6, 7, 8], FTake, FTake]"] by auto
qed

end
