(* ===== verification/Packet_Proto.thy ===== *)
theory Packet_Proto
  imports C_Memory
begin

text \<open>
  The packet protocol of the badvpn engine, which carries packets over a byte stream: every packet
  is preceded by its length as a little-endian 16-bit integer.  The theory models the encoder
  \<^verbatim>\<open>badvpn/flow/PacketProtoEncoder.c\<close> and the decoder \<^verbatim>\<open>badvpn/flow/PacketProtoDecoder.c\<close>, whose
  buffer is filled by receives of any size and drained packet by packet.  The decoder is compared
  with a parser of the whole stream.
\<close>

section \<open>The code: encoder\<close>

abbreviation PACKETPROTO_MAXPAYLOAD :: int where
  "PACKETPROTO_MAXPAYLOAD \<equiv> 65535"

definition PACKETPROTO_ENCLEN :: "int \<Rightarrow> int" where
  "PACKETPROTO_ENCLEN len = 2 + len"

text \<open>
  The encoder is given the address of an output packet, where it asks its input for a packet behind
  the header's place; when that is there, it writes the header.  The output has the first
  \<open>PACKETPROTO_ENCLEN in_len\<close> bytes from the address on.  Addresses are offsets into the memory \<open>m\<close>.
\<close>

record pp_encoder =
  enc_output_packet :: "int option"

definition PacketProtoEncoder_Init :: pp_encoder where
  "PacketProtoEncoder_Init = \<lparr>enc_output_packet = None\<rparr>"

definition PacketProtoEncoder_output_handler_recv :: "pp_encoder \<Rightarrow> int \<Rightarrow> pp_encoder \<times> int" where
  "PacketProtoEncoder_output_handler_recv enc data = (enc\<lparr>enc_output_packet := Some data\<rparr>, data + 2)"

definition PacketProtoEncoder_input_handler_done :: "pp_encoder \<Rightarrow> bytes \<Rightarrow> int \<Rightarrow> (pp_encoder \<times> bytes \<times> int) option" where
  "PacketProtoEncoder_input_handler_done enc m in_len =
     (case enc_output_packet enc of
        None \<Rightarrow> None
      | Some output_packet \<Rightarrow>
          map_option (\<lambda>m'. (enc\<lparr>enc_output_packet := None\<rparr>, m', PACKETPROTO_ENCLEN in_len))
            (store m output_packet (mem16 (word_of_int in_len))))"

text \<open>One packet through the encoder, into a buffer of its own.\<close>

definition pp_encode :: "bytes \<Rightarrow> bytes \<Rightarrow> bytes option" where
  "pp_encode output_packet pkt =
     (let (enc, p) = PacketProtoEncoder_output_handler_recv PacketProtoEncoder_Init 0 in
      case store output_packet p pkt of
        None \<Rightarrow> None
      | Some m \<Rightarrow>
          (case PacketProtoEncoder_input_handler_done enc m (int (length pkt)) of
             None \<Rightarrow> None
           | Some (enc', m', n) \<Rightarrow> load m' 0 n))"

section \<open>The code: decoder\<close>

record pp_decoder =
  pp_output_mtu :: int
  pp_buf_size :: int
  pp_buf_start :: int
  pp_buf_used :: int
  pp_buf :: bytes

text \<open>
  What the decoder waits for after a handler: the consumer of a packet, or the source of the stream.
  Addresses are offsets into the buffer.
\<close>

datatype pp_req = PpSend int int | PpRecv int int

definition pp_receive :: "pp_decoder \<Rightarrow> pp_req" where
  "pp_receive d = PpRecv (pp_buf_start d + pp_buf_used d) (pp_buf_size d - (pp_buf_start d + pp_buf_used d))"

definition pp_wrap :: "pp_decoder \<Rightarrow> pp_decoder option" where
  "pp_wrap d =
     (if pp_buf_start d + pp_buf_used d = pp_buf_size d then
        (case load (pp_buf d) (pp_buf_start d) (pp_buf_used d) of
           None \<Rightarrow> None
         | Some xs \<Rightarrow> map_option (\<lambda>m. d\<lparr>pp_buf := m, pp_buf_start := 0\<rparr>) (store (pp_buf d) 0 xs))
      else Some d)"

text \<open>The result's last component says whether the error handler is called.\<close>

definition process_data :: "pp_decoder \<Rightarrow> (pp_decoder \<times> pp_req \<times> bool) option" where
  "process_data d =
     (let wait = map_option (\<lambda>d'. (d', pp_receive d', False)) (pp_wrap d) in
      if pp_buf_used d < 2 then wait
      else case load (pp_buf d) (pp_buf_start d) 2 of
        None \<Rightarrow> None
      | Some header \<Rightarrow>
          (let data = pp_buf_start d + 2;
               left = pp_buf_used d - 2;
               data_len = uint (rd_mem16 (header ! 0) (header ! 1)) in
           if data_len > pp_output_mtu d then
             (let d' = d\<lparr>pp_buf_start := 0, pp_buf_used := 0\<rparr> in Some (d', pp_receive d', True))
           else if left < data_len then wait
           else Some (d\<lparr>pp_buf_start := pp_buf_start d + (2 + data_len), pp_buf_used := pp_buf_used d - (2 + data_len)\<rparr>,
                      PpSend data data_len, False)))"

definition PacketProtoDecoder_input_handler_done :: "pp_decoder \<Rightarrow> int \<Rightarrow> (pp_decoder \<times> pp_req \<times> bool) option" where
  "PacketProtoDecoder_input_handler_done d data_len = process_data (d\<lparr>pp_buf_used := pp_buf_used d + data_len\<rparr>)"

definition PacketProtoDecoder_output_handler_done :: "pp_decoder \<Rightarrow> (pp_decoder \<times> pp_req \<times> bool) option" where
  "PacketProtoDecoder_output_handler_done d = process_data d"

definition PacketProtoDecoder_Init :: "allocator \<Rightarrow> int \<Rightarrow> (pp_decoder \<times> pp_req) option" where
  "PacketProtoDecoder_Init malloc mtu =
     (let output_mtu = min mtu PACKETPROTO_MAXPAYLOAD; buf_size = PACKETPROTO_ENCLEN output_mtu in
      case malloc buf_size of
        None \<Rightarrow> None
      | Some m \<Rightarrow> Some (\<lparr>pp_output_mtu = output_mtu, pp_buf_size = buf_size, pp_buf_start = 0, pp_buf_used = 0, pp_buf = m\<rparr>,
                       PpRecv 0 buf_size))"

definition PacketProtoDecoder_Reset :: "pp_decoder \<Rightarrow> pp_decoder" where
  "PacketProtoDecoder_Reset d = d\<lparr>pp_buf_start := pp_buf_start d + pp_buf_used d, pp_buf_used := 0\<rparr>"

text \<open>
  The decoder between a source and a consumer.  A run that reports an error stops: the handler of
  \<^verbatim>\<open>UdpGwClient.c\<close> ends with the decoder being freed.  The result is the decoder, its request, the
  packets given to the consumer, and whether an error was reported.
\<close>

lemma pp_wrap_used: "pp_wrap d = Some d' \<Longrightarrow> pp_buf_used d' = pp_buf_used d"
  by (auto simp: pp_wrap_def split: if_splits option.splits)

lemma uint_above: "- 2 < uint (w :: u16)"
  using unsigned_greater_eq [of w, where ?'a = int] by linarith

lemma process_data_shrinks:
  "process_data d = Some (d', PpSend p n, e) \<Longrightarrow> nat (pp_buf_used d') < nat (pp_buf_used d)"
  "process_data d = Some (d', PpRecv p n, e) \<Longrightarrow> nat (pp_buf_used d') \<le> nat (pp_buf_used d)"
  by (auto simp: process_data_def Let_def pp_receive_def uint_above dest: pp_wrap_used split: if_splits option.splits)

fun pp_req_weight :: "pp_req \<Rightarrow> nat" where
  "pp_req_weight (PpSend _ _) = 1"
| "pp_req_weight (PpRecv _ _) = 0"

function pp_feed :: "pp_decoder \<Rightarrow> pp_req \<Rightarrow> bytes \<Rightarrow> (pp_decoder \<times> pp_req \<times> bytes list \<times> bool) option" where
  "pp_feed d (PpSend p n) xs =
     (case load (pp_buf d) p n of
        None \<Rightarrow> None
      | Some pkt \<Rightarrow>
          (case PacketProtoDecoder_output_handler_done d of
             None \<Rightarrow> None
           | Some (d', req, err) \<Rightarrow>
               if err then Some (d', req, [pkt], True)
               else map_option (apsnd (apsnd (apfst ((#) pkt)))) (pp_feed d' req xs)))"
| "pp_feed d (PpRecv p n) xs =
     (if xs = [] then Some (d, PpRecv p n, [], False)
      else if n \<le> 0 then None
      else case store (pp_buf d) p (take (nat n) xs) of
        None \<Rightarrow> None
      | Some m \<Rightarrow>
          (case PacketProtoDecoder_input_handler_done (d\<lparr>pp_buf := m\<rparr>) (int (length (take (nat n) xs))) of
             None \<Rightarrow> None
           | Some (d', req, err) \<Rightarrow>
               if err then Some (d', req, [], True) else pp_feed d' req (drop (nat n) xs)))"
  by pat_completeness auto
termination
proof (relation "measures [\<lambda>(d, req, xs). length xs, \<lambda>(d, req, xs). nat (pp_buf_used d) + pp_req_weight req]", goal_cases)
  case (2 d p n xs pkt r d' r2 req err)
  then show ?case
    by (cases req) (auto simp: PacketProtoDecoder_output_handler_done_def dest: process_data_shrinks)
qed auto

fun pp_feeds :: "pp_decoder \<Rightarrow> pp_req \<Rightarrow> bytes list \<Rightarrow> (bytes list \<times> bool) option" where
  "pp_feeds d req [] = Some ([], False)"
| "pp_feeds d req (xs # xss) =
     (case pp_feed d req xs of
        None \<Rightarrow> None
      | Some (d', req', pkts, err) \<Rightarrow>
          if err then Some (pkts, True) else map_option (apfst ((@) pkts)) (pp_feeds d' req' xss))"

section \<open>The protocol\<close>

text \<open>
  The packets at the front of a stream, and whether a header announces more than the MTU behind
  them.
\<close>

function pp_parse :: "int \<Rightarrow> bytes \<Rightarrow> bytes list \<times> bool" where
  "pp_parse mtu s =
     (if length s < 2 then ([], False)
      else let n = uint (rd_mem16 (s ! 0) (s ! 1)) in
        if n > mtu then ([], True)
        else if int (length s) - 2 < n then ([], False)
        else apfst ((#) (take (nat n) (drop 2 s))) (pp_parse mtu (drop (2 + nat n) s)))"
  by pat_completeness auto
termination by (relation "measure (\<lambda>(mtu, s). length s)") auto

declare pp_parse.simps [simp del]

definition pp_frame :: "bytes \<Rightarrow> bytes" where
  "pp_frame pkt = mem16 (of_nat (length pkt)) @ pkt"

lemma pp_parse_frame:
  assumes "int (length x) \<le> mtu" "mtu \<le> 65535"
  shows "pp_parse mtu (pp_frame x @ s) = apfst ((#) x) (pp_parse mtu s)"
proof -
  have "length x < 65536" using assms by linarith
  then have "uint (of_nat (length x) :: u16) = int (length x)"
    using unat_of_nat_u16 [of "length x"] by (metis int_eq_iff uint_nonnegative unsigned_of_nat of_nat_unat)
  then show ?thesis
    using assms by (subst pp_parse.simps) (simp add: pp_frame_def mem16_def rd_mem16_mem16)
qed

lemma pp_parse_frames:
  "(\<forall>x\<in>set xs. int (length x) \<le> mtu) \<Longrightarrow> mtu \<le> 65535 \<Longrightarrow> pp_parse mtu (concat (map pp_frame xs)) = (xs, False)"
  by (induction xs) (simp_all add: pp_parse_frame pp_parse.simps [of mtu "[]"])

lemma pp_encode_frame:
  assumes "length pkt + 2 \<le> length m"
  shows "pp_encode m pkt = Some (pp_frame pkt)"
proof -
  obtain m1 where m1: "store m 2 pkt = Some m1" using assms by (fastforce simp: store_def in_range_def)
  have l1: "length m1 = length m" by (rule length_store [OF m1])
  let ?h = "mem16 (word_of_int (int (length pkt)))"
  obtain m2 where m2: "store m1 0 ?h = Some m2" using assms l1 by (fastforce simp: store_def in_range_def)
  have "load m2 0 2 = Some ?h" using load_store_same [OF m2] by simp
  moreover have "load m2 2 (int (length pkt)) = Some pkt"
    using load_store_same [OF m1] load_store_other [OF m2, of 2 "int (length pkt)"] by simp
  ultimately have "load m2 0 (2 + int (length pkt)) = Some (?h @ pkt)"
    using load_append [of m2 0 2 ?h "int (length pkt)" pkt] by simp
  then show ?thesis
    by (simp add: pp_encode_def PacketProtoEncoder_output_handler_recv_def PacketProtoEncoder_input_handler_done_def Let_def
        m1 m2 [simplified] PACKETPROTO_ENCLEN_def pp_frame_def)
qed

section \<open>The decoder implements the protocol\<close>

definition pp_ok :: "pp_decoder \<Rightarrow> bool" where
  "pp_ok d \<longleftrightarrow> 0 \<le> pp_output_mtu d \<and> pp_buf_size d = 2 + pp_output_mtu d
     \<and> int (length (pp_buf d)) = pp_buf_size d \<and> 0 \<le> pp_buf_start d \<and> 0 \<le> pp_buf_used d
     \<and> pp_buf_start d + pp_buf_used d \<le> pp_buf_size d"

definition pp_content :: "pp_decoder \<Rightarrow> bytes" where
  "pp_content d = take (nat (pp_buf_used d)) (drop (nat (pp_buf_start d)) (pp_buf d))"

abbreviation pp_rest :: "pp_decoder \<Rightarrow> bytes \<Rightarrow> bytes list \<times> bool" where
  "pp_rest d ys \<equiv> pp_parse (pp_output_mtu d) (pp_content d @ ys)"

lemma length_pp_content: "pp_ok d \<Longrightarrow> int (length (pp_content d)) = pp_buf_used d"
  by (auto simp: pp_ok_def pp_content_def)

lemma pp_content_load: "pp_ok d \<Longrightarrow> load (pp_buf d) (pp_buf_start d) (pp_buf_used d) = Some (pp_content d)"
  by (simp add: pp_ok_def pp_content_def load_def in_range_def)

lemma pp_content_part:
  "pp_ok d \<Longrightarrow> 0 \<le> a \<Longrightarrow> 0 \<le> n \<Longrightarrow> a + n \<le> pp_buf_used d \<Longrightarrow>
   load (pp_buf d) (pp_buf_start d + a) n = Some (take (nat n) (drop (nat a) (pp_content d)))"
  by (auto simp: pp_ok_def pp_content_def load_def in_range_def nat_add_distrib drop_take min_def add.commute)

lemma pp_wrap_ok:
  assumes "pp_ok d" "pp_buf_used d < pp_buf_size d"
  obtains d' where "pp_wrap d = Some d'" "pp_ok d'" "pp_content d' = pp_content d"
    "pp_output_mtu d' = pp_output_mtu d" "pp_buf_start d' + pp_buf_used d' < pp_buf_size d'"
proof (cases "pp_buf_start d + pp_buf_used d = pp_buf_size d")
  case True
  have l: "int (length (pp_content d)) = pp_buf_used d" by (rule length_pp_content [OF assms(1)])
  obtain m where m: "store (pp_buf d) 0 (pp_content d) = Some m"
    using assms l by (fastforce simp: store_def in_range_def pp_ok_def)
  let ?d = "d\<lparr>pp_buf := m, pp_buf_start := 0\<rparr>"
  have "pp_wrap d = Some ?d" using True m by (simp add: pp_wrap_def pp_content_load [OF assms(1)])
  moreover have k: "pp_ok ?d" using assms length_store [OF m] by (auto simp: pp_ok_def)
  moreover have "pp_content ?d = pp_content d"
    using load_store_same [OF m] l pp_content_load [OF k] by simp
  ultimately show thesis using that assms by auto
next
  case False
  then show thesis using that [of d] assms by (auto simp: pp_wrap_def pp_ok_def)
qed

lemma pp_parse_append_header:
  assumes "2 \<le> length s"
  shows "(s @ ys) ! 0 = s ! 0" "(s @ ys) ! 1 = s ! 1"
  using assms by (auto simp: nth_append)

lemma process_header:
  assumes k: "pp_ok d" and u: "\<not> pp_buf_used d < 2"
  shows "load (pp_buf d) (pp_buf_start d) 2 = Some (take 2 (pp_content d))" and "2 \<le> length (pp_content d)"
  using pp_content_part [OF k, of 0 2] u length_pp_content [OF k] by auto

text \<open>
  One round of \<^verbatim>\<open>process_data\<close>: it reports an error, or waits with what it has, which is no whole
  frame, in a state with room to receive, or hands on the packet of the first frame.
\<close>

lemma process_ok:
  assumes k: "pp_ok d"
  obtains (Err) d' req where "process_data d = Some (d', req, True)" "\<And>ys. pp_rest d ys = ([], True)"
  | (Wait) d' where "process_data d = Some (d', pp_receive d', False)" "pp_ok d'" "pp_content d' = pp_content d"
      "pp_output_mtu d' = pp_output_mtu d" "pp_buf_start d' + pp_buf_used d' < pp_buf_size d'" "pp_rest d [] = ([], False)"
  | (Pkt) d' p n pkt where "process_data d = Some (d', PpSend p n, False)" "pp_ok d'"
      "pp_output_mtu d' = pp_output_mtu d" "load (pp_buf d') p n = Some pkt"
      "\<And>ys. pp_rest d ys = apfst ((#) pkt) (pp_rest d' ys)"
proof (cases "pp_buf_used d < 2")
  case True
  have l: "length (pp_content d) < 2" using True length_pp_content [OF k] by linarith
  have "pp_buf_used d < pp_buf_size d" using True k by (simp add: pp_ok_def)
  from pp_wrap_ok [OF k this] obtain d' where "pp_wrap d = Some d'" "pp_ok d'" "pp_content d' = pp_content d"
    "pp_output_mtu d' = pp_output_mtu d" "pp_buf_start d' + pp_buf_used d' < pp_buf_size d'" .
  then show thesis using True l Wait [of d'] by (simp add: process_data_def pp_parse.simps)
next
  case False
  note hd = process_header [OF k False]
  let ?c = "pp_content d"
  define n where "n = uint (rd_mem16 (?c ! 0) (?c ! 1))"
  have nS: "uint (rd_mem16 (?c ! 0) (?c ! Suc 0)) = n" and n0: "0 \<le> n" by (simp_all add: n_def)
  have lc: "int (length ?c) = pp_buf_used d" by (rule length_pp_content [OF k])
  have par: "pp_rest d ys = (if n > pp_output_mtu d then ([], True)
      else if int (length ?c + length ys) - 2 < n then ([], False)
      else apfst ((#) (take (nat n) (drop 2 (?c @ ys)))) (pp_parse (pp_output_mtu d) (drop (2 + nat n) (?c @ ys))))" for ys
    using hd(2) by (subst pp_parse.simps) (simp add: pp_parse_append_header Let_def del: One_nat_def take_append drop_append flip: n_def)
  note pd = process_data_def [of d] hd(1)
  consider "n > pp_output_mtu d" | "n \<le> pp_output_mtu d" "pp_buf_used d - 2 < n" | "n \<le> pp_output_mtu d" "n \<le> pp_buf_used d - 2"
    by linarith
  then show thesis
  proof cases
    case 1
    then have "process_data d = Some (d\<lparr>pp_buf_start := 0, pp_buf_used := 0\<rparr>, pp_receive (d\<lparr>pp_buf_start := 0, pp_buf_used := 0\<rparr>), True)"
      using False by (simp add: pd Let_def nS)
    then show thesis by (rule Err) (use 1 in \<open>simp add: par\<close>)
  next
    case 2
    then have "pp_buf_used d < pp_buf_size d" using k by (simp add: pp_ok_def)
    from pp_wrap_ok [OF k this] obtain d' where "pp_wrap d = Some d'" "pp_ok d'" "pp_content d' = pp_content d"
      "pp_output_mtu d' = pp_output_mtu d" "pp_buf_start d' + pp_buf_used d' < pp_buf_size d'" .
    then show thesis using 2 False lc par [of "[]"] Wait [of d'] by (simp add: pd Let_def nS)
  next
    case 3
    let ?d = "d\<lparr>pp_buf_start := pp_buf_start d + (2 + n), pp_buf_used := pp_buf_used d - (2 + n)\<rparr>"
    have k': "pp_ok ?d" using k 3 n0 by (simp add: pp_ok_def)
    have c': "pp_content ?d = drop (2 + nat n) ?c"
      using pp_content_part [OF k, of "2 + n" "pp_buf_used d - (2 + n)"] pp_content_load [OF k'] 3 n0 lc
      by (simp add: nat_add_distrib)
    have ld: "load (pp_buf ?d) (pp_buf_start d + 2) n = Some (take (nat n) (drop 2 ?c))"
      using pp_content_part [OF k, of 2 n] 3 n0 by simp
    have "pp_rest d ys = apfst ((#) (take (nat n) (drop 2 ?c))) (pp_rest ?d ys)" for ys
      using par [of ys] 3 lc n0 c' by simp
    moreover have "process_data d = Some (?d, PpSend (pp_buf_start d + 2) n, False)"
      using 3 False by (simp add: pd Let_def nS)
    ultimately show thesis using Pkt [OF _ k' _ ld] by simp
  qed
qed

lemma pp_content_receive:
  assumes k: "pp_ok d" and m: "store (pp_buf d) (pp_buf_start d + pp_buf_used d) xs = Some m"
    and fit: "int (length xs) \<le> pp_buf_size d - (pp_buf_start d + pp_buf_used d)"
  defines "d' \<equiv> d\<lparr>pp_buf := m, pp_buf_used := pp_buf_used d + int (length xs)\<rparr>"
  shows "pp_ok d'" and "pp_content d' = pp_content d @ xs"
proof -
  show k': "pp_ok d'" using k fit length_store [OF m] by (simp add: d'_def pp_ok_def)
  have "load m (pp_buf_start d) (pp_buf_used d) = Some (pp_content d)"
    using load_store_other [OF m] pp_content_load [OF k] by simp
  from load_append [OF this] load_store_same [OF m]
  have "load m (pp_buf_start d) (pp_buf_used d + int (length xs)) = Some (pp_content d @ xs)" by simp
  then show "pp_content d' = pp_content d @ xs" using pp_content_load [OF k'] by (simp add: d'_def)
qed

fun pp_waiting :: "pp_decoder \<Rightarrow> pp_req \<Rightarrow> bool" where
  "pp_waiting d (PpSend p n) \<longleftrightarrow> pp_ok d \<and> load (pp_buf d) p n \<noteq> None"
| "pp_waiting d (PpRecv p n) \<longleftrightarrow> pp_ok d \<and> PpRecv p n = pp_receive d
     \<and> pp_buf_start d + pp_buf_used d < pp_buf_size d \<and> pp_rest d [] = ([], False)"

fun pp_ahead :: "pp_decoder \<Rightarrow> pp_req \<Rightarrow> bytes \<Rightarrow> bytes list \<times> bool" where
  "pp_ahead d (PpSend p n) ys = apfst ((#) (the (load (pp_buf d) p n))) (pp_rest d ys)"
| "pp_ahead d (PpRecv p n) ys = pp_rest d ys"

text \<open>The outcome of a handler: an error that ends the stream, or a state that waits.\<close>

lemma process_waits:
  assumes "pp_ok d"
  obtains (Err) d' req where "process_data d = Some (d', req, True)" "\<And>ys. pp_rest d ys = ([], True)"
  | (Go) d' req where "process_data d = Some (d', req, False)" "pp_waiting d' req"
      "pp_output_mtu d' = pp_output_mtu d" "\<And>ys. pp_rest d ys = pp_ahead d' req ys"
proof (rule process_ok [OF assms])
  fix d' assume "process_data d = Some (d', pp_receive d', False)" "pp_ok d'" "pp_content d' = pp_content d"
      "pp_output_mtu d' = pp_output_mtu d" "pp_buf_start d' + pp_buf_used d' < pp_buf_size d'" "pp_rest d [] = ([], False)"
  then show thesis using Go [of d' "pp_receive d'"] by (simp add: pp_receive_def)
next
  fix d' p n pkt assume "process_data d = Some (d', PpSend p n, False)" "pp_ok d'"
      "pp_output_mtu d' = pp_output_mtu d" "load (pp_buf d') p n = Some pkt"
      "\<And>ys. pp_rest d ys = apfst ((#) pkt) (pp_rest d' ys)"
  then show thesis using Go [of d' "PpSend p n"] by simp
qed (rule Err)

definition pp_fed :: "pp_decoder \<Rightarrow> pp_req \<Rightarrow> bytes \<Rightarrow> bool" where
  "pp_fed d req xs \<longleftrightarrow> (\<exists>d' req' pkts err. pp_feed d req xs = Some (d', req', pkts, err)
    \<and> (if err then \<forall>ys. pp_ahead d req (xs @ ys) = (pkts, True)
       else pp_waiting d' req' \<and> pp_req_weight req' = 0 \<and> pp_output_mtu d' = pp_output_mtu d
         \<and> (\<forall>ys. pp_ahead d req (xs @ ys) = apfst ((@) pkts) (pp_ahead d' req' ys))))"

lemma pp_fedI:
  assumes "pp_feed d req xs = Some (d', req', pkts, err)"
    and "err \<Longrightarrow> \<forall>ys. pp_ahead d req (xs @ ys) = (pkts, True)"
    and "\<not> err \<Longrightarrow> pp_waiting d' req' \<and> pp_req_weight req' = 0 \<and> pp_output_mtu d' = pp_output_mtu d
         \<and> (\<forall>ys. pp_ahead d req (xs @ ys) = apfst ((@) pkts) (pp_ahead d' req' ys))"
  shows "pp_fed d req xs"
  unfolding pp_fed_def using assms by (intro exI [of _ d'] exI [of _ req'] exI [of _ pkts] exI [of _ err]) simp

lemma pp_fed_send:
  assumes k: "pp_ok d" and pkt: "load (pp_buf d) p n = Some pkt"
    and IH: "\<And>d' req. PacketProtoDecoder_output_handler_done d = Some (d', req, False) \<Longrightarrow> pp_waiting d' req \<Longrightarrow> pp_fed d' req xs"
  shows "pp_fed d (PpSend p n) xs"
proof (rule process_waits [OF k])
  fix d' req assume "process_data d = Some (d', req, True)" "\<And>ys. pp_rest d ys = ([], True)"
  then show ?thesis
    by (intro pp_fedI [of _ _ _ d' req "[pkt]" True]) (simp_all add: pkt PacketProtoDecoder_output_handler_done_def)
next
  fix d' req assume g: "process_data d = Some (d', req, False)" "pp_waiting d' req"
    "pp_output_mtu d' = pp_output_mtu d" "\<And>ys. pp_rest d ys = pp_ahead d' req ys"
  then have dn: "PacketProtoDecoder_output_handler_done d = Some (d', req, False)"
    by (simp add: PacketProtoDecoder_output_handler_done_def)
  from IH [OF dn g(2)] obtain d'' req'' pkts err
    where f: "pp_feed d' req xs = Some (d'', req'', pkts, err)"
      and e: "if err then \<forall>ys. pp_ahead d' req (xs @ ys) = (pkts, True)
        else pp_waiting d'' req'' \<and> pp_req_weight req'' = 0 \<and> pp_output_mtu d'' = pp_output_mtu d'
          \<and> (\<forall>ys. pp_ahead d' req (xs @ ys) = apfst ((@) pkts) (pp_ahead d'' req'' ys))"
    unfolding pp_fed_def by blast
  show ?thesis
    using f e g(3,4) by (intro pp_fedI [of _ _ _ d'' req'' "pkt # pkts" err])
      (auto simp: pkt dn apfst_def map_prod_def split: prod.splits)
qed

lemma pp_fed_recv:
  assumes w: "pp_waiting d (PpRecv p n)" and ne: "xs \<noteq> []"
    and IH: "\<And>m d' req. store (pp_buf d) p (take (nat n) xs) = Some m \<Longrightarrow>
      PacketProtoDecoder_input_handler_done (d\<lparr>pp_buf := m\<rparr>) (int (length (take (nat n) xs))) = Some (d', req, False) \<Longrightarrow>
      pp_waiting d' req \<Longrightarrow> pp_fed d' req (drop (nat n) xs)"
  shows "pp_fed d (PpRecv p n) xs"
proof -
  let ?x = "take (nat n) xs"
  from w have k: "pp_ok d" and p: "p = pp_buf_start d + pp_buf_used d"
    and n: "n = pp_buf_size d - (pp_buf_start d + pp_buf_used d)" "\<not> n \<le> 0" by (simp_all add: pp_receive_def)
  have fit: "int (length ?x) \<le> n" using n(2) by simp
  then have "in_range (pp_buf d) p (int (length ?x))" using k n p by (auto simp: in_range_def pp_ok_def)
  then obtain m where m: "store (pp_buf d) p ?x = Some m" using store_in_range by blast
  define d1 where "d1 = d\<lparr>pp_buf := m, pp_buf_used := pp_buf_used d + int (length ?x)\<rparr>"
  have k1: "pp_ok d1" and c1: "pp_content d1 = pp_content d @ ?x"
    using pp_content_receive [OF k m [unfolded p]] fit n by (simp_all add: d1_def)
  have in1: "PacketProtoDecoder_input_handler_done (d\<lparr>pp_buf := m\<rparr>) (int (length ?x)) = process_data d1"
    by (simp add: PacketProtoDecoder_input_handler_done_def d1_def)
  have o1: "pp_output_mtu d1 = pp_output_mtu d" by (simp add: d1_def)
  have "pp_content d1 @ drop (nat n) xs @ ys = pp_content d @ xs @ ys" for ys
    unfolding c1 by (metis append_assoc append_take_drop_id)
  then have a1: "pp_ahead d (PpRecv p n) (xs @ ys) = pp_rest d1 (drop (nat n) xs @ ys)" for ys
    by (simp only: o1 pp_ahead.simps)
  show ?thesis
  proof (rule process_waits [OF k1])
    fix d' req assume e: "process_data d1 = Some (d', req, True)" "\<And>ys. pp_rest d1 ys = ([], True)"
    have "pp_feed d (PpRecv p n) xs = Some (d', req, [], True)"
      by (subst pp_feed.simps) (simp only: ne n(2) m in1 e(1) if_False if_True option.case prod.case)
    then show ?thesis by (rule pp_fedI) (simp_all only: a1 e(2) simp_thms)
  next
    fix d' req assume g: "process_data d1 = Some (d', req, False)" "pp_waiting d' req"
      "pp_output_mtu d' = pp_output_mtu d1" "\<And>ys. pp_rest d1 ys = pp_ahead d' req ys"
    have f: "pp_feed d (PpRecv p n) xs = pp_feed d' req (drop (nat n) xs)"
      by (subst pp_feed.simps) (simp only: ne n(2) m in1 g(1) if_False option.case prod.case)
    show ?thesis
      using IH [OF m _ g(2)] unfolding pp_fed_def f a1 g(4) by (simp only: in1 g(1,3) o1 simp_thms)
  qed
qed

lemma pp_feed_ok: "pp_waiting d req \<Longrightarrow> pp_fed d req xs"
proof (induction d req xs rule: pp_feed.induct)
  case (1 d p n xs)
  then obtain pkt where pkt: "pp_ok d" "load (pp_buf d) p n = Some pkt" by auto
  from 1(1) [OF pkt(2) _ refl refl] show ?case by (intro pp_fed_send [OF pkt]) auto
next
  case (2 d p n xs)
  have e: "apfst ((@) ([] :: bytes list)) z = z" for z :: "bytes list \<times> bool" by (cases z) simp
  show ?case
  proof (cases "xs = []")
    case True
    with 2(2) show ?thesis
      by (intro pp_fedI [of _ _ _ d "PpRecv p n" "[]" False]) (simp_all add: e pp_receive_def)
  next
    case False
    have "\<not> n \<le> 0" using 2(2) by (simp add: pp_receive_def)
    from 2(1) [OF False this _ _ refl refl, where ya = False] show ?thesis by (intro pp_fed_recv [OF 2(2) False]) blast
  qed
qed

lemma pp_feeds_ok:
  assumes "pp_waiting d req" "pp_req_weight req = 0"
  shows "pp_feeds d req xss = Some (pp_ahead d req (concat xss))"
  using assms
proof (induction xss arbitrary: d req)
  case Nil
  then show ?case by (cases req) (auto simp: pp_receive_def)
next
  case (Cons xs xss)
  from pp_feed_ok [OF Cons.prems(1), of xs] obtain d' req' pkts err
    where f: "pp_feed d req xs = Some (d', req', pkts, err)"
      and e: "err \<Longrightarrow> \<forall>ys. pp_ahead d req (xs @ ys) = (pkts, True)"
      and g: "\<not> err \<Longrightarrow> pp_waiting d' req' \<and> pp_req_weight req' = 0
         \<and> (\<forall>ys. pp_ahead d req (xs @ ys) = apfst ((@) pkts) (pp_ahead d' req' ys))"
    by (auto simp: pp_fed_def split: if_splits)
  show ?case
  proof (cases err)
    case True
    then show ?thesis using f e by simp
  next
    case False
    then show ?thesis using f g Cons.IH [of d' req'] by simp
  qed
qed

lemma PacketProtoDecoder_Init_waits:
  assumes "malloc_ok malloc" "0 \<le> mtu" "PacketProtoDecoder_Init malloc mtu = Some (d, req)"
  shows "pp_waiting d req" "pp_req_weight req = 0" "pp_output_mtu d = min mtu 65535" "pp_content d = []"
    "\<And>ys. pp_ahead d req ys = pp_parse (min mtu 65535) ys"
  using assms
  by (auto simp: PacketProtoDecoder_Init_def Let_def PACKETPROTO_ENCLEN_def pp_ok_def pp_receive_def
      pp_content_def malloc_ok_def pp_parse.simps [of _ "[]"] split: option.splits)

text \<open>
  C13: However the bytes of a stream are cut into receives, the packet decoder gives its consumer
  exactly the packets of the stream and reports an error exactly when a header announces more than
  the MTU; it never reads or writes outside its buffer and never asks for zero bytes.
\<close>

theorem packetproto_decoder_parses_stream:
  assumes "malloc_ok malloc" and "0 \<le> mtu" and "PacketProtoDecoder_Init malloc mtu = Some (d, req)"
  shows "pp_feeds d req chunks = Some (pp_parse (min mtu 65535) (concat chunks))"
  using pp_feeds_ok [of d req chunks] PacketProtoDecoder_Init_waits [OF assms] by simp

theorem packetproto_decoder_parses_stream_witness:
  "\<exists>d req. PacketProtoDecoder_Init zero_malloc 3 = Some (d, req)
     \<and> pp_feeds d req [[2], [0, 7, 8, 1, 0], [9, 4, 0]] = Some (pp_parse 3 [2, 0, 7, 8, 1, 0, 9, 4, 0])"
proof -
  obtain d req where "PacketProtoDecoder_Init zero_malloc 3 = Some (d, req)"
    by (simp add: PacketProtoDecoder_Init_def PACKETPROTO_ENCLEN_def zero_malloc_def)
  then show ?thesis using packetproto_decoder_parses_stream [OF zero_malloc_ok, of 3 d req "[[2], [0, 7, 8, 1, 0], [9, 4, 0]]"]
    by simp
qed

text \<open>
  Packets put into a stream by the encoder come out of the decoder unchanged and in order,
  however the stream between them is cut, provided they fit the decoder's MTU.
\<close>

theorem packetproto_round_trip:
  assumes "malloc_ok malloc" and "0 \<le> mtu" and "mtu \<le> 65535" and "PacketProtoDecoder_Init malloc mtu = Some (d, req)"
    and "\<forall>x\<in>set pkts. int (length x) \<le> mtu \<and> length x + 2 \<le> length (buf x)"
    and "concat chunks = concat (map (\<lambda>x. the (pp_encode (buf x) x)) pkts)"
  shows "pp_feeds d req chunks = Some (pkts, False)"
proof -
  have "map (\<lambda>x. the (pp_encode (buf x) x)) pkts = map pp_frame pkts"
    using assms(5) by (simp add: pp_encode_frame)
  then have "concat chunks = concat (map pp_frame pkts)" using assms(6) by (simp only:)
  then show ?thesis
    using pp_feeds_ok [of d req chunks] PacketProtoDecoder_Init_waits [OF assms(1,2,4)] assms(3,5)
    by (simp add: pp_parse_frames)
qed

theorem packetproto_round_trip_witness:
  "\<exists>d req. PacketProtoDecoder_Init zero_malloc 3 = Some (d, req)
     \<and> pp_feeds d req [[2], [0, 7, 8, 1, 0], [9]] = Some ([[7, 8], [9]], False)"
proof -
  obtain d req where i: "PacketProtoDecoder_Init zero_malloc 3 = Some (d, req)"
    by (simp add: PacketProtoDecoder_Init_def PACKETPROTO_ENCLEN_def zero_malloc_def)
  have "pp_feeds d req [[2], [0, 7, 8, 1, 0], [9]] = Some ([[7, 8], [9]], False)"
    by (rule packetproto_round_trip [OF zero_malloc_ok _ _ i, where buf = "\<lambda>_. replicate 5 0"])
      (simp_all add: pp_encode_frame pp_frame_def mem16_def)
  with i show ?thesis by auto
qed

end
