(* ===== verification/Proto_Flow.thy ===== *)
theory Proto_Flow
  imports Chunk_Buffer Packet_Proto
begin

text \<open>
  The sending side of a gateway connection, \<^verbatim>\<open>badvpn/flow/PacketProtoFlow.c\<close>: a writer
  (\<^verbatim>\<open>badvpn/flow/BufferWriter.c\<close>), the packet encoder and the packet buffer in a row.  No stage copies
  a packet: the packet buffer gives the encoder an address in its own memory, the encoder gives the
  writer the address behind the header, and the user of the flow writes there.
\<close>

section \<open>The code: BufferWriter\<close>

record buffer_writer =
  bw_out :: "int option"

definition BufferWriter_Init :: buffer_writer where
  "BufferWriter_Init = \<lparr>bw_out = None\<rparr>"

definition BufferWriter_output_handler_recv :: "buffer_writer \<Rightarrow> int \<Rightarrow> buffer_writer" where
  "BufferWriter_output_handler_recv w data = w\<lparr>bw_out := Some data\<rparr>"

text \<open>The address to write a packet at, or none when there is no room.\<close>

definition BufferWriter_StartPacket :: "buffer_writer \<Rightarrow> int option" where
  "BufferWriter_StartPacket w = bw_out w"

text \<open>The packet's length goes to the receiver of the packet.\<close>

definition BufferWriter_EndPacket :: "buffer_writer \<Rightarrow> int \<Rightarrow> buffer_writer \<times> int" where
  "BufferWriter_EndPacket w len = (w\<lparr>bw_out := None\<rparr>, len)"

section \<open>The code: PacketProtoFlow\<close>

record proto_flow =
  pf_ainput :: buffer_writer
  pf_encoder :: pp_encoder
  pf_buffer :: packet_buffer

definition PacketProtoFlow_Init :: "allocator \<Rightarrow> int \<Rightarrow> int \<Rightarrow> proto_flow option" where
  "PacketProtoFlow_Init malloc input_mtu num_packets =
     (case PacketBuffer_Init malloc (PACKETPROTO_ENCLEN input_mtu) num_packets of
        None \<Rightarrow> None
      | Some pb \<Rightarrow> Some \<lparr>pf_ainput = BufferWriter_Init, pf_encoder = PacketProtoEncoder_Init, pf_buffer = pb\<rparr>)"

definition pf_mem :: "proto_flow \<Rightarrow> bytes" where
  "pf_mem f = cb_buffer (pb_buf (pf_buffer f))"

definition set_pf_mem :: "bytes \<Rightarrow> proto_flow \<Rightarrow> proto_flow" where
  "set_pf_mem m f = f\<lparr>pf_buffer := (pf_buffer f)\<lparr>pb_buf := (pb_buf (pf_buffer f))\<lparr>cb_buffer := m\<rparr>\<rparr>\<rparr>"

text \<open>
  The jobs that carry a request of the packet buffer to the encoder and on to the writer; they run
  some time after the packet buffer asked.
\<close>

definition pf_jobs :: "proto_flow \<Rightarrow> proto_flow" where
  "pf_jobs f =
     (case pb_recv (pf_buffer f) of
        None \<Rightarrow> f
      | Some data \<Rightarrow>
          if enc_output_packet (pf_encoder f) = None then
            (let (enc, p) = PacketProtoEncoder_output_handler_recv (pf_encoder f) data
             in f\<lparr>pf_encoder := enc, pf_ainput := BufferWriter_output_handler_recv (pf_ainput f) p\<rparr>)
          else f)"

text \<open>
  The end of a packet of \<open>len\<close> bytes: the writer, the encoder and the packet buffer each finish
  their part.
\<close>

definition pf_end_packet :: "proto_flow \<Rightarrow> int \<Rightarrow> proto_flow option" where
  "pf_end_packet f len =
     (let (w, in_len) = BufferWriter_EndPacket (pf_ainput f) len in
      case PacketProtoEncoder_input_handler_done (pf_encoder f) (pf_mem f) in_len of
        None \<Rightarrow> None
      | Some (enc, m, n) \<Rightarrow>
          (let f1 = set_pf_mem m (f\<lparr>pf_ainput := w, pf_encoder := enc\<rparr>) in
           map_option (\<lambda>pb. f1\<lparr>pf_buffer := pb\<rparr>)
             (PacketBuffer_input_handler_done ((pf_buffer f1)\<lparr>pb_recv := None\<rparr>) n)))"

text \<open>A user who writes one packet, in the pieces \<open>xs\<close>; and the consumer of the packet buffer.\<close>

definition pf_write :: "proto_flow \<Rightarrow> bytes list \<Rightarrow> (proto_flow \<times> bool) option" where
  "pf_write f xs =
     (case BufferWriter_StartPacket (pf_ainput f) of
        None \<Rightarrow> Some (f, False)
      | Some out \<Rightarrow>
          (case put_seq (pf_mem f) out xs of
             None \<Rightarrow> None
           | Some m \<Rightarrow> map_option (\<lambda>f'. (f', True)) (pf_end_packet (set_pf_mem m f) (int (length (concat xs))))))"

definition pf_take :: "proto_flow \<Rightarrow> (proto_flow \<times> bytes option) option" where
  "pf_take f = map_option (\<lambda>(pb, r). (f\<lparr>pf_buffer := pb\<rparr>, r)) (pb_consume (pf_buffer f))"

section \<open>The flow is a bounded queue of framed packets\<close>

definition pf_holds :: "int \<Rightarrow> int \<Rightarrow> proto_flow \<Rightarrow> bytes list \<Rightarrow> bool" where
  "pf_holds mtu n f q \<longleftrightarrow>
     pb_holds (PACKETPROTO_ENCLEN mtu) n (pf_buffer f) (map pp_frame q)
     \<and> bw_out (pf_ainput f) = map_option (\<lambda>d. d + 2) (enc_output_packet (pf_encoder f))
     \<and> (\<forall>d. enc_output_packet (pf_encoder f) = Some d \<longrightarrow> pb_recv (pf_buffer f) = Some d)"

lemma length_pp_frame [simp]: "length (pp_frame x) = length x + 2"
  by (simp add: pp_frame_def)

lemma pf_jobs_holds: "pf_holds mtu n f q \<Longrightarrow> pf_holds mtu n (pf_jobs f) q"
  by (auto simp: pf_holds_def pf_jobs_def PacketProtoEncoder_output_handler_recv_def BufferWriter_output_handler_recv_def
      split: option.splits)

lemma pf_jobs_room: "bw_out (pf_ainput (pf_jobs f)) = None \<Longrightarrow> pf_holds mtu n f q \<Longrightarrow> pb_recv (pf_buffer f) = None"
  by (auto simp: pf_holds_def pf_jobs_def PacketProtoEncoder_output_handler_recv_def BufferWriter_output_handler_recv_def
      split: option.splits if_splits)

definition pf_idle :: "proto_flow \<Rightarrow> packet_buffer \<Rightarrow> proto_flow" where
  "pf_idle f pb = f\<lparr>pf_ainput := (pf_ainput f)\<lparr>bw_out := None\<rparr>,
     pf_encoder := (pf_encoder f)\<lparr>enc_output_packet := None\<rparr>, pf_buffer := pb\<rparr>"

text \<open>Writing the pieces behind the header's place and then the header is writing the frame.\<close>

lemma pf_write_produce:
  assumes h: "pf_holds mtu n f q" and o: "bw_out (pf_ainput f) \<noteq> None"
    and p: "pb_produce (pf_buffer f) (pp_frame (concat xs)) = Some (pb, ok)"
  shows "ok \<and> pf_write f xs = Some (pf_idle f pb, True)"
proof -
  obtain d where d: "enc_output_packet (pf_encoder f) = Some d" "pb_recv (pf_buffer f) = Some d" "bw_out (pf_ainput f) = Some (d + 2)"
    using h o by (auto simp: pf_holds_def)
  let ?x = "concat xs" and ?h = "mem16 (of_nat (length (concat xs)))"
  obtain m where m: "store (pf_mem f) d (?h @ ?x) = Some m" "ok"
    and pb: "PacketBuffer_input_handler_done ((pf_buffer f)\<lparr>pb_recv := None, pb_buf := (pb_buf (pf_buffer f))\<lparr>cb_buffer := m\<rparr>\<rparr>)
        (2 + int (length ?x)) = Some pb"
    using p d(2) by (auto simp: pb_produce_def pf_mem_def pp_frame_def split: option.splits)
  obtain m1 where m1: "store (pf_mem f) (d + 2) ?x = Some m1" "store m1 d ?h = Some m"
    by (rule store_behind_then_before [OF m(1)]) simp
  have upd: "pb\<lparr>pb_recv := r, pb_buf := b\<rparr> = pb\<lparr>pb_buf := b, pb_recv := r\<rparr>" for pb :: packet_buffer and r b by simp
  have "in_range (pf_mem f) (d + 2) (int (length ?x))" using m1(1) by (auto simp: store_def split: if_splits)
  then have s: "put_seq (pf_mem f) (d + 2) xs = Some m1" using m1(1) by (simp add: put_seq_is_store)
  have "pf_write f xs = Some (pf_idle f pb, True)"
    using pb m1(2) s d unfolding upd
    by (simp add: pf_write_def BufferWriter_StartPacket_def pf_end_packet_def BufferWriter_EndPacket_def Let_def
        PacketProtoEncoder_input_handler_done_def PACKETPROTO_ENCLEN_def pf_mem_def set_pf_mem_def pf_idle_def)
  with m(2) show ?thesis by simp
qed

lemma pf_write_ok:
  assumes h: "pf_holds mtu n f q" and x: "int (length (concat xs)) \<le> mtu"
  shows "\<exists>f' ok. pf_write f xs = Some (f', ok) \<and> pf_holds mtu n f' (if ok then q @ [concat xs] else q)
    \<and> (ok \<longleftrightarrow> bw_out (pf_ainput f) \<noteq> None)"
proof (cases "bw_out (pf_ainput f)")
  case None
  then show ?thesis using h by (auto simp: pf_write_def BufferWriter_StartPacket_def)
next
  case (Some out)
  have "pb_holds (PACKETPROTO_ENCLEN mtu) n (pf_buffer f) (map pp_frame q)" using h by (simp add: pf_holds_def)
  from pb_produce_ok [OF this, of "pp_frame (concat xs)"] x obtain pb ok
    where pb: "pb_produce (pf_buffer f) (pp_frame (concat xs)) = Some (pb, ok)"
      "pb_holds (PACKETPROTO_ENCLEN mtu) n pb (if ok then map pp_frame q @ [pp_frame (concat xs)] else map pp_frame q)"
    by (auto simp: PACKETPROTO_ENCLEN_def)
  from pf_write_produce [OF h _ pb(1)] Some have w: "ok"
    "pf_write f xs = Some (pf_idle f pb, True)"
    by simp_all
  then show ?thesis using Some pb(2) by (auto simp: pf_holds_def pf_idle_def)
qed

lemma pb_consume_recv:
  assumes "pb_holds mtu n pb q" "pb_recv pb = Some d" "pb_consume pb = Some (pb', r)"
  shows "pb_recv pb' = Some d"
proof -
  have "mtu \<le> cb_input_avail (pb_buf pb)" "pb_input_mtu pb = mtu"
    using assms(1,2) by (auto simp: pb_holds_def Let_def split: if_splits)
  then show ?thesis using assms(2,3)
    by (auto simp: pb_consume_def PacketBuffer_output_handler_done_def pb_schedule_send_def Let_def split: option.splits if_splits)
qed

lemma pf_take_ok:
  assumes "pf_holds mtu n f (x # q)"
  shows "\<exists>f'. pf_take f = Some (f', Some (pp_frame x)) \<and> pf_holds mtu n f' q"
proof -
  have p: "pb_holds (PACKETPROTO_ENCLEN mtu) n (pf_buffer f) (pp_frame x # map pp_frame q)" using assms by (simp add: pf_holds_def)
  then obtain pb where pb: "pb_consume (pf_buffer f) = Some (pb, Some (pp_frame x))" "pb_holds (PACKETPROTO_ENCLEN mtu) n pb (map pp_frame q)"
    using pb_consume_ok by blast
  then show ?thesis using assms pb_consume_recv [OF p _ pb(1)] by (auto simp: pf_take_def pf_holds_def)
qed

lemma pf_take_nil: "pf_holds mtu n f [] \<Longrightarrow> pf_take f = Some (f, None)"
  using pb_consume_nil [of "PACKETPROTO_ENCLEN mtu" n "pf_buffer f"] by (simp add: pf_take_def pf_holds_def)

lemma pf_offer_ok:
  assumes h: "pf_holds mtu n f q" and x: "int (length x) \<le> mtu"
  shows "\<exists>f' ok. pf_write (pf_jobs f) [x] = Some (f', ok) \<and> pf_holds mtu n f' (if ok then q @ [x] else q) \<and> (ok \<or> n \<le> int (length q))"
proof -
  obtain f' ok where w: "pf_write (pf_jobs f) [x] = Some (f', ok)" "pf_holds mtu n f' (if ok then q @ [x] else q)"
    "ok \<longleftrightarrow> bw_out (pf_ainput (pf_jobs f)) \<noteq> None"
    using pf_write_ok [OF pf_jobs_holds [OF h], of "[x]"] x unfolding concat.simps append_Nil2 by blast
  have "n \<le> int (length q)" if "\<not> ok"
  proof -
    have "pb_recv (pf_buffer f) = None" using pf_jobs_room [OF _ h] that w(3) by simp
    moreover have "pb_holds (PACKETPROTO_ENCLEN mtu) n (pf_buffer f) (map pp_frame q)" using h by (simp add: pf_holds_def)
    ultimately show ?thesis using pb_produce_ok [of "PACKETPROTO_ENCLEN mtu" n "pf_buffer f" "map pp_frame q" "pp_frame x"] x
      by (auto simp: pb_produce_def PACKETPROTO_ENCLEN_def)
  qed
  with w show ?thesis by blast
qed

text \<open>The flow as a queue, when the pending jobs run before each write.\<close>

interpretation pfq: packet_fifo "pf_holds mtu n" pp_frame mtu n "\<lambda>f x. pf_write (pf_jobs f) [x]" pf_take for mtu n
  by unfold_locales (simp_all add: pf_offer_ok pf_take_ok pf_take_nil)

lemma PacketProtoFlow_Init_holds:
  assumes "malloc_ok malloc" "0 \<le> mtu" "0 < n" "4 * ChunkBuffer2_calc_blocks (PACKETPROTO_ENCLEN mtu) n \<le> INT_MAX"
    "PacketProtoFlow_Init malloc mtu n = Some f"
  shows "pf_holds mtu n f []"
proof -
  obtain pb where "PacketBuffer_Init malloc (PACKETPROTO_ENCLEN mtu) n = Some pb"
    "f = \<lparr>pf_ainput = BufferWriter_Init, pf_encoder = PacketProtoEncoder_Init, pf_buffer = pb\<rparr>"
    using assms(5) by (auto simp: PacketProtoFlow_Init_def split: option.splits)
  moreover have "0 \<le> PACKETPROTO_ENCLEN mtu" using assms(2) by (simp add: PACKETPROTO_ENCLEN_def)
  ultimately show ?thesis using PacketBuffer_Init_holds [OF assms(1) _ assms(3,4)]
    by (simp add: pf_holds_def BufferWriter_Init_def PacketProtoEncoder_Init_def)
qed

text \<open>
  The sending flow of a connection (writer, encoder and packet buffer sharing one memory) never
  writes outside that memory, whatever packets up to its MTU its user writes and whenever its consumer
  takes one; what it gives out are the packets that were accepted, each framed with its length, in
  order; and a packet is refused only while at least \<open>n\<close> packets are waiting.
\<close>

theorem proto_flow_frames_in_order:
  assumes "malloc_ok malloc" "0 \<le> mtu" "0 < n" "4 * ChunkBuffer2_calc_blocks (PACKETPROTO_ENCLEN mtu) n \<le> INT_MAX"
    and "PacketProtoFlow_Init malloc mtu n = Some f" and "\<forall>op\<in>set ops. fifo_op_fits mtu op"
  shows "\<exists>f' evs. fifo_run (\<lambda>f x. pf_write (pf_jobs f) [x]) pf_take f ops = Some (f', evs)
    \<and> list_all2 fifo_answers ops evs \<and> fifo_ok pp_frame n [] evs"
  using pfq.run_ok [OF PacketProtoFlow_Init_holds [OF assms(1-5)] assms(6)] by blast

theorem proto_flow_frames_in_order_witness:
  "\<exists>f. PacketProtoFlow_Init zero_malloc 3 2 = Some f \<and>
     (\<exists>f' evs. fifo_run (\<lambda>f x. pf_write (pf_jobs f) [x]) pf_take f [FOffer [1, 2, 3], FOffer [], FTake, FTake] = Some (f', evs)
      \<and> list_all2 fifo_answers [FOffer [1, 2, 3], FOffer [], FTake, FTake] evs \<and> fifo_ok pp_frame 2 [] evs)"
proof -
  have "4 * ChunkBuffer2_calc_blocks (PACKETPROTO_ENCLEN 3) 2 \<le> INT_MAX"
    by (simp add: ChunkBuffer2_calc_blocks_def bdivide_up_def INT_MAX_def PACKETPROTO_ENCLEN_def)
  moreover obtain f where "PacketProtoFlow_Init zero_malloc 3 2 = Some f"
    by (simp add: PacketProtoFlow_Init_def PACKETPROTO_ENCLEN_def PacketBuffer_Init_def ChunkBuffer2_calc_blocks_def bdivide_up_def
        INT_MAX_def BAllocArray_def SIZE_MAX_def BAlloc_def zero_malloc_def ChunkBuffer2_Init_def ChunkBuffer2_update_output_def)
  ultimately show ?thesis
    using proto_flow_frames_in_order [OF zero_malloc_ok, of 3 2 f "[FOffer [1, 2, 3], FOffer [], FTake, FTake]"] by auto
qed

end
