(* ===== verification/Packet_Link.thy ===== *)
theory Packet_Link
  imports Proto_Flow
begin

text \<open>
  The sending end of the connection to a UDP gateway server: the connector
  (\<^verbatim>\<open>badvpn/flow/PacketPassConnector.c\<close>), which keeps the packet being sent while the server is away,
  and the stream sender (\<^verbatim>\<open>badvpn/flow/PacketStreamSender.c\<close>), of which there is a new one for every
  connection to the server.
\<close>

section \<open>The code: PacketStreamSender\<close>

record stream_sender =
  ss_in :: bytes
  ss_in_len :: int
  ss_in_used :: int

text \<open>A call of the output with the bytes still to send, or the end of the input packet.\<close>

datatype ss_act = SsSend bytes | SsDone

definition PacketStreamSender_Init :: stream_sender where
  "PacketStreamSender_Init = \<lparr>ss_in = [], ss_in_len = -1, ss_in_used = 0\<rparr>"

definition send_data :: "stream_sender \<Rightarrow> (stream_sender \<times> ss_act) option" where
  "send_data s =
     (if ss_in_used s < ss_in_len s
      then map_option (\<lambda>bs. (s, SsSend bs)) (load (ss_in s) (ss_in_used s) (ss_in_len s - ss_in_used s))
      else Some (s\<lparr>ss_in_len := -1\<rparr>, SsDone))"

definition PacketStreamSender_input_handler_send :: "stream_sender \<Rightarrow> bytes \<Rightarrow> int \<Rightarrow> (stream_sender \<times> ss_act) option" where
  "PacketStreamSender_input_handler_send s data data_len =
     send_data (s\<lparr>ss_in_len := data_len, ss_in := data, ss_in_used := 0\<rparr>)"

definition PacketStreamSender_output_handler_done :: "stream_sender \<Rightarrow> int \<Rightarrow> (stream_sender \<times> ss_act) option" where
  "PacketStreamSender_output_handler_done s data_len = send_data (s\<lparr>ss_in_used := ss_in_used s + data_len\<rparr>)"

section \<open>The code: PacketPassConnector\<close>

record connector =
  cn_in_len :: int
  cn_in :: bytes
  cn_output :: bool

text \<open>The packet that the connector passes to its output, if it has one to pass.\<close>

type_synonym cn_act = "(bytes \<times> int) option"

definition PacketPassConnector_Init :: connector where
  "PacketPassConnector_Init = \<lparr>cn_in_len = -1, cn_in = [], cn_output = False\<rparr>"

definition PacketPassConnector_input_handler_send :: "connector \<Rightarrow> bytes \<Rightarrow> int \<Rightarrow> connector \<times> cn_act" where
  "PacketPassConnector_input_handler_send c data data_len =
     (let c1 = c\<lparr>cn_in_len := data_len, cn_in := data\<rparr>
      in (c1, if cn_output c1 then Some (cn_in c1, cn_in_len c1) else None))"

definition PacketPassConnector_output_handler_done :: "connector \<Rightarrow> connector" where
  "PacketPassConnector_output_handler_done c = c\<lparr>cn_in_len := -1\<rparr>"

definition PacketPassConnector_ConnectOutput :: "connector \<Rightarrow> connector \<times> cn_act" where
  "PacketPassConnector_ConnectOutput c =
     (let c1 = c\<lparr>cn_output := True\<rparr> in (c1, if cn_in_len c1 \<ge> 0 then Some (cn_in c1, cn_in_len c1) else None))"

definition PacketPassConnector_DisconnectOutput :: "connector \<Rightarrow> connector" where
  "PacketPassConnector_DisconnectOutput c = c\<lparr>cn_output := False\<rparr>"

section \<open>The two together\<close>

text \<open>
  The link with its environment: the queue gives a packet when the connector finished the last one;
  the socket takes some of the bytes it was offered; the client connects the link to a new server
  or disconnects it (\<^verbatim>\<open>UdpGwClient_ConnectServer\<close>, \<^verbatim>\<open>free_server\<close>).  The log has the packets given,
  how many of them were reported as sent, and the bytes that each connection took.
\<close>

record link =
  lk_con :: connector
  lk_sender :: "stream_sender option"
  lk_offer :: "bytes option"
  lg_given :: "bytes list"
  lg_done :: nat
  lg_streams :: "bytes list"

datatype link_ev = LkGive bytes | LkTake int | LkConnect | LkDisconnect

definition link_init :: link where
  "link_init = \<lparr>lk_con = PacketPassConnector_Init, lk_sender = None, lk_offer = None, lg_given = [], lg_done = 0, lg_streams = []\<rparr>"

text \<open>The sender's result: bytes for the socket, or the packet is done and the connector is told.\<close>

definition link_sent :: "link \<Rightarrow> (stream_sender \<times> ss_act) option \<Rightarrow> link option" where
  "link_sent k r =
     (case r of
        None \<Rightarrow> None
      | Some (s, SsSend bs) \<Rightarrow> Some (k\<lparr>lk_sender := Some s, lk_offer := Some bs\<rparr>)
      | Some (s, SsDone) \<Rightarrow>
          Some (k\<lparr>lk_sender := Some s, lk_offer := None, lk_con := PacketPassConnector_output_handler_done (lk_con k),
                  lg_done := lg_done k + 1\<rparr>))"

definition link_pass :: "link \<Rightarrow> cn_act \<Rightarrow> link option" where
  "link_pass k act =
     (case act of
        None \<Rightarrow> Some k
      | Some (data, data_len) \<Rightarrow>
          (case lk_sender k of
             None \<Rightarrow> None
           | Some s \<Rightarrow> link_sent k (PacketStreamSender_input_handler_send s data data_len)))"

fun link_step :: "link_ev \<Rightarrow> link \<Rightarrow> link option" where
  "link_step (LkGive pkt) k =
     (let (c, act) = PacketPassConnector_input_handler_send (lk_con k) pkt (int (length pkt))
      in link_pass (k\<lparr>lk_con := c, lg_given := lg_given k @ [pkt]\<rparr>) act)"
| "link_step (LkTake n) k =
     (case (lk_sender k, lk_offer k) of
        (Some s, Some bs) \<Rightarrow>
          link_sent (k\<lparr>lg_streams := butlast (lg_streams k) @ [last (lg_streams k) @ take (nat n) bs]\<rparr>)
            (PacketStreamSender_output_handler_done s n)
      | _ \<Rightarrow> None)"
| "link_step LkConnect k =
     (let (c, act) = PacketPassConnector_ConnectOutput (lk_con k)
      in link_pass (k\<lparr>lk_con := c, lk_sender := Some PacketStreamSender_Init, lg_streams := lg_streams k @ [[]]\<rparr>) act)"
| "link_step LkDisconnect k =
     Some (k\<lparr>lk_con := PacketPassConnector_DisconnectOutput (lk_con k), lk_sender := None, lk_offer := None\<rparr>)"

fun link_enabled :: "link_ev \<Rightarrow> link \<Rightarrow> bool" where
  "link_enabled (LkGive pkt) k \<longleftrightarrow> cn_in_len (lk_con k) = -1"
| "link_enabled (LkTake n) k \<longleftrightarrow> 0 < n \<and> (case lk_offer k of None \<Rightarrow> False | Some bs \<Rightarrow> n \<le> int (length bs))"
| "link_enabled LkConnect k \<longleftrightarrow> \<not> cn_output (lk_con k)"
| "link_enabled LkDisconnect k \<longleftrightarrow> cn_output (lk_con k)"

fun link_run :: "link_ev list \<Rightarrow> link \<Rightarrow> link option" where
  "link_run [] k = Some k"
| "link_run (e # es) k = (case link_step e k of None \<Rightarrow> None | Some k' \<Rightarrow> link_run es k')"

fun link_allowed :: "link_ev list \<Rightarrow> link \<Rightarrow> bool" where
  "link_allowed [] k \<longleftrightarrow> True"
| "link_allowed (e # es) k \<longleftrightarrow> link_enabled e k \<and> (case link_step e k of None \<Rightarrow> True | Some k' \<Rightarrow> link_allowed es k')"

section \<open>What the connections carry\<close>

text \<open>
  Every connection carried some whole packets and then a part of the next one, which the next
  connection starts again.
\<close>

definition cut :: "bytes list \<Rightarrow> bytes \<Rightarrow> bool" where
  "cut given part \<longleftrightarrow> part = [] \<or> (\<exists>x\<in>set given. \<exists>n<length x. part = take n x)"

definition carried :: "bytes list \<Rightarrow> nat \<Rightarrow> bytes list \<Rightarrow> (bytes list \<times> bytes) list \<Rightarrow> bool" where
  "carried given n streams cs \<longleftrightarrow>
     streams = map (\<lambda>(ps, part). concat ps @ part) cs \<and> concat (map fst cs) = take n given \<and> (\<forall>(ps, part)\<in>set cs. cut given part)"

definition in_progress :: "bytes list \<Rightarrow> nat \<Rightarrow> bytes \<Rightarrow> bool" where
  "in_progress given n x \<longleftrightarrow> given = take n given @ [x]"

definition sender_at :: "link \<Rightarrow> nat \<Rightarrow> bool" where
  "sender_at k u \<longleftrightarrow> (\<exists>s x. lk_sender k = Some s \<and> cn_in (lk_con k) = x \<and> u < length x
     \<and> ss_in s = x \<and> ss_in_len s = int (length x) \<and> ss_in_used s = int u \<and> lk_offer k = Some (drop u x))"

definition link_inv :: "link \<Rightarrow> bool" where
  "link_inv k \<longleftrightarrow>
     (\<exists>cs. carried (lg_given k) (lg_done k) (lg_streams k) cs
      \<and> (if cn_in_len (lk_con k) = -1 then lg_done k = length (lg_given k) \<and> lk_offer k = None
         else cn_in_len (lk_con k) = int (length (cn_in (lk_con k)))
           \<and> in_progress (lg_given k) (lg_done k) (cn_in (lk_con k)))
      \<and> (if cn_output (lk_con k) then lk_sender k \<noteq> None \<and> cs \<noteq> []
           \<and> (if cn_in_len (lk_con k) = -1 then snd (last cs) = []
              else \<exists>u. sender_at k u \<and> snd (last cs) = take u (cn_in (lk_con k)))
         else lk_sender k = None \<and> lk_offer k = None))"

abbreviation flat :: "(bytes list \<times> bytes) list \<Rightarrow> bytes list" where
  "flat cs \<equiv> map (\<lambda>(ps, part). concat ps @ part) cs"

lemma cut_mono: "cut given part \<Longrightarrow> cut (given @ [x]) part"
  by (auto simp: cut_def)

lemma cut_take: "u < length x \<Longrightarrow> x \<in> set given \<Longrightarrow> cut given (take u x)"
  by (auto simp: cut_def)

lemma carried_give: "carried given n streams cs \<Longrightarrow> n \<le> length given \<Longrightarrow> carried (given @ [x]) n streams cs"
  by (auto simp: carried_def intro: cut_mono)

lemma carried_connect: "carried given n streams cs \<Longrightarrow> carried given n (streams @ [[]]) (cs @ [([], [])])"
  by (auto simp: carried_def cut_def)

lemma carried_lastD:
  assumes "carried given n streams (bs @ [(ps, part)])"
  shows "carried given n (flat (bs @ [(ps, [])])) (bs @ [(ps, [])])" "streams = flat bs @ [concat ps @ part]"
  using assms by (auto simp: carried_def cut_def)

lemma carried_lastI:
  assumes "carried given n (flat (bs @ [(ps, [])])) (bs @ [(ps, [])])" "streams = flat bs @ [concat ps @ part]" "cut given part"
  shows "carried given n streams (bs @ [(ps, part)])"
  using assms by (auto simp: carried_def)

lemma in_progressD:
  assumes "in_progress given n x"
  shows "given = take n given @ [x]" "n + 1 = length given" "x \<in> set given"
proof -
  show g: "given = take n given @ [x]" using assms by (simp only: in_progress_def)
  have "length given = min (length given) n + 1" by (subst g) simp
  then show "n + 1 = length given" by (simp add: min_def split: if_splits)
  show "x \<in> set given" by (subst g) simp
qed

lemma in_progress_give: "n = length given \<Longrightarrow> in_progress (given @ [x]) n x"
  by (simp add: in_progress_def)

lemma snoc_of: "cs \<noteq> [] \<Longrightarrow> \<exists>bs ps. cs = bs @ [(ps, snd (last cs))]"
  by (cases cs rule: rev_cases) auto

text \<open>The sender goes on with a packet of which \<open>u\<close> bytes are on their way.\<close>

lemma link_sent_ok:
  assumes c: "carried (lg_given k) (lg_done k) (flat (bs @ [(ps, [])])) (bs @ [(ps, [])])"
    and st: "lg_streams k = flat bs @ [concat ps @ take u x]"
    and con: "cn_output (lk_con k)" "cn_in (lk_con k) = x" "cn_in_len (lk_con k) = int (length x)"
    and given: "in_progress (lg_given k) (lg_done k) x"
    and s: "ss_in s = x" "ss_in_len s = int (length x)" "ss_in_used s = int u" "u \<le> length x"
  shows "\<exists>k'. link_sent k (send_data s) = Some k' \<and> link_inv k'"
proof (cases "u = length x")
  case True
  have dn: "lg_done k + 1 = length (lg_given k)" by (rule in_progressD(2) [OF given])
  have "cut (lg_given k) []" by (simp add: cut_def)
  moreover have "concat (map fst bs) @ ps @ [x] = lg_given k" by (subst in_progressD(1) [OF given]) (use c in \<open>simp add: carried_def\<close>)
  ultimately have c': "carried (lg_given k) (lg_done k + 1) (lg_streams k) (bs @ [(ps @ [x], [])])"
    using c st True dn by (auto simp: carried_def)
  let ?k = "k\<lparr>lk_sender := Some (s\<lparr>ss_in_len := -1\<rparr>), lk_offer := None,
     lk_con := PacketPassConnector_output_handler_done (lk_con k), lg_done := lg_done k + 1\<rparr>"
  have "link_inv ?k" unfolding link_inv_def
    by (rule exI [of _ "bs @ [(ps @ [x], [])]"])
      (use c' dn con(1) in \<open>simp add: PacketPassConnector_output_handler_done_def\<close>)
  then show ?thesis using s True by (simp add: send_data_def link_sent_def)
next
  case False
  then have u: "u < length x" using s(4) by simp
  have "carried (lg_given k) (lg_done k) (lg_streams k) (bs @ [(ps, take u x)])"
    by (rule carried_lastI [OF c st cut_take [OF u in_progressD(3) [OF given]]])
  moreover have l: "load (ss_in s) (int u) (int (length x) - int u) = Some (drop u x)"
    using s u by (auto simp: load_def in_range_def nat_diff_distrib)
  ultimately have "link_inv (k\<lparr>lk_sender := Some s, lk_offer := Some (drop u x)\<rparr>)" unfolding link_inv_def
    by (intro exI [of _ "bs @ [(ps, take u x)]"]) (use s u con given in \<open>auto simp: sender_at_def\<close>)
  then show ?thesis using s u l by (simp add: send_data_def link_sent_def)
qed

lemma link_pass_ok:
  assumes c: "carried (lg_given k) (lg_done k) (lg_streams k) (bs @ [(ps, [])])"
    and con: "cn_output (lk_con k)" "cn_in (lk_con k) = x" "cn_in_len (lk_con k) = int (length x)" "lk_sender k \<noteq> None"
    and given: "in_progress (lg_given k) (lg_done k) x"
  shows "\<exists>k'. link_pass k (Some (x, int (length x))) = Some k' \<and> link_inv k'"
proof -
  obtain s where s: "lk_sender k = Some s" using con(4) by auto
  let ?s = "s\<lparr>ss_in_len := int (length x), ss_in := x, ss_in_used := 0\<rparr>"
  have c': "carried (lg_given k) (lg_done k) (flat (bs @ [(ps, [])])) (bs @ [(ps, [])])"
    and st: "lg_streams k = flat bs @ [concat ps @ take 0 x]" using c by (auto simp: carried_def)
  show ?thesis
    using link_sent_ok [OF c' st con(1-3) given, of ?s] s
    by (simp add: link_pass_def PacketStreamSender_input_handler_send_def)
qed

lemma link_inv_init: "link_inv link_init"
  by (simp add: link_inv_def link_init_def PacketPassConnector_Init_def carried_def)

lemma link_give_inv:
  assumes i: "link_inv k" and idle: "cn_in_len (lk_con k) = -1"
  shows "\<exists>k'. link_step (LkGive x) k = Some k' \<and> link_inv k'"
proof -
  obtain cs where c: "carried (lg_given k) (lg_done k) (lg_streams k) cs" and d: "lg_done k = length (lg_given k)"
    and o: "lk_offer k = None" "cn_output (lk_con k) \<Longrightarrow> lk_sender k \<noteq> None \<and> cs \<noteq> [] \<and> snd (last cs) = []"
      "\<not> cn_output (lk_con k) \<Longrightarrow> lk_sender k = None"
    using i idle by (auto simp: link_inv_def split: if_splits)
  let ?k = "k\<lparr>lk_con := (lk_con k)\<lparr>cn_in_len := int (length x), cn_in := x\<rparr>, lg_given := lg_given k @ [x]\<rparr>"
  have c': "carried (lg_given ?k) (lg_done ?k) (lg_streams ?k) cs" using carried_give [OF c] d by simp
  show ?thesis
  proof (cases "cn_output (lk_con k)")
    case True
    then obtain bs ps where "cs = bs @ [(ps, [])]" using o(2) snoc_of [of cs] by auto
    then show ?thesis using link_pass_ok [of ?k bs ps x] c' True d o(2) in_progress_give [OF d]
      by (simp add: PacketPassConnector_input_handler_send_def Let_def)
  next
    case False
    have "link_inv ?k" unfolding link_inv_def by (rule exI [of _ cs]) (use c' False d o in_progress_give [OF d] in simp)
    then show ?thesis using False by (simp add: PacketPassConnector_input_handler_send_def Let_def link_pass_def)
  qed
qed

lemma link_take_inv:
  assumes i: "link_inv k" and en: "link_enabled (LkTake n) k"
  shows "\<exists>k'. link_step (LkTake n) k = Some k' \<and> link_inv k'"
proof -
  obtain off where off: "lk_offer k = Some off" "0 < n" "n \<le> int (length off)" using en by (auto split: option.splits)
  obtain cs u x s where c: "carried (lg_given k) (lg_done k) (lg_streams k) cs" "cs \<noteq> []" "snd (last cs) = take u x"
    and con: "cn_output (lk_con k)" "cn_in (lk_con k) = x" "cn_in_len (lk_con k) = int (length x)"
    and g: "in_progress (lg_given k) (lg_done k) x"
    and s: "lk_sender k = Some s" "ss_in s = x" "ss_in_len s = int (length x)" "ss_in_used s = int u" "u < length x"
      "off = drop u x"
    using i off(1) by (auto simp: link_inv_def sender_at_def split: if_splits)
  obtain bs ps where cs: "cs = bs @ [(ps, take u x)]" using snoc_of [OF c(2)] c(3) by auto
  note cl = carried_lastD [OF c(1) [unfolded cs]]
  let ?k = "k\<lparr>lg_streams := butlast (lg_streams k) @ [last (lg_streams k) @ take (nat n) off]\<rparr>"
  have "take u x @ take (nat n) off = take (u + nat n) x" using s(6) by (simp add: take_add)
  then have st: "lg_streams ?k = flat bs @ [concat ps @ take (u + nat n) x]" using cl by simp
  have "u + nat n \<le> length x" "int u + n = int (u + nat n)" using off(2,3) s(6) by auto
  then have "\<exists>k'. link_sent ?k (send_data (s\<lparr>ss_in_used := ss_in_used s + n\<rparr>)) = Some k' \<and> link_inv k'"
    by (intro link_sent_ok [where bs = bs and ps = ps and u = "u + nat n" and x = x]) (use cl st con g s in simp_all)
  then show ?thesis using s(1) off(1) by (simp add: PacketStreamSender_output_handler_done_def)
qed

lemma link_connect_inv:
  assumes i: "link_inv k" and en: "\<not> cn_output (lk_con k)"
  shows "\<exists>k'. link_step LkConnect k = Some k' \<and> link_inv k'"
proof -
  obtain cs where c: "carried (lg_given k) (lg_done k) (lg_streams k) cs" and o: "lk_offer k = None"
    and n: "cn_in_len (lk_con k) = -1 \<Longrightarrow> lg_done k = length (lg_given k)"
      "cn_in_len (lk_con k) \<noteq> -1 \<Longrightarrow> cn_in_len (lk_con k) = int (length (cn_in (lk_con k)))
         \<and> in_progress (lg_given k) (lg_done k) (cn_in (lk_con k))"
    using i en by (auto simp: link_inv_def split: if_splits)
  let ?k = "k\<lparr>lk_con := (lk_con k)\<lparr>cn_output := True\<rparr>, lk_sender := Some PacketStreamSender_Init, lg_streams := lg_streams k @ [[]]\<rparr>"
  have c': "carried (lg_given ?k) (lg_done ?k) (lg_streams ?k) (cs @ [([], [])])" using carried_connect [OF c] by simp
  show ?thesis
  proof (cases "cn_in_len (lk_con k) = -1")
    case True
    have "link_inv ?k" unfolding link_inv_def by (rule exI [of _ "cs @ [([], [])]"]) (use c' True n(1) o in simp)
    then show ?thesis using True by (simp add: PacketPassConnector_ConnectOutput_def Let_def link_pass_def)
  next
    case False
    then show ?thesis using link_pass_ok [OF c', of "cn_in (lk_con k)"] n(2)
      by (simp add: PacketPassConnector_ConnectOutput_def Let_def)
  qed
qed

lemma link_disconnect_inv: "link_inv k \<Longrightarrow> link_inv (the (link_step LkDisconnect k))"
  unfolding link_inv_def by (elim exE, rule exI) (auto simp: PacketPassConnector_DisconnectOutput_def split: if_splits)

lemma link_step_inv: "link_inv k \<Longrightarrow> link_enabled e k \<Longrightarrow> \<exists>k'. link_step e k = Some k' \<and> link_inv k'"
  using link_give_inv link_take_inv link_connect_inv link_disconnect_inv by (cases e) auto

lemma link_run_inv: "link_inv k \<Longrightarrow> link_allowed es k \<Longrightarrow> \<exists>k'. link_run es k = Some k' \<and> link_inv k'"
proof (induction es arbitrary: k)
  case (Cons e es)
  then obtain k' where "link_step e k = Some k'" "link_inv k'" using link_step_inv [of k e] by auto
  then show ?case using Cons by simp
qed simp

section \<open>What the server decodes\<close>

fun gives :: "link_ev list \<Rightarrow> bytes list" where
  "gives [] = []"
| "gives (LkGive x # es) = x # gives es"
| "gives (_ # es) = gives es"

lemma link_sent_given: "link_sent k r = Some k' \<Longrightarrow> lg_given k' = lg_given k"
  by (auto simp: link_sent_def split: option.splits prod.splits ss_act.splits)

lemma link_pass_given: "link_pass k act = Some k' \<Longrightarrow> lg_given k' = lg_given k"
  by (auto simp: link_pass_def dest: link_sent_given split: option.splits prod.splits)

lemma link_step_given: "link_step e k = Some k' \<Longrightarrow> lg_given k' = lg_given k @ gives [e]"
  by (cases e) (auto simp: Let_def dest!: link_pass_given link_sent_given split: option.splits prod.splits)

lemma link_run_given: "link_run es k = Some k' \<Longrightarrow> lg_given k' = lg_given k @ gives es"
proof (induction es arbitrary: k)
  case (Cons e es)
  then obtain k1 where "link_step e k = Some k1" "link_run es k1 = Some k'" by (auto split: option.splits)
  then have "lg_given k' = (lg_given k @ gives [e]) @ gives es" using Cons.IH link_step_given by metis
  then show ?case by (cases e) simp_all
qed simp

lemma pp_parse_part:
  assumes "n < length (pp_frame y)" "length y \<le> 65535" "int (length y) \<le> mtu"
  shows "pp_parse mtu (take n (pp_frame y)) = ([], False)"
proof (cases "n < 2")
  case True
  then show ?thesis by (subst pp_parse.simps) (simp add: pp_frame_def mem16_def)
next
  case False
  then obtain k where k: "n = Suc (Suc k)" by (metis Suc_1 less_2_cases_iff not0_implies_Suc)
  have "unat (of_nat (length y) :: u16) = length y" using assms(2) by (simp add: unat_of_nat_u16)
  then have "uint (of_nat (length y) :: u16) = int (length y)" by (metis of_nat_unat)
  then show ?thesis using assms k by (subst pp_parse.simps) (simp add: pp_frame_def mem16_def rd_mem16_mem16)
qed

lemma pp_parse_frames_append:
  "(\<forall>x\<in>set xs. int (length x) \<le> mtu) \<Longrightarrow> mtu \<le> 65535 \<Longrightarrow>
   pp_parse mtu (concat (map pp_frame xs) @ s) = apfst ((@) xs) (pp_parse mtu s)"
proof (induction xs)
  case Nil
  then show ?case by (cases "pp_parse mtu s") simp
next
  case (Cons x xs)
  then show ?case by (simp add: pp_parse_frame apfst_compose comp_def)
qed

definition framed :: "int \<Rightarrow> bytes \<Rightarrow> bool" where
  "framed mtu x \<longleftrightarrow> int (length (drop 2 x)) \<le> mtu \<and> x = pp_frame (drop 2 x)"

lemma framed_frame: "int (length y) \<le> mtu \<Longrightarrow> framed mtu (pp_frame y)"
  by (simp add: framed_def pp_frame_def)

lemma parse_carried:
  assumes c: "carried given n streams cs" and f: "\<forall>x\<in>set given. framed mtu x" and mtu: "mtu \<le> 65535"
    and in_cs: "(ps, part) \<in> set cs"
  shows "pp_parse mtu (concat ps @ part) = (map (drop 2) ps, False)" "map pp_frame (map (drop 2) ps) = ps"
proof -
  have "set ps \<subseteq> set (concat (map fst cs))" using in_cs by force
  also have "\<dots> \<subseteq> set given" using c set_take_subset [of n given] by (simp add: carried_def)
  finally have ps: "\<forall>x\<in>set ps. framed mtu x" using f by blast
  then have len: "\<forall>y\<in>set (map (drop 2) ps). int (length y) \<le> mtu" by (auto simp: framed_def)
  have eq: "map pp_frame (map (drop 2) ps) = ps"
    unfolding map_map by (rule map_idI) (use ps in \<open>auto simp: framed_def\<close>)
  have "cut given part" using c in_cs by (auto simp: carried_def)
  then have "pp_parse mtu part = ([], False)"
  proof (cases "part = []")
    case True
    then show ?thesis by (subst pp_parse.simps) simp
  next
    case False
    then obtain x n where x: "x \<in> set given" "n < length x" "part = take n x" using \<open>cut given part\<close> by (auto simp: cut_def)
    then have y: "x = pp_frame (drop 2 x)" "int (length (drop 2 x)) \<le> mtu" using f by (simp_all add: framed_def)
    have "n < length (pp_frame (drop 2 x))" using x(2) by (simp only: y(1) [symmetric])
    from pp_parse_part [OF this _ y(2)] mtu y show ?thesis unfolding x(3) y(1) [symmetric] by simp
  qed
  then show "pp_parse mtu (concat ps @ part) = (map (drop 2) ps, False)"
    using pp_parse_frames_append [OF len mtu, of part] by (simp add: eq del: map_map)
  show "map pp_frame (map (drop 2) ps) = ps" by (rule eq)
qed

text \<open>
  C31: However often the gateway server is disconnected and connected again, and however the sockets
  cut the streams: the receiving ends, each starting with a fresh decoder, decode together exactly
  the packets that the link has reported as sent, in order, none lost, repeated or torn, and none of
  them reports an error.  A packet that was under way when a server was lost is sent again whole,
  to the next server only.
\<close>

theorem link_delivers_exactly_once:
  assumes "link_allowed es link_init" and "\<forall>x\<in>set (gives es). framed mtu x" and "0 \<le> mtu" and "mtu \<le> 65535"
    and "malloc_ok malloc" and "PacketProtoDecoder_Init malloc mtu = Some (d, req)"
  shows "\<exists>k pss. link_run es link_init = Some k
     \<and> list_all2 (\<lambda>s ps. \<forall>chunks. concat chunks = s \<longrightarrow> pp_feeds d req chunks = Some (ps, False)) (lg_streams k) pss
     \<and> map pp_frame (concat pss) = take (lg_done k) (gives es) \<and> length (gives es) \<le> lg_done k + 1"
proof -
  obtain k where k: "link_run es link_init = Some k" "link_inv k" using link_run_inv [OF link_inv_init assms(1)] by blast
  have g: "lg_given k = gives es" using link_run_given [OF k(1)] by (simp add: link_init_def)
  obtain cs where c: "carried (gives es) (lg_done k) (lg_streams k) cs" and n: "length (gives es) \<le> lg_done k + 1"
    using k(2) in_progressD(2) [of "gives es" "lg_done k" "cn_in (lk_con k)"] unfolding link_inv_def g by (auto split: if_splits)
  let ?pss = "map (\<lambda>(ps, _). map (drop 2) ps) cs"
  have feeds: "pp_feeds d req chunks = Some (pp_parse mtu (concat chunks))" for chunks
    using pp_feeds_ok [of d req chunks] PacketProtoDecoder_Init_waits [OF assms(5,3,6)] assms(4) by simp
  have "list_all2 (\<lambda>s ps. \<forall>chunks. concat chunks = s \<longrightarrow> pp_feeds d req chunks = Some (ps, False)) (lg_streams k) ?pss"
    using c parse_carried(1) [OF c assms(2,4)] by (auto simp: carried_def list_all2_map1 list_all2_map2 list_all2_same feeds)
  moreover have "map (map pp_frame) ?pss = map fst cs"
    using parse_carried(2) [OF c assms(2,4)] by auto
  then have "map pp_frame (concat ?pss) = take (lg_done k) (gives es)" using c by (simp add: carried_def map_concat del: map_map)
  ultimately show ?thesis using k(1) n by blast
qed

theorem link_delivers_exactly_once_witness:
  "\<exists>k d req pss. link_run [LkGive (pp_frame [7, 8]), LkConnect, LkTake 3, LkDisconnect, LkConnect, LkTake 4,
       LkGive (pp_frame [9]), LkTake 1] link_init = Some k
     \<and> PacketProtoDecoder_Init zero_malloc 3 = Some (d, req)
     \<and> list_all2 (\<lambda>s ps. \<forall>chunks. concat chunks = s \<longrightarrow> pp_feeds d req chunks = Some (ps, False)) (lg_streams k) pss
     \<and> map pp_frame (concat pss) = take (lg_done k) [pp_frame [7, 8], pp_frame [9]] \<and> 2 \<le> lg_done k + 1"
proof -
  let ?es = "[LkGive (pp_frame [7, 8]), LkConnect, LkTake 3, LkDisconnect, LkConnect, LkTake 4,
       LkGive (pp_frame [9]), LkTake 1]"
  obtain d req where d: "PacketProtoDecoder_Init zero_malloc 3 = Some (d, req)"
    by (simp add: PacketProtoDecoder_Init_def PACKETPROTO_ENCLEN_def zero_malloc_def)
  have "link_allowed ?es link_init" by code_simp
  moreover have "\<forall>x\<in>set (gives ?es). framed 3 x" by (simp add: framed_frame)
  ultimately show ?thesis using link_delivers_exactly_once [OF _ _ _ _ zero_malloc_ok d, of ?es] d by auto
qed

end
