(* ===== verification/Linked_List1.thy ===== *)
theory Linked_List1
  imports Hev_List
begin

text \<open>
  The intrusive doubly linked list of \<^verbatim>\<open>badvpn/structure/LinkedList1.h\<close>, on the same store of nodes
  as the list of the tunnel.  It satisfies the same contract \<open>node_list\<close>, so the connections of the
  gateway client and the flows of the fair queue use the lemmas proved from that contract; it has
  further operations that insert beside a node and splice in a whole list.
\<close>

section \<open>The operations\<close>

definition LinkedList1_Init :: "('p \<Rightarrow> 'p lnode) \<Rightarrow> 'p llist" where
  "LinkedList1_Init m = \<lparr>lhead = None, ltail = None, lmem = m\<rparr>"

definition LinkedList1_IsEmpty :: "'p llist \<Rightarrow> bool" where
  "LinkedList1_IsEmpty s = (lhead s = None)"

definition LinkedList1_GetFirst :: "'p llist \<Rightarrow> 'p option" where
  "LinkedList1_GetFirst s = lhead s"

definition LinkedList1_GetLast :: "'p llist \<Rightarrow> 'p option" where
  "LinkedList1_GetLast s = ltail s"

definition LinkedList1Node_Next :: "'p llist \<Rightarrow> 'p \<Rightarrow> 'p option" where
  "LinkedList1Node_Next s n = nxt (lmem s n)"

definition LinkedList1Node_Prev :: "'p llist \<Rightarrow> 'p \<Rightarrow> 'p option" where
  "LinkedList1Node_Prev s n = prv (lmem s n)"

definition LinkedList1_Prepend :: "'p llist \<Rightarrow> 'p \<Rightarrow> 'p llist" where
  "LinkedList1_Prepend s n =
     (let s1 = set_nxt n (lhead s) (set_prv n None s);
          s2 = (case lhead s1 of Some h \<Rightarrow> set_prv h (Some n) s1 | None \<Rightarrow> s1\<lparr>ltail := Some n\<rparr>)
      in s2\<lparr>lhead := Some n\<rparr>)"

definition LinkedList1_Append :: "'p llist \<Rightarrow> 'p \<Rightarrow> 'p llist" where
  "LinkedList1_Append s n =
     (let s1 = set_nxt n None (set_prv n (ltail s) s);
          s2 = (case ltail s1 of Some t \<Rightarrow> set_nxt t (Some n) s1 | None \<Rightarrow> s1\<lparr>lhead := Some n\<rparr>)
      in s2\<lparr>ltail := Some n\<rparr>)"

definition LinkedList1_InsertBefore :: "'p llist \<Rightarrow> 'p \<Rightarrow> 'p \<Rightarrow> 'p llist" where
  "LinkedList1_InsertBefore s n target =
     (let s1 = set_nxt n (Some target) (set_prv n (prv (lmem s target)) s);
          s2 = (case prv (lmem s1 target) of
                  Some p \<Rightarrow> set_nxt p (Some n) s1
                | None \<Rightarrow> s1\<lparr>lhead := Some n\<rparr>)
      in set_prv target (Some n) s2)"

definition LinkedList1_InsertAfter :: "'p llist \<Rightarrow> 'p \<Rightarrow> 'p \<Rightarrow> 'p llist" where
  "LinkedList1_InsertAfter s n target =
     (let s1 = set_nxt n (nxt (lmem s target)) (set_prv n (Some target) s);
          s2 = (case nxt (lmem s1 target) of
                  Some q \<Rightarrow> set_prv q (Some n) s1
                | None \<Rightarrow> s1\<lparr>ltail := Some n\<rparr>)
      in set_nxt target (Some n) s2)"

definition LinkedList1_Remove :: "'p llist \<Rightarrow> 'p \<Rightarrow> 'p llist" where
  "LinkedList1_Remove s n =
     (let s1 = (case prv (lmem s n) of
                  Some p \<Rightarrow> set_nxt p (nxt (lmem s n)) s
                | None \<Rightarrow> s\<lparr>lhead := nxt (lmem s n)\<rparr>)
      in (case nxt (lmem s1 n) of
            Some q \<Rightarrow> set_prv q (prv (lmem s1 n)) s1
          | None \<Rightarrow> s1\<lparr>ltail := prv (lmem s1 n)\<rparr>))"

text \<open>
  The list that is spliced in is passed as its two ends; its nodes are in the same store.  A list
  with a first and no last node, whose last pointer the code would follow, does not occur and is
  left as it is.
\<close>

definition LinkedList1_InsertListAfter :: "'p llist \<Rightarrow> 'p option \<Rightarrow> 'p option \<Rightarrow> 'p option \<Rightarrow> 'p llist" where
  "LinkedList1_InsertListAfter s ins_first ins_last target =
     (case (ins_first, ins_last) of
        (Some f, Some l) \<Rightarrow>
          (let t_next = (case target of Some t \<Rightarrow> nxt (lmem s t) | None \<Rightarrow> lhead s);
               s1 = set_nxt l t_next (set_prv f target s);
               s2 = (case target of Some t \<Rightarrow> set_nxt t (Some f) s1 | None \<Rightarrow> s1\<lparr>lhead := Some f\<rparr>)
           in (case t_next of Some q \<Rightarrow> set_prv q (Some l) s2 | None \<Rightarrow> s2\<lparr>ltail := Some l\<rparr>))
      | _ \<Rightarrow> s)"

text \<open>The loop over a list, as its users write it; the fuel bounds the steps on a damaged list.\<close>

fun LinkedList1_walk :: "nat \<Rightarrow> 'p llist \<Rightarrow> 'p option \<Rightarrow> 'p list option" where
  "LinkedList1_walk fuel s None = Some []"
| "LinkedList1_walk 0 s (Some n) = None"
| "LinkedList1_walk (Suc fuel) s (Some n) =
     map_option ((#) n) (LinkedList1_walk fuel s (LinkedList1Node_Next s n))"

section \<open>The operations on the sequence of nodes\<close>

lemma LinkedList1_as_hev:
  "LinkedList1_Append = hev_list_add_tail" "LinkedList1_Remove = hev_list_del" "LinkedList1_GetFirst = hev_list_first"
  "LinkedList1_Init = hev_list_empty"
  by (simp_all add: fun_eq_iff LinkedList1_Append_def hev_list_add_tail_def LinkedList1_Remove_def hev_list_del_def
      LinkedList1_GetFirst_def hev_list_first_def LinkedList1_Init_def hev_list_empty_def)

lemma LinkedList1_walk_hev: "LinkedList1_walk fuel s p = hev_list_walk fuel s p"
  by (induction fuel s p rule: LinkedList1_walk.induct) (simp_all add: LinkedList1Node_Next_def hev_list_node_next_def)

interpretation l1: node_list LinkedList1_Append LinkedList1_Remove LinkedList1_GetFirst LinkedList1_walk dll
  unfolding LinkedList1_as_hev LinkedList1_walk_hev [abs_def] by (rule hl.node_list_axioms)

lemmas link_defs = dll_def set_nxt_def set_prv_def Let_def

lemma dll_Init: "dll (LinkedList1_Init m) []"
  by (simp add: LinkedList1_as_hev)

lemma dll_IsEmpty: "dll s xs \<Longrightarrow> LinkedList1_IsEmpty s \<longleftrightarrow> xs = []"
  by (cases xs) (simp_all add: dll_def LinkedList1_IsEmpty_def)

lemma dll_Prepend:
  assumes "dll s xs" "n \<notin> set xs"
  shows "dll (LinkedList1_Prepend s n) (n # xs)"
  using assms by (cases xs) (auto simp: link_defs LinkedList1_Prepend_def last_or_def)

lemma dll_InsertBefore:
  assumes "dll s (as @ t # bs)" "n \<notin> set (as @ t # bs)"
  shows "dll (LinkedList1_InsertBefore s n t) (as @ n # t # bs)"
proof (cases as rule: rev_cases)
  case Nil
  then show ?thesis using assms by (cases bs) (auto simp: link_defs LinkedList1_InsertBefore_def)
next
  case (snoc as' a)
  then show ?thesis using assms by (cases bs) (auto simp: link_defs LinkedList1_InsertBefore_def)
qed

lemma dll_InsertAfter:
  assumes "dll s (as @ t # bs)" "n \<notin> set (as @ t # bs)"
  shows "dll (LinkedList1_InsertAfter s n t) (as @ t # n # bs)"
proof (cases as rule: rev_cases)
  case Nil
  then show ?thesis using assms by (cases bs) (auto simp: link_defs LinkedList1_InsertAfter_def)
next
  case (snoc as' a)
  then show ?thesis using assms by (cases bs) (auto simp: link_defs LinkedList1_InsertAfter_def)
qed

text \<open>Splicing the list \<open>xs\<close> in behind the nodes \<open>as\<close>, the last of which is the target.\<close>

lemma dll_InsertListAfter:
  assumes d: "dll s (as @ bs)" and x: "dseg (lmem s) None xs None" "distinct xs" "set xs \<inter> set (as @ bs) = {}"
  shows "dll (LinkedList1_InsertListAfter s (first_or xs None) (last_or None xs) (last_or None as)) (as @ xs @ bs)"
proof -
  consider "xs = []" | f where "xs = [f]" | f ms l where "xs = f # ms @ [l]"
    by (cases xs) (simp, metis rev_exhaust)
  then show ?thesis
  proof cases
    case 1
    then show ?thesis using d by (simp add: LinkedList1_InsertListAfter_def)
  next
    case 2
    then show ?thesis using d x
      by (cases as rule: rev_cases; cases bs) (auto simp: link_defs LinkedList1_InsertListAfter_def)
  next
    case 3
    then show ?thesis using d x
      by (cases as rule: rev_cases; cases bs) (auto simp: link_defs LinkedList1_InsertListAfter_def)
  qed
qed

end
