(* ===== verification/B_Avl.thy ===== *)
theory B_Avl
  imports RB_Tree
begin

text \<open>
  The AVL tree of \<^verbatim>\<open>badvpn/structure/BAVL.h\<close>, which indexes the connections, flows and timers of
  the badvpn engine.  As for the red-black tree, the elements are the node pointers, and a position
  that the C code reaches by parent pointers is a path of frames up to the root.  Keys are compared
  by the tree's comparator; its contract is \<open>search_order\<close>, with the arguments exchanged because a
  node with a smaller key lies to the left here.
\<close>

section \<open>The code\<close>

datatype 'a avl = Lf | Br int "'a avl" 'a "'a avl"

datatype 'a aframe = AL int 'a "'a avl" | AR int "'a avl" 'a

fun afill :: "'a aframe \<Rightarrow> 'a avl \<Rightarrow> 'a avl" where
  "afill (AL b x r) t = Br b t x r"
| "afill (AR b l x) t = Br b l x t"

fun aplug :: "'a aframe list \<Rightarrow> 'a avl \<Rightarrow> 'a avl" where
  "aplug [] t = t"
| "aplug (f # fs) t = aplug fs (afill f t)"

fun ainorder :: "'a avl \<Rightarrow> 'a list" where
  "ainorder Lf = []"
| "ainorder (Br b l x r) = ainorder l @ x # ainorder r"

definition BAVL_OPTNEG :: "int \<Rightarrow> bool \<Rightarrow> int" where
  "BAVL_OPTNEG a neg = (if neg then - a else a)"

text \<open>
  The transformations of \<^verbatim>\<open>_BAVL_rebalance\<close> at a node whose balance factor became 2 (right side too
  high) or -2 (left side too high), with the node's new place and the corrected height change.
  A missing child, which the code would dereference, is \<^const>\<open>None\<close>.
\<close>

fun BAVL_transform_right :: "int \<Rightarrow> 'a avl \<Rightarrow> 'a \<Rightarrow> 'a avl \<Rightarrow> int \<Rightarrow> ('a avl \<times> int) option" where
  "BAVL_transform_right nb l x Lf delta = None"
| "BAVL_transform_right nb l x (Br cb cl cx cr) delta =
     (if cb = 1 then Some (Br 0 (Br 0 l x cl) cx cr, delta - 1)
      else if cb = 0 then Some (Br (-1) (Br 1 l x cl) cx cr, delta)
      else if cb = -1 then
        (case cl of Lf \<Rightarrow> None
         | Br gb gl gx gr \<Rightarrow> Some (Br 0 (Br (- max 0 gb) l x gl) gx (Br (max 0 (- gb)) gr cx cr), delta - 1))
      else Some (Br nb l x (Br cb cl cx cr), delta))"

fun BAVL_transform_left :: "int \<Rightarrow> 'a avl \<Rightarrow> 'a \<Rightarrow> 'a avl \<Rightarrow> int \<Rightarrow> ('a avl \<times> int) option" where
  "BAVL_transform_left nb Lf x r delta = None"
| "BAVL_transform_left nb (Br cb cl cx cr) x r delta =
     (if cb = -1 then Some (Br 0 cl cx (Br 0 cr x r), delta - 1)
      else if cb = 0 then Some (Br 1 cl cx (Br (-1) cr x r), delta)
      else if cb = 1 then
        (case cr of Lf \<Rightarrow> None
         | Br gb gl gx gr \<Rightarrow> Some (Br 0 (Br (- max 0 gb) cl cx gl) gx (Br (max 0 (- gb)) gr x r), delta - 1))
      else Some (Br nb (Br cb cl cx cr) x r, delta))"

definition BAVL_transform :: "int \<Rightarrow> 'a avl \<Rightarrow> 'a \<Rightarrow> 'a avl \<Rightarrow> int \<Rightarrow> ('a avl \<times> int) option" where
  "BAVL_transform b l x r delta =
     (if b = 2 then BAVL_transform_right b l x r delta
      else if b = -2 then BAVL_transform_left b l x r delta
      else Some (Br b l x r, delta))"

text \<open>
  One call of \<^verbatim>\<open>_BAVL_rebalance\<close> at the parent, whose subtree on one side is \<open>t\<close>, changed in height
  by \<open>deltac\<close>, and the call it ends with at the next parent.
\<close>

fun BAVL_rebalance :: "'a aframe list \<Rightarrow> 'a avl \<Rightarrow> int \<Rightarrow> 'a avl option" where
  "BAVL_rebalance [] t deltac = Some t"
| "BAVL_rebalance (AL b x r # fs) t deltac =
     (if deltac = 0 then Some (aplug (AL b x r # fs) t)
      else let delta = max deltac (BAVL_OPTNEG b False) - max 0 (BAVL_OPTNEG b False) in
        case BAVL_transform (b - BAVL_OPTNEG deltac False) t x r delta of
          None \<Rightarrow> None | Some (t', delta') \<Rightarrow> BAVL_rebalance fs t' delta')"
| "BAVL_rebalance (AR b l x # fs) t deltac =
     (if deltac = 0 then Some (aplug (AR b l x # fs) t)
      else let delta = max deltac (BAVL_OPTNEG b True) - max 0 (BAVL_OPTNEG b True) in
        case BAVL_transform (b - BAVL_OPTNEG deltac True) l x t delta of
          None \<Rightarrow> None | Some (t', delta') \<Rightarrow> BAVL_rebalance fs t' delta')"

text \<open>
  The descent of \<^verbatim>\<open>BAVL_Insert\<close> and \<^verbatim>\<open>BAVL_LookupExact\<close>: \<open>cf\<close> compares the searched value with a
  node.  The result is a node that compares equal, or the empty position where the search ended.
\<close>

fun BAVL_descend :: "('a \<Rightarrow> int) \<Rightarrow> 'a aframe list \<Rightarrow> 'a avl \<Rightarrow> 'a option \<times> 'a aframe list" where
  "BAVL_descend cf fs Lf = (None, fs)"
| "BAVL_descend cf fs (Br b l x r) =
     (if cf x = 0 then (Some x, fs)
      else if cf x = 1 then BAVL_descend cf (AR b l x # fs) r
      else BAVL_descend cf (AL b x r # fs) l)"

definition BAVL_Insert :: "('k \<Rightarrow> 'k \<Rightarrow> int) \<Rightarrow> ('a \<Rightarrow> 'k) \<Rightarrow> 'a avl \<Rightarrow> 'a \<Rightarrow> ('a avl \<times> bool) option" where
  "BAVL_Insert cmp val t node =
     (case BAVL_descend (\<lambda>c. cmp (val node) (val c)) [] t of
        (Some c, _) \<Rightarrow> Some (t, False)
      | (None, fs) \<Rightarrow> map_option (\<lambda>t'. (t', True)) (BAVL_rebalance fs (Br 0 Lf node Lf) 1))"

definition BAVL_LookupExact :: "('k \<Rightarrow> 'k \<Rightarrow> int) \<Rightarrow> ('a \<Rightarrow> 'k) \<Rightarrow> 'a avl \<Rightarrow> 'k \<Rightarrow> 'a option" where
  "BAVL_LookupExact cmp val t v = fst (BAVL_descend (\<lambda>c. cmp v (val c)) [] t)"

definition BAVL_IsEmpty :: "'a avl \<Rightarrow> bool" where
  "BAVL_IsEmpty t = (t = Lf)"

fun BAVL_GetFirst :: "'a avl \<Rightarrow> 'a option" where
  "BAVL_GetFirst Lf = None"
| "BAVL_GetFirst (Br b Lf x r) = Some x"
| "BAVL_GetFirst (Br b l x r) = BAVL_GetFirst l"

fun BAVL_GetLast :: "'a avl \<Rightarrow> 'a option" where
  "BAVL_GetLast Lf = None"
| "BAVL_GetLast (Br b l x Lf) = Some x"
| "BAVL_GetLast (Br b l x r) = BAVL_GetLast r"

text \<open>The position of a node, which in C is the node pointer itself.\<close>

fun alocate :: "'a \<Rightarrow> 'a avl \<Rightarrow> 'a aframe list \<Rightarrow> ('a aframe list \<times> 'a avl) option" where
  "alocate y Lf fs = None"
| "alocate y (Br b l x r) fs =
     (if x = y then Some (fs, Br b l x r)
      else case alocate y l (AL b x r # fs) of
             Some p \<Rightarrow> Some p
           | None \<Rightarrow> alocate y r (AR b l x # fs))"

text \<open>\<^verbatim>\<open>_BAVL_subtree_max\<close>: the path to the greatest node, its left subtree and the node.\<close>

fun BAVL_subtree_max :: "'a aframe list \<Rightarrow> 'a avl \<Rightarrow> ('a aframe list \<times> 'a avl \<times> 'a) option" where
  "BAVL_subtree_max fs Lf = None"
| "BAVL_subtree_max fs (Br b l x Lf) = Some (fs, l, x)"
| "BAVL_subtree_max fs (Br b l x r) = BAVL_subtree_max (AR b l x # fs) r"

text \<open>
  \<^verbatim>\<open>BAVL_Remove\<close>: a node with two subtrees is first exchanged with the greatest node of its left
  subtree, which takes over its balance factor and its place; then the node has at most one
  child, which replaces it.
\<close>

definition BAVL_Remove :: "'a avl \<Rightarrow> 'a \<Rightarrow> 'a avl option" where
  "BAVL_Remove t node =
     (case alocate node t [] of
        None \<Rightarrow> None
      | Some (fs, Lf) \<Rightarrow> None
      | Some (fs, Br b l x r) \<Rightarrow>
          if l \<noteq> Lf \<and> r \<noteq> Lf then
            (case BAVL_subtree_max [] l of
               None \<Rightarrow> None
             | Some (gs, ml, mx) \<Rightarrow> BAVL_rebalance (gs @ AL b mx r # fs) ml (-1))
          else BAVL_rebalance fs (if l \<noteq> Lf then l else r) (-1))"

text \<open>\<^verbatim>\<open>BAVL_Verify\<close>: the height of a tree that satisfies the checks, or none.\<close>

fun aroot :: "'a avl \<Rightarrow> 'a option" where
  "aroot Lf = None"
| "aroot (Br b l x r) = Some x"

fun BAVL_assert_recurser :: "('k \<Rightarrow> 'k \<Rightarrow> int) \<Rightarrow> ('a \<Rightarrow> 'k) \<Rightarrow> 'a avl \<Rightarrow> int option" where
  "BAVL_assert_recurser cmp val Lf = Some 0"
| "BAVL_assert_recurser cmp val (Br b l x r) =
     (case (BAVL_assert_recurser cmp val l, BAVL_assert_recurser cmp val r) of
        (Some hl, Some hr) \<Rightarrow>
          if -1 \<le> b \<and> b \<le> 1 \<and> b = hr - hl
             \<and> (case aroot l of None \<Rightarrow> True | Some y \<Rightarrow> cmp (val y) (val x) = -1)
             \<and> (case aroot r of None \<Rightarrow> True | Some y \<Rightarrow> cmp (val y) (val x) = 1)
          then Some (max hl hr + 1) else None
      | _ \<Rightarrow> None)"

section \<open>Balance\<close>

fun aheight :: "'a avl \<Rightarrow> int" where
  "aheight Lf = 0"
| "aheight (Br b l x r) = 1 + max (aheight l) (aheight r)"

fun avl_ok :: "'a avl \<Rightarrow> bool" where
  "avl_ok Lf \<longleftrightarrow> True"
| "avl_ok (Br b l x r) \<longleftrightarrow> avl_ok l \<and> avl_ok r \<and> b = aheight r - aheight l \<and> -1 \<le> b \<and> b \<le> 1"

fun avlp :: "'a aframe list \<Rightarrow> int \<Rightarrow> bool" where
  "avlp [] h \<longleftrightarrow> True"
| "avlp (AL b x r # fs) h \<longleftrightarrow> avl_ok r \<and> b = aheight r - h \<and> -1 \<le> b \<and> b \<le> 1 \<and> avlp fs (1 + max h (aheight r))"
| "avlp (AR b l x # fs) h \<longleftrightarrow> avl_ok l \<and> b = h - aheight l \<and> -1 \<le> b \<and> b \<le> 1 \<and> avlp fs (1 + max (aheight l) h)"

fun abefore :: "'a aframe list \<Rightarrow> 'a list" where
  "abefore [] = []"
| "abefore (AL b x r # fs) = abefore fs"
| "abefore (AR b l x # fs) = abefore fs @ ainorder l @ [x]"

fun abehind :: "'a aframe list \<Rightarrow> 'a list" where
  "abehind [] = []"
| "abehind (AL b x r # fs) = x # ainorder r @ abehind fs"
| "abehind (AR b l x # fs) = abehind fs"

lemma ainorder_aplug [simp]: "ainorder (aplug fs t) = abefore fs @ ainorder t @ abehind fs"
proof (induction fs arbitrary: t)
  case (Cons f fs)
  then show ?case by (cases f) simp_all
qed simp

lemma aheight_nonneg: "0 \<le> aheight t"
  by (induction t) auto

lemma avl_aplug: "avl_ok (aplug fs t) \<longleftrightarrow> avl_ok t \<and> avlp fs (aheight t)"
proof (induction fs arbitrary: t)
  case (Cons f fs)
  then show ?case by (cases f) auto
qed simp

lemma transform_right_ok:
  assumes "avl_ok l" "avl_ok r" "aheight r = aheight l + 2"
  shows "\<exists>t' d'. BAVL_transform_right 2 l x r d = Some (t', d') \<and> avl_ok t'
    \<and> aheight t' = 1 + aheight r + (d' - d) \<and> d' \<in> {d, d - 1} \<and> ainorder t' = ainorder l @ x # ainorder r"
proof -
  have "r \<noteq> Lf" using assms(3) aheight_nonneg [of l] by auto
  then obtain cb cl cx cr where r: "r = Br cb cl cx cr" by (cases r) auto
  show ?thesis
  proof (cases "cb = -1")
    case True
    then have "cl \<noteq> Lf" using r assms(2) aheight_nonneg [of cr] by auto
    then obtain gb gl gx gr where "cl = Br gb gl gx gr" by (cases cl) auto
    then show ?thesis using r True assms by (auto simp: max_def split: if_splits)
  next
    case False
    then show ?thesis using r assms by (auto simp: max_def split: if_splits)
  qed
qed

lemma transform_left_ok:
  assumes "avl_ok l" "avl_ok r" "aheight l = aheight r + 2"
  shows "\<exists>t' d'. BAVL_transform_left (-2) l x r d = Some (t', d') \<and> avl_ok t'
    \<and> aheight t' = 1 + aheight l + (d' - d) \<and> d' \<in> {d, d - 1} \<and> ainorder t' = ainorder l @ x # ainorder r"
proof -
  have "l \<noteq> Lf" using assms(3) aheight_nonneg [of r] by auto
  then obtain cb cl cx cr where l: "l = Br cb cl cx cr" by (cases l) auto
  show ?thesis
  proof (cases "cb = 1")
    case True
    then have "cr \<noteq> Lf" using l assms(1) aheight_nonneg [of cl] by auto
    then obtain gb gl gx gr where "cr = Br gb gl gx gr" by (cases cr) auto
    then show ?thesis using l True assms by (auto simp: max_def split: if_splits)
  next
    case False
    then show ?thesis using l assms by (auto simp: max_def split: if_splits)
  qed
qed

lemma transform_ok:
  assumes "avl_ok l" "avl_ok r" "b = aheight r - aheight l" "-2 \<le> b" "b \<le> 2"
  obtains t' d' where "BAVL_transform b l x r d = Some (t', d')" "avl_ok t'"
    "aheight t' = 1 + max (aheight l) (aheight r) + (d' - d)" "d' = d \<or> d' = d - 1 \<and> (b = 2 \<or> b = -2)"
    "ainorder t' = ainorder l @ x # ainorder r"
proof -
  consider "b = 2" | "b = -2" | "-1 \<le> b" "b \<le> 1" using assms(4,5) by linarith
  then show thesis
  proof cases
    case 1
    then show thesis using that transform_right_ok [OF assms(1,2), of x d] assms(3) by (force simp: BAVL_transform_def)
  next
    case 2
    then show thesis using that transform_left_ok [OF assms(1,2), of x d] assms(3) by (force simp: BAVL_transform_def)
  next
    case 3
    then show thesis using that assms by (force simp: BAVL_transform_def)
  qed
qed

text \<open>Rebalancing after a subtree changed its height by at most one.\<close>

lemma rebalance_ok:
  assumes "avlp fs h" "avl_ok t" "aheight t = h + d" "d \<in> {-1, 0, 1}"
  shows "\<exists>t'. BAVL_rebalance fs t d = Some t' \<and> avl_ok t' \<and> ainorder t' = abefore fs @ ainorder t @ abehind fs"
  using assms
proof (induction fs arbitrary: t h d)
  case (Cons f fs)
  show ?case
  proof (cases "d = 0")
    case True
    have "avl_ok (aplug (f # fs) t)" using Cons.prems True by (subst avl_aplug) simp
    then show ?thesis using True by (cases f) simp_all
  next
    case False
    then have d: "d = 1 \<or> d = -1" using Cons.prems(4) by auto
    show ?thesis
    proof (cases f)
      case (AL b x r)
      let ?d = "max d (BAVL_OPTNEG b False) - max 0 (BAVL_OPTNEG b False)"
      have r: "avl_ok r" "b = aheight r - h" "-1 \<le> b" "b \<le> 1" "avlp fs (1 + max h (aheight r))"
        using Cons.prems(1) AL by auto
      have "b - BAVL_OPTNEG d False = aheight r - aheight t" "-2 \<le> b - BAVL_OPTNEG d False" "b - BAVL_OPTNEG d False \<le> 2"
        using r Cons.prems(3) d by (auto simp: BAVL_OPTNEG_def)
      from transform_ok [OF Cons.prems(2) r(1) this, of x ?d] obtain t' d' where
        t': "BAVL_transform (b - BAVL_OPTNEG d False) t x r ?d = Some (t', d')" "avl_ok t'"
          "aheight t' = 1 + max (aheight t) (aheight r) + (d' - ?d)"
          "d' = ?d \<or> d' = ?d - 1 \<and> (b - BAVL_OPTNEG d False = 2 \<or> b - BAVL_OPTNEG d False = -2)"
          "ainorder t' = ainorder t @ x # ainorder r" .
      have "aheight t' = 1 + max h (aheight r) + d'"
        using t'(3) r(2) Cons.prems(3) by (simp add: BAVL_OPTNEG_def max_def split: if_splits)
      moreover have "d' \<in> {-1, 0, 1}" using t'(4) r d by (auto simp: BAVL_OPTNEG_def max_def split: if_splits)
      ultimately show ?thesis using Cons.IH [OF r(5) t'(2)] t' AL False by (auto simp: Let_def)
    next
      case (AR b l x)
      let ?d = "max d (BAVL_OPTNEG b True) - max 0 (BAVL_OPTNEG b True)"
      have r: "avl_ok l" "b = h - aheight l" "-1 \<le> b" "b \<le> 1" "avlp fs (1 + max (aheight l) h)"
        using Cons.prems(1) AR by auto
      have "b - BAVL_OPTNEG d True = aheight t - aheight l" "-2 \<le> b - BAVL_OPTNEG d True" "b - BAVL_OPTNEG d True \<le> 2"
        using r Cons.prems(3) d by (auto simp: BAVL_OPTNEG_def)
      from transform_ok [OF r(1) Cons.prems(2) this, of x ?d] obtain t' d' where
        t': "BAVL_transform (b - BAVL_OPTNEG d True) l x t ?d = Some (t', d')" "avl_ok t'"
          "aheight t' = 1 + max (aheight l) (aheight t) + (d' - ?d)"
          "d' = ?d \<or> d' = ?d - 1 \<and> (b - BAVL_OPTNEG d True = 2 \<or> b - BAVL_OPTNEG d True = -2)"
          "ainorder t' = ainorder l @ x # ainorder t" .
      have "aheight t' = 1 + max (aheight l) h + d'"
        using t'(3) r(2) Cons.prems(3) by (simp add: BAVL_OPTNEG_def max_def split: if_splits)
      moreover have "d' \<in> {-1, 0, 1}" using t'(4) r d by (auto simp: BAVL_OPTNEG_def max_def split: if_splits)
      ultimately show ?thesis using Cons.IH [OF r(5) t'(2)] t' AR False by (auto simp: Let_def)
    qed
  qed
qed simp

section \<open>Positions\<close>

lemma alocate_Some: "alocate y t fs = Some (gs, s) \<Longrightarrow> aplug gs s = aplug fs t \<and> aroot s = Some y"
  by (induction y t fs rule: alocate.induct) (auto split: if_splits option.splits)

lemma alocate_ex: "y \<in> set (ainorder t) \<Longrightarrow> alocate y t fs \<noteq> None"
proof (induction t arbitrary: fs)
  case (Br b l x r)
  show ?case
  proof (cases "y \<in> set (ainorder l)")
    case True
    then show ?thesis using Br.IH(1) [of "AL b x r # fs"] by (auto split: option.splits)
  next
    case False
    then show ?thesis using Br.IH(2) [of "AR b l x # fs"] Br.prems by (auto split: option.splits)
  qed
qed simp

lemma subtree_max_ok:
  "t \<noteq> Lf \<Longrightarrow> abehind fs = [] \<Longrightarrow>
     \<exists>gs b ml mx. BAVL_subtree_max fs t = Some (gs, ml, mx) \<and> aplug gs (Br b ml mx Lf) = aplug fs t \<and> abehind gs = []"
proof (induction fs t rule: BAVL_subtree_max.induct)
  case (2 fs b l x)
  then show ?case by auto
next
  case (3 fs b l x rb rl rx rr)
  then show ?case by auto
qed simp

lemma avlp_append: "avlp (gs @ fs) (aheight t) \<longleftrightarrow> avlp gs (aheight t) \<and> avlp fs (aheight (aplug gs t))"
proof (induction gs arbitrary: t)
  case (Cons f gs)
  show ?case using Cons [of "afill f t"] by (cases f) auto
qed simp

lemma abefore_append [simp]: "abefore (gs @ fs) = abefore fs @ abefore gs"
  by (induction gs rule: abefore.induct) auto

lemma abehind_append [simp]: "abehind (gs @ fs) = abehind gs @ abehind fs"
  by (induction gs rule: abehind.induct) auto

text \<open>Removing a node of a balanced tree takes exactly it out of the order.\<close>

lemma remove_position:
  assumes k: "avl_ok (aplug fs (Br b l x r))" and two: "l \<noteq> Lf" "r \<noteq> Lf"
  shows "\<exists>gs ml mx t'. BAVL_subtree_max [] l = Some (gs, ml, mx) \<and> BAVL_rebalance (gs @ AL b mx r # fs) ml (-1) = Some t'
    \<and> avl_ok t' \<and> ainorder t' = abefore fs @ ainorder l @ ainorder r @ abehind fs"
proof -
  obtain gs mb ml mx where m: "BAVL_subtree_max [] l = Some (gs, ml, mx)" "aplug gs (Br mb ml mx Lf) = l" "abehind gs = []"
    using subtree_max_ok [OF two(1), of "[]"] by auto
  have o: "avl_ok l" "avl_ok r" "avlp (AL b x r # fs) (aheight l)"
    using k avl_aplug [of "AL b x r # fs" l] by auto
  have g: "avlp gs (aheight (Br mb ml mx Lf))" "avl_ok (Br mb ml mx Lf)" using o(1) avl_aplug [of gs "Br mb ml mx Lf"] m(2) by simp_all
  have h: "aheight (Br mb ml mx Lf) = aheight ml + 1" using aheight_nonneg [of ml] by simp
  have "avlp (gs @ AL b mx r # fs) (aheight ml + 1)"
    using avlp_append [of gs "AL b mx r # fs" "Br mb ml mx Lf"] g(1) o(3) m(2) unfolding h by simp
  then obtain t' where "BAVL_rebalance (gs @ AL b mx r # fs) ml (-1) = Some t'" "avl_ok t'"
    "ainorder t' = abefore (gs @ AL b mx r # fs) @ ainorder ml @ abehind (gs @ AL b mx r # fs)"
    using rebalance_ok [of "gs @ AL b mx r # fs" "aheight ml + 1" ml "-1"] g(2) by auto
  moreover have "ainorder l = abefore gs @ ainorder ml @ [mx]" using m(2,3) by (metis ainorder_aplug ainorder.simps append_Nil2 append.assoc)
  ultimately show ?thesis using m(1,3) by auto
qed

lemma remove_inorder:
  assumes k: "avl_ok t" and y: "y \<in> set (ainorder t)"
  shows "\<exists>t' as bs. BAVL_Remove t y = Some t' \<and> avl_ok t' \<and> ainorder t = as @ y # bs \<and> ainorder t' = as @ bs"
proof -
  obtain fs s where p: "alocate y t [] = Some (fs, s)" using alocate_ex [OF y, of "[]"] by auto
  obtain b l r where s: "s = Br b l y r" and t: "t = aplug fs (Br b l y r)"
    using alocate_Some [OF p] by (cases s) auto
  show ?thesis
  proof (cases "l \<noteq> Lf \<and> r \<noteq> Lf")
    case True
    then obtain gs ml mx t' where "BAVL_subtree_max [] l = Some (gs, ml, mx)" "BAVL_rebalance (gs @ AL b mx r # fs) ml (-1) = Some t'"
      "avl_ok t'" "ainorder t' = abefore fs @ ainorder l @ ainorder r @ abehind fs"
      using remove_position [of fs b l y r] k t by auto
    then show ?thesis using True p s t
      by - (rule exI [of _ t'], rule exI [of _ "abefore fs @ ainorder l"], rule exI [of _ "ainorder r @ abehind fs"],
          auto simp: BAVL_Remove_def)
  next
    case False
    let ?c = "if l \<noteq> Lf then l else r"
    have a: "avl_ok (Br b l y r)" "avlp fs (aheight (Br b l y r))" using k t avl_aplug [of fs "Br b l y r"] by simp_all
    have "aheight (Br b l y r) = aheight ?c + 1" "ainorder ?c = ainorder l @ ainorder r" "avl_ok ?c"
      using False a(1) aheight_nonneg [of l] aheight_nonneg [of r] by (auto simp: max_def)
    then obtain t' where "BAVL_rebalance fs ?c (-1) = Some t'" "avl_ok t'"
      "ainorder t' = abefore fs @ (ainorder l @ ainorder r) @ abehind fs"
      using rebalance_ok [OF a(2), of ?c "-1"] by auto
    then show ?thesis using False p s t
      by - (rule exI [of _ t'], rule exI [of _ "abefore fs @ ainorder l"], rule exI [of _ "ainorder r @ abehind fs"],
          auto simp: BAVL_Remove_def)
  qed
qed

lemma insert_position:
  assumes "avl_ok (aplug fs Lf)"
  shows "\<exists>t'. BAVL_rebalance fs (Br 0 Lf x Lf) 1 = Some t' \<and> avl_ok t' \<and> ainorder t' = abefore fs @ x # abehind fs"
  using rebalance_ok [of fs 0 "Br 0 Lf x Lf" 1] assms avl_aplug [of fs Lf] by auto

section \<open>The tree as a map\<close>

text \<open>
  The comparator's contract: a three-way comparison with values -1, 0 and 1, that is an order when
  its arguments are exchanged.
\<close>

locale bavl_order = search_order "\<lambda>a b. cmp b a" for cmp :: "'k \<Rightarrow> 'k \<Rightarrow> int" +
  assumes cmp_three: "cmp a b = -1 \<or> cmp a b = 0 \<or> cmp a b = 1"
begin

lemma bavl_found:
  "BAVL_descend (\<lambda>c. cmp k (val c)) fs t = (Some x, p) \<Longrightarrow> x \<in> set (ainorder t) \<and> val x = k"
  by (induction "\<lambda>c. cmp k (val c)" fs t rule: BAVL_descend.induct)
    (auto split: if_splits simp: cmp_zero)

lemma bavl_missing:
  assumes "BAVL_descend (\<lambda>c. cmp k (val c)) fs t = (None, p)" "ordered val (ainorder t)"
    and "\<forall>x\<in>set (abefore fs). 0 < cmp k (val x)" "\<forall>x\<in>set (abehind fs). 0 < cmp (val x) k"
  shows "aplug p Lf = aplug fs t \<and> (\<forall>x\<in>set (abefore p). 0 < cmp k (val x)) \<and> (\<forall>x\<in>set (abehind p). 0 < cmp (val x) k)"
  using assms
proof (induction "\<lambda>c. cmp k (val c)" fs t rule: BAVL_descend.induct)
  case (2 fs b l x r)
  have o: "ordered val (ainorder l)" "ordered val (ainorder r)"
    "\<forall>y\<in>set (ainorder l). 0 < cmp (val x) (val y)" "\<forall>z\<in>set (ainorder r). 0 < cmp (val z) (val x)"
    using "2.prems"(2) by (simp_all add: ordered_append)
  consider "cmp k (val x) = 0" | "cmp k (val x) = 1" | "cmp k (val x) = -1" using cmp_three [of k "val x"] by blast
  then show ?case
  proof cases
    case 1
    with "2.prems"(1) show ?thesis by simp
  next
    case up: 2
    then have x: "0 < cmp k (val x)" by simp
    then have "\<forall>y\<in>set (ainorder l). 0 < cmp k (val y)" using o(3) cmp_trans by blast
    then have "\<forall>y\<in>set (abefore (AR b l x # fs)). 0 < cmp k (val y)" using up "2.prems"(3) by auto
    then show ?thesis using "2.hyps"(1) "2.prems" o(2) up by simp
  next
    case dn: 3
    then have x: "0 < cmp (val x) k" using cmp_swap [of k "val x"] by simp
    then have "\<forall>z\<in>set (ainorder r). 0 < cmp (val z) k" using o(4) cmp_trans by blast
    then have "\<forall>z\<in>set (abehind (AL b x r # fs)). 0 < cmp (val z) k" using x "2.prems"(4) by auto
    then show ?thesis using "2.hyps"(2) "2.prems" o(1) dn by simp
  qed
qed simp

lemma bavl_missing_key:
  assumes "BAVL_descend (\<lambda>c. cmp k (val c)) [] t = (None, p)" "ordered val (ainorder t)"
  shows "k \<notin> val ` set (ainorder t)" "ainorder t = abefore p @ abehind p"
    "\<forall>x\<in>set (abefore p). 0 < cmp k (val x)" "\<forall>x\<in>set (abehind p). 0 < cmp (val x) k" "aplug p Lf = t"
proof -
  note m = bavl_missing [OF assms, simplified]
  show i: "ainorder t = abefore p @ abehind p" using ainorder_aplug [of p Lf] m by simp
  show "k \<notin> val ` set (ainorder t)" using m cmp_zero [of k k] unfolding i by fastforce
qed (use bavl_missing [OF assms, simplified] in auto)

lemma lookup_found: "BAVL_LookupExact cmp val t k = Some x \<Longrightarrow> x \<in> set (ainorder t) \<and> val x = k"
  using bavl_found [of k val "[]" t x] by (cases "BAVL_descend (\<lambda>c. cmp k (val c)) [] t") (auto simp: BAVL_LookupExact_def)

lemma lookup_iff:
  assumes "ordered val (ainorder t)"
  shows "BAVL_LookupExact cmp val t k = Some x \<longleftrightarrow> x \<in> set (ainorder t) \<and> val x = k"
proof
  assume x: "x \<in> set (ainorder t) \<and> val x = k"
  obtain res p where d: "BAVL_descend (\<lambda>c. cmp k (val c)) [] t = (res, p)" by fastforce
  show "BAVL_LookupExact cmp val t k = Some x"
  proof (cases res)
    case None
    then show ?thesis using bavl_missing_key(1) [of k val t p] d assms x by auto
  next
    case (Some y)
    then have "y \<in> set (ainorder t)" "val y = val x" using bavl_found [of k val "[]" t y p] d x by auto
    moreover have "distinct (map val (ainorder t))" by (rule ordered_distinct [OF assms])
    ultimately have "y = x" using x by (simp add: distinct_map inj_on_def)
    then show ?thesis using d Some by (simp add: BAVL_LookupExact_def)
  qed
qed (rule lookup_found)

lemma insert_fresh:
  assumes k: "avl_ok t" and o: "ordered val (ainorder t)" and f: "val y \<notin> val ` set (ainorder t)"
  shows "\<exists>t'. BAVL_Insert cmp val t y = Some (t', True) \<and> avl_ok t' \<and> ordered val (ainorder t')
    \<and> set (ainorder t') = insert y (set (ainorder t)) \<and> length (ainorder t') = Suc (length (ainorder t))"
proof -
  obtain res p where d: "BAVL_descend (\<lambda>c. cmp (val y) (val c)) [] t = (res, p)" by fastforce
  have n: "res = None" using bavl_found [of "val y" val "[]" t _ p] d f by (cases res) (auto simp: image_iff)
  note m = bavl_missing_key [OF d [unfolded n] o]
  obtain t' where t': "BAVL_rebalance p (Br 0 Lf y Lf) 1 = Some t'" "avl_ok t'" "ainorder t' = abefore p @ y # abehind p"
    using insert_position [of p y] k m(5) by auto
  have "ordered val (ainorder t')" using o m(2-4) unfolding t'(3) by (simp add: ordered_append sorted_wrt_append)
  then show ?thesis using t' d n m(2) by (auto simp: BAVL_Insert_def)
qed

lemma insert_present:
  assumes o: "ordered val (ainorder t)" and f: "val y \<in> val ` set (ainorder t)"
  shows "BAVL_Insert cmp val t y = Some (t, False)"
proof -
  obtain res p where d: "BAVL_descend (\<lambda>c. cmp (val y) (val c)) [] t = (res, p)" by fastforce
  have "res \<noteq> None" using bavl_missing_key(1) [of "val y" val t p] d o f by auto
  then show ?thesis using d by (auto simp: BAVL_Insert_def)
qed

lemma remove_present:
  assumes k: "avl_ok t" and o: "ordered val (ainorder t)" and y: "y \<in> set (ainorder t)"
  shows "\<exists>t'. BAVL_Remove t y = Some t' \<and> avl_ok t' \<and> ordered val (ainorder t')
    \<and> set (ainorder t') = set (ainorder t) - {y} \<and> length (ainorder t') = length (ainorder t) - 1"
proof -
  obtain t' as bs where t': "BAVL_Remove t y = Some t'" "avl_ok t'" "ainorder t = as @ y # bs" "ainorder t' = as @ bs"
    using remove_inorder [OF k y] by blast
  have "distinct (ainorder t)" using ordered_distinct [OF o] by (simp add: distinct_map)
  moreover have "ordered val (as @ bs)" using o unfolding t'(3) by (auto simp: sorted_wrt_append)
  ultimately show ?thesis using t' by auto
qed

lemma verify_ok: "avl_ok t \<Longrightarrow> ordered val (ainorder t) \<Longrightarrow> BAVL_assert_recurser cmp val t = Some (aheight t)"
proof (induction t)
  case (Br b l x r)
  then have o: "ordered val (ainorder l)" "ordered val (ainorder r)"
    "\<forall>y\<in>set (ainorder l). 0 < cmp (val x) (val y)" "\<forall>z\<in>set (ainorder r). 0 < cmp (val z) (val x)"
    by (simp_all add: ordered_append)
  have "cmp (val y) (val x) = -1" if "aroot l = Some y" for y
    using that o(3) cmp_three [of "val y" "val x"] cmp_swap [of "val y" "val x"]
    by (cases l) auto
  moreover have "cmp (val y) (val x) = 1" if "aroot r = Some y" for y
    using that o(4) cmp_three [of "val y" "val x"] by (cases r) auto
  ultimately show ?case using Br o by (auto split: option.splits)
qed simp

end

text \<open>A sequence of insertions and removals, on the tree and on a map from values to nodes.\<close>

datatype 'a avl_op = AvlInsert 'a | AvlRemove 'a

fun avl_do :: "('k \<Rightarrow> 'k \<Rightarrow> int) \<Rightarrow> ('a \<Rightarrow> 'k) \<Rightarrow> 'a avl_op \<Rightarrow> 'a avl \<Rightarrow> 'a avl option" where
  "avl_do cmp val (AvlInsert x) t = map_option fst (BAVL_Insert cmp val t x)"
| "avl_do cmp val (AvlRemove x) t = BAVL_Remove t x"

fun avl_run :: "('k \<Rightarrow> 'k \<Rightarrow> int) \<Rightarrow> ('a \<Rightarrow> 'k) \<Rightarrow> 'a avl_op list \<Rightarrow> 'a avl \<Rightarrow> 'a avl option" where
  "avl_run cmp val [] t = Some t"
| "avl_run cmp val (op # ops) t = (case avl_do cmp val op t of None \<Rightarrow> None | Some t' \<Rightarrow> avl_run cmp val ops t')"

fun index_do :: "('a \<Rightarrow> 'k) \<Rightarrow> 'a avl_op \<Rightarrow> ('k \<Rightarrow> 'a option) \<Rightarrow> ('k \<Rightarrow> 'a option)" where
  "index_do val (AvlInsert x) m = (if m (val x) = None then m(val x \<mapsto> x) else m)"
| "index_do val (AvlRemove x) m = m(val x := None)"

fun index_run :: "('a \<Rightarrow> 'k) \<Rightarrow> 'a avl_op list \<Rightarrow> ('k \<Rightarrow> 'a option) \<Rightarrow> ('k \<Rightarrow> 'a option)" where
  "index_run val [] m = m"
| "index_run val (op # ops) m = index_run val ops (index_do val op m)"

text \<open>Only nodes of the tree are removed.\<close>

fun avl_ops_ok :: "('a \<Rightarrow> 'k) \<Rightarrow> 'a avl_op list \<Rightarrow> ('k \<Rightarrow> 'a option) \<Rightarrow> bool" where
  "avl_ops_ok val [] m \<longleftrightarrow> True"
| "avl_ops_ok val (AvlInsert x # ops) m \<longleftrightarrow> avl_ops_ok val ops (index_do val (AvlInsert x) m)"
| "avl_ops_ok val (AvlRemove x # ops) m \<longleftrightarrow> m (val x) = Some x \<and> avl_ops_ok val ops (index_do val (AvlRemove x) m)"

context bavl_order
begin

definition indexes :: "('a \<Rightarrow> 'k) \<Rightarrow> 'a avl \<Rightarrow> ('k \<Rightarrow> 'a option) \<Rightarrow> bool" where
  "indexes val t m \<longleftrightarrow> avl_ok t \<and> ordered val (ainorder t) \<and> (\<forall>k x. m k = Some x \<longleftrightarrow> x \<in> set (ainorder t) \<and> val x = k)"

lemma indexes_lookup: "indexes val t m \<Longrightarrow> BAVL_LookupExact cmp val t k = m k"
proof -
  assume "indexes val t m"
  then have "\<And>x. BAVL_LookupExact cmp val t k = Some x \<longleftrightarrow> m k = Some x" using lookup_iff [of val t k] by (simp add: indexes_def)
  then show ?thesis by (metis not_Some_eq)
qed

lemma avl_do_indexes:
  assumes i: "indexes val t m" and ok: "avl_ops_ok val [op] m"
  shows "\<exists>t'. avl_do cmp val op t = Some t' \<and> indexes val t' (index_do val op m)"
proof (cases op)
  case (AvlInsert x)
  have o: "avl_ok t" "ordered val (ainorder t)" and m: "\<And>k x. m k = Some x \<longleftrightarrow> x \<in> set (ainorder t) \<and> val x = k"
    using i by (auto simp: indexes_def)
  show ?thesis
  proof (cases "val x \<in> val ` set (ainorder t)")
    case True
    then have "index_do val op m = m" using m AvlInsert by (force simp: image_iff)
    then show ?thesis using insert_present [OF o(2) True] i AvlInsert by auto
  next
    case False
    then have "m (val x) = None" using m by (metis image_eqI not_Some_eq)
    moreover obtain t' where t': "BAVL_Insert cmp val t x = Some (t', True)" "avl_ok t'" "ordered val (ainorder t')"
      "set (ainorder t') = insert x (set (ainorder t))" using insert_fresh [OF o False] by auto
    moreover have "indexes val t' (m(val x \<mapsto> x))"
      unfolding indexes_def t'(4) using t'(2,3) m False by (auto simp: image_iff)
    ultimately show ?thesis using AvlInsert by simp
  qed
next
  case (AvlRemove x)
  have o: "avl_ok t" "ordered val (ainorder t)" and m: "\<And>k x. m k = Some x \<longleftrightarrow> x \<in> set (ainorder t) \<and> val x = k"
    using i by (auto simp: indexes_def)
  have x: "x \<in> set (ainorder t)" using ok AvlRemove m by simp
  obtain t' where t': "BAVL_Remove t x = Some t'" "avl_ok t'" "ordered val (ainorder t')"
    "set (ainorder t') = set (ainorder t) - {x}" using remove_present [OF o x] by auto
  have "inj_on val (set (ainorder t))" using ordered_distinct [OF o(2)] by (simp add: distinct_map)
  then have "indexes val t' (m(val x := None))" using t' m x unfolding indexes_def by (auto dest: inj_onD)
  then show ?thesis using t'(1) AvlRemove by simp
qed

lemma avl_run_indexes:
  "indexes val t m \<Longrightarrow> avl_ops_ok val ops m \<Longrightarrow> \<exists>t'. avl_run cmp val ops t = Some t' \<and> indexes val t' (index_run val ops m)"
proof (induction ops arbitrary: t m)
  case (Cons op ops)
  have "avl_ops_ok val [op] m" and r: "avl_ops_ok val ops (index_do val op m)" using Cons.prems(2) by (cases op; simp)+
  from avl_do_indexes [OF Cons.prems(1) this(1)] obtain t' where "avl_do cmp val op t = Some t'" "indexes val t' (index_do val op m)"
    by blast
  then show ?case using Cons.IH [OF _ r] by simp
qed simp

lemma run_correct:
  assumes "avl_ops_ok val ops Map.empty"
  shows "\<exists>t. avl_run cmp val ops Lf = Some t \<and> BAVL_assert_recurser cmp val t \<noteq> None
    \<and> (\<forall>k. BAVL_LookupExact cmp val t k = index_run val ops Map.empty k)"
proof -
  have "indexes val Lf Map.empty" by (simp add: indexes_def)
  from avl_run_indexes [OF this assms] obtain t where "avl_run cmp val ops Lf = Some t" "indexes val t (index_run val ops Map.empty)"
    by blast
  then show ?thesis using indexes_lookup [of val t] verify_ok [of t val]
    by (intro exI [of _ t]) (auto simp: indexes_def)
qed

end

section \<open>The comparison of integers\<close>

definition B_COMPARE :: "'k :: linorder \<Rightarrow> 'k \<Rightarrow> int" where
  "B_COMPARE a b = (if a > b then 1 else 0) - (if a < b then 1 else 0)"

lemma B_COMPARE_simps:
  "B_COMPARE a b = 0 \<longleftrightarrow> a = b" "0 < B_COMPARE a b \<longleftrightarrow> b < a" "B_COMPARE a b < 0 \<longleftrightarrow> a < b"
  by (auto simp: B_COMPARE_def)

interpretation bc: bavl_order B_COMPARE
proof unfold_locales
  show "B_COMPARE a b = -1 \<or> B_COMPARE a b = 0 \<or> B_COMPARE a b = 1" for a b :: 'a by (simp add: B_COMPARE_def)
qed (auto simp: B_COMPARE_simps)

section \<open>A tree as an index of a set of nodes\<close>

definition avl_index :: "('k \<Rightarrow> 'k \<Rightarrow> int) \<Rightarrow> ('a \<Rightarrow> 'k) \<Rightarrow> 'a avl \<Rightarrow> 'a set \<Rightarrow> bool" where
  "avl_index cmp val t S \<longleftrightarrow> avl_ok t \<and> sorted_wrt (\<lambda>x y. 0 < cmp (val y) (val x)) (ainorder t) \<and> set (ainorder t) = S"

lemma index_cong:
  assumes "avl_index cmp val t S" "\<And>x. x \<in> S \<Longrightarrow> val' x = val x"
  shows "avl_index cmp val' t S"
  using assms unfolding avl_index_def by (auto intro: sorted_wrt_mono_rel [rotated])

lemma index_nil [simp]: "avl_index cmp val Lf {}"
  by (simp add: avl_index_def)

context bavl_order
begin

lemma index_lookup: "avl_index cmp val t S \<Longrightarrow> BAVL_LookupExact cmp val t k = Some x \<longleftrightarrow> x \<in> S \<and> val x = k"
  using lookup_iff [of val t k x] by (auto simp: avl_index_def)

lemma index_missing: "avl_index cmp val t S \<Longrightarrow> BAVL_LookupExact cmp val t k = None \<longleftrightarrow> k \<notin> val ` S"
  using index_lookup [of val t S k] by (cases "BAVL_LookupExact cmp val t k") (fastforce simp: image_iff)+

lemma index_insert:
  assumes "avl_index cmp val t S" "val x \<notin> val ` S"
  shows "\<exists>t'. BAVL_Insert cmp val t x = Some (t', True) \<and> avl_index cmp val t' (insert x S)"
  using insert_fresh [of t val x] assms unfolding avl_index_def by auto

lemma index_remove:
  assumes "avl_index cmp val t S" "x \<in> S"
  shows "\<exists>t'. BAVL_Remove t x = Some t' \<and> avl_index cmp val t' (S - {x})"
  using remove_present [of t val x] assms unfolding avl_index_def by auto

end

section \<open>Comparators from comparators\<close>

text \<open>Comparing first by one part and then by another.\<close>

definition lex_cmp :: "('a \<Rightarrow> 'a \<Rightarrow> int) \<Rightarrow> ('b \<Rightarrow> 'b \<Rightarrow> int) \<Rightarrow> 'a \<times> 'b \<Rightarrow> 'a \<times> 'b \<Rightarrow> int" where
  "lex_cmp cf cg x y = (if cf (fst x) (fst y) \<noteq> 0 then cf (fst x) (fst y) else cg (snd x) (snd y))"

lemma bavl_orderD:
  assumes "bavl_order c"
  shows "c a b = 0 \<longleftrightarrow> a = b" "c a b < 0 \<longleftrightarrow> 0 < c b a" "0 < c a b \<Longrightarrow> 0 < c b d \<Longrightarrow> 0 < c a d"
    "c a b = -1 \<or> c a b = 0 \<or> c a b = 1"
proof -
  note o = bavl_order.axioms(1) [OF assms]
  show "c a b = 0 \<longleftrightarrow> a = b" using search_order.cmp_zero [OF o, of b a] search_order.cmp_zero [OF o, of a b] by auto
  show "c a b < 0 \<longleftrightarrow> 0 < c b a" using search_order.cmp_swap [OF o, of a b] search_order.cmp_swap [OF o, of b a] by simp
  show "0 < c a b \<Longrightarrow> 0 < c b d \<Longrightarrow> 0 < c a d" using search_order.cmp_trans [OF o] by blast
  show "c a b = -1 \<or> c a b = 0 \<or> c a b = 1" by (rule bavl_order.cmp_three [OF assms])
qed

lemma bavl_orderI:
  assumes "\<And>a b. c a b = 0 \<longleftrightarrow> a = b" "\<And>a b. c a b < 0 \<longleftrightarrow> 0 < c b a"
    "\<And>a b d. 0 < c a b \<Longrightarrow> 0 < c b d \<Longrightarrow> 0 < c a d" "\<And>a b. c a b = -1 \<or> c a b = 0 \<or> c a b = 1"
  shows "bavl_order c"
  by unfold_locales (use assms in \<open>auto\<close>)

lemma lex_order:
  assumes f: "bavl_order cf" and g: "bavl_order cg"
  shows "bavl_order (lex_cmp cf cg)"
proof (rule bavl_orderI)
  have same: "cf x x = 0" for x using bavl_orderD(1) [OF f, of x x] by simp
  show "0 < lex_cmp cf cg a b \<Longrightarrow> 0 < lex_cmp cf cg b d \<Longrightarrow> 0 < lex_cmp cf cg a d" for a b d
    using bavl_orderD(3) [OF f, of "fst a" "fst b" "fst d"] bavl_orderD(3) [OF g, of "snd a" "snd b" "snd d"]
    by (auto simp: lex_cmp_def bavl_orderD(1) [OF f] same split: if_splits)
  show "lex_cmp cf cg a b = -1 \<or> lex_cmp cf cg a b = 0 \<or> lex_cmp cf cg a b = 1" for a b
    using bavl_orderD(4) [OF f, of "fst a" "fst b"] bavl_orderD(4) [OF g, of "snd a" "snd b"] by (auto simp: lex_cmp_def)
qed (auto simp: lex_cmp_def prod_eq_iff bavl_orderD(1,2) [OF f] bavl_orderD(1,2) [OF g])

text \<open>A comparison of a part that determines the whole.\<close>

lemma image_order:
  assumes "bavl_order c" "inj f"
  shows "bavl_order (\<lambda>x y. c (f x) (f y))"
proof (rule bavl_orderI)
  show "c (f x) (f y) = -1 \<or> c (f x) (f y) = 0 \<or> c (f x) (f y) = 1" for x y
    by (rule bavl_orderD(4) [OF assms(1)])
qed (use bavl_orderD(1,2,3) [OF assms(1)] assms(2) in \<open>auto simp: inj_eq\<close>)

text \<open>
  C14: Any sequence of insertions and of removals of present nodes on the AVL tree never follows a
  null pointer; the tree it ends in passes the tree's own verification (order, heights and balance
  factors), and a lookup finds exactly the node that a map from values to nodes holds after the same
  operations, an insertion of a value that is there changing nothing.
\<close>

theorem bavl_refines_map:
  fixes val :: "'a \<Rightarrow> 'k :: linorder"
  assumes "avl_ops_ok val ops Map.empty"
  shows "\<exists>t. avl_run B_COMPARE val ops Lf = Some t \<and> BAVL_assert_recurser B_COMPARE val t \<noteq> None
    \<and> (\<forall>k. BAVL_LookupExact B_COMPARE val t k = index_run val ops Map.empty k)"
  by (rule bc.run_correct [OF assms])

theorem bavl_refines_map_witness:
  "\<exists>t. avl_run B_COMPARE id [AvlInsert (1 :: int), AvlInsert 2, AvlInsert 3, AvlInsert 2, AvlRemove 2] Lf = Some t
     \<and> BAVL_assert_recurser B_COMPARE id t \<noteq> None \<and> BAVL_LookupExact B_COMPARE id t 3 = Some 3
     \<and> BAVL_LookupExact B_COMPARE id t 2 = None"
  using bavl_refines_map [of id "[AvlInsert (1 :: int), AvlInsert 2, AvlInsert 3, AvlInsert 2, AvlRemove 2]"] by auto

end
