(* ===== verification/C_Avl.thy ===== *)
theory C_Avl
  imports B_Avl
begin

text \<open>
  The AVL tree template of \<^verbatim>\<open>badvpn/structure/CAvl_impl.h\<close>, with which the fair queue and the reactor
  keep their queued flows and timers (through the wrappers of \<^verbatim>\<open>SAvl_impl.h\<close>, without the optional
  counts and sums).  Its code treats the two sides of a node symmetrically: a side is a truth
  value, \<^const>\<open>True\<close> for the right one.  The tree is shown equal, operation by operation, to the one of
  \<^verbatim>\<open>BAVL.h\<close>, so the lemmas about that one apply.
\<close>

section \<open>The code\<close>

fun CAvl_balance :: "'a avl \<Rightarrow> int" where
  "CAvl_balance Lf = 0"
| "CAvl_balance (Br b l x r) = b"

fun CAvl_link :: "bool \<Rightarrow> 'a avl \<Rightarrow> 'a avl" where
  "CAvl_link side Lf = Lf"
| "CAvl_link side (Br b l x r) = (if side then r else l)"

fun set_balance :: "int \<Rightarrow> 'a avl \<Rightarrow> 'a avl" where
  "set_balance v Lf = Lf"
| "set_balance v (Br b l x r) = Br v l x r"

fun set_link :: "bool \<Rightarrow> 'a avl \<Rightarrow> 'a avl \<Rightarrow> 'a avl" where
  "set_link side t Lf = Lf"
| "set_link side t (Br b l x r) = (if side then Br b l x t else Br b t x r)"

definition CAvl_OPTNEG :: "int \<Rightarrow> bool \<Rightarrow> int" where
  "CAvl_OPTNEG a neg = (if neg then - a else a)"

text \<open>A rotation at \<open>r\<close>; a missing child, which the code would dereference, is \<^const>\<open>None\<close>.\<close>

definition CAvl_rotate :: "'a avl \<Rightarrow> bool \<Rightarrow> 'a avl option" where
  "CAvl_rotate r dir =
     (let nr = CAvl_link (\<not> dir) r in
      if nr = Lf then None else Some (set_link dir (set_link (\<not> dir) (CAvl_link dir nr) r) nr))"

text \<open>The transformations of a node whose balance factor is wrong, with the corrected height change.\<close>

definition CAvl_transform :: "'a avl \<Rightarrow> int \<Rightarrow> ('a avl \<times> int) option" where
  "CAvl_transform node delta =
     (if CAvl_balance node = 2 \<or> CAvl_balance node = -2 then
        (let bside = (CAvl_balance node = 2);
             bsidef = (if CAvl_balance node = 2 then 1 else -1 :: int);
             child = CAvl_link bside node in
         if child = Lf then None
         else if CAvl_balance child * bsidef = 1 then
           map_option (\<lambda>t. (set_balance 0 (set_link (\<not> bside) (set_balance 0 (CAvl_link (\<not> bside) t)) t), delta - 1))
             (CAvl_rotate node (\<not> bside))
         else if CAvl_balance child * bsidef = 0 then
           map_option (\<lambda>t. (set_balance (- 1 * bsidef) (set_link (\<not> bside) (set_balance (1 * bsidef) (CAvl_link (\<not> bside) t)) t), delta))
             (CAvl_rotate node (\<not> bside))
         else if CAvl_balance child * bsidef = -1 then
           (let gchild = CAvl_link (\<not> bside) child in
            if gchild = Lf then None
            else case CAvl_rotate child bside of
              None \<Rightarrow> None
            | Some child' \<Rightarrow>
                map_option
                  (\<lambda>t. (let node' = set_balance (- max 0 (CAvl_balance gchild * bsidef) * bsidef) (CAvl_link (\<not> bside) t);
                            child'' = set_balance (max 0 (- CAvl_balance gchild * bsidef) * bsidef) (CAvl_link bside t)
                        in set_balance 0 (set_link bside child'' (set_link (\<not> bside) node' t)), delta - 1))
                  (CAvl_rotate (set_link bside child' node) (\<not> bside)))
         else Some (node, delta))
      else Some (node, delta))"

fun CAvl_rebalance :: "'a aframe list \<Rightarrow> 'a avl \<Rightarrow> int \<Rightarrow> 'a avl option" where
  "CAvl_rebalance [] t deltac = Some t"
| "CAvl_rebalance (f # fs) t deltac =
     (if deltac = 0 then Some (aplug (f # fs) t)
      else let node = afill f t;
               side = (case f of AL _ _ _ \<Rightarrow> False | AR _ _ _ \<Rightarrow> True);
               delta = max deltac (CAvl_OPTNEG (CAvl_balance node) side) - max 0 (CAvl_OPTNEG (CAvl_balance node) side) in
        case CAvl_transform (set_balance (CAvl_balance node - CAvl_OPTNEG deltac side) node) delta of
          None \<Rightarrow> None | Some (t', delta') \<Rightarrow> CAvl_rebalance fs t' delta')"

text \<open>The descent of \<^verbatim>\<open>CAvl_Insert\<close>: an equal entry, or the empty position where the entry belongs.\<close>

fun CAvl_descend :: "('a \<Rightarrow> 'a \<Rightarrow> int) \<Rightarrow> 'a \<Rightarrow> 'a aframe list \<Rightarrow> 'a avl \<Rightarrow> 'a option \<times> 'a aframe list" where
  "CAvl_descend compare node fs Lf = (None, fs)"
| "CAvl_descend compare node fs (Br b l x r) =
     (if compare node x = 0 then (Some x, fs)
      else if compare node x = 1 then CAvl_descend compare node (AR b l x # fs) r
      else CAvl_descend compare node (AL b x r # fs) l)"

definition CAvl_Insert :: "('a \<Rightarrow> 'a \<Rightarrow> int) \<Rightarrow> 'a avl \<Rightarrow> 'a \<Rightarrow> ('a avl \<times> bool) option" where
  "CAvl_Insert compare t node =
     (case CAvl_descend compare node [] t of
        (Some c, _) \<Rightarrow> Some (t, False)
      | (None, fs) \<Rightarrow> map_option (\<lambda>t'. (t', True)) (CAvl_rebalance fs (Br 0 Lf node Lf) 1))"

fun CAvl_subtree_max :: "'a aframe list \<Rightarrow> 'a avl \<Rightarrow> ('a aframe list \<times> 'a avl \<times> 'a) option" where
  "CAvl_subtree_max fs Lf = None"
| "CAvl_subtree_max fs (Br b l x r) = (if r = Lf then Some (fs, l, x) else CAvl_subtree_max (AR b l x # fs) r)"

text \<open>
  \<^verbatim>\<open>CAvl_Remove\<close>: \<^verbatim>\<open>CAvl_swap_for_remove\<close> gives the greatest entry of the left subtree the place and
  the balance factor of the removed one.
\<close>

definition CAvl_Remove :: "'a avl \<Rightarrow> 'a \<Rightarrow> 'a avl option" where
  "CAvl_Remove t node =
     (case alocate node t [] of
        None \<Rightarrow> None
      | Some (fs, s) \<Rightarrow>
          if CAvl_link False s \<noteq> Lf \<and> CAvl_link True s \<noteq> Lf then
            (case CAvl_subtree_max [] (CAvl_link False s) of
               None \<Rightarrow> None
             | Some (gs, ml, mx) \<Rightarrow> CAvl_rebalance (gs @ AL (CAvl_balance s) mx (CAvl_link True s) # fs) ml (-1))
          else if s = Lf then None
          else CAvl_rebalance fs (if CAvl_link False s \<noteq> Lf then CAvl_link False s else CAvl_link True s) (-1))"

definition CAvl_IsEmpty :: "'a avl \<Rightarrow> bool" where
  "CAvl_IsEmpty t = (t = Lf)"

fun CAvl_GetFirst :: "'a avl \<Rightarrow> 'a option" where
  "CAvl_GetFirst Lf = None"
| "CAvl_GetFirst (Br b l x r) = (if l = Lf then Some x else CAvl_GetFirst l)"

fun CAvl_GetLast :: "'a avl \<Rightarrow> 'a option" where
  "CAvl_GetLast Lf = None"
| "CAvl_GetLast (Br b l x r) = (if r = Lf then Some x else CAvl_GetLast r)"

text \<open>The way up from an entry without a right (left) subtree to the next (previous) entry.\<close>

fun CAvl_up_next :: "'a aframe list \<Rightarrow> 'a option" where
  "CAvl_up_next [] = None"
| "CAvl_up_next (AL b x r # fs) = Some x"
| "CAvl_up_next (AR b l x # fs) = CAvl_up_next fs"

fun CAvl_up_prev :: "'a aframe list \<Rightarrow> 'a option" where
  "CAvl_up_prev [] = None"
| "CAvl_up_prev (AR b l x # fs) = Some x"
| "CAvl_up_prev (AL b x r # fs) = CAvl_up_prev fs"

definition CAvl_GetNext :: "'a avl \<Rightarrow> 'a \<Rightarrow> 'a option" where
  "CAvl_GetNext t node =
     (case alocate node t [] of
        None \<Rightarrow> None
      | Some (fs, s) \<Rightarrow> if CAvl_link True s \<noteq> Lf then CAvl_GetFirst (CAvl_link True s) else CAvl_up_next fs)"

definition CAvl_GetPrev :: "'a avl \<Rightarrow> 'a \<Rightarrow> 'a option" where
  "CAvl_GetPrev t node =
     (case alocate node t [] of
        None \<Rightarrow> None
      | Some (fs, s) \<Rightarrow> if CAvl_link False s \<noteq> Lf then CAvl_GetLast (CAvl_link False s) else CAvl_up_prev fs)"

section \<open>The same tree\<close>

lemma CAvl_transform_BAVL: "CAvl_transform (Br b l x r) delta = BAVL_transform b l x r delta"
  by (cases l; cases r) (auto simp: CAvl_transform_def BAVL_transform_def CAvl_rotate_def Let_def split: avl.splits)

lemma CAvl_rebalance_BAVL: "CAvl_rebalance fs t d = BAVL_rebalance fs t d"
proof (induction fs arbitrary: t d)
  case (Cons f fs)
  then show ?case
    by (cases f) (auto simp: CAvl_transform_BAVL CAvl_OPTNEG_def BAVL_OPTNEG_def Let_def split: option.splits)
qed simp

lemma CAvl_descend_BAVL: "CAvl_descend (\<lambda>a b. cmp (val a) (val b)) node fs t = BAVL_descend (\<lambda>c. cmp (val node) (val c)) fs t"
  by (induction t arbitrary: fs) simp_all

lemma CAvl_Insert_BAVL: "CAvl_Insert (\<lambda>a b. cmp (val a) (val b)) t node = BAVL_Insert cmp val t node"
  by (auto simp: CAvl_Insert_def BAVL_Insert_def CAvl_descend_BAVL CAvl_rebalance_BAVL split: prod.splits option.splits)

lemma CAvl_subtree_max_BAVL: "CAvl_subtree_max fs t = BAVL_subtree_max fs t"
  by (induction fs t rule: BAVL_subtree_max.induct) simp_all

lemma CAvl_Remove_BAVL: "CAvl_Remove t node = BAVL_Remove t node"
  by (auto simp: CAvl_Remove_def BAVL_Remove_def CAvl_subtree_max_BAVL CAvl_rebalance_BAVL split: option.splits avl.splits)

lemma CAvl_GetFirst_inorder: "CAvl_GetFirst t = (case ainorder t of [] \<Rightarrow> None | x # _ \<Rightarrow> Some x)"
proof (induction t)
  case (Br b l x r)
  then show ?case by (cases l; cases "ainorder l") auto
qed simp

lemma CAvl_GetLast_inorder: "CAvl_GetLast t = (if ainorder t = [] then None else Some (last (ainorder t)))"
proof (induction t)
  case (Br b l x r)
  then show ?case by (cases r) auto
qed simp

lemma CAvl_up_next_behind: "CAvl_up_next fs = (case abehind fs of [] \<Rightarrow> None | x # _ \<Rightarrow> Some x)"
  by (induction fs rule: CAvl_up_next.induct) simp_all

lemma CAvl_up_prev_before: "CAvl_up_prev fs = (if abefore fs = [] then None else Some (last (abefore fs)))"
  by (induction fs rule: CAvl_up_prev.induct) simp_all

lemma CAvl_position:
  assumes "y \<in> set (ainorder t)"
  obtains fs b l r where "alocate y t [] = Some (fs, Br b l y r)"
    "ainorder t = (abefore fs @ ainorder l) @ y # (ainorder r @ abehind fs)"
proof -
  obtain fs s where p: "alocate y t [] = Some (fs, s)" using alocate_ex [OF assms, of "[]"] by auto
  obtain b l r where s: "s = Br b l y r" "t = aplug fs (Br b l y r)" using alocate_Some [OF p] by (cases s) auto
  show thesis by (rule that [of fs b l r]) (use p s in auto)
qed

lemma split_unique: "distinct (as @ y # bs) \<Longrightarrow> as @ y # bs = cs @ y # ds \<Longrightarrow> as = cs \<and> bs = ds"
proof -
  assume d: "distinct (as @ y # bs)" and e: "as @ y # bs = cs @ y # ds"
  from d have "y \<notin> set as" "y \<notin> set bs" by auto
  with e show ?thesis by (simp only: append_Cons_eq_iff simp_thms)
qed

lemma CAvl_GetNext_inorder:
  assumes "distinct (ainorder t)" "ainorder t = as @ y # bs"
  shows "CAvl_GetNext t y = (case bs of [] \<Rightarrow> None | z # _ \<Rightarrow> Some z)"
proof -
  have "y \<in> set (ainorder t)" using assms(2) by simp
  then obtain fs b l r where p: "alocate y t [] = Some (fs, Br b l y r)"
    "ainorder t = (abefore fs @ ainorder l) @ y # (ainorder r @ abehind fs)" by (rule CAvl_position)
  then have "bs = ainorder r @ abehind fs"
    using split_unique [of as y bs "abefore fs @ ainorder l" "ainorder r @ abehind fs"] assms by simp
  then show ?thesis using p(1) 
    by (cases "ainorder r"; cases r) (simp_all add: CAvl_GetNext_def CAvl_up_next_behind CAvl_GetFirst_inorder del: CAvl_GetFirst.simps)
qed

lemma CAvl_GetPrev_inorder:
  assumes "distinct (ainorder t)" "ainorder t = as @ y # bs"
  shows "CAvl_GetPrev t y = (if as = [] then None else Some (last as))"
proof -
  have "y \<in> set (ainorder t)" using assms(2) by simp
  then obtain fs b l r where p: "alocate y t [] = Some (fs, Br b l y r)"
    "ainorder t = (abefore fs @ ainorder l) @ y # (ainorder r @ abehind fs)" by (rule CAvl_position)
  then have "as = abefore fs @ ainorder l"
    using split_unique [of as y bs "abefore fs @ ainorder l" "ainorder r @ abehind fs"] assms by simp
  then show ?thesis using p(1) by (cases l) (auto simp: CAvl_GetPrev_def CAvl_up_prev_before CAvl_GetLast_inorder)
qed

end
