(* ===== verification/Fair_Queue.thy ===== *)
theory Fair_Queue
  imports Linked_List1 C_Avl
begin

text \<open>
  The fair queue of \<^verbatim>\<open>badvpn/flow/PacketPassFairQueue.c\<close>, which lets the connections of the gateway
  client share its link.  Every flow has a 64-bit virtual time that grows with what it sent; the
  queued flows lie in an AVL tree ordered by time and, for equal times, by their address.  A flow is
  its address.
\<close>

section \<open>The code\<close>

record fq_flow =
  fl_time :: usize
  fl_is_queued :: bool
  fl_data :: bytes
  fl_data_len :: int
  fl_handler_busy :: bool

record fair_queue =
  fq_flows :: "nat \<Rightarrow> fq_flow"
  fq_weight :: int
  fq_use_cancel :: bool
  fq_sending :: "nat option"
  fq_sending_len :: int
  fq_previous :: "nat option"
  fq_tree :: "nat avl"
  fq_list :: "nat llist"
  fq_freeing :: bool
  fq_job :: bool
  fq_output :: "bytes option"

abbreviation FAIRQUEUE_MAX_TIME :: usize where
  "FAIRQUEUE_MAX_TIME \<equiv> - 1"

definition compare_flows :: "(nat \<Rightarrow> fq_flow) \<Rightarrow> nat \<Rightarrow> nat \<Rightarrow> int" where
  "compare_flows fl f1 f2 =
     (let cmp = B_COMPARE (fl_time (fl f1)) (fl_time (fl f2)) in if cmp \<noteq> 0 then cmp else B_COMPARE f1 f2)"

definition fq_time :: "fair_queue \<Rightarrow> nat \<Rightarrow> usize" where
  "fq_time m f = fl_time (fq_flows m f)"

definition fq_upd :: "nat \<Rightarrow> (fq_flow \<Rightarrow> fq_flow) \<Rightarrow> fair_queue \<Rightarrow> fair_queue" where
  "fq_upd f u m = m\<lparr>fq_flows := (fq_flows m)(f := u (fq_flows m f))\<rparr>"

definition get_current_time :: "fair_queue \<Rightarrow> usize" where
  "get_current_time m =
     (case fq_sending m of
        Some f \<Rightarrow> fq_time m f
      | None \<Rightarrow>
          (let (time, have1) = (case CAvl_GetFirst (fq_tree m) of Some f \<Rightarrow> (fq_time m f, True) | None \<Rightarrow> (0, False));
               (time', have2) = (case fq_previous m of
                  Some p \<Rightarrow> if \<not> have1 \<or> fq_time m p < time then (fq_time m p, True) else (time, have1)
                | None \<Rightarrow> (time, have1))
           in if have2 then time' else 0))"

text \<open>The loop over the list of flows that takes \<open>subtract\<close> from the time of each.\<close>

partial_function (option) fq_subtract ::
  "nat llist \<Rightarrow> usize \<Rightarrow> nat \<Rightarrow> nat option \<Rightarrow> (nat \<Rightarrow> fq_flow) \<Rightarrow> (nat \<Rightarrow> fq_flow) option" where
  "fq_subtract l subtract flow node fl =
     (case node of
        None \<Rightarrow> Some fl
      | Some f \<Rightarrow>
          fq_subtract l subtract flow (LinkedList1Node_Next l f)
            (fl(f := (if subtract > fl_time (fl f) \<and> f \<noteq> flow then (fl f)\<lparr>fl_time := 0\<rparr>
                      else (fl f)\<lparr>fl_time := fl_time (fl f) - subtract\<rparr>))))"

definition increment_sent_flow :: "fair_queue \<Rightarrow> nat \<Rightarrow> usize \<Rightarrow> fair_queue option" where
  "increment_sent_flow m flow amount =
     (let m1 =
        (if amount > FAIRQUEUE_MAX_TIME - fq_time m flow then
           (let subtract = (case CAvl_GetFirst (fq_tree m) of None \<Rightarrow> fq_time m flow | Some f \<Rightarrow> fq_time m f)
            in map_option (\<lambda>fl. m\<lparr>fq_flows := fl\<rparr>)
                 (fq_subtract (fq_list m) subtract flow (LinkedList1_GetFirst (fq_list m)) (fq_flows m)))
         else Some m)
      in map_option (fq_upd flow (\<lambda>x. x\<lparr>fl_time := fl_time x + amount\<rparr>)) m1)"

definition schedule :: "fair_queue \<Rightarrow> fair_queue option" where
  "schedule m =
     (case CAvl_GetFirst (fq_tree m) of
        None \<Rightarrow> None
      | Some qflow \<Rightarrow>
          (case CAvl_Remove (fq_tree m) qflow of
             None \<Rightarrow> None
           | Some t \<Rightarrow>
               Some ((fq_upd qflow (\<lambda>x. x\<lparr>fl_is_queued := False\<rparr>) m)
                 \<lparr>fq_tree := t, fq_output := Some (fl_data (fq_flows m qflow)), fq_sending := Some qflow,
                  fq_sending_len := fl_data_len (fq_flows m qflow)\<rparr>)))"

definition schedule_job_handler :: "fair_queue \<Rightarrow> fair_queue option" where
  "schedule_job_handler m =
     (let m1 = m\<lparr>fq_previous := None\<rparr> in if CAvl_IsEmpty (fq_tree m1) then Some m1 else schedule m1)"

definition fq_input_handler_send :: "fair_queue \<Rightarrow> nat \<Rightarrow> bytes \<Rightarrow> int \<Rightarrow> fair_queue option" where
  "fq_input_handler_send m flow data data_len =
     (let m1 = (if fq_previous m = Some flow then m\<lparr>fq_previous := None\<rparr>
                else fq_upd flow (\<lambda>x. x\<lparr>fl_time := max (fl_time x) (get_current_time m)\<rparr>) m);
          m2 = fq_upd flow (\<lambda>x. x\<lparr>fl_data := data, fl_data_len := data_len\<rparr>) m1 in
      case CAvl_Insert (compare_flows (fq_flows m2)) (fq_tree m2) flow of
        None \<Rightarrow> None
      | Some (t, res) \<Rightarrow>
          (let m3 = (fq_upd flow (\<lambda>x. x\<lparr>fl_is_queued := True\<rparr>) m2)\<lparr>fq_tree := t\<rparr> in
           if fq_sending m3 = None \<and> \<not> fq_job m3 then schedule m3 else Some m3))"

text \<open>The job of \<^verbatim>\<open>BPending_Set\<close> runs later; the result says whether the flow's busy handler is called.\<close>

definition fq_output_handler_done :: "fair_queue \<Rightarrow> (fair_queue \<times> bool) option" where
  "fq_output_handler_done m =
     (case fq_sending m of
        None \<Rightarrow> None
      | Some flow \<Rightarrow>
          (let m1 = m\<lparr>fq_sending := None, fq_previous := Some flow, fq_output := None\<rparr> in
           case increment_sent_flow m1 flow (word_of_int (fq_weight m1 + fq_sending_len m1)) of
             None \<Rightarrow> None
           | Some m2 \<Rightarrow>
               Some (fq_upd flow (\<lambda>x. x\<lparr>fl_handler_busy := False\<rparr>) (m2\<lparr>fq_job := True\<rparr>), fl_handler_busy (fq_flows m2 flow))))"

definition PacketPassFairQueue_Init :: "(nat \<Rightarrow> fq_flow) \<Rightarrow> (nat \<Rightarrow> nat lnode) \<Rightarrow> int \<Rightarrow> bool \<Rightarrow> int \<Rightarrow> fair_queue option" where
  "PacketPassFairQueue_Init mem nodes mtu use_cancel packet_weight =
     (if \<not> (mtu \<le> uint FAIRQUEUE_MAX_TIME \<and> packet_weight \<le> uint FAIRQUEUE_MAX_TIME - mtu) then None
      else Some \<lparr>fq_flows = mem, fq_weight = packet_weight, fq_use_cancel = use_cancel, fq_sending = None, fq_sending_len = 0,
        fq_previous = None, fq_tree = Lf, fq_list = LinkedList1_Init nodes, fq_freeing = False, fq_job = False, fq_output = None\<rparr>)"

definition PacketPassFairQueue_PrepareFree :: "fair_queue \<Rightarrow> fair_queue" where
  "PacketPassFairQueue_PrepareFree m = m\<lparr>fq_freeing := True\<rparr>"

definition PacketPassFairQueueFlow_Init :: "fair_queue \<Rightarrow> nat \<Rightarrow> fair_queue" where
  "PacketPassFairQueueFlow_Init m flow =
     (fq_upd flow (\<lambda>x. x\<lparr>fl_handler_busy := False, fl_time := 0, fl_is_queued := False\<rparr>) m)
       \<lparr>fq_list := LinkedList1_Append (fq_list m) flow\<rparr>"

definition PacketPassFairQueueFlow_Free :: "fair_queue \<Rightarrow> nat \<Rightarrow> fair_queue option" where
  "PacketPassFairQueueFlow_Free m flow =
     (let m1 = (if fq_sending m = Some flow then m\<lparr>fq_sending := None\<rparr> else m);
          m2 = (if fq_previous m1 = Some flow then m1\<lparr>fq_previous := None\<rparr> else m1) in
      case (if fl_is_queued (fq_flows m2 flow) then CAvl_Remove (fq_tree m2) flow else Some (fq_tree m2)) of
        None \<Rightarrow> None
      | Some t \<Rightarrow> Some (m2\<lparr>fq_tree := t, fq_list := LinkedList1_Remove (fq_list m2) flow\<rparr>))"

definition PacketPassFairQueueFlow_IsBusy :: "fair_queue \<Rightarrow> nat \<Rightarrow> bool" where
  "PacketPassFairQueueFlow_IsBusy m flow = (fq_sending m = Some flow)"

definition PacketPassFairQueueFlow_SetBusyHandler :: "fair_queue \<Rightarrow> nat \<Rightarrow> fair_queue" where
  "PacketPassFairQueueFlow_SetBusyHandler m flow = fq_upd flow (\<lambda>x. x\<lparr>fl_handler_busy := True\<rparr>) m"

section \<open>Runs of the queue\<close>

text \<open>
  The events: a flow is created or freed, a user of a flow sends a packet, the output finished the
  packet being sent, the scheduling job runs.  An event is allowed when the assertions of the
  handler's code hold.
\<close>

datatype fq_event = FqNew nat | FqFree nat | FqSend nat bytes | FqDone | FqJob

fun fq_step :: "fq_event \<Rightarrow> fair_queue \<Rightarrow> fair_queue option" where
  "fq_step (FqNew f) m = Some (PacketPassFairQueueFlow_Init m f)"
| "fq_step (FqFree f) m = PacketPassFairQueueFlow_Free m f"
| "fq_step (FqSend f data) m = fq_input_handler_send m f data (int (length data))"
| "fq_step FqDone m = map_option fst (fq_output_handler_done m)"
| "fq_step FqJob m = schedule_job_handler (m\<lparr>fq_job := False\<rparr>)"

section \<open>The order of the queued flows\<close>

definition fq_key :: "(nat \<Rightarrow> fq_flow) \<Rightarrow> nat \<Rightarrow> usize \<times> nat" where
  "fq_key fl f = (fl_time (fl f), f)"

definition fq_cmp :: "usize \<times> nat \<Rightarrow> usize \<times> nat \<Rightarrow> int" where
  "fq_cmp = lex_cmp B_COMPARE B_COMPARE"

interpretation fo: bavl_order fq_cmp
  unfolding fq_cmp_def by (intro lex_order bc.bavl_order_axioms)

lemma compare_flows_key: "compare_flows fl = (\<lambda>f g. fq_cmp (fq_key fl f) (fq_key fl g))"
  by (simp add: fun_eq_iff compare_flows_def fq_cmp_def fq_key_def lex_cmp_def Let_def)

lemma fq_cmp_pos: "0 < fq_cmp (fq_key fl f) (fq_key fl g) \<longleftrightarrow>
    fl_time (fl g) < fl_time (fl f) \<or> fl_time (fl g) = fl_time (fl f) \<and> g < f"
  by (auto simp: fq_cmp_def fq_key_def lex_cmp_def B_COMPARE_simps)

text \<open>A tree of flows in the order of their times.\<close>

definition fq_tree_ok :: "(nat \<Rightarrow> fq_flow) \<Rightarrow> nat avl \<Rightarrow> bool" where
  "fq_tree_ok fl t \<longleftrightarrow> avl_ok t
     \<and> sorted_wrt (\<lambda>f g. fl_time (fl f) < fl_time (fl g) \<or> fl_time (fl f) = fl_time (fl g) \<and> f < g) (ainorder t)"

abbreviation fq_set :: "nat avl \<Rightarrow> nat set" where
  "fq_set t \<equiv> set (ainorder t)"

lemma fq_tree_ordered: "fq_tree_ok fl t \<longleftrightarrow> avl_ok t \<and> sorted_wrt (\<lambda>x y. 0 < fq_cmp (fq_key fl y) (fq_key fl x)) (ainorder t)"
  by (simp add: fq_tree_ok_def fq_cmp_pos)

lemma fq_insert:
  assumes "fq_tree_ok fl t" "f \<notin> fq_set t"
  shows "\<exists>t'. CAvl_Insert (compare_flows fl) t f = Some (t', True) \<and> fq_tree_ok fl t' \<and> fq_set t' = insert f (fq_set t)"
proof -
  have "fq_key fl f \<notin> fq_key fl ` fq_set t" using assms(2) by (auto simp: fq_key_def)
  then show ?thesis using fo.insert_fresh [of t "fq_key fl" f] assms(1)
    unfolding fq_tree_ordered compare_flows_key CAvl_Insert_BAVL by blast
qed

lemma fq_remove:
  assumes "fq_tree_ok fl t" "f \<in> fq_set t"
  shows "\<exists>t'. CAvl_Remove t f = Some t' \<and> fq_tree_ok fl t' \<and> fq_set t' = fq_set t - {f}"
  using fo.remove_present [of t "fq_key fl" f] assms unfolding fq_tree_ordered CAvl_Remove_BAVL by blast

lemma fq_first:
  assumes "fq_tree_ok fl t"
  shows "CAvl_GetFirst t = None \<Longrightarrow> t = Lf"
    and "CAvl_GetFirst t = Some f \<Longrightarrow> f \<in> fq_set t \<and> (\<forall>g\<in>fq_set t. fl_time (fl f) \<le> fl_time (fl g))"
proof -
  show "CAvl_GetFirst t = None \<Longrightarrow> t = Lf"
    by (cases t) (auto simp: CAvl_GetFirst_inorder simp del: CAvl_GetFirst.simps split: list.splits)
  show "f \<in> fq_set t \<and> (\<forall>g\<in>fq_set t. fl_time (fl f) \<le> fl_time (fl g))" if "CAvl_GetFirst t = Some f"
    using that assms by (auto simp: CAvl_GetFirst_inorder fq_tree_ok_def split: list.splits)
qed

lemma fq_tree_cong:
  assumes "fq_tree_ok fl t" "\<And>f g. f \<in> fq_set t \<Longrightarrow> g \<in> fq_set t \<Longrightarrow>
      (fl_time (fl' f) < fl_time (fl' g) \<longleftrightarrow> fl_time (fl f) < fl_time (fl g))
      \<and> (fl_time (fl' f) = fl_time (fl' g) \<longleftrightarrow> fl_time (fl f) = fl_time (fl g))"
  shows "fq_tree_ok fl' t"
  using assms unfolding fq_tree_ok_def by (auto intro: sorted_wrt_mono_rel [rotated])

section \<open>Taking time off all flows\<close>

definition less_time :: "usize \<Rightarrow> nat \<Rightarrow> nat \<Rightarrow> fq_flow \<Rightarrow> fq_flow" where
  "less_time s flow f x = x\<lparr>fl_time := if s > fl_time x \<and> f \<noteq> flow then 0 else fl_time x - s\<rparr>"

lemma fq_subtract_walk:
  assumes "dll l (as @ bs)"
  shows "fq_subtract l s flow (first_or bs None) fl = Some (\<lambda>f. if f \<in> set bs then less_time s flow f (fl f) else fl f)"
  using assms
proof (induction bs arbitrary: as fl)
  case Nil
  then show ?case by (subst fq_subtract.simps) simp
next
  case (Cons b bs)
  have n: "LinkedList1Node_Next l b = first_or bs None"
    using dll_next [OF Cons.prems] by (simp add: LinkedList1Node_Next_def hev_list_node_next_def)
  have b: "b \<notin> set bs" using Cons.prems by (simp add: dll_def)
  let ?fl = "fl(b := less_time s flow b (fl b))"
  have "fq_subtract l s flow (first_or (b # bs) None) fl = fq_subtract l s flow (first_or bs None) ?fl"
    by (subst fq_subtract.simps) (auto simp: n less_time_def)
  also have "\<dots> = Some (\<lambda>f. if f \<in> set bs then less_time s flow f (?fl f) else ?fl f)"
    using Cons.IH [of "as @ [b]"] Cons.prems by simp
  also have "(\<lambda>f. if f \<in> set bs then less_time s flow f (?fl f) else ?fl f)
      = (\<lambda>f. if f \<in> set (b # bs) then less_time s flow f (fl f) else fl f)" using b by auto
  finally show ?case .
qed

lemma uint_max_time: "uint FAIRQUEUE_MAX_TIME = 2 ^ 64 - 1"
  by (simp add: uint_word_ariths)

lemma uint_time_range: "0 \<le> uint (t :: usize)" "uint (t :: usize) < 2 ^ 64"
  using uint_lt2p [of t] by simp_all

lemma overflow_test: "(a :: usize) > FAIRQUEUE_MAX_TIME - t \<longleftrightarrow> uint t + uint a > 2 ^ 64 - 1"
proof -
  have "uint (FAIRQUEUE_MAX_TIME - t) = 2 ^ 64 - 1 - uint t"
    using uint_sub_lem [of t FAIRQUEUE_MAX_TIME] uint_max_time uint_time_range(2) [of t] by simp
  then show ?thesis by (auto simp: word_less_def)
qed

lemma uint_shifted:
  assumes "0 \<le> uint t - uint s + uint a" "uint t - uint s + uint a < 2 ^ 64"
  shows "uint (t - s + a :: usize) = uint t - uint s + uint a"
proof -
  have "t - s + a = word_of_int (uint t - uint s + uint a)" by simp
  then have "uint (t - s + a) = (uint t - uint s + uint a) mod 2 ^ 64"
    using uint_word_of_int [of "uint t - uint s + uint a", where 'a = 64] by simp
  then show ?thesis using assms by simp
qed

lemma uint_less_time:
  "f \<noteq> flow \<Longrightarrow> uint (fl_time (less_time s flow f x)) \<ge> uint (fl_time x) - uint s"
  "s \<le> fl_time x \<Longrightarrow> uint (fl_time (less_time s flow f x)) = uint (fl_time x) - uint s"
proof -
  show eq: "uint (fl_time (less_time s flow f x)) = uint (fl_time x) - uint s" if "s \<le> fl_time x"
    using that uint_sub_lem [of s "fl_time x"] by (auto simp: less_time_def word_le_def word_less_def)
  show "uint (fl_time (less_time s flow f x)) \<ge> uint (fl_time x) - uint s" if "f \<noteq> flow"
    using eq that by (cases "s \<le> fl_time x") (auto simp: less_time_def word_less_def word_le_def)
qed

text \<open>
  How the times change when a flow has sent, as integers: all of them may be reduced by one amount, \<open>shift\<close>, but
  the order of the queued flows and their distances to the flow that sent are kept.  Without a queued flow the amount is
  no more than the time of the flow that sent, so none of the times has wrapped around.
\<close>

definition times_after :: "(nat \<Rightarrow> fq_flow) \<Rightarrow> (nat \<Rightarrow> fq_flow) \<Rightarrow> nat list \<Rightarrow> nat avl \<Rightarrow> nat \<Rightarrow> int \<Rightarrow> int \<Rightarrow> bool" where
  "times_after fl fl' xs t flow amount shift \<longleftrightarrow>
     uint (fl_time (fl' flow)) = uint (fl_time (fl flow)) - shift + amount
     \<and> (\<forall>g\<in>fq_set t. uint (fl_time (fl' g)) = uint (fl_time (fl g)) - shift)
     \<and> (\<forall>g\<in>set xs. g \<noteq> flow \<longrightarrow> uint (fl_time (fl g)) - shift \<le> uint (fl_time (fl' g)))
     \<and> (\<forall>g. fl' g = (fl g)\<lparr>fl_time := fl_time (fl' g)\<rparr>) \<and> (t = Lf \<longrightarrow> shift \<le> uint (fl_time (fl flow)))"

lemma increment_plain:
  assumes "\<not> amount > FAIRQUEUE_MAX_TIME - fq_time m flow" "flow \<notin> fq_set t"
  shows "increment_sent_flow m flow amount = Some (fq_upd flow (\<lambda>x. x\<lparr>fl_time := fl_time x + amount\<rparr>) m)"
    and "times_after (fq_flows m) (fq_flows (fq_upd flow (\<lambda>x. x\<lparr>fl_time := fl_time x + amount\<rparr>) m)) xs t flow (uint amount) 0"
proof -
  show "increment_sent_flow m flow amount = Some (fq_upd flow (\<lambda>x. x\<lparr>fl_time := fl_time x + amount\<rparr>) m)"
    using assms by (simp add: increment_sent_flow_def)
  have "uint (fq_time m flow) + uint amount < 2 ^ 64" using assms(1) unfolding overflow_test by simp
  then have "uint (fl_time (fq_flows m flow) + amount) = uint (fl_time (fq_flows m flow)) + uint amount"
    using uint_add_lem [of "fl_time (fq_flows m flow)" amount] by (simp add: fq_time_def)
  then show "times_after (fq_flows m) (fq_flows (fq_upd flow (\<lambda>x. x\<lparr>fl_time := fl_time x + amount\<rparr>) m)) xs t flow (uint amount) 0"
    using assms(2) by (auto simp: times_after_def fq_upd_def)
qed

lemma increment_overflow:
  assumes d: "dll (fq_list m) xs" and t: "fq_tree_ok (fq_flows m) (fq_tree m)" "fq_set (fq_tree m) \<subseteq> set xs"
    and f: "flow \<in> set xs" "flow \<notin> fq_set (fq_tree m)" "\<forall>g\<in>fq_set (fq_tree m). fq_time m flow \<le> fq_time m g"
    and o: "amount > FAIRQUEUE_MAX_TIME - fq_time m flow"
  shows "\<exists>fl' shift. increment_sent_flow m flow amount = Some (m\<lparr>fq_flows := fl'\<rparr>) \<and> 0 \<le> shift
    \<and> times_after (fq_flows m) fl' xs (fq_tree m) flow (uint amount) shift"
proof -
  define s where "s = (case CAvl_GetFirst (fq_tree m) of None \<Rightarrow> fq_time m flow | Some f \<Rightarrow> fq_time m f)"
  have s: "fq_time m flow \<le> s" "\<forall>g\<in>fq_set (fq_tree m). s \<le> fq_time m g"
    using fq_first [OF t(1)] f(3) by (auto simp: s_def fq_time_def split: option.splits)
  let ?fl = "\<lambda>f. if f \<in> set xs then less_time s flow f (fq_flows m f) else fq_flows m f"
  let ?fl' = "?fl(flow := (?fl flow)\<lparr>fl_time := fl_time (?fl flow) + amount\<rparr>)"
  have "fq_subtract (fq_list m) s flow (LinkedList1_GetFirst (fq_list m)) (fq_flows m) = Some ?fl"
    using fq_subtract_walk [of "fq_list m" "[]" xs s flow "fq_flows m"] d by (simp add: LinkedList1_GetFirst_def dll_def)
  then have i: "increment_sent_flow m flow amount = Some (m\<lparr>fq_flows := ?fl'\<rparr>)"
    using o by (simp add: increment_sent_flow_def s_def [symmetric] Let_def fq_upd_def)
  have "uint (fl_time (fq_flows m flow)) - uint s + uint amount < 2 ^ 64" "0 \<le> uint (fl_time (fq_flows m flow)) - uint s + uint amount"
    using s(1) o uint_time_range [of amount] uint_time_range [of s] unfolding overflow_test
    by (auto simp: word_le_def fq_time_def)
  then have "uint (fl_time (fq_flows m flow) - s + amount) = uint (fl_time (fq_flows m flow)) - uint s + uint amount"
    by (intro uint_shifted) auto
  then have own: "uint (fl_time (?fl' flow)) = uint (fl_time (fq_flows m flow)) - uint s + uint amount"
    using f(1) by (simp add: less_time_def)
  have "uint (fl_time (?fl' g)) = uint (fl_time (fq_flows m g)) - uint s" if "g \<in> fq_set (fq_tree m)" for g
    using that f(2) t(2) s(2) uint_less_time(2) by (auto simp: fq_time_def)
  moreover have "uint (fl_time (fq_flows m g)) - uint s \<le> uint (fl_time (?fl' g))" if "g \<in> set xs" "g \<noteq> flow" for g
    using that uint_less_time(1) by simp
  moreover have "?fl' g = (fq_flows m g)\<lparr>fl_time := fl_time (?fl' g)\<rparr>" for g by (simp add: less_time_def)
  moreover have "fq_tree m = Lf \<Longrightarrow> uint s \<le> uint (fl_time (fq_flows m flow))" by (simp add: s_def fq_time_def)
  ultimately have "times_after (fq_flows m) ?fl' xs (fq_tree m) flow (uint amount) (uint s)"
    using own unfolding times_after_def by blast
  then show ?thesis using i uint_time_range(1) by blast
qed

lemma increment_ok:
  assumes "dll (fq_list m) xs" "fq_tree_ok (fq_flows m) (fq_tree m)" "fq_set (fq_tree m) \<subseteq> set xs"
    and "flow \<in> set xs" "flow \<notin> fq_set (fq_tree m)" "\<forall>g\<in>fq_set (fq_tree m). fq_time m flow \<le> fq_time m g"
  obtains fl' shift where "increment_sent_flow m flow amount = Some (m\<lparr>fq_flows := fl'\<rparr>)" "0 \<le> shift"
    "times_after (fq_flows m) fl' xs (fq_tree m) flow (uint amount) shift" "fq_tree_ok fl' (fq_tree m)"
proof -
  have "\<exists>fl' shift. increment_sent_flow m flow amount = Some (m\<lparr>fq_flows := fl'\<rparr>) \<and> 0 \<le> shift
    \<and> times_after (fq_flows m) fl' xs (fq_tree m) flow (uint amount) shift"
  proof (cases "amount > FAIRQUEUE_MAX_TIME - fq_time m flow")
    case True
    then show ?thesis by (rule increment_overflow [OF assms])
  next
    case False
    from increment_plain [OF this assms(5)] show ?thesis by (intro exI [of _ "fq_flows (fq_upd flow _ m)"] exI [of _ 0]) (auto simp: fq_upd_def)
  qed
  then obtain fl' shift where i: "increment_sent_flow m flow amount = Some (m\<lparr>fq_flows := fl'\<rparr>)" "0 \<le> shift"
    "times_after (fq_flows m) fl' xs (fq_tree m) flow (uint amount) shift" by blast
  have "fq_tree_ok fl' (fq_tree m)"
    by (rule fq_tree_cong [OF assms(2)]) (use i(3) in \<open>auto simp: times_after_def word_less_def word_uint_eq_iff\<close>)
  with i show thesis by (rule that)
qed

section \<open>The invariant of the queue\<close>

definition fq_sending_ok :: "int \<Rightarrow> nat list \<Rightarrow> fair_queue \<Rightarrow> bool" where
  "fq_sending_ok mtu xs m \<longleftrightarrow>
     (case fq_sending m of
        None \<Rightarrow> fq_output m = None \<and> (fq_tree m \<noteq> Lf \<longrightarrow> fq_job m)
      | Some s \<Rightarrow> s \<in> set xs \<and> \<not> fl_is_queued (fq_flows m s) \<and> fq_previous m = None \<and> \<not> fq_job m \<and> fq_output m \<noteq> None
          \<and> 0 \<le> fq_sending_len m \<and> fq_sending_len m \<le> mtu \<and> (\<forall>g\<in>fq_set (fq_tree m). fq_time m s \<le> fq_time m g))
     \<and> (case fq_previous m of None \<Rightarrow> True | Some p \<Rightarrow> p \<in> set xs \<and> \<not> fl_is_queued (fq_flows m p) \<and> fq_job m)"

definition fq_queued_ok :: "int \<Rightarrow> nat list \<Rightarrow> fair_queue \<Rightarrow> bool" where
  "fq_queued_ok mtu xs m \<longleftrightarrow>
     fq_tree_ok (fq_flows m) (fq_tree m) \<and> fq_set (fq_tree m) = {f \<in> set xs. fl_is_queued (fq_flows m f)}
     \<and> (\<forall>f\<in>fq_set (fq_tree m). 0 \<le> fl_data_len (fq_flows m f) \<and> fl_data_len (fq_flows m f) \<le> mtu)"

definition fq_inv :: "int \<Rightarrow> nat list \<Rightarrow> fair_queue \<Rightarrow> bool" where
  "fq_inv mtu xs m \<longleftrightarrow> dll (fq_list m) xs \<and> 0 < fq_weight m \<and> 0 \<le> mtu \<and> fq_weight m + mtu < 2 ^ 64
     \<and> fq_queued_ok mtu xs m \<and> fq_sending_ok mtu xs m"

lemmas fq_inv_defs = fq_inv_def fq_queued_ok_def fq_sending_ok_def

lemma fq_set_nil: "fq_set t = {} \<longleftrightarrow> t = Lf"
  by (cases t) auto

lemma fq_tree_same_times: "(\<And>f. f \<in> fq_set t \<Longrightarrow> fl_time (fl' f) = fl_time (fl f)) \<Longrightarrow> fq_tree_ok fl t \<Longrightarrow> fq_tree_ok fl' t"
  by (rule fq_tree_cong) auto

lemma fq_init_inv:
  assumes "PacketPassFairQueue_Init mem nodes mtu uc w = Some m" "0 \<le> mtu" "0 < w"
  shows "fq_inv mtu [] m"
  using assms dll_Init [of nodes] uint_max_time
  by (auto simp: PacketPassFairQueue_Init_def fq_inv_defs fq_tree_ok_def split: if_splits)

text \<open>Scheduling takes the flow with the least time.\<close>

lemma schedule_ok:
  assumes q: "fq_queued_ok mtu xs m" and t: "fq_tree m \<noteq> Lf" and p: "fq_previous m = None" "\<not> fq_job m"
  obtains s m' where "schedule m = Some m'" "s \<in> fq_set (fq_tree m)" "\<forall>g\<in>fq_set (fq_tree m). fq_time m s \<le> fq_time m g"
    "fq_sending m' = Some s" "fq_queued_ok mtu xs m'" "fq_sending_ok mtu xs m'"
    "\<forall>g. fq_time m' g = fq_time m g" "fq_list m' = fq_list m" "fq_weight m' = fq_weight m"
    "\<forall>g. fl_is_queued (fq_flows m' g) \<longleftrightarrow> g \<noteq> s \<and> fl_is_queued (fq_flows m g)"
proof -
  have ok: "fq_tree_ok (fq_flows m) (fq_tree m)" and st: "fq_set (fq_tree m) = {f \<in> set xs. fl_is_queued (fq_flows m f)}"
    using q by (simp_all add: fq_queued_ok_def)
  obtain s where s: "CAvl_GetFirst (fq_tree m) = Some s" "s \<in> fq_set (fq_tree m)" "\<forall>g\<in>fq_set (fq_tree m). fq_time m s \<le> fq_time m g"
    using fq_first [OF ok] t by (cases "CAvl_GetFirst (fq_tree m)") (auto simp: fq_time_def)
  obtain t' where t': "CAvl_Remove (fq_tree m) s = Some t'" "fq_tree_ok (fq_flows m) t'" "fq_set t' = fq_set (fq_tree m) - {s}"
    using fq_remove [OF ok s(2)] by blast
  let ?m = "(fq_upd s (\<lambda>x. x\<lparr>fl_is_queued := False\<rparr>) m)\<lparr>fq_tree := t', fq_output := Some (fl_data (fq_flows m s)),
    fq_sending := Some s, fq_sending_len := fl_data_len (fq_flows m s)\<rparr>"
  have "fq_tree_ok (fq_flows ?m) t'" by (rule fq_tree_same_times [OF _ t'(2)]) (simp add: fq_upd_def)
  then have "fq_queued_ok mtu xs ?m" using q t'(3) st by (auto simp: fq_queued_ok_def fq_upd_def)
  moreover have "fq_sending_ok mtu xs ?m"
    using s(2,3) t'(3) st p q by (auto simp: fq_sending_ok_def fq_upd_def fq_time_def fq_queued_ok_def)
  moreover have "schedule m = Some ?m" using s(1) t'(1) by (simp add: schedule_def)
  ultimately show thesis by (intro that [of ?m s]) (use s in \<open>simp_all add: fq_upd_def fq_time_def\<close>)
qed

lemma fq_job_inv:
  assumes i: "fq_inv mtu xs m" and j: "fq_job m"
  shows "\<exists>m'. fq_step FqJob m = Some m' \<and> fq_inv mtu xs m' \<and> (\<forall>g. fq_time m' g = fq_time m g) \<and> fq_weight m' = fq_weight m"
proof -
  let ?m = "m\<lparr>fq_job := False, fq_previous := None\<rparr>"
  have n: "fq_sending m = None" using i j by (auto simp: fq_inv_defs split: option.splits)
  have q: "fq_queued_ok mtu xs ?m" using i by (simp add: fq_inv_defs)
  show ?thesis
  proof (cases "fq_tree m = Lf")
    case True
    have "fq_inv mtu xs ?m" using i n True q by (simp add: fq_inv_def fq_sending_ok_def)
    then show ?thesis using True by (simp add: schedule_job_handler_def CAvl_IsEmpty_def fq_time_def)
  next
    case False
    obtain s m' where "schedule ?m = Some m'" "fq_queued_ok mtu xs m'" "fq_sending_ok mtu xs m'"
      "\<forall>g. fq_time m' g = fq_time ?m g" "fq_list m' = fq_list ?m" "fq_weight m' = fq_weight ?m"
      by (rule schedule_ok [OF q]) (use False in simp_all)
    then show ?thesis using i False
      by (intro exI [of _ m']) (simp add: schedule_job_handler_def CAvl_IsEmpty_def fq_inv_def fq_time_def)
  qed
qed

lemma fq_queuedD:
  assumes "fq_queued_ok mtu xs m"
  shows "fq_tree_ok (fq_flows m) (fq_tree m)" "\<And>f. f \<in> fq_set (fq_tree m) \<longleftrightarrow> f \<in> set xs \<and> fl_is_queued (fq_flows m f)"
    "\<And>f. f \<in> fq_set (fq_tree m) \<Longrightarrow> 0 \<le> fl_data_len (fq_flows m f) \<and> fl_data_len (fq_flows m f) \<le> mtu"
  using assms unfolding fq_queued_ok_def by blast+

lemma fq_queuedI:
  assumes "fq_tree_ok (fq_flows m) (fq_tree m)" "\<And>f. f \<in> fq_set (fq_tree m) \<longleftrightarrow> f \<in> set xs \<and> fl_is_queued (fq_flows m f)"
    "\<And>f. f \<in> fq_set (fq_tree m) \<Longrightarrow> 0 \<le> fl_data_len (fq_flows m f) \<and> fl_data_len (fq_flows m f) \<le> mtu"
  shows "fq_queued_ok mtu xs m"
  using assms unfolding fq_queued_ok_def by blast

text \<open>What happens to objects that are not flows of the queue does not matter to it.\<close>

lemma fq_inv_agree:
  assumes i: "fq_inv mtu xs m" and e: "\<And>g. g \<in> set xs \<Longrightarrow> fl g = fq_flows m g"
  shows "fq_inv mtu xs (m\<lparr>fq_flows := fl\<rparr>)"
proof -
  have q: "fq_queued_ok mtu xs m" and so: "fq_sending_ok mtu xs m" using i by (simp_all add: fq_inv_def)
  note D = fq_queuedD [OF q]
  have t: "fl g = fq_flows m g" if "g \<in> fq_set (fq_tree m)" for g using that D(2) e by blast
  have "fq_tree_ok fl (fq_tree m)" by (rule fq_tree_same_times [OF _ D(1)]) (simp add: t)
  then have "fq_queued_ok mtu xs (m\<lparr>fq_flows := fl\<rparr>)" by (intro fq_queuedI) (use D t e in auto)
  moreover have "fq_sending_ok mtu xs (m\<lparr>fq_flows := fl\<rparr>)"
    using so t e by (auto simp: fq_sending_ok_def fq_time_def split: option.splits)
  ultimately show ?thesis using i by (simp add: fq_inv_def)
qed

lemma fq_new_inv:
  assumes i: "fq_inv mtu xs m" and f: "f \<notin> set xs"
  shows "fq_inv mtu (xs @ [f]) (PacketPassFairQueueFlow_Init m f)" "\<forall>g\<in>set xs. fq_time (PacketPassFairQueueFlow_Init m f) g = fq_time m g"
proof -
  define fl where "fl = (fq_flows m)(f := (fq_flows m f)\<lparr>fl_handler_busy := False, fl_time := 0, fl_is_queued := False\<rparr>)"
  have m: "PacketPassFairQueueFlow_Init m f = (m\<lparr>fq_flows := fl\<rparr>)\<lparr>fq_list := LinkedList1_Append (fq_list m) f\<rparr>"
    by (simp add: PacketPassFairQueueFlow_Init_def fq_upd_def fl_def)
  have "fq_inv mtu xs (m\<lparr>fq_flows := fl\<rparr>)" by (rule fq_inv_agree [OF i]) (use f in \<open>auto simp: fl_def\<close>)
  moreover have "\<not> fl_is_queued (fl f)" by (simp add: fl_def)
  moreover have "dll (LinkedList1_Append (fq_list m) f) (xs @ [f])"
    using l1.holds_add_tail [of "fq_list m" xs f] i f by (simp add: fq_inv_def)
  ultimately show "fq_inv mtu (xs @ [f]) (PacketPassFairQueueFlow_Init m f)"
    unfolding m fq_inv_def fq_queued_ok_def fq_sending_ok_def by (auto simp: fq_time_def split: option.splits)
  show "\<forall>g\<in>set xs. fq_time (PacketPassFairQueueFlow_Init m f) g = fq_time m g"
    using f by (auto simp: m fl_def fq_time_def)
qed

lemma fq_free_inv:
  assumes i: "fq_inv mtu xs m" and f: "f \<in> set xs" "fq_sending m \<noteq> Some f"
  shows "\<exists>m'. PacketPassFairQueueFlow_Free m f = Some m' \<and> fq_inv mtu (remove1 f xs) m' \<and> (\<forall>g. fq_time m' g = fq_time m g)
    \<and> fq_weight m' = fq_weight m"
proof -
  let ?m = "m\<lparr>fq_previous := (if fq_previous m = Some f then None else fq_previous m)\<rparr>"
  have ok: "fq_tree_ok (fq_flows m) (fq_tree m)" and st: "fq_set (fq_tree m) = {g \<in> set xs. fl_is_queued (fq_flows m g)}"
    and dl: "dll (fq_list m) xs" using i by (simp_all add: fq_inv_defs)
  have "\<exists>t'. (if fl_is_queued (fq_flows m f) then CAvl_Remove (fq_tree m) f else Some (fq_tree m)) = Some t'
      \<and> fq_tree_ok (fq_flows m) t' \<and> fq_set t' = fq_set (fq_tree m) - {f}"
    using fq_remove [OF ok, of f] ok st f(1) by auto
  then obtain t' where t': "(if fl_is_queued (fq_flows m f) then CAvl_Remove (fq_tree m) f else Some (fq_tree m)) = Some t'"
    "fq_tree_ok (fq_flows m) t'" "fq_set t' = fq_set (fq_tree m) - {f}" by blast
  let ?m' = "?m\<lparr>fq_tree := t', fq_list := LinkedList1_Remove (fq_list m) f\<rparr>"
  have d: "dll (LinkedList1_Remove (fq_list m) f) (remove1 f xs)" "set (remove1 f xs) = set xs - {f}"
    using l1.holds_del [OF dl f(1)] l1.holds_distinct [OF dl] by simp_all
  have "fq_queued_ok mtu xs m" using i by (simp add: fq_inv_def)
  note D = fq_queuedD [OF this]
  have "fq_queued_ok mtu (remove1 f xs) ?m'" by (rule fq_queuedI) (use t'(2,3) d(2) D(2,3) in auto)
  moreover have "fq_sending_ok mtu (remove1 f xs) ?m'"
  proof -
    have so: "fq_sending_ok mtu xs m" using i by (simp add: fq_inv_def)
    have tl: "t' \<noteq> Lf \<Longrightarrow> fq_tree m \<noteq> Lf" using t'(3) fq_set_nil [of t'] by (cases "fq_tree m = Lf") simp_all
    show ?thesis
    proof (cases "fq_sending m")
      case None
      then show ?thesis using so tl f(2) d(2) unfolding fq_sending_ok_def by (auto split: option.splits)
    next
      case (Some s)
      then show ?thesis using so f(2) d(2) t'(3) unfolding fq_sending_ok_def by (simp add: fq_time_def)
    qed
  qed
  ultimately have "fq_inv mtu (remove1 f xs) ?m'" using i d(1) by (simp add: fq_inv_def)
  moreover have "PacketPassFairQueueFlow_Free m f = Some ?m'"
  proof (cases "fl_is_queued (fq_flows m f)")
    case True
    then show ?thesis using t'(1) f(2) by (auto simp: PacketPassFairQueueFlow_Free_def Let_def)
  next
    case False
    then show ?thesis using t'(1) f(2) by (auto simp: PacketPassFairQueueFlow_Free_def Let_def)
  qed
  ultimately show ?thesis by (auto simp: fq_time_def)
qed

lemma current_time_sending: "fq_sending m = Some s \<Longrightarrow> get_current_time m = fq_time m s"
  by (simp add: get_current_time_def)

text \<open>Before it is queued, a flow's time rises to the current time unless the flow was just sent.\<close>

definition fq_raised :: "fair_queue \<Rightarrow> nat \<Rightarrow> usize" where
  "fq_raised m f = (if fq_previous m = Some f then fq_time m f else max (fq_time m f) (get_current_time m))"

lemma fq_enqueue:
  assumes i: "fq_inv mtu xs m" and f: "f \<in> set xs" "fq_sending m \<noteq> Some f" "\<not> fl_is_queued (fq_flows m f)" "int (length data) \<le> mtu"
  obtains m3 where "fq_input_handler_send m f data (int (length data))
      = (if fq_sending m3 = None \<and> \<not> fq_job m3 then schedule m3 else Some m3)"
    "fq_queued_ok mtu xs m3" "fq_tree m3 \<noteq> Lf" "fq_previous m3 = (if fq_previous m = Some f then None else fq_previous m)"
    "fq_time m3 f = fq_raised m f" "\<forall>g. g \<noteq> f \<longrightarrow> fq_flows m3 g = fq_flows m g" "fq_set (fq_tree m3) = insert f (fq_set (fq_tree m))"
    "fq_sending m3 = fq_sending m" "fq_job m3 = fq_job m" "fq_list m3 = fq_list m" "fq_weight m3 = fq_weight m"
    "fq_output m3 = fq_output m" "fq_sending_len m3 = fq_sending_len m" "fl_is_queued (fq_flows m3 f)"
proof -
  have ok: "fq_tree_ok (fq_flows m) (fq_tree m)" and st: "fq_set (fq_tree m) = {g \<in> set xs. fl_is_queued (fq_flows m g)}"
    using i by (simp_all add: fq_inv_defs)
  define fl where "fl = (fq_flows m)(f := (fq_flows m f)\<lparr>fl_time := fq_raised m f, fl_data := data, fl_data_len := int (length data)\<rparr>)"
  have nf: "f \<notin> fq_set (fq_tree m)" using st f(3) by simp
  have "fq_tree_ok fl (fq_tree m)" by (rule fq_tree_same_times [OF _ ok]) (use nf in \<open>auto simp: fl_def\<close>)
  then obtain t where t: "CAvl_Insert (compare_flows fl) (fq_tree m) f = Some (t, True)" "fq_tree_ok fl t" "fq_set t = insert f (fq_set (fq_tree m))"
    using fq_insert [OF _ nf] by blast
  define m3 where "m3 = m\<lparr>fq_previous := (if fq_previous m = Some f then None else fq_previous m),
      fq_flows := fl(f := (fl f)\<lparr>fl_is_queued := True\<rparr>), fq_tree := t\<rparr>"
  have send: "fq_input_handler_send m f data (int (length data)) = (if fq_sending m3 = None \<and> \<not> fq_job m3 then schedule m3 else Some m3)"
    using t(1) unfolding m3_def
    by (cases "fq_previous m = Some f") (simp_all add: fq_input_handler_send_def fq_upd_def fl_def fq_raised_def fq_time_def Let_def)
  have "fq_tree_ok (fq_flows m3) t" by (rule fq_tree_same_times [OF _ t(2)]) (simp add: m3_def)
  then have q: "fq_queued_ok mtu xs m3"
    using i f st t(3) by (auto simp: fq_inv_def fq_queued_ok_def m3_def fl_def)
  show thesis
    by (rule that [OF send q]) (use t(3) in \<open>auto simp: m3_def fl_def fq_time_def\<close>)
qed

lemma fq_send_inv:
  assumes i: "fq_inv mtu xs m" and f: "f \<in> set xs" "fq_sending m \<noteq> Some f" "\<not> fl_is_queued (fq_flows m f)" "int (length data) \<le> mtu"
  shows "\<exists>m'. fq_step (FqSend f data) m = Some m' \<and> fq_inv mtu xs m' \<and> fq_time m' f = fq_raised m f
    \<and> (\<forall>g. g \<noteq> f \<longrightarrow> fq_time m' g = fq_time m g) \<and> fq_weight m' = fq_weight m"
proof -
  have so: "fq_sending_ok mtu xs m" and dl: "dll (fq_list m) xs" "0 < fq_weight m" "0 \<le> mtu" "fq_weight m + mtu < 2 ^ 64"
    using i by (simp_all add: fq_inv_def)
  obtain m3 where m3: "fq_input_handler_send m f data (int (length data))
      = (if fq_sending m3 = None \<and> \<not> fq_job m3 then schedule m3 else Some m3)"
    "fq_queued_ok mtu xs m3" "fq_tree m3 \<noteq> Lf" "fq_previous m3 = (if fq_previous m = Some f then None else fq_previous m)"
    "fq_time m3 f = fq_raised m f" "\<forall>g. g \<noteq> f \<longrightarrow> fq_flows m3 g = fq_flows m g" "fq_set (fq_tree m3) = insert f (fq_set (fq_tree m))"
    "fq_sending m3 = fq_sending m" "fq_job m3 = fq_job m" "fq_list m3 = fq_list m" "fq_weight m3 = fq_weight m"
    "fq_output m3 = fq_output m" "fq_sending_len m3 = fq_sending_len m" "fl_is_queued (fq_flows m3 f)"
    by (rule fq_enqueue [OF i f])
  have tm: "\<forall>g. g \<noteq> f \<longrightarrow> fq_time m3 g = fq_time m g" using m3(6) by (simp add: fq_time_def)
  show ?thesis
  proof (cases "fq_sending m = None \<and> \<not> fq_job m")
    case True
    then have p: "fq_previous m3 = None" using so m3(4) by (auto simp: fq_sending_ok_def split: option.splits)
    obtain s m' where "schedule m3 = Some m'" "fq_queued_ok mtu xs m'" "fq_sending_ok mtu xs m'"
      "\<forall>g. fq_time m' g = fq_time m3 g" "fq_list m' = fq_list m3" "fq_weight m' = fq_weight m3"
      by (rule schedule_ok [OF m3(2,3) p]) (use True m3(9) in simp_all)
    then show ?thesis using True m3 dl tm by (intro exI [of _ m']) (simp add: fq_inv_def)
  next
    case False
    have "fq_sending_ok mtu xs m3"
    proof (cases "fq_sending m")
      case None
      then show ?thesis using so m3 False unfolding fq_sending_ok_def by (auto split: option.splits)
    next
      case (Some s)
      then have s: "s \<noteq> f" "fq_previous m = None" "\<forall>g\<in>fq_set (fq_tree m). fq_time m s \<le> fq_time m g"
        using so f(2) by (auto simp: fq_sending_ok_def)
      then have "fq_time m s \<le> fq_raised m f" using Some by (simp add: fq_raised_def current_time_sending)
      then have "fq_time m s \<le> fq_time m3 g" if "g \<in> insert f (fq_set (fq_tree m))" for g
        using s(3) tm m3(5) that by (cases "g = f") auto
      then show ?thesis using so m3 Some s(1,2) tm unfolding fq_sending_ok_def by auto
    qed
    moreover have "fq_step (FqSend f data) m = Some m3" using False m3(1,8,9) by auto
    ultimately show ?thesis using m3(2,5,10,11) dl tm by (intro exI [of _ m3]) (simp add: fq_inv_def)
  qed
qed

text \<open>What a finished packet costs its flow.\<close>

lemma fq_done_inv:
  assumes i: "fq_inv mtu xs m" and s: "fq_sending m = Some s"
  shows "\<exists>m' shift. fq_step FqDone m = Some m' \<and> fq_inv mtu xs m' \<and> 0 \<le> shift
    \<and> times_after (fq_flows m) ((fq_flows m')(s := (fq_flows m' s)\<lparr>fl_handler_busy := fl_handler_busy (fq_flows m s)\<rparr>)) xs (fq_tree m) s
        (fq_weight m + fq_sending_len m) shift
    \<and> fq_weight m' = fq_weight m \<and> fq_tree m' = fq_tree m"
proof -
  have q: "fq_queued_ok mtu xs m" and so: "fq_sending_ok mtu xs m" and dl: "dll (fq_list m) xs"
    and w: "0 < fq_weight m" "0 \<le> mtu" "fq_weight m + mtu < 2 ^ 64" using i by (simp_all add: fq_inv_def)
  note D = fq_queuedD [OF q]
  have sx: "s \<in> set xs" "\<not> fl_is_queued (fq_flows m s)" "0 \<le> fq_sending_len m" "fq_sending_len m \<le> mtu"
    "\<forall>g\<in>fq_set (fq_tree m). fq_time m s \<le> fq_time m g" using so s by (simp_all add: fq_sending_ok_def)
  let ?a = "word_of_int (fq_weight m + fq_sending_len m) :: usize"
  have a: "uint ?a = fq_weight m + fq_sending_len m" using w sx(3,4) by (simp add: uint_word_of_int del: of_int_add)
  let ?m = "m\<lparr>fq_sending := None, fq_previous := Some s, fq_output := None\<rparr>"
  obtain fl' shift where f: "increment_sent_flow ?m s ?a = Some (?m\<lparr>fq_flows := fl'\<rparr>)" "0 \<le> shift"
    "times_after (fq_flows ?m) fl' xs (fq_tree ?m) s (uint ?a) shift" "fq_tree_ok fl' (fq_tree ?m)"
    by (rule increment_ok [of ?m xs s]) (use dl D sx in \<open>auto simp: fq_time_def\<close>)
  let ?m' = "?m\<lparr>fq_flows := fl'(s := (fl' s)\<lparr>fl_handler_busy := False\<rparr>), fq_job := True\<rparr>"
  have step: "fq_step FqDone m = Some ?m'" using s f(1) by (simp add: fq_output_handler_done_def fq_upd_def Let_def)
  have same: "fl_is_queued (fl' g) = fl_is_queued (fq_flows m g)" "fl_data_len (fl' g) = fl_data_len (fq_flows m g)"
    "fl_handler_busy (fl' g) = fl_handler_busy (fq_flows m g)" for g
  proof -
    have e: "fl' g = (fq_flows m g)\<lparr>fl_time := fl_time (fl' g)\<rparr>" using f(3) by (simp add: times_after_def)
    show "fl_is_queued (fl' g) = fl_is_queued (fq_flows m g)" "fl_data_len (fl' g) = fl_data_len (fq_flows m g)"
      "fl_handler_busy (fl' g) = fl_handler_busy (fq_flows m g)" by (subst e, simp)+
  qed
  have "fq_tree_ok (fq_flows ?m') (fq_tree m)" by (rule fq_tree_same_times [of _ _ fl']) (use f(4) in auto)
  then have "fq_queued_ok mtu xs ?m'" by (intro fq_queuedI) (use D(2,3) sx(2) same in auto)
  moreover have "fq_sending_ok mtu xs ?m'" using sx(1,2) same by (simp add: fq_sending_ok_def)
  ultimately have "fq_inv mtu xs ?m'" using dl w by (simp add: fq_inv_def)
  moreover have "(fq_flows ?m')(s := (fq_flows ?m' s)\<lparr>fl_handler_busy := fl_handler_busy (fq_flows m s)\<rparr>) = fl'"
    by (auto simp flip: same(3))
  moreover have "times_after (fq_flows m) fl' xs (fq_tree m) s (fq_weight m + fq_sending_len m) shift" using f(3) a by simp
  ultimately have "times_after (fq_flows m) ((fq_flows ?m')(s := (fq_flows ?m' s)\<lparr>fl_handler_busy := fl_handler_busy (fq_flows m s)\<rparr>))
      xs (fq_tree m) s (fq_weight m + fq_sending_len m) shift \<and> fq_inv mtu xs ?m'" by (simp only: simp_thms)
  then show ?thesis using step f(2) by (intro exI [of _ ?m'] exI [of _ shift]) simp
qed

section \<open>No flow waits for ever\<close>

fun fq_enabled :: "int \<Rightarrow> nat list \<Rightarrow> fq_event \<Rightarrow> fair_queue \<Rightarrow> bool" where
  "fq_enabled mtu xs (FqNew f) m \<longleftrightarrow> f \<notin> set xs"
| "fq_enabled mtu xs (FqFree f) m \<longleftrightarrow> f \<in> set xs \<and> fq_sending m \<noteq> Some f"
| "fq_enabled mtu xs (FqSend f data) m \<longleftrightarrow>
     f \<in> set xs \<and> fq_sending m \<noteq> Some f \<and> \<not> fl_is_queued (fq_flows m f) \<and> int (length data) \<le> mtu"
| "fq_enabled mtu xs FqDone m \<longleftrightarrow> fq_sending m \<noteq> None"
| "fq_enabled mtu xs FqJob m \<longleftrightarrow> fq_job m"

fun fq_nodes :: "fq_event \<Rightarrow> nat list \<Rightarrow> nat list" where
  "fq_nodes (FqNew f) xs = xs @ [f]"
| "fq_nodes (FqFree f) xs = remove1 f xs"
| "fq_nodes _ xs = xs"

fun fq_run :: "fq_event list \<Rightarrow> fair_queue \<Rightarrow> fair_queue option" where
  "fq_run [] m = Some m"
| "fq_run (e # es) m = (case fq_step e m of None \<Rightarrow> None | Some m' \<Rightarrow> fq_run es m')"

fun fq_allowed :: "int \<Rightarrow> nat list \<Rightarrow> fq_event list \<Rightarrow> fair_queue \<Rightarrow> bool" where
  "fq_allowed mtu xs [] m \<longleftrightarrow> True"
| "fq_allowed mtu xs (e # es) m \<longleftrightarrow> fq_enabled mtu xs e m
     \<and> (case fq_step e m of None \<Rightarrow> True | Some m' \<Rightarrow> fq_allowed mtu (fq_nodes e xs) es m')"

text \<open>How far a flow's time is ahead of another's, and what the other is charged in a step.\<close>

definition fq_lag :: "fair_queue \<Rightarrow> nat \<Rightarrow> nat \<Rightarrow> int" where
  "fq_lag m f g = uint (fq_time m f) - uint (fq_time m g)"

definition fq_cost :: "nat \<Rightarrow> fq_event \<Rightarrow> fair_queue \<Rightarrow> int" where
  "fq_cost g e m = (if e = FqDone \<and> fq_sending m = Some g then fq_weight m + fq_sending_len m else 0)"

fun fq_total :: "nat \<Rightarrow> fq_event list \<Rightarrow> fair_queue \<Rightarrow> int" where
  "fq_total g [] m = 0"
| "fq_total g (e # es) m = fq_cost g e m + (case fq_step e m of None \<Rightarrow> 0 | Some m' \<Rightarrow> fq_total g es m')"

text \<open>The flow is queued, and stays queued during the run.\<close>

fun fq_waits :: "nat \<Rightarrow> fq_event list \<Rightarrow> fair_queue \<Rightarrow> bool" where
  "fq_waits f [] m \<longleftrightarrow> fl_is_queued (fq_flows m f)"
| "fq_waits f (e # es) m \<longleftrightarrow> fl_is_queued (fq_flows m f)
     \<and> (case fq_step e m of None \<Rightarrow> True | Some m' \<Rightarrow> fq_waits f es m')"

lemma fq_waits_now: "fq_waits f es m \<Longrightarrow> fl_is_queued (fq_flows m f)"
  by (cases es) auto

lemma fq_step_inv:
  assumes "fq_inv mtu xs m" "fq_enabled mtu xs e m"
  shows "\<exists>m'. fq_step e m = Some m' \<and> fq_inv mtu (fq_nodes e xs) m' \<and> fq_weight m' = fq_weight m"
proof (cases e)
  case (FqNew f)
  then show ?thesis using fq_new_inv(1) [OF assms(1), of f] assms(2)
    by (simp add: PacketPassFairQueueFlow_Init_def fq_upd_def)
next
  case (FqSend f data)
  then show ?thesis using fq_send_inv [OF assms(1), of f data] assms(2) by auto
next
  case FqDone
  then show ?thesis using fq_done_inv [OF assms(1)] assms(2) by auto
next
  case (FqFree f)
  then show ?thesis using fq_free_inv [OF assms(1), of f] assms(2) by auto
qed (use assms fq_job_inv [OF assms(1)] in auto)

lemma fq_done_lag:
  assumes i: "fq_inv mtu xs m" and s: "fq_sending m = Some s" and st: "fq_step FqDone m = Some m'"
    and f: "f \<in> set xs" "fl_is_queued (fq_flows m f)" and g: "g \<in> set xs"
  shows "fq_lag m' f g \<le> fq_lag m f g - fq_cost g FqDone m" "fq_cost g FqDone m > 0 \<Longrightarrow> 0 \<le> fq_lag m f g"
proof -
  obtain shift where t: "times_after (fq_flows m)
      ((fq_flows m')(s := (fq_flows m' s)\<lparr>fl_handler_busy := fl_handler_busy (fq_flows m s)\<rparr>)) xs (fq_tree m) s
      (fq_weight m + fq_sending_len m) shift" using fq_done_inv [OF i s] st by auto
  have "fq_queued_ok mtu xs m" using i by (simp add: fq_inv_def)
  then have fq: "f \<in> fq_set (fq_tree m)" using fq_queuedD(2) f by blast
  have "\<not> fl_is_queued (fq_flows m s)" "fq_time m s \<le> fq_time m f" using i s fq by (simp_all add: fq_inv_def fq_sending_ok_def)
  moreover from this have "f \<noteq> s" using f(2) by auto
  ultimately have le: "uint (fq_time m s) \<le> uint (fq_time m f)" and fs: "f \<noteq> s" by (simp_all add: word_le_def)
  have fl: "uint (fq_time m' f) = uint (fq_time m f) - shift" using t fq fs unfolding times_after_def fq_time_def by fastforce
  show "fq_lag m' f g \<le> fq_lag m f g - fq_cost g FqDone m"
  proof (cases "g = s")
    case True
    then show ?thesis using t s fl by (simp add: times_after_def fq_lag_def fq_cost_def fq_time_def)
  next
    case False
    then have "uint (fq_time m g) - shift \<le> uint (fq_time m' g)" using t g unfolding times_after_def fq_time_def by fastforce
    then show ?thesis using False s fl by (simp add: fq_lag_def fq_cost_def)
  qed
  show "fq_cost g FqDone m > 0 \<Longrightarrow> 0 \<le> fq_lag m f g" using le s by (auto simp: fq_lag_def fq_cost_def split: if_splits)
qed

lemma fq_step_lag:
  assumes i: "fq_inv mtu xs m" and en: "fq_enabled mtu xs e m" and st: "fq_step e m = Some m'"
    and f: "f \<in> set xs" "fl_is_queued (fq_flows m f)" and g: "g \<in> set xs"
  shows "fq_lag m' f g \<le> fq_lag m f g - fq_cost g e m" "fq_cost g e m > 0 \<Longrightarrow> 0 \<le> fq_lag m f g"
proof -
  have "fq_lag m' f g \<le> fq_lag m f g - fq_cost g e m \<and> (fq_cost g e m > 0 \<longrightarrow> 0 \<le> fq_lag m f g)"
  proof (cases e)
    case (FqNew h)
    then show ?thesis using fq_new_inv(2) [OF i, of h] st en f g by (auto simp: fq_lag_def fq_cost_def)
  next
    case (FqSend h data)
    then have "h \<noteq> f" using en f(2) by auto
    moreover have "fq_time m h \<le> fq_raised m h" by (simp add: fq_raised_def)
    ultimately show ?thesis using fq_send_inv [OF i, of h data] FqSend st en
      by (cases "g = h") (auto simp: fq_lag_def fq_cost_def word_le_def)
  next
    case FqDone
    then obtain s where s: "fq_sending m = Some s" using en by auto
    show ?thesis using fq_done_lag [OF i s _ f g] st FqDone by simp
  next
    case (FqFree h)
    then show ?thesis using st en fq_free_inv [OF i, of h] by (auto simp: fq_lag_def fq_cost_def)
  qed (use st en fq_job_inv [OF i] in \<open>auto simp: fq_lag_def fq_cost_def\<close>)
  then show "fq_lag m' f g \<le> fq_lag m f g - fq_cost g e m" "fq_cost g e m > 0 \<Longrightarrow> 0 \<le> fq_lag m f g" by simp_all
qed

lemma fq_cost_bound: "fq_inv mtu xs m \<Longrightarrow> fq_cost g e m \<le> fq_weight m + mtu \<and> 0 \<le> fq_cost g e m"
  by (auto simp: fq_cost_def fq_inv_def fq_sending_ok_def)

lemma fq_nodes_keeps: "g \<in> set xs \<Longrightarrow> e \<noteq> FqFree g \<Longrightarrow> g \<in> set (fq_nodes e xs)"
  by (cases e) auto

lemma fq_waiting_not_freed:
  assumes "fq_inv mtu xs m" "fq_inv mtu (fq_nodes e xs) m'" "f \<in> set xs" "fq_step e m = Some m'"
  shows "e = FqFree f \<Longrightarrow> f \<notin> set (fq_nodes e xs)"
  using assms l1.holds_distinct [of "fq_list m" xs] by (auto simp: fq_inv_def)

lemma fq_total_bound:
  assumes "fq_inv mtu xs m" "fq_allowed mtu xs es m" "fq_waits f es m" "f \<in> set xs" "g \<in> set xs"
    "FqFree f \<notin> set es" "FqFree g \<notin> set es"
  shows "fq_total g es m \<le> max 0 (fq_lag m f g + (fq_weight m + mtu))"
  using assms
proof (induction es arbitrary: xs m)
  case Nil
  then show ?case by simp
next
  case (Cons e es)
  obtain m' where s: "fq_step e m = Some m'" "fq_inv mtu (fq_nodes e xs) m'" "fq_weight m' = fq_weight m"
    using fq_step_inv [OF Cons.prems(1), of e] Cons.prems(2) by auto
  have q: "fl_is_queued (fq_flows m f)" using Cons.prems(3) by simp
  have "fq_total g es m' \<le> max 0 (fq_lag m' f g + (fq_weight m + mtu))"
    using Cons.IH [OF s(2)] Cons.prems s(1,3) fq_nodes_keeps [of f xs e] fq_nodes_keeps [of g xs e] by auto
  moreover have "fq_lag m' f g \<le> fq_lag m f g - fq_cost g e m" "fq_cost g e m > 0 \<Longrightarrow> 0 \<le> fq_lag m f g"
    using fq_step_lag [OF Cons.prems(1) _ s(1) Cons.prems(4) q Cons.prems(5)] Cons.prems(2) by simp_all
  moreover note fq_cost_bound [OF Cons.prems(1), of g e]
  ultimately have "fq_cost g e m + fq_total g es m' \<le> max 0 (fq_lag m f g + (fq_weight m + mtu))"
    by (cases "fq_cost g e m > 0") linarith+
  then show ?case using s(1) by simp
qed

text \<open>What a finished packet does to the times, as integers.\<close>

definition fq_charged :: "nat list \<Rightarrow> nat \<Rightarrow> fair_queue \<Rightarrow> fair_queue \<Rightarrow> bool" where
  "fq_charged xs s m m' \<longleftrightarrow>
     (\<exists>shift. 0 \<le> shift \<and> (fq_set (fq_tree m) = {} \<longrightarrow> shift \<le> uint (fq_time m s))
        \<and> uint (fq_time m' s) = uint (fq_time m s) - shift + (fq_weight m + fq_sending_len m)
        \<and> (\<forall>g\<in>fq_set (fq_tree m). uint (fq_time m' g) = uint (fq_time m g) - shift)
        \<and> (\<forall>g\<in>set xs. g \<noteq> s \<longrightarrow> uint (fq_time m g) - shift \<le> uint (fq_time m' g)))"

lemma fq_done_charged:
  assumes i: "fq_inv mtu xs m" and s: "fq_sending m = Some s"
  shows "\<exists>m'. fq_step FqDone m = Some m' \<and> fq_charged xs s m m'"
proof -
  obtain m' shift where d: "fq_step FqDone m = Some m'" "0 \<le> shift"
    "times_after (fq_flows m) ((fq_flows m')(s := (fq_flows m' s)\<lparr>fl_handler_busy := fl_handler_busy (fq_flows m s)\<rparr>)) xs (fq_tree m) s
      (fq_weight m + fq_sending_len m) shift" using fq_done_inv [OF i s] by blast
  have t: "fl_time (((fq_flows m')(s := (fq_flows m' s)\<lparr>fl_handler_busy := fl_handler_busy (fq_flows m s)\<rparr>)) g) = fq_time m' g" for g
    by (simp add: fq_time_def)
  have "fq_charged xs s m m'"
    using d(2,3) unfolding fq_charged_def times_after_def t fq_set_nil by (auto simp: fq_time_def intro!: exI [of _ shift])
  then show ?thesis using d(1) by blast
qed

lemma fq_run_inv:
  "fq_inv mtu xs m \<Longrightarrow> fq_allowed mtu xs es m \<Longrightarrow>
   \<exists>m'. fq_run es m = Some m' \<and> fq_inv mtu (fold fq_nodes es xs) m' \<and> fq_weight m' = fq_weight m"
proof (induction es arbitrary: xs m)
  case (Cons e es)
  then obtain m' where s: "fq_step e m = Some m'" "fq_inv mtu (fq_nodes e xs) m'" "fq_weight m' = fq_weight m"
    using fq_step_inv [OF Cons.prems(1), of e] by auto
  show ?case using Cons.IH [OF s(2)] Cons.prems(2) s by simp
qed simp

text \<open>
  C29: Whatever packets the flows of a fair queue send, whenever the output finishes one, and whichever
  flows are created and freed in between, the queue follows no null pointer, its loop over the flows
  ends, and its state stays consistent: the tree holds exactly the queued flows in the order of their
  times, the flow being sent has a time not above that of any queued flow, and when nothing is being
  sent while a flow is queued, the scheduling job is pending.  Nor does a 64-bit time ever wrap around: when the
  output finishes a packet, its flow's time, as an integer, grows by what the packet costs, less an amount that is
  taken off the times of all queued flows alike, and the others lose no more than that.
\<close>

theorem fair_queue_invariant:
  assumes "PacketPassFairQueue_Init mem nodes mtu uc w = Some m" "0 \<le> mtu" "0 < w" "fq_allowed mtu [] es m"
  shows "\<exists>m'. fq_run es m = Some m' \<and> fq_inv mtu (fold fq_nodes es []) m'
    \<and> (\<forall>s. fq_sending m' = Some s \<longrightarrow> (\<exists>m''. fq_step FqDone m' = Some m'' \<and> fq_charged (fold fq_nodes es []) s m' m''))"
  using fq_run_inv [OF fq_init_inv [OF assms(1-3)] assms(4)] fq_done_charged by blast

definition blank_flow :: fq_flow where
  "blank_flow = \<lparr>fl_time = 0, fl_is_queued = False, fl_data = [], fl_data_len = 0, fl_handler_busy = False\<rparr>"

definition fq_start :: fair_queue where
  "fq_start = \<lparr>fq_flows = \<lambda>_. blank_flow, fq_weight = 1, fq_use_cancel = False, fq_sending = None, fq_sending_len = 0,
     fq_previous = None, fq_tree = Lf, fq_list = LinkedList1_Init (\<lambda>_. \<lparr>nxt = None, prv = None\<rparr>), fq_freeing = False,
     fq_job = False, fq_output = None\<rparr>"

lemma fq_start_init: "PacketPassFairQueue_Init (\<lambda>_. blank_flow) (\<lambda>_. \<lparr>nxt = None, prv = None\<rparr>) 100 False 1 = Some fq_start"
  using uint_max_time by (simp add: PacketPassFairQueue_Init_def fq_start_def)

theorem fair_queue_invariant_witness:
  "\<exists>m'. fq_run [FqNew 1, FqNew 2, FqSend 1 [7], FqSend 2 [8, 9], FqDone, FqSend 1 [5], FqJob] fq_start = Some m'
     \<and> fq_inv 100 [1, 2] m' \<and> (\<forall>s. fq_sending m' = Some s \<longrightarrow> (\<exists>m''. fq_step FqDone m' = Some m'' \<and> fq_charged [1, 2] s m' m''))
     \<and> fq_sending m' = Some 2"
proof -
  have "fq_allowed 100 [] [FqNew 1, FqNew 2, FqSend 1 [7], FqSend 2 [8, 9], FqDone, FqSend 1 [5], FqJob] fq_start"
    by code_simp
  moreover have "map_option fq_sending (fq_run [FqNew 1, FqNew 2, FqSend 1 [7], FqSend 2 [8, 9], FqDone, FqSend 1 [5], FqJob] fq_start) = Some (Some 2)"
    by code_simp
  ultimately show ?thesis using fair_queue_invariant [OF fq_start_init, of "[FqNew 1, FqNew 2, FqSend 1 [7], FqSend 2 [8, 9], FqDone, FqSend 1 [5], FqJob]"] by auto
qed

text \<open>
  C30: No flow of a fair queue is overtaken without bound.  While a flow \<open>f\<close> waits in the queue, another
  flow \<open>g\<close> is charged at most the distance of their times at the start and one packet of the full MTU,
  however much it has to send and also across an overflow of the 64-bit times.
\<close>

theorem fair_queue_bounded_overtaking:
  assumes "PacketPassFairQueue_Init mem nodes mtu uc w = Some m0" "0 \<le> mtu" "0 < w" "fq_allowed mtu [] es0 m0"
    and "fq_run es0 m0 = Some m" and "fq_allowed mtu (fold fq_nodes es0 []) es m" and "fq_waits f es m"
    and "f \<in> set (fold fq_nodes es0 [])" "g \<in> set (fold fq_nodes es0 [])" "FqFree f \<notin> set es" "FqFree g \<notin> set es"
  shows "fq_total g es m \<le> max 0 (fq_lag m f g + (w + mtu))"
proof -
  have i0: "fq_inv mtu [] m0" by (rule fq_init_inv [OF assms(1-3)])
  have "fq_weight m0 = w" using assms(1) by (auto simp: PacketPassFairQueue_Init_def split: if_splits)
  then have "fq_inv mtu (fold fq_nodes es0 []) m" "fq_weight m = w" using fq_run_inv [OF i0 assms(4)] assms(5) by auto
  then show ?thesis using fq_total_bound [of mtu "fold fq_nodes es0 []" m es f g] assms(6-11) by simp
qed

text \<open>
  The distance of the times is kept while the queue is idle: after flow 1 sent one packet of 20 bytes
  alone and the queue ran empty, flow 2 is served ten packets in a row while flow 1 waits.
\<close>

definition idle_run :: "fq_event list" where
  "idle_run = [FqNew 1, FqNew 2, FqSend 1 (replicate 20 0), FqDone, FqJob]"

definition busy_run :: "fq_event list" where
  "busy_run = concat (replicate 9 [FqDone, FqSend 2 [0], FqJob]) @ [FqDone]"

theorem fair_queue_keeps_lead_when_idle:
  "\<exists>m m'. fq_run idle_run fq_start = Some m \<and> fq_sending m = None \<and> fq_tree m = Lf \<and> fq_previous m = None
     \<and> fq_run [FqSend 2 [0], FqSend 1 [0]] m = Some m' \<and> fq_allowed 100 [1, 2] busy_run m' \<and> fq_waits 1 busy_run m' \<and> fq_total 2 busy_run m' = 20"
proof -
  have "case fq_run idle_run fq_start of None \<Rightarrow> False | Some m \<Rightarrow> fq_sending m = None \<and> fq_tree m = Lf \<and> fq_previous m = None
     \<and> (case fq_run [FqSend 2 [0], FqSend 1 [0]] m of None \<Rightarrow> False
        | Some m' \<Rightarrow> fq_allowed 100 [1, 2] busy_run m' \<and> fq_waits 1 busy_run m' \<and> fq_total 2 busy_run m' = 20)" by code_simp
  then show ?thesis by (auto split: option.splits)
qed

theorem fair_queue_bounded_overtaking_witness:
  "\<exists>m. fq_run (idle_run @ [FqSend 2 [0], FqSend 1 [0]]) fq_start = Some m \<and> fq_total 2 busy_run m \<le> max 0 (fq_lag m 1 2 + 101)"
proof -
  let ?es = "idle_run @ [FqSend 2 [0], FqSend 1 [0]]"
  obtain m where m: "fq_run ?es fq_start = Some m" "fq_allowed 100 [1, 2] busy_run m" "fq_waits 1 busy_run m"
  proof -
    have "case fq_run ?es fq_start of None \<Rightarrow> False | Some m \<Rightarrow> fq_allowed 100 [1, 2] busy_run m \<and> fq_waits 1 busy_run m" by code_simp
    then show thesis using that by (auto split: option.splits)
  qed
  have a: "fq_allowed 100 [] ?es fq_start" by code_simp
  have n: "fold fq_nodes ?es [] = [1, 2]" by (simp add: idle_run_def)
  have nf: "FqFree 1 \<notin> set busy_run" "FqFree 2 \<notin> set busy_run" by (simp_all add: busy_run_def)
  from fair_queue_bounded_overtaking [OF fq_start_init _ _ a m(1) _ m(3) _ _ nf(1), of 2] m nf(2) show ?thesis
    unfolding n by simp
qed

section \<open>Creating and freeing flows, also while the queue is being freed\<close>

definition fq_part :: "int \<Rightarrow> nat list \<Rightarrow> fair_queue \<Rightarrow> bool" where
  "fq_part mtu ys m \<longleftrightarrow> dll (fq_list m) ys \<and> fq_queued_ok mtu ys m"

lemma fq_part_init: "PacketPassFairQueue_Init mem nodes mtu uc w = Some m \<Longrightarrow> fq_part mtu' [] m"
  using dll_Init [of nodes] by (auto simp: PacketPassFairQueue_Init_def fq_part_def fq_queued_ok_def fq_tree_ok_def split: if_splits)

lemma fq_part_new:
  assumes p: "fq_part mtu ys m" and f: "f \<notin> set ys"
  shows "fq_part mtu (ys @ [f]) (PacketPassFairQueueFlow_Init m f)"
proof -
  let ?m = "PacketPassFairQueueFlow_Init m f"
  have q: "fq_queued_ok mtu ys m" "dll (fq_list m) ys" using p by (simp_all add: fq_part_def)
  note D = fq_queuedD [OF q(1)]
  have e: "fq_flows ?m g = fq_flows m g" if "g \<in> set ys" for g
    using that f by (auto simp: PacketPassFairQueueFlow_Init_def fq_upd_def)
  have r: "fq_tree ?m = fq_tree m" "\<not> fl_is_queued (fq_flows ?m f)"
    by (simp_all add: PacketPassFairQueueFlow_Init_def fq_upd_def)
  have "fq_tree_ok (fq_flows ?m) (fq_tree m)" by (rule fq_tree_same_times [OF _ D(1)]) (use D(2) e in auto)
  then have "fq_queued_ok mtu (ys @ [f]) ?m" by (intro fq_queuedI) (use D r e in auto)
  moreover have "dll (fq_list ?m) (ys @ [f])"
    using l1.holds_add_tail [OF q(2) f] by (simp add: PacketPassFairQueueFlow_Init_def)
  ultimately show ?thesis by (simp add: fq_part_def)
qed

lemma fq_part_free:
  assumes p: "fq_part mtu ys m" and f: "f \<in> set ys"
  shows "\<exists>m'. PacketPassFairQueueFlow_Free m f = Some m' \<and> fq_part mtu (remove1 f ys) m'"
proof -
  have q: "fq_queued_ok mtu ys m" "dll (fq_list m) ys" using p by (simp_all add: fq_part_def)
  note D = fq_queuedD [OF q(1)]
  have "\<exists>t'. (if fl_is_queued (fq_flows m f) then CAvl_Remove (fq_tree m) f else Some (fq_tree m)) = Some t'
      \<and> fq_tree_ok (fq_flows m) t' \<and> fq_set t' = fq_set (fq_tree m) - {f}"
    using fq_remove [OF D(1), of f] D(1,2) f by auto
  then obtain t' where t': "(if fl_is_queued (fq_flows m f) then CAvl_Remove (fq_tree m) f else Some (fq_tree m)) = Some t'"
    "fq_tree_ok (fq_flows m) t'" "fq_set t' = fq_set (fq_tree m) - {f}" by blast
  have d: "dll (LinkedList1_Remove (fq_list m) f) (remove1 f ys)" "set (remove1 f ys) = set ys - {f}"
    using l1.holds_del [OF q(2) f] l1.holds_distinct [OF q(2)] by simp_all
  define m2 where "m2 = (let m1 = (if fq_sending m = Some f then m\<lparr>fq_sending := None\<rparr> else m)
      in if fq_previous m1 = Some f then m1\<lparr>fq_previous := None\<rparr> else m1)"
  have same: "fq_flows m2 = fq_flows m" "fq_tree m2 = fq_tree m" "fq_list m2 = fq_list m" by (simp_all add: m2_def Let_def)
  have "PacketPassFairQueueFlow_Free m f
      = (case (if fl_is_queued (fq_flows m2 f) then CAvl_Remove (fq_tree m2) f else Some (fq_tree m2)) of
           None \<Rightarrow> None | Some t \<Rightarrow> Some (m2\<lparr>fq_tree := t, fq_list := LinkedList1_Remove (fq_list m2) f\<rparr>))"
    by (simp only: PacketPassFairQueueFlow_Free_def m2_def Let_def)
  then have m2: "PacketPassFairQueueFlow_Free m f = Some (m2\<lparr>fq_tree := t', fq_list := LinkedList1_Remove (fq_list m) f\<rparr>)"
    unfolding same t'(1) by simp
  have "fq_queued_ok mtu (remove1 f ys) (m2\<lparr>fq_tree := t', fq_list := LinkedList1_Remove (fq_list m) f\<rparr>)"
    by (rule fq_queuedI) (use t'(2,3) d(2) D(2,3) same(1) in auto)
  then show ?thesis using m2 d(1) by (simp add: fq_part_def)
qed

end
