(* ===== verification/B_Addr.thy ===== *)
theory B_Addr
  imports Byte_Order C_Memory B_Avl
begin

text \<open>
  The addresses of the badvpn engine, \<^verbatim>\<open>badvpn/system/BAddr.h\<close>.  The IPv4 address and the ports are
  kept in network byte order, so their fields hold the byte-swapped numbers.  The comparison of
  addresses satisfies the contract of a comparator of the AVL tree, \<open>bavl_order\<close>.
\<close>

datatype BAddr = BADDR_NONE | BADDR_IPV4 u32 u16 | BADDR_IPV6 bytes u16

definition mem32 :: "u32 \<Rightarrow> bytes" where
  "mem32 v = rev (be32 v)"

definition rd_mem32 :: "bytes \<Rightarrow> u32" where
  "rd_mem32 b = rd_be32 (b ! 3) (b ! 2) (b ! 1) (b ! 0)"

definition ntoh32 :: "u32 \<Rightarrow> u32" where
  "ntoh32 v = rd_be32 (mem32 v ! 0) (mem32 v ! 1) (mem32 v ! 2) (mem32 v ! 3)"

fun BAddr_type :: "BAddr \<Rightarrow> int" where
  "BAddr_type BADDR_NONE = 0"
| "BAddr_type (BADDR_IPV4 _ _) = 1"
| "BAddr_type (BADDR_IPV6 _ _) = 2"

definition BAddr_CompareOrder :: "BAddr \<Rightarrow> BAddr \<Rightarrow> int" where
  "BAddr_CompareOrder addr1 addr2 =
     (let cmp = B_COMPARE (BAddr_type addr1) (BAddr_type addr2) in
      if cmp \<noteq> 0 then cmp
      else case (addr1, addr2) of
        (BADDR_IPV4 ip1 port1, BADDR_IPV4 ip2 port2) \<Rightarrow>
          (let cmp = B_COMPARE (ntoh32 ip1) (ntoh32 ip2) in
           if cmp \<noteq> 0 then cmp else B_COMPARE (ntohs port1) (ntohs port2))
      | (BADDR_IPV6 ip1 port1, BADDR_IPV6 ip2 port2) \<Rightarrow>
          (let cmp = memcmp ip1 ip2 in
           if cmp \<noteq> 0 then B_COMPARE cmp 0 else B_COMPARE (ntohs port1) (ntohs port2))
      | _ \<Rightarrow> 0)"

text \<open>An address of a host: the C struct has 16 bytes for an IPv6 address.\<close>

fun addr_ok :: "BAddr \<Rightarrow> bool" where
  "addr_ok BADDR_NONE \<longleftrightarrow> False"
| "addr_ok (BADDR_IPV4 ip port) \<longleftrightarrow> True"
| "addr_ok (BADDR_IPV6 ip port) \<longleftrightarrow> length ip = 16"

section \<open>The comparison is an order\<close>

lemma length_mem32 [simp]: "length (mem32 v) = 4"
  by (simp add: mem32_def)

lemma rd_be32_bit:
  "bit (rd_be32 a b c d) n \<longleftrightarrow>
     (if n < 8 then bit d n else if n < 16 then bit c (n - 8) else if n < 24 then bit b (n - 16) else n < 32 \<and> bit a (n - 24))"
  by (auto simp: rd_be32_def bit_simps dest: bit_imp_le_length)

lemma ntoh32_bytes: "ntoh32 v = rd_be32 (ucast v) (ucast (drop_bit 8 v)) (ucast (drop_bit 16 v)) (ucast (drop_bit 24 v))"
  by (simp add: ntoh32_def mem32_def be32_def)

lemma mem16_rd_mem16: "mem16 (rd_mem16 a b) = [a, b]"
proof -
  have "ucast (rd_mem16 a b) = a" by (rule bit_word_eqI) (auto simp: rd_mem16_def bit_simps)
  moreover have "ucast (drop_bit 8 (rd_mem16 a b)) = b"
    by (rule bit_word_eqI) (auto simp: rd_mem16_def bit_simps dest: bit_imp_le_length)
  ultimately show ?thesis by (simp add: mem16_def)
qed

lemma be32_rd_be32: "be32 (rd_be32 a b c d) = [a, b, c, d]"
proof -
  have "ucast (drop_bit 24 (rd_be32 a b c d)) = a" by (rule bit_word_eqI) (auto simp: bit_simps rd_be32_bit dest: bit_imp_le_length)
  moreover have "ucast (drop_bit 16 (rd_be32 a b c d)) = b" by (rule bit_word_eqI) (auto simp: bit_simps rd_be32_bit)
  moreover have "ucast (drop_bit 8 (rd_be32 a b c d)) = c" by (rule bit_word_eqI) (auto simp: bit_simps rd_be32_bit)
  moreover have "ucast (rd_be32 a b c d) = d" by (rule bit_word_eqI) (auto simp: bit_simps rd_be32_bit)
  ultimately show ?thesis by (simp add: be32_def)
qed

lemma mem32_rd_mem32: "length bs = 4 \<Longrightarrow> mem32 (rd_mem32 bs) = bs"
  by (auto simp: mem32_def rd_mem32_def be32_rd_be32 length_Suc_conv eval_nat_numeral)

lemma rd_mem32_mem32: "rd_mem32 (mem32 v @ x) = v"
  by (simp add: mem32_def rd_mem32_def be32_def rd_be32_be32)

lemma rd_mem16_nth: "rd_mem16 (mem16 v ! 0) (mem16 v ! Suc 0) = v"
  by (simp add: mem16_def rd_mem16_mem16)

lemma ntoh32_ntoh32: "ntoh32 (ntoh32 v) = v"
proof (rule bit_word_eqI)
  fix n
  assume "n < LENGTH(32)"
  then consider "n < 8" | "8 \<le> n" "n < 16" | "16 \<le> n" "n < 24" | "24 \<le> n" "n < 32" by fastforce
  then show "bit (ntoh32 (ntoh32 v)) n = bit v n"
    by cases (auto simp: ntoh32_bytes rd_be32_bit bit_simps)
qed

lemma ntoh32_inj: "ntoh32 a = ntoh32 b \<longleftrightarrow> a = b"
  by (metis ntoh32_ntoh32)

lemma htons_inj: "htons a = htons b \<longleftrightarrow> a = b"
  by (metis htons_htons)

lemma memcmp_three: "memcmp as bs = -1 \<or> memcmp as bs = 0 \<or> memcmp as bs = 1"
  by (induction as bs rule: memcmp.induct) auto

lemma memcmp_order: "bavl_order memcmp"
  by (rule bavl_orderI) (use memcmp_three in \<open>auto simp: memcmp_strcmp strcmp_zero strcmp_swap intro: strcmp_trans\<close>)

text \<open>The parts that the comparison of addresses looks at, in order.\<close>

fun baddr_key :: "BAddr \<Rightarrow> int \<times> u32 \<times> bytes \<times> u16" where
  "baddr_key BADDR_NONE = (0, 0, [], 0)"
| "baddr_key (BADDR_IPV4 ip port) = (1, ntoh32 ip, [], ntohs port)"
| "baddr_key (BADDR_IPV6 ip port) = (2, 0, ip, ntohs port)"

lemma B_COMPARE_memcmp: "B_COMPARE (memcmp as bs) 0 = memcmp as bs"
  using memcmp_three [of as bs] by (auto simp: B_COMPARE_def)

lemma baddr_key_inj: "inj baddr_key"
proof (rule injI)
  fix a b
  assume "baddr_key a = baddr_key b"
  then show "a = b" by (cases a; cases b) (auto simp: ntoh32_inj htons_inj)
qed

lemma BAddr_CompareOrder_key:
  "BAddr_CompareOrder a b = lex_cmp B_COMPARE (lex_cmp B_COMPARE (lex_cmp memcmp B_COMPARE)) (baddr_key a) (baddr_key b)"
  by (cases a; cases b) (auto simp: BAddr_CompareOrder_def lex_cmp_def B_COMPARE_memcmp B_COMPARE_simps Let_def)

interpretation ba: bavl_order BAddr_CompareOrder
  unfolding BAddr_CompareOrder_key [abs_def]
  by (intro image_order [OF _ baddr_key_inj] lex_order memcmp_order bc.bavl_order_axioms)

lemmas BAddr_CompareOrder_zero = bavl_orderD(1) [OF ba.bavl_order_axioms]

end
