(* ===== verification/Udpgw_Client.thy ===== *)
theory Udpgw_Client
  imports Fair_Queue B_Addr Proto_Flow
begin

text \<open>
  The UDP gateway client of \<^verbatim>\<open>badvpn/udpgw_client/UdpGwClient.c\<close>, which carries the datagrams of the
  local programs to a gateway server over one stream.  Every pair of a local and a remote address has
  a connection with a 16-bit number; the connections are indexed by address and by number in two AVL
  trees and linked in the order of their last use, and when there are too many of them, the least
  recently used one is given to the new pair.  A connection is its address; the keepalive flow of the
  fair queue has address 0.
\<close>

section \<open>The code: protocol\<close>

abbreviation UDPGW_CLIENT_FLAG_KEEPALIVE :: u8 where "UDPGW_CLIENT_FLAG_KEEPALIVE \<equiv> 1"
abbreviation UDPGW_CLIENT_FLAG_REBIND :: u8 where "UDPGW_CLIENT_FLAG_REBIND \<equiv> 2"
abbreviation UDPGW_CLIENT_FLAG_DNS :: u8 where "UDPGW_CLIENT_FLAG_DNS \<equiv> 4"
abbreviation UDPGW_CLIENT_FLAG_IPV6 :: u8 where "UDPGW_CLIENT_FLAG_IPV6 \<equiv> 8"

text \<open>In Android builds the header that is counted is the larger one of the SOCKS protocol.\<close>

definition udpgw_compute_mtu :: "int \<Rightarrow> int" where
  "udpgw_compute_mtu dgram_mtu =
     (case bsize_toint (bsize_add (bsize_fromsize 4)
             (bsize_add (bsize_max (bsize_fromsize 6) (bsize_fromsize 18)) (bsize_fromint dgram_mtu))) of
        None \<Rightarrow> -1 | Some s \<Rightarrow> s)"

section \<open>The code: state\<close>

record conaddr =
  local_addr :: BAddr
  remote_addr :: BAddr

record udpgw_con =
  con_addr :: conaddr
  con_first_flags :: u8
  con_first_data :: bytes
  con_id :: u16
  con_first_job :: bool
  con_flow :: proto_flow

record udpgw =
  ug_udp_mtu :: int
  ug_max_connections :: int
  ug_send_buffer_size :: int
  ug_udpgw_mtu :: int
  ug_pp_mtu :: int
  ug_by_conaddr :: "nat avl"
  ug_by_conid :: "nat avl"
  ug_list :: "nat llist"
  ug_num :: int
  ug_next_conid :: int
  ug_queue :: fair_queue
  ug_keepalive_packet :: bytes
  ug_keepalive_sending :: bool
  ug_have_server :: bool
  ug_decoder :: "pp_decoder option"
  ug_cons :: "nat \<Rightarrow> udpgw_con option"

definition conaddr_comparator :: "conaddr \<Rightarrow> conaddr \<Rightarrow> int" where
  "conaddr_comparator v1 v2 =
     (let r = BAddr_CompareOrder (remote_addr v1) (remote_addr v2) in
      if r \<noteq> 0 then r else BAddr_CompareOrder (local_addr v1) (local_addr v2))"

definition uint16_comparator :: "u16 \<Rightarrow> u16 \<Rightarrow> int" where
  "uint16_comparator v1 v2 = B_COMPARE v1 v2"

definition key_addr :: "(nat \<Rightarrow> udpgw_con option) \<Rightarrow> nat \<Rightarrow> conaddr" where
  "key_addr cons p = con_addr (the (cons p))"

definition key_id :: "(nat \<Rightarrow> udpgw_con option) \<Rightarrow> nat \<Rightarrow> u16" where
  "key_id cons p = con_id (the (cons p))"

section \<open>The code: connections\<close>

definition find_connection_by_conaddr :: "udpgw \<Rightarrow> conaddr \<Rightarrow> nat option" where
  "find_connection_by_conaddr o' ca = BAVL_LookupExact conaddr_comparator (key_addr (ug_cons o')) (ug_by_conaddr o') ca"

definition find_connection_by_conid :: "udpgw \<Rightarrow> u16 \<Rightarrow> nat option" where
  "find_connection_by_conid o' conid = BAVL_LookupExact uint16_comparator (key_id (ug_cons o')) (ug_by_conid o') conid"

partial_function (option) find_unused_conid :: "udpgw \<Rightarrow> (udpgw \<times> u16) option" where
  "find_unused_conid o' =
     (case find_connection_by_conid o' (word_of_int (ug_next_conid o')) of
        None \<Rightarrow> Some (o', word_of_int (ug_next_conid o'))
      | Some _ \<Rightarrow>
          find_unused_conid
            (o'\<lparr>ug_next_conid := (if ug_next_conid o' = ug_max_connections o' - 1 then 0 else ug_next_conid o' + 1)\<rparr>))"

text \<open>The address as it is written into a packet.\<close>

fun udpgw_addr :: "BAddr \<Rightarrow> bytes" where
  "udpgw_addr BADDR_NONE = []"
| "udpgw_addr (BADDR_IPV4 ip port) = mem32 ip @ mem16 port"
| "udpgw_addr (BADDR_IPV6 ip port) = ip @ mem16 port"

definition connection_send :: "udpgw_con \<Rightarrow> u8 \<Rightarrow> bytes \<Rightarrow> udpgw_con option" where
  "connection_send con flags data =
     (let flags' = (if BAddr_type (remote_addr (con_addr con)) = 2 then flags OR UDPGW_CLIENT_FLAG_IPV6 else flags)
      in map_option (\<lambda>(f, _). con\<lparr>con_flow := f\<rparr>)
           (pf_write (con_flow con) [flags' # mem16 (con_id con), udpgw_addr (remote_addr (con_addr con)), data]))"

definition connection_first_job_handler :: "udpgw_con \<Rightarrow> udpgw_con option" where
  "connection_first_job_handler con =
     connection_send (con\<lparr>con_first_job := False\<rparr>) (UDPGW_CLIENT_FLAG_REBIND OR con_first_flags con) (con_first_data con)"

text \<open>
  The results of \<^verbatim>\<open>malloc\<close> are arguments: \<open>alloc\<close> is the new connection's address, and \<open>malloc\<close> is used
  for its buffers.
\<close>

definition connection_init :: "udpgw \<Rightarrow> nat option \<Rightarrow> allocator \<Rightarrow> conaddr \<Rightarrow> u8 \<Rightarrow> bytes \<Rightarrow> udpgw option" where
  "connection_init o' alloc malloc ca flags data =
     (case alloc of
        None \<Rightarrow> Some o'
      | Some p \<Rightarrow>
          (case find_unused_conid o' of
             None \<Rightarrow> None
           | Some (o1, conid) \<Rightarrow>
               (let queue = PacketPassFairQueueFlow_Init (ug_queue o1) p in
                case PacketProtoFlow_Init malloc (ug_udpgw_mtu o1) (ug_send_buffer_size o1) of
                  None \<Rightarrow> map_option (\<lambda>q. o1\<lparr>ug_queue := q\<rparr>) (PacketPassFairQueueFlow_Free queue p)
                | Some flow \<Rightarrow>
                    (let con = \<lparr>con_addr = ca, con_first_flags = flags, con_first_data = data, con_id = conid,
                                con_first_job = True, con_flow = flow\<rparr>;
                         cons = (ug_cons o1)(p \<mapsto> con) in
                     case BAVL_Insert conaddr_comparator (key_addr cons) (ug_by_conaddr o1) p of
                       None \<Rightarrow> None
                     | Some (t1, _) \<Rightarrow>
                         (case BAVL_Insert uint16_comparator (key_id cons) (ug_by_conid o1) p of
                            None \<Rightarrow> None
                          | Some (t2, _) \<Rightarrow>
                              Some (o1\<lparr>ug_queue := queue, ug_cons := cons, ug_by_conaddr := t1, ug_by_conid := t2,
                                       ug_list := LinkedList1_Append (ug_list o1) p, ug_num := ug_num o1 + 1\<rparr>))))))"

definition connection_free :: "udpgw \<Rightarrow> nat \<Rightarrow> udpgw option" where
  "connection_free o' p =
     (case BAVL_Remove (ug_by_conid o') p of
        None \<Rightarrow> None
      | Some t2 \<Rightarrow>
          (case BAVL_Remove (ug_by_conaddr o') p of
             None \<Rightarrow> None
           | Some t1 \<Rightarrow>
               (case PacketPassFairQueueFlow_Free (ug_queue o') p of
                  None \<Rightarrow> None
                | Some q \<Rightarrow>
                    Some (o'\<lparr>ug_num := ug_num o' - 1, ug_list := LinkedList1_Remove (ug_list o') p, ug_by_conid := t2,
                             ug_by_conaddr := t1, ug_queue := q, ug_cons := (ug_cons o')(p := None)\<rparr>))))"

definition reuse_connection :: "udpgw \<Rightarrow> conaddr \<Rightarrow> (udpgw \<times> nat) option" where
  "reuse_connection o' ca =
     (case LinkedList1_GetFirst (ug_list o') of
        None \<Rightarrow> None
      | Some p \<Rightarrow>
          (case BAVL_Remove (ug_by_conaddr o') p of
             None \<Rightarrow> None
           | Some t \<Rightarrow>
               (let cons = (ug_cons o')(p := map_option (con_addr_update (\<lambda>_. ca)) (ug_cons o' p)) in
                map_option (\<lambda>(t', _). (o'\<lparr>ug_cons := cons, ug_by_conaddr := t'\<rparr>, p))
                  (BAVL_Insert conaddr_comparator (key_addr cons) t p))))"

definition touch_connection :: "udpgw \<Rightarrow> nat \<Rightarrow> udpgw" where
  "touch_connection o' p = o'\<lparr>ug_list := LinkedList1_Append (LinkedList1_Remove (ug_list o') p) p\<rparr>"

definition with_connection :: "udpgw \<Rightarrow> nat \<Rightarrow> (udpgw_con \<Rightarrow> udpgw_con option) \<Rightarrow> udpgw option" where
  "with_connection o' p f =
     (case ug_cons o' p of
        None \<Rightarrow> None
      | Some con \<Rightarrow> map_option (\<lambda>con'. o'\<lparr>ug_cons := (ug_cons o')(p \<mapsto> con')\<rparr>) (f con))"

definition UdpGwClient_SubmitPacket ::
  "udpgw \<Rightarrow> nat option \<Rightarrow> allocator \<Rightarrow> BAddr \<Rightarrow> BAddr \<Rightarrow> bool \<Rightarrow> bytes \<Rightarrow> udpgw option" where
  "UdpGwClient_SubmitPacket o' alloc malloc loc rem is_dns data =
     (let ca = \<lparr>local_addr = loc, remote_addr = rem\<rparr>;
          flags = (if is_dns then UDPGW_CLIENT_FLAG_DNS else 0);
          send = (\<lambda>o1 p flags. with_connection (touch_connection o1 p) p (\<lambda>con. connection_send con flags data)) in
      case find_connection_by_conaddr o' ca of
        Some p \<Rightarrow> send o' p flags
      | None \<Rightarrow>
          if ug_num o' = ug_max_connections o' then
            (case reuse_connection o' ca of
               None \<Rightarrow> None
             | Some (o1, p) \<Rightarrow> send o1 p (flags OR UDPGW_CLIENT_FLAG_REBIND))
          else connection_init o' alloc malloc ca flags data)"

section \<open>The code: packets from the server\<close>

datatype gw_recv = GwMissingHeader | GwMissingIpv6 | GwMissingIpv4 | GwTooMuch | GwUnknownConid | GwWrongRemote
  | GwReceived BAddr BAddr bytes

text \<open>The address behind the header: the error, or the address and its length.\<close>

definition udpgw_parse_addr :: "u8 \<Rightarrow> bytes \<Rightarrow> (gw_recv + BAddr \<times> int) option" where
  "udpgw_parse_addr flags data =
     (if flags AND UDPGW_CLIENT_FLAG_IPV6 \<noteq> 0 then
        if int (length data) < 18 then Some (Inl GwMissingIpv6)
        else map_option (\<lambda>a. Inr (BADDR_IPV6 (take 16 a) (rd_mem16 (a ! 16) (a ! 17)), 18)) (load data 0 18)
      else if int (length data) < 6 then Some (Inl GwMissingIpv4)
      else map_option (\<lambda>a. Inr (BADDR_IPV4 (rd_mem32 a) (rd_mem16 (a ! 4) (a ! 5)), 6)) (load data 0 6))"

definition recv_interface_handler_send :: "udpgw \<Rightarrow> bytes \<Rightarrow> (udpgw \<times> gw_recv) option" where
  "recv_interface_handler_send o' data =
     (if int (length data) < 3 then Some (o', GwMissingHeader)
      else case load data 0 3 of
        None \<Rightarrow> None
      | Some header \<Rightarrow>
          (let data1 = drop 3 data; flags = header ! 0; conid = rd_mem16 (header ! 1) (header ! 2) in
           case udpgw_parse_addr flags data1 of
             None \<Rightarrow> None
           | Some (Inl err) \<Rightarrow> Some (o', err)
           | Some (Inr (remote, n)) \<Rightarrow>
               (let data2 = drop (nat n) data1 in
                if int (length data2) > ug_udp_mtu o' then Some (o', GwTooMuch)
                else case find_connection_by_conid o' conid of
                  None \<Rightarrow> Some (o', GwUnknownConid)
                | Some p \<Rightarrow>
                    (case ug_cons o' p of
                       None \<Rightarrow> None
                     | Some con \<Rightarrow>
                         if BAddr_CompareOrder (remote_addr (con_addr con)) remote \<noteq> 0 then Some (o', GwWrongRemote)
                         else Some (touch_connection o' p,
                                    GwReceived (local_addr (con_addr con)) (remote_addr (con_addr con)) data2)))))"

section \<open>The code: life of the client\<close>

text \<open>The packet is given to the keepalive flow when none is under way.\<close>

definition send_monitor_handler :: "udpgw \<Rightarrow> udpgw \<times> bytes option" where
  "send_monitor_handler o' =
     (if ug_keepalive_sending o' then (o', None)
      else (o'\<lparr>ug_keepalive_sending := True\<rparr>, Some (ug_keepalive_packet o')))"

definition keepalive_if_handler_done :: "udpgw \<Rightarrow> udpgw" where
  "keepalive_if_handler_done o' = o'\<lparr>ug_keepalive_sending := False\<rparr>"

definition UdpGwClient_Init ::
  "(nat \<Rightarrow> fq_flow) \<Rightarrow> (nat \<Rightarrow> nat lnode) \<Rightarrow> (nat \<Rightarrow> nat lnode) \<Rightarrow> int \<Rightarrow> int \<Rightarrow> int \<Rightarrow> udpgw option" where
  "UdpGwClient_Init flows nodes list_nodes udp_mtu max_connections send_buffer_size =
     (let max_con = (if max_connections > 65535 + 1 then 65535 + 1 else max_connections);
          udpgw_mtu = udpgw_compute_mtu udp_mtu;
          pp_mtu = udpgw_mtu + 2 in
      case PacketPassFairQueue_Init flows nodes pp_mtu False 1 of
        None \<Rightarrow> None
      | Some q \<Rightarrow>
          Some \<lparr>ug_udp_mtu = udp_mtu, ug_max_connections = max_con, ug_send_buffer_size = send_buffer_size,
                ug_udpgw_mtu = udpgw_mtu, ug_pp_mtu = pp_mtu, ug_by_conaddr = Lf, ug_by_conid = Lf,
                ug_list = LinkedList1_Init list_nodes, ug_num = 0, ug_next_conid = 0,
                ug_queue = PacketPassFairQueueFlow_Init q 0,
                ug_keepalive_packet = mem16 3 @ [UDPGW_CLIENT_FLAG_KEEPALIVE, 0, 0],
                ug_keepalive_sending = False, ug_have_server = False, ug_decoder = None, ug_cons = Map.empty\<rparr>)"

definition free_server :: "udpgw \<Rightarrow> udpgw" where
  "free_server o' = o'\<lparr>ug_decoder := None\<rparr>"

partial_function (option) free_connections :: "udpgw \<Rightarrow> udpgw option" where
  "free_connections o' =
     (if LinkedList1_IsEmpty (ug_list o') then Some o'
      else case LinkedList1_GetFirst (ug_list o') of
        None \<Rightarrow> None
      | Some p \<Rightarrow> (case connection_free o' p of None \<Rightarrow> None | Some o1 \<Rightarrow> free_connections o1))"

definition UdpGwClient_Free :: "udpgw \<Rightarrow> udpgw option" where
  "UdpGwClient_Free o' =
     (case free_connections (o'\<lparr>ug_queue := PacketPassFairQueue_PrepareFree (ug_queue o')\<rparr>) of
        None \<Rightarrow> None
      | Some o1 \<Rightarrow>
          (let o2 = (if ug_have_server o1 then free_server o1 else o1) in
           map_option (\<lambda>q. o2\<lparr>ug_queue := q\<rparr>) (PacketPassFairQueueFlow_Free (ug_queue o2) 0)))"

definition UdpGwClient_ConnectServer :: "udpgw \<Rightarrow> allocator \<Rightarrow> udpgw \<times> bool" where
  "UdpGwClient_ConnectServer o' malloc =
     (case PacketProtoDecoder_Init malloc (ug_udpgw_mtu o') of
        None \<Rightarrow> (o', False)
      | Some (d, req) \<Rightarrow> (o'\<lparr>ug_decoder := Some d, ug_have_server := True\<rparr>, True))"

definition UdpGwClient_DisconnectServer :: "udpgw \<Rightarrow> udpgw" where
  "UdpGwClient_DisconnectServer o' = (free_server o')\<lparr>ug_have_server := False\<rparr>"

section \<open>The two indexes\<close>

lemma conaddr_comparator_lex:
  "conaddr_comparator v1 v2 = lex_cmp BAddr_CompareOrder BAddr_CompareOrder (remote_addr v1, local_addr v1) (remote_addr v2, local_addr v2)"
  by (simp add: conaddr_comparator_def lex_cmp_def Let_def)

interpretation ca: bavl_order conaddr_comparator
proof -
  have "inj (\<lambda>v :: conaddr. (remote_addr v, local_addr v))" by (rule injI) (simp add: conaddr.equality)
  from image_order [OF lex_order [OF ba.bavl_order_axioms ba.bavl_order_axioms] this]
  show "bavl_order conaddr_comparator" by (simp add: conaddr_comparator_lex [abs_def])
qed

interpretation ci: bavl_order uint16_comparator
  unfolding uint16_comparator_def [abs_def] by (rule bc.bavl_order_axioms)

section \<open>The invariant\<close>

definition con_ok :: "udpgw \<Rightarrow> udpgw_con \<Rightarrow> bool" where
  "con_ok o' con \<longleftrightarrow> uint (con_id con) < ug_max_connections o'
     \<and> addr_ok (local_addr (con_addr con)) \<and> addr_ok (remote_addr (con_addr con))
     \<and> int (length (con_first_data con)) \<le> ug_udp_mtu o'
     \<and> (\<exists>q. pf_holds (ug_udpgw_mtu o') (ug_send_buffer_size o') (con_flow con) q)"

definition ug_config :: "udpgw \<Rightarrow> bool" where
  "ug_config o' \<longleftrightarrow> 0 < ug_max_connections o' \<and> ug_max_connections o' \<le> 65536 \<and> 0 \<le> ug_udp_mtu o' \<and> ug_udpgw_mtu o' = ug_udp_mtu o' + 22
     \<and> 0 < ug_send_buffer_size o'
     \<and> 4 * ChunkBuffer2_calc_blocks (PACKETPROTO_ENCLEN (ug_udpgw_mtu o')) (ug_send_buffer_size o') \<le> INT_MAX"

definition ug_table :: "nat list \<Rightarrow> udpgw \<Rightarrow> bool" where
  "ug_table xs o' \<longleftrightarrow> dll (ug_list o') xs \<and> dom (ug_cons o') = set xs \<and> 0 \<notin> set xs
     \<and> avl_index conaddr_comparator (key_addr (ug_cons o')) (ug_by_conaddr o') (set xs)
     \<and> avl_index uint16_comparator (key_id (ug_cons o')) (ug_by_conid o') (set xs)
     \<and> ug_num o' = int (length xs) \<and> int (length xs) \<le> ug_max_connections o'
     \<and> 0 \<le> ug_next_conid o' \<and> ug_next_conid o' < ug_max_connections o'
     \<and> (\<forall>p con. ug_cons o' p = Some con \<longrightarrow> con_ok o' con)"

definition ug_inv :: "nat list \<Rightarrow> udpgw \<Rightarrow> bool" where
  "ug_inv xs o' \<longleftrightarrow> ug_config o' \<and> ug_table xs o' \<and> (\<exists>ys. fq_part (ug_pp_mtu o') ys (ug_queue o') \<and> set ys = insert 0 (set xs))"

text \<open>The table, in the order of use: the number and the addresses of every connection.\<close>

definition ug_abs :: "udpgw \<Rightarrow> nat list \<Rightarrow> (u16 \<times> conaddr) list" where
  "ug_abs o' xs = map (\<lambda>p. (key_id (ug_cons o') p, key_addr (ug_cons o') p)) xs"

lemma ug_abs_next [simp]: "ug_abs (o'\<lparr>ug_next_conid := n\<rparr>) xs = ug_abs o' xs"
  by (simp add: ug_abs_def)

lemma find_conaddr:
  "ug_inv xs o' \<Longrightarrow> find_connection_by_conaddr o' a = Some p \<longleftrightarrow> p \<in> set xs \<and> key_addr (ug_cons o') p = a"
  unfolding find_connection_by_conaddr_def by (rule ca.index_lookup) (simp add: ug_inv_def ug_table_def)

lemma find_conid:
  "ug_table xs o' \<Longrightarrow> find_connection_by_conid o' i = Some p \<longleftrightarrow> p \<in> set xs \<and> key_id (ug_cons o') p = i"
  unfolding find_connection_by_conid_def by (rule ci.index_lookup) (simp add: ug_table_def)

lemma find_conid_none: "ug_table xs o' \<Longrightarrow> find_connection_by_conid o' i = None \<longleftrightarrow> i \<notin> key_id (ug_cons o') ` set xs"
  unfolding find_connection_by_conid_def by (rule ci.index_missing) (simp add: ug_table_def)

lemma find_conaddr_none: "ug_inv xs o' \<Longrightarrow> find_connection_by_conaddr o' a = None \<longleftrightarrow> a \<notin> key_addr (ug_cons o') ` set xs"
  unfolding find_connection_by_conaddr_def by (rule ca.index_missing) (simp add: ug_inv_def ug_table_def)

section \<open>The search for a free number\<close>

lemma find_conid_next [simp]: "find_connection_by_conid (o'\<lparr>ug_next_conid := n\<rparr>) = find_connection_by_conid o'"
  by (simp add: fun_eq_iff find_connection_by_conid_def)

text \<open>With fewer connections than numbers, one of the numbers is free.\<close>

lemma free_number:
  assumes t: "ug_table xs o'" and l: "int (length xs) < ug_max_connections o'" and m: "ug_max_connections o' \<le> 65536"
  obtains c where "0 \<le> c" "c < ug_max_connections o'" "find_connection_by_conid o' (word_of_int c) = None"
proof -
  let ?used = "(\<lambda>p. uint (key_id (ug_cons o') p)) ` set xs" and ?all = "{0 ..< ug_max_connections o'}"
  have "card ?used \<le> length xs" using card_image_le [of "set xs"] card_length [of xs] le_trans by blast
  then have "card ?used < card ?all" using l by simp
  then have "\<not> ?all \<subseteq> ?used" using card_mono [of ?used ?all] by (meson finite_imageI finite_set not_less)
  then obtain c where c: "c \<in> ?all" "c \<notin> ?used" by blast
  then have "uint (word_of_int c :: u16) = c" using m by (simp add: uint_word_of_int)
  then have "find_connection_by_conid o' (word_of_int c) = None"
    using c(2) find_conid_none [OF t] by (auto simp: image_iff)
  with c(1) show thesis using that by auto
qed

lemma mod_distance: "0 \<le> a \<Longrightarrow> a < M \<Longrightarrow> 0 \<le> b \<Longrightarrow> b < M \<Longrightarrow> (a - b) mod M = (if b \<le> a then a - b else a - b + (M :: int))"
  using mod_pos_pos_trivial [of "a - b + M" M] by (auto simp: mod_pos_pos_trivial)

lemma find_unused_conid_steps:
  assumes "M = ug_max_connections o'" "0 \<le> c" "c < M" "find_connection_by_conid o' (word_of_int c) = None"
    "0 \<le> ug_next_conid o'" "ug_next_conid o' < M" "d = nat ((c - ug_next_conid o') mod M)"
  shows "\<exists>n. 0 \<le> n \<and> n < M \<and> find_connection_by_conid o' (word_of_int n) = None
    \<and> find_unused_conid o' = Some (o'\<lparr>ug_next_conid := n\<rparr>, word_of_int n)"
  using assms
proof (induction d arbitrary: o' rule: less_induct)
  case (less d)
  let ?n = "ug_next_conid o'"
  show ?case
  proof (cases "find_connection_by_conid o' (word_of_int ?n)")
    case None
    then show ?thesis using less.prems by (intro exI [of _ ?n]) (subst find_unused_conid.simps, simp)
  next
    case (Some p)
    let ?n1 = "if ?n = M - 1 then 0 else ?n + 1"
    have ne: "?n \<noteq> c" using Some less.prems(4) by auto
    have r: "0 \<le> ?n1" "?n1 < M" using less.prems(5,6) by auto
    have "nat ((c - ?n1) mod M) < d"
      using less.prems(2,3,5,6) ne unfolding less.prems(7) mod_distance [OF less.prems(2,3) r] mod_distance [OF less.prems(2,3,5,6)]
      by auto
    from less.IH [OF this, of "o'\<lparr>ug_next_conid := ?n1\<rparr>"] less.prems r obtain n where
      n: "0 \<le> n" "n < M" "find_connection_by_conid o' (word_of_int n) = None"
        "find_unused_conid (o'\<lparr>ug_next_conid := ?n1\<rparr>) = Some (o'\<lparr>ug_next_conid := n\<rparr>, word_of_int n)" by auto
    moreover have "find_unused_conid o' = find_unused_conid (o'\<lparr>ug_next_conid := ?n1\<rparr>)"
      by (subst find_unused_conid.simps) (simp add: Some less.prems(1))
    ultimately show ?thesis by auto
  qed
qed

lemma find_unused_conid_ok:
  assumes "ug_table xs o'" "ug_config o'" "int (length xs) < ug_max_connections o'"
  obtains n where "0 \<le> n" "n < ug_max_connections o'" "word_of_int n \<notin> key_id (ug_cons o') ` set xs"
    "find_unused_conid o' = Some (o'\<lparr>ug_next_conid := n\<rparr>, word_of_int n)" "uint (word_of_int n :: u16) = n"
proof -
  have m: "ug_max_connections o' \<le> 65536" using assms(2) by (simp add: ug_config_def)
  obtain c where c: "0 \<le> c" "c < ug_max_connections o'" "find_connection_by_conid o' (word_of_int c) = None"
    by (rule free_number [OF assms(1,3) m])
  obtain n where n: "0 \<le> n" "n < ug_max_connections o'" "find_connection_by_conid o' (word_of_int n) = None"
    "find_unused_conid o' = Some (o'\<lparr>ug_next_conid := n\<rparr>, word_of_int n)"
    using find_unused_conid_steps [OF refl c _ _ refl] assms(1) by (auto simp: ug_table_def)
  show thesis
    by (rule that [OF n(1,2) _ n(4)]) (use n find_conid_none [OF assms(1)] m in \<open>auto simp: uint_word_of_int\<close>)
qed

section \<open>Every operation keeps the invariant\<close>

text \<open>The packet that a connection sends.\<close>

definition udpgw_packet :: "u8 \<Rightarrow> u16 \<Rightarrow> BAddr \<Rightarrow> bytes \<Rightarrow> bytes" where
  "udpgw_packet flags conid remote data =
     (if BAddr_type remote = 2 then flags OR UDPGW_CLIENT_FLAG_IPV6 else flags) # mem16 conid @ udpgw_addr remote @ data"

lemma length_udpgw_addr: "addr_ok a \<Longrightarrow> length (udpgw_addr a) \<le> 18"
  by (cases a) auto

lemma connection_send_ok:
  assumes c: "con_ok o' con" "ug_config o'" and d: "int (length data) \<le> ug_udp_mtu o'"
  shows "\<exists>f. connection_send con flags data = Some (con\<lparr>con_flow := f\<rparr>) \<and> con_ok o' (con\<lparr>con_flow := f\<rparr>)
    \<and> (\<forall>q. pf_holds (ug_udpgw_mtu o') (ug_send_buffer_size o') (con_flow con) q \<longrightarrow>
        pf_holds (ug_udpgw_mtu o') (ug_send_buffer_size o') f
          (if bw_out (pf_ainput (con_flow con)) = None then q else q @ [udpgw_packet flags (con_id con) (remote_addr (con_addr con)) data]))"
proof -
  let ?r = "remote_addr (con_addr con)"
  let ?fl = "if BAddr_type ?r = 2 then flags OR UDPGW_CLIENT_FLAG_IPV6 else flags"
  let ?pcs = "[?fl # mem16 (con_id con), udpgw_addr ?r, data]"
  have pk: "concat ?pcs = udpgw_packet flags (con_id con) ?r data" by (simp add: udpgw_packet_def)
  have len: "int (length (concat ?pcs)) \<le> ug_udpgw_mtu o'"
    using c d length_udpgw_addr [of ?r] by (simp add: con_ok_def ug_config_def)
  obtain q0 where q0: "pf_holds (ug_udpgw_mtu o') (ug_send_buffer_size o') (con_flow con) q0" using c(1) by (auto simp: con_ok_def)
  obtain f ok where w: "pf_write (con_flow con) ?pcs = Some (f, ok)" using pf_write_ok [OF q0 len] by blast
  have h: "pf_holds (ug_udpgw_mtu o') (ug_send_buffer_size o') f
      (if bw_out (pf_ainput (con_flow con)) = None then q else q @ [udpgw_packet flags (con_id con) ?r data])"
    if "pf_holds (ug_udpgw_mtu o') (ug_send_buffer_size o') (con_flow con) q" for q
    using pf_write_ok [OF that len] w unfolding pk by (auto split: if_splits)
  have "connection_send con flags data = Some (con\<lparr>con_flow := f\<rparr>)" using w by (simp add: connection_send_def Let_def)
  moreover have "con_ok o' (con\<lparr>con_flow := f\<rparr>)" using c(1) h [OF q0] by (auto simp: con_ok_def)
  ultimately show ?thesis using h by blast
qed

lemma key_upd: "con_addr con' = con_addr con \<Longrightarrow> con_id con' = con_id con \<Longrightarrow> cons p = Some con \<Longrightarrow>
    key_addr (cons(p \<mapsto> con')) = key_addr cons \<and> key_id (cons(p \<mapsto> con')) = key_id cons"
  by (auto simp: key_addr_def key_id_def fun_eq_iff)

text \<open>What an operation on the table leaves alone.\<close>

lemma con_ok_cong [simp]:
  "con_ok (o'\<lparr>ug_cons := c\<rparr>) = con_ok o'" "con_ok (o'\<lparr>ug_list := l\<rparr>) = con_ok o'" "con_ok (o'\<lparr>ug_queue := q\<rparr>) = con_ok o'"
  "con_ok (o'\<lparr>ug_next_conid := n\<rparr>) = con_ok o'" "con_ok (o'\<lparr>ug_by_conaddr := t\<rparr>) = con_ok o'"
  "con_ok (o'\<lparr>ug_by_conid := t\<rparr>) = con_ok o'" "con_ok (o'\<lparr>ug_num := n\<rparr>) = con_ok o'"
  by (simp_all add: fun_eq_iff con_ok_def)

lemma ug_config_cong [simp]:
  "ug_config (o'\<lparr>ug_cons := c\<rparr>) = ug_config o'" "ug_config (o'\<lparr>ug_list := l\<rparr>) = ug_config o'" "ug_config (o'\<lparr>ug_queue := q\<rparr>) = ug_config o'"
  "ug_config (o'\<lparr>ug_next_conid := n\<rparr>) = ug_config o'" "ug_config (o'\<lparr>ug_by_conaddr := t\<rparr>) = ug_config o'"
  "ug_config (o'\<lparr>ug_by_conid := t\<rparr>) = ug_config o'" "ug_config (o'\<lparr>ug_num := n\<rparr>) = ug_config o'"
  by (simp_all add: ug_config_def)

lemma ug_con:
  assumes "ug_inv xs o'" "p \<in> set xs"
  obtains con where "ug_cons o' p = Some con" "con_ok o' con"
proof -
  have "p \<in> dom (ug_cons o')" using assms by (simp add: ug_inv_def ug_table_def)
  then obtain con where "ug_cons o' p = Some con" by blast
  moreover from this have "con_ok o' con" using assms(1) by (simp add: ug_inv_def ug_table_def)
  ultimately show thesis by (rule that)
qed

lemma ug_inv_update:
  assumes i: "ug_inv xs o'" and p: "ug_cons o' p = Some con" and c: "con_addr con' = con_addr con" "con_id con' = con_id con" "con_ok o' con'"
  shows "ug_inv xs (o'\<lparr>ug_cons := (ug_cons o')(p \<mapsto> con')\<rparr>)" "ug_abs (o'\<lparr>ug_cons := (ug_cons o')(p \<mapsto> con')\<rparr>) xs = ug_abs o' xs"
proof -
  have k: "key_addr ((ug_cons o')(p \<mapsto> con')) = key_addr (ug_cons o')" "key_id ((ug_cons o')(p \<mapsto> con')) = key_id (ug_cons o')"
    using key_upd [of con' con "ug_cons o'" p] c p by auto
  have "p \<in> set xs" using i p by (auto simp: ug_inv_def ug_table_def)
  then have "ug_table xs (o'\<lparr>ug_cons := (ug_cons o')(p \<mapsto> con')\<rparr>)"
    using i c(3) unfolding ug_inv_def ug_table_def by (auto simp: k)
  then show "ug_inv xs (o'\<lparr>ug_cons := (ug_cons o')(p \<mapsto> con')\<rparr>)" using i by (simp add: ug_inv_def)
  show "ug_abs (o'\<lparr>ug_cons := (ug_cons o')(p \<mapsto> con')\<rparr>) xs = ug_abs o' xs" by (simp add: ug_abs_def k)
qed

lemma touch_inv:
  assumes i: "ug_inv xs o'" and p: "p \<in> set xs"
  shows "ug_inv (remove1 p xs @ [p]) (touch_connection o' p)"
proof -
  have d: "dll (ug_list o') xs" using i by (simp add: ug_inv_def ug_table_def)
  have s: "set (remove1 p xs @ [p]) = set xs" "length (remove1 p xs @ [p]) = length xs" by (rule l1.touch_set [OF d p])+
  have "dll (LinkedList1_Append (LinkedList1_Remove (ug_list o') p) p) (remove1 p xs @ [p])" by (rule l1.holds_touch [OF d p])
  then have "ug_table (remove1 p xs @ [p]) (touch_connection o' p)"
    using i unfolding ug_inv_def ug_table_def s by (simp add: touch_connection_def)
  then show ?thesis using i unfolding ug_inv_def s by (simp add: touch_connection_def)
qed

lemma touch_abs: "ug_abs (touch_connection o' p) xs = ug_abs o' xs"
  by (simp add: ug_abs_def touch_connection_def)

lemma touch_send_inv:
  assumes i: "ug_inv xs o'" and p: "p \<in> set xs" and d: "int (length data) \<le> ug_udp_mtu o'"
  shows "\<exists>o1. with_connection (touch_connection o' p) p (\<lambda>con. connection_send con flags data) = Some o1
    \<and> ug_inv (remove1 p xs @ [p]) o1 \<and> ug_abs o1 (remove1 p xs @ [p]) = ug_abs o' (remove1 p xs @ [p])"
proof -
  let ?o = "touch_connection o' p"
  have i1: "ug_inv (remove1 p xs @ [p]) ?o" by (rule touch_inv [OF i p])
  obtain con where con: "ug_cons ?o p = Some con" "con_ok ?o con" by (rule ug_con [OF i1, of p]) auto
  then have "con_ok ?o con" "ug_config ?o" using i1 by (simp_all add: ug_inv_def)
  moreover have "int (length data) \<le> ug_udp_mtu ?o" using d by (simp add: touch_connection_def)
  ultimately obtain f where f: "connection_send con flags data = Some (con\<lparr>con_flow := f\<rparr>)" "con_ok ?o (con\<lparr>con_flow := f\<rparr>)"
    using connection_send_ok by blast
  show ?thesis
    using ug_inv_update [OF i1 con(1) _ _ f(2)] con(1) f(1) by (simp add: with_connection_def touch_abs)
qed

lemma key_other: "x \<noteq> p \<Longrightarrow> key_addr (cons(p := v)) x = key_addr cons x" "x \<noteq> p \<Longrightarrow> key_id (cons(p := v)) x = key_id cons x"
  by (simp_all add: key_addr_def key_id_def)

lemma abs_other: "p \<notin> set xs \<Longrightarrow> map (\<lambda>x. (key_id (cons(p := v)) x, key_addr (cons(p := v)) x)) xs = map (\<lambda>x. (key_id cons x, key_addr cons x)) xs"
  by (rule map_cong) (auto simp: key_addr_def key_id_def)

lemma ug_next_inv: "ug_inv xs o' \<Longrightarrow> 0 \<le> n \<Longrightarrow> n < ug_max_connections o' \<Longrightarrow> ug_inv xs (o'\<lparr>ug_next_conid := n\<rparr>)"
  by (simp add: ug_inv_def ug_table_def)

text \<open>A new connection, when a number was found and its buffers are there.\<close>

definition ug_added :: "udpgw \<Rightarrow> nat \<Rightarrow> udpgw_con \<Rightarrow> nat avl \<Rightarrow> nat avl \<Rightarrow> udpgw" where
  "ug_added o' p con t1 t2 = o'\<lparr>ug_queue := PacketPassFairQueueFlow_Init (ug_queue o') p, ug_cons := (ug_cons o')(p \<mapsto> con),
     ug_by_conaddr := t1, ug_by_conid := t2, ug_list := LinkedList1_Append (ug_list o') p, ug_num := ug_num o' + 1\<rparr>"

lemma add_connection_inv:
  assumes i: "ug_inv xs o'" and p: "p \<notin> set xs" "p \<noteq> 0" and l: "int (length xs) < ug_max_connections o'"
    and con: "con_ok o' con" "con_addr con \<notin> key_addr (ug_cons o') ` set xs" "con_id con \<notin> key_id (ug_cons o') ` set xs"
  obtains t1 t2 where "BAVL_Insert conaddr_comparator (key_addr ((ug_cons o')(p \<mapsto> con))) (ug_by_conaddr o') p = Some (t1, True)"
    "BAVL_Insert uint16_comparator (key_id ((ug_cons o')(p \<mapsto> con))) (ug_by_conid o') p = Some (t2, True)"
    "ug_inv (xs @ [p]) (ug_added o' p con t1 t2)"
    "ug_abs (ug_added o' p con t1 t2) (xs @ [p]) = ug_abs o' xs @ [(con_id con, con_addr con)]"
proof -
  let ?cons = "(ug_cons o')(p \<mapsto> con)"
  have t: "ug_table xs o'" "ug_config o'" using i by (simp_all add: ug_inv_def)
  have own: "key_addr ?cons p = con_addr con" "key_id ?cons p = con_id con" by (simp_all add: key_addr_def key_id_def)
  have e: "key_addr ?cons x = key_addr (ug_cons o') x" "key_id ?cons x = key_id (ug_cons o') x" if "x \<in> set xs" for x
    using that p(1) key_other [of x p] by auto
  have ix: "avl_index conaddr_comparator (key_addr ?cons) (ug_by_conaddr o') (set xs)"
    "avl_index uint16_comparator (key_id ?cons) (ug_by_conid o') (set xs)"
    using t(1) e by (auto simp: ug_table_def intro: index_cong)
  have "key_addr ?cons p \<notin> key_addr ?cons ` set xs" "key_id ?cons p \<notin> key_id ?cons ` set xs"
    unfolding own using con(2,3) e by (auto simp: image_iff)
  then obtain t1 t2 where t12: "BAVL_Insert conaddr_comparator (key_addr ?cons) (ug_by_conaddr o') p = Some (t1, True)"
    "avl_index conaddr_comparator (key_addr ?cons) t1 (insert p (set xs))"
    "BAVL_Insert uint16_comparator (key_id ?cons) (ug_by_conid o') p = Some (t2, True)"
    "avl_index uint16_comparator (key_id ?cons) t2 (insert p (set xs))"
    using ca.index_insert [OF ix(1)] ci.index_insert [OF ix(2)] by blast
  let ?o1 = "ug_added o' p con t1 t2"
  have "dll (LinkedList1_Append (ug_list o') p) (xs @ [p])" using l1.holds_add_tail [OF _ p(1)] t(1) by (simp add: ug_table_def)
  then have "ug_table (xs @ [p]) ?o1" using t(1) t12 p l con(1) by (auto simp: ug_table_def ug_added_def)
  moreover obtain ys where ys: "fq_part (ug_pp_mtu o') ys (ug_queue o')" "set ys = insert 0 (set xs)" using i by (auto simp: ug_inv_def)
  from fq_part_new [OF ys(1), of p] ys(2) p
  have "\<exists>ys. fq_part (ug_pp_mtu ?o1) ys (ug_queue ?o1) \<and> set ys = insert 0 (set (xs @ [p]))"
    by (intro exI [of _ "ys @ [p]"]) (auto simp: ug_added_def)
  ultimately have "ug_inv (xs @ [p]) ?o1" using t(2) by (simp add: ug_inv_def ug_added_def)
  moreover have "ug_abs ?o1 (xs @ [p]) = ug_abs o' xs @ [(con_id con, con_addr con)]" using e own by (simp add: ug_abs_def ug_added_def)
  ultimately show thesis by (rule that [OF t12(1,3)])
qed

lemma fail_connection_inv:
  assumes i: "ug_inv xs o'" and p: "p \<notin> set xs" "p \<noteq> 0"
  shows "\<exists>q. PacketPassFairQueueFlow_Free (PacketPassFairQueueFlow_Init (ug_queue o') p) p = Some q \<and> ug_inv xs (o'\<lparr>ug_queue := q\<rparr>)"
proof -
  obtain ys where ys: "fq_part (ug_pp_mtu o') ys (ug_queue o')" "set ys = insert 0 (set xs)" using i by (auto simp: ug_inv_def)
  then have n: "p \<notin> set ys" using p by simp
  obtain q where "PacketPassFairQueueFlow_Free (PacketPassFairQueueFlow_Init (ug_queue o') p) p = Some q"
    "fq_part (ug_pp_mtu o') (remove1 p (ys @ [p])) q" using fq_part_free [OF fq_part_new [OF ys(1) n], of p] by auto
  moreover have "remove1 p (ys @ [p]) = ys" using n by (simp add: remove1_append)
  ultimately show ?thesis using i ys(2) by (auto simp: ug_inv_def ug_table_def)
qed

lemma reuse_connection_inv:
  assumes i: "ug_inv (p # xs) o'" and a: "addr_ok (local_addr a)" "addr_ok (remote_addr a)" "a \<notin> key_addr (ug_cons o') ` set (p # xs)"
  shows "\<exists>o1. reuse_connection o' a = Some (o1, p) \<and> ug_inv (p # xs) o1 \<and> ug_udp_mtu o1 = ug_udp_mtu o'
    \<and> ug_abs o1 (p # xs) = (key_id (ug_cons o') p, a) # ug_abs o' xs"
proof -
  have t: "ug_table (p # xs) o'" "ug_config o'" using i by (simp_all add: ug_inv_def)
  have d: "dll (ug_list o') (p # xs)" and x: "avl_index conaddr_comparator (key_addr (ug_cons o')) (ug_by_conaddr o') (set (p # xs))"
    using t(1) by (simp_all add: ug_table_def)
  have np: "p \<notin> set xs" using l1.holds_distinct [OF d] by simp
  obtain con where con: "ug_cons o' p = Some con" "con_ok o' con" by (rule ug_con [OF i, of p]) simp
  obtain t1 where t1: "BAVL_Remove (ug_by_conaddr o') p = Some t1" "avl_index conaddr_comparator (key_addr (ug_cons o')) t1 (set xs)"
    using ca.index_remove [OF x, of p] np by auto
  let ?con = "con\<lparr>con_addr := a\<rparr>"
  let ?cons = "(ug_cons o')(p \<mapsto> ?con)"
  have own: "key_addr ?cons p = a" by (simp add: key_addr_def)
  have e: "key_addr ?cons y = key_addr (ug_cons o') y" if "y \<in> set xs" for y using that np key_other(1) [of y p] by auto
  have id: "key_id ?cons = key_id (ug_cons o')" using con(1) by (auto simp: key_id_def)
  have "avl_index conaddr_comparator (key_addr ?cons) t1 (set xs)" by (rule index_cong [OF t1(2)]) (simp add: e)
  moreover have "key_addr ?cons p \<notin> key_addr ?cons ` set xs" using a(3) e own by (auto simp: image_iff)
  ultimately obtain t2 where t2: "BAVL_Insert conaddr_comparator (key_addr ?cons) t1 p = Some (t2, True)"
    "avl_index conaddr_comparator (key_addr ?cons) t2 (set (p # xs))" using ca.index_insert by fastforce
  let ?o1 = "o'\<lparr>ug_cons := ?cons, ug_by_conaddr := t2\<rparr>"
  have "con_ok o' ?con" using con(2) a(1,2) by (simp add: con_ok_def)
  then have "ug_table (p # xs) ?o1" using t(1) t2(2) id by (auto simp: ug_table_def)
  then have "ug_inv (p # xs) ?o1" using i by (simp add: ug_inv_def)
  moreover have "reuse_connection o' a = Some (?o1, p)"
    using l1.pop_front(1) [OF d] t1(1) t2(1) con(1) by (simp add: reuse_connection_def Let_def)
  moreover have "ug_abs ?o1 (p # xs) = (key_id (ug_cons o') p, a) # ug_abs o' xs" using own e by (simp add: ug_abs_def id)
  ultimately show ?thesis by auto
qed

text \<open>Whether there is memory for a connection and its buffers.\<close>

definition gw_memory :: "allocator \<Rightarrow> udpgw \<Rightarrow> nat option \<Rightarrow> bool" where
  "gw_memory malloc o' alloc \<longleftrightarrow>
     alloc \<noteq> None \<and> PacketProtoFlow_Init malloc (ug_udpgw_mtu o') (ug_send_buffer_size o') \<noteq> None"

lemma connection_init_inv:
  assumes i: "ug_inv xs o'" and l: "int (length xs) < ug_max_connections o'" and m: "malloc_ok malloc"
    and al: "\<And>p. alloc = Some p \<Longrightarrow> p \<notin> set xs \<and> p \<noteq> 0"
    and a: "addr_ok (local_addr a)" "addr_ok (remote_addr a)" "a \<notin> key_addr (ug_cons o') ` set xs" "int (length data) \<le> ug_udp_mtu o'"
  shows "\<exists>o1 xs1. connection_init o' alloc malloc a flags data = Some o1 \<and> ug_inv xs1 o1
    \<and> (if gw_memory malloc o' alloc
        then \<exists>i. i \<notin> fst ` set (ug_abs o' xs) \<and> uint i < ug_max_connections o' \<and> ug_abs o1 xs1 = ug_abs o' xs @ [(i, a)]
        else ug_abs o1 xs1 = ug_abs o' xs)"
proof (cases alloc)
  case None
  then show ?thesis using i by (auto simp: connection_init_def gw_memory_def)
next
  case (Some p)
  then have p: "p \<notin> set xs" "p \<noteq> 0" using al by auto
  have t: "ug_table xs o'" "ug_config o'" using i by (simp_all add: ug_inv_def)
  obtain n where n: "0 \<le> n" "n < ug_max_connections o'" "word_of_int n \<notin> key_id (ug_cons o') ` set xs"
    "find_unused_conid o' = Some (o'\<lparr>ug_next_conid := n\<rparr>, word_of_int n)" "uint (word_of_int n :: u16) = n"
    by (rule find_unused_conid_ok [OF t l])
  let ?o = "o'\<lparr>ug_next_conid := n\<rparr>"
  have i1: "ug_inv xs ?o" by (rule ug_next_inv [OF i n(1,2)])
  show ?thesis
  proof (cases "PacketProtoFlow_Init malloc (ug_udpgw_mtu ?o) (ug_send_buffer_size ?o)")
    case None
    obtain q where "PacketPassFairQueueFlow_Free (PacketPassFairQueueFlow_Init (ug_queue ?o) p) p = Some q" "ug_inv xs (?o\<lparr>ug_queue := q\<rparr>)"
      using fail_connection_inv [OF i1 p] by blast
    then show ?thesis using Some n(4) None
      by (intro exI [of _ "?o\<lparr>ug_queue := q\<rparr>"] exI [of _ xs]) (simp add: connection_init_def ug_abs_def Let_def gw_memory_def)
  next
    case (Some flow)
    have "pf_holds (ug_udpgw_mtu o') (ug_send_buffer_size o') flow []"
      by (rule PacketProtoFlow_Init_holds [OF m]) (use t(2) Some in \<open>auto simp: ug_config_def\<close>)
    moreover define con where "con = \<lparr>con_addr = a, con_first_flags = flags, con_first_data = data, con_id = word_of_int n,
                                con_first_job = True, con_flow = flow\<rparr>"
    ultimately have ck: "con_ok ?o con" using a n(2,5) by (auto simp: con_ok_def)
    obtain t1 t2 where c: "BAVL_Insert conaddr_comparator (key_addr ((ug_cons ?o)(p \<mapsto> con))) (ug_by_conaddr ?o) p = Some (t1, True)"
      "BAVL_Insert uint16_comparator (key_id ((ug_cons ?o)(p \<mapsto> con))) (ug_by_conid ?o) p = Some (t2, True)"
      "ug_inv (xs @ [p]) (ug_added ?o p con t1 t2)" "ug_abs (ug_added ?o p con t1 t2) (xs @ [p]) = ug_abs ?o xs @ [(con_id con, con_addr con)]"
      by (rule add_connection_inv [OF i1 p _ ck]) (use l a(3) n(3) in \<open>auto simp: con_def\<close>)
    let ?o1 = "ug_added ?o p con t1 t2"
    have "connection_init o' alloc malloc a flags data = Some ?o1"
      using \<open>alloc = Some p\<close> n(4) Some c(1,2) by (simp add: connection_init_def Let_def con_def ug_added_def)
    moreover have "word_of_int n \<notin> fst ` set (ug_abs o' xs)" using n(3) by (auto simp: ug_abs_def)
    moreover have "ug_abs ?o1 (xs @ [p]) = ug_abs o' xs @ [(word_of_int n, a)]" using c(4) by (simp add: con_def)
    moreover have "gw_memory malloc o' alloc" using Some \<open>alloc = Some p\<close> by (simp add: gw_memory_def)
    ultimately show ?thesis using c(3) n(2,5) by (intro exI [of _ ?o1] exI [of _ "xs @ [p]"]) auto
  qed
qed


text \<open>
  What a submitted packet does to the table: the connection of its addresses becomes the most recently
  used one; or, when there is none and the table is full, the least recently used number gets the new
  addresses; or a connection with a free number is added, unless memory is short.
\<close>

definition gw_submits :: "bool \<Rightarrow> int \<Rightarrow> conaddr \<Rightarrow> (u16 \<times> conaddr) list \<Rightarrow> (u16 \<times> conaddr) list \<Rightarrow> bool" where
  "gw_submits memory n a st st' \<longleftrightarrow>
     (\<exists>i as bs. st = as @ (i, a) # bs \<and> st' = as @ bs @ [(i, a)])
     \<or> a \<notin> snd ` set st \<and> int (length st) = n \<and> (\<exists>i old rest. st = (i, old) # rest \<and> st' = rest @ [(i, a)])
     \<or> a \<notin> snd ` set st \<and> int (length st) < n \<and> (if memory then \<exists>i. i \<notin> fst ` set st \<and> uint i < n \<and> st' = st @ [(i, a)] else st' = st)"

definition gw_ca :: "BAddr \<Rightarrow> BAddr \<Rightarrow> conaddr" where
  "gw_ca loc rem = \<lparr>local_addr = loc, remote_addr = rem\<rparr>"

lemma submit_existing:
  assumes i: "ug_inv xs o'" and p: "find_connection_by_conaddr o' (gw_ca loc rem) = Some p" and d: "int (length data) \<le> ug_udp_mtu o'"
  shows "\<exists>o1 xs1. UdpGwClient_SubmitPacket o' alloc malloc loc rem dns data = Some o1 \<and> ug_inv xs1 o1
    \<and> gw_submits (gw_memory malloc o' alloc) (ug_max_connections o') (gw_ca loc rem) (ug_abs o' xs) (ug_abs o1 xs1)"
proof -
  have px: "p \<in> set xs" "key_addr (ug_cons o') p = gw_ca loc rem" using p find_conaddr [OF i] by auto
  obtain as bs where xs: "xs = as @ p # bs" "p \<notin> set as" using split_list_first [OF px(1)] by blast
  then have r: "remove1 p xs @ [p] = as @ bs @ [p]" by (simp add: remove1_append)
  let ?fl = "if dns then UDPGW_CLIENT_FLAG_DNS else 0"
  obtain o1 where o1: "with_connection (touch_connection o' p) p (\<lambda>con. connection_send con ?fl data) = Some o1"
    "ug_inv (remove1 p xs @ [p]) o1" "ug_abs o1 (remove1 p xs @ [p]) = ug_abs o' (remove1 p xs @ [p])"
    using touch_send_inv [OF i px(1) d] by blast
  have "UdpGwClient_SubmitPacket o' alloc malloc loc rem dns data = Some o1"
    using o1(1) p by (simp add: UdpGwClient_SubmitPacket_def gw_ca_def Let_def)
  moreover have "gw_submits (gw_memory malloc o' alloc) (ug_max_connections o') (gw_ca loc rem) (ug_abs o' xs) (ug_abs o1 (remove1 p xs @ [p]))"
    unfolding gw_submits_def o1(3) unfolding r
    by (rule disjI1, rule exI [of _ "key_id (ug_cons o') p"], rule exI [of _ "ug_abs o' as"], rule exI [of _ "ug_abs o' bs"])
      (simp add: ug_abs_def xs px(2))
  ultimately show ?thesis using o1(2) by blast
qed

lemma submit_reuse:
  assumes i: "ug_inv xs o'" and n: "find_connection_by_conaddr o' (gw_ca loc rem) = None" "ug_num o' = ug_max_connections o'"
    and a: "addr_ok loc" "addr_ok rem" and d: "int (length data) \<le> ug_udp_mtu o'"
  shows "\<exists>o1 xs1. UdpGwClient_SubmitPacket o' alloc malloc loc rem dns data = Some o1 \<and> ug_inv xs1 o1
    \<and> gw_submits (gw_memory malloc o' alloc) (ug_max_connections o') (gw_ca loc rem) (ug_abs o' xs) (ug_abs o1 xs1)"
proof -
  have l: "int (length xs) = ug_max_connections o'" using i n(2) by (simp add: ug_inv_def ug_table_def)
  have "0 < ug_max_connections o'" using i by (simp add: ug_inv_def ug_config_def)
  then obtain p ys where xs: "xs = p # ys" using l by (cases xs) auto
  have nk: "gw_ca loc rem \<notin> key_addr (ug_cons o') ` set xs" using n(1) find_conaddr_none [OF i] by simp
  obtain o1 where o1: "reuse_connection o' (gw_ca loc rem) = Some (o1, p)" "ug_inv (p # ys) o1" "ug_udp_mtu o1 = ug_udp_mtu o'"
    "ug_abs o1 (p # ys) = (key_id (ug_cons o') p, gw_ca loc rem) # ug_abs o' ys"
    using reuse_connection_inv [OF i [unfolded xs], of "gw_ca loc rem"] a nk xs by (auto simp: gw_ca_def)
  let ?fl = "(if dns then UDPGW_CLIENT_FLAG_DNS else 0) OR UDPGW_CLIENT_FLAG_REBIND"
  obtain o2 where o2: "with_connection (touch_connection o1 p) p (\<lambda>con. connection_send con ?fl data) = Some o2"
    "ug_inv (ys @ [p]) o2" "ug_abs o2 (ys @ [p]) = ug_abs o1 (ys @ [p])"
    using touch_send_inv [OF o1(2), of p data ?fl] d o1(3) by auto
  have "UdpGwClient_SubmitPacket o' alloc malloc loc rem dns data = Some o2"
    using o1(1) o2(1) n by (simp add: UdpGwClient_SubmitPacket_def gw_ca_def Let_def)
  moreover have "gw_submits (gw_memory malloc o' alloc) (ug_max_connections o') (gw_ca loc rem) (ug_abs o' xs) (ug_abs o2 (ys @ [p]))"
  proof -
    have "ug_abs o2 (ys @ [p]) = ug_abs o' ys @ [(key_id (ug_cons o') p, gw_ca loc rem)]"
      using o2(3) o1(4) by (simp add: ug_abs_def)
    moreover have "gw_ca loc rem \<notin> snd ` set (ug_abs o' xs)" "int (length (ug_abs o' xs)) = ug_max_connections o'"
      using nk l by (auto simp: ug_abs_def)
    ultimately show ?thesis unfolding gw_submits_def by (auto simp: xs ug_abs_def)
  qed
  ultimately show ?thesis using o2(2) by blast
qed

lemma submit_new:
  assumes i: "ug_inv xs o'" and n: "find_connection_by_conaddr o' (gw_ca loc rem) = None" "ug_num o' \<noteq> ug_max_connections o'"
    and a: "addr_ok loc" "addr_ok rem" and d: "int (length data) \<le> ug_udp_mtu o'"
    and m: "malloc_ok malloc" and al: "\<And>p. alloc = Some p \<Longrightarrow> p \<notin> set xs \<and> p \<noteq> 0"
  shows "\<exists>o1 xs1. UdpGwClient_SubmitPacket o' alloc malloc loc rem dns data = Some o1 \<and> ug_inv xs1 o1
    \<and> gw_submits (gw_memory malloc o' alloc) (ug_max_connections o') (gw_ca loc rem) (ug_abs o' xs) (ug_abs o1 xs1)"
proof -
  have l: "int (length xs) < ug_max_connections o'" using i n(2) by (simp add: ug_inv_def ug_table_def)
  have nk: "gw_ca loc rem \<notin> key_addr (ug_cons o') ` set xs" using n(1) find_conaddr_none [OF i] by simp
  let ?fl = "if dns then UDPGW_CLIENT_FLAG_DNS else 0"
  obtain o1 xs1 where o1: "connection_init o' alloc malloc (gw_ca loc rem) ?fl data = Some o1" "ug_inv xs1 o1"
    "if gw_memory malloc o' alloc
     then \<exists>i. i \<notin> fst ` set (ug_abs o' xs) \<and> uint i < ug_max_connections o' \<and> ug_abs o1 xs1 = ug_abs o' xs @ [(i, gw_ca loc rem)]
     else ug_abs o1 xs1 = ug_abs o' xs"
    using connection_init_inv [OF i l m al _ _ nk d, where flags = ?fl and alloc = alloc] a unfolding gw_ca_def by force
  have "UdpGwClient_SubmitPacket o' alloc malloc loc rem dns data = Some o1"
    using o1(1) n by (simp add: UdpGwClient_SubmitPacket_def gw_ca_def Let_def)
  moreover have "gw_ca loc rem \<notin> snd ` set (ug_abs o' xs)" "int (length (ug_abs o' xs)) < ug_max_connections o'"
    using nk l by (auto simp: ug_abs_def)
  ultimately show ?thesis using o1(2,3) unfolding gw_submits_def by blast
qed

section \<open>Packets from the server\<close>

lemma list6: "6 \<le> length xs \<Longrightarrow> \<exists>a b c d e f r. xs = a # b # c # d # e # f # r"
  by (auto simp: eval_nat_numeral Suc_le_length_iff)

lemma parse_addr_total: "udpgw_parse_addr flags data \<noteq> None"
  by (auto simp: udpgw_parse_addr_def load_def in_range_def)

lemma parse_addr_ok:
  assumes "addr_ok rm" "flags AND UDPGW_CLIENT_FLAG_IPV6 \<noteq> 0 \<longleftrightarrow> BAddr_type rm = 2"
  shows "udpgw_parse_addr flags (udpgw_addr rm @ d) = Some (Inr (rm, int (length (udpgw_addr rm))))"
proof (cases rm)
  case (BADDR_IPV4 ip port)
  have "load (mem32 ip @ mem16 port @ d) 0 6 = Some (mem32 ip @ mem16 port)" by (simp add: load_def in_range_def)
  moreover have "(mem32 ip @ mem16 port) ! 4 = mem16 port ! 0" "(mem32 ip @ mem16 port) ! 5 = mem16 port ! Suc 0"
    by (simp_all add: nth_append)
  ultimately show ?thesis using assms BADDR_IPV4 by (simp add: udpgw_parse_addr_def rd_mem32_mem32 rd_mem16_nth)
next
  case (BADDR_IPV6 ip port)
  have "load (ip @ mem16 port @ d) 0 18 = Some (ip @ mem16 port)" using assms(1) BADDR_IPV6 by (simp add: load_def in_range_def)
  moreover have "(ip @ mem16 port) ! 16 = mem16 port ! 0" "(ip @ mem16 port) ! 17 = mem16 port ! Suc 0"
    using assms(1) BADDR_IPV6 by (simp_all add: nth_append)
  ultimately show ?thesis using assms BADDR_IPV6 by (simp add: udpgw_parse_addr_def rd_mem16_nth)
qed (use assms in simp)

lemma parse_addr_inv:
  assumes "udpgw_parse_addr flags data = Some (Inr (rm, n))"
  shows "addr_ok rm" "data = udpgw_addr rm @ drop (nat n) data" "flags AND UDPGW_CLIENT_FLAG_IPV6 \<noteq> 0 \<longleftrightarrow> BAddr_type rm = 2"
proof -
  have "addr_ok rm \<and> data = udpgw_addr rm @ drop (nat n) data \<and> (flags AND UDPGW_CLIENT_FLAG_IPV6 \<noteq> 0 \<longleftrightarrow> BAddr_type rm = 2)"
  proof (cases "flags AND UDPGW_CLIENT_FLAG_IPV6 \<noteq> 0")
    case True
    then have l: "18 \<le> length data" and r: "rm = BADDR_IPV6 (take 16 data) (rd_mem16 (data ! 16) (data ! 17))" "n = 18"
      using assms by (auto simp: udpgw_parse_addr_def load_def in_range_def split: if_splits)
    have "data = take 16 data @ [data ! 16, data ! 17] @ drop 18 data"
      using l id_take_nth_drop [of 16 data] Cons_nth_drop_Suc [of 17 data] by simp
    then show ?thesis using True r l by (simp add: mem16_rd_mem16)
  next
    case False
    then have l: "6 \<le> length data" and r: "rm = BADDR_IPV4 (rd_mem32 (take 6 data)) (rd_mem16 (data ! 4) (data ! 5))" "n = 6"
      using assms by (auto simp: udpgw_parse_addr_def load_def in_range_def split: if_splits)
    obtain a b c d e f y where "data = a # b # c # d # e # f # y" using list6 [OF l] by blast
    moreover from this have "mem32 (rd_mem32 (take 6 data)) = [a, b, c, d]"
      using mem32_rd_mem32 [of "[a, b, c, d]"] by (simp add: rd_mem32_def)
    ultimately show ?thesis using False r by (simp add: mem16_rd_mem16)
  qed
  then show "addr_ok rm" "data = udpgw_addr rm @ drop (nat n) data" "flags AND UDPGW_CLIENT_FLAG_IPV6 \<noteq> 0 \<longleftrightarrow> BAddr_type rm = 2" by auto
qed

lemma gw_recv_short: "length data < 3 \<Longrightarrow> recv_interface_handler_send o' data = Some (o', GwMissingHeader)"
  by (simp add: recv_interface_handler_send_def)

lemma recv_bad_addr:
  "udpgw_parse_addr f y = Some (Inl err) \<Longrightarrow> recv_interface_handler_send o' (f # a # b # y) = Some (o', err)"
  by (simp add: recv_interface_handler_send_def load_def in_range_def Let_def)

lemma recv_good_addr:
  "udpgw_parse_addr f y = Some (Inr (rm, n)) \<Longrightarrow> recv_interface_handler_send o' (f # a # b # y) =
     (if int (length (drop (nat n) y)) > ug_udp_mtu o' then Some (o', GwTooMuch)
      else case find_connection_by_conid o' (rd_mem16 a b) of
        None \<Rightarrow> Some (o', GwUnknownConid)
      | Some p \<Rightarrow>
          (case ug_cons o' p of
             None \<Rightarrow> None
           | Some con \<Rightarrow>
               if remote_addr (con_addr con) \<noteq> rm then Some (o', GwWrongRemote)
               else Some (touch_connection o' p, GwReceived (local_addr (con_addr con)) rm (drop (nat n) y))))"
  by (auto simp: recv_interface_handler_send_def load_def in_range_def Let_def BAddr_CompareOrder_zero split: option.splits)

lemma parse_err: "udpgw_parse_addr f y = Some (Inl err) \<Longrightarrow> err = GwMissingIpv6 \<or> err = GwMissingIpv4"
  by (auto simp: udpgw_parse_addr_def split: if_splits)

lemma recv_total:
  assumes i: "ug_inv xs o'"
  obtains o1 r xs1 where "recv_interface_handler_send o' data = Some (o1, r)" "ug_inv xs1 o1"
    "\<And>l rm d. r = GwReceived l rm d \<Longrightarrow> \<exists>f conid. data = f # mem16 conid @ udpgw_addr rm @ d
       \<and> (f AND UDPGW_CLIENT_FLAG_IPV6 \<noteq> 0 \<longleftrightarrow> BAddr_type rm = 2) \<and> (conid, gw_ca l rm) \<in> set (ug_abs o' xs) \<and> int (length d) \<le> ug_udp_mtu o'"
proof (cases "length data < 3")
  case True
  from that [OF gw_recv_short [OF this] i] show thesis by simp
next
  case False
  then obtain f a b y where data: "data = f # a # b # y" by (auto simp: eval_nat_numeral not_less Suc_le_length_iff)
  obtain res where res: "udpgw_parse_addr f y = Some res" using parse_addr_total [of f y] by auto
  have t: "ug_table xs o'" using i by (simp add: ug_inv_def)
  show thesis
  proof (cases res)
    case (Inl err)
    have "recv_interface_handler_send o' data = Some (o', err)" using recv_bad_addr res Inl data by simp
    from that [OF this i] show thesis using parse_err [of f y err] res Inl by auto
  next
    case (Inr rn)
    obtain rm n where rn: "rn = (rm, n)" by (cases rn)
    note P = parse_addr_inv [OF res [unfolded Inr rn]]
    note R = recv_good_addr [OF res [unfolded Inr rn], of o' a b]
    show thesis
    proof (cases "\<exists>p con. find_connection_by_conid o' (rd_mem16 a b) = Some p \<and> ug_cons o' p = Some con
        \<and> remote_addr (con_addr con) = rm \<and> int (length (drop (nat n) y)) \<le> ug_udp_mtu o'")
      case True
      then obtain p con where p: "find_connection_by_conid o' (rd_mem16 a b) = Some p" "ug_cons o' p = Some con"
        "remote_addr (con_addr con) = rm" "int (length (drop (nat n) y)) \<le> ug_udp_mtu o'" by blast
      have px: "p \<in> set xs" "key_id (ug_cons o') p = rd_mem16 a b" using find_conid [OF t] p(1) by auto
      have "(rd_mem16 a b, gw_ca (local_addr (con_addr con)) rm) \<in> set (ug_abs o' xs)"
        using px p(2,3) by (force simp: ug_abs_def key_addr_def gw_ca_def)
      moreover have "data = f # mem16 (rd_mem16 a b) @ udpgw_addr rm @ drop (nat n) y" using data P(2) by (simp add: mem16_rd_mem16)
      moreover have "recv_interface_handler_send o' data = Some (touch_connection o' p, GwReceived (local_addr (con_addr con)) rm (drop (nat n) y))"
        using R p data by simp
      ultimately show thesis using that [OF _ touch_inv [OF i px(1)]] p(4) P(3) by blast
    next
      case False
      have "\<exists>r. recv_interface_handler_send o' data = Some (o', r) \<and> (\<forall>l rm d. r \<noteq> GwReceived l rm d)"
      proof (cases "find_connection_by_conid o' (rd_mem16 a b)")
        case None
        then show ?thesis using R data by simp
      next
        case (Some p)
        have "p \<in> set xs" using find_conid [OF t] Some by auto
        then obtain con where "ug_cons o' p = Some con" by (rule ug_con [OF i])
        then show ?thesis using R data Some False by auto
      qed
      then show thesis using that [OF _ i] by blast
    qed
  qed
qed

lemma recv_delivers:
  assumes i: "ug_inv xs o'" and c: "(conid, gw_ca l rm) \<in> set (ug_abs o' xs)" and d: "int (length d) \<le> ug_udp_mtu o'"
    and f: "f AND UDPGW_CLIENT_FLAG_IPV6 \<noteq> 0 \<longleftrightarrow> BAddr_type rm = 2"
  shows "\<exists>o1. recv_interface_handler_send o' (f # mem16 conid @ udpgw_addr rm @ d) = Some (o1, GwReceived l rm d)"
proof -
  have t: "ug_table xs o'" using i by (simp add: ug_inv_def)
  obtain p where p: "p \<in> set xs" "key_id (ug_cons o') p = conid" "key_addr (ug_cons o') p = gw_ca l rm" using c by (auto simp: ug_abs_def)
  obtain con where con: "ug_cons o' p = Some con" "con_ok o' con" by (rule ug_con [OF i p(1)])
  have a: "con_addr con = gw_ca l rm" using p(3) con(1) by (simp add: key_addr_def)
  have "addr_ok rm" using con(2) a by (simp add: con_ok_def gw_ca_def)
  from parse_addr_ok [OF this f, of d]
  have "udpgw_parse_addr f (udpgw_addr rm @ d) = Some (Inr (rm, int (length (udpgw_addr rm))))" .
  from recv_good_addr [OF this, of o' "ucast conid" "ucast (drop_bit 8 conid)"] find_conid [OF t, of conid p] p con(1) a d
  show ?thesis by (simp add: mem16_def rd_mem16_mem16 gw_ca_def)
qed

section \<open>Freeing the client\<close>

lemma connection_free_inv:
  assumes i: "ug_inv xs o'" and p: "p \<in> set xs"
  shows "\<exists>o1. connection_free o' p = Some o1 \<and> ug_inv (remove1 p xs) o1"
proof -
  have t: "ug_table xs o'" "ug_config o'" using i by (simp_all add: ug_inv_def)
  have d: "dll (ug_list o') xs" using t(1) by (simp add: ug_table_def)
  have s: "set (remove1 p xs) = set xs - {p}" using l1.holds_distinct [OF d] by simp
  have len: "int (length (remove1 p xs)) = int (length xs) - 1" using p by (cases "length xs") (simp_all add: length_remove1)
  obtain t1 t2 where t12: "BAVL_Remove (ug_by_conaddr o') p = Some t1"
    "avl_index conaddr_comparator (key_addr (ug_cons o')) t1 (set xs - {p})"
    "BAVL_Remove (ug_by_conid o') p = Some t2" "avl_index uint16_comparator (key_id (ug_cons o')) t2 (set xs - {p})"
    using ca.index_remove [of "key_addr (ug_cons o')" "ug_by_conaddr o'" "set xs" p] ci.index_remove [of "key_id (ug_cons o')" "ug_by_conid o'" "set xs" p]
      t(1) p by (auto simp: ug_table_def)
  obtain ys where ys: "fq_part (ug_pp_mtu o') ys (ug_queue o')" "set ys = insert 0 (set xs)" using i by (auto simp: ug_inv_def)
  have p0: "p \<noteq> 0" using t(1) p by (auto simp: ug_table_def)
  obtain q where q: "PacketPassFairQueueFlow_Free (ug_queue o') p = Some q" "fq_part (ug_pp_mtu o') (remove1 p ys) q"
    using fq_part_free [OF ys(1), of p] ys(2) p by auto
  have "set (remove1 p ys) = insert 0 (set (remove1 p xs))"
    using l1.holds_distinct [of "fq_list (ug_queue o')" ys] ys p0 s by (auto simp: fq_part_def)
  moreover let ?o = "o'\<lparr>ug_num := ug_num o' - 1, ug_list := LinkedList1_Remove (ug_list o') p, ug_by_conid := t2,
     ug_by_conaddr := t1, ug_queue := q, ug_cons := (ug_cons o')(p := None)\<rparr>"
  have "avl_index conaddr_comparator (key_addr ((ug_cons o')(p := None))) t1 (set xs - {p})"
    "avl_index uint16_comparator (key_id ((ug_cons o')(p := None))) t2 (set xs - {p})"
    using index_cong [OF t12(2)] index_cong [OF t12(4)] key_other by (metis DiffE insertI1)+
  then have "ug_table (remove1 p xs) ?o"
    using t(1) l1.holds_del [OF d p] s len by (auto simp: ug_table_def split: if_splits)
  ultimately have "ug_inv (remove1 p xs) ?o" using t(2) q(2) by (auto simp: ug_inv_def)
  moreover have "connection_free o' p = Some ?o" using t12 q(1) by (simp add: connection_free_def)
  ultimately show ?thesis by blast
qed

lemma free_connections_inv: "ug_inv xs o' \<Longrightarrow> \<exists>o1. free_connections o' = Some o1 \<and> ug_inv [] o1"
proof (induction xs arbitrary: o')
  case Nil
  then have "LinkedList1_IsEmpty (ug_list o')" using dll_IsEmpty [of "ug_list o'" "[]"] by (simp add: ug_inv_def ug_table_def)
  then show ?case using Nil by (subst free_connections.simps) simp
next
  case (Cons p xs)
  have d: "dll (ug_list o') (p # xs)" using Cons.prems by (simp add: ug_inv_def ug_table_def)
  obtain o1 where o1: "connection_free o' p = Some o1" "ug_inv xs o1" using connection_free_inv [OF Cons.prems, of p] by auto
  have "free_connections o' = free_connections o1"
    using dll_IsEmpty [OF d] l1.pop_front(1) [OF d] o1(1) by (subst free_connections.simps) simp
  then show ?case using Cons.IH [OF o1(2)] by simp
qed

lemma client_free_ok:
  assumes "ug_inv xs o'"
  shows "\<exists>o1. UdpGwClient_Free o' = Some o1 \<and> ug_cons o1 = Map.empty \<and> ug_num o1 = 0 \<and> ug_by_conaddr o1 = Lf \<and> ug_by_conid o1 = Lf
    \<and> LinkedList1_IsEmpty (ug_list o1) \<and> LinkedList1_IsEmpty (fq_list (ug_queue o1)) \<and> fq_tree (ug_queue o1) = Lf"
proof -
  let ?o = "o'\<lparr>ug_queue := PacketPassFairQueue_PrepareFree (ug_queue o')\<rparr>"
  have "ug_inv xs ?o"
    using assms by (auto simp: ug_inv_def ug_table_def fq_part_def fq_queued_ok_def PacketPassFairQueue_PrepareFree_def)
  then obtain o1 where o1: "free_connections ?o = Some o1" "ug_inv [] o1" using free_connections_inv by blast
  let ?o2 = "if ug_have_server o1 then free_server o1 else o1"
  obtain ys where ys: "fq_part (ug_pp_mtu o1) ys (ug_queue o1)" "set ys = {0}" using o1(2) by (auto simp: ug_inv_def)
  obtain q where q: "PacketPassFairQueueFlow_Free (ug_queue o1) 0 = Some q" "fq_part (ug_pp_mtu o1) (remove1 0 ys) q"
    using fq_part_free [OF ys(1), of 0] ys(2) by auto
  have "set (remove1 0 ys) = {}" using ys l1.holds_distinct [of "fq_list (ug_queue o1)" ys] by (auto simp: fq_part_def)
  then have "dll (fq_list q) []" "fq_tree q = Lf" using q(2) fq_set_nil [of "fq_tree q"] by (auto simp: fq_part_def fq_queued_ok_def)
  moreover have "ug_cons o1 = Map.empty" "ug_num o1 = 0" "dll (ug_list o1) []" "set (ainorder (ug_by_conaddr o1)) = {}"
    "set (ainorder (ug_by_conid o1)) = {}" using o1(2) by (auto simp: ug_inv_def ug_table_def avl_index_def)
  moreover have "UdpGwClient_Free o' = Some (?o2\<lparr>ug_queue := q\<rparr>)"
    using o1(1) q(1) by (simp add: UdpGwClient_Free_def free_server_def Let_def)
  ultimately show ?thesis using dll_IsEmpty [of _ "[]"] fq_set_nil
    by (intro exI [of _ "?o2\<lparr>ug_queue := q\<rparr>"]) (auto simp: free_server_def)
qed

section \<open>The running client\<close>

lemma udpgw_compute_mtu_eq: "0 \<le> d \<Longrightarrow> d + 22 \<le> INT_MAX \<Longrightarrow> udpgw_compute_mtu d = d + 22"
  by (simp add: udpgw_compute_mtu_def bsize_defs bsize_fromint_def bsize_toint_def INT_MAX_def SIZE_MAX_def)

lemma client_init_inv:
  assumes "UdpGwClient_Init flows nodes list_nodes udp_mtu max_connections send_buffer_size = Some o0"
    and "0 \<le> udp_mtu" "udp_mtu + 22 \<le> INT_MAX" "0 < max_connections" "0 < send_buffer_size"
    and "4 * ChunkBuffer2_calc_blocks (PACKETPROTO_ENCLEN (udp_mtu + 22)) send_buffer_size \<le> INT_MAX"
  shows "ug_inv [] o0"
proof -
  obtain q where q: "PacketPassFairQueue_Init flows nodes (udp_mtu + 22 + 2) False 1 = Some q"
    using assms(1) udpgw_compute_mtu_eq [OF assms(2,3)] by (auto simp: UdpGwClient_Init_def Let_def split: option.splits)
  from fq_part_new [OF fq_part_init [OF q], of 0] have "fq_part m [0] (PacketPassFairQueueFlow_Init q 0)" for m by simp
  moreover have "ug_queue o0 = PacketPassFairQueueFlow_Init q 0" "ug_list o0 = LinkedList1_Init list_nodes"
    using assms(1) q udpgw_compute_mtu_eq [OF assms(2,3)] by (auto simp: UdpGwClient_Init_def Let_def)
  moreover have "ug_config o0" using assms q udpgw_compute_mtu_eq [OF assms(2,3)]
    by (auto simp: UdpGwClient_Init_def Let_def ug_config_def)
  moreover have "ug_table [] o0" using assms(1,4) q udpgw_compute_mtu_eq [OF assms(2,3)] dll_Init [of list_nodes]
    by (auto simp: UdpGwClient_Init_def Let_def ug_table_def avl_index_def)
  ultimately show ?thesis by (auto simp: ug_inv_def intro: exI [of _ "[0]"])
qed

text \<open>
  What can happen to a client: a datagram from a local program, with the address of a new connection
  when one can be allocated; a connection's jobs; its first packet; a packet of it taken for the
  server; a packet from the server; a keepalive and its end; and the server coming and going.
\<close>

datatype gw_event = GwSubmit "nat option" BAddr BAddr bool bytes | GwFirst nat | GwRoom nat | GwTaken nat | GwRecv bytes
  | GwKeepalive | GwKeepaliveDone | GwConnect | GwDisconnect

definition gw_step :: "allocator \<Rightarrow> udpgw \<Rightarrow> gw_event \<Rightarrow> udpgw option" where
  "gw_step malloc o' e =
     (case e of
        GwSubmit alloc loc rem is_dns data \<Rightarrow> UdpGwClient_SubmitPacket o' alloc malloc loc rem is_dns data
      | GwFirst p \<Rightarrow> with_connection o' p connection_first_job_handler
      | GwRoom p \<Rightarrow> with_connection o' p (\<lambda>con. Some (con\<lparr>con_flow := pf_jobs (con_flow con)\<rparr>))
      | GwTaken p \<Rightarrow> with_connection o' p (\<lambda>con. map_option (\<lambda>(f, _). con\<lparr>con_flow := f\<rparr>) (pf_take (con_flow con)))
      | GwRecv data \<Rightarrow> map_option fst (recv_interface_handler_send o' data)
      | GwKeepalive \<Rightarrow> Some (fst (send_monitor_handler o'))
      | GwKeepaliveDone \<Rightarrow> Some (keepalive_if_handler_done o')
      | GwConnect \<Rightarrow> Some (fst (UdpGwClient_ConnectServer o' malloc))
      | GwDisconnect \<Rightarrow> Some (UdpGwClient_DisconnectServer o'))"

text \<open>The events that the callers can bring about.\<close>

definition gw_allowed :: "udpgw \<Rightarrow> gw_event \<Rightarrow> bool" where
  "gw_allowed o' e \<longleftrightarrow>
     (case e of
        GwSubmit alloc loc rem is_dns data \<Rightarrow>
          addr_ok loc \<and> addr_ok rem \<and> int (length data) \<le> ug_udp_mtu o' \<and> (case alloc of None \<Rightarrow> True | Some p \<Rightarrow> ug_cons o' p = None \<and> p \<noteq> 0)
      | GwFirst p \<Rightarrow> (case ug_cons o' p of None \<Rightarrow> False | Some con \<Rightarrow> con_first_job con)
      | GwRoom p \<Rightarrow> ug_cons o' p \<noteq> None
      | GwTaken p \<Rightarrow> ug_cons o' p \<noteq> None
      | GwConnect \<Rightarrow> \<not> ug_have_server o'
      | GwDisconnect \<Rightarrow> ug_have_server o'
      | _ \<Rightarrow> True)"


definition gw_params :: "int \<Rightarrow> int \<Rightarrow> int \<Rightarrow> bool" where
  "gw_params udp_mtu max_connections send_buffer_size \<longleftrightarrow>
     0 \<le> udp_mtu \<and> udp_mtu + 22 \<le> INT_MAX \<and> 0 < max_connections \<and> 0 < send_buffer_size
     \<and> 4 * ChunkBuffer2_calc_blocks (PACKETPROTO_ENCLEN (udp_mtu + 22)) send_buffer_size \<le> INT_MAX"

inductive gw_reach :: "allocator \<Rightarrow> udpgw \<Rightarrow> bool" for malloc where
  Started: "UdpGwClient_Init flows nodes list_nodes udp_mtu max_connections send_buffer_size = Some o' \<Longrightarrow>
    gw_params udp_mtu max_connections send_buffer_size \<Longrightarrow> gw_reach malloc o'"
| Stepped: "gw_reach malloc o' \<Longrightarrow> gw_allowed o' e \<Longrightarrow> gw_step malloc o' e = Some o1 \<Longrightarrow> gw_reach malloc o1"

lemma step_with:
  assumes i: "ug_inv xs o'" and p: "ug_cons o' p = Some con" and f: "f con = Some con'"
    and c: "con_addr con' = con_addr con" "con_id con' = con_id con" "con_ok o' con'"
  shows "\<exists>o1. with_connection o' p f = Some o1 \<and> ug_inv xs o1 \<and> ug_abs o1 xs = ug_abs o' xs"
  using ug_inv_update [OF i p c] p f by (simp add: with_connection_def)

lemma con_known: "ug_inv xs o' \<Longrightarrow> ug_cons o' p = Some con \<Longrightarrow> con_ok o' con \<and> ug_config o'"
  by (auto simp: ug_inv_def ug_table_def)

lemma first_inv:
  assumes i: "ug_inv xs o'" and p: "ug_cons o' p = Some con"
  shows "\<exists>o1. with_connection o' p connection_first_job_handler = Some o1 \<and> ug_inv xs o1 \<and> ug_abs o1 xs = ug_abs o' xs"
proof -
  let ?con = "con\<lparr>con_first_job := False\<rparr>" and ?fl = "UDPGW_CLIENT_FLAG_REBIND OR con_first_flags con"
  have k: "con_ok o' con" "ug_config o'" using con_known [OF i p] by simp_all
  then have k1: "con_ok o' ?con" "int (length (con_first_data con)) \<le> ug_udp_mtu o'" by (simp_all add: con_ok_def)
  obtain f where "connection_send ?con ?fl (con_first_data con) = Some (?con\<lparr>con_flow := f\<rparr>)" "con_ok o' (?con\<lparr>con_flow := f\<rparr>)"
    using connection_send_ok [OF k1(1) k(2) k1(2)] by blast
  then show ?thesis by (intro step_with [OF i p]) (simp_all add: connection_first_job_handler_def)
qed

lemma room_inv:
  assumes i: "ug_inv xs o'" and p: "ug_cons o' p = Some con"
  shows "\<exists>o1. with_connection o' p (\<lambda>con. Some (con\<lparr>con_flow := pf_jobs (con_flow con)\<rparr>)) = Some o1 \<and> ug_inv xs o1 \<and> ug_abs o1 xs = ug_abs o' xs"
proof -
  have "con_ok o' (con\<lparr>con_flow := pf_jobs (con_flow con)\<rparr>)"
    using con_known [OF i p] pf_jobs_holds [of "ug_udpgw_mtu o'" "ug_send_buffer_size o'" "con_flow con"] unfolding con_ok_def by auto
  then show ?thesis by (intro step_with [OF i p refl]) simp_all
qed

lemma taken_inv:
  assumes i: "ug_inv xs o'" and p: "ug_cons o' p = Some con"
  shows "\<exists>o1. with_connection o' p (\<lambda>con. map_option (\<lambda>(f, _). con\<lparr>con_flow := f\<rparr>) (pf_take (con_flow con))) = Some o1 \<and> ug_inv xs o1 \<and> ug_abs o1 xs = ug_abs o' xs"
proof -
  obtain q where q: "pf_holds (ug_udpgw_mtu o') (ug_send_buffer_size o') (con_flow con) q" using con_known [OF i p] by (auto simp: con_ok_def)
  obtain f r where f: "pf_take (con_flow con) = Some (f, r)" "\<exists>q. pf_holds (ug_udpgw_mtu o') (ug_send_buffer_size o') f q"
    using q pf_take_ok pf_take_nil by (cases q) blast+
  show ?thesis by (rule step_with [OF i p, of _ "con\<lparr>con_flow := f\<rparr>"]) (use f con_known [OF i p] in \<open>auto simp: con_ok_def\<close>)
qed

lemma submit_inv:
  assumes i: "ug_inv xs o'" and m: "malloc_ok malloc" and a: "gw_allowed o' (GwSubmit alloc loc rem dns data)"
  shows "\<exists>o1 xs1. UdpGwClient_SubmitPacket o' alloc malloc loc rem dns data = Some o1 \<and> ug_inv xs1 o1
    \<and> gw_submits (gw_memory malloc o' alloc) (ug_max_connections o') (gw_ca loc rem) (ug_abs o' xs) (ug_abs o1 xs1)"
proof -
  have a1: "addr_ok loc" "addr_ok rem" "int (length data) \<le> ug_udp_mtu o'" and al: "alloc = Some p \<Longrightarrow> ug_cons o' p = None \<and> p \<noteq> 0" for p
    using a by (auto simp: gw_allowed_def)
  have "dom (ug_cons o') = set xs" using i by (simp add: ug_inv_def ug_table_def)
  then have al': "alloc = Some p \<Longrightarrow> p \<notin> set xs \<and> p \<noteq> 0" for p using al by blast
  show ?thesis
    using submit_existing [OF i _ a1(3)] submit_reuse [OF i _ _ a1] submit_new [OF i _ _ a1 m al']
    by (cases "find_connection_by_conaddr o' (gw_ca loc rem)") blast+
qed

lemma ug_inv_server [simp]:
  "ug_inv xs (o'\<lparr>ug_keepalive_sending := b\<rparr>) = ug_inv xs o'" "ug_inv xs (o'\<lparr>ug_have_server := b\<rparr>) = ug_inv xs o'"
  "ug_inv xs (o'\<lparr>ug_decoder := d\<rparr>) = ug_inv xs o'"
  by (simp_all add: ug_inv_def ug_config_def ug_table_def con_ok_def)

lemma recv_same:
  assumes "ug_inv xs o'" "recv_interface_handler_send o' data = Some (o1, r)"
  shows "o1 = o' \<or> (\<exists>p\<in>set xs. o1 = touch_connection o' p)"
proof -
  have "o1 = o' \<or> (\<exists>p conid. find_connection_by_conid o' conid = Some p \<and> o1 = touch_connection o' p)"
    using assms(2) by (auto simp: recv_interface_handler_send_def Let_def split: if_splits option.splits sum.splits) blast+
  then show ?thesis using find_conid [of xs o'] assms(1) by (auto simp: ug_inv_def)
qed

lemma recv_table:
  assumes i: "ug_inv xs o'"
  shows "\<exists>o1 r xs1. recv_interface_handler_send o' data = Some (o1, r) \<and> ug_inv xs1 o1 \<and> set (ug_abs o1 xs1) = set (ug_abs o' xs)"
proof -
  obtain o1 r xs1 where r: "recv_interface_handler_send o' data = Some (o1, r)" by (rule recv_total [OF i])
  then consider "o1 = o'" | p where "p \<in> set xs" "o1 = touch_connection o' p" using recv_same [OF i] by blast
  then show ?thesis
  proof cases
    case (2 p)
    have "set (remove1 p xs @ [p]) = set xs"
      using 2(1) i l1.holds_distinct [of "ug_list o'" xs] by (auto simp: ug_inv_def ug_table_def)
    then have "set (ug_abs o1 (remove1 p xs @ [p])) = set (ug_abs o' xs)" unfolding 2(2) touch_abs by (simp only: ug_abs_def set_map)
    then show ?thesis using r touch_inv [OF i 2(1)] 2(2) by blast
  qed (use r i in blast)
qed

text \<open>What an event does to the table.\<close>

fun gw_changes :: "allocator \<Rightarrow> udpgw \<Rightarrow> gw_event \<Rightarrow> (u16 \<times> conaddr) list \<Rightarrow> (u16 \<times> conaddr) list \<Rightarrow> bool" where
  "gw_changes malloc o' (GwSubmit alloc loc rem is_dns data) st st1 \<longleftrightarrow>
     gw_submits (gw_memory malloc o' alloc) (ug_max_connections o') (gw_ca loc rem) st st1"
| "gw_changes malloc o' e st st1 \<longleftrightarrow> set st1 = set st"

lemma gw_step_table:
  assumes i: "ug_inv xs o'" and m: "malloc_ok malloc" and a: "gw_allowed o' e"
  shows "\<exists>o1 xs1. gw_step malloc o' e = Some o1 \<and> ug_inv xs1 o1 \<and> gw_changes malloc o' e (ug_abs o' xs) (ug_abs o1 xs1)"
proof (cases e)
  case (GwSubmit alloc loc rem dns data)
  then show ?thesis using submit_inv [OF i m a [unfolded GwSubmit]] by (auto simp: gw_step_def)
next
  case (GwFirst p)
  then show ?thesis using first_inv [OF i] a by (fastforce simp: gw_step_def gw_allowed_def split: option.splits)
next
  case (GwRoom p)
  then show ?thesis using room_inv [OF i] a by (fastforce simp: gw_step_def gw_allowed_def)
next
  case (GwTaken p)
  then show ?thesis using taken_inv [OF i] a by (fastforce simp: gw_step_def gw_allowed_def)
next
  case (GwRecv data)
  then show ?thesis using recv_table [OF i, of data] by (auto simp: gw_step_def)
qed (use i in \<open>auto simp: gw_step_def send_monitor_handler_def keepalive_if_handler_done_def UdpGwClient_ConnectServer_def
  UdpGwClient_DisconnectServer_def free_server_def ug_abs_def split: option.splits\<close>)

lemma gw_step_ok:
  assumes "ug_inv xs o'" "malloc_ok malloc" "gw_allowed o' e"
  shows "\<exists>o1 xs1. gw_step malloc o' e = Some o1 \<and> ug_inv xs1 o1"
  using gw_step_table [OF assms] by blast

text \<open>The MTU is fixed, and only connecting and disconnecting change whether there is a server.\<close>

lemma find_unused_mtu: "ug_inv xs o' \<Longrightarrow> int (length xs) < ug_max_connections o' \<Longrightarrow> find_unused_conid o' = Some (o1, i) \<Longrightarrow>
    ug_udp_mtu o1 = ug_udp_mtu o' \<and> ug_have_server o1 = ug_have_server o'"
  using find_unused_conid_ok [of xs o'] by (fastforce simp: ug_inv_def)

lemma with_mtu: "with_connection o' p f = Some o1 \<Longrightarrow> ug_udp_mtu o1 = ug_udp_mtu o' \<and> ug_have_server o1 = ug_have_server o'"
  by (auto simp: with_connection_def split: option.splits)

lemma submit_mtu:
  assumes i: "ug_inv xs o'" and s: "UdpGwClient_SubmitPacket o' alloc malloc loc rem dns data = Some o1"
  shows "ug_udp_mtu o1 = ug_udp_mtu o' \<and> ug_have_server o1 = ug_have_server o'"
proof (cases "find_connection_by_conaddr o' \<lparr>local_addr = loc, remote_addr = rem\<rparr>")
  case (Some p)
  then show ?thesis using s with_mtu by (fastforce simp: UdpGwClient_SubmitPacket_def touch_connection_def Let_def)
next
  case None
  show ?thesis
  proof (cases "ug_num o' = ug_max_connections o'")
    case True
    then show ?thesis using s None with_mtu
      by (fastforce simp: UdpGwClient_SubmitPacket_def touch_connection_def reuse_connection_def Let_def split: option.splits)
  next
    case False
    then have "int (length xs) < ug_max_connections o'" using i by (simp add: ug_inv_def ug_table_def)
    then show ?thesis using s None False find_unused_mtu [OF i]
      by (fastforce simp: UdpGwClient_SubmitPacket_def connection_init_def Let_def split: option.splits)
  qed
qed

lemma gw_step_mtu:
  assumes i: "ug_inv xs o'" and s: "gw_step malloc o' e = Some o1"
  shows "ug_udp_mtu o1 = ug_udp_mtu o'"
proof (cases e)
  case (GwRecv data)
  then show ?thesis using s recv_same [OF i, of data] by (auto simp: gw_step_def touch_connection_def)
qed (use s submit_mtu [OF i] with_mtu in \<open>auto simp: gw_step_def send_monitor_handler_def keepalive_if_handler_done_def
  UdpGwClient_ConnectServer_def UdpGwClient_DisconnectServer_def free_server_def split: option.splits\<close>)

lemma gw_reach_inv:
  assumes "gw_reach malloc o'" "malloc_ok malloc"
  shows "\<exists>xs. ug_inv xs o'"
  using assms
proof (induction rule: gw_reach.induct)
  case (Started flows nodes list_nodes udp_mtu max_connections send_buffer_size o')
  then show ?case using client_init_inv [OF Started(1)] unfolding gw_params_def by blast
next
  case (Stepped o' e o1)
  then show ?case using gw_step_ok by fastforce
qed

section \<open>The table of connections\<close>

text \<open>The numbers and addresses of the connections, in the order of their last use.\<close>

definition gw_table :: "udpgw \<Rightarrow> (u16 \<times> conaddr) list option" where
  "gw_table o' = map_option (ug_abs o') (LinkedList1_walk (nat (ug_num o')) (ug_list o') (LinkedList1_GetFirst (ug_list o')))"

lemma gw_table_inv: "ug_inv xs o' \<Longrightarrow> gw_table o' = Some (ug_abs o' xs)"
  using l1.holds_walk [of "ug_list o'" xs "length xs"] by (simp add: gw_table_def ug_inv_def ug_table_def)

lemma ug_abs_distinct:
  assumes "ug_inv xs o'"
  shows "distinct (map fst (ug_abs o' xs))" "distinct (map snd (ug_abs o' xs))"
proof -
  have x: "distinct xs" using assms l1.holds_distinct by (auto simp: ug_inv_def ug_table_def)
  have t: "ug_table xs o'" using assms by (simp add: ug_inv_def)
  have "inj_on (key_id (ug_cons o')) (set xs)" by (rule inj_onI) (metis find_conid [OF t] option.inject)
  moreover have "inj_on (key_addr (ug_cons o')) (set xs)" by (rule inj_onI) (metis find_conaddr [OF assms] option.inject)
  ultimately show "distinct (map fst (ug_abs o' xs))" "distinct (map snd (ug_abs o' xs))"
    using x by (simp_all add: ug_abs_def distinct_map comp_def)
qed

definition gw_table_ok :: "udpgw \<Rightarrow> (u16 \<times> conaddr) list \<Rightarrow> bool" where
  "gw_table_ok o' st \<longleftrightarrow> distinct (map fst st) \<and> distinct (map snd st) \<and> int (length st) = ug_num o' \<and> ug_num o' \<le> ug_max_connections o'
     \<and> (\<forall>(i, a) \<in> set st. uint i < ug_max_connections o' \<and> addr_ok (local_addr a) \<and> addr_ok (remote_addr a))
     \<and> (\<forall>i. find_connection_by_conid o' i \<noteq> None \<longleftrightarrow> i \<in> fst ` set st)
     \<and> (\<forall>a. find_connection_by_conaddr o' a \<noteq> None \<longleftrightarrow> a \<in> snd ` set st)"

lemma ug_abs_ok:
  assumes i: "ug_inv xs o'"
  shows "gw_table_ok o' (ug_abs o' xs)"
proof -
  have t: "ug_table xs o'" using i by (simp add: ug_inv_def)
  have e: "fst ` set (ug_abs o' xs) = key_id (ug_cons o') ` set xs" "snd ` set (ug_abs o' xs) = key_addr (ug_cons o') ` set xs"
    by (simp_all add: ug_abs_def image_image)
  have "uint (key_id (ug_cons o') p) < ug_max_connections o' \<and> addr_ok (local_addr (key_addr (ug_cons o') p))
      \<and> addr_ok (remote_addr (key_addr (ug_cons o') p))" if p: "p \<in> set xs" for p
  proof -
    obtain con where "ug_cons o' p = Some con" "con_ok o' con" by (rule ug_con [OF i p])
    then show ?thesis by (simp add: key_id_def key_addr_def con_ok_def)
  qed
  then have "\<forall>(i, a) \<in> set (ug_abs o' xs). uint i < ug_max_connections o' \<and> addr_ok (local_addr a) \<and> addr_ok (remote_addr a)"
    by (auto simp: ug_abs_def)
  moreover have "int (length (ug_abs o' xs)) = ug_num o'" "ug_num o' \<le> ug_max_connections o'" using t by (auto simp: ug_abs_def ug_table_def)
  ultimately show ?thesis
    using ug_abs_distinct [OF i] unfolding gw_table_ok_def e find_conid_none [OF t] find_conaddr_none [OF i] not_not by (intro conjI) simp_all
qed

section \<open>A client at work\<close>

declare find_unused_conid.simps [code]

fun gw_run :: "allocator \<Rightarrow> udpgw \<Rightarrow> gw_event list \<Rightarrow> udpgw option" where
  "gw_run malloc o' [] = Some o'"
| "gw_run malloc o' (e # es) =
     (if gw_allowed o' e then case gw_step malloc o' e of None \<Rightarrow> None | Some o1 \<Rightarrow> gw_run malloc o1 es else None)"

lemma gw_run_reach: "gw_run malloc o' es = Some o1 \<Longrightarrow> gw_reach malloc o' \<Longrightarrow> gw_reach malloc o1"
  by (induction malloc o' es rule: gw_run.induct) (auto split: if_splits option.splits intro: gw_reach.Stepped)

text \<open>Two places for connections and three pairs of addresses, one of them of IPv6.\<close>

definition demo_local :: BAddr where "demo_local = BADDR_IPV4 1 1000"
definition demo_remote4 :: BAddr where "demo_remote4 = BADDR_IPV4 2 53"
definition demo_remote6 :: BAddr where "demo_remote6 = BADDR_IPV6 (replicate 16 7) 80"

definition demo_start :: "udpgw option" where
  "demo_start = UdpGwClient_Init 
     (\<lambda>_. \<lparr>fl_time = 0, fl_is_queued = False, fl_data = [], fl_data_len = 0, fl_handler_busy = False\<rparr>)
     (\<lambda>_. \<lparr>nxt = None, prv = None\<rparr>) (\<lambda>_. \<lparr>nxt = None, prv = None\<rparr>) 20 2 2"

definition demo_events :: "gw_event list" where
  "demo_events =
     [GwSubmit (Some 1) demo_local demo_remote4 True [9], GwRoom 1, GwFirst 1, GwSubmit (Some 2) demo_local demo_remote6 False [5],
      GwConnect, GwTaken 1, GwKeepalive, GwRecv ([0] @ mem16 0 @ udpgw_addr demo_remote4 @ [8])]"

definition demo_client :: "udpgw option" where
  "demo_client = (case demo_start of None \<Rightarrow> None | Some o' \<Rightarrow> gw_run zero_malloc o' demo_events)"

lemma demo_start_reach: "demo_start = Some o' \<Longrightarrow> gw_reach zero_malloc o'"
  unfolding demo_start_def
  by (rule gw_reach.Started) (assumption, simp add: gw_params_def ChunkBuffer2_calc_blocks_def bdivide_up_def INT_MAX_def PACKETPROTO_ENCLEN_def)

lemma demo_runs:
  "(case demo_client of None \<Rightarrow> False | Some o' \<Rightarrow>
     gw_table o' = Some [(1, gw_ca demo_local demo_remote6), (0, gw_ca demo_local demo_remote4)] \<and> ug_udp_mtu o' = 20
     \<and> gw_allowed o' (GwSubmit (Some 3) demo_local demo_local False []))"
  by code_simp

lemma demo_reached:
  "\<exists>o'. gw_reach zero_malloc o' \<and> gw_table o' = Some [(1, gw_ca demo_local demo_remote6), (0, gw_ca demo_local demo_remote4)]
    \<and> ug_udp_mtu o' = 20 \<and> gw_allowed o' (GwSubmit (Some 3) demo_local demo_local False [])"
proof -
  obtain o' where o': "demo_client = Some o'" "gw_table o' = Some [(1, gw_ca demo_local demo_remote6), (0, gw_ca demo_local demo_remote4)]"
    "ug_udp_mtu o' = 20" "gw_allowed o' (GwSubmit (Some 3) demo_local demo_local False [])"
    using demo_runs by (auto split: option.splits)
  then have "gw_reach zero_malloc o'" using gw_run_reach demo_start_reach by (auto simp: demo_client_def split: option.splits)
  with o' show ?thesis by blast
qed


section \<open>Properties\<close>

text \<open>
  C27: Whatever datagrams, packets from the server and connects and disconnects a client has seen, its
  list of connections, its two search trees and its counter describe one table: no number and no pair
  of addresses occurs twice, there are at most the configured number of connections and their numbers
  are below it, and a search by number or by addresses succeeds exactly for the table's entries.  And
  the client handles every event that can come next.
\<close>

theorem udpgw_table_well_formed:
  assumes "malloc_ok malloc" and "gw_reach malloc o'"
  shows "(\<exists>st. gw_table o' = Some st \<and> gw_table_ok o' st) \<and> (\<forall>e. gw_allowed o' e \<longrightarrow> gw_step malloc o' e \<noteq> None)"
proof -
  obtain xs where i: "ug_inv xs o'" using gw_reach_inv [OF assms(2,1)] by blast
  have "gw_step malloc o' e \<noteq> None" if "gw_allowed o' e" for e using gw_step_ok [OF i assms(1) that] by auto
  then show ?thesis using gw_table_inv [OF i] ug_abs_ok [OF i] by blast
qed

theorem udpgw_table_well_formed_witness:
  "\<exists>o'. gw_reach zero_malloc o' \<and> gw_allowed o' (GwSubmit (Some 3) demo_local demo_local False [])
    \<and> (\<exists>st. gw_table o' = Some st \<and> gw_table_ok o' st) \<and> (\<forall>e. gw_allowed o' e \<longrightarrow> gw_step zero_malloc o' e \<noteq> None)"
  using demo_reached udpgw_table_well_formed [OF zero_malloc_ok] by blast

text \<open>
  C28: Submitting a datagram is a step of a table of at most \<open>n\<close> entries in the order of use: the entry
  of its addresses becomes the last one; without such an entry in a full table, the first one's number
  is given to the addresses and becomes the last one; otherwise an entry with an unused number is added
  exactly if there is memory for it.
\<close>

theorem udpgw_submit_refines_lru:
  assumes "malloc_ok malloc" and "gw_reach malloc o'" and "gw_allowed o' (GwSubmit alloc loc rem is_dns data)" and "gw_table o' = Some st"
  shows "\<exists>o1 st1. UdpGwClient_SubmitPacket o' alloc malloc loc rem is_dns data = Some o1 \<and> gw_table o1 = Some st1
    \<and> gw_submits (gw_memory malloc o' alloc) (ug_max_connections o') \<lparr>local_addr = loc, remote_addr = rem\<rparr> st st1"
proof -
  obtain xs where i: "ug_inv xs o'" using gw_reach_inv [OF assms(2,1)] by blast
  from submit_inv [OF i assms(1,3)] show ?thesis using gw_table_inv [OF i] gw_table_inv assms(4) unfolding gw_ca_def by force
qed

theorem udpgw_submit_refines_lru_witness:
  "\<exists>o' o1 st1. gw_reach zero_malloc o' \<and> gw_table o' = Some [(1, gw_ca demo_local demo_remote6), (0, gw_ca demo_local demo_remote4)]
    \<and> UdpGwClient_SubmitPacket o' (Some 3) zero_malloc demo_local demo_local False [] = Some o1 \<and> gw_table o1 = Some st1
    \<and> gw_submits (gw_memory zero_malloc o' (Some 3)) (ug_max_connections o') \<lparr>local_addr = demo_local, remote_addr = demo_local\<rparr>
        [(1, gw_ca demo_local demo_remote6), (0, gw_ca demo_local demo_remote4)] st1"
  using demo_reached udpgw_submit_refines_lru [OF zero_malloc_ok] by blast

text \<open>
  Every packet from the server is handled, and a datagram is given to the local side exactly if the
  packet is a header with the number of a connection, that connection's remote address in the form that
  the header's flag announces, and the datagram, which fits the MTU; it goes to the local address of
  that connection and to no other.
\<close>

theorem udpgw_receive_characterised:
  assumes "malloc_ok malloc" and "gw_reach malloc o'" and "gw_table o' = Some st"
  shows "\<exists>o1 r. recv_interface_handler_send o' packet = Some (o1, r) \<and>
    (\<forall>l rm d. r = GwReceived l rm d \<longleftrightarrow>
      (\<exists>f conid. packet = f # mem16 conid @ udpgw_addr rm @ d \<and> (f AND UDPGW_CLIENT_FLAG_IPV6 \<noteq> 0 \<longleftrightarrow> BAddr_type rm = 2)
        \<and> (conid, \<lparr>local_addr = l, remote_addr = rm\<rparr>) \<in> set st \<and> int (length d) \<le> ug_udp_mtu o'))"
proof -
  obtain xs where i: "ug_inv xs o'" using gw_reach_inv [OF assms(2,1)] by blast
  have st: "st = ug_abs o' xs" using gw_table_inv [OF i] assms(3) by simp
  obtain o1 r xs1 where r: "recv_interface_handler_send o' packet = Some (o1, r)"
    "\<And>l rm d. r = GwReceived l rm d \<Longrightarrow> \<exists>f conid. packet = f # mem16 conid @ udpgw_addr rm @ d
       \<and> (f AND UDPGW_CLIENT_FLAG_IPV6 \<noteq> 0 \<longleftrightarrow> BAddr_type rm = 2) \<and> (conid, gw_ca l rm) \<in> set (ug_abs o' xs) \<and> int (length d) \<le> ug_udp_mtu o'"
    by (rule recv_total [OF i, of packet]) blast
  show ?thesis
    using r(1) r(2) recv_delivers [OF i] unfolding st gw_ca_def
    by (intro exI [of _ o1] exI [of _ r] conjI allI iffI) fastforce+
qed

theorem udpgw_receive_characterised_witness:
  "\<exists>o' o1. gw_reach zero_malloc o' \<and> recv_interface_handler_send o' (0 # mem16 0 @ udpgw_addr demo_remote4 @ [7]) =
     Some (o1, GwReceived demo_local demo_remote4 [7])"
proof -
  obtain o' where o': "gw_reach zero_malloc o'" "gw_table o' = Some [(1, gw_ca demo_local demo_remote6), (0, gw_ca demo_local demo_remote4)]"
    "ug_udp_mtu o' = 20" using demo_reached by blast
  obtain o1 r where "recv_interface_handler_send o' (0 # mem16 0 @ udpgw_addr demo_remote4 @ [7]) = Some (o1, r)"
    and r: "\<forall>l rm d. r = GwReceived l rm d \<longleftrightarrow>
      (\<exists>f conid. 0 # mem16 0 @ udpgw_addr demo_remote4 @ [7] = f # mem16 conid @ udpgw_addr rm @ d
        \<and> (f AND UDPGW_CLIENT_FLAG_IPV6 \<noteq> 0 \<longleftrightarrow> BAddr_type rm = 2)
        \<and> (conid, \<lparr>local_addr = l, remote_addr = rm\<rparr>) \<in> set [(1, gw_ca demo_local demo_remote6), (0, gw_ca demo_local demo_remote4)]
        \<and> int (length d) \<le> ug_udp_mtu o')"
    using udpgw_receive_characterised [OF zero_malloc_ok o'(1,2)] by blast
  moreover have "r = GwReceived demo_local demo_remote4 [7]"
    unfolding r [rule_format] using o'(3) by (intro exI [of _ 0]) (simp add: gw_ca_def demo_remote4_def)
  ultimately show ?thesis using o'(1) by blast
qed

text \<open>
  The search for an unused number ends whenever there are fewer connections than the maximum, with a
  number below the maximum that no connection has.
\<close>

theorem udpgw_conid_search:
  assumes "malloc_ok malloc" and "gw_reach malloc o'" and "ug_num o' < ug_max_connections o'"
  shows "\<exists>o1 i. find_unused_conid o' = Some (o1, i) \<and> uint i < ug_max_connections o' \<and> find_connection_by_conid o' i = None"
proof -
  obtain xs where i: "ug_inv xs o'" using gw_reach_inv [OF assms(2,1)] by blast
  then have t: "ug_table xs o'" "ug_config o'" "int (length xs) < ug_max_connections o'" using assms(3) by (auto simp: ug_inv_def ug_table_def)
  obtain n where "n < ug_max_connections o'" "word_of_int n \<notin> key_id (ug_cons o') ` set xs"
    "find_unused_conid o' = Some (o'\<lparr>ug_next_conid := n\<rparr>, word_of_int n)" "uint (word_of_int n :: u16) = n"
    by (rule find_unused_conid_ok [OF t])
  then show ?thesis using find_conid_none [OF t(1)] by auto
qed

theorem udpgw_conid_search_witness:
  "\<exists>o' o1 i. gw_reach zero_malloc o' \<and> find_unused_conid o' = Some (o1, i) \<and> uint i < ug_max_connections o'
    \<and> find_connection_by_conid o' i = None"
proof -
  have "case demo_start of None \<Rightarrow> False | Some o' \<Rightarrow> ug_num o' < ug_max_connections o'" by code_simp
  then obtain o' where o': "demo_start = Some o'" "ug_num o' < ug_max_connections o'" by (auto split: option.splits)
  then show ?thesis using demo_start_reach udpgw_conid_search [OF zero_malloc_ok] by blast
qed

text \<open>
  Freeing a client ends, whatever it holds, and leaves no connection, no entry in a search tree or a
  list and no flow in the fair queue.
\<close>

theorem udpgw_client_free:
  assumes "malloc_ok malloc" and "gw_reach malloc o'"
  shows "\<exists>o1. UdpGwClient_Free o' = Some o1 \<and> ug_cons o1 = Map.empty \<and> ug_num o1 = 0 \<and> ug_by_conaddr o1 = Lf \<and> ug_by_conid o1 = Lf
    \<and> LinkedList1_IsEmpty (ug_list o1) \<and> LinkedList1_IsEmpty (fq_list (ug_queue o1)) \<and> fq_tree (ug_queue o1) = Lf"
  using gw_reach_inv [OF assms(2,1)] client_free_ok by blast

theorem udpgw_client_free_witness:
  "\<exists>o' o1. gw_reach zero_malloc o' \<and> gw_table o' = Some [(1, gw_ca demo_local demo_remote6), (0, gw_ca demo_local demo_remote4)]
    \<and> UdpGwClient_Free o' = Some o1 \<and> ug_cons o1 = Map.empty \<and> fq_tree (ug_queue o1) = Lf"
  using demo_reached udpgw_client_free [OF zero_malloc_ok] by blast

end
