(* ===== verification/Bsocks_Client.thy ===== *)
theory Bsocks_Client
  imports B_Addr
begin

text \<open>
  The event-driven SOCKS client of the badvpn engine, \<^verbatim>\<open>badvpn/socksclient/BSocksClient.c\<close>: a state
  machine whose handlers are called when the connection is up, when a message has been sent and
  when bytes have been received, with one heap buffer for the message in progress.  It is compared
  with a description of the negotiation in terms of the whole stream the server sends.
\<close>

section \<open>The code\<close>

datatype bs_state = STATE_CONNECTING | STATE_SENDING_HELLO | STATE_SENT_HELLO | STATE_SENDING_PASSWORD
  | STATE_SENT_PASSWORD | STATE_SENDING_REQUEST | STATE_SENT_REQUEST | STATE_RECEIVED_REPLY_HEADER | STATE_UP

record bs_auth_info =
  bs_auth_type :: int
  bs_username :: bytes
  bs_password :: bytes

definition BSocksClient_auth_none :: bs_auth_info where
  "BSocksClient_auth_none = \<lparr>bs_auth_type = 0, bs_username = [], bs_password = []\<rparr>"

definition BSocksClient_auth_password :: "bytes \<Rightarrow> bytes \<Rightarrow> bs_auth_info" where
  "BSocksClient_auth_password username password =
     \<lparr>bs_auth_type = 2, bs_username = username, bs_password = password\<rparr>"

text \<open>Which interfaces of the connection are set up.\<close>

datatype bs_io = IoNone | IoControl | IoUp

record bs_client =
  bs_auth_info_list :: "bs_auth_info list"
  bs_dest_addr :: BAddr
  bs_state :: bs_state
  bs_buffer :: "bytes option"
  bs_con :: bool
  bs_io :: bs_io
  bs_recv_dest :: int
  bs_recv_len :: int
  bs_recv_total :: int

datatype bs_event = BSOCKSCLIENT_EVENT_ERROR | BSOCKSCLIENT_EVENT_UP | BSOCKSCLIENT_EVENT_ERROR_CLOSED

text \<open>
  What a handler leaves behind: a send of the first bytes of the buffer, a receive into the buffer,
  a call of the user's handler, or nothing.
\<close>

datatype bs_act = BsSend int | BsRecv int int | BsReport bs_event | BsIdle

type_synonym reallocator = "bytes option \<Rightarrow> int \<Rightarrow> bytes option"

definition BRealloc :: "reallocator \<Rightarrow> bytes option \<Rightarrow> int \<Rightarrow> bytes option" where
  "BRealloc realloc m n = (if n = 0 then realloc m 1 else realloc m n)"

definition reserve_buffer :: "reallocator \<Rightarrow> bs_client \<Rightarrow> bsize \<Rightarrow> bs_client option" where
  "reserve_buffer realloc o' sz =
     (if is_overflow sz then None
      else case BRealloc realloc (bs_buffer o') (bvalue sz) of
        None \<Rightarrow> None
      | Some buffer \<Rightarrow> Some (o'\<lparr>bs_buffer := Some buffer\<rparr>))"

definition do_receive :: "bs_client \<Rightarrow> bs_act" where
  "do_receive o' = BsRecv (bs_recv_dest o' + bs_recv_len o') (bs_recv_total o' - bs_recv_len o')"

definition start_receive :: "bs_client \<Rightarrow> int \<Rightarrow> int \<Rightarrow> bs_client \<times> bs_act" where
  "start_receive o' dest tot =
     (let o1 = o'\<lparr>bs_recv_dest := dest, bs_recv_len := 0, bs_recv_total := tot\<rparr> in (o1, do_receive o1))"

definition report_error :: "bs_client \<Rightarrow> (bs_client \<times> bs_act) option" where
  "report_error o' = Some (o', BsReport BSOCKSCLIENT_EVENT_ERROR)"

text \<open>The helper writes into the buffer; a write outside it has no result.\<close>

definition with_buffer :: "bs_client \<Rightarrow> (bytes \<Rightarrow> bytes option) \<Rightarrow> bs_client option" where
  "with_buffer o' f =
     (case bs_buffer o' of None \<Rightarrow> None
      | Some m \<Rightarrow> map_option (\<lambda>m'. o'\<lparr>bs_buffer := Some m'\<rparr>) (f m))"

definition connector_handler :: "reallocator \<Rightarrow> bool \<Rightarrow> bs_client \<Rightarrow> bool \<Rightarrow> (bs_client \<times> bs_act) option" where
  "connector_handler realloc con_init_ok o' is_error =
     (if is_error then report_error o'
      else if \<not> con_init_ok then report_error o'
      else let o1 = o'\<lparr>bs_con := True, bs_io := IoControl\<rparr>;
               fail1 = report_error (o1\<lparr>bs_io := IoNone, bs_con := False\<rparr>);
               num = int (length (bs_auth_info_list o1)) in
        if num = 0 \<or> num > 255 then fail1
        else let size = bsize_add (bsize_fromsize 2) (bsize_mul (bsize_fromsize num) (bsize_fromsize 1)) in
          case reserve_buffer realloc o1 size of
            None \<Rightarrow> fail1
          | Some o2 \<Rightarrow>
              map_option (\<lambda>o3. (o3\<lparr>bs_state := STATE_SENDING_HELLO\<rparr>, BsSend (bvalue size)))
                (with_buffer o2 (\<lambda>m. put_seq m 0
                   ([5, word_of_int num] # map (\<lambda>a. [word_of_int (bs_auth_type a)]) (bs_auth_info_list o2)))))"

definition connection_handler :: "bs_client \<Rightarrow> bool \<Rightarrow> (bs_client \<times> bs_act) option" where
  "connection_handler o' is_recvclosed =
     (if bs_state o' = STATE_UP \<and> is_recvclosed then Some (o', BsReport BSOCKSCLIENT_EVENT_ERROR_CLOSED)
      else report_error o')"

definition auth_finished :: "reallocator \<Rightarrow> bs_client \<Rightarrow> (bs_client \<times> bs_act) option" where
  "auth_finished realloc o' =
     (case (case bs_dest_addr o' of
              BADDR_IPV4 ip port \<Rightarrow> Some (6, 1, mem32 ip @ mem16 port)
            | BADDR_IPV6 ip port \<Rightarrow> Some (18, 4, ip @ mem16 port)
            | BADDR_NONE \<Rightarrow> None) of
        None \<Rightarrow> None
      | Some (n, atyp, addr) \<Rightarrow>
          (let size = bsize_add (bsize_fromsize 4) (bsize_fromsize n) in
           case reserve_buffer realloc o' size of
             None \<Rightarrow> report_error o'
           | Some o1 \<Rightarrow>
               map_option (\<lambda>o2. (o2\<lparr>bs_state := STATE_SENDING_REQUEST\<rparr>, BsSend (bvalue size)))
                 (with_buffer o1 (\<lambda>m. case store m 4 addr of None \<Rightarrow> None | Some m' \<Rightarrow> store m' 0 [5, 1, 0, atyp]))))"

text \<open>The switch of the receive handler, once a message is complete.\<close>

definition received_hello :: "reallocator \<Rightarrow> bs_client \<Rightarrow> bytes \<Rightarrow> (bs_client \<times> bs_act) option" where
  "received_hello realloc o' imsg =
     (if imsg ! 0 \<noteq> 5 then report_error o'
      else case find (\<lambda>a. bs_auth_type a = uint (imsg ! 1)) (bs_auth_info_list o') of
        None \<Rightarrow> report_error o'
      | Some ai \<Rightarrow>
          if bs_auth_type ai = 0 then auth_finished realloc o'
          else if bs_auth_type ai = 2 then
            (let ul = int (length (bs_username ai)); pl = int (length (bs_password ai)) in
             if ul = 0 \<or> ul > 255 \<or> pl = 0 \<or> pl > 255 then report_error o'
             else let size = bsize_fromsize (1 + 1 + ul + 1 + pl) in
               case reserve_buffer realloc o' size of
                 None \<Rightarrow> report_error o'
               | Some o1 \<Rightarrow>
                   map_option (\<lambda>o2. (o2\<lparr>bs_state := STATE_SENDING_PASSWORD\<rparr>, BsSend (bvalue size)))
                     (with_buffer o1 (\<lambda>m. put_seq m 0
                        [[1], [word_of_int ul], bs_username ai, [word_of_int pl], bs_password ai])))
          else Some (o', BsIdle))"

definition received_reply_header :: "bs_client \<Rightarrow> bytes \<Rightarrow> (bs_client \<times> bs_act) option" where
  "received_reply_header o' imsg =
     (if imsg ! 0 \<noteq> 5 then report_error o'
      else if imsg ! 1 \<noteq> 0 then report_error o'
      else if imsg ! 3 = 1 then
        (let (o1, act) = start_receive o' 4 6 in Some (o1\<lparr>bs_state := STATE_RECEIVED_REPLY_HEADER\<rparr>, act))
      else if imsg ! 3 = 4 then
        (let (o1, act) = start_receive o' 4 18 in Some (o1\<lparr>bs_state := STATE_RECEIVED_REPLY_HEADER\<rparr>, act))
      else report_error o')"

definition bs_received :: "reallocator \<Rightarrow> bs_client \<Rightarrow> (bs_client \<times> bs_act) option" where
  "bs_received realloc o' =
     (case bs_buffer o' of
        None \<Rightarrow> None
      | Some m \<Rightarrow>
          (case bs_state o' of
             STATE_SENT_HELLO \<Rightarrow> (case load m 0 2 of None \<Rightarrow> None | Some imsg \<Rightarrow> received_hello realloc o' imsg)
           | STATE_SENT_REQUEST \<Rightarrow> (case load m 0 4 of None \<Rightarrow> None | Some imsg \<Rightarrow> received_reply_header o' imsg)
           | STATE_SENT_PASSWORD \<Rightarrow>
               (case load m 0 2 of
                  None \<Rightarrow> None
                | Some imsg \<Rightarrow>
                    if imsg ! 0 \<noteq> 1 then report_error o'
                    else if imsg ! 1 \<noteq> 0 then report_error o'
                    else auth_finished realloc o')
           | STATE_RECEIVED_REPLY_HEADER \<Rightarrow>
               Some (o'\<lparr>bs_buffer := None, bs_io := IoUp, bs_state := STATE_UP\<rparr>, BsReport BSOCKSCLIENT_EVENT_UP)
           | _ \<Rightarrow> Some (o', BsIdle)))"

definition recv_handler_done :: "reallocator \<Rightarrow> bs_client \<Rightarrow> int \<Rightarrow> (bs_client \<times> bs_act) option" where
  "recv_handler_done realloc o' data_len =
     (let o1 = o'\<lparr>bs_recv_len := bs_recv_len o' + data_len\<rparr> in
        if bs_recv_len o1 < bs_recv_total o1 then Some (o1, do_receive o1) else bs_received realloc o1)"

definition sent_then :: "reallocator \<Rightarrow> bs_client \<Rightarrow> bsize \<Rightarrow> int \<Rightarrow> bs_state \<Rightarrow> (bs_client \<times> bs_act) option" where
  "sent_then realloc o' sz tot next =
     (case reserve_buffer realloc o' sz of
        None \<Rightarrow> report_error o'
      | Some o1 \<Rightarrow> (let (o2, act) = start_receive o1 0 tot in Some (o2\<lparr>bs_state := next\<rparr>, act)))"

definition send_handler_done :: "reallocator \<Rightarrow> bs_client \<Rightarrow> (bs_client \<times> bs_act) option" where
  "send_handler_done realloc o' =
     (case bs_state o' of
        STATE_SENDING_HELLO \<Rightarrow> sent_then realloc o' (bsize_fromsize 2) 2 STATE_SENT_HELLO
      | STATE_SENDING_REQUEST \<Rightarrow>
          sent_then realloc o' (bsize_add (bsize_fromsize 4) (bsize_max (bsize_fromsize 6) (bsize_fromsize 18))) 4
            STATE_SENT_REQUEST
      | STATE_SENDING_PASSWORD \<Rightarrow> sent_then realloc o' (bsize_fromsize 2) 2 STATE_SENT_PASSWORD
      | _ \<Rightarrow> Some (o', BsIdle))"

definition BSocksClient_Init :: "bs_auth_info list \<Rightarrow> BAddr \<Rightarrow> bool \<Rightarrow> bs_client option" where
  "BSocksClient_Init auth_info dest_addr connector_ok =
     (if connector_ok then
        Some \<lparr>bs_auth_info_list = auth_info, bs_dest_addr = dest_addr, bs_state = STATE_CONNECTING, bs_buffer = None,
              bs_con = False, bs_io = IoNone, bs_recv_dest = 0, bs_recv_len = 0, bs_recv_total = 0\<rparr>
      else None)"

text \<open>What \<^verbatim>\<open>BSocksClient_Free\<close> frees: the interfaces, the connection and the buffer.\<close>

definition BSocksClient_Free :: "bs_client \<Rightarrow> bs_io \<times> bool \<times> bool" where
  "BSocksClient_Free o' =
     (if bs_state o' \<noteq> STATE_CONNECTING then
        (if bs_state o' = STATE_UP then IoUp else IoControl, True, bs_buffer o' \<noteq> None)
      else (IoNone, False, bs_buffer o' \<noteq> None))"

section \<open>The client and its server\<close>

text \<open>
  The client driven by the bytes the server sends: a send completes, a receive takes what has
  arrived, and a report to the user ends the run.  The result is the client, what it waits for, the
  bytes it sent and the bytes of the stream it left.
\<close>

fun is_send :: "bs_act \<Rightarrow> nat" where
  "is_send (BsSend n) = 1"
| "is_send _ = 0"

lemma send_handler_done_act: "send_handler_done realloc o' = Some (o1, act) \<Longrightarrow> is_send act = 0"
  by (auto simp: send_handler_done_def sent_then_def report_error_def start_receive_def do_receive_def Let_def
      split: bs_state.splits option.splits)

function bs_feed :: "reallocator \<Rightarrow> bs_client \<Rightarrow> bs_act \<Rightarrow> bytes \<Rightarrow> (bs_client \<times> bs_act \<times> bytes \<times> bytes) option" where
  "bs_feed realloc o' (BsSend n) xs =
     (case bs_buffer o' of
        None \<Rightarrow> None
      | Some m \<Rightarrow>
          (case load m 0 n of
             None \<Rightarrow> None
           | Some msg \<Rightarrow>
               (case send_handler_done realloc o' of
                  None \<Rightarrow> None
                | Some (o1, act) \<Rightarrow> map_option (apsnd (apsnd (apfst ((@) msg)))) (bs_feed realloc o1 act xs))))"
| "bs_feed realloc o' (BsRecv p n) xs =
     (if xs = [] then Some (o', BsRecv p n, [], [])
      else if n \<le> 0 then None
      else case bs_buffer o' of
        None \<Rightarrow> None
      | Some m \<Rightarrow>
          (case store m p (take (nat n) xs) of
             None \<Rightarrow> None
           | Some m' \<Rightarrow>
               (case recv_handler_done realloc (o'\<lparr>bs_buffer := Some m'\<rparr>) (int (length (take (nat n) xs))) of
                  None \<Rightarrow> None
                | Some (o1, act) \<Rightarrow> bs_feed realloc o1 act (drop (nat n) xs))))"
| "bs_feed realloc o' (BsReport e) xs = Some (o', BsReport e, [], xs)"
| "bs_feed realloc o' BsIdle xs = Some (o', BsIdle, [], xs)"
  by pat_completeness auto
termination
  by (relation "measures [\<lambda>(r, o', act, xs). length xs, \<lambda>(r, o', act, xs). is_send act]")
    (auto dest: send_handler_done_act)

text \<open>Successive arrivals; what is left of one is still there when the next one comes.\<close>

fun bs_feeds :: "reallocator \<Rightarrow> bs_client \<Rightarrow> bs_act \<Rightarrow> bytes list \<Rightarrow> (bs_client \<times> bs_act \<times> bytes \<times> bytes) option" where
  "bs_feeds realloc o' act [] = bs_feed realloc o' act []"
| "bs_feeds realloc o' act (xs # xss) =
     (case bs_feed realloc o' act xs of
        None \<Rightarrow> None
      | Some (o1, act1, sent, rest) \<Rightarrow>
          (case act1 of
             BsRecv p n \<Rightarrow> map_option (apsnd (apsnd (apfst ((@) sent)))) (bs_feeds realloc o1 act1 xss)
           | _ \<Rightarrow> Some (o1, act1, sent, rest @ concat xss)))"

section \<open>The negotiation\<close>

datatype bs_outcome = BsUp bytes | BsFailed | BsMore

definition bs_hello_msg :: "bs_auth_info list \<Rightarrow> bytes" where
  "bs_hello_msg infos = [5, of_nat (length infos)] @ map (\<lambda>a. word_of_int (bs_auth_type a)) infos"

definition bs_password_msg :: "bs_auth_info \<Rightarrow> bytes" where
  "bs_password_msg a = [1, of_nat (length (bs_username a))] @ bs_username a @ [of_nat (length (bs_password a))] @ bs_password a"

fun bs_request_msg :: "BAddr \<Rightarrow> bytes" where
  "bs_request_msg (BADDR_IPV4 ip port) = [5, 1, 0, 1] @ mem32 ip @ mem16 port"
| "bs_request_msg (BADDR_IPV6 ip port) = [5, 1, 0, 4] @ ip @ mem16 port"
| "bs_request_msg BADDR_NONE = []"

text \<open>What the client makes of the server's reply, of its password reply and of its hello.\<close>

definition bs_tail :: "nat \<Rightarrow> bytes \<Rightarrow> bs_outcome" where
  "bs_tail n s = (if length s < n then BsMore else BsUp (drop n s))"

definition bs_reply :: "bytes \<Rightarrow> bs_outcome" where
  "bs_reply s =
     (if length s < 4 then BsMore
      else if s ! 0 \<noteq> 5 \<or> s ! 1 \<noteq> 0 then BsFailed
      else if s ! 3 = 1 then bs_tail 6 (drop 4 s)
      else if s ! 3 = 4 then bs_tail 18 (drop 4 s)
      else BsFailed)"

definition bs_after_password :: "BAddr \<Rightarrow> bytes \<Rightarrow> bytes \<times> bs_outcome" where
  "bs_after_password dest s =
     (if length s < 2 then ([], BsMore)
      else if s ! 0 \<noteq> 1 \<or> s ! 1 \<noteq> 0 then ([], BsFailed)
      else (bs_request_msg dest, bs_reply (drop 2 s)))"

definition bs_after_hello :: "bs_auth_info list \<Rightarrow> BAddr \<Rightarrow> bytes \<Rightarrow> bytes \<times> bs_outcome" where
  "bs_after_hello infos dest s =
     (if length s < 2 then ([], BsMore)
      else if s ! 0 \<noteq> 5 then ([], BsFailed)
      else case find (\<lambda>a. bs_auth_type a = uint (s ! 1)) infos of
        None \<Rightarrow> ([], BsFailed)
      | Some a \<Rightarrow>
          if bs_auth_type a = 0 then (bs_request_msg dest, bs_reply (drop 2 s))
          else if bs_username a = [] \<or> length (bs_username a) > 255 \<or> bs_password a = [] \<or> length (bs_password a) > 255
          then ([], BsFailed)
          else apfst ((@) (bs_password_msg a)) (bs_after_password dest (drop 2 s)))"

section \<open>The client follows the negotiation\<close>

definition realloc_ok :: "reallocator \<Rightarrow> bool" where
  "realloc_ok realloc \<longleftrightarrow> (\<forall>m n. 0 < n \<longrightarrow> (\<exists>m'. realloc m n = Some m' \<and> int (length m') = n))"

fun BAddr_wf :: "BAddr \<Rightarrow> bool" where
  "BAddr_wf (BADDR_IPV4 ip port) \<longleftrightarrow> True"
| "BAddr_wf (BADDR_IPV6 ip port) \<longleftrightarrow> length ip = 16"
| "BAddr_wf BADDR_NONE \<longleftrightarrow> False"

definition bs_cfg :: "bs_client \<Rightarrow> bool" where
  "bs_cfg c \<longleftrightarrow> BAddr_wf (bs_dest_addr c) \<and> (\<forall>a\<in>set (bs_auth_info_list c). bs_auth_type a \<in> {0, 2})"

text \<open>What is ahead of a client that has sent the message of its state, or is sending it.\<close>

definition bs_rest :: "bs_client \<Rightarrow> bytes \<Rightarrow> bytes \<times> bs_outcome" where
  "bs_rest c s =
     (case bs_state c of
        STATE_SENDING_HELLO \<Rightarrow> bs_after_hello (bs_auth_info_list c) (bs_dest_addr c) s
      | STATE_SENT_HELLO \<Rightarrow> bs_after_hello (bs_auth_info_list c) (bs_dest_addr c) s
      | STATE_SENDING_PASSWORD \<Rightarrow> bs_after_password (bs_dest_addr c) s
      | STATE_SENT_PASSWORD \<Rightarrow> bs_after_password (bs_dest_addr c) s
      | STATE_SENDING_REQUEST \<Rightarrow> ([], bs_reply s)
      | STATE_SENT_REQUEST \<Rightarrow> ([], bs_reply s)
      | STATE_RECEIVED_REPLY_HEADER \<Rightarrow> ([], bs_tail (nat (bs_recv_total c)) s)
      | _ \<Rightarrow> ([], BsFailed))"

fun bs_expects :: "bs_state \<Rightarrow> int \<Rightarrow> int \<Rightarrow> bool" where
  "bs_expects STATE_SENT_HELLO dest n \<longleftrightarrow> dest = 0 \<and> n = 2"
| "bs_expects STATE_SENT_PASSWORD dest n \<longleftrightarrow> dest = 0 \<and> n = 2"
| "bs_expects STATE_SENT_REQUEST dest n \<longleftrightarrow> dest = 0 \<and> n = 4"
| "bs_expects STATE_RECEIVED_REPLY_HEADER dest n \<longleftrightarrow> dest = 4 \<and> (n = 6 \<or> n = 18)"
| "bs_expects _ _ _ \<longleftrightarrow> False"

fun bs_room :: "bs_state \<Rightarrow> int \<Rightarrow> bool" where
  "bs_room STATE_SENT_REQUEST n \<longleftrightarrow> 22 \<le> n"
| "bs_room STATE_RECEIVED_REPLY_HEADER n \<longleftrightarrow> 22 \<le> n"
| "bs_room _ n \<longleftrightarrow> 2 \<le> n"

definition bs_got :: "bs_client \<Rightarrow> bytes \<Rightarrow> bool" where
  "bs_got c pre \<longleftrightarrow> bs_cfg c \<and> bs_expects (bs_state c) (bs_recv_dest c) (bs_recv_total c)
     \<and> bs_recv_len c = int (length pre) \<and> bs_recv_len c \<le> bs_recv_total c
     \<and> (\<exists>m. bs_buffer c = Some m \<and> bs_room (bs_state c) (int (length m)) \<and> load m (bs_recv_dest c) (bs_recv_len c) = Some pre)"

definition bs_sending :: "bs_client \<Rightarrow> int \<Rightarrow> bytes \<Rightarrow> bool" where
  "bs_sending c n msg \<longleftrightarrow> bs_cfg c \<and> bs_state c \<in> {STATE_SENDING_HELLO, STATE_SENDING_PASSWORD, STATE_SENDING_REQUEST}
     \<and> (\<exists>m. bs_buffer c = Some m \<and> load m 0 n = Some msg)"

text \<open>A client in a waiting state, and the part of the negotiation it will perform on the stream ahead.\<close>

fun bs_waits :: "bs_client \<Rightarrow> bs_act \<Rightarrow> (bytes \<Rightarrow> bytes \<times> bs_outcome) \<Rightarrow> bool" where
  "bs_waits c (BsSend n) f \<longleftrightarrow> (\<exists>msg. bs_sending c n msg \<and> f = (\<lambda>ys. apfst ((@) msg) (bs_rest c ys)))"
| "bs_waits c (BsRecv p n) f \<longleftrightarrow> (\<exists>pre. bs_got c pre \<and> bs_recv_len c < bs_recv_total c \<and> BsRecv p n = do_receive c
     \<and> f = (\<lambda>ys. bs_rest c (pre @ ys)))"
| "bs_waits c _ f \<longleftrightarrow> False"

fun bs_final :: "bs_client \<Rightarrow> bs_act \<Rightarrow> bytes \<Rightarrow> bs_outcome \<Rightarrow> bool" where
  "bs_final c act rest (BsUp r) \<longleftrightarrow> act = BsReport BSOCKSCLIENT_EVENT_UP \<and> rest = r
     \<and> bs_state c = STATE_UP \<and> bs_io c = IoUp \<and> bs_buffer c = None"
| "bs_final c act rest BsFailed \<longleftrightarrow> act = BsReport BSOCKSCLIENT_EVENT_ERROR"
| "bs_final c act rest BsMore \<longleftrightarrow> False"

definition bs_goes :: "bs_client \<Rightarrow> bs_act \<Rightarrow> (bytes \<Rightarrow> bytes \<times> bs_outcome) \<Rightarrow> bool" where
  "bs_goes c act f \<longleftrightarrow> bs_waits c act f \<or> (\<forall>ys. fst (f ys) = [] \<and> bs_final c act ys (snd (f ys)))"

lemma bs_goes_error: "(\<And>ys. f ys = ([], BsFailed)) \<Longrightarrow> bs_goes c (BsReport BSOCKSCLIENT_EVENT_ERROR) f"
  by (simp add: bs_goes_def)

lemma reserve_ok:
  assumes "realloc_ok realloc" "\<not> is_overflow sz" "0 < bvalue sz"
  shows "\<exists>m. reserve_buffer realloc c sz = Some (c\<lparr>bs_buffer := Some m\<rparr>) \<and> int (length m) = bvalue sz"
proof -
  obtain m where "realloc (bs_buffer c) (bvalue sz) = Some m" "int (length m) = bvalue sz"
    using assms(1,3) unfolding realloc_ok_def by blast
  then show ?thesis using assms(2,3) by (auto simp: reserve_buffer_def BRealloc_def)
qed

lemma auth_finished_goes:
  assumes ra: "realloc_ok realloc" and cfg: "bs_cfg c"
  obtains c' act where "auth_finished realloc c = Some (c', act)"
    "bs_waits c' act (\<lambda>ys. (bs_request_msg (bs_dest_addr c), bs_reply ys))"
proof -
  obtain n atyp addr where d: "(case bs_dest_addr c of
              BADDR_IPV4 ip port \<Rightarrow> Some (6, 1, mem32 ip @ mem16 port)
            | BADDR_IPV6 ip port \<Rightarrow> Some (18, 4, ip @ mem16 port)
            | BADDR_NONE \<Rightarrow> None) = Some (n, atyp, addr)" and n: "n = 6 \<or> n = (18 :: int)" "int (length addr) = n"
      and msg: "bs_request_msg (bs_dest_addr c) = [5, 1, 0, atyp] @ addr"
    using cfg by (cases "bs_dest_addr c") (auto simp: bs_cfg_def mem32_def)
  define sz where "sz = bsize_add (bsize_fromsize 4) (bsize_fromsize n)"
  have sz: "\<not> is_overflow sz" "bvalue sz = 4 + n" using n(1) by (auto simp: sz_def bsize_defs SIZE_MAX_def)
  obtain m where m: "reserve_buffer realloc c sz = Some (c\<lparr>bs_buffer := Some m\<rparr>)" "int (length m) = 4 + n"
    using reserve_ok [OF ra sz(1), of c] sz(2) n(1) by auto
  obtain m1 where m1: "store m 4 addr = Some m1"
    using store_in_range [of m 4 addr] m(2) n(2) by (auto simp: in_range_def)
  have l1: "length m1 = length m" by (rule length_store [OF m1])
  obtain m2 where m2: "store m1 0 [5, 1, 0, atyp] = Some m2"
    using store_in_range [of m1 0 "[5, 1, 0, atyp]"] m(2) n(1) l1 by (auto simp: in_range_def)
  have "load m2 4 n = Some addr"
    using load_store_same [OF m1] load_store_other [OF m2, of 4 n] n(2) by simp
  then have ld: "load m2 0 (4 + n) = Some (bs_request_msg (bs_dest_addr c))"
    using load_append [of m2 0 4 "[5, 1, 0, atyp]" n addr] load_store_same [OF m2] msg by simp
  let ?c = "c\<lparr>bs_buffer := Some m2, bs_state := STATE_SENDING_REQUEST\<rparr>"
  have "auth_finished realloc c = Some (?c, BsSend (4 + n))"
    by (simp add: auth_finished_def d m(1) with_buffer_def m1 m2 sz(2) flip: sz_def)
  moreover have "bs_waits ?c (BsSend (4 + n)) (\<lambda>ys. (bs_request_msg (bs_dest_addr c), bs_reply ys))"
    using cfg ld by (auto simp: bs_sending_def bs_cfg_def bs_rest_def)
  ultimately show thesis by (rule that)
qed

lemma sent_then_goes:
  assumes ra: "realloc_ok realloc" and cfg: "bs_cfg c" and sz: "\<not> is_overflow sz" "0 < bvalue sz"
    and ex: "bs_expects next 0 n" "bs_room next (bvalue sz)"
  obtains c' where "sent_then realloc c sz n next = Some (c', BsRecv 0 n)"
    "bs_waits c' (BsRecv 0 n) (bs_rest (c\<lparr>bs_state := next\<rparr>))"
proof -
  obtain m where m: "reserve_buffer realloc c sz = Some (c\<lparr>bs_buffer := Some m\<rparr>)" "int (length m) = bvalue sz"
    using reserve_ok [OF ra sz] by blast
  let ?c = "c\<lparr>bs_buffer := Some m, bs_recv_dest := 0, bs_recv_len := 0, bs_recv_total := n, bs_state := next\<rparr>"
  have n: "0 < n" "next \<noteq> STATE_RECEIVED_REPLY_HEADER" using ex(1) by (cases "next"; simp)+
  have "sent_then realloc c sz n next = Some (?c, BsRecv 0 n)"
    by (simp add: sent_then_def m(1) start_receive_def do_receive_def Let_def)
  moreover have "bs_got ?c []"
    using cfg ex m(2) n by (simp add: bs_got_def bs_cfg_def load_def in_range_def)
  then have "bs_waits ?c (BsRecv 0 n) (bs_rest (c\<lparr>bs_state := next\<rparr>))"
    using n by (auto simp: do_receive_def bs_rest_def intro!: exI [of _ "[]"] split: bs_state.splits)
  ultimately show thesis by (rule that)
qed

lemma send_done_goes:
  assumes ra: "realloc_ok realloc" and s: "bs_sending c n msg"
  obtains c' k where "send_handler_done realloc c = Some (c', BsRecv 0 k)" "bs_waits c' (BsRecv 0 k) (bs_rest c)"
proof -
  have cfg: "bs_cfg c" using s by (simp add: bs_sending_def)
  note st = sent_then_goes [OF ra cfg]
  consider "bs_state c = STATE_SENDING_HELLO" | "bs_state c = STATE_SENDING_PASSWORD" | "bs_state c = STATE_SENDING_REQUEST"
    using s by (auto simp: bs_sending_def)
  then show thesis
  proof cases
    case 1
    obtain c' where "sent_then realloc c (bsize_fromsize 2) 2 STATE_SENT_HELLO = Some (c', BsRecv 0 2)"
      "bs_waits c' (BsRecv 0 2) (bs_rest (c\<lparr>bs_state := STATE_SENT_HELLO\<rparr>))"
      by (rule st [of "bsize_fromsize 2" STATE_SENT_HELLO 2]) (simp_all add: bsize_defs)
    moreover have "bs_rest (c\<lparr>bs_state := STATE_SENT_HELLO\<rparr>) = bs_rest c" by (rule ext) (simp add: bs_rest_def 1)
    ultimately show thesis using that 1 by (simp add: send_handler_done_def del: bs_waits.simps)
  next
    case 2
    obtain c' where "sent_then realloc c (bsize_fromsize 2) 2 STATE_SENT_PASSWORD = Some (c', BsRecv 0 2)"
      "bs_waits c' (BsRecv 0 2) (bs_rest (c\<lparr>bs_state := STATE_SENT_PASSWORD\<rparr>))"
      by (rule st [of "bsize_fromsize 2" STATE_SENT_PASSWORD 2]) (simp_all add: bsize_defs)
    moreover have "bs_rest (c\<lparr>bs_state := STATE_SENT_PASSWORD\<rparr>) = bs_rest c" by (rule ext) (simp add: bs_rest_def 2)
    ultimately show thesis using that 2 by (simp add: send_handler_done_def del: bs_waits.simps)
  next
    case 3
    obtain c' where "sent_then realloc c (bsize_add (bsize_fromsize 4) (bsize_max (bsize_fromsize 6) (bsize_fromsize 18))) 4 STATE_SENT_REQUEST = Some (c', BsRecv 0 4)"
      "bs_waits c' (BsRecv 0 4) (bs_rest (c\<lparr>bs_state := STATE_SENT_REQUEST\<rparr>))"
      by (rule st [of "bsize_add (bsize_fromsize 4) (bsize_max (bsize_fromsize 6) (bsize_fromsize 18))" STATE_SENT_REQUEST 4]) (simp_all add: bsize_defs SIZE_MAX_def)
    moreover have "bs_rest (c\<lparr>bs_state := STATE_SENT_REQUEST\<rparr>) = bs_rest c" by (rule ext) (simp add: bs_rest_def 3)
    ultimately show thesis using that 3 by (simp add: send_handler_done_def del: bs_waits.simps)
  qed
qed

lemma put_seq_buffer:
  assumes "int (length m) = int (length (concat xs))"
  obtains m' where "put_seq m 0 xs = Some m'" "length m' = length m" "load m' 0 (int (length m)) = Some (concat xs)"
  using put_seq_store [of 0 xs m] assms by force

lemma received_hello_goes:
  assumes ra: "realloc_ok realloc" and cfg: "bs_cfg c" and len: "length msg = 2"
  shows "\<exists>c' act. received_hello realloc c msg = Some (c', act)
    \<and> bs_goes c' act (\<lambda>ys. bs_after_hello (bs_auth_info_list c) (bs_dest_addr c) (msg @ ys))"
proof -
  let ?f = "\<lambda>ys. bs_after_hello (bs_auth_info_list c) (bs_dest_addr c) (msg @ ys)"
  let ?err = "BsReport BSOCKSCLIENT_EVENT_ERROR"
  have nth: "(msg @ ys) ! 0 = msg ! 0" "(msg @ ys) ! Suc 0 = msg ! Suc 0" for ys using len by (auto simp: nth_append)
  note f = bs_after_hello_def nth len
  show ?thesis
  proof (cases "msg ! 0 = 5 \<and> find (\<lambda>a. bs_auth_type a = uint (msg ! 1)) (bs_auth_info_list c) \<noteq> None")
    case False
    then have "bs_goes c ?err ?f" by (intro bs_goes_error) (auto simp: f)
    then show ?thesis using False by (auto simp: received_hello_def report_error_def)
  next
    case True
    then obtain a where v: "msg ! 0 = 5" and a: "find (\<lambda>a. bs_auth_type a = uint (msg ! 1)) (bs_auth_info_list c) = Some a"
      by auto
    have t: "bs_auth_type a = 0 \<or> bs_auth_type a = 2"
      using a cfg by (auto simp: find_Some_iff bs_cfg_def)
    let ?bad = "bs_username a = [] \<or> length (bs_username a) > 255 \<or> bs_password a = [] \<or> length (bs_password a) > 255"
    consider (none) "bs_auth_type a = 0" | (bad) "bs_auth_type a = 2" ?bad | (pw) "bs_auth_type a = 2" "\<not> ?bad"
      using t by blast
    then show ?thesis
    proof cases
      case none
      obtain c' act where "auth_finished realloc c = Some (c', act)"
        "bs_waits c' act (\<lambda>ys. (bs_request_msg (bs_dest_addr c), bs_reply ys))" by (rule auth_finished_goes [OF ra cfg])
      then show ?thesis using v a none by (simp add: received_hello_def bs_goes_def f)
    next
      case bad
      then have "bs_goes c ?err ?f" using v a by (intro bs_goes_error) (auto simp: f)
      then show ?thesis using v a bad by (auto simp: received_hello_def report_error_def Let_def)
    next
      case pw
      let ?ul = "int (length (bs_username a))" and ?pl = "int (length (bs_password a))"
      let ?xs = "[[1], [word_of_int ?ul], bs_username a, [word_of_int ?pl], bs_password a]"
      define sz where "sz = bsize_fromsize (1 + 1 + ?ul + 1 + ?pl)"
      have sz: "\<not> is_overflow sz" "0 < bvalue sz" "bvalue sz = int (length (concat ?xs))"
        by (simp_all add: sz_def bsize_defs)
      obtain m where m: "reserve_buffer realloc c sz = Some (c\<lparr>bs_buffer := Some m\<rparr>)" "int (length m) = bvalue sz"
        using reserve_ok [OF ra sz(1,2)] by blast
      obtain m' where m': "put_seq m 0 ?xs = Some m'" "load m' 0 (bvalue sz) = Some (concat ?xs)"
        using put_seq_buffer [of m ?xs] m(2) sz(3) by metis
      let ?c = "c\<lparr>bs_buffer := Some m', bs_state := STATE_SENDING_PASSWORD\<rparr>"
      have "received_hello realloc c msg = Some (?c, BsSend (bvalue sz))"
        using v a pw m(1) m'(1) by (simp add: received_hello_def Let_def with_buffer_def sz_def del: put_seq.simps)
      moreover have "concat ?xs = bs_password_msg a" by (simp add: bs_password_msg_def)
      then have "bs_waits ?c (BsSend (bvalue sz)) ?f"
        using cfg m'(2) v a pw by (auto simp: bs_sending_def bs_cfg_def bs_rest_def f)
      ultimately show ?thesis by (auto simp: bs_goes_def)
    qed
  qed
qed

lemma received_password_goes:
  assumes ra: "realloc_ok realloc" and cfg: "bs_cfg c" and len: "length msg = 2"
  shows "\<exists>c' act. (if msg ! 0 \<noteq> 1 then report_error c else if msg ! 1 \<noteq> 0 then report_error c else auth_finished realloc c)
      = Some (c', act) \<and> bs_goes c' act (\<lambda>ys. bs_after_password (bs_dest_addr c) (msg @ ys))"
proof (cases "msg ! 0 = 1 \<and> msg ! 1 = 0")
  case True
  obtain c' act where "auth_finished realloc c = Some (c', act)"
    "bs_waits c' act (\<lambda>ys. (bs_request_msg (bs_dest_addr c), bs_reply ys))" by (rule auth_finished_goes [OF ra cfg])
  then show ?thesis using True len by (simp add: bs_goes_def bs_after_password_def nth_append)
next
  case False
  then have "bs_goes c (BsReport BSOCKSCLIENT_EVENT_ERROR) (\<lambda>ys. bs_after_password (bs_dest_addr c) (msg @ ys))"
    using len by (intro bs_goes_error) (auto simp: bs_after_password_def nth_append)
  then show ?thesis using False by (auto simp: report_error_def)
qed

lemma received_header_goes:
  assumes g: "bs_got c msg" and st: "bs_state c = STATE_SENT_REQUEST" and len: "length msg = 4"
  shows "\<exists>c' act. received_reply_header c msg = Some (c', act) \<and> bs_goes c' act (\<lambda>ys. ([], bs_reply (msg @ ys)))"
proof -
  have nth: "(msg @ ys) ! 0 = msg ! 0" "(msg @ ys) ! Suc 0 = msg ! Suc 0" "(msg @ ys) ! 3 = msg ! 3" for ys
    using len by (auto simp: nth_append)
  note f = bs_reply_def nth len
  have tail: "bs_goes (c\<lparr>bs_recv_dest := 4, bs_recv_len := 0, bs_recv_total := n, bs_state := STATE_RECEIVED_REPLY_HEADER\<rparr>)
      (BsRecv 4 n) (\<lambda>ys. ([], bs_tail (nat n) ys))" (is "bs_goes ?c _ _") if "n = 6 \<or> n = 18" for n
  proof -
    have "bs_got ?c []" using g st that by (auto simp: bs_got_def bs_cfg_def load_def in_range_def)
    then have "bs_waits ?c (BsRecv 4 n) (\<lambda>ys. ([], bs_tail (nat n) ys))"
      using that by (auto simp: do_receive_def bs_rest_def intro!: exI [of _ "[]"])
    then show ?thesis by (simp add: bs_goes_def)
  qed
  show ?thesis
  proof (cases "msg ! 0 = 5 \<and> msg ! 1 = 0 \<and> (msg ! 3 = 1 \<or> msg ! 3 = 4)")
    case True
    then show ?thesis using tail [of 6] tail [of 18]
      by (auto simp: received_reply_header_def start_receive_def do_receive_def f)
  next
    case False
    then have "bs_goes c (BsReport BSOCKSCLIENT_EVENT_ERROR) (\<lambda>ys. ([], bs_reply (msg @ ys)))"
      by (intro bs_goes_error) (auto simp: f)
    then show ?thesis using False by (auto simp: received_reply_header_def report_error_def)
  qed
qed

lemma bs_received_goes:
  assumes ra: "realloc_ok realloc" and g: "bs_got c msg" and full: "bs_recv_len c = bs_recv_total c"
  shows "\<exists>c' act. bs_received realloc c = Some (c', act) \<and> bs_goes c' act (\<lambda>ys. bs_rest c (msg @ ys))"
proof -
  have cfg: "bs_cfg c" using g by (simp add: bs_got_def)
  obtain m where m: "bs_buffer c = Some m" "load m (bs_recv_dest c) (bs_recv_total c) = Some msg"
    using g full by (auto simp: bs_got_def)
  have len: "int (length msg) = bs_recv_total c" by (rule length_load [OF m(2)])
  have ex: "bs_expects (bs_state c) (bs_recv_dest c) (bs_recv_total c)" using g by (simp add: bs_got_def)
  then consider "bs_state c = STATE_SENT_HELLO" | "bs_state c = STATE_SENT_PASSWORD" | "bs_state c = STATE_SENT_REQUEST"
    | "bs_state c = STATE_RECEIVED_REPLY_HEADER" by (cases "bs_state c") auto
  then show ?thesis
  proof cases
    case 1
    then show ?thesis using received_hello_goes [OF ra cfg, of msg] m ex len
      by (simp add: bs_received_def bs_rest_def)
  next
    case 2
    then show ?thesis using received_password_goes [OF ra cfg, of msg] m ex len
      by (simp add: bs_received_def bs_rest_def)
  next
    case 3
    then show ?thesis using received_header_goes [OF g 3] m ex len
      by (simp add: bs_received_def bs_rest_def)
  next
    case 4
    then show ?thesis using m ex len
      by (auto simp: bs_received_def bs_rest_def bs_goes_def bs_tail_def)
  qed
qed

lemma recv_done_goes:
  assumes ra: "realloc_ok realloc" and g: "bs_got c pre" and lt: "bs_recv_len c < bs_recv_total c"
    and b: "bs_buffer c = Some m" and st: "store m (bs_recv_dest c + bs_recv_len c) xs = Some m'"
    and fit: "int (length xs) \<le> bs_recv_total c - bs_recv_len c"
  shows "\<exists>c' act. recv_handler_done realloc (c\<lparr>bs_buffer := Some m'\<rparr>) (int (length xs)) = Some (c', act)
    \<and> bs_goes c' act (\<lambda>ys. bs_rest c ((pre @ xs) @ ys))"
proof -
  define c1 where "c1 = c\<lparr>bs_buffer := Some m', bs_recv_len := bs_recv_len c + int (length xs)\<rparr>"
  have h: "recv_handler_done realloc (c\<lparr>bs_buffer := Some m'\<rparr>) (int (length xs))
      = (if bs_recv_len c1 < bs_recv_total c1 then Some (c1, do_receive c1) else bs_received realloc c1)"
    by (simp add: recv_handler_done_def c1_def Let_def)
  have "load m' (bs_recv_dest c) (bs_recv_len c) = Some pre"
    using g b load_store_other [OF st] by (auto simp: bs_got_def)
  from load_append [OF this] load_store_same [OF st]
  have "load m' (bs_recv_dest c) (bs_recv_len c + int (length xs)) = Some (pre @ xs)" by simp
  then have g1: "bs_got c1 (pre @ xs)"
    using g b fit length_store [OF st] by (auto simp: bs_got_def c1_def bs_cfg_def)
  have r: "bs_rest c1 = bs_rest c" by (rule ext) (simp add: bs_rest_def c1_def split: bs_state.splits)
  show ?thesis
  proof (cases "bs_recv_len c1 < bs_recv_total c1")
    case True
    have "bs_waits c1 (do_receive c1) (\<lambda>ys. bs_rest c1 ((pre @ xs) @ ys))"
      using g1 True by (auto simp: do_receive_def)
    then show ?thesis using h True by (auto simp: bs_goes_def r)
  next
    case False
    then have "bs_recv_len c1 = bs_recv_total c1" using fit by (simp add: c1_def)
    from bs_received_goes [OF ra g1 this] show ?thesis using h False by (simp add: r)
  qed
qed

definition bs_fed :: "reallocator \<Rightarrow> bs_client \<Rightarrow> bs_act \<Rightarrow> bytes \<Rightarrow> (bytes \<Rightarrow> bytes \<times> bs_outcome) \<Rightarrow> bool" where
  "bs_fed realloc c act xs f \<longleftrightarrow>
     (\<exists>c' act' sent rest. bs_feed realloc c act xs = Some (c', act', sent, rest) \<and>
        ((\<exists>p n g. act' = BsRecv p n \<and> bs_waits c' act' g \<and> rest = [] \<and> (\<forall>ys. f (xs @ ys) = apfst ((@) sent) (g ys)))
         \<or> (\<exists>e. act' = BsReport e) \<and> (\<forall>ys. fst (f (xs @ ys)) = sent \<and> bs_final c' act' (rest @ ys) (snd (f (xs @ ys))))))"

lemma bs_final_report: "bs_final c act rest out \<Longrightarrow> \<exists>e. act = BsReport e"
  by (cases out) auto

lemma bs_feed_report: "bs_goes c act f \<Longrightarrow> \<not> bs_waits c act f \<Longrightarrow> bs_fed realloc c act xs f"
  using bs_final_report [of c act "[]" "snd (f [])"]
  by (fastforce simp: bs_goes_def bs_fed_def)

lemma bs_fed_send:
  assumes ra: "realloc_ok realloc" and w: "bs_waits c (BsSend n) f"
    and IH: "\<And>c' act g. send_handler_done realloc c = Some (c', act) \<Longrightarrow> bs_waits c' act g \<Longrightarrow> bs_fed realloc c' act xs g"
  shows "bs_fed realloc c (BsSend n) xs f"
proof -
  from w obtain msg where s: "bs_sending c n msg" and f: "f = (\<lambda>ys. apfst ((@) msg) (bs_rest c ys))" by auto
  from s obtain m where m: "bs_buffer c = Some m" "load m 0 n = Some msg" by (auto simp: bs_sending_def)
  obtain c' k where c': "send_handler_done realloc c = Some (c', BsRecv 0 k)" "bs_waits c' (BsRecv 0 k) (bs_rest c)"
    by (rule send_done_goes [OF ra s])
  from IH [OF c'] obtain c2 act2 sent rest where fd: "bs_feed realloc c' (BsRecv 0 k) xs = Some (c2, act2, sent, rest)"
    and r: "(\<exists>p n g. act2 = BsRecv p n \<and> bs_waits c2 act2 g \<and> rest = [] \<and> (\<forall>ys. bs_rest c (xs @ ys) = apfst ((@) sent) (g ys)))
      \<or> (\<exists>e. act2 = BsReport e) \<and> (\<forall>ys. fst (bs_rest c (xs @ ys)) = sent \<and> bs_final c2 act2 (rest @ ys) (snd (bs_rest c (xs @ ys))))"
    unfolding bs_fed_def by blast
  have ap: "apfst ((@) msg) (apfst ((@) sent) z) = apfst ((@) (msg @ sent)) z" for z :: "bytes \<times> bs_outcome"
    by (cases z) simp
  have "bs_feed realloc c (BsSend n) xs = Some (c2, act2, msg @ sent, rest)"
    by (subst bs_feed.simps) (simp add: m c'(1) fd del: bs_feed.simps)
  with r show ?thesis unfolding bs_fed_def f by (auto simp: ap simp del: bs_waits.simps bs_feed.simps)
qed

lemma bs_fed_recv:
  assumes ra: "realloc_ok realloc" and w: "bs_waits c (BsRecv p n) f" and ne: "xs \<noteq> []"
    and IH: "\<And>m m' c' act g. bs_buffer c = Some m \<Longrightarrow> store m p (take (nat n) xs) = Some m' \<Longrightarrow>
      recv_handler_done realloc (c\<lparr>bs_buffer := Some m'\<rparr>) (int (length (take (nat n) xs))) = Some (c', act) \<Longrightarrow>
      bs_waits c' act g \<Longrightarrow> bs_fed realloc c' act (drop (nat n) xs) g"
  shows "bs_fed realloc c (BsRecv p n) xs f"
proof -
  let ?x = "take (nat n) xs"
  from w obtain pre where g: "bs_got c pre" and lt: "bs_recv_len c < bs_recv_total c"
    and p: "p = bs_recv_dest c + bs_recv_len c" and n: "n = bs_recv_total c - bs_recv_len c"
    and f: "f = (\<lambda>ys. bs_rest c (pre @ ys))" by (auto simp: do_receive_def)
  have n0: "\<not> n \<le> 0" using lt n by simp
  have fit: "int (length ?x) \<le> n" using n0 by simp
  obtain m where m: "bs_buffer c = Some m" "bs_room (bs_state c) (int (length m))"
    "bs_expects (bs_state c) (bs_recv_dest c) (bs_recv_total c)" "0 \<le> bs_recv_len c" using g by (auto simp: bs_got_def)
  then have "in_range m p (int (length ?x))"
    using fit n p by (cases "bs_state c") (auto simp: in_range_def)
  then obtain m' where m': "store m p ?x = Some m'" using store_in_range by blast
  obtain c' act where c': "recv_handler_done realloc (c\<lparr>bs_buffer := Some m'\<rparr>) (int (length ?x)) = Some (c', act)"
    and go: "bs_goes c' act (\<lambda>ys. bs_rest c ((pre @ ?x) @ ys))"
    using recv_done_goes [OF ra g lt m(1) m' [unfolded p]] fit n by blast
  have "bs_fed realloc c' act (drop (nat n) xs) (\<lambda>ys. bs_rest c ((pre @ ?x) @ ys))"
    using IH [OF m(1) m' c'] bs_feed_report [OF go] by blast
  moreover have "f (xs @ ys) = bs_rest c ((pre @ ?x) @ drop (nat n) xs @ ys)" for ys
    unfolding f by (metis append_assoc append_take_drop_id)
  moreover have "bs_feed realloc c (BsRecv p n) xs = bs_feed realloc c' act (drop (nat n) xs)"
    by (subst bs_feed.simps) (simp only: ne n0 m(1) m' c' if_False option.case prod.case)
  ultimately show ?thesis by (simp add: bs_fed_def del: bs_waits.simps)
qed

lemma bs_feed_ok: "realloc_ok realloc \<Longrightarrow> bs_waits c act f \<Longrightarrow> bs_fed realloc c act xs f"
proof (induction realloc c act xs arbitrary: f rule: bs_feed.induct)
  case (1 realloc c n xs)
  then obtain m msg where m: "bs_buffer c = Some m" "load m 0 n = Some msg" by (auto simp: bs_sending_def)
  show ?case by (rule bs_fed_send [OF 1(2,3)]) (use 1(1) [OF m _ refl] 1(2) in blast)
next
  case (2 realloc c p n xs)
  show ?case
  proof (cases "xs = []")
    case True
    have "apfst ((@) []) z = z" for z :: "bytes \<times> bs_outcome" by (cases z) simp
    then show ?thesis using True 2(3) by (auto simp: bs_fed_def simp del: bs_waits.simps)
  next
    case False
    then have "\<not> n \<le> 0" using 2(3) by (auto simp: do_receive_def)
    show ?thesis
      by (rule bs_fed_recv [OF 2(2,3) False]) (use 2(1) [OF False \<open>\<not> n \<le> 0\<close> _ _ _ refl] 2(2) in blast)
  qed
qed auto

text \<open>A run over all arrivals ends as the negotiation on the whole stream says.\<close>

fun bs_result :: "bs_client \<Rightarrow> bs_act \<Rightarrow> bytes \<Rightarrow> bs_outcome \<Rightarrow> bool" where
  "bs_result c act rest BsMore \<longleftrightarrow> (\<exists>p n. act = BsRecv p n \<and> 0 < n) \<and> rest = []"
| "bs_result c act rest out \<longleftrightarrow> bs_final c act rest out"

lemma bs_rest_short: "bs_got c pre \<Longrightarrow> bs_recv_len c < bs_recv_total c \<Longrightarrow> bs_rest c pre = ([], BsMore)"
  by (cases "bs_state c") (auto simp: bs_got_def bs_rest_def bs_after_hello_def bs_after_password_def bs_reply_def bs_tail_def)

lemma bs_waits_stops: "bs_waits c (BsRecv p n) g \<Longrightarrow> g [] = ([], BsMore) \<and> 0 < n"
  using bs_rest_short by (auto simp: do_receive_def)

lemma bs_feeds_ok:
  assumes ra: "realloc_ok realloc"
  shows "bs_waits c act f \<Longrightarrow> \<exists>c' act' rest. bs_feeds realloc c act xss = Some (c', act', fst (f (concat xss)), rest)
    \<and> bs_result c' act' rest (snd (f (concat xss)))"
proof (induction xss arbitrary: c act f)
  case Nil
  from bs_feed_ok [OF ra Nil, of "[]"] obtain c' act' sent rest where fd: "bs_feed realloc c act [] = Some (c', act', sent, rest)"
    and r: "(\<exists>p n g. act' = BsRecv p n \<and> bs_waits c' act' g \<and> rest = [] \<and> (\<forall>ys. f ([] @ ys) = apfst ((@) sent) (g ys)))
      \<or> (\<exists>e. act' = BsReport e) \<and> (\<forall>ys. fst (f ([] @ ys)) = sent \<and> bs_final c' act' (rest @ ys) (snd (f ([] @ ys))))"
    unfolding bs_fed_def by blast
  from r show ?case
  proof (elim disjE exE conjE)
    fix p n g
    assume a: "act' = BsRecv p n" "bs_waits c' act' g" "rest = []" "\<forall>ys. f ([] @ ys) = apfst ((@) sent) (g ys)"
    then have "f [] = (sent, BsMore)" "0 < n" using bs_waits_stops [of c' p n g] by auto
    then show ?thesis using fd a by (auto simp del: bs_feed.simps)
  next
    fix e
    assume "\<forall>ys. fst (f ([] @ ys)) = sent \<and> bs_final c' act' (rest @ ys) (snd (f ([] @ ys)))"
    then have "fst (f []) = sent" "bs_final c' act' rest (snd (f []))" by (auto dest: spec [of _ "[]"])
    then show ?thesis using fd by (cases "snd (f [])") (auto simp del: bs_feed.simps)
  qed
next
  case (Cons xs xss)
  from bs_feed_ok [OF ra Cons.prems, of xs] obtain c' act' sent rest where fd: "bs_feed realloc c act xs = Some (c', act', sent, rest)"
    and r: "(\<exists>p n g. act' = BsRecv p n \<and> bs_waits c' act' g \<and> rest = [] \<and> (\<forall>ys. f (xs @ ys) = apfst ((@) sent) (g ys)))
      \<or> (\<exists>e. act' = BsReport e) \<and> (\<forall>ys. fst (f (xs @ ys)) = sent \<and> bs_final c' act' (rest @ ys) (snd (f (xs @ ys))))"
    unfolding bs_fed_def by blast
  from r show ?case
  proof (elim disjE exE conjE)
    fix p n g
    assume a: "act' = BsRecv p n" "bs_waits c' act' g" "\<forall>ys. f (xs @ ys) = apfst ((@) sent) (g ys)"
    from Cons.IH [OF a(2)] show ?thesis using fd a(1,3) by (auto simp del: bs_waits.simps bs_feed.simps)
  next
    fix e
    assume a: "act' = BsReport e" "\<forall>ys. fst (f (xs @ ys)) = sent \<and> bs_final c' act' (rest @ ys) (snd (f (xs @ ys)))"
    then have "fst (f (xs @ concat xss)) = sent" "bs_final c' act' (rest @ concat xss) (snd (f (xs @ concat xss)))" by auto
    then show ?thesis using fd a(1) by (cases "snd (f (xs @ concat xss))") (auto simp del: bs_feed.simps)
  qed
qed

lemma connector_goes:
  assumes ra: "realloc_ok realloc" and i: "BSocksClient_Init infos dest True = Some c"
    and n: "0 < length infos" "length infos \<le> 255" and t: "\<forall>a\<in>set infos. bs_auth_type a \<in> {0, 2}" and d: "BAddr_wf dest"
  obtains c' k where "connector_handler realloc True c False = Some (c', BsSend k)"
    "bs_waits c' (BsSend k) (\<lambda>ys. apfst ((@) (bs_hello_msg infos)) (bs_after_hello infos dest ys))"
proof -
  define c1 where "c1 = c\<lparr>bs_con := True, bs_io := IoControl\<rparr>"
  let ?n = "int (length infos)"
  define sz where "sz = bsize_add (bsize_fromsize 2) (bsize_mul (bsize_fromsize ?n) (bsize_fromsize 1))"
  have "0 < SIZE_MAX div ?n" using n pos_imp_zdiv_pos_iff [of ?n SIZE_MAX] by (simp add: SIZE_MAX_def)
  then have sz: "\<not> is_overflow sz" "bvalue sz = 2 + ?n" using n by (simp_all add: sz_def bsize_defs SIZE_MAX_def)
  have c: "bs_auth_info_list c1 = infos" "bs_dest_addr c1 = dest" using i by (auto simp: c1_def BSocksClient_Init_def)
  obtain m where m: "reserve_buffer realloc c1 sz = Some (c1\<lparr>bs_buffer := Some m\<rparr>)" "int (length m) = 2 + ?n"
    using reserve_ok [OF ra sz(1), of c1] sz(2) by force
  let ?xs = "[5, word_of_int ?n] # map (\<lambda>a. [word_of_int (bs_auth_type a)]) infos"
  have cc: "concat ?xs = bs_hello_msg infos" by (simp add: bs_hello_msg_def concat_map_singleton)
  have "int (length m) = int (length (concat ?xs))" unfolding cc m(2) by (simp add: bs_hello_msg_def)
  from put_seq_buffer [OF this] obtain m' where m': "put_seq m 0 ?xs = Some m'" "load m' 0 (2 + ?n) = Some (bs_hello_msg infos)"
    unfolding cc m(2) by blast
  let ?c = "c1\<lparr>bs_buffer := Some m', bs_state := STATE_SENDING_HELLO\<rparr>"
  have "connector_handler realloc True c False = Some (?c, BsSend (2 + ?n))"
    using n m(1) m'(1) c by (simp add: connector_handler_def with_buffer_def sz(2) Let_def flip: c1_def sz_def del: put_seq.simps)
  moreover have "bs_sending ?c (2 + ?n) (bs_hello_msg infos)"
    using m'(2) c t d by (simp add: bs_sending_def bs_cfg_def)
  moreover have "bs_rest ?c = bs_after_hello infos dest" by (rule ext) (simp add: bs_rest_def c)
  ultimately show thesis by (intro that) auto
qed

text \<open>
  C11: Against any server, and however its bytes arrive, the badvpn SOCKS client sends the hello, the
  credentials when the server asks for them and the request, in this order and each only after the
  server's answer to the one before; it comes up exactly when the server accepted the method, the
  credentials and the request, and then leaves the stream exactly behind the reply.
\<close>

theorem bsocks_client_negotiates:
  assumes "realloc_ok realloc" and "BSocksClient_Init infos dest True = Some c"
    and "0 < length infos" "length infos \<le> 255" and "\<forall>a\<in>set infos. bs_auth_type a \<in> {0, 2}" and "BAddr_wf dest"
  shows "\<exists>c1 act1 c2 act2 rest. connector_handler realloc True c False = Some (c1, act1)
    \<and> bs_feeds realloc c1 act1 arrivals
        = Some (c2, act2, bs_hello_msg infos @ fst (bs_after_hello infos dest (concat arrivals)), rest)
    \<and> bs_result c2 act2 rest (snd (bs_after_hello infos dest (concat arrivals)))"
proof -
  obtain c1 k where c1: "connector_handler realloc True c False = Some (c1, BsSend k)"
    "bs_waits c1 (BsSend k) (\<lambda>ys. apfst ((@) (bs_hello_msg infos)) (bs_after_hello infos dest ys))"
    by (rule connector_goes [OF assms])
  from bs_feeds_ok [OF assms(1) c1(2), of arrivals] show ?thesis
    using c1(1) by (fastforce simp del: bs_waits.simps)
qed

definition zero_realloc :: reallocator where
  "zero_realloc m n = Some (replicate (nat n) 0)"

lemma zero_realloc_ok: "realloc_ok zero_realloc"
  by (simp add: realloc_ok_def zero_realloc_def)

theorem bsocks_client_negotiates_witness:
  "\<exists>c c1 act1 c2 act2 rest.
     BSocksClient_Init [BSocksClient_auth_none, BSocksClient_auth_password [97] [98]] (BADDR_IPV4 16777343 20480) True = Some c
     \<and> connector_handler zero_realloc True c False = Some (c1, act1)
     \<and> bs_feeds zero_realloc c1 act1 [[5], [2, 1, 0, 5], [0, 0, 1, 0, 0, 0, 0, 0, 0, 42]]
         = Some (c2, act2, [5, 2, 0, 2, 1, 1, 97, 1, 98, 5, 1, 0, 1, 127, 0, 0, 1, 0, 80], rest)
     \<and> act2 = BsReport BSOCKSCLIENT_EVENT_UP \<and> rest = [42]"
proof -
  let ?infos = "[BSocksClient_auth_none, BSocksClient_auth_password [97] [98]]"
  let ?dest = "BADDR_IPV4 16777343 20480"
  let ?s = "[5, 2, 1, 0, 5, 0, 0, 1, 0, 0, 0, 0, 0, 0, 42]"
  have spec: "bs_after_hello ?infos ?dest ?s = ([1, 1, 97, 1, 98, 5, 1, 0, 1, 127, 0, 0, 1, 0, 80], BsUp [42])"
    by (simp add: bs_after_hello_def BSocksClient_auth_none_def BSocksClient_auth_password_def bs_password_msg_def
        bs_after_password_def bs_reply_def bs_tail_def mem32_def be32_def mem16_def)
  obtain c where c: "BSocksClient_Init ?infos ?dest True = Some c" by (simp add: BSocksClient_Init_def)
  from bsocks_client_negotiates [OF zero_realloc_ok c, of "[[5], [2, 1, 0, 5], [0, 0, 1, 0, 0, 0, 0, 0, 0, 42]]"]
  show ?thesis using c spec
    by (force simp: bs_hello_msg_def BSocksClient_auth_none_def BSocksClient_auth_password_def)
qed

section \<open>Freeing the client\<close>

text \<open>
  The clients that can occur: any sequence of the handlers, with an allocator that may fail, a
  connection that may fail to start, and receives that put anything into the buffer.
\<close>

inductive bs_reach :: "reallocator \<Rightarrow> bs_client \<Rightarrow> bool" for realloc where
  Init: "BSocksClient_Init infos dest True = Some c \<Longrightarrow> bs_reach realloc c"
| Connector: "bs_reach realloc c \<Longrightarrow> bs_state c = STATE_CONNECTING \<Longrightarrow>
    connector_handler realloc ok c is_error = Some (c', act) \<Longrightarrow> bs_reach realloc c'"
| Connection: "bs_reach realloc c \<Longrightarrow> connection_handler c closed = Some (c', act) \<Longrightarrow> bs_reach realloc c'"
| Sent: "bs_reach realloc c \<Longrightarrow> send_handler_done realloc c = Some (c', act) \<Longrightarrow> bs_reach realloc c'"
| Received: "bs_reach realloc c \<Longrightarrow> bs_buffer c = Some m \<Longrightarrow> store m p xs = Some m' \<Longrightarrow>
    recv_handler_done realloc (c\<lparr>bs_buffer := Some m'\<rparr>) n = Some (c', act) \<Longrightarrow> bs_reach realloc c'"

definition bs_owned :: "bs_client \<Rightarrow> bool" where
  "bs_owned c \<longleftrightarrow>
     (if bs_state c = STATE_CONNECTING then bs_io c = IoNone \<and> \<not> bs_con c
      else bs_con c \<and> bs_io c = (if bs_state c = STATE_UP then IoUp else IoControl))"

lemma reserve_buffer_keeps:
  "reserve_buffer realloc c sz = Some c' \<Longrightarrow> bs_state c' = bs_state c \<and> bs_io c' = bs_io c \<and> bs_con c' = bs_con c"
  by (auto simp: reserve_buffer_def split: if_splits option.splits)

lemma with_buffer_keeps:
  "with_buffer c f = Some c' \<Longrightarrow> bs_state c' = bs_state c \<and> bs_io c' = bs_io c \<and> bs_con c' = bs_con c"
  by (auto simp: with_buffer_def split: option.splits)

lemmas buffer_keeps = reserve_buffer_keeps with_buffer_keeps

definition bs_busy :: "bs_client \<Rightarrow> bool" where
  "bs_busy c \<longleftrightarrow> bs_state c \<noteq> STATE_CONNECTING \<and> bs_state c \<noteq> STATE_UP"

lemma owned_busy: "bs_busy c \<Longrightarrow> bs_owned c \<longleftrightarrow> bs_io c = IoControl \<and> bs_con c"
  by (auto simp: bs_busy_def bs_owned_def)

lemma auth_finished_owned:
  "bs_io c = IoControl \<Longrightarrow> bs_con c \<Longrightarrow> auth_finished realloc c = Some (c', act) \<Longrightarrow> bs_busy c \<Longrightarrow> bs_owned c'"
  by (auto simp: auth_finished_def report_error_def Let_def owned_busy split: option.splits dest!: buffer_keeps)
    (auto simp: bs_owned_def)

lemma received_hello_owned:
  assumes io: "bs_io c = IoControl" "bs_con c" and b: "bs_busy c" and r: "received_hello realloc c imsg = Some (c', act)"
  shows "bs_owned c'"
proof -
  have "bs_owned c" using io b by (simp add: owned_busy)
  then show ?thesis
    using r auth_finished_owned [OF io _ b, of realloc c' act] io
    by (auto simp: received_hello_def report_error_def Let_def split: option.splits if_splits dest!: buffer_keeps)
      (auto simp: bs_owned_def)
qed

lemma received_header_owned:
  assumes io: "bs_io c = IoControl" "bs_con c" and b: "bs_busy c" and r: "received_reply_header c imsg = Some (c', act)"
  shows "bs_owned c'"
proof -
  have "bs_owned c" using io b by (simp add: owned_busy)
  then show ?thesis
    using r io by (auto simp: received_reply_header_def report_error_def start_receive_def Let_def split: if_splits)
      (auto simp: bs_owned_def)
qed

lemma bs_received_owned:
  assumes o: "bs_owned c" and r: "bs_received realloc c = Some (c', act)"
  shows "bs_owned c'"
proof (cases "bs_busy c")
  case False
  then show ?thesis using o r by (auto simp: bs_busy_def bs_received_def split: option.splits)
next
  case True
  then have io: "bs_io c = IoControl" "bs_con c" using o by (simp_all add: owned_busy)
  note steps = received_hello_owned [OF io True] received_header_owned [OF io True] auth_finished_owned [OF io _ True]
  from r obtain m where m: "bs_buffer c = Some m" by (auto simp: bs_received_def split: option.splits)
  show ?thesis
  proof (cases "bs_state c")
    case STATE_SENT_PASSWORD
    then show ?thesis using r m o steps(3) by (auto simp: bs_received_def report_error_def split: option.splits if_splits)
  next
    case STATE_RECEIVED_REPLY_HEADER
    then show ?thesis using r m io by (auto simp: bs_received_def bs_owned_def)
  qed (use r m o steps(1,2) in \<open>auto simp: bs_received_def split: option.splits\<close>)
qed

lemma bs_owned_cong [simp]:
  "bs_owned (c\<lparr>bs_buffer := b\<rparr>) = bs_owned c" "bs_owned (c\<lparr>bs_recv_len := n\<rparr>) = bs_owned c"
  by (simp_all add: bs_owned_def)

lemma bs_reach_owned: "bs_reach realloc c \<Longrightarrow> bs_owned c"
proof (induction rule: bs_reach.induct)
  case (Init infos dest c)
  then show ?case by (auto simp: BSocksClient_Init_def bs_owned_def)
next
  case (Connector c ok is_error c' act)
  then show ?case
    by (auto simp: connector_handler_def report_error_def Let_def bs_owned_def split: if_splits option.splits dest!: buffer_keeps)
next
  case (Connection c closed c' act)
  then show ?case by (auto simp: connection_handler_def report_error_def split: if_splits)
next
  case (Sent c c' act)
  then show ?case
    by (auto simp: send_handler_done_def sent_then_def report_error_def start_receive_def Let_def bs_owned_def
        split: bs_state.splits option.splits dest!: buffer_keeps)
next
  case (Received c m p xs m' n c' act)
  then show ?case
    by (auto simp: recv_handler_done_def Let_def split: if_splits intro: bs_received_owned [rotated])
qed

text \<open>
  In every state the badvpn SOCKS client can reach, also after failed allocations, refused
  connections and protocol errors, freeing it frees exactly the interfaces and the connection that
  are set up, nothing twice and nothing left, and the buffer if there is one.
\<close>

theorem bsocks_free_frees_what_is_there:
  assumes "bs_reach realloc c"
  shows "BSocksClient_Free c = (bs_io c, bs_con c, bs_buffer c \<noteq> None)"
  using bs_reach_owned [OF assms]
  by (auto simp: BSocksClient_Free_def bs_owned_def)

theorem bsocks_free_frees_what_is_there_witness:
  "\<exists>c1 act. connector_handler zero_realloc True
      (the (BSocksClient_Init [BSocksClient_auth_none] (BADDR_IPV4 0 0) True)) False = Some (c1, act)
     \<and> BSocksClient_Free c1 = (IoControl, True, True) \<and> BSocksClient_Free c1 = (bs_io c1, bs_con c1, bs_buffer c1 \<noteq> None)"
proof -
  let ?c = "the (BSocksClient_Init [BSocksClient_auth_none] (BADDR_IPV4 0 0) True)"
  have i: "bs_reach zero_realloc ?c" by (rule bs_reach.Init) (simp add: BSocksClient_Init_def)
  obtain c1 act where c1: "connector_handler zero_realloc True ?c False = Some (c1, act)" "bs_state c1 = STATE_SENDING_HELLO"
      "bs_buffer c1 \<noteq> None"
    by (simp add: BSocksClient_Init_def connector_handler_def bsize_defs SIZE_MAX_def reserve_buffer_def BRealloc_def
        zero_realloc_def with_buffer_def store_def in_range_def)
  have "bs_reach zero_realloc c1"
    by (rule bs_reach.Connector [OF i _ c1(1)]) (simp add: BSocksClient_Init_def)
  from bsocks_free_frees_what_is_there [OF this] show ?thesis using c1 by (auto simp: BSocksClient_Free_def)
qed

end
