(* ===== verification/Ip_Proto.thy ===== *)
theory Ip_Proto
  imports B_Addr
begin

text \<open>
  The headers of IPv4, IPv6 and UDP as the badvpn engine reads and writes them itself, for the
  datagrams that do not go through the IP stack: \<^verbatim>\<open>badvpn/misc/ipv4_proto.h\<close>, \<^verbatim>\<open>ipv6_proto.h\<close> and
  \<^verbatim>\<open>udp_proto.h\<close>.  A header is a record with the fields of the C struct as they are in memory, so
  numbers of more than a byte are in network order.  The 32-bit sums of the checksums are compared
  with sums of natural numbers modulo 65535, the arithmetic that defines the checksum.
\<close>

section \<open>The code: headers\<close>

abbreviation IPV4_PROTOCOL_UDP :: u8 where "IPV4_PROTOCOL_UDP \<equiv> 17"
abbreviation IPV6_NEXT_UDP :: u8 where "IPV6_NEXT_UDP \<equiv> 17"

record ipv4_header =
  version4_ihl4 :: u8
  ip4_ds :: u8
  total_length :: u16
  identification :: u16
  flags3_fragmentoffset13 :: u16
  ip4_ttl :: u8
  ip4_protocol :: u8
  ip4_checksum :: u16
  ip4_source :: u32
  ip4_destination :: u32

record ipv6_header =
  version4_tc4 :: u8
  tc4_fl4 :: u8
  ip6_fl :: u16
  payload_length :: u16
  next_header :: u8
  hop_limit :: u8
  ip6_source :: bytes
  ip6_destination :: bytes

record udp_header =
  source_port :: u16
  dest_port :: u16
  udp_length :: u16
  udp_check_field :: u16

text \<open>A packed struct in memory, and the struct in some bytes.\<close>

definition ipv4_mem :: "ipv4_header \<Rightarrow> bytes" where
  "ipv4_mem h = [version4_ihl4 h, ip4_ds h] @ mem16 (total_length h) @ mem16 (identification h)
     @ mem16 (flags3_fragmentoffset13 h) @ [ip4_ttl h, ip4_protocol h] @ mem16 (ip4_checksum h)
     @ mem32 (ip4_source h) @ mem32 (ip4_destination h)"

definition ipv4_of :: "bytes \<Rightarrow> ipv4_header" where
  "ipv4_of b = \<lparr>version4_ihl4 = b ! 0, ip4_ds = b ! 1, total_length = rd_mem16 (b ! 2) (b ! 3),
     identification = rd_mem16 (b ! 4) (b ! 5), flags3_fragmentoffset13 = rd_mem16 (b ! 6) (b ! 7),
     ip4_ttl = b ! 8, ip4_protocol = b ! 9, ip4_checksum = rd_mem16 (b ! 10) (b ! 11),
     ip4_source = rd_mem32 (take 4 (drop 12 b)), ip4_destination = rd_mem32 (take 4 (drop 16 b))\<rparr>"

definition ipv6_mem :: "ipv6_header \<Rightarrow> bytes" where
  "ipv6_mem h = [version4_tc4 h, tc4_fl4 h] @ mem16 (ip6_fl h) @ mem16 (payload_length h)
     @ [next_header h, hop_limit h] @ ip6_source h @ ip6_destination h"

definition ipv6_of :: "bytes \<Rightarrow> ipv6_header" where
  "ipv6_of b = \<lparr>version4_tc4 = b ! 0, tc4_fl4 = b ! 1, ip6_fl = rd_mem16 (b ! 2) (b ! 3),
     payload_length = rd_mem16 (b ! 4) (b ! 5), next_header = b ! 6, hop_limit = b ! 7,
     ip6_source = take 16 (drop 8 b), ip6_destination = take 16 (drop 24 b)\<rparr>"

definition udp_mem :: "udp_header \<Rightarrow> bytes" where
  "udp_mem h = mem16 (source_port h) @ mem16 (dest_port h) @ mem16 (udp_length h) @ mem16 (udp_check_field h)"

definition udp_of :: "bytes \<Rightarrow> udp_header" where
  "udp_of b = \<lparr>source_port = rd_mem16 (b ! 0) (b ! 1), dest_port = rd_mem16 (b ! 2) (b ! 3),
     udp_length = rd_mem16 (b ! 4) (b ! 5), udp_check_field = rd_mem16 (b ! 6) (b ! 7)\<rparr>"

definition IPV4_GET_VERSION :: "ipv4_header \<Rightarrow> u8" where
  "IPV4_GET_VERSION h = drop_bit 4 (version4_ihl4 h AND 0xF0)"

definition IPV4_GET_IHL :: "ipv4_header \<Rightarrow> u8" where
  "IPV4_GET_IHL h = version4_ihl4 h AND 0x0F"

definition IPV4_MAKE_VERSION_IHL :: "nat \<Rightarrow> u8" where
  "IPV4_MAKE_VERSION_IHL sz = of_nat (sz div 4 + 64)"

section \<open>The code: checksums\<close>

fun udp_checksum_summer :: "bytes \<Rightarrow> u32" where
  "udp_checksum_summer (a # b # r) = ucast (rd_be16 a b) + udp_checksum_summer r"
| "udp_checksum_summer _ = 0"

lemma high_half: "unat (drop_bit 16 (t :: u32)) = unat t div 65536"
  by (subst unat_drop_bit_eq) (simp add: drop_bit_eq_div)

lemma low_half: "unat ((t :: u32) AND 0xFFFF) = unat t mod 65536"
proof -
  have "t AND 0xFFFF = t mod 65536" using take_bit_eq_mask [of 16 t] by (simp add: mask_numeral take_bit_eq_mod)
  then show ?thesis by (simp add: unat_mod)
qed

lemma fold_unat: "unat ((t AND 0xFFFF) + drop_bit 16 (t :: u32)) = unat t div 65536 + unat t mod 65536"
proof -
  have "unat t < 2 ^ LENGTH(32)" by (rule unsigned_less)
  then show ?thesis by (subst unat_add_lem [THEN iffD1]) (auto simp: high_half low_half)
qed

lemma fold_decreases: "drop_bit 16 t \<noteq> (0 :: u32) \<Longrightarrow> unat ((t AND 0xFFFF) + drop_bit 16 t) < unat t"
proof -
  assume "drop_bit 16 t \<noteq> (0 :: u32)"
  then have "unat t div 65536 \<noteq> 0" using high_half [of t] by (metis unat_eq_zero)
  then show ?thesis unfolding fold_unat using div_mult_mod_eq [of "unat t" 65536] by linarith
qed

text \<open>The loop that adds the carries back in.\<close>

function checksum_fold :: "u32 \<Rightarrow> u32" where
  "checksum_fold t = (if drop_bit 16 t = 0 then t else checksum_fold ((t AND 0xFFFF) + drop_bit 16 t))"
  by pat_completeness auto
termination by (relation "measure unat") (auto simp: fold_decreases)

declare checksum_fold.simps [simp del]

definition ipv4_checksum :: "ipv4_header \<Rightarrow> bytes \<Rightarrow> u16" where
  "ipv4_checksum header extra =
     htons (ucast (NOT (checksum_fold (udp_checksum_summer (ipv4_mem header) + udp_checksum_summer extra))))"

text \<open>The payload's sum; a last odd byte is the high half of a word.\<close>

definition payload_sum :: "bytes \<Rightarrow> nat \<Rightarrow> u32" where
  "payload_sum payload n =
     (if n mod 2 = 0 then udp_checksum_summer (take n payload)
      else udp_checksum_summer (take (n - 1) payload)
        + udp_checksum_summer (mem16 (htons (push_bit 8 (ucast (payload ! (n - 1)))))))"

text \<open>The payload's length is passed in 16 bits.\<close>

definition udp_checksum :: "udp_header \<Rightarrow> bytes \<Rightarrow> u32 \<Rightarrow> u32 \<Rightarrow> u16" where
  "udp_checksum header payload source_addr dest_addr =
     (let payload_len = (of_nat (length payload) :: u16);
          t = checksum_fold
                (udp_checksum_summer (mem32 source_addr) + udp_checksum_summer (mem32 dest_addr)
                 + udp_checksum_summer (mem16 (htons 17)) + udp_checksum_summer (mem16 (htons (8 + payload_len)))
                 + udp_checksum_summer (udp_mem header) + payload_sum payload (unat payload_len))
      in htons (ucast (NOT (if t = 0 then 65535 else t))))"

definition udp_ip6_checksum :: "udp_header \<Rightarrow> bytes \<Rightarrow> bytes \<Rightarrow> bytes \<Rightarrow> u16" where
  "udp_ip6_checksum header payload source_addr dest_addr =
     (let payload_len = (of_nat (length payload) :: u16);
          t = checksum_fold
                (udp_checksum_summer (take 16 source_addr) + udp_checksum_summer (take 16 dest_addr)
                 + udp_checksum_summer (mem32 (ntoh32 (8 + ucast payload_len))) + udp_checksum_summer (mem32 (ntoh32 17))
                 + udp_checksum_summer (udp_mem header) + payload_sum payload (unat payload_len))
      in htons (ucast (NOT (if t = 0 then 65535 else t))))"

section \<open>The code: checks\<close>

text \<open>
  A check gives the header and the payload, or \<open>Some None\<close> when it returns 0; \<^const>\<open>None\<close> would be an
  access outside the packet.
\<close>

definition ipv4_check :: "bytes \<Rightarrow> (ipv4_header \<times> bytes) option option" where
  "ipv4_check data =
     (if length data < 20 then Some None
      else case load data 0 20 of
        None \<Rightarrow> None
      | Some b \<Rightarrow>
          (let h = ipv4_of b; header_len = 4 * unat (IPV4_GET_IHL h); total = unat (ntohs (total_length h)) in
           if IPV4_GET_VERSION h \<noteq> 4 then Some None
           else if header_len < 20 then Some None
           else if header_len > length data then Some None
           else if total < header_len then Some None
           else if total > length data then Some None
           else case load data 20 (int header_len - 20) of
             None \<Rightarrow> None
           | Some extra \<Rightarrow>
               if ip4_checksum h \<noteq> ipv4_checksum (h\<lparr>ip4_checksum := htons 0\<rparr>) extra then Some None
               else map_option (\<lambda>payload. Some (h, payload)) (load data (int header_len) (int total - int header_len))))"

definition ipv6_check :: "bytes \<Rightarrow> (ipv6_header \<times> bytes) option option" where
  "ipv6_check data =
     (if length data < 40 then Some None
      else case load data 0 40 of
        None \<Rightarrow> None
      | Some b \<Rightarrow>
          (let h = ipv6_of b; len = unat (ntohs (payload_length h)) in
           if drop_bit 4 (version4_tc4 h) \<noteq> 6 then Some None
           else if len > length data - 40 then Some None
           else map_option (\<lambda>payload. Some (h, payload)) (load data 40 (int len))))"

definition udp_check :: "bytes \<Rightarrow> (udp_header \<times> bytes) option option" where
  "udp_check data =
     (if length data < 8 then Some None
      else case load data 0 8 of
        None \<Rightarrow> None
      | Some b \<Rightarrow>
          (let h = udp_of b; data1 = drop 8 data; len = unat (ntohs (udp_length h)) in
           if len < 8 then Some None
           else if len > 8 + length data1 then Some None
           else map_option (\<lambda>payload. Some (h, payload)) (load data1 0 (int len - 8))))"

section \<open>Sums modulo 65535\<close>

text \<open>The 16-bit words of some bytes, added up; a last odd byte is the high half of a word.\<close>

fun be_words :: "bytes \<Rightarrow> nat" where
  "be_words (a # b # r) = 256 * unat a + unat b + be_words r"
| "be_words [a] = 256 * unat a"
| "be_words [] = 0"

text \<open>The sum with end-around carries.\<close>

definition ones_of :: "nat \<Rightarrow> nat" where
  "ones_of n = (if n = 0 then 0 else (n - 1) mod 65535 + 1)"

lemma ones_of_le: "ones_of n \<le> 65535"
  using mod_less_divisor [of 65535 "n - Suc 0"] by (auto simp: ones_of_def less_Suc_eq_le)

lemma ones_of_mod: "ones_of n mod 65535 = n mod 65535"
proof (cases n)
  case (Suc m)
  then show ?thesis by (simp add: ones_of_def) (metis Suc_eq_plus1 mod_Suc_eq)
qed (simp add: ones_of_def)

lemma ones_of_pos: "0 < n \<Longrightarrow> 0 < ones_of n"
  by (simp add: ones_of_def)

lemma ones_of_step: "0 < m \<Longrightarrow> ones_of (m + k * 65535) = ones_of m"
proof -
  assume "0 < m"
  then obtain j where m: "m = Suc j" by (cases m) auto
  show ?thesis by (simp add: ones_of_def m)
qed

lemma checksum_fold_ones: "unat (checksum_fold t) = ones_of (unat t)"
proof (induction t rule: checksum_fold.induct)
  case (1 t)
  show ?case
  proof (cases "drop_bit 16 t = 0")
    case True
    then have "unat t div 65536 = 0" using high_half [of t] by simp
    then have "unat t < 65536" by (simp add: div_eq_0_iff)
    moreover have "checksum_fold t = t" using True by (subst checksum_fold.simps) simp
    ultimately show ?thesis by (simp add: ones_of_def)
  next
    case False
    let ?h = "unat t div 65536" and ?l = "unat t mod 65536"
    have "?h \<noteq> 0" using False high_half [of t] by (metis unat_eq_zero)
    moreover have "unat t = ?h + ?l + ?h * 65535" using div_mult_mod_eq [of "unat t" 65536] by linarith
    ultimately have "ones_of (unat t) = ones_of (?h + ?l)" by (metis add_gr_0 neq0_conv ones_of_step)
    moreover have "checksum_fold t = checksum_fold ((t AND 0xFFFF) + drop_bit 16 t)" using False by (subst checksum_fold.simps) simp
    ultimately show ?thesis using 1 [OF False] fold_unat [of t] by simp
  qed
qed

lemma word_bound: "256 * unat (a :: u8) + unat (b :: u8) \<le> 65535"
proof -
  have "unat a \<le> 255" "unat b \<le> 255" using unat_u8_less [of a] unat_u8_less [of b] by linarith+
  then show ?thesis by linarith
qed

lemma unat_rd_be16: "unat (rd_be16 a b) = 256 * unat a + unat b"
proof -
  have "rd_be16 a b = push_bit 8 (ucast a) + ucast b"
    unfolding rd_be16_def by (rule disjunctive_add [symmetric]) (auto simp: bit_simps dest: bit_imp_le_length)
  moreover have u: "unat (ucast x :: u16) = unat (x :: u8)" for x
    using word_bound [of 0 x] by (simp add: unsigned_ucast_eq take_bit_nat_eq_self_iff)
  moreover have "unat (push_bit 8 (ucast a) :: u16) = 256 * unat a"
  proof -
    have "unat (ucast a * (256 :: u16)) = unat (ucast a :: u16) * unat (256 :: u16)"
      by (subst unat_mult_lem [symmetric]) (use word_bound [of a 0] in \<open>simp add: u\<close>)
    then show ?thesis by (simp add: push_bit_eq_mult u)
  qed
  ultimately show ?thesis
    using word_bound [of a b] unat_add_lem [of "push_bit 8 (ucast a) :: u16" "ucast b"] by simp
qed

lemma be_words_bound: "be_words bs \<le> 65535 * ((length bs + 1) div 2)"
proof (induction bs rule: be_words.induct)
  case (1 a b r)
  then show ?case using word_bound [of a b] by simp
next
  case (2 a)
  then show ?case using word_bound [of a 0] by simp
qed simp

lemma be_words_append: "even (length as) \<Longrightarrow> be_words (as @ bs) = be_words as + be_words bs"
  by (induction as rule: be_words.induct) auto

lemma be_words_be16: "be_words (be16 v) = unat v"
  using unat_rd_be16 [of "ucast (drop_bit 8 v)" "ucast v"] by (simp add: be16_def rd_be16_be16)

text \<open>The sum does not overflow for anything that fits a packet.\<close>

lemma summer_words:
  assumes "even (length bs)" "length bs \<le> 65536"
  shows "unat (udp_checksum_summer bs) = be_words bs"
  using assms
proof (induction bs rule: udp_checksum_summer.induct)
  case (1 a b r)
  have "be_words r \<le> 65535 * 32768" using be_words_bound [of r] 1(3) by simp
  moreover have "unat (ucast (rd_be16 a b) :: u32) = 256 * unat a + unat b"
    using word_bound [of a b] by (simp add: unsigned_ucast_eq take_bit_nat_eq_self_iff unat_rd_be16)
  moreover have "unat (udp_checksum_summer r) = be_words r" using 1 by simp
  ultimately show ?case using word_bound [of a b] unat_add_lem [of "ucast (rd_be16 a b) :: u32" "udp_checksum_summer r"] by simp
qed auto

lemma payload_sum_words:
  assumes "length payload \<le> 65535"
  shows "unat (payload_sum payload (length payload)) = be_words payload"
proof (cases "even (length payload)")
  case True
  then show ?thesis using summer_words assms by (simp add: payload_sum_def even_iff_mod_2_eq_zero)
next
  case False
  then obtain xs x where p: "payload = xs @ [x]" by (cases payload rule: rev_cases) auto
  have xs: "unat (udp_checksum_summer xs) = be_words xs" using summer_words [of xs] False assms p by simp
  have "udp_checksum_summer (mem16 (htons (push_bit 8 (ucast x)))) = ucast (rd_be16 x 0)"
    by (simp add: mem16_htons be16_def rd_be16_be16) (simp add: rd_be16_def)
  then have x: "unat (udp_checksum_summer (mem16 (htons (push_bit 8 (ucast x))))) = 256 * unat x"
    using word_bound [of x 0] by (simp add: unsigned_ucast_eq take_bit_nat_eq_self_iff unat_rd_be16)
  have "be_words xs \<le> 65535 * 32768" using be_words_bound [of xs] assms p by simp
  then have "unat (udp_checksum_summer xs + udp_checksum_summer (mem16 (htons (push_bit 8 (ucast x))))) = be_words xs + 256 * unat x"
    using xs x word_bound [of x 0] unat_add_lem [of "udp_checksum_summer xs" "udp_checksum_summer (mem16 (htons (push_bit 8 (ucast x))))"]
    by simp
  moreover have ev: "even (length xs)" using False p by simp
  moreover have "Suc (length xs) mod 2 = 1" using ev by presburger
  ultimately show ?thesis using p by (simp add: payload_sum_def be_words_append)
qed

text \<open>A checksum in network order.\<close>

definition checksum_of :: "nat \<Rightarrow> u16" where
  "checksum_of n = htons (of_nat (65535 - ones_of n))"

lemma complement_ones: "ucast (NOT (checksum_fold t)) = (of_nat (65535 - ones_of (unat t)) :: u16)"
proof -
  let ?f = "checksum_fold t"
  have le: "unat ?f \<le> 65535" unfolding checksum_fold_ones by (rule ones_of_le)
  have "ucast (NOT ?f) = NOT (ucast ?f :: u16)" by (rule bit_word_eqI) (simp add: bit_simps)
  also have "\<dots> = 65535 - ucast ?f" by (simp add: not_eq_complement)
  also have "(ucast ?f :: u16) = of_nat (unat ?f)" by simp
  also have "65535 - of_nat (unat ?f) = (of_nat (65535 - unat ?f) :: u16)" using le by (simp add: of_nat_diff)
  finally show ?thesis unfolding checksum_fold_ones .
qed

lemma add_exact: "unat a + unat b < 4294967296 \<Longrightarrow> unat (a + b :: u32) = unat a + unat b"
  using unat_add_lem [of a b] by simp

lemma length_headers [simp]: "length (ipv4_mem h) = 20" "length (udp_mem u) = 8"
  by (simp_all add: ipv4_mem_def udp_mem_def)

lemma even_summer: "length bs = 2 * k \<Longrightarrow> k \<le> 20 \<Longrightarrow> unat (udp_checksum_summer bs) = be_words bs \<and> be_words bs \<le> 65535 * k"
  using summer_words [of bs] be_words_bound [of bs] by simp

lemma ipv4_checksum_eq:
  assumes "even (length extra)" "length extra \<le> 40"
  shows "ipv4_checksum h extra = checksum_of (be_words (ipv4_mem h) + be_words extra)"
proof -
  obtain k where k: "length extra = 2 * k" "k \<le> 20" using assms by (auto elim: evenE)
  have "65535 * k \<le> 65535 * 20" using k(2) by simp
  then have "unat (udp_checksum_summer (ipv4_mem h) + udp_checksum_summer extra) = be_words (ipv4_mem h) + be_words extra"
    using even_summer [OF k] even_summer [of "ipv4_mem h" 10] by (simp add: add_exact)
  then show ?thesis by (simp add: ipv4_checksum_def complement_ones checksum_of_def)
qed

text \<open>The words that a UDP checksum is over: the pseudo-header, the header and the payload.\<close>

definition udp_words :: "udp_header \<Rightarrow> bytes \<Rightarrow> u32 \<Rightarrow> u32 \<Rightarrow> nat" where
  "udp_words header payload src dst =
     be_words (mem32 src) + be_words (mem32 dst) + 17 + unat (8 + of_nat (length payload) :: u16)
     + be_words (udp_mem header) + be_words payload"

definition udp_ip6_words :: "udp_header \<Rightarrow> bytes \<Rightarrow> bytes \<Rightarrow> bytes \<Rightarrow> nat" where
  "udp_ip6_words header payload src dst =
     be_words src + be_words dst + (8 + length payload) + 17 + be_words (udp_mem header) + be_words payload"

lemma complement_nonzero:
  assumes "0 < unat t"
  shows "htons (ucast (NOT (if checksum_fold t = 0 then 65535 else checksum_fold t))) = checksum_of (unat t)"
proof -
  have "unat (checksum_fold t) \<noteq> 0" using ones_of_pos [OF assms] unfolding checksum_fold_ones by simp
  then have "checksum_fold t \<noteq> 0" by auto
  then show ?thesis by (simp add: complement_ones checksum_of_def)
qed

lemma len16: "length xs \<le> 65535 \<Longrightarrow> unat (of_nat (length xs) :: u16) = length xs"
  by (simp add: unsigned_of_nat take_bit_nat_eq_self_iff)

lemma udp_checksum_eq:
  assumes "length payload \<le> 65535"
  shows "udp_checksum h payload src dst = checksum_of (udp_words h payload src dst)"
proof -
  let ?len = "8 + of_nat (length payload) :: u16"
  let ?t = "udp_checksum_summer (mem32 src) + udp_checksum_summer (mem32 dst)
                 + udp_checksum_summer (mem16 (htons 17)) + udp_checksum_summer (mem16 (htons ?len))
                 + udp_checksum_summer (udp_mem h) + payload_sum payload (length payload)"
  have "be_words payload \<le> 65535 * 32768" using be_words_bound [of payload] assms by simp
  then have u: "unat ?t = udp_words h payload src dst"
    using even_summer [of "mem32 src" 2] even_summer [of "mem32 dst" 2] even_summer [of "be16 17" 1] even_summer [of "be16 ?len" 1]
      even_summer [of "udp_mem h" 4] payload_sum_words [OF assms]
    by (simp add: mem16_htons add_exact be_words_be16 udp_words_def)
  have "0 < udp_words h payload src dst" by (simp add: udp_words_def)
  from complement_nonzero [of ?t, unfolded u, OF this] show ?thesis
    unfolding udp_checksum_def Let_def len16 [OF assms] .
qed

lemma mem32_ntoh32: "mem32 (ntoh32 v) = be32 v"
  by (simp add: ntoh32_bytes mem32_def be32_rd_be32) (simp add: be32_def)

lemma unat_byte: "unat (ucast (drop_bit k v) :: u8) = unat (v :: u32) div 2 ^ k mod 256"
  by (simp only: unsigned_ucast_eq unat_drop_bit_eq) (simp add: take_bit_eq_mod drop_bit_eq_div)

lemma be_words_mem32: "be_words (mem32 (ntoh32 v)) = unat v div 65536 + unat v mod 65536"
proof -
  let ?n = "unat v"
  have "?n < 4294967296" using unsigned_less [of v] by simp
  then have "?n div 65536 div 256 < 256" by (simp add: div_mult2_eq [symmetric] less_mult_imp_div_less)
  moreover have "256 * (?n div 65536 div 256) + ?n div 65536 mod 256 = ?n div 65536" by simp
  moreover have "256 * (?n div 256 mod 256) + ?n mod 256 = ?n mod 65536" using mod_mult2_eq [of ?n 256 256] by simp
  moreover have "?n div 2 ^ 24 = ?n div 65536 div 256" by (simp add: div_mult2_eq [symmetric])
  ultimately show ?thesis
    using unat_byte [of 24 v] unat_byte [of 16 v] unat_byte [of 8 v] unat_byte [of 0 v]
    by (simp add: mem32_ntoh32 be32_def)
qed

lemma udp_ip6_checksum_eq:
  assumes "length payload \<le> 65527" "length src = 16" "length dst = 16"
  shows "udp_ip6_checksum h payload src dst = checksum_of (udp_ip6_words h payload src dst)"
proof -
  let ?len = "8 + ucast (of_nat (length payload) :: u16) :: u32"
  let ?t = "udp_checksum_summer src + udp_checksum_summer dst
                 + udp_checksum_summer (mem32 (ntoh32 ?len)) + udp_checksum_summer (mem32 (ntoh32 17))
                 + udp_checksum_summer (udp_mem h) + payload_sum payload (length payload)"
  have l: "length payload \<le> 65535" using assms(1) by simp
  have "unat (ucast (of_nat (length payload) :: u16) :: u32) = length payload"
    using assms(1) len16 [OF l] by (simp add: unsigned_ucast_eq take_bit_nat_eq_self_iff)
  then have "unat ?len = 8 + length payload" using assms(1) by (subst add_exact) simp_all
  then have "be_words (mem32 (ntoh32 ?len)) = 8 + length payload" using assms(1) by (simp add: be_words_mem32)
  moreover have "be_words (mem32 (ntoh32 17)) = 17" by (simp add: be_words_mem32)
  moreover have "be_words payload \<le> 65535 * 32768" using be_words_bound [of payload] l by simp
  ultimately have u: "unat ?t = udp_ip6_words h payload src dst"
    using even_summer [of src 8] even_summer [of dst 8] even_summer [of "mem32 (ntoh32 ?len)" 2] even_summer [of "mem32 (ntoh32 17)" 2]
      even_summer [of "udp_mem h" 4] payload_sum_words [OF l] assms(2,3)
    by (simp add: add_exact udp_ip6_words_def)
  have "0 < udp_ip6_words h payload src dst" by (simp add: udp_ip6_words_def)
  moreover have "take 16 src = src" "take 16 dst = dst" using assms(2,3) by simp_all
  ultimately show ?thesis using complement_nonzero [of ?t, unfolded u]
    unfolding udp_ip6_checksum_def Let_def len16 [OF l] by presburger
qed

section \<open>Which checksums are accepted\<close>


lemma unat16: "unat (w :: u16) \<le> 65535"
proof -
  have "unat w < 2 ^ LENGTH(16)" by (rule unsigned_less)
  also have "\<dots> = 65536" by simp
  finally show ?thesis by linarith
qed

lemma unat_eq_of_nat: "k \<le> 65535 \<Longrightarrow> w = of_nat k \<longleftrightarrow> unat (w :: u16) = k"
  by (auto simp: unsigned_of_nat take_bit_nat_eq_self_iff)

lemma complement_iff: "0 < a \<Longrightarrow> a \<le> 65535 \<Longrightarrow> c \<le> 65535 \<Longrightarrow> c = 65535 - a \<longleftrightarrow> (a + c) mod 65535 = 0 \<and> c \<noteq> (65535 :: nat)"
proof -
  assume a: "0 < a" "a \<le> 65535" "c \<le> 65535"
  have "a + c = 65535" if z: "(a + c) mod 65535 = 0" "c \<noteq> 65535"
  proof -
    obtain k where k: "a + c = 65535 * k" using z(1) by (auto elim: dvdE simp: mod_eq_0_iff_dvd)
    then have "0 < 65535 * k" "65535 * k < 65535 * 2" using a z(2) by linarith+
    then have "k = 1" by simp
    then show ?thesis using k by simp
  qed
  then show ?thesis using a by (auto simp: mod_eq_0_iff_dvd)
qed

lemma htons_max: "htons 65535 = 65535"
  by code_simp

lemma checksum_of_iff:
  assumes "0 < n"
  shows "f = checksum_of n \<longleftrightarrow> (n + unat (htons f)) mod 65535 = 0 \<and> f \<noteq> 65535"
proof -
  let ?c = "unat (htons f)" and ?o = "ones_of n"
  have o: "0 < ?o" "?o \<le> 65535" using ones_of_pos [OF assms] ones_of_le [of n] by auto
  have "f = checksum_of n \<longleftrightarrow> htons f = of_nat (65535 - ?o)" by (metis checksum_of_def htons_htons)
  also have "\<dots> \<longleftrightarrow> ?c = 65535 - ?o" by (rule unat_eq_of_nat) simp
  also have "\<dots> \<longleftrightarrow> (?o + ?c) mod 65535 = 0 \<and> ?c \<noteq> 65535" by (rule complement_iff [OF o unat16])
  also have "(?o + ?c) mod 65535 = (n + ?c) mod 65535" using ones_of_mod [of n] by (metis mod_add_left_eq)
  also have "?c = 65535 \<longleftrightarrow> htons f = of_nat 65535" by (rule unat_eq_of_nat [symmetric]) simp
  also have "\<dots> \<longleftrightarrow> f = 65535" using htons_inj [of f 65535] htons_max by simp
  finally show ?thesis .
qed

lemma be_words_mem16: "be_words (mem16 f) = unat (htons f)"
  by (metis be_words_be16 htons_htons mem16_htons)

lemma udp_words_field: "udp_words (h\<lparr>udp_check_field := 0\<rparr>) payload src dst + unat (htons (udp_check_field h)) = udp_words h payload src dst"
  by (simp add: udp_words_def udp_mem_def be_words_append be_words_mem16 htons_def)

lemma udp_ip6_words_field:
  "udp_ip6_words (h\<lparr>udp_check_field := 0\<rparr>) payload src dst + unat (htons (udp_check_field h)) = udp_ip6_words h payload src dst"
  by (simp add: udp_ip6_words_def udp_mem_def be_words_append be_words_mem16 htons_def)

definition ipv4_words :: "ipv4_header \<Rightarrow> bytes \<Rightarrow> nat" where
  "ipv4_words h extra = be_words (ipv4_mem h) + be_words extra"

lemma ipv4_words_field: "ipv4_words (h\<lparr>ip4_checksum := 0\<rparr>) extra + unat (htons (ip4_checksum h)) = ipv4_words h extra"
proof -
  have "be_words [a, b] = 256 * unat a + unat b" for a b by simp
  then show ?thesis by (simp add: ipv4_words_def ipv4_mem_def be_words_append be_words_mem16 htons_def del: append.simps be_words.simps)
qed

lemma udp_accepts:
  assumes "length payload \<le> 65535"
  shows "udp_check_field h = udp_checksum (h\<lparr>udp_check_field := 0\<rparr>) payload src dst \<longleftrightarrow>
    udp_words h payload src dst mod 65535 = 0 \<and> udp_check_field h \<noteq> 65535"
proof -
  have "0 < udp_words (h\<lparr>udp_check_field := 0\<rparr>) payload src dst" by (simp add: udp_words_def)
  from checksum_of_iff [OF this, of "udp_check_field h"] show ?thesis
    unfolding udp_checksum_eq [OF assms] udp_words_field .
qed

text \<open>
  C26: The engine accepts a datagram exactly if its checksum field makes the pseudo-header, header and
  payload add up to a multiple of 65535, the condition of the protocol, and the field is not 65535.
  The last condition is no part of the protocol: it refuses the datagrams for which the protocol
  demands 65535 in place of 0.
\<close>

theorem udp_checksum_accepts:
  assumes "length payload \<le> 65535"
  shows "udp_check_field h = udp_checksum (h\<lparr>udp_check_field := 0\<rparr>) payload src dst \<longleftrightarrow>
    udp_words h payload src dst mod 65535 = 0 \<and> udp_check_field h \<noteq> 65535"
  by (rule udp_accepts [OF assms])

theorem udp_checksum_accepts_witness:
  "udp_check_field \<lparr>source_port = 1, dest_port = 2, udp_length = 3, udp_check_field = 4\<rparr> =
     udp_checksum (\<lparr>source_port = 1, dest_port = 2, udp_length = 3, udp_check_field = 4\<rparr>\<lparr>udp_check_field := 0\<rparr>) [5] 6 7 \<longleftrightarrow>
   udp_words \<lparr>source_port = 1, dest_port = 2, udp_length = 3, udp_check_field = 4\<rparr> [5] 6 7 mod 65535 = 0
     \<and> udp_check_field \<lparr>source_port = 1, dest_port = 2, udp_length = 3, udp_check_field = 4\<rparr> \<noteq> 65535"
  by (rule udp_checksum_accepts) simp

lemmas mem_bytes = mem16_def mem32_def be32_def

lemma ipv4_of_mem: "ipv4_of (ipv4_mem h) = h"
  by (simp add: ipv4_of_def ipv4_mem_def mem_bytes rd_mem32_def rd_mem16_mem16 rd_be32_be32)

lemma udp_of_mem: "udp_of (udp_mem h) = h"
  by (simp add: udp_of_def udp_mem_def mem_bytes rd_mem16_mem16)

lemma length_ipv6_mem: "length (ip6_source h) = 16 \<Longrightarrow> length (ip6_destination h) = 16 \<Longrightarrow> length (ipv6_mem h) = 40"
  by (simp add: ipv6_mem_def)

lemma ipv6_of_mem: "length (ip6_source h) = 16 \<Longrightarrow> length (ip6_destination h) = 16 \<Longrightarrow> ipv6_of (ipv6_mem h) = h"
  by (simp add: ipv6_of_def ipv6_mem_def mem_bytes rd_mem16_mem16)

lemma udp_ip6_checksum_accepts:
  assumes "length payload \<le> 65527" "length src = 16" "length dst = 16"
  shows "udp_check_field h = udp_ip6_checksum (h\<lparr>udp_check_field := 0\<rparr>) payload src dst \<longleftrightarrow>
    udp_ip6_words h payload src dst mod 65535 = 0 \<and> udp_check_field h \<noteq> 65535"
proof -
  have "0 < udp_ip6_words (h\<lparr>udp_check_field := 0\<rparr>) payload src dst" by (simp add: udp_ip6_words_def)
  from checksum_of_iff [OF this, of "udp_check_field h"] show ?thesis
    unfolding udp_ip6_checksum_eq [OF assms] udp_ip6_words_field .
qed

end
