(* ===== verification/Tun_Device.thy ===== *)
theory Tun_Device
  imports Ip_Proto
begin

text \<open>
  What the badvpn engine does with the packets of the device by itself, \<^verbatim>\<open>badvpn/tun2socks/tun2socks.c\<close>:
  UDP datagrams are taken out for the UDP gateway (\<^verbatim>\<open>process_device_udp_packet\<close>) and written back
  (\<^verbatim>\<open>udpgw_client_handler_received\<close>); DNS queries are sent to another server and its replies back to
  where the query came from (\<^verbatim>\<open>process_device_dns_packet\<close>), which a table of source ports remembers;
  everything else goes to the IP stack.
\<close>

section \<open>The code: state\<close>

text \<open>An entry of the DNS table; an object is its address.\<close>

record dns_con =
  dc_local :: BAddr
  dc_remote :: BAddr
  dc_port :: u16
  dc_count :: int

record dns_gw =
  dg_init :: bool
  dg_tree :: "nat avl"
  dg_cons :: "nat \<Rightarrow> dns_con option"

record tun =
  tun_mtu :: int
  tun_write_buf :: bytes
  tun_udpgw :: bool
  tun_udp_mtu :: int
  tun_transparent_dns :: bool
  tun_ip6 :: bool
  tun_ipaddr :: u32
  tun_dnsgw :: "(u32 \<times> u16) option"
  tun_dns :: dns_gw

definition compute_udp_mtu :: "int \<Rightarrow> bool \<Rightarrow> int" where
  "compute_udp_mtu mtu ip6 =
     (let udp_mtu = mtu - 28;
          udp_mtu1 = (if ip6 then let udp_ip6_mtu = mtu - 48 in if udp_mtu < udp_ip6_mtu then udp_ip6_mtu else udp_mtu else udp_mtu)
      in if udp_mtu1 < 0 then 0 else udp_mtu1)"

section \<open>The code: datagrams for the gateway\<close>

text \<open>\<open>DevPass\<close> is the return value 0, with which the packet goes on to the next handler.\<close>

datatype dev_udp = DevPass | DevSubmit BAddr BAddr bool bytes

definition ip_version :: "bytes \<Rightarrow> u8" where
  "ip_version data = (case data of [] \<Rightarrow> 0 | b # _ \<Rightarrow> drop_bit 4 b)"

text \<open>The UDP part of a packet: the header and the payload, if the checksum is right.\<close>

definition udp_verified :: "(udp_header \<Rightarrow> bytes \<Rightarrow> u16) \<Rightarrow> bytes \<Rightarrow> (udp_header \<times> bytes) option option" where
  "udp_verified checksum data =
     (case udp_check data of
        None \<Rightarrow> None
      | Some None \<Rightarrow> Some None
      | Some (Some (uh, payload)) \<Rightarrow>
          if udp_check_field uh \<noteq> checksum (uh\<lparr>udp_check_field := 0\<rparr>) payload then Some None else Some (Some (uh, payload)))"

definition ipv4_udp :: "bytes \<Rightarrow> (ipv4_header \<times> udp_header \<times> bytes) option option" where
  "ipv4_udp data =
     (if length data < 20 \<or> data ! 9 \<noteq> IPV4_PROTOCOL_UDP then Some None
      else case ipv4_check data of
        None \<Rightarrow> None
      | Some None \<Rightarrow> Some None
      | Some (Some (ih, data1)) \<Rightarrow>
          map_option (map_option (\<lambda>(uh, payload). (ih, uh\<lparr>udp_check_field := 0\<rparr>, payload)))
            (udp_verified (\<lambda>uh payload. udp_checksum uh payload (ip4_source ih) (ip4_destination ih)) data1))"

definition ipv6_udp :: "bytes \<Rightarrow> (ipv6_header \<times> udp_header \<times> bytes) option option" where
  "ipv6_udp data =
     (if length data < 40 \<or> data ! 6 \<noteq> IPV6_NEXT_UDP then Some None
      else case ipv6_check data of
        None \<Rightarrow> None
      | Some None \<Rightarrow> Some None
      | Some (Some (ih, data1)) \<Rightarrow>
          map_option (map_option (\<lambda>(uh, payload). (ih, uh\<lparr>udp_check_field := 0\<rparr>, payload)))
            (udp_verified (\<lambda>uh payload. udp_ip6_checksum uh payload (ip6_source ih) (ip6_destination ih)) data1))"

definition process_device_udp_packet :: "tun \<Rightarrow> bytes \<Rightarrow> dev_udp option" where
  "process_device_udp_packet t data =
     (let submit = (\<lambda>local remote is_dns payload.
            if int (length payload) > tun_udp_mtu t then DevPass else DevSubmit local remote is_dns payload) in
      if \<not> tun_udpgw t then Some DevPass
      else if ip_version data = 4 then
        map_option
          (\<lambda>r. case r of
             None \<Rightarrow> DevPass
           | Some (ih, uh, payload) \<Rightarrow>
               submit (BADDR_IPV4 (ip4_source ih) (source_port uh)) (BADDR_IPV4 (ip4_destination ih) (dest_port uh))
                 (tun_transparent_dns t \<and> ip4_destination ih = tun_ipaddr t \<and> dest_port uh = htons 53) payload)
          (ipv4_udp data)
      else if ip_version data = 6 then
        if \<not> tun_ip6 t then Some DevPass
        else map_option
          (\<lambda>r. case r of
             None \<Rightarrow> DevPass
           | Some (ih, uh, payload) \<Rightarrow>
               submit (BADDR_IPV6 (ip6_source ih) (source_port uh)) (BADDR_IPV6 (ip6_destination ih) (dest_port uh)) False payload)
          (ipv6_udp data)
      else Some DevPass)"

section \<open>The code: datagrams from the gateway\<close>

text \<open>\<open>device_send t parts\<close> assembles a packet in the write buffer and sends it.\<close>

definition device_send :: "tun \<Rightarrow> bytes list \<Rightarrow> (tun \<times> bytes) option" where
  "device_send t parts =
     (case put_seq (tun_write_buf t) 0 parts of
        None \<Rightarrow> None
      | Some buf \<Rightarrow>
          map_option (\<lambda>pkt. (t\<lparr>tun_write_buf := buf\<rparr>, pkt)) (load buf 0 (int (length (concat parts)))))"

definition reply_ipv4 :: "u32 \<Rightarrow> u32 \<Rightarrow> nat \<Rightarrow> ipv4_header" where
  "reply_ipv4 source destination len =
     (let iph = \<lparr>version4_ihl4 = IPV4_MAKE_VERSION_IHL 20, ip4_ds = 0, total_length = htons (of_nat (20 + 8 + len)),
                 identification = htons 0, flags3_fragmentoffset13 = htons 0, ip4_ttl = 64, ip4_protocol = IPV4_PROTOCOL_UDP,
                 ip4_checksum = htons 0, ip4_source = source, ip4_destination = destination\<rparr>
      in iph\<lparr>ip4_checksum := ipv4_checksum iph []\<rparr>)"

definition reply_ipv6 :: "bytes \<Rightarrow> bytes \<Rightarrow> nat \<Rightarrow> ipv6_header" where
  "reply_ipv6 source destination len =
     \<lparr>version4_tc4 = push_bit 4 6, tc4_fl4 = 0, ip6_fl = htons 0, payload_length = htons (of_nat (8 + len)),
      next_header = IPV6_NEXT_UDP, hop_limit = 64, ip6_source = take 16 source, ip6_destination = take 16 destination\<rparr>"

definition reply_udp :: "(udp_header \<Rightarrow> u16) \<Rightarrow> u16 \<Rightarrow> u16 \<Rightarrow> nat \<Rightarrow> udp_header" where
  "reply_udp checksum source dest len =
     (let udph = \<lparr>source_port = source, dest_port = dest, udp_length = htons (of_nat (8 + len)), udp_check_field = htons 0\<rparr>
      in udph\<lparr>udp_check_field := checksum udph\<rparr>)"

text \<open>The packet for the device, if one is sent.  Both addresses are of one kind.\<close>

definition udpgw_client_handler_received :: "tun \<Rightarrow> BAddr \<Rightarrow> BAddr \<Rightarrow> bytes \<Rightarrow> (tun \<times> bytes option) option" where
  "udpgw_client_handler_received t local remote data =
     (case (local, remote) of
        (BADDR_IPV4 lip lport, BADDR_IPV4 rip rport) \<Rightarrow>
          if int (length data) > 65535 - 28 \<or> int (length data) > tun_mtu t - 28 then Some (t, None)
          else
            (let iph = reply_ipv4 rip lip (length data);
                 udph = reply_udp (\<lambda>u. udp_checksum u data (ip4_source iph) (ip4_destination iph)) rport lport (length data)
             in map_option (\<lambda>(t', pkt). (t', Some pkt)) (device_send t [ipv4_mem iph, udp_mem udph, data]))
      | (BADDR_IPV6 lip lport, BADDR_IPV6 rip rport) \<Rightarrow>
          if \<not> tun_ip6 t then Some (t, None)
          else if int (length data) > 65535 - 8 \<or> int (length data) > tun_mtu t - 48 then Some (t, None)
          else
            (let iph = reply_ipv6 rip lip (length data);
                 udph = reply_udp (\<lambda>u. udp_ip6_checksum u data (ip6_source iph) (ip6_destination iph)) rport lport (length data)
             in map_option (\<lambda>(t', pkt). (t', Some pkt)) (device_send t [ipv6_mem iph, udp_mem udph, data]))
      | _ \<Rightarrow> None)"

section \<open>The code: DNS queries and replies\<close>

text \<open>The counters are unbounded here; the 32 bits they have are out of reach of open queries.\<close>

definition port_comparator :: "u16 \<Rightarrow> u16 \<Rightarrow> int" where
  "port_comparator v1 v2 = (if v1 = v2 then 0 else if v1 > v2 then 1 else -1)"

definition key_port :: "(nat \<Rightarrow> dns_con option) \<Rightarrow> nat \<Rightarrow> u16" where
  "key_port cons p = dc_port (the (cons p))"

definition find_connection :: "dns_gw \<Rightarrow> u16 \<Rightarrow> nat option" where
  "find_connection g port = BAVL_LookupExact port_comparator (key_port (dg_cons g)) (dg_tree g) port"

definition remove_connection :: "dns_gw \<Rightarrow> nat \<Rightarrow> dns_gw option" where
  "remove_connection g p =
     (case dg_cons g p of
        None \<Rightarrow> None
      | Some con \<Rightarrow>
          (let con' = con\<lparr>dc_count := dc_count con - 1\<rparr> in
           if dc_count con' \<le> 0 then
             map_option (\<lambda>tr. g\<lparr>dg_tree := tr, dg_cons := (dg_cons g)(p := None)\<rparr>) (BAVL_Remove (dg_tree g) p)
           else Some (g\<lparr>dg_cons := (dg_cons g)(p \<mapsto> con')\<rparr>)))"

text \<open>\<open>alloc\<close> is the address that \<^verbatim>\<open>malloc\<close> gives; its failure is not handled by the code.\<close>

definition insert_connection :: "dns_gw \<Rightarrow> nat option \<Rightarrow> BAddr \<Rightarrow> BAddr \<Rightarrow> u16 \<Rightarrow> dns_gw option" where
  "insert_connection g alloc local remote port =
     (case find_connection g port of
        Some p \<Rightarrow>
          Some (g\<lparr>dg_cons := (dg_cons g)(p := map_option (\<lambda>con. con\<lparr>dc_count := dc_count con + 1\<rparr>) (dg_cons g p))\<rparr>)
      | None \<Rightarrow>
          (case alloc of
             None \<Rightarrow> None
           | Some p \<Rightarrow>
               (let cons = (dg_cons g)(p \<mapsto> \<lparr>dc_local = local, dc_remote = remote, dc_port = port, dc_count = 1\<rparr>) in
                map_option (\<lambda>(tr, _). g\<lparr>dg_tree := tr, dg_cons := cons\<rparr>)
                  (BAVL_Insert port_comparator (key_port cons) (dg_tree g) p))))"

partial_function (option) dns_free_connections :: "dns_gw \<Rightarrow> dns_gw option" where
  "dns_free_connections g =
     (if BAVL_IsEmpty (dg_tree g) then Some g
      else case BAVL_GetLast (dg_tree g) of
        None \<Rightarrow> None
      | Some p \<Rightarrow>
          (case BAVL_Remove (dg_tree g) p of None \<Rightarrow> None | Some tr \<Rightarrow> dns_free_connections (g\<lparr>dg_tree := tr\<rparr>)))"

text \<open>The rewritten headers get new checksums, and the packet goes back to the device.\<close>

definition dns_forward :: "tun \<Rightarrow> ipv4_header \<Rightarrow> udp_header \<Rightarrow> bytes \<Rightarrow> (tun \<times> bytes option) option" where
  "dns_forward t ih uh payload =
     (let ih' = ih\<lparr>ip4_checksum := ipv4_checksum (ih\<lparr>ip4_checksum := htons 0\<rparr>) []\<rparr>;
          uh' = uh\<lparr>udp_check_field := udp_checksum (uh\<lparr>udp_check_field := htons 0\<rparr>) payload (ip4_source ih) (ip4_destination ih)\<rparr>
      in map_option (\<lambda>(t', pkt). (t', Some pkt)) (device_send t [ipv4_mem ih', udp_mem uh', payload]))"

fun baddr_ip4 :: "BAddr \<Rightarrow> u32" where
  "baddr_ip4 (BADDR_IPV4 ip port) = ip"
| "baddr_ip4 _ = 0"

fun baddr_port4 :: "BAddr \<Rightarrow> u16" where
  "baddr_port4 (BADDR_IPV4 ip port) = port"
| "baddr_port4 _ = 0"

text \<open>No packet is the return value 0.\<close>

definition process_device_dns_packet :: "tun \<Rightarrow> nat option \<Rightarrow> bytes \<Rightarrow> (tun \<times> bytes option) option" where
  "process_device_dns_packet t alloc data =
     (case tun_dnsgw t of
        None \<Rightarrow> Some (t, None)
      | Some (gw_ip, gw_port) \<Rightarrow>
          if ip_version data \<noteq> 4 then Some (t, None)
          else case ipv4_udp data of
            None \<Rightarrow> None
          | Some None \<Rightarrow> Some (t, None)
          | Some (Some (ih, uh, payload)) \<Rightarrow>
              (let g = tun_dns t in
               if dest_port uh = htons 53 then
                 (let g0 = (if dg_init g then g else g\<lparr>dg_init := True, dg_tree := Lf\<rparr>) in
                  case insert_connection g0 alloc (BADDR_IPV4 (ip4_source ih) (source_port uh))
                      (BADDR_IPV4 (ip4_destination ih) (dest_port uh)) (source_port uh) of
                    None \<Rightarrow> None
                  | Some g1 \<Rightarrow>
                      dns_forward (t\<lparr>tun_dns := g1\<rparr>) (ih\<lparr>ip4_destination := gw_ip, ip4_source := tun_ipaddr t\<rparr>)
                        (uh\<lparr>dest_port := gw_port\<rparr>) payload)
               else if source_port uh = gw_port then
                 if \<not> dg_init g then Some (t, None)
                 else case find_connection g (dest_port uh) of
                   None \<Rightarrow> Some (t, None)
                 | Some p \<Rightarrow>
                     (case dg_cons g p of
                        None \<Rightarrow> None
                      | Some con \<Rightarrow>
                          (case remove_connection g p of
                             None \<Rightarrow> None
                           | Some g1 \<Rightarrow>
                               dns_forward (t\<lparr>tun_dns := g1\<rparr>)
                                 (ih\<lparr>ip4_source := baddr_ip4 (dc_remote con), ip4_destination := baddr_ip4 (dc_local con)\<rparr>)
                                 (uh\<lparr>source_port := baddr_port4 (dc_remote con)\<rparr>) payload))
               else Some (t, None)))"

section \<open>The code: packets of the IP stack\<close>

text \<open>
  A packet of the stack is a chain of chunks; one chunk is sent as it is, more are put together in the
  write buffer.  A chain is never empty.
\<close>

fun netif_copy :: "tun \<Rightarrow> int \<Rightarrow> bytes list \<Rightarrow> (tun \<times> bytes option) option" where
  "netif_copy t len [] = map_option (\<lambda>pkt. (t, Some pkt)) (load (tun_write_buf t) 0 len)"
| "netif_copy t len (p # ps) =
     (if int (length p) > tun_mtu t - len then Some (t, None)
      else case store (tun_write_buf t) len p of
        None \<Rightarrow> None
      | Some buf \<Rightarrow> netif_copy (t\<lparr>tun_write_buf := buf\<rparr>) (len + int (length p)) ps)"

definition common_netif_output :: "bool \<Rightarrow> tun \<Rightarrow> bytes list \<Rightarrow> (tun \<times> bytes option) option" where
  "common_netif_output quitting t chain =
     (if quitting then Some (t, None)
      else case chain of
        [] \<Rightarrow> None
      | [p] \<Rightarrow> Some (t, if int (length p) > tun_mtu t then None else Some p)
      | _ \<Rightarrow> netif_copy t 0 chain)"

section \<open>Reading what was written\<close>

lemma device_send_ok:
  assumes "int (length (concat parts)) \<le> int (length (tun_write_buf t))"
  shows "\<exists>buf. device_send t parts = Some (t\<lparr>tun_write_buf := buf\<rparr>, concat parts) \<and> length buf = length (tun_write_buf t)"
proof -
  obtain m' where "put_seq (tun_write_buf t) 0 parts = Some m'" "length m' = length (tun_write_buf t)"
    "load m' 0 (int (length (concat parts))) = Some (concat parts)"
    using put_seq_store [of 0 parts "tun_write_buf t"] assms by auto
  then show ?thesis by (intro exI [of _ m']) (simp add: device_send_def)
qed

lemma load_front: "length as = n \<Longrightarrow> load (as @ bs) 0 (int n) = Some as"
  by (simp add: load_def in_range_def)

lemma load_back: "length as = n \<Longrightarrow> length bs = k \<Longrightarrow> load (as @ bs @ cs) (int n) (int k) = Some bs"
  by (simp add: load_def in_range_def)

text \<open>A packet whose header has no options, and whose length and checksum fields fit.\<close>

definition ipv4_fits :: "ipv4_header \<Rightarrow> nat \<Rightarrow> bool" where
  "ipv4_fits h n \<longleftrightarrow> version4_ihl4 h = 0x45 \<and> n \<le> 65515 \<and> total_length h = htons (of_nat (20 + n))
     \<and> ip4_checksum h = ipv4_checksum (h\<lparr>ip4_checksum := htons 0\<rparr>) []"

lemma nat16: "n \<le> 65535 \<Longrightarrow> unat (of_nat n :: u16) = n"
  by (simp add: unsigned_of_nat take_bit_nat_eq_self_iff)

lemma ipv4_check_written:
  assumes "ipv4_fits h (length rest)"
  shows "ipv4_check (ipv4_mem h @ rest) = Some (Some (h, rest))"
proof -
  have v: "IPV4_GET_VERSION h = 4" "IPV4_GET_IHL h = 5" using assms by (simp_all add: ipv4_fits_def IPV4_GET_VERSION_def IPV4_GET_IHL_def)
  have "total_length h = htons (of_nat (20 + length rest))" "length rest \<le> 65515" using assms by (simp_all only: ipv4_fits_def)
  then have l: "unat (ntohs (total_length h)) = 20 + length rest" using nat16 [of "20 + length rest"] by simp
  have "load (ipv4_mem h @ rest) 0 20 = Some (ipv4_mem h)" using load_front [of "ipv4_mem h" 20 rest] by simp
  moreover have "load (ipv4_mem h @ rest) 20 0 = Some []" using load_back [of "ipv4_mem h" 20 "[]" 0 rest] by simp
  moreover have "load (ipv4_mem h @ rest) 20 (int (length rest)) = Some rest" using load_back [of "ipv4_mem h" 20 rest _ "[]"] by simp
  moreover have "ip4_checksum h = ipv4_checksum (h\<lparr>ip4_checksum := htons 0\<rparr>) []" using assms by (simp add: ipv4_fits_def)
  ultimately show ?thesis using v l by (simp add: ipv4_check_def ipv4_of_mem Let_def)
qed

lemma udp_check_written:
  assumes "udp_length h = htons (of_nat (8 + length data))" "length data \<le> 65527"
  shows "udp_check (udp_mem h @ data @ stray) = Some (Some (h, data))"
proof -
  have l: "unat (ntohs (udp_length h)) = 8 + length data" using assms nat16 [of "8 + length data"] by simp
  have "load (udp_mem h @ data @ stray) 0 8 = Some (udp_mem h)" using load_front [of "udp_mem h" 8] by simp
  moreover have "load (data @ stray) 0 (int (length data)) = Some data" by (rule load_front) simp
  ultimately show ?thesis using l by (simp add: udp_check_def udp_of_mem Let_def)
qed

lemma nth_front: "i < length as \<Longrightarrow> (as @ bs) ! i = as ! i"
  by (simp add: nth_append)

lemma ipv4_udp_written:
  assumes h: "ipv4_fits h (8 + length data)" "ip4_protocol h = IPV4_PROTOCOL_UDP"
    and u: "udp_length u = htons (of_nat (8 + length data))"
    and c: "udp_check_field u = udp_checksum (u\<lparr>udp_check_field := 0\<rparr>) data (ip4_source h) (ip4_destination h)"
  shows "ipv4_udp (ipv4_mem h @ udp_mem u @ data) = Some (Some (h, u\<lparr>udp_check_field := 0\<rparr>, data))"
proof -
  have "(ipv4_mem h @ udp_mem u @ data) ! 9 = ip4_protocol h" by (simp add: nth_append) (simp add: ipv4_mem_def mem16_def)
  moreover have "ipv4_check (ipv4_mem h @ udp_mem u @ data) = Some (Some (h, udp_mem u @ data))"
    by (rule ipv4_check_written) (use h in simp)
  moreover have "length data \<le> 65527" using h(1) by (simp add: ipv4_fits_def)
  then have "udp_check (udp_mem u @ data) = Some (Some (u, data))" using udp_check_written [OF u, of "[]"] by simp
  ultimately show ?thesis using h(2) c by (simp add: ipv4_udp_def udp_verified_def)
qed

lemma ip_version_written: "ip_version (ipv4_mem h @ rest) = drop_bit 4 (version4_ihl4 h)"
  by (simp add: ip_version_def ipv4_mem_def)

lemma ipv6_udp_written:
  assumes h: "payload_length h = htons (of_nat (8 + length data))" "drop_bit 4 (version4_tc4 h) = 6" "next_header h = IPV6_NEXT_UDP"
      "length (ip6_source h) = 16" "length (ip6_destination h) = 16" "length data \<le> 65527"
    and u: "udp_length u = htons (of_nat (8 + length data))"
    and c: "udp_check_field u = udp_ip6_checksum (u\<lparr>udp_check_field := 0\<rparr>) data (ip6_source h) (ip6_destination h)"
  shows "ipv6_udp (ipv6_mem h @ udp_mem u @ data) = Some (Some (h, u\<lparr>udp_check_field := 0\<rparr>, data))"
proof -
  let ?p = "ipv6_mem h @ udp_mem u @ data"
  have l: "length (ipv6_mem h) = 40" by (rule length_ipv6_mem [OF h(4,5)])
  have "?p ! 6 = next_header h" using l by (simp add: nth_append) (simp add: ipv6_mem_def mem16_def)
  moreover have "ipv6_check ?p = Some (Some (h, udp_mem u @ data))"
  proof -
    have "load ?p 0 40 = Some (ipv6_mem h)" using load_front [OF l] by simp
    moreover have "load ?p 40 (int (8 + length data)) = Some (udp_mem u @ data)" using load_back [OF l, of "udp_mem u @ data" _ "[]"] by simp
    moreover have "unat (ntohs (payload_length h)) = 8 + length data" using h(1,6) nat16 [of "8 + length data"] by simp
    ultimately show ?thesis using l h(2) by (simp add: ipv6_check_def ipv6_of_mem [OF h(4,5)] Let_def)
  qed
  moreover have "udp_check (udp_mem u @ data) = Some (Some (u, data))" using udp_check_written [OF u h(6), of "[]"] by simp
  ultimately show ?thesis using h(3) c l by (simp add: ipv6_udp_def udp_verified_def)
qed

lemma ip6_version_written: "ip_version (ipv6_mem h @ rest) = drop_bit 4 (version4_tc4 h)"
  by (simp add: ip_version_def ipv6_mem_def)

section \<open>The written packets\<close>

lemma reply_ipv4_fits: "20 + n \<le> 65535 \<Longrightarrow> n = 8 + len \<Longrightarrow> ipv4_fits (reply_ipv4 s d len) n"
  by (simp add: ipv4_fits_def reply_ipv4_def IPV4_MAKE_VERSION_IHL_def Let_def)

lemma handler_received_ipv4:
  assumes "length (tun_write_buf t) = nat (tun_mtu t)" "int (length data) \<le> 65507" "int (length data) \<le> tun_mtu t - 28"
  shows "\<exists>buf h u. udpgw_client_handler_received t (BADDR_IPV4 lip lport) (BADDR_IPV4 rip rport) data
      = Some (t\<lparr>tun_write_buf := buf\<rparr>, Some (ipv4_mem h @ udp_mem u @ data)) \<and> version4_ihl4 h = 0x45
    \<and> ip4_source h = rip \<and> ip4_destination h = lip \<and> source_port u = rport \<and> dest_port u = lport
    \<and> ipv4_udp (ipv4_mem h @ udp_mem u @ data) = Some (Some (h, u\<lparr>udp_check_field := 0\<rparr>, data))"
proof -
  let ?h = "reply_ipv4 rip lip (length data)"
  let ?u = "reply_udp (\<lambda>u. udp_checksum u data (ip4_source ?h) (ip4_destination ?h)) rport lport (length data)"
  let ?parts = "[ipv4_mem ?h, udp_mem ?u, data]"
  have "int (length (concat ?parts)) \<le> int (length (tun_write_buf t))" using assms by simp
  then obtain buf where b: "device_send t ?parts = Some (t\<lparr>tun_write_buf := buf\<rparr>, concat ?parts)" using device_send_ok by blast
  have "ipv4_fits ?h (8 + length data)" using assms(2) by (intro reply_ipv4_fits) simp_all
  then have "ipv4_udp (ipv4_mem ?h @ udp_mem ?u @ data) = Some (Some (?h, ?u\<lparr>udp_check_field := 0\<rparr>, data))"
    by (rule ipv4_udp_written) (simp_all add: reply_ipv4_def reply_udp_def Let_def htons_def)
  moreover have "udpgw_client_handler_received t (BADDR_IPV4 lip lport) (BADDR_IPV4 rip rport) data
      = Some (t\<lparr>tun_write_buf := buf\<rparr>, Some (ipv4_mem ?h @ udp_mem ?u @ data))"
    using b assms(2,3) by (simp add: udpgw_client_handler_received_def Let_def)
  moreover have "version4_ihl4 ?h = 0x45 \<and> ip4_source ?h = rip \<and> ip4_destination ?h = lip \<and> source_port ?u = rport \<and> dest_port ?u = lport"
    by (simp add: reply_ipv4_def reply_udp_def Let_def IPV4_MAKE_VERSION_IHL_def)
  ultimately show ?thesis by blast
qed

lemma handler_received_ipv6:
  assumes "length (tun_write_buf t) = nat (tun_mtu t)" "tun_ip6 t" "int (length data) \<le> 65527" "int (length data) \<le> tun_mtu t - 48"
    "length lip = 16" "length rip = 16"
  shows "\<exists>buf h u. udpgw_client_handler_received t (BADDR_IPV6 lip lport) (BADDR_IPV6 rip rport) data
      = Some (t\<lparr>tun_write_buf := buf\<rparr>, Some (ipv6_mem h @ udp_mem u @ data)) \<and> version4_tc4 h = 0x60
    \<and> ip6_source h = rip \<and> ip6_destination h = lip \<and> source_port u = rport \<and> dest_port u = lport
    \<and> ipv6_udp (ipv6_mem h @ udp_mem u @ data) = Some (Some (h, u\<lparr>udp_check_field := 0\<rparr>, data))"
proof -
  let ?h = "reply_ipv6 rip lip (length data)"
  let ?u = "reply_udp (\<lambda>u. udp_ip6_checksum u data (ip6_source ?h) (ip6_destination ?h)) rport lport (length data)"
  let ?parts = "[ipv6_mem ?h, udp_mem ?u, data]"
  have a: "ip6_source ?h = rip" "ip6_destination ?h = lip" "version4_tc4 ?h = 0x60" using assms(5,6) by (simp_all add: reply_ipv6_def)
  have "int (length (concat ?parts)) \<le> int (length (tun_write_buf t))" using assms a by (simp add: length_ipv6_mem)
  then obtain buf where b: "device_send t ?parts = Some (t\<lparr>tun_write_buf := buf\<rparr>, concat ?parts)" using device_send_ok by blast
  have "ipv6_udp (ipv6_mem ?h @ udp_mem ?u @ data) = Some (Some (?h, ?u\<lparr>udp_check_field := 0\<rparr>, data))"
    by (rule ipv6_udp_written) (use assms in \<open>simp_all add: reply_ipv6_def reply_udp_def Let_def htons_def\<close>)
  moreover have "udpgw_client_handler_received t (BADDR_IPV6 lip lport) (BADDR_IPV6 rip rport) data
      = Some (t\<lparr>tun_write_buf := buf\<rparr>, Some (ipv6_mem ?h @ udp_mem ?u @ data))"
    using b assms(2-4) by (simp add: udpgw_client_handler_received_def Let_def)
  moreover have "source_port ?u = rport \<and> dest_port ?u = lport" by (simp add: reply_udp_def Let_def)
  ultimately show ?thesis using a by blast
qed

text \<open>The largest payload that fits a packet of the device, for an address of each kind.\<close>

fun reply_fits :: "tun \<Rightarrow> BAddr \<Rightarrow> bytes \<Rightarrow> bool" where
  "reply_fits t BADDR_NONE data \<longleftrightarrow> False"
| "reply_fits t (BADDR_IPV4 _ _) data \<longleftrightarrow> length data \<le> 65507 \<and> int (length data) \<le> tun_mtu t - 28"
| "reply_fits t (BADDR_IPV6 _ _) data \<longleftrightarrow> tun_ip6 t \<and> length data \<le> 65527 \<and> int (length data) \<le> tun_mtu t - 48"

lemma received_round_trip:
  assumes t: "length (tun_write_buf t) = nat (tun_mtu t)" and a: "addr_ok local" "addr_ok remote" "BAddr_type local = BAddr_type remote"
    and f: "reply_fits t local data"
  shows "\<exists>buf pkt. udpgw_client_handler_received t local remote data = Some (t\<lparr>tun_write_buf := buf\<rparr>, Some pkt)
    \<and> (\<forall>t2. tun_udpgw t2 \<and> (tun_ip6 t \<longrightarrow> tun_ip6 t2) \<and> int (length data) \<le> tun_udp_mtu t2 \<longrightarrow>
         (\<exists>is_dns. process_device_udp_packet t2 pkt = Some (DevSubmit remote local is_dns data)))"
proof (cases local)
  case l: (BADDR_IPV4 lip lport)
  then obtain rip rport where r: "remote = BADDR_IPV4 rip rport" using a(3) by (cases remote) auto
  obtain buf h u where p: "udpgw_client_handler_received t local remote data = Some (t\<lparr>tun_write_buf := buf\<rparr>, Some (ipv4_mem h @ udp_mem u @ data))"
    "version4_ihl4 h = 0x45" "ip4_source h = rip" "ip4_destination h = lip" "source_port u = rport" "dest_port u = lport"
    "ipv4_udp (ipv4_mem h @ udp_mem u @ data) = Some (Some (h, u\<lparr>udp_check_field := 0\<rparr>, data))"
    using handler_received_ipv4 [OF t, of data lip lport rip rport] f l r by auto
  then show ?thesis using l r by (fastforce simp: process_device_udp_packet_def ip_version_written)
next
  case l: (BADDR_IPV6 lip lport)
  then obtain rip rport where r: "remote = BADDR_IPV6 rip rport" using a(3) by (cases remote) auto
  obtain buf h u where p: "udpgw_client_handler_received t local remote data = Some (t\<lparr>tun_write_buf := buf\<rparr>, Some (ipv6_mem h @ udp_mem u @ data))"
    "version4_tc4 h = 0x60" "ip6_source h = rip" "ip6_destination h = lip" "source_port u = rport" "dest_port u = lport"
    "ipv6_udp (ipv6_mem h @ udp_mem u @ data) = Some (Some (h, u\<lparr>udp_check_field := 0\<rparr>, data))"
    using handler_received_ipv6 [OF t, of data lip rip lport rport] f l r a(1,2) by auto
  then show ?thesis using l r f by (fastforce simp: process_device_udp_packet_def ip6_version_written)
qed (use a in simp)

section \<open>Any packet is handled\<close>

lemma ipv4_check_total: "ipv4_check data \<noteq> None"
  by (auto simp: ipv4_check_def load_def in_range_def Let_def simp del: of_nat_unat)

lemma ipv6_check_total: "ipv6_check data \<noteq> None"
  by (auto simp: ipv6_check_def load_def in_range_def Let_def simp del: of_nat_unat)

lemma udp_check_total: "udp_check data \<noteq> None"
  by (auto simp: udp_check_def load_def in_range_def Let_def simp del: of_nat_unat)

lemma udp_verified_total: "udp_verified c data \<noteq> None"
  using udp_check_total [of data] by (auto simp: udp_verified_def split: option.splits)

lemma ip_udp_total: "ipv4_udp data \<noteq> None" "ipv6_udp data \<noteq> None"
  using ipv4_check_total [of data] ipv6_check_total [of data] udp_verified_total
  by (auto simp: ipv4_udp_def ipv6_udp_def split: option.splits)

lemma process_udp_total: "process_device_udp_packet t data \<noteq> None"
  using ip_udp_total [of data] by (simp add: process_device_udp_packet_def Let_def)

section \<open>The datagrams taken\<close>

lemma udp_mem_of: "length b = 8 \<Longrightarrow> udp_mem (udp_of b) = b"
  by (auto simp: udp_mem_def udp_of_def mem16_rd_mem16 length_Suc_conv eval_nat_numeral)

lemma load_split: "load m off n = Some xs \<Longrightarrow> \<exists>pre post. m = pre @ xs @ post"
  by (intro exI [of _ "take (nat off) m"] exI [of _ "drop (nat n) (drop (nat off) m)"]) (auto simp: load_def split: if_splits simp del: drop_drop)

lemma udp_check_some:
  assumes "udp_check data = Some (Some (h, p))"
  shows "\<exists>post. data = udp_mem h @ p @ post" "length p \<le> 65527"
proof -
  let ?b = "take 8 data"
  have l: "8 \<le> length data" and b: "load data 0 8 = Some ?b" and h: "h = udp_of ?b" and n: "8 \<le> unat (ntohs (udp_length h))"
    "unat (ntohs (udp_length h)) \<le> length data" and p: "load (drop 8 data) 0 (int (unat (ntohs (udp_length h))) - 8) = Some p"
    using assms by (auto simp: udp_check_def load_def in_range_def Let_def split: if_splits option.splits simp del: of_nat_unat)
  have "udp_mem h = ?b" using l h by (simp add: udp_mem_of)
  moreover obtain post where "drop 8 data = p @ post"
    using p append_take_drop_id [of "length p" "drop 8 data"] by (auto simp: load_def split: if_splits) (metis append_take_drop_id)
  ultimately show "\<exists>post. data = udp_mem h @ p @ post" using append_take_drop_id [of 8 data] by metis
  show "length p \<le> 65527" using length_load [OF p] n unat16 [of "ntohs (udp_length h)"] by linarith
qed

lemma udp_verified_some:
  assumes "udp_verified c data = Some (Some (h, p))"
  shows "\<exists>post. data = udp_mem h @ p @ post" "length p \<le> 65527" "udp_check_field h = c (h\<lparr>udp_check_field := 0\<rparr>) p"
proof -
  have "udp_check data = Some (Some (h, p))" "udp_check_field h = c (h\<lparr>udp_check_field := 0\<rparr>) p"
    using assms by (auto simp: udp_verified_def split: option.splits if_splits)
  then show "\<exists>post. data = udp_mem h @ p @ post" "length p \<le> 65527" "udp_check_field h = c (h\<lparr>udp_check_field := 0\<rparr>) p"
    using udp_check_some by blast+
qed

lemma ipv4_check_split: "ipv4_check data = Some (Some (h, d)) \<Longrightarrow> \<exists>pre post. data = pre @ d @ post"
  by (auto simp: ipv4_check_def Let_def split: if_splits option.splits intro: load_split)

lemma ipv6_check_split:
  "ipv6_check data = Some (Some (h, d)) \<Longrightarrow> \<exists>pre post. data = pre @ d @ post"
  "ipv6_check data = Some (Some (h, d)) \<Longrightarrow> length (ip6_source h) = 16 \<and> length (ip6_destination h) = 16"
  by (auto simp: ipv6_check_def Let_def split: if_splits option.splits intro: load_split)
    (auto simp: ipv6_of_def load_def in_range_def split: if_splits)

text \<open>What a datagram that is taken out of a packet has to do with the packet.\<close>

fun datagram_ok :: "BAddr \<Rightarrow> BAddr \<Rightarrow> udp_header \<Rightarrow> bytes \<Rightarrow> bool" where
  "datagram_ok (BADDR_IPV4 s sp) (BADDR_IPV4 d dp) h p \<longleftrightarrow>
     source_port h = sp \<and> dest_port h = dp \<and> udp_words h p s d mod 65535 = 0"
| "datagram_ok (BADDR_IPV6 s sp) (BADDR_IPV6 d dp) h p \<longleftrightarrow>
     length s = 16 \<and> length d = 16 \<and> source_port h = sp \<and> dest_port h = dp \<and> udp_ip6_words h p s d mod 65535 = 0"
| "datagram_ok _ _ h p \<longleftrightarrow> False"

lemma ipv4_udp_some:
  assumes "ipv4_udp data = Some (Some (ih, uh, p))"
  shows "\<exists>h pre post. data = pre @ udp_mem h @ p @ post \<and> uh = h\<lparr>udp_check_field := 0\<rparr>
    \<and> datagram_ok (BADDR_IPV4 (ip4_source ih) (source_port uh)) (BADDR_IPV4 (ip4_destination ih) (dest_port uh)) h p"
proof -
  let ?c = "\<lambda>uh payload. udp_checksum uh payload (ip4_source ih) (ip4_destination ih)"
  obtain d h where d: "ipv4_check data = Some (Some (ih, d))" "udp_verified ?c d = Some (Some (h, p))" "uh = h\<lparr>udp_check_field := 0\<rparr>"
    using assms by (auto simp: ipv4_udp_def split: option.splits if_splits)
  obtain pre post' where "data = pre @ d @ post'" using ipv4_check_split [OF d(1)] by blast
  moreover obtain post where "d = udp_mem h @ p @ post" using udp_verified_some(1) [OF d(2)] by blast
  moreover have "length p \<le> 65535" using udp_verified_some(2) [OF d(2)] by simp
  ultimately show ?thesis using udp_verified_some(3) [OF d(2)] udp_accepts [of p h] d(3)
    by (intro exI [of _ h] exI [of _ pre] exI [of _ "post @ post'"]) auto
qed

lemma ipv6_udp_some:
  assumes "ipv6_udp data = Some (Some (ih, uh, p))"
  shows "\<exists>h pre post. data = pre @ udp_mem h @ p @ post \<and> uh = h\<lparr>udp_check_field := 0\<rparr>
    \<and> datagram_ok (BADDR_IPV6 (ip6_source ih) (source_port uh)) (BADDR_IPV6 (ip6_destination ih) (dest_port uh)) h p"
proof -
  let ?c = "\<lambda>uh payload. udp_ip6_checksum uh payload (ip6_source ih) (ip6_destination ih)"
  obtain d h where d: "ipv6_check data = Some (Some (ih, d))" "udp_verified ?c d = Some (Some (h, p))" "uh = h\<lparr>udp_check_field := 0\<rparr>"
    using assms by (auto simp: ipv6_udp_def split: option.splits if_splits)
  obtain pre post' where "data = pre @ d @ post'" using ipv6_check_split(1) [OF d(1)] by blast
  moreover obtain post where "d = udp_mem h @ p @ post" using udp_verified_some(1) [OF d(2)] by blast
  moreover have l: "length (ip6_source ih) = 16" "length (ip6_destination ih) = 16" using ipv6_check_split(2) [OF d(1)] by simp_all
  ultimately show ?thesis
    using udp_verified_some(2,3) [OF d(2)] udp_ip6_checksum_accepts [of p "ip6_source ih" "ip6_destination ih" h] d(3)
    by (intro exI [of _ h] exI [of _ pre] exI [of _ "post @ post'"]) auto
qed

lemma process_udp_taken:
  assumes "process_device_udp_packet t data = Some (DevSubmit l r is_dns p)"
  shows "int (length p) \<le> tun_udp_mtu t" "\<exists>h pre post. data = pre @ udp_mem h @ p @ post \<and> datagram_ok l r h p"
    "BAddr_type l = 1 \<or> tun_ip6 t"
proof -
  have "(\<exists>h pre post. data = pre @ udp_mem h @ p @ post \<and> datagram_ok l r h p) \<and> int (length p) \<le> tun_udp_mtu t \<and> (BAddr_type l = 1 \<or> tun_ip6 t)"
  proof (cases "ip_version data = 4")
    case True
    obtain ih uh where i: "ipv4_udp data = Some (Some (ih, uh, p))" "l = BADDR_IPV4 (ip4_source ih) (source_port uh)"
      "r = BADDR_IPV4 (ip4_destination ih) (dest_port uh)" "int (length p) \<le> tun_udp_mtu t"
      using assms True by (cases "ipv4_udp data"; cases "the (ipv4_udp data)") (auto simp: process_device_udp_packet_def split: if_splits)
    from ipv4_udp_some [OF i(1)] show ?thesis using i(2-4) by fastforce
  next
    case False
    obtain ih uh where i: "ipv6_udp data = Some (Some (ih, uh, p))" "l = BADDR_IPV6 (ip6_source ih) (source_port uh)"
      "r = BADDR_IPV6 (ip6_destination ih) (dest_port uh)" "int (length p) \<le> tun_udp_mtu t" "tun_ip6 t"
      using assms False by (cases "ipv6_udp data"; cases "the (ipv6_udp data)") (auto simp: process_device_udp_packet_def split: if_splits)
    from ipv6_udp_some [OF i(1)] show ?thesis using i(2-5) by fastforce
  qed
  then show "int (length p) \<le> tun_udp_mtu t" "\<exists>h pre post. data = pre @ udp_mem h @ p @ post \<and> datagram_ok l r h p"
    "BAddr_type l = 1 \<or> tun_ip6 t" by blast+
qed

lemma datagram_ok_addr: "datagram_ok l r h p \<Longrightarrow> addr_ok l \<and> addr_ok r \<and> BAddr_type l = BAddr_type r"
  by (cases "(l, r, h, p)" rule: datagram_ok.cases) auto

section \<open>The table of DNS queries\<close>

interpretation pc: bavl_order port_comparator
proof -
  have "port_comparator = B_COMPARE" by (auto simp: fun_eq_iff port_comparator_def B_COMPARE_def)
  then show "bavl_order port_comparator" using bc.bavl_order_axioms by simp
qed

definition dns_ok :: "dns_gw \<Rightarrow> bool" where
  "dns_ok g \<longleftrightarrow> avl_index port_comparator (key_port (dg_cons g)) (dg_tree g) (dom (dg_cons g))
     \<and> (\<forall>p con. dg_cons g p = Some con \<longrightarrow> 0 < dc_count con)"

text \<open>The table: for a port, where its queries came from, where they went to, and how many are open.\<close>

definition dns_table :: "dns_gw \<Rightarrow> u16 \<Rightarrow> (BAddr \<times> BAddr \<times> int) option" where
  "dns_table g port =
     (case find_connection g port of
        None \<Rightarrow> None
      | Some p \<Rightarrow> map_option (\<lambda>con. (dc_local con, dc_remote con, dc_count con)) (dg_cons g p))"

lemma find_dns: "dns_ok g \<Longrightarrow> find_connection g port = Some p \<longleftrightarrow> (\<exists>con. dg_cons g p = Some con \<and> dc_port con = port)"
  using pc.index_lookup [of "key_port (dg_cons g)" "dg_tree g" "dom (dg_cons g)" port p]
  by (auto simp: dns_ok_def find_connection_def key_port_def dom_def)

lemma find_dns_none: "dns_ok g \<Longrightarrow> find_connection g port = None \<longleftrightarrow> (\<forall>p con. dg_cons g p = Some con \<longrightarrow> dc_port con \<noteq> port)"
  using find_dns [of g port] by (metis not_None_eq)

definition dns_entry :: "dns_con \<Rightarrow> BAddr \<times> BAddr \<times> int" where
  "dns_entry con = (dc_local con, dc_remote con, dc_count con)"

lemma dns_table_at: "dns_ok g \<Longrightarrow> dg_cons g p = Some con \<Longrightarrow> dns_table g (dc_port con) = Some (dns_entry con)"
  using find_dns [of g "dc_port con" p] by (simp add: dns_table_def dns_entry_def)

lemma dns_table_none: "dns_ok g \<Longrightarrow> find_connection g port = None \<Longrightarrow> dns_table g port = None"
  by (simp add: dns_table_def)

lemma dns_table_update:
  assumes g: "dns_ok g" "dns_ok g1" and c: "dg_cons g1 = (dg_cons g)(p := v)"
    and v: "\<And>con. v = Some con \<Longrightarrow> dc_port con = port"
    and old: "\<And>q con. dg_cons g q = Some con \<Longrightarrow> dc_port con = port \<longleftrightarrow> q = p"
  shows "dns_table g1 = (dns_table g)(port := map_option dns_entry v)"
proof
  fix k
  show "dns_table g1 k = ((dns_table g)(port := map_option dns_entry v)) k"
  proof (cases "k = port")
    case True
    show ?thesis
    proof (cases v)
      case None
      then have "find_connection g1 port = None" using find_dns_none [OF g(2)] old c by (auto split: if_splits)
      then show ?thesis using True None dns_table_none [OF g(2)] by simp
    next
      case (Some con)
      then show ?thesis using True dns_table_at [OF g(2), of p con] v [OF Some] c by simp
    qed
  next
    case False
    show ?thesis
    proof (cases "find_connection g k")
      case None
      then have "find_connection g1 k = None"
        using find_dns_none [OF g(1)] find_dns_none [OF g(2)] c v False by (auto split: if_splits)
      then show ?thesis using False None dns_table_none g by simp
    next
      case (Some q)
      then obtain con where q: "dg_cons g q = Some con" "dc_port con = k" using find_dns [OF g(1)] by auto
      then have "dg_cons g1 q = Some con" using c old [OF q(1)] False by auto
      then show ?thesis using q False dns_table_at [OF g(1) q(1)] dns_table_at [OF g(2)] by auto
    qed
  qed
qed

text \<open>A query opens an entry or adds one to it; a reply takes one away.\<close>

fun dns_opened :: "BAddr \<Rightarrow> BAddr \<Rightarrow> (BAddr \<times> BAddr \<times> int) option \<Rightarrow> BAddr \<times> BAddr \<times> int" where
  "dns_opened local remote None = (local, remote, 1)"
| "dns_opened local remote (Some (l, r, n)) = (l, r, n + 1)"

fun dns_closed :: "BAddr \<times> BAddr \<times> int \<Rightarrow> (BAddr \<times> BAddr \<times> int) option" where
  "dns_closed (l, r, n) = (if n = 1 then None else Some (l, r, n - 1))"

lemma dns_counted:
  assumes g: "dns_ok g" and p: "dg_cons g p = Some con" and n: "0 < dc_count con'" "dc_port con' = dc_port con"
  shows "dns_ok (g\<lparr>dg_cons := (dg_cons g)(p \<mapsto> con')\<rparr>)"
    "dns_table (g\<lparr>dg_cons := (dg_cons g)(p \<mapsto> con')\<rparr>) = (dns_table g)(dc_port con \<mapsto> dns_entry con')"
proof -
  let ?g = "g\<lparr>dg_cons := (dg_cons g)(p \<mapsto> con')\<rparr>"
  have "key_port ((dg_cons g)(p \<mapsto> con')) = key_port (dg_cons g)" using p n(2) by (auto simp: fun_eq_iff key_port_def)
  moreover have "dom ((dg_cons g)(p \<mapsto> con')) = dom (dg_cons g)" using p by auto
  ultimately show ok: "dns_ok ?g" using g n(1) by (auto simp: dns_ok_def)
  have "dc_port c = dc_port con \<longleftrightarrow> q = p" if "dg_cons g q = Some c" for q c
    using find_dns [OF g, of "dc_port con" q] find_dns [OF g, of "dc_port con" p] p that by auto
  from dns_table_update [OF g ok _ _ this, where v = "Some con'"] n(2)
  show "dns_table ?g = (dns_table g)(dc_port con \<mapsto> dns_entry con')" by simp
qed

lemma insert_dns:
  assumes g: "dns_ok g" and a: "alloc = Some p" "dg_cons g p = None"
  shows "\<exists>g1. insert_connection g alloc local remote port = Some g1 \<and> dns_ok g1
    \<and> dns_table g1 = (dns_table g)(port \<mapsto> dns_opened local remote (dns_table g port)) \<and> dg_init g1 = dg_init g"
proof (cases "find_connection g port")
  case (Some q)
  then obtain con where q: "dg_cons g q = Some con" "dc_port con = port" using find_dns [OF g] by auto
  let ?con = "con\<lparr>dc_count := dc_count con + 1\<rparr>" and ?g = "g\<lparr>dg_cons := (dg_cons g)(q \<mapsto> con\<lparr>dc_count := dc_count con + 1\<rparr>)\<rparr>"
  have "0 < dc_count con" using g q(1) by (auto simp: dns_ok_def)
  then have "dns_ok ?g" "dns_table ?g = (dns_table g)(port \<mapsto> dns_entry ?con)" using dns_counted [OF g q(1), of ?con] q(2) by auto
  moreover have "dns_opened local remote (dns_table g port) = dns_entry ?con" using dns_table_at [OF g q(1)] q(2) by (simp add: dns_entry_def)
  moreover have "insert_connection g alloc local remote port = Some ?g" using Some q(1) by (simp add: insert_connection_def)
  ultimately show ?thesis by auto
next
  case None
  let ?con = "\<lparr>dc_local = local, dc_remote = remote, dc_port = port, dc_count = 1\<rparr>"
  let ?cons = "(dg_cons g)(p \<mapsto> ?con)"
  have x: "avl_index port_comparator (key_port ?cons) (dg_tree g) (dom (dg_cons g))"
    by (rule index_cong [of _ "key_port (dg_cons g)"]) (use g a(2) in \<open>auto simp: dns_ok_def key_port_def\<close>)
  have "key_port ?cons p \<notin> key_port ?cons ` dom (dg_cons g)"
  proof
    assume "key_port ?cons p \<in> key_port ?cons ` dom (dg_cons g)"
    then obtain q c where "dg_cons g q = Some c" "key_port ?cons q = port" by (auto simp: key_port_def)
    moreover have "q \<noteq> p" using calculation(1) a(2) by auto
    ultimately show False using None [unfolded find_dns_none [OF g]] by (auto simp: key_port_def)
  qed
  from pc.index_insert [OF x this] obtain tr where tr: "BAVL_Insert port_comparator (key_port ?cons) (dg_tree g) p = Some (tr, True)"
    "avl_index port_comparator (key_port ?cons) tr (insert p (dom (dg_cons g)))" by blast
  let ?g = "g\<lparr>dg_tree := tr, dg_cons := ?cons\<rparr>"
  have ok: "dns_ok ?g" using tr(2) g by (auto simp: dns_ok_def)
  have "dc_port c = port \<longleftrightarrow> q = p" if "dg_cons g q = Some c" for q c using None find_dns_none [OF g] that a(2) by auto
  from dns_table_update [OF g ok _ _ this, where v = "Some ?con"]
  have "dns_table ?g = (dns_table g)(port \<mapsto> dns_entry ?con)" by simp
  moreover have "insert_connection g alloc local remote port = Some ?g" using None a(1) tr(1) by (simp add: insert_connection_def)
  moreover have "dns_opened local remote (dns_table g port) = dns_entry ?con" using None by (simp add: dns_table_def dns_entry_def)
  ultimately show ?thesis using ok by auto
qed

lemma remove_dns:
  assumes g: "dns_ok g" and f: "find_connection g port = Some p"
  shows "\<exists>g1 con. dg_cons g p = Some con \<and> remove_connection g p = Some g1 \<and> dns_ok g1 \<and> dns_table g port = Some (dns_entry con)
    \<and> dns_table g1 = (dns_table g)(port := dns_closed (dns_entry con)) \<and> dg_init g1 = dg_init g"
proof -
  obtain con where p: "dg_cons g p = Some con" "dc_port con = port" using f find_dns [OF g] by auto
  have n: "0 < dc_count con" using g p(1) by (auto simp: dns_ok_def)
  have e: "dns_table g port = Some (dns_entry con)" using dns_table_at [OF g p(1)] p(2) by simp
  show ?thesis
  proof (cases "dc_count con = 1")
    case True
    have "avl_index port_comparator (key_port (dg_cons g)) (dg_tree g) (dom (dg_cons g))" using g by (simp add: dns_ok_def)
    then obtain tr where tr: "BAVL_Remove (dg_tree g) p = Some tr" "avl_index port_comparator (key_port (dg_cons g)) tr (dom (dg_cons g) - {p})"
      using pc.index_remove [of _ _ _ p] p(1) by (metis domI)
    let ?g = "g\<lparr>dg_tree := tr, dg_cons := (dg_cons g)(p := None)\<rparr>"
    have "avl_index port_comparator (key_port ((dg_cons g)(p := None))) tr (dom (dg_cons g) - {p})"
      by (rule index_cong [OF tr(2)]) (simp add: key_port_def)
    then have ok: "dns_ok ?g" using g by (auto simp: dns_ok_def)
    have "dc_port c = port \<longleftrightarrow> q = p" if "dg_cons g q = Some c" for q c using find_dns [OF g, of port q] f that p by auto
    from dns_table_update [OF g ok _ _ this, where v = None] have "dns_table ?g = (dns_table g)(port := None)" by simp
    moreover have "remove_connection g p = Some ?g" using p(1) True tr(1) by (simp add: remove_connection_def)
    ultimately show ?thesis using ok p(1) e True by (auto simp: dns_entry_def)
  next
    case False
    let ?con = "con\<lparr>dc_count := dc_count con - 1\<rparr>"
    let ?g = "g\<lparr>dg_cons := (dg_cons g)(p \<mapsto> ?con)\<rparr>"
    have "dns_ok ?g" "dns_table ?g = (dns_table g)(port \<mapsto> dns_entry ?con)" using dns_counted [OF g p(1), of ?con] p(2) n False by auto
    moreover have "remove_connection g p = Some ?g" using p(1) n False by (simp add: remove_connection_def Let_def)
    ultimately show ?thesis using p(1) e False by (auto simp: dns_entry_def)
  qed
qed

section \<open>DNS packets\<close>

lemma ipv4_udp_length: "ipv4_udp data = Some (Some (ih, uh, p)) \<Longrightarrow> 28 + length p \<le> length data"
proof -
  assume a: "ipv4_udp data = Some (Some (ih, uh, p))"
  let ?c = "\<lambda>uh payload. udp_checksum uh payload (ip4_source ih) (ip4_destination ih)"
  obtain d h where d: "ipv4_check data = Some (Some (ih, d))" "udp_verified ?c d = Some (Some (h, p))"
    using a by (auto simp: ipv4_udp_def split: option.splits if_splits)
  obtain post where "d = udp_mem h @ p @ post" using udp_verified_some(1) [OF d(2)] by blast
  then have "8 + length p \<le> length d" by simp
  moreover have "20 + length d \<le> length data"
    using d(1) by (auto simp: ipv4_check_def Let_def load_def in_range_def split: if_splits option.splits simp del: of_nat_unat)
  ultimately show ?thesis by simp
qed

lemma dns_forward_ok:
  assumes "28 + length p \<le> length (tun_write_buf t)"
  shows "\<exists>buf ih' uh'. dns_forward t ih uh p = Some (t\<lparr>tun_write_buf := buf\<rparr>, Some (ipv4_mem ih' @ udp_mem uh' @ p)) \<and> length buf = length (tun_write_buf t)
    \<and> (version4_ihl4 ih = 0x45 \<and> ip4_protocol ih = 17 \<and> length p \<le> 65507 \<and> total_length ih = htons (of_nat (28 + length p))
       \<and> udp_length uh = htons (of_nat (8 + length p)) \<longrightarrow>
       ip_version (ipv4_mem ih' @ udp_mem uh' @ p) = 4
       \<and> ipv4_udp (ipv4_mem ih' @ udp_mem uh' @ p) = Some (Some (ih', uh\<lparr>udp_check_field := 0\<rparr>, p))
       \<and> ip4_source ih' = ip4_source ih \<and> ip4_destination ih' = ip4_destination ih)"
proof -
  let ?ih = "ih\<lparr>ip4_checksum := ipv4_checksum (ih\<lparr>ip4_checksum := htons 0\<rparr>) []\<rparr>"
  let ?uh = "uh\<lparr>udp_check_field := udp_checksum (uh\<lparr>udp_check_field := htons 0\<rparr>) p (ip4_source ih) (ip4_destination ih)\<rparr>"
  let ?parts = "[ipv4_mem ?ih, udp_mem ?uh, p]"
  have "int (length (concat ?parts)) \<le> int (length (tun_write_buf t))" using assms by simp
  from device_send_ok [OF this] obtain buf
    where b: "device_send t ?parts = Some (t\<lparr>tun_write_buf := buf\<rparr>, concat ?parts)" "length buf = length (tun_write_buf t)" by blast
  have z: "htons 0 = 0" by (simp add: htons_def)
  have "ipv4_udp (ipv4_mem ?ih @ udp_mem ?uh @ p) = Some (Some (?ih, ?uh\<lparr>udp_check_field := 0\<rparr>, p))"
    if "version4_ihl4 ih = 0x45" "ip4_protocol ih = 17" "length p \<le> 65507" "total_length ih = htons (of_nat (28 + length p))"
      "udp_length uh = htons (of_nat (8 + length p))"
  proof (rule ipv4_udp_written)
    show "ipv4_fits ?ih (8 + length p)" using that by (simp add: ipv4_fits_def)
  qed (use that z in simp_all)
  then show ?thesis using b
    by (intro exI [of _ buf] exI [of _ ?ih] exI [of _ ?uh]) (simp add: dns_forward_def Let_def ip_version_written)
qed

lemma ipv4_udp_fields:
  assumes "ipv4_udp data = Some (Some (ih, uh, p))"
  shows "ip4_protocol ih = 17" "udp_length uh = htons (of_nat (8 + length p))"
proof -
  let ?c = "\<lambda>uh payload. udp_checksum uh payload (ip4_source ih) (ip4_destination ih)"
  obtain d h where d: "ipv4_check data = Some (Some (ih, d))" "udp_verified ?c d = Some (Some (h, p))" "uh = h\<lparr>udp_check_field := 0\<rparr>"
    and n: "data ! 9 = 17" "20 \<le> length data"
    using assms by (auto simp: ipv4_udp_def split: option.splits if_splits)
  have "ih = ipv4_of (take 20 data)"
    using d(1) by (auto simp: ipv4_check_def Let_def load_def in_range_def split: if_splits option.splits)
  then show "ip4_protocol ih = 17" using n by (simp add: ipv4_of_def)
  have c: "udp_check d = Some (Some (h, p))" using d(2) by (auto simp: udp_verified_def split: option.splits if_splits)
  have "h = udp_of (take 8 d)" "unat (ntohs (udp_length (udp_of (take 8 d)))) = 8 + length p"
    using c by (auto simp: udp_check_def Let_def load_def in_range_def split: if_splits option.splits simp del: of_nat_unat)
  then have "unat (ntohs (udp_length h)) = 8 + length p" by simp
  then have "ntohs (udp_length h) = of_nat (8 + length p)"
    using unat16 [of "ntohs (udp_length h)"] by (subst unat_eq_of_nat) simp_all
  moreover have "udp_length uh = udp_length h" using d(3) by simp
  ultimately show "udp_length uh = htons (of_nat (8 + length p))" by (metis htons_htons)
qed

definition tun_table :: "tun \<Rightarrow> u16 \<Rightarrow> (BAddr \<times> BAddr \<times> int) option" where
  "tun_table t = (if dg_init (tun_dns t) then dns_table (tun_dns t) else Map.empty)"

definition dns_ready :: "tun \<Rightarrow> bool" where
  "dns_ready t \<longleftrightarrow> int (length (tun_write_buf t)) = tun_mtu t
     \<and> (if dg_init (tun_dns t) then dns_ok (tun_dns t) else dg_cons (tun_dns t) = Map.empty)
     \<and> (\<forall>port l r n. tun_table t port = Some (l, r, n) \<longrightarrow> BAddr_type l = 1 \<and> BAddr_type r = 1)"

text \<open>A header without options in a packet without anything behind the datagram.\<close>

definition dns_plain :: "ipv4_header \<Rightarrow> bytes \<Rightarrow> bool" where
  "dns_plain ih p \<longleftrightarrow> version4_ihl4 ih = 0x45 \<and> unat (ntohs (total_length ih)) = 28 + length p"

text \<open>A packet that carries a datagram.\<close>

definition dns_sent :: "bytes \<Rightarrow> BAddr \<Rightarrow> BAddr \<Rightarrow> bytes \<Rightarrow> bool" where
  "dns_sent pkt from to p \<longleftrightarrow> ip_version pkt = 4
     \<and> (\<exists>ih uh. ipv4_udp pkt = Some (Some (ih, uh, p)) \<and> from = BADDR_IPV4 (ip4_source ih) (source_port uh)
          \<and> to = BADDR_IPV4 (ip4_destination ih) (dest_port uh))"

lemma dns_forward_sent:
  assumes "int (length (tun_write_buf t)) = tun_mtu t" "int (28 + length p) \<le> tun_mtu t" "ip4_protocol ih = 17" "udp_length uh = htons (of_nat (8 + length p))"
  shows "\<exists>buf pkt. dns_forward t ih uh p = Some (t\<lparr>tun_write_buf := buf\<rparr>, Some pkt) \<and> length buf = length (tun_write_buf t)
    \<and> (dns_plain ih p \<longrightarrow> dns_sent pkt (BADDR_IPV4 (ip4_source ih) (source_port uh)) (BADDR_IPV4 (ip4_destination ih) (dest_port uh)) p)"
proof -
  have "28 + length p \<le> length (tun_write_buf t)" using assms(1,2) by linarith
  from dns_forward_ok [OF this, of ih uh] obtain buf ih' uh' where
    b: "dns_forward t ih uh p = Some (t\<lparr>tun_write_buf := buf\<rparr>, Some (ipv4_mem ih' @ udp_mem uh' @ p))" "length buf = length (tun_write_buf t)"
    and s: "version4_ihl4 ih = 0x45 \<Longrightarrow> length p \<le> 65507 \<Longrightarrow> total_length ih = htons (of_nat (28 + length p)) \<Longrightarrow>
       ip_version (ipv4_mem ih' @ udp_mem uh' @ p) = 4
       \<and> ipv4_udp (ipv4_mem ih' @ udp_mem uh' @ p) = Some (Some (ih', uh\<lparr>udp_check_field := 0\<rparr>, p))
       \<and> ip4_source ih' = ip4_source ih \<and> ip4_destination ih' = ip4_destination ih"
    using assms(3,4) by blast
  have "dns_sent (ipv4_mem ih' @ udp_mem uh' @ p) (BADDR_IPV4 (ip4_source ih) (source_port uh)) (BADDR_IPV4 (ip4_destination ih) (dest_port uh)) p"
    if "dns_plain ih p"
  proof -
    have n: "unat (ntohs (total_length ih)) = 28 + length p" "version4_ihl4 ih = 0x45" using that by (simp_all add: dns_plain_def)
    then have "length p \<le> 65507" using unat16 [of "ntohs (total_length ih)"] by linarith
    moreover have "ntohs (total_length ih) = of_nat (28 + length p)" by (subst unat_eq_of_nat) (use n calculation in simp_all)
    then have "total_length ih = htons (of_nat (28 + length p))" by (metis htons_htons)
    ultimately show ?thesis using s n(2) unfolding dns_sent_def by fastforce
  qed
  then show ?thesis using b by blast
qed

lemma dns_started:
  assumes "dns_ready t" "g = (if dg_init (tun_dns t) then tun_dns t else (tun_dns t)\<lparr>dg_init := True, dg_tree := Lf\<rparr>)"
  shows "dns_ok g" "dns_table g = tun_table t" "dg_init g" "dg_cons g = dg_cons (tun_dns t)"
proof -
  have "dns_ok g \<and> dns_table g = tun_table t"
  proof (cases "dg_init (tun_dns t)")
    case True
    then show ?thesis using assms by (simp add: dns_ready_def tun_table_def)
  next
    case False
    then have e: "dg_cons g = Map.empty" "dg_tree g = Lf" using assms by (simp_all add: dns_ready_def)
    then have ok: "dns_ok g" by (simp add: dns_ok_def)
    then have "dns_table g port = None" for port using find_dns_none [OF ok, of port] e by (simp add: dns_table_def)
    then show ?thesis using ok False by (simp add: tun_table_def fun_eq_iff)
  qed
  then show "dns_ok g" "dns_table g = tun_table t" "dg_init g" "dg_cons g = dg_cons (tun_dns t)" using assms(2) by simp_all
qed

text \<open>The addresses of the table are those of IPv4.\<close>

definition table_ipv4 :: "(u16 \<Rightarrow> (BAddr \<times> BAddr \<times> int) option) \<Rightarrow> bool" where
  "table_ipv4 m \<longleftrightarrow> (\<forall>port l r n. m port = Some (l, r, n) \<longrightarrow> BAddr_type l = 1 \<and> BAddr_type r = 1)"

lemma table_ipv4_opened: "table_ipv4 m \<Longrightarrow> BAddr_type l = 1 \<Longrightarrow> BAddr_type r = 1 \<Longrightarrow> table_ipv4 (m(port \<mapsto> dns_opened l r (m port)))"
  unfolding table_ipv4_def by (cases "m port") (auto split: if_splits, blast+)

lemma table_ipv4_closed: "table_ipv4 m \<Longrightarrow> m port = Some e \<Longrightarrow> table_ipv4 (m(port := dns_closed e))"
  unfolding table_ipv4_def by (cases e) (auto split: if_splits)

lemma dns_ready_next:
  assumes "dns_ready t" "dns_ok g" "dg_init g" "dns_table g = m" "table_ipv4 m" "length buf = length (tun_write_buf t)"
  shows "dns_ready (t\<lparr>tun_dns := g, tun_write_buf := buf\<rparr>)" "tun_table (t\<lparr>tun_dns := g, tun_write_buf := buf\<rparr>) = m"
  using assms by (auto simp: dns_ready_def tun_table_def table_ipv4_def)

lemma dns_query:
  assumes gw: "tun_dnsgw t = Some (gip, gport)" and r: "dns_ready t" and v: "ip_version data = 4"
    and u: "ipv4_udp data = Some (Some (ih, uh, p))" and l: "int (length data) \<le> tun_mtu t" and d: "dest_port uh = htons 53"
    and a: "alloc = Some q" "dg_cons (tun_dns t) q = None"
  shows "\<exists>t' pkt. process_device_dns_packet t alloc data = Some (t', Some pkt) \<and> dns_ready t'
    \<and> tun_table t' = (tun_table t)(source_port uh \<mapsto> dns_opened (BADDR_IPV4 (ip4_source ih) (source_port uh))
        (BADDR_IPV4 (ip4_destination ih) (dest_port uh)) (tun_table t (source_port uh)))
    \<and> (dns_plain ih p \<longrightarrow> dns_sent pkt (BADDR_IPV4 (tun_ipaddr t) (source_port uh)) (BADDR_IPV4 gip gport) p)"
proof -
  define g where "g = (if dg_init (tun_dns t) then tun_dns t else (tun_dns t)\<lparr>dg_init := True, dg_tree := Lf\<rparr>)"
  note g = dns_started [OF r g_def]
  let ?src = "BADDR_IPV4 (ip4_source ih) (source_port uh)" and ?dst = "BADDR_IPV4 (ip4_destination ih) (dest_port uh)"
  obtain g1 where g1: "insert_connection g alloc ?src ?dst (source_port uh) = Some g1" "dns_ok g1"
    "dns_table g1 = (tun_table t)(source_port uh \<mapsto> dns_opened ?src ?dst (tun_table t (source_port uh)))" "dg_init g1"
    using insert_dns [OF g(1) a(1), of ?src ?dst "source_port uh"] a(2) g(2-4) by auto
  let ?ih = "ih\<lparr>ip4_destination := gip, ip4_source := tun_ipaddr t\<rparr>" and ?uh = "uh\<lparr>dest_port := gport\<rparr>" and ?t = "t\<lparr>tun_dns := g1\<rparr>"
  have len: "int (28 + length p) \<le> tun_mtu t" using ipv4_udp_length [OF u] l by linarith
  obtain buf pkt where b: "dns_forward ?t ?ih ?uh p = Some (?t\<lparr>tun_write_buf := buf\<rparr>, Some pkt)" "length buf = length (tun_write_buf t)"
    "dns_plain ih p \<longrightarrow> dns_sent pkt (BADDR_IPV4 (tun_ipaddr t) (source_port uh)) (BADDR_IPV4 gip gport) p"
    using dns_forward_sent [of ?t p ?ih ?uh] r len ipv4_udp_fields [OF u] by (auto simp: dns_ready_def dns_plain_def)
  have "table_ipv4 (tun_table t)" using r by (simp add: dns_ready_def table_ipv4_def)
  then have "table_ipv4 ((tun_table t)(source_port uh \<mapsto> dns_opened ?src ?dst (tun_table t (source_port uh))))"
    by (rule table_ipv4_opened) simp_all
  note n = dns_ready_next [OF r g1(2,4,3) this b(2)]
  have "process_device_dns_packet t alloc data = Some (?t\<lparr>tun_write_buf := buf\<rparr>, Some pkt)"
    using gw v u d g1(1) b(1) by (simp add: process_device_dns_packet_def Let_def g_def)
  then show ?thesis using n b(3) by blast
qed

lemma dns_reply:
  assumes gw: "tun_dnsgw t = Some (gip, gport)" and r: "dns_ready t" and v: "ip_version data = 4"
    and u: "ipv4_udp data = Some (Some (ih, uh, p))" and l: "int (length data) \<le> tun_mtu t"
    and d: "dest_port uh \<noteq> htons 53" "source_port uh = gport"
  shows "case tun_table t (dest_port uh) of
      None \<Rightarrow> process_device_dns_packet t alloc data = Some (t, None)
    | Some (loc, rem, n) \<Rightarrow>
        (\<exists>t' pkt. process_device_dns_packet t alloc data = Some (t', Some pkt) \<and> dns_ready t'
          \<and> tun_table t' = (tun_table t)(dest_port uh := dns_closed (loc, rem, n))
          \<and> (dns_plain ih p \<longrightarrow> dns_sent pkt rem (BADDR_IPV4 (baddr_ip4 loc) (dest_port uh)) p))"
proof (cases "tun_table t (dest_port uh)")
  case None
  have "dg_init (tun_dns t) \<Longrightarrow> find_connection (tun_dns t) (dest_port uh) = None"
    using None r find_dns [of "tun_dns t"] by (auto simp: tun_table_def dns_table_def dns_ready_def split: option.splits)
  then show ?thesis using None gw v u d by (auto simp: process_device_dns_packet_def Let_def)
next
  case (Some e)
  then have i: "dg_init (tun_dns t)" "dns_ok (tun_dns t)" and tb: "dns_table (tun_dns t) = tun_table t"
    using r by (auto simp: tun_table_def dns_ready_def split: if_splits)
  obtain q where q: "find_connection (tun_dns t) (dest_port uh) = Some q"
    using Some unfolding tb [symmetric] by (auto simp: dns_table_def split: option.splits)
  obtain g1 con where g1: "dg_cons (tun_dns t) q = Some con" "remove_connection (tun_dns t) q = Some g1" "dns_ok g1" "dg_init g1" "e = dns_entry con"
    "dns_table g1 = (tun_table t)(dest_port uh := dns_closed (dns_entry con))"
    using remove_dns [OF i(2) q] Some i(1) tb by auto
  have t4: "table_ipv4 (tun_table t)" using r by (simp add: dns_ready_def table_ipv4_def)
  then have k: "BAddr_type (dc_local con) = 1" "BAddr_type (dc_remote con) = 1" using Some g1(5) by (auto simp: table_ipv4_def dns_entry_def)
  let ?ih = "ih\<lparr>ip4_source := baddr_ip4 (dc_remote con), ip4_destination := baddr_ip4 (dc_local con)\<rparr>"
  let ?uh = "uh\<lparr>source_port := baddr_port4 (dc_remote con)\<rparr>" and ?t = "t\<lparr>tun_dns := g1\<rparr>"
  have rem: "BADDR_IPV4 (baddr_ip4 (dc_remote con)) (baddr_port4 (dc_remote con)) = dc_remote con" using k(2) by (cases "dc_remote con") auto
  have len: "int (28 + length p) \<le> tun_mtu t" using ipv4_udp_length [OF u] l by linarith
  obtain buf pkt where b: "dns_forward ?t ?ih ?uh p = Some (?t\<lparr>tun_write_buf := buf\<rparr>, Some pkt)" "length buf = length (tun_write_buf t)"
    "dns_plain ih p \<longrightarrow> dns_sent pkt (dc_remote con) (BADDR_IPV4 (baddr_ip4 (dc_local con)) (dest_port uh)) p"
    using dns_forward_sent [of ?t p ?ih ?uh] r len ipv4_udp_fields [OF u] rem by (auto simp: dns_ready_def dns_plain_def)
  note n = dns_ready_next [OF r g1(3,4,6) table_ipv4_closed [OF t4] b(2)]
  have "process_device_dns_packet t alloc data = Some (?t\<lparr>tun_write_buf := buf\<rparr>, Some pkt)"
    using gw v u d g1(1,2) b(1) q i(1) by (simp add: process_device_dns_packet_def Let_def)
  then show ?thesis using Some n b(3) g1(5) by (auto simp: dns_entry_def)
qed

text \<open>
  The gateway as a step on the table: for a datagram from \<open>src\<close> to \<open>dst\<close>, the addresses of the datagram
  that replaces it and the new table, or nothing when the datagram is none of its business.
\<close>

fun dns_step :: "u32 \<Rightarrow> u16 \<Rightarrow> u32 \<Rightarrow> (u16 \<Rightarrow> (BAddr \<times> BAddr \<times> int) option) \<Rightarrow> BAddr \<Rightarrow> BAddr \<Rightarrow>
    (BAddr \<times> BAddr \<times> (u16 \<Rightarrow> (BAddr \<times> BAddr \<times> int) option)) option" where
  "dns_step gip gport me m (BADDR_IPV4 s sp) (BADDR_IPV4 d dp) =
     (if dp = htons 53 then
        Some (BADDR_IPV4 me sp, BADDR_IPV4 gip gport, m(sp \<mapsto> dns_opened (BADDR_IPV4 s sp) (BADDR_IPV4 d dp) (m sp)))
      else if sp = gport then
        map_option (\<lambda>(loc, rem, n). (rem, BADDR_IPV4 (baddr_ip4 loc) dp, m(dp := dns_closed (loc, rem, n)))) (m dp)
      else None)"
| "dns_step gip gport me m _ _ = None"

text \<open>Packets to try the gateway on.\<close>

definition ipv4_datagram :: "BAddr \<Rightarrow> BAddr \<Rightarrow> bytes \<Rightarrow> bytes" where
  "ipv4_datagram src dst p =
     (let ih = reply_ipv4 (baddr_ip4 src) (baddr_ip4 dst) (length p);
          uh = reply_udp (\<lambda>u. udp_checksum u p (baddr_ip4 src) (baddr_ip4 dst)) (baddr_port4 src) (baddr_port4 dst) (length p)
      in ipv4_mem ih @ udp_mem uh @ p)"

definition demo_tun :: tun where
  "demo_tun = \<lparr>tun_mtu = 100, tun_write_buf = replicate 100 0, tun_udpgw = True, tun_udp_mtu = compute_udp_mtu 100 True,
     tun_transparent_dns = False, tun_ip6 = True, tun_ipaddr = 5, tun_dnsgw = Some (9, htons 8153),
     tun_dns = \<lparr>dg_init = False, dg_tree = Lf, dg_cons = Map.empty\<rparr>\<rparr>"

definition demo_app :: BAddr where "demo_app = BADDR_IPV4 3 (htons 4000)"
definition demo_dns1 :: BAddr where "demo_dns1 = BADDR_IPV4 7 (htons 53)"
definition demo_dns2 :: BAddr where "demo_dns2 = BADDR_IPV4 8 (htons 53)"

section \<open>Properties\<close>

text \<open>
  Whatever bytes the device delivers, taking a datagram out of them reads inside the packet only;
  and a datagram that is handed to the gateway client is a part of the packet, with a UDP header before
  it whose ports and checksum are right for the addresses, both of one kind, and it fits the MTU.
\<close>

theorem device_udp_taken:
  "process_device_udp_packet t packet \<noteq> None
   \<and> (\<forall>l r is_dns p. process_device_udp_packet t packet = Some (DevSubmit l r is_dns p) \<longrightarrow>
        int (length p) \<le> tun_udp_mtu t \<and> addr_ok l \<and> addr_ok r \<and> BAddr_type l = BAddr_type r
        \<and> (\<exists>h pre post. packet = pre @ udp_mem h @ p @ post \<and> datagram_ok l r h p))"
  using process_udp_total process_udp_taken(1,2) datagram_ok_addr by blast

theorem device_udp_taken_witness:
  "process_device_udp_packet demo_tun (ipv4_datagram demo_app demo_dns1 [1, 2, 3]) = Some (DevSubmit demo_app demo_dns1 False [1, 2, 3])
   \<and> (\<exists>h pre post. ipv4_datagram demo_app demo_dns1 [1, 2, 3] = pre @ udp_mem h @ [1, 2, 3] @ post \<and> datagram_ok demo_app demo_dns1 h [1, 2, 3])"
proof -
  have "process_device_udp_packet demo_tun (ipv4_datagram demo_app demo_dns1 [1, 2, 3]) = Some (DevSubmit demo_app demo_dns1 False [1, 2, 3])"
    by code_simp
  then show ?thesis using device_udp_taken [of demo_tun "ipv4_datagram demo_app demo_dns1 [1, 2, 3]"] by blast
qed

text \<open>
  C21: A datagram from the gateway that fits the device is written to it as a packet from the remote to
  the local address which any engine reads back as that datagram between those addresses: lengths and
  all checksums are right, for IPv4 and for IPv6.
\<close>

theorem device_reply_round_trip:
  assumes "length (tun_write_buf t) = nat (tun_mtu t)" and "addr_ok local" and "addr_ok remote" and "BAddr_type local = BAddr_type remote"
    and "reply_fits t local data"
  shows "\<exists>buf pkt. udpgw_client_handler_received t local remote data = Some (t\<lparr>tun_write_buf := buf\<rparr>, Some pkt)
    \<and> (\<forall>t2. tun_udpgw t2 \<and> (tun_ip6 t \<longrightarrow> tun_ip6 t2) \<and> int (length data) \<le> tun_udp_mtu t2 \<longrightarrow>
         (\<exists>is_dns. process_device_udp_packet t2 pkt = Some (DevSubmit remote local is_dns data)))"
  by (rule received_round_trip [OF assms])

theorem device_reply_round_trip_witness:
  "\<exists>buf pkt is_dns. udpgw_client_handler_received demo_tun demo_app demo_dns1 [1, 2, 3] = Some (demo_tun\<lparr>tun_write_buf := buf\<rparr>, Some pkt)
    \<and> process_device_udp_packet demo_tun pkt = Some (DevSubmit demo_dns1 demo_app is_dns [1, 2, 3])"
  using device_reply_round_trip [of demo_tun demo_app demo_dns1 "[1, 2, 3]"]
  by (auto simp: demo_tun_def demo_app_def demo_dns1_def compute_udp_mtu_def)

text \<open>
  C22: The DNS gateway is a step on a table of source ports.  A query opens an entry or adds one to it
  and goes to the DNS server from the engine's address; a datagram from that server is given the
  addresses that the entry of its destination port has, and takes one from it; every other datagram
  is left alone.  What is written is a correct packet with the same payload, provided that the packet
  read has no IP options and nothing behind the datagram.
\<close>

theorem dns_gateway_refines_table:
  assumes "tun_dnsgw t = Some (gip, gport)" and "dns_ready t" and "int (length data) \<le> tun_mtu t"
    and "alloc = Some q" and "dg_cons (tun_dns t) q = None"
    and "ip_version data = 4" and "ipv4_udp data = Some (Some (ih, uh, p))"
  shows "case dns_step gip gport (tun_ipaddr t) (tun_table t) (BADDR_IPV4 (ip4_source ih) (source_port uh))
        (BADDR_IPV4 (ip4_destination ih) (dest_port uh)) of
      None \<Rightarrow> process_device_dns_packet t alloc data = Some (t, None)
    | Some (from, to, m) \<Rightarrow>
        (\<exists>t' pkt. process_device_dns_packet t alloc data = Some (t', Some pkt) \<and> dns_ready t' \<and> tun_table t' = m
          \<and> (dns_plain ih p \<longrightarrow> dns_sent pkt from to p))"
proof (cases "dest_port uh = htons 53")
  case True
  then show ?thesis using dns_query [OF assms(1,2,6,7,3) True assms(4,5)] by auto
next
  case False
  show ?thesis
  proof (cases "source_port uh = gport")
    case True
    show ?thesis
    proof (cases "tun_table t (dest_port uh)")
      case (Some e)
      then show ?thesis using dns_reply [OF assms(1,2,6,7,3) False True, of alloc] False True by (cases e) auto
    qed (use dns_reply [OF assms(1,2,6,7,3) False True, of alloc] False True in simp)
  qed (use assms(1,6,7) False in \<open>simp add: process_device_dns_packet_def Let_def\<close>)
qed

text \<open>The gateway's answer to a query reaches the program that asked, from the server it asked.\<close>

definition demo_gateway :: BAddr where "demo_gateway = BADDR_IPV4 9 (htons 8153)"
definition demo_engine :: BAddr where "demo_engine = BADDR_IPV4 5 (htons 4000)"

lemma demo_dns_ready: "dns_ready demo_tun"
  by (simp add: dns_ready_def demo_tun_def tun_table_def)

lemma demo_query_read:
  "case ipv4_udp (ipv4_datagram demo_app demo_dns1 [1, 2]) of
     Some (Some (ih, uh, p)) \<Rightarrow> dns_plain ih p \<and> ip4_source ih = 3 \<and> source_port uh = htons 4000 \<and> ip4_destination ih = 7
       \<and> dest_port uh = htons 53 \<and> p = [1, 2]
   | _ \<Rightarrow> False"
  by code_simp

theorem dns_gateway_refines_table_witness:
  "\<exists>t pkt. process_device_dns_packet demo_tun (Some 1) (ipv4_datagram demo_app demo_dns1 [1, 2]) = Some (t, Some pkt) \<and> dns_ready t
    \<and> tun_table t (htons 4000) = Some (demo_app, demo_dns1, 1) \<and> dns_sent pkt demo_engine demo_gateway [1, 2]"
proof -
  obtain ih uh where u: "ipv4_udp (ipv4_datagram demo_app demo_dns1 [1, 2]) = Some (Some (ih, uh, [1, 2]))" "dns_plain ih [1, 2]"
    "ip4_source ih = 3" "source_port uh = htons 4000" "ip4_destination ih = 7" "dest_port uh = htons 53"
    using demo_query_read by (auto split: option.splits)
  have "ip_version (ipv4_datagram demo_app demo_dns1 [1, 2]) = 4" "length (ipv4_datagram demo_app demo_dns1 [1, 2]) = 30" by code_simp+
  moreover have "tun_table demo_tun = Map.empty" "tun_dnsgw demo_tun = Some (9, htons 8153)" "tun_mtu demo_tun = 100" "tun_ipaddr demo_tun = 5"
    "dg_cons (tun_dns demo_tun) 1 = None" by (simp_all add: tun_table_def demo_tun_def)
  ultimately show ?thesis
    using dns_gateway_refines_table [OF _ demo_dns_ready _ _ _ _ u(1), of 9 "htons 8153" "Some 1" 1] u(2-6)
    by (auto simp: demo_app_def demo_dns1_def demo_engine_def demo_gateway_def)
qed

text \<open>
  A packet of the stack goes to the device whole and once if it fits the MTU, and not at all
  otherwise, in however many chunks it comes.
\<close>

lemma netif_copy_concat:
  assumes "int (length (tun_write_buf t)) = tun_mtu t" "load (tun_write_buf t) 0 (int (length as)) = Some as"
  shows "\<exists>buf. netif_copy t (int (length as)) ps =
      Some (t\<lparr>tun_write_buf := buf\<rparr>, if int (length (as @ concat ps)) \<le> tun_mtu t then Some (as @ concat ps) else None) \<and> length buf = length (tun_write_buf t)"
  using assms
proof (induction ps arbitrary: t as)
  case Nil
  then have "int (length as) \<le> tun_mtu t" by (simp add: load_def in_range_def split: if_splits)
  then show ?case using Nil by (intro exI [of _ "tun_write_buf t"]) simp
next
  case (Cons p ps)
  show ?case
  proof (cases "int (length p) > tun_mtu t - int (length as)")
    case True
    then show ?thesis by (intro exI [of _ "tun_write_buf t"]) simp
  next
    case False
    then obtain buf where b: "store (tun_write_buf t) (int (length as)) p = Some buf" using Cons.prems(1) by (simp add: store_def in_range_def)
    let ?t = "t\<lparr>tun_write_buf := buf\<rparr>"
    have "load buf 0 (int (length as)) = Some as" using load_store_other [OF b, of 0 "int (length as)"] Cons.prems(2) by simp
    then have "load buf 0 (int (length as) + int (length p)) = Some (as @ p)"
      using load_append [of buf 0 "int (length as)" as "int (length p)" p] load_store_same [OF b] by simp
    then have l: "load (tun_write_buf ?t) 0 (int (length (as @ p))) = Some (as @ p)" by simp
    have "int (length (tun_write_buf ?t)) = tun_mtu ?t" using Cons.prems(1) length_store [OF b] by simp
    from Cons.IH [OF this l] show ?thesis using False b length_store [OF b] by auto
  qed
qed

theorem netif_output_whole_packet:
  assumes "int (length (tun_write_buf t)) = tun_mtu t" and "chain \<noteq> []"
  shows "\<exists>buf. common_netif_output False t chain =
      Some (t\<lparr>tun_write_buf := buf\<rparr>, if int (length (concat chain)) \<le> tun_mtu t then Some (concat chain) else None) \<and> length buf = length (tun_write_buf t)"
proof (cases chain rule: list.exhaust [case_names Nil Cons])
  case (Cons p ps)
  show ?thesis
  proof (cases ps)
    case Nil
    then show ?thesis using Cons by (intro exI [of _ "tun_write_buf t"]) (auto simp: common_netif_output_def)
  next
    case more: (Cons q qs)
    then have "common_netif_output False t chain = netif_copy t 0 chain" using Cons by (simp add: common_netif_output_def)
    then show ?thesis using netif_copy_concat [of t "[]" chain] assms(1) by (auto simp: load_def in_range_def)
  qed
qed (use assms(2) in simp)

section \<open>Behaviour the gateway should not have\<close>

text \<open>
  Two queries from one port to different servers share an entry, so that the answer to the second one
  is given the address of the first server.
\<close>

theorem dns_shared_port_wrong_server:
  "\<exists>t1 p1 t2 p2 t3 p3. process_device_dns_packet demo_tun (Some 1) (ipv4_datagram demo_app demo_dns1 [1, 2]) = Some (t1, Some p1)
    \<and> process_device_dns_packet t1 (Some 2) (ipv4_datagram demo_app demo_dns2 [3, 4]) = Some (t2, Some p2)
    \<and> process_device_dns_packet t2 (Some 3) (ipv4_datagram demo_gateway demo_engine [3, 4]) = Some (t3, Some p3)
    \<and> p3 = ipv4_datagram demo_dns1 demo_app [3, 4]"
proof -
  have "case process_device_dns_packet demo_tun (Some 1) (ipv4_datagram demo_app demo_dns1 [1, 2]) of
      Some (t1, Some p1) \<Rightarrow> (case process_device_dns_packet t1 (Some 2) (ipv4_datagram demo_app demo_dns2 [3, 4]) of
        Some (t2, Some p2) \<Rightarrow> (case process_device_dns_packet t2 (Some 3) (ipv4_datagram demo_gateway demo_engine [3, 4]) of
          Some (t3, Some p3) \<Rightarrow> p3 = ipv4_datagram demo_dns1 demo_app [3, 4] | _ \<Rightarrow> False) | _ \<Rightarrow> False) | _ \<Rightarrow> False"
    by code_simp
  then show ?thesis by (auto split: option.splits)
qed

text \<open>
  A query whose IP header has options is written without them, but with the header length of before,
  so that nobody can read it.
\<close>

definition demo_options :: bytes where
  "demo_options =
     (let ih = \<lparr>version4_ihl4 = 0x46, ip4_ds = 0, total_length = htons 34, identification = 0, flags3_fragmentoffset13 = 0, ip4_ttl = 64,
               ip4_protocol = 17, ip4_checksum = 0, ip4_source = 3, ip4_destination = 7\<rparr>;
          options = [1, 1, 1, 0]; p = [1, 2];
          uh = reply_udp (\<lambda>u. udp_checksum u p 3 7) (htons 4000) (htons 53) 2
      in ipv4_mem (ih\<lparr>ip4_checksum := ipv4_checksum ih options\<rparr>) @ options @ udp_mem uh @ p)"

theorem dns_options_corrupted:
  "\<exists>t pkt. process_device_dns_packet demo_tun (Some 1) demo_options = Some (t, Some pkt) \<and> ipv4_check pkt = Some None"
proof -
  have "case process_device_dns_packet demo_tun (Some 1) demo_options of
      Some (t, Some pkt) \<Rightarrow> ipv4_check pkt = Some None | _ \<Rightarrow> False" by code_simp
  then show ?thesis by (auto split: option.splits)
qed

text \<open>
  A datagram whose checksum comes out as 0 is written with 0, which stands for no checksum, where the
  protocol has 65535; and one that another host has sent with 65535 is not taken.
\<close>

theorem udp_zero_checksum:
  "\<exists>t pkt. udpgw_client_handler_received demo_tun demo_app demo_dns1 [0xe6, 0x05] = Some (t, Some pkt) \<and> take 2 (drop 26 pkt) = [0, 0]
     \<and> process_device_udp_packet demo_tun (take 26 pkt @ [0xff, 0xff] @ drop 28 pkt) = Some DevPass"
proof -
  have "case udpgw_client_handler_received demo_tun demo_app demo_dns1 [0xe6, 0x05] of
      Some (t, Some pkt) \<Rightarrow> take 2 (drop 26 pkt) = [0, 0] \<and> process_device_udp_packet demo_tun (take 26 pkt @ [0xff, 0xff] @ drop 28 pkt) = Some DevPass
    | _ \<Rightarrow> False" by code_simp
  then show ?thesis by (auto split: option.splits)
qed

end
