(* ===== verification/Udp_Engine.thy ===== *)
theory Udp_Engine
  imports Udpgw_Client Bsocks_Client Tun_Device
begin

text \<open>
  The UDP side of the badvpn engine put together: the gateway client over a SOCKS connection that is
  set up again whenever it breaks (\<^verbatim>\<open>badvpn/tun2socks/SocksUdpGwClient.c\<close>, as it is built without
  \<^verbatim>\<open>ANDROID_UDP\<close>), and the handler of the packets of the device (\<^verbatim>\<open>device_read_handler_send\<close> of
  \<^verbatim>\<open>badvpn/tun2socks/tun2socks.c\<close>), which gives a packet to the DNS gateway, to the gateway client or
  to the IP stack.
\<close>

section \<open>The code: the gateway client over SOCKS\<close>

record socks_udpgw =
  sg_udpgw :: udpgw
  sg_auth_info :: "bs_auth_info list"
  sg_remote :: BAddr
  sg_have_socks :: bool
  sg_socks_up :: bool
  sg_socks :: "bs_client option"
  sg_timer :: bool

definition free_socks :: "socks_udpgw \<Rightarrow> socks_udpgw" where
  "free_socks o' =
     (let o1 = (if sg_socks_up o' then o'\<lparr>sg_udpgw := UdpGwClient_DisconnectServer (sg_udpgw o')\<rparr> else o')
      in o1\<lparr>sg_socks := None, sg_have_socks := False\<rparr>)"

text \<open>\<open>connector_ok\<close> is whether the connection to the proxy can be started.\<close>

definition try_connect :: "socks_udpgw \<Rightarrow> bool \<Rightarrow> socks_udpgw" where
  "try_connect o' connector_ok =
     (case BSocksClient_Init (sg_auth_info o') (sg_remote o') connector_ok of
        None \<Rightarrow> o'\<lparr>sg_timer := True\<rparr>
      | Some c \<Rightarrow> o'\<lparr>sg_socks := Some c, sg_have_socks := True, sg_socks_up := False\<rparr>)"

text \<open>The timer has stopped when its handler is called.\<close>

definition reconnect_timer_handler :: "socks_udpgw \<Rightarrow> bool \<Rightarrow> socks_udpgw" where
  "reconnect_timer_handler o' connector_ok = try_connect (o'\<lparr>sg_timer := False\<rparr>) connector_ok"

definition socks_client_handler :: "socks_udpgw \<Rightarrow> allocator \<Rightarrow> bs_event \<Rightarrow> socks_udpgw" where
  "socks_client_handler o' malloc event =
     (case event of
        BSOCKSCLIENT_EVENT_UP \<Rightarrow>
          (case UdpGwClient_ConnectServer (sg_udpgw o') malloc of
             (u, True) \<Rightarrow> o'\<lparr>sg_udpgw := u, sg_socks_up := True\<rparr>
           | (u, False) \<Rightarrow> (free_socks (o'\<lparr>sg_udpgw := u\<rparr>))\<lparr>sg_timer := True\<rparr>)
      | _ \<Rightarrow> (free_socks o')\<lparr>sg_timer := True\<rparr>)"

definition udpgw_handler_servererror :: "socks_udpgw \<Rightarrow> socks_udpgw" where
  "udpgw_handler_servererror o' = (free_socks o')\<lparr>sg_timer := True\<rparr>"

definition SocksUdpGwClient_Init ::
  "(nat \<Rightarrow> fq_flow) \<Rightarrow> (nat \<Rightarrow> nat lnode) \<Rightarrow> (nat \<Rightarrow> nat lnode) \<Rightarrow> int \<Rightarrow> int \<Rightarrow> int \<Rightarrow> bs_auth_info list \<Rightarrow> BAddr \<Rightarrow> bool
    \<Rightarrow> socks_udpgw option" where
  "SocksUdpGwClient_Init flows nodes list_nodes udp_mtu max_connections send_buffer_size auth_info remote connector_ok =
     map_option
       (\<lambda>u. try_connect \<lparr>sg_udpgw = u, sg_auth_info = auth_info, sg_remote = remote, sg_have_socks = False,
                         sg_socks_up = False, sg_socks = None, sg_timer = False\<rparr> connector_ok)
       (UdpGwClient_Init flows nodes list_nodes udp_mtu max_connections send_buffer_size)"

definition SocksUdpGwClient_Free :: "socks_udpgw \<Rightarrow> socks_udpgw option" where
  "SocksUdpGwClient_Free o' =
     (let o1 = (if sg_have_socks o' then free_socks o' else o'); o2 = o1\<lparr>sg_timer := False\<rparr>
      in map_option (\<lambda>u. o2\<lparr>sg_udpgw := u\<rparr>) (UdpGwClient_Free (sg_udpgw o2)))"

definition SocksUdpGwClient_SubmitPacket ::
  "socks_udpgw \<Rightarrow> nat option \<Rightarrow> allocator \<Rightarrow> BAddr \<Rightarrow> BAddr \<Rightarrow> bool \<Rightarrow> bytes \<Rightarrow> socks_udpgw option" where
  "SocksUdpGwClient_SubmitPacket o' alloc malloc loc rem is_dns data =
     map_option (\<lambda>u. o'\<lparr>sg_udpgw := u\<rparr>) (UdpGwClient_SubmitPacket (sg_udpgw o') alloc malloc loc rem is_dns data)"

section \<open>The code: packets of the device\<close>

record engine =
  en_tun :: tun
  en_gw :: socks_udpgw

datatype dev_out = DevNone | DevWrite bytes | DevStack bytes

text \<open>
  The addresses of a DNS entry and of a connection that may be allocated, and whether there is a
  buffer for the IP stack, are arguments.
\<close>

definition device_read_handler_send ::
  "engine \<Rightarrow> nat option \<Rightarrow> nat option \<Rightarrow> allocator \<Rightarrow> bool \<Rightarrow> bytes \<Rightarrow> (engine \<times> dev_out) option" where
  "device_read_handler_send en dns_alloc con_alloc malloc pbuf_ok data =
     (case process_device_dns_packet (en_tun en) dns_alloc data of
        None \<Rightarrow> None
      | Some (t, Some pkt) \<Rightarrow> Some (en\<lparr>en_tun := t\<rparr>, DevWrite pkt)
      | Some (t, None) \<Rightarrow>
          (case process_device_udp_packet t data of
             None \<Rightarrow> None
           | Some (DevSubmit l r is_dns p) \<Rightarrow>
               map_option (\<lambda>g. (en\<lparr>en_tun := t, en_gw := g\<rparr>, DevNone))
                 (SocksUdpGwClient_SubmitPacket (en_gw en) con_alloc malloc l r is_dns p)
           | Some DevPass \<Rightarrow>
               Some (en\<lparr>en_tun := t\<rparr>, if length data > 65535 \<or> \<not> pbuf_ok then DevNone else DevStack data)))"

text \<open>A packet from the gateway server on its way to the device.\<close>

definition gateway_packet :: "engine \<Rightarrow> bytes \<Rightarrow> (engine \<times> bytes option) option" where
  "gateway_packet en data =
     (case recv_interface_handler_send (sg_udpgw (en_gw en)) data of
        None \<Rightarrow> None
      | Some (u, r) \<Rightarrow>
          (let en1 = en\<lparr>en_gw := (en_gw en)\<lparr>sg_udpgw := u\<rparr>\<rparr> in
           case r of
             GwReceived l rm d \<Rightarrow> map_option (\<lambda>(t, pkt). (en1\<lparr>en_tun := t\<rparr>, pkt)) (udpgw_client_handler_received (en_tun en1) l rm d)
           | _ \<Rightarrow> Some (en1, None)))"

section \<open>The connection to the gateway server\<close>

definition sg_ok :: "socks_udpgw \<Rightarrow> bool" where
  "sg_ok o' \<longleftrightarrow> (sg_have_socks o' \<longleftrightarrow> sg_socks o' \<noteq> None) \<and> (sg_timer o' \<longleftrightarrow> \<not> sg_have_socks o')
     \<and> (ug_have_server (sg_udpgw o') \<longleftrightarrow> sg_have_socks o' \<and> sg_socks_up o')"

lemma connect_server: "UdpGwClient_ConnectServer u malloc = (u1, ok) \<Longrightarrow> ok \<and> ug_have_server u1 \<or> \<not> ok \<and> u1 = u"
  by (auto simp: UdpGwClient_ConnectServer_def split: option.splits)

lemma disconnect_server [simp]: "ug_have_server (UdpGwClient_DisconnectServer u) = False"
  by (simp add: UdpGwClient_DisconnectServer_def)

lemma free_socks_ok: "sg_ok o' \<Longrightarrow> sg_have_socks o' \<Longrightarrow> sg_ok ((free_socks o')\<lparr>sg_timer := True\<rparr>)"
  by (auto simp: sg_ok_def free_socks_def Let_def)

lemma try_connect_ok:
  "\<not> sg_have_socks o' \<Longrightarrow> sg_socks o' = None \<Longrightarrow> \<not> ug_have_server (sg_udpgw o') \<Longrightarrow> \<not> sg_timer o' \<Longrightarrow> sg_ok (try_connect o' c)"
  by (auto simp: sg_ok_def try_connect_def split: option.splits)

lemma timer_handler_ok: "sg_ok o' \<Longrightarrow> sg_timer o' \<Longrightarrow> sg_ok (reconnect_timer_handler o' c)"
  unfolding reconnect_timer_handler_def by (rule try_connect_ok) (auto simp: sg_ok_def)

lemma socks_handler_ok:
  assumes "sg_ok o'" "sg_have_socks o'" "event = BSOCKSCLIENT_EVENT_UP \<longrightarrow> \<not> sg_socks_up o'"
  shows "sg_ok (socks_client_handler o' malloc event)"
proof (cases "event = BSOCKSCLIENT_EVENT_UP")
  case True
  obtain u ok where u: "UdpGwClient_ConnectServer (sg_udpgw o') malloc = (u, ok)" by fastforce
  then show ?thesis
    using True connect_server [OF u] assms free_socks_ok [OF assms(1,2)] by (cases ok) (auto simp: socks_client_handler_def sg_ok_def)
next
  case False
  then show ?thesis using free_socks_ok [OF assms(1,2)] by (cases event) (auto simp: socks_client_handler_def)
qed

section \<open>The running engine\<close>

text \<open>
  What can happen: a packet from the device, a packet from the server, a job or a timer of the gateway
  client, the reconnect timer, a report or some progress of the SOCKS client, and a broken stream.
\<close>

datatype en_event = EnDevice "nat option" "nat option" bool bytes | EnServer bytes | EnFlow gw_event | EnTimer bool
  | EnSocks bs_event | EnServerError | EnSocksMoves bs_client

definition with_gw :: "engine \<Rightarrow> socks_udpgw \<Rightarrow> engine" where
  "with_gw en g = en\<lparr>en_gw := g\<rparr>"

definition en_step :: "allocator \<Rightarrow> engine \<Rightarrow> en_event \<Rightarrow> engine option" where
  "en_step malloc en e =
     (case e of
        EnDevice dns_alloc con_alloc pbuf_ok data \<Rightarrow> map_option fst (device_read_handler_send en dns_alloc con_alloc malloc pbuf_ok data)
      | EnServer data \<Rightarrow> map_option fst (gateway_packet en data)
      | EnFlow ge \<Rightarrow> map_option (\<lambda>u. with_gw en ((en_gw en)\<lparr>sg_udpgw := u\<rparr>)) (gw_step malloc (sg_udpgw (en_gw en)) ge)
      | EnTimer connector_ok \<Rightarrow> Some (with_gw en (reconnect_timer_handler (en_gw en) connector_ok))
      | EnSocks event \<Rightarrow> Some (with_gw en (socks_client_handler (en_gw en) malloc event))
      | EnServerError \<Rightarrow> Some (with_gw en (udpgw_handler_servererror (en_gw en)))
      | EnSocksMoves c \<Rightarrow> Some (with_gw en ((en_gw en)\<lparr>sg_socks := Some c\<rparr>)))"

fun gw_internal :: "gw_event \<Rightarrow> bool" where
  "gw_internal (GwFirst p) \<longleftrightarrow> True"
| "gw_internal (GwRoom p) \<longleftrightarrow> True"
| "gw_internal (GwTaken p) \<longleftrightarrow> True"
| "gw_internal GwKeepalive \<longleftrightarrow> True"
| "gw_internal GwKeepaliveDone \<longleftrightarrow> True"
| "gw_internal _ \<longleftrightarrow> False"

definition en_allowed :: "engine \<Rightarrow> en_event \<Rightarrow> bool" where
  "en_allowed en e \<longleftrightarrow>
     (let g = en_gw en in
      case e of
        EnDevice dns_alloc con_alloc pbuf_ok data \<Rightarrow>
          int (length data) \<le> tun_mtu (en_tun en)
          \<and> (case dns_alloc of None \<Rightarrow> False | Some q \<Rightarrow> dg_cons (tun_dns (en_tun en)) q = None)
          \<and> (case con_alloc of None \<Rightarrow> True | Some p \<Rightarrow> ug_cons (sg_udpgw g) p = None \<and> p \<noteq> 0)
      | EnServer data \<Rightarrow> ug_have_server (sg_udpgw g)
      | EnFlow ge \<Rightarrow> gw_internal ge \<and> gw_allowed (sg_udpgw g) ge
      | EnTimer connector_ok \<Rightarrow> sg_timer g
      | EnSocks event \<Rightarrow>
          sg_have_socks g \<and> (event = BSOCKSCLIENT_EVENT_UP \<longrightarrow> \<not> sg_socks_up g) \<and> (event = BSOCKSCLIENT_EVENT_ERROR_CLOSED \<longrightarrow> sg_socks_up g)
      | EnServerError \<Rightarrow> sg_have_socks g \<and> sg_socks_up g
      | EnSocksMoves c \<Rightarrow> sg_have_socks g)"

text \<open>The engine at its start, with a gateway client for the payloads of the device.\<close>

definition en_start :: "tun \<Rightarrow> bool" where
  "en_start t \<longleftrightarrow> int (length (tun_write_buf t)) = tun_mtu t \<and> tun_udpgw t \<and> \<not> dg_init (tun_dns t) \<and> dg_cons (tun_dns t) = Map.empty"

inductive en_reach :: "allocator \<Rightarrow> engine \<Rightarrow> bool" for malloc where
  EnStarted: "SocksUdpGwClient_Init flows nodes list_nodes (tun_udp_mtu t) max_connections send_buffer_size auth_info remote c = Some g \<Longrightarrow>
    gw_params (tun_udp_mtu t) max_connections send_buffer_size \<Longrightarrow> en_start t \<Longrightarrow> en_reach malloc \<lparr>en_tun = t, en_gw = g\<rparr>"
| EnStepped: "en_reach malloc en \<Longrightarrow> en_allowed en e \<Longrightarrow> en_step malloc en e = Some en1 \<Longrightarrow> en_reach malloc en1"

text \<open>Both addresses of every connection are of one kind, and of IPv6 only if the engine has it.\<close>

definition one_kind :: "tun \<Rightarrow> conaddr \<Rightarrow> bool" where
  "one_kind t a \<longleftrightarrow> BAddr_type (local_addr a) = BAddr_type (remote_addr a) \<and> (BAddr_type (local_addr a) = 1 \<or> tun_ip6 t)"

definition gw_serves :: "tun \<Rightarrow> udpgw \<Rightarrow> bool" where
  "gw_serves t u \<longleftrightarrow> tun_udp_mtu t = ug_udp_mtu u \<and> (\<exists>xs. ug_inv xs u \<and> (\<forall>a \<in> snd ` set (ug_abs u xs). one_kind t a))"

definition en_inv :: "engine \<Rightarrow> bool" where
  "en_inv en \<longleftrightarrow> dns_ready (en_tun en) \<and> tun_udpgw (en_tun en) \<and> gw_serves (en_tun en) (sg_udpgw (en_gw en)) \<and> sg_ok (en_gw en)"

lemma dns_packet_frame:
  "process_device_dns_packet t alloc data = Some (t', out) \<Longrightarrow> \<exists>g buf. t' = t\<lparr>tun_dns := g, tun_write_buf := buf\<rparr>"
proof -
  have fw: "dns_forward t1 ih uh p = Some (t2, out) \<Longrightarrow> \<exists>buf. t2 = t1\<lparr>tun_write_buf := buf\<rparr>" for t1 t2 ih uh p
    by (auto simp: dns_forward_def device_send_def Let_def split: option.splits)
  assume "process_device_dns_packet t alloc data = Some (t', out)"
  then have "t' = t \<or> (\<exists>g ih uh p. dns_forward (t\<lparr>tun_dns := g\<rparr>) ih uh p = Some (t', out))"
    by (auto simp: process_device_dns_packet_def Let_def split: option.splits if_splits)
  then show ?thesis
  proof
    assume "t' = t"
    then show ?thesis by (intro exI [of _ "tun_dns t"] exI [of _ "tun_write_buf t"]) simp
  qed (use fw in blast)
qed

lemma dns_packet_ok:
  assumes r: "dns_ready t" and l: "int (length data) \<le> tun_mtu t" and a: "alloc = Some q" "dg_cons (tun_dns t) q = None"
  shows "\<exists>t' out. process_device_dns_packet t alloc data = Some (t', out) \<and> dns_ready t'"
proof -
  have "process_device_dns_packet t alloc data = Some (t, None)"
    if "tun_dnsgw t = None \<or> ip_version data \<noteq> 4 \<or> ipv4_udp data = Some None"
    using that by (auto simp: process_device_dns_packet_def split: option.splits)
  then show ?thesis using r
  proof (cases "tun_dnsgw t = None \<or> ip_version data \<noteq> 4 \<or> ipv4_udp data = Some None")
    case False
    then obtain gip gport ih uh p where g: "tun_dnsgw t = Some (gip, gport)" "ip_version data = 4" "ipv4_udp data = Some (Some (ih, uh, p))"
      using ip_udp_total(1) [of data] by fastforce
    consider "dest_port uh = htons 53" | "dest_port uh \<noteq> htons 53" "source_port uh = gport" | "dest_port uh \<noteq> htons 53" "source_port uh \<noteq> gport"
      by blast
    then show ?thesis
    proof cases
      case 1
      then show ?thesis using dns_query [OF g(1) r g(2,3) l 1 a] by blast
    next
      case 2
      then show ?thesis using dns_reply [OF g(1) r g(2,3) l 2, of alloc] r by (auto split: option.splits)
    next
      case 3
      then show ?thesis using g r by (simp add: process_device_dns_packet_def Let_def)
    qed
  qed blast
qed

lemma gw_servesI: "ug_inv xs u \<Longrightarrow> tun_udp_mtu t = ug_udp_mtu u \<Longrightarrow> \<forall>a \<in> snd ` set (ug_abs u xs). one_kind t a \<Longrightarrow> gw_serves t u"
  unfolding gw_serves_def by blast

lemma gw_serves_tun [simp]: "gw_serves (t\<lparr>tun_dns := g\<rparr>) u = gw_serves t u" "gw_serves (t\<lparr>tun_write_buf := buf\<rparr>) u = gw_serves t u"
  by (simp_all add: gw_serves_def one_kind_def)

lemma gw_serves_server [simp]:
  "gw_serves t (UdpGwClient_DisconnectServer u) = gw_serves t u"
  "gw_serves t (u\<lparr>ug_decoder := d, ug_have_server := b\<rparr>) = gw_serves t u"
  by (simp_all add: gw_serves_def UdpGwClient_DisconnectServer_def free_server_def ug_abs_def)

lemma gw_serves_connect: "gw_serves t u \<Longrightarrow> UdpGwClient_ConnectServer u malloc = (u1, ok) \<Longrightarrow> gw_serves t u1"
  by (auto simp: UdpGwClient_ConnectServer_def split: option.splits)

lemma submits_addrs:
  assumes "gw_submits m n a st st1" "P a" "\<forall>b \<in> snd ` set st. P b"
  shows "\<forall>b \<in> snd ` set st1. P b"
  using assms by (auto simp: gw_submits_def split: if_splits)

lemma serves_submit:
  assumes s: "gw_serves t u" and m: "malloc_ok malloc" and p: "process_device_udp_packet t data = Some (DevSubmit l r is_dns d)"
    and a: "case alloc of None \<Rightarrow> True | Some p \<Rightarrow> ug_cons u p = None \<and> p \<noteq> 0"
  shows "\<exists>u1. UdpGwClient_SubmitPacket u alloc malloc l r is_dns d = Some u1 \<and> gw_serves t u1 \<and> ug_have_server u1 = ug_have_server u"
proof -
  obtain xs where x: "ug_inv xs u" "\<forall>a \<in> snd ` set (ug_abs u xs). one_kind t a" "tun_udp_mtu t = ug_udp_mtu u"
    using s by (auto simp: gw_serves_def)
  obtain h where h: "datagram_ok l r h d" using process_udp_taken(2) [OF p] by blast
  note k = datagram_ok_addr [OF h] process_udp_taken(1,3) [OF p]
  have "gw_allowed u (GwSubmit alloc l r is_dns d)" using k(1,2) a unfolding gw_allowed_def gw_event.case x(3) by blast
  from submit_inv [OF x(1) m this] obtain u1 xs1 where u1: "UdpGwClient_SubmitPacket u alloc malloc l r is_dns d = Some u1" "ug_inv xs1 u1"
    "gw_submits (gw_memory malloc u alloc) (ug_max_connections u) (gw_ca l r) (ug_abs u xs) (ug_abs u1 xs1)" by blast
  have "one_kind t (gw_ca l r)" using k by (simp add: one_kind_def gw_ca_def)
  then have "\<forall>a \<in> snd ` set (ug_abs u1 xs1). one_kind t a" by (rule submits_addrs [OF u1(3) _ x(2)])
  then have "gw_serves t u1" using submit_mtu [OF x(1) u1(1)] x(3) by (intro gw_servesI [OF u1(2)]) simp_all
  then show ?thesis using u1(1) submit_mtu [OF x(1) u1(1)] by simp
qed

lemma serves_recv:
  assumes s: "gw_serves t u"
  shows "\<exists>u1 r. recv_interface_handler_send u data = Some (u1, r) \<and> gw_serves t u1 \<and> ug_have_server u1 = ug_have_server u
    \<and> (\<forall>l rm d. r = GwReceived l rm d \<longrightarrow> one_kind t (gw_ca l rm) \<and> addr_ok l \<and> addr_ok rm)"
proof -
  obtain xs where x: "ug_inv xs u" "\<forall>a \<in> snd ` set (ug_abs u xs). one_kind t a" "tun_udp_mtu t = ug_udp_mtu u"
    using s by (auto simp: gw_serves_def)
  obtain u1 r xs1 where r: "recv_interface_handler_send u data = Some (u1, r)" "ug_inv xs1 u1" "set (ug_abs u1 xs1) = set (ug_abs u xs)"
    using recv_table [OF x(1)] by blast
  have "(\<exists>i. (i, gw_ca l rm) \<in> set (ug_abs u xs))" if "r = GwReceived l rm d" for l rm d
    by (rule recv_total [OF x(1), of data]) (use r(1) that in auto)
  then have "\<forall>l rm d. r = GwReceived l rm d \<longrightarrow> one_kind t (gw_ca l rm) \<and> addr_ok l \<and> addr_ok rm"
    using ug_abs_ok [OF x(1)] x(2) by (fastforce simp: gw_table_ok_def gw_ca_def)
  moreover have "ug_udp_mtu u1 = ug_udp_mtu u" "ug_have_server u1 = ug_have_server u"
    using recv_same [OF x(1) r(1)] by (auto simp: touch_connection_def)
  moreover have "gw_serves t u1" using calculation(2) x(2,3) r(3) by (intro gw_servesI [OF r(2)]) simp_all
  ultimately show ?thesis using r(1) by (intro exI [of _ u1] exI [of _ r]) simp
qed

lemma serves_flow:
  assumes s: "gw_serves t u" and m: "malloc_ok malloc" and e: "gw_internal e" "gw_allowed u e"
  shows "\<exists>u1. gw_step malloc u e = Some u1 \<and> gw_serves t u1 \<and> ug_have_server u1 = ug_have_server u"
proof -
  obtain xs where x: "ug_inv xs u" "\<forall>a \<in> snd ` set (ug_abs u xs). one_kind t a" "tun_udp_mtu t = ug_udp_mtu u"
    using s by (auto simp: gw_serves_def)
  obtain u1 xs1 where u1: "gw_step malloc u e = Some u1" "ug_inv xs1 u1" "gw_changes malloc u e (ug_abs u xs) (ug_abs u1 xs1)"
    using gw_step_table [OF x(1) m e(2)] by blast
  have "set (ug_abs u1 xs1) = set (ug_abs u xs)" using u1(3) e(1) by (cases e) auto
  moreover have "ug_have_server u1 = ug_have_server u"
    using u1(1) e(1) with_mtu by (cases e) (auto simp: gw_step_def send_monitor_handler_def keepalive_if_handler_done_def split: if_splits)
  moreover have "gw_serves t u1" using calculation(1) x(2,3) gw_step_mtu [OF x(1) u1(1)] by (intro gw_servesI [OF u1(2)]) simp_all
  ultimately show ?thesis using u1(1) by simp
qed

lemma received_total:
  assumes t: "int (length (tun_write_buf t)) = tun_mtu t" and k: "one_kind t (gw_ca l r)" "addr_ok l" "addr_ok r"
  shows "\<exists>buf pkt. udpgw_client_handler_received t l r d = Some (t\<lparr>tun_write_buf := buf\<rparr>, pkt) \<and> length buf = length (tun_write_buf t)"
proof -
  have same: "\<exists>buf. t = t\<lparr>tun_write_buf := buf\<rparr> \<and> length buf = length (tun_write_buf t)"
    by (rule exI [of _ "tun_write_buf t"]) simp
  have send: "\<exists>buf. (\<exists>b. device_send t parts = Some (t\<lparr>tun_write_buf := buf\<rparr>, b)) \<and> length buf = length (tun_write_buf t)"
    if "int (length (concat parts)) \<le> tun_mtu t" for parts
    using device_send_ok [of parts t] that t by auto
  consider lip lp rip rp where "l = BADDR_IPV4 lip lp" "r = BADDR_IPV4 rip rp"
    | lip lp rip rp where "l = BADDR_IPV6 lip lp" "r = BADDR_IPV6 rip rp" "length lip = 16" "length rip = 16"
    using k by (cases l; cases r) (auto simp: one_kind_def gw_ca_def)
  then show ?thesis
  proof cases
    case 1
    show ?thesis unfolding 1 udpgw_client_handler_received_def Let_def prod.case BAddr.case
      by (auto intro!: send same)
  next
    case 2
    then have "length (ipv6_mem (reply_ipv6 rip lip n)) = 40" for n by (intro length_ipv6_mem) (simp_all add: reply_ipv6_def)
    then show ?thesis unfolding 2 udpgw_client_handler_received_def Let_def prod.case BAddr.case
      by (auto intro!: send same)
  qed
qed

lemma dns_ready_buf: "dns_ready t \<Longrightarrow> length buf = length (tun_write_buf t) \<Longrightarrow> dns_ready (t\<lparr>tun_write_buf := buf\<rparr>)"
  by (simp add: dns_ready_def tun_table_def)

lemma sg_ok_udpgw: "sg_ok g \<Longrightarrow> ug_have_server u = ug_have_server (sg_udpgw g) \<Longrightarrow> sg_ok (g\<lparr>sg_udpgw := u\<rparr>)"
  by (simp add: sg_ok_def)

lemma device_inv:
  assumes i: "en_inv en" and m: "malloc_ok malloc" and a: "en_allowed en (EnDevice dns_alloc con_alloc pbuf_ok data)"
  shows "\<exists>en1 out. device_read_handler_send en dns_alloc con_alloc malloc pbuf_ok data = Some (en1, out) \<and> en_inv en1"
proof -
  obtain q where q: "dns_alloc = Some q" "dg_cons (tun_dns (en_tun en)) q = None" "int (length data) \<le> tun_mtu (en_tun en)"
    and c: "case con_alloc of None \<Rightarrow> True | Some p \<Rightarrow> ug_cons (sg_udpgw (en_gw en)) p = None \<and> p \<noteq> 0"
    using a by (auto simp: en_allowed_def Let_def split: option.splits)
  have r: "dns_ready (en_tun en)" "tun_udpgw (en_tun en)" "gw_serves (en_tun en) (sg_udpgw (en_gw en))" "sg_ok (en_gw en)"
    using i by (simp_all add: en_inv_def)
  obtain t out where t: "process_device_dns_packet (en_tun en) dns_alloc data = Some (t, out)" "dns_ready t"
    using dns_packet_ok [OF r(1) q(3,1,2)] by blast
  then obtain g buf where "t = (en_tun en)\<lparr>tun_dns := g, tun_write_buf := buf\<rparr>" using dns_packet_frame by blast
  then have f: "tun_udpgw t" "gw_serves t (sg_udpgw (en_gw en))" using r by simp_all
  obtain d where d: "process_device_udp_packet t data = Some d" using process_udp_total by blast
  show ?thesis
  proof (cases d)
    case (DevSubmit l rm is_dns p)
    then show ?thesis using t f r(4) d serves_submit [OF f(2) m d [unfolded DevSubmit] c] sg_ok_udpgw [OF r(4)]
      by (cases out) (auto simp: device_read_handler_send_def SocksUdpGwClient_SubmitPacket_def en_inv_def)
  qed (use t f r(4) d in \<open>cases out; auto simp: device_read_handler_send_def en_inv_def\<close>)
qed

lemma server_inv:
  assumes i: "en_inv en"
  shows "\<exists>en1 out. gateway_packet en data = Some (en1, out) \<and> en_inv en1"
proof -
  have r: "dns_ready (en_tun en)" "tun_udpgw (en_tun en)" "gw_serves (en_tun en) (sg_udpgw (en_gw en))" "sg_ok (en_gw en)"
    using i by (simp_all add: en_inv_def)
  obtain u1 rc where u1: "recv_interface_handler_send (sg_udpgw (en_gw en)) data = Some (u1, rc)" "gw_serves (en_tun en) u1"
    "ug_have_server u1 = ug_have_server (sg_udpgw (en_gw en))"
    "\<And>l rm d. rc = GwReceived l rm d \<Longrightarrow> one_kind (en_tun en) (gw_ca l rm) \<and> addr_ok l \<and> addr_ok rm"
    using serves_recv [OF r(3)] by blast
  note sg = sg_ok_udpgw [OF r(4) u1(3)]
  show ?thesis
  proof (cases rc)
    case (GwReceived l rm d)
    have "int (length (tun_write_buf (en_tun en))) = tun_mtu (en_tun en)" using r(1) by (simp add: dns_ready_def)
    then obtain buf pkt where "udpgw_client_handler_received (en_tun en) l rm d = Some ((en_tun en)\<lparr>tun_write_buf := buf\<rparr>, pkt)"
      "length buf = length (tun_write_buf (en_tun en))" using received_total u1(4) [OF GwReceived] by blast
    then show ?thesis using u1(1,2) r(2) sg dns_ready_buf [OF r(1)] GwReceived by (auto simp: gateway_packet_def en_inv_def)
  qed (use u1(1,2) r(1,2) sg in \<open>auto simp: gateway_packet_def en_inv_def\<close>)
qed

lemma serves_free_socks: "gw_serves t (sg_udpgw o') \<Longrightarrow> gw_serves t (sg_udpgw (free_socks o'))"
  by (simp add: free_socks_def Let_def)

lemma serves_socks_handler:
  assumes "gw_serves t (sg_udpgw o')"
  shows "gw_serves t (sg_udpgw (socks_client_handler o' malloc event))"
proof (cases "event = BSOCKSCLIENT_EVENT_UP")
  case True
  obtain u ok where u: "UdpGwClient_ConnectServer (sg_udpgw o') malloc = (u, ok)" by fastforce
  then show ?thesis using True gw_serves_connect [OF assms u] serves_free_socks by (cases ok) (auto simp: socks_client_handler_def)
qed (use assms serves_free_socks in \<open>cases event; auto simp: socks_client_handler_def\<close>)

lemma serves_try_connect: "gw_serves t (sg_udpgw o') \<Longrightarrow> gw_serves t (sg_udpgw (try_connect o' c))"
  by (simp add: try_connect_def split: option.splits)

lemma en_step_inv:
  assumes i: "en_inv en" and m: "malloc_ok malloc" and a: "en_allowed en e"
  shows "\<exists>en1. en_step malloc en e = Some en1 \<and> en_inv en1"
proof -
  have r: "dns_ready (en_tun en)" "tun_udpgw (en_tun en)" "gw_serves (en_tun en) (sg_udpgw (en_gw en))" "sg_ok (en_gw en)"
    using i by (simp_all add: en_inv_def)
  have gw: "en_inv (with_gw en g)" if "gw_serves (en_tun en) (sg_udpgw g)" "sg_ok g" for g using r that by (simp add: en_inv_def with_gw_def)
  show ?thesis
  proof (cases e)
    case (EnDevice dns_alloc con_alloc pbuf_ok data)
    then show ?thesis using device_inv [OF i m a [unfolded EnDevice]] by (auto simp: en_step_def)
  next
    case (EnServer data)
    then show ?thesis using server_inv [OF i, of data] by (auto simp: en_step_def)
  next
    case (EnFlow ge)
    then show ?thesis using a serves_flow [OF r(3) m, of ge] sg_ok_udpgw [OF r(4)] gw by (auto simp: en_step_def en_allowed_def Let_def)
  next
    case (EnTimer c)
    then show ?thesis using a timer_handler_ok [OF r(4)] serves_try_connect r(3) gw
      by (simp add: en_step_def en_allowed_def Let_def reconnect_timer_handler_def)
  next
    case (EnSocks event)
    then show ?thesis using a socks_handler_ok [OF r(4)] serves_socks_handler [OF r(3)] gw by (simp add: en_step_def en_allowed_def Let_def)
  next
    case EnServerError
    then show ?thesis using a free_socks_ok [OF r(4)] serves_free_socks [OF r(3)] gw
      by (simp add: en_step_def en_allowed_def Let_def udpgw_handler_servererror_def)
  next
    case (EnSocksMoves c)
    then show ?thesis using a r(3,4) gw by (simp add: en_step_def en_allowed_def Let_def sg_ok_def)
  qed
qed

lemma en_reach_inv:
  assumes "en_reach malloc en" "malloc_ok malloc"
  shows "en_inv en"
  using assms
proof (induction rule: en_reach.induct)
  case (EnStarted flows nodes list_nodes t max_connections send_buffer_size auth_info remote c g)
  let ?o = "\<lambda>u. \<lparr>sg_udpgw = u, sg_auth_info = auth_info, sg_remote = remote, sg_have_socks = False, sg_socks_up = False, sg_socks = None, sg_timer = False\<rparr>"
  obtain u where u: "UdpGwClient_Init flows nodes list_nodes (tun_udp_mtu t) max_connections send_buffer_size = Some u" "g = try_connect (?o u) c"
    using EnStarted(1) by (auto simp: SocksUdpGwClient_Init_def)
  then have k: "\<not> ug_have_server u" "ug_udp_mtu u = tun_udp_mtu t" by (auto simp: UdpGwClient_Init_def Let_def split: option.splits)
  have "ug_inv [] u" using client_init_inv [OF u(1)] EnStarted(2) unfolding gw_params_def by blast
  then have "gw_serves t u" by (rule gw_servesI) (simp_all add: k ug_abs_def)
  moreover have "dns_ready t" "tun_udpgw t" using EnStarted(3) by (auto simp: en_start_def dns_ready_def tun_table_def)
  ultimately show ?case using serves_try_connect [of t "?o u" c] try_connect_ok [of "?o u" c] k(1) u(2) by (simp add: en_inv_def)
next
  case (EnStepped en e en1)
  then show ?case using en_step_inv by fastforce
qed

section \<open>From the device to the server and back\<close>

lemma gateway_reply:
  assumes i: "en_inv en" and st: "gw_table (sg_udpgw (en_gw en)) = Some st" and c: "(conid, gw_ca l r) \<in> set st"
    and f: "f AND UDPGW_CLIENT_FLAG_IPV6 \<noteq> 0 \<longleftrightarrow> BAddr_type r = 2"
    and d: "int (length d) \<le> tun_udp_mtu (en_tun en)" "reply_fits (en_tun en) l d"
  shows "\<exists>en1 pkt is_dns. gateway_packet en (f # mem16 conid @ udpgw_addr r @ d) = Some (en1, Some pkt)
    \<and> process_device_udp_packet (en_tun en) pkt = Some (DevSubmit r l is_dns d)"
proof -
  obtain xs where x: "ug_inv xs (sg_udpgw (en_gw en))" "\<forall>a \<in> snd ` set (ug_abs (sg_udpgw (en_gw en)) xs). one_kind (en_tun en) a"
    "tun_udp_mtu (en_tun en) = ug_udp_mtu (sg_udpgw (en_gw en))" and t: "dns_ready (en_tun en)" "tun_udpgw (en_tun en)"
    using i by (auto simp: en_inv_def gw_serves_def)
  have abs: "ug_abs (sg_udpgw (en_gw en)) xs = st" using st gw_table_inv [OF x(1)] by simp
  note c' = c [folded abs]
  have k: "addr_ok l" "addr_ok r" "BAddr_type l = BAddr_type r"
    using ug_abs_ok [OF x(1)] c' x(2) by (fastforce simp: gw_table_ok_def gw_ca_def one_kind_def)+
  obtain u where u: "recv_interface_handler_send (sg_udpgw (en_gw en)) (f # mem16 conid @ udpgw_addr r @ d) = Some (u, GwReceived l r d)"
    using recv_delivers [OF x(1) c' d(1) [unfolded x(3)] f] by blast
  have b: "length (tun_write_buf (en_tun en)) = nat (tun_mtu (en_tun en))" using t(1) unfolding dns_ready_def by linarith
  obtain buf pkt is_dns where p: "udpgw_client_handler_received (en_tun en) l r d = Some ((en_tun en)\<lparr>tun_write_buf := buf\<rparr>, Some pkt)"
    "process_device_udp_packet (en_tun en) pkt = Some (DevSubmit r l is_dns d)"
    using received_round_trip [OF b k d(2)] t(2) d(1) by blast
  then show ?thesis using u by (simp add: gateway_packet_def)
qed

lemma submit_last:
  assumes "gw_submits True n a st st1" shows "\<exists>i st0. st1 = st0 @ [(i, a)]"
  using assms by (auto simp: gw_submits_def)

lemma device_submits:
  assumes i: "en_inv en" and m: "malloc_ok malloc" and a: "en_allowed en (EnDevice dns_alloc con_alloc pbuf_ok data)"
    and p: "process_device_dns_packet (en_tun en) dns_alloc data = Some (t, None)" "process_device_udp_packet t data = Some (DevSubmit l r is_dns d)"
    and mem: "gw_memory malloc (sg_udpgw (en_gw en)) con_alloc"
  shows "\<exists>en1 st conid. device_read_handler_send en dns_alloc con_alloc malloc pbuf_ok data = Some (en1, DevNone)
    \<and> en_tun en1 = t \<and> gw_table (sg_udpgw (en_gw en1)) = Some (st @ [(conid, gw_ca l r)])"
proof -
  let ?u = "sg_udpgw (en_gw en)"
  obtain g buf where tt: "t = (en_tun en)\<lparr>tun_dns := g, tun_write_buf := buf\<rparr>" using dns_packet_frame [OF p(1)] by blast
  obtain xs where x: "ug_inv xs ?u" "tun_udp_mtu t = ug_udp_mtu ?u" using i tt by (auto simp: en_inv_def gw_serves_def)
  obtain h where h: "datagram_ok l r h d" using process_udp_taken(2) [OF p(2)] by blast
  have "gw_allowed ?u (GwSubmit con_alloc l r is_dns d)"
    using datagram_ok_addr [OF h] process_udp_taken(1) [OF p(2)] a unfolding gw_allowed_def gw_event.case x(2) en_allowed_def Let_def en_event.case
    by blast
  from submit_inv [OF x(1) m this] obtain u1 xs1 where u1: "UdpGwClient_SubmitPacket ?u con_alloc malloc l r is_dns d = Some u1" "ug_inv xs1 u1"
    "gw_submits True (ug_max_connections ?u) (gw_ca l r) (ug_abs ?u xs) (ug_abs u1 xs1)" using mem by auto
  obtain conid st where "gw_table u1 = Some (st @ [(conid, gw_ca l r)])" using gw_table_inv [OF u1(2)] submit_last [OF u1(3)] by auto
  then show ?thesis using u1(1) p by (simp add: device_read_handler_send_def SocksUdpGwClient_SubmitPacket_def)
qed

text \<open>An engine at its start, and a server to talk to.\<close>

definition demo_tun0 :: tun where "demo_tun0 = demo_tun\<lparr>tun_dnsgw := None\<rparr>"
definition demo_peer :: BAddr where "demo_peer = BADDR_IPV4 7 (htons 9999)"

definition demo_gw :: "socks_udpgw option" where
  "demo_gw = SocksUdpGwClient_Init
     (\<lambda>_. \<lparr>fl_time = 0, fl_is_queued = False, fl_data = [], fl_data_len = 0, fl_handler_busy = False\<rparr>)
     (\<lambda>_. \<lparr>nxt = None, prv = None\<rparr>) (\<lambda>_. \<lparr>nxt = None, prv = None\<rparr>) 72 2 2 [] (BADDR_IPV4 1 1080) True"

lemma demo_gw_starts:
  "case demo_gw of None \<Rightarrow> False | Some g \<Rightarrow> ug_cons (sg_udpgw g) 1 = None \<and> gw_memory zero_malloc (sg_udpgw g) (Some 1)"
  by code_simp

lemma demo_engine_reach: "demo_gw = Some g \<Longrightarrow> en_reach zero_malloc \<lparr>en_tun = demo_tun0, en_gw = g\<rparr>"
proof (rule en_reach.EnStarted)
  have mtu: "tun_udp_mtu demo_tun0 = 72" by (simp add: demo_tun0_def demo_tun_def compute_udp_mtu_def)
  show "gw_params (tun_udp_mtu demo_tun0) 2 2"
    unfolding mtu by (simp add: gw_params_def ChunkBuffer2_calc_blocks_def bdivide_up_def INT_MAX_def PACKETPROTO_ENCLEN_def)
  show "en_start demo_tun0" by (simp add: en_start_def demo_tun0_def demo_tun_def)
  assume "demo_gw = Some g"
  then show "SocksUdpGwClient_Init
     (\<lambda>_. \<lparr>fl_time = 0, fl_is_queued = False, fl_data = [], fl_data_len = 0, fl_handler_busy = False\<rparr>)
     (\<lambda>_. \<lparr>nxt = None, prv = None\<rparr>) (\<lambda>_. \<lparr>nxt = None, prv = None\<rparr>) (tun_udp_mtu demo_tun0) 2 2 [] (BADDR_IPV4 1 1080) True = Some g"
    unfolding mtu demo_gw_def .
qed

lemma demo_packet:
  "process_device_udp_packet demo_tun0 (ipv4_datagram demo_app demo_peer [1, 2, 3]) = Some (DevSubmit demo_app demo_peer False [1, 2, 3])"
  "length (ipv4_datagram demo_app demo_peer [1, 2, 3]) = 31"
  by code_simp+

section \<open>Properties\<close>

text \<open>
  C19: Whatever packets come from the device and from the server, however the SOCKS connection to the
  server comes and goes and the reconnect timer fires: there is either a SOCKS client or a running
  timer, the gateway client has a server exactly if the SOCKS client is up, the table of DNS queries and
  the table of connections are in order, both addresses of every connection are of one kind, which the
  engine can write to the device; and every event that can come next is handled.
\<close>

theorem udp_engine_invariant:
  assumes "malloc_ok malloc" and "en_reach malloc en"
  shows "sg_ok (en_gw en) \<and> dns_ready (en_tun en)
    \<and> (\<exists>st. gw_table (sg_udpgw (en_gw en)) = Some st \<and> gw_table_ok (sg_udpgw (en_gw en)) st \<and> (\<forall>a \<in> snd ` set st. one_kind (en_tun en) a))
    \<and> (\<forall>e. en_allowed en e \<longrightarrow> (\<exists>en1. en_step malloc en e = Some en1))"
proof -
  have i: "en_inv en" by (rule en_reach_inv [OF assms(2,1)])
  then obtain xs where x: "ug_inv xs (sg_udpgw (en_gw en))" "\<forall>a \<in> snd ` set (ug_abs (sg_udpgw (en_gw en)) xs). one_kind (en_tun en) a"
    by (auto simp: en_inv_def gw_serves_def)
  moreover have "sg_ok (en_gw en)" "dns_ready (en_tun en)" using i by (simp_all add: en_inv_def)
  ultimately show ?thesis using gw_table_inv [OF x(1)] ug_abs_ok [OF x(1)] en_step_inv [OF i assms(1)] by blast
qed

theorem udp_engine_invariant_witness:
  "\<exists>g en1. demo_gw = Some g \<and> en_reach zero_malloc \<lparr>en_tun = demo_tun0, en_gw = g\<rparr> \<and> sg_ok g
    \<and> en_step zero_malloc \<lparr>en_tun = demo_tun0, en_gw = g\<rparr> (EnDevice (Some 1) (Some 1) True (ipv4_datagram demo_app demo_peer [1, 2, 3])) = Some en1"
proof -
  obtain g where g: "demo_gw = Some g" "ug_cons (sg_udpgw g) 1 = None" using demo_gw_starts by (auto split: option.splits)
  have "en_allowed \<lparr>en_tun = demo_tun0, en_gw = g\<rparr> (EnDevice (Some 1) (Some 1) True (ipv4_datagram demo_app demo_peer [1, 2, 3]))"
    using g(2) demo_packet(2) by (simp add: en_allowed_def demo_tun0_def demo_tun_def)
  then show ?thesis using udp_engine_invariant [OF zero_malloc_ok demo_engine_reach [OF g(1)]] g(1) demo_engine_reach [OF g(1)] by fastforce
qed

text \<open>
  C20: A datagram from \<open>l\<close> to \<open>r\<close> that the device delivers makes the connection of these addresses
  the most recently used one, if there is memory for it; and from then on, in whatever state the engine
  is while the connection has kept its number, an answer from the server with that number and the
  address \<open>r\<close> is written to the device as a correct packet with that answer from \<open>r\<close> to \<open>l\<close>, if it fits.
\<close>

theorem udp_round_trip:
  assumes "malloc_ok malloc" and "en_reach malloc en" and "en_allowed en (EnDevice dns_alloc con_alloc pbuf_ok packet)"
    and "process_device_dns_packet (en_tun en) dns_alloc packet = Some (t, None)"
    and "process_device_udp_packet t packet = Some (DevSubmit l r is_dns p)" and "gw_memory malloc (sg_udpgw (en_gw en)) con_alloc"
  shows "\<exists>en1 st i. device_read_handler_send en dns_alloc con_alloc malloc pbuf_ok packet = Some (en1, DevNone) \<and> en_reach malloc en1 \<and> en_tun en1 = t
    \<and> gw_table (sg_udpgw (en_gw en1)) = Some (st @ [(i, \<lparr>local_addr = l, remote_addr = r\<rparr>)])
    \<and> (\<forall>en2 st2 f reply. en_reach malloc en2 \<and> gw_table (sg_udpgw (en_gw en2)) = Some st2 \<and> (i, \<lparr>local_addr = l, remote_addr = r\<rparr>) \<in> set st2
         \<and> (f AND UDPGW_CLIENT_FLAG_IPV6 \<noteq> 0 \<longleftrightarrow> BAddr_type r = 2)
         \<and> int (length reply) \<le> tun_udp_mtu (en_tun en2) \<and> reply_fits (en_tun en2) l reply \<longrightarrow>
         (\<exists>en3 pkt is_dns. gateway_packet en2 (f # mem16 i @ udpgw_addr r @ reply) = Some (en3, Some pkt)
           \<and> process_device_udp_packet (en_tun en2) pkt = Some (DevSubmit r l is_dns reply)))"
proof -
  obtain en1 st i where e: "device_read_handler_send en dns_alloc con_alloc malloc pbuf_ok packet = Some (en1, DevNone)" "en_tun en1 = t"
    "gw_table (sg_udpgw (en_gw en1)) = Some (st @ [(i, gw_ca l r)])"
    using device_submits [OF en_reach_inv [OF assms(2,1)] assms(1,3,4,5,6)] by blast
  then have "en_reach malloc en1" by (intro en_reach.EnStepped [OF assms(2,3)]) (simp add: en_step_def)
  moreover note gateway_reply [OF en_reach_inv [OF _ assms(1)], unfolded gw_ca_def]
  ultimately show ?thesis using e unfolding gw_ca_def by (intro exI [of _ en1] exI [of _ st] exI [of _ i]) blast
qed

theorem udp_round_trip_witness:
  "\<exists>en en1 en3 i pkt is_dns. en_reach zero_malloc en
    \<and> device_read_handler_send en (Some 1) (Some 1) zero_malloc True (ipv4_datagram demo_app demo_peer [1, 2, 3]) = Some (en1, DevNone)
    \<and> gateway_packet en1 (0 # mem16 i @ udpgw_addr demo_peer @ [4, 5]) = Some (en3, Some pkt)
    \<and> process_device_udp_packet demo_tun0 pkt = Some (DevSubmit demo_peer demo_app is_dns [4, 5])"
proof -
  obtain g where g: "demo_gw = Some g" "ug_cons (sg_udpgw g) 1 = None" "gw_memory zero_malloc (sg_udpgw g) (Some 1)"
    using demo_gw_starts by (auto split: option.splits)
  let ?en = "\<lparr>en_tun = demo_tun0, en_gw = g\<rparr>" and ?p = "ipv4_datagram demo_app demo_peer [1, 2, 3]"
  have a: "en_allowed ?en (EnDevice (Some 1) (Some 1) True ?p)"
    using g(2) demo_packet(2) by (simp add: en_allowed_def demo_tun0_def demo_tun_def)
  have d: "process_device_dns_packet (en_tun ?en) (Some 1) ?p = Some (demo_tun0, None)"
    by (simp add: process_device_dns_packet_def demo_tun0_def)
  have f: "int (length [4, 5 :: u8]) \<le> tun_udp_mtu demo_tun0" "reply_fits demo_tun0 demo_app [4, 5]" "BAddr_type demo_peer \<noteq> 2"
    by (simp_all add: demo_tun0_def demo_tun_def compute_udp_mtu_def demo_app_def demo_peer_def)
  have m: "gw_memory zero_malloc (sg_udpgw (en_gw ?en)) (Some 1)" using g(3) by simp
  show ?thesis
    using udp_round_trip [OF zero_malloc_ok demo_engine_reach [OF g(1)] a d demo_packet(1) m] f demo_engine_reach [OF g(1)]
    by (metis and_zero_eq list.set_intros(1) bit.conj_zero_left in_set_conv_decomp)
qed

end
