(* ===== verification/Tun_Tcp.thy ===== *)
theory Tun_Tcp
  imports Bsocks_Client Linked_List1 "HOL-Library.Monad_Syntax"
begin

text \<open>
  The TCP clients of \<^verbatim>\<open>badvpn/tun2socks/tun2socks.c\<close>: a connection that the IP stack has accepted on
  one side, a SOCKS client on the other, a buffer for each direction, and the handlers of both sides.
  Either side can end first; the other one is kept until the data that is left for it has gone.  The
  results of the stack's functions are arguments.  \<^const>\<open>None\<close> is a failed assertion, an access
  outside a buffer, or the use of a client or a connection that has been freed.
\<close>

section \<open>The code: state\<close>

abbreviation TCP_WND :: int where "TCP_WND \<equiv> 65535"
abbreviation CLIENT_SOCKS_RECV_BUF_SIZE :: int where "CLIENT_SOCKS_RECV_BUF_SIZE \<equiv> 8192"

datatype lwip_err = LWIP_OK | LWIP_MEM | LWIP_ABRT | LWIP_OTHER

datatype pcb_state = PcbOpen | PcbClosed | PcbAborted | PcbFreed

text \<open>
  The three callbacks of the connection are set or not.  A send that the SOCKS client has not yet
  reported as done is its length, and a receive is whether there is one.  The last six fields are
  history: what the stack has delivered, what SOCKS has taken, how much has been confirmed to the
  stack; what SOCKS has delivered, what the stack has taken, how much the peer has acknowledged.
\<close>

record tcp_client =
  tc_local_addr :: BAddr
  tc_remote_addr :: BAddr
  tc_pcb :: pcb_state
  tc_err_cb :: bool
  tc_recv_cb :: bool
  tc_sent_cb :: bool
  tc_client_closed :: bool
  tc_buf :: bytes
  tc_buf_used :: int
  tc_socks_dest :: BAddr
  tc_socks_up :: bool
  tc_socks_closed :: bool
  tc_send_if :: "int option"
  tc_recv_if :: bool
  tc_socks_recv_buf :: bytes
  tc_socks_recv_buf_used :: int
  tc_socks_recv_buf_sent :: int
  tc_socks_recv_waiting :: bool
  tc_socks_recv_tcp_pending :: int
  th_in :: bytes
  th_sent :: bytes
  th_confirmed :: int
  th_got :: bytes
  th_written :: bytes
  th_acked :: int

text \<open>
  The list of the clients and their number, the clients by address, and the string that each client's
  \<^verbatim>\<open>socks_username\<close> points to, if it is allocated.  All SOCKS clients share one piece of
  authentication data; \<open>ts_auth_username\<close> says whose string its user name points to, \<^const>\<open>None\<close> if it
  is the string of the command line.
\<close>

record tcp_engine =
  ts_clients :: "nat llist"
  ts_num :: int
  ts_store :: "nat \<Rightarrow> tcp_client option"
  ts_names :: "nat \<Rightarrow> bytes option"
  ts_username :: "bytes option"
  ts_append_source :: bool
  ts_auth_username :: "nat option"

text \<open>What the stack answers during one call; the writes of a call are numbered.\<close>

record tcp_env =
  te_close :: lwip_err
  te_output :: lwip_err
  te_sndbuf :: "nat \<Rightarrow> nat"
  te_write :: "nat \<Rightarrow> lwip_err"

definition ASSERT :: "bool \<Rightarrow> unit option" where
  "ASSERT b = (if b then Some () else None)"

definition put_client :: "tcp_engine \<Rightarrow> nat \<Rightarrow> tcp_client \<Rightarrow> tcp_engine" where
  "put_client s p c = s\<lparr>ts_store := (ts_store s)(p \<mapsto> c)\<rparr>"

section \<open>The code: ending the two sides\<close>

definition client_dealloc :: "tcp_engine \<Rightarrow> nat \<Rightarrow> tcp_engine option" where
  "client_dealloc s p = do {
     c \<leftarrow> ts_store s p;
     ASSERT (tc_client_closed c);
     ASSERT (tc_socks_closed c);
     ASSERT (0 < ts_num s);
     Some (s\<lparr>ts_num := ts_num s - 1, ts_clients := LinkedList1_Remove (ts_clients s) p, ts_store := (ts_store s)(p := None),
             ts_names := (ts_names s)(p := None)\<rparr>)
   }"

definition remove_callbacks :: "tcp_client \<Rightarrow> tcp_client" where
  "remove_callbacks c = c\<lparr>tc_err_cb := False, tc_recv_cb := False, tc_sent_cb := False\<rparr>"

definition open_sides :: "tcp_engine \<Rightarrow> nat \<Rightarrow> nat" where
  "open_sides s p =
     (case ts_store s p of
        None \<Rightarrow> 0
      | Some c \<Rightarrow> (if tc_client_closed c then 0 else 1) + (if tc_socks_closed c then 0 else 1))"

function client_handle_freed_client :: "tcp_env \<Rightarrow> tcp_engine \<Rightarrow> nat \<Rightarrow> tcp_engine option"
  and client_free_client :: "tcp_env \<Rightarrow> tcp_engine \<Rightarrow> nat \<Rightarrow> tcp_engine option"
  and client_free_socks :: "tcp_env \<Rightarrow> tcp_engine \<Rightarrow> nat \<Rightarrow> tcp_engine option" where
  "client_handle_freed_client te s p =
     (case ts_store s p of
        None \<Rightarrow> None
      | Some c \<Rightarrow>
          if tc_client_closed c then None
          else if tc_buf_used c > 0 \<and> \<not> tc_socks_closed c then Some (put_client s p (c\<lparr>tc_client_closed := True\<rparr>))
          else if \<not> tc_socks_closed c then client_free_socks te (put_client s p (c\<lparr>tc_client_closed := True\<rparr>)) p
          else client_dealloc (put_client s p (c\<lparr>tc_client_closed := True\<rparr>)) p)"
| "client_free_client te s p =
     (case ts_store s p of
        None \<Rightarrow> None
      | Some c \<Rightarrow>
          if tc_client_closed c \<or> tc_pcb c \<noteq> PcbOpen then None
          else client_handle_freed_client te
            (put_client s p ((remove_callbacks c)\<lparr>tc_pcb := (if te_close te = LWIP_OK then PcbClosed else PcbAborted)\<rparr>)) p)"
| "client_free_socks te s p =
     (case ts_store s p of
        None \<Rightarrow> None
      | Some c \<Rightarrow>
          if tc_socks_closed c \<or> tc_socks_up c \<and> \<not> tc_client_closed c \<and> tc_pcb c \<noteq> PcbOpen then None
          else
            (let c1 = (if tc_socks_up c \<and> \<not> tc_client_closed c then c\<lparr>tc_recv_cb := False\<rparr> else c);
                 s1 = put_client s p (c1\<lparr>tc_send_if := None, tc_recv_if := False, tc_socks_closed := True\<rparr>) in
             if tc_socks_up c \<and> (tc_socks_recv_buf_used c \<ge> 0 \<or> tc_socks_recv_tcp_pending c > 0) \<and> \<not> tc_client_closed c then Some s1
             else if \<not> tc_client_closed c then client_free_client te s1 p
             else client_dealloc s1 p))"
  by pat_completeness auto

termination
proof (relation "measure (\<lambda>x. case x of Inl (te, s, p) \<Rightarrow> 2 * open_sides s p
    | Inr (Inl (te, s, p)) \<Rightarrow> Suc (2 * open_sides s p) | Inr (Inr (te, s, p)) \<Rightarrow> Suc (2 * open_sides s p))")
qed (auto simp: open_sides_def put_client_def remove_callbacks_def split: if_splits)

definition client_abort_client :: "tcp_env \<Rightarrow> tcp_engine \<Rightarrow> nat \<Rightarrow> tcp_engine option" where
  "client_abort_client te s p = do {
     c \<leftarrow> ts_store s p;
     ASSERT (\<not> tc_client_closed c);
     ASSERT (tc_pcb c = PcbOpen);
     client_handle_freed_client te (put_client s p ((remove_callbacks c)\<lparr>tc_pcb := PcbAborted\<rparr>)) p
   }"

definition client_murder :: "tcp_engine \<Rightarrow> nat \<Rightarrow> tcp_engine option" where
  "client_murder s p = do {
     c \<leftarrow> ts_store s p;
     c1 \<leftarrow> (if \<not> tc_client_closed c then do {
              ASSERT (tc_pcb c = PcbOpen);
              Some ((remove_callbacks c)\<lparr>tc_pcb := PcbAborted, tc_client_closed := True\<rparr>)
            } else Some c);
     let c2 = (if \<not> tc_socks_closed c1 then c1\<lparr>tc_send_if := None, tc_recv_if := False, tc_socks_closed := True\<rparr> else c1);
     client_dealloc (put_client s p c2) p
   }"

text \<open>The stack has freed the connection, and the callbacks with it.\<close>

definition client_err_func :: "tcp_env \<Rightarrow> tcp_engine \<Rightarrow> nat \<Rightarrow> tcp_engine option" where
  "client_err_func te s p = do {
     c \<leftarrow> ts_store s p;
     ASSERT (\<not> tc_client_closed c);
     client_handle_freed_client te (put_client s p ((remove_callbacks c)\<lparr>tc_pcb := PcbFreed\<rparr>)) p
   }"

section \<open>The code: from the stack to SOCKS\<close>

definition client_send_to_socks :: "tcp_engine \<Rightarrow> nat \<Rightarrow> tcp_engine option" where
  "client_send_to_socks s p = do {
     c \<leftarrow> ts_store s p;
     ASSERT (\<not> tc_socks_closed c);
     ASSERT (tc_socks_up c);
     ASSERT (tc_buf_used c > 0);
     ASSERT (tc_send_if c = None);
     Some (put_client s p (c\<lparr>tc_send_if := Some (tc_buf_used c)\<rparr>))
   }"

definition client_socks_send_handler_done :: "tcp_env \<Rightarrow> tcp_engine \<Rightarrow> nat \<Rightarrow> int \<Rightarrow> tcp_engine option" where
  "client_socks_send_handler_done te s p data_len = do {
     c \<leftarrow> ts_store s p;
     ASSERT (\<not> tc_socks_closed c);
     ASSERT (tc_socks_up c);
     ASSERT (tc_buf_used c > 0);
     ASSERT (data_len > 0);
     ASSERT (data_len \<le> tc_buf_used c);
     rest \<leftarrow> load (tc_buf c) data_len (tc_buf_used c - data_len);
     buf \<leftarrow> store (tc_buf c) 0 rest;
     let c1 = c\<lparr>tc_buf := buf, tc_buf_used := tc_buf_used c - data_len\<rparr>;
     c2 \<leftarrow> (if \<not> tc_client_closed c1 then do {
              ASSERT (tc_pcb c1 = PcbOpen);
              Some (c1\<lparr>th_confirmed := th_confirmed c1 + data_len\<rparr>)
            } else Some c1);
     (if tc_buf_used c2 > 0 then do {
        ASSERT (tc_send_if c2 = None);
        Some (put_client s p (c2\<lparr>tc_send_if := Some (tc_buf_used c2)\<rparr>))
      } else if tc_client_closed c2 then client_free_socks te (put_client s p c2) p
      else Some (put_client s p c2))
   }"

section \<open>The code: from SOCKS to the stack\<close>

definition client_socks_recv_initiate :: "tcp_engine \<Rightarrow> nat \<Rightarrow> tcp_engine option" where
  "client_socks_recv_initiate s p = do {
     c \<leftarrow> ts_store s p;
     ASSERT (\<not> tc_client_closed c);
     ASSERT (\<not> tc_socks_closed c);
     ASSERT (tc_socks_up c);
     ASSERT (tc_socks_recv_buf_used c = -1);
     ASSERT (\<not> tc_recv_if c);
     Some (put_client s p (c\<lparr>tc_recv_if := True\<rparr>))
   }"

text \<open>The loop of writes: the client after it, and whether it ended without an error.\<close>

function client_write_loop :: "tcp_env \<Rightarrow> nat \<Rightarrow> tcp_client \<Rightarrow> (tcp_client \<times> bool) option" where
  "client_write_loop te i c =
     (let to_write = min (tc_socks_recv_buf_used c - tc_socks_recv_buf_sent c) (int (te_sndbuf te i)) in
      if to_write \<le> 0 then if to_write = 0 then Some (c, True) else None
      else
        (case load (tc_socks_recv_buf c) (tc_socks_recv_buf_sent c) to_write of
           None \<Rightarrow> None
         | Some d \<Rightarrow>
             (case te_write te i of
                LWIP_OK \<Rightarrow>
                  (let c1 = c\<lparr>th_written := th_written c @ d, tc_socks_recv_buf_sent := tc_socks_recv_buf_sent c + to_write,
                              tc_socks_recv_tcp_pending := tc_socks_recv_tcp_pending c + to_write\<rparr>
                   in if tc_socks_recv_buf_sent c1 < tc_socks_recv_buf_used c1 then client_write_loop te (Suc i) c1 else Some (c1, True))
              | LWIP_MEM \<Rightarrow> Some (c, True)
              | _ \<Rightarrow> Some (c, False))))"
  by pat_completeness auto

termination
  by (relation "measure (\<lambda>(te, i, c). nat (tc_socks_recv_buf_used c - tc_socks_recv_buf_sent c))") auto

definition client_socks_recv_send_out :: "tcp_env \<Rightarrow> tcp_engine \<Rightarrow> nat \<Rightarrow> (tcp_engine \<times> int) option" where
  "client_socks_recv_send_out te s p = do {
     c \<leftarrow> ts_store s p;
     ASSERT (\<not> tc_client_closed c);
     ASSERT (tc_socks_up c);
     ASSERT (tc_socks_recv_buf_used c > 0);
     ASSERT (tc_socks_recv_buf_sent c < tc_socks_recv_buf_used c);
     ASSERT (\<not> tc_socks_recv_waiting c);
     ASSERT (tc_pcb c = PcbOpen);
     (c1, ok) \<leftarrow> client_write_loop te 0 c;
     (if \<not> ok \<or> te_output te \<noteq> LWIP_OK then do {
        s1 \<leftarrow> client_abort_client te (put_client s p c1) p;
        Some (s1, -1)
      } else if tc_socks_recv_buf_sent c1 < tc_socks_recv_buf_used c1 then
        if tc_socks_recv_tcp_pending c1 = 0 then do {
          s1 \<leftarrow> client_abort_client te (put_client s p c1) p;
          Some (s1, -1)
        } else Some (put_client s p (c1\<lparr>tc_socks_recv_waiting := True\<rparr>), 0)
      else Some (put_client s p (c1\<lparr>tc_socks_recv_buf_used := -1\<rparr>), 0))
   }"

definition client_socks_recv_handler_done :: "tcp_env \<Rightarrow> tcp_engine \<Rightarrow> nat \<Rightarrow> int \<Rightarrow> tcp_engine option" where
  "client_socks_recv_handler_done te s p data_len = do {
     c \<leftarrow> ts_store s p;
     ASSERT (data_len > 0);
     ASSERT (data_len \<le> CLIENT_SOCKS_RECV_BUF_SIZE);
     ASSERT (\<not> tc_socks_closed c);
     ASSERT (tc_socks_up c);
     ASSERT (tc_socks_recv_buf_used c = -1);
     (if tc_client_closed c then Some s
      else do {
        (s1, r) \<leftarrow> client_socks_recv_send_out te
          (put_client s p (c\<lparr>tc_socks_recv_buf_used := data_len, tc_socks_recv_buf_sent := 0, tc_socks_recv_waiting := False\<rparr>)) p;
        (if r < 0 then Some s1
         else do {
           c1 \<leftarrow> ts_store s1 p;
           (if tc_socks_recv_buf_used c1 = -1 then client_socks_recv_initiate s1 p else Some s1)
         })
      })
   }"

definition client_socks_handler :: "tcp_env \<Rightarrow> tcp_engine \<Rightarrow> nat \<Rightarrow> bs_event \<Rightarrow> tcp_engine option" where
  "client_socks_handler te s p event = do {
     c \<leftarrow> ts_store s p;
     ASSERT (\<not> tc_socks_closed c);
     (case event of
        BSOCKSCLIENT_EVENT_ERROR \<Rightarrow> client_free_socks te s p
      | BSOCKSCLIENT_EVENT_UP \<Rightarrow> do {
          ASSERT (\<not> tc_socks_up c);
          ASSERT (tc_client_closed c \<or> tc_pcb c = PcbOpen);
          let c1 = c\<lparr>tc_send_if := None, tc_recv_if := False, tc_socks_recv_buf_used := -1, tc_socks_recv_tcp_pending := 0,
                     tc_sent_cb := (if tc_client_closed c then tc_sent_cb c else True), tc_socks_up := True\<rparr>;
          s1 \<leftarrow> (if tc_buf_used c1 > 0 then client_send_to_socks (put_client s p c1) p else Some (put_client s p c1));
          (if \<not> tc_client_closed c then client_socks_recv_initiate s1 p else Some s1)
        }
      | BSOCKSCLIENT_EVENT_ERROR_CLOSED \<Rightarrow> do {
          ASSERT (tc_socks_up c);
          client_free_socks te s p
        })
   }"

section \<open>The code: callbacks of the stack\<close>

text \<open>
  Three callbacks let the jobs run that they have caused on the SOCKS side before they return
  (\<^verbatim>\<open>SYNC_COMMIT\<close>): a send or a receive that is done, or a report of the SOCKS client.  A send has taken
  the bytes from the buffer, a receive has put them into it.
\<close>

datatype socks_done = JobSent int | JobReceived bytes | JobEvent bs_event

definition socks_can :: "tcp_engine \<Rightarrow> nat \<Rightarrow> socks_done \<Rightarrow> bool" where
  "socks_can s p j =
     (case ts_store s p of
        None \<Rightarrow> False
      | Some c \<Rightarrow>
          \<not> tc_socks_closed c
          \<and> (case j of
               JobSent n \<Rightarrow> (case tc_send_if c of None \<Rightarrow> False | Some m \<Rightarrow> 0 < n \<and> n \<le> m)
             | JobReceived d \<Rightarrow> tc_recv_if c \<and> d \<noteq> [] \<and> int (length d) \<le> CLIENT_SOCKS_RECV_BUF_SIZE
             | JobEvent e \<Rightarrow>
                 (e = BSOCKSCLIENT_EVENT_UP \<longrightarrow> \<not> tc_socks_up c) \<and> (e = BSOCKSCLIENT_EVENT_ERROR_CLOSED \<longrightarrow> tc_socks_up c)))"

definition socks_job :: "tcp_env \<Rightarrow> tcp_engine \<Rightarrow> nat \<Rightarrow> socks_done \<Rightarrow> tcp_engine option" where
  "socks_job te s p j = do {
     c \<leftarrow> ts_store s p;
     (case j of
        JobSent n \<Rightarrow> do {
          d \<leftarrow> load (tc_buf c) 0 n;
          client_socks_send_handler_done te (put_client s p (c\<lparr>tc_send_if := None, th_sent := th_sent c @ d\<rparr>)) p n
        }
      | JobReceived d \<Rightarrow> do {
          buf \<leftarrow> store (tc_socks_recv_buf c) 0 d;
          client_socks_recv_handler_done te (put_client s p (c\<lparr>tc_recv_if := False, tc_socks_recv_buf := buf, th_got := th_got c @ d\<rparr>)) p
            (int (length d))
        }
      | JobEvent e \<Rightarrow> client_socks_handler te s p e)
   }"

fun run_jobs :: "tcp_engine \<Rightarrow> nat \<Rightarrow> (tcp_env \<times> socks_done) list \<Rightarrow> tcp_engine option" where
  "run_jobs s p [] = Some s"
| "run_jobs s p ((te, j) # js) = (if socks_can s p j then socks_job te s p j \<bind> (\<lambda>s1. run_jobs s1 p js) else run_jobs s p js)"

text \<open>The dead variable of the connection is set when its side is marked as closed.\<close>

definition dead_client :: "tcp_engine \<Rightarrow> nat \<Rightarrow> bool" where
  "dead_client s p \<longleftrightarrow> (case ts_store s p of None \<Rightarrow> True | Some c \<Rightarrow> tc_client_closed c)"

text \<open>The state, the return value, and whether the packet buffer has been freed.\<close>

definition client_recv_func ::
  "tcp_env \<Rightarrow> tcp_engine \<Rightarrow> nat \<Rightarrow> bytes option \<Rightarrow> (tcp_env \<times> socks_done) list \<Rightarrow> (tcp_engine \<times> lwip_err \<times> bool) option" where
  "client_recv_func te s p data jobs = do {
     c \<leftarrow> ts_store s p;
     ASSERT (\<not> tc_client_closed c);
     (case data of
        None \<Rightarrow> do {
          s1 \<leftarrow> client_free_client te s p;
          Some (s1, LWIP_ABRT, False)
        }
      | Some d \<Rightarrow> do {
          ASSERT (d \<noteq> []);
          (if int (length d) > TCP_WND - tc_buf_used c then Some (s, LWIP_MEM, False)
           else do {
             buf \<leftarrow> store (tc_buf c) (tc_buf_used c) d;
             let c1 = c\<lparr>tc_buf := buf, tc_buf_used := tc_buf_used c + int (length d), th_in := th_in c @ d\<rparr>;
             (if tc_buf_used c1 = int (length d) \<and> tc_socks_up c1 then do {
                ASSERT (\<not> tc_socks_closed c1);
                s1 \<leftarrow> client_send_to_socks (put_client s p c1) p;
                s2 \<leftarrow> run_jobs s1 p jobs;
                Some (if dead_client s2 p then (s2, LWIP_ABRT, False) else (s2, LWIP_OK, True))
              } else Some (put_client s p c1, LWIP_OK, True))
           })
        })
   }"

definition client_sent_func ::
  "tcp_env \<Rightarrow> tcp_engine \<Rightarrow> nat \<Rightarrow> int \<Rightarrow> (tcp_env \<times> socks_done) list \<Rightarrow> (tcp_engine \<times> lwip_err) option" where
  "client_sent_func te s p len jobs = do {
     c \<leftarrow> ts_store s p;
     ASSERT (\<not> tc_client_closed c);
     ASSERT (tc_socks_up c);
     ASSERT (len > 0);
     ASSERT (len \<le> tc_socks_recv_tcp_pending c);
     let c1 = c\<lparr>tc_socks_recv_tcp_pending := tc_socks_recv_tcp_pending c - len, th_acked := th_acked c + len\<rparr>;
     (if tc_socks_recv_buf_used c1 > 0 then do {
        ASSERT (tc_socks_recv_waiting c1);
        ASSERT (tc_socks_recv_buf_sent c1 < tc_socks_recv_buf_used c1);
        (s1, r) \<leftarrow> client_socks_recv_send_out te (put_client s p (c1\<lparr>tc_socks_recv_waiting := False\<rparr>)) p;
        (if r < 0 then Some (s1, LWIP_ABRT)
         else do {
           c2 \<leftarrow> ts_store s1 p;
           ASSERT (tc_socks_recv_tcp_pending c2 > 0);
           (if tc_socks_recv_buf_used c2 = -1 \<and> \<not> tc_socks_closed c2 then do {
              s2 \<leftarrow> client_socks_recv_initiate s1 p;
              s3 \<leftarrow> run_jobs s2 p jobs;
              Some (s3, if dead_client s3 p then LWIP_ABRT else LWIP_OK)
            } else Some (s1, LWIP_OK))
         })
      } else if tc_socks_closed c1 \<and> tc_socks_recv_tcp_pending c1 = 0 then do {
        s1 \<leftarrow> client_free_client te (put_client s p c1) p;
        Some (s1, LWIP_ABRT)
      } else Some (put_client s p c1, LWIP_OK))
   }"

record tcp_pcb =
  np_is_ipv6 :: bool
  np_local_ip4 :: u32
  np_local_ip6 :: bytes
  np_local_port :: u16
  np_remote_ip4 :: u32
  np_remote_ip6 :: bytes
  np_remote_port :: u16

definition baddr_from_lwip :: "bool \<Rightarrow> u32 \<Rightarrow> bytes \<Rightarrow> u16 \<Rightarrow> BAddr" where
  "baddr_from_lwip is_ipv6 ip4 ip6 port_hostorder =
     (if is_ipv6 then BADDR_IPV6 (take 16 ip6) (htons port_hostorder) else BADDR_IPV4 ip4 (htons port_hostorder))"

text \<open>
  What the allocation of a client gives, an address and memory with whatever is in it; whether there
  is memory for the user name; whether the SOCKS client can be set up; and how an address is printed.
\<close>

abbreviation names_shared :: "tcp_engine \<Rightarrow> bool" where
  "names_shared s \<equiv> ts_username s \<noteq> None \<and> ts_append_source s"

record accept_env =
  ae_malloc :: "(nat \<times> tcp_client) option"
  ae_concat_ok :: bool
  ae_socks_ok :: bool
  ae_print :: "BAddr \<Rightarrow> bytes"

definition listener_accept_func ::
  "accept_env \<Rightarrow> tcp_engine \<Rightarrow> tcp_pcb \<Rightarrow> (tcp_env \<times> socks_done) list \<Rightarrow> (tcp_engine \<times> lwip_err) option" where
  "listener_accept_func ae s newpcb jobs =
     (case ae_malloc ae of
        None \<Rightarrow> Some (s, LWIP_MEM)
      | Some (p, mem) \<Rightarrow>
          (let local = baddr_from_lwip (np_is_ipv6 newpcb) (np_local_ip4 newpcb) (np_local_ip6 newpcb) (np_local_port newpcb);
               remote = baddr_from_lwip (np_is_ipv6 newpcb) (np_remote_ip4 newpcb) (np_remote_ip6 newpcb) (np_remote_port newpcb);
               append = names_shared s;
               username = (if append then Some (the (ts_username s) @ [0x40] @ ae_print ae remote) else None) in
           if append \<and> \<not> ae_concat_ok ae then Some (s, LWIP_MEM)
           else
             (let s1 = (if append then s\<lparr>ts_auth_username := Some p\<rparr> else s)\<lparr>ts_names := (ts_names s)(p := username)\<rparr> in
              if \<not> ae_socks_ok ae then Some (s1\<lparr>ts_names := (ts_names s1)(p := None)\<rparr>, LWIP_MEM)
              else do {
                ASSERT (ts_num s1 \<ge> 0);
                let c = mem\<lparr>tc_local_addr := local, tc_remote_addr := remote, tc_socks_dest := local,
                            tc_pcb := PcbOpen, tc_client_closed := False, tc_err_cb := True, tc_recv_cb := True, tc_sent_cb := False,
                            tc_buf_used := 0, tc_socks_up := False, tc_socks_closed := False, tc_send_if := None, tc_recv_if := False,
                            th_in := [], th_sent := [], th_confirmed := 0, th_got := [], th_written := [], th_acked := 0\<rparr>;
                s2 \<leftarrow> run_jobs (put_client (s1\<lparr>ts_clients := LinkedList1_Append (ts_clients s1) p, ts_num := ts_num s1 + 1\<rparr>) p c) p jobs;
                Some (s2, if dead_client s2 p then LWIP_ABRT else LWIP_OK)
              })))"

text \<open>
  The SOCKS client builds its password message from the shared data when the server asks for it
  (\<^verbatim>\<open>recv_handler_done\<close> of \<^verbatim>\<open>BSocksClient.c\<close>): it reads the string where that is now.
\<close>

definition shared_name :: "tcp_engine \<Rightarrow> bytes option" where
  "shared_name s = (case ts_auth_username s of None \<Rightarrow> ts_username s | Some q \<Rightarrow> ts_names s q)"

definition socks_password :: "tcp_engine \<Rightarrow> nat \<Rightarrow> tcp_engine option" where
  "socks_password s p = do {
     c \<leftarrow> ts_store s p;
     name \<leftarrow> shared_name s;
     Some s
   }"

text \<open>The end of the program.\<close>

partial_function (option) free_clients :: "tcp_engine \<Rightarrow> tcp_engine option" where
  "free_clients s =
     (case LinkedList1_GetFirst (ts_clients s) of
        None \<Rightarrow> Some s
      | Some p \<Rightarrow> (case client_murder s p of None \<Rightarrow> None | Some s1 \<Rightarrow> free_clients s1))"

section \<open>Ending a client\<close>

declare client_handle_freed_client.simps [simp del] client_free_client.simps [simp del] client_free_socks.simps [simp del]
  client_write_loop.simps [simp del]

lemma ASSERT_simps [simp]: "ASSERT True = Some ()" "ASSERT False = None"
  by (simp_all add: ASSERT_def)

lemma put_simps [simp]:
  "ts_store (put_client s p c) p = Some c" "put_client (put_client s p c) p c' = put_client s p c'"
  "ts_num (put_client s p c) = ts_num s" "ts_clients (put_client s p c) = ts_clients s"
  by (simp_all add: put_client_def)

lemma put_cong: "c = (c' :: tcp_client) \<Longrightarrow> put_client s p c = put_client s p c'"
  by simp

definition gone :: "tcp_engine \<Rightarrow> nat \<Rightarrow> tcp_engine" where
  "gone s p = s\<lparr>ts_num := ts_num s - 1, ts_clients := LinkedList1_Remove (ts_clients s) p, ts_store := (ts_store s)(p := None),
     ts_names := (ts_names s)(p := None)\<rparr>"

lemma gone_simps [simp]: "gone (put_client s p c) p = gone s p" "ts_store (gone s p) p = None"
  by (simp_all add: gone_def put_client_def)

lemma dealloc_gone:
  "tc_client_closed c \<Longrightarrow> tc_socks_closed c \<Longrightarrow> 0 < ts_num s \<Longrightarrow> client_dealloc (put_client s p c) p = Some (gone s p)"
  by (simp add: client_dealloc_def gone_def put_client_def)

lemma handle_freed:
  assumes "ts_store s p = Some c" "\<not> tc_client_closed c" "0 < ts_num s"
  shows "client_handle_freed_client te s p =
    Some (if 0 < tc_buf_used c \<and> \<not> tc_socks_closed c then put_client s p (c\<lparr>tc_client_closed := True\<rparr>) else gone s p)"
proof -
  have "client_free_socks te (put_client s p (c\<lparr>tc_client_closed := True\<rparr>)) p = Some (gone s p)" if "\<not> tc_socks_closed c"
    using that assms(3) by (subst client_free_socks.simps) (simp add: Let_def dealloc_gone)
  then show ?thesis using assms by (subst client_handle_freed_client.simps) (simp add: dealloc_gone)
qed

text \<open>A client whose connection is gone.\<close>

definition closing :: "tcp_client \<Rightarrow> pcb_state \<Rightarrow> tcp_client" where
  "closing c st = (remove_callbacks c)\<lparr>tc_pcb := st, tc_client_closed := True\<rparr>"

definition client_ended :: "tcp_engine \<Rightarrow> nat \<Rightarrow> tcp_client \<Rightarrow> pcb_state \<Rightarrow> tcp_engine" where
  "client_ended s p c st = (if 0 < tc_buf_used c \<and> \<not> tc_socks_closed c then put_client s p (closing c st) else gone s p)"

lemma handle_freed_removed:
  assumes "\<not> tc_client_closed c" "0 < ts_num s"
  shows "client_handle_freed_client te (put_client s p ((remove_callbacks c)\<lparr>tc_pcb := st\<rparr>)) p = Some (client_ended s p c st)"
  using handle_freed [of "put_client s p ((remove_callbacks c)\<lparr>tc_pcb := st\<rparr>)" p] assms
  by (simp add: client_ended_def closing_def remove_callbacks_def)

definition close_state :: "tcp_env \<Rightarrow> pcb_state" where
  "close_state te = (if te_close te = LWIP_OK then PcbClosed else PcbAborted)"

lemma free_client:
  assumes "ts_store s p = Some c" "\<not> tc_client_closed c" "tc_pcb c = PcbOpen" "0 < ts_num s"
  shows "client_free_client te s p = Some (client_ended s p c (close_state te))"
  using assms by (subst client_free_client.simps) (simp add: handle_freed_removed close_state_def)

lemma abort_client:
  assumes "ts_store s p = Some c" "\<not> tc_client_closed c" "tc_pcb c = PcbOpen" "0 < ts_num s"
  shows "client_abort_client te s p = Some (client_ended s p c PcbAborted)"
  using assms by (simp add: client_abort_client_def handle_freed_removed)

text \<open>A client whose SOCKS side is gone.\<close>

definition unsocked :: "tcp_client \<Rightarrow> tcp_client" where
  "unsocked c = c\<lparr>tc_recv_cb := False, tc_send_if := None, tc_recv_if := False, tc_socks_closed := True\<rparr>"

definition socks_ended :: "tcp_engine \<Rightarrow> nat \<Rightarrow> tcp_client \<Rightarrow> tcp_engine" where
  "socks_ended s p c =
     (if tc_socks_up c \<and> (tc_socks_recv_buf_used c \<ge> 0 \<or> tc_socks_recv_tcp_pending c > 0) \<and> \<not> tc_client_closed c
      then put_client s p (unsocked c) else gone s p)"

lemma free_socks:
  assumes "ts_store s p = Some c" "\<not> tc_socks_closed c" "tc_client_closed c \<or> tc_pcb c = PcbOpen" "0 < ts_num s"
  shows "client_free_socks te s p = Some (socks_ended s p c)"
proof (cases "tc_client_closed c")
  case True
  then show ?thesis using assms by (subst client_free_socks.simps) (simp add: Let_def dealloc_gone socks_ended_def)
next
  case False
  have f: "client_free_client te (put_client s p c1) p = Some (gone s p)"
    if "\<not> tc_client_closed c1" "tc_pcb c1 = PcbOpen" "tc_socks_closed c1" for c1
    using free_client [of "put_client s p c1" p c1] that assms(4) by (simp add: client_ended_def)
  show ?thesis
    using False assms by (subst client_free_socks.simps) (auto simp: Let_def socks_ended_def unsocked_def f)
qed

section \<open>The invariant of a client\<close>

text \<open>The flags, the callbacks and the buffer from the stack; the send to SOCKS; the data from SOCKS.\<close>

definition base_part :: "tcp_client \<Rightarrow> bool" where
  "base_part c \<longleftrightarrow> length (tc_buf c) = 65535 \<and> length (tc_socks_recv_buf c) = 8192 \<and> 0 \<le> tc_buf_used c \<and> tc_buf_used c \<le> TCP_WND
     \<and> \<not> (tc_client_closed c \<and> tc_socks_closed c) \<and> (tc_pcb c = PcbOpen \<longleftrightarrow> \<not> tc_client_closed c)
     \<and> (tc_err_cb c \<longleftrightarrow> \<not> tc_client_closed c) \<and> (tc_recv_cb c \<longleftrightarrow> \<not> tc_client_closed c \<and> \<not> tc_socks_closed c)
     \<and> (tc_sent_cb c \<longleftrightarrow> \<not> tc_client_closed c \<and> tc_socks_up c) \<and> (tc_client_closed c \<longrightarrow> 0 < tc_buf_used c)
     \<and> th_in c = th_sent c @ take (nat (tc_buf_used c)) (tc_buf c) \<and> (\<not> tc_client_closed c \<longrightarrow> th_confirmed c = int (length (th_sent c)))"

definition send_part :: "tcp_client \<Rightarrow> bool" where
  "send_part c \<longleftrightarrow> (tc_send_if c = None \<longrightarrow> \<not> (tc_socks_up c \<and> \<not> tc_socks_closed c \<and> 0 < tc_buf_used c))
     \<and> (\<forall>m. tc_send_if c = Some m \<longrightarrow> tc_socks_up c \<and> \<not> tc_socks_closed c \<and> 0 < m \<and> m \<le> tc_buf_used c)"

definition recv_ok :: "tcp_client \<Rightarrow> bool" where
  "recv_ok c \<longleftrightarrow> 0 \<le> tc_socks_recv_tcp_pending c \<and> tc_socks_recv_tcp_pending c + th_acked c = int (length (th_written c))
     \<and> (tc_socks_recv_buf_used c = -1 \<and> th_got c = th_written c
        \<or> 0 \<le> tc_socks_recv_buf_sent c \<and> tc_socks_recv_buf_sent c < tc_socks_recv_buf_used c \<and> tc_socks_recv_buf_used c \<le> 8192
          \<and> tc_socks_recv_waiting c \<and> 0 < tc_socks_recv_tcp_pending c
          \<and> th_got c = th_written c
              @ take (nat (tc_socks_recv_buf_used c - tc_socks_recv_buf_sent c)) (drop (nat (tc_socks_recv_buf_sent c)) (tc_socks_recv_buf c)))"

definition recv_part :: "tcp_client \<Rightarrow> bool" where
  "recv_part c \<longleftrightarrow> (tc_socks_closed c \<longrightarrow> tc_socks_up c \<and> (0 \<le> tc_socks_recv_buf_used c \<or> 0 < tc_socks_recv_tcp_pending c))
     \<and> (tc_recv_if c \<longrightarrow> tc_socks_up c \<and> \<not> tc_socks_closed c \<and> tc_socks_recv_buf_used c = -1)
     \<and> (tc_socks_up c \<and> \<not> tc_client_closed c \<longrightarrow>
          recv_ok c \<and> (\<not> tc_socks_closed c \<longrightarrow> (tc_recv_if c \<longleftrightarrow> tc_socks_recv_buf_used c = -1)))
     \<and> (\<not> tc_socks_up c \<longrightarrow> th_got c = [] \<and> th_written c = [] \<and> th_acked c = 0)"

definition tc_ok :: "tcp_client \<Rightarrow> bool" where
  "tc_ok c \<longleftrightarrow> base_part c \<and> send_part c \<and> recv_part c"

text \<open>A handler leaves a client in order or frees it.\<close>

definition client_end :: "tcp_engine \<Rightarrow> nat \<Rightarrow> tcp_engine \<Rightarrow> bool" where
  "client_end s p r \<longleftrightarrow> (\<exists>c. r = put_client s p c \<and> tc_ok c) \<or> r = gone s p"

lemma client_endI: "tc_ok c \<Longrightarrow> client_end s p (put_client s p c)" "client_end s p (gone s p)"
  by (auto simp: client_end_def)

lemma client_end_put [simp]: "client_end (put_client s p c) p r = client_end s p r"
  by (simp add: client_end_def)

text \<open>What is needed of a client whose connection is about to end.\<close>

definition recv_idle :: "tcp_client \<Rightarrow> bool" where
  "recv_idle c \<longleftrightarrow> (tc_recv_if c \<longrightarrow> tc_socks_up c \<and> \<not> tc_socks_closed c \<and> tc_socks_recv_buf_used c = -1)
     \<and> (\<not> tc_socks_up c \<longrightarrow> th_got c = [] \<and> th_written c = [] \<and> th_acked c = 0)"

lemma client_ended_end:
  assumes "base_part c" "send_part c" "recv_idle c" "st \<noteq> PcbOpen"
  shows "client_end s p (client_ended s p c st)"
proof (cases "0 < tc_buf_used c \<and> \<not> tc_socks_closed c")
  case True
  have "base_part (closing c st)" using assms(1,4) True by (simp add: base_part_def closing_def remove_callbacks_def)
  moreover have "send_part (closing c st)" using assms(2) by (simp add: send_part_def closing_def remove_callbacks_def)
  moreover have "recv_part (closing c st)" using assms(3) True by (simp add: recv_part_def recv_idle_def closing_def remove_callbacks_def)
  ultimately have "tc_ok (closing c st)" by (simp add: tc_ok_def)
  then show ?thesis using True by (simp add: client_ended_def client_endI)
qed (auto simp: client_ended_def client_endI)

lemma socks_ended_end:
  assumes "tc_ok c" "\<not> tc_socks_closed c"
  shows "client_end s p (socks_ended s p c)"
proof -
  have "tc_ok (unsocked c)"
    if "tc_socks_up c" "tc_socks_recv_buf_used c \<ge> 0 \<or> tc_socks_recv_tcp_pending c > 0" "\<not> tc_client_closed c"
  proof -
    have "base_part (unsocked c)" using assms that(3) by (simp add: tc_ok_def base_part_def unsocked_def)
    moreover have "send_part (unsocked c)" by (simp add: send_part_def unsocked_def)
    moreover have "recv_ok (unsocked c) = recv_ok c" by (simp add: recv_ok_def unsocked_def)
    then have "recv_ok (unsocked c)" using assms(1) that(1,3) unfolding tc_ok_def recv_part_def by blast
    then have "recv_part (unsocked c)" using that by (simp add: recv_part_def unsocked_def)
    ultimately show ?thesis by (simp add: tc_ok_def)
  qed
  then show ?thesis by (auto simp: socks_ended_def client_endI)
qed

lemma recv_part_idle: "recv_part c \<Longrightarrow> recv_idle c"
  unfolding recv_part_def recv_idle_def by blast

section \<open>Handlers of the SOCKS side\<close>

lemma memmove_front:
  assumes "load b n (u - n) = Some rest" "store b 0 rest = Some b'" "0 < n" "n \<le> u"
  shows "take (nat u) b = take (nat n) b @ take (nat (u - n)) b'" "length b' = length b"
proof -
  have r: "rest = take (nat (u - n)) (drop (nat n) b)" "int (length rest) = u - n"
    using assms(1) length_load [OF assms(1)] by (auto simp: load_def split: if_splits)
  have "b' = rest @ drop (length rest) b" using assms(2) by (auto simp: store_def split: if_splits)
  then have "take (nat (u - n)) b' = rest" using r(2) by simp
  moreover have "nat u = nat n + nat (u - n)" using assms(3,4) by simp
  ultimately show "take (nat u) b = take (nat n) b @ take (nat (u - n)) b'" using r(1) by (simp add: take_add)
  show "length b' = length b" by (rule length_store [OF assms(2)])
qed

text \<open>The client after \<open>n\<close> bytes of its buffer have been taken.\<close>

definition sent_client :: "tcp_client \<Rightarrow> int \<Rightarrow> bytes \<Rightarrow> tcp_client" where
  "sent_client c n b =
     c\<lparr>tc_send_if := (if tc_buf_used c - n > 0 then Some (tc_buf_used c - n) else None), th_sent := th_sent c @ take (nat n) (tc_buf c), tc_buf := b,
       tc_buf_used := tc_buf_used c - n, th_confirmed := (if tc_client_closed c then th_confirmed c else th_confirmed c + n)\<rparr>"

lemma sent_client_ok:
  assumes c: "tc_ok c" "tc_send_if c = Some m" "0 < n" "n \<le> m" and u: "tc_client_closed c \<longrightarrow> n < tc_buf_used c"
    and b: "take (nat (tc_buf_used c)) (tc_buf c) = take (nat n) (tc_buf c) @ take (nat (tc_buf_used c - n)) b" "length b = length (tc_buf c)"
  shows "tc_ok (sent_client c n b)"
proof -
  have s: "tc_socks_up c" "\<not> tc_socks_closed c" "m \<le> tc_buf_used c" and bp: "base_part c" using c by (auto simp: tc_ok_def send_part_def)
  have l: "length (tc_buf c) = 65535" "tc_buf_used c \<le> 65535" using bp by (simp_all add: base_part_def)
  have "int (length (take (nat n) (tc_buf c))) = n" using l s(3) c(3,4) by simp
  then have "base_part (sent_client c n b)" using bp b s c(3,4) u by (simp add: base_part_def sent_client_def)
  moreover have "send_part (sent_client c n b)" using s c(3) by (simp add: send_part_def sent_client_def)
  moreover have "recv_part (sent_client c n b) = recv_part c" by (simp add: recv_part_def recv_ok_def sent_client_def)
  ultimately show ?thesis using c(1) by (simp add: tc_ok_def)
qed

lemma sent_job:
  assumes c: "ts_store s p = Some c" "tc_ok c" "tc_send_if c = Some m" "0 < n" "n \<le> m" "0 < ts_num s"
  shows "\<exists>b. socks_job te s p (JobSent n) = Some (if tc_client_closed c \<and> n = tc_buf_used c then gone s p else put_client s p (sent_client c n b))
    \<and> (tc_client_closed c \<and> n = tc_buf_used c \<or> tc_ok (sent_client c n b))"
proof -
  have s: "tc_socks_up c" "\<not> tc_socks_closed c" "m \<le> tc_buf_used c" and bp: "base_part c" using c by (auto simp: tc_ok_def send_part_def)
  have l: "length (tc_buf c) = 65535" "tc_buf_used c \<le> 65535" "tc_pcb c = PcbOpen \<longleftrightarrow> \<not> tc_client_closed c"
    using bp by (simp_all add: base_part_def)
  let ?d = "take (nat n) (tc_buf c)" and ?rest = "take (nat (tc_buf_used c - n)) (drop (nat n) (tc_buf c))"
  have d: "load (tc_buf c) 0 n = Some ?d" and r: "load (tc_buf c) n (tc_buf_used c - n) = Some ?rest"
    using l s(3) c(4,5) by (simp_all add: load_def in_range_def)
  obtain b where b: "store (tc_buf c) 0 ?rest = Some b" using l s(3) c(4,5) by (simp add: store_def in_range_def)
  have nu: "n \<le> tc_buf_used c" using c(5) s(3) by simp
  note mm = memmove_front [OF r b c(4) nu]
  let ?c = "c\<lparr>tc_send_if := None, th_sent := th_sent c @ ?d\<rparr>"
  have dn: "socks_job te s p (JobSent n) = client_socks_send_handler_done te (put_client s p ?c) p n" using c(1) d by (simp add: socks_job_def)
  show ?thesis
  proof (cases "tc_client_closed c \<and> n = tc_buf_used c")
    case True
    then have "socks_job te s p (JobSent n) = Some (gone s p)"
      using dn r b s c(4,6) nu free_socks [of "put_client s p _" p] by (simp add: client_socks_send_handler_done_def socks_ended_def)
    then show ?thesis using True by simp
  next
    case False
    then have "tc_client_closed c \<longrightarrow> n < tc_buf_used c" using nu by auto
    then have "tc_ok (sent_client c n b)" by (rule sent_client_ok [OF c(2-5) _ mm])
    moreover have "socks_job te s p (JobSent n) = Some (put_client s p (sent_client c n b))"
      using dn r b s c(4) nu l(3) False by (cases "tc_client_closed c") (auto simp: client_socks_send_handler_done_def sent_client_def intro!: put_cong)
    ultimately show ?thesis using False by auto
  qed
qed

text \<open>The client after \<open>n\<close> bytes of the data from SOCKS have been written.\<close>

definition wrote_client :: "tcp_client \<Rightarrow> nat \<Rightarrow> tcp_client" where
  "wrote_client c n = c\<lparr>th_written := th_written c @ take n (drop (nat (tc_socks_recv_buf_sent c)) (tc_socks_recv_buf c)),
     tc_socks_recv_buf_sent := tc_socks_recv_buf_sent c + int n, tc_socks_recv_tcp_pending := tc_socks_recv_tcp_pending c + int n\<rparr>"

lemma wrote_wrote:
  assumes "0 \<le> tc_socks_recv_buf_sent c"
  shows "wrote_client (wrote_client c w) n = wrote_client c (w + n)"
proof -
  have "nat (tc_socks_recv_buf_sent c + int w) = w + nat (tc_socks_recv_buf_sent c)" using assms by simp
  then show ?thesis by (simp add: wrote_client_def take_add add.assoc)
qed

lemma wrote_fields [simp]:
  "tc_socks_recv_buf_sent (wrote_client c n) = tc_socks_recv_buf_sent c + int n" "tc_socks_recv_buf_used (wrote_client c n) = tc_socks_recv_buf_used c"
  "tc_socks_recv_buf (wrote_client c n) = tc_socks_recv_buf c" "tc_socks_recv_tcp_pending (wrote_client c n) = tc_socks_recv_tcp_pending c + int n"
  by (simp_all add: wrote_client_def)

lemma wrote_0 [simp]: "wrote_client c 0 = c"
  by (simp add: wrote_client_def)

lemma write_loop_stops:
  assumes w: "w = min (tc_socks_recv_buf_used c - tc_socks_recv_buf_sent c) (int (te_sndbuf te i))" "0 \<le> w" "\<not> (0 < w \<and> te_write te i = LWIP_OK)"
    and l: "\<exists>d. load (tc_socks_recv_buf c) (tc_socks_recv_buf_sent c) w = Some d"
  shows "\<exists>ok. client_write_loop te i c = Some (c, ok)"
  unfolding client_write_loop.simps [of te i c] Let_def w(1) [symmetric] using w(2,3) l
  by (cases "w = 0") (auto split: option.splits lwip_err.splits)

lemma write_loop_writes:
  assumes w: "int w = min (tc_socks_recv_buf_used c - tc_socks_recv_buf_sent c) (int (te_sndbuf te i))" "0 < w" "te_write te i = LWIP_OK"
    and l: "load (tc_socks_recv_buf c) (tc_socks_recv_buf_sent c) (int w) = Some (take w (drop (nat (tc_socks_recv_buf_sent c)) (tc_socks_recv_buf c)))"
  shows "client_write_loop te i c =
    (if tc_socks_recv_buf_sent c + int w < tc_socks_recv_buf_used c then client_write_loop te (Suc i) (wrote_client c w) else Some (wrote_client c w, True))"
  unfolding client_write_loop.simps [of te i c] Let_def w(1) [symmetric] wrote_client_def using w(2,3) l by simp

lemma write_loop:
  assumes "0 \<le> tc_socks_recv_buf_sent c" "tc_socks_recv_buf_sent c < tc_socks_recv_buf_used c"
    and "tc_socks_recv_buf_used c \<le> int (length (tc_socks_recv_buf c))"
  shows "\<exists>n ok. client_write_loop te i c = Some (wrote_client c n, ok) \<and> tc_socks_recv_buf_sent c + int n \<le> tc_socks_recv_buf_used c"
  using assms
proof (induction "nat (tc_socks_recv_buf_used c - tc_socks_recv_buf_sent c)" arbitrary: i c rule: less_induct)
  case (less c i)
  obtain w where w: "int w = min (tc_socks_recv_buf_used c - tc_socks_recv_buf_sent c) (int (te_sndbuf te i))"
    using less.prems(2) by (intro that [of "nat (min (tc_socks_recv_buf_used c - tc_socks_recv_buf_sent c) (int (te_sndbuf te i)))"]) simp
  then have wl: "tc_socks_recv_buf_sent c + int w \<le> tc_socks_recv_buf_used c" by linarith
  then have l: "load (tc_socks_recv_buf c) (tc_socks_recv_buf_sent c) (int w) = Some (take w (drop (nat (tc_socks_recv_buf_sent c)) (tc_socks_recv_buf c)))"
    using less.prems by (simp add: load_def in_range_def)
  show ?case
  proof (cases "0 < w \<and> te_write te i = LWIP_OK")
    case False
    then have "\<exists>ok. client_write_loop te i c = Some (c, ok)" using write_loop_stops [OF w] l by simp
    then show ?thesis using less.prems(2) by (intro exI [of _ 0]) auto
  next
    case True
    note e = write_loop_writes [OF w True [THEN conjunct1] True [THEN conjunct2] l]
    show ?thesis
    proof (cases "tc_socks_recv_buf_sent c + int w < tc_socks_recv_buf_used c")
      case False
      then show ?thesis using e wl by (intro exI [of _ w] exI [of _ True]) simp
    next
      case more: True
      have "nat (tc_socks_recv_buf_used (wrote_client c w) - tc_socks_recv_buf_sent (wrote_client c w)) < nat (tc_socks_recv_buf_used c - tc_socks_recv_buf_sent c)"
        using True more less.prems by simp
      from less.hyps [OF this, of "Suc i"] more less.prems obtain n ok where
        "client_write_loop te (Suc i) (wrote_client c w) = Some (wrote_client (wrote_client c w) n, ok)"
        "tc_socks_recv_buf_sent c + int w + int n \<le> tc_socks_recv_buf_used c" by auto
      then show ?thesis using e more wrote_wrote [OF less.prems(1)] by (intro exI [of _ "w + n"] exI [of _ ok]) simp
    qed
  qed
qed

lemma send_out:
  assumes c: "ts_store s p = Some c" "\<not> tc_client_closed c" "tc_socks_up c" "\<not> tc_socks_recv_waiting c" "tc_pcb c = PcbOpen" "0 < ts_num s"
    and l: "0 \<le> tc_socks_recv_buf_sent c" "tc_socks_recv_buf_sent c < tc_socks_recv_buf_used c" "tc_socks_recv_buf_used c \<le> int (length (tc_socks_recv_buf c))"
    and pe: "0 \<le> tc_socks_recv_tcp_pending c"
  shows "\<exists>n. tc_socks_recv_buf_sent c + int n \<le> tc_socks_recv_buf_used c
    \<and> (client_socks_recv_send_out te s p = Some (client_ended s p (wrote_client c n) PcbAborted, -1)
       \<or> tc_socks_recv_buf_sent c + int n < tc_socks_recv_buf_used c \<and> tc_socks_recv_tcp_pending c + int n > 0
         \<and> client_socks_recv_send_out te s p = Some (put_client s p ((wrote_client c n)\<lparr>tc_socks_recv_waiting := True\<rparr>), 0)
       \<or> tc_socks_recv_buf_sent c + int n = tc_socks_recv_buf_used c
         \<and> client_socks_recv_send_out te s p = Some (put_client s p ((wrote_client c n)\<lparr>tc_socks_recv_buf_used := -1\<rparr>), 0))"
proof -
  obtain n ok where n: "client_write_loop te 0 c = Some (wrote_client c n, ok)" "tc_socks_recv_buf_sent c + int n \<le> tc_socks_recv_buf_used c"
    using write_loop [OF l] by blast
  let ?c = "wrote_client c n"
  have w: "\<not> tc_client_closed ?c" "tc_pcb ?c = PcbOpen" "tc_socks_recv_buf_sent ?c = tc_socks_recv_buf_sent c + int n"
    "tc_socks_recv_buf_used ?c = tc_socks_recv_buf_used c" "tc_socks_recv_tcp_pending ?c = tc_socks_recv_tcp_pending c + int n"
    using c by (simp_all add: wrote_client_def)
  have "client_abort_client te (put_client s p ?c) p = Some (client_ended (put_client s p ?c) p ?c PcbAborted)"
    by (rule abort_client) (use w c(6) in simp_all)
  then have a: "client_abort_client te (put_client s p ?c) p = Some (client_ended s p ?c PcbAborted)" by (simp add: client_ended_def)
  have e: "client_socks_recv_send_out te s p =
     (if \<not> ok \<or> te_output te \<noteq> LWIP_OK then Some (client_ended s p ?c PcbAborted, -1)
      else if tc_socks_recv_buf_sent c + int n < tc_socks_recv_buf_used c then
        if tc_socks_recv_tcp_pending c + int n = 0 then Some (client_ended s p ?c PcbAborted, -1)
        else Some (put_client s p (?c\<lparr>tc_socks_recv_waiting := True\<rparr>), 0)
      else Some (put_client s p (?c\<lparr>tc_socks_recv_buf_used := -1\<rparr>), 0))"
    using c l n(1) a w by (simp add: client_socks_recv_send_out_def)
  show ?thesis using n(2) pe by (intro exI [of _ n]) (auto simp: e)
qed

text \<open>A client with data from SOCKS that is about to be written.\<close>

definition recv_mid :: "tcp_client \<Rightarrow> bool" where
  "recv_mid c \<longleftrightarrow> base_part c \<and> send_part c \<and> tc_socks_up c \<and> \<not> tc_client_closed c \<and> \<not> tc_recv_if c \<and> \<not> tc_socks_recv_waiting c
     \<and> 0 \<le> tc_socks_recv_buf_sent c \<and> tc_socks_recv_buf_sent c < tc_socks_recv_buf_used c \<and> tc_socks_recv_buf_used c \<le> 8192
     \<and> 0 \<le> tc_socks_recv_tcp_pending c \<and> tc_socks_recv_tcp_pending c + th_acked c = int (length (th_written c))
     \<and> th_got c = th_written c
         @ take (nat (tc_socks_recv_buf_used c - tc_socks_recv_buf_sent c)) (drop (nat (tc_socks_recv_buf_sent c)) (tc_socks_recv_buf c))"

lemma wrote_parts:
  "base_part (wrote_client c n) = base_part c" "send_part (wrote_client c n) = send_part c"
  "base_part ((wrote_client c n)\<lparr>tc_socks_recv_waiting := b\<rparr>) = base_part c" "send_part ((wrote_client c n)\<lparr>tc_socks_recv_waiting := b\<rparr>) = send_part c"
  "base_part ((wrote_client c n)\<lparr>tc_socks_recv_buf_used := u, tc_recv_if := r\<rparr>) = base_part c"
  "send_part ((wrote_client c n)\<lparr>tc_socks_recv_buf_used := u, tc_recv_if := r\<rparr>) = send_part c"
  by (simp_all add: base_part_def send_part_def wrote_client_def)

lemma mid_rest:
  assumes "recv_mid c" "tc_socks_recv_buf_sent c + int n \<le> tc_socks_recv_buf_used c"
  shows "th_got c = th_written (wrote_client c n) @ take (nat (tc_socks_recv_buf_used c - (tc_socks_recv_buf_sent c + int n)))
      (drop (nat (tc_socks_recv_buf_sent c + int n)) (tc_socks_recv_buf c))"
    and "int (length (th_written (wrote_client c n))) = int (length (th_written c)) + int n"
proof -
  let ?u = "tc_socks_recv_buf_used c" and ?t = "tc_socks_recv_buf_sent c"
  have m: "0 \<le> ?t" "?t < ?u" "?u \<le> 8192" "length (tc_socks_recv_buf c) = 8192"
    and g: "th_got c = th_written c @ take (nat (?u - ?t)) (drop (nat ?t) (tc_socks_recv_buf c))"
    using assms(1) by (simp_all add: recv_mid_def base_part_def)
  have "nat (?u - ?t) = n + nat (?u - (?t + int n))" "nat (?t + int n) = n + nat ?t" using assms(2) m by simp_all
  then show "th_got c = th_written (wrote_client c n) @ take (nat (?u - (?t + int n))) (drop (nat (?t + int n)) (tc_socks_recv_buf c))"
    using g by (simp add: wrote_client_def take_add)
  show "int (length (th_written (wrote_client c n))) = int (length (th_written c)) + int n"
    using m assms(2) by (simp add: wrote_client_def)
qed

lemma wrote_waiting_ok:
  assumes m: "recv_mid c" and n: "tc_socks_recv_buf_sent c + int n < tc_socks_recv_buf_used c" "tc_socks_recv_tcp_pending c + int n > 0"
  shows "tc_ok ((wrote_client c n)\<lparr>tc_socks_recv_waiting := True\<rparr>)"
proof -
  let ?c = "(wrote_client c n)\<lparr>tc_socks_recv_waiting := True\<rparr>"
  note r = mid_rest [OF m less_imp_le [OF n(1)]]
  have f: "th_written ?c = th_written (wrote_client c n)" "th_got ?c = th_got c" "tc_socks_recv_buf_used ?c = tc_socks_recv_buf_used c"
    "tc_socks_recv_buf_sent ?c = tc_socks_recv_buf_sent c + int n" "tc_socks_recv_tcp_pending ?c = tc_socks_recv_tcp_pending c + int n"
    "th_acked ?c = th_acked c" "tc_socks_recv_waiting ?c" "tc_socks_recv_buf ?c = tc_socks_recv_buf c"
    "tc_recv_if ?c = tc_recv_if c" "tc_socks_up ?c = tc_socks_up c" "tc_socks_closed ?c = tc_socks_closed c"
    by (simp_all add: wrote_client_def)
  have b: "base_part c" "send_part c" "tc_socks_up c" "\<not> tc_recv_if c" "0 \<le> tc_socks_recv_buf_sent c" "tc_socks_recv_buf_used c \<le> 8192"
    "0 \<le> tc_socks_recv_tcp_pending c" "tc_socks_recv_tcp_pending c + th_acked c = int (length (th_written c))"
    "tc_socks_recv_buf_sent c < tc_socks_recv_buf_used c"
    using m by (simp_all add: recv_mid_def)
  have "recv_ok ?c" unfolding recv_ok_def f using r b n by auto
  then have "recv_part ?c" unfolding recv_part_def f using b n by auto
  then show ?thesis using b(1,2) by (simp add: tc_ok_def wrote_parts)
qed

lemma wrote_all_ok:
  assumes m: "recv_mid c" and n: "tc_socks_recv_buf_sent c + int n = tc_socks_recv_buf_used c"
  shows "tc_ok ((wrote_client c n)\<lparr>tc_socks_recv_buf_used := -1, tc_recv_if := \<not> tc_socks_closed c\<rparr>)"
proof -
  let ?c = "(wrote_client c n)\<lparr>tc_socks_recv_buf_used := -1, tc_recv_if := \<not> tc_socks_closed c\<rparr>"
  note r = mid_rest [OF m eq_refl [OF n]]
  have f: "th_written ?c = th_written (wrote_client c n)" "th_got ?c = th_got c" "tc_socks_recv_buf_used ?c = -1"
    "tc_socks_recv_tcp_pending ?c = tc_socks_recv_tcp_pending c + int n" "th_acked ?c = th_acked c"
    "tc_recv_if ?c \<longleftrightarrow> \<not> tc_socks_closed c" "tc_socks_up ?c = tc_socks_up c" "tc_socks_closed ?c = tc_socks_closed c"
    by (simp_all add: wrote_client_def)
  have b: "base_part c" "send_part c" "tc_socks_up c"
    "0 \<le> tc_socks_recv_tcp_pending c" "tc_socks_recv_tcp_pending c + th_acked c = int (length (th_written c))"
    "tc_socks_recv_buf_sent c < tc_socks_recv_buf_used c"
    using m by (simp_all add: recv_mid_def)
  have "recv_ok ?c" unfolding recv_ok_def f using r b n by simp
  then have "recv_part ?c" unfolding recv_part_def f using b n by simp
  then show ?thesis using b(1,2) by (simp add: tc_ok_def wrote_parts)
qed

text \<open>The end of writing: the connection is gone, or the client waits, or everything is written and more can be received.\<close>

definition wrote_out :: "tcp_engine \<Rightarrow> nat \<Rightarrow> tcp_client \<Rightarrow> (tcp_engine \<times> int) \<Rightarrow> bool" where
  "wrote_out s p c r \<longleftrightarrow>
     (\<exists>r'. r = (r', -1) \<and> client_end s p r' \<and> dead_client r' p)
     \<or> (\<exists>c'. r = (put_client s p c', 0) \<and> tc_ok c' \<and> \<not> tc_client_closed c' \<and> 0 < tc_socks_recv_tcp_pending c' \<and> 0 < tc_socks_recv_buf_used c')
     \<or> (\<exists>c'. r = (put_client s p c', 0) \<and> tc_ok (c'\<lparr>tc_recv_if := \<not> tc_socks_closed c\<rparr>) \<and> \<not> tc_client_closed c' \<and> 0 < tc_socks_recv_tcp_pending c'
          \<and> tc_socks_recv_buf_used c' = -1 \<and> \<not> tc_recv_if c' \<and> tc_socks_up c' \<and> tc_socks_closed c' = tc_socks_closed c)"

lemma dead_ended: "dead_client (client_ended s p c st) p"
  by (simp add: dead_client_def client_ended_def closing_def)

lemma send_out_mid:
  assumes c: "ts_store s p = Some c" "recv_mid c" "0 < ts_num s"
  shows "\<exists>r. client_socks_recv_send_out te s p = Some r \<and> wrote_out s p c r"
proof -
  have b: "base_part c" "send_part c" "tc_socks_up c" "\<not> tc_client_closed c" "\<not> tc_recv_if c" "\<not> tc_socks_recv_waiting c"
    "0 \<le> tc_socks_recv_buf_sent c" "tc_socks_recv_buf_sent c < tc_socks_recv_buf_used c" "0 \<le> tc_socks_recv_tcp_pending c"
    using c(2) by (simp_all add: recv_mid_def)
  have o': "tc_pcb c = PcbOpen" "tc_socks_recv_buf_used c \<le> int (length (tc_socks_recv_buf c))"
    using b(1,4) c(2) by (simp_all add: base_part_def recv_mid_def)
  obtain n where n: "tc_socks_recv_buf_sent c + int n \<le> tc_socks_recv_buf_used c"
    and cs: "client_socks_recv_send_out te s p = Some (client_ended s p (wrote_client c n) PcbAborted, -1)
       \<or> tc_socks_recv_buf_sent c + int n < tc_socks_recv_buf_used c \<and> tc_socks_recv_tcp_pending c + int n > 0
         \<and> client_socks_recv_send_out te s p = Some (put_client s p ((wrote_client c n)\<lparr>tc_socks_recv_waiting := True\<rparr>), 0)
       \<or> tc_socks_recv_buf_sent c + int n = tc_socks_recv_buf_used c
         \<and> client_socks_recv_send_out te s p = Some (put_client s p ((wrote_client c n)\<lparr>tc_socks_recv_buf_used := -1\<rparr>), 0)"
    using send_out [OF c(1) b(4,3,6) o'(1) c(3) b(7,8) o'(2) b(9)] by blast
  from cs show ?thesis
  proof (elim disjE conjE)
    assume r: "client_socks_recv_send_out te s p = Some (client_ended s p (wrote_client c n) PcbAborted, -1)"
    have "recv_idle (wrote_client c n)" using b(3,5) by (simp add: recv_idle_def wrote_client_def)
    then have "client_end s p (client_ended s p (wrote_client c n) PcbAborted)" using b(1,2) by (intro client_ended_end) (simp_all add: wrote_parts)
    then show ?thesis using r dead_ended unfolding wrote_out_def by blast
  next
    assume w: "tc_socks_recv_buf_sent c + int n < tc_socks_recv_buf_used c" "tc_socks_recv_tcp_pending c + int n > 0"
      and r: "client_socks_recv_send_out te s p = Some (put_client s p ((wrote_client c n)\<lparr>tc_socks_recv_waiting := True\<rparr>), 0)"
    have "wrote_out s p c (put_client s p ((wrote_client c n)\<lparr>tc_socks_recv_waiting := True\<rparr>), 0)" unfolding wrote_out_def
      by (rule disjI2, rule disjI1, rule exI, rule conjI [OF refl]) (use wrote_waiting_ok [OF c(2) w] w b(4,7) in \<open>simp add: wrote_client_def\<close>)
    then show ?thesis using r by blast
  next
    assume w: "tc_socks_recv_buf_sent c + int n = tc_socks_recv_buf_used c"
      and r: "client_socks_recv_send_out te s p = Some (put_client s p ((wrote_client c n)\<lparr>tc_socks_recv_buf_used := -1\<rparr>), 0)"
    have pe: "0 < tc_socks_recv_tcp_pending c + int n" using w b(8,9) by linarith
    have "wrote_out s p c (put_client s p ((wrote_client c n)\<lparr>tc_socks_recv_buf_used := -1\<rparr>), 0)" unfolding wrote_out_def
      by (rule disjI2, rule disjI2, rule exI, rule conjI [OF refl]) (use wrote_all_ok [OF c(2) w] pe b(3,4,5) in \<open>simp add: wrote_client_def\<close>)
    then show ?thesis using r by blast
  qed
qed

lemma recv_initiate:
  assumes "\<not> tc_client_closed c" "\<not> tc_socks_closed c" "tc_socks_up c" "tc_socks_recv_buf_used c = -1" "\<not> tc_recv_if c"
  shows "client_socks_recv_initiate (put_client s p c) p = Some (put_client s p (c\<lparr>tc_recv_if := True\<rparr>))"
  using assms by (simp add: client_socks_recv_initiate_def)

lemma received_mid:
  assumes c: "tc_ok c" "tc_recv_if c" "\<not> tc_client_closed c" and d: "d \<noteq> []" "int (length d) \<le> 8192" "store (tc_socks_recv_buf c) 0 d = Some buf"
  shows "recv_mid (c\<lparr>tc_recv_if := False, tc_socks_recv_buf := buf, th_got := th_got c @ d, tc_socks_recv_buf_used := int (length d),
      tc_socks_recv_buf_sent := 0, tc_socks_recv_waiting := False\<rparr>)"
proof -
  have u: "tc_socks_up c" "tc_socks_recv_buf_used c = -1" "recv_ok c" "base_part c" "send_part c"
    using c unfolding tc_ok_def recv_part_def by blast+
  have r: "0 \<le> tc_socks_recv_tcp_pending c" "tc_socks_recv_tcp_pending c + th_acked c = int (length (th_written c))" "th_got c = th_written c"
    using u(2,3) by (auto simp: recv_ok_def)
  have "take (length d) buf = d" using d(3) by (auto simp: store_def split: if_splits)
  moreover have "length buf = 8192" using length_store [OF d(3)] u(4) by (simp add: base_part_def)
  ultimately show ?thesis using u r c(3) d(1,2) by (simp add: recv_mid_def base_part_def send_part_def)
qed

lemma received_job:
  assumes c: "ts_store s p = Some c" "tc_ok c" "tc_recv_if c" "0 < ts_num s" and d: "d \<noteq> []" "int (length d) \<le> 8192"
  shows "\<exists>r. socks_job te s p (JobReceived d) = Some r \<and> client_end s p r"
proof -
  have u: "tc_socks_up c" "\<not> tc_socks_closed c" "tc_socks_recv_buf_used c = -1" "base_part c" "send_part c"
    using c(2,3) unfolding tc_ok_def recv_part_def by blast+
  obtain buf where b: "store (tc_socks_recv_buf c) 0 d = Some buf" using u(4) d(2) by (simp add: store_def in_range_def base_part_def)
  let ?c = "c\<lparr>tc_recv_if := False, tc_socks_recv_buf := buf, th_got := th_got c @ d\<rparr>"
  have j: "socks_job te s p (JobReceived d) = client_socks_recv_handler_done te (put_client s p ?c) p (int (length d))"
    using c(1) b by (simp add: socks_job_def)
  show ?thesis
  proof (cases "tc_client_closed c")
    case True
    then have "socks_job te s p (JobReceived d) = Some (put_client s p ?c)"
      unfolding j using u d by (simp add: client_socks_recv_handler_done_def)
    moreover have "tc_ok ?c" using True u length_store [OF b] by (simp add: tc_ok_def base_part_def send_part_def recv_part_def)
    ultimately show ?thesis by (auto intro: client_endI)
  next
    case False
    let ?m = "?c\<lparr>tc_socks_recv_buf_used := int (length d), tc_socks_recv_buf_sent := 0, tc_socks_recv_waiting := False\<rparr>"
    obtain r where r: "client_socks_recv_send_out te (put_client s p ?m) p = Some r" "wrote_out (put_client s p ?m) p ?m r"
      using send_out_mid [of "put_client s p ?m" p ?m te] received_mid [OF c(2,3) False d b] c(4) by auto
    have e: "socks_job te s p (JobReceived d) = (case r of (s1, rv) \<Rightarrow> if rv < 0 then Some s1
        else ts_store s1 p \<bind> (\<lambda>c1. if tc_socks_recv_buf_used c1 = -1 then client_socks_recv_initiate s1 p else Some s1))"
      unfolding j using u d False r(1) by (simp add: client_socks_recv_handler_done_def)
    from r(2) show ?thesis unfolding wrote_out_def
    proof (elim disjE exE conjE)
      fix r' assume "r = (r', -1)" "client_end (put_client s p ?m) p r'"
      then show ?thesis using e by simp
    next
      fix c' assume "r = (put_client (put_client s p ?m) p c', 0)" "tc_ok c'" "0 < tc_socks_recv_buf_used c'"
      then show ?thesis using e by (auto intro: client_endI)
    next
      fix c' assume c': "r = (put_client (put_client s p ?m) p c', 0)" "tc_ok (c'\<lparr>tc_recv_if := \<not> tc_socks_closed ?m\<rparr>)" "\<not> tc_client_closed c'"
        "tc_socks_recv_buf_used c' = -1" "\<not> tc_recv_if c'" "tc_socks_up c'" "tc_socks_closed c' = tc_socks_closed ?m"
      then have "socks_job te s p (JobReceived d) = Some (put_client s p (c'\<lparr>tc_recv_if := True\<rparr>))"
        using e u(2) recv_initiate [of c' s p] by simp
      then show ?thesis using c'(2) u(2) by (auto intro: client_endI)
    qed
  qed
qed

text \<open>The SOCKS connection is up.\<close>

definition up_client :: "tcp_client \<Rightarrow> tcp_client" where
  "up_client c = c\<lparr>tc_send_if := (if tc_buf_used c > 0 then Some (tc_buf_used c) else None), tc_recv_if := \<not> tc_client_closed c,
     tc_socks_recv_buf_used := -1, tc_socks_recv_tcp_pending := 0, tc_sent_cb := (if tc_client_closed c then tc_sent_cb c else True), tc_socks_up := True\<rparr>"

lemma up_client_ok:
  assumes "tc_ok c" "\<not> tc_socks_up c" "\<not> tc_socks_closed c"
  shows "tc_ok (up_client c)"
proof -
  have "base_part (up_client c)" using assms by (simp add: tc_ok_def base_part_def up_client_def)
  moreover have "send_part (up_client c)" using assms by (simp add: send_part_def up_client_def)
  moreover have "recv_part (up_client c)" using assms by (simp add: tc_ok_def recv_part_def recv_ok_def up_client_def)
  ultimately show ?thesis by (simp add: tc_ok_def)
qed

lemma up_job:
  assumes c: "ts_store s p = Some c" "tc_ok c" "\<not> tc_socks_up c" "\<not> tc_socks_closed c"
  shows "client_socks_handler te s p BSOCKSCLIENT_EVENT_UP = Some (put_client s p (up_client c))"
proof -
  have o': "tc_client_closed c \<or> tc_pcb c = PcbOpen" using c(2) by (auto simp: tc_ok_def base_part_def)
  show ?thesis
    using c o' by (cases "tc_client_closed c"; cases "0 < tc_buf_used c")
      (auto simp: client_socks_handler_def client_send_to_socks_def client_socks_recv_initiate_def up_client_def intro!: put_cong)
qed

lemma socks_job_end:
  assumes c: "ts_store s p = Some c" "tc_ok c" "0 < ts_num s" and j: "socks_can s p j"
  shows "\<exists>r. socks_job te s p j = Some r \<and> client_end s p r"
proof (cases j)
  case (JobSent n)
  then obtain m where "tc_send_if c = Some m" "0 < n" "n \<le> m" using j c(1) by (auto simp: socks_can_def split: option.splits)
  then show ?thesis using sent_job [OF c(1,2) _ _ _ c(3)] JobSent by (fastforce intro: client_endI)
next
  case (JobReceived d)
  then show ?thesis using received_job [OF c(1,2) _ c(3)] j c(1) by (simp add: socks_can_def)
next
  case (JobEvent e)
  then have n: "\<not> tc_socks_closed c" and o': "tc_client_closed c \<or> tc_pcb c = PcbOpen"
    using j c(1,2) by (auto simp: socks_can_def tc_ok_def base_part_def)
  have f: "\<exists>r. client_free_socks te s p = Some r \<and> client_end s p r" using free_socks [OF c(1) n o' c(3)] socks_ended_end [OF c(2) n] by blast
  show ?thesis
  proof (cases e)
    case BSOCKSCLIENT_EVENT_UP
    then have "\<not> tc_socks_up c" using j c(1) JobEvent by (simp add: socks_can_def)
    then show ?thesis using up_job [OF c(1,2) _ n] up_client_ok [OF c(2) _ n] BSOCKSCLIENT_EVENT_UP JobEvent c(1)
      by (auto simp: socks_job_def intro: client_endI)
  qed (use f j c(1) n JobEvent in \<open>auto simp: socks_job_def client_socks_handler_def socks_can_def\<close>)
qed

section \<open>Callbacks of the stack\<close>

lemma client_end_trans:
  assumes "client_end s p s1" "ts_store s1 p = Some c1" "client_end s1 p r"
  shows "client_end s p r"
  using assms by (auto simp: client_end_def)

lemma client_end_cases:
  assumes "client_end s p r"
  obtains c where "ts_store r p = Some c" "tc_ok c" "r = put_client s p c" | "ts_store r p = None" "r = gone s p"
  using assms by (auto simp: client_end_def)

lemma run_jobs_end:
  assumes "client_end s p s1" "0 < ts_num s"
  shows "\<exists>r. run_jobs s1 p js = Some r \<and> client_end s p r"
  using assms(1)
proof (induction js arbitrary: s1)
  case (Cons x js)
  obtain te j where x: "x = (te, j)" by (cases x)
  show ?case
  proof (cases "socks_can s1 p j")
    case True
    then obtain c where c: "ts_store s1 p = Some c" by (auto simp: socks_can_def split: option.splits)
    then have o': "tc_ok c" "s1 = put_client s p c" using Cons.prems by (auto simp: client_end_def)
    obtain r where r: "socks_job te s1 p j = Some r" "client_end s1 p r" using socks_job_end [OF c o'(1) _ True] o'(2) assms(2) by auto
    then have "client_end s p r" using client_end_trans [OF Cons.prems c] by blast
    then show ?thesis using Cons.IH [of r] r(1) True x by simp
  qed (use Cons x in simp)
qed simp

lemma send_to_socks:
  assumes "\<not> tc_socks_closed c" "tc_socks_up c" "0 < tc_buf_used c" "tc_send_if c = None"
  shows "client_send_to_socks (put_client s p c) p = Some (put_client s p (c\<lparr>tc_send_if := Some (tc_buf_used c)\<rparr>))"
  using assms by (simp add: client_send_to_socks_def)

text \<open>Data from the stack in the buffer.\<close>

definition fed_client :: "tcp_client \<Rightarrow> bytes \<Rightarrow> bytes \<Rightarrow> tcp_client" where
  "fed_client c d buf = c\<lparr>tc_buf := buf, tc_buf_used := tc_buf_used c + int (length d), th_in := th_in c @ d\<rparr>"

lemma fed_base:
  assumes "base_part c" "int (length d) \<le> TCP_WND - tc_buf_used c" "store (tc_buf c) (tc_buf_used c) d = Some buf"
  shows "base_part (fed_client c d buf)"
proof -
  have u: "0 \<le> tc_buf_used c" and i: "th_in c = th_sent c @ take (nat (tc_buf_used c)) (tc_buf c)" using assms(1) by (simp_all add: base_part_def)
  have e: "buf = take (nat (tc_buf_used c)) (tc_buf c) @ d @ drop (nat (tc_buf_used c) + length d) (tc_buf c)"
    and l: "nat (tc_buf_used c) \<le> length (tc_buf c)" using assms(3) by (auto simp: store_def in_range_def split: if_splits)
  have "nat (tc_buf_used c + int (length d)) = nat (tc_buf_used c) + length d" using u by simp
  then have "th_in (fed_client c d buf) = th_sent c @ take (nat (tc_buf_used c + int (length d))) buf" using i e l by (simp add: fed_client_def)
  moreover have "tc_client_closed c \<longrightarrow> 0 < tc_buf_used c" using assms(1) by (simp add: base_part_def)
  then have "tc_client_closed c \<longrightarrow> 0 < tc_buf_used c + int (length d)" by auto
  ultimately show ?thesis using assms(1,2) length_store [OF assms(3)] by (simp add: base_part_def fed_client_def)
qed

lemma fed_ok:
  assumes c: "tc_ok c" "int (length d) \<le> TCP_WND - tc_buf_used c" "store (tc_buf c) (tc_buf_used c) d = Some buf" "d \<noteq> []" "\<not> tc_socks_closed c"
  shows "if tc_buf_used c = 0 \<and> tc_socks_up c then tc_send_if c = None \<and> tc_ok ((fed_client c d buf)\<lparr>tc_send_if := Some (int (length d))\<rparr>)
    else tc_ok (fed_client c d buf)"
proof -
  have p: "base_part c" "send_part c" "recv_part c" "0 \<le> tc_buf_used c" using c(1) by (simp_all add: tc_ok_def base_part_def)
  have b: "base_part (fed_client c d buf)" by (rule fed_base [OF p(1) c(2,3)])
  have "recv_part (fed_client c d buf) = recv_part c" by (simp add: recv_part_def recv_ok_def fed_client_def)
  then have r: "recv_part (fed_client c d buf)" using p(3) by simp
  show ?thesis
  proof (cases "tc_buf_used c = 0 \<and> tc_socks_up c")
    case True
    have n: "tc_send_if c = None" using p(2) True by (cases "tc_send_if c") (auto simp: send_part_def)
    let ?c = "(fed_client c d buf)\<lparr>tc_send_if := Some (int (length d))\<rparr>"
    have "base_part ?c = base_part (fed_client c d buf)" by (simp add: base_part_def)
    moreover have "recv_part ?c = recv_part (fed_client c d buf)" by (simp add: recv_part_def recv_ok_def)
    moreover have "send_part ?c" using True c(4,5) by (simp add: send_part_def fed_client_def)
    ultimately show ?thesis using n True b r by (simp add: tc_ok_def)
  next
    case False
    have "send_part (fed_client c d buf)" using p(2,4) False c(4) by (auto simp: send_part_def fed_client_def)
    then show ?thesis using False b r by (auto simp: tc_ok_def)
  qed
qed

lemma recv_func_end:
  assumes c: "ts_store s p = Some c" "tc_ok c" "tc_recv_cb c" "0 < ts_num s" and d: "data \<noteq> Some []"
  shows "\<exists>r err f. client_recv_func te s p data jobs = Some (r, err, f) \<and> client_end s p r \<and> (err = LWIP_ABRT \<longleftrightarrow> dead_client r p)
    \<and> (err = LWIP_MEM \<longleftrightarrow> (\<exists>d. data = Some d \<and> int (length d) > TCP_WND - tc_buf_used c)) \<and> (err = LWIP_MEM \<longrightarrow> r = s)"
proof -
  have b: "\<not> tc_client_closed c" "\<not> tc_socks_closed c" "tc_pcb c = PcbOpen" "base_part c" "0 \<le> tc_buf_used c" "length (tc_buf c) = 65535"
    using c(2,3) by (simp_all add: tc_ok_def base_part_def)
  have s: "client_end s p s" "\<not> dead_client s p"
    using c(1,2) b(1) by (auto simp: client_end_def dead_client_def put_client_def intro!: exI [of _ c] simp: fun_upd_idem)
  show ?thesis
  proof (cases data)
    case None
    have "client_end s p (client_ended s p c (close_state te))"
      using c(2) by (intro client_ended_end) (auto simp: tc_ok_def close_state_def intro: recv_part_idle)
    moreover have "client_recv_func te s p data jobs = Some (client_ended s p c (close_state te), LWIP_ABRT, False)"
      using None free_client [OF c(1) b(1,3) c(4), of te] c(1) b(1) by (simp add: client_recv_func_def)
    ultimately show ?thesis using None dead_ended by auto
  next
    case (Some d)
    show ?thesis
    proof (cases "int (length d) > TCP_WND - tc_buf_used c")
      case True
      then have "client_recv_func te s p data jobs = Some (s, LWIP_MEM, False)"
        using Some assms(5) c(1) b(1) by (simp add: client_recv_func_def)
      then show ?thesis using Some True s by auto
    next
      case False
      obtain buf where st: "store (tc_buf c) (tc_buf_used c) d = Some buf" using False b(5,6) by (simp add: store_def in_range_def)
      have f: "if tc_buf_used c = 0 \<and> tc_socks_up c then tc_send_if c = None \<and> tc_ok ((fed_client c d buf)\<lparr>tc_send_if := Some (int (length d))\<rparr>)
          else tc_ok (fed_client c d buf)" using False Some assms(5) b(2) by (intro fed_ok [OF c(2) _ st]) auto
      show ?thesis
      proof (cases "tc_buf_used c = 0 \<and> tc_socks_up c")
        case True
        let ?c = "(fed_client c d buf)\<lparr>tc_send_if := Some (int (length d))\<rparr>"
        have "client_end s p (put_client s p ?c)" using f True by (auto intro: client_endI)
        from run_jobs_end [OF this c(4), of jobs] obtain r where r: "run_jobs (put_client s p ?c) p jobs = Some r" "client_end s p r" by blast
        have "client_send_to_socks (put_client s p (fed_client c d buf)) p = Some (put_client s p ?c)"
          using send_to_socks [of "fed_client c d buf"] b(2) True f Some assms(5) by (simp add: fed_client_def)
        then have "client_recv_func te s p data jobs = Some (if dead_client r p then (r, LWIP_ABRT, False) else (r, LWIP_OK, True))"
          using Some assms(5) c(1) b(1,2) False st True r(1) by (simp add: client_recv_func_def fed_client_def)
        then show ?thesis using r(2) Some False by (cases "dead_client r p") auto
      next
        case no: False
        then have "client_recv_func te s p data jobs = Some (put_client s p (fed_client c d buf), LWIP_OK, True)"
          using Some assms(5) c(1) b(1,5) False st by (auto simp: client_recv_func_def fed_client_def)
        then show ?thesis using f no Some False b(1) by (auto simp: dead_client_def fed_client_def intro: client_endI)
      qed
    qed
  qed
qed

text \<open>Acknowledged data.\<close>

definition acked_client :: "tcp_client \<Rightarrow> int \<Rightarrow> tcp_client" where
  "acked_client c len = c\<lparr>tc_socks_recv_tcp_pending := tc_socks_recv_tcp_pending c - len, th_acked := th_acked c + len\<rparr>"

lemma acked_parts: "base_part (acked_client c len) = base_part c" "send_part (acked_client c len) = send_part c"
  by (simp_all add: base_part_def send_part_def acked_client_def)

lemma acked_idle_ok:
  assumes c: "tc_ok c" "tc_socks_up c" "\<not> tc_client_closed c" "tc_socks_recv_buf_used c = -1" "len \<le> tc_socks_recv_tcp_pending c"
    and n: "tc_socks_closed c \<longrightarrow> len < tc_socks_recv_tcp_pending c"
  shows "tc_ok (acked_client c len)"
proof -
  have r: "recv_ok c" "\<not> tc_socks_closed c \<longrightarrow> tc_recv_if c" "tc_recv_if c \<longrightarrow> \<not> tc_socks_closed c"
    using c unfolding tc_ok_def recv_part_def by blast+
  then have "recv_ok (acked_client c len)" using c(4,5) by (auto simp: recv_ok_def acked_client_def)
  moreover have "tc_recv_if (acked_client c len) = tc_recv_if c" "tc_socks_closed (acked_client c len) = tc_socks_closed c"
    "tc_socks_up (acked_client c len) = tc_socks_up c" "tc_socks_recv_buf_used (acked_client c len) = tc_socks_recv_buf_used c"
    "tc_socks_recv_tcp_pending (acked_client c len) = tc_socks_recv_tcp_pending c - len" by (simp_all add: acked_client_def)
  ultimately have "recv_part (acked_client c len)" unfolding recv_part_def using r c(2,4) n by auto
  then show ?thesis using c(1) by (simp add: tc_ok_def acked_parts)
qed

lemma acked_mid:
  assumes c: "tc_ok c" "tc_socks_up c" "\<not> tc_client_closed c" "0 < tc_socks_recv_buf_used c" "len \<le> tc_socks_recv_tcp_pending c"
  shows "recv_mid ((acked_client c len)\<lparr>tc_socks_recv_waiting := False\<rparr>)"
    and "tc_socks_recv_waiting c" "tc_socks_recv_buf_sent c < tc_socks_recv_buf_used c"
proof -
  have p: "recv_ok c" "base_part c" "send_part c" "\<not> tc_recv_if c" using c unfolding tc_ok_def recv_part_def by auto
  then have r: "0 \<le> tc_socks_recv_buf_sent c" "tc_socks_recv_buf_sent c < tc_socks_recv_buf_used c" "tc_socks_recv_buf_used c \<le> 8192"
    "tc_socks_recv_waiting c" "tc_socks_recv_tcp_pending c + th_acked c = int (length (th_written c))"
    "th_got c = th_written c
      @ take (nat (tc_socks_recv_buf_used c - tc_socks_recv_buf_sent c)) (drop (nat (tc_socks_recv_buf_sent c)) (tc_socks_recv_buf c))"
    using c(4) by (auto simp: recv_ok_def)
  let ?c = "(acked_client c len)\<lparr>tc_socks_recv_waiting := False\<rparr>"
  have "base_part ?c = base_part c" "send_part ?c = send_part c" by (simp_all add: base_part_def send_part_def acked_client_def)
  then show "recv_mid ?c" using p r c by (simp add: recv_mid_def acked_client_def)
  show "tc_socks_recv_waiting c" "tc_socks_recv_buf_sent c < tc_socks_recv_buf_used c" using r by simp_all
qed

text \<open>What a callback makes of a client, with its return value.\<close>

definition callback_end :: "tcp_engine \<Rightarrow> nat \<Rightarrow> tcp_engine \<Rightarrow> lwip_err \<Rightarrow> bool" where
  "callback_end s p r err \<longleftrightarrow> client_end s p r \<and> (if dead_client r p then err = LWIP_ABRT else err = LWIP_OK)"

lemma sent_continues:
  assumes m: "recv_mid c1" "0 < ts_num s" and w: "wrote_out (put_client s p c1) p c1 (s1, rv)"
  shows "\<exists>r err. (if rv < 0 then Some (s1, LWIP_ABRT)
       else do {
         c2 \<leftarrow> ts_store s1 p;
         ASSERT (tc_socks_recv_tcp_pending c2 > 0);
         (if tc_socks_recv_buf_used c2 = -1 \<and> \<not> tc_socks_closed c2 then do {
            s2 \<leftarrow> client_socks_recv_initiate s1 p;
            s3 \<leftarrow> run_jobs s2 p jobs;
            Some (s3, if dead_client s3 p then LWIP_ABRT else LWIP_OK)
          } else Some (s1, LWIP_OK))
       }) = Some (r, err) \<and> callback_end s p r err"
  using w unfolding wrote_out_def
proof (elim disjE exE conjE)
  fix r' assume "(s1, rv) = (r', -1)" "client_end (put_client s p c1) p r'" "dead_client r' p"
  then show ?thesis by (simp add: callback_end_def)
next
  fix c' assume "(s1, rv) = (put_client (put_client s p c1) p c', 0)" "tc_ok c'" "\<not> tc_client_closed c'" "0 < tc_socks_recv_tcp_pending c'"
    "0 < tc_socks_recv_buf_used c'"
  then show ?thesis by (auto simp: callback_end_def dead_client_def intro: client_endI)
next
  fix c' assume c': "(s1, rv) = (put_client (put_client s p c1) p c', 0)" "tc_ok (c'\<lparr>tc_recv_if := \<not> tc_socks_closed c1\<rparr>)" "\<not> tc_client_closed c'"
    "0 < tc_socks_recv_tcp_pending c'" "tc_socks_recv_buf_used c' = -1" "\<not> tc_recv_if c'" "tc_socks_up c'" "tc_socks_closed c' = tc_socks_closed c1"
  show ?thesis
  proof (cases "tc_socks_closed c1")
    case True
    then have "c'\<lparr>tc_recv_if := \<not> tc_socks_closed c1\<rparr> = c'" using c'(6) by simp
    then have "tc_ok c'" using c'(2) by (simp only:)
    then show ?thesis using c' True by (auto simp: callback_end_def dead_client_def intro: client_endI)
  next
    case False
    let ?s = "put_client s p (c'\<lparr>tc_recv_if := True\<rparr>)"
    have "client_end s p ?s" using c'(2) False by (auto intro: client_endI)
    from run_jobs_end [OF this m(2), of jobs] obtain r where "run_jobs ?s p jobs = Some r" "client_end s p r" by blast
    then show ?thesis using c' False recv_initiate [of c' s p] by (auto simp: callback_end_def)
  qed
qed

lemma sent_func_end:
  assumes c: "ts_store s p = Some c" "tc_ok c" "tc_sent_cb c" "0 < ts_num s" and l: "0 < len" "len \<le> tc_socks_recv_tcp_pending c"
  shows "\<exists>r err. client_sent_func te s p len jobs = Some (r, err) \<and> callback_end s p r err"
proof -
  have b: "\<not> tc_client_closed c" "tc_socks_up c" "tc_pcb c = PcbOpen" "base_part c" "send_part c" "recv_part c"
    using c(2,3) by (simp_all add: tc_ok_def base_part_def)
  have rk: "recv_ok c" using b(1,2,6) unfolding recv_part_def by blast
  let ?c = "acked_client c len"
  have f: "tc_socks_recv_buf_used ?c = tc_socks_recv_buf_used c" "tc_socks_closed ?c = tc_socks_closed c" "tc_client_closed ?c = tc_client_closed c"
    "tc_pcb ?c = tc_pcb c" "tc_socks_recv_tcp_pending ?c = tc_socks_recv_tcp_pending c - len" by (simp_all add: acked_client_def)
  show ?thesis
  proof (cases "0 < tc_socks_recv_buf_used c")
    case True
    note m = acked_mid [OF c(2) b(2,1) True l(2)]
    let ?m = "?c\<lparr>tc_socks_recv_waiting := False\<rparr>"
    obtain s1 rv where w: "client_socks_recv_send_out te (put_client s p ?m) p = Some (s1, rv)" "wrote_out (put_client s p ?m) p ?m (s1, rv)"
      using send_out_mid [of "put_client s p ?m" p ?m te] m(1) c(4) by auto
    show ?thesis using sent_continues [OF m(1) c(4) w(2), of jobs] c(1) b(1,2) l True m(2,3) w(1)
      by (simp add: client_sent_func_def acked_client_def)
  next
    case False
    then have u: "tc_socks_recv_buf_used c = -1" using rk by (auto simp: recv_ok_def)
    show ?thesis
    proof (cases "tc_socks_closed c \<and> tc_socks_recv_tcp_pending c = len")
      case True
      have "client_free_client te (put_client s p ?c) p = Some (gone s p)"
        using free_client [of "put_client s p ?c" p ?c te] f b(1,3) c(4) True by (simp add: client_ended_def)
      then have "client_sent_func te s p len jobs = Some (gone s p, LWIP_ABRT)"
        using c(1) b(1,2) l u True by (simp add: client_sent_func_def acked_client_def)
      then show ?thesis by (auto simp: callback_end_def dead_client_def client_endI)
    next
      case n: False
      then have "tc_ok ?c" using l(2) by (intro acked_idle_ok [OF c(2) b(2,1) u]) auto
      moreover have "client_sent_func te s p len jobs = Some (put_client s p ?c, LWIP_OK)"
        using c(1) b(1,2) l u n by (auto simp: client_sent_func_def acked_client_def)
      ultimately show ?thesis using b(1) f(3) by (auto simp: callback_end_def dead_client_def intro: client_endI)
    qed
  qed
qed

section \<open>All clients\<close>

definition ts_inv :: "nat list \<Rightarrow> tcp_engine \<Rightarrow> bool" where
  "ts_inv xs s \<longleftrightarrow> dll (ts_clients s) xs \<and> ts_num s = int (length xs) \<and> (\<forall>p. p \<in> set xs \<longleftrightarrow> ts_store s p \<noteq> None)
     \<and> (\<forall>p c. ts_store s p = Some c \<longrightarrow> tc_ok c) \<and> (ts_auth_username s = None \<or> names_shared s)"

lemma ts_inv_num: "ts_inv xs s \<Longrightarrow> ts_store s p = Some c \<Longrightarrow> 0 < ts_num s \<and> tc_ok c \<and> p \<in> set xs"
  by (cases xs) (fastforce simp: ts_inv_def)+

lemma gone_inv:
  assumes i: "ts_inv xs s" and p: "p \<in> set xs"
  shows "ts_inv (remove1 p xs) (gone s p)"
proof -
  have d: "dll (ts_clients s) xs" "distinct xs" using i l1.holds_distinct by (auto simp: ts_inv_def)
  have "dll (LinkedList1_Remove (ts_clients s) p) (remove1 p xs)" by (rule l1.holds_del [OF d(1) p])
  moreover have "int (length (remove1 p xs)) = ts_num s - 1"
  proof -
    obtain k where k: "length xs = Suc k" using p by (cases xs) auto
    then have "length (remove1 p xs) = k" using p by (simp add: length_remove1)
    then show ?thesis using i k by (simp add: ts_inv_def)
  qed
  ultimately show ?thesis using i d(2) by (auto simp: ts_inv_def gone_def)
qed

lemma client_end_inv:
  assumes i: "ts_inv xs s" and p: "ts_store s p = Some c" and e: "client_end s p r"
  shows "\<exists>ys. ts_inv ys r"
  using e unfolding client_end_def
proof (elim disjE exE conjE)
  fix c' assume "r = put_client s p c'" "tc_ok c'"
  then have "ts_inv xs r" using i p by (auto simp: ts_inv_def put_client_def)
  then show ?thesis by blast
qed (use gone_inv [OF i] ts_inv_num [OF i p] in blast)

lemma err_func_end:
  assumes c: "ts_store s p = Some c" "tc_ok c" "tc_err_cb c" "0 < ts_num s"
  shows "client_err_func te s p = Some (client_ended s p c PcbFreed)" "client_end s p (client_ended s p c PcbFreed)"
proof -
  have "\<not> tc_client_closed c" using c(2,3) by (simp add: tc_ok_def base_part_def)
  then show "client_err_func te s p = Some (client_ended s p c PcbFreed)"
    using c handle_freed_removed [of c s te p PcbFreed] by (simp add: client_err_func_def)
  show "client_end s p (client_ended s p c PcbFreed)" using c(2) by (intro client_ended_end) (auto simp: tc_ok_def intro: recv_part_idle)
qed

text \<open>A client that has just been accepted.\<close>

definition new_client :: "tcp_client \<Rightarrow> BAddr \<Rightarrow> BAddr \<Rightarrow> tcp_client" where
  "new_client mem local remote =
     mem\<lparr>tc_local_addr := local, tc_remote_addr := remote, tc_socks_dest := local,
         tc_pcb := PcbOpen, tc_client_closed := False, tc_err_cb := True, tc_recv_cb := True, tc_sent_cb := False,
         tc_buf_used := 0, tc_socks_up := False, tc_socks_closed := False, tc_send_if := None, tc_recv_if := False,
         th_in := [], th_sent := [], th_confirmed := 0, th_got := [], th_written := [], th_acked := 0\<rparr>"

definition mem_ok :: "tcp_client \<Rightarrow> bool" where
  "mem_ok mem \<longleftrightarrow> length (tc_buf mem) = 65535 \<and> length (tc_socks_recv_buf mem) = 8192"

lemma new_client_ok: "mem_ok mem \<Longrightarrow> tc_ok (new_client mem l r)"
  by (simp add: tc_ok_def base_part_def send_part_def recv_part_def new_client_def mem_ok_def)

lemma ts_inv_names [simp]: "ts_inv xs (s\<lparr>ts_names := f\<rparr>) = ts_inv xs s"
  by (simp add: ts_inv_def)

lemma ts_inv_auth: "ts_inv xs s \<Longrightarrow> names_shared s \<Longrightarrow> ts_inv xs (s\<lparr>ts_auth_username := u\<rparr>)"
  by (simp add: ts_inv_def)

lemma accept_end:
  assumes i: "ts_inv xs s" and m: "\<And>p mem. ae_malloc ae = Some (p, mem) \<Longrightarrow> ts_store s p = None \<and> mem_ok mem"
  shows "\<exists>r err. listener_accept_func ae s np jobs = Some (r, err) \<and> (\<exists>ys. ts_inv ys r)
    \<and> (case ae_malloc ae of None \<Rightarrow> err = LWIP_MEM
       | Some (p, mem) \<Rightarrow> err = LWIP_OK \<and> \<not> dead_client r p \<or> err \<noteq> LWIP_OK \<and> dead_client r p)"
proof (cases "ae_malloc ae")
  case None
  then show ?thesis using i by (auto simp: listener_accept_func_def)
next
  case (Some x)
  obtain p mem where x: "x = (p, mem)" by (cases x)
  note a = Some [unfolded x]
  have n: "ts_store s p = None" "mem_ok mem" using m [OF a] by simp_all
  let ?l = "baddr_from_lwip (np_is_ipv6 np) (np_local_ip4 np) (np_local_ip6 np) (np_local_port np)"
    and ?r = "baddr_from_lwip (np_is_ipv6 np) (np_remote_ip4 np) (np_remote_ip6 np) (np_remote_port np)"
  define app where "app \<longleftrightarrow> names_shared s"
  define u where "u = (if app then Some (the (ts_username s) @ [0x40] @ ae_print ae ?r) else None)"
  define s1 where "s1 = (if app then s\<lparr>ts_auth_username := Some p\<rparr> else s)\<lparr>ts_names := (ts_names s)(p := u)\<rparr>"
  have i1: "ts_inv xs s1" "ts_store s1 p = None" using i n ts_inv_auth [OF i] by (simp_all add: s1_def app_def)
  show ?thesis
  proof (cases "app \<and> \<not> ae_concat_ok ae \<or> \<not> ae_socks_ok ae")
    case True
    then have "\<exists>r. listener_accept_func ae s np jobs = Some (r, LWIP_MEM) \<and> (r = s \<or> r = s1\<lparr>ts_names := (ts_names s1)(p := None)\<rparr>)"
      using a unfolding listener_accept_func_def Let_def a option.case prod.case app_def [symmetric] u_def [symmetric] s1_def [symmetric]
      by auto
    moreover have "ts_inv xs (s1\<lparr>ts_names := (ts_names s1)(p := None)\<rparr>)" using i1(1) by simp
    ultimately show ?thesis using a i i1(2) n(1) unfolding a option.case prod.case by (elim exE conjE disjE) (auto simp: dead_client_def)
  next
    case False
    let ?s = "put_client (s1\<lparr>ts_clients := LinkedList1_Append (ts_clients s1) p, ts_num := ts_num s1 + 1\<rparr>) p (new_client mem ?l ?r)"
    have px: "p \<notin> set xs" using i1 by (auto simp: ts_inv_def)
    have i2: "ts_inv (xs @ [p]) ?s"
      using i1 px l1.holds_add_tail [of "ts_clients s1" xs p] new_client_ok [OF n(2)] by (auto simp: ts_inv_def put_client_def)
    have "client_end ?s p ?s" using new_client_ok [OF n(2)] by (auto intro: client_endI)
    moreover have n0: "0 < ts_num ?s" "0 \<le> ts_num s1" using i1(1) by (auto simp: ts_inv_def)
    ultimately obtain r where r: "run_jobs ?s p jobs = Some r" "client_end ?s p r" using run_jobs_end by blast
    have "listener_accept_func ae s np jobs = Some (r, if dead_client r p then LWIP_ABRT else LWIP_OK)"
      using a False r(1) n0(2) unfolding listener_accept_func_def Let_def a option.case prod.case app_def [symmetric] u_def [symmetric] s1_def [symmetric]
      by (auto simp: new_client_def)
    moreover obtain ys where "ts_inv ys r" using client_end_inv [OF i2 put_simps(1) r(2)] by blast
    ultimately show ?thesis using a by auto
  qed
qed

section \<open>The running program\<close>

datatype tun_event = TcAccept accept_env tcp_pcb "(tcp_env \<times> socks_done) list" | TcErr tcp_env nat
  | TcRecv tcp_env nat "bytes option" "(tcp_env \<times> socks_done) list" | TcSent tcp_env nat int "(tcp_env \<times> socks_done) list"
  | TcSocks tcp_env nat socks_done | TcPassword nat

definition tun_step :: "tcp_engine \<Rightarrow> tun_event \<Rightarrow> tcp_engine option" where
  "tun_step s e =
     (case e of
        TcAccept ae np jobs \<Rightarrow> map_option fst (listener_accept_func ae s np jobs)
      | TcErr te p \<Rightarrow> client_err_func te s p
      | TcRecv te p data jobs \<Rightarrow> map_option fst (client_recv_func te s p data jobs)
      | TcSent te p len jobs \<Rightarrow> map_option fst (client_sent_func te s p len jobs)
      | TcSocks te p j \<Rightarrow> socks_job te s p j
      | TcPassword p \<Rightarrow> socks_password s p)"

text \<open>
  The stack calls the callbacks that are set, and confirms what it has been given.  A SOCKS client
  whose connection is not up yet may be asked for the password, if there is one.
\<close>

definition tun_allowed :: "tcp_engine \<Rightarrow> tun_event \<Rightarrow> bool" where
  "tun_allowed s e \<longleftrightarrow>
     (case e of
        TcAccept ae np jobs \<Rightarrow> (\<forall>p mem. ae_malloc ae = Some (p, mem) \<longrightarrow> ts_store s p = None \<and> mem_ok mem)
      | TcErr te p \<Rightarrow> (\<exists>c. ts_store s p = Some c \<and> tc_err_cb c)
      | TcRecv te p data jobs \<Rightarrow> (\<exists>c. ts_store s p = Some c \<and> tc_recv_cb c) \<and> data \<noteq> Some []
      | TcSent te p len jobs \<Rightarrow> (\<exists>c. ts_store s p = Some c \<and> tc_sent_cb c \<and> 0 < len \<and> len \<le> tc_socks_recv_tcp_pending c)
      | TcSocks te p j \<Rightarrow> socks_can s p j
      | TcPassword p \<Rightarrow> ts_username s \<noteq> None \<and> (\<exists>c. ts_store s p = Some c \<and> \<not> tc_socks_up c \<and> \<not> tc_socks_closed c))"

inductive tun_reach :: "tcp_engine \<Rightarrow> bool" where
  TcStart: "tun_reach \<lparr>ts_clients = LinkedList1_Init nodes, ts_num = 0, ts_store = Map.empty, ts_names = Map.empty, ts_username = username, ts_append_source = append_source,
    ts_auth_username = None\<rparr>"
| TcStep: "tun_reach s \<Longrightarrow> tun_allowed s e \<Longrightarrow> tun_step s e = Some s1 \<Longrightarrow> tun_reach s1"

lemma tun_step_inv:
  assumes i: "ts_inv xs s" and a: "tun_allowed s e"
  shows "(\<exists>s1 ys. tun_step s e = Some s1 \<and> ts_inv ys s1) \<or> (\<exists>p. e = TcPassword p) \<and> names_shared s \<and> tun_step s e = None"
proof (cases e)
  case (TcAccept ae np jobs)
  then show ?thesis using accept_end [OF i, of ae np jobs] a by (auto simp: tun_step_def tun_allowed_def)
next
  case (TcErr te p)
  then obtain c where c: "ts_store s p = Some c" "tc_err_cb c" using a by (auto simp: tun_allowed_def)
  then show ?thesis using err_func_end [OF c(1) _ c(2)] ts_inv_num [OF i c(1)] client_end_inv [OF i c(1)] TcErr by (auto simp: tun_step_def)
next
  case (TcRecv te p data jobs)
  then obtain c where c: "ts_store s p = Some c" "tc_recv_cb c" "data \<noteq> Some []" using a by (auto simp: tun_allowed_def)
  obtain r err f where "client_recv_func te s p data jobs = Some (r, err, f)" "client_end s p r"
    using recv_func_end [OF c(1) _ c(2) _ c(3)] ts_inv_num [OF i c(1)] by blast
  then show ?thesis using client_end_inv [OF i c(1)] TcRecv by (auto simp: tun_step_def)
next
  case (TcSent te p len jobs)
  then obtain c where c: "ts_store s p = Some c" "tc_sent_cb c" "0 < len" "len \<le> tc_socks_recv_tcp_pending c" using a by (auto simp: tun_allowed_def)
  obtain r err where "client_sent_func te s p len jobs = Some (r, err)" "client_end s p r"
    using sent_func_end [OF c(1) _ c(2) _ c(3,4)] ts_inv_num [OF i c(1)] unfolding callback_end_def by blast
  then show ?thesis using client_end_inv [OF i c(1)] TcSent by (auto simp: tun_step_def)
next
  case (TcSocks te p j)
  then obtain c where c: "ts_store s p = Some c" and j: "socks_can s p j" using a by (auto simp: tun_allowed_def socks_can_def split: option.splits)
  then show ?thesis using socks_job_end [OF c _ _ j] ts_inv_num [OF i c] client_end_inv [OF i c] TcSocks by (fastforce simp: tun_step_def)
next
  case (TcPassword p)
  then obtain c where c: "ts_store s p = Some c" "ts_username s \<noteq> None" using a by (auto simp: tun_allowed_def)
  have n: "ts_auth_username s = None \<or> names_shared s" using i by (simp add: ts_inv_def)
  show ?thesis
  proof (cases "shared_name s")
    case None
    then have "names_shared s" using n c(2) by (auto simp: shared_name_def)
    then show ?thesis using TcPassword None c(1) by (simp add: tun_step_def socks_password_def)
  next
    case (Some nm)
    then have "tun_step s e = Some s" using TcPassword c(1) by (simp add: tun_step_def socks_password_def)
    then show ?thesis using i by blast
  qed
qed

lemma tun_reach_inv: "tun_reach s \<Longrightarrow> \<exists>xs. ts_inv xs s"
proof (induction rule: tun_reach.induct)
  case (TcStart nodes username append_source)
  have "ts_inv [] \<lparr>ts_clients = LinkedList1_Init nodes, ts_num = 0, ts_store = Map.empty, ts_names = Map.empty, ts_username = username, ts_append_source = append_source,
    ts_auth_username = None\<rparr>" by (simp add: ts_inv_def dll_Init)
  then show ?case by blast
next
  case (TcStep s e s1)
  then show ?case using tun_step_inv by fastforce
qed

lemma reach_client: "tun_reach s \<Longrightarrow> ts_store s p = Some c \<Longrightarrow> tc_ok c \<and> 0 < ts_num s"
  using tun_reach_inv ts_inv_num by blast

lemma murder_gone:
  assumes "ts_store s p = Some c" "tc_ok c" "0 < ts_num s"
  shows "client_murder s p = Some (gone s p)"
proof -
  have "\<not> tc_client_closed c \<longrightarrow> tc_pcb c = PcbOpen" using assms(2) by (simp add: tc_ok_def base_part_def)
  then show ?thesis using assms(1,3)
    by (cases "tc_client_closed c"; cases "tc_socks_closed c") (simp_all add: client_murder_def remove_callbacks_def dealloc_gone)
qed

lemma free_clients_inv: "ts_inv xs s \<Longrightarrow> \<exists>s1. free_clients s = Some s1 \<and> ts_inv [] s1"
proof (induction xs arbitrary: s)
  case Nil
  then have "LinkedList1_GetFirst (ts_clients s) = None" using l1.holds_first by (fastforce simp: ts_inv_def)
  then show ?case using Nil by (subst free_clients.simps) simp
next
  case (Cons p xs)
  then have f: "LinkedList1_GetFirst (ts_clients s) = Some p" using l1.holds_first by (fastforce simp: ts_inv_def)
  obtain c where c: "ts_store s p = Some c" using Cons.prems by (fastforce simp: ts_inv_def)
  have "client_murder s p = Some (gone s p)" using murder_gone [OF c] ts_inv_num [OF Cons.prems c] by blast
  moreover have "ts_inv xs (gone s p)" using gone_inv [OF Cons.prems, of p] by simp
  ultimately show ?case using Cons.IH f by (subst free_clients.simps) simp
qed

section \<open>Closing one side\<close>

text \<open>
  The SOCKS side takes what it is offered: its connection comes up, if it is not up yet, and then each
  report says that some of the bytes of the outstanding send are out, one to all of them as \<open>k\<close>
  says.  The bytes it has taken are collected.  \<^const>\<open>None\<close>: a handler fails, or the client is
  still there but nothing is being sent.
\<close>

fun socks_takes :: "(tcp_env \<times> nat) list \<Rightarrow> tcp_engine \<Rightarrow> nat \<Rightarrow> (bytes \<times> tcp_engine) option" where
  "socks_takes [] s p = Some ([], s)"
| "socks_takes ((te, k) # xs) s p =
     (case ts_store s p of
        None \<Rightarrow> Some ([], s)
      | Some c \<Rightarrow>
          if \<not> tc_socks_up c then socks_job te s p (JobEvent BSOCKSCLIENT_EVENT_UP) \<bind> (\<lambda>s1. socks_takes xs s1 p)
          else do {
            m \<leftarrow> tc_send_if c;
            let n = 1 + int k mod m;
            s1 \<leftarrow> socks_job te s p (JobSent n);
            (d, s2) \<leftarrow> socks_takes xs s1 p;
            Some (take (nat n) (tc_buf c) @ d, s2)
          })"

text \<open>
  The peer of the stack acknowledges what it has been sent, one byte to all that is outstanding at a
  time.  The bytes that are written meanwhile are collected, and how many are acknowledged.
  \<^const>\<open>None\<close>: a callback fails, or the client is still there but nothing is outstanding.
\<close>

fun stack_acks :: "(tcp_env \<times> nat) list \<Rightarrow> tcp_engine \<Rightarrow> nat \<Rightarrow> (bytes \<times> int \<times> tcp_engine) option" where
  "stack_acks [] s p = Some ([], 0, s)"
| "stack_acks ((te, k) # xs) s p =
     (case ts_store s p of
        None \<Rightarrow> Some ([], 0, s)
      | Some c \<Rightarrow> do {
          ASSERT (tc_socks_recv_tcp_pending c > 0);
          let len = 1 + int k mod tc_socks_recv_tcp_pending c;
          (s1, err) \<leftarrow> client_sent_func te s p len [];
          (d, a, s2) \<leftarrow> stack_acks xs s1 p;
          Some ((case ts_store s1 p of None \<Rightarrow> [] | Some c1 \<Rightarrow> drop (length (th_written c)) (th_written c1)) @ d, len + a, s2)
        })"

text \<open>The stack takes data: there is room after an acknowledgement, and a write fails only for want of memory.\<close>

definition stack_takes :: "tcp_env \<Rightarrow> bool" where
  "stack_takes te \<longleftrightarrow> te_output te = LWIP_OK \<and> 0 < te_sndbuf te 0 \<and> te_write te 0 = LWIP_OK \<and> (\<forall>i. te_write te i \<in> {LWIP_OK, LWIP_MEM})"

lemma takes_gone: "ts_store s p = None \<Longrightarrow> socks_takes xs s p = Some ([], s)"
  by (cases "(xs, s, p)" rule: socks_takes.cases) auto

lemma acks_gone: "ts_store s p = None \<Longrightarrow> stack_acks xs s p = Some ([], 0, s)"
  by (cases "(xs, s, p)" rule: stack_acks.cases) auto

lemma mod_between: "0 < m \<Longrightarrow> 0 < 1 + int k mod m \<and> 1 + int k mod m \<le> m"
  using pos_mod_bound [of m "int k"] pos_mod_sign [of m "int k"] by linarith

text \<open>From the local program to SOCKS, of a client whose connection is gone.\<close>

definition draining :: "tcp_client \<Rightarrow> bool" where
  "draining c \<longleftrightarrow> tc_ok c \<and> tc_client_closed c"

lemma draining_sends:
  assumes "draining c" "tc_socks_up c"
  obtains m where "tc_send_if c = Some m" "0 < m" "m \<le> tc_buf_used c" "m \<le> int (length (tc_buf c))" "\<not> tc_socks_closed c"
proof -
  have b: "base_part c" "send_part c" "tc_client_closed c" using assms(1) by (simp_all add: draining_def tc_ok_def)
  then have "\<not> tc_socks_closed c" "0 < tc_buf_used c" by (simp_all add: base_part_def)
  then obtain m where "tc_send_if c = Some m" using b(2) assms(2) by (cases "tc_send_if c") (auto simp: send_part_def)
  with b that show ?thesis by (auto simp: send_part_def base_part_def)
qed

lemma socks_takes_all:
  "ts_store s p = Some c \<Longrightarrow> draining c \<Longrightarrow> 0 < ts_num s \<Longrightarrow>
    \<exists>d s1. socks_takes xs s p = Some (d, s1)
      \<and> (ts_store s1 p = None \<and> th_sent c @ d = th_in c
         \<or> (\<exists>c1. ts_store s1 p = Some c1 \<and> draining c1 \<and> th_in c1 = th_in c \<and> th_sent c1 = th_sent c @ d
              \<and> length xs \<le> length d + (if tc_socks_up c then 0 else 1)))"
proof (induction xs arbitrary: s c)
  case (Cons x xs)
  obtain te k where x: "x = (te, k)" by (cases x)
  have ok: "tc_ok c" and cl: "tc_client_closed c" using Cons.prems(2) by (simp_all add: draining_def)
  show ?case
  proof (cases "tc_socks_up c")
    case False
    have n: "\<not> tc_socks_closed c" using ok cl by (auto simp: tc_ok_def base_part_def)
    have u: "socks_job te s p (JobEvent BSOCKSCLIENT_EVENT_UP) = Some (put_client s p (up_client c))"
      using up_job [OF Cons.prems(1) ok False n] Cons.prems(1) by (simp add: socks_job_def)
    have f: "draining (up_client c)" "tc_socks_up (up_client c)" "th_in (up_client c) = th_in c" "th_sent (up_client c) = th_sent c"
      using up_client_ok [OF ok False n] cl by (simp_all add: draining_def up_client_def)
    from Cons.IH [of "put_client s p (up_client c)" "up_client c"] f Cons.prems(1,3) u x False show ?thesis by fastforce
  next
    case True
    obtain m where m: "tc_send_if c = Some m" "0 < m" "m \<le> tc_buf_used c" "m \<le> int (length (tc_buf c))" "\<not> tc_socks_closed c"
      using draining_sends [OF Cons.prems(2) True] .
    define n where "n = 1 + int k mod m"
    have n: "0 < n" "n \<le> m" using mod_between [OF m(2), of k] by (simp_all add: n_def)
    obtain b where j: "socks_job te s p (JobSent n) = Some (if n = tc_buf_used c then gone s p else put_client s p (sent_client c n b))"
      "n = tc_buf_used c \<or> tc_ok (sent_client c n b)"
      using sent_job [OF Cons.prems(1) ok m(1) n Cons.prems(3), of te] cl by auto
    let ?d = "take (nat n) (tc_buf c)"
    show ?thesis
    proof (cases "n = tc_buf_used c")
      case all: True
      have "th_in c = th_sent c @ ?d" using ok all by (simp add: tc_ok_def base_part_def)
      moreover have "socks_takes (x # xs) s p = Some (?d, gone s p)"
        using j(1) all Cons.prems(1) True m(1) x takes_gone [of "gone s p" p xs] by (simp add: n_def)
      ultimately show ?thesis by simp
    next
      case False
      let ?c = "sent_client c n b"
      have f: "draining ?c" "tc_socks_up ?c" "th_in ?c = th_in c" "th_sent ?c = th_sent c @ ?d" "1 \<le> length ?d"
        using j(2) False cl True n m(4) by (auto simp: draining_def sent_client_def)
      obtain d s1 where r: "socks_takes xs (put_client s p ?c) p = Some (d, s1)"
        "ts_store s1 p = None \<and> th_sent ?c @ d = th_in ?c
         \<or> (\<exists>c1. ts_store s1 p = Some c1 \<and> draining c1 \<and> th_in c1 = th_in ?c \<and> th_sent c1 = th_sent ?c @ d
              \<and> length xs \<le> length d)"
        using Cons.IH [of "put_client s p ?c" ?c] f(1,2) Cons.prems(3) by auto
      have "socks_takes (x # xs) s p = Some (?d @ d, s1)"
        using j(1) False Cons.prems(1) True m(1) x r(1) by (simp add: n_def)
      then show ?thesis using r(2) f(3-5) True by (intro exI [of _ "?d @ d"] exI [of _ s1]) auto
    qed
  qed
qed (auto simp: draining_def)

text \<open>
  All that is left of \<open>c\<close>'s data from the local program reaches SOCKS: what is taken is the
  next part of it, the client goes exactly with the last byte, and as many reports as there are bytes,
  and one for the connection, are enough.
\<close>

definition reaches_socks :: "tcp_client \<Rightarrow> (tcp_env \<times> nat) list \<Rightarrow> tcp_engine \<Rightarrow> nat \<Rightarrow> bool" where
  "reaches_socks c xs s p \<longleftrightarrow> (\<exists>d rest s1. socks_takes xs s p = Some (d, s1) \<and> th_in c = th_sent c @ d @ rest
     \<and> (ts_store s1 p = None \<longleftrightarrow> rest = []) \<and> (tc_buf_used c < int (length xs) \<longrightarrow> rest = []))"

lemma draining_reaches:
  assumes "ts_store s p = Some c1" "draining c1" "0 < ts_num s"
    and "th_in c1 = th_in c" "th_sent c1 = th_sent c" "tc_buf_used c1 = tc_buf_used c"
  shows "reaches_socks c xs s p"
proof -
  have len: "int (length (th_in c)) = int (length (th_sent c)) + tc_buf_used c"
  proof -
    have "th_in c = th_sent c @ take (nat (tc_buf_used c)) (tc_buf c1)" "0 \<le> tc_buf_used c" "tc_buf_used c \<le> 65535"
      "length (tc_buf c1) = 65535" using assms(2,4-6) by (simp_all add: draining_def tc_ok_def base_part_def)
    then show ?thesis by simp
  qed
  obtain d s2 where r: "socks_takes xs s p = Some (d, s2)"
    "ts_store s2 p = None \<and> th_sent c @ d = th_in c
     \<or> (\<exists>c2. ts_store s2 p = Some c2 \<and> draining c2 \<and> th_in c2 = th_in c \<and> th_sent c2 = th_sent c @ d
          \<and> length xs \<le> length d + (if tc_socks_up c1 then 0 else 1))"
    using socks_takes_all [OF assms(1-3), of xs] assms(4,5) by auto
  from r(2) show ?thesis
  proof (elim disjE exE conjE)
    assume "ts_store s2 p = None" "th_sent c @ d = th_in c"
    then show ?thesis using r(1) unfolding reaches_socks_def by (intro exI [of _ d] exI [of _ "[]"] exI [of _ s2]) simp
  next
    fix c2 assume c2: "ts_store s2 p = Some c2" "draining c2" "th_in c2 = th_in c" "th_sent c2 = th_sent c @ d"
      "length xs \<le> length d + (if tc_socks_up c1 then 0 else 1)"
    define rest where "rest = take (nat (tc_buf_used c2)) (tc_buf c2)"
    have i: "th_in c = th_sent c @ d @ rest" "rest \<noteq> []"
      using c2(2-4) by (auto simp: draining_def tc_ok_def base_part_def rest_def)
    have "length xs \<le> length d + 1" using c2(5) by (simp split: if_splits)
    moreover have "int (length d) + int (length rest) = tc_buf_used c" using len i(1) by simp
    moreover have "1 \<le> length rest" using i(2) by (cases rest) simp_all
    ultimately have "\<not> tc_buf_used c < int (length xs)" by linarith
    then show ?thesis using r(1) i c2(1) unfolding reaches_socks_def by (intro exI [of _ d] exI [of _ rest] exI [of _ s2]) simp
  qed
qed

lemma end_put: "client_end s p (put_client s p c) \<Longrightarrow> tc_ok c"
  by (metis client_end_cases put_simps(1) option.inject option.distinct(1))

lemma close_recv:
  assumes "ts_store s p = Some c" "tc_ok c" "0 < ts_num s" "tc_recv_cb c" "0 < tc_buf_used c"
  shows "\<exists>s1. client_recv_func te s p None jobs = Some (s1, LWIP_ABRT, False) \<and> reaches_socks c xs s1 p"
proof -
  have b: "\<not> tc_client_closed c" "\<not> tc_socks_closed c" "tc_pcb c = PcbOpen" using assms(2,4) by (simp_all add: tc_ok_def base_part_def)
  let ?c = "closing c (close_state te)"
  have e: "client_ended s p c (close_state te) = put_client s p ?c" using assms(5) b(2) by (simp add: client_ended_def)
  have "client_recv_func te s p None jobs = Some (put_client s p ?c, LWIP_ABRT, False)"
    using assms b free_client [OF assms(1) b(1,3) assms(3), of te] e by (simp add: client_recv_func_def)
  moreover have "client_end s p (client_ended s p c (close_state te))"
    using assms(2) by (intro client_ended_end) (auto simp: tc_ok_def close_state_def intro: recv_part_idle)
  then have "tc_ok ?c" unfolding e by (rule end_put)
  then have "draining ?c" by (simp add: draining_def closing_def)
  then have "reaches_socks c xs (put_client s p ?c) p"
    using assms(3) by (intro draining_reaches [of _ _ ?c]) (simp_all add: closing_def remove_callbacks_def)
  ultimately show ?thesis by blast
qed

text \<open>From SOCKS to the local program, of a client whose SOCKS side is gone.\<close>

lemma write_loop_healthy:
  assumes "0 \<le> tc_socks_recv_buf_sent c" "tc_socks_recv_buf_sent c < tc_socks_recv_buf_used c"
    and "tc_socks_recv_buf_used c \<le> int (length (tc_socks_recv_buf c))" "\<forall>i. te_write te i \<in> {LWIP_OK, LWIP_MEM}"
  shows "\<exists>n. client_write_loop te i c = Some (wrote_client c n, True) \<and> tc_socks_recv_buf_sent c + int n \<le> tc_socks_recv_buf_used c
    \<and> (0 < te_sndbuf te i \<and> te_write te i = LWIP_OK \<longrightarrow> 0 < n)"
  using assms
proof (induction "nat (tc_socks_recv_buf_used c - tc_socks_recv_buf_sent c)" arbitrary: i c rule: less_induct)
  case (less c i)
  obtain w where w: "int w = min (tc_socks_recv_buf_used c - tc_socks_recv_buf_sent c) (int (te_sndbuf te i))"
    using less.prems(2) by (intro that [of "nat (min (tc_socks_recv_buf_used c - tc_socks_recv_buf_sent c) (int (te_sndbuf te i)))"]) simp
  then have wl: "tc_socks_recv_buf_sent c + int w \<le> tc_socks_recv_buf_used c" by linarith
  then have l: "load (tc_socks_recv_buf c) (tc_socks_recv_buf_sent c) (int w) = Some (take w (drop (nat (tc_socks_recv_buf_sent c)) (tc_socks_recv_buf c)))"
    using less.prems by (simp add: load_def in_range_def)
  have wp: "0 < te_sndbuf te i \<longrightarrow> 0 < w" using w less.prems(2) by auto
  show ?case
  proof (cases "0 < w \<and> te_write te i = LWIP_OK")
    case False
    have "te_write te i = LWIP_MEM \<or> w = 0" using False less.prems(4) by auto
    then have "client_write_loop te i c = Some (c, True)"
      unfolding client_write_loop.simps [of te i c] Let_def w [symmetric] using l by auto
    then show ?thesis using less.prems(2) False wp by (intro exI [of _ 0]) auto
  next
    case True
    note e = write_loop_writes [OF w True [THEN conjunct1] True [THEN conjunct2] l]
    show ?thesis
    proof (cases "tc_socks_recv_buf_sent c + int w < tc_socks_recv_buf_used c")
      case False
      then show ?thesis using e wl True by (intro exI [of _ w]) simp
    next
      case more: True
      have "nat (tc_socks_recv_buf_used (wrote_client c w) - tc_socks_recv_buf_sent (wrote_client c w)) < nat (tc_socks_recv_buf_used c - tc_socks_recv_buf_sent c)"
        using True more less.prems by simp
      from less.hyps [OF this, of "Suc i"] more less.prems obtain n where
        "client_write_loop te (Suc i) (wrote_client c w) = Some (wrote_client (wrote_client c w) n, True)"
        "tc_socks_recv_buf_sent c + int w + int n \<le> tc_socks_recv_buf_used c" by auto
      then show ?thesis using e more True wrote_wrote [OF less.prems(1)] by (intro exI [of _ "w + n"]) simp
    qed
  qed
qed

lemma send_out_healthy:
  assumes c: "ts_store s p = Some c" "recv_mid c" and t: "stack_takes te"
  shows "\<exists>n. 0 < n \<and> tc_socks_recv_buf_sent c + int n \<le> tc_socks_recv_buf_used c
    \<and> client_socks_recv_send_out te s p = Some (put_client s p
        (if tc_socks_recv_buf_sent c + int n < tc_socks_recv_buf_used c then (wrote_client c n)\<lparr>tc_socks_recv_waiting := True\<rparr>
         else (wrote_client c n)\<lparr>tc_socks_recv_buf_used := -1\<rparr>), 0)"
proof -
  have b: "tc_socks_up c" "\<not> tc_client_closed c" "\<not> tc_socks_recv_waiting c" "tc_pcb c = PcbOpen" "0 \<le> tc_socks_recv_buf_sent c"
    "tc_socks_recv_buf_sent c < tc_socks_recv_buf_used c" "0 \<le> tc_socks_recv_tcp_pending c"
    "tc_socks_recv_buf_used c \<le> int (length (tc_socks_recv_buf c))"
    using c(2) by (simp_all add: recv_mid_def base_part_def)
  have h: "\<forall>i. te_write te i \<in> {LWIP_OK, LWIP_MEM}" "0 < te_sndbuf te 0" "te_write te 0 = LWIP_OK" "te_output te = LWIP_OK"
    using t by (simp_all add: stack_takes_def)
  obtain n where n: "client_write_loop te 0 c = Some (wrote_client c n, True)" "tc_socks_recv_buf_sent c + int n \<le> tc_socks_recv_buf_used c" "0 < n"
    using write_loop_healthy [OF b(5,6,8) h(1), of 0] h(2,3) by blast
  then show ?thesis
    using c(1) b h(4) by (intro exI [of _ n]) (simp add: client_socks_recv_send_out_def)
qed

definition flushing :: "tcp_client \<Rightarrow> bool" where
  "flushing c \<longleftrightarrow> tc_ok c \<and> tc_socks_closed c"

lemma flushing_fields:
  assumes "flushing c"
  shows "\<not> tc_client_closed c" "tc_pcb c = PcbOpen" "tc_socks_up c" "recv_ok c" "0 < tc_socks_recv_tcp_pending c"
    "tc_socks_recv_tcp_pending c + th_acked c = int (length (th_written c))"
    "0 < tc_socks_recv_buf_used c \<or> tc_socks_recv_buf_used c = -1 \<and> th_got c = th_written c"
proof -
  have c: "base_part c" "recv_part c" "tc_socks_closed c" using assms by (simp_all add: flushing_def tc_ok_def)
  then show n: "\<not> tc_client_closed c" "tc_pcb c = PcbOpen" by (auto simp: base_part_def)
  show u: "tc_socks_up c" "recv_ok c" using c(2,3) n(1) unfolding recv_part_def by blast+
  then show "0 < tc_socks_recv_tcp_pending c" "tc_socks_recv_tcp_pending c + th_acked c = int (length (th_written c))"
    "0 < tc_socks_recv_buf_used c \<or> tc_socks_recv_buf_used c = -1 \<and> th_got c = th_written c"
    using c(2,3) unfolding recv_part_def recv_ok_def by auto
qed

lemma ack_step:
  assumes c: "ts_store s p = Some c" "flushing c" "0 < ts_num s" and l: "0 < len" "len \<le> tc_socks_recv_tcp_pending c" and t: "stack_takes te"
  shows "\<exists>s1 err. client_sent_func te s p len [] = Some (s1, err)
    \<and> (s1 = gone s p \<and> th_written c = th_got c \<and> th_acked c + len = int (length (th_got c))
       \<or> (\<exists>c1 w. s1 = put_client s p c1 \<and> flushing c1 \<and> th_got c1 = th_got c \<and> th_written c1 = th_written c @ w \<and> th_acked c1 = th_acked c + len))"
proof -
  note f = flushing_fields [OF c(2)]
  have ok: "tc_ok c" "tc_socks_closed c" using c(2) by (simp_all add: flushing_def)
  let ?a = "acked_client c len"
  show ?thesis
  proof (cases "0 < tc_socks_recv_buf_used c")
    case False
    then have n: "tc_socks_recv_buf_used c = -1" "th_got c = th_written c" using f(7) by simp_all
    show ?thesis
    proof (cases "tc_socks_recv_tcp_pending c = len")
      case True
      have "client_free_client te (put_client s p ?a) p = Some (gone s p)"
        using free_client [of "put_client s p ?a" p ?a te] f(1,2) c(3) ok(2) by (simp add: client_ended_def acked_client_def)
      then have "client_sent_func te s p len [] = Some (gone s p, LWIP_ABRT)"
        using c(1) f(1,3) ok(2) l n(1) True by (simp add: client_sent_func_def acked_client_def)
      then show ?thesis using True n(2) f(6) by auto
    next
      case False
      then have "tc_ok ?a" using l by (intro acked_idle_ok [OF ok(1) f(3,1) n(1)]) auto
      then have "flushing ?a" using ok(2) by (simp add: flushing_def acked_client_def)
      moreover have "client_sent_func te s p len [] = Some (put_client s p ?a, LWIP_OK)"
        using c(1) f(1,3) ok(2) l n(1) False by (simp add: client_sent_func_def acked_client_def)
      moreover have "th_got ?a = th_got c" "th_written ?a = th_written c @ []" "th_acked ?a = th_acked c + len" by (simp_all add: acked_client_def)
      ultimately show ?thesis by blast
    qed
  next
    case True
    note m = acked_mid [OF ok(1) f(3,1) True l(2)]
    let ?m = "?a\<lparr>tc_socks_recv_waiting := False\<rparr>"
    obtain n where n: "0 < n" "tc_socks_recv_buf_sent ?m + int n \<le> tc_socks_recv_buf_used ?m"
      and e: "client_socks_recv_send_out te (put_client s p ?m) p = Some (put_client (put_client s p ?m) p
        (if tc_socks_recv_buf_sent ?m + int n < tc_socks_recv_buf_used ?m then (wrote_client ?m n)\<lparr>tc_socks_recv_waiting := True\<rparr>
         else (wrote_client ?m n)\<lparr>tc_socks_recv_buf_used := -1\<rparr>), 0)"
      using send_out_healthy [OF put_simps(1) m(1) t] by blast
    define c1 where "c1 = (if tc_socks_recv_buf_sent ?m + int n < tc_socks_recv_buf_used ?m then (wrote_client ?m n)\<lparr>tc_socks_recv_waiting := True\<rparr>
         else (wrote_client ?m n)\<lparr>tc_socks_recv_buf_used := -1\<rparr>)"
    have pe: "0 \<le> tc_socks_recv_tcp_pending ?m" using l by (simp add: acked_client_def)
    have c1: "tc_socks_recv_tcp_pending c1 > 0" "tc_socks_closed c1" "th_got c1 = th_got c" "th_acked c1 = th_acked c + len"
      "\<exists>w. th_written c1 = th_written c @ w"
      using n(1) pe ok(2) by (simp_all add: c1_def wrote_client_def acked_client_def)
    have "tc_ok c1"
    proof (cases "tc_socks_recv_buf_sent ?m + int n < tc_socks_recv_buf_used ?m")
      case True
      then show ?thesis using wrote_waiting_ok [OF m(1) True] pe n(1) by (simp add: c1_def)
    next
      case False
      then have eq: "tc_socks_recv_buf_sent ?m + int n = tc_socks_recv_buf_used ?m" using n(2) by simp
      have "\<not> tc_recv_if (wrote_client ?m n)" using m(1) by (simp add: recv_mid_def wrote_client_def)
      then have "(wrote_client ?m n)\<lparr>tc_socks_recv_buf_used := -1, tc_recv_if := \<not> tc_socks_closed ?m\<rparr> = c1"
        using ok(2) False by (simp add: c1_def acked_client_def)
      then show ?thesis using wrote_all_ok [OF m(1) eq] by simp
    qed
    then have "flushing c1" using c1(2) by (simp add: flushing_def)
    moreover have "client_sent_func te s p len [] = Some (put_client s p c1, LWIP_OK)"
      using e [folded c1_def] c(1) f(1,3) l True m(2,3) c1(1,2) ok(2) by (simp add: client_sent_func_def acked_client_def)
    ultimately show ?thesis using c1(3-5) by blast
  qed
qed

lemma stack_acks_all:
  "ts_store s p = Some c \<Longrightarrow> flushing c \<Longrightarrow> 0 < ts_num s \<Longrightarrow> \<forall>x\<in>set xs. stack_takes (fst x) \<Longrightarrow>
    \<exists>d a s1. stack_acks xs s p = Some (d, a, s1)
      \<and> (ts_store s1 p = None \<and> th_written c @ d = th_got c \<and> th_acked c + a = int (length (th_got c))
         \<or> (\<exists>c1. ts_store s1 p = Some c1 \<and> flushing c1 \<and> th_got c1 = th_got c \<and> th_written c1 = th_written c @ d
              \<and> th_acked c1 = th_acked c + a \<and> int (length xs) \<le> a))"
proof (induction xs arbitrary: s c)
  case (Cons x xs)
  obtain te k where x: "x = (te, k)" by (cases x)
  note f = flushing_fields [OF Cons.prems(2)]
  define len where "len = 1 + int k mod tc_socks_recv_tcp_pending c"
  have l: "0 < len" "len \<le> tc_socks_recv_tcp_pending c" using mod_between [OF f(5), of k] by (simp_all add: len_def)
  have t: "stack_takes te" using Cons.prems(4) x by simp
  obtain s1 err where st: "client_sent_func te s p len [] = Some (s1, err)"
    "s1 = gone s p \<and> th_written c = th_got c \<and> th_acked c + len = int (length (th_got c))
       \<or> (\<exists>c1 w. s1 = put_client s p c1 \<and> flushing c1 \<and> th_got c1 = th_got c \<and> th_written c1 = th_written c @ w \<and> th_acked c1 = th_acked c + len)"
    using ack_step [OF Cons.prems(1-3) l t] by blast
  from st(2) show ?case
  proof (elim disjE exE conjE)
    assume g: "s1 = gone s p" "th_written c = th_got c" "th_acked c + len = int (length (th_got c))"
    then have "stack_acks (x # xs) s p = Some ([], len, gone s p)"
      using x Cons.prems(1) f(5) st(1) acks_gone [of "gone s p" p xs] by (simp add: len_def)
    then show ?thesis using g by simp
  next
    fix c1 w assume c1: "s1 = put_client s p c1" "flushing c1" "th_got c1 = th_got c" "th_written c1 = th_written c @ w" "th_acked c1 = th_acked c + len"
    obtain d a s2 where r: "stack_acks xs s1 p = Some (d, a, s2)"
      "ts_store s2 p = None \<and> th_written c1 @ d = th_got c1 \<and> th_acked c1 + a = int (length (th_got c1))
         \<or> (\<exists>c2. ts_store s2 p = Some c2 \<and> flushing c2 \<and> th_got c2 = th_got c1 \<and> th_written c2 = th_written c1 @ d
              \<and> th_acked c2 = th_acked c1 + a \<and> int (length xs) \<le> a)"
      using Cons.IH [of s1 c1] c1(1,2) Cons.prems(3,4) by auto
    have "stack_acks (x # xs) s p = Some (w @ d, len + a, s2)"
      using x Cons.prems(1) f(5) st(1) r(1) c1(1,4) by (simp add: len_def)
    then show ?thesis using r(2) c1(3-5) l(1) by (intro exI [of _ "w @ d"] exI [of _ "len + a"] exI [of _ s2]) auto
  qed
qed auto

text \<open>
  All that is left of \<open>c\<close>'s data from SOCKS reaches the local program: what is written is the next
  part of it, the client goes exactly with the last acknowledgement, and as many acknowledgements as
  there are bytes are enough.
\<close>

definition reaches_program :: "tcp_client \<Rightarrow> (tcp_env \<times> nat) list \<Rightarrow> tcp_engine \<Rightarrow> nat \<Rightarrow> bool" where
  "reaches_program c xs s p \<longleftrightarrow> (\<exists>d rest a s1. stack_acks xs s p = Some (d, a, s1) \<and> th_got c = th_written c @ d @ rest
     \<and> (ts_store s1 p = None \<longleftrightarrow> th_acked c + a = int (length (th_got c)))
     \<and> (ts_store s1 p = None \<longrightarrow> rest = [])
     \<and> (int (length (th_got c)) - th_acked c \<le> int (length xs) \<longrightarrow> ts_store s1 p = None))"

lemma flushing_reaches:
  assumes "ts_store s p = Some c1" "flushing c1" "0 < ts_num s" "\<forall>x\<in>set xs. stack_takes (fst x)"
    and "th_got c1 = th_got c" "th_written c1 = th_written c" "th_acked c1 = th_acked c"
  shows "reaches_program c xs s p"
proof -
  obtain d a s2 where r: "stack_acks xs s p = Some (d, a, s2)"
    "ts_store s2 p = None \<and> th_written c @ d = th_got c \<and> th_acked c + a = int (length (th_got c))
     \<or> (\<exists>c2. ts_store s2 p = Some c2 \<and> flushing c2 \<and> th_got c2 = th_got c \<and> th_written c2 = th_written c @ d
          \<and> th_acked c2 = th_acked c + a \<and> int (length xs) \<le> a)"
    using stack_acks_all [OF assms(1-4)] assms(5-7) by auto
  from r(2) show ?thesis
  proof (elim disjE exE conjE)
    assume "ts_store s2 p = None" "th_written c @ d = th_got c" "th_acked c + a = int (length (th_got c))"
    then show ?thesis using r(1) unfolding reaches_program_def by (intro exI [of _ d] exI [of _ "[]"] exI [of _ a] exI [of _ s2]) simp
  next
    fix c2 assume c2: "ts_store s2 p = Some c2" "flushing c2" "th_got c2 = th_got c" "th_written c2 = th_written c @ d"
      "th_acked c2 = th_acked c + a" "int (length xs) \<le> a"
    note f = flushing_fields [OF c2(2)]
    obtain rest where g: "th_got c = th_written c @ d @ rest" using f(4) c2(3,4) by (auto simp: recv_ok_def)
    have "th_acked c + a < int (length (th_written c @ d))" using f(5,6) c2(4,5) by simp
    then have "th_acked c + a < int (length (th_got c))" using g by simp
    then show ?thesis using r(1) g c2(1,6) unfolding reaches_program_def
      by (intro exI [of _ d] exI [of _ rest] exI [of _ a] exI [of _ s2]) auto
  qed
qed

lemma close_socks:
  assumes c: "ts_store s p = Some c" "tc_ok c" "0 < ts_num s" "tc_socks_up c" "\<not> tc_client_closed c" "th_acked c < int (length (th_got c))"
    and e: "e \<noteq> BSOCKSCLIENT_EVENT_UP" "socks_can s p (JobEvent e)" and t: "\<forall>x\<in>set ys. stack_takes (fst x)"
  shows "\<exists>s1. socks_job te s p (JobEvent e) = Some s1 \<and> reaches_program c ys s1 p"
proof -
  have n: "\<not> tc_socks_closed c" "tc_pcb c = PcbOpen" using c e by (auto simp: socks_can_def tc_ok_def base_part_def)
  have "recv_ok c" using c(2,4,5) unfolding tc_ok_def recv_part_def by blast
  then have k: "0 \<le> tc_socks_recv_buf_used c \<or> 0 < tc_socks_recv_tcp_pending c" using c(6) by (auto simp: recv_ok_def)
  then have so: "socks_ended s p c = put_client s p (unsocked c)" using c(4,5) by (simp add: socks_ended_def)
  then have "client_free_socks te s p = Some (put_client s p (unsocked c))"
    using free_socks [OF c(1) n(1) _ c(3), of te] n(2) by simp
  then have "socks_job te s p (JobEvent e) = Some (put_client s p (unsocked c))"
    using e(1) c(1,4) n(1) by (cases e) (simp_all add: socks_job_def client_socks_handler_def)
  moreover have "tc_ok (unsocked c)" using socks_ended_end [OF c(2) n(1), of s p] unfolding so by (rule end_put)
  then have "flushing (unsocked c)" by (simp add: flushing_def unsocked_def)
  then have "reaches_program c ys (put_client s p (unsocked c)) p"
    using c(3) t by (intro flushing_reaches [of _ _ "unsocked c"]) (simp_all add: unsocked_def)
  ultimately show ?thesis by blast
qed

section \<open>Clients to try the handlers on\<close>

definition demo_mem :: tcp_client where
  "demo_mem = \<lparr>tc_local_addr = BADDR_NONE, tc_remote_addr = BADDR_NONE, tc_pcb = PcbFreed, tc_err_cb = False, tc_recv_cb = False, tc_sent_cb = False,
     tc_client_closed = True, tc_buf = replicate 65535 7, tc_buf_used = 9, tc_socks_dest = BADDR_NONE,
     tc_socks_up = True, tc_socks_closed = True, tc_send_if = None, tc_recv_if = False, tc_socks_recv_buf = replicate 8192 8,
     tc_socks_recv_buf_used = 9, tc_socks_recv_buf_sent = 9, tc_socks_recv_waiting = True, tc_socks_recv_tcp_pending = 9,
     th_in = [], th_sent = [], th_confirmed = 0, th_got = [], th_written = [], th_acked = 0\<rparr>"

definition demo_accept :: "nat \<Rightarrow> accept_env" where
  "demo_accept p = \<lparr>ae_malloc = Some (p, demo_mem), ae_concat_ok = True, ae_socks_ok = True, ae_print = (\<lambda>_. [1])\<rparr>"

definition demo_pcb :: tcp_pcb where
  "demo_pcb = \<lparr>np_is_ipv6 = False, np_local_ip4 = 7, np_local_ip6 = [], np_local_port = 80, np_remote_ip4 = 3, np_remote_ip6 = [], np_remote_port = 4000\<rparr>"

definition demo_answers :: tcp_env where
  "demo_answers = \<lparr>te_close = LWIP_OK, te_output = LWIP_OK, te_sndbuf = (\<lambda>_. 2), te_write = (\<lambda>_. LWIP_OK)\<rparr>"

definition demo_none :: tcp_engine where
  "demo_none = \<lparr>ts_clients = LinkedList1_Init (\<lambda>_. \<lparr>nxt = None, prv = None\<rparr>), ts_num = 0, ts_store = Map.empty, ts_names = Map.empty, ts_username = Some [5],
     ts_append_source = True, ts_auth_username = None\<rparr>"

lemma demo_mem_ok: "mem_ok demo_mem"
  by (simp add: mem_ok_def demo_mem_def)

lemma demo_none_reach: "tun_reach demo_none"
  unfolding demo_none_def by (rule tun_reach.TcStart)

lemma demo_accept_allowed: "ts_store s p = None \<Longrightarrow> tun_allowed s (TcAccept (demo_accept p) np jobs)"
  using demo_mem_ok by (simp add: tun_allowed_def demo_accept_def)

text \<open>A client that has been accepted and has sent two bytes.\<close>

lemma demo_client:
  "\<exists>s c. tun_reach s \<and> ts_store s 1 = Some c \<and> tc_recv_cb c \<and> tc_buf_used c = 2 \<and> th_in c = [6, 7] \<and> \<not> tc_client_closed c \<and> \<not> tc_socks_closed c"
proof -
  let ?l = "baddr_from_lwip False 7 [] 80" and ?r = "baddr_from_lwip False 3 [] 4000"
  let ?c = "new_client demo_mem ?l ?r"
  obtain s1 where s1: "tun_step demo_none (TcAccept (demo_accept 1) demo_pcb []) = Some s1" "ts_store s1 1 = Some ?c"
    by (simp add: tun_step_def listener_accept_func_def demo_accept_def demo_none_def demo_pcb_def Let_def new_client_def dead_client_def)
  have r1: "tun_reach s1" using s1(1) by (intro tun_reach.TcStep [OF demo_none_reach demo_accept_allowed]) (simp_all add: demo_none_def)
  have f: "tc_recv_cb ?c" "\<not> tc_client_closed ?c" "tc_buf_used ?c = 0" "\<not> tc_socks_up ?c" "\<not> tc_socks_closed ?c" "th_in ?c = []" "length (tc_buf ?c) = 65535"
    using demo_mem_ok by (simp_all add: new_client_def mem_ok_def)
  obtain buf where b: "store (tc_buf ?c) 0 [6, 7] = Some buf" using f(7) by (simp add: store_def in_range_def)
  have "client_recv_func demo_answers s1 1 (Some [6, 7]) [] = Some (put_client s1 1 (fed_client ?c [6, 7] buf), LWIP_OK, True)"
    using s1(2) f b by (simp add: client_recv_func_def fed_client_def)
  then have "tun_reach (put_client s1 1 (fed_client ?c [6, 7] buf))"
    using s1(2) f(1) by (intro tun_reach.TcStep [OF r1, of "TcRecv demo_answers 1 (Some [6, 7]) []"]) (simp_all add: tun_allowed_def tun_step_def)
  moreover have "tc_recv_cb (fed_client ?c [6, 7] buf)" "tc_buf_used (fed_client ?c [6, 7] buf) = 2" "th_in (fed_client ?c [6, 7] buf) = [6, 7]"
    "\<not> tc_client_closed (fed_client ?c [6, 7] buf)" "\<not> tc_socks_closed (fed_client ?c [6, 7] buf)" using f by (simp_all add: fed_client_def)
  ultimately show ?thesis using put_simps(1) by blast
qed

section \<open>Properties\<close>

text \<open>
  C15: Whatever connections are accepted, whatever data, errors and closings come from the stack and
  from the SOCKS side in whatever order, the list of the clients is intact and has the number of
  clients that is counted, and it has exactly the clients that are allocated; of every client, what
  the local program has sent is what SOCKS has taken and what is in the buffer, in order, and what SOCKS
  has delivered is what the stack has taken and what is in the other buffer.  Every event that can
  come next is handled without a failed assertion, a use of a freed client or connection or an access
  outside a buffer, with one exception: with \<^verbatim>\<open>--append-source-to-username\<close>, a SOCKS client that
  is asked for the password may read a user name that has been freed.  Without that option it always
  reads the user name of the command line.
\<close>

theorem tcp_clients_in_order:
  assumes "tun_reach s"
  shows "(\<exists>xs. LinkedList1_walk (nat (ts_num s)) (ts_clients s) (LinkedList1_GetFirst (ts_clients s)) = Some xs
        \<and> distinct xs \<and> int (length xs) = ts_num s \<and> set xs = dom (ts_store s))
    \<and> (\<forall>p c. ts_store s p = Some c \<longrightarrow> th_in c = th_sent c @ take (nat (tc_buf_used c)) (tc_buf c)
        \<and> (tc_socks_up c \<and> \<not> tc_client_closed c \<longrightarrow>
             (\<exists>left. th_got c = th_written c @ left \<and> length left \<le> 8192 \<and> th_acked c \<le> int (length (th_written c)))))
    \<and> (\<forall>e. tun_allowed s e \<and> (names_shared s \<longrightarrow> (\<forall>p. e \<noteq> TcPassword p)) \<longrightarrow> (\<exists>s1. tun_step s e = Some s1))
    \<and> (\<not> names_shared s \<longrightarrow> shared_name s = ts_username s)"
proof -
  obtain xs where i: "ts_inv xs s" using tun_reach_inv [OF assms] by blast
  then have d: "dll (ts_clients s) xs" "ts_num s = int (length xs)" "set xs = dom (ts_store s)" by (auto simp: ts_inv_def)
  have l: "\<exists>xs. LinkedList1_walk (nat (ts_num s)) (ts_clients s) (LinkedList1_GetFirst (ts_clients s)) = Some xs
        \<and> distinct xs \<and> int (length xs) = ts_num s \<and> set xs = dom (ts_store s)"
    using d l1.holds_walk [OF d(1)] l1.holds_distinct [OF d(1)] by (intro exI [of _ xs]) simp
  have "\<exists>left. th_got c = th_written c @ left \<and> length left \<le> 8192 \<and> th_acked c \<le> int (length (th_written c))" if "recv_ok c" for c
    using that by (auto simp: recv_ok_def)
  then have b: "\<forall>p c. ts_store s p = Some c \<longrightarrow> th_in c = th_sent c @ take (nat (tc_buf_used c)) (tc_buf c)
      \<and> (tc_socks_up c \<and> \<not> tc_client_closed c \<longrightarrow>
           (\<exists>left. th_got c = th_written c @ left \<and> length left \<le> 8192 \<and> th_acked c \<le> int (length (th_written c))))"
    using ts_inv_num [OF i] unfolding tc_ok_def base_part_def recv_part_def by blast
  have e: "\<forall>e. tun_allowed s e \<and> (names_shared s \<longrightarrow> (\<forall>p. e \<noteq> TcPassword p)) \<longrightarrow> (\<exists>s1. tun_step s e = Some s1)"
    using tun_step_inv [OF i] by blast
  have n: "\<not> names_shared s \<longrightarrow> shared_name s = ts_username s" using i by (auto simp: ts_inv_def shared_name_def)
  show ?thesis by (rule conjI [OF l conjI [OF b conjI [OF e n]]])
qed

theorem tcp_clients_in_order_witness:
  "\<exists>s c s1. tun_reach s \<and> ts_store s 1 = Some c \<and> [6, 7] = th_sent c @ take (nat (tc_buf_used c)) (tc_buf c)
    \<and> tun_step s (TcRecv demo_answers 1 None []) = Some s1"
proof -
  obtain s c where s: "tun_reach s" "ts_store s 1 = Some c" "tc_recv_cb c" "th_in c = [6, 7]" using demo_client by blast
  then have "tun_allowed s (TcRecv demo_answers 1 None [])" by (simp add: tun_allowed_def)
  moreover note o = tcp_clients_in_order [OF s(1)]
  ultimately obtain s1 where "tun_step s (TcRecv demo_answers 1 None []) = Some s1" by blast
  moreover have "[6, 7] = th_sent c @ take (nat (tc_buf_used c)) (tc_buf c)" using o s(2,4) by metis
  ultimately show ?thesis using s(1,2) by blast
qed

text \<open>
  C17: A callback returns \<open>ERR_ABRT\<close> exactly if the connection is gone when it returns, which is what the
  stack relies on.  And while the stack keeps to the window that has been confirmed to it, data that it
  delivers is never refused.
\<close>

theorem tcp_callbacks_return:
  assumes "tun_reach s" and "ts_store s p = Some c"
  shows "(tc_recv_cb c \<and> data \<noteq> Some [] \<longrightarrow>
       (\<exists>s1 err freed. client_recv_func te s p data jobs = Some (s1, err, freed) \<and> (err = LWIP_ABRT \<longleftrightarrow> dead_client s1 p)
         \<and> (\<forall>d. data = Some d \<and> int (length (th_in c)) - th_confirmed c + int (length d) \<le> TCP_WND \<longrightarrow> err \<noteq> LWIP_MEM)))
    \<and> (tc_sent_cb c \<and> 0 < len \<and> len \<le> tc_socks_recv_tcp_pending c \<longrightarrow>
       (\<exists>s1 err. client_sent_func te s p len jobs = Some (s1, err) \<and> (err = LWIP_ABRT \<longleftrightarrow> dead_client s1 p)))"
proof (intro conjI impI)
  note k = reach_client [OF assms]
  assume a: "tc_recv_cb c \<and> data \<noteq> Some []"
  obtain s1 err f where r: "client_recv_func te s p data jobs = Some (s1, err, f)" "err = LWIP_ABRT \<longleftrightarrow> dead_client s1 p"
    "err = LWIP_MEM \<longleftrightarrow> (\<exists>d. data = Some d \<and> int (length d) > TCP_WND - tc_buf_used c)"
    using recv_func_end [OF assms(2) conjunct1 [OF k] conjunct1 [OF a] conjunct2 [OF k] conjunct2 [OF a], of te jobs]
    by (elim exE conjE) (erule (2) that)
  have b: "base_part c" "\<not> tc_client_closed c" using k a by (simp_all add: tc_ok_def base_part_def)
  then have "length (tc_buf c) = 65535" "0 \<le> tc_buf_used c" "tc_buf_used c \<le> 65535" "th_in c = th_sent c @ take (nat (tc_buf_used c)) (tc_buf c)"
    "th_confirmed c = int (length (th_sent c))" by (simp_all add: base_part_def)
  then have "int (length (th_in c)) - th_confirmed c = tc_buf_used c" by simp
  then show "\<exists>s1 err freed. client_recv_func te s p data jobs = Some (s1, err, freed) \<and> (err = LWIP_ABRT \<longleftrightarrow> dead_client s1 p)
         \<and> (\<forall>d. data = Some d \<and> int (length (th_in c)) - th_confirmed c + int (length d) \<le> TCP_WND \<longrightarrow> err \<noteq> LWIP_MEM)"
    using r by (intro exI [of _ s1] exI [of _ err] exI [of _ f]) auto
next
  note k = reach_client [OF assms]
  assume "tc_sent_cb c \<and> 0 < len \<and> len \<le> tc_socks_recv_tcp_pending c"
  then obtain r err where "client_sent_func te s p len jobs = Some (r, err)" "callback_end s p r err"
    using sent_func_end [OF assms(2)] k by blast
  then show "\<exists>s1 err. client_sent_func te s p len jobs = Some (s1, err) \<and> (err = LWIP_ABRT \<longleftrightarrow> dead_client s1 p)"
    by (auto simp: callback_end_def split: if_splits)
qed

theorem tcp_callbacks_return_witness:
  "\<exists>s s1 err freed. tun_reach s \<and> client_recv_func demo_answers s 1 None [] = Some (s1, err, freed) \<and> (err = LWIP_ABRT \<longleftrightarrow> dead_client s1 1)"
proof -
  obtain s c where s: "tun_reach s" "ts_store s 1 = Some c" "tc_recv_cb c" using demo_client by blast
  then show ?thesis using tcp_callbacks_return [OF s(1,2), of None demo_answers "[]" 0] by blast
qed

text \<open>
  C16: Closing one side loses nothing while the other side goes on.  When the local program has closed
  the connection and there is data for SOCKS, the client is kept, and as the SOCKS connection comes up
  and reports send after send, of however few bytes each, it is given every byte that is left, in order;
  the client goes exactly with the last of them.  When the SOCKS connection has ended and there is data
  that the local program has not acknowledged, the client is kept, and as acknowledgement after
  acknowledgement comes, of however few bytes each, and the stack takes data again, every byte that is
  left is written, in order; the client goes exactly with the last acknowledgement.  The other side has
  to go on: a SOCKS connection that fails after the local program has closed, or a local connection
  that fails, still loses what is left.
\<close>

theorem tcp_close_delivers:
  assumes "tun_reach s" and "ts_store s p = Some c" and "\<forall>y\<in>set ys. stack_takes (fst y)"
  shows "(tc_recv_cb c \<and> 0 < tc_buf_used c \<longrightarrow>
       (\<exists>s1. client_recv_func te s p None jobs = Some (s1, LWIP_ABRT, False) \<and> reaches_socks c xs s1 p))
    \<and> (tc_client_closed c \<longrightarrow> reaches_socks c xs s p)
    \<and> (e \<noteq> BSOCKSCLIENT_EVENT_UP \<and> socks_can s p (JobEvent e) \<and> tc_socks_up c \<and> \<not> tc_client_closed c \<and> th_acked c < int (length (th_got c)) \<longrightarrow>
       (\<exists>s1. socks_job te s p (JobEvent e) = Some s1 \<and> reaches_program c ys s1 p))
    \<and> (tc_socks_closed c \<longrightarrow> reaches_program c ys s p)"
proof -
  have k: "tc_ok c" "0 < ts_num s" using reach_client [OF assms(1,2)] by simp_all
  have 1: "tc_client_closed c \<longrightarrow> reaches_socks c xs s p"
    using draining_reaches [OF assms(2) _ k(2) refl refl refl] k(1) by (simp add: draining_def)
  have 2: "tc_socks_closed c \<longrightarrow> reaches_program c ys s p"
    using flushing_reaches [OF assms(2) _ k(2) assms(3) refl refl refl] k(1) by (simp add: flushing_def)
  show ?thesis
    using close_recv [OF assms(2) k, of te jobs xs] close_socks [OF assms(2) k _ _ _ _ _ assms(3), of e te] 1 2 by blast
qed

theorem tcp_close_delivers_witness:
  "\<exists>s s1 s2. tun_reach s \<and> client_recv_func demo_answers s 1 None [] = Some (s1, LWIP_ABRT, False)
    \<and> socks_takes [(demo_answers, 0), (demo_answers, 0), (demo_answers, 0)] s1 1 = Some ([6, 7], s2) \<and> ts_store s2 1 = None"
proof -
  obtain s c where s: "tun_reach s" "ts_store s 1 = Some c" "tc_recv_cb c" "tc_buf_used c = 2" "th_in c = [6, 7]" using demo_client by blast
  have ok: "tc_ok c" using reach_client [OF s(1,2)] by simp
  then have i: "th_sent c @ take 2 (tc_buf c) = [6, 7]" and l: "length (tc_buf c) = 65535"
    using s(4,5) by (simp_all add: tc_ok_def base_part_def)
  have "length (th_sent c @ take 2 (tc_buf c)) = 2" unfolding i by simp
  then have e: "th_sent c = []" using l by simp
  let ?xs = "[(demo_answers, 0), (demo_answers, 0), (demo_answers, 0 :: nat)]"
  obtain s1 where s1: "client_recv_func demo_answers s 1 None [] = Some (s1, LWIP_ABRT, False)" "reaches_socks c ?xs s1 1"
    using tcp_close_delivers [OF s(1,2), of "[]" demo_answers "[]" ?xs] s(3,4) by fastforce
  then obtain s2 where "socks_takes ?xs s1 1 = Some ([6, 7], s2)" "ts_store s2 1 = None"
    using e s(4,5) by (auto simp: reaches_socks_def simp del: socks_takes.simps)
  then show ?thesis using s(1) s1(1) by blast
qed

text \<open>
  C18: The end of the program frees every client, whatever state it is in: the loop ends, and nothing is
  left in the list or allocated.
\<close>

theorem tcp_shutdown_frees:
  assumes "tun_reach s"
  shows "\<exists>s1. free_clients s = Some s1 \<and> ts_store s1 = Map.empty \<and> ts_num s1 = 0 \<and> LinkedList1_IsEmpty (ts_clients s1)"
proof -
  obtain xs where "ts_inv xs s" using tun_reach_inv [OF assms] by blast
  then obtain s1 where s1: "free_clients s = Some s1" "ts_inv [] s1" using free_clients_inv by blast
  then have "ts_store s1 = Map.empty" "ts_num s1 = 0" "LinkedList1_IsEmpty (ts_clients s1)"
    using dll_IsEmpty [of "ts_clients s1" "[]"] by (auto simp: ts_inv_def)
  then show ?thesis using s1(1) by blast
qed

theorem tcp_shutdown_frees_witness:
  "\<exists>s c s1. tun_reach s \<and> ts_store s 1 = Some c \<and> free_clients s = Some s1 \<and> ts_store s1 = Map.empty"
proof -
  obtain s c where "tun_reach s" "ts_store s 1 = Some c" using demo_client by blast
  then show ?thesis using tcp_shutdown_frees [of s] by blast
qed

section \<open>Behaviour the clients should not have\<close>

text \<open>
  With \<^verbatim>\<open>--append-source-to-username\<close>, all SOCKS clients share the authentication data, in which the
  user name of the last accepted connection is; when that one is freed, an older client that is then
  asked for the password reads freed memory.
\<close>

theorem shared_username_dangles:
  "\<exists>s1 s2 s3. tun_step demo_none (TcAccept (demo_accept 1) demo_pcb []) = Some s1 \<and> tun_step s1 (TcAccept (demo_accept 2) demo_pcb []) = Some s2
    \<and> tun_step s2 (TcSocks demo_answers 2 (JobEvent BSOCKSCLIENT_EVENT_ERROR)) = Some s3
    \<and> tun_allowed s3 (TcPassword 1) \<and> tun_step s3 (TcPassword 1) = None"
proof -
  let ?l = "baddr_from_lwip False 7 [] 80" and ?r = "baddr_from_lwip False 3 [] 4000"
  let ?c = "new_client demo_mem ?l ?r"
  define nx where "nx s p = s\<lparr>ts_auth_username := Some p, ts_names := (ts_names s)(p \<mapsto> [5, 0x40, 1]),
      ts_clients := LinkedList1_Append (ts_clients s) p, ts_num := ts_num s + 1\<rparr>" for s :: tcp_engine and p
  have acc: "tun_step s (TcAccept (demo_accept p) demo_pcb []) = Some (put_client (nx s p) p ?c)"
    if "ts_username s = Some [5]" "ts_append_source s" "0 \<le> ts_num s" for s p
    using that by (simp add: tun_step_def listener_accept_func_def demo_accept_def demo_pcb_def Let_def new_client_def nx_def)
  define s1 where "s1 = put_client (nx demo_none 1) 1 ?c"
  define s2 where "s2 = put_client (nx s1 2) 2 ?c"
  have f: "ts_username s1 = Some [5]" "ts_append_source s1" "ts_num s1 = 1" "ts_num s2 = 2" "ts_store s2 1 = Some ?c"
    "ts_store s2 2 = Some ?c" "ts_username s2 = Some [5]" "ts_auth_username s2 = Some 2"
    by (simp_all add: s1_def s2_def nx_def demo_none_def put_client_def)
  have "tun_step demo_none (TcAccept (demo_accept 1) demo_pcb []) = Some s1"
    unfolding s1_def by (rule acc) (simp_all add: demo_none_def)
  moreover have "tun_step s1 (TcAccept (demo_accept 2) demo_pcb []) = Some s2"
    unfolding s2_def by (rule acc) (simp_all add: f)
  moreover have "client_free_socks demo_answers s2 2 = Some (gone s2 2)"
    using free_socks [of s2 2 ?c demo_answers] f by (simp add: socks_ended_def new_client_def)
  then have "tun_step s2 (TcSocks demo_answers 2 (JobEvent BSOCKSCLIENT_EVENT_ERROR)) = Some (gone s2 2)"
    using f by (simp add: tun_step_def socks_job_def client_socks_handler_def new_client_def)
  moreover have "tun_allowed (gone s2 2) (TcPassword 1)" using f by (simp add: tun_allowed_def gone_def new_client_def)
  moreover have "tun_step (gone s2 2) (TcPassword 1) = None"
    using f by (simp add: tun_step_def socks_password_def shared_name_def gone_def)
  ultimately show ?thesis by blast
qed

text \<open>
  When the SOCKS side fails while the data that has just been received is being sent, the callback
  returns without freeing the packet buffer, which the stack does not free either.
\<close>

theorem received_buffer_leaks:
  assumes c: "ts_store s p = Some c" "tc_ok c" "0 < ts_num s" "tc_recv_cb c" "tc_socks_up c" "tc_buf_used c = 0"
    and r: "tc_socks_recv_buf_used c = -1" "tc_socks_recv_tcp_pending c = 0"
  shows "client_recv_func te s p (Some [d]) [(te, JobEvent BSOCKSCLIENT_EVENT_ERROR)] = Some (gone s p, LWIP_ABRT, False)"
proof -
  have b: "\<not> tc_client_closed c" "\<not> tc_socks_closed c" "tc_pcb c = PcbOpen" "length (tc_buf c) = 65535" using c(2,4) by (simp_all add: tc_ok_def base_part_def)
  have n: "tc_send_if c = None" using c(2,6) by (cases "tc_send_if c") (auto simp: tc_ok_def send_part_def)
  obtain buf where st: "store (tc_buf c) 0 [d] = Some buf" using b(4) by (simp add: store_def in_range_def)
  let ?c = "(fed_client c [d] buf)\<lparr>tc_send_if := Some 1\<rparr>"
  have "client_free_socks te (put_client s p ?c) p = Some (gone s p)"
    using free_socks [of "put_client s p ?c" p ?c te] b(1-3) c(3) r by (simp add: fed_client_def socks_ended_def)
  then have "run_jobs (put_client s p ?c) p [(te, JobEvent BSOCKSCLIENT_EVENT_ERROR)] = Some (gone s p)"
    using b(2) by (simp add: socks_can_def socks_job_def client_socks_handler_def fed_client_def)
  moreover have "client_send_to_socks (put_client s p (fed_client c [d] buf)) p = Some (put_client s p ?c)"
    using send_to_socks [of "fed_client c [d] buf"] b(2) n c(5,6) by (simp add: fed_client_def)
  ultimately show ?thesis using c(1,5,6) b(1,2) st by (simp add: client_recv_func_def fed_client_def dead_client_def)
qed

end
