(* ===== verification/Parse_Number.thy ===== *)
theory Parse_Number
  imports Byte_Order C_Memory
begin

text \<open>
  Numbers as text, \<^verbatim>\<open>badvpn/misc/parse_number.h\<close>: strings are their bytes, and the results have the 64
  bits of \<^verbatim>\<open>uintmax_t\<close>.  The variants for chunked strings are not used by the tunnel.
\<close>

section \<open>The code\<close>

definition decode_decimal_digit :: "u8 \<Rightarrow> int" where
  "decode_decimal_digit c =
     (if c = 0x30 then 0 else if c = 0x31 then 1 else if c = 0x32 then 2 else if c = 0x33 then 3 else if c = 0x34 then 4
      else if c = 0x35 then 5 else if c = 0x36 then 6 else if c = 0x37 then 7 else if c = 0x38 then 8 else if c = 0x39 then 9 else -1)"

definition decode_hex_digit :: "u8 \<Rightarrow> int" where
  "decode_hex_digit c =
     (if c = 0x30 then 0 else if c = 0x31 then 1 else if c = 0x32 then 2 else if c = 0x33 then 3 else if c = 0x34 then 4
      else if c = 0x35 then 5 else if c = 0x36 then 6 else if c = 0x37 then 7 else if c = 0x38 then 8 else if c = 0x39 then 9
      else if c = 0x41 \<or> c = 0x61 then 10 else if c = 0x42 \<or> c = 0x62 then 11 else if c = 0x43 \<or> c = 0x63 then 12
      else if c = 0x44 \<or> c = 0x64 then 13 else if c = 0x45 \<or> c = 0x65 then 14 else if c = 0x46 \<or> c = 0x66 then 15 else -1)"

fun parse_no_overflow :: "usize \<Rightarrow> bytes \<Rightarrow> usize option" where
  "parse_no_overflow n [] = Some n"
| "parse_no_overflow n (c # str) =
     (if c < 0x30 \<or> c > 0x39 then None else parse_no_overflow (10 * n + ucast (c - 0x30)) str)"

definition uintmax_max_str :: bytes where
  "uintmax_max_str = [0x31, 0x38, 0x34, 0x34, 0x36, 0x37, 0x34, 0x34, 0x30, 0x37, 0x33, 0x37, 0x30, 0x39, 0x35, 0x35, 0x31, 0x36, 0x31, 0x35]"

definition parse_unsigned_integer_bin :: "bytes \<Rightarrow> usize option" where
  "parse_unsigned_integer_bin str =
     (if str = [] then None
      else
        (let s = dropWhile (\<lambda>c. c = 0x30) str in
         if length s > length uintmax_max_str \<or> length s = length uintmax_max_str \<and> memcmp s uintmax_max_str > 0 then None
         else parse_no_overflow 0 s))"

fun parse_hex_loop :: "usize \<Rightarrow> bytes \<Rightarrow> usize option" where
  "parse_hex_loop n [] = Some n"
| "parse_hex_loop n (c # str) =
     (let digit = decode_hex_digit c in
      if digit < 0 then None
      else if n > - 1 div 16 then None
      else let n1 = n * 16 in
        if digit > uint (- 1 - n1) then None
        else parse_hex_loop (n1 + word_of_int digit) str)"

definition parse_unsigned_hex_integer_bin :: "bytes \<Rightarrow> usize option" where
  "parse_unsigned_hex_integer_bin str = (if str = [] then None else parse_hex_loop 0 str)"

definition parse_signmag_integer_bin :: "bytes \<Rightarrow> (int \<times> usize) option" where
  "parse_signmag_integer_bin str =
     (let signed = (case str of [] \<Rightarrow> False | c # _ \<Rightarrow> c = 0x2b \<or> c = 0x2d);
          sign = (if signed \<and> hd str = 0x2d then -1 else 1)
      in map_option (\<lambda>mag. (sign, mag)) (parse_unsigned_integer_bin (if signed then tl str else str)))"

lemma usize_div_less: "x div 10 > 0 \<Longrightarrow> unat (x div 10) < unat (x :: usize)"
proof -
  assume "x div 10 > 0"
  then have "0 < unat x div 10" by (simp add: word_less_nat_alt unat_div)
  then show ?thesis by (simp add: unat_div)
qed

function compute_decimal_repr_size :: "usize \<Rightarrow> nat" where
  "compute_decimal_repr_size x = (if x div 10 > 0 then Suc (compute_decimal_repr_size (x div 10)) else 1)"
  by pat_completeness auto

termination
  by (relation "measure unat") (simp_all add: usize_div_less)

text \<open>The digits are written from the end of the number; \<open>pos\<close> is one behind the next digit.\<close>

function write_digits :: "usize \<Rightarrow> bytes \<Rightarrow> int \<Rightarrow> bytes option" where
  "write_digits x buf pos =
     (case store buf (pos - 1) [0x30 + ucast (x mod 10)] of
        None \<Rightarrow> None
      | Some buf1 \<Rightarrow> if x div 10 > 0 then write_digits (x div 10) buf1 (pos - 1) else Some buf1)"
  by pat_completeness auto

termination
  by (relation "measure (\<lambda>(x, buf, pos). unat x)") (simp_all add: usize_div_less)

declare compute_decimal_repr_size.simps [simp del] write_digits.simps [simp del]

definition generate_decimal_repr :: "usize \<Rightarrow> bytes \<Rightarrow> nat \<Rightarrow> bytes option" where
  "generate_decimal_repr x buf repr_size =
     (if repr_size \<noteq> compute_decimal_repr_size x then None else write_digits x buf (int repr_size))"

definition generate_decimal_repr_string :: "usize \<Rightarrow> bytes \<Rightarrow> (bytes \<times> nat) option" where
  "generate_decimal_repr_string x buf =
     (let repr_size = compute_decimal_repr_size x in
      case generate_decimal_repr x buf repr_size of
        None \<Rightarrow> None
      | Some buf1 \<Rightarrow> map_option (\<lambda>buf2. (buf2, repr_size)) (store buf1 (int repr_size) [0]))"

section \<open>Values of strings\<close>

definition is_digit :: "u8 \<Rightarrow> bool" where
  "is_digit c \<longleftrightarrow> 0x30 \<le> c \<and> c \<le> 0x39"

definition digit_val :: "u8 \<Rightarrow> nat" where
  "digit_val c = unat c - 48"

definition dec_value :: "bytes \<Rightarrow> nat" where
  "dec_value str = foldl (\<lambda>n c. 10 * n + digit_val c) 0 str"

lemma digit_val_less: "is_digit c \<Longrightarrow> digit_val c < 10"
proof -
  assume "is_digit c"
  then have "48 \<le> unat c" "unat c \<le> 57" by (simp_all add: is_digit_def word_le_nat_alt)
  then show ?thesis unfolding digit_val_def by arith
qed

lemma foldl_dec: "foldl (\<lambda>n c. 10 * n + digit_val c) n str = n * 10 ^ length str + dec_value str"
proof (induction str arbitrary: n)
  case (Cons c str)
  have "dec_value (c # str) = digit_val c * 10 ^ length str + dec_value str" using Cons [of "digit_val c"] by (simp add: dec_value_def)
  then show ?case using Cons [of "10 * n + digit_val c"] by (simp add: algebra_simps)
qed (simp add: dec_value_def)

lemma dec_value_Cons [simp]: "dec_value (c # str) = digit_val c * 10 ^ length str + dec_value str"
  using foldl_dec [of "digit_val c" str] by (simp add: dec_value_def)

lemma dec_value_Nil [simp]: "dec_value [] = 0"
  by (simp add: dec_value_def)

lemma dec_value_append: "dec_value (as @ bs) = dec_value as * 10 ^ length bs + dec_value bs"
  by (induction as) (simp_all add: algebra_simps power_add)

lemma dec_value_less: "\<forall>c \<in> set str. is_digit c \<Longrightarrow> dec_value str < 10 ^ length str"
proof (induction str)
  case (Cons c str)
  then have "dec_value str < 10 ^ length str" "digit_val c \<le> 9" using digit_val_less [of c] by auto
  moreover have "digit_val c * 10 ^ length str \<le> 9 * 10 ^ length str" using calculation(2) by (rule mult_right_mono) simp
  ultimately have "digit_val c * 10 ^ length str + dec_value str < 10 * 10 ^ length str" by linarith
  then show ?case by simp
qed simp

lemma dec_value_zeros: "dec_value (dropWhile (\<lambda>c. c = 0x30) str) = dec_value str"
  by (induction str) (simp_all add: digit_val_def)

lemma zeros_digits: "(\<forall>c \<in> set (dropWhile (\<lambda>c. c = 0x30) str). is_digit c) \<longleftrightarrow> (\<forall>c \<in> set str. is_digit c)"
  by (induction str) (auto simp: is_digit_def)

lemma not_digit: "c < 0x30 \<or> c > 0x39 \<longleftrightarrow> \<not> is_digit c"
  by (auto simp: is_digit_def)

lemma parse_no_overflow_none: "\<not> (\<forall>c \<in> set str. is_digit c) \<Longrightarrow> parse_no_overflow n str = None"
  by (induction str arbitrary: n) (auto simp: not_digit)

lemma digit_word: "is_digit c \<Longrightarrow> (ucast (c - 0x30) :: usize) = of_nat (digit_val c)"
proof -
  assume "is_digit c"
  then have "0x30 \<le> c" by (simp add: is_digit_def)
  then have "unat (c - 0x30) = digit_val c" by (simp add: digit_val_def unat_sub)
  then show ?thesis by (metis of_nat_unat)
qed

lemma parse_no_overflow_some:
  "\<forall>c \<in> set str. is_digit c \<Longrightarrow> parse_no_overflow n str = Some (n * 10 ^ length str + of_nat (dec_value str))"
proof (induction str arbitrary: n)
  case (Cons c str)
  then have "is_digit c" by simp
  then have "parse_no_overflow n (c # str) = parse_no_overflow (10 * n + of_nat (digit_val c)) str"
    using not_digit [of c] digit_word [of c] by simp
  then show ?case using Cons by (simp add: algebra_simps)
qed simp

lemma memcmp_value:
  assumes "length as = length bs" "\<forall>c \<in> set as. is_digit c" "\<forall>c \<in> set bs. is_digit c"
  shows "0 < memcmp as bs \<longleftrightarrow> dec_value bs < dec_value as"
  using assms
proof (induction as bs rule: list_induct2)
  case (Cons a as b bs)
  have l: "dec_value as < 10 ^ length bs" "dec_value bs < 10 ^ length bs" using dec_value_less [of as] dec_value_less [of bs] Cons.hyps Cons.prems by simp_all
  have v: "a < b \<longleftrightarrow> digit_val a < digit_val b" "a = b \<longleftrightarrow> digit_val a = digit_val b"
    using Cons.prems by (auto simp: is_digit_def digit_val_def word_le_nat_alt word_less_nat_alt word_unat_eq_iff)
  consider "a = b" | "digit_val a < digit_val b" | "digit_val b < digit_val a" using v(2) by linarith
  then show ?case
  proof cases
    case 2
    then have "Suc (digit_val a) * 10 ^ length bs \<le> digit_val b * 10 ^ length bs" by (intro mult_right_mono) simp_all
    then show ?thesis using 2 v l Cons.hyps by auto
  next
    case 3
    then have "Suc (digit_val b) * 10 ^ length bs \<le> digit_val a * 10 ^ length bs" by (intro mult_right_mono) simp_all
    then show ?thesis using 3 v l Cons.hyps by auto
  qed (use Cons in simp)
qed simp

lemma max_value: "dec_value uintmax_max_str = 2 ^ 64 - 1" "length uintmax_max_str = 20" "\<forall>c \<in> set uintmax_max_str. is_digit c"
  by (simp_all add: uintmax_max_str_def digit_val_def is_digit_def)

lemma long_value:
  assumes "s \<noteq> []" "hd s \<noteq> 0x30" "\<forall>c \<in> set s. is_digit c"
  shows "10 ^ (length s - 1) \<le> dec_value s"
proof (cases s)
  case (Cons c str)
  then have "0 < digit_val c" using assms by (auto simp: is_digit_def digit_val_def word_le_nat_alt word_unat_eq_iff)
  then have "1 * 10 ^ length str \<le> digit_val c * 10 ^ length str" by (intro mult_right_mono) simp_all
  then have "10 ^ length str \<le> digit_val c * 10 ^ length str + dec_value str" by linarith
  then show ?thesis using Cons by (simp only: dec_value_Cons list.size) simp
qed (use assms in simp)

text \<open>The comparison of texts that replaces an overflow check is right.\<close>

lemma too_large:
  assumes "\<forall>c \<in> set s. is_digit c" "s = [] \<or> hd s \<noteq> 0x30"
  shows "length s > length uintmax_max_str \<or> length s = length uintmax_max_str \<and> memcmp s uintmax_max_str > 0 \<longleftrightarrow> 2 ^ 64 \<le> dec_value s"
proof -
  consider "length s < 20" | "length s = 20" | "20 < length s" by linarith
  then show ?thesis
  proof cases
    case 1
    then have "(10 :: nat) ^ length s \<le> 10 ^ 19" by (intro power_increasing) simp_all
    then have "dec_value s < 2 ^ 64" using dec_value_less [OF assms(1)] by simp
    then show ?thesis using 1 max_value(2) by simp
  next
    case 2
    then show ?thesis using memcmp_value [OF _ assms(1) max_value(3)] max_value(1,2) by auto
  next
    case 3
    then have "(10 :: nat) ^ 20 \<le> 10 ^ (length s - 1)" by (intro power_increasing) simp_all
    moreover have "s \<noteq> []" using 3 by auto
    ultimately have "2 ^ 64 \<le> dec_value s" using long_value [of s] assms by simp
    then show ?thesis using 3 max_value(2) by simp
  qed
qed

lemma parse_unsigned_value:
  "parse_unsigned_integer_bin str =
     (if str \<noteq> [] \<and> (\<forall>c \<in> set str. is_digit c) \<and> dec_value str < 2 ^ 64 then Some (of_nat (dec_value str)) else None)"
proof (cases "\<forall>c \<in> set str. is_digit c")
  case True
  let ?s = "dropWhile (\<lambda>c. c = 0x30) str"
  have d: "\<forall>c \<in> set ?s. is_digit c" using True zeros_digits by blast
  have "?s = [] \<or> hd ?s \<noteq> 0x30" using hd_dropWhile [of "\<lambda>c. c = 0x30" str] by auto
  from too_large [OF d this] show ?thesis
    using parse_no_overflow_some [OF d, of 0] True by (simp add: parse_unsigned_integer_bin_def Let_def dec_value_zeros not_le)
next
  case False
  then have "parse_no_overflow 0 (dropWhile (\<lambda>c. c = 0x30) str) = None" using parse_no_overflow_none zeros_digits by blast
  then show ?thesis using False by (auto simp: parse_unsigned_integer_bin_def Let_def)
qed

lemma digit_char: "is_digit (0x30 + ucast (x mod 10 :: usize))" "digit_val (0x30 + ucast (x mod 10 :: usize)) = unat x mod 10"
proof -
  have m: "unat (x mod 10) = unat x mod 10" by (simp add: unat_mod)
  have "unat (ucast (x mod 10) :: u8) = unat x mod 10" using m by (simp add: unsigned_ucast_eq take_bit_eq_mod)
  then have u: "unat (0x30 + ucast (x mod 10) :: u8) = 48 + unat x mod 10"
    by (simp add: unat_word_ariths)
  then show "digit_val (0x30 + ucast (x mod 10)) = unat x mod 10" by (simp add: digit_val_def)
  have "unat x mod 10 \<le> 9" by simp
  then show "is_digit (0x30 + ucast (x mod 10))" using u by (simp add: is_digit_def word_le_nat_alt)
qed

lemma repr_size_pos: "0 < compute_decimal_repr_size x"
  by (subst compute_decimal_repr_size.simps) simp

lemma write_digits_ok:
  assumes "int (compute_decimal_repr_size x) \<le> pos" "pos \<le> int (length buf)"
  shows "\<exists>buf' ds. write_digits x buf pos = Some buf' \<and> agree buf buf' pos (int (length buf)) \<and> length ds = compute_decimal_repr_size x
    \<and> load buf' (pos - int (length ds)) (int (length ds)) = Some ds \<and> (\<forall>c \<in> set ds. is_digit c) \<and> dec_value ds = unat x"
  using assms
proof (induction x buf pos rule: write_digits.induct)
  case (1 x buf pos)
  let ?c = "0x30 + ucast (x mod 10) :: u8" and ?n = "compute_decimal_repr_size x"
  obtain buf1 where b: "store buf (pos - 1) [?c] = Some buf1"
    using 1(2,3) repr_size_pos [of x] by (simp add: store_def in_range_def)
  have a: "agree buf buf1 pos (int (length buf))" by (rule agree_store [OF b]) simp
  have l: "load buf1 (pos - 1) 1 = Some [?c]" using load_store_same [OF b] by simp
  show ?case
  proof (cases "x div 10 > 0")
    case False
    then have n: "?n = 1" by (subst compute_decimal_repr_size.simps) simp
    have "unat x div 10 = 0" using False by (simp add: word_less_nat_alt unat_div)
    then have "unat x mod 10 = unat x" by simp
    then show ?thesis using False b a l n digit_char [of x] by (subst write_digits.simps) (auto intro!: exI [of _ "[?c]"])
  next
    case True
    then have n: "?n = Suc (compute_decimal_repr_size (x div 10))" by (subst compute_decimal_repr_size.simps) simp
    obtain buf' ds where w: "write_digits (x div 10) buf1 (pos - 1) = Some buf'" "agree buf1 buf' (pos - 1) (int (length buf1))"
      "length ds = compute_decimal_repr_size (x div 10)" "load buf' (pos - 1 - int (length ds)) (int (length ds)) = Some ds"
      "\<forall>c \<in> set ds. is_digit c" "dec_value ds = unat (x div 10)"
      using 1(1) [OF b True] 1(2,3) n length_store [OF b] by auto
    have "load buf' (pos - 1) 1 = Some [?c]" using load_agree [OF w(2), of "pos - 1" 1] l 1(3) length_store [OF b] by simp
    then have "load buf' (pos - int (length (ds @ [?c]))) (int (length (ds @ [?c]))) = Some (ds @ [?c])"
      using load_append [OF w(4), of 1 "[?c]"] by (simp add: algebra_simps)
    moreover have "agree buf buf' pos (int (length buf))"
      using a agree_mono [OF w(2), of pos "int (length buf)"] length_store [OF b] by (auto intro: agree_trans)
    moreover have "dec_value (ds @ [?c]) = unat x" using w(6) digit_char(2) [of x] by (simp add: dec_value_append unat_div)
    moreover have "write_digits x buf pos = Some buf'" using True b w(1) by (subst write_digits.simps) simp
    ultimately show ?thesis using w(3,5) n digit_char(1) [of x] by (intro exI [of _ buf'] exI [of _ "ds @ [?c]"]) auto
  qed
qed

section \<open>Properties\<close>

text \<open>
  A string is parsed as an unsigned number exactly if it has at least one character, has digits only
  and stands for less than two to the power of 64, and the result is that number; leading zeros
  do no harm.
\<close>

theorem parse_unsigned_integer_exact:
  "parse_unsigned_integer_bin str =
     (if str \<noteq> [] \<and> list_all is_digit str \<and> dec_value str < 2 ^ 64 then Some (of_nat (dec_value str)) else None)"
  using parse_unsigned_value [of str] by (simp add: list_all_iff)

text \<open>A number that is printed into a large enough buffer is the string that is parsed as that number.\<close>

theorem decimal_repr_round_trip:
  assumes "compute_decimal_repr_size x < length buf"
  shows "\<exists>buf' n. generate_decimal_repr_string x buf = Some (buf', n) \<and> n < length buf' \<and> buf' ! n = 0 \<and> parse_unsigned_integer_bin (take n buf') = Some x"
proof -
  let ?n = "compute_decimal_repr_size x"
  obtain buf1 ds where w: "write_digits x buf (int ?n) = Some buf1" "agree buf buf1 (int ?n) (int (length buf))" "length ds = ?n"
    "load buf1 0 (int ?n) = Some ds" "\<forall>c \<in> set ds. is_digit c" "dec_value ds = unat x"
    using write_digits_ok [of x "int ?n" buf] assms by auto
  have l: "length buf1 = length buf" using w(2) by (simp add: agree_def)
  then obtain buf2 where b: "store buf1 (int ?n) [0] = Some buf2" using assms by (simp add: store_def in_range_def)
  have "load buf2 0 (int ?n) = Some ds" using load_store_other [OF b, of 0 "int ?n"] w(4) by simp
  then have t: "take ?n buf2 = ds" by (simp add: load_def split: if_splits)
  have z: "buf2 ! ?n = 0" using store_nth_in [OF b, of ?n] by simp
  have "ds \<noteq> []" using w(3) repr_size_pos [of x] by auto
  then have "parse_unsigned_integer_bin ds = Some x" using w(5,6) unsigned_less [of x] by (simp add: parse_unsigned_value)
  then show ?thesis using w(1) b t z assms l length_store [OF b]
    by (simp add: generate_decimal_repr_string_def generate_decimal_repr_def Let_def)
qed

theorem decimal_repr_round_trip_witness:
  "compute_decimal_repr_size 1080 < length (replicate 21 (0 :: u8))
   \<and> (\<exists>buf' n. generate_decimal_repr_string 1080 (replicate 21 0) = Some (buf', n) \<and> n < length buf' \<and> buf' ! n = 0
        \<and> parse_unsigned_integer_bin (take n buf') = Some 1080)"
proof -
  have "compute_decimal_repr_size 1080 < length (replicate 21 (0 :: u8))" by code_simp
  with decimal_repr_round_trip [OF this] show ?thesis by blast
qed

end
