(* ===== verification/Ipaddr6.thy ===== *)
theory Ipaddr6
  imports Parse_Number
begin

text \<open>
  IPv6 addresses as text, \<^verbatim>\<open>badvpn/misc/ipaddr6.h\<close>: the parser that \<^verbatim>\<open>tun2socks\<close> uses for the address of
  its interface, the printer, prefixes and masks.  An address is its 16 bytes and a string its
  characters.  \<^const>\<open>None\<close> of the outer type is an access outside a buffer, of the inner one the return value 0.
\<close>

section \<open>The code: parsing an address\<close>

abbreviation DOT :: u8 where "DOT \<equiv> 0x2e"
abbreviation SLASH :: u8 where "SLASH \<equiv> 0x2f"
abbreviation COLON :: u8 where "COLON \<equiv> 0x3a"

record p6 =
  p6_bytes :: bytes
  p6_num_blocks :: int
  p6_compress_pos :: int
  p6_block :: u16
  p6_empty :: bool

text \<open>The end of the loop: a failure, a dot, or the end of the string.\<close>

datatype p6_end = P6Fail | P6Ipv4 p6 nat | P6End p6

definition p6_put :: "p6 \<Rightarrow> p6 option" where
  "p6_put st =
     map_option (\<lambda>b. st\<lparr>p6_bytes := b, p6_num_blocks := p6_num_blocks st + 1, p6_block := 0, p6_empty := True\<rparr>)
       (store (p6_bytes st) (2 * p6_num_blocks st) [ucast (drop_bit 8 (p6_block st)), ucast (p6_block st AND 0xFF)])"

definition p6_digit :: "p6 \<Rightarrow> u8 \<Rightarrow> p6 option" where
  "p6_digit st c =
     (let digit = decode_hex_digit c in
      if digit < 0 then None
      else if p6_block st > 65535 div 16 then None
      else let block = p6_block st * 16 in
        if digit > 65535 - uint block then None
        else Some (st\<lparr>p6_block := block + word_of_int digit, p6_empty := False\<rparr>))"

text \<open>Reading a character of the string, which must be inside it.\<close>

definition char_at :: "bytes \<Rightarrow> nat \<Rightarrow> u8 option" where
  "char_at name i = (if i < length name then Some (name ! i) else None)"

function p6_loop :: "bytes \<Rightarrow> nat \<Rightarrow> p6 \<Rightarrow> p6_end option" where
  "p6_loop name i st =
     (if i \<ge> length name then Some (P6End st)
      else case char_at name i of
        None \<Rightarrow> None
      | Some c \<Rightarrow>
          if c = DOT then Some (P6Ipv4 st i)
          else if c = COLON then
            (case (if i + 1 < length name then map_option (\<lambda>c1. c1 = COLON) (char_at name (i + 1)) else Some False) of
               None \<Rightarrow> None
             | Some is_double \<Rightarrow>
                 (case (if i > 0 then if p6_empty st \<or> p6_num_blocks st = 7 then Some None else map_option Some (p6_put st)
                        else if \<not> is_double then Some None else Some (Some st)) of
                    None \<Rightarrow> None
                  | Some None \<Rightarrow> Some P6Fail
                  | Some (Some st1) \<Rightarrow>
                      if is_double then
                        if p6_compress_pos st1 \<noteq> -1 then Some P6Fail
                        else p6_loop name (i + 2) (st1\<lparr>p6_compress_pos := p6_num_blocks st1\<rparr>)
                      else p6_loop name (i + 1) st1))
          else
            (case p6_digit st c of
               None \<Rightarrow> Some P6Fail
             | Some st1 \<Rightarrow> p6_loop name (i + 1) st1))"
  by pat_completeness auto

termination
  by (relation "measure (\<lambda>(name, i, st). length name - i)") auto

declare p6_loop.simps [simp del]

text \<open>No read leaves the string.\<close>

lemma p6_loop_unfold:
  "p6_loop name i st =
     (if i \<ge> length name then Some (P6End st)
      else if name ! i = DOT then Some (P6Ipv4 st i)
      else if name ! i = COLON then
        (let is_double = i + 1 < length name \<and> name ! (i + 1) = COLON in
         case (if i > 0 then if p6_empty st \<or> p6_num_blocks st = 7 then Some None else map_option Some (p6_put st)
               else if \<not> is_double then Some None else Some (Some st)) of
           None \<Rightarrow> None
         | Some None \<Rightarrow> Some P6Fail
         | Some (Some st1) \<Rightarrow>
             if is_double then
               if p6_compress_pos st1 \<noteq> -1 then Some P6Fail
               else p6_loop name (i + 2) (st1\<lparr>p6_compress_pos := p6_num_blocks st1\<rparr>)
             else p6_loop name (i + 1) st1)
      else
        (case p6_digit st (name ! i) of
           None \<Rightarrow> Some P6Fail
         | Some st1 \<Rightarrow> p6_loop name (i + 1) st1))"
proof (cases "i < length name")
  case True
  have "(if i + 1 < length name then map_option (\<lambda>c1. c1 = COLON) (char_at name (i + 1)) else Some False)
      = Some (i + 1 < length name \<and> name ! (i + 1) = COLON)" by (simp add: char_at_def)
  moreover have "char_at name i = Some (name ! i)" using True by (simp add: char_at_def)
  ultimately show ?thesis unfolding p6_loop.simps [of name i st] by (simp only: option.case Let_def)
qed (subst p6_loop.simps, simp)

text \<open>Moving the blocks behind the double colon to the end.\<close>

definition p6_done :: "p6 \<Rightarrow> bytes option option" where
  "p6_done st =
     (if p6_compress_pos st = -1 \<and> p6_num_blocks st \<noteq> 8 then Some None
      else
        (let compress_pos = (if p6_compress_pos st = -1 then 0 else p6_compress_pos st);
             num_rear = p6_num_blocks st - compress_pos in
         if 8 - num_rear - compress_pos < 0 then None
         else case load (p6_bytes st) (2 * compress_pos) (2 * num_rear) of
           None \<Rightarrow> None
         | Some rear \<Rightarrow>
             (case store (p6_bytes st) (2 * (8 - num_rear)) rear of
                None \<Rightarrow> None
              | Some b \<Rightarrow> map_option Some (store b (2 * compress_pos) (replicate (nat (2 * (8 - num_rear - compress_pos))) 0)))))"

fun p6_back :: "bytes \<Rightarrow> nat \<Rightarrow> nat option" where
  "p6_back name 0 = None"
| "p6_back name (Suc i) =
     (case char_at name i of None \<Rightarrow> None | Some c \<Rightarrow> if c \<noteq> COLON then p6_back name i else Some (Suc i))"

record p4 =
  p4_bytes :: bytes
  p4_cur_byte :: int
  p4_byte :: u8
  p4_empty :: bool

fun p4_loop :: "p4 \<Rightarrow> bytes \<Rightarrow> p4 option option" where
  "p4_loop st [] = Some (Some st)"
| "p4_loop st (c # cs) =
     (if c = DOT then
        if p4_empty st \<or> p4_cur_byte st = 3 then Some None
        else case store (p4_bytes st) (p4_cur_byte st) [p4_byte st] of
          None \<Rightarrow> None
        | Some b \<Rightarrow> p4_loop (st\<lparr>p4_bytes := b, p4_cur_byte := p4_cur_byte st + 1, p4_byte := 0, p4_empty := True\<rparr>) cs
      else if \<not> p4_empty st \<and> p4_byte st = 0 then Some None
      else
        (let digit = decode_decimal_digit c in
         if digit < 0 then Some None
         else if p4_byte st > 255 div 10 then Some None
         else let byte = p4_byte st * 10 in
           if digit > 255 - uint byte then Some None
           else p4_loop (st\<lparr>p4_byte := byte + word_of_int digit, p4_empty := False\<rparr>) cs))"

definition p6_ipv4_ending :: "bytes \<Rightarrow> nat \<Rightarrow> p6 \<Rightarrow> bytes \<Rightarrow> bytes option option" where
  "p6_ipv4_ending name i st mem =
     (if p6_empty st \<or> p6_num_blocks st = 0 \<and> p6_compress_pos st = -1 then Some None
      else case p6_back name i of
        None \<Rightarrow> None
      | Some start \<Rightarrow>
          (case p4_loop \<lparr>p4_bytes = mem, p4_cur_byte = 0, p4_byte = 0, p4_empty = True\<rparr> (drop start name) of
             None \<Rightarrow> None
           | Some None \<Rightarrow> Some None
           | Some (Some q) \<Rightarrow>
               if p4_cur_byte q \<noteq> 3 \<or> p4_empty q then Some None
               else case store (p4_bytes q) (p4_cur_byte q) [p4_byte q] of
                 None \<Rightarrow> None
               | Some bytes \<Rightarrow>
                   if 8 - p6_num_blocks st < 2 then Some None
                   else case store (p6_bytes st) (2 * p6_num_blocks st) bytes of
                     None \<Rightarrow> None
                   | Some b \<Rightarrow> p6_done (st\<lparr>p6_bytes := b, p6_num_blocks := p6_num_blocks st + 2\<rparr>)))"

text \<open>\<open>out_addr\<close> and \<open>mem\<close> are what is in the address and in the four bytes of the stack before.\<close>

definition ipaddr6_parse_ipv6_addr_bin :: "bytes \<Rightarrow> bytes \<Rightarrow> bytes \<Rightarrow> bytes option option" where
  "ipaddr6_parse_ipv6_addr_bin name out_addr mem =
     (case p6_loop name 0 \<lparr>p6_bytes = out_addr, p6_num_blocks = 0, p6_compress_pos = -1, p6_block = 0, p6_empty = True\<rparr> of
        None \<Rightarrow> None
      | Some P6Fail \<Rightarrow> Some None
      | Some (P6Ipv4 st i) \<Rightarrow> p6_ipv4_ending name i st mem
      | Some (P6End st) \<Rightarrow>
          if \<not> p6_empty st then
            (case p6_put st of None \<Rightarrow> None | Some st1 \<Rightarrow> p6_done st1)
          else if p6_num_blocks st \<noteq> p6_compress_pos st then Some None
          else p6_done st)"

section \<open>The code: prefixes and masks\<close>

definition ipaddr6_parse_ipv6_prefix_bin :: "bytes \<Rightarrow> int option" where
  "ipaddr6_parse_ipv6_prefix_bin str =
     (case parse_unsigned_integer_bin str of
        None \<Rightarrow> None
      | Some d \<Rightarrow> if d > 128 then None else Some (uint d))"

definition b_find_char_bin :: "bytes \<Rightarrow> u8 \<Rightarrow> nat option" where
  "b_find_char_bin str ch = (let n = length (takeWhile (\<lambda>c. c \<noteq> ch) str) in if n < length str then Some n else None)"

definition ipaddr6_parse_ipv6_ifaddr_bin :: "bytes \<Rightarrow> bytes \<Rightarrow> bytes \<Rightarrow> (bytes \<times> int) option option" where
  "ipaddr6_parse_ipv6_ifaddr_bin str out_addr mem =
     (case b_find_char_bin str SLASH of
        None \<Rightarrow> Some None
      | Some slash_pos \<Rightarrow>
          map_option
            (\<lambda>r. case r of None \<Rightarrow> None
               | Some addr \<Rightarrow> map_option (\<lambda>prefix. (addr, prefix)) (ipaddr6_parse_ipv6_prefix_bin (drop (slash_pos + 1) str)))
            (ipaddr6_parse_ipv6_addr_bin (take slash_pos str) out_addr mem))"

fun or_bits :: "u8 \<Rightarrow> nat \<Rightarrow> u8" where
  "or_bits t 0 = t"
| "or_bits t (Suc i) = or_bits t i OR push_bit (8 - i - 1) 1"

definition ipaddr6_ipv6_mask_from_prefix :: "int \<Rightarrow> bytes option" where
  "ipaddr6_ipv6_mask_from_prefix prefix =
     (if prefix < 0 \<or> prefix > 128 then None
      else
        (let quot = nat (prefix div 8); rm = nat (prefix mod 8); b = replicate quot 255 @ replicate (16 - quot) 0 in
         if rm = 0 then Some b
         else if quot < 16 then Some (b[quot := or_bits (b ! quot) rm]) else None))"

fun mask_bits :: "nat \<Rightarrow> u8 \<Rightarrow> u8 \<Rightarrow> nat \<Rightarrow> nat option" where
  "mask_bits 0 m t j = (if m = t then Some j else None)"
| "mask_bits (Suc n) m t j = (if m = t then Some j else mask_bits n m (t OR push_bit (8 - j - 1) 1) (Suc j))"

definition ipaddr6_ipv6_prefix_from_mask :: "bytes \<Rightarrow> int option" where
  "ipaddr6_ipv6_prefix_from_mask mask' =
     (let i = length (takeWhile (\<lambda>b. b = 255) (take 16 mask')); prefix = 8 * int i in
      if i < 16 then
        (case mask_bits 8 (mask' ! i) 0 0 of
           None \<Rightarrow> None
         | Some j \<Rightarrow> if list_all (\<lambda>b. b = 0) (drop (i + 1) (take 16 mask')) then Some (prefix + int j) else None)
      else Some prefix)"

definition ipaddr6_ipv6_ifaddr_from_addr_mask :: "bytes \<Rightarrow> bytes \<Rightarrow> (bytes \<times> int) option" where
  "ipaddr6_ipv6_ifaddr_from_addr_mask addr mask' =
     (case ipaddr6_ipv6_prefix_from_mask mask' of
        None \<Rightarrow> None
      | Some prefix \<Rightarrow> Some (addr, prefix))"

definition ipaddr6_ipv6_addrs_in_network :: "bytes \<Rightarrow> bytes \<Rightarrow> int \<Rightarrow> bool option" where
  "ipaddr6_ipv6_addrs_in_network addr1 addr2 netprefix =
     (if netprefix < 0 \<or> netprefix > 128 then None
      else
        (let quot = nat (netprefix div 8); rm = nat (netprefix mod 8) in
         if memcmp (take quot addr1) (take quot addr2) \<noteq> 0 then Some False
         else if rm = 0 then Some True
         else if quot \<ge> length addr1 \<or> quot \<ge> length addr2 then None
         else let t = or_bits 0 rm in Some (addr1 ! quot AND t = addr2 ! quot AND t)))"

section \<open>The code: printing\<close>

text \<open>The conversion \<^verbatim>\<open>%x\<close>.\<close>

definition hex_char :: "nat \<Rightarrow> u8" where
  "hex_char d = (if d < 10 then of_nat (48 + d) else of_nat (87 + d))"

fun hex_text :: "nat \<Rightarrow> bytes" where
  "hex_text n = (if n < 16 then [hex_char n] else hex_text (n div 16) @ [hex_char (n mod 16)])"

declare hex_text.simps [simp del]

definition addr_block :: "bytes \<Rightarrow> nat \<Rightarrow> u16" where
  "addr_block addr i = push_bit 8 (ucast (addr ! (2 * i))) OR ucast (addr ! (2 * i + 1))"

definition block_text :: "bytes \<Rightarrow> nat \<Rightarrow> bytes" where
  "block_text addr i = hex_text (unat (addr_block addr i))"

text \<open>The longest run of zero blocks: its start and its length, and those of the current run.\<close>

fun zero_run :: "bytes \<Rightarrow> nat list \<Rightarrow> nat \<times> nat \<Rightarrow> nat \<times> nat \<Rightarrow> nat \<times> nat" where
  "zero_run addr [] largest current = largest"
| "zero_run addr (i # is') (largest_start, largest_len) (current_start, current_len) =
     (if addr ! (2 * i) = 0 \<and> addr ! (2 * i + 1) = 0 then
        if current_len + 1 > largest_len then zero_run addr is' (current_start, current_len + 1) (current_start, current_len + 1)
        else zero_run addr is' (largest_start, largest_len) (current_start, current_len + 1)
      else zero_run addr is' (largest_start, largest_len) (i + 1, 0))"

definition IPADDR6_PRINT_MAX :: nat where
  "IPADDR6_PRINT_MAX = 44"

definition ipaddr6_print_addr :: "bytes \<Rightarrow> bytes" where
  "ipaddr6_print_addr addr =
     (let (largest_start, largest_len) = zero_run addr [0..<8] (0, 0) (0, 0) in
      if largest_len > 1 then
        concat (map (\<lambda>i. block_text addr i @ [COLON]) [0..<largest_start]) @ (if largest_start = 0 then [COLON] else [])
        @ concat (map (\<lambda>i. COLON # block_text addr i) [largest_start + largest_len..<8])
        @ (if largest_start + largest_len = 8 then [COLON] else [])
      else block_text addr 0 @ concat (map (\<lambda>i. COLON # block_text addr i) [1..<8]))"

text \<open>The conversion \<^verbatim>\<open>%d\<close> of a number that is not negative.\<close>

fun dec_text :: "nat \<Rightarrow> bytes" where
  "dec_text n = (if n < 10 then [of_nat (48 + n)] else dec_text (n div 10) @ [of_nat (48 + n mod 10)])"

declare dec_text.simps [simp del]

definition ipaddr6_print_ifaddr :: "bytes \<Rightarrow> int \<Rightarrow> bytes option" where
  "ipaddr6_print_ifaddr addr prefix =
     (if prefix < 0 \<or> prefix > 128 then None else Some (ipaddr6_print_addr addr @ [SLASH] @ dec_text (nat prefix)))"

section \<open>The parser stays inside its buffers\<close>

definition p6_ok :: "p6 \<Rightarrow> bool" where
  "p6_ok st \<longleftrightarrow> length (p6_bytes st) = 16 \<and> 0 \<le> p6_num_blocks st \<and> p6_num_blocks st \<le> 7
     \<and> (p6_compress_pos st = -1 \<or> 0 \<le> p6_compress_pos st \<and> p6_compress_pos st \<le> p6_num_blocks st)"

lemma low_byte: "ucast (w AND 0xFF) = (ucast w :: u8)" for w :: u16
proof -
  have "w AND 0xFF = take_bit 8 w" by (simp add: take_bit_eq_mask mask_eq_exp_minus_1)
  then show ?thesis by (auto intro: bit_word_eqI simp: bit_simps)
qed

lemma p6_put_some:
  assumes "length (p6_bytes st) = 16" "0 \<le> p6_num_blocks st" "p6_num_blocks st \<le> 7"
  obtains b where "p6_put st = Some (st\<lparr>p6_bytes := b, p6_num_blocks := p6_num_blocks st + 1, p6_block := 0, p6_empty := True\<rparr>)"
    "length b = 16" "take (nat (2 * (p6_num_blocks st + 1))) b = take (nat (2 * p6_num_blocks st)) (p6_bytes st) @ be16 (p6_block st)"
proof -
  let ?n = "nat (2 * p6_num_blocks st)" and ?x = "[ucast (drop_bit 8 (p6_block st)), ucast (p6_block st AND 0xFF)] :: bytes"
  have x: "?x = be16 (p6_block st)" using low_byte [of "p6_block st"] by (simp add: be16_def)
  have "2 * (p6_num_blocks st + 1) = 2 * p6_num_blocks st + 2" by simp
  then have n: "?n + 2 \<le> 16" "nat (2 * (p6_num_blocks st + 1)) = ?n + 2" using assms(2,3) nat_add_distrib [of "2 * p6_num_blocks st" 2] by simp_all
  have "store (p6_bytes st) (2 * p6_num_blocks st) ?x = Some (take ?n (p6_bytes st) @ ?x @ drop (?n + 2) (p6_bytes st))"
    using assms n by (simp add: store_def in_range_def)
  then have "p6_put st = Some (st\<lparr>p6_bytes := take ?n (p6_bytes st) @ be16 (p6_block st) @ drop (?n + 2) (p6_bytes st),
      p6_num_blocks := p6_num_blocks st + 1, p6_block := 0, p6_empty := True\<rparr>)" by (simp add: p6_put_def x)
  then show ?thesis by (rule that) (use assms(1) n in simp_all)
qed

text \<open>A colon: the state before its effect on the compression, if there is no failure.\<close>

definition p6_colon :: "p6 \<Rightarrow> nat \<Rightarrow> bool \<Rightarrow> p6 option option" where
  "p6_colon st i is_double =
     (if i > 0 then if p6_empty st \<or> p6_num_blocks st = 7 then Some None else map_option Some (p6_put st)
      else if \<not> is_double then Some None else Some (Some st))"

lemma p6_loop_colon:
  assumes "i < length name" "name ! i = COLON" "d \<longleftrightarrow> i + 1 < length name \<and> name ! (i + 1) = COLON"
  shows "p6_loop name i st =
    (case p6_colon st i d of
       None \<Rightarrow> None
     | Some None \<Rightarrow> Some P6Fail
     | Some (Some st1) \<Rightarrow>
         if d then if p6_compress_pos st1 \<noteq> -1 then Some P6Fail else p6_loop name (i + 2) (st1\<lparr>p6_compress_pos := p6_num_blocks st1\<rparr>)
         else p6_loop name (i + 1) st1)"
  unfolding p6_loop_unfold [of name i st] Let_def assms(3) [symmetric] p6_colon_def [symmetric] using assms(1,2) by simp

lemma p6_colon_ok:
  assumes "p6_ok st"
  shows "\<exists>y. p6_colon st i d = Some y \<and> (\<forall>st1. y = Some st1 \<longrightarrow> p6_ok st1)"
proof (cases "i > 0 \<and> \<not> (p6_empty st \<or> p6_num_blocks st = 7)")
  case True
  then obtain b where "p6_put st = Some (st\<lparr>p6_bytes := b, p6_num_blocks := p6_num_blocks st + 1, p6_block := 0, p6_empty := True\<rparr>)" "length b = 16"
    using p6_put_some [of st] assms by (auto simp: p6_ok_def)
  then show ?thesis using True assms by (auto simp: p6_ok_def p6_colon_def)
qed (use assms in \<open>auto simp: p6_colon_def\<close>)

lemma p6_loop_ok:
  assumes "p6_ok st" "p6_num_blocks st > 0 \<or> p6_compress_pos st \<noteq> -1 \<longrightarrow> COLON \<in> set (take i name)"
  shows "\<exists>r. p6_loop name i st = Some r \<and> (case r of P6Fail \<Rightarrow> True | P6End st' \<Rightarrow> p6_ok st'
    | P6Ipv4 st' j \<Rightarrow> p6_ok st' \<and> j \<le> length name \<and> (p6_num_blocks st' > 0 \<or> p6_compress_pos st' \<noteq> -1 \<longrightarrow> COLON \<in> set (take j name)))"
  using assms
proof (induction "length name - i" arbitrary: i st rule: less_induct)
  case less
  have tk: "COLON \<in> set (take i name) \<Longrightarrow> COLON \<in> set (take (i + k) name)" for k by (auto simp: take_add)
  consider "i \<ge> length name" | "i < length name" "name ! i = DOT" | "i < length name" "name ! i = COLON"
    | "i < length name" "name ! i \<noteq> DOT" "name ! i \<noteq> COLON" by linarith
  then show ?case
  proof cases
    case 1
    then show ?thesis using less.prems by (subst p6_loop_unfold) simp
  next
    case 2
    then show ?thesis using less.prems by (subst p6_loop_unfold) simp
  next
    case 3
    let ?d = "i + 1 < length name \<and> name ! (i + 1) = COLON"
    have c: "COLON \<in> set (take (i + Suc k) name)" for k using 3 by (auto simp: in_set_conv_nth intro!: exI [of _ i])
    obtain y where y: "p6_colon st i ?d = Some y" and yo: "\<And>st1. y = Some st1 \<Longrightarrow> p6_ok st1" using p6_colon_ok [OF less.prems(1)] by blast
    note l = p6_loop_colon [OF 3 refl, of st]
    show ?thesis
    proof (cases y)
      case None
      then show ?thesis using y by (simp add: l)
    next
      case (Some st1)
      have e: "p6_loop name i st = (if ?d then if p6_compress_pos st1 \<noteq> -1 then Some P6Fail
          else p6_loop name (i + 2) (st1\<lparr>p6_compress_pos := p6_num_blocks st1\<rparr>) else p6_loop name (i + 1) st1)"
        unfolding l y Some by simp
      have k: "p6_ok st1" "p6_ok (st1\<lparr>p6_compress_pos := p6_num_blocks st1\<rparr>)" using yo [OF Some] by (simp_all add: p6_ok_def)
      show ?thesis
      proof (cases ?d)
        case True
        then show ?thesis using e less.hyps [of "i + 2", OF _ k(2)] 3(1) c [of 1] by auto
      next
        case False
        then show ?thesis using e less.hyps [of "i + 1", OF _ k(1)] 3(1) c [of 0] by auto
      qed
    qed
  next
    case 4
    show ?thesis
    proof (cases "p6_digit st (name ! i)")
      case None
      then show ?thesis using 4 by (subst p6_loop_unfold) simp
    next
      case (Some st1)
      then have s: "p6_ok st1" "p6_num_blocks st1 = p6_num_blocks st" "p6_compress_pos st1 = p6_compress_pos st"
        using less.prems(1) by (auto simp: p6_digit_def p6_ok_def Let_def split: if_splits)
      have "p6_loop name i st = p6_loop name (i + 1) st1" using 4 Some by (subst p6_loop_unfold) simp
      then show ?thesis using less.hyps [of "i + 1", OF _ s(1)] 4(1) s less.prems(2) tk [of 1] by auto
    qed
  qed
qed

lemma p6_done_result:
  assumes b: "length (p6_bytes st) = 16" "take (length as + length bs) (p6_bytes st) = as @ bs" "length as + length bs \<le> 16"
    and n: "2 * p6_num_blocks st = int (length as + length bs)"
    and c: "p6_compress_pos st = -1 \<and> as = [] \<and> length bs = 16 \<or> 2 * p6_compress_pos st = int (length as)"
  shows "p6_done st = Some (Some (as @ replicate (16 - length as - length bs) 0 @ bs))"
proof -
  define m where "m = p6_bytes st"
  define cp where "cp = (if p6_compress_pos st = -1 then 0 else p6_compress_pos st)"
  have cp: "2 * cp = int (length as)" "\<not> (p6_compress_pos st = -1 \<and> p6_num_blocks st \<noteq> 8)" using c n by (auto simp: cp_def)
  have nr: "2 * (p6_num_blocks st - cp) = int (length bs)" "2 * (8 - (p6_num_blocks st - cp)) = int (16 - length bs)"
    "2 * (8 - (p6_num_blocks st - cp) - cp) = int (16 - length as - length bs)" "\<not> 8 - (p6_num_blocks st - cp) - cp < 0"
    using cp n b(3) by (simp_all add: of_nat_diff algebra_simps)
  have "drop (length as) (take (length as + length bs) m) = bs" using b(2) by (simp add: m_def)
  then have "take (length bs) (drop (length as) m) = bs" by (simp add: drop_take)
  then have l: "load m (2 * cp) (int (length bs)) = Some bs" unfolding cp(1) using b by (simp add: m_def load_def in_range_def)
  let ?b1 = "take (16 - length bs) m @ bs"
  have s1: "store m (int (16 - length bs)) bs = Some ?b1" using b by (simp add: m_def store_def in_range_def del: of_nat_diff)
  have "length as \<le> 16 - length bs" using b(3) by arith
  then have t: "take (length as) ?b1 = as" using b(1,3) arg_cong [OF b(2), of "take (length as)"] by (simp add: m_def min_def)
  have s2: "store ?b1 (2 * cp) (replicate (16 - length as - length bs) 0) = Some (as @ replicate (16 - length as - length bs) 0 @ bs)"
    unfolding cp(1) using b t by (simp add: m_def store_def in_range_def)
  have "p6_done st =
      (if 8 - (p6_num_blocks st - cp) - cp < 0 then None
       else case load m (2 * cp) (2 * (p6_num_blocks st - cp)) of
         None \<Rightarrow> None
       | Some rear \<Rightarrow>
           (case store m (2 * (8 - (p6_num_blocks st - cp))) rear of
              None \<Rightarrow> None
            | Some b \<Rightarrow> map_option Some (store b (2 * cp) (replicate (nat (2 * (8 - (p6_num_blocks st - cp) - cp))) 0))))"
    unfolding p6_done_def Let_def cp_def [symmetric] m_def [symmetric] using cp(2) by (simp only: if_False)
  then show ?thesis using nr l s1 s2 by (simp del: of_nat_diff)
qed

lemma p6_done_total:
  assumes "length (p6_bytes st) = 16" "0 \<le> p6_num_blocks st" "p6_num_blocks st \<le> 8"
    and "p6_compress_pos st = -1 \<or> 0 \<le> p6_compress_pos st \<and> p6_compress_pos st \<le> p6_num_blocks st"
  shows "\<exists>r. p6_done st = Some r \<and> (\<forall>addr. r = Some addr \<longrightarrow> length addr = 16)"
proof (cases "p6_compress_pos st = -1 \<and> p6_num_blocks st \<noteq> 8")
  case True
  then show ?thesis by (simp add: p6_done_def)
next
  case False
  define cp where "cp = nat (2 * (if p6_compress_pos st = -1 then 0 else p6_compress_pos st))"
  define k where "k = nat (2 * p6_num_blocks st)"
  let ?as = "take cp (p6_bytes st)" and ?bs = "take (k - cp) (drop cp (p6_bytes st))"
  have k: "cp \<le> k" "k \<le> 16" using assms False by (auto simp: cp_def k_def)
  then have e: "length ?as = cp" "length ?bs = k - cp" using assms(1) by simp_all
  have "take k (p6_bytes st) = ?as @ ?bs" using k(1) by (metis le_add_diff_inverse take_add)
  then have "p6_done st = Some (Some (?as @ replicate (16 - length ?as - length ?bs) 0 @ ?bs))"
    using assms False k e by (intro p6_done_result) (auto simp: cp_def k_def)
  then show ?thesis using e k by simp
qed

lemma p6_back_some:
  assumes "COLON \<in> set (take i name)" "i \<le> length name"
  shows "\<exists>j. p6_back name i = Some j \<and> j \<le> i"
  using assms
proof (induction i)
  case (Suc i)
  show ?case
  proof (cases "name ! i = COLON")
    case False
    have "COLON \<in> set (take i name)" using Suc.prems False by (auto simp: take_Suc_conv_app_nth)
    then obtain j where "p6_back name i = Some j" "j \<le> i" using Suc.IH Suc.prems(2) by auto
    then show ?thesis using False Suc.prems(2) by (simp add: char_at_def)
  qed (use Suc.prems(2) in \<open>simp add: char_at_def\<close>)
qed simp

lemma p4_loop_ok:
  "length (p4_bytes st) = 4 \<Longrightarrow> 0 \<le> p4_cur_byte st \<Longrightarrow> p4_cur_byte st \<le> 3 \<Longrightarrow>
     \<exists>r. p4_loop st cs = Some r \<and> (\<forall>q. r = Some q \<longrightarrow> length (p4_bytes q) = 4 \<and> 0 \<le> p4_cur_byte q \<and> p4_cur_byte q \<le> 3)"
proof (induction st cs rule: p4_loop.induct)
  case (2 st c cs)
  show ?case
  proof (cases "c = DOT \<and> \<not> (p4_empty st \<or> p4_cur_byte st = 3)")
    case True
    obtain b where b: "store (p4_bytes st) (p4_cur_byte st) [p4_byte st] = Some b" using 2(3-5) True by (simp add: store_def in_range_def)
    then show ?thesis using 2(1) [OF _ _ b] True 2(3-5) length_store [OF b] by simp
  next
    case False
    then show ?thesis using 2(2) 2(3-5) by (auto simp: Let_def split: if_splits)
  qed
qed simp

lemma ipv4_ending_total:
  assumes s: "p6_ok st" "p6_num_blocks st > 0 \<or> p6_compress_pos st \<noteq> -1 \<longrightarrow> COLON \<in> set (take j name)" "j \<le> length name" and m: "length mem = 4"
  shows "\<exists>r. p6_ipv4_ending name j st mem = Some r \<and> (\<forall>addr. r = Some addr \<longrightarrow> length addr = 16)"
proof (cases "p6_empty st \<or> p6_num_blocks st = 0 \<and> p6_compress_pos st = -1")
  case True
  then show ?thesis by (simp add: p6_ipv4_ending_def)
next
  case False
  then have "COLON \<in> set (take j name)" using s by (auto simp: p6_ok_def)
  then obtain start where b: "p6_back name j = Some start" using p6_back_some s(3) by blast
  obtain r where r: "p4_loop \<lparr>p4_bytes = mem, p4_cur_byte = 0, p4_byte = 0, p4_empty = True\<rparr> (drop start name) = Some r"
    "\<forall>q. r = Some q \<longrightarrow> length (p4_bytes q) = 4 \<and> 0 \<le> p4_cur_byte q \<and> p4_cur_byte q \<le> 3"
    using p4_loop_ok [of "\<lparr>p4_bytes = mem, p4_cur_byte = 0, p4_byte = 0, p4_empty = True\<rparr>"] m by force
  show ?thesis
  proof (cases "\<exists>q. r = Some q \<and> \<not> (p4_cur_byte q \<noteq> 3 \<or> p4_empty q) \<and> \<not> 8 - p6_num_blocks st < 2")
    case True
    then obtain q where q: "r = Some q" "p4_cur_byte q = 3" "\<not> p4_empty q" "p6_num_blocks st \<le> 6" by auto
    have lq: "length (p4_bytes q) = 4" using r(2) q(1) by simp
    obtain bs where bs: "store (p4_bytes q) 3 [p4_byte q] = Some bs" using lq by (simp add: store_def in_range_def)
    then have l4: "length bs = 4" using length_store [OF bs] lq by simp
    obtain b6 where b6: "store (p6_bytes st) (2 * p6_num_blocks st) bs = Some b6" using s(1) q(4) l4 by (simp add: store_def in_range_def p6_ok_def)
    have "p6_ipv4_ending name j st mem = p6_done (st\<lparr>p6_bytes := b6, p6_num_blocks := p6_num_blocks st + 2\<rparr>)"
      using False b r(1) q bs b6 by (auto simp: p6_ipv4_ending_def)
    then show ?thesis using p6_done_total [of "st\<lparr>p6_bytes := b6, p6_num_blocks := p6_num_blocks st + 2\<rparr>"] s(1) q(4) length_store [OF b6]
      by (auto simp: p6_ok_def)
  next
    case no: False
    have "p6_ipv4_ending name j st mem = Some None"
    proof (cases r)
      case (Some q)
      have "length (p4_bytes q) = 4" using r(2) Some by simp
      then have "p4_cur_byte q = 3 \<longrightarrow> (\<exists>bs. store (p4_bytes q) (p4_cur_byte q) [p4_byte q] = Some bs)" by (simp add: store_def in_range_def)
      then show ?thesis using False b r(1) Some no by (auto simp: p6_ipv4_ending_def)
    qed (use False b r(1) in \<open>simp add: p6_ipv4_ending_def\<close>)
    then show ?thesis by simp
  qed
qed

lemma parse_addr6_total:
  assumes "length out_addr = 16" "length mem = 4"
  shows "\<exists>r. ipaddr6_parse_ipv6_addr_bin name out_addr mem = Some r \<and> (\<forall>addr. r = Some addr \<longrightarrow> length addr = 16)"
proof -
  let ?st = "\<lparr>p6_bytes = out_addr, p6_num_blocks = 0, p6_compress_pos = -1, p6_block = 0, p6_empty = True\<rparr>"
  obtain r where r: "p6_loop name 0 ?st = Some r" "case r of P6Fail \<Rightarrow> True | P6End st' \<Rightarrow> p6_ok st'
    | P6Ipv4 st' j \<Rightarrow> p6_ok st' \<and> j \<le> length name \<and> (p6_num_blocks st' > 0 \<or> p6_compress_pos st' \<noteq> -1 \<longrightarrow> COLON \<in> set (take j name))"
    using p6_loop_ok [of ?st 0 name] assms(1) by (auto simp: p6_ok_def)
  show ?thesis
  proof (cases r)
    case P6Fail
    then show ?thesis using r(1) by (simp add: ipaddr6_parse_ipv6_addr_bin_def)
  next
    case (P6Ipv4 st j)
    then show ?thesis using r ipv4_ending_total [of st j name mem] assms(2) by (simp add: ipaddr6_parse_ipv6_addr_bin_def)
  next
    case (P6End st)
    then have k: "length (p6_bytes st) = 16" "0 \<le> p6_num_blocks st" "p6_num_blocks st \<le> 7"
      "p6_compress_pos st = -1 \<or> 0 \<le> p6_compress_pos st \<and> p6_compress_pos st \<le> p6_num_blocks st" using r(2) by (simp_all add: p6_ok_def)
    obtain b where b: "p6_put st = Some (st\<lparr>p6_bytes := b, p6_num_blocks := p6_num_blocks st + 1, p6_block := 0, p6_empty := True\<rparr>)" "length b = 16"
      by (rule p6_put_some [OF k(1-3)])
    let ?st1 = "st\<lparr>p6_bytes := b, p6_num_blocks := p6_num_blocks st + 1, p6_block := 0, p6_empty := True\<rparr>"
    have "\<exists>r. p6_done ?st1 = Some r \<and> (\<forall>addr. r = Some addr \<longrightarrow> length addr = 16)" using k b(2) by (intro p6_done_total) auto
    moreover have "\<exists>r. p6_done st = Some r \<and> (\<forall>addr. r = Some addr \<longrightarrow> length addr = 16)" using k by (intro p6_done_total) auto
    ultimately show ?thesis using P6End r(1) b(1) by (auto simp: ipaddr6_parse_ipv6_addr_bin_def)
  qed
qed

section \<open>Reading what is printed\<close>

lemma hex_char_digit:
  assumes "d < 16"
  shows "decode_hex_digit (hex_char d) = int d" "hex_char d \<noteq> COLON" "hex_char d \<noteq> DOT" "hex_char d \<noteq> SLASH"
proof -
  have "list_all (\<lambda>d. decode_hex_digit (hex_char d) = int d \<and> hex_char d \<noteq> COLON \<and> hex_char d \<noteq> DOT \<and> hex_char d \<noteq> SLASH) [0..<16]" by code_simp
  then show "decode_hex_digit (hex_char d) = int d" "hex_char d \<noteq> COLON" "hex_char d \<noteq> DOT" "hex_char d \<noteq> SLASH"
    using assms by (simp_all add: list_all_iff)
qed

lemma hex_text_chars: "c \<in> set (hex_text n) \<Longrightarrow> \<exists>d < 16. c = hex_char d"
proof (induction n rule: hex_text.induct)
  case (1 n)
  have "c = hex_char n \<and> n < 16 \<or> c = hex_char (n mod 16) \<or> \<not> n < 16 \<and> c \<in> set (hex_text (n div 16))"
    using 1(2) by (subst (asm) hex_text.simps) (auto split: if_splits)
  then show ?case using 1(1) by (auto intro: exI [of _ n] exI [of _ "n mod 16"])
qed

lemma hex_text_nonempty [simp]: "hex_text n \<noteq> []"
  by (subst hex_text.simps) simp

lemma hex_text_hd: "hd (hex_text n @ ys) \<noteq> COLON"
proof -
  have "hd (hex_text n) \<in> set (hex_text n)" by simp
  then show ?thesis using hex_text_chars hex_char_digit(2) by (metis hd_append2 hex_text_nonempty)
qed

lemma hex_text_length: "n < 16 ^ k \<Longrightarrow> 0 < k \<Longrightarrow> length (hex_text n) \<le> k"
proof (induction n arbitrary: k rule: hex_text.induct)
  case (1 n)
  show ?case
  proof (cases "n < 16")
    case True
    then show ?thesis using 1(3) by (subst hex_text.simps) simp
  next
    case False
    then obtain k' where k: "k = Suc k'" "0 < k'" using 1(2,3) by (cases k; cases "k - 1") auto
    then have "n div 16 < 16 ^ k'" using 1(2) by (simp add: less_mult_imp_div_less mult.commute)
    then show ?thesis using 1(1) [OF False, of k'] False k by (subst hex_text.simps) simp
  qed
qed

lemma loop_digit:
  assumes "name = xs @ hex_char d # ys" "d < 16" "unat (p6_block st) * 16 + d < 65536"
  shows "p6_loop name (length xs) st = p6_loop name (Suc (length xs)) (st\<lparr>p6_block := of_nat (unat (p6_block st) * 16 + d), p6_empty := False\<rparr>)"
proof -
  have c: "name ! length xs = hex_char d" "length xs < length name" using assms(1) by simp_all
  have b: "unat (p6_block st) \<le> 4095" using assms(3) by linarith
  then have m: "unat (p6_block st * 16) = unat (p6_block st) * 16" by (simp add: unat_word_ariths)
  have "\<not> p6_block st > 65535 div 16" using b by (simp add: word_less_nat_alt unat_div)
  moreover have "uint (p6_block st * 16) = int (unat (p6_block st) * 16)" unfolding uint_nat m by (rule refl)
  then have "\<not> int d > 65535 - uint (p6_block st * 16)" using assms(3) by linarith
  moreover have "p6_block st * 16 + word_of_int (int d) = of_nat (unat (p6_block st) * 16 + d)" by simp
  ultimately have "p6_digit st (hex_char d) = Some (st\<lparr>p6_block := of_nat (unat (p6_block st) * 16 + d), p6_empty := False\<rparr>)"
    using hex_char_digit(1) [OF assms(2)] by (simp add: p6_digit_def Let_def)
  then show ?thesis using c hex_char_digit(2,3) [OF assms(2)] by (subst p6_loop_unfold) simp
qed

lemma loop_hex:
  assumes "n < 65536" "p6_block st = 0" "name = xs @ hex_text n @ ys"
  shows "p6_loop name (length xs) st = p6_loop name (length xs + length (hex_text n)) (st\<lparr>p6_block := of_nat n, p6_empty := False\<rparr>)"
  using assms
proof (induction n arbitrary: ys rule: hex_text.induct)
  case (1 n)
  show ?case
  proof (cases "n < 16")
    case True
    then have h: "hex_text n = [hex_char n]" by (subst hex_text.simps) simp
    then show ?thesis using loop_digit [of name xs n ys st] 1(3,4) True by simp
  next
    case False
    then have h: "hex_text n = hex_text (n div 16) @ [hex_char (n mod 16)]" by (subst hex_text.simps) simp
    let ?st = "st\<lparr>p6_block := of_nat (n div 16), p6_empty := False\<rparr>" and ?xs = "xs @ hex_text (n div 16)"
    have d: "n div 16 < 65536" using 1(2) by simp
    have e1: "p6_loop name (length xs) st = p6_loop name (length ?xs) ?st"
      using 1(1) [OF False d 1(3), of "hex_char (n mod 16) # ys"] 1(4) h by simp
    have u: "unat (p6_block ?st) = n div 16" using d by (simp add: unat_of_nat take_bit_eq_mod)
    have "unat (p6_block ?st) * 16 + n mod 16 = n" unfolding u by simp
    then have "p6_loop name (length ?xs) ?st = p6_loop name (Suc (length ?xs)) (?st\<lparr>p6_block := of_nat n, p6_empty := False\<rparr>)"
      using loop_digit [of name ?xs "n mod 16" ys ?st] 1(2,4) h by simp
    then show ?thesis using e1 h by simp
  qed
qed

text \<open>A state between two blocks, with the blocks read so far.\<close>

definition p6_at :: "p6 \<Rightarrow> u16 list \<Rightarrow> int \<Rightarrow> bool" where
  "p6_at st bs cp \<longleftrightarrow> length (p6_bytes st) = 16 \<and> p6_num_blocks st = int (length bs) \<and> p6_compress_pos st = cp
     \<and> p6_block st = 0 \<and> p6_empty st \<and> take (2 * length bs) (p6_bytes st) = concat (map be16 bs)"

lemma put_at:
  assumes "p6_at st bs cp" "length bs \<le> 7"
  shows "\<exists>st1. p6_put (st\<lparr>p6_block := b, p6_empty := e\<rparr>) = Some st1 \<and> p6_at st1 (bs @ [b]) cp"
proof -
  let ?st = "st\<lparr>p6_block := b, p6_empty := e\<rparr>"
  have s: "length (p6_bytes ?st) = 16" "0 \<le> p6_num_blocks ?st" "p6_num_blocks ?st \<le> 7" using assms by (simp_all add: p6_at_def)
  obtain by' where b: "p6_put ?st = Some (?st\<lparr>p6_bytes := by', p6_num_blocks := p6_num_blocks ?st + 1, p6_block := 0, p6_empty := True\<rparr>)" "length by' = 16"
    "take (nat (2 * (p6_num_blocks ?st + 1))) by' = take (nat (2 * p6_num_blocks ?st)) (p6_bytes ?st) @ be16 (p6_block ?st)"
    by (rule p6_put_some [OF s])
  have n: "nat (2 * (p6_num_blocks ?st + 1)) = 2 * length (bs @ [b])" "nat (2 * p6_num_blocks ?st) = 2 * length bs" using assms(1) by (simp_all add: p6_at_def)
  then show ?thesis using b assms(1) by (auto simp: p6_at_def)
qed

lemma loop_block:
  assumes a: "p6_at st bs cp" "length bs < 7" and n: "name = xs @ hex_text (unat b) @ COLON # ys" "ys = [] \<or> hd ys \<noteq> COLON"
  shows "\<exists>st1. p6_loop name (length xs) st = p6_loop name (length (xs @ hex_text (unat b) @ [COLON])) st1 \<and> p6_at st1 (bs @ [b]) cp"
proof -
  let ?st = "st\<lparr>p6_block := b, p6_empty := False\<rparr>" and ?xs = "xs @ hex_text (unat b)"
  have u: "unat b < 65536" using unsigned_less [of b] by simp
  have e1: "p6_loop name (length xs) st = p6_loop name (length ?xs) ?st"
    using loop_hex [OF u _ n(1)] a(1) by (simp add: p6_at_def)
  obtain st1 where s1: "p6_put ?st = Some st1" "p6_at st1 (bs @ [b]) cp" using put_at [OF a(1), where b = b and e = False] a(2) by auto
  have c: "length ?xs < length name" "name ! length ?xs = COLON" using n(1) by simp_all
  have d: "\<not> (length ?xs + 1 < length name \<and> name ! (length ?xs + 1) = COLON)" using n by (cases ys) (auto simp: nth_append)
  have "p6_colon ?st (length ?xs) False = Some (Some st1)" using s1(1) a by (simp add: p6_colon_def p6_at_def)
  then have "p6_loop name (length ?xs) ?st = p6_loop name (length ?xs + 1) st1"
    using p6_loop_colon [OF c, of False ?st] d by simp
  then show ?thesis using e1 s1(2) by auto
qed

definition colon_text :: "u16 list \<Rightarrow> bytes" where
  "colon_text bs = concat (map (\<lambda>b. hex_text (unat b) @ [COLON]) bs)"

definition join_text :: "u16 list \<Rightarrow> bytes" where
  "join_text bs = (case bs of [] \<Rightarrow> [] | b # bs' \<Rightarrow> hex_text (unat b) @ concat (map (\<lambda>b. COLON # hex_text (unat b)) bs'))"

lemma join_text_snoc: "join_text (bs @ [b]) = colon_text bs @ hex_text (unat b)"
proof (induction bs)
  case (Cons c bs)
  have "COLON # join_text (bs @ [b]) = concat (map (\<lambda>b. COLON # hex_text (unat b)) (bs @ [b]))" by (cases bs) (simp_all add: join_text_def)
  then show ?case using Cons.IH by (simp add: join_text_def colon_text_def)
qed (simp add: join_text_def colon_text_def)

lemma loop_blocks:
  assumes "p6_at st bs cp" "length bs + length cs \<le> 7" "name = xs @ colon_text cs @ ys" "ys = [] \<or> hd ys \<noteq> COLON"
  shows "\<exists>st1. p6_loop name (length xs) st = p6_loop name (length (xs @ colon_text cs)) st1 \<and> p6_at st1 (bs @ cs) cp"
  using assms
proof (induction cs arbitrary: st bs xs)
  case Nil
  then show ?case by (auto simp: colon_text_def)
next
  case (Cons c cs)
  let ?xs = "xs @ hex_text (unat c) @ [COLON]"
  have n: "name = xs @ hex_text (unat c) @ COLON # (colon_text cs @ ys)" using Cons.prems(3) by (simp add: colon_text_def)
  have h: "colon_text cs @ ys = [] \<or> hd (colon_text cs @ ys) \<noteq> COLON"
    using Cons.prems(4) hex_text_hd by (cases cs) (simp_all add: colon_text_def)
  obtain st1 where s1: "p6_loop name (length xs) st = p6_loop name (length ?xs) st1" "p6_at st1 (bs @ [c]) cp"
    using loop_block [OF Cons.prems(1) _ n h] Cons.prems(2) by auto
  have "\<exists>st2. p6_loop name (length ?xs) st1 = p6_loop name (length (?xs @ colon_text cs)) st2 \<and> p6_at st2 ((bs @ [c]) @ cs) cp"
    by (rule Cons.IH [OF s1(2)]) (use Cons.prems(2,4) n in simp_all)
  then show ?case using s1(1) by (simp add: colon_text_def)
qed

lemma loop_double:
  assumes a: "p6_at st bs (-1)" "length bs < 7" and n: "name = xs @ hex_text (unat b) @ COLON # COLON # ys"
  shows "\<exists>st1. p6_loop name (length xs) st = p6_loop name (length (xs @ hex_text (unat b) @ [COLON, COLON])) st1
    \<and> p6_at st1 (bs @ [b]) (int (length (bs @ [b])))"
proof -
  let ?st = "st\<lparr>p6_block := b, p6_empty := False\<rparr>" and ?xs = "xs @ hex_text (unat b)"
  have u: "unat b < 65536" using unsigned_less [of b] by simp
  have e1: "p6_loop name (length xs) st = p6_loop name (length ?xs) ?st"
    using loop_hex [OF u _ n] a(1) by (simp add: p6_at_def)
  obtain st1 where s1: "p6_put ?st = Some st1" "p6_at st1 (bs @ [b]) (-1)" using put_at [OF a(1), where b = b and e = False] a(2) by auto
  have c: "length ?xs < length name" "name ! length ?xs = COLON" using n by simp_all
  have d: "length ?xs + 1 < length name \<and> name ! (length ?xs + 1) = COLON" using n by (auto simp: nth_append)
  have "p6_colon ?st (length ?xs) True = Some (Some st1)" using s1(1) a by (simp add: p6_colon_def p6_at_def)
  then have "p6_loop name (length ?xs) ?st = p6_loop name (length ?xs + 2) (st1\<lparr>p6_compress_pos := p6_num_blocks st1\<rparr>)"
    using p6_loop_colon [OF c, of True ?st] d s1(2) by (simp add: p6_at_def)
  moreover have "p6_at (st1\<lparr>p6_compress_pos := p6_num_blocks st1\<rparr>) (bs @ [b]) (int (length (bs @ [b])))" using s1(2) by (simp add: p6_at_def)
  ultimately show ?thesis using e1 by auto
qed

lemma loop_double_start:
  assumes "p6_at st [] (-1)" "name = COLON # COLON # ys"
  shows "\<exists>st1. p6_loop name 0 st = p6_loop name 2 st1 \<and> p6_at st1 [] 0"
proof -
  have "p6_colon st 0 True = Some (Some st)" by (simp add: p6_colon_def)
  then have "p6_loop name 0 st = p6_loop name 2 (st\<lparr>p6_compress_pos := p6_num_blocks st\<rparr>)"
    using p6_loop_colon [of 0 name True st] assms by (simp add: p6_at_def numeral_2_eq_2)
  then show ?thesis using assms(1) by (auto simp: p6_at_def)
qed

text \<open>What the parser does with the end of its loop.\<close>

definition p6_finish :: "bytes \<Rightarrow> bytes \<Rightarrow> p6_end option \<Rightarrow> bytes option option" where
  "p6_finish name mem r =
     (case r of
        None \<Rightarrow> None
      | Some P6Fail \<Rightarrow> Some None
      | Some (P6Ipv4 st i) \<Rightarrow> p6_ipv4_ending name i st mem
      | Some (P6End st) \<Rightarrow>
          if \<not> p6_empty st then
            (case p6_put st of None \<Rightarrow> None | Some st1 \<Rightarrow> p6_done st1)
          else if p6_num_blocks st \<noteq> p6_compress_pos st then Some None
          else p6_done st)"

lemma finish_join:
  assumes a: "p6_at st bs cp" "length bs + length cs \<le> 8" and n: "name = xs @ join_text cs" and c: "cs = [] \<Longrightarrow> cp = int (length bs)"
  shows "\<exists>st1. p6_finish name mem (p6_loop name (length xs) st) = p6_done st1 \<and> p6_at st1 (bs @ cs) cp"
proof (cases cs rule: rev_cases)
  case Nil
  then have "p6_loop name (length xs) st = Some (P6End st)" using n by (subst p6_loop_unfold) (simp add: join_text_def)
  then show ?thesis using Nil a(1) c by (auto simp: p6_finish_def p6_at_def)
next
  case (snoc ds d)
  have n': "name = xs @ colon_text ds @ hex_text (unat d)" using n snoc join_text_snoc by simp
  have h: "hex_text (unat d) = [] \<or> hd (hex_text (unat d)) \<noteq> COLON" using hex_text_hd [of "unat d" "[]"] by simp
  obtain st1 where s1: "p6_loop name (length xs) st = p6_loop name (length (xs @ colon_text ds)) st1" "p6_at st1 (bs @ ds) cp"
    using loop_blocks [OF a(1) _ n' h] a(2) snoc by auto
  have u: "unat d < 65536" using unsigned_less [of d] by simp
  let ?st = "st1\<lparr>p6_block := d, p6_empty := False\<rparr>"
  have "p6_loop name (length (xs @ colon_text ds)) st1 = p6_loop name (length name) ?st"
    using loop_hex [OF u, where xs = "xs @ colon_text ds" and ys = "[]" and name = name and st = st1] s1(2) n' by (simp add: p6_at_def add.assoc)
  also have "\<dots> = Some (P6End ?st)" by (subst p6_loop_unfold) simp
  finally have e: "p6_loop name (length xs) st = Some (P6End ?st)" using s1(1) by simp
  obtain st2 where "p6_put ?st = Some st2" "p6_at st2 ((bs @ ds) @ [d]) cp"
    using put_at [OF s1(2), where b = d and e = False] a(2) snoc by auto
  then show ?thesis using e snoc by (auto simp: p6_finish_def)
qed

lemma concat_be16_length [simp]: "length (concat (map be16 bs)) = 2 * length bs"
  by (induction bs) (simp_all add: be16_def)

lemma done_at:
  assumes "p6_at st (as @ bs) cp" "length as + length bs \<le> 8" "cp = -1 \<and> as = [] \<and> length bs = 8 \<or> cp = int (length as)"
  shows "p6_done st = Some (Some (concat (map be16 as) @ replicate (2 * (8 - length as - length bs)) 0 @ concat (map be16 bs)))"
proof -
  have "16 - 2 * length as - 2 * length bs = 2 * (8 - length as - length bs)" by simp
  then show ?thesis
    using p6_done_result [of st "concat (map be16 as)" "concat (map be16 bs)"] assms by (auto simp: p6_at_def)
qed

lemma parse_addr6_start:
  assumes "length out_addr = 16"
  shows "\<exists>st. ipaddr6_parse_ipv6_addr_bin name out_addr mem = p6_finish name mem (p6_loop name 0 st) \<and> p6_at st [] (-1)"
  using assms by (auto simp: ipaddr6_parse_ipv6_addr_bin_def p6_finish_def p6_at_def)

lemma parse_full:
  assumes "length out_addr = 16" "length bs = 8"
  shows "ipaddr6_parse_ipv6_addr_bin (join_text bs) out_addr mem = Some (Some (concat (map be16 bs)))"
proof -
  obtain st where s: "ipaddr6_parse_ipv6_addr_bin (join_text bs) out_addr mem = p6_finish (join_text bs) mem (p6_loop (join_text bs) 0 st)"
    "p6_at st [] (-1)" using parse_addr6_start [OF assms(1)] by blast
  have "bs \<noteq> []" using assms(2) by auto
  then obtain st1 where s1: "p6_finish (join_text bs) mem (p6_loop (join_text bs) 0 st) = p6_done st1" "p6_at st1 ([] @ bs) (-1)"
    using finish_join [OF s(2), where cs = bs and xs = "[]" and name = "join_text bs" and mem = mem] assms(2) by auto
  then show ?thesis using s(1) done_at [OF s1(2)] assms(2) by simp
qed

definition compressed_text :: "u16 list \<Rightarrow> u16 list \<Rightarrow> bytes" where
  "compressed_text as bs = colon_text as @ (if as = [] then [COLON] else []) @ COLON # join_text bs"

lemma loop_compressed:
  assumes a: "p6_at st [] (-1)" and l: "length as \<le> 7" and n: "name = compressed_text as bs"
  shows "\<exists>st1 xs. p6_loop name 0 st = p6_loop name (length xs) st1 \<and> name = xs @ join_text bs \<and> p6_at st1 as (int (length as))"
proof (cases as rule: rev_cases)
  case Nil
  then show ?thesis using loop_double_start [OF a, of name "join_text bs"] n
    by (auto simp: compressed_text_def colon_text_def numeral_2_eq_2 intro!: exI [of _ "[COLON, COLON]"])
next
  case (snoc cs c)
  let ?ys = "hex_text (unat c) @ COLON # COLON # join_text bs"
  have n': "name = colon_text cs @ ?ys" using n snoc by (simp add: compressed_text_def colon_text_def)
  obtain st1 where s1: "p6_loop name 0 st = p6_loop name (length (colon_text cs)) st1" "p6_at st1 cs (-1)"
    using loop_blocks [OF a, where cs = cs and xs = "[]" and name = name and ys = ?ys] n' l snoc hex_text_hd by auto
  obtain st2 where s2: "p6_loop name (length (colon_text cs)) st1 = p6_loop name (length (colon_text cs @ hex_text (unat c) @ [COLON, COLON])) st2"
    "p6_at st2 (cs @ [c]) (int (length (cs @ [c])))"
    using loop_double [OF s1(2) _ n'] l snoc by auto
  have e: "p6_loop name 0 st = p6_loop name (length (colon_text cs @ hex_text (unat c) @ [COLON, COLON])) st2"
    unfolding s1(1) s2(1) by (rule refl)
  have "name = (colon_text cs @ hex_text (unat c) @ [COLON, COLON]) @ join_text bs" using n' by simp
  then show ?thesis using e s2(2) unfolding snoc by blast
qed

lemma parse_compressed:
  assumes "length out_addr = 16" "length as + length bs \<le> 7"
  shows "ipaddr6_parse_ipv6_addr_bin (compressed_text as bs) out_addr mem
    = Some (Some (concat (map be16 as) @ replicate (2 * (8 - length as - length bs)) 0 @ concat (map be16 bs)))"
proof -
  define name where "name = compressed_text as bs"
  obtain st where s: "ipaddr6_parse_ipv6_addr_bin name out_addr mem = p6_finish name mem (p6_loop name 0 st)" "p6_at st [] (-1)"
    using parse_addr6_start [OF assms(1)] by blast
  obtain st1 xs where s1: "p6_loop name 0 st = p6_loop name (length xs) st1" "name = xs @ join_text bs" "p6_at st1 as (int (length as))"
    using loop_compressed [OF s(2) _ name_def] assms(2) by auto
  obtain st2 where s2: "p6_finish name mem (p6_loop name (length xs) st1) = p6_done st2" "p6_at st2 (as @ bs) (int (length as))"
    using finish_join [OF s1(3) _ s1(2), where mem = mem] assms(2) by auto
  then show ?thesis using s(1) s1(1) done_at [OF s2(2)] assms(2) by (simp add: name_def)
qed

section \<open>The printed text\<close>

lemma zero_run_zero:
  assumes "zero_run addr [i..<n] (ls, ll) (cs, cl) = (s, l)" "i \<le> n" "cs + cl = i" "\<forall>k. cs \<le> k \<and> k < i \<longrightarrow> addr ! (2 * k) = 0 \<and> addr ! (2 * k + 1) = 0"
    and "ls + ll \<le> i" "\<forall>k. ls \<le> k \<and> k < ls + ll \<longrightarrow> addr ! (2 * k) = 0 \<and> addr ! (2 * k + 1) = 0"
  shows "s + l \<le> n \<and> (\<forall>k. s \<le> k \<and> k < s + l \<longrightarrow> addr ! (2 * k) = 0 \<and> addr ! (2 * k + 1) = 0)"
  using assms
proof (induction "n - i" arbitrary: i ls ll cs cl)
  case 0
  then show ?case by simp
next
  case (Suc m)
  have u: "[i..<n] = i # [Suc i..<n]" using Suc.hyps(2) by (simp add: upt_conv_Cons)
  have m: "m = n - Suc i" "Suc i \<le> n" using Suc.hyps(2) by simp_all
  show ?case
  proof (cases "addr ! (2 * i) = 0 \<and> addr ! (2 * i + 1) = 0")
    case True
    then have z: "\<forall>k. cs \<le> k \<and> k < Suc i \<longrightarrow> addr ! (2 * k) = 0 \<and> addr ! (2 * k + 1) = 0" using Suc.prems(4) by (auto simp: less_Suc_eq)
    have e: "zero_run addr [Suc i..<n] (if cl + 1 > ll then (cs, cl + 1) else (ls, ll)) (cs, cl + 1) = (s, l)"
      using Suc.prems(1) True unfolding u by (simp split: if_splits)
    show ?thesis
    proof (cases "cl + 1 > ll")
      case True
      show ?thesis by (rule Suc.hyps(1) [OF m(1), of cs "cl + 1" cs "cl + 1"]) (use e True m(2) z Suc.prems(3) in auto)
    next
      case False
      show ?thesis by (rule Suc.hyps(1) [OF m(1), of ls ll cs "cl + 1"]) (use e False m(2) z Suc.prems(3,5,6) in auto)
    qed
  next
    case False
    then have e: "zero_run addr [Suc i..<n] (ls, ll) (i + 1, 0) = (s, l)" using Suc.prems(1) unfolding u by (simp split: if_splits)
    show ?thesis by (rule Suc.hyps(1) [OF m(1) e m(2)]) (use Suc.prems(5,6) in auto)
  qed
qed

lemma be16_block: "be16 (addr_block addr i) = [addr ! (2 * i), addr ! (2 * i + 1)]"
proof -
  have "\<not> bit w (8 + n)" for w :: u8 and n using bit_imp_le_length [of w "8 + n"] by auto
  then have "ucast (drop_bit 8 (addr_block addr i)) = addr ! (2 * i)" "ucast (addr_block addr i) = addr ! (2 * i + 1)"
    unfolding addr_block_def by (auto intro!: bit_word_eqI simp: bit_simps)
  then show ?thesis by (simp add: be16_def)
qed

lemma be16_blocks:
  "n \<le> m \<Longrightarrow> 2 * m \<le> length addr \<Longrightarrow> concat (map be16 (map (addr_block addr) [n..<m])) = take (2 * (m - n)) (drop (2 * n) addr)"
proof (induction "m - n" arbitrary: n)
  case (Suc k)
  then have u: "[n..<m] = n # [Suc n..<m]" by (simp add: upt_conv_Cons)
  have "concat (map be16 (map (addr_block addr) [Suc n..<m])) = take (2 * (m - Suc n)) (drop (2 * Suc n) addr)"
    by (rule Suc.hyps(1)) (use Suc.hyps(2) Suc.prems in simp_all)
  moreover have "drop (2 * n) addr = addr ! (2 * n) # addr ! (2 * n + 1) # drop (2 * Suc n) addr"
    using Suc.hyps(2) Suc.prems Cons_nth_drop_Suc [of "2 * n" addr] Cons_nth_drop_Suc [of "2 * n + 1" addr] by simp
  moreover have "2 * (m - n) = Suc (Suc (2 * (m - Suc n)))" using Suc.hyps(2) by simp
  ultimately show ?case unfolding u by (simp add: be16_block)
qed simp

lemma zeros_replicate:
  assumes "s + l \<le> 8" "length addr = 16" "\<forall>k. s \<le> k \<and> k < s + l \<longrightarrow> addr ! (2 * k) = 0 \<and> addr ! (2 * k + 1) = 0"
  shows "take (2 * l) (drop (2 * s) addr) = replicate (2 * l) 0"
proof (rule nth_equalityI)
  fix i
  assume "i < length (take (2 * l) (drop (2 * s) addr))"
  then have i: "i < 2 * l" by simp
  have "\<exists>q. i = 2 * q \<or> i = 2 * q + 1" by presburger
  then obtain q where "i = 2 * q \<or> i = 2 * q + 1" by blast
  then have "addr ! (2 * s + i) = 0" using assms(3) [rule_format, of "s + q"] i by auto
  then show "take (2 * l) (drop (2 * s) addr) ! i = replicate (2 * l) 0 ! i" using i assms(1,2) by simp
qed (use assms in simp)

text \<open>The text is all eight blocks, or the blocks around a run of at least two blocks of zeros.\<close>

lemma print_addr_cases:
  assumes "length addr = 16"
  obtains bs where "ipaddr6_print_addr addr = join_text bs" "length bs = 8" "concat (map be16 bs) = addr"
  | as bs where "ipaddr6_print_addr addr = compressed_text as bs" "length as + length bs \<le> 6"
      "concat (map be16 as) @ replicate (2 * (8 - length as - length bs)) 0 @ concat (map be16 bs) = addr"
proof -
  obtain s l where z: "zero_run addr [0..<8] (0, 0) (0, 0) = (s, l)" by (cases "zero_run addr [0..<8] (0, 0) (0, 0)") auto
  have r: "s + l \<le> 8 \<and> (\<forall>k. s \<le> k \<and> k < s + l \<longrightarrow> addr ! (2 * k) = 0 \<and> addr ! (2 * k + 1) = 0)"
    by (rule zero_run_zero [OF z]) simp_all
  let ?b = "\<lambda>n m. map (addr_block addr) [n..<m]"
  have c: "concat (map (\<lambda>i. COLON # block_text addr i) [n..<m]) = concat (map (\<lambda>b. COLON # hex_text (unat b)) (?b n m))" for n m
    by (simp add: block_text_def comp_def)
  have j: "COLON # join_text bs = concat (map (\<lambda>b. COLON # hex_text (unat b)) bs) @ (if bs = [] then [COLON] else [])" for bs
    by (cases bs) (simp_all add: join_text_def)
  show thesis
  proof (cases "l > 1")
    case True
    let ?as = "?b 0 s" and ?bs = "?b (s + l) 8"
    have "ipaddr6_print_addr addr = compressed_text ?as ?bs"
      using True r unfolding ipaddr6_print_addr_def z compressed_text_def j c
      by (auto simp: colon_text_def block_text_def comp_def)
    moreover have "length ?as + length ?bs \<le> 6" using True r by simp
    moreover have "concat (map be16 ?as) @ replicate (2 * (8 - length ?as - length ?bs)) 0 @ concat (map be16 ?bs) = addr"
    proof -
      have e: "concat (map be16 ?as) = take (2 * s) addr" "concat (map be16 ?bs) = drop (2 * l) (drop (2 * s) addr)"
        using be16_blocks [of 0 s addr] be16_blocks [of "s + l" 8 addr] r assms by (simp_all add: algebra_simps)
      have "2 * (8 - length ?as - length ?bs) = 2 * l" using r by simp
      then show ?thesis using zeros_replicate [of s l addr] r assms unfolding e by (metis append_take_drop_id)
    qed
    ultimately show ?thesis by (rule that(2))
  next
    case False
    have "[0..<8] = 0 # [1..<8 :: nat]" by (simp add: upt_conv_Cons)
    then have "ipaddr6_print_addr addr = join_text (?b 0 8)"
      using False unfolding ipaddr6_print_addr_def z c by (simp add: join_text_def block_text_def)
    moreover have "concat (map be16 (?b 0 8)) = addr" using be16_blocks [of 0 8 addr] assms by simp
    moreover have "length (?b 0 8) = 8" by simp
    ultimately show ?thesis using that(1) by blast
  qed
qed

lemma block_text_length: "length (hex_text (unat b)) \<le> 4" for b :: u16
  using hex_text_length [of "unat b" 4] unsigned_less [of b] by simp

lemma colon_text_length: "length (colon_text bs) \<le> 5 * length bs"
proof (induction bs)
  case (Cons b bs)
  then show ?case using block_text_length [of b] by (simp add: colon_text_def)
qed (simp add: colon_text_def)

lemma join_text_length: "length (join_text bs) \<le> 5 * length bs - 1"
proof (cases bs rule: rev_cases)
  case (snoc cs c)
  then show ?thesis using colon_text_length [of cs] block_text_length [of c] by (simp add: join_text_snoc)
qed (simp add: join_text_def)

lemma print_addr_length:
  assumes "length addr = 16"
  shows "length (ipaddr6_print_addr addr) \<le> 39"
  using assms
proof (cases addr rule: print_addr_cases)
  case (1 bs)
  then show ?thesis using join_text_length [of bs] by simp
next
  case (2 as bs)
  then show ?thesis using join_text_length [of bs] colon_text_length [of as] by (auto simp: compressed_text_def)
qed

lemma parse_print_addr:
  assumes "length addr = 16" "length out_addr = 16"
  shows "ipaddr6_parse_ipv6_addr_bin (ipaddr6_print_addr addr) out_addr mem = Some (Some addr)"
  using assms(1)
proof (cases addr rule: print_addr_cases)
  case (1 bs)
  then show ?thesis using parse_full [OF assms(2), of bs mem] by simp
next
  case (2 as bs)
  then show ?thesis using parse_compressed [OF assms(2), of as bs mem] by simp
qed

lemma dec_text_digits: "(\<forall>c \<in> set (dec_text n). is_digit c) \<and> dec_value (dec_text n) = n \<and> dec_text n \<noteq> []"
proof (induction n rule: dec_text.induct)
  case (1 n)
  have "list_all (\<lambda>d. is_digit (of_nat (48 + d)) \<and> digit_val (of_nat (48 + d)) = d) [0..<10]" by code_simp
  then have d: "is_digit (of_nat (48 + d)) \<and> digit_val (of_nat (48 + d)) = d" if "d < 10" for d using that by (simp add: list_all_iff)
  show ?case
  proof (cases "n < 10")
    case True
    then show ?thesis using d [of n] by (subst (1 2 3) dec_text.simps) simp
  next
    case False
    then have "dec_text n = dec_text (n div 10) @ [of_nat (48 + n mod 10)]" by (subst dec_text.simps) simp
    then show ?thesis using 1 [OF False] d [of "n mod 10"] by (auto simp: dec_value_append)
  qed
qed

lemma dec_text_length: "n < 10 ^ k \<Longrightarrow> 0 < k \<Longrightarrow> length (dec_text n) \<le> k"
proof (induction n arbitrary: k rule: dec_text.induct)
  case (1 n)
  show ?case
  proof (cases "n < 10")
    case True
    then show ?thesis using 1(3) by (subst dec_text.simps) simp
  next
    case False
    then obtain k' where k: "k = Suc k'" "0 < k'" using 1(2,3) by (cases k; cases "k - 1") auto
    then have "n div 10 < 10 ^ k'" using 1(2) by (simp add: less_mult_imp_div_less mult.commute)
    then show ?thesis using 1(1) [OF False, of k'] False k by (subst dec_text.simps) simp
  qed
qed

lemma parse_prefix_dec: "n \<le> 128 \<Longrightarrow> ipaddr6_parse_ipv6_prefix_bin (dec_text n) = Some (int n)"
proof -
  assume n: "n \<le> 128"
  then have u: "unat (of_nat n :: usize) = n" by (simp add: unat_of_nat take_bit_eq_mod)
  have "parse_unsigned_integer_bin (dec_text n) = Some (of_nat n)" using dec_text_digits [of n] n by (simp add: parse_unsigned_value)
  moreover have "\<not> (of_nat n :: usize) > 128" using n u by (simp add: word_less_nat_alt)
  moreover have "uint (of_nat n :: usize) = int n" unfolding uint_nat u by (rule refl)
  ultimately show ?thesis by (simp add: ipaddr6_parse_ipv6_prefix_bin_def)
qed

lemma no_slash:
  assumes "length addr = 16"
  shows "SLASH \<notin> set (ipaddr6_print_addr addr)"
proof -
  have h: "SLASH \<notin> set (hex_text n)" for n using hex_text_chars [of SLASH n] hex_char_digit(4) by auto
  then have j: "SLASH \<notin> set (colon_text bs)" "SLASH \<notin> set (join_text bs)" for bs
    by (auto simp: colon_text_def join_text_def split: list.splits)
  show ?thesis using assms by (cases addr rule: print_addr_cases) (auto simp: compressed_text_def j split: if_splits)
qed

lemma find_slash: "x \<notin> set as \<Longrightarrow> b_find_char_bin (as @ x # bs) x = Some (length as)"
proof -
  assume "x \<notin> set as"
  then have "takeWhile (\<lambda>c. c \<noteq> x) (as @ x # bs) = as" by (simp add: takeWhile_append2 takeWhile_tail) (metis append.right_neutral takeWhile.simps(2) takeWhile_append2)
  then show ?thesis by (simp add: b_find_char_bin_def)
qed

lemma mask_prefix:
  assumes "0 \<le> prefix" "prefix \<le> 128"
  shows "Option.bind (ipaddr6_ipv6_mask_from_prefix prefix) ipaddr6_ipv6_prefix_from_mask = Some prefix"
proof -
  have "list_all (\<lambda>p. Option.bind (ipaddr6_ipv6_mask_from_prefix p) ipaddr6_ipv6_prefix_from_mask = Some p) [0..128]" by code_simp
  then show ?thesis using assms by (simp add: list_all_iff)
qed

lemma memcmp_zero: "memcmp as bs = 0 \<longleftrightarrow> as = bs"
  by (induction as bs rule: memcmp.induct) auto

definition masked :: "bytes \<Rightarrow> bytes \<Rightarrow> bytes" where
  "masked addr m = map2 (\<lambda>a b. a AND b) addr m"

lemma masked_append: "length as = length m \<Longrightarrow> masked (as @ bs) (m @ n) = masked as m @ masked bs n"
  by (simp add: masked_def)

lemma masked_ones: "length as = n \<Longrightarrow> masked as (replicate n 255) = as"
proof -
  have "(255 :: u8) = -1" by simp
  then have "x AND 255 = x" for x :: u8 by (simp only: and.right_neutral)
  then show "length as = n \<Longrightarrow> masked as (replicate n 255) = as" by (induction as arbitrary: n) (auto simp: masked_def)
qed

lemma masked_zeros: "length as = n \<Longrightarrow> masked as (replicate n 0) = replicate n 0"
  by (induction as arbitrary: n) (auto simp: masked_def)

lemma prefix_quot:
  assumes "0 \<le> prefix" "prefix \<le> 128"
  shows "nat (prefix div 8) \<le> 16" "nat (prefix mod 8) \<noteq> 0 \<Longrightarrow> nat (prefix div 8) < 16"
proof -
  show "nat (prefix div 8) \<le> 16" using assms by simp
  assume "nat (prefix mod 8) \<noteq> 0"
  then have "prefix \<noteq> 128" by auto
  then have "prefix div 8 < 16" using assms by linarith
  then show "nat (prefix div 8) < 16" by simp
qed

lemma mask_from_prefix_shape:
  assumes "0 \<le> prefix" "prefix \<le> 128" "q = nat (prefix div 8)" "r = nat (prefix mod 8)"
  shows "ipaddr6_ipv6_mask_from_prefix prefix
    = Some (replicate q 255 @ (if r = 0 then replicate (16 - q) 0 else or_bits 0 r # replicate (15 - q) 0))"
proof -
  have q: "r \<noteq> 0 \<Longrightarrow> q < 16" "\<not> (prefix < 0 \<or> prefix > 128)" using prefix_quot [OF assms(1,2)] assms by simp_all
  have z: "q < 16 \<Longrightarrow> replicate (16 - q) 0 = 0 # replicate (15 - q) (0 :: u8)" by (simp flip: replicate_Suc add: Suc_diff_le)
  show ?thesis
    unfolding ipaddr6_ipv6_mask_from_prefix_def Let_def assms(3,4) [symmetric] using q z by (simp add: nth_append list_update_append)
qed

lemma in_network_masked:
  assumes l: "length a = 16" "length b = 16" and p: "0 \<le> prefix" "prefix \<le> 128" "ipaddr6_ipv6_mask_from_prefix prefix = Some m"
  shows "ipaddr6_ipv6_addrs_in_network a b prefix = Some (masked a m = masked b m)"
proof -
  define q where "q = nat (prefix div 8)"
  define r where "r = nat (prefix mod 8)"
  have q: "q \<le> 16" "r \<noteq> 0 \<Longrightarrow> q < 16" using prefix_quot [OF p(1,2)] by (simp_all add: q_def r_def)
  have m: "m = replicate q 255 @ (if r = 0 then replicate (16 - q) 0 else or_bits 0 r # replicate (15 - q) 0)"
    using mask_from_prefix_shape [OF p(1,2) q_def r_def] p(3) by simp
  have s: "masked c m = take q c @ (if r = 0 then replicate (16 - q) 0 else (c ! q AND or_bits 0 r) # replicate (15 - q) 0)"
    if c: "length c = 16" for c
  proof -
    have "masked (take q c @ drop q c) m = take q c @ masked (drop q c) (if r = 0 then replicate (16 - q) 0 else or_bits 0 r # replicate (15 - q) 0)"
      unfolding m using c q(1) masked_ones [of "take q c" q] by (subst masked_append) simp_all
    moreover have "masked (drop q c) (or_bits 0 r # replicate (15 - q) 0) = (c ! q AND or_bits 0 r) # replicate (15 - q) 0" if "q < 16"
    proof -
      have "drop q c = c ! q # drop (Suc q) c" using that c by (simp add: Cons_nth_drop_Suc)
      then show ?thesis using masked_zeros [of "drop (Suc q) c" "15 - q"] c by (simp add: masked_def)
    qed
    ultimately show ?thesis using masked_zeros [of "drop q c" "16 - q"] c q by auto
  qed
  have e: "masked a m = masked b m \<longleftrightarrow> take q a = take q b \<and> (r \<noteq> 0 \<longrightarrow> a ! q AND or_bits 0 r = b ! q AND or_bits 0 r)"
    unfolding s [OF l(1)] s [OF l(2)] using l by auto
  show ?thesis
    unfolding ipaddr6_ipv6_addrs_in_network_def Let_def q_def [symmetric] r_def [symmetric] memcmp_zero e using p(1,2) l q by auto
qed

section \<open>Properties\<close>

text \<open>
  C24: Whatever the string is, the parser of IPv6 addresses stays inside the address, the four bytes
  of an IPv4 ending and the string, and stops, with a failure or with an address of 16 bytes.
\<close>

theorem ipaddr6_parse_safe:
  assumes "length out_addr = 16" "length mem = 4"
  shows "\<exists>r. ipaddr6_parse_ipv6_addr_bin name out_addr mem = Some r \<and> (\<forall>addr. r = Some addr \<longrightarrow> length addr = 16)"
  using assms by (rule parse_addr6_total)

theorem ipaddr6_parse_safe_witness:
  "\<exists>r. ipaddr6_parse_ipv6_addr_bin [COLON, COLON, 0x31, DOT, 0x32] (replicate 16 7) (replicate 4 9) = Some r
     \<and> (\<forall>addr. r = Some addr \<longrightarrow> length addr = 16)"
  by (rule ipaddr6_parse_safe) simp_all

text \<open>
  C23: What is printed for an interface address, an address and a prefix, fits into the buffer that
  the header asks for, and parsing it gives the address and the prefix back; the same holds for the address alone.
  So the run of zero blocks that the printer leaves out is the one that the parser puts back.
\<close>

theorem ipaddr6_round_trip:
  assumes "length addr = 16" "length out_addr = 16" "0 \<le> prefix" "prefix \<le> 128"
  shows "ipaddr6_parse_ipv6_addr_bin (ipaddr6_print_addr addr) out_addr mem = Some (Some addr)
    \<and> (\<exists>str. ipaddr6_print_ifaddr addr prefix = Some str \<and> length str < IPADDR6_PRINT_MAX
         \<and> ipaddr6_parse_ipv6_ifaddr_bin str out_addr mem = Some (Some (addr, prefix)))"
proof -
  let ?a = "ipaddr6_print_addr addr" and ?n = "nat prefix"
  let ?str = "?a @ SLASH # dec_text ?n"
  have p: "ipaddr6_parse_ipv6_addr_bin ?a out_addr mem = Some (Some addr)" by (rule parse_print_addr [OF assms(1,2)])
  have "length (dec_text ?n) \<le> 3" using dec_text_length [of ?n 3] assms(4) by simp
  then have l: "length ?str < IPADDR6_PRINT_MAX" using print_addr_length [OF assms(1)] by (simp add: IPADDR6_PRINT_MAX_def)
  have "ipaddr6_parse_ipv6_ifaddr_bin ?str out_addr mem = Some (Some (addr, prefix))"
    using find_slash [OF no_slash [OF assms(1)]] parse_prefix_dec [of ?n] p assms(3,4) by (simp add: ipaddr6_parse_ipv6_ifaddr_bin_def)
  then show ?thesis using p l assms(3,4) by (simp add: ipaddr6_print_ifaddr_def)
qed

theorem ipaddr6_round_trip_witness:
  "let addr = [0x20, 0x01, 0x0d, 0xb8, 0, 0, 0, 0, 0, 0, 0, 0, 0, 0, 0, 1]; out = replicate 16 7 in
   ipaddr6_parse_ipv6_addr_bin (ipaddr6_print_addr addr) out [] = Some (Some addr)
     \<and> (\<exists>str. ipaddr6_print_ifaddr addr 64 = Some str \<and> length str < IPADDR6_PRINT_MAX
          \<and> ipaddr6_parse_ipv6_ifaddr_bin str out [] = Some (Some (addr, 64)))"
  unfolding Let_def by (rule ipaddr6_round_trip) simp_all

text \<open>
  For a prefix of up to 128 bits there is a mask, an address with that mask is the interface address with the
  prefix, and two addresses are in the same network exactly if they agree under the mask.
\<close>

theorem ipaddr6_masks:
  assumes "length a = 16" "length b = 16" "0 \<le> prefix" "prefix \<le> 128"
  shows "\<exists>m. ipaddr6_ipv6_mask_from_prefix prefix = Some m \<and> ipaddr6_ipv6_ifaddr_from_addr_mask a m = Some (a, prefix)
    \<and> ipaddr6_ipv6_addrs_in_network a b prefix = Some (masked a m = masked b m)"
proof -
  obtain m where m: "ipaddr6_ipv6_mask_from_prefix prefix = Some m" using mask_from_prefix_shape [OF assms(3,4) refl refl] by blast
  then have "ipaddr6_ipv6_prefix_from_mask m = Some prefix" using mask_prefix [OF assms(3,4)] by simp
  then show ?thesis using m in_network_masked [OF assms m] by (simp add: ipaddr6_ipv6_ifaddr_from_addr_mask_def)
qed

theorem ipaddr6_masks_witness:
  "\<exists>m. ipaddr6_ipv6_mask_from_prefix 60 = Some m \<and> ipaddr6_ipv6_ifaddr_from_addr_mask (replicate 16 9) m = Some (replicate 16 9, 60)
     \<and> ipaddr6_ipv6_addrs_in_network (replicate 16 9) (replicate 15 9 @ [5]) 60 = Some (masked (replicate 16 9) m = masked (replicate 15 9 @ [5]) m)"
  by (rule ipaddr6_masks) simp_all

end
