(* ===== verification/Pending.thy ===== *)
theory Pending
  imports Linked_List1
begin

text \<open>
  The jobs of badvpn: the list template of \<^verbatim>\<open>badvpn/structure/SLinkedList_impl.h\<close>, without the pointer to
  the last entry, as \<^verbatim>\<open>badvpn/base/BPending.c\<close> instantiates it, and the groups of jobs of that file.  A job is its
  address, and it is not set exactly if its link points to itself.  \<^const>\<open>None\<close> is an access to a job that
  is not there or a failed assertion; the counters that only debug builds have are left out.
\<close>

section \<open>The code: the list\<close>

record 'p slist =
  sl_first :: "'p option"
  sl_mem :: "'p \<Rightarrow> 'p lnode"

definition sl_set_next :: "'p \<Rightarrow> 'p option \<Rightarrow> 'p slist \<Rightarrow> 'p slist" where
  "sl_set_next n v s = s\<lparr>sl_mem := (sl_mem s)(n := (sl_mem s n)\<lparr>nxt := v\<rparr>)\<rparr>"

definition sl_set_prev :: "'p \<Rightarrow> 'p option \<Rightarrow> 'p slist \<Rightarrow> 'p slist" where
  "sl_set_prev n v s = s\<lparr>sl_mem := (sl_mem s)(n := (sl_mem s n)\<lparr>prv := v\<rparr>)\<rparr>"

definition SLinkedList_Init :: "('p \<Rightarrow> 'p lnode) \<Rightarrow> 'p slist" where
  "SLinkedList_Init m = \<lparr>sl_first = None, sl_mem = m\<rparr>"

definition SLinkedList_Prepend :: "'p slist \<Rightarrow> 'p \<Rightarrow> 'p slist" where
  "SLinkedList_Prepend o' entry =
     (let s1 = sl_set_next entry (sl_first o') (sl_set_prev entry None o');
          s2 = (case sl_first s1 of Some f \<Rightarrow> sl_set_prev f (Some entry) s1 | None \<Rightarrow> s1)
      in s2\<lparr>sl_first := Some entry\<rparr>)"

definition SLinkedList_InsertBefore :: "'p slist \<Rightarrow> 'p \<Rightarrow> 'p \<Rightarrow> 'p slist" where
  "SLinkedList_InsertBefore o' entry before_entry =
     (let s1 = sl_set_next entry (Some before_entry) (sl_set_prev entry (prv (sl_mem o' before_entry)) o');
          s2 = (case prv (sl_mem s1 before_entry) of
                  Some p \<Rightarrow> sl_set_next p (Some entry) s1
                | None \<Rightarrow> s1\<lparr>sl_first := Some entry\<rparr>)
      in sl_set_prev before_entry (Some entry) s2)"

definition SLinkedList_InsertAfter :: "'p slist \<Rightarrow> 'p \<Rightarrow> 'p \<Rightarrow> 'p slist" where
  "SLinkedList_InsertAfter o' entry after_entry =
     (let s1 = sl_set_prev entry (Some after_entry) (sl_set_next entry (nxt (sl_mem o' after_entry)) o');
          s2 = (case nxt (sl_mem s1 after_entry) of Some q \<Rightarrow> sl_set_prev q (Some entry) s1 | None \<Rightarrow> s1)
      in sl_set_next after_entry (Some entry) s2)"

definition SLinkedList_Remove :: "'p slist \<Rightarrow> 'p \<Rightarrow> 'p slist" where
  "SLinkedList_Remove o' entry =
     (let s1 = (case prv (sl_mem o' entry) of
                  Some p \<Rightarrow> sl_set_next p (nxt (sl_mem o' entry)) o'
                | None \<Rightarrow> o'\<lparr>sl_first := nxt (sl_mem o' entry)\<rparr>)
      in (case nxt (sl_mem s1 entry) of
            Some q \<Rightarrow> sl_set_prev q (prv (sl_mem s1 entry)) s1
          | None \<Rightarrow> s1))"

definition SLinkedList_First :: "'p slist \<Rightarrow> 'p option" where
  "SLinkedList_First o' = sl_first o'"

definition SLinkedList_IsEmpty :: "'p slist \<Rightarrow> bool" where
  "SLinkedList_IsEmpty o' = (sl_first o' = None)"

section \<open>The code: jobs\<close>

record small_pending =
  sp_handler :: nat
  sp_pending :: bool

record pending_group =
  pg_jobs :: "nat slist"
  pg_objs :: "nat \<rightharpoonup> small_pending"

definition pg_linked :: "pending_group \<Rightarrow> nat \<Rightarrow> bool" where
  "pg_linked g p \<longleftrightarrow> nxt (sl_mem (pg_jobs g) p) \<noteq> Some p"

definition BPendingGroup_Init :: "(nat \<Rightarrow> nat lnode) \<Rightarrow> pending_group" where
  "BPendingGroup_Init m = \<lparr>pg_jobs = SLinkedList_Init m, pg_objs = Map.empty\<rparr>"

definition BPendingGroup_Free :: "pending_group \<Rightarrow> unit option" where
  "BPendingGroup_Free g = (if \<not> SLinkedList_IsEmpty (pg_jobs g) then None else Some ())"

definition BPendingGroup_HasJobs :: "pending_group \<Rightarrow> bool" where
  "BPendingGroup_HasJobs g = (\<not> SLinkedList_IsEmpty (pg_jobs g))"

text \<open>The result has the job and the handler to be called.\<close>

definition BPendingGroup_ExecuteJob :: "pending_group \<Rightarrow> (pending_group \<times> nat \<times> nat) option" where
  "BPendingGroup_ExecuteJob g =
     (case SLinkedList_First (pg_jobs g) of
        None \<Rightarrow> None
      | Some p \<Rightarrow>
          (case pg_objs g p of
             None \<Rightarrow> None
           | Some o' \<Rightarrow>
               if \<not> pg_linked g p \<or> \<not> sp_pending o' then None
               else Some (g\<lparr>pg_jobs := sl_set_next p (Some p) (SLinkedList_Remove (pg_jobs g) p),
                       pg_objs := (pg_objs g)(p \<mapsto> o'\<lparr>sp_pending := False\<rparr>)\<rparr>, p, sp_handler o')))"

definition BPendingGroup_PeekJob :: "pending_group \<Rightarrow> nat option" where
  "BPendingGroup_PeekJob g = SLinkedList_First (pg_jobs g)"

definition BSmallPending_Init :: "pending_group \<Rightarrow> nat \<Rightarrow> nat \<Rightarrow> pending_group" where
  "BSmallPending_Init g p handler =
     g\<lparr>pg_jobs := sl_set_next p (Some p) (pg_jobs g), pg_objs := (pg_objs g)(p \<mapsto> \<lparr>sp_handler = handler, sp_pending = False\<rparr>)\<rparr>"

definition BSmallPending_Free :: "pending_group \<Rightarrow> nat \<Rightarrow> pending_group option" where
  "BSmallPending_Free g p =
     (case pg_objs g p of
        None \<Rightarrow> None
      | Some o' \<Rightarrow>
          if sp_pending o' \<noteq> pg_linked g p then None
          else Some (g\<lparr>pg_jobs := (if pg_linked g p then SLinkedList_Remove (pg_jobs g) p else pg_jobs g),
                  pg_objs := (pg_objs g)(p := None)\<rparr>))"

definition BSmallPending_SetHandler :: "pending_group \<Rightarrow> nat \<Rightarrow> nat \<Rightarrow> pending_group option" where
  "BSmallPending_SetHandler g p handler =
     map_option (\<lambda>o'. g\<lparr>pg_objs := (pg_objs g)(p \<mapsto> o'\<lparr>sp_handler := handler\<rparr>)\<rparr>) (pg_objs g p)"

definition BSmallPending_Set :: "pending_group \<Rightarrow> nat \<Rightarrow> pending_group option" where
  "BSmallPending_Set g p =
     (case pg_objs g p of
        None \<Rightarrow> None
      | Some o' \<Rightarrow>
          if sp_pending o' \<noteq> pg_linked g p then None
          else let j = (if pg_linked g p then SLinkedList_Remove (pg_jobs g) p else pg_jobs g) in
            Some (g\<lparr>pg_jobs := SLinkedList_Prepend j p, pg_objs := (pg_objs g)(p \<mapsto> o'\<lparr>sp_pending := True\<rparr>)\<rparr>))"

definition BSmallPending_Unset :: "pending_group \<Rightarrow> nat \<Rightarrow> pending_group option" where
  "BSmallPending_Unset g p =
     (case pg_objs g p of
        None \<Rightarrow> None
      | Some o' \<Rightarrow>
          if sp_pending o' \<noteq> pg_linked g p then None
          else if pg_linked g p then
            Some (g\<lparr>pg_jobs := sl_set_next p (Some p) (SLinkedList_Remove (pg_jobs g) p),
                pg_objs := (pg_objs g)(p \<mapsto> o'\<lparr>sp_pending := False\<rparr>)\<rparr>)
          else Some g)"

definition BSmallPending_IsSet :: "pending_group \<Rightarrow> nat \<Rightarrow> bool option" where
  "BSmallPending_IsSet g p =
     (case pg_objs g p of
        None \<Rightarrow> None
      | Some o' \<Rightarrow> if sp_pending o' \<noteq> pg_linked g p then None else Some (pg_linked g p))"

section \<open>The list without a last pointer\<close>

text \<open>It is the other list with the last pointer left out.\<close>

definition sl_of :: "'p llist \<Rightarrow> 'p slist" where
  "sl_of l = \<lparr>sl_first = lhead l, sl_mem = lmem l\<rparr>"

definition sll :: "'p slist \<Rightarrow> 'p list \<Rightarrow> bool" where
  "sll s xs \<longleftrightarrow> dll \<lparr>lhead = sl_first s, ltail = last_or None xs, lmem = sl_mem s\<rparr> xs"

lemmas sl_defs = sl_of_def sl_set_next_def sl_set_prev_def set_nxt_def set_prv_def Let_def

lemma sl_of_ops:
  "sl_of (LinkedList1_Prepend l n) = SLinkedList_Prepend (sl_of l) n"
  "sl_of (LinkedList1_InsertBefore l n t) = SLinkedList_InsertBefore (sl_of l) n t"
  "sl_of (LinkedList1_Remove l n) = SLinkedList_Remove (sl_of l) n"
  by (auto simp: sl_defs LinkedList1_Prepend_def SLinkedList_Prepend_def LinkedList1_InsertBefore_def SLinkedList_InsertBefore_def
      LinkedList1_Remove_def SLinkedList_Remove_def split: option.splits)

lemma sl_of_InsertAfter: "t \<noteq> n \<Longrightarrow> sl_of (LinkedList1_InsertAfter l n t) = SLinkedList_InsertAfter (sl_of l) n t"
  by (auto simp: sl_defs LinkedList1_InsertAfter_def SLinkedList_InsertAfter_def fun_eq_iff split: option.splits)

lemma sll_of: "dll l xs \<Longrightarrow> sll (sl_of l) xs"
  by (simp add: sll_def sl_of_def dll_def)

lemma sll_dll:
  assumes "sll s xs"
  obtains l where "s = sl_of l" "dll l xs"
proof
  show "s = sl_of \<lparr>lhead = sl_first s, ltail = last_or None xs, lmem = sl_mem s\<rparr>" by (simp add: sl_of_def)
  show "dll \<lparr>lhead = sl_first s, ltail = last_or None xs, lmem = sl_mem s\<rparr> xs" using assms by (simp add: sll_def)
qed

lemma sll_Init [simp]: "sll (SLinkedList_Init m) []"
  by (simp add: sll_def SLinkedList_Init_def dll_def)

lemma sll_Prepend: "sll s xs \<Longrightarrow> n \<notin> set xs \<Longrightarrow> sll (SLinkedList_Prepend s n) (n # xs)"
  by (metis sll_dll sll_of sl_of_ops(1) dll_Prepend)

lemma sll_Remove: "sll s xs \<Longrightarrow> n \<in> set xs \<Longrightarrow> sll (SLinkedList_Remove s n) (remove1 n xs)"
  by (metis sll_dll sll_of sl_of_ops(3) l1.holds_del)

lemma sll_InsertBefore:
  "sll s (as @ t # bs) \<Longrightarrow> n \<notin> set (as @ t # bs) \<Longrightarrow> sll (SLinkedList_InsertBefore s n t) (as @ n # t # bs)"
  by (metis sll_dll sll_of sl_of_ops(2) dll_InsertBefore)

lemma sll_InsertAfter:
  "sll s (as @ t # bs) \<Longrightarrow> n \<notin> set (as @ t # bs) \<Longrightarrow> sll (SLinkedList_InsertAfter s n t) (as @ t # n # bs)"
  by (metis sll_dll sll_of sl_of_InsertAfter dll_InsertAfter in_set_conv_decomp)

lemma sll_first: "sll s xs \<Longrightarrow> sl_first s = first_or xs None" "sll s xs \<Longrightarrow> distinct xs"
  by (simp_all add: sll_def dll_def)

lemma sll_set_next: "sll s xs \<Longrightarrow> n \<notin> set xs \<Longrightarrow> sll (sl_set_next n v s) xs"
  by (simp add: sll_def dll_def sl_set_next_def)

text \<open>A linked entry never links to itself.\<close>

lemma dseg_not_self: "dseg m p xs None \<Longrightarrow> distinct xs \<Longrightarrow> x \<in> set xs \<Longrightarrow> nxt (m x) \<noteq> Some x"
proof (induction xs arbitrary: p)
  case (Cons y xs)
  then show ?case by (cases xs) auto
qed simp

lemma sll_not_self: "sll s xs \<Longrightarrow> x \<in> set xs \<Longrightarrow> nxt (sl_mem s x) \<noteq> Some x"
  using dseg_not_self [of "sl_mem s" None xs x] by (simp add: sll_def dll_def)

text \<open>The operations leave the links of other entries alone.\<close>

lemma Prepend_other: "sll s xs \<Longrightarrow> x \<notin> set xs \<Longrightarrow> x \<noteq> n \<Longrightarrow> sl_mem (SLinkedList_Prepend s n) x = sl_mem s x"
  using sll_first(1) [of s xs] by (cases xs) (auto simp: SLinkedList_Prepend_def sl_defs)

lemma Remove_other:
  assumes "sll s xs" "n \<in> set xs" "x \<notin> set xs"
  shows "sl_mem (SLinkedList_Remove s n) x = sl_mem s x"
proof -
  obtain as bs where xs: "xs = as @ n # bs" using assms(2) by (auto dest: split_list)
  have "dseg (sl_mem s) None (as @ n # bs) None" using assms(1) xs by (simp add: sll_def dll_def)
  then have p: "prv (sl_mem s n) = last_or None as" "nxt (sl_mem s n) = first_or bs None" by simp_all
  have "x \<noteq> n" using assms(3) xs by simp
  then show ?thesis using p assms(3) xs
    by (cases as rule: rev_cases; cases bs) (auto simp: SLinkedList_Remove_def sl_defs)
qed

section \<open>A group is a stack of jobs\<close>

definition pg_ok :: "pending_group \<Rightarrow> nat list \<Rightarrow> bool" where
  "pg_ok g js \<longleftrightarrow> sll (pg_jobs g) js \<and> set js \<subseteq> dom (pg_objs g)
     \<and> (\<forall>p o'. pg_objs g p = Some o' \<longrightarrow> sp_pending o' = (p \<in> set js) \<and> pg_linked g p = (p \<in> set js))"

definition pg_handlers :: "pending_group \<Rightarrow> nat \<rightharpoonup> nat" where
  "pg_handlers g = (\<lambda>p. map_option sp_handler (pg_objs g p))"

lemma dom_handlers [simp]: "dom (pg_handlers g) = dom (pg_objs g)"
  by (auto simp: pg_handlers_def dom_def)

lemma pg_ok_parts:
  assumes "pg_ok g js"
  shows "sll (pg_jobs g) js" "set js \<subseteq> dom (pg_objs g)" "distinct js" "SLinkedList_First (pg_jobs g) = first_or js None"
    "pg_objs g p = Some o' \<Longrightarrow> sp_pending o' = (p \<in> set js)" "pg_objs g p = Some o' \<Longrightarrow> pg_linked g p = (p \<in> set js)"
  using assms by (auto simp: pg_ok_def SLinkedList_First_def sll_first)

lemma job_init:
  assumes "pg_ok g js" "p \<notin> dom (pg_objs g)"
  shows "pg_ok (BSmallPending_Init g p h) js"
proof -
  have p: "p \<notin> set js" using assms pg_ok_parts(2) by blast
  have "sll (sl_set_next p (Some p) (pg_jobs g)) js" by (rule sll_set_next [OF pg_ok_parts(1) [OF assms(1)] p])
  moreover have "q \<noteq> p \<Longrightarrow> pg_linked (BSmallPending_Init g p h) q = pg_linked g q" "\<not> pg_linked (BSmallPending_Init g p h) p" for q
    by (simp_all add: pg_linked_def BSmallPending_Init_def sl_set_next_def)
  ultimately show ?thesis using assms(1) p by (auto simp: pg_ok_def BSmallPending_Init_def)
qed

text \<open>The list with a job taken out, and the link to itself that says so.\<close>

lemma unlinked:
  assumes "pg_ok g js" "p \<in> set js"
  shows "sll (sl_set_next p (Some p) (SLinkedList_Remove (pg_jobs g) p)) (remove1 p js)"
    and "pg_objs g q = Some o' \<Longrightarrow>
      (nxt (sl_mem (sl_set_next p (Some p) (SLinkedList_Remove (pg_jobs g) p)) q) \<noteq> Some q) = (q \<in> set (remove1 p js))"
proof -
  let ?s = "sl_set_next p (Some p) (SLinkedList_Remove (pg_jobs g) p)"
  have d: "distinct js" by (rule pg_ok_parts(3) [OF assms(1)])
  show s: "sll ?s (remove1 p js)"
    by (rule sll_set_next [OF sll_Remove [OF pg_ok_parts(1) [OF assms(1)] assms(2)]]) (use d in simp)
  assume q: "pg_objs g q = Some o'"
  show "(nxt (sl_mem ?s q) \<noteq> Some q) = (q \<in> set (remove1 p js))"
  proof (cases "q \<in> set js")
    case True
    then show ?thesis using sll_not_self [OF s, of q] d by (cases "q = p") (simp_all add: sl_set_next_def)
  next
    case False
    then have "nxt (sl_mem (pg_jobs g) q) = Some q" using pg_ok_parts(6) [OF assms(1) q] by (simp add: pg_linked_def)
    then show ?thesis using Remove_other [OF pg_ok_parts(1) [OF assms(1)] assms(2) False] False assms(2) d by (auto simp: sl_set_next_def)
  qed
qed

lemma job_execute:
  assumes "pg_ok g (p # js)"
  shows "\<exists>g' o'. BPendingGroup_ExecuteJob g = Some (g', p, sp_handler o') \<and> pg_objs g p = Some o' \<and> pg_ok g' js \<and> pg_handlers g' = pg_handlers g"
proof -
  obtain o' where o: "pg_objs g p = Some o'" using pg_ok_parts(2) [OF assms] by auto
  note u = unlinked [OF assms, of p]
  have d: "p \<notin> set js" using pg_ok_parts(3) [OF assms] by simp
  let ?g = "g\<lparr>pg_jobs := sl_set_next p (Some p) (SLinkedList_Remove (pg_jobs g) p), pg_objs := (pg_objs g)(p \<mapsto> o'\<lparr>sp_pending := False\<rparr>)\<rparr>"
  have e: "BPendingGroup_ExecuteJob g = Some (?g, p, sp_handler o')"
    using pg_ok_parts(4,5,6) [OF assms] o by (simp add: BPendingGroup_ExecuteJob_def)
  have l: "pg_objs g q = Some x \<Longrightarrow> pg_linked ?g q = (q \<in> set js)" for q x using u(2) [of q x] by (simp add: pg_linked_def)
  have k: "pg_objs g q = Some x \<Longrightarrow> q \<noteq> p \<Longrightarrow> sp_pending x = (q \<in> set js)" for q x using pg_ok_parts(5) [OF assms, of q x] by simp
  have "pg_ok ?g js" using u(1) pg_ok_parts(2) [OF assms] l k o d by (auto simp: pg_ok_def)
  moreover have "pg_handlers ?g = pg_handlers g" using o by (auto simp: pg_handlers_def)
  ultimately show ?thesis using e o by blast
qed

lemma job_unset:
  assumes "pg_ok g js" "p \<in> dom (pg_objs g)"
  shows "\<exists>g'. BSmallPending_Unset g p = Some g' \<and> pg_ok g' (remove1 p js) \<and> pg_handlers g' = pg_handlers g"
proof -
  obtain o' where o: "pg_objs g p = Some o'" using assms(2) by auto
  note f = pg_ok_parts(5,6) [OF assms(1) o]
  show ?thesis
  proof (cases "p \<in> set js")
    case True
    let ?g = "g\<lparr>pg_jobs := sl_set_next p (Some p) (SLinkedList_Remove (pg_jobs g) p), pg_objs := (pg_objs g)(p \<mapsto> o'\<lparr>sp_pending := False\<rparr>)\<rparr>"
    note u = unlinked [OF assms(1) True]
    have d: "distinct js" by (rule pg_ok_parts(3) [OF assms(1)])
    have l: "pg_objs g q = Some x \<Longrightarrow> pg_linked ?g q = (q \<in> set (remove1 p js))" for q x using u(2) [of q x] by (simp add: pg_linked_def)
    have k: "pg_objs g q = Some x \<Longrightarrow> q \<noteq> p \<Longrightarrow> sp_pending x = (q \<in> set (remove1 p js))" for q x
      using pg_ok_parts(5) [OF assms(1), of q x] d by simp
    have "pg_ok ?g (remove1 p js)" using u(1) pg_ok_parts(2) [OF assms(1)] l k o d by (auto simp: pg_ok_def)
    moreover have "pg_handlers ?g = pg_handlers g" using o by (auto simp: pg_handlers_def)
    moreover have "BSmallPending_Unset g p = Some ?g" using f True o by (simp add: BSmallPending_Unset_def)
    ultimately show ?thesis by blast
  next
    case False
    then show ?thesis using f o assms(1) by (simp add: BSmallPending_Unset_def remove1_idem)
  qed
qed

text \<open>Taking a job out without marking it, as freeing and setting it do.\<close>

lemma taken_out:
  assumes "pg_ok g js" "pg_objs g p = Some o'"
  defines "j \<equiv> (if pg_linked g p then SLinkedList_Remove (pg_jobs g) p else pg_jobs g)"
  shows "sll j (remove1 p js)" "pg_objs g q = Some x \<Longrightarrow> q \<noteq> p \<Longrightarrow> (nxt (sl_mem j q) \<noteq> Some q) = (q \<in> set (remove1 p js))"
proof -
  have f: "pg_linked g p = (p \<in> set js)" by (rule pg_ok_parts(6) [OF assms(1,2)])
  show "sll j (remove1 p js)" using sll_Remove [OF pg_ok_parts(1) [OF assms(1)], of p] pg_ok_parts(1) [OF assms(1)]
    by (auto simp: j_def f remove1_idem)
  assume q: "pg_objs g q = Some x" "q \<noteq> p"
  show "(nxt (sl_mem j q) \<noteq> Some q) = (q \<in> set (remove1 p js))"
  proof (cases "p \<in> set js")
    case True
    then show ?thesis using unlinked(2) [OF assms(1) True q(1)] q(2) by (simp add: j_def f sl_set_next_def)
  next
    case False
    then have "j = pg_jobs g" by (simp add: j_def f)
    then show ?thesis using pg_ok_parts(6) [OF assms(1) q(1)] False by (simp add: remove1_idem pg_linked_def)
  qed
qed

lemma job_free:
  assumes "pg_ok g js" "p \<in> dom (pg_objs g)"
  shows "\<exists>g'. BSmallPending_Free g p = Some g' \<and> pg_ok g' (remove1 p js) \<and> pg_handlers g' = (pg_handlers g)(p := None)"
proof -
  obtain o' where o: "pg_objs g p = Some o'" using assms(2) by auto
  let ?j = "if pg_linked g p then SLinkedList_Remove (pg_jobs g) p else pg_jobs g"
  let ?g = "g\<lparr>pg_jobs := ?j, pg_objs := (pg_objs g)(p := None)\<rparr>"
  note u = taken_out [OF assms(1) o]
  have d: "distinct js" by (rule pg_ok_parts(3) [OF assms(1)])
  have l: "pg_objs g q = Some x \<Longrightarrow> q \<noteq> p \<Longrightarrow> pg_linked ?g q = (q \<in> set (remove1 p js))" for q x using u(2) [of q x] by (simp add: pg_linked_def)
  have k: "pg_objs g q = Some x \<Longrightarrow> q \<noteq> p \<Longrightarrow> sp_pending x = (q \<in> set (remove1 p js))" for q x
    using pg_ok_parts(5) [OF assms(1), of q x] d by simp
  have m: "set (remove1 p js) \<subseteq> dom (pg_objs ?g)" using pg_ok_parts(2) [OF assms(1)] d by auto
  have "pg_ok ?g (remove1 p js)" unfolding pg_ok_def using u(1) m l k by (auto split: if_splits)
  moreover have "pg_handlers ?g = (pg_handlers g)(p := None)" by (auto simp: pg_handlers_def)
  moreover have "BSmallPending_Free g p = Some ?g" using pg_ok_parts(5,6) [OF assms(1) o] o by (simp add: BSmallPending_Free_def)
  ultimately show ?thesis by blast
qed

lemma job_set:
  assumes "pg_ok g js" "p \<in> dom (pg_objs g)"
  shows "\<exists>g'. BSmallPending_Set g p = Some g' \<and> pg_ok g' (p # remove1 p js) \<and> pg_handlers g' = pg_handlers g"
proof -
  obtain o' where o: "pg_objs g p = Some o'" using assms(2) by auto
  define j where "j = (if pg_linked g p then SLinkedList_Remove (pg_jobs g) p else pg_jobs g)"
  let ?g = "g\<lparr>pg_jobs := SLinkedList_Prepend j p, pg_objs := (pg_objs g)(p \<mapsto> o'\<lparr>sp_pending := True\<rparr>)\<rparr>"
  note u = taken_out [OF assms(1) o, folded j_def]
  have d: "distinct js" "p \<notin> set (remove1 p js)" using pg_ok_parts(3) [OF assms(1)] by simp_all
  have s: "sll (SLinkedList_Prepend j p) (p # remove1 p js)" by (rule sll_Prepend [OF u(1) d(2)])
  have l: "pg_linked ?g q = (q \<in> set (p # remove1 p js))" if q: "pg_objs g q = Some x" for q x
  proof (cases "q \<in> set (p # remove1 p js)")
    case True
    then show ?thesis using sll_not_self [OF s True] by (simp add: pg_linked_def)
  next
    case False
    then show ?thesis using u(2) [OF q] Prepend_other [OF u(1), of q p] by (simp add: pg_linked_def)
  qed
  have k: "pg_objs g q = Some x \<Longrightarrow> q \<noteq> p \<Longrightarrow> sp_pending x = (q \<in> set (p # remove1 p js))" for q x
    using pg_ok_parts(5) [OF assms(1), of q x] d by simp
  have m: "set (p # remove1 p js) \<subseteq> dom (pg_objs ?g)" using pg_ok_parts(2) [OF assms(1)] d by auto
  have "pg_ok ?g (p # remove1 p js)" unfolding pg_ok_def using s m l k o by (auto split: if_splits)
  moreover have "pg_handlers ?g = pg_handlers g" using o by (auto simp: pg_handlers_def)
  moreover have "BSmallPending_Set g p = Some ?g" using pg_ok_parts(5,6) [OF assms(1) o] o by (simp add: BSmallPending_Set_def j_def)
  ultimately show ?thesis by blast
qed

lemma job_handler:
  assumes "pg_ok g js" "p \<in> dom (pg_objs g)"
  shows "\<exists>g'. BSmallPending_SetHandler g p h = Some g' \<and> pg_ok g' js \<and> pg_handlers g' = (pg_handlers g)(p \<mapsto> h)"
proof -
  obtain o' where o: "pg_objs g p = Some o'" using assms(2) by auto
  let ?g = "g\<lparr>pg_objs := (pg_objs g)(p \<mapsto> o'\<lparr>sp_handler := h\<rparr>)\<rparr>"
  have "pg_ok ?g js" using assms(1) o by (auto simp: pg_ok_def pg_linked_def)
  moreover have "pg_handlers ?g = (pg_handlers g)(p \<mapsto> h)" by (auto simp: pg_handlers_def)
  moreover have "BSmallPending_SetHandler g p h = Some ?g" using o by (simp add: BSmallPending_SetHandler_def)
  ultimately show ?thesis by blast
qed

section \<open>Runs of a group\<close>

text \<open>The calls on a group, and what they have called themselves: a job and its handler.\<close>

datatype pend_op = PendInit nat nat | PendFree nat | PendHandler nat nat | PendSet nat | PendUnset nat | PendExecute

fun pend_do :: "pend_op \<Rightarrow> pending_group \<Rightarrow> (pending_group \<times> (nat \<times> nat) list) option" where
  "pend_do (PendInit p h) g = Some (BSmallPending_Init g p h, [])"
| "pend_do (PendFree p) g = map_option (\<lambda>g. (g, [])) (BSmallPending_Free g p)"
| "pend_do (PendHandler p h) g = map_option (\<lambda>g. (g, [])) (BSmallPending_SetHandler g p h)"
| "pend_do (PendSet p) g = map_option (\<lambda>g. (g, [])) (BSmallPending_Set g p)"
| "pend_do (PendUnset p) g = map_option (\<lambda>g. (g, [])) (BSmallPending_Unset g p)"
| "pend_do PendExecute g = map_option (\<lambda>(g, p, h). (g, [(p, h)])) (BPendingGroup_ExecuteJob g)"

text \<open>
  The same on a map from the jobs to their handlers and a stack of the jobs that are set; calls that the
  documentation forbids, such as freeing a job that is not there, have no result.
\<close>

type_synonym job_stack = "(nat \<rightharpoonup> nat) \<times> nat list"

fun stack_do :: "pend_op \<Rightarrow> job_stack \<Rightarrow> (job_stack \<times> (nat \<times> nat) list) option" where
  "stack_do (PendInit p h) (hs, js) = (if hs p \<noteq> None then None else Some ((hs(p \<mapsto> h), js), []))"
| "stack_do (PendFree p) (hs, js) = (if hs p = None then None else Some ((hs(p := None), remove1 p js), []))"
| "stack_do (PendHandler p h) (hs, js) = (if hs p = None then None else Some ((hs(p \<mapsto> h), js), []))"
| "stack_do (PendSet p) (hs, js) = (if hs p = None then None else Some ((hs, p # remove1 p js), []))"
| "stack_do (PendUnset p) (hs, js) = (if hs p = None then None else Some ((hs, remove1 p js), []))"
| "stack_do PendExecute (hs, js) = (case js of [] \<Rightarrow> None | p # js' \<Rightarrow> Some ((hs, js'), [(p, the (hs p))]))"

fun op_run :: "(pend_op \<Rightarrow> 's \<Rightarrow> ('s \<times> 'e list) option) \<Rightarrow> pend_op list \<Rightarrow> 's \<Rightarrow> ('s \<times> 'e list) option" where
  "op_run f [] s = Some (s, [])"
| "op_run f (x # xs) s =
     (case f x s of
        None \<Rightarrow> None
      | Some (s1, es) \<Rightarrow> map_option (\<lambda>(s2, fs). (s2, es @ fs)) (op_run f xs s1))"

definition pg_represents :: "pending_group \<Rightarrow> job_stack \<Rightarrow> bool" where
  "pg_represents g a \<longleftrightarrow> pg_ok g (snd a) \<and> pg_handlers g = fst a"

lemma handlers_dom: "p \<in> dom (pg_objs g) \<longleftrightarrow> pg_handlers g p \<noteq> None"
  by (auto simp: pg_handlers_def)

lemma pend_do_represents:
  assumes "pg_represents g a" "stack_do x a = Some (a', es)"
  shows "\<exists>g'. pend_do x g = Some (g', es) \<and> pg_represents g' a'"
proof -
  obtain hs js where a: "a = (hs, js)" by (cases a)
  have g: "pg_ok g js" "pg_handlers g = hs" using assms(1) a by (simp_all add: pg_represents_def)
  note d = handlers_dom [of _ g, unfolded g(2)]
  show ?thesis
  proof (cases x)
    case (PendInit p h)
    then have n: "hs p = None" and e: "es = []" "a' = (hs(p \<mapsto> h), js)" using assms(2) a by (auto split: if_splits)
    have "pg_handlers (BSmallPending_Init g p h) = hs(p \<mapsto> h)" using g(2) by (auto simp: pg_handlers_def BSmallPending_Init_def)
    then show ?thesis using PendInit e job_init [OF g(1), of p h] d n by (auto simp: pg_represents_def)
  next
    case (PendFree p)
    then show ?thesis using assms(2) a job_free [OF g(1), of p] d g(2) by (auto simp: pg_represents_def split: if_splits)
  next
    case (PendHandler p h)
    then show ?thesis using assms(2) a job_handler [OF g(1), of p h] d g(2) by (auto simp: pg_represents_def split: if_splits)
  next
    case (PendSet p)
    then show ?thesis using assms(2) a job_set [OF g(1), of p] d g(2) by (auto simp: pg_represents_def split: if_splits)
  next
    case (PendUnset p)
    then show ?thesis using assms(2) a job_unset [OF g(1), of p] d g(2) by (auto simp: pg_represents_def split: if_splits)
  next
    case PendExecute
    then obtain p js' where j: "js = p # js'" "a' = (hs, js')" "es = [(p, the (hs p))]" using assms(2) a by (auto split: list.splits)
    obtain g' o' where e: "BPendingGroup_ExecuteJob g = Some (g', p, sp_handler o')" "pg_objs g p = Some o'" "pg_ok g' js'" "pg_handlers g' = hs"
      using job_execute [of g p js'] g j by auto
    have "the (hs p) = sp_handler o'" unfolding g(2) [symmetric] using e(2) by (simp add: pg_handlers_def)
    then show ?thesis using PendExecute e j by (simp add: pg_represents_def)
  qed
qed

lemma pend_run_represents:
  "pg_represents g a \<Longrightarrow> op_run stack_do xs a = Some (a', es) \<Longrightarrow> \<exists>g'. op_run pend_do xs g = Some (g', es) \<and> pg_represents g' a'"
proof (induction xs arbitrary: g a es)
  case (Cons x xs)
  then obtain a1 es1 es2 where s: "stack_do x a = Some (a1, es1)" "op_run stack_do xs a1 = Some (a', es2)" "es = es1 @ es2"
    by (auto split: option.splits prod.splits)
  obtain g1 where g1: "pend_do x g = Some (g1, es1)" "pg_represents g1 a1" using pend_do_represents [OF Cons.prems(1) s(1)] by blast
  then show ?case using Cons.IH [OF g1(2) s(2)] s(3) by auto
qed simp

text \<open>What can be asked about a group.\<close>

lemma represents_queries:
  assumes "pg_represents g (hs, js)"
  shows "BPendingGroup_HasJobs g = (js \<noteq> [])" "BPendingGroup_PeekJob g = (if js = [] then None else Some (hd js))"
    "hs p \<noteq> None \<Longrightarrow> BSmallPending_IsSet g p = Some (p \<in> set js)" "BPendingGroup_Free g = (if js = [] then Some () else None)"
proof -
  have g: "pg_ok g js" "pg_handlers g = hs" using assms by (simp_all add: pg_represents_def)
  have f: "sl_first (pg_jobs g) = first_or js None" using pg_ok_parts(1) [OF g(1)] by (rule sll_first)
  show "BPendingGroup_HasJobs g = (js \<noteq> [])" "BPendingGroup_PeekJob g = (if js = [] then None else Some (hd js))"
    "BPendingGroup_Free g = (if js = [] then Some () else None)"
    using f by (cases js; simp add: BPendingGroup_HasJobs_def BPendingGroup_PeekJob_def BPendingGroup_Free_def SLinkedList_IsEmpty_def SLinkedList_First_def)+
  assume "hs p \<noteq> None"
  then obtain o' where o: "pg_objs g p = Some o'" using g(2) by (auto simp: pg_handlers_def)
  then show "BSmallPending_IsSet g p = Some (p \<in> set js)" using pg_ok_parts(5,6) [OF g(1) o] by (simp add: BSmallPending_IsSet_def)
qed

section \<open>Properties\<close>

text \<open>
  C25: A group of jobs is a stack.  Whatever calls are made, as long as none names a job that is not
  there, no assertion fails and no freed job is used, and the handlers are called that the stack
  calls, in that order: setting a job puts it on top, also when it was set before, and the job on top runs next and is
  no longer set when it does.  What the group says about its jobs is what the stack says.
\<close>

theorem pending_group_refines_stack:
  assumes "op_run stack_do xs (Map.empty, []) = Some ((hs, js), es)"
  shows "\<exists>g. op_run pend_do xs (BPendingGroup_Init m) = Some (g, es)
     \<and> BPendingGroup_HasJobs g = (js \<noteq> []) \<and> BPendingGroup_PeekJob g = (if js = [] then None else Some (hd js))
     \<and> (\<forall>p. hs p \<noteq> None \<longrightarrow> BSmallPending_IsSet g p = Some (p \<in> set js))
     \<and> BPendingGroup_Free g = (if js = [] then Some () else None)"
proof -
  have "pg_represents (BPendingGroup_Init m) (Map.empty, [])"
    by (simp add: pg_represents_def pg_ok_def BPendingGroup_Init_def pg_handlers_def)
  then obtain g where g: "op_run pend_do xs (BPendingGroup_Init m) = Some (g, es)" "pg_represents g (hs, js)"
    using pend_run_represents assms by blast
  then show ?thesis using represents_queries [OF g(2)] by blast
qed

theorem pending_group_refines_stack_witness:
  "\<exists>hs. let xs = [PendInit 1 10, PendInit 2 20, PendInit 3 30, PendSet 1, PendSet 2, PendSet 3, PendSet 1, PendUnset 3, PendExecute, PendExecute, PendSet 3] in
   op_run stack_do xs (Map.empty, []) = Some ((hs, [3]), [(1, 10), (2, 20)]) \<and>
   (\<exists>g. op_run pend_do xs (BPendingGroup_Init (\<lambda>_. \<lparr>nxt = None, prv = None\<rparr>)) = Some (g, [(1, 10), (2, 20)])
     \<and> BPendingGroup_HasJobs g = ([3] \<noteq> ([] :: nat list)) \<and> BPendingGroup_PeekJob g = (if [3] = ([] :: nat list) then None else Some (hd [3]))
     \<and> (\<forall>p. hs p \<noteq> None \<longrightarrow> BSmallPending_IsSet g p = Some (p \<in> set [3]))
     \<and> BPendingGroup_Free g = (if [3] = ([] :: nat list) then Some () else None))"
proof -
  let ?xs = "[PendInit 1 10, PendInit 2 20, PendInit 3 30, PendSet 1, PendSet 2, PendSet 3, PendSet 1, PendUnset 3, PendExecute, PendExecute, PendSet 3]"
  let ?hs = "[1 \<mapsto> 10, 2 \<mapsto> 20, 3 \<mapsto> 30] :: nat \<rightharpoonup> nat"
  have s: "op_run stack_do ?xs (Map.empty, []) = Some ((?hs, [3]), [(1, 10), (2, 20)])" by simp
  show ?thesis unfolding Let_def by (intro exI [of _ ?hs] conjI s pending_group_refines_stack [OF s])
qed

end
