(* ===== verification/Spec2Isabelle.thy ===== *)
theory Spec2Isabelle
  imports Socks5_Client Socks5_Server Session_Tcp Session_Udp Tunnel Tunnel_Sync Packet_Link Udpgw_Client Bsocks_Client Udp_Engine Tun_Tcp Ipaddr6 Pending
begin

text \<open>
  A verification development for the two tunnel engines of this repository.  Each takes the IP
  packets of a virtual network device, ends their TCP connections and UDP flows in a user-space IP
  stack, and carries them on through a SOCKS5 proxy.  The app runs \<^verbatim>\<open>badvpn\<close> (\<^verbatim>\<open>app/src/main/jni/badvpn\<close>)
  by default, and \<^verbatim>\<open>hev\<close> (\<^verbatim>\<open>app/src/main/jni/hev\<close>) as its fast tunnel.

  \<^bold>\<open>How the parts of hev work together\<close> (paths relative to \<^verbatim>\<open>hev/src\<close>).  The tunnel (\<^verbatim>\<open>hev-socks5-tunnel.c\<close>) feeds packets to the
  stack, which calls back for a new connection or flow.  For each the tunnel creates a session
  (\<^verbatim>\<open>hev-socks5-session-tcp.c\<close>, \<^verbatim>\<open>hev-socks5-session-udp.c\<close>), a SOCKS5 client
  (\<^verbatim>\<open>core/src/hev-socks5-client*.c\<close>) with its own task; the task connects to the proxy, shakes
  hands and splices the two sides, streams through a ring buffer (\<^verbatim>\<open>misc/hev-ring-buffer.c\<close>),
  datagrams through a queue and the UDP transport (\<^verbatim>\<open>core/src/hev-socks5-udp.c\<close>).  Host names
  are resolved by the proxy: DNS queries are answered from a map of names to addresses of a
  reserved network (\<^verbatim>\<open>hev-mapped-dns.c\<close>), and a connection to such an address is turned back
  into one to the name.  The same library has the server side of the protocol
  (\<^verbatim>\<open>core/src/hev-socks5-server.c\<close>) with a tree of users.

  \<^bold>\<open>How the parts of badvpn work together\<close> (paths relative to \<^verbatim>\<open>badvpn\<close>).  A TCP connection goes
  through a SOCKS client of its own (\<^verbatim>\<open>socksclient/BSocksClient.c\<close>).  DNS queries may be sent on to
  a local DNS server, and datagrams are taken out of the packets (\<^verbatim>\<open>tun2socks/tun2socks.c\<close>, with
  \<^verbatim>\<open>misc/ipv4_proto.h\<close>, \<^verbatim>\<open>ipv6_proto.h\<close> and \<^verbatim>\<open>udp_proto.h\<close>); they go to a gateway server over a SOCKS
  connection that is set up again when it breaks (\<^verbatim>\<open>tun2socks/SocksUdpGwClient.c\<close>), by way of the UDP
  gateway client (\<^verbatim>\<open>udpgw_client/UdpGwClient.c\<close>), which gives every pair of addresses a numbered
  connection with a flow (\<^verbatim>\<open>flow/PacketProtoFlow.c\<close>: a writer, the encoder and a packet buffer); a
  fair queue (\<^verbatim>\<open>flow/PacketPassFairQueue.c\<close>) merges the flows, and a connector and a sender
  (\<^verbatim>\<open>flow/PacketPassConnector.c\<close>, \<^verbatim>\<open>flow/PacketStreamSender.c\<close>) put them on the stream to whichever server
  there is; the server's packets come back through \<^verbatim>\<open>flow/PacketProtoDecoder.c\<close>.

  \<^bold>\<open>The theories of hev.\<close>  Each component theory has the component's state as a record, one definition
  per C function (under the C name), the component's invariant, and the lemmas about them.

  \<^item> \<open>Prelude\<close>: the types of bytes and machine integers, byte order, shared lemmas.
  \<^item> \<open>Hev_List\<close>: \<^verbatim>\<open>misc/hev-list.c\<close> on a store of nodes.  The interface of a sequence
    of nodes is a locale, interpreted on the list; sessions, queued frames and DNS names use it.
  \<^item> \<open>Ring_Buffer\<close>: \<^verbatim>\<open>misc/hev-ring-buffer.c\<close> with 64-bit counters; the interface of a
    window of a stream (put, hand on, release) is a locale, interpreted on the buffer and used by
    the TCP session.
  \<^item> \<open>RB_Tree\<close>: \<^verbatim>\<open>core/src/hev-rbtree.c\<close>; a position in a tree is a list of frames from
    the node up to the root, which stands for the parent pointers.  \<open>Byte_Order\<close> orders the
    keys of its users.
  \<^item> \<open>Sock_IO\<close>: the transfer loops of the task library's \<^verbatim>\<open>hev-task-io-socket.c\<close>, over a
    script of what the kernel will answer.  All of them terminate, by a measure on the script.
  \<^item> \<open>Socks5_Addr\<close>, \<open>Socks5_Net\<close>: \<^verbatim>\<open>hev-socks5.c\<close>, \<^verbatim>\<open>hev-socks5-misc.c\<close>; name
    resolution and the kernel's socket calls are parameters (\<open>resolver\<close>, \<open>net\<close>), with
    \<open>resolver_ok\<close> and \<open>fresh_fds\<close> as what the code relies on.
  \<^item> \<open>Socks5_Auth\<close>, \<open>Socks5_Client\<close>, \<open>Socks5_Server\<close>, \<open>Socks5_Udp\<close>: users, the two
    sides of the handshake, the datagram transport.
  \<^item> \<open>Mapped_Dns\<close>, \<open>Dns_Handle\<close>: the map, the query handler on byte buffers, and the
    address translation of \<^verbatim>\<open>misc/hev-utils.c\<close>.
  \<^item> \<open>Session_Tcp\<close>, \<open>Session_Udp\<close>: the sessions with the callbacks of the stack that run
    while a session's task is suspended, as arguments of each turn.
  \<^item> \<open>Tunnel\<close>: the set of sessions, the callbacks that create them, the tasks, start-up and
    shut-down.
  \<^item> \<open>Tunnel_Sync\<close>: stopping the tunnel from other threads, as an interleaving of atomic
    steps of the main thread and any number of stopping threads; and the tasks of the tunnel, as far as
    the end of a run waits for them: their loops, suspensions and time-outs.

  \<^bold>\<open>The theories of badvpn.\<close>

  \<^item> \<open>C_Memory\<close>: loads and stores in byte buffers that fail outside them, allocation, and
    \<^verbatim>\<open>misc/bsize.h\<close>.
  \<^item> \<open>Linked_List1\<close>, \<open>B_Avl\<close>, \<open>C_Avl\<close>: \<^verbatim>\<open>structure/LinkedList1.h\<close>, \<^verbatim>\<open>BAVL.h\<close> and \<^verbatim>\<open>CAvl_impl.h\<close>.
    The list is another instance of the interface in \<open>Hev_List\<close>; an index over a set of objects
    with a comparator is a locale in \<open>B_Avl\<close>, interpreted on the comparators of the users.
  \<^item> \<open>B_Addr\<close>: addresses and their order.
  \<^item> \<open>Chunk_Buffer\<close>, \<open>Packet_Proto\<close>, \<open>Proto_Flow\<close>: the packet buffer, the framing, and the flow
    made of both.  A bounded queue of packets is a locale, interpreted on the buffer and the flow.
  \<^item> \<open>Packet_Link\<close>: connector and sender, with servers that come and go.
  \<^item> \<open>Fair_Queue\<close>: the queue with its 64-bit virtual times, which never wrap.
  \<^item> \<open>Udpgw_Client\<close>: the gateway client.
  \<^item> \<open>Bsocks_Client\<close>: the SOCKS client as a state machine over its buffer.
  \<^item> \<open>Ip_Proto\<close>: the headers of IPv4, IPv6 and UDP as bytes, the checksums and the checks.
  \<^item> \<open>Tun_Device\<close>: datagrams of the device in both directions, and the DNS gateway.
  \<^item> \<open>Udp_Engine\<close>: the gateway client over SOCKS and the handler of device packets, and with them
    everything that datagrams pass through in one state machine.
  \<^item> \<open>Tun_Tcp\<close>: the TCP clients of \<^verbatim>\<open>tun2socks.c\<close>, each between a connection of the IP stack and a SOCKS
    client, as a state machine over all of them and the events of both sides.
  \<^item> \<open>Pending\<close>: the jobs of \<^verbatim>\<open>base/BPending.c\<close> on the list of \<^verbatim>\<open>structure/SLinkedList_impl.h\<close>.
  \<^item> \<open>Parse_Number\<close>, \<open>Ipaddr6\<close>: \<^verbatim>\<open>misc/parse_number.h\<close> and \<^verbatim>\<open>misc/ipaddr6.h\<close>, numbers and IPv6 addresses as text.

  This theory has the properties that span components.

  \<^bold>\<open>What is shown.\<close>  Data structures refine their abstract counterparts over arbitrary sequences
  of operations (list and sequence, ring and stream window, tree and sorted set, authenticator
  and map, mapped DNS and least-recently-used cache, session set and activity list).  The
  protocol operations are characterised as functions of the bytes that arrive, in any
  segmentation, on success and on every failure.  The sessions neither lose, duplicate nor
  reorder bytes or datagrams: what a UDP session reports as sent is what it wrote, except for a batch
  that is cut short.  The query handler is memory safe.  Start-up closes exactly what it opened
  when it fails.  The stop protocol is safe, and an event that was sent ends the run: however the tasks
  are scheduled, the main thread gets past the joins and the scheduler's last task.  Several
  theorems show behaviour that the code should not have: a stop that is lost, a gap in a stream
  after a failed write, a message count taken from a byte count, a batch that counts as sent though
  a frame of it was cut, a header length that wraps, a user name that is read after it was freed.

  In badvpn, the table of gateway connections is a least-recently-used table in every reachable
  state, numbers are found and packets delivered exactly as the table says; no flow is overtaken
  without bound while it waits; packets reach the servers in order, whole and once, however often
  the server changes; the decoder equals a parser of the stream, however it is cut.  The checksums
  are those of the protocols except for one value; what is written to the device is read back as the
  same datagram; the DNS gateway is a table of source ports.  The whole UDP side keeps its invariant
  through every event, reconnects included, and an answer on a connection reaches the program whose
  datagram opened it.  The TCP clients keep both streams in order and handle every event, in whatever
  order they come, without touching a freed client or connection; the exception is the option
  \<^verbatim>\<open>--append-source-to-username\<close>, under which a SOCKS client may read a user name that its TCP client
  has freed (\<open>shared_username_dangles\<close>).  After one side has closed, what is left for the other is
  delivered as long as that other side goes on taking data, and the end of the program frees every client.  A group of jobs is a stack.  The parsers of numbers and addresses stay inside their strings and read
  back what is printed.

  \<^bold>\<open>Errors and undefined behaviour.\<close>  A C return code is an integer of the result.  Where the C code
  would follow a null or freed pointer, leave a buffer or use memory that was never written, the
  model gives \<open>None\<close> or \<open>Fault\<close>; the theorems state that it does not happen, or show when it
  does.

  \<^bold>\<open>Bounds and fuel.\<close>  Walks along the linked list take fuel; the number of nodes is always enough,
  and the theorems say so.  The splice loops run over a list of turns, each with the answers of
  the kernel and the stack; a list that ends leaves the task waiting.  The callbacks of a turn have to be
  ones that the stack may make in the state in which they run, which is stated along the loop.  The stack's receive window
  is below 65536 bytes (\<^verbatim>\<open>TCP_WND\<close>), the ring at most \<^verbatim>\<open>TCP_SND_BUF\<close> = 65528 bytes, as the
  configuration enforces, so that the 16-bit lengths of the stack do not overflow.  Loops of badvpn
  without a structural measure are partial functions into \<open>option\<close>; that they return is part of
  the theorems.  Jobs that badvpn schedules and runs before it returns to its event loop are steps
  of the model of their own, or one step with the call that scheduled them where nothing can come
  between; the data of a connection's first packet is taken when its job is set.

  \<^bold>\<open>Not modelled.\<close>  The scheduler, timers, mutexes and channels of the task library, the IP stack and
  the YAML reader are third-party code; their results are arguments.  Which task runs next is left open,
  and every choice is covered; between two turns of a task of a stopping tunnel the device and the sockets
  have finitely much to transfer.  Configuration, logging, the
  JNI glue and the device ioctls only pass values on.  The splice routine that the server uses
  between two sockets belongs to the task library.  Allocation failures are modelled where the
  code has a branch that changes state on them, not where the function only returns an error.
  Of badvpn, the event loop over epoll, the timers, and the parsing of arguments and the set-up of the device
  in \<^verbatim>\<open>tun2socks\<close> are not modelled; when a timer fires or a job runs is an event of the models.
  \<^verbatim>\<open>pdnsd\<close> is a third-party program kept in the repository.
\<close>

section \<open>A client and a server of this library understand each other\<close>

text \<open>The client has the credentials that the server asks for, if it asks for any.\<close>

definition credentials_match :: "client \<Rightarrow> server \<Rightarrow> bool" where
  "credentials_match c s \<longleftrightarrow>
     (case auth_map s of
        None \<Rightarrow> auth_user c = None \<or> auth_pass c = None
      | Some pw \<Rightarrow> (\<exists>u p. auth_user c = Some u \<and> auth_pass c = Some p \<and> u \<noteq> [] \<and> p \<noteq> [] \<and> pw u = Some p))"

lemma offer_accepted:
  assumes "credentials_match c s" "creds_fit c"
  shows "\<exists>ans. srv_auth (auth_map s) (offer c @ creds c @ r) = (ans, Some (length (offer c @ creds c)))
     \<and> (\<forall>x. auth_part (ans @ x) = Some (length ans))"
proof (cases "auth_map s")
  case None
  with assms(1) have "offer c = [5, 1, 0]" "creds c = []"
    by (auto simp: credentials_match_def offer_def creds_def split: option.splits)
  with None show ?thesis
    by (intro exI [of _ "[5, 0]"]) (simp add: srv_auth_def method_part_def auth_part_def)
next
  case (Some pw)
  then obtain u p where up: "auth_user c = Some u" "auth_pass c = Some p" "u \<noteq> []" "p \<noteq> []" "pw u = Some p"
    using assms(1) by (auto simp: credentials_match_def)
  then have l: "length u < 256" "length p < 256" using assms(2) by (auto simp: creds_fit_def)
  have n: "unat (of_nat (length u) :: u8) = length u" "unat (of_nat (length p) :: u8) = length p"
    using l by (simp_all add: unat_of_nat_u8)
  then have z: "of_nat (length u) \<noteq> (0 :: u8)" "of_nat (length p) \<noteq> (0 :: u8)"
    using up(3,4) by (metis length_0_conv unat_0)+
  have "creds_part pw (creds c @ r) = Some (length (creds c))"
    using up n z by (simp add: creds_part_def creds_def nth_append)
  moreover have "method_part 2 (offer c @ creds c @ r) = Some 3"
    using up by (simp add: method_part_def offer_def)
  ultimately show ?thesis
    using Some up by (intro exI [of _ "[5, 2, 1, 0]"]) (simp add: srv_auth_def auth_part_def offer_def)
qed

lemma reply_sockaddr:
  assumes "length (sin6_addr sa) = 16"
  shows "reply_part ([5, rep, 0] @ enc_dest (sockaddr_dest sa))
     = (if rep = 0 then Some (3 + length (enc_dest (sockaddr_dest sa))) else None)"
  using assms by (auto simp: reply_part_def sockaddr_dest_def)

lemma reply_accepted:
  assumes "\<forall>x. auth_part (ans @ x) = Some (length ans)" "length (sin6_addr sa) = 16"
  shows "accepted (ans @ [5, rep, 0] @ enc_dest (sockaddr_dest sa) @ rest)
     = (if rep = 0 then Some (length ans + (3 + length (enc_dest (sockaddr_dest sa)))) else None)"
proof -
  have "reply_part (([5, rep, 0] @ enc_dest (sockaddr_dest sa)) @ rest)
      = (if rep = 0 then Some (3 + length (enc_dest (sockaddr_dest sa))) else None)"
    using assms(2) by (auto simp: reply_part_def sockaddr_dest_def)
  with assms(1) show ?thesis by (simp add: accepted_def del: sockaddr_dest_def)
qed

text \<open>
  C2: A client and a server of this library complete a handshake with each other.  When the server
  reads what the client of a connect request sends, with the credentials that the server asks
  for, it answers; and when the client reads that answer, the client's handshake succeeds exactly
  when the server's does, that is, when the kernel connects to the resolved destination.  After
  success neither side has consumed a byte of the data that follows.
\<close>

theorem client_server_handshake:
  assumes "requestable c 1 d" "credentials_match c s"
    and "timeouts_pos G" "sk_timeout s \<noteq> 0" "fresh_fds N" "resolver_ok R"
    and "clear_out (hev_socks5_set_timeout (tcp_timeout G) s)" "obj_ok s"
    and "inflow (hev_socks5_set_timeout (tcp_timeout G) s) = offer c @ creds c @ [5, 1, 0] @ enc_dest d @ up"
    and "dest_sockaddr R d (sk_addr_family s) = Some (sa, fam)"
    and "ok = connectable N (sk_open s) sa"
  shows "\<exists>s' ans. hev_socks5_server_handshake G R N s = Some (if ok then 0 else -1, s') \<and> outs s' = outs s @ ans
     \<and> (\<forall>down. inflow c = ans @ down \<longrightarrow>
          (\<exists>c'. hev_socks5_client_handshake_pipeline R' N' c = Some (if ok then 0 else -1, c')
             \<and> (ok \<longrightarrow> outs c' = outs c @ offer c @ creds c @ [5, 1, 0] @ enc_dest d \<and> inflow c' = down)))"
proof -
  let ?s0 = "hev_socks5_set_timeout (tcp_timeout G) s" and ?rep = "enc_dest (sockaddr_dest sa)"
  have cf: "creds_fit c" "dest_wf d" using assms(1) by (simp_all add: requestable_def)
  have l: "length (sin6_addr sa) = 16" using dest_sockaddr_len [OF assms(6) cf(2) assms(10)] by simp
  obtain a where a: "srv_auth (auth_map s) (offer c @ creds c @ [5, 1, 0] @ enc_dest d @ up) = (a, Some (length (offer c @ creds c)))"
    "\<forall>x. auth_part (a @ x) = Some (length a)"
    using offer_accepted [OF assms(2) cf(1)] by blast
  have d: "drop (length (offer c @ creds c)) (inflow ?s0) = [5, 1, 0] @ enc_dest d @ up" using assms(9) by simp
  obtain s' where s': "hev_socks5_server_handshake G R N s = Some (if ok then 0 else -1, s')"
    "outs s' = outs s @ a @ [5, if ok then 0 else 4, 0] @ ?rep"
    using handshake_connect [OF refl assms(3-8) _ d cf(2) assms(10,11)] a(1) assms(9) by auto
  have "\<exists>c'. hev_socks5_client_handshake_pipeline R' N' c = Some (if ok then 0 else -1, c')
      \<and> (ok \<longrightarrow> outs c' = outs c @ offer c @ creds c @ [5, 1, 0] @ enc_dest d \<and> inflow c' = down)"
    if "inflow c = (a @ [5, if ok then 0 else 4, 0] @ ?rep) @ down" for down
  proof -
    have "accepted (inflow c) = (if ok then Some (length a + (3 + length ?rep)) else None)"
      using reply_accepted [OF a(2) l, of "if ok then 0 else 4" down] that by simp
    then show ?thesis
      using pipeline_result [OF assms(1), of R' N'] that unfolding shake_result_def
      by (cases ok) (auto simp: io_def numeral_3_eq_3 split: option.splits)
  qed
  with s' show ?thesis by (intro exI [of _ s'] exI [of _ "a @ [5, if ok then 0 else 4, 0] @ ?rep"]) blast
qed

theorem client_server_handshake_witness:
  "\<exists>s' c'. hev_socks5_server_handshake default_timeouts no_resolver (ex_net 0)
       (ex_server ([5, 1, 2, 1, 1, 97, 1, 98] @ [5, 1, 0] @ enc_dest (Dst4 [10, 0, 0, 1] 80))) = Some (0, s')
     \<and> hev_socks5_client_handshake_pipeline no_resolver (ex_net 0)
        ((ex_client [RData (outs s' @ [42])])\<lparr>auth_user := Some [97], auth_pass := Some [98]\<rparr>) = Some (0, c') \<and> inflow c' = [42]"
proof -
  let ?c = "\<lambda>es. (ex_client es)\<lparr>auth_user := Some [97], auth_pass := Some [98]\<rparr>"
  let ?s = "ex_server ([5, 1, 2, 1, 1, 97, 1, 98] @ [5, 1, 0] @ enc_dest (Dst4 [10, 0, 0, 1] 80))"
  let ?sa = "\<lparr>sin6_family = AF_INET6, sin6_port = htons 80, sin6_addr = v4map [10, 0, 0, 1]\<rparr>"
  have c: "requestable (?c es) 1 (Dst4 [10, 0, 0, 1] 80)" "credentials_match (?c es) ?s"
    "offer (?c es) @ creds (?c es) = [5, 1, 2, 1, 1, 97, 1, 98]" "inflow (?c [RData inp]) = inp" for es inp
    using ex_client_requestable [of es]
    by (simp_all add: requestable_def clear_out_def creds_fit_def plain_client_def get_upstream_addr_def
        hev_socks5_client_tcp_get_upstream_addr_def credentials_match_def ex_server_simps offer_def creds_def
        inflow_def ex_client_def hev_socks5_client_construct_def hev_socks5_construct_def hev_socks5.defs)
  have e: "timeouts_pos default_timeouts" "resolver_ok no_resolver" "connectable (ex_net 0) [3] ?sa"
    by (simp_all add: timeouts_pos_def default_timeouts_def resolver_ok_def no_resolver_def connectable_def ex_net_def)
  have w: "\<exists>s'. hev_socks5_server_handshake default_timeouts no_resolver (ex_net 0) ?s = Some (0, s')
      \<and> (\<forall>down. inflow (?c es) = outs s' @ down \<longrightarrow>
        (\<exists>c'. hev_socks5_client_handshake_pipeline no_resolver (ex_net 0) (?c es) = Some (0, c') \<and> inflow c' = down))" for es
    using client_server_handshake [OF c(1,2) e(1) _ ex_net_ok [of 0] e(2), of es "[]" ?sa FAMILY_IPV4 True no_resolver "ex_net 0"]
      e(3) c(3) [of es] by (auto simp: ex_server_simps)
  obtain s' where s': "hev_socks5_server_handshake default_timeouts no_resolver (ex_net 0) ?s = Some (0, s')"
    using w [of "[]"] by blast
  with w [of "[RData (outs s' @ [42])]"] c(4) [of "outs s' @ [42]"] show ?thesis by auto
qed

section \<open>From a DNS query to a connection\<close>

text \<open>
  C3: A name survives the detour over an address.  An application that asks the tunnel for the
  address of a host name gets a reply whose last four bytes are an address, and when it then
  connects to that address, the session that the tunnel starts asks the proxy for the name, at
  the port of the connection.
\<close>

theorem dns_query_then_connect:
  assumes "labels_ok ls" "length (host_name ls) < 256" "tn_run t" "tn_dns t = Some d"
    and "dns_repr d as" "0 < d_max d" "map_layout k d" "tun_ok t xs" "tn_sess t node = None"
    and req: "req = [i0, i1, f0, f1, 0, 1] @ cnt @ enc_labels ls @ [0, 0, 1, 0, 1] @ extra" "length cnt = 6"
    and room: "length req \<le> length buf" "33 + length (enc_labels ls) \<le> length buf"
  shows "\<exists>reply t1 t2 se s. dns_recv_handler (Some buf) req t = Some (Some reply, t1)
     \<and> length reply = 33 + length (enc_labels ls)
     \<and> tcp_accept_handler m ERR_OK (Some node) True (IpV4 (drop (29 + length (enc_labels ls)) reply)) port c t1 = Some (ERR_OK, t2)
     \<and> tn_sess t2 node = Some se \<and> se_kind se = KTcp s \<and> c_addr s = Some (enc_dest (DstName (host_name ls) port))"
proof -
  let ?L = "length (enc_labels ls)"
  obtain i d' where f: "hev_mapped_dns_find d (host_name ls) = Some (i, d')"
    using find_valid [of d "host_name ls"] assms(5,6) unfolding dns_valid_def by blast
  obtain as' a where g: "0 \<le> i" by (rule find_last [OF assms(5,6) f])
  let ?ip = "d_net d' OR word_of_int i"
  let ?X = "[i0, i1] @ be16 (reply_flags (rd_be16 f0 f1)) @ [0, 1, 0, 1, 0, 0, 0, 0]
      @ enc_labels ls @ [0, 0, 1, 0, 1] @ take 12 (answer ?ip 12)"
  obtain sb where h: "hev_mapped_dns_handle d req buf = Done (int (33 + ?L), sb, d')"
    "take (33 + ?L) sb = ?X @ be32 ?ip"
    using handle_a [OF assms(1,5,6) req room f g] by (auto simp: answer_def write_u16_def write_u32_def be32_def)
  let ?t1 = "t\<lparr>tn_dns := Some d'\<rparr>"
  have r: "dns_recv_handler (Some buf) req t = Some (Some (take (33 + ?L) sb), ?t1)"
    using h(1) assms(4) by (simp add: dns_recv_handler_def nat_add_distrib)
  have l: "length (take (33 + ?L) sb) = 33 + ?L" "drop (29 + ?L) (take (33 + ?L) sb) = be32 ?ip"
  proof -
    have x: "length ?X = 29 + ?L" by simp
    show "length (take (33 + ?L) sb) = 33 + ?L" unfolding h(2) using x by (simp add: be32_def)
    show "drop (29 + ?L) (take (33 + ?L) sb) = be32 ?ip" unfolding h(2) using x by (metis append_eq_conv_conj)
  qed
  obtain s d'' where s: "hev_socks5_session_tcp_construct (Some d') (IpV4 (be32 ?ip)) port c = Some (0, s, Some d'')"
    "c_addr s = Some (enc_dest (DstName (host_name ls) port))" "sk_timeout s = -1"
    using accept_mapped [OF assms(5-7) f assms(2)] by blast
  let ?se = "\<lparr>se_kind = KTcp s, se_timeout = sk_timeout s, se_wakeups = 0\<rparr>" and ?t = "t\<lparr>tn_dns := Some d''\<rparr>"
  have ok: "tun_ok ?t xs" "tn_sess ?t node = None" "se_timeout ?se \<noteq> 0" using assms(8,9) s(3) by (simp_all add: tun_ok_def)
  obtain t2 se where t2: "start_session m node ?se ?t = Some t2" "tn_sess t2 node = Some se" "se_kind se = KTcp s"
    by (rule start_session_ok [OF ok, of m]) (auto split: if_splits)
  have "tcp_accept_handler m ERR_OK (Some node) True (IpV4 (be32 ?ip)) port c ?t1 = Some (ERR_OK, t2)"
    using assms(3) s(1) t2(1) by (simp add: tcp_accept_handler_def)
  with r l t2 s(2) show ?thesis by (intro exI) auto
qed

theorem dns_query_then_connect_witness:
  "\<exists>d reply t1 t2 se s. hev_mapped_dns_construct 0xC6120000 (NOT (mask 16)) 100 = Some d
     \<and> dns_recv_handler (Some (replicate 1500 0)) ([7, 8, 1, 0, 0, 1, 0, 0, 0, 0, 0, 0] @ [1, 97, 2, 105, 111] @ [0, 0, 1, 0, 1])
        (tunnel_static\<lparr>tn_run := True, tn_dns := Some d\<rparr>) = Some (Some reply, t1)
     \<and> tcp_accept_handler 0 ERR_OK (Some 1) True (IpV4 (drop 34 reply)) 443
        \<lparr>rx = [], tx = [], sent = [], errno_again = False\<rparr> t1 = Some (ERR_OK, t2)
     \<and> tn_sess t2 1 = Some se \<and> se_kind se = KTcp s \<and> c_addr s = Some (enc_dest (DstName [97, 46, 105, 111] 443))"
proof -
  obtain d where d: "hev_mapped_dns_construct 0xC6120000 (NOT (mask 16)) 100 = Some d"
    by (simp add: hev_mapped_dns_construct_def mask_numeral)
  note k = construct_repr [OF d]
  let ?ls = "[[97], [105, 111]] :: bytes list" and ?t = "tunnel_static\<lparr>tn_run := True, tn_dns := Some d\<rparr>"
  have e: "enc_labels ?ls = [1, 97, 2, 105, 111]" "labels_ok ?ls" "host_name ?ls = [97, 46, 105, 111]"
    by (simp_all add: enc_labels_def labels_ok_def host_name_def dotted_def)
  have "map_layout 16 d" using k(3-5) by (simp add: map_layout_def mask_numeral)
  moreover have "tun_ok ?t []" "tn_sess ?t 1 = None" "tn_run ?t" "tn_dns ?t = Some d"
    by (simp_all add: tun_ok_def tunnel_static_def)
  ultimately show ?thesis
    using dns_query_then_connect [of ?ls ?t d "[]" 16 "[]" 1 _ 7 8 1 0 "[0, 0, 0, 0, 0, 0]" "[]" "replicate 1500 0" 0 443
        "\<lparr>rx = [], tx = [], sent = [], errno_again = False\<rparr>"] k(1,3) d e by auto
qed

end
